(* ===== verification/Prelude.thy ===== *)
theory Prelude
  imports Main "HOL-Library.Word" "HOL-Library.AList" "HOL-Library.Signed_Division"
begin

text \<open>
  What every component shares: the machine types of the program (a C \<^verbatim>\<open>int\<close> is a 32-bit
  word, a \<^verbatim>\<open>void*\<close> a 64-bit word), the faults that stand for undefined behaviour of
  C++ (dereferencing an invalid iterator, \<^verbatim>\<open>back()\<close> of an empty list, an index past the
  end of a vector, reading an indeterminate value), the sequencing of fallible
  operations, and lemmas on association lists and filters.
\<close>

section \<open>Machine types and faults\<close>

type_synonym int32 = "32 word"
type_synonym addr = "64 word"

abbreviation nullptr :: addr where
  "nullptr \<equiv> 0"

datatype fault =
    InvalidIterator
  | EmptyContainer
  | IndexOutOfRange
  | IndeterminateValue
  | NullPointer
  | LengthError
  | OverflowError

type_synonym 'a result = "fault + 'a"

named_theorems fault_simps \<open>sequencing of fallible operations\<close>
named_theorems frame_simps \<open>fields an operation leaves alone\<close>

section \<open>Sequencing\<close>

definition andThen :: "'a result \<Rightarrow> ('a \<Rightarrow> 'b result) \<Rightarrow> 'b result" where
  "andThen m f = (case m of Inl e \<Rightarrow> Inl e | Inr x \<Rightarrow> f x)"

lemma andThen_Inl [simp]: "andThen (Inl e) f = Inl e"
  by (simp add: andThen_def)

lemma andThen_Inr [simp]: "andThen (Inr x) f = f x"
  by (simp add: andThen_def)

lemma andThen_assoc: "andThen (andThen m f) g = andThen m (\<lambda>x. andThen (f x) g)"
  by (cases m) simp_all

lemma andThen_eq_Inr [fault_simps]:
  "andThen m f = Inr y \<longleftrightarrow> (\<exists>x. m = Inr x \<and> f x = Inr y)"
  by (cases m) simp_all

lemma andThen_eq_Inl [fault_simps]:
  "andThen m f = Inl e \<longleftrightarrow> m = Inl e \<or> (\<exists>x. m = Inr x \<and> f x = Inl e)"
  by (cases m) simp_all

lemma andThen_cong [fundef_cong]:
  "m = m' \<Longrightarrow> (\<And>x. m' = Inr x \<Longrightarrow> f x = f' x) \<Longrightarrow> andThen m f = andThen m' f'"
  by (cases m') simp_all

text \<open>A loop over a list whose body may fault, as the range loops of the source.\<close>

fun foldE :: "('a \<Rightarrow> 's \<Rightarrow> 's result) \<Rightarrow> 'a list \<Rightarrow> 's \<Rightarrow> 's result" where
  "foldE f [] s = Inr s"
| "foldE f (x # xs) s = andThen (f x s) (foldE f xs)"

lemma foldE_append: "foldE f (xs @ ys) s = andThen (foldE f xs s) (foldE f ys)"
proof (induction xs arbitrary: s)
  case (Cons x xs)
  then show ?case by (cases "f x s") simp_all
qed simp

lemma foldE_invariant:
  assumes "\<And>x s s'. x \<in> set xs \<Longrightarrow> P s \<Longrightarrow> f x s = Inr s' \<Longrightarrow> P s'"
    and "foldE f xs s = Inr t" and "P s"
  shows "P t"
  using assms by (induction xs arbitrary: s) (auto simp: fault_simps)

lemma foldE_total:
  assumes "\<And>x s. x \<in> set xs \<Longrightarrow> P s \<Longrightarrow> \<exists>s'. f x s = Inr s' \<and> P s'" and "P s"
  shows "\<exists>t. foldE f xs s = Inr t \<and> P t"
  using assms
proof (induction xs arbitrary: s)
  case (Cons x xs)
  from Cons.prems obtain s' where "f x s = Inr s'" "P s'" by (meson list.set_intros(1))
  moreover from \<open>P s'\<close> Cons.prems(1) obtain t where "foldE f xs s' = Inr t" "P t"
    using Cons.IH [of s'] by auto
  ultimately show ?case by simp
qed simp

section \<open>Vectors\<close>

text \<open>Indexing of a \<^verbatim>\<open>std::vector\<close>: \<^verbatim>\<open>operator[]\<close> past the end is undefined.\<close>

definition vec_at :: "'a list \<Rightarrow> nat \<Rightarrow> 'a result" where
  "vec_at xs i = (if i < length xs then Inr (xs ! i) else Inl IndexOutOfRange)"

lemma vec_at_Inr [simp]: "vec_at xs i = Inr x \<longleftrightarrow> i < length xs \<and> x = xs ! i"
  by (auto simp: vec_at_def)

lemma vec_at_inside [simp]: "i < length xs \<Longrightarrow> vec_at xs i = Inr (xs ! i)"
  by simp

lemma vec_at_outside [simp]: "\<not> i < length xs \<Longrightarrow> vec_at xs i = Inl IndexOutOfRange"
  by (simp add: vec_at_def)

section \<open>Association lists with distinct keys\<close>

lemma map_of_eq_Some_iff':
  "distinct (map fst xs) \<Longrightarrow> map_of xs k = Some v \<longleftrightarrow> (k, v) \<in> set xs"
  by simp

lemma map_of_filter_fst:
  "map_of (filter (\<lambda>p. fst p \<noteq> k) xs) = (map_of xs)(k := None)"
  by (induction xs) auto

lemma map_of_filter_neq [simp]:
  "map_of (filter (\<lambda>p. fst p \<noteq> k) xs) k' = (if k' = k then None else map_of xs k')"
  by (simp add: map_of_filter_fst)

lemma distinct_map_filter': "distinct (map f xs) \<Longrightarrow> distinct (map f (filter P xs))"
  by (rule distinct_map_filter)

lemma map_of_append_distinct:
  "distinct (map fst (xs @ [(k, v)])) \<Longrightarrow>
    map_of (xs @ [(k, v)]) k' = (if k' = k then Some v else map_of xs k')"
  by (induction xs) auto

lemma map_of_butlast:
  assumes "distinct (map fst xs)" and "xs \<noteq> []"
  shows "map_of (butlast xs) k = (if k = fst (last xs) then None else map_of xs k)"
proof -
  obtain ys k0 v0 where xs: "xs = ys @ [(k0, v0)]"
    using assms(2) by (metis append_butlast_last_id surj_pair)
  have "map_of ys k0 = None"
    using assms(1) by (auto simp: xs map_of_eq_None_iff)
  then show ?thesis
    using map_of_append_distinct [of ys k0 v0 k] assms(1) by (simp add: xs)
qed

lemma distinct_butlast_map: "distinct (map f xs) \<Longrightarrow> distinct (map f (butlast xs))"
  by (metis distinct_butlast map_butlast)

section \<open>Sign extension\<close>

lemma sint_scast_32_64 [simp]: "sint (scast (x :: 32 word) :: 64 word) = sint x"
  by (rule sint_up_scast) (simp add: is_up)

lemma scast_32_64_eq_0 [simp]: "(scast (x :: 32 word) :: 64 word) = 0 \<longleftrightarrow> x = 0"
proof
  assume "(scast x :: 64 word) = 0"
  then have "sint x = 0" using sint_scast_32_64 [of x] by (simp del: sint_scast_32_64)
  then show "x = 0" by (simp add: signed_eq_0_iff)
qed simp

end
