(* ===== verification/Lru_Cache.thy ===== *)
theory Lru_Cache
  imports Prelude
begin

text \<open>
  The template \<^verbatim>\<open>LRUCache<Key, Value>\<close> of \<^verbatim>\<open>src/src/cache.h\<close>: a \<^verbatim>\<open>std::list\<close> of
  key/value pairs, most recently used first, and an \<^verbatim>\<open>unordered_map\<close> from keys to
  iterators into that list. The list is modelled with its nodes: every node carries the
  identity its iterators hold, so that an iterator to an erased node is a dangling one
  and dereferencing it is a fault. The second half of the theory shows that no operation
  faults on a well-formed cache and that the structure implements a plain list in
  recency order.
\<close>

section \<open>The list and its iterators\<close>

datatype iterator = Node nat | End

type_synonym ('k, 'v) nodes = "(nat \<times> 'k \<times> 'v) list"

fun deref :: "iterator \<Rightarrow> ('k, 'v) nodes \<Rightarrow> ('k \<times> 'v) result" where
  "deref End ls = Inl InvalidIterator"
| "deref (Node n) ls =
     (case map_of ls n of None \<Rightarrow> Inl InvalidIterator | Some kv \<Rightarrow> Inr kv)"

definition list_erase :: "iterator \<Rightarrow> ('k, 'v) nodes \<Rightarrow> ('k, 'v) nodes result" where
  "list_erase it ls = andThen (deref it ls) (\<lambda>_. Inr (filter (\<lambda>p. Node (fst p) \<noteq> it) ls))"

definition store_second :: "iterator \<Rightarrow> 'v \<Rightarrow> ('k, 'v) nodes \<Rightarrow> ('k, 'v) nodes result" where
  "store_second it v ls =
     andThen (deref it ls)
       (\<lambda>_. Inr (map (\<lambda>(n, k, w). if Node n = it then (n, k, v) else (n, k, w)) ls))"

definition list_begin :: "('k, 'v) nodes \<Rightarrow> iterator" where
  "list_begin ls = (case ls of [] \<Rightarrow> End | p # _ \<Rightarrow> Node (fst p))"

definition list_back :: "('k, 'v) nodes \<Rightarrow> ('k \<times> 'v) result" where
  "list_back ls = (if ls = [] then Inl EmptyContainer else Inr (snd (last ls)))"

definition list_pop_back :: "('k, 'v) nodes \<Rightarrow> ('k, 'v) nodes result" where
  "list_pop_back ls = (if ls = [] then Inl EmptyContainer else Inr (butlast ls))"

section \<open>The class\<close>

record ('k, 'v) LRUCache =
  lru_list :: "('k, 'v) nodes"
  hash_map :: "('k \<times> iterator) list"
  cap :: int32
  cold_misses :: int32
  capacity_misses :: int32
  fresh :: nat

definition LRUCache_default :: "('k, 'v) LRUCache" where
  "LRUCache_default =
     \<lparr>lru_list = [], hash_map = [], cap = 5, cold_misses = 0, capacity_misses = 0, fresh = 0\<rparr>"

definition LRUCache_of_capacity :: "int32 \<Rightarrow> ('k, 'v) LRUCache" where
  "LRUCache_of_capacity capacity =
     \<lparr>lru_list = [], hash_map = [], cap = capacity, cold_misses = 0, capacity_misses = 0, fresh = 0\<rparr>"

definition resize :: "int32 \<Rightarrow> ('k, 'v) LRUCache \<Rightarrow> ('k, 'v) LRUCache" where
  "resize capacity c = c\<lparr>cap := capacity\<rparr>"

text \<open>\<^verbatim>\<open>list_.push_front\<close> allocates a node with an identity no node had before.\<close>

definition push_front :: "'k \<times> 'v \<Rightarrow> ('k, 'v) LRUCache \<Rightarrow> ('k, 'v) LRUCache" where
  "push_front kv c = c\<lparr>lru_list := (fresh c, kv) # lru_list c, fresh := Suc (fresh c)\<rparr>"

definition promote :: "iterator \<Rightarrow> ('k, 'v) LRUCache \<Rightarrow> ('k, 'v) LRUCache result" where
  "promote it c =
     andThen (deref it (lru_list c)) (\<lambda>pa.
     andThen (list_erase it (lru_list c)) (\<lambda>ls.
       let c1 = push_front pa (c\<lparr>lru_list := ls\<rparr>)
       in Inr (c1\<lparr>hash_map := AList.update (fst pa) (list_begin (lru_list c1)) (hash_map c1)\<rparr>)))"

text \<open>
  The test \<^verbatim>\<open>hash_map_.size() == cap\<close> compares a 64-bit unsigned size with an int: the
  int is sign extended.
\<close>

definition full :: "('k, 'v) LRUCache \<Rightarrow> bool" where
  "full c \<longleftrightarrow> (of_nat (length (hash_map c)) :: 64 word) = scast (cap c)"

definition evict :: "('k, 'v) LRUCache \<Rightarrow> ('k, 'v) LRUCache result" where
  "evict c =
     andThen (list_back (lru_list c)) (\<lambda>p.
     andThen (list_pop_back (lru_list c)) (\<lambda>ls.
       Inr (c\<lparr>hash_map := AList.delete (fst p) (hash_map c), lru_list := ls,
              capacity_misses := capacity_misses c + 1\<rparr>)))"

definition put :: "'k \<Rightarrow> 'v \<Rightarrow> ('k, 'v) LRUCache \<Rightarrow> ('k, 'v) LRUCache result" where
  "put key value c =
     (case map_of (hash_map c) key of
        None \<Rightarrow>
          andThen (if full c then evict c else Inr (c\<lparr>cold_misses := cold_misses c + 1\<rparr>)) (\<lambda>c1.
            let c2 = push_front (key, value) c1
            in Inr (c2\<lparr>hash_map := AList.update key (list_begin (lru_list c2)) (hash_map c2)\<rparr>))
      | Some it \<Rightarrow>
          andThen (store_second it value (lru_list c)) (\<lambda>ls. promote it (c\<lparr>lru_list := ls\<rparr>)))"

text \<open>
  \<^verbatim>\<open>Value(key)\<close> and \<^verbatim>\<open>Value()\<close> are the constructors of the template's value type; they
  are the parameters \<open>mk\<close> and \<open>dflt\<close>.
\<close>

definition get :: "('k \<Rightarrow> 'v) \<Rightarrow> 'v \<Rightarrow> 'k \<Rightarrow> bool \<Rightarrow> ('k, 'v) LRUCache \<Rightarrow>
    ('v \<times> ('k, 'v) LRUCache) result" where
  "get mk dflt key create_new c =
     (case map_of (hash_map c) key of
        None \<Rightarrow>
          (if create_new then andThen (put key (mk key) c) (\<lambda>c'. Inr (mk key, c'))
           else Inr (dflt, c))
      | Some it \<Rightarrow>
          andThen (deref it (lru_list c)) (\<lambda>pair.
            if it \<noteq> End then andThen (promote it c) (\<lambda>c'. Inr (snd pair, c'))
            else Inr (dflt, c)))"

text \<open>
  \<^verbatim>\<open>checkin\<close> and \<^verbatim>\<open>checklast\<close> take the list by value: the parameter is a copy, whose
  nodes are new ones.
\<close>

definition list_copy :: "nat \<Rightarrow> ('k, 'v) nodes \<Rightarrow> ('k, 'v) nodes" where
  "list_copy n ls = zip [n..<n + length ls] (map snd ls)"

fun checkin_loop :: "iterator \<Rightarrow> ('k, 'v) nodes \<Rightarrow> bool" where
  "checkin_loop it [] = False"
| "checkin_loop it (p # ls) = (if it = Node (fst p) then True else checkin_loop it ls)"

definition checkin :: "iterator \<Rightarrow> ('k, 'v) LRUCache \<Rightarrow> bool" where
  "checkin it c = checkin_loop it (list_copy (fresh c) (lru_list c))"

text \<open>Falling off the end of \<^verbatim>\<open>checklast\<close> leaves its result indeterminate.\<close>

fun checklast_loop :: "iterator \<Rightarrow> ('k, 'v) nodes \<Rightarrow> bool result" where
  "checklast_loop it [] = Inl IndeterminateValue"
| "checklast_loop it [p] = Inr (it = Node (fst p))"
| "checklast_loop it (p # ls) = checklast_loop it ls"

definition checklast :: "iterator \<Rightarrow> ('k, 'v) LRUCache \<Rightarrow> bool result" where
  "checklast it c = checklast_loop it (list_copy (fresh c) (lru_list c))"

section \<open>Well-formed caches and what they hold\<close>

definition lru_ok :: "('k, 'v) LRUCache \<Rightarrow> bool" where
  "lru_ok c \<longleftrightarrow>
     distinct (map fst (lru_list c)) \<and>
     (\<forall>p \<in> set (lru_list c). fst p < fresh c) \<and>
     distinct (map (fst \<circ> snd) (lru_list c)) \<and>
     distinct (map fst (hash_map c)) \<and>
     (\<forall>k it. map_of (hash_map c) k = Some it \<longleftrightarrow>
        (\<exists>n v. it = Node n \<and> (n, k, v) \<in> set (lru_list c)))"

text \<open>The pairs in recency order, and the lookup they give.\<close>

definition contents :: "('k, 'v) LRUCache \<Rightarrow> ('k \<times> 'v) list" where
  "contents c = map snd (lru_list c)"

definition lookup :: "('k, 'v) LRUCache \<Rightarrow> 'k \<Rightarrow> 'v option" where
  "lookup c = map_of (contents c)"

text \<open>The reference: a list in recency order that drops its last pair when it is full.\<close>

definition touch :: "'k \<Rightarrow> 'v \<Rightarrow> ('k \<times> 'v) list \<Rightarrow> ('k \<times> 'v) list" where
  "touch k v xs = (k, v) # filter (\<lambda>p. fst p \<noteq> k) xs"

definition spec_put :: "bool \<Rightarrow> 'k \<Rightarrow> 'v \<Rightarrow> ('k \<times> 'v) list \<Rightarrow> ('k \<times> 'v) list" where
  "spec_put is_full k v xs =
     (if k \<in> fst ` set xs then touch k v xs
      else (k, v) # (if is_full then butlast xs else xs))"

definition spec_get :: "bool \<Rightarrow> ('k \<Rightarrow> 'v) \<Rightarrow> 'v \<Rightarrow> 'k \<Rightarrow> bool \<Rightarrow> ('k \<times> 'v) list \<Rightarrow>
    'v \<times> ('k \<times> 'v) list" where
  "spec_get is_full mk dflt k create xs =
     (case map_of xs k of
        Some v \<Rightarrow> (v, touch k v xs)
      | None \<Rightarrow> if create then (mk k, spec_put is_full k (mk k) xs) else (dflt, xs))"

lemma lru_ok_initial [simp]: "lru_ok LRUCache_default" "lru_ok (LRUCache_of_capacity n)"
  by (simp_all add: lru_ok_def LRUCache_default_def LRUCache_of_capacity_def)

lemma empty_cache [simp]:
  "contents (LRUCache_of_capacity n) = []" "cap (LRUCache_of_capacity n) = n"
  "full (LRUCache_of_capacity n) \<longleftrightarrow> n = 0" "cold_misses (LRUCache_of_capacity n) = 0"
  by (auto simp: LRUCache_of_capacity_def contents_def full_def)

lemma lru_ok_keys: "lru_ok c \<Longrightarrow> distinct (map fst (contents c))"
  by (simp add: lru_ok_def contents_def)

lemma lru_ok_resize [simp]: "lru_ok (resize n c) = lru_ok c"
  by (simp add: lru_ok_def resize_def)

lemma hash_map_Some:
  "lru_ok c \<Longrightarrow> map_of (hash_map c) k = Some it \<longleftrightarrow>
     (\<exists>n v. it = Node n \<and> (n, k, v) \<in> set (lru_list c))"
  by (simp add: lru_ok_def)

lemma hash_map_None:
  "lru_ok c \<Longrightarrow> map_of (hash_map c) k = None \<longleftrightarrow> k \<notin> fst ` set (contents c)"
proof -
  assume "lru_ok c"
  then have "map_of (hash_map c) k = None \<longleftrightarrow> (\<nexists>n v. (n, k, v) \<in> set (lru_list c))"
    using hash_map_Some [of c k] by (metis not_None_eq)
  also have "\<dots> \<longleftrightarrow> k \<notin> fst ` set (contents c)"
    by (auto simp: contents_def image_iff)
  finally show ?thesis .
qed

lemma keys_hash_map: "lru_ok c \<Longrightarrow> fst ` set (hash_map c) = fst ` set (contents c)"
  using hash_map_None [of c] by (metis (no_types, lifting) map_of_eq_None_iff set_eq_iff)

lemma length_hash_map: "lru_ok c \<Longrightarrow> length (hash_map c) = length (lru_list c)"
proof -
  assume ok: "lru_ok c"
  then have "length (hash_map c) = card (fst ` set (hash_map c))"
    by (metis distinct_card length_map list.set_map lru_ok_def)
  also have "\<dots> = card (set (map fst (contents c)))"
    using keys_hash_map [OF ok] by simp
  also have "\<dots> = length (lru_list c)"
    using distinct_card [OF lru_ok_keys [OF ok]] by (simp add: contents_def)
  finally show ?thesis .
qed

text \<open>Putting a new node in front of a list that lacks its key, whatever happened before.\<close>

definition link :: "'k \<Rightarrow> 'v \<Rightarrow> ('k, 'v) LRUCache \<Rightarrow> ('k, 'v) LRUCache" where
  "link k v c = c\<lparr>lru_list := (fresh c, k, v) # lru_list c, fresh := Suc (fresh c),
                  hash_map := AList.update k (Node (fresh c)) (hash_map c)\<rparr>"

lemma push_front_link:
  "(let c1 = push_front (k, v) c
    in Inr (c1\<lparr>hash_map := AList.update k (list_begin (lru_list c1)) (hash_map c1)\<rparr>))
   = Inr (link k v c)"
  by (simp add: push_front_def link_def list_begin_def)

lemma lru_ok_link:
  assumes "distinct (map fst (lru_list c))" and "\<forall>p \<in> set (lru_list c). fst p < fresh c"
    and "distinct (map (fst \<circ> snd) (lru_list c))" and "distinct (map fst (hash_map c))"
    and "k \<notin> fst ` snd ` set (lru_list c)"
    and "\<And>k' it. k' \<noteq> k \<Longrightarrow> map_of (hash_map c) k' = Some it \<longleftrightarrow>
          (\<exists>n v. it = Node n \<and> (n, k', v) \<in> set (lru_list c))"
  shows "lru_ok (link k v c)"
  unfolding lru_ok_def
proof (intro conjI allI)
  fix k' it
  show "map_of (hash_map (link k v c)) k' = Some it \<longleftrightarrow>
      (\<exists>n v'. it = Node n \<and> (n, k', v') \<in> set (lru_list (link k v c)))"
  proof (cases "k' = k")
    case True
    have "(\<nexists>n v'. (n, k, v') \<in> set (lru_list c))"
      using assms(5) by (auto simp: image_iff)
    with True show ?thesis by (auto simp: link_def update_conv')
  next
    case False
    with assms(6) show ?thesis by (simp add: link_def update_conv')
  qed
next
  show "distinct (map fst (lru_list (link k v c)))"
    using assms(1,2) by (auto simp: link_def)
  show "\<forall>p \<in> set (lru_list (link k v c)). fst p < fresh (link k v c)"
    using assms(2) by (auto simp: link_def less_Suc_eq)
  show "distinct (map (fst \<circ> snd) (lru_list (link k v c)))"
    using assms(3,5) by (auto simp: link_def image_iff)
  show "distinct (map fst (hash_map (link k v c)))"
    using assms(4) by (simp add: link_def distinct_update)
qed

lemma contents_link [simp]: "contents (link k v c) = (k, v) # contents c"
  by (simp add: contents_def link_def)

lemma link_frame [frame_simps]:
  "cap (link k v c) = cap c"
  "cold_misses (link k v c) = cold_misses c"
  "capacity_misses (link k v c) = capacity_misses c"
  by (simp_all add: link_def)

section \<open>Each operation on a well-formed cache\<close>

abbreviation unlink :: "nat \<Rightarrow> ('k, 'v) LRUCache \<Rightarrow> ('k, 'v) LRUCache" where
  "unlink n c \<equiv> c\<lparr>lru_list := filter (\<lambda>p. fst p \<noteq> n) (lru_list c)\<rparr>"

lemma node_of_key:
  assumes "lru_ok c" and "(n, k, v) \<in> set (lru_list c)" and "p \<in> set (lru_list c)"
  shows "fst p = n \<longleftrightarrow> fst (snd p) = k"
proof
  assume "fst p = n"
  with assms show "fst (snd p) = k"
    by (metis eq_key_imp_eq_value fst_conv lru_ok_def prod.collapse)
next
  assume "fst (snd p) = k"
  moreover have "inj_on (fst \<circ> snd) (set (lru_list c))"
    using assms(1) by (simp add: lru_ok_def distinct_map)
  ultimately show "fst p = n"
    using assms(2,3) inj_onD [of "fst \<circ> snd" "set (lru_list c)" p "(n, k, v)"] by simp
qed

lemma deref_node:
  "lru_ok c \<Longrightarrow> (n, k, v) \<in> set (lru_list c) \<Longrightarrow> deref (Node n) (lru_list c) = Inr (k, v)"
  by (simp add: lru_ok_def)

lemma map_of_contents:
  "lru_ok c \<Longrightarrow> (n, k, v) \<in> set (lru_list c) \<Longrightarrow> map_of (contents c) k = Some v"
  using lru_ok_keys [of c] by (force simp: contents_def)

lemma contents_unlink:
  assumes "lru_ok c" and "(n, k, v) \<in> set (lru_list c)"
  shows "contents (unlink n c) = filter (\<lambda>p. fst p \<noteq> k) (contents c)"
proof -
  have "filter (\<lambda>p. fst p \<noteq> n) (lru_list c) = filter (\<lambda>p. fst (snd p) \<noteq> k) (lru_list c)"
    using node_of_key [OF assms] by (intro filter_cong) simp_all
  then show ?thesis by (simp add: contents_def filter_map comp_def)
qed

lemma lru_ok_relink:
  assumes ok: "lru_ok c" and n: "(n, k, v) \<in> set (lru_list c)"
  shows "lru_ok (link k v' (unlink n c))"
    and "contents (link k v' (unlink n c)) = touch k v' (contents c)"
proof -
  note key = node_of_key [OF ok n]
  show "lru_ok (link k v' (unlink n c))"
  proof (rule lru_ok_link)
    show "k \<notin> fst ` snd ` set (lru_list (unlink n c))"
      using key by auto
    fix k' it
    assume "k' \<noteq> k"
    then show "map_of (hash_map (unlink n c)) k' = Some it \<longleftrightarrow>
        (\<exists>n' v. it = Node n' \<and> (n', k', v) \<in> set (lru_list (unlink n c)))"
      using hash_map_Some [OF ok] key by fastforce
  qed (use ok in \<open>auto simp: lru_ok_def distinct_map_filter\<close>)
  show "contents (link k v' (unlink n c)) = touch k v' (contents c)"
    using contents_unlink [OF ok n] by (simp add: touch_def)
qed

lemma promote_node:
  assumes "lru_ok c" and "(n, k, v) \<in> set (lru_list c)"
  shows "promote (Node n) c = Inr (link k v (unlink n c))"
  using deref_node [OF assms]
  by (simp add: promote_def list_erase_def push_front_link del: deref.simps)

lemma filter_stored:
  "filter (\<lambda>p. fst p \<noteq> n)
     (map (\<lambda>(m, j, u). if m = n then (m, j, v) else (m, j, u)) ls)
   = filter (\<lambda>p. fst p \<noteq> n) ls"
  by (induction ls) (auto split: if_splits)

lemma put_hit:
  assumes ok: "lru_ok c" and n: "(n, k, w) \<in> set (lru_list c)"
  shows "put k v c = Inr (link k v (unlink n c))"
proof -
  define ls where "ls = map (\<lambda>(m, j, u). if m = n then (m, j, v) else (m, j, u)) (lru_list c)"
  have found: "map_of (hash_map c) k = Some (Node n)"
    using ok n by (auto simp: hash_map_Some)
  have ids: "map fst ls = map fst (lru_list c)"
    by (auto simp: ls_def)
  have "(n, k, v) \<in> set ls"
    using n by (force simp: ls_def)
  then have "deref (Node n) ls = Inr (k, v)"
    using ok ids by (simp add: lru_ok_def)
  moreover have "filter (\<lambda>p. fst p \<noteq> n) ls = filter (\<lambda>p. fst p \<noteq> n) (lru_list c)"
    unfolding ls_def by (rule filter_stored)
  ultimately show ?thesis
    using deref_node [OF ok n] found
    by (simp add: put_def store_second_def promote_def list_erase_def push_front_link
        flip: ls_def del: deref.simps)
qed

text \<open>A miss links a new node after making room for it, or after counting a cold miss.\<close>

definition make_room :: "('k, 'v) LRUCache \<Rightarrow> ('k, 'v) LRUCache" where
  "make_room c =
     (if full c
      then c\<lparr>hash_map := AList.delete (fst (snd (last (lru_list c)))) (hash_map c),
             lru_list := butlast (lru_list c), capacity_misses := capacity_misses c + 1\<rparr>
      else c\<lparr>cold_misses := cold_misses c + 1\<rparr>)"

lemma evict_nonempty:
  "lru_list c \<noteq> [] \<Longrightarrow> full c \<Longrightarrow> evict c = Inr (make_room c)"
  by (simp add: evict_def list_back_def list_pop_back_def make_room_def)

text \<open>A cache that faults on a miss has capacity 0: \<^verbatim>\<open>list_.back()\<close> of an empty list.\<close>

lemma full_empty: "lru_ok c \<Longrightarrow> full c \<Longrightarrow> lru_list c = [] \<Longrightarrow> cap c = 0"
  using length_hash_map [of c] by (simp add: full_def scast_32_64_eq_0)

lemma put_miss:
  assumes "lru_ok c" and "cap c \<noteq> 0" and "k \<notin> fst ` set (contents c)"
  shows "put k v c = Inr (link k v (make_room c))"
proof -
  have "map_of (hash_map c) k = None"
    using assms by (simp add: hash_map_None)
  moreover have "full c \<Longrightarrow> evict c = Inr (make_room c)"
    using evict_nonempty full_empty assms by blast
  ultimately show ?thesis
    by (simp add: put_def push_front_link) (simp add: make_room_def)
qed

lemma contents_make_room:
  "contents (make_room c) = (if full c then butlast (contents c) else contents c)"
  by (simp add: make_room_def contents_def map_butlast)

lemma lru_ok_make_room:
  assumes ok: "lru_ok c" and "cap c \<noteq> 0"
  shows "lru_ok (make_room c)"
proof (cases "full c")
  case True
  with assms have "lru_list c \<noteq> []" using full_empty by blast
  then obtain ls n0 k0 v0 where ls: "lru_list c = ls @ [(n0, k0, v0)]"
    by (metis append_butlast_last_id surj_pair)
  have old: "(n, k, v) \<in> set ls \<longleftrightarrow> (n, k, v) \<in> set (lru_list c) \<and> k \<noteq> k0" for n k v
    using ok by (auto simp: lru_ok_def ls image_iff)
  have "map_of (AList.delete k0 (hash_map c)) k = Some it \<longleftrightarrow>
      (\<exists>n v. it = Node n \<and> (n, k, v) \<in> set ls)" for k it
    using hash_map_Some [OF ok, of k it] old by (auto simp: delete_conv')
  with True ok show ?thesis
    by (auto simp: lru_ok_def make_room_def ls distinct_delete)
next
  case False
  with ok show ?thesis by (simp add: make_room_def lru_ok_def)
qed

lemma lru_ok_link_new:
  assumes "lru_ok c" and "k \<notin> fst ` set (contents c)"
  shows "lru_ok (link k v c)"
proof (rule lru_ok_link)
  show "k \<notin> fst ` snd ` set (lru_list c)"
    using assms(2) by (simp add: contents_def image_image)
qed (use assms(1) in \<open>simp_all add: lru_ok_def\<close>)

lemma make_room_frame [frame_simps]:
  "cap (make_room c) = cap c"
  "cold_misses (make_room c) = (if full c then cold_misses c else cold_misses c + 1)"
  "capacity_misses (make_room c) = (if full c then capacity_misses c + 1 else capacity_misses c)"
  by (simp_all add: make_room_def)

text \<open>The three outcomes of an access, for the proofs that follow.\<close>

lemma key_cases:
  assumes "lru_ok c"
  obtains (hit) n v where "(n, k, v) \<in> set (lru_list c)" "map_of (contents c) k = Some v"
      "k \<in> fst ` set (contents c)"
    | (miss) "k \<notin> fst ` set (contents c)" "map_of (contents c) k = None"
proof (cases "k \<in> fst ` set (contents c)")
  case True
  then obtain n v where "(n, k, v) \<in> set (lru_list c)"
    by (auto simp: contents_def)
  with True map_of_contents [OF assms this] show ?thesis by (intro hit)
next
  case False
  then show ?thesis by (intro miss) (simp_all add: map_of_eq_None_iff)
qed

lemma put_correct:
  assumes "lru_ok c" and "cap c \<noteq> 0"
  shows "\<exists>c'. put k v c = Inr c' \<and> lru_ok c' \<and> cap c' = cap c \<and>
     contents c' = spec_put (full c) k v (contents c)"
  using assms(1)
proof (cases rule: key_cases [where k = k])
  case (hit n w)
  with assms show ?thesis
    using put_hit [OF assms(1) hit(1), of v] lru_ok_relink [OF assms(1) hit(1), of v]
    by (simp add: spec_put_def link_frame)
next
  case miss
  have "k \<notin> fst ` set (contents (make_room c))"
    using miss(1) by (auto simp: contents_make_room dest: in_set_butlastD)
  then have "lru_ok (link k v (make_room c))"
    by (intro lru_ok_link_new lru_ok_make_room assms)
  then show ?thesis
    using put_miss [OF assms miss(1), of v] miss(1)
    by (simp add: spec_put_def frame_simps contents_make_room)
qed

lemma get_correct:
  assumes "lru_ok c" and "cap c \<noteq> 0"
  shows "\<exists>x c'. get mk dflt k create c = Inr (x, c') \<and> lru_ok c' \<and> cap c' = cap c \<and>
     (x, contents c') = spec_get (full c) mk dflt k create (contents c)"
  using assms(1)
proof (cases rule: key_cases [where k = k])
  case (hit n w)
  have "map_of (hash_map c) k = Some (Node n)"
    using assms(1) hit(1) by (auto simp: hash_map_Some)
  with hit show ?thesis
    using deref_node [OF assms(1) hit(1)] promote_node [OF assms(1) hit(1)]
      lru_ok_relink [OF assms(1) hit(1), of w]
    by (simp add: get_def spec_get_def link_frame del: deref.simps)
next
  case miss
  then have "map_of (hash_map c) k = None"
    using assms(1) by (simp add: hash_map_None)
  with miss show ?thesis
    using put_correct [OF assms, of k "mk k"] assms
    by (cases create) (auto simp: get_def spec_get_def)
qed

section \<open>The interface the protocol relies on\<close>

text \<open>
  A store that may forget: what a client may rely on is that a \<^verbatim>\<open>put\<close> succeeds, is seen by
  the next lookup, and leaves every other key either as it was or forgotten; and that a
  \<^verbatim>\<open>get\<close> without creation changes no lookup.
\<close>

locale forgetful_store =
  fixes seen :: "'s \<Rightarrow> 'k \<Rightarrow> 'v option"
    and store :: "'k \<Rightarrow> 'v \<Rightarrow> 's \<Rightarrow> 's result"
    and fetch :: "('k \<Rightarrow> 'v) \<Rightarrow> 'v \<Rightarrow> 'k \<Rightarrow> bool \<Rightarrow> 's \<Rightarrow> ('v \<times> 's) result"
    and usable :: "'s \<Rightarrow> bool"
  assumes store_total: "usable s \<Longrightarrow> \<exists>s'. store k v s = Inr s' \<and> usable s'"
    and store_same: "usable s \<Longrightarrow> store k v s = Inr s' \<Longrightarrow> seen s' k = Some v"
    and store_other: "usable s \<Longrightarrow> store k v s = Inr s' \<Longrightarrow> k' \<noteq> k \<Longrightarrow>
          seen s' k' = seen s k' \<or> seen s' k' = None"
    and store_known: "usable s \<Longrightarrow> seen s k \<noteq> None \<Longrightarrow> store k v s = Inr s' \<Longrightarrow>
          seen s' = (seen s)(k \<mapsto> v)"
    and fetch_hit: "usable s \<Longrightarrow> seen s k = Some v \<Longrightarrow>
          \<exists>s'. fetch mk d k create s = Inr (v, s') \<and> usable s' \<and> seen s' = seen s"
    and fetch_absent: "usable s \<Longrightarrow> seen s k = None \<Longrightarrow> fetch mk d k False s = Inr (d, s)"
    and fetch_create: "usable s \<Longrightarrow> seen s k = None \<Longrightarrow>
          fetch mk d k True s = andThen (store k (mk k) s) (\<lambda>s'. Inr (mk k, s'))"
begin

lemma store_usable: "usable s \<Longrightarrow> store k v s = Inr s' \<Longrightarrow> usable s'"
  using store_total [of s k v] by auto

lemma store_seen:
  assumes "usable s" and "store k v s = Inr s'" and "seen s' k' = Some w"
  shows "(k' = k \<and> w = v) \<or> (k' \<noteq> k \<and> seen s k' = Some w)"
  using store_same [OF assms(1,2)] store_other [OF assms(1,2), of k'] assms(3)
  by (cases "k' = k") auto

lemma fetch_False_total:
  assumes "usable s"
  shows "\<exists>s'. fetch mk d k False s = Inr (case_option d id (seen s k), s') \<and>
     usable s' \<and> seen s' = seen s"
  using fetch_hit [OF assms, of k _ mk d False] fetch_absent [OF assms, of k mk d] assms
  by (cases "seen s k") auto

lemma fetch_True_total:
  assumes "usable s"
  shows "\<exists>s'. fetch mk d k True s = Inr (case_option (mk k) id (seen s k), s') \<and> usable s' \<and>
     seen s' k = Some (case_option (mk k) id (seen s k)) \<and>
     (\<forall>k'. k' \<noteq> k \<longrightarrow> seen s' k' = seen s k' \<or> seen s' k' = None)"
proof (cases "seen s k")
  case None
  obtain s' where s': "store k (mk k) s = Inr s'" "usable s'"
    using store_total [OF assms] by blast
  with None show ?thesis
    using fetch_create [OF assms None] store_same [OF assms s'(1)] store_other [OF assms s'(1)]
    by auto
next
  case (Some v)
  then show ?thesis using fetch_hit [OF assms Some, of mk d True] by auto
qed

text \<open>Whatever is found after a series of writes was there before or is the last value written.\<close>

lemma stores_seen:
  assumes "usable s" and "foldE (\<lambda>(k, v). store k v) kvs s = Inr t" and "seen t k = Some w"
  shows "usable t \<and> (seen s k = Some w \<or> (k, w) \<in> set kvs)"
  using assms
proof (induction kvs arbitrary: s)
  case (Cons kv kvs)
  obtain k0 v0 where kv: "kv = (k0, v0)" by (cases kv)
  with Cons.prems(2) obtain s' where s': "store k0 v0 s = Inr s'"
    and t: "foldE (\<lambda>(k, v). store k v) kvs s' = Inr t"
    by (auto simp: fault_simps)
  have "usable t \<and> (seen s' k = Some w \<or> (k, w) \<in> set kvs)"
    using Cons.IH [OF store_usable [OF Cons.prems(1) s'] t Cons.prems(3)] .
  then show ?case using store_seen [OF Cons.prems(1) s'] kv by auto
qed simp

end

lemma lookup_touch: "map_of (touch k v xs) k' = (if k' = k then Some v else map_of xs k')"
  by (simp add: touch_def)

lemma lookup_spec_put_other:
  assumes "distinct (map fst xs)" and "k' \<noteq> k"
  shows "map_of (spec_put b k v xs) k' = map_of xs k' \<or> map_of (spec_put b k v xs) k' = None"
  using assms by (cases "xs = []") (auto simp: spec_put_def lookup_touch map_of_butlast)

lemma hash_map_absent: "lru_ok c \<Longrightarrow> lookup c k = None \<Longrightarrow> map_of (hash_map c) k = None"
  by (metis hash_map_None lookup_def map_of_eq_None_iff)

definition usable_cache :: "('k, 'v) LRUCache \<Rightarrow> bool" where
  "usable_cache c \<longleftrightarrow> lru_ok c \<and> cap c \<noteq> 0"

interpretation lru: forgetful_store lookup put get usable_cache
proof unfold_locales
  fix s :: "('k, 'v) LRUCache" and k v
  assume "usable_cache s"
  then show "\<exists>s'. put k v s = Inr s' \<and> usable_cache s'"
    using put_correct [of s k v] by (auto simp: usable_cache_def)
next
  fix s s' :: "('k, 'v) LRUCache" and k v
  assume "usable_cache s" "put k v s = Inr s'"
  then show "lookup s' k = Some v"
    using put_correct [of s k v] by (auto simp: usable_cache_def lookup_def spec_put_def touch_def)
next
  fix s s' :: "('k, 'v) LRUCache" and k v k'
  assume "usable_cache s" "put k v s = Inr s'" "k' \<noteq> k"
  then show "lookup s' k' = lookup s k' \<or> lookup s' k' = None"
    using put_correct [of s k v] lookup_spec_put_other [of "contents s" k' k "full s" v]
      lru_ok_keys [of s]
    by (auto simp: usable_cache_def lookup_def)
next
  fix s s' :: "('k, 'v) LRUCache" and k v
  assume "usable_cache s" "lookup s k \<noteq> None" "put k v s = Inr s'"
  then show "lookup s' = (lookup s)(k \<mapsto> v)"
    using put_correct [of s k v]
    by (auto simp: usable_cache_def lookup_def spec_put_def fun_eq_iff lookup_touch map_of_eq_None_iff)
next
  fix s :: "('k, 'v) LRUCache" and k v mk d create
  assume "usable_cache s" "lookup s k = Some v"
  then show "\<exists>s'. get mk d k create s = Inr (v, s') \<and> usable_cache s' \<and> lookup s' = lookup s"
    using get_correct [of s mk d k create]
    by (auto simp: usable_cache_def lookup_def spec_get_def fun_eq_iff lookup_touch)
next
  fix s :: "('k, 'v) LRUCache" and k mk d
  assume "usable_cache s" "lookup s k = None"
  then show "get mk d k False s = Inr (d, s)"
    using hash_map_absent [of s k] by (simp add: usable_cache_def get_def)
next
  fix s :: "('k, 'v) LRUCache" and k mk d
  assume "usable_cache s" "lookup s k = None"
  then show "get mk d k True s = andThen (put k (mk k) s) (\<lambda>s'. Inr (mk k, s'))"
    using hash_map_absent [of s k] by (simp add: usable_cache_def get_def)
qed

section \<open>Capacity and recency\<close>

text \<open>
  A positive capacity and no more lines than it. \<^verbatim>\<open>resize\<close> does not evict, so the bound is
  an invariant only of a cache that is resized while it is empty, as the bus does.
\<close>

definition within_cap :: "('k, 'v) LRUCache \<Rightarrow> bool" where
  "within_cap c \<longleftrightarrow> lru_ok c \<and> 0 < sint (cap c) \<and> int (length (contents c)) \<le> sint (cap c)"

lemma within_cap_usable: "within_cap c \<Longrightarrow> usable_cache c"
  by (auto simp: within_cap_def usable_cache_def)

lemma sint_of_nat_64: "n < 2 ^ 31 \<Longrightarrow> sint (of_nat n :: 64 word) = int n"
  by (simp add: signed_of_nat signed_take_bit_int_eq_self)

lemma full_iff:
  assumes "within_cap c"
  shows "full c \<longleftrightarrow> int (length (contents c)) = sint (cap c)"
proof -
  let ?n = "length (contents c)"
  have n: "length (hash_map c) = ?n"
    using assms by (simp add: within_cap_def length_hash_map) (simp add: contents_def)
  have "int ?n < 2 ^ 31"
    using assms sint_less [of "cap c"] by (simp add: within_cap_def)
  then have "sint (of_nat ?n :: 64 word) = int ?n"
    by (intro sint_of_nat_64) simp
  moreover have "full c \<longleftrightarrow> sint (of_nat ?n :: 64 word) = sint (scast (cap c) :: 64 word)"
    unfolding full_def n by (metis signed_word_eqI)
  ultimately show ?thesis by simp
qed

lemma length_touch:
  "distinct (map fst xs) \<Longrightarrow> k \<in> fst ` set xs \<Longrightarrow> length (touch k v xs) = length xs"
proof (induction xs)
  case (Cons p xs)
  show ?case
  proof (cases "fst p = k")
    case True
    with Cons.prems have "k \<notin> fst ` set xs" by auto
    then have "filter (\<lambda>q. fst q \<noteq> k) xs = xs"
      by (intro filter_True) (metis image_eqI)
    with True show ?thesis by (simp add: touch_def)
  next
    case False
    with Cons show ?thesis by (auto simp: touch_def)
  qed
qed simp

lemma put_within_cap:
  assumes "within_cap c" and "put k v c = Inr c'"
  shows "within_cap c'"
proof -
  have ok: "lru_ok c" "cap c \<noteq> 0"
    using within_cap_usable [OF assms(1)] by (simp_all add: usable_cache_def)
  from put_correct [OF ok, of k v] assms(2)
  have c': "lru_ok c'" "cap c' = cap c" "contents c' = spec_put (full c) k v (contents c)"
    by auto
  moreover have "int (length (spec_put (full c) k v (contents c))) \<le> sint (cap c)"
    using assms(1) full_iff [OF assms(1)] length_touch [OF lru_ok_keys [OF ok(1)], of k v]
    by (cases "contents c = []") (auto simp: spec_put_def within_cap_def)
  ultimately show ?thesis using assms(1) by (simp add: within_cap_def)
qed

text \<open>A successful lookup through \<^verbatim>\<open>get\<close> is a \<^verbatim>\<open>put\<close> of the value that is there.\<close>

lemma get_present:
  assumes "lru_ok c" and "lookup c k = Some v"
  shows "get mk d k create c = andThen (put k v c) (\<lambda>c'. Inr (v, c'))"
  using assms(1)
proof (cases rule: key_cases [where k = k])
  case (hit n w)
  moreover have "map_of (hash_map c) k = Some (Node n)"
    using assms(1) hit(1) by (auto simp: hash_map_Some)
  ultimately show ?thesis
    using deref_node [OF assms(1) hit(1)] promote_node [OF assms(1) hit(1)]
      put_hit [OF assms(1) hit(1)] assms(2)
    by (simp add: get_def lookup_def del: deref.simps)
qed (use assms in \<open>simp add: lookup_def\<close>)

lemma put_cap:
  assumes "within_cap c" and "put k v c = Inr c'"
  shows "cap c' = cap c"
proof -
  have "lru_ok c" "cap c \<noteq> 0"
    using within_cap_usable [OF assms(1)] by (simp_all add: usable_cache_def)
  from put_correct [OF this, of k v] assms(2) show ?thesis by auto
qed

lemma get_cap:
  assumes "within_cap c" and "get mk d k create c = Inr (x, c')"
  shows "cap c' = cap c"
proof -
  have "lru_ok c" "cap c \<noteq> 0"
    using within_cap_usable [OF assms(1)] by (simp_all add: usable_cache_def)
  from get_correct [OF this, of mk d k create] assms(2) show ?thesis by auto
qed

lemma get_within_cap:
  assumes "within_cap c" and "get mk d k create c = Inr (x, c')"
  shows "within_cap c'"
proof -
  have ok: "lru_ok c" "usable_cache c"
    using assms(1) within_cap_usable by (auto simp: within_cap_def)
  show ?thesis
  proof (cases "lookup c k")
    case None
    with assms ok show ?thesis
      using put_within_cap [of c] hash_map_absent [OF ok(1) None]
      by (cases create) (auto simp: get_def fault_simps)
  next
    case (Some v)
    with assms show ?thesis
      using get_present [OF ok(1) Some, of mk d create] put_within_cap [of c k v]
      by (auto simp: fault_simps)
  qed
qed

text \<open>All pairs ever put, most recent first, each key once with its last value.\<close>

definition recent :: "('k \<times> 'v) list \<Rightarrow> ('k \<times> 'v) list" where
  "recent kvs = fold (\<lambda>(k, v). touch k v) kvs []"

lemma recent_snoc [simp]: "recent (kvs @ [(k, v)]) = touch k v (recent kvs)"
  by (simp add: recent_def)

lemma recent_Nil [simp]: "recent [] = []"
  by (simp add: recent_def)

lemma distinct_touch: "distinct (map fst xs) \<Longrightarrow> distinct (map fst (touch k v xs))"
  by (auto simp: touch_def distinct_map_filter)

lemma distinct_recent: "distinct (map fst (recent kvs))"
  by (induction kvs rule: rev_induct) (auto simp: distinct_touch)

lemma remdups_snoc: "remdups (ks @ [k]) = filter (\<lambda>j. j \<noteq> k) (remdups ks) @ [k]"
  by (induction ks) auto

lemma keys_recent: "map fst (recent kvs) = rev (remdups (map fst kvs))"
proof (induction kvs rule: rev_induct)
  case (snoc kv kvs)
  have "map fst (filter (\<lambda>p. fst p \<noteq> fst kv) (recent kvs))
      = filter (\<lambda>j. j \<noteq> fst kv) (map fst (recent kvs))"
    by (simp add: filter_map comp_def)
  with snoc.IH show ?case
    by (cases kv) (simp add: touch_def remdups_snoc rev_filter)
qed simp

lemma map_of_recent: "map_of (recent kvs) k = map_of (rev kvs) k"
  by (induction kvs rule: rev_induct) (auto simp: lookup_touch)

lemma spec_put_take:
  assumes R: "distinct (map fst R)" and "0 < N"
  shows "spec_put (length (take N R) = N) k v (take N R) = take N (touch k v R)"
proof (cases "k \<in> fst ` set (take N R)")
  case True
  then obtain i where i: "i < N" "i < length R" "fst (R ! i) = k"
    by (auto simp: in_set_conv_nth image_iff)
  define A B where "A = take i R" and "B = drop (Suc i) R"
  have split: "R = A @ R ! i # B"
    using i by (simp add: A_def B_def id_take_nth_drop)
  have distinct: "distinct (map fst (A @ R ! i # B))"
    using R split by simp
  have A: "length A = i" using i by (simp add: A_def)
  have notin: "k \<notin> fst ` set A" "k \<notin> fst ` set B"
    using distinct i(3) by auto
  have keep: "filter (\<lambda>p. fst p \<noteq> k) A = A" "\<And>m. filter (\<lambda>p. fst p \<noteq> k) (take m B) = take m B"
    "filter (\<lambda>p. fst p \<noteq> k) B = B"
    using notin by (auto simp: filter_id_conv dest: in_set_takeD)
  have "take N R = A @ R ! i # take (N - Suc i) B"
    using i A by (subst split) (simp add: take_Cons' Suc_diff_Suc)
  then have "filter (\<lambda>p. fst p \<noteq> k) (take N R) = A @ take (N - Suc i) B"
    using keep i(3) by simp
  moreover have "filter (\<lambda>p. fst p \<noteq> k) R = A @ B"
    using keep i(3) by (subst split) simp
  ultimately show ?thesis
    using True \<open>0 < N\<close> A i(1) by (cases N) (auto simp: spec_put_def touch_def)
next
  case False
  have "take (N - 1) (filter (\<lambda>p. fst p \<noteq> k) R) =
      (if length (take N R) = N then butlast (take N R) else take N R)"
  proof -
    have front: "filter (\<lambda>p. fst p \<noteq> k) (take N R) = take N R"
      using False by (auto simp: filter_id_conv)
    have "filter (\<lambda>p. fst p \<noteq> k) R = take N R @ filter (\<lambda>p. fst p \<noteq> k) (drop N R)"
      using front by (metis append_take_drop_id filter_append)
    then show ?thesis by (auto simp: butlast_take butlast_conv_take min_def)
  qed
  then show ?thesis
    using False \<open>0 < N\<close> by (cases N) (auto simp: spec_put_def touch_def)
qed

abbreviation put_all :: "('k \<times> 'v) list \<Rightarrow> ('k, 'v) LRUCache \<Rightarrow> ('k, 'v) LRUCache result" where
  "put_all \<equiv> foldE (\<lambda>(k, v). put k v)"

lemma put_all_recent:
  assumes "0 < sint n"
  shows "\<exists>c. put_all kvs (LRUCache_of_capacity n) = Inr c \<and> within_cap c \<and> cap c = n \<and>
     contents c = take (nat (sint n)) (recent kvs)"
proof (induction kvs rule: rev_induct)
  case Nil
  with assms show ?case by (simp add: within_cap_def)
next
  case (snoc kv kvs)
  obtain k v where kv: "kv = (k, v)" by (cases kv)
  from snoc obtain c where c: "put_all kvs (LRUCache_of_capacity n) = Inr c" "within_cap c"
    "cap c = n" "contents c = take (nat (sint n)) (recent kvs)" by blast
  have ok: "lru_ok c" "cap c \<noteq> 0"
    using within_cap_usable [OF c(2)] by (simp_all add: usable_cache_def)
  have "full c \<longleftrightarrow> length (contents c) = nat (sint n)"
    using full_iff [OF c(2)] c(3) assms by auto
  with put_correct [OF ok, of k v] obtain c' where c': "put k v c = Inr c'" "cap c' = n"
    "contents c' = take (nat (sint n)) (recent (kvs @ [kv]))"
    using spec_put_take [OF distinct_recent [of kvs], of "nat (sint n)" k v] assms c(3,4) kv by auto
  with c kv put_within_cap [OF c(2) c'(1)] show ?case
    by (simp add: foldE_append)
qed

text \<open>
  Cold misses are counted when a line enters a cache that is not full: their number is
  the number of lines held.
\<close>

definition cold_counted :: "('k, 'v) LRUCache \<Rightarrow> bool" where
  "cold_counted c \<longleftrightarrow> cold_misses c = of_nat (length (contents c))"

lemma put_cold_counted:
  assumes "usable_cache c" and "cold_counted c" and "put k v c = Inr c'"
  shows "cold_counted c'"
proof -
  have ok: "lru_ok c" "cap c \<noteq> 0" using assms(1) by (simp_all add: usable_cache_def)
  show ?thesis using ok(1)
  proof (cases rule: key_cases [where k = k])
    case (hit n w)
    with assms show ?thesis
      using put_hit [OF ok(1) hit(1), of v] lru_ok_relink [OF ok(1) hit(1), of v]
        length_touch [OF lru_ok_keys [OF ok(1)] hit(3), of v]
      by (auto simp: cold_counted_def frame_simps)
  next
    case miss
    have "full c \<Longrightarrow> contents c \<noteq> []"
      using full_empty ok by (auto simp: contents_def)
    with assms show ?thesis
      using put_miss [OF ok miss(1), of v]
      by (cases "contents c") (auto simp: cold_counted_def frame_simps contents_make_room)
  qed
qed

lemma get_cold_counted:
  assumes "usable_cache c" and "cold_counted c" and "get mk d k create c = Inr (x, c')"
  shows "cold_counted c'"
proof (cases "lookup c k")
  case None
  with assms show ?thesis
    using put_cold_counted [OF assms(1,2)] hash_map_absent [of c k]
    by (cases create) (auto simp: get_def usable_cache_def fault_simps)
next
  case (Some v)
  with assms show ?thesis
    using get_present [of c k v mk d create] put_cold_counted [OF assms(1,2), of k v]
    by (auto simp: usable_cache_def fault_simps)
qed

section \<open>The properties of the cache\<close>

text \<open>
  C10. On a well-formed cache with a capacity other than 0, \<^verbatim>\<open>put\<close> never touches an invalid
  iterator or an empty list, keeps the cache well-formed, and acts on the pairs in
  recency order as the reference list does: a known key moves to the front with the new
  value, a new key is put in front after the last pair was dropped if the cache was full.
\<close>

theorem put_refines_recency_list:
  assumes "lru_ok c" and "cap c \<noteq> 0"
  shows "\<exists>c'. put k v c = Inr c' \<and> lru_ok c' \<and> cap c' = cap c \<and>
     contents c' = spec_put (full c) k v (contents c)"
  using assms by (rule put_correct)

theorem put_refines_recency_list_witness:
  "\<exists>c'. put (1 :: nat) True (LRUCache_of_capacity 2) = Inr c' \<and> lru_ok c' \<and>
     cap c' = 2 \<and> contents c' = [(1, True)]"
  using put_refines_recency_list [of "LRUCache_of_capacity 2" "1 :: nat" True]
  by (simp add: spec_put_def)

text \<open>
  C11. On a well-formed cache with a capacity other than 0, \<^verbatim>\<open>get\<close> succeeds, keeps the cache
  well-formed, returns the value stored under the key and moves it to the front; a
  missing key gives the default value and no change, or is created on request.
\<close>

theorem get_refines_recency_list:
  assumes "lru_ok c" and "cap c \<noteq> 0"
  shows "\<exists>x c'. get mk dflt k create c = Inr (x, c') \<and> lru_ok c' \<and> cap c' = cap c \<and>
     (x, contents c') = spec_get (full c) mk dflt k create (contents c)"
  using assms by (rule get_correct)

theorem get_refines_recency_list_witness:
  "\<exists>x c'. get (\<lambda>_. 7 :: nat) 0 (1 :: nat) True (LRUCache_of_capacity 2) = Inr (x, c') \<and>
     lru_ok c' \<and> cap c' = 2 \<and> x = 7 \<and> contents c' = [(1, 7)]"
  using get_refines_recency_list [of "LRUCache_of_capacity 2" "\<lambda>_. 7 :: nat" 0 "1 :: nat" True]
  by (simp add: spec_put_def spec_get_def)

text \<open>
  C12. The replacement policy is least recently used: after any series of \<^verbatim>\<open>put\<close>s on an empty
  cache of positive capacity \<open>n\<close>, the keys held are the \<open>n\<close> most recently put distinct
  keys, most recent first, and each has the value it was last put with.
\<close>

theorem put_all_least_recently_used:
  assumes "0 < sint n"
  shows "\<exists>c. put_all kvs (LRUCache_of_capacity n) = Inr c \<and>
     map fst (contents c) = take (nat (sint n)) (rev (remdups (map fst kvs))) \<and>
     (\<forall>k v. lookup c k = Some v \<longrightarrow> map_of (rev kvs) k = Some v)"
proof -
  obtain c where c: "put_all kvs (LRUCache_of_capacity n) = Inr c"
    "contents c = take (nat (sint n)) (recent kvs)"
    using put_all_recent [OF assms] by blast
  have "map_of (rev kvs) k = Some v" if "lookup c k = Some v" for k v
  proof -
    have "(k, v) \<in> set (recent kvs)"
      using that c(2) by (metis in_set_takeD lookup_def map_of_SomeD)
    then show ?thesis
      using distinct_recent map_of_recent by (metis map_of_is_SomeI)
  qed
  with c show ?thesis by (simp add: keys_recent flip: take_map)
qed

theorem put_all_least_recently_used_witness:
  "\<exists>c. put_all [(1 :: nat, True), (2, True), (1, False), (3, True)] (LRUCache_of_capacity 2)
     = Inr c \<and> map fst (contents c) = [3, 1]"
  using put_all_least_recently_used
    [of "2 :: int32" "[(1 :: nat, True), (2, True), (1, False), (3, True)]"]
  by auto

text \<open>
  C13. A cache that was given a positive capacity while empty never holds more lines than its
  capacity: \<^verbatim>\<open>put\<close> keeps the bound (whose loss would disable eviction for good, since the
  code tests the size for equality) and the capacity itself.
\<close>

theorem put_keeps_capacity_bound:
  assumes "within_cap c"
  shows "\<exists>c'. put k v c = Inr c' \<and> within_cap c' \<and> cap c' = cap c"
proof -
  obtain c' where "put k v c = Inr c'"
    using lru.store_total [OF within_cap_usable [OF assms]] by blast
  with put_within_cap [OF assms this] put_cap [OF assms this] show ?thesis by blast
qed

theorem put_keeps_capacity_bound_witness:
  "\<exists>c'. put (1 :: nat) True (LRUCache_of_capacity 1) = Inr c' \<and> within_cap c' \<and> cap c' = 1"
proof -
  have "within_cap (LRUCache_of_capacity 1 :: (nat, bool) LRUCache)" by (simp add: within_cap_def)
  from put_keeps_capacity_bound [OF this, of 1 True] show ?thesis by (simp add: LRUCache_of_capacity_def)
qed

text \<open>
  With capacity 0 the first \<^verbatim>\<open>put\<close> asks an empty list for its last element: the program
  run with \<^verbatim>\<open>-i 0\<close> has undefined behaviour at its first access.
\<close>

theorem put_capacity_zero_faults:
  "put k v (LRUCache_of_capacity 0) = Inl EmptyContainer"
  by (simp add: put_def full_def evict_def list_back_def LRUCache_of_capacity_def)

text \<open>
  \<^verbatim>\<open>checkin\<close> compares an iterator with the nodes of a copy of the list and therefore
  never finds it, for any iterator of the cache itself.
\<close>

theorem checkin_never_finds:
  assumes "lru_ok c" and "(n, k, v) \<in> set (lru_list c)"
  shows "\<not> checkin (Node n) c"
proof -
  have loop: "checkin_loop it ls \<longleftrightarrow> it \<in> (Node \<circ> fst) ` set ls" for it and ls :: "('k, 'v) nodes"
    by (induction ls) auto
  have "n < fresh c" using assms by (auto simp: lru_ok_def)
  then show ?thesis
    by (auto simp: checkin_def loop list_copy_def dest: set_zip_leftD)
qed

theorem checkin_never_finds_witness:
  "\<not> checkin (Node 0) (link (1 :: nat) True (LRUCache_of_capacity 2))"
proof (rule checkin_never_finds)
  show "lru_ok (link (1 :: nat) True (LRUCache_of_capacity 2))"
    by (rule lru_ok_link_new) simp_all
  show "(0, 1, True) \<in> set (lru_list (link (1 :: nat) True (LRUCache_of_capacity 2)))"
    by (simp add: link_def LRUCache_of_capacity_def)
qed

end
