(* ===== verification/Iostream.thy ===== *)
theory Iostream
  imports Prelude
begin

text \<open>
  The part of \<^verbatim>\<open><iostream>\<close>, \<^verbatim>\<open><cstdio>\<close> and \<^verbatim>\<open><cstdlib>\<close> the program uses, as libstdc++ does
  it: formatted output of integers and pointers, and formatted input from a stream with
  its \<^verbatim>\<open>eofbit\<close> and \<^verbatim>\<open>failbit\<close>. An extraction whose sentry fails leaves its variable alone,
  so a variable that was never assigned stays indeterminate: extractions return
  \<open>None\<close> then, and the value otherwise.
\<close>

section \<open>Characters\<close>

definition code :: "char \<Rightarrow> nat" where
  "code c = of_char c"

definition isspace :: "char \<Rightarrow> bool" where
  "isspace c \<longleftrightarrow> code c = 32 \<or> (9 \<le> code c \<and> code c \<le> 13)"

definition digit_val :: "nat \<Rightarrow> char \<Rightarrow> nat option" where
  "digit_val base c =
     (let n = code c;
          d = (if 48 \<le> n \<and> n \<le> 57 then Some (n - 48)
               else if 97 \<le> n \<and> n \<le> 102 then Some (n - 87)
               else if 65 \<le> n \<and> n \<le> 70 then Some (n - 55)
               else None)
      in case d of None \<Rightarrow> None | Some v \<Rightarrow> if v < base then Some v else None)"

definition digit_char :: "nat \<Rightarrow> char" where
  "digit_char d = char_of (if d < 10 then 48 + d else 87 + d)"

lemma code_digit_char: "d < 16 \<Longrightarrow> code (digit_char d) = (if d < 10 then 48 + d else 87 + d)"
  by (simp add: code_def digit_char_def)

lemma digit_val_digit_char [simp]: "d < base \<Longrightarrow> base \<le> 16 \<Longrightarrow> digit_val base (digit_char d) = Some d"
  by (auto simp: digit_val_def code_digit_char Let_def)

lemma isspace_not_digit: "isspace c \<Longrightarrow> digit_val base c = None"
  by (auto simp: isspace_def digit_val_def Let_def)

lemma digit_not_space: "digit_val base c = Some d \<Longrightarrow> \<not> isspace c"
  using isspace_not_digit [of c base] by auto

section \<open>Output\<close>

fun show_base :: "nat \<Rightarrow> nat \<Rightarrow> string" where
  "show_base base n =
     (if n < base \<or> base < 2 then [digit_char n]
      else show_base base (n div base) @ [digit_char (n mod base)])"

declare show_base.simps [simp del]

definition show_nat :: "nat \<Rightarrow> string" where
  "show_nat n = show_base 10 n"

definition show_int32 :: "int32 \<Rightarrow> string" where
  "show_int32 w = (if sint w < 0 then CHR ''-'' # show_nat (nat (- sint w)) else show_nat (nat (sint w)))"

text \<open>\<^verbatim>\<open>os << (void*)p\<close>: hexadecimal with \<^verbatim>\<open>0x\<close>, and a bare \<^verbatim>\<open>0\<close> for the null pointer.\<close>

definition show_ptr :: "addr \<Rightarrow> string" where
  "show_ptr p = (if p = nullptr then ''0'' else ''0x'' @ show_base 16 (unat p))"

definition endl :: string where
  "endl = [char_of (10 :: nat)]"

text \<open>
  \<^verbatim>\<open>printf("%p")\<close>: what is printed for the null pointer is up to the C library
  (\<^verbatim>\<open>(nil)\<close> or \<^verbatim>\<open>0x0\<close>), so it is a parameter.
\<close>

definition printf_p :: "string \<Rightarrow> addr \<Rightarrow> string" where
  "printf_p null_text p = (if p = nullptr then null_text else ''0x'' @ show_base 16 (unat p))"

section \<open>Input\<close>

record istream =
  chars :: string
  eofbit :: bool
  failbit :: bool

definition good :: "istream \<Rightarrow> bool" where
  "good s \<longleftrightarrow> \<not> eofbit s \<and> \<not> failbit s"

definition skipws :: "string \<Rightarrow> string" where
  "skipws = dropWhile isspace"

text \<open>The sentry: skips white space and reports whether extraction may go on.\<close>

definition sentry :: "istream \<Rightarrow> bool \<times> istream" where
  "sentry s =
     (if \<not> good s then (False, s\<lparr>failbit := True\<rparr>)
      else case skipws (chars s) of
             [] \<Rightarrow> (False, s\<lparr>chars := [], eofbit := True, failbit := True\<rparr>)
           | cs \<Rightarrow> (True, s\<lparr>chars := cs\<rparr>))"

definition extract_char :: "istream \<Rightarrow> char option \<times> istream" where
  "extract_char s =
     (case sentry s of
        (False, s1) \<Rightarrow> (None, s1)
      | (True, s1) \<Rightarrow> (Some (hd (chars s1)), s1\<lparr>chars := tl (chars s1)\<rparr>))"

definition extract_string :: "istream \<Rightarrow> string option \<times> istream" where
  "extract_string s =
     (case sentry s of
        (False, s1) \<Rightarrow> (None, s1)
      | (True, s1) \<Rightarrow>
          let rest = dropWhile (\<lambda>c. \<not> isspace c) (chars s1)
          in (Some (takeWhile (\<lambda>c. \<not> isspace c) (chars s1)),
              s1\<lparr>chars := rest, eofbit := (rest = [])\<rparr>))"

text \<open>Digits of a base, as many as there are: their value, how many, and what is left.\<close>

fun read_digits :: "nat \<Rightarrow> nat \<Rightarrow> nat \<Rightarrow> string \<Rightarrow> nat \<times> nat \<times> string" where
  "read_digits base acc count [] = (acc, count, [])"
| "read_digits base acc count (c # cs) =
     (case digit_val base c of
        Some d \<Rightarrow> read_digits base (acc * base + d) (Suc count) cs
      | None \<Rightarrow> (acc, count, c # cs))"

definition read_sign :: "string \<Rightarrow> bool \<times> string" where
  "read_sign cs =
     (case cs of
        c # cs' \<Rightarrow> if c = CHR ''-'' then (True, cs') else if c = CHR ''+'' then (False, cs') else (False, cs)
      | [] \<Rightarrow> (False, cs))"

definition skip_0x :: "string \<Rightarrow> string" where
  "skip_0x cs =
     (case cs of
        z # x # cs' \<Rightarrow> if z = CHR ''0'' \<and> (x = CHR ''x'' \<or> x = CHR ''X'') then cs' else cs
      | _ \<Rightarrow> cs)"

text \<open>
  \<^verbatim>\<open>operator>>(int&)\<close> in the default decimal mode: no digit gives 0 and \<^verbatim>\<open>failbit\<close>, a value
  out of range gives the nearest bound and \<^verbatim>\<open>failbit\<close>.
\<close>

definition extract_int :: "istream \<Rightarrow> int32 option \<times> istream" where
  "extract_int s =
     (case sentry s of
        (False, s1) \<Rightarrow> (None, s1)
      | (True, s1) \<Rightarrow>
          let (neg, cs) = read_sign (chars s1);
              (n, count, rest) = read_digits 10 0 0 cs;
              v = (if neg then - int n else int n);
              s2 = s1\<lparr>chars := rest, eofbit := (rest = [])\<rparr>
          in if count = 0 then (Some 0, s2\<lparr>failbit := True\<rparr>)
             else if v < - (2 ^ 31) then (Some (of_int (- (2 ^ 31))), s2\<lparr>failbit := True\<rparr>)
             else if v > 2 ^ 31 - 1 then (Some (of_int (2 ^ 31 - 1)), s2\<lparr>failbit := True\<rparr>)
             else (Some (of_int v), s2))"

text \<open>\<^verbatim>\<open>operator>>(void*&)\<close>: an unsigned long in hexadecimal, with or without \<^verbatim>\<open>0x\<close>.\<close>

definition extract_ptr :: "istream \<Rightarrow> addr option \<times> istream" where
  "extract_ptr s =
     (case sentry s of
        (False, s1) \<Rightarrow> (None, s1)
      | (True, s1) \<Rightarrow>
          let (neg, cs) = read_sign (chars s1);
              (n, count, rest) = read_digits 16 0 0 (skip_0x cs);
              s2 = s1\<lparr>chars := rest, eofbit := (rest = [])\<rparr>
          in if count = 0 then (Some 0, s2\<lparr>failbit := True\<rparr>)
             else if n > 2 ^ 64 - 1 then (Some (- 1), s2\<lparr>failbit := True\<rparr>)
             else (Some (if neg then - of_nat n else of_nat n), s2))"

text \<open>
  \<^verbatim>\<open>atoi\<close>: white space, a sign, digits; 0 when there is none. Its behaviour on a value that
  does not fit an int is undefined, a fault here.
\<close>

definition atoi :: "string \<Rightarrow> int32 result" where
  "atoi str =
     (let (neg, cs) = read_sign (skipws str);
          (n, _, _) = read_digits 10 0 0 cs;
          v = (if neg then - int n else int n)
      in if - (2 ^ 31) \<le> v \<and> v < 2 ^ 31 then Inr (of_int v) else Inl IndeterminateValue)"

section \<open>What is printed can be read back\<close>

lemma read_digits_append:
  "read_digits b acc k (cs @ ds) =
     (if \<forall>c \<in> set cs. digit_val b c \<noteq> None
      then let (a, j, _) = read_digits b acc k cs in read_digits b a j ds
      else let (a, j, r) = read_digits b acc k cs in (a, j, r @ ds))"
  by (induction cs arbitrary: acc k) (auto split: option.splits simp: Let_def)

lemma show_base_digits:
  "2 \<le> b \<Longrightarrow> b \<le> 16 \<Longrightarrow> c \<in> set (show_base b n) \<Longrightarrow> \<exists>d. digit_val b c = Some d"
proof (induction b n rule: show_base.induct)
  case (1 b n)
  then show ?case
    by (subst (asm) (2) show_base.simps) (auto split: if_splits)
qed

lemma show_base_nonempty [simp]: "show_base b n \<noteq> []"
  by (subst show_base.simps) simp

text \<open>Printing and reading back, whatever follows, as long as it is not another digit.\<close>

lemma read_show_base:
  assumes "2 \<le> b" and "b \<le> 16"
  shows "\<exists>k. read_digits b 0 0 (show_base b n) = (n, Suc k, [])"
proof -
  have "\<exists>k. read_digits b a j (show_base b n) = (a * b ^ length (show_base b n) + n, j + Suc k, [])" for a j
  proof (induction n arbitrary: a j rule: less_induct)
    case (less n)
    show ?case
    proof (cases "n < b")
      case True
      then show ?thesis using assms by (simp add: show_base.simps [of b n])
    next
      case False
      let ?q = "n div b"
      have q: "?q < n" using False assms by simp
      from less.IH [OF q, of a j] obtain k where
        k: "read_digits b a j (show_base b ?q) = (a * b ^ length (show_base b ?q) + ?q, j + Suc k, [])"
        by blast
      have all: "\<forall>c \<in> set (show_base b ?q). digit_val b c \<noteq> None"
        using show_base_digits [OF assms] by fastforce
      have m: "n mod b < b" using assms by simp
      have "read_digits b a j (show_base b n) =
          ((a * b ^ length (show_base b ?q) + ?q) * b + n mod b, Suc (j + Suc k), [])"
        using k all m assms False
        by (simp add: show_base.simps [of b n] read_digits_append)
      moreover have "(a * b ^ length (show_base b ?q) + ?q) * b + n mod b =
          a * b ^ length (show_base b n) + n"
        using False assms by (simp add: show_base.simps [of b n] algebra_simps)
      ultimately show ?thesis by (metis add_Suc_right)
    qed
  qed
  from this [of 0 0] show ?thesis by simp
qed

lemma read_show_base_append:
  assumes "2 \<le> b" and "b \<le> 16" and "rest = [] \<or> digit_val b (hd rest) = None"
  shows "\<exists>k. read_digits b 0 0 (show_base b n @ rest) = (n, Suc k, rest)"
proof -
  obtain k where k: "read_digits b 0 0 (show_base b n) = (n, Suc k, [])"
    using read_show_base [OF assms(1,2)] by blast
  moreover have "\<forall>c \<in> set (show_base b n). digit_val b c \<noteq> None"
    using show_base_digits [OF assms(1,2)] by fastforce
  moreover have "read_digits b n (Suc k) rest = (n, Suc k, rest)"
    using assms(3) by (cases rest) auto
  ultimately show ?thesis by (simp add: read_digits_append)
qed

end
