(* ===== verification/Cacheline.thy ===== *)
theory Cacheline
  imports Lru_Cache Iostream
begin

text \<open>
  \<^verbatim>\<open>src/src/consts.h\<close> and \<^verbatim>\<open>src/src/cacheline.h\<close>: the states of a line, the kinds of
  processor and bus transactions, the line itself, and the macro of \<^verbatim>\<open>msi.h\<close> that rounds an
  address to its line.
\<close>

section \<open>Constants and enumerations\<close>

definition CachelineSize :: int where
  "CachelineSize = 8 * 8"

datatype State = M | S | I

datatype PrTsnType = PrRd | PrWr | Flush

datatype BusTsnType = BusRd | BusRdX

section \<open>The line\<close>

text \<open>
  The constructors do not initialise \<^verbatim>\<open>cnt\<close>: it is \<open>None\<close> until it is assigned.
\<close>

record Cacheline =
  cline_cnt :: "int32 option"
  cline_state :: State
  cline_tag :: addr

definition Cacheline_default :: Cacheline where
  "Cacheline_default = \<lparr>cline_cnt = None, cline_state = I, cline_tag = nullptr\<rparr>"

definition Cacheline_of :: "addr \<Rightarrow> Cacheline" where
  "Cacheline_of tg = \<lparr>cline_cnt = None, cline_state = I, cline_tag = tg\<rparr>"

fun show_state :: "State \<Rightarrow> string" where
  "show_state M = '' Modified ''"
| "show_state S = '' Shared   ''"
| "show_state I = '' Invalid  ''"

definition show_Cacheline :: "Cacheline \<Rightarrow> string" where
  "show_Cacheline cline = show_state (cline_state cline) @ show_ptr (cline_tag cline) @ endl"

text \<open>
  The cache of a processor, its \<^verbatim>\<open>get\<close> at this value type, and how it is printed: line by
  line in the order of the hash map, each followed by a line break, faulting on an
  iterator that is not valid.
\<close>

type_synonym line_cache = "(addr, Cacheline) LRUCache"

abbreviation cache_get :: "addr \<Rightarrow> bool \<Rightarrow> line_cache \<Rightarrow> (Cacheline \<times> line_cache) result" where
  "cache_get \<equiv> get Cacheline_of Cacheline_default"

definition show_LRUCache :: "line_cache \<Rightarrow> string result" where
  "show_LRUCache c =
     foldE (\<lambda>(_, it) os. andThen (deref it (lru_list c)) (\<lambda>kv. Inr (os @ show_Cacheline (snd kv) @ endl)))
       (hash_map c) []"

section \<open>From addresses to lines\<close>

text \<open>
  \<^verbatim>\<open>(void*)((long long)(addr) / CachelineSize * CachelineSize)\<close>: a signed 64-bit division,
  which truncates towards zero, so addresses in the upper half of the address space
  round up.
\<close>

definition convert :: "addr \<Rightarrow> addr" where
  "convert a = of_int (sint a sdiv CachelineSize * CachelineSize)"

definition aligned :: "addr \<Rightarrow> bool" where
  "aligned a \<longleftrightarrow> sint a mod CachelineSize = 0"

lemma sdiv_mult_64:
  fixes x :: int
  shows "x sdiv 64 * 64 = (if 0 \<le> x then x - x mod 64 else x + (- x) mod 64)"
proof (cases "0 \<le> x")
  case True
  then have "x sdiv 64 = x div 64"
    by (cases "x = 0") (simp_all add: signed_divide_int_def)
  with True show ?thesis by (simp add: minus_mod_eq_div_mult)
next
  case False
  then have "x sdiv 64 = - ((- x) div 64)"
    by (simp add: signed_divide_int_def)
  with False show ?thesis by (simp add: minus_div_mult_eq_mod [symmetric])
qed

lemma sint_bounds: "- (2 ^ 63) \<le> sint (a :: addr) \<and> sint a < 2 ^ 63"
  using sint_greater_eq [of a] sint_less [of a] by simp

lemma sint_of_int_64: "- (2 ^ 63) \<le> x \<Longrightarrow> x < 2 ^ 63 \<Longrightarrow> sint (of_int x :: addr) = x"
  by (simp add: signed_of_int signed_take_bit_int_eq_self)

lemma sint_convert:
  "sint (convert a) = (if 0 \<le> sint a then sint a - sint a mod 64 else sint a + (- sint a) mod 64)"
proof -
  let ?x = "sint a sdiv 64 * 64"
  have "- (2 ^ 63) \<le> ?x \<and> ?x < 2 ^ 63"
  proof (cases "0 \<le> sint a")
    case True
    then have "0 \<le> ?x" "?x \<le> sint a"
      using zmod_le_nonneg_dividend [of "sint a" 64] by (simp_all add: sdiv_mult_64)
    with sint_bounds [of a] show ?thesis by linarith
  next
    case False
    then have "sint a \<le> ?x" "?x \<le> 0"
      using zmod_le_nonneg_dividend [of "- sint a" 64] by (simp_all add: sdiv_mult_64)
    with sint_bounds [of a] show ?thesis by linarith
  qed
  then have "sint (of_int ?x :: addr) = ?x"
    by (intro sint_of_int_64) blast+
  moreover have "convert a = of_int ?x"
    by (simp add: convert_def CachelineSize_def)
  ultimately have "sint (convert a) = ?x" by metis
  then show ?thesis by (simp add: sdiv_mult_64)
qed

lemma aligned_convert [simp]: "aligned (convert a)"
  by (simp add: aligned_def CachelineSize_def sint_convert mod_simps)

lemma convert_aligned [simp]: "aligned a \<Longrightarrow> convert a = a"
proof -
  assume "aligned a"
  then have "sint (convert a) = sint a"
    by (auto simp: sint_convert aligned_def CachelineSize_def)
  then show "convert a = a" by (rule signed_word_eqI)
qed

lemma convert_idem: "convert (convert a) = convert a"
  by simp

lemma aligned_iff: "aligned a \<longleftrightarrow> convert a = a"
  by (metis aligned_convert convert_aligned)

section \<open>Properties\<close>

lemma sint_user: "0 \<le> sint (a :: addr) \<Longrightarrow> uint a = sint a"
  using uint_sint [of a] sint_bounds [of a] by (simp add: take_bit_int_eq_self)

lemma uint_convert: "0 \<le> sint x \<Longrightarrow> uint (convert x) = uint x div 64 * 64"
proof -
  assume x: "0 \<le> sint x"
  then have "sint (convert x) = uint x div 64 * 64"
    by (simp add: sint_convert sint_user minus_mod_eq_div_mult)
  moreover have "0 \<le> uint x div 64 * 64" using uint_ge_0 [of x] by (simp add: pos_imp_zdiv_nonneg_iff)
  ultimately show ?thesis using sint_user [of "convert x"] by simp
qed

lemma convert_eq_iff:
  "0 \<le> sint a \<Longrightarrow> 0 \<le> sint b \<Longrightarrow> convert a = convert b \<longleftrightarrow> uint a div 64 = uint b div 64"
  using uint_convert [of a] uint_convert [of b] by (metis mult_cancel_right word_uint_eqI zero_neq_numeral)

text \<open>
  On addresses of the lower half of the address space \<^verbatim>\<open>convert\<close> is the first address of the
  64-byte block, so that two of them have the same line exactly when they are in the same
  block.
\<close>

theorem convert_blocks:
  assumes "0 \<le> sint a" and "0 \<le> sint b"
  shows "uint (convert a) = uint a div 64 * 64 \<and>
    (convert a = convert b \<longleftrightarrow> uint a div 64 = uint b div 64)"
  using assms by (simp add: uint_convert convert_eq_iff)

theorem convert_blocks_witness: "convert 127 = convert 64 \<and> uint (convert 127) = 64"
  using convert_blocks [of 127 64] by auto

text \<open>
  The addresses whose line has the null pointer as its tag, which the protocol takes for
  "not in the cache", are the 127 ones around 0: the division truncates towards 0 from
  both sides.
\<close>

theorem convert_null_line: "convert a = nullptr \<longleftrightarrow> \<bar>sint a\<bar> < CachelineSize"
proof -
  have "convert a = nullptr \<longleftrightarrow> sint (convert a) = 0"
    by (metis signed_0 signed_word_eqI)
  also have "\<dots> \<longleftrightarrow> \<bar>sint a\<bar> < 64"
  proof (cases "0 \<le> sint a")
    case True
    then have "sint a = sint a mod 64 \<longleftrightarrow> sint a < 64" by (metis mod_pos_pos_trivial pos_mod_bound zero_less_numeral)
    with True show ?thesis by (auto simp: sint_convert)
  next
    case False
    then have "- sint a = (- sint a) mod 64 \<longleftrightarrow> - sint a < 64"
      by (metis linear mod_pos_pos_trivial neg_0_le_iff_le pos_mod_bound zero_less_numeral)
    with False show ?thesis by (auto simp: sint_convert)
  qed
  finally show ?thesis by (simp add: CachelineSize_def)
qed

end
