(* ===== verification/Msi.thy ===== *)
theory Msi
  imports Cacheline
begin

text \<open>
  \<^verbatim>\<open>src/src/msi.h\<close>: bus transactions, traces and statistics; the processor, which drains
  its queue of bus requests before every access; and the bus, which turns an access into
  a state change and a request and hands the requests to the other processors. Thread
  ids are positions in the bus's vector of processors, so they are naturals. A queue is
  a list with its front first. The back pointer from a processor to its bus is the bus
  the operation is applied to; the mutexes are part of theory \<open>Msi_System\<close>.
\<close>

section \<open>Records\<close>

record BusTransaction =
  bts_tag :: addr
  bts_tid :: nat
  bts_cnt :: "int32 option"
  bts_tsn :: BusTsnType

record Trace =
  trace_tag :: addr
  trace_type :: char
  trace_cnt :: int32

record MetaStat =
  stat_cold_misses :: int32
  stat_capacity_misses :: int32
  coherence_misses :: int32
  flushes :: int32

definition MetaStat_default :: MetaStat where
  "MetaStat_default =
     \<lparr>stat_cold_misses = 0, stat_capacity_misses = 0, coherence_misses = 0, flushes = 0\<rparr>"

definition MetaStat_plus :: "MetaStat \<Rightarrow> MetaStat \<Rightarrow> MetaStat" where
  "MetaStat_plus a b =
     \<lparr>stat_cold_misses = stat_cold_misses a + stat_cold_misses b,
      stat_capacity_misses = stat_capacity_misses a + stat_capacity_misses b,
      coherence_misses = coherence_misses a + coherence_misses b,
      flushes = flushes a + flushes b\<rparr>"

definition show_MetaStat :: "MetaStat \<Rightarrow> string" where
  "show_MetaStat s =
     ''cold misses : '' @ show_int32 (stat_cold_misses s) @ endl @
     ''capacity misses : '' @ show_int32 (stat_capacity_misses s) @ endl @
     ''coherence misses : '' @ show_int32 (coherence_misses s) @ endl @
     ''flush : '' @ show_int32 (flushes s) @ endl"

definition show_BusTransaction :: "BusTransaction \<Rightarrow> string result" where
  "show_BusTransaction bts =
     (case bts_cnt bts of
        None \<Rightarrow> Inl IndeterminateValue
      | Some cnt \<Rightarrow>
          Inr (''timestamp : '' @ show_int32 cnt @ '' '' @ '' tid : '' @ show_nat (bts_tid bts) @
               '' address : '' @ show_ptr (bts_tag bts) @
               (case bts_tsn bts of BusRd \<Rightarrow> '' BusRd  '' | BusRdX \<Rightarrow> '' BusRdX '')))"

record Processor =
  cache :: line_cache
  tid :: nat
  requests :: "BusTransaction list"
  traces :: "Trace list"
  stat :: MetaStat

record Bus =
  processors :: "Processor list"
  bus_requests :: "BusTransaction list"

section \<open>Construction\<close>

definition Processor_new :: "int32 \<Rightarrow> nat \<Rightarrow> Processor" where
  "Processor_new NCachelines i =
     \<lparr>cache = resize NCachelines LRUCache_default, tid = i, requests = [], traces = [],
      stat = MetaStat_default\<rparr>"

text \<open>\<^verbatim>\<open>processors.resize\<close> of a negative int asks for an impossible length and throws.\<close>

definition Bus_new :: "int32 \<Rightarrow> int32 \<Rightarrow> Bus result" where
  "Bus_new nthreads NCachelines =
     (if sint nthreads < 0 then Inl LengthError
      else Inr \<lparr>processors = map (Processor_new NCachelines) [0..<nat (sint nthreads)],
                bus_requests = []\<rparr>)"

section \<open>The processor's side of the protocol\<close>

definition flush :: "Processor \<Rightarrow> Processor" where
  "flush p = p\<lparr>stat := (stat p)\<lparr>flushes := flushes (stat p) + 1\<rparr>\<rparr>"

text \<open>What a snooped request does to a line's state, and whether the line is flushed.\<close>

fun snoop :: "State \<Rightarrow> BusTsnType \<Rightarrow> State \<times> bool" where
  "snoop M BusRd = (S, True)"
| "snoop M BusRdX = (I, True)"
| "snoop S BusRd = (S, False)"
| "snoop S BusRdX = (I, False)"
| "snoop I _ = (I, False)"

definition pull_one :: "BusTransaction \<Rightarrow> Processor \<Rightarrow> Processor result" where
  "pull_one request p =
     andThen (cache_get (bts_tag request) False (cache p)) (\<lambda>(cline, c1).
       let p1 = p\<lparr>cache := c1\<rparr> in
       if cline_tag cline \<noteq> nullptr then
         let (st, flushed) = snoop (cline_state cline) (bts_tsn request);
             p2 = (if flushed then flush p1 else p1)
         in andThen (put (bts_tag request) (cline\<lparr>cline_state := st\<rparr>) (cache p2))
              (\<lambda>c2. Inr (p2\<lparr>cache := c2\<rparr>))
       else Inr p1)"

fun pull_loop :: "BusTransaction list \<Rightarrow> Processor \<Rightarrow> Processor result" where
  "pull_loop [] p = Inr p"
| "pull_loop (r # rs) p = andThen (pull_one r (p\<lparr>requests := rs\<rparr>)) (pull_loop rs)"

definition pull_request :: "Processor \<Rightarrow> Processor result" where
  "pull_request p = pull_loop (requests p) p"

text \<open>
  The cache accesses of \<^verbatim>\<open>read\<close> and \<^verbatim>\<open>write\<close>, between the drain of the queue and the call
  of the bus: the line to push and whether it is a new one. \<^verbatim>\<open>write\<close> also stores the line,
  under the address it was given, not under the line's tag.
\<close>

definition read_access :: "addr \<Rightarrow> int32 \<Rightarrow> Processor \<Rightarrow> (Cacheline \<times> bool \<times> Processor) result" where
  "read_access a cnt p =
     (let tag = convert a in
      andThen (cache_get tag False (cache p)) (\<lambda>(res, c1).
      andThen (cache_get tag True c1) (\<lambda>(cline, c2).
        Inr (cline\<lparr>cline_cnt := Some cnt\<rparr>, cline_tag res = nullptr, p\<lparr>cache := c2\<rparr>))))"

definition write_access :: "addr \<Rightarrow> int32 \<Rightarrow> Processor \<Rightarrow> (Cacheline \<times> bool \<times> Processor) result" where
  "write_access a cnt p =
     (let tag = convert a in
      andThen (cache_get tag False (cache p)) (\<lambda>(res, c1).
      andThen (cache_get tag True c1) (\<lambda>(cline, c2).
        let cline' = cline\<lparr>cline_cnt := Some cnt, cline_tag := tag\<rparr> in
        andThen (put a cline' c2) (\<lambda>c3.
          Inr (cline', cline_tag res = nullptr, p\<lparr>cache := c3\<rparr>)))))"

section \<open>The bus's side\<close>

text \<open>
  The new state of a line, \<^verbatim>\<open>has_response\<close>, and \<^verbatim>\<open>tsn_type\<close>, which is left uninitialised
  where no branch assigns it.
\<close>

fun push_transition :: "State \<Rightarrow> PrTsnType \<Rightarrow> State \<times> bool \<times> BusTsnType option" where
  "push_transition M _ = (M, False, None)"
| "push_transition S PrWr = (M, True, Some BusRdX)"
| "push_transition S _ = (S, False, None)"
| "push_transition I PrRd = (S, True, Some BusRd)"
| "push_transition I PrWr = (M, True, Some BusRdX)"
| "push_transition I Flush = (I, True, None)"

definition count_coherence_miss :: "Processor \<Rightarrow> Processor" where
  "count_coherence_miss p =
     p\<lparr>stat := (stat p)\<lparr>coherence_misses := coherence_misses (stat p) + 1\<rparr>\<rparr>"

definition Bus_push :: "Cacheline \<Rightarrow> nat \<Rightarrow> PrTsnType \<Rightarrow> bool \<Rightarrow> Bus \<Rightarrow> Bus result" where
  "Bus_push cline thread_id pr_request is_new b =
     andThen (vec_at (processors b) thread_id) (\<lambda>p.
       let (st, has_response, tsn_type) = push_transition (cline_state cline) pr_request;
           p1 = (if cline_state cline = I \<and> \<not> is_new then count_coherence_miss p else p);
           cline' = cline\<lparr>cline_state := st\<rparr>
       in andThen (put (cline_tag cline') cline' (cache p1)) (\<lambda>c.
            let b1 = b\<lparr>processors := (processors b)[thread_id := p1\<lparr>cache := c\<rparr>]\<rparr> in
            if has_response then
              (case tsn_type of
                 None \<Rightarrow> Inl IndeterminateValue
               | Some t \<Rightarrow>
                   Inr (b1\<lparr>bus_requests := bus_requests b1 @
                       [\<lparr>bts_tag = cline_tag cline', bts_tid = thread_id,
                         bts_cnt = cline_cnt cline', bts_tsn = t\<rparr>]\<rparr>))
            else Inr b1))"

definition deliver :: "BusTransaction \<Rightarrow> nat \<Rightarrow> Bus \<Rightarrow> Bus" where
  "deliver request i b =
     (if i \<noteq> bts_tid request
      then b\<lparr>processors := (processors b)
               [i := (processors b ! i)\<lparr>requests := requests (processors b ! i) @ [request]\<rparr>]\<rparr>
      else b)"

definition Bus_process :: "BusTransaction \<Rightarrow> Bus \<Rightarrow> Bus" where
  "Bus_process request b = fold (deliver request) [0..<length (processors b)] b"

section \<open>Whole handlers\<close>

definition on_processor :: "nat \<Rightarrow> (Processor \<Rightarrow> Processor result) \<Rightarrow> Bus \<Rightarrow> Bus result" where
  "on_processor i f b =
     andThen (vec_at (processors b) i) (\<lambda>p.
     andThen (f p) (\<lambda>p'. Inr (b\<lparr>processors := (processors b)[i := p']\<rparr>)))"

text \<open>An access in one go: drain, access the cache, push.\<close>

definition access_and_push ::
  "PrTsnType \<Rightarrow> (Processor \<Rightarrow> (Cacheline \<times> bool \<times> Processor) result) \<Rightarrow> nat \<Rightarrow> Bus \<Rightarrow> Bus result" where
  "access_and_push pr acc i b =
     andThen (on_processor i pull_request b) (\<lambda>b1.
     andThen (vec_at (processors b1) i) (\<lambda>p.
     andThen (acc p) (\<lambda>(cline, is_new, p').
       Bus_push cline (tid p') pr is_new (b1\<lparr>processors := (processors b1)[i := p']\<rparr>))))"

definition Processor_read :: "addr \<Rightarrow> int32 \<Rightarrow> nat \<Rightarrow> Bus \<Rightarrow> Bus result" where
  "Processor_read a cnt = access_and_push PrRd (read_access a cnt)"

definition Processor_write :: "addr \<Rightarrow> int32 \<Rightarrow> nat \<Rightarrow> Bus \<Rightarrow> Bus result" where
  "Processor_write a cnt = access_and_push PrWr (write_access a cnt)"

definition add_trace :: "Trace \<Rightarrow> Processor \<Rightarrow> Processor" where
  "add_trace t p = p\<lparr>traces := traces p @ [t]\<rparr>"

definition dispatch :: "Trace \<Rightarrow> nat \<Rightarrow> Bus \<Rightarrow> Bus result" where
  "dispatch q i b =
     andThen (if trace_type q = CHR ''R'' then Processor_read (trace_tag q) (trace_cnt q) i b else Inr b)
       (\<lambda>b1. if trace_type q = CHR ''W'' then Processor_write (trace_tag q) (trace_cnt q) i b1 else Inr b1)"

text \<open>One round of the inner loops of the two \<^verbatim>\<open>mainloop\<close>s; \<open>None\<close> when the queue is empty.\<close>

definition Processor_round :: "nat \<Rightarrow> Bus \<Rightarrow> Bus result option" where
  "Processor_round i b =
     (case traces (processors b ! i) of
        [] \<Rightarrow> None
      | q # ts \<Rightarrow>
          Some (dispatch q i (b\<lparr>processors := (processors b)[i := (processors b ! i)\<lparr>traces := ts\<rparr>]\<rparr>)))"

definition Bus_round :: "Bus \<Rightarrow> Bus option" where
  "Bus_round b =
     (case bus_requests b of
        [] \<Rightarrow> None
      | r # rs \<Rightarrow> Some (Bus_process r (b\<lparr>bus_requests := rs\<rparr>)))"

section \<open>Statistics\<close>

definition push_stats :: "Processor \<Rightarrow> Processor" where
  "push_stats p =
     p\<lparr>stat := (stat p)\<lparr>stat_cold_misses := cold_misses (cache p),
                         stat_capacity_misses := capacity_misses (cache p)\<rparr>\<rparr>"

definition print_stats :: "Processor \<Rightarrow> string" where
  "print_stats p =
     (let rule = ''-----Processor '' @ show_nat (tid p) @ ''-----'' @ endl
      in rule @ show_MetaStat (stat p) @ rule)"

end
