(* ===== verification/Trace_Input.thy ===== *)
theory Trace_Input
  imports Msi Iostream
begin

text \<open>
  The main program, \<^verbatim>\<open>src/src/main.cpp\<close>: the command line, the two loops that read traces from
  the standard input and hand them to the processors, and the report at the end. The
  result of \<^verbatim>\<open>getopt\<close> and the contents of files are parameters. A local variable that no
  extraction has assigned is \<open>None\<close>; using one is the fault \<open>IndeterminateValue\<close>. What is
  added to the processors is returned as the list of pairs of a processor and a trace,
  in the order of the calls of \<^verbatim>\<open>add_trace\<close>: the running system takes it from there.
\<close>

section \<open>Variables and extractions\<close>

definition assign :: "'a option \<Rightarrow> 'a option \<Rightarrow> 'a option" where
  "assign old new = (case new of None \<Rightarrow> old | Some v \<Rightarrow> Some v)"

definition use :: "'a option \<Rightarrow> 'a result" where
  "use x = (case x of None \<Rightarrow> Inl IndeterminateValue | Some v \<Rightarrow> Inr v)"

lemma use_simps [simp]: "use None = Inl IndeterminateValue" "use (Some v) = Inr v"
  "use x = Inr v \<longleftrightarrow> x = Some v"
  by (auto simp: use_def split: option.splits)

text \<open>\<^verbatim>\<open>std::cin>>addr>>type>>type>>addr>>waste>>waste>>thread_rid\<close>\<close>

definition read_record :: "istream \<Rightarrow> (addr option \<times> char option \<times> int32 option) \<times> istream" where
  "read_record s0 =
     (let (a1, s1) = extract_ptr s0;
          (t1, s2) = extract_char s1;
          (t2, s3) = extract_char s2;
          (a2, s4) = extract_ptr s3;
          (w1, s5) = extract_string s4;
          (w2, s6) = extract_string s5;
          (r, s7) = extract_int s6
      in ((assign a1 a2, assign t1 t2, r), s7))"

text \<open>\<^verbatim>\<open>sample_in\<close>: \<^verbatim>\<open>std::cin>>(*tid)>>(*type)>>(*address)\<close>; a string starts out empty.\<close>

definition sample_in :: "istream \<Rightarrow> (int32 option \<times> char option \<times> string) \<times> istream" where
  "sample_in s0 =
     (let (tid, s1) = extract_int s0;
          (type, s2) = extract_char s1;
          (address, s3) = extract_string s2
      in ((tid, type, case address of None \<Rightarrow> [] | Some w \<Rightarrow> w), s3))"

section \<open>Extractions consume input\<close>

lemma dropWhile_length: "length (dropWhile P xs) \<le> length xs"
  by (induction xs) auto

lemma sentry_length: "sentry s = (ok, s') \<Longrightarrow> length (chars s') \<le> length (chars s)"
  using dropWhile_length [of isspace "chars s"]
  by (auto simp: sentry_def skipws_def split: if_splits list.splits)

lemma sentry_ok: "sentry s = (True, s') \<Longrightarrow> \<exists>c cs. chars s' = c # cs"
  by (auto simp: sentry_def split: if_splits list.splits)

lemma read_digits_length:
  "read_digits b a k cs = (n, j, rest) \<Longrightarrow> k \<le> j \<and> length rest + j = length cs + k"
  by (induction cs arbitrary: a k) (fastforce split: option.splits)+

lemma read_sign_length: "read_sign cs = (neg, cs') \<Longrightarrow> length cs' \<le> length cs"
  by (auto simp: read_sign_def split: list.splits if_splits)

lemma skip_0x_length: "length (skip_0x cs) \<le> length cs"
  by (auto simp: skip_0x_def split: list.splits)

lemma extract_char_length: "extract_char s = (x, s') \<Longrightarrow>
    length (chars s') \<le> length (chars s) \<and> (x \<noteq> None \<longrightarrow> length (chars s') < length (chars s))"
  using sentry_length [of s] sentry_ok [of s]
  by (fastforce simp: extract_char_def split: prod.splits bool.splits)

lemma extract_string_length: "extract_string s = (x, s') \<Longrightarrow> length (chars s') \<le> length (chars s)"
  using sentry_length [of s] dropWhile_length [of "\<lambda>c. \<not> isspace c"]
  by (fastforce simp: extract_string_def Let_def split: prod.splits bool.splits intro: order_trans)

lemma extract_ptr_length: "extract_ptr s = (x, s') \<Longrightarrow> length (chars s') \<le> length (chars s)"
proof -
  assume e: "extract_ptr s = (x, s')"
  obtain ok s1 where s1: "sentry s = (ok, s1)" by fastforce
  obtain neg cs where sg: "read_sign (chars s1) = (neg, cs)" by fastforce
  obtain n k rest where rd: "read_digits 16 0 0 (skip_0x cs) = (n, k, rest)" by (metis prod_cases3)
  have "length rest \<le> length (chars s)"
    using read_digits_length [OF rd] skip_0x_length [of cs] read_sign_length [OF sg] sentry_length [OF s1] by simp
  with e s1 sg rd sentry_length [OF s1] show ?thesis
    by (auto simp: extract_ptr_def Let_def split: bool.splits if_splits)
qed

lemma extract_int_length: "extract_int s = (x, s') \<Longrightarrow> length (chars s') \<le> length (chars s)"
proof -
  assume e: "extract_int s = (x, s')"
  obtain ok s1 where s1: "sentry s = (ok, s1)" by fastforce
  obtain neg cs where sg: "read_sign (chars s1) = (neg, cs)" by fastforce
  obtain n k rest where rd: "read_digits 10 0 0 cs = (n, k, rest)" by (metis prod_cases3)
  have "length rest \<le> length (chars s)"
    using read_digits_length [OF rd] read_sign_length [OF sg] sentry_length [OF s1] by simp
  with e s1 sg rd sentry_length [OF s1] show ?thesis
    by (auto simp: extract_int_def Let_def split: bool.splits if_splits)
qed

lemma read_record_consumes:
  assumes "read_record s = ((a, Some t, r), s')"
  shows "length (chars s') < length (chars s)"
proof -
  obtain a1 s1 t1 s2 t2 s3 a2 s4 w1 s5 w2 s6 where
    e: "extract_ptr s = (a1, s1)" "extract_char s1 = (t1, s2)" "extract_char s2 = (t2, s3)"
      "extract_ptr s3 = (a2, s4)" "extract_string s4 = (w1, s5)" "extract_string s5 = (w2, s6)"
    by (meson surj_pair)
  with assms have r: "extract_int s6 = (r, s')" "assign t1 t2 = Some t"
    by (auto simp: read_record_def Let_def split: prod.splits)
  then have "t1 \<noteq> None \<or> t2 \<noteq> None" by (auto simp: assign_def split: option.splits)
  then show ?thesis
    using extract_ptr_length [OF e(1)] extract_char_length [OF e(2)] extract_char_length [OF e(3)]
      extract_ptr_length [OF e(4)] extract_string_length [OF e(5)] extract_string_length [OF e(6)]
      extract_int_length [OF r(1)] by linarith
qed

lemma sample_in_consumes:
  assumes "sample_in s = ((i, Some t, w), s')"
  shows "length (chars s') < length (chars s)"
proof -
  obtain i' s1 t' s2 w' s3 where
    e: "extract_int s = (i', s1)" "extract_char s1 = (t', s2)" "extract_string s2 = (w', s3)"
    by (meson surj_pair)
  with assms have "t' = Some t" "s' = s3" by (auto simp: sample_in_def)
  then show ?thesis
    using extract_int_length [OF e(1)] extract_char_length [OF e(2)] extract_string_length [OF e(3)]
    by auto
qed

section \<open>\<^verbatim>\<open>realloop\<close>\<close>

text \<open>
  \<^verbatim>\<open>num_tids\<close> is below the number of processors whenever it is used as an index, so it is a
  natural number; the counter \<^verbatim>\<open>cnt\<close> is an int.
\<close>

record real_state =
  tid_map :: "(int32 \<times> nat) list"
  anti_map :: "int32 list"
  num_tids :: nat
  real_cnt :: int32

definition real_start :: real_state where
  "real_start = \<lparr>tid_map = [], anti_map = [], num_tids = 0, real_cnt = 0\<rparr>"

definition note_tid :: "int32 \<Rightarrow> real_state \<Rightarrow> real_state" where
  "note_tid thread_rid st =
     (case map_of (tid_map st) thread_rid of
        None \<Rightarrow> st\<lparr>tid_map := AList.update thread_rid (num_tids st) (tid_map st),
                  anti_map := anti_map st @ [thread_rid], num_tids := num_tids st + 1\<rparr>
      | Some _ \<Rightarrow> st)"

definition real_body :: "nat \<Rightarrow> istream \<Rightarrow> real_state \<Rightarrow> ((nat \<times> Trace) \<times> istream \<times> real_state) result" where
  "real_body n s st =
     (let ((addr, type, thread_rid), s') = read_record s in
      andThen (use thread_rid) (\<lambda>rid.
        let st1 = note_tid rid st;
            tid = the (map_of (tid_map st1) rid)
        in if tid < n then
             andThen (use addr) (\<lambda>a.
             andThen (use type) (\<lambda>t.
               let c = real_cnt st1 + 1
               in Inr ((tid, \<lparr>trace_tag = a, trace_type = t, trace_cnt = c\<rparr>), s', st1\<lparr>real_cnt := c\<rparr>)))
           else Inl IndexOutOfRange))"

lemma real_body_consumes: "real_body n s st = Inr (m, s', st') \<Longrightarrow> length (chars s') < length (chars s)"
  using read_record_consumes
  by (fastforce simp: real_body_def Let_def fault_simps split: prod.splits if_splits)

function realloop :: "nat \<Rightarrow> istream \<Rightarrow> real_state \<Rightarrow> ((nat \<times> Trace) list \<times> real_state) result" where
  "realloop n s st =
     (if eofbit s then Inr ([], st)
      else andThen (real_body n s st) (\<lambda>(m, s', st').
             andThen (realloop n s' st') (\<lambda>(ms, st''). Inr (m # ms, st''))))"
  by pat_completeness auto
termination
  by (relation "measure (\<lambda>(n, s, st). length (chars s))") (auto dest: real_body_consumes)

declare realloop.simps [simp del]

section \<open>\<^verbatim>\<open>inputloop\<close>\<close>

record input_state =
  addr_map :: "(string \<times> addr) list"
  base_ptr :: addr
  input_cnt :: int32

definition input_start :: input_state where
  "input_start = \<lparr>addr_map = [], base_ptr = 0x10000000, input_cnt = 0\<rparr>"

definition note_address :: "string \<Rightarrow> input_state \<Rightarrow> input_state" where
  "note_address address st =
     (case map_of (addr_map st) address of
        None \<Rightarrow> st\<lparr>addr_map := AList.update address (base_ptr st) (addr_map st),
                  base_ptr := base_ptr st + 1024\<rparr>
      | Some _ \<Rightarrow> st)"

definition input_body :: "nat \<Rightarrow> istream \<Rightarrow> input_state \<Rightarrow> ((nat \<times> Trace) \<times> istream \<times> input_state) result" where
  "input_body n s st =
     (let ((tid, type, address), s') = sample_in s;
          st1 = note_address address st
      in andThen (use tid) (\<lambda>i.
           if 0 \<le> sint i \<and> nat (sint i) < n then
             andThen (use type) (\<lambda>t.
               let c = input_cnt st1 + 1
               in Inr ((nat (sint i), \<lparr>trace_tag = the (map_of (addr_map st1) address), trace_type = t, trace_cnt = c\<rparr>),
                       s', st1\<lparr>input_cnt := c\<rparr>))
           else Inl IndexOutOfRange))"

lemma input_body_consumes: "input_body n s st = Inr (m, s', st') \<Longrightarrow> length (chars s') < length (chars s)"
  using sample_in_consumes
  by (fastforce simp: input_body_def Let_def fault_simps split: prod.splits if_splits)

function inputloop :: "nat \<Rightarrow> istream \<Rightarrow> input_state \<Rightarrow> ((nat \<times> Trace) list \<times> input_state) result" where
  "inputloop n s st =
     (if eofbit s then Inr ([], st)
      else andThen (input_body n s st) (\<lambda>(m, s', st').
             andThen (inputloop n s' st') (\<lambda>(ms, st''). Inr (m # ms, st''))))"
  by pat_completeness auto
termination
  by (relation "measure (\<lambda>(n, s, st). length (chars s))") (auto dest: input_body_consumes)

declare inputloop.simps [simp del]

section \<open>The report\<close>

text \<open>
  \<^verbatim>\<open>realloop\<close>'s last part: the statistics of all processors are brought up to date and added.
  The three rates it prints after the totals are quotients of these numbers in double
  precision and are not modelled.
\<close>

definition total_stat :: "Bus \<Rightarrow> MetaStat" where
  "total_stat b = fold (\<lambda>p t. MetaStat_plus t (stat (push_stats p))) (processors b) MetaStat_default"

definition miss_sum :: "MetaStat \<Rightarrow> int32" where
  "miss_sum st = stat_cold_misses st + stat_capacity_misses st + coherence_misses st"

definition real_report :: "Bus \<Rightarrow> string" where
  "real_report b = show_MetaStat (total_stat b) @ endl"

text \<open>\<^verbatim>\<open>inputloop\<close> prints every processor's statistics instead.\<close>

definition input_report :: "Bus \<Rightarrow> string" where
  "input_report b = concat (map (print_stats \<circ> push_stats) (processors b))"

section \<open>The command line\<close>

record settings =
  inputFilename :: "string option"
  nthreads :: int32
  NCachelines :: int32

definition default_settings :: settings where
  "default_settings = \<lparr>inputFilename = None, nthreads = 1, NCachelines = 30\<rparr>"

definition default_input_dir :: string where
  "default_input_dir = ''../samples''"

definition default_output_dir :: string where
  "default_output_dir = ''../sampleoutput''"

text \<open>One result of \<^verbatim>\<open>getopt(argc, argv, "f:n:i:")\<close>: the option letter and \<^verbatim>\<open>optarg\<close>.\<close>

definition handle_option :: "char \<times> string \<Rightarrow> settings \<Rightarrow> settings result" where
  "handle_option result g =
     (let (opt, optarg) = result in
      if opt = CHR ''f'' then Inr (g\<lparr>inputFilename := Some optarg\<rparr>)
      else if opt = CHR ''n'' then andThen (atoi optarg) (\<lambda>n. Inr (g\<lparr>nthreads := n\<rparr>))
      else if opt = CHR ''i'' then andThen (atoi optarg) (\<lambda>n. Inr (g\<lparr>NCachelines := n\<rparr>))
      else Inr g)"

definition parse_command :: "int32 \<Rightarrow> (char \<times> string) list \<Rightarrow> settings \<Rightarrow> (int32 \<times> settings) result" where
  "parse_command argc opts g =
     (if sint argc < 2 then Inr (- 1, g)
      else andThen (foldE handle_option opts g) (\<lambda>g'. Inr (0, g')))"

text \<open>
  \<^verbatim>\<open>execute\<close> up to and including the reading of the traces: the bus it starts, the file it
  writes to, the traces handed out and the state of the reader. Appending a null pointer
  to a string is undefined; a file that cannot be opened reads as an empty one.
\<close>

definition execute :: "(string \<Rightarrow> string option) \<Rightarrow> settings \<Rightarrow>
    (Bus \<times> string \<times> (nat \<times> Trace) list \<times> real_state) result" where
  "execute file g =
     andThen (Bus_new (nthreads g) (NCachelines g)) (\<lambda>b.
     andThen (if sint (nthreads g + 1) < 0 then Inl LengthError else Inr ()) (\<lambda>_.
     andThen (case inputFilename g of None \<Rightarrow> Inl NullPointer | Some f \<Rightarrow> Inr f) (\<lambda>f.
       let inputFile = default_input_dir @ ''/'' @ f;
           outputFile = default_output_dir @ ''/'' @ f;
           text = (case file inputFile of None \<Rightarrow> [] | Some cs \<Rightarrow> cs)
       in andThen (realloop (length (processors b)) \<lparr>chars = text, eofbit = False, failbit = False\<rparr> real_start)
            (\<lambda>(ms, st). Inr (b, outputFile, ms, st)))))"

text \<open>\<^verbatim>\<open>main\<close> does not look at the result of \<^verbatim>\<open>parse_command\<close>.\<close>

definition main :: "(string \<Rightarrow> string option) \<Rightarrow> int32 \<Rightarrow> (char \<times> string) list \<Rightarrow>
    (Bus \<times> string \<times> (nat \<times> Trace) list \<times> real_state) result" where
  "main file argc opts =
     andThen (parse_command argc opts default_settings) (\<lambda>(_, g). execute file g)"

end
