(* ===== verification/Pinatrace.thy ===== *)
theory Pinatrace
  imports Trace_Input
begin

text \<open>
  The Pin tool of the project, \<^verbatim>\<open>pinatrace.cpp\<close>, which logs the memory accesses of the program
  under test, and the way its log is read back by the simulator. What Pin reports of an
  instruction or a routine (its operands, its name, the thread, effective addresses) is
  input of the definitions; the text the C library prints for a null pointer is a
  parameter.
\<close>

section \<open>The tool\<close>

definition ROI_BEGIN :: string where
  "ROI_BEGIN = ''__parsec_roi_begin''"

definition ROI_END :: string where
  "ROI_END = ''__parsec_roi_end''"

definition compstrstart :: string where
  "compstrstart = ''startroi''"

definition compstrend :: string where
  "compstrend = ''stoproi''"

record tool =
  log_text :: string
  isROI :: bool

fun strstr :: "string \<Rightarrow> string \<Rightarrow> bool" where
  "strstr [] needle = (needle = [])"
| "strstr (c # cs) needle = (take (length needle) (c # cs) = needle \<or> strstr cs needle)"

text \<open>An executed access: instruction pointer, effective address, routine name, thread.\<close>

record access_event =
  ev_ip :: addr
  ev_addr :: addr
  ev_rtn :: string
  ev_tid :: int32

definition mark_roi :: "string \<Rightarrow> tool \<Rightarrow> tool" where
  "mark_roi rtn t =
     (if strstr rtn compstrstart then t\<lparr>isROI := True\<rparr>
      else if strstr rtn compstrend then t\<lparr>isROI := False\<rparr>
      else t)"

text \<open>\<^verbatim>\<open>fprintf(trace, "%p: R %p; TID: %ld\n", ip, addr, tid)\<close>\<close>

definition log_line :: "string \<Rightarrow> access_event \<Rightarrow> string" where
  "log_line null_text e =
     printf_p null_text (ev_ip e) @ '': R '' @ printf_p null_text (ev_addr e) @ ''; TID: '' @
     show_int32 (ev_tid e)"

definition RecordMemRead :: "string \<Rightarrow> access_event \<Rightarrow> tool \<Rightarrow> tool" where
  "RecordMemRead null_text e t =
     (let t1 = mark_roi (ev_rtn e) t in
      if isROI t1 then t1\<lparr>log_text := log_text t1 @ log_line null_text e @ endl\<rparr> else t1)"

definition RecordMemWrite :: "string \<Rightarrow> access_event \<Rightarrow> tool \<Rightarrow> tool" where
  "RecordMemWrite null_text e t =
     (let t1 = mark_roi (ev_rtn e) t in
      if isROI t1 then t1\<lparr>log_text := log_text t1 @ log_line null_text e @ endl\<rparr> else t1)"

definition StartROI :: "tool \<Rightarrow> tool" where
  "StartROI t = t"

definition StopROI :: "tool \<Rightarrow> tool" where
  "StopROI t = t"

section \<open>Instrumentation\<close>

datatype analysis_call = CallRead nat string | CallWrite nat string

text \<open>The calls inserted before an instruction: its operands are given as (read, written).\<close>

definition Instruction :: "(bool \<times> bool) list \<Rightarrow> string option \<Rightarrow> analysis_call list" where
  "Instruction operands rtn =
     (let name = (case rtn of None \<Rightarrow> ''invalid'' | Some r \<Rightarrow> r) in
      concat (map (\<lambda>memOp. let (is_read, is_written) = operands ! memOp in
          (if is_read then [CallRead memOp name] else []) @
          (if is_written then [CallWrite memOp name] else [])) [0..<length operands]))"

datatype routine_call = AfterStart | BeforeStop

definition Routine :: "string \<Rightarrow> routine_call option" where
  "Routine name =
     (if name = ROI_BEGIN then Some AfterStart else if name = ROI_END then Some BeforeStop else None)"

text \<open>Running an inserted call: Pin passes the address of the operand the call names.\<close>

definition run_call :: "string \<Rightarrow> addr \<Rightarrow> (nat \<Rightarrow> addr) \<Rightarrow> int32 \<Rightarrow> analysis_call \<Rightarrow> tool \<Rightarrow> tool" where
  "run_call null_text ip ea os_tid call =
     (case call of
        CallRead memOp name \<Rightarrow>
          RecordMemRead null_text \<lparr>ev_ip = ip, ev_addr = ea memOp, ev_rtn = name, ev_tid = os_tid\<rparr>
      | CallWrite memOp name \<Rightarrow>
          RecordMemWrite null_text \<lparr>ev_ip = ip, ev_addr = ea memOp, ev_rtn = name, ev_tid = os_tid\<rparr>)"

text \<open>A run of the tool: the executed accesses in order, marked when they are writes.\<close>

fun run_tool :: "string \<Rightarrow> (bool \<times> access_event) list \<Rightarrow> tool \<Rightarrow> tool" where
  "run_tool null_text [] t = t"
| "run_tool null_text ((is_write, e) # es) t =
     run_tool null_text es (if is_write then RecordMemWrite null_text e t else RecordMemRead null_text e t)"

text \<open>The accesses that are logged: those from a start marker on, up to a stop marker.\<close>

fun logged :: "bool \<Rightarrow> (bool \<times> access_event) list \<Rightarrow> access_event list" where
  "logged roi [] = []"
| "logged roi ((_, e) # es) =
     (let roi' = (strstr (ev_rtn e) compstrstart \<or> roi \<and> \<not> strstr (ev_rtn e) compstrend)
      in (if roi' then [e] else []) @ logged roi' es)"

lemma run_tool_log:
  "log_text (run_tool null_text es t) =
     log_text t @ concat (map (\<lambda>e. log_line null_text e @ endl) (logged (isROI t) es))"
  by (induction es arbitrary: t)
    (auto simp: RecordMemRead_def RecordMemWrite_def mark_roi_def Let_def)

section \<open>Reading a logged line back\<close>

definition loggable :: "access_event \<Rightarrow> bool" where
  "loggable e \<longleftrightarrow> ev_ip e \<noteq> nullptr \<and> ev_addr e \<noteq> nullptr \<and> 0 \<le> sint (ev_tid e)"

abbreviation stream :: "string \<Rightarrow> istream" where
  "stream cs \<equiv> \<lparr>chars = cs, eofbit = False, failbit = False\<rparr>"

abbreviation after :: "string \<Rightarrow> istream" where
  "after cs \<equiv> \<lparr>chars = cs, eofbit = (cs = []), failbit = False\<rparr>"

lemma code_CHR [simp]:
  "isspace CHR '' ''" "\<not> isspace CHR ''0''" "\<not> isspace CHR ''R''" "\<not> isspace CHR '':''"
  "\<not> isspace CHR '';''" "\<not> isspace CHR ''T''" "\<not> isspace CHR ''I''" "\<not> isspace CHR ''D''"
  "isspace (char_of (10 :: nat))"
  "digit_val 16 CHR '':'' = None" "digit_val 16 CHR '';'' = None" "digit_val 10 (char_of (10 :: nat)) = None"
  by (simp_all add: isspace_def code_def digit_val_def)

lemma skipws_simps [simp]:
  "isspace c \<Longrightarrow> skipws (c # cs) = skipws cs" "\<not> isspace c \<Longrightarrow> skipws (c # cs) = c # cs" "skipws [] = []"
  by (simp_all add: skipws_def)

lemma sentry_stream: "skipws cs = c # ds \<Longrightarrow> sentry (stream cs) = (True, stream (c # ds))"
  by (simp add: sentry_def good_def)

lemma extract_ptr_printed:
  assumes "p \<noteq> nullptr" and "skipws cs = printf_p null_text p @ c # rest" and "digit_val 16 c = None"
  shows "extract_ptr (stream cs) = (Some p, stream (c # rest))"
proof -
  obtain k where k: "read_digits 16 0 0 (show_base 16 (unat p) @ c # rest) = (unat p, Suc k, c # rest)"
    using read_show_base_append [of 16 "c # rest" "unat p"] assms(3) by auto
  have cs: "skipws cs = CHR ''0'' # CHR ''x'' # show_base 16 (unat p) @ c # rest"
    using assms(1,2) by (simp add: printf_p_def)
  have "unat p < 2 ^ 64" using unsigned_less [of p] by simp
  then show ?thesis
    using k by (simp add: extract_ptr_def sentry_stream [OF cs] read_sign_def skip_0x_def Let_def)
qed

lemma show_base_first: "2 \<le> b \<Longrightarrow> b \<le> 16 \<Longrightarrow> \<exists>c cs d. show_base b n = c # cs \<and> digit_val b c = Some d"
  using show_base_digits [of b _ n] by (cases "show_base b n") fastforce+

lemma digit_not_sign: "digit_val b c = Some d \<Longrightarrow> c \<noteq> CHR ''-'' \<and> c \<noteq> CHR ''+''"
  by (auto simp: digit_val_def code_def)

lemma extract_int_printed:
  assumes "0 \<le> sint w" and "rest = [] \<or> digit_val 10 (hd rest) = None"
  shows "extract_int (stream (CHR '' '' # show_int32 w @ rest)) = (Some w, after rest)"
proof -
  let ?n = "nat (sint w)"
  have show_w: "show_int32 w = show_base 10 ?n" using assms(1) by (simp add: show_int32_def show_nat_def)
  obtain c cs d where c: "show_base 10 ?n = c # cs" "digit_val 10 c = Some d"
    using show_base_first [of 10 ?n] by auto
  obtain k where k: "read_digits 10 0 0 (show_base 10 ?n @ rest) = (?n, Suc k, rest)"
    using read_show_base_append [of 10 rest ?n] assms(2) by auto
  have "skipws (CHR '' '' # show_int32 w @ rest) = c # cs @ rest"
    using c digit_not_space [OF c(2)] by (simp add: show_w)
  note sn = sentry_stream [OF this]
  have sg: "read_sign (c # cs @ rest) = (False, c # cs @ rest)"
    using digit_not_sign [OF c(2)] by (simp add: read_sign_def)
  have "sint w < 2 ^ 31" using sint_less [of w] by simp
  then show ?thesis
    using k assms(1) c by (simp add: extract_int_def sn sg Let_def)
qed

lemma extract_string_token:
  assumes "skipws cs = w @ rest" "w \<noteq> []" "\<forall>c \<in> set w. \<not> isspace c" "rest \<noteq> []" "isspace (hd rest)"
  shows "extract_string (stream cs) = (Some w, stream rest)"
proof -
  obtain c ds where w: "w = c # ds" using assms(2) by (cases w) auto
  have "takeWhile (\<lambda>c. \<not> isspace c) (w @ rest) = w" "dropWhile (\<lambda>c. \<not> isspace c) (w @ rest) = rest"
    using assms(3-5) by (cases rest; simp)+
  moreover have "sentry (stream cs) = (True, stream (w @ rest))"
    using assms(1) w by (simp add: sentry_stream)
  ultimately show ?thesis
    using assms(4,5) hd_in_set [of rest] by (auto simp: extract_string_def Let_def)
qed

lemma extract_char_stream: "skipws cs = c # ds \<Longrightarrow> extract_char (stream cs) = (Some c, stream ds)"
  by (simp add: extract_char_def sentry_stream)

lemma read_logged_line:
  assumes "loggable e" and "skipws cs = log_line null_text e @ rest"
    and "rest = [] \<or> hd rest = char_of (10 :: nat)"
  shows "read_record (stream cs) = ((Some (ev_addr e), Some CHR ''R'', Some (ev_tid e)), after rest)"
proof -
  let ?r4 = "CHR '' '' # show_int32 (ev_tid e) @ rest"
  let ?r3 = "''; TID:'' @ ?r4"
  let ?r2 = "printf_p null_text (ev_addr e) @ ?r3"
  have 1: "extract_ptr (stream cs) = (Some (ev_ip e), stream ('': R '' @ ?r2))"
    using extract_ptr_printed [of "ev_ip e" cs null_text "CHR '':''" "'' R '' @ ?r2"] assms(1,2)
    by (simp add: loggable_def log_line_def)
  have 2: "extract_char (stream ('': R '' @ ?r2)) = (Some CHR '':'', stream ('' R '' @ ?r2))"
    by (intro extract_char_stream) simp
  have 3: "extract_char (stream ('' R '' @ ?r2)) = (Some CHR ''R'', stream ('' '' @ ?r2))"
    by (intro extract_char_stream) simp
  have "skipws ('' '' @ ?r2) = ?r2"
    using assms(1) by (simp add: printf_p_def loggable_def)
  then have 4: "extract_ptr (stream ('' '' @ ?r2)) = (Some (ev_addr e), stream ?r3)"
    using extract_ptr_printed [of "ev_addr e" "'' '' @ ?r2" null_text "CHR '';''" "'' TID:'' @ ?r4"] assms(1)
    by (simp add: loggable_def)
  have 5: "extract_string (stream ?r3) = (Some '';'', stream ('' TID:'' @ ?r4))"
    by (intro extract_string_token) simp_all
  have 6: "extract_string (stream ('' TID:'' @ ?r4)) = (Some ''TID:'', stream ?r4)"
    by (intro extract_string_token) simp_all
  have 7: "extract_int (stream ?r4) = (Some (ev_tid e), after rest)"
    using assms(1,3) by (intro extract_int_printed) (auto simp: loggable_def)
  show ?thesis
    unfolding read_record_def by (simp only: 1 2 3 4 5 6 7 Let_def prod.case) (simp add: assign_def)
qed

section \<open>Reading a whole log back\<close>

text \<open>A log without its last end of line.\<close>

fun log_file :: "string \<Rightarrow> access_event list \<Rightarrow> string" where
  "log_file null_text [] = []"
| "log_file null_text [e] = log_line null_text e"
| "log_file null_text (e # es) = log_line null_text e @ endl @ log_file null_text es"

lemma log_file_endl:
  "es \<noteq> [] \<Longrightarrow> log_file null_text es @ endl = concat (map (\<lambda>e. log_line null_text e @ endl) es)"
  by (induction null_text es rule: log_file.induct) simp_all

text \<open>The simulator numbers the threads in the order in which they first occur.\<close>

fun number_tids :: "int32 list \<Rightarrow> int32 list \<Rightarrow> nat list" where
  "number_tids seen [] = []"
| "number_tids seen (r # rs) =
     (let seen' = (if r \<in> set seen then seen else seen @ [r])
      in length (takeWhile (\<lambda>x. x \<noteq> r) seen') # number_tids seen' rs)"

fun all_tids :: "int32 list \<Rightarrow> int32 list \<Rightarrow> int32 list" where
  "all_tids seen [] = seen"
| "all_tids seen (r # rs) = all_tids (if r \<in> set seen then seen else seen @ [r]) rs"

text \<open>The reader's map sends every thread seen so far to its position.\<close>

definition tids_ok :: "real_state \<Rightarrow> bool" where
  "tids_ok st \<longleftrightarrow>
     distinct (anti_map st) \<and> num_tids st = length (anti_map st) \<and>
     (\<forall>r. map_of (tid_map st) r =
        (if r \<in> set (anti_map st) then Some (length (takeWhile (\<lambda>x. x \<noteq> r) (anti_map st))) else None))"

lemma takeWhile_neq_append: "r \<in> set xs \<Longrightarrow> takeWhile (\<lambda>x. x \<noteq> r) (xs @ ys) = takeWhile (\<lambda>x. x \<noteq> r) xs"
  by (induction xs) auto

lemma takeWhile_neq_fresh: "r \<notin> set xs \<Longrightarrow> takeWhile (\<lambda>x. x \<noteq> r) (xs @ [r]) = xs"
  by (induction xs) auto

lemma takeWhile_neq_less: "r \<in> set xs \<Longrightarrow> length (takeWhile (\<lambda>x. x \<noteq> r) xs) < length xs"
  by (induction xs) auto

lemma note_tid_ok:
  assumes "tids_ok st"
  shows "tids_ok (note_tid r st)"
    and "anti_map (note_tid r st) = (if r \<in> set (anti_map st) then anti_map st else anti_map st @ [r])"
    and "map_of (tid_map (note_tid r st)) r =
      Some (length (takeWhile (\<lambda>x. x \<noteq> r) (anti_map (note_tid r st))))"
    and "real_cnt (note_tid r st) = real_cnt st"
proof -
  have m: "map_of (tid_map st) r =
      (if r \<in> set (anti_map st) then Some (length (takeWhile (\<lambda>x. x \<noteq> r) (anti_map st))) else None)"
    using assms by (simp add: tids_ok_def)
  show am: "anti_map (note_tid r st) = (if r \<in> set (anti_map st) then anti_map st else anti_map st @ [r])"
    using m by (simp add: note_tid_def)
  show "real_cnt (note_tid r st) = real_cnt st"
    using m by (simp add: note_tid_def)
  show ok: "tids_ok (note_tid r st)"
  proof (cases "r \<in> set (anti_map st)")
    case True
    with m assms show ?thesis by (simp add: note_tid_def)
  next
    case False
    with m assms show ?thesis
      by (auto simp: note_tid_def tids_ok_def update_conv' takeWhile_neq_append takeWhile_neq_fresh
          fun_upd_apply)
  qed
  then show "map_of (tid_map (note_tid r st)) r =
      Some (length (takeWhile (\<lambda>x. x \<noteq> r) (anti_map (note_tid r st))))"
    using am by (simp add: tids_ok_def)
qed

lemma all_tids_grows: "length seen \<le> length (all_tids seen rs)"
  by (induction rs arbitrary: seen) (simp_all, metis Suc_leD length_append_singleton)

lemma real_body_logged:
  assumes "loggable e" and "skipws cs = log_line null_text e @ rest"
    and "rest = [] \<or> hd rest = char_of (10 :: nat)" and "tids_ok st"
    and "length (anti_map (note_tid (ev_tid e) st)) \<le> n"
  shows "\<exists>st'. real_body n (stream cs) st =
      Inr ((length (takeWhile (\<lambda>x. x \<noteq> ev_tid e) (anti_map (note_tid (ev_tid e) st))),
            \<lparr>trace_tag = ev_addr e, trace_type = CHR ''R'', trace_cnt = real_cnt st + 1\<rparr>), after rest, st') \<and>
      tids_ok st' \<and> anti_map st' = anti_map (note_tid (ev_tid e) st) \<and> real_cnt st' = real_cnt st + 1"
proof -
  let ?r = "ev_tid e" and ?st = "note_tid (ev_tid e) st"
  note nt = note_tid_ok [OF assms(4), of ?r]
  have "?r \<in> set (anti_map ?st)" using nt(2) by simp
  then have "length (takeWhile (\<lambda>x. x \<noteq> ?r) (anti_map ?st)) < n"
    using takeWhile_neq_less assms(5) by fastforce
  then have "real_body n (stream cs) st =
      Inr ((length (takeWhile (\<lambda>x. x \<noteq> ?r) (anti_map ?st)),
            \<lparr>trace_tag = ev_addr e, trace_type = CHR ''R'', trace_cnt = real_cnt st + 1\<rparr>), after rest,
           ?st\<lparr>real_cnt := real_cnt st + 1\<rparr>)"
    by (simp add: real_body_def read_logged_line [OF assms(1-3)] nt(3,4) Let_def)
  moreover have "tids_ok (?st\<lparr>real_cnt := real_cnt st + 1\<rparr>)" using nt(1) by (simp add: tids_ok_def)
  ultimately show ?thesis by auto
qed

lemma realloop_eof: "eofbit s \<Longrightarrow> realloop n s st = Inr ([], st)"
  by (simp add: realloop.simps)

lemma realloop_logged:
  assumes "\<forall>e \<in> set es. loggable e" and "es \<noteq> []" and "skipws cs = log_file null_text es"
    and "tids_ok st" and "length (all_tids (anti_map st) (map ev_tid es)) \<le> n"
  shows "\<exists>ms st'. realloop n (stream cs) st = Inr (ms, st') \<and>
     map fst ms = number_tids (anti_map st) (map ev_tid es) \<and>
     map (\<lambda>m. trace_tag (snd m)) ms = map ev_addr es \<and> (\<forall>m \<in> set ms. trace_type (snd m) = CHR ''R'')"
  using assms
proof (induction es arbitrary: cs st)
  case (Cons e es)
  let ?rest = "if es = [] then [] else endl @ log_file null_text es"
  have sk: "skipws cs = log_line null_text e @ ?rest"
    using Cons.prems(3) by (cases es) simp_all
  have am: "anti_map (note_tid (ev_tid e) st) =
      (if ev_tid e \<in> set (anti_map st) then anti_map st else anti_map st @ [ev_tid e])"
    by (rule note_tid_ok(2) [OF Cons.prems(4)])
  have le: "length (all_tids (anti_map (note_tid (ev_tid e) st)) (map ev_tid es)) \<le> n"
    using Cons.prems(5) unfolding am by simp
  then have len: "length (anti_map (note_tid (ev_tid e) st)) \<le> n"
    using all_tids_grows order_trans by blast
  have rest: "?rest = [] \<or> hd ?rest = char_of (10 :: nat)" by (simp add: endl_def)
  have "loggable e" using Cons.prems(1) by simp
  from real_body_logged [OF this sk rest Cons.prems(4) len] obtain st1 where st1: "real_body n (stream cs) st =
      Inr ((length (takeWhile (\<lambda>x. x \<noteq> ev_tid e) (anti_map (note_tid (ev_tid e) st))),
            \<lparr>trace_tag = ev_addr e, trace_type = CHR ''R'', trace_cnt = real_cnt st + 1\<rparr>), after ?rest, st1)"
      "tids_ok st1" "anti_map st1 = anti_map (note_tid (ev_tid e) st)"
    by blast
  show ?case
  proof (cases "es = []")
    case True
    with st1 am show ?thesis
      by (simp add: realloop.simps [of n "stream cs"] realloop_eof Let_def)
  next
    case False
    obtain e2 es2 where es2: "es = e2 # es2" using False by (cases es) auto
    have "\<exists>c ds. log_file null_text es = c # ds \<and> \<not> isspace c"
      using Cons.prems(1) unfolding es2
      by (cases es2) (simp_all add: log_line_def printf_p_def loggable_def)
    then have sk2: "skipws (endl @ log_file null_text es) = log_file null_text es"
      by (auto simp: endl_def)
    have ok: "\<forall>e \<in> set es. loggable e" using Cons.prems(1) by simp
    have "length (all_tids (anti_map st1) (map ev_tid es)) \<le> n" unfolding st1(3) by (rule le)
    from Cons.IH [OF ok False sk2 st1(2) this] obtain ms st' where
      "realloop n (stream (endl @ log_file null_text es)) st1 = Inr (ms, st')"
      "map fst ms = number_tids (anti_map st1) (map ev_tid es)"
      "map (\<lambda>m. trace_tag (snd m)) ms = map ev_addr es" "\<forall>m \<in> set ms. trace_type (snd m) = CHR ''R''"
      by blast
    with st1 am False show ?thesis
      by (simp add: realloop.simps [of n "stream cs"] Let_def endl_def)
  qed
qed simp

lemma tids_ok_start: "tids_ok real_start"
  by (simp add: tids_ok_def real_start_def)

section \<open>Properties\<close>

text \<open>
  The log of the tool does not depend on which accesses are writes: \<^verbatim>\<open>RecordMemWrite\<close> prints
  the letter R, so the log of a program is the log of the same accesses made as reads.
\<close>

theorem writes_logged_as_reads:
  "run_tool null_text es t = run_tool null_text (map (\<lambda>(_, e). (False, e)) es) t"
proof -
  have "RecordMemWrite = RecordMemRead"
    by (simp add: fun_eq_iff RecordMemWrite_def RecordMemRead_def)
  then show ?thesis by (induction es arbitrary: t) auto
qed

text \<open>
  C16. A log the tool writes, less its last end of line, is read back by \<^verbatim>\<open>realloop\<close> without a
  fault: it gives the logged addresses in order, each as a read, each for the processor that
  stands for the thread, the threads being numbered in the order they first occur (provided
  there are as many processors as threads, and no address or instruction pointer is null).
\<close>

theorem log_read_back:
  assumes "\<forall>e \<in> set es. loggable e" and "es \<noteq> []"
    and "length (all_tids [] (map ev_tid es)) \<le> n"
  shows "\<exists>ms st. realloop n (stream (log_file null_text es)) real_start = Inr (ms, st) \<and>
     map fst ms = number_tids [] (map ev_tid es) \<and>
     map (\<lambda>m. trace_tag (snd m)) ms = map ev_addr es \<and> (\<forall>m \<in> set ms. trace_type (snd m) = CHR ''R'')"
proof -
  obtain e es' where es: "es = e # es'" using assms(2) by (cases es) auto
  have "\<exists>c ds. log_file null_text es = c # ds \<and> \<not> isspace c"
    using assms(1) unfolding es by (cases es') (simp_all add: log_line_def printf_p_def loggable_def)
  then have "skipws (log_file null_text es) = log_file null_text es" by auto
  from realloop_logged [OF assms(1,2) this tids_ok_start] assms(3) show ?thesis
    by (simp add: real_start_def)
qed

definition demo_event :: "addr \<Rightarrow> int32 \<Rightarrow> access_event" where
  "demo_event a t = \<lparr>ev_ip = 0x400810, ev_addr = a, ev_rtn = ''main'', ev_tid = t\<rparr>"

theorem log_read_back_witness:
  "\<exists>ms st. realloop 2 (stream (log_file ''(nil)'' [demo_event 64 14030, demo_event 128 14031, demo_event 64 14030]))
      real_start = Inr (ms, st) \<and> map fst ms = [0, 1, 0] \<and> map (\<lambda>m. trace_tag (snd m)) ms = [64, 128, 64]"
  using log_read_back [of "[demo_event 64 14030, demo_event 128 14031, demo_event 64 14030]" 2 "''(nil)''"]
  by (auto simp: loggable_def demo_event_def)

lemma read_record_no_chars:
  assumes "skipws cs = []"
  shows "\<exists>s'. read_record (stream cs) = ((None, None, None), s')"
proof -
  have "sentry (stream cs) = (False, \<lparr>chars = [], eofbit = True, failbit = True\<rparr>)"
    using assms by (simp add: sentry_def good_def)
  moreover have "sentry \<lparr>chars = [], eofbit = True, failbit = True\<rparr> = (False, \<lparr>chars = [], eofbit = True, failbit = True\<rparr>)"
    by (simp add: sentry_def good_def)
  ultimately show ?thesis
    by (simp add: read_record_def extract_ptr_def extract_char_def extract_string_def extract_int_def assign_def)
qed

lemma real_body_no_chars: "skipws cs = [] \<Longrightarrow> real_body n (stream cs) st = Inl IndeterminateValue"
  using read_record_no_chars [of cs] by (auto simp: real_body_def)

lemma realloop_trailing_endl:
  assumes "\<forall>e \<in> set es. loggable e" and "es \<noteq> []" and "skipws cs = log_file null_text es @ endl"
    and "tids_ok st" and "length (all_tids (anti_map st) (map ev_tid es)) \<le> n"
  shows "realloop n (stream cs) st = Inl IndeterminateValue"
  using assms
proof (induction es arbitrary: cs st)
  case (Cons e es)
  let ?rest = "if es = [] then endl else endl @ log_file null_text es @ endl"
  have sk: "skipws cs = log_line null_text e @ ?rest"
    using Cons.prems(3) by (cases es) simp_all
  have am: "anti_map (note_tid (ev_tid e) st) =
      (if ev_tid e \<in> set (anti_map st) then anti_map st else anti_map st @ [ev_tid e])"
    by (rule note_tid_ok(2) [OF Cons.prems(4)])
  have le: "length (all_tids (anti_map (note_tid (ev_tid e) st)) (map ev_tid es)) \<le> n"
    using Cons.prems(5) unfolding am by simp
  then have len: "length (anti_map (note_tid (ev_tid e) st)) \<le> n"
    using all_tids_grows order_trans by blast
  have rest: "?rest = [] \<or> hd ?rest = char_of (10 :: nat)" by (simp add: endl_def)
  have e: "loggable e" using Cons.prems(1) by simp
  obtain m st1 where st1: "real_body n (stream cs) st = Inr (m, stream ?rest, st1)"
      "tids_ok st1" "anti_map st1 = anti_map (note_tid (ev_tid e) st)"
    using real_body_logged [OF e sk rest Cons.prems(4) len] by (auto simp: endl_def)
  have "realloop n (stream ?rest) st1 = Inl IndeterminateValue"
  proof (cases "es = []")
    case True
    have "skipws endl = []" by (simp add: endl_def)
    from real_body_no_chars [OF this] True show ?thesis by (simp add: realloop.simps)
  next
    case False
    then obtain e2 es2 where es2: "es = e2 # es2" by (cases es) auto
    have "\<exists>c ds. log_file null_text es = c # ds \<and> \<not> isspace c"
      using Cons.prems(1) unfolding es2
      by (cases es2) (simp_all add: log_line_def printf_p_def loggable_def)
    then have "skipws ?rest = log_file null_text es @ endl" using False by (auto simp: endl_def)
    from Cons.IH [OF _ False this st1(2)] Cons.prems(1) le show ?thesis unfolding st1(3) by simp
  qed
  with st1(1) show ?case by (simp add: realloop.simps [of n "stream cs"])
qed simp

text \<open>
  C22. With the end of line that the tool writes after every record, also after the last, the
  reading loop goes round once more after the last record, finds nothing, and uses
  variables that were never assigned. (Something was logged, with addresses and instruction pointers that are not null and thread
  numbers that are not negative, and there are as many processors as threads; otherwise the reader fails before.)
\<close>

theorem complete_log_reads_indeterminate:
  assumes "\<forall>e \<in> set (logged roi es). loggable e" and "logged roi es \<noteq> []"
    and "length (all_tids [] (map ev_tid (logged roi es))) \<le> n"
  shows "realloop n (stream (log_text (run_tool null_text es \<lparr>log_text = [], isROI = roi\<rparr>))) real_start
    = Inl IndeterminateValue"
proof -
  let ?es = "logged roi es"
  have "log_text (run_tool null_text es \<lparr>log_text = [], isROI = roi\<rparr>) = log_file null_text ?es @ endl"
    using run_tool_log [of null_text es "\<lparr>log_text = [], isROI = roi\<rparr>"] log_file_endl [OF assms(2)] by simp
  moreover obtain e es' where es': "?es = e # es'" using assms(2) by (cases ?es) auto
  have "\<exists>c ds. log_file null_text ?es = c # ds \<and> \<not> isspace c"
    using assms(1) unfolding es' by (cases es') (simp_all add: log_line_def printf_p_def loggable_def)
  then have "skipws (log_file null_text ?es @ endl) = log_file null_text ?es @ endl" by auto
  ultimately show ?thesis
    using realloop_trailing_endl [OF assms(1,2) _ tids_ok_start] assms(3) by (simp add: real_start_def)
qed

theorem complete_log_reads_indeterminate_witness:
  "realloop 1 (stream (log_text (run_tool ''(nil)'' [(True, demo_event 64 14030)] \<lparr>log_text = [], isROI = True\<rparr>)))
     real_start = Inl IndeterminateValue"
  by (rule complete_log_reads_indeterminate)
    (simp_all add: loggable_def demo_event_def strstr.simps compstrend_def compstrstart_def)

text \<open>
  An extraction that fails before the end of the input leaves the stream in a state that
  never reports the end of the file: from there on every round of the loop reads nothing,
  and the loop condition \<^verbatim>\<open>!std::cin.eof()\<close> stays true however often it is tried. (A line such
  as \<^verbatim>\<open>#eof\<close>, which the recorded traces end with, is enough.)
\<close>

theorem failed_stream_never_ends:
  assumes "failbit s" and "\<not> eofbit s"
  shows "((snd \<circ> read_record) ^^ k) s = s \<and> \<not> eofbit (((snd \<circ> read_record) ^^ k) s) \<and>
    fst (read_record s) = (None, None, None)"
proof -
  have "sentry s = (False, s)" using assms by (simp add: sentry_def good_def)
  then have "read_record s = ((None, None, None), s)"
    by (simp add: read_record_def extract_ptr_def extract_char_def extract_string_def extract_int_def assign_def)
  then show ?thesis using assms by (induction k) simp_all
qed

theorem failed_stream_never_ends_witness:
  "\<not> eofbit (((snd \<circ> read_record) ^^ 1000) (snd (extract_ptr (stream ''#eof''))))"
proof -
  have "failbit (snd (extract_ptr (stream ''#eof'')))" "\<not> eofbit (snd (extract_ptr (stream ''#eof'')))"
    by code_simp+
  from failed_stream_never_ends [OF this] show ?thesis by blast
qed

lemma options_keep_no_file:
  "\<forall>(c, _) \<in> set opts. c \<noteq> CHR ''f'' \<Longrightarrow> foldE handle_option opts g = Inr g' \<Longrightarrow>
     inputFilename g' = inputFilename g"
  by (induction opts arbitrary: g) (fastforce simp: handle_option_def fault_simps split: if_splits)+

text \<open>
  Started without arguments the program does not stop with its error message: \<^verbatim>\<open>main\<close> ignores
  the result of \<^verbatim>\<open>parse_command\<close>, \<^verbatim>\<open>execute\<close> starts the threads and appends the null file name to
  a string. The same happens with any options that do not include \<^verbatim>\<open>-f\<close>, unless one of them
  is rejected before.
\<close>

theorem no_file_name_faults:
  assumes "\<forall>(c, _) \<in> set opts. c \<noteq> CHR ''f''" and "parse_command argc opts default_settings = Inr (res, g)"
    and "0 \<le> sint (nthreads g)" and "0 \<le> sint (nthreads g + 1)"
  shows "main file argc opts = Inl NullPointer"
proof -
  have "inputFilename g = None"
    using assms(1,2) options_keep_no_file [OF assms(1), of default_settings]
    by (auto simp: parse_command_def default_settings_def fault_simps split: if_splits)
  with assms show ?thesis by (simp add: main_def execute_def Bus_new_def)
qed

theorem no_file_name_faults_witness: "main (\<lambda>_. None) 1 [] = Inl NullPointer"
  by (rule no_file_name_faults [of "[]" 1 "- 1" default_settings])
    (simp_all add: parse_command_def default_settings_def)

end
