(* ===== verification/Samples.thy ===== *)
theory Samples
  imports Cacheline
begin

text \<open>
  The programs under \<^verbatim>\<open>samples\<close> whose traces the simulator is run on. The main one is
  \<^verbatim>\<open>simple_64thread_interleave_access.cpp\<close> (the program of \<^verbatim>\<open>test/test.cpp\<close> is the same): 64
  threads add one to every 64th element of a shared array. It is a step relation: a move is
  one thread going to its next access of shared memory, the main thread creating or joining
  a thread. The addresses \<^verbatim>\<open>malloc\<close> returns and the results of \<^verbatim>\<open>pthread_create\<close> are inputs.
\<close>

section \<open>Sixty-four threads on one array\<close>

record args =
  arg_tid :: int32
  arg_arr :: addr

text \<open>The address of \<^verbatim>\<open>arr[k]\<close>, with the index a signed \<^verbatim>\<open>int\<close> and elements of four bytes.\<close>

definition elem :: "addr \<Rightarrow> int32 \<Rightarrow> addr" where
  "elem arr k = arr + 4 * scast k"

text \<open>The threads: at the test of the loop, before the load, before the store, or exited.\<close>

datatype worker_pc =
    WTest nat
  | WLoad nat addr
  | WStore nat addr int32
  | WExited

datatype sample_pc =
    MFill nat
  | MSpawn nat
  | MJoin nat
  | MDone
  | MFailed int32

text \<open>
  An allocated cell that has not been written is \<open>Some None\<close>, an address outside every block
  \<open>None\<close>.
\<close>

record sample =
  cells :: "addr \<Rightarrow> int32 option option"
  blocks :: "addr \<Rightarrow> args option"
  workers :: "nat \<Rightarrow> (addr \<times> worker_pc) option"
  sample_main :: sample_pc

definition load_int :: "addr \<Rightarrow> sample \<Rightarrow> int32 result" where
  "load_int a s =
     (case cells s a of
        None \<Rightarrow> Inl IndexOutOfRange
      | Some None \<Rightarrow> Inl IndeterminateValue
      | Some (Some v) \<Rightarrow> Inr v)"

definition store_int :: "addr \<Rightarrow> int32 \<Rightarrow> sample \<Rightarrow> sample result" where
  "store_int a v s =
     (if cells s a = None then Inl IndexOutOfRange else Inr (s\<lparr>cells := (cells s)(a \<mapsto> Some v)\<rparr>))"

definition worker_goto :: "nat \<Rightarrow> addr \<Rightarrow> worker_pc \<Rightarrow> sample \<Rightarrow> sample" where
  "worker_goto j p pc s = s\<lparr>workers := (workers s)(j \<mapsto> (p, pc))\<rparr>"

text \<open>
  A move of thread \<open>j\<close>, whose argument points to its block; \<open>None\<close> when it has none.
\<close>

definition worker_step :: "nat \<Rightarrow> sample \<Rightarrow> sample result option" where
  "worker_step j s =
     (case workers s j of
        None \<Rightarrow> None
      | Some (p, pc) \<Rightarrow>
          (case pc of
             WTest i \<Rightarrow>
               Some (if i < 4 then
                 (case blocks s p of
                    None \<Rightarrow> Inl NullPointer
                  | Some casted \<Rightarrow>
                      Inr (worker_goto j p (WLoad i (elem (arg_arr casted) (arg_tid casted + of_nat i * 64))) s))
               else Inr (worker_goto j p WExited s))
           | WLoad i a \<Rightarrow> Some (andThen (load_int a s) (\<lambda>v. Inr (worker_goto j p (WStore i a v) s)))
           | WStore i a v \<Rightarrow>
               Some (andThen (store_int a (v + 1) s) (\<lambda>s'. Inr (worker_goto j p (WTest (Suc i)) s')))
           | WExited \<Rightarrow> None))"

text \<open>
  A move of \<^verbatim>\<open>main\<close>: \<open>blk i\<close> is the block \<^verbatim>\<open>malloc\<close> returns for the arguments of thread \<open>i\<close> and \<open>rc\<close>
  the result of \<^verbatim>\<open>pthread_create\<close>.
\<close>

definition sample_main_step :: "addr \<Rightarrow> (nat \<Rightarrow> addr) \<Rightarrow> int32 \<Rightarrow> sample \<Rightarrow> sample result option" where
  "sample_main_step shared blk rc s =
     (case sample_main s of
        MFill idx \<Rightarrow>
          Some (if idx < 256 then
            andThen (store_int (elem shared (of_nat idx)) (of_nat idx) s)
              (\<lambda>s'. Inr (s'\<lparr>sample_main := MFill (Suc idx)\<rparr>))
          else Inr (s\<lparr>sample_main := MSpawn 0\<rparr>))
      | MSpawn i \<Rightarrow>
          Some (if i < 64 then
            (let s' = s\<lparr>blocks := (blocks s)(blk i \<mapsto> \<lparr>arg_tid = of_nat i, arg_arr = shared\<rparr>)\<rparr> in
             if rc \<noteq> 0 then Inr (s'\<lparr>sample_main := MFailed rc\<rparr>)
             else Inr ((worker_goto i (blk i) (WTest 0) s')\<lparr>sample_main := MSpawn (Suc i)\<rparr>))
          else Inr (s\<lparr>sample_main := MJoin 0\<rparr>))
      | MJoin i \<Rightarrow>
          if i < 64 then
            (case workers s i of
               Some (p, WExited) \<Rightarrow> Some (Inr (s\<lparr>sample_main := MJoin (Suc i)\<rparr>))
             | _ \<Rightarrow> None)
          else Some (Inr (s\<lparr>sample_main := MDone\<rparr>))
      | MDone \<Rightarrow> None
      | MFailed _ \<Rightarrow> None)"

text \<open>
  After \<^verbatim>\<open>exit\<close> or the return of \<^verbatim>\<open>main\<close> no thread moves any more.
\<close>

datatype move = MainMoves int32 | WorkerMoves nat

fun finished :: "sample_pc \<Rightarrow> bool" where
  "finished MDone = True"
| "finished (MFailed rc) = True"
| "finished _ = False"

definition sample_step :: "addr \<Rightarrow> (nat \<Rightarrow> addr) \<Rightarrow> move \<Rightarrow> sample \<Rightarrow> sample result option" where
  "sample_step shared blk m s =
     (if finished (sample_main s) then None
      else case m of
        MainMoves rc \<Rightarrow> sample_main_step shared blk rc s
      | WorkerMoves j \<Rightarrow> worker_step j s)"

text \<open>\<^verbatim>\<open>main\<close> up to the first loop: the array is allocated, not initialised.\<close>

definition sample_start :: "addr \<Rightarrow> sample" where
  "sample_start shared =
     \<lparr>cells = (\<lambda>a. if \<exists>k\<in>{..<256}. a = elem shared (of_nat k) then Some None else None),
      blocks = (\<lambda>_. None), workers = (\<lambda>_. None), sample_main = MFill 0\<rparr>"

inductive sample_reachable :: "addr \<Rightarrow> (nat \<Rightarrow> addr) \<Rightarrow> sample \<Rightarrow> bool" for shared blk where
  start: "sample_reachable shared blk (sample_start shared)"
| move: "sample_reachable shared blk s \<Longrightarrow> sample_step shared blk m s = Some (Inr s') \<Longrightarrow>
     sample_reachable shared blk s'"

section \<open>The invariant\<close>

text \<open>The increments a thread has made.\<close>

fun increments :: "(addr \<times> worker_pc) option \<Rightarrow> nat" where
  "increments None = 0"
| "increments (Some (p, WTest i)) = i"
| "increments (Some (p, WLoad i a)) = i"
| "increments (Some (p, WStore i a v)) = i"
| "increments (Some (p, WExited)) = 4"

definition worker_ok :: "addr \<Rightarrow> (nat \<Rightarrow> addr) \<Rightarrow> sample \<Rightarrow> nat \<Rightarrow> bool" where
  "worker_ok shared blk s j \<longleftrightarrow>
     (case workers s j of
        None \<Rightarrow> True
      | Some (p, pc) \<Rightarrow>
          j < 64 \<and> p = blk j \<and> blocks s p = Some \<lparr>arg_tid = of_nat j, arg_arr = shared\<rparr> \<and>
          (case pc of
             WTest i \<Rightarrow> i \<le> 4
           | WLoad i a \<Rightarrow> i < 4 \<and> a = elem shared (of_nat (j + i * 64))
           | WStore i a v \<Rightarrow> i < 4 \<and> a = elem shared (of_nat (j + i * 64)) \<and> v = of_nat (j + i * 64)
           | WExited \<Rightarrow> True))"

fun main_ok :: "(nat \<Rightarrow> (addr \<times> worker_pc) option) \<Rightarrow> sample_pc \<Rightarrow> bool" where
  "main_ok w (MFill idx) \<longleftrightarrow> idx \<le> 256 \<and> (\<forall>j. w j = None)"
| "main_ok w (MSpawn i) \<longleftrightarrow> i \<le> 64 \<and> (\<forall>j. w j \<noteq> None \<longleftrightarrow> j < i)"
| "main_ok w (MJoin i) \<longleftrightarrow> i \<le> 64 \<and> (\<forall>j. w j \<noteq> None \<longleftrightarrow> j < 64) \<and> (\<forall>j<i. \<exists>p. w j = Some (p, WExited))"
| "main_ok w MDone \<longleftrightarrow> (\<forall>j<64. \<exists>p. w j = Some (p, WExited))"
| "main_ok w (MFailed rc) \<longleftrightarrow> rc \<noteq> 0"

fun filled :: "sample_pc \<Rightarrow> nat" where
  "filled (MFill idx) = idx"
| "filled _ = 256"

text \<open>What the array holds at index \<open>k\<close>: whether it is written, and by its thread incremented.\<close>

definition cell_value :: "sample \<Rightarrow> nat \<Rightarrow> int32 option" where
  "cell_value s k =
     (if k < filled (sample_main s)
      then Some (of_nat k + (if k div 64 < increments (workers s (k mod 64)) then 1 else 0)) else None)"

definition sample_ok :: "addr \<Rightarrow> (nat \<Rightarrow> addr) \<Rightarrow> sample \<Rightarrow> bool" where
  "sample_ok shared blk s \<longleftrightarrow>
     (\<forall>j. worker_ok shared blk s j) \<and> main_ok (workers s) (sample_main s) \<and>
     (\<forall>k<256. cells s (elem shared (of_nat k)) = Some (cell_value s k))"


lemma scast_small: "k < 2 ^ 31 \<Longrightarrow> (scast (of_nat k :: int32) :: addr) = of_nat k"
  by (rule signed_word_eqI)
    (simp add: signed_of_nat signed_take_bit_int_eq_self)

lemma elem_offset: "k < 2 ^ 31 \<Longrightarrow> elem arr (of_nat k) = arr + of_nat (4 * k)"
  by (simp add: elem_def scast_small)

lemma elem_eq_iff [simp]:
  "k < 256 \<Longrightarrow> l < 256 \<Longrightarrow> elem arr (of_nat k) = elem arr (of_nat l) \<longleftrightarrow> k = l"
proof
  assume "k < 256" "l < 256" "elem arr (of_nat k) = elem arr (of_nat l)"
  then have "(of_nat (4 * k) :: addr) = of_nat (4 * l)" by (simp add: elem_offset del: of_nat_mult)
  then have "unat (of_nat (4 * k) :: addr) = unat (of_nat (4 * l) :: addr)" by (rule arg_cong)
  with \<open>k < 256\<close> \<open>l < 256\<close> show "k = l"
    by (simp add: unat_of_nat take_bit_nat_eq_self del: of_nat_mult)
qed simp

lemma sample_start_ok: "sample_ok shared blk (sample_start shared)"
  by (auto simp: sample_ok_def worker_ok_def sample_start_def cell_value_def)

lemma worker_ok_goto:
  assumes "worker_ok shared blk s j" and "workers s j = Some (p, pc)"
    and "case pc' of
             WTest i \<Rightarrow> i \<le> 4
           | WLoad i a \<Rightarrow> i < 4 \<and> a = elem shared (of_nat (j + i * 64))
           | WStore i a v \<Rightarrow> i < 4 \<and> a = elem shared (of_nat (j + i * 64)) \<and> v = of_nat (j + i * 64)
           | WExited \<Rightarrow> True"
    and "workers s' = (workers s)(j \<mapsto> (p, pc'))" and "blocks s' = blocks s"
  shows "worker_ok shared blk s' j"
  using assms by (auto simp: worker_ok_def split: worker_pc.splits)

lemma worker_ok_other:
  "worker_ok shared blk s l \<Longrightarrow> workers s' l = workers s l \<Longrightarrow> blocks s' = blocks s \<Longrightarrow> worker_ok shared blk s' l"
  by (cases "workers s l") (auto simp: worker_ok_def)

text \<open>A thread that has not exited moves only while \<^verbatim>\<open>main\<close> creates or has not joined it.\<close>

lemma main_ok_goto:
  assumes "main_ok w pc" and "w j = Some (p, wpc)" and "wpc \<noteq> WExited" and "\<not> finished pc"
  shows "main_ok (w(j \<mapsto> (p, wpc'))) pc"
  using assms by (cases pc) auto

text \<open>Moves that leave the array alone, and moves that write the cell of index \<open>k\<close>.\<close>

lemma sample_ok_local_move:
  assumes "sample_ok shared blk s" and "workers s j = Some (p, pc)" and "pc \<noteq> WExited"
    and "\<not> finished (sample_main s)" and "worker_ok shared blk (worker_goto j p pc' s) j"
    and "increments (Some (p, pc')) = increments (Some (p, pc))"
  shows "sample_ok shared blk (worker_goto j p pc' s)"
proof -
  have mo: "main_ok (workers s) (sample_main s)" using assms(1) by (simp add: sample_ok_def)
  have "worker_ok shared blk (worker_goto j p pc' s) l" for l
    using assms(1,5) by (cases "l = j") (auto simp: sample_ok_def worker_goto_def intro: worker_ok_other)
  moreover have "cell_value (worker_goto j p pc' s) = cell_value s"
    using assms(2,6) by (auto simp: cell_value_def worker_goto_def fun_eq_iff)
  ultimately show ?thesis
    using assms(1) main_ok_goto [OF mo assms(2-4)] by (simp add: sample_ok_def worker_goto_def)
qed

lemma sample_ok_store:
  assumes "sample_ok shared blk s" and "workers s j = Some (p, WStore i (elem shared (of_nat (j + i * 64))) v)"
    and "\<not> finished (sample_main s)" and "j < 64" and "i < 4"
    and "s' = s\<lparr>cells := (cells s)(elem shared (of_nat (j + i * 64)) \<mapsto> Some (of_nat (j + i * 64) + 1))\<rparr>"
  shows "sample_ok shared blk (worker_goto j p (WTest (Suc i)) s')"
proof -
  let ?s = "worker_goto j p (WTest (Suc i)) s'" and ?k = "j + i * 64"
  have k: "?k < 256" "?k mod 64 = j" "?k div 64 = i" using assms(4,5) by simp_all
  have mo: "main_ok (workers s) (sample_main s)" using assms(1) by (simp add: sample_ok_def)
  have mn: "main_ok (workers ?s) (sample_main ?s)"
    using main_ok_goto [OF mo assms(2) _ assms(3)] assms(6) by (simp add: worker_goto_def)
  have full: "filled (sample_main s) = 256"
    using assms(1,2) by (cases "sample_main s") (auto simp: sample_ok_def)
  have wk: "worker_ok shared blk s l" for l using assms(1) by (simp add: sample_ok_def)
  have "worker_ok shared blk ?s l" for l
    using wk [of l] assms(2,5,6)
    by (cases "l = j") (auto simp: worker_goto_def worker_ok_def split: option.splits)
  moreover have "cells ?s (elem shared (of_nat l)) = Some (cell_value ?s l)" if l: "l < 256" for l
  proof (cases "l = ?k")
    case True
    then show ?thesis using assms(6) full k by (simp add: worker_goto_def cell_value_def)
  next
    case False
    then have "l mod 64 \<noteq> j \<or> l div 64 \<noteq> i" by (metis k(2,3) div_mult_mod_eq)
    then have "cell_value ?s l = cell_value s l"
      using assms(2,6) by (auto simp: worker_goto_def cell_value_def less_Suc_eq)
    moreover have "cells ?s (elem shared (of_nat l)) = cells s (elem shared (of_nat l))"
      using False l k(1) elem_eq_iff [OF l k(1)] assms(6) by (simp add: worker_goto_def del: of_nat_add)
    ultimately show ?thesis using assms(1) l by (simp add: sample_ok_def)
  qed
  ultimately show ?thesis using mn by (simp add: sample_ok_def)
qed

text \<open>A thread that exists and has not exited can move, without a fault, and keeps the invariant.\<close>

lemma worker_goes_on:
  assumes "sample_ok shared blk s" and "workers s j = Some (p, pc)" and "pc \<noteq> WExited"
    and "\<not> finished (sample_main s)"
  shows "\<exists>s'. worker_step j s = Some (Inr s') \<and> sample_ok shared blk s'"
proof -
  have j: "j < 64" "p = blk j" "blocks s p = Some \<lparr>arg_tid = of_nat j, arg_arr = shared\<rparr>"
    using assms(1,2) by (auto simp: sample_ok_def worker_ok_def split: option.splits)
  have wk: "worker_ok shared blk s j" using assms(1) by (simp add: sample_ok_def)
  note loc = sample_ok_local_move [OF assms(1,2,3,4) worker_ok_goto [OF wk assms(2)]]
  have full: "filled (sample_main s) = 256"
    using assms(1,2) by (cases "sample_main s") (auto simp: sample_ok_def)
  show ?thesis
  proof (cases pc)
    case (WTest i)
    have i: "i \<le> 4" using wk assms(2) WTest by (simp add: worker_ok_def)
    show ?thesis
    proof (cases "i < 4")
      case True
      let ?pc = "WLoad i (elem shared (of_nat j + of_nat i * 64))"
      have "worker_step j s = Some (Inr (worker_goto j p ?pc s))"
        using True WTest assms(2) j(3) by (simp add: worker_step_def)
      moreover have "sample_ok shared blk (worker_goto j p ?pc s)"
        by (rule loc) (use True WTest in \<open>simp_all add: worker_goto_def\<close>)
      ultimately show ?thesis by blast
    next
      case False
      have "worker_step j s = Some (Inr (worker_goto j p WExited s))"
        using False WTest assms(2) by (simp add: worker_step_def)
      moreover have "sample_ok shared blk (worker_goto j p WExited s)"
        by (rule loc) (use False i WTest in \<open>simp_all add: worker_goto_def\<close>)
      ultimately show ?thesis by blast
    qed
  next
    case (WLoad i a)
    let ?k = "j + i * 64"
    have i: "i < 4" "a = elem shared (of_nat ?k)" using wk assms(2) WLoad by (simp_all add: worker_ok_def)
    then have k: "?k < 256" "?k mod 64 = j" "?k div 64 = i" using j(1) by simp_all
    have "cell_value s ?k = Some (of_nat ?k)"
      using full k assms(2) WLoad by (simp add: cell_value_def)
    then have "load_int a s = Inr (of_nat ?k)"
      using assms(1) k(1) by (simp add: i(2) sample_ok_def load_int_def del: of_nat_add of_nat_mult)
    then have "worker_step j s = Some (Inr (worker_goto j p (WStore i a (of_nat ?k)) s))"
      using WLoad assms(2) by (simp add: worker_step_def)
    moreover have "sample_ok shared blk (worker_goto j p (WStore i a (of_nat ?k)) s)"
      by (rule loc) (use i WLoad in \<open>simp_all add: worker_goto_def\<close>)
    ultimately show ?thesis by blast
  next
    case (WStore i a v)
    let ?k = "j + i * 64"
    have i: "i < 4" "a = elem shared (of_nat ?k)" "v = of_nat ?k"
      using wk assms(2) WStore by (simp_all add: worker_ok_def)
    then have k: "?k < 256" using j(1) by simp
    let ?s = "s\<lparr>cells := (cells s)(a \<mapsto> Some (v + 1))\<rparr>"
    have "store_int a (v + 1) s = Inr ?s"
      using assms(1) k by (simp add: i(2) sample_ok_def store_int_def del: of_nat_add of_nat_mult)
    then have "worker_step j s = Some (Inr (worker_goto j p (WTest (Suc i)) ?s))"
      using WStore assms(2) by (simp add: worker_step_def)
    moreover have "sample_ok shared blk (worker_goto j p (WTest (Suc i)) ?s)"
      by (rule sample_ok_store [OF assms(1) _ assms(4) j(1) i(1)])
        (use assms(2) WStore i in \<open>simp_all del: of_nat_add\<close>)
    ultimately show ?thesis by blast
  qed (use assms(3) in simp)
qed


lemma unborn_worker: "worker_ok shared blk s j \<Longrightarrow> 64 \<le> j \<Longrightarrow> workers s j = None"
  by (auto simp: worker_ok_def split: option.splits)

text \<open>\<^verbatim>\<open>main\<close> never faults and keeps the invariant, when \<^verbatim>\<open>malloc\<close> returns distinct blocks.\<close>

lemma sample_main_fill:
  assumes "sample_ok shared blk s" and "sample_main s = MFill idx" and "idx < 256"
  shows "\<exists>s'. sample_main_step shared blk rc s = Some (Inr s') \<and> sample_ok shared blk s'"
proof -
  let ?s = "s\<lparr>cells := (cells s)(elem shared (of_nat idx) \<mapsto> Some (of_nat idx)), sample_main := MFill (Suc idx)\<rparr>"
  have none: "workers s j = None" for j using assms by (simp add: sample_ok_def)
  have "cells ?s (elem shared (of_nat l)) = Some (cell_value ?s l)" if "l < 256" for l
    using that assms none by (auto simp: sample_ok_def cell_value_def less_Suc_eq)
  moreover have "sample_main_step shared blk rc s = Some (Inr ?s)"
    using assms by (simp add: sample_main_step_def store_int_def sample_ok_def)
  ultimately show ?thesis
    using assms none by (auto simp: sample_ok_def worker_ok_def)
qed

lemma sample_main_spawn:
  assumes "sample_ok shared blk s" and "sample_main s = MSpawn i" and "i < 64" and "inj_on blk {..<64}"
  shows "\<exists>s'. sample_main_step shared blk rc s = Some (Inr s') \<and> sample_ok shared blk s'"
proof -
  let ?b = "s\<lparr>blocks := (blocks s)(blk i \<mapsto> \<lparr>arg_tid = of_nat i, arg_arr = shared\<rparr>)\<rparr>"
  let ?s = "(worker_goto i (blk i) (WTest 0) ?b)\<lparr>sample_main := MSpawn (Suc i)\<rparr>"
  have w: "workers s j \<noteq> None \<longleftrightarrow> j < i" for j using assms(1,2) by (simp add: sample_ok_def)
  have ok: "worker_ok shared blk s j" for j using assms(1) by (simp add: sample_ok_def)
  have old: "worker_ok shared blk s' j"
    if "workers s' j = workers s j" "blocks s' = blocks ?b" "j \<noteq> i" for s' j
  proof (cases "workers s j")
    case (Some q)
    then have "j < 64" "blk j \<noteq> blk i"
      using w [of j] that(3) assms(3,4) by (auto simp: inj_on_def)
    then show ?thesis using ok [of j] that Some by (cases q) (auto simp: worker_ok_def)
  qed (use that in \<open>simp add: worker_ok_def\<close>)
  have none: "workers s i = None" using w [of i] by (metis less_irrefl)
  show ?thesis
  proof (cases "rc = 0")
    case True
    have "worker_ok shared blk ?s j" for j
      using old [of ?s j] assms(3) by (cases "j = i") (auto simp: worker_goto_def worker_ok_def)
    moreover have "cell_value ?s = cell_value s"
      using assms(2) none by (auto simp: cell_value_def worker_goto_def fun_eq_iff)
    moreover have "main_ok (workers ?s) (sample_main ?s)"
      using assms(3) w by (auto simp: worker_goto_def less_Suc_eq)
    ultimately have "sample_ok shared blk ?s"
      using assms(1) by (simp add: sample_ok_def worker_goto_def)
    then show ?thesis using True assms(2,3) by (simp add: sample_main_step_def Let_def)
  next
    case False
    let ?t = "?b\<lparr>sample_main := MFailed rc\<rparr>"
    have "worker_ok shared blk ?t j" for j
      using old [of ?t j] none by (cases "j = i") (auto simp: worker_ok_def)
    moreover have "cell_value ?t = cell_value s"
      using assms(2) by (auto simp: cell_value_def fun_eq_iff)
    ultimately have "sample_ok shared blk ?t"
      using assms(1) False by (simp add: sample_ok_def)
    then show ?thesis using False assms(2,3) by (simp add: sample_main_step_def Let_def)
  qed
qed

text \<open>A change of \<^verbatim>\<open>main\<close>'s place alone, once the array is filled.\<close>

lemma sample_ok_main_goto:
  assumes "sample_ok shared blk s" and "filled (sample_main s) = 256" and "filled pc = 256"
    and "main_ok (workers s) pc"
  shows "sample_ok shared blk (s\<lparr>sample_main := pc\<rparr>)"
proof -
  have "worker_ok shared blk (s\<lparr>sample_main := pc\<rparr>) j" for j
    using assms(1) by (auto simp: sample_ok_def intro: worker_ok_other)
  then show ?thesis
    using assms by (simp add: sample_ok_def cell_value_def)
qed

lemma sample_main_keeps:
  assumes "sample_ok shared blk s" and "inj_on blk {..<64}" and "sample_main_step shared blk rc s = Some r"
  shows "\<exists>s'. r = Inr s' \<and> sample_ok shared blk s'"
proof (cases "sample_main s")
  case (MFill idx)
  show ?thesis
  proof (cases "idx < 256")
    case True
    with sample_main_fill [OF assms(1) MFill, of rc] assms(3) show ?thesis by auto
  next
    case False
    then have "sample_ok shared blk (s\<lparr>sample_main := MSpawn 0\<rparr>)"
      using assms(1) MFill by (intro sample_ok_main_goto) (auto simp: sample_ok_def)
    with False MFill assms(3) show ?thesis by (auto simp: sample_main_step_def)
  qed
next
  case (MSpawn i)
  show ?thesis
  proof (cases "i < 64")
    case True
    with sample_main_spawn [OF assms(1) MSpawn _ assms(2), of rc] assms(3) show ?thesis by auto
  next
    case False
    then have "sample_ok shared blk (s\<lparr>sample_main := MJoin 0\<rparr>)"
      using assms(1) MSpawn by (intro sample_ok_main_goto) (auto simp: sample_ok_def)
    with False MSpawn assms(3) show ?thesis by (auto simp: sample_main_step_def)
  qed
next
  case (MJoin i)
  have m: "main_ok (workers s) (MJoin i)" using assms(1) MJoin by (simp add: sample_ok_def)
  show ?thesis
  proof (cases "i < 64")
    case True
    then obtain p where p: "workers s i = Some (p, WExited)" "r = Inr (s\<lparr>sample_main := MJoin (Suc i)\<rparr>)"
      using MJoin assms(3) by (auto simp: sample_main_step_def split: option.splits worker_pc.splits prod.splits)
    then have "sample_ok shared blk (s\<lparr>sample_main := MJoin (Suc i)\<rparr>)"
      using assms(1) MJoin m True by (intro sample_ok_main_goto) (auto simp: less_Suc_eq)
    with p show ?thesis by blast
  next
    case False
    then have "sample_ok shared blk (s\<lparr>sample_main := MDone\<rparr>)"
      using assms(1) MJoin m by (intro sample_ok_main_goto) auto
    with False MJoin assms(3) show ?thesis by (auto simp: sample_main_step_def)
  qed
qed (use assms(3) in \<open>simp_all add: sample_main_step_def\<close>)

lemma sample_step_keeps:
  assumes "sample_ok shared blk s" and "inj_on blk {..<64}" and "sample_step shared blk m s = Some r"
  shows "\<exists>s'. r = Inr s' \<and> sample_ok shared blk s'"
proof (cases m)
  case (MainMoves rc)
  with assms sample_main_keeps show ?thesis by (auto simp: sample_step_def split: if_splits)
next
  case (WorkerMoves j)
  then have nf: "\<not> finished (sample_main s)" and st: "worker_step j s = Some r"
    using assms(3) by (auto simp: sample_step_def split: if_splits)
  then obtain q where "workers s j = Some q" by (cases "workers s j") (simp_all add: worker_step_def)
  then obtain p pc where pc: "workers s j = Some (p, pc)" by (cases q) simp
  then have "pc \<noteq> WExited" using st by (auto simp: worker_step_def)
  from worker_goes_on [OF assms(1) pc this nf] st show ?thesis by auto
qed

lemma sample_reachable_ok:
  assumes "sample_reachable shared blk s" and "inj_on blk {..<64}"
  shows "sample_ok shared blk s"
  using assms(1)
proof induction
  case (move s m s')
  from sample_step_keeps [OF move.IH assms(2) move.hyps(2)] show ?case by auto
qed (rule sample_start_ok)


section \<open>Every run ends\<close>

fun worker_work :: "(addr \<times> worker_pc) option \<Rightarrow> nat" where
  "worker_work None = 13"
| "worker_work (Some (p, WTest i)) = 13 - 3 * i"
| "worker_work (Some (p, WLoad i a)) = 12 - 3 * i"
| "worker_work (Some (p, WStore i a v)) = 11 - 3 * i"
| "worker_work (Some (p, WExited)) = 0"

fun main_work :: "sample_pc \<Rightarrow> nat" where
  "main_work (MFill idx) = 387 - idx"
| "main_work (MSpawn i) = 130 - i"
| "main_work (MJoin i) = 65 - i"
| "main_work MDone = 0"
| "main_work (MFailed rc) = 0"

definition sample_work :: "sample \<Rightarrow> nat" where
  "sample_work s = main_work (sample_main s) + (\<Sum>j<64. worker_work (workers s j))"

lemma worker_work_goto:
  fixes j :: nat
  assumes "j < 64"
  shows "(\<Sum>l<64. worker_work ((w(j \<mapsto> p)) l)) + worker_work (w j) =
     (\<Sum>l<64. worker_work (w l)) + worker_work (Some p)"
proof -
  let ?new = "\<lambda>l. worker_work ((w(j \<mapsto> p)) l)" and ?old = "\<lambda>l. worker_work (w l)"
  have rm: "sum f {..<64} = f j + sum f ({..<64} - {j})" for f :: "nat \<Rightarrow> nat"
    using assms by (intro sum.remove) auto
  have "sum ?new ({..<64} - {j}) = sum ?old ({..<64} - {j})"
    by (intro sum.cong) auto
  moreover have "?new j = worker_work (Some p)" by simp
  ultimately show ?thesis using rm [of ?new] rm [of ?old] by linarith
qed

lemma worker_step_work:
  assumes "sample_ok shared blk s" and "worker_step j s = Some (Inr s')"
  shows "sample_work s = Suc (sample_work s') \<and> sample_main s' = sample_main s"
proof -
  have wk: "worker_ok shared blk s j" using assms(1) by (simp add: sample_ok_def)
  obtain q where "workers s j = Some q" using assms(2) by (cases "workers s j") (simp_all add: worker_step_def)
  then obtain p pc where pc: "workers s j = Some (p, pc)" by (cases q) simp
  then have j: "j < 64" using wk by (simp add: worker_ok_def)
  obtain pc' where pc': "workers s' = (workers s)(j \<mapsto> (p, pc'))" "sample_main s' = sample_main s"
    "worker_work (Some (p, pc)) = Suc (worker_work (Some (p, pc')))"
    using assms(2) pc wk
    by (cases pc)
      (auto simp: worker_step_def worker_ok_def worker_goto_def store_int_def fault_simps split: if_splits option.splits)
  with worker_work_goto [OF j, of "workers s" "(p, pc')"] pc show ?thesis
    by (simp add: sample_work_def)
qed

lemma main_step_work:
  assumes "sample_ok shared blk s" and "sample_main_step shared blk rc s = Some (Inr s')"
  shows "sample_work s' < sample_work s \<and>
    (rc = 0 \<longrightarrow> sample_work s = Suc (sample_work s') \<and> (\<forall>e. sample_main s' \<noteq> MFailed e))"
proof (cases "sample_main s")
  case (MSpawn i)
  then have w: "workers s j \<noteq> None \<longleftrightarrow> j < i" for j using assms(1) by (simp add: sample_ok_def)
  then have none: "workers s i = None" by (metis less_irrefl)
  show ?thesis
  proof (cases "i < 64 \<and> rc = 0")
    case True
    with MSpawn none assms(2) worker_work_goto [of i "workers s" "(blk i, WTest 0)"] show ?thesis
      by (auto simp: sample_main_step_def sample_work_def worker_goto_def Let_def)
  next
    case False
    have "i \<le> 64" using assms(1) MSpawn by (simp add: sample_ok_def)
    with False MSpawn assms(2) show ?thesis
      by (auto simp: sample_main_step_def sample_work_def split: if_splits)
  qed
next
  case (MFill idx)
  then have "idx \<le> 256" using assms(1) by (simp add: sample_ok_def)
  with MFill assms(2) show ?thesis
    by (auto simp: sample_main_step_def sample_work_def store_int_def fault_simps split: if_splits)
next
  case (MJoin i)
  then have "i \<le> 64" using assms(1) by (simp add: sample_ok_def)
  with MJoin assms(2) show ?thesis
    by (auto simp: sample_main_step_def sample_work_def split: if_splits option.splits worker_pc.splits)
qed (use assms(2) in \<open>simp_all add: sample_main_step_def\<close>)

text \<open>As long as the program has not finished something can move, even if every creation succeeds.\<close>

lemma sample_can_move:
  assumes "sample_ok shared blk s" and "inj_on blk {..<64}" and "\<not> finished (sample_main s)"
  shows "\<exists>m s'. sample_step shared blk m s = Some (Inr s') \<and> (\<forall>rc. m = MainMoves rc \<longrightarrow> rc = 0)"
proof (cases "sample_main_step shared blk 0 s")
  case (Some r)
  with sample_main_keeps [OF assms(1,2)] obtain s' where "r = Inr s'" by blast
  with Some assms(3) have "sample_step shared blk (MainMoves 0) s = Some (Inr s')"
    by (simp add: sample_step_def)
  then show ?thesis by blast
next
  case None
  then obtain i where i: "sample_main s = MJoin i" "i < 64"
    using assms(3) by (cases "sample_main s") (auto simp: sample_main_step_def split: if_splits)
  then have "workers s i \<noteq> None" using assms(1) by (simp add: sample_ok_def)
  then obtain p pc where pc: "workers s i = Some (p, pc)" by auto
  with None i have "pc \<noteq> WExited" by (auto simp: sample_main_step_def)
  from worker_goes_on [OF assms(1) pc this assms(3)] obtain s' where "worker_step i s = Some (Inr s')"
    by blast
  then have "sample_step shared blk (WorkerMoves i) s = Some (Inr s')"
    using assms(3) by (simp add: sample_step_def)
  then show ?thesis by blast
qed

text \<open>A run makes given moves; it is \<open>None\<close> when one of them cannot be made.\<close>

fun sample_run :: "addr \<Rightarrow> (nat \<Rightarrow> addr) \<Rightarrow> move list \<Rightarrow> sample \<Rightarrow> sample result option" where
  "sample_run shared blk [] s = Some (Inr s)"
| "sample_run shared blk (m # ms) s =
     (case sample_step shared blk m s of
        Some (Inr s') \<Rightarrow> sample_run shared blk ms s'
      | r \<Rightarrow> r)"

lemma sample_run_ok:
  assumes "sample_run shared blk ms s = Some r" and "sample_ok shared blk s" and "inj_on blk {..<64}"
  shows "\<exists>s'. r = Inr s' \<and> sample_ok shared blk s' \<and> length ms + sample_work s' \<le> sample_work s \<and>
    ((\<forall>rc. MainMoves rc \<in> set ms \<longrightarrow> rc = 0) \<and> (\<forall>e. sample_main s \<noteq> MFailed e) \<longrightarrow>
      length ms + sample_work s' = sample_work s \<and> (\<forall>e. sample_main s' \<noteq> MFailed e))"
  using assms(1,2)
proof (induction ms arbitrary: s)
  case (Cons m ms)
  obtain q where q: "sample_step shared blk m s = Some q"
    using Cons.prems(1) by (cases "sample_step shared blk m s") simp_all
  from sample_step_keeps [OF Cons.prems(2) assms(3) q] obtain s1 where
    s1: "q = Inr s1" "sample_ok shared blk s1" by blast
  have st: "sample_work s1 < sample_work s \<and>
      ((\<forall>rc. m = MainMoves rc \<longrightarrow> rc = 0) \<and> (\<forall>e. sample_main s \<noteq> MFailed e) \<longrightarrow>
        sample_work s = Suc (sample_work s1) \<and> (\<forall>e. sample_main s1 \<noteq> MFailed e))"
    using q s1(1) main_step_work [OF Cons.prems(2)] worker_step_work [OF Cons.prems(2)]
    by (cases m) (auto simp: sample_step_def split: if_splits)
  have "sample_run shared blk ms s1 = Some r" using Cons.prems(1) q s1(1) by simp
  from Cons.IH [OF this s1(2)] st show ?case by auto
qed auto

lemma sample_run_reachable:
  "sample_run shared blk ms s = Some (Inr s') \<Longrightarrow> sample_reachable shared blk s \<Longrightarrow> sample_reachable shared blk s'"
proof (induction ms arbitrary: s)
  case (Cons m ms)
  then show ?case by (auto split: option.splits sum.splits intro: sample_reachable.move)
qed simp

lemma sample_work_start: "sample_work (sample_start shared) = 1219"
  by (simp add: sample_work_def sample_start_def)

text \<open>A run can be continued to the end.\<close>

lemma sample_run_to_end:
  assumes "sample_ok shared blk s" and "inj_on blk {..<64}" and "\<forall>e. sample_main s \<noteq> MFailed e"
  shows "\<exists>ms s'. sample_run shared blk ms s = Some (Inr s') \<and> sample_main s' = MDone"
  using assms(1,3)
proof (induction "sample_work s" arbitrary: s rule: less_induct)
  case less
  show ?case
  proof (cases "finished (sample_main s)")
    case True
    with less.prems(2) have "sample_main s = MDone" by (cases "sample_main s") auto
    then have "sample_run shared blk [] s = Some (Inr s) \<and> sample_main s = MDone" by simp
    then show ?thesis by blast
  next
    case False
    from sample_can_move [OF less.prems(1) assms(2) False] obtain m s1 where
      m: "sample_step shared blk m s = Some (Inr s1)" "\<forall>rc. m = MainMoves rc \<longrightarrow> rc = 0" by blast
    then have "sample_run shared blk [m] s = Some (Inr s1)" by simp
    from sample_run_ok [OF this less.prems(1) assms(2)] m(2) less.prems(2)
    have s1: "sample_ok shared blk s1" "sample_work s1 < sample_work s" "\<forall>e. sample_main s1 \<noteq> MFailed e"
      by auto
    from less.hyps [OF s1(2,1,3)] obtain ms s' where
      "sample_run shared blk ms s1 = Some (Inr s')" "sample_main s' = MDone" by blast
    with m(1) have "sample_run shared blk (m # ms) s = Some (Inr s') \<and> sample_main s' = MDone" by simp
    then show ?thesis by blast
  qed
qed


section \<open>The one that fills an array\<close>

text \<open>
  \<^verbatim>\<open>simple_malloc_program.cpp\<close>: two elements are allocated and written in turn.
\<close>

definition malloc_program :: "addr \<Rightarrow> (addr \<Rightarrow> int32 option option) result" where
  "malloc_program my_arr =
     foldE (\<lambda>i heap.
         if heap (elem my_arr (of_nat i)) = None then Inl IndexOutOfRange
         else Inr (heap(elem my_arr (of_nat i) \<mapsto> Some (of_nat i))))
       [0..<2] (\<lambda>a. if \<exists>k\<in>{..<2}. a = elem my_arr (of_nat k) then Some None else None)"

lemma malloc_program_fills:
  "\<exists>heap. malloc_program my_arr = Inr heap \<and> dom heap = {elem my_arr 0, elem my_arr 1} \<and>
     heap (elem my_arr 0) = Some (Some 0) \<and> heap (elem my_arr 1) = Some (Some 1)"
proof -
  have "elem my_arr 0 \<noteq> elem my_arr 1" using elem_eq_iff [of 0 1 my_arr] by simp
  then show ?thesis
    by (auto simp: malloc_program_def upt_rec numeral_2_eq_2 lessThan_Suc split: if_splits)
qed

section \<open>The one that passes the address of its loop variable\<close>

text \<open>
  \<^verbatim>\<open>simple_parallel_program.cpp\<close>: \<^verbatim>\<open>main\<close> creates three threads, each of which gets the address of
  the loop variable \<^verbatim>\<open>i\<close> of \<^verbatim>\<open>main\<close> and prints what it finds there. The variable is \<open>None\<close> once the
  main thread has ended; a read of it then is a fault. Output is kept in the pieces the
  \<^verbatim>\<open><<\<close> operators write, each one a move.
\<close>

datatype greeter_pc = GRead | GPrint int32 nat | GExited

datatype hello_pc = HTest | HAnnounce nat | HCreate | HNext | HGone | HFailed int32

record hello =
  loop_var :: "int32 option"
  greeters :: "nat \<Rightarrow> greeter_pc option"
  hello_main :: hello_pc
  console :: "string list"

definition hello_start :: hello where
  "hello_start = \<lparr>loop_var = Some 0, greeters = (\<lambda>_. None), hello_main = HTest, console = []\<rparr>"

definition put_text :: "string \<Rightarrow> hello \<Rightarrow> hello" where
  "put_text text s = s\<lparr>console := console s @ [text]\<rparr>"

text \<open>The pieces of one line: a text, a number, the end of the line.\<close>

definition line_piece :: "string \<Rightarrow> int32 \<Rightarrow> nat \<Rightarrow> string" where
  "line_piece text v n = (if n = 0 then text else if n = 1 then show_int32 v else endl)"

definition PrintHello :: "nat \<Rightarrow> hello \<Rightarrow> hello result option" where
  "PrintHello j s =
     (case greeters s j of
        None \<Rightarrow> None
      | Some pc \<Rightarrow>
          (case pc of
             GRead \<Rightarrow>
               Some (case loop_var s of
                 None \<Rightarrow> Inl InvalidIterator
               | Some v \<Rightarrow> Inr (s\<lparr>greeters := (greeters s)(j \<mapsto> GPrint v 0)\<rparr>))
           | GPrint v n \<Rightarrow>
               Some (Inr (put_text (line_piece ''Hello World! Thread ID, '' v n)
                 (s\<lparr>greeters := (greeters s)(j \<mapsto> (if n < 2 then GPrint v (Suc n) else GExited))\<rparr>)))
           | GExited \<Rightarrow> None))"

definition hello_main_step :: "int32 \<Rightarrow> hello \<Rightarrow> hello result option" where
  "hello_main_step rc s =
     (case loop_var s of
        None \<Rightarrow> None
      | Some i \<Rightarrow>
          (case hello_main s of
             HTest \<Rightarrow>
               Some (Inr (if i <s 3 then s\<lparr>hello_main := HAnnounce 0\<rparr>
                          else s\<lparr>hello_main := HGone, loop_var := None\<rparr>))
           | HAnnounce n \<Rightarrow>
               Some (Inr (put_text (line_piece ''main() : creating thread, '' i n)
                 (s\<lparr>hello_main := (if n < 2 then HAnnounce (Suc n) else HCreate)\<rparr>)))
           | HCreate \<Rightarrow>
               Some (Inr (if rc \<noteq> 0
                 then put_text endl (put_text (show_int32 rc) (put_text ''Error:unable to create thread,'' (s\<lparr>hello_main := HFailed rc\<rparr>)))
                 else s\<lparr>greeters := (greeters s)(unat i \<mapsto> GRead), hello_main := HNext\<rparr>))
           | HNext \<Rightarrow> Some (Inr (s\<lparr>loop_var := Some (i + 1), hello_main := HTest\<rparr>))
           | _ \<Rightarrow> None))"

definition hello_step :: "move \<Rightarrow> hello \<Rightarrow> hello result option" where
  "hello_step m s =
     (case hello_main s of
        HFailed rc \<Rightarrow> None
      | _ \<Rightarrow> (case m of MainMoves rc \<Rightarrow> hello_main_step rc s | WorkerMoves j \<Rightarrow> PrintHello j s))"

inductive hello_reachable :: "hello \<Rightarrow> bool" where
  start: "hello_reachable hello_start"
| move: "hello_reachable s \<Longrightarrow> hello_step m s = Some (Inr s') \<Longrightarrow> hello_reachable s'"

fun hello_run :: "move list \<Rightarrow> hello \<Rightarrow> hello result option" where
  "hello_run [] s = Some (Inr s)"
| "hello_run (m # ms) s =
     (case hello_step m s of
        Some (Inr s') \<Rightarrow> hello_run ms s'
      | r \<Rightarrow> r)"

fun greeter_ok :: "nat \<Rightarrow> greeter_pc option \<Rightarrow> bool" where
  "greeter_ok j (Some (GPrint v n)) \<longleftrightarrow> j \<le> unat v \<and> unat v \<le> 3"
| "greeter_ok j _ \<longleftrightarrow> True"

text \<open>The threads are at most those up to the value of \<^verbatim>\<open>i\<close>, and have read it or a later one.\<close>

definition hello_ok :: "hello \<Rightarrow> bool" where
  "hello_ok s \<longleftrightarrow>
     (case loop_var s of
        None \<Rightarrow> hello_main s = HGone
      | Some i \<Rightarrow> hello_main s \<noteq> HGone \<and> unat i \<le> 3 \<and> (hello_main s \<noteq> HTest \<longrightarrow> unat i < 3) \<and>
          (\<forall>j. greeters s j \<noteq> None \<longrightarrow> j \<le> unat i)) \<and>
     (\<forall>j. greeter_ok j (greeters s j))"

lemma hello_less: "i <s (3 :: int32) \<Longrightarrow> unat i \<le> 3 \<Longrightarrow> unat i < 3"
proof -
  assume "i <s 3" "unat i \<le> 3"
  then have "i \<noteq> 3" by auto
  then have "unat i \<noteq> 3" by (simp add: word_unat_eq_iff)
  with \<open>unat i \<le> 3\<close> show ?thesis by simp
qed

lemma unat_next: "unat i < 3 \<Longrightarrow> unat (i + 1 :: int32) = Suc (unat i)"
  by (simp add: unat_plus_if')

lemma PrintHello_keeps:
  assumes "hello_ok s" and "PrintHello j s = Some (Inr s')"
  shows "hello_ok s'"
proof -
  obtain pc where pc: "greeters s j = Some pc"
    using assms(2) by (cases "greeters s j") (simp_all add: PrintHello_def)
  have "greeter_ok j (greeters s j)" using assms(1) by (simp add: hello_ok_def)
  with assms pc show ?thesis
    by (cases pc; cases "loop_var s") (auto simp: hello_ok_def PrintHello_def put_text_def split: if_splits)
qed

lemma hello_main_step_keeps:
  assumes "hello_ok s" and "hello_main_step rc s = Some (Inr s')"
  shows "hello_ok s'"
proof -
  obtain i where i: "loop_var s = Some i"
    using assms(2) by (cases "loop_var s") (simp_all add: hello_main_step_def)
  show ?thesis
  proof (cases "hello_main s")
    case HTest
    with assms i hello_less [of i] show ?thesis
      by (auto simp: hello_ok_def hello_main_step_def split: if_splits)
  next
    case HNext
    with assms(1) i have "unat i < 3" by (simp add: hello_ok_def)
    with HNext assms i unat_next [of i] show ?thesis
      by (fastforce simp: hello_ok_def hello_main_step_def)
  qed (use assms i in \<open>auto simp: hello_ok_def hello_main_step_def put_text_def split: if_splits\<close>)
qed

lemma hello_reachable_ok: "hello_reachable s \<Longrightarrow> hello_ok s"
proof (induction rule: hello_reachable.induct)
  case (move s m s')
  then show ?case
    by (cases m) (auto simp: hello_step_def intro: PrintHello_keeps hello_main_step_keeps split: hello_pc.splits)
qed (simp add: hello_ok_def hello_start_def)


lemma hello_fault:
  assumes "hello_ok s" and "hello_step m s = Some (Inl e)"
  shows "hello_main s = HGone \<and> e = InvalidIterator"
proof (cases m)
  case (MainMoves rc)
  with assms(2) show ?thesis
    by (cases "loop_var s") (auto simp: hello_step_def hello_main_step_def split: hello_pc.splits)
next
  case (WorkerMoves j)
  with assms(2) have "PrintHello j s = Some (Inl e)"
    by (auto simp: hello_step_def split: hello_pc.splits)
  then have "loop_var s = None \<and> e = InvalidIterator"
    by (auto simp: PrintHello_def split: option.splits greeter_pc.splits)
  with assms(1) show ?thesis by (simp add: hello_ok_def)
qed

section \<open>Properties\<close>

text \<open>What \<^verbatim>\<open>malloc\<close> may return for the arguments: blocks of 16 bytes, one after the other.\<close>

definition demo_block :: "nat \<Rightarrow> addr" where
  "demo_block i = elem 0x603000 (of_nat (4 * i))"

lemma inj_demo_block: "inj_on demo_block {..<64}"
  unfolding demo_block_def inj_on_def using elem_eq_iff [of "4 * _" "4 * _" "0x603000"]
  by (auto simp del: of_nat_mult)

text \<open>The index a thread is about to load or to store: the round of its loop and the address.\<close>

definition pending :: "nat \<Rightarrow> sample \<Rightarrow> (nat \<times> addr) option" where
  "pending j s =
     (case workers s j of
        Some (p, WLoad i a) \<Rightarrow> Some (i, a)
      | Some (p, WStore i a v) \<Rightarrow> Some (i, a)
      | _ \<Rightarrow> None)"

lemma pending_address:
  assumes "sample_ok shared blk s" and "pending j s = Some (i, a)"
  shows "j < 64 \<and> i < 4 \<and> a = shared + of_nat (4 * (j + i * 64))"
proof -
  have "worker_ok shared blk s j" using assms(1) by (simp add: sample_ok_def)
  then have "j < 64 \<and> i < 4 \<and> a = elem shared (of_nat (j + i * 64))"
    using assms(2) by (auto simp: worker_ok_def pending_def split: option.splits worker_pc.splits prod.splits)
  then show ?thesis using elem_offset [of "j + i * 64" shared] by simp
qed

text \<open>
  C17. When the sample program of 64 threads ends, every element of the array has been incremented
  exactly once, whatever the interleaving of the threads' loads and stores.
\<close>

theorem sample_result:
  assumes "inj_on blk {..<64}" and "sample_reachable shared blk s" and "sample_main s = MDone" and "k < 256"
  shows "cells s (elem shared (of_nat k)) = Some (Some (of_nat k + 1))"
proof -
  have ok: "sample_ok shared blk s" by (rule sample_reachable_ok [OF assms(2,1)])
  have "k mod 64 < 64" by simp
  then have "\<exists>p. workers s (k mod 64) = Some (p, WExited)"
    using ok assms(3) by (metis main_ok.simps(4) sample_ok_def)
  moreover have "k div 64 < 4" using assms(4) by simp
  ultimately have "cell_value s k = Some (of_nat k + 1)"
    using assms(3,4) by (auto simp: cell_value_def)
  then show ?thesis using ok assms(4) by (simp add: sample_ok_def)
qed

lemma sample_ends: "\<exists>ms s. sample_run shared demo_block ms (sample_start shared) = Some (Inr s) \<and> sample_main s = MDone"
  by (rule sample_run_to_end [OF sample_start_ok inj_demo_block]) (simp add: sample_start_def)

theorem sample_result_witness:
  "\<exists>s. sample_reachable 0x602000 demo_block s \<and> sample_main s = MDone \<and>
     cells s (elem 0x602000 255) = Some (Some 256)"
proof -
  obtain ms s where s: "sample_run 0x602000 demo_block ms (sample_start 0x602000) = Some (Inr s)" "sample_main s = MDone"
    using sample_ends by blast
  from sample_run_reachable [OF s(1) sample_reachable.start]
  have "sample_reachable 0x602000 demo_block s" .
  with sample_result [OF inj_demo_block this s(2), of 255] s(2) show ?thesis by auto
qed

text \<open>
  C18. A run of the sample program never faults and has at most 1219 moves; unless it has ended
  some thread can move. If every \<^verbatim>\<open>pthread_create\<close> succeeds, a run that has ended has returned
  from \<^verbatim>\<open>main\<close> and made exactly 1219 moves.
\<close>

theorem sample_completes:
  assumes "inj_on blk {..<64}" and "sample_run shared blk ms (sample_start shared) = Some r"
  shows "\<exists>s. r = Inr s \<and> length ms \<le> 1219 \<and>
    (finished (sample_main s) \<or> (\<exists>m s'. sample_step shared blk m s = Some (Inr s'))) \<and>
    ((\<forall>rc. MainMoves rc \<in> set ms \<longrightarrow> rc = 0) \<and> finished (sample_main s) \<longrightarrow>
       sample_main s = MDone \<and> length ms = 1219)"
proof -
  have nf: "\<forall>e. sample_main (sample_start shared) \<noteq> MFailed e" by (simp add: sample_start_def)
  from sample_run_ok [OF assms(2) sample_start_ok assms(1)] obtain s where
    s: "r = Inr s" "sample_ok shared blk s" "length ms + sample_work s \<le> 1219"
    and ok: "(\<forall>rc. MainMoves rc \<in> set ms \<longrightarrow> rc = 0) \<Longrightarrow>
      length ms + sample_work s = 1219 \<and> (\<forall>e. sample_main s \<noteq> MFailed e)"
    using nf by (auto simp: sample_work_start)
  have "sample_work s = 0" if ended: "sample_main s = MDone"
  proof -
    have "worker_work (workers s j) = 0" if "j < 64" for j
      using s(2) ended that by (auto simp: sample_ok_def)
    then show ?thesis using ended by (simp add: sample_work_def)
  qed
  then have "sample_main s = MDone \<and> length ms = 1219"
    if "\<forall>rc. MainMoves rc \<in> set ms \<longrightarrow> rc = 0" "finished (sample_main s)"
    using ok [OF that(1)] that(2) by (cases "sample_main s") auto
  with s sample_can_move [OF s(2) assms(1)] show ?thesis by fastforce
qed

theorem sample_completes_witness:
  "\<exists>ms s. sample_run 0x602000 demo_block ms (sample_start 0x602000) = Some (Inr s) \<and>
     sample_main s = MDone \<and> length ms \<le> 1219"
proof -
  obtain ms s where s: "sample_run 0x602000 demo_block ms (sample_start 0x602000) = Some (Inr s)" "sample_main s = MDone"
    using sample_ends by blast
  with sample_completes [OF inj_demo_block s(1)] show ?thesis by auto
qed

text \<open>
  Two threads of the sample program never use the same element. They use the same line of
  the simulated caches exactly when they are in the same round of their loops and in the same
  group of 16 (with the array at the start of a line, in the lower half of the address space):
  all of its sharing is false sharing.
\<close>

theorem sample_false_sharing:
  assumes "inj_on blk {..<64}" and "sample_reachable shared blk s" and "sample_reachable shared blk t"
    and "pending j s = Some (i, a)" and "pending l t = Some (n, b)" and "j \<noteq> l"
    and "uint shared mod CachelineSize = 0" and "uint shared + 1024 \<le> 2 ^ 63"
  shows "a \<noteq> b \<and> (convert a = convert b \<longleftrightarrow> i = n \<and> j div 16 = l div 16)"
proof -
  define u where "u = uint shared div 64"
  have sh: "uint shared = 64 * u" using assms(7) by (auto simp: u_def CachelineSize_def)
  have addr: "uint (shared + of_nat (4 * k)) = 64 * u + 4 * int k" if "k < 256" for k
  proof -
    have "uint (of_nat (4 * k) :: addr) = 4 * int k"
      using that by (simp add: uint_nat unat_of_nat take_bit_nat_eq_self del: of_nat_mult)
    moreover have "64 * u + 4 * int k < 2 ^ 64" using assms(8) that sh by simp
    ultimately show ?thesis using sh uint_plus_if' [of shared "of_nat (4 * k)"] by simp
  qed
  have user: "0 \<le> sint x" if "uint x < 2 ^ 63" for x :: addr
  proof -
    have "- (2 ^ 63) \<le> (0 :: int)" by simp
    then have "- (2 ^ 63) \<le> uint x" using uint_ge_0 [of x] by (rule order_trans)
    from sint_of_int_64 [OF this that] show ?thesis by simp
  qed
  let ?k = "j + i * 64" and ?l = "l + n * 64"
  have p: "j < 64" "i < 4" "a = shared + of_nat (4 * ?k)" and q: "l < 64" "n < 4" "b = shared + of_nat (4 * ?l)"
    using pending_address [OF sample_reachable_ok [OF assms(2,1)] assms(4)]
      pending_address [OF sample_reachable_ok [OF assms(3,1)] assms(5)] by blast+
  have kl: "?k < 256" "?l < 256" using p(1,2) q(1,2) by linarith+
  have ka: "uint a = 64 * u + 4 * int ?k" "uint b = 64 * u + 4 * int ?l"
    unfolding p(3) q(3) by (rule addr [OF kl(1)], rule addr [OF kl(2)])
  have "?k \<noteq> ?l" using p(1) q(1) assms(6) by (metis mod_less mod_mult_self1)
  then have ne: "a \<noteq> b" using ka by auto
  have "uint a < 2 ^ 63" "uint b < 2 ^ 63" using ka kl sh assms(8) by simp_all
  then have "convert a = convert b \<longleftrightarrow> uint a div 64 = uint b div 64"
    using convert_eq_iff [of a b] user by blast
  also have "\<dots> \<longleftrightarrow> int ?k div 16 = int ?l div 16"
  proof -
    have line: "(64 * u + 4 * x) div 64 = u + x div 16" for x :: int
      using div_mult_mult1 [of 4 "16 * u + x" 16] by (simp add: algebra_simps)
    show ?thesis unfolding ka line by (rule add_left_cancel)
  qed
  also have "\<dots> \<longleftrightarrow> ?k div 16 = ?l div 16"
  proof -
    have "int x div 16 = int (x div 16)" for x by (simp add: zdiv_int)
    then show ?thesis by (simp only: of_nat_eq_iff)
  qed
  also have "\<dots> \<longleftrightarrow> j div 16 + i * 4 = l div 16 + n * 4"
  proof -
    have round: "(x + y * 64) div 16 = x div 16 + y * 4" for x y :: nat
      using div_mult_self1 [of 16 x "4 * y"] by (simp add: mult.commute)
    show ?thesis unfolding round by (rule refl)
  qed
  also have "\<dots> \<longleftrightarrow> i = n \<and> j div 16 = l div 16"
  proof -
    have groups: "x + i * 4 = y + n * 4 \<longleftrightarrow> i = n \<and> x = y" if "x < 4" "y < 4" for x y
      using that by (metis add_right_cancel mod_less mod_mult_self1 mult_cancel2 zero_neq_numeral add_left_cancel)
    have "j div 16 < 4" "l div 16 < 4" using p(1) q(1) by simp_all
    then show ?thesis by (rule groups)
  qed
  finally show ?thesis using ne by blast
qed


text \<open>Two threads before their first load.\<close>

lemma fill_reaches:
  "inj_on blk {..<64} \<Longrightarrow> idx \<le> 256 \<Longrightarrow> \<exists>s. sample_reachable shared blk s \<and> sample_main s = MFill idx"
proof (induction idx)
  case 0
  have "sample_main (sample_start shared) = MFill 0" by (simp add: sample_start_def)
  then show ?case using sample_reachable.start by blast
next
  case (Suc idx)
  then obtain s where s: "sample_reachable shared blk s" "sample_main s = MFill idx" by auto
  from sample_main_fill [OF sample_reachable_ok [OF s(1) Suc.prems(1)] s(2), of 0] Suc.prems(2)
  obtain s' where s': "sample_main_step shared blk 0 s = Some (Inr s')" by auto
  then have "sample_main s' = MFill (Suc idx)"
    using s(2) Suc.prems(2) by (auto simp: sample_main_step_def fault_simps)
  moreover have "sample_step shared blk (MainMoves 0) s = Some (Inr s')"
    using s' s(2) by (simp add: sample_step_def)
  ultimately show ?case using s(1) sample_reachable.move by blast
qed

lemma spawn_reaches:
  assumes "inj_on blk {..<64}" and "i \<le> 64"
  shows "\<exists>s. sample_reachable shared blk s \<and> sample_main s = MSpawn i \<and>
    (\<forall>j<i. workers s j = Some (blk j, WTest 0))"
  using assms(2)
proof (induction i)
  case 0
  obtain s where s: "sample_reachable shared blk s" "sample_main s = MFill 256"
    using fill_reaches [OF assms(1)] by blast
  then have "sample_step shared blk (MainMoves 0) s = Some (Inr (s\<lparr>sample_main := MSpawn 0\<rparr>))"
    by (simp add: sample_step_def sample_main_step_def)
  from sample_reachable.move [OF s(1) this] show ?case by fastforce
next
  case (Suc i)
  then obtain s where s: "sample_reachable shared blk s" "sample_main s = MSpawn i"
    "\<forall>j<i. workers s j = Some (blk j, WTest 0)" by auto
  let ?b = "s\<lparr>blocks := (blocks s)(blk i \<mapsto> \<lparr>arg_tid = of_nat i, arg_arr = shared\<rparr>)\<rparr>"
  let ?s = "(worker_goto i (blk i) (WTest 0) ?b)\<lparr>sample_main := MSpawn (Suc i)\<rparr>"
  have "sample_step shared blk (MainMoves 0) s = Some (Inr ?s)"
    using s(2) Suc.prems by (simp add: sample_step_def sample_main_step_def Let_def)
  from sample_reachable.move [OF s(1) this] have "sample_reachable shared blk ?s" .
  moreover have "\<forall>j<Suc i. workers ?s j = Some (blk j, WTest 0)"
    using s(3) by (auto simp: worker_goto_def less_Suc_eq)
  ultimately show ?case by (intro exI [of _ ?s]) simp
qed

lemma load_reaches:
  assumes "inj_on blk {..<64}" and "sample_reachable shared blk s" and "\<not> finished (sample_main s)"
    and "workers s j = Some (p, WTest 0)"
  shows "\<exists>s'. sample_reachable shared blk s' \<and> pending j s' = Some (0, elem shared (of_nat j))"
proof -
  have "worker_ok shared blk s j"
    using sample_reachable_ok [OF assms(2,1)] by (simp add: sample_ok_def)
  then have "blocks s p = Some \<lparr>arg_tid = of_nat j, arg_arr = shared\<rparr>"
    using assms(4) by (auto simp: worker_ok_def)
  then have "sample_step shared blk (WorkerMoves j) s =
      Some (Inr (worker_goto j p (WLoad 0 (elem shared (of_nat j))) s))"
    using assms(3,4) by (simp add: sample_step_def worker_step_def)
  from sample_reachable.move [OF assms(2) this] show ?thesis
    by (intro exI [of _ "worker_goto j p (WLoad 0 (elem shared (of_nat j))) s"])
      (simp add: pending_def worker_goto_def)
qed

theorem sample_false_sharing_witness:
  "\<exists>s t. sample_reachable 0x602000 demo_block s \<and> sample_reachable 0x602000 demo_block t \<and>
     pending 0 s = Some (0, elem 0x602000 0) \<and> pending 1 t = Some (0, elem 0x602000 1) \<and>
     elem 0x602000 0 \<noteq> elem 0x602000 1 \<and> convert (elem 0x602000 0) = convert (elem 0x602000 1)"
proof -
  obtain s where s: "sample_reachable 0x602000 demo_block s" "sample_main s = MSpawn 64"
    "\<forall>j<64. workers s j = Some (demo_block j, WTest 0)"
    using spawn_reaches [OF inj_demo_block, of 64] by blast
  have nf: "\<not> finished (sample_main s)" using s(2) by simp
  obtain s0 where s0: "sample_reachable 0x602000 demo_block s0" "pending 0 s0 = Some (0, elem 0x602000 0)"
    using load_reaches [OF inj_demo_block s(1) nf, of 0] s(3) by auto
  obtain s1 where s1: "sample_reachable 0x602000 demo_block s1" "pending 1 s1 = Some (0, elem 0x602000 1)"
    using load_reaches [OF inj_demo_block s(1) nf, of 1] s(3) by auto
  show ?thesis
    using sample_false_sharing [OF inj_demo_block s0(1) s1(1) s0(2) s1(2)] s0 s1
    by (auto simp: CachelineSize_def)
qed

text \<open>
  In the sample program that passes the address of its loop variable, thread \<open>j\<close> prints some
  number between \<open>j\<close> and 3; all threads can print 3, none of them its own number. Nothing
  faults as long as the main thread runs; after that a thread can read the variable of a
  thread that has ended.
\<close>

theorem greeter_reads_loop_variable:
  assumes "hello_reachable s"
  shows "(greeters s j = Some (GPrint v n) \<longrightarrow> j \<le> unat v \<and> unat v \<le> 3) \<and>
    (hello_step m s = Some (Inl e) \<longrightarrow> hello_main s = HGone \<and> e = InvalidIterator)"
proof -
  note ok = hello_reachable_ok [OF assms]
  then have "greeter_ok j (greeters s j)" by (simp add: hello_ok_def)
  then show ?thesis using hello_fault [OF ok] by auto
qed

lemma hello_run_reachable:
  "hello_run ms s = Some (Inr s') \<Longrightarrow> hello_reachable s \<Longrightarrow> hello_reachable s'"
proof (induction ms arbitrary: s)
  case (Cons m ms)
  then show ?case by (auto split: option.splits sum.splits intro: hello_reachable.move)
qed simp

definition hello_schedule :: "move list" where
  "hello_schedule = replicate 18 (MainMoves 0) @ map WorkerMoves [0, 1, 2]"

lemma hello_schedule_prints:
  "map_option (map_sum id (\<lambda>s. (hello_main s, map (greeters s) [0, 1, 2]))) (hello_run hello_schedule hello_start) =
     Some (Inr (HTest, [Some (GPrint 3 0), Some (GPrint 3 0), Some (GPrint 3 0)]))"
  by code_simp

theorem greeter_reads_loop_variable_witness:
  "\<exists>s. hello_reachable s \<and> greeters s 0 = Some (GPrint 3 0) \<and> greeters s 1 = Some (GPrint 3 0) \<and>
     greeters s 2 = Some (GPrint 3 0) \<and> 2 \<le> unat (3 :: int32)"
proof -
  obtain s where s: "hello_run hello_schedule hello_start = Some (Inr s)"
    "map (greeters s) [0, 1, 2] = [Some (GPrint 3 0), Some (GPrint 3 0), Some (GPrint 3 0)]"
  proof -
    obtain z where "hello_run hello_schedule hello_start = Some z"
      "map_sum id (\<lambda>s. (hello_main s, map (greeters s) [0, 1, 2])) z =
        Inr (HTest, [Some (GPrint 3 0), Some (GPrint 3 0), Some (GPrint 3 0)])"
      using hello_schedule_prints by blast
    then show ?thesis by (cases z) (auto intro: that)
  qed
  have r: "hello_reachable s" by (rule hello_run_reachable [OF s(1) hello_reachable.start])
  with greeter_reads_loop_variable [OF r, of 2 3 0] s(2) show ?thesis by auto
qed

end
