(* ===== verification/Snooping.thy ===== *)
theory Snooping
  imports Msi
begin

text \<open>
  What a snooping protocol promises, apart from caches, queues and threads: every agent
  has a state for every line and a list of messages it has not looked at yet. The
  machine is parametric in the two transition functions of the protocol; the locale
  states what they have to satisfy for the lines to be coherent, and the MSI functions
  of \<^verbatim>\<open>msi.h\<close> are shown to satisfy it.
\<close>

section \<open>The abstract machine\<close>

record ('st, 'msg) snap =
  lines :: "nat \<Rightarrow> addr \<Rightarrow> 'st"
  unseen :: "nat \<Rightarrow> (addr \<times> 'msg) list"

definition set_line :: "nat \<Rightarrow> addr \<Rightarrow> 'st \<Rightarrow> ('st, 'msg) snap \<Rightarrow> ('st, 'msg) snap" where
  "set_line p X st s = s\<lparr>lines := (lines s)(p := (lines s p)(X := st))\<rparr>"

definition announce :: "nat \<Rightarrow> nat \<Rightarrow> addr \<Rightarrow> 'msg \<Rightarrow> ('st, 'msg) snap \<Rightarrow> ('st, 'msg) snap" where
  "announce n p X m s =
     s\<lparr>unseen := (\<lambda>q. if q < n \<and> q \<noteq> p then unseen s q @ [(X, m)] else unseen s q)\<rparr>"

text \<open>
  The agents are \<open>0, \<dots>, n - 1\<close>. An agent issues an operation on a line, with or without
  a message to all others; looks at its oldest message; or forgets lines.
\<close>

inductive astep :: "nat \<Rightarrow> ('st \<Rightarrow> 'op \<Rightarrow> 'st \<times> bool \<times> 'msg option) \<Rightarrow>
    ('st \<Rightarrow> 'msg \<Rightarrow> 'st \<times> bool) \<Rightarrow> 'st \<Rightarrow> ('st, 'msg) snap \<Rightarrow> ('st, 'msg) snap \<Rightarrow> bool"
  for n issue react invalid where
  silent: "issue (lines s p X) op = (st, False, m) \<Longrightarrow>
     astep n issue react invalid s (set_line p X st s)"
| request: "issue (lines s p X) op = (st, True, Some m) \<Longrightarrow>
     astep n issue react invalid s (announce n p X m (set_line p X st s))"
| notice: "astep n issue react invalid s (announce n p X m s)"
| observe: "unseen s p = (X, m) # ms \<Longrightarrow>
     astep n issue react invalid s
       ((set_line p X (fst (react (lines s p X) m)) s)\<lparr>unseen := (unseen s)(p := ms)\<rparr>)"
| forget: "\<forall>X. f X = lines s p X \<or> f X = invalid \<Longrightarrow>
     astep n issue react invalid s (s\<lparr>lines := (lines s)(p := f)\<rparr>)"

abbreviation asteps where
  "asteps n issue react invalid \<equiv> (astep n issue react invalid)\<^sup>*\<^sup>*"

section \<open>The contract of the transition functions\<close>

locale snooping_protocol =
  fixes issue :: "'st \<Rightarrow> 'op \<Rightarrow> 'st \<times> bool \<times> 'msg option"
    and react :: "'st \<Rightarrow> 'msg \<Rightarrow> 'st \<times> bool"
    and modified :: 'st
    and invalid :: 'st
    and exclusive :: "'msg \<Rightarrow> bool"
  assumes modified_not_invalid: "modified \<noteq> invalid"
    and silent_keeps: "issue st op = (st', False, no) \<Longrightarrow> st' = st"
    and modified_is_exclusive:
      "issue st op = (modified, True, Some m) \<Longrightarrow> st \<noteq> modified \<Longrightarrow> exclusive m"
    and react_not_modified: "fst (react st m) \<noteq> modified"
    and react_exclusive: "exclusive m \<Longrightarrow> fst (react st m) = invalid"
    and react_invalid: "fst (react invalid m) = invalid"
begin

text \<open>
  Two agents may disagree about a line only as long as a message that will settle it is
  still unseen: an exclusive one on its way to the reader, or any on its way to the writer.
\<close>

definition settled_later :: "nat \<Rightarrow> ('st, 'msg) snap \<Rightarrow> bool" where
  "settled_later n s \<longleftrightarrow>
     (\<forall>p q X. p < n \<longrightarrow> q < n \<longrightarrow> p \<noteq> q \<longrightarrow> lines s p X = modified \<longrightarrow> lines s q X \<noteq> invalid \<longrightarrow>
        (\<exists>m. (X, m) \<in> set (unseen s q) \<and> exclusive m) \<or> (\<exists>m. (X, m) \<in> set (unseen s p)))"

lemma settled_laterI:
  assumes "\<And>p q X. p < n \<Longrightarrow> q < n \<Longrightarrow> p \<noteq> q \<Longrightarrow> lines s p X = modified \<Longrightarrow> lines s q X \<noteq> invalid \<Longrightarrow>
     (\<exists>m. (X, m) \<in> set (unseen s q) \<and> exclusive m) \<or> (\<exists>m. (X, m) \<in> set (unseen s p))"
  shows "settled_later n s"
  using assms by (simp add: settled_later_def)

lemma settled_laterD:
  assumes "settled_later n s" "p < n" "q < n" "p \<noteq> q" "lines s p X = modified" "lines s q X \<noteq> invalid"
  shows "(\<exists>m. (X, m) \<in> set (unseen s q) \<and> exclusive m) \<or> (\<exists>m. (X, m) \<in> set (unseen s p))"
  using assms by (simp add: settled_later_def)

lemma request_settled:
  assumes "settled_later n s" and "issue (lines s p X) op = (st, True, Some m)"
  shows "settled_later n (announce n p X m (set_line p X st s))" (is "settled_later n ?t")
proof (rule settled_laterI)
  fix a b Y
  assume n: "a < n" "b < n" and ab: "a \<noteq> b" and a: "lines ?t a Y = modified" and b: "lines ?t b Y \<noteq> invalid"
  have grows: "set (unseen s c) \<subseteq> set (unseen ?t c)" for c
    by (auto simp: announce_def set_line_def)
  have new: "(X, m) \<in> set (unseen ?t c)" if "c < n" "c \<noteq> p" for c
    using that by (simp add: announce_def set_line_def)
  show "(\<exists>m. (Y, m) \<in> set (unseen ?t b) \<and> exclusive m) \<or> (\<exists>m. (Y, m) \<in> set (unseen ?t a))"
  proof (cases "lines s a Y = modified \<and> lines s b Y \<noteq> invalid")
    case True
    with settled_laterD [OF assms(1) n ab] grows show ?thesis by blast
  next
    case False
    with a b have "Y = X" and "a = p \<or> b = p"
      by (auto simp: announce_def set_line_def split: if_splits)
    then show ?thesis
    proof (cases "a = p")
      case True
      show ?thesis
      proof (cases "lines s p X = modified")
        case True
        with False a b ab \<open>a = p\<close> \<open>Y = X\<close> show ?thesis
          by (simp add: announce_def set_line_def)
      next
        case False
        from a \<open>a = p\<close> \<open>Y = X\<close> have "st = modified"
          by (simp add: announce_def set_line_def)
        with assms(2) False have "exclusive m" by (auto dest: modified_is_exclusive)
        with new [of b] n ab \<open>a = p\<close> \<open>Y = X\<close> show ?thesis by blast
      qed
    next
      case False
      with new [of a] n \<open>Y = X\<close> show ?thesis by blast
    qed
  qed
qed

lemma observe_settled:
  assumes "settled_later n s" and u: "unseen s p = (X, m) # ms"
  shows "settled_later n ((set_line p X (fst (react (lines s p X) m)) s)\<lparr>unseen := (unseen s)(p := ms)\<rparr>)"
    (is "settled_later n ?t")
proof (rule settled_laterI)
  fix a b Y
  assume n: "a < n" "b < n" and ab: "a \<noteq> b" and a: "lines ?t a Y = modified" and b: "lines ?t b Y \<noteq> invalid"
  have lines: "lines ?t c Z = (if c = p \<and> Z = X then fst (react (lines s p X) m) else lines s c Z)" for c Z
    by (simp add: set_line_def)
  have olda: "lines s a Y = modified" and pa: "\<not> (a = p \<and> Y = X)"
    using a react_not_modified unfolding lines by (metis, metis)
  have oldb: "lines s b Y \<noteq> invalid"
    using b react_invalid unfolding lines by metis
  have inexclusive: "\<not> exclusive m" if "b = p" "Y = X"
    using b that react_exclusive unfolding lines by metis
  from settled_laterD [OF assms(1) n ab olda oldb] pa inexclusive u
  show "(\<exists>m. (Y, m) \<in> set (unseen ?t b) \<and> exclusive m) \<or> (\<exists>m. (Y, m) \<in> set (unseen ?t a))"
    by (cases "a = p"; cases "b = p") auto
qed

lemma astep_settled:
  assumes "astep n issue react invalid s t" and "settled_later n s"
  shows "settled_later n t"
  using assms
proof (cases rule: astep.cases)
  case (silent p X op st m)
  then have "set_line p X st s = s"
    using silent_keeps by (force simp: set_line_def)
  with silent assms show ?thesis by simp
next
  case (request p X op st m)
  with assms show ?thesis by (simp add: request_settled)
next
  case (notice p X m)
  have "lines t = lines s" and "\<And>c. set (unseen s c) \<subseteq> set (unseen t c)"
    using notice by (auto simp: announce_def)
  with settled_laterD [OF assms(2)] show ?thesis
    by (intro settled_laterI) (metis (no_types, lifting) subsetD)
next
  case (observe p X m ms)
  with assms show ?thesis by (simp add: observe_settled)
next
  case (forget f p)
  have "lines t c X = lines s c X \<or> lines t c X = invalid" for c X
    using forget by simp
  moreover have "unseen t = unseen s" using forget by simp
  ultimately show ?thesis
    using settled_laterD [OF assms(2)] modified_not_invalid by (intro settled_laterI) metis
qed

lemma asteps_settled: "asteps n issue react invalid s t \<Longrightarrow> settled_later n s \<Longrightarrow> settled_later n t"
  by (induction rule: rtranclp_induct) (auto intro: astep_settled)

text \<open>Two agents that have seen all their messages agree on who writes a line.\<close>

lemma settled_single_writer:
  assumes "settled_later n s" and "unseen s p = []" "unseen s q = []"
    and "p < n" "q < n" "p \<noteq> q" and "lines s p X = modified"
  shows "lines s q X = invalid"
  using settled_laterD [OF assms(1,4-7)] assms(2,3) by auto

lemma settled_initial: "(\<And>p X. lines s p X = invalid) \<Longrightarrow> settled_later n s"
  using modified_not_invalid by (simp add: settled_later_def)

end

section \<open>MSI meets the contract\<close>

interpretation msi: snooping_protocol push_transition snoop M I "\<lambda>m. m = BusRdX"
proof unfold_locales
  fix st st' :: State and op m
  show "push_transition st op = (st', False, m) \<Longrightarrow> st' = st"
    by (cases "(st, op)" rule: push_transition.cases) auto
next
  fix st :: State and op m
  show "push_transition st op = (M, True, Some m) \<Longrightarrow> st \<noteq> M \<Longrightarrow> m = BusRdX"
    by (cases "(st, op)" rule: push_transition.cases) auto
next
  fix st m
  show "fst (snoop st m) \<noteq> M"
    by (cases "(st, m)" rule: snoop.cases) auto
next
  fix st m
  show "m = BusRdX \<Longrightarrow> fst (snoop st m) = I"
    by (cases st) auto
qed simp_all

end
