(* ===== verification/Msi_Lines.thy ===== *)
theory Msi_Lines
  imports Snooping
begin

text \<open>
  What each operation of the processor and of the bus does to the state of every line:
  none of them faults on a well-formed processor, each changes the line it is about in
  the way the protocol says, and leaves every other line alone or forgets it (eviction).
\<close>

section \<open>Well-formed processors\<close>

text \<open>
  Every entry carries the tag of the line its key lies in. Keys that are not line
  addresses exist because \<^verbatim>\<open>write\<close> stores the line under the address it was given.
\<close>

definition tags_ok :: "line_cache \<Rightarrow> bool" where
  "tags_ok c \<longleftrightarrow> (\<forall>k v. lookup c k = Some v \<longrightarrow> cline_tag v = convert k)"

definition proc_ok :: "Processor \<Rightarrow> bool" where
  "proc_ok p \<longleftrightarrow> usable_cache (cache p) \<and> tags_ok (cache p)"

definition line_state :: "line_cache \<Rightarrow> addr \<Rightarrow> State" where
  "line_state c X = (case lookup c X of None \<Rightarrow> I | Some v \<Rightarrow> cline_state v)"

text \<open>
  The lines the protocol looks after. The line at address 0 is not one of them: its tag
  is the null pointer, which the code takes to mean that the line is not in the cache.
\<close>

definition visible :: "line_cache \<Rightarrow> addr \<Rightarrow> State" where
  "visible c X = (if X = nullptr \<or> \<not> aligned X then I else line_state c X)"

definition same_or_invalid :: "(addr \<Rightarrow> State) \<Rightarrow> addr \<Rightarrow> (addr \<Rightarrow> State) \<Rightarrow> bool" where
  "same_or_invalid f X g \<longleftrightarrow> (\<forall>Y. Y \<noteq> X \<longrightarrow> g Y = f Y \<or> g Y = I)"

named_theorems line_simps \<open>definitions of line states\<close>
declare proc_ok_def [line_simps] tags_ok_def [line_simps] line_state_def [line_simps]
  visible_def [line_simps] same_or_invalid_def [line_simps]

lemma tags_okD: "tags_ok c \<Longrightarrow> lookup c k = Some v \<Longrightarrow> cline_tag v = convert k"
  by (simp add: tags_ok_def)

lemma put_tags_ok:
  assumes "usable_cache c" and "tags_ok c" and "put k v c = Inr c'" and "cline_tag v = convert k"
  shows "tags_ok c'"
  using lru.store_seen [OF assms(1,3)] assms(2,4) unfolding tags_ok_def by metis

lemma put_visible:
  assumes "usable_cache c" and "put k v c = Inr c'"
  shows "visible c' k = (if k = nullptr \<or> \<not> aligned k then I else cline_state v)"
    and "same_or_invalid (visible c) k (visible c')"
  using lru.store_same [OF assms] lru.store_other [OF assms]
  by (auto simp: line_simps) (metis option.simps(4))

lemma visible_cases: "visible c X = line_state c X \<or> visible c X = I"
  by (simp add: visible_def)

lemma lookup_visible: "lookup c' = lookup c \<Longrightarrow> visible c' = visible c"
  by (simp add: visible_def line_state_def fun_eq_iff)

section \<open>Draining the queue of requests\<close>

definition same_identity :: "Processor \<Rightarrow> Processor \<Rightarrow> bool" where
  "same_identity p p' \<longleftrightarrow> tid p' = tid p \<and> traces p' = traces p"

lemma flush_frame [simp]:
  "cache (flush p) = cache p" "tid (flush p) = tid p" "requests (flush p) = requests p"
  "traces (flush p) = traces p"
  by (simp_all add: flush_def)

lemma snoop_I [simp]: "fst (snoop I t) = I"
  by simp

definition observe_line :: "BusTransaction \<Rightarrow> (addr \<Rightarrow> State) \<Rightarrow> addr \<Rightarrow> State" where
  "observe_line r f = f(bts_tag r := fst (snoop (f (bts_tag r)) (bts_tsn r)))"

lemma pull_one_correct:
  assumes "proc_ok p"
  shows "\<exists>p'. pull_one r p = Inr p' \<and> proc_ok p' \<and> same_identity p p' \<and>
     requests p' = requests p \<and> visible (cache p') = observe_line r (visible (cache p))"
proof -
  let ?c = "cache p" and ?X = "bts_tag r"
  have ok: "usable_cache ?c" "tags_ok ?c" using assms by (simp_all add: proc_ok_def)
  show ?thesis
  proof (cases "lookup ?c ?X")
    case None
    then have "visible ?c ?X = I" by (simp add: visible_def line_state_def)
    then have "observe_line r (visible ?c) = visible ?c"
      by (simp add: observe_line_def fun_eq_iff)
    with None ok show ?thesis
      by (simp add: pull_one_def lru.fetch_absent Cacheline_default_def same_identity_def proc_ok_def)
  next
    case (Some v)
    obtain c1 where c1: "cache_get ?X False ?c = Inr (v, c1)" "usable_cache c1" "lookup c1 = lookup ?c"
      using lru.fetch_hit [OF ok(1) Some] by blast
    have tag: "cline_tag v = convert ?X" and ok1: "tags_ok c1"
      using ok(2) Some c1(3) by (auto simp: tags_ok_def)
    show ?thesis
    proof (cases "cline_tag v = nullptr")
      case True
      with tag have "visible ?c ?X = I" by (auto simp: visible_def aligned_iff)
      then have "observe_line r (visible ?c) = visible ?c"
        by (simp add: observe_line_def fun_eq_iff)
      with True c1 ok1 lookup_visible [OF c1(3)] show ?thesis
        by (simp add: pull_one_def same_identity_def proc_ok_def)
    next
      case False
      let ?v = "v\<lparr>cline_state := fst (snoop (cline_state v) (bts_tsn r))\<rparr>"
      obtain c2 where c2: "put ?X ?v c1 = Inr c2" "usable_cache c2"
        using lru.store_total [OF c1(2)] by blast
      have "lookup c2 = (lookup ?c)(?X \<mapsto> ?v)"
        using lru.store_known [OF c1(2) _ c2(1)] c1(3) Some by simp
      then have "visible c2 = observe_line r (visible ?c)"
        using Some by (auto simp: fun_eq_iff observe_line_def visible_def line_state_def)
      moreover have "tags_ok c2"
        using put_tags_ok [OF c1(2) ok1 c2(1)] tag by simp
      ultimately show ?thesis
        using False c1(1) c2
        by (cases "snd (snoop (cline_state v) (bts_tsn r))")
          (auto simp: pull_one_def same_identity_def proc_ok_def Let_def split_beta)
    qed
  qed
qed

lemma pull_loop_correct:
  assumes "proc_ok p"
  shows "\<exists>p'. pull_loop rs p = Inr p' \<and> proc_ok p' \<and> same_identity p p' \<and>
     requests p' = (if rs = [] then requests p else []) \<and>
     visible (cache p') = fold observe_line rs (visible (cache p))"
  using assms
proof (induction rs arbitrary: p)
  case Nil
  then show ?case by (simp add: same_identity_def)
next
  case (Cons r rs)
  from Cons.prems have "proc_ok (p\<lparr>requests := rs\<rparr>)" by (simp add: proc_ok_def)
  from pull_one_correct [OF this, of r] obtain p1 where p1: "pull_one r (p\<lparr>requests := rs\<rparr>) = Inr p1"
    "proc_ok p1" "same_identity p p1" "requests p1 = rs"
    "visible (cache p1) = observe_line r (visible (cache p))"
    by (auto simp: same_identity_def)
  from Cons.IH [OF p1(2)] p1 show ?case by (auto simp: same_identity_def)
qed

lemma pull_request_correct:
  assumes "proc_ok p"
  shows "\<exists>p'. pull_request p = Inr p' \<and> proc_ok p' \<and> same_identity p p' \<and> requests p' = [] \<and>
     visible (cache p') = fold observe_line (requests p) (visible (cache p))"
  using pull_loop_correct [OF assms, of "requests p"] by (auto simp: pull_request_def)

section \<open>Accessing the cache\<close>

definition access :: "PrTsnType \<Rightarrow> addr \<Rightarrow> int32 \<Rightarrow> Processor \<Rightarrow> (Cacheline \<times> bool \<times> Processor) result" where
  "access op a cnt = (if op = PrWr then write_access a cnt else read_access a cnt)"

lemma same_or_invalid_trans:
  "same_or_invalid f X g \<Longrightarrow> same_or_invalid g X h \<Longrightarrow> same_or_invalid f X h"
  unfolding same_or_invalid_def by metis

lemma same_or_invalid_refl: "same_or_invalid f X f"
  by (simp add: same_or_invalid_def)

text \<open>The two calls of \<^verbatim>\<open>get\<close> that \<^verbatim>\<open>read\<close> and \<^verbatim>\<open>write\<close> start with.\<close>

lemma double_get:
  assumes "usable_cache c" and "tags_ok c" and "aligned tag"
  shows "\<exists>res c1 cline c2. cache_get tag False c = Inr (res, c1) \<and>
     cache_get tag True c1 = Inr (cline, c2) \<and> usable_cache c2 \<and> tags_ok c2 \<and>
     (cline_tag res = nullptr \<longleftrightarrow> lookup c tag = None \<or> tag = nullptr) \<and>
     cline_tag cline = tag \<and> cline_state cline = line_state c tag \<and>
     lookup c2 tag = Some cline \<and> same_or_invalid (visible c) tag (visible c2)"
proof -
  obtain c1 where c1: "cache_get tag False c = Inr (case_option Cacheline_default id (lookup c tag), c1)"
    "usable_cache c1" "lookup c1 = lookup c"
    using lru.fetch_False_total [OF assms(1)] by blast
  obtain c2 where c2: "cache_get tag True c1 = Inr (case_option (Cacheline_of tag) id (lookup c tag), c2)"
    "usable_cache c2" "lookup c2 tag = Some (case_option (Cacheline_of tag) id (lookup c tag))"
    "\<forall>k'. k' \<noteq> tag \<longrightarrow> lookup c2 k' = lookup c k' \<or> lookup c2 k' = None"
    using lru.fetch_True_total [OF c1(2), of Cacheline_of Cacheline_default tag]
    unfolding c1(3) by blast
  let ?l = "case_option (Cacheline_of tag) id (lookup c tag)"
  have tag: "cline_tag ?l = tag"
    using tags_okD [OF assms(2), of tag] assms(3) by (auto simp: Cacheline_of_def split: option.split)
  have "tags_ok c2"
    unfolding tags_ok_def
  proof (intro allI impI)
    fix k v assume "lookup c2 k = Some v"
    then show "cline_tag v = convert k"
      using c2(3,4) tag assms(2,3) by (cases "k = tag") (auto simp: tags_ok_def)
  qed
  moreover have "cline_state ?l = line_state c tag"
    by (simp add: line_state_def Cacheline_of_def split: option.split)
  moreover have "same_or_invalid (visible c) tag (visible c2)"
    unfolding same_or_invalid_def visible_def line_state_def
    using c2(4) by (metis option.simps(4))
  moreover have "cline_tag (case_option Cacheline_default id (lookup c tag)) = nullptr \<longleftrightarrow>
      lookup c tag = None \<or> tag = nullptr"
    using tag by (cases "lookup c tag") (auto simp: Cacheline_default_def)
  ultimately show ?thesis using c1 c2 tag by blast
qed

lemma put_visible_line:
  assumes "usable_cache c" and "put a v c = Inr c'"
  shows "same_or_invalid (visible c) (convert a) (visible c')"
  unfolding same_or_invalid_def
proof (intro allI impI)
  fix Y assume "Y \<noteq> convert a"
  show "visible c' Y = visible c Y \<or> visible c' Y = I"
  proof (cases "Y = a")
    case True
    with \<open>Y \<noteq> convert a\<close> have "\<not> aligned Y" by (simp add: aligned_iff)
    then show ?thesis by (simp add: visible_def)
  next
    case False
    with put_visible(2) [OF assms] show ?thesis by (simp add: same_or_invalid_def)
  qed
qed

definition access_result :: "addr \<Rightarrow> int32 \<Rightarrow> Processor \<Rightarrow> Cacheline \<Rightarrow> bool \<Rightarrow> Processor \<Rightarrow> bool" where
  "access_result a cnt p cline is_new p' \<longleftrightarrow>
     proc_ok p' \<and> same_identity p p' \<and> requests p' = requests p \<and> stat p' = stat p \<and>
     cline_tag cline = convert a \<and> cline_cnt cline = Some cnt \<and>
     cline_state cline = line_state (cache p) (convert a) \<and>
     (is_new \<longleftrightarrow> lookup (cache p) (convert a) = None \<or> convert a = nullptr) \<and>
     same_or_invalid (visible (cache p)) (convert a) (visible (cache p')) \<and>
     visible (cache p') (convert a) \<in> {visible (cache p) (convert a), I}"

lemma read_access_correct:
  assumes "proc_ok p"
  shows "\<exists>cline is_new p'. read_access a cnt p = Inr (cline, is_new, p') \<and>
     access_result a cnt p cline is_new p'"
proof -
  have ok: "usable_cache (cache p)" "tags_ok (cache p)"
    using assms by (simp_all add: proc_ok_def)
  obtain res c1 cline c2 where *: "cache_get (convert a) False (cache p) = Inr (res, c1)"
    "cache_get (convert a) True c1 = Inr (cline, c2)" "usable_cache c2" "tags_ok c2"
    "cline_tag res = nullptr \<longleftrightarrow> lookup (cache p) (convert a) = None \<or> convert a = nullptr"
    "cline_tag cline = convert a" "cline_state cline = line_state (cache p) (convert a)"
    "lookup c2 (convert a) = Some cline"
    "same_or_invalid (visible (cache p)) (convert a) (visible c2)"
    using double_get [OF ok aligned_convert [of a]] by blast
  moreover have "visible c2 (convert a) = visible (cache p) (convert a)"
    using *(7,8) by (simp add: visible_def) (simp add: line_state_def)
  ultimately show ?thesis
    by (simp add: Let_def read_access_def access_result_def proc_ok_def same_identity_def)
qed

lemma write_access_correct:
  assumes "proc_ok p"
  shows "\<exists>cline is_new p'. write_access a cnt p = Inr (cline, is_new, p') \<and>
     access_result a cnt p cline is_new p'"
proof -
  have ok: "usable_cache (cache p)" "tags_ok (cache p)"
    using assms by (simp_all add: proc_ok_def)
  obtain res c1 cline c2 where *: "cache_get (convert a) False (cache p) = Inr (res, c1)"
    "cache_get (convert a) True c1 = Inr (cline, c2)" "usable_cache c2" "tags_ok c2"
    "cline_tag res = nullptr \<longleftrightarrow> lookup (cache p) (convert a) = None \<or> convert a = nullptr"
    "cline_tag cline = convert a" "cline_state cline = line_state (cache p) (convert a)"
    "same_or_invalid (visible (cache p)) (convert a) (visible c2)" "lookup c2 (convert a) = Some cline"
    using double_get [OF ok aligned_convert [of a]] by blast
  let ?l = "cline\<lparr>cline_cnt := Some cnt, cline_tag := convert a\<rparr>"
  obtain c3 where c3: "put a ?l c2 = Inr c3" "usable_cache c3"
    using lru.store_total [OF *(3)] by blast
  have "tags_ok c3"
    by (rule put_tags_ok [OF *(3,4) c3(1)]) simp
  moreover have "same_or_invalid (visible (cache p)) (convert a) (visible c3)"
    using same_or_invalid_trans [OF *(8) put_visible_line [OF *(3) c3(1)]] .
  moreover have "visible c3 (convert a) \<in> {visible (cache p) (convert a), I}"
  proof (cases "convert a = a")
    case True
    with put_visible(1) [OF *(3) c3(1)] *(7) show ?thesis
      by (simp add: visible_def [of "cache p"])
  next
    case False
    have "visible c2 (convert a) = visible (cache p) (convert a)"
      using *(7,9) by (simp add: visible_def) (simp add: line_state_def)
    with False put_visible(2) [OF *(3) c3(1)] show ?thesis
      unfolding same_or_invalid_def by (metis insertCI)
  qed
  ultimately show ?thesis
    using * c3 by (simp add: Let_def write_access_def access_result_def proc_ok_def same_identity_def)
qed

lemma access_correct:
  assumes "proc_ok p"
  shows "\<exists>cline is_new p'. access op a cnt p = Inr (cline, is_new, p') \<and>
     access_result a cnt p cline is_new p'"
  using read_access_correct [OF assms, of a cnt] write_access_correct [OF assms, of a cnt]
  unfolding access_def by (cases "op = PrWr") auto

section \<open>Pushing a line to the bus\<close>

definition request_of :: "Cacheline \<Rightarrow> nat \<Rightarrow> BusTsnType \<Rightarrow> BusTransaction" where
  "request_of cline i t =
     \<lparr>bts_tag = cline_tag cline, bts_tid = i, bts_cnt = cline_cnt cline, bts_tsn = t\<rparr>"

text \<open>The new requests of a push: none, or one of the kind the transition names.\<close>

definition pushed_requests :: "Cacheline \<Rightarrow> nat \<Rightarrow> PrTsnType \<Rightarrow> BusTransaction list" where
  "pushed_requests cline i op =
     (case push_transition (cline_state cline) op of
        (_, True, Some t) \<Rightarrow> [request_of cline i t]
      | _ \<Rightarrow> [])"

definition push_result :: "Cacheline \<Rightarrow> nat \<Rightarrow> PrTsnType \<Rightarrow> bool \<Rightarrow> Bus \<Rightarrow> Processor \<Rightarrow> bool" where
  "push_result cline i op is_new b p' \<longleftrightarrow>
     (let p = processors b ! i in
      proc_ok p' \<and> same_identity p p' \<and> requests p' = requests p \<and>
      stat p' = stat (if cline_state cline = I \<and> \<not> is_new then count_coherence_miss p else p) \<and>
      lookup (cache p') (cline_tag cline) =
        Some (cline\<lparr>cline_state := fst (push_transition (cline_state cline) op)\<rparr>) \<and>
      same_or_invalid (visible (cache p)) (cline_tag cline) (visible (cache p')))"

lemma push_transition_response:
  "op \<noteq> Flush \<Longrightarrow> \<exists>st. push_transition s op = (st, False, None) \<or> (\<exists>t. push_transition s op = (st, True, Some t))"
  by (cases "(s, op)" rule: push_transition.cases) auto

lemma Bus_push_correct:
  assumes i: "i < length (processors b)" and ok: "proc_ok (processors b ! i)"
    and op: "op \<noteq> Flush" and tag: "aligned (cline_tag cline)"
  shows "\<exists>p'. Bus_push cline i op is_new b =
      Inr (b\<lparr>processors := (processors b)[i := p'],
             bus_requests := bus_requests b @ pushed_requests cline i op\<rparr>) \<and>
      push_result cline i op is_new b p'"
proof -
  let ?p = "processors b ! i"
  let ?p1 = "if cline_state cline = I \<and> \<not> is_new then count_coherence_miss ?p else ?p"
  let ?l = "cline\<lparr>cline_state := fst (push_transition (cline_state cline) op)\<rparr>"
  have same: "cache ?p1 = cache ?p" "tid ?p1 = tid ?p" "traces ?p1 = traces ?p"
      "requests ?p1 = requests ?p"
    by (simp_all add: count_coherence_miss_def)
  have oks: "usable_cache (cache ?p)" "tags_ok (cache ?p)" using ok by (simp_all add: proc_ok_def)
  obtain c where c: "put (cline_tag cline) ?l (cache ?p) = Inr c" "usable_cache c"
    using lru.store_total [OF oks(1)] by blast
  have "tags_ok c"
    by (rule put_tags_ok [OF oks c(1)]) (simp add: tag)
  moreover have "lookup c (cline_tag cline) = Some ?l"
    by (rule lru.store_same [OF oks(1) c(1)])
  moreover have "same_or_invalid (visible (cache ?p)) (cline_tag cline) (visible c)"
    by (rule put_visible(2) [OF oks(1) c(1)])
  ultimately have res: "push_result cline i op is_new b (?p1\<lparr>cache := c\<rparr>)"
    using c(2) same by (simp add: push_result_def proc_ok_def same_identity_def)
  have "Bus_push cline i op is_new b =
      Inr (b\<lparr>processors := (processors b)[i := ?p1\<lparr>cache := c\<rparr>],
             bus_requests := bus_requests b @ pushed_requests cline i op\<rparr>)"
    using push_transition_response [OF op, of "cline_state cline"] c(1) i same
    by (auto simp: Bus_push_def pushed_requests_def request_of_def)
  with res show ?thesis by blast
qed

end
