(* ===== verification/Msi_System.thy ===== *)
theory Msi_System
  imports Msi_Lines
begin

text \<open>
  The running program: one thread per processor in \<^verbatim>\<open>Processor::mainloop\<close>, the bus thread in
  \<^verbatim>\<open>Bus::mainloop\<close>, and the main thread, which hands out the traces. Each thread has a
  program counter and each mutex an owner; a step is one thread moving between two
  points at which it takes or releases a mutex or looks at shared data. A critical
  section that takes no further mutex is one step together with its unlock. The
  unsynchronised tests \<^verbatim>\<open>traces.empty()\<close> and \<^verbatim>\<open>requests.empty()\<close> are steps of their own,
  taken to be atomic; a thread that finds the queue empty keeps testing, which is no step.
\<close>

section \<open>States\<close>

datatype thread = TMain | TBus | TProc nat

datatype proc_pc =
    PTest
  | PLockTrace
  | PTake
  | PLockRequests PrTsnType addr int32
  | PPull PrTsnType addr int32
  | PAccess PrTsnType addr int32
  | PLockBus PrTsnType Cacheline bool
  | PPush PrTsnType Cacheline bool
  | PUnlockTrace

datatype bus_pc =
    BTest
  | BLock
  | BTake
  | BSend BusTransaction nat
  | BDeliver BusTransaction nat

datatype main_pc =
    MLock "(nat \<times> Trace) list"
  | MAdd "(nat \<times> Trace) list"

record Sys =
  the_bus :: Bus
  ppc :: "nat \<Rightarrow> proc_pc"
  bpc :: bus_pc
  mpc :: main_pc
  trace_lock :: "nat \<Rightarrow> thread option"
  request_lock :: "nat \<Rightarrow> thread option"
  bus_lock :: "thread option"

abbreviation procs :: "Sys \<Rightarrow> Processor list" where
  "procs s \<equiv> processors (the_bus s)"

definition set_proc :: "nat \<Rightarrow> Processor \<Rightarrow> Sys \<Rightarrow> Sys" where
  "set_proc i p s = s\<lparr>the_bus := (the_bus s)\<lparr>processors := (procs s)[i := p]\<rparr>\<rparr>"

definition goto :: "nat \<Rightarrow> proc_pc \<Rightarrow> Sys \<Rightarrow> Sys" where
  "goto i pc s = s\<lparr>ppc := (ppc s)(i := pc)\<rparr>"

text \<open>Where the handler of a trace starts: \<^verbatim>\<open>read\<close>, \<^verbatim>\<open>write\<close>, or nothing for any other letter.\<close>

definition handler :: "Trace \<Rightarrow> proc_pc" where
  "handler q =
     (if trace_type q = CHR ''R'' then PLockRequests PrRd (trace_tag q) (trace_cnt q)
      else if trace_type q = CHR ''W'' then PLockRequests PrWr (trace_tag q) (trace_cnt q)
      else PUnlockTrace)"

section \<open>Steps\<close>

inductive step :: "Sys \<Rightarrow> Sys \<Rightarrow> bool" where
  main_lock: "mpc s = MLock ((i, t) # ms) \<Longrightarrow> trace_lock s i = None \<Longrightarrow>
     step s (s\<lparr>mpc := MAdd ((i, t) # ms), trace_lock := (trace_lock s)(i := Some TMain)\<rparr>)"
| main_add: "mpc s = MAdd ((i, t) # ms) \<Longrightarrow>
     step s ((set_proc i (add_trace t (procs s ! i)) s)
       \<lparr>mpc := MLock ms, trace_lock := (trace_lock s)(i := None)\<rparr>)"
| proc_test: "i < length (procs s) \<Longrightarrow> ppc s i = PTest \<Longrightarrow> traces (procs s ! i) \<noteq> [] \<Longrightarrow>
     step s (goto i PLockTrace s)"
| proc_lock: "i < length (procs s) \<Longrightarrow> ppc s i = PLockTrace \<Longrightarrow> trace_lock s i = None \<Longrightarrow>
     step s ((goto i PTake s)\<lparr>trace_lock := (trace_lock s)(i := Some (TProc i))\<rparr>)"
| proc_take: "i < length (procs s) \<Longrightarrow> ppc s i = PTake \<Longrightarrow> traces (procs s ! i) = q # ts \<Longrightarrow>
     step s (goto i (handler q) (set_proc i ((procs s ! i)\<lparr>traces := ts\<rparr>) s))"
| proc_lock_requests: "i < length (procs s) \<Longrightarrow> ppc s i = PLockRequests op a cnt \<Longrightarrow>
     request_lock s i = None \<Longrightarrow>
     step s ((goto i (PPull op a cnt) s)\<lparr>request_lock := (request_lock s)(i := Some (TProc i))\<rparr>)"
| proc_pull: "i < length (procs s) \<Longrightarrow> ppc s i = PPull op a cnt \<Longrightarrow>
     pull_request (procs s ! i) = Inr p \<Longrightarrow>
     step s ((goto i (PAccess op a cnt) (set_proc i p s))\<lparr>request_lock := (request_lock s)(i := None)\<rparr>)"
| proc_access: "i < length (procs s) \<Longrightarrow> ppc s i = PAccess op a cnt \<Longrightarrow>
     access op a cnt (procs s ! i) = Inr (cline, is_new, p) \<Longrightarrow>
     step s (goto i (PLockBus op cline is_new) (set_proc i p s))"
| proc_lock_bus: "i < length (procs s) \<Longrightarrow> ppc s i = PLockBus op cline is_new \<Longrightarrow> bus_lock s = None \<Longrightarrow>
     step s ((goto i (PPush op cline is_new) s)\<lparr>bus_lock := Some (TProc i)\<rparr>)"
| proc_push: "i < length (procs s) \<Longrightarrow> ppc s i = PPush op cline is_new \<Longrightarrow>
     Bus_push cline (tid (procs s ! i)) op is_new (the_bus s) = Inr b \<Longrightarrow>
     step s ((goto i PUnlockTrace s)\<lparr>the_bus := b, bus_lock := None\<rparr>)"
| proc_unlock: "i < length (procs s) \<Longrightarrow> ppc s i = PUnlockTrace \<Longrightarrow>
     step s ((goto i PTest s)\<lparr>trace_lock := (trace_lock s)(i := None)\<rparr>)"
| bus_test: "bpc s = BTest \<Longrightarrow> bus_requests (the_bus s) \<noteq> [] \<Longrightarrow> step s (s\<lparr>bpc := BLock\<rparr>)"
| bus_acquire: "bpc s = BLock \<Longrightarrow> bus_lock s = None \<Longrightarrow>
     step s (s\<lparr>bpc := BTake, bus_lock := Some TBus\<rparr>)"
| bus_take: "bpc s = BTake \<Longrightarrow> bus_requests (the_bus s) = r # rs \<Longrightarrow>
     step s (s\<lparr>bpc := BSend r 0, the_bus := (the_bus s)\<lparr>bus_requests := rs\<rparr>\<rparr>)"
| bus_skip: "bpc s = BSend r i \<Longrightarrow> i < length (procs s) \<Longrightarrow> i = bts_tid r \<Longrightarrow>
     step s (s\<lparr>bpc := BSend r (Suc i)\<rparr>)"
| bus_lock_requests: "bpc s = BSend r i \<Longrightarrow> i < length (procs s) \<Longrightarrow> i \<noteq> bts_tid r \<Longrightarrow>
     request_lock s i = None \<Longrightarrow>
     step s (s\<lparr>bpc := BDeliver r i, request_lock := (request_lock s)(i := Some TBus)\<rparr>)"
| bus_deliver: "bpc s = BDeliver r i \<Longrightarrow>
     step s (s\<lparr>bpc := BSend r (Suc i), the_bus := deliver r i (the_bus s),
               request_lock := (request_lock s)(i := None)\<rparr>)"
| bus_done: "bpc s = BSend r i \<Longrightarrow> i = length (procs s) \<Longrightarrow>
     step s (s\<lparr>bpc := BTest, bus_lock := None\<rparr>)"

text \<open>The same steps, as functions of the thread that moves; \<open>None\<close> when it cannot.\<close>

definition main_step :: "Sys \<Rightarrow> Sys option" where
  "main_step s =
     (case mpc s of
        MLock ((i, t) # ms) \<Rightarrow>
          if trace_lock s i = None
          then Some (s\<lparr>mpc := MAdd ((i, t) # ms), trace_lock := (trace_lock s)(i := Some TMain)\<rparr>)
          else None
      | MAdd ((i, t) # ms) \<Rightarrow>
          Some ((set_proc i (add_trace t (procs s ! i)) s)
            \<lparr>mpc := MLock ms, trace_lock := (trace_lock s)(i := None)\<rparr>)
      | _ \<Rightarrow> None)"

definition ok_option :: "'a result \<Rightarrow> 'a option" where
  "ok_option r = (case r of Inl _ \<Rightarrow> None | Inr x \<Rightarrow> Some x)"

definition proc_step :: "nat \<Rightarrow> Sys \<Rightarrow> Sys option" where
  "proc_step i s =
     (if i < length (procs s) then
        (case ppc s i of
           PTest \<Rightarrow> if traces (procs s ! i) \<noteq> [] then Some (goto i PLockTrace s) else None
         | PLockTrace \<Rightarrow>
             if trace_lock s i = None
             then Some ((goto i PTake s)\<lparr>trace_lock := (trace_lock s)(i := Some (TProc i))\<rparr>) else None
         | PTake \<Rightarrow>
             (case traces (procs s ! i) of
                [] \<Rightarrow> None
              | q # ts \<Rightarrow> Some (goto i (handler q) (set_proc i ((procs s ! i)\<lparr>traces := ts\<rparr>) s)))
         | PLockRequests op a cnt \<Rightarrow>
             if request_lock s i = None
             then Some ((goto i (PPull op a cnt) s)\<lparr>request_lock := (request_lock s)(i := Some (TProc i))\<rparr>)
             else None
         | PPull op a cnt \<Rightarrow>
             map_option (\<lambda>p. (goto i (PAccess op a cnt) (set_proc i p s))
                 \<lparr>request_lock := (request_lock s)(i := None)\<rparr>)
               (ok_option (pull_request (procs s ! i)))
         | PAccess op a cnt \<Rightarrow>
             map_option (\<lambda>(cline, is_new, p). goto i (PLockBus op cline is_new) (set_proc i p s))
               (ok_option (access op a cnt (procs s ! i)))
         | PLockBus op cline is_new \<Rightarrow>
             if bus_lock s = None
             then Some ((goto i (PPush op cline is_new) s)\<lparr>bus_lock := Some (TProc i)\<rparr>) else None
         | PPush op cline is_new \<Rightarrow>
             map_option (\<lambda>b. (goto i PUnlockTrace s)\<lparr>the_bus := b, bus_lock := None\<rparr>)
               (ok_option (Bus_push cline (tid (procs s ! i)) op is_new (the_bus s)))
         | PUnlockTrace \<Rightarrow> Some ((goto i PTest s)\<lparr>trace_lock := (trace_lock s)(i := None)\<rparr>))
      else None)"

definition bus_step :: "Sys \<Rightarrow> Sys option" where
  "bus_step s =
     (case bpc s of
        BTest \<Rightarrow> if bus_requests (the_bus s) \<noteq> [] then Some (s\<lparr>bpc := BLock\<rparr>) else None
      | BLock \<Rightarrow> if bus_lock s = None then Some (s\<lparr>bpc := BTake, bus_lock := Some TBus\<rparr>) else None
      | BTake \<Rightarrow>
          (case bus_requests (the_bus s) of
             [] \<Rightarrow> None
           | r # rs \<Rightarrow> Some (s\<lparr>bpc := BSend r 0, the_bus := (the_bus s)\<lparr>bus_requests := rs\<rparr>\<rparr>))
      | BSend r i \<Rightarrow>
          if i < length (procs s) then
            if i = bts_tid r then Some (s\<lparr>bpc := BSend r (Suc i)\<rparr>)
            else if request_lock s i = None
            then Some (s\<lparr>bpc := BDeliver r i, request_lock := (request_lock s)(i := Some TBus)\<rparr>)
            else None
          else if i = length (procs s) then Some (s\<lparr>bpc := BTest, bus_lock := None\<rparr>)
          else None
      | BDeliver r i \<Rightarrow>
          Some (s\<lparr>bpc := BSend r (Suc i), the_bus := deliver r i (the_bus s),
                  request_lock := (request_lock s)(i := None)\<rparr>))"

fun thread_step :: "thread \<Rightarrow> Sys \<Rightarrow> Sys option" where
  "thread_step TMain s = main_step s"
| "thread_step TBus s = bus_step s"
| "thread_step (TProc i) s = proc_step i s"

text \<open>A schedule names the threads in the order they move.\<close>

fun run :: "thread list \<Rightarrow> Sys \<Rightarrow> Sys option" where
  "run [] s = Some s"
| "run (t # ts) s = (case thread_step t s of None \<Rightarrow> None | Some s' \<Rightarrow> run ts s')"

definition initial :: "Bus \<Rightarrow> (nat \<times> Trace) list \<Rightarrow> Sys" where
  "initial b ms =
     \<lparr>the_bus = b, ppc = (\<lambda>_. PTest), bpc = BTest, mpc = MLock ms,
      trace_lock = (\<lambda>_. None), request_lock = (\<lambda>_. None), bus_lock = None\<rparr>"

text \<open>
  The states the program can be in: \<open>n\<close> processors with caches of \<open>NCachelines\<close> lines, a
  list of traces for processors that exist, and any interleaving.
\<close>

inductive reachable :: "int32 \<Rightarrow> int32 \<Rightarrow> (nat \<times> Trace) list \<Rightarrow> Sys \<Rightarrow> bool"
  for nthreads NCachelines ms where
  start: "Bus_new nthreads NCachelines = Inr b \<Longrightarrow> NCachelines \<noteq> 0 \<Longrightarrow>
     \<forall>(i, t) \<in> set ms. i < length (processors b) \<Longrightarrow>
     reachable nthreads NCachelines ms (initial b ms)"
| next_step: "reachable nthreads NCachelines ms s \<Longrightarrow> step s s' \<Longrightarrow>
     reachable nthreads NCachelines ms s'"

section \<open>The invariant\<close>

fun holds_trace :: "proc_pc \<Rightarrow> bool" where
  "holds_trace PTest = False"
| "holds_trace PLockTrace = False"
| "holds_trace _ = True"

fun in_pull :: "proc_pc \<Rightarrow> bool" where
  "in_pull (PPull op a cnt) = True"
| "in_pull _ = False"

fun in_push :: "proc_pc \<Rightarrow> bool" where
  "in_push (PPush op cline is_new) = True"
| "in_push _ = False"

fun main_in :: "main_pc \<Rightarrow> nat \<Rightarrow> bool" where
  "main_in (MAdd ((i, t) # ms)) j = (i = j)"
| "main_in _ j = False"

fun delivers :: "bus_pc \<Rightarrow> nat \<Rightarrow> bool" where
  "delivers (BDeliver r i) j = (i = j)"
| "delivers _ j = False"

fun holds_bus :: "bus_pc \<Rightarrow> bool" where
  "holds_bus BTest = False"
| "holds_bus BLock = False"
| "holds_bus _ = True"

definition locks_at :: "Sys \<Rightarrow> nat \<Rightarrow> bool" where
  "locks_at s i \<longleftrightarrow>
     (holds_trace (ppc s i) \<longleftrightarrow> trace_lock s i = Some (TProc i)) \<and>
     (main_in (mpc s) i \<longleftrightarrow> trace_lock s i = Some TMain) \<and>
     trace_lock s i \<in> {None, Some TMain, Some (TProc i)} \<and>
     (in_pull (ppc s i) \<longleftrightarrow> request_lock s i = Some (TProc i)) \<and>
     (delivers (bpc s) i \<longleftrightarrow> request_lock s i = Some TBus) \<and>
     request_lock s i \<in> {None, Some TBus, Some (TProc i)} \<and>
     (in_push (ppc s i) \<longleftrightarrow> bus_lock s = Some (TProc i))"

definition locks_ok :: "Sys \<Rightarrow> bool" where
  "locks_ok s \<longleftrightarrow>
     (\<forall>i. locks_at s i) \<and> (holds_bus (bpc s) \<longleftrightarrow> bus_lock s = Some TBus) \<and> bus_lock s \<noteq> Some TMain"

text \<open>What a thread knows at each of its program points.\<close>

fun proc_knows :: "proc_pc \<Rightarrow> Processor \<Rightarrow> bool" where
  "proc_knows PLockTrace p = (traces p \<noteq> [])"
| "proc_knows PTake p = (traces p \<noteq> [])"
| "proc_knows (PLockRequests op a cnt) p = (op \<noteq> Flush)"
| "proc_knows (PPull op a cnt) p = (op \<noteq> Flush)"
| "proc_knows (PAccess op a cnt) p = (op \<noteq> Flush)"
| "proc_knows (PLockBus op cline is_new) p =
     (op \<noteq> Flush \<and> aligned (cline_tag cline) \<and> cline_cnt cline \<noteq> None \<and>
      visible (cache p) (cline_tag cline) \<in> {cline_state cline, I})"
| "proc_knows (PPush op cline is_new) p =
     (op \<noteq> Flush \<and> aligned (cline_tag cline) \<and> cline_cnt cline \<noteq> None \<and>
      visible (cache p) (cline_tag cline) \<in> {cline_state cline, I})"
| "proc_knows _ p = True"

fun bus_knows :: "bus_pc \<Rightarrow> Bus \<Rightarrow> bool" where
  "bus_knows BLock b = (bus_requests b \<noteq> [])"
| "bus_knows BTake b = (bus_requests b \<noteq> [])"
| "bus_knows (BSend r i) b = (i \<le> length (processors b))"
| "bus_knows (BDeliver r i) b = (i < length (processors b) \<and> i \<noteq> bts_tid r)"
| "bus_knows _ b = True"

fun main_knows :: "main_pc \<Rightarrow> nat \<Rightarrow> bool" where
  "main_knows (MLock ms) n = (\<forall>(i, t) \<in> set ms. i < n)"
| "main_knows (MAdd ms) n = (ms \<noteq> [] \<and> (\<forall>(i, t) \<in> set ms. i < n))"

definition data_ok :: "Sys \<Rightarrow> bool" where
  "data_ok s \<longleftrightarrow>
     (\<forall>i < length (procs s). proc_ok (procs s ! i) \<and> tid (procs s ! i) = i \<and>
        proc_knows (ppc s i) (procs s ! i)) \<and>
     (\<forall>i \<ge> length (procs s). ppc s i = PTest) \<and>
     bus_knows (bpc s) (the_bus s) \<and> main_knows (mpc s) (length (procs s))"

lemma set_proc_simps [simp]:
  "procs (set_proc i p s) = (procs s)[i := p]"
  "bus_requests (the_bus (set_proc i p s)) = bus_requests (the_bus s)"
  "ppc (set_proc i p s) = ppc s" "bpc (set_proc i p s) = bpc s" "mpc (set_proc i p s) = mpc s"
  "trace_lock (set_proc i p s) = trace_lock s" "request_lock (set_proc i p s) = request_lock s"
  "bus_lock (set_proc i p s) = bus_lock s"
  by (simp_all add: set_proc_def)

lemma goto_simps [simp]:
  "the_bus (goto i pc s) = the_bus s" "ppc (goto i pc s) = (ppc s)(i := pc)"
  "bpc (goto i pc s) = bpc s" "mpc (goto i pc s) = mpc s"
  "trace_lock (goto i pc s) = trace_lock s" "request_lock (goto i pc s) = request_lock s"
  "bus_lock (goto i pc s) = bus_lock s"
  by (simp_all add: goto_def)

lemma handler_simps [simp]:
  "holds_trace (handler q)" "\<not> in_pull (handler q)" "\<not> in_push (handler q)" "proc_knows (handler q) p"
  by (simp_all add: handler_def)

lemma ok_option_Some [simp]: "ok_option r = Some x \<longleftrightarrow> r = Inr x"
  by (cases r) (simp_all add: ok_option_def)

lemma main_step_step: "main_step s = Some s' \<Longrightarrow> step s s'"
  by (auto simp: main_step_def split: main_pc.splits list.splits if_splits intro: step.intros)

lemma bus_step_step: "bus_step s = Some s' \<Longrightarrow> step s s'"
  by (auto simp: bus_step_def split: bus_pc.splits list.splits if_splits intro: step.intros)

lemma proc_step_step: "proc_step i s = Some s' \<Longrightarrow> step s s'"
  by (auto simp: proc_step_def split: proc_pc.splits list.splits if_splits intro: step.intros)

lemma thread_step_step: "thread_step t s = Some s' \<Longrightarrow> step s s'"
  by (cases t) (simp_all add: main_step_step bus_step_step proc_step_step)

lemma step_thread_step: "step s s' \<Longrightarrow> \<exists>t. thread_step t s = Some s'"
  by (induction rule: step.induct)
    ((rule_tac x = "TProc i" in exI, simp add: proc_step_def ok_option_def; fail)
      | (rule exI [of _ TBus], simp add: bus_step_def; fail)
      | (rule exI [of _ TMain], simp add: main_step_def; fail))+

lemma run_reachable:
  "reachable nthreads NCachelines ms s \<Longrightarrow> run ts s = Some s' \<Longrightarrow> reachable nthreads NCachelines ms s'"
  by (induction ts arbitrary: s)
    (auto split: option.splits dest: thread_step_step reachable.next_step)

lemma locks_ok_initial: "locks_ok (initial b ms)"
  by (simp add: locks_ok_def locks_at_def initial_def)

lemma locks_step:
  assumes "step s s'" and at: "\<And>i. locks_at s i"
    and bus: "holds_bus (bpc s) \<longleftrightarrow> bus_lock s = Some TBus" "bus_lock s \<noteq> Some TMain"
  shows "locks_at s' j \<and> (holds_bus (bpc s') \<longleftrightarrow> bus_lock s' = Some TBus) \<and> bus_lock s' \<noteq> Some TMain"
  using assms(1)
proof (cases rule: step.cases)
  case (main_lock i t ms)
  with at [of i] at [of j] bus show ?thesis by (auto simp: locks_at_def)
next
  case (main_add i t ms)
  with at [of i] at [of j] bus show ?thesis by (auto simp: locks_at_def)
next
  case (proc_test i)
  with at [of i] at [of j] bus show ?thesis by (auto simp: locks_at_def)
next
  case (proc_lock i)
  with at [of i] at [of j] bus show ?thesis by (auto simp: locks_at_def)
next
  case (proc_take i q ts)
  with at [of i] at [of j] bus show ?thesis by (auto simp: locks_at_def)
next
  case (proc_lock_requests i op a cnt)
  with at [of i] at [of j] bus show ?thesis by (auto simp: locks_at_def)
next
  case (proc_pull i op a cnt p)
  with at [of i] at [of j] bus show ?thesis by (auto simp: locks_at_def)
next
  case (proc_access i op a cnt cline is_new p)
  with at [of i] at [of j] bus show ?thesis by (auto simp: locks_at_def)
next
  case (proc_lock_bus i op cline is_new)
  with at [of i] at [of j] bus show ?thesis by (auto simp: locks_at_def)
next
  case (proc_push i op cline is_new b)
  with at [of i] at [of j] bus show ?thesis by (auto simp: locks_at_def)
next
  case (proc_unlock i)
  with at [of i] at [of j] bus show ?thesis by (auto simp: locks_at_def)
next
  case (bus_skip r i)
  with at [of i] at [of j] bus show ?thesis by (auto simp: locks_at_def)
next
  case (bus_lock_requests r i)
  with at [of i] at [of j] bus show ?thesis by (auto simp: locks_at_def)
next
  case (bus_deliver r i)
  with at [of i] at [of j] bus show ?thesis by (auto simp: locks_at_def)
qed (use at [of j] bus in \<open>auto simp: locks_at_def\<close>)

lemma locks_ok_step: "step s s' \<Longrightarrow> locks_ok s \<Longrightarrow> locks_ok s'"
  using locks_step unfolding locks_ok_def by blast

section \<open>Data\<close>

text \<open>
  The knowledge of a processor thread depends on its own queue of traces and its cache, and that
  of the bus on its queue and the number of processors.
\<close>

lemma proc_knows_same:
  "proc_knows pc p \<Longrightarrow> traces p' = traces p \<Longrightarrow> cache p' = cache p \<Longrightarrow> proc_knows pc p'"
  by (cases "(pc, p)" rule: proc_knows.cases) auto

lemma proc_knows_more: "proc_knows pc p \<Longrightarrow> proc_knows pc (add_trace t p)"
  by (cases "(pc, p)" rule: proc_knows.cases) (auto simp: add_trace_def)

lemma bus_knows_more:
  "bus_knows pc b \<Longrightarrow> length (processors b') = length (processors b) \<Longrightarrow>
     bus_requests b \<noteq> [] \<longrightarrow> bus_requests b' \<noteq> [] \<Longrightarrow> bus_knows pc b'"
  by (cases "(pc, b)" rule: bus_knows.cases) auto

lemma data_okD:
  assumes "data_ok s" and "i < length (procs s)"
  shows "proc_ok (procs s ! i)" "tid (procs s ! i) = i" "proc_knows (ppc s i) (procs s ! i)"
  using assms by (simp_all add: data_ok_def)

text \<open>A step of processor \<open>i\<close> that changes only its own record and its program counter.\<close>

lemma data_ok_proc:
  assumes "data_ok s" and "i < length (procs s)"
    and "proc_ok p" "tid p = i" "proc_knows pc p"
    and "procs s' = (procs s)[i := p]" "ppc s' = (ppc s)(i := pc)" "bpc s' = bpc s" "mpc s' = mpc s"
    and "bus_requests (the_bus s) \<noteq> [] \<longrightarrow> bus_requests (the_bus s') \<noteq> []"
  shows "data_ok s'"
proof -
  have "bus_knows (bpc s) (the_bus s')"
    using assms by - (rule bus_knows_more [of "bpc s" "the_bus s"], simp_all add: data_ok_def)
  moreover have "proc_ok (procs s' ! j) \<and> tid (procs s' ! j) = j \<and> proc_knows (ppc s' j) (procs s' ! j)"
    if "j < length (procs s)" for j
    using assms data_okD [OF assms(1) that] that by (cases "j = i") simp_all
  moreover have "\<forall>j \<ge> length (procs s). ppc s' j = PTest"
    using assms by (simp add: data_ok_def)
  ultimately show ?thesis
    using assms by (simp add: data_ok_def)
qed

lemma deliver_simps [simp]:
  "length (processors (deliver r i b)) = length (processors b)"
  "bus_requests (deliver r i b) = bus_requests b"
  by (simp_all add: deliver_def)

lemma deliver_nth:
  "j < length (processors b) \<Longrightarrow> processors (deliver r i b) ! j =
     (if j = i \<and> i \<noteq> bts_tid r
      then (processors b ! j)\<lparr>requests := requests (processors b ! j) @ [r]\<rparr> else processors b ! j)"
  by (auto simp: deliver_def nth_list_update)

lemma proc_ok_frame [simp]: "proc_ok (p\<lparr>requests := rs\<rparr>) = proc_ok p" "proc_ok (p\<lparr>traces := ts\<rparr>) = proc_ok p"
  by (simp_all add: proc_ok_def)

lemma data_ok_step: "step s s' \<Longrightarrow> data_ok s \<Longrightarrow> data_ok s'"
proof (induction rule: step.induct)
  case (main_lock s i t ms)
  then show ?case by (simp add: data_ok_def)
next
  case (main_add s i t ms)
  then have i: "i < length (procs s)" by (simp add: data_ok_def)
  have "bus_knows (bpc s) (the_bus (set_proc i (add_trace t (procs s ! i)) s))"
    using main_add by - (rule bus_knows_more [of "bpc s" "the_bus s"], simp_all add: data_ok_def)
  moreover have "proc_ok (add_trace t p) = proc_ok p" "tid (add_trace t p) = tid p" for p
    by (simp_all add: add_trace_def proc_ok_def)
  ultimately show ?case
    using main_add by (simp add: data_ok_def nth_list_update proc_knows_more)
next
  case (proc_test i s)
  then show ?case
    using data_okD by - (rule data_ok_proc [of s i "procs s ! i" PLockTrace], simp_all)
next
  case (proc_lock i s)
  then show ?case
    using data_okD [of s i] by - (rule data_ok_proc [of s i "procs s ! i" PTake], simp_all)
next
  case (proc_take i s q ts)
  then show ?case
    using data_okD [of s i]
    by - (rule data_ok_proc [of s i "(procs s ! i)\<lparr>traces := ts\<rparr>" "handler q"], simp_all)
next
  case (proc_lock_requests i s op a cnt)
  then show ?case
    using data_okD [of s i] by - (rule data_ok_proc [of s i "procs s ! i" "PPull op a cnt"], simp_all)
next
  case (proc_pull i s op a cnt p)
  then have "proc_ok p" "same_identity (procs s ! i) p"
    using pull_request_correct [of "procs s ! i"] data_okD [of s i] by auto
  with proc_pull show ?case
    using data_okD [of s i]
    by - (rule data_ok_proc [of s i p "PAccess op a cnt"], simp_all add: same_identity_def)
next
  case (proc_access i s op a cnt cline is_new p)
  then have "access_result a cnt (procs s ! i) cline is_new p"
    using access_correct [of "procs s ! i" op a cnt] data_okD [of s i] by auto
  with proc_access show ?case
    using data_okD [of s i] visible_cases [of "cache (procs s ! i)" "convert a"]
    by - (rule data_ok_proc [of s i p "PLockBus op cline is_new"], auto simp: access_result_def same_identity_def)
next
  case (proc_lock_bus i s op cline is_new)
  then show ?case
    using data_okD [of s i]
    by - (rule data_ok_proc [of s i "procs s ! i" "PPush op cline is_new"], simp_all)
next
  case (proc_push i s op cline is_new b)
  note d = data_okD [OF proc_push.prems proc_push.hyps(1)]
  from d proc_push.hyps obtain p' where
    b: "b = (the_bus s)\<lparr>processors := (procs s)[i := p'],
          bus_requests := bus_requests (the_bus s) @ pushed_requests cline i op\<rparr>"
    and p': "push_result cline i op is_new (the_bus s) p'"
    using Bus_push_correct [of i "the_bus s" op cline is_new] by auto
  with d proc_push show ?case
    by - (rule data_ok_proc [of s i p' PUnlockTrace], simp_all add: push_result_def same_identity_def Let_def)
next
  case (proc_unlock i s)
  then show ?case
    using data_okD [of s i] by - (rule data_ok_proc [of s i "procs s ! i" PTest], simp_all)
next
  case (bus_deliver s r i)
  then show ?case
    by (auto simp: data_ok_def deliver_nth intro: proc_knows_same)
qed (simp_all add: data_ok_def)

section \<open>Reachable states\<close>

lemma lookup_initial [simp]: "lookup (resize n LRUCache_default) k = None"
  by (simp add: lookup_def contents_def resize_def LRUCache_default_def)

lemma proc_ok_new: "n \<noteq> 0 \<Longrightarrow> proc_ok (Processor_new n i)"
  by (simp add: proc_ok_def tags_ok_def usable_cache_def Processor_new_def)
    (simp add: resize_def LRUCache_default_def)

lemma Bus_new_nth:
  assumes "Bus_new nthreads n = Inr b" and "i < length (processors b)"
  shows "processors b ! i = Processor_new n i"
  using assms by (auto simp: Bus_new_def split: if_splits)

lemma data_ok_initial:
  assumes "Bus_new nthreads n = Inr b" and "n \<noteq> 0" and "\<forall>(i, t) \<in> set ms. i < length (processors b)"
  shows "data_ok (initial b ms)"
proof -
  have "proc_ok (processors b ! i) \<and> tid (processors b ! i) = i" if "i < length (processors b)" for i
    unfolding Bus_new_nth [OF assms(1) that] using proc_ok_new [OF assms(2)]
    by (simp add: Processor_new_def)
  with assms(3) show ?thesis by (simp add: data_ok_def initial_def)
qed

lemma reachable_ok:
  assumes "reachable nthreads NCachelines ms s"
  shows "locks_ok s" "data_ok s"
  using assms
proof (induction rule: reachable.induct)
  case (start b)
  show "locks_ok (initial b ms)" by (rule locks_ok_initial)
  show "data_ok (initial b ms)" using start by (rule data_ok_initial)
next
  case (next_step s s')
  then show "locks_ok s'" "data_ok s'" by (simp_all add: locks_ok_step data_ok_step)
qed

lemma Bus_push_length:
  "Bus_push cline i op is_new b = Inr b' \<Longrightarrow> length (processors b') = length (processors b)"
  by (auto simp: Bus_push_def fault_simps Let_def split: prod.splits if_splits option.splits)

lemma step_length: "step s s' \<Longrightarrow> length (procs s') = length (procs s)"
  by (induction rule: step.induct) (simp_all add: Bus_push_length)

lemma reachable_length:
  "reachable nthreads NCachelines ms s \<Longrightarrow> length (procs s) = nat (sint nthreads)"
  by (induction rule: reachable.induct)
    (auto simp: initial_def Bus_new_def step_length split: if_splits)

lemmas reachable_simps = reachable_ok reachable_length

text \<open>Nothing left to do: all traces handed out and taken, and the bus's queue empty.\<close>

definition quiescent :: "Sys \<Rightarrow> bool" where
  "quiescent s \<longleftrightarrow>
     mpc s = MLock [] \<and> bpc s = BTest \<and> bus_requests (the_bus s) = [] \<and>
     (\<forall>i < length (procs s). ppc s i = PTest \<and> traces (procs s ! i) = [])"

section \<open>Two runs to try things on\<close>

definition demo_bus :: Bus where
  "demo_bus = \<lparr>processors = [Processor_new 2 0, Processor_new 2 1], bus_requests = []\<rparr>"

lemma demo_bus_new: "Bus_new 2 2 = Inr demo_bus"
  by (simp add: Bus_new_def demo_bus_def upt_rec)

definition access_trace :: "addr \<Rightarrow> char \<Rightarrow> int32 \<Rightarrow> Trace" where
  "access_trace a c n = \<lparr>trace_tag = a, trace_type = c, trace_cnt = n\<rparr>"

text \<open>
  One processor reads a line, the other writes another one, the first reads its line
  again: everybody has seen every request in the end.
\<close>

definition demo_traces :: "(nat \<times> Trace) list" where
  "demo_traces = [(1, access_trace 128 CHR ''R'' 1), (0, access_trace 64 CHR ''W'' 2),
     (1, access_trace 128 CHR ''R'' 3)]"

definition demo_schedule :: "thread list" where
  "demo_schedule = replicate 6 TMain @ replicate 9 (TProc 1) @ replicate 7 TBus @
     replicate 9 (TProc 0) @ replicate 7 TBus @ replicate 9 (TProc 1)"

text \<open>Both processors write the same line before the bus has delivered anything.\<close>

definition race_traces :: "(nat \<times> Trace) list" where
  "race_traces = [(0, access_trace 64 CHR ''W'' 1), (1, access_trace 64 CHR ''W'' 2)]"

definition race_schedule :: "thread list" where
  "race_schedule = replicate 4 TMain @ replicate 9 (TProc 0) @ replicate 9 (TProc 1)"

text \<open>And then the bus delivers both requests.\<close>

definition race_over :: "thread list" where
  "race_over = race_schedule @ replicate 14 TBus"

lemma demo_reachable:
  assumes "\<forall>(i, t) \<in> set ms. i < 2" and "run ts (initial demo_bus ms) = Some s"
  shows "reachable 2 2 ms s"
proof (rule run_reachable [OF _ assms(2)])
  show "reachable 2 2 ms (initial demo_bus ms)"
    using assms(1) by (intro reachable.start demo_bus_new) (simp_all add: demo_bus_def numeral_2_eq_2)
qed

end
