(* ===== verification/Coherence.thy ===== *)
theory Coherence
  imports Msi_System
begin

text \<open>
  Every step of the running program is matched by steps of the abstract snooping
  machine. The messages a processor has not seen are spread over its own queue, the
  request the bus is handing out, and the queue of the bus; the state of the line an
  access is about to push is the one the processor carries with it.
\<close>

section \<open>The abstraction\<close>

fun pushing :: "proc_pc \<Rightarrow> Cacheline option" where
  "pushing (PLockBus op cline is_new) = Some cline"
| "pushing (PPush op cline is_new) = Some cline"
| "pushing _ = None"

definition proc_lines :: "proc_pc \<Rightarrow> line_cache \<Rightarrow> addr \<Rightarrow> State" where
  "proc_lines pc c =
     (case pushing pc of
        None \<Rightarrow> visible c
      | Some cline \<Rightarrow> (visible c)(cline_tag cline :=
            if cline_tag cline = nullptr then I else cline_state cline))"

fun in_flight :: "bus_pc \<Rightarrow> nat \<Rightarrow> BusTransaction list" where
  "in_flight (BSend r i) q = (if i \<le> q \<and> q \<noteq> bts_tid r then [r] else [])"
| "in_flight (BDeliver r i) q = (if i \<le> q \<and> q \<noteq> bts_tid r then [r] else [])"
| "in_flight _ q = []"

definition pending :: "Sys \<Rightarrow> nat \<Rightarrow> BusTransaction list" where
  "pending s q =
     requests (procs s ! q) @ in_flight (bpc s) q @
     filter (\<lambda>r. bts_tid r \<noteq> q) (bus_requests (the_bus s))"

definition msg :: "BusTransaction \<Rightarrow> addr \<times> BusTsnType" where
  "msg r = (bts_tag r, bts_tsn r)"

definition abs :: "Sys \<Rightarrow> (State, BusTsnType) snap" where
  "abs s =
     \<lparr>lines = (\<lambda>q. if q < length (procs s) then proc_lines (ppc s q) (cache (procs s ! q)) else (\<lambda>_. I)),
      unseen = (\<lambda>q. if q < length (procs s) then map msg (pending s q) else [])\<rparr>"

abbreviation simulated :: "Sys \<Rightarrow> Sys \<Rightarrow> bool" where
  "simulated s s' \<equiv> asteps (length (procs s)) push_transition snoop I (abs s) (abs s')"

section \<open>Steps that are not seen\<close>

lemma abs_eqI:
  assumes "length (procs s') = length (procs s)"
    and "\<And>q. q < length (procs s) \<Longrightarrow>
          proc_lines (ppc s' q) (cache (procs s' ! q)) = proc_lines (ppc s q) (cache (procs s ! q))"
    and "\<And>q. q < length (procs s) \<Longrightarrow> pending s' q = pending s q"
  shows "abs s' = abs s"
  using assms by (simp add: abs_def fun_eq_iff)

lemma proc_lines_same: "pushing pc' = pushing pc \<Longrightarrow> proc_lines pc' c = proc_lines pc c"
  by (simp add: proc_lines_def)

lemma pushing_handler [simp]: "pushing (handler q) = None"
  by (simp add: handler_def)

lemma quiet_proc_step:
  assumes "i < length (procs s)" and "cache p = cache (procs s ! i)" and "requests p = requests (procs s ! i)"
    and "pushing pc = pushing (ppc s i)"
    and "procs s' = (procs s)[i := p]" "ppc s' = (ppc s)(i := pc)" "bpc s' = bpc s"
    and "bus_requests (the_bus s') = bus_requests (the_bus s)"
  shows "abs s' = abs s"
  using assms by (intro abs_eqI) (auto simp: nth_list_update pending_def intro: proc_lines_same)

lemma quiet_bus_step:
  assumes "procs s' = procs s" "ppc s' = ppc s"
    and "\<And>q. q < length (procs s) \<Longrightarrow>
          in_flight (bpc s') q @ filter (\<lambda>r. bts_tid r \<noteq> q) (bus_requests (the_bus s')) =
          in_flight (bpc s) q @ filter (\<lambda>r. bts_tid r \<noteq> q) (bus_requests (the_bus s))"
  shows "abs s' = abs s"
  using assms by (intro abs_eqI) (simp_all add: pending_def)

lemma deliver_abs:
  assumes "bpc s = BDeliver r i" and "i < length (procs s)" and "i \<noteq> bts_tid r"
  shows "abs (s\<lparr>bpc := BSend r (Suc i), the_bus := deliver r i (the_bus s), request_lock := l\<rparr>) = abs s"
  using assms by (intro abs_eqI) (auto simp: pending_def deliver_nth not_less_eq_eq Suc_le_eq)

section \<open>Steps that are\<close>

text \<open>Draining a queue is looking at its messages one by one.\<close>

definition drain :: "nat \<Rightarrow> BusTransaction list \<Rightarrow> (State, BusTsnType) snap \<Rightarrow> (State, BusTsnType) snap" where
  "drain p rs a = a\<lparr>lines := (lines a)(p := fold observe_line rs (lines a p)),
                    unseen := (unseen a)(p := drop (length rs) (unseen a p))\<rparr>"

lemma drain_steps:
  assumes "unseen a p = map msg rs @ ms"
  shows "asteps n push_transition snoop I a (drain p rs a)"
  using assms
proof (induction rs arbitrary: a)
  case Nil
  have "drain p [] a = a" by (simp add: drain_def)
  then show ?case by simp
next
  case (Cons r rs)
  let ?b = "(set_line p (bts_tag r) (fst (snoop (lines a p (bts_tag r)) (bts_tsn r))) a)
      \<lparr>unseen := (unseen a)(p := map msg rs @ ms)\<rparr>"
  have "astep n push_transition snoop I a ?b"
    using Cons.prems by (intro observe) (simp add: msg_def)
  moreover have "asteps n push_transition snoop I ?b (drain p rs ?b)"
    by (rule Cons.IH) simp
  moreover have "drain p rs ?b = drain p (r # rs) a"
    using Cons.prems by (simp add: drain_def set_line_def observe_line_def)
  ultimately show ?case by (metis converse_rtranclp_into_rtranclp)
qed

lemma forget_others:
  assumes "same_or_invalid f X g" and "lines a p = f" and "g X = f X"
    and "b = a\<lparr>lines := (lines a)(p := g)\<rparr>"
  shows "asteps n push_transition snoop I a b"
proof -
  have "\<forall>Y. g Y = lines a p Y \<or> g Y = I"
    using assms(1-3) by (auto simp: same_or_invalid_def)
  then show ?thesis
    unfolding assms(4) by (intro r_into_rtranclp forget)
qed

text \<open>The abstraction after a step of processor \<open>i\<close> alone.\<close>

lemma abs_proc:
  assumes "i < length (procs s)" and "procs s' = (procs s)[i := p]" "ppc s' = (ppc s)(i := pc)"
    and "bpc s' = bpc s" "bus_requests (the_bus s') = bus_requests (the_bus s)"
  shows "abs s' = (abs s)
     \<lparr>lines := (lines (abs s))(i := proc_lines pc (cache p)),
      unseen := (unseen (abs s))(i := map msg (requests p) @
        drop (length (requests (procs s ! i))) (unseen (abs s) i))\<rparr>"
  using assms by (auto simp: abs_def fun_eq_iff pending_def)

lemma pull_simulated:
  assumes i: "i < length (procs s)" and pc: "pushing (ppc s i) = None" "pushing pc = None"
    and p: "requests p = []"
      "visible (cache p) = fold observe_line (requests (procs s ! i)) (visible (cache (procs s ! i)))"
    and s': "procs s' = (procs s)[i := p]" "ppc s' = (ppc s)(i := pc)" "bpc s' = bpc s"
      "bus_requests (the_bus s') = bus_requests (the_bus s)"
  shows "simulated s s'"
proof -
  let ?rs = "requests (procs s ! i)"
  have here: "lines (abs s) i = visible (cache (procs s ! i))"
    "unseen (abs s) i = map msg ?rs @ map msg (in_flight (bpc s) i @
       filter (\<lambda>r. bts_tid r \<noteq> i) (bus_requests (the_bus s)))"
    using i pc by (simp_all add: abs_def proc_lines_def pending_def)
  have "abs s' = drain i ?rs (abs s)"
    unfolding abs_proc [OF i s'] using p pc here by (simp add: drain_def proc_lines_def)
  with drain_steps [OF here(2)] show ?thesis by simp
qed

lemma access_simulated:
  assumes i: "i < length (procs s)" and pc: "pushing (ppc s i) = None" "pushing pc = Some cline"
    and p: "access_result a cnt (procs s ! i) cline is_new p"
    and s': "procs s' = (procs s)[i := p]" "ppc s' = (ppc s)(i := pc)" "bpc s' = bpc s"
      "bus_requests (the_bus s') = bus_requests (the_bus s)"
  shows "simulated s s'"
proof -
  let ?X = "convert a" and ?c = "cache (procs s ! i)"
  have r: "cline_tag cline = ?X" "cline_state cline = line_state ?c ?X" "requests p = requests (procs s ! i)"
    "same_or_invalid (visible ?c) ?X (visible (cache p))"
    using p by (simp_all add: access_result_def)
  have here: "lines (abs s) i = visible ?c"
    "map msg (requests p) @ drop (length (requests (procs s ! i))) (unseen (abs s) i) = unseen (abs s) i"
    using i pc r(3) by (simp_all add: abs_def proc_lines_def pending_def)
  have at: "proc_lines pc (cache p) ?X = visible ?c ?X"
    using pc(2) r by (simp add: proc_lines_def visible_def)
  have "same_or_invalid (visible ?c) ?X (proc_lines pc (cache p))"
    using r pc(2) by (simp add: same_or_invalid_def proc_lines_def)
  from forget_others [OF this here(1) at refl] show ?thesis
    unfolding abs_proc [OF i s'] here(2) by simp
qed

lemma push_simulated:
  assumes i: "i < length (procs s)" and pc: "pushing (ppc s i) = Some cline" "pushing pc = None"
    and op: "op \<noteq> Flush" and tag: "aligned (cline_tag cline)"
    and p: "push_result cline i op is_new (the_bus s) p"
    and s': "procs s' = (procs s)[i := p]" "ppc s' = (ppc s)(i := pc)" "bpc s' = bpc s"
      "bus_requests (the_bus s') = bus_requests (the_bus s) @ pushed_requests cline i op"
  shows "simulated s s'"
proof -
  let ?X = "cline_tag cline" and ?n = "length (procs s)"
  obtain st resp t where tr: "push_transition (cline_state cline) op = (st, resp, t)"
    by (cases "push_transition (cline_state cline) op")
  with push_transition_response [OF op, of "cline_state cline"] have rt: "resp \<longleftrightarrow> t \<noteq> None"
    by auto
  have r: "requests p = requests (procs s ! i)"
    "lookup (cache p) ?X = Some (cline\<lparr>cline_state := st\<rparr>)"
    "same_or_invalid (visible (cache (procs s ! i))) ?X (visible (cache p))"
    using p tr by (simp_all add: push_result_def Let_def)
  define told where "told a = (case t of None \<Rightarrow> a | Some m \<Rightarrow> announce ?n i ?X m a)"
    for a :: "(State, BusTsnType) snap"
  define here where "here = (if ?X = nullptr then abs s else set_line i ?X st (abs s))"
  have before: "lines (abs s) i = (visible (cache (procs s ! i)))(?X := if ?X = nullptr then I else cline_state cline)"
    using i pc by (simp add: abs_def proc_lines_def)
  have "asteps ?n push_transition snoop I (abs s) (told here)"
  proof (cases "?X = nullptr")
    case True
    have "asteps ?n push_transition snoop I (abs s) (announce ?n i ?X m (abs s))" for m
      by (intro r_into_rtranclp notice)
    with True show ?thesis by (simp add: told_def here_def split: option.split)
  next
    case False
    with before tr have "push_transition (lines (abs s) i ?X) op = (st, resp, t)" by simp
    with False rt show ?thesis
      by (cases t) (auto simp: told_def here_def intro!: r_into_rtranclp intro: silent request)
  qed
  moreover have "asteps ?n push_transition snoop I (told here) (abs s')"
  proof (rule forget_others)
    show "lines (told here) i = (visible (cache (procs s ! i)))(?X := if ?X = nullptr then I else st)"
      using before by (simp add: told_def here_def announce_def set_line_def split: option.split)
    show "same_or_invalid ((visible (cache (procs s ! i)))(?X := if ?X = nullptr then I else st)) ?X (visible (cache p))"
      using r(3) by (simp add: same_or_invalid_def)
    show "visible (cache p) ?X = ((visible (cache (procs s ! i)))(?X := if ?X = nullptr then I else st)) ?X"
      using r(2) tag by (simp add: visible_def line_state_def)
    have new: "pushed_requests cline i op = (case t of None \<Rightarrow> [] | Some m \<Rightarrow> [request_of cline i m])"
      using tr rt by (simp add: pushed_requests_def split: option.split bool.split)
    show "abs s' = (told here)\<lparr>lines := (lines (told here))(i := visible (cache p))\<rparr>"
      using i pc r(1) s' new
      by (auto simp: abs_def told_def here_def announce_def set_line_def fun_eq_iff pending_def
          request_of_def msg_def proc_lines_def nth_list_update split: option.split)
  qed
  ultimately show ?thesis by (rule rtranclp_trans)
qed

section \<open>The simulation\<close>

lemma quiet_simulated: "abs s' = abs s \<Longrightarrow> simulated s s'"
  by simp

lemma step_simulated:
  assumes "step s s'" and d: "data_ok s"
  shows "simulated s s'"
  using assms(1)
proof (cases rule: step.cases)
  case (main_lock i t ms)
  then show ?thesis by (intro quiet_simulated abs_eqI) (simp_all add: pending_def)
next
  case (main_add i t ms)
  with d have "i < length (procs s)" by (simp add: data_ok_def)
  with main_add show ?thesis by (intro quiet_simulated quiet_proc_step [of i s "add_trace t (procs s ! i)" "ppc s i"]) (simp_all add: add_trace_def)
next
  case (proc_test i)
  then show ?thesis by (intro quiet_simulated quiet_proc_step [of i s "procs s ! i" PLockTrace]) simp_all
next
  case (proc_lock i)
  then show ?thesis by (intro quiet_simulated quiet_proc_step [of i s "procs s ! i" PTake]) simp_all
next
  case (proc_take i q ts)
  then show ?thesis by (intro quiet_simulated quiet_proc_step [of i s "(procs s ! i)\<lparr>traces := ts\<rparr>" "handler q"]) simp_all
next
  case (proc_lock_requests i op a cnt)
  then show ?thesis by (intro quiet_simulated quiet_proc_step [of i s "procs s ! i" "PPull op a cnt"]) simp_all
next
  case (proc_pull i op a cnt p)
  then have "requests p = []"
    "visible (cache p) = fold observe_line (requests (procs s ! i)) (visible (cache (procs s ! i)))"
    using pull_request_correct [of "procs s ! i"] data_okD [OF d] by auto
  with proc_pull show ?thesis by (intro pull_simulated [of i s "PAccess op a cnt" p]) simp_all
next
  case (proc_access i op a cnt cline is_new p)
  then have "access_result a cnt (procs s ! i) cline is_new p"
    using access_correct [of "procs s ! i" op a cnt] data_okD [OF d] by auto
  with proc_access show ?thesis
    by (intro access_simulated [of i s "PLockBus op cline is_new" cline a cnt is_new p]) simp_all
next
  case (proc_lock_bus i op cline is_new)
  then show ?thesis by (intro quiet_simulated quiet_proc_step [of i s "procs s ! i" "PPush op cline is_new"]) simp_all
next
  case (proc_push i op cline is_new b)
  note k = data_okD [OF d proc_push(2)]
  from k proc_push obtain p where
    "b = (the_bus s)\<lparr>processors := (procs s)[i := p],
        bus_requests := bus_requests (the_bus s) @ pushed_requests cline i op\<rparr>"
    and "push_result cline i op is_new (the_bus s) p"
    using Bus_push_correct [of i "the_bus s" op cline is_new] by auto
  with k proc_push show ?thesis
    by (intro push_simulated [of i s cline PUnlockTrace op is_new p]) simp_all
next
  case (proc_unlock i)
  then show ?thesis by (intro quiet_simulated quiet_proc_step [of i s "procs s ! i" PTest]) simp_all
next
  case (bus_deliver r i)
  with d show ?thesis by (intro quiet_simulated) (simp add: deliver_abs data_ok_def)
next
  case (bus_skip r i)
  then show ?thesis by (intro quiet_simulated quiet_bus_step) auto
next
  case bus_test
  then show ?thesis by (intro quiet_simulated quiet_bus_step) simp_all
next
  case bus_acquire
  then show ?thesis by (intro quiet_simulated quiet_bus_step) simp_all
next
  case (bus_take r rs)
  then show ?thesis by (intro quiet_simulated quiet_bus_step) auto
next
  case (bus_lock_requests r i)
  then show ?thesis by (intro quiet_simulated quiet_bus_step) simp_all
next
  case (bus_done r i)
  then show ?thesis by (intro quiet_simulated quiet_bus_step) simp_all
qed

section \<open>Coherence of the running program\<close>

lemma settled_step: "step s s' \<Longrightarrow> data_ok s \<Longrightarrow>
    msi.settled_later (length (procs s)) (abs s) \<Longrightarrow> msi.settled_later (length (procs s')) (abs s')"
  using msi.asteps_settled [OF step_simulated] by (simp add: step_length)

lemma abs_initial_lines:
  assumes "Bus_new nthreads n = Inr b"
  shows "lines (abs (initial b ms)) q X = I"
proof (cases "q < length (processors b)")
  case True
  then show ?thesis
    using Bus_new_nth [OF assms True]
    by (simp add: abs_def initial_def proc_lines_def visible_def line_state_def Processor_new_def)
next
  case False
  then show ?thesis by (simp add: abs_def initial_def)
qed

lemma reachable_settled:
  "reachable nthreads NCachelines ms s \<Longrightarrow> msi.settled_later (length (procs s)) (abs s)"
proof (induction rule: reachable.induct)
  case (start b)
  then show ?case by (intro msi.settled_initial abs_initial_lines)
next
  case (next_step s s')
  then show ?case using reachable_ok(2) settled_step by blast
qed

text \<open>What a cache shows is what the abstraction says, or nothing.\<close>

lemma visible_proc_lines:
  assumes "data_ok s" and "i < length (procs s)" and "visible (cache (procs s ! i)) X \<noteq> I"
  shows "lines (abs s) i X = visible (cache (procs s ! i)) X"
proof -
  have "visible (cache (procs s ! i)) nullptr = I" by (simp add: visible_def)
  then show ?thesis
    using data_okD(3) [OF assms(1,2)] assms(2,3)
    by (cases "ppc s i") (auto simp: abs_def proc_lines_def)
qed

lemma visible_line_state: "X \<noteq> nullptr \<Longrightarrow> aligned X \<Longrightarrow> visible c X = line_state c X"
  by (simp add: visible_def)

lemma msg_unseen:
  "i < length (procs s) \<Longrightarrow> (X, t) \<in> set (unseen (abs s) i) \<longleftrightarrow>
     (\<exists>r \<in> set (pending s i). bts_tag r = X \<and> bts_tsn r = t)"
  by (auto simp: abs_def msg_def)

lemma conflict_pending:
  assumes "reachable nthreads NCachelines ms s"
    and "i < length (procs s)" "j < length (procs s)" "i \<noteq> j" and "X \<noteq> nullptr" "aligned X"
    and "line_state (cache (procs s ! i)) X = M" and "line_state (cache (procs s ! j)) X \<noteq> I"
  shows "(\<exists>r \<in> set (pending s j). bts_tag r = X \<and> bts_tsn r = BusRdX) \<or>
     (\<exists>r \<in> set (pending s i). bts_tag r = X)"
proof -
  note d = reachable_ok(2) [OF assms(1)]
  have "lines (abs s) i X = M" "lines (abs s) j X \<noteq> I"
    using visible_proc_lines [OF d] visible_line_state [OF assms(5,6)] assms(2,3,7,8) by auto
  from msi.settled_laterD [OF reachable_settled [OF assms(1)] assms(2-4) this]
  show ?thesis using msg_unseen assms(2,3) by auto
qed

text \<open>After every processor has drained its queue at the end of a run.\<close>

lemma drain_pending:
  assumes "data_ok s" and "quiescent s" and i: "i < length (procs s)"
    and p: "pull_request (procs s ! i) = Inr p"
    and a: "lines a i = lines (abs s) i" "unseen a i = unseen (abs s) i"
  shows "lines (drain i (pending s i) a) i = visible (cache p)"
    and "unseen (drain i (pending s i) a) i = []"
    and "asteps n push_transition snoop I a (drain i (pending s i) a)"
proof -
  have pend: "pending s i = requests (procs s ! i)" and here: "lines (abs s) i = visible (cache (procs s ! i))"
    "unseen (abs s) i = map msg (pending s i)"
    using assms(2) i by (simp_all add: quiescent_def pending_def abs_def proc_lines_def)
  have "visible (cache p) = fold observe_line (requests (procs s ! i)) (visible (cache (procs s ! i)))"
    using pull_request_correct [OF data_okD(1) [OF assms(1) i]] p by auto
  then show "lines (drain i (pending s i) a) i = visible (cache p)"
    "unseen (drain i (pending s i) a) i = []"
    using a here pend by (simp_all add: drain_def)
  show "asteps n push_transition snoop I a (drain i (pending s i) a)"
    by (rule drain_steps [where ms = "[]"]) (simp add: a here)
qed

lemma drained_single_writer:
  assumes r: "reachable nthreads NCachelines ms s" and q: "quiescent s"
    and ij: "i < length (procs s)" "j < length (procs s)" "i \<noteq> j" and X: "X \<noteq> nullptr" "aligned X"
    and p: "pull_request (procs s ! i) = Inr p" "pull_request (procs s ! j) = Inr p'"
    and M: "line_state (cache p) X = M"
  shows "line_state (cache p') X = I"
proof -
  let ?n = "length (procs s)"
  define a where "a = drain i (pending s i) (abs s)"
  define b where "b = drain j (pending s j) a"
  note d = reachable_ok(2) [OF r]
  note A = drain_pending [OF d q ij(1) p(1) refl refl, folded a_def]
  have aj: "lines a j = lines (abs s) j" "unseen a j = unseen (abs s) j"
    using ij(3) by (simp_all add: a_def drain_def)
  note B = drain_pending [OF d q ij(2) p(2) aj, folded b_def]
  have bi: "lines b i = lines a i" "unseen b i = unseen a i"
    using ij(3) by (simp_all add: b_def drain_def)
  have "msi.settled_later ?n b"
    using msi.asteps_settled [OF B(3) msi.asteps_settled [OF A(3) reachable_settled [OF r]]] .
  from msi.settled_single_writer [OF this _ _ ij, of X] A B bi M X
  show ?thesis by (simp add: visible_def)
qed

text \<open>
  C1. Coherence under every interleaving of the threads: if two processors have no request
  pending (in their own queue, in the bus's hands or in the bus's queue) and one of them
  holds a line modified, the other holds it in no valid state. A line is an aligned address, looked up under
  that address; the stale copies that a write leaves under other addresses are outside the statement, and the line at
  address 0 is excluded, since the code cannot tell it from a missing one.
\<close>

theorem single_writer_when_drained:
  assumes "reachable nthreads NCachelines ms s"
    and "i < length (procs s)" "j < length (procs s)" "i \<noteq> j" and "X \<noteq> nullptr" "aligned X"
    and "pending s i = []" "pending s j = []"
    and "line_state (cache (procs s ! i)) X = M"
  shows "line_state (cache (procs s ! j)) X = I"
  using conflict_pending [OF assms(1-6,9)] assms(7,8) by auto

lemma demo_run:
  "\<exists>s. run demo_schedule (initial demo_bus demo_traces) = Some s \<and> length (procs s) = 2 \<and>
     pending s 0 = [] \<and> pending s 1 = [] \<and> line_state (cache (procs s ! 0)) 64 = M"
proof -
  have "case run demo_schedule (initial demo_bus demo_traces) of
      None \<Rightarrow> False
    | Some s \<Rightarrow> length (procs s) = 2 \<and> pending s 0 = [] \<and> pending s 1 = [] \<and>
        line_state (cache (procs s ! 0)) 64 = M"
    by code_simp
  then show ?thesis by (auto split: option.splits)
qed

lemma aligned_64: "aligned 64"
  by code_simp

theorem single_writer_when_drained_witness:
  "\<exists>s. reachable 2 2 demo_traces s \<and> line_state (cache (procs s ! 0)) 64 = M \<and>
     line_state (cache (procs s ! 1)) 64 = I"
proof -
  obtain s where s: "run demo_schedule (initial demo_bus demo_traces) = Some s" "length (procs s) = 2"
    "pending s 0 = []" "pending s 1 = []" "line_state (cache (procs s ! 0)) 64 = M"
    using demo_run by blast
  have r: "reachable 2 2 demo_traces s"
    using s(1) by (rule demo_reachable [rotated]) (simp add: demo_traces_def)
  show ?thesis
    using single_writer_when_drained [OF r, of 0 1 64] s r aligned_64 by auto
qed

text \<open>
  C2. The invariant behind it: whenever one processor holds a line modified that another
  holds modified or shared, a request that will settle it is still under way: a BusRdX
  for that line to the other processor, or some request for that line to the first (lines at aligned addresses, looked up under them).
\<close>

theorem conflict_has_pending_request:
  assumes "reachable nthreads NCachelines ms s"
    and "i < length (procs s)" "j < length (procs s)" "i \<noteq> j" and "X \<noteq> nullptr" "aligned X"
    and "line_state (cache (procs s ! i)) X = M" and "line_state (cache (procs s ! j)) X \<noteq> I"
  shows "(\<exists>r \<in> set (pending s j). bts_tag r = X \<and> bts_tsn r = BusRdX) \<or>
     (\<exists>r \<in> set (pending s i). bts_tag r = X)"
  using assms by (rule conflict_pending)

lemma race_run:
  "\<exists>s. run race_schedule (initial demo_bus race_traces) = Some s \<and> length (procs s) = 2 \<and>
     line_state (cache (procs s ! 0)) 64 = M \<and> line_state (cache (procs s ! 1)) 64 = M"
proof -
  have "case run race_schedule (initial demo_bus race_traces) of
      None \<Rightarrow> False
    | Some s \<Rightarrow> length (procs s) = 2 \<and> line_state (cache (procs s ! 0)) 64 = M \<and>
        line_state (cache (procs s ! 1)) 64 = M"
    by code_simp
  then show ?thesis by (auto split: option.splits)
qed

lemma race_reachable: "run ts (initial demo_bus race_traces) = Some s \<Longrightarrow> reachable 2 2 race_traces s"
  by (rule demo_reachable) (simp_all add: race_traces_def)

theorem conflict_has_pending_request_witness:
  "\<exists>s. reachable 2 2 race_traces s \<and>
     ((\<exists>r \<in> set (pending s 1). bts_tag r = 64 \<and> bts_tsn r = BusRdX) \<or>
      (\<exists>r \<in> set (pending s 0). bts_tag r = 64))"
proof -
  obtain s where s: "run race_schedule (initial demo_bus race_traces) = Some s" "length (procs s) = 2"
    "line_state (cache (procs s ! 0)) 64 = M" "line_state (cache (procs s ! 1)) 64 = M"
    using race_run by blast
  show ?thesis
    using conflict_has_pending_request [OF race_reachable [OF s(1)], of 0 1 64] s
      race_reachable [OF s(1)] aligned_64 by auto
qed

text \<open>
  Coherence is not immediate: two processors can hold the same line modified at the same
  time, before the bus has delivered the requests (the concern the README raises).
\<close>

theorem two_writers_reachable:
  "\<exists>s. reachable 2 2 race_traces s \<and> line_state (cache (procs s ! 0)) 64 = M \<and>
     line_state (cache (procs s ! 1)) 64 = M"
  using race_run race_reachable by blast

text \<open>
  C3. At the end of a run, with all traces consumed and the bus idle, once two processors
  have drained their queues of requests, at most one of them holds a line modified and
  then the other holds it in no valid state (lines at aligned addresses, looked up under them).
\<close>

theorem single_writer_at_end:
  assumes "reachable nthreads NCachelines ms s" and "quiescent s"
    and "i < length (procs s)" "j < length (procs s)" "i \<noteq> j" and "X \<noteq> nullptr" "aligned X"
    and "pull_request (procs s ! i) = Inr p" "pull_request (procs s ! j) = Inr p'"
    and "line_state (cache p) X = M"
  shows "line_state (cache p') X = I"
  using assms by (rule drained_single_writer)

lemma demo_end:
  "\<exists>s p p'. run demo_schedule (initial demo_bus demo_traces) = Some s \<and> length (procs s) = 2 \<and>
     quiescent s \<and> pull_request (procs s ! 0) = Inr p \<and> pull_request (procs s ! 1) = Inr p' \<and>
     line_state (cache p) 64 = M"
proof -
  have "case run demo_schedule (initial demo_bus demo_traces) of
      None \<Rightarrow> False
    | Some s \<Rightarrow> length (procs s) = 2 \<and> mpc s = MLock [] \<and> bpc s = BTest \<and> bus_requests (the_bus s) = [] \<and>
        ppc s 0 = PTest \<and> ppc s 1 = PTest \<and> traces (procs s ! 0) = [] \<and> traces (procs s ! 1) = [] \<and>
        (case (pull_request (procs s ! 0), pull_request (procs s ! 1)) of
           (Inr p, Inr p') \<Rightarrow> line_state (cache p) 64 = M
         | _ \<Rightarrow> False)"
    by code_simp
  then show ?thesis
    by (auto simp: quiescent_def less_2_cases_iff split: option.splits sum.splits)
qed

theorem single_writer_at_end_witness:
  "\<exists>s p p'. reachable 2 2 demo_traces s \<and> quiescent s \<and> pull_request (procs s ! 0) = Inr p \<and>
     pull_request (procs s ! 1) = Inr p' \<and> line_state (cache p) 64 = M \<and> line_state (cache p') 64 = I"
proof -
  obtain s p p' where s: "run demo_schedule (initial demo_bus demo_traces) = Some s" "length (procs s) = 2"
    "quiescent s" "pull_request (procs s ! 0) = Inr p" "pull_request (procs s ! 1) = Inr p'"
    "line_state (cache p) 64 = M"
    using demo_end by blast
  have r: "reachable 2 2 demo_traces s"
    using s(1) by (rule demo_reachable [rotated]) (simp add: demo_traces_def)
  have "line_state (cache p') 64 = I"
    by (rule single_writer_at_end [OF r s(3) _ _ _ _ aligned_64 s(4,5,6)]) (simp_all add: s(2))
  with r s show ?thesis by blast
qed

end
