(* ===== verification/Liveness.thy ===== *)
theory Liveness
  imports Coherence
begin

text \<open>
  The mutexes exclude what they should, no reachable state is a deadlock, no operation
  faults, and every run ends: the traces are finite and each causes a bounded number of
  steps of its processor and of the bus.
\<close>

section \<open>Progress\<close>

lemma proc_progress:
  assumes d: "data_ok s" and i: "i < length (procs s)"
  shows "(ppc s i = PTest \<and> traces (procs s ! i) = []) \<or>
    (ppc s i = PLockTrace \<and> trace_lock s i \<noteq> None) \<or>
    ((\<exists>op a cnt. ppc s i = PLockRequests op a cnt) \<and> request_lock s i \<noteq> None) \<or>
    ((\<exists>op cline is_new. ppc s i = PLockBus op cline is_new) \<and> bus_lock s \<noteq> None) \<or>
    (\<exists>s'. step s s')"
proof (cases "ppc s i")
  case PTest
  with i show ?thesis using step.proc_test by blast
next
  case PLockTrace
  with i show ?thesis using step.proc_lock by blast
next
  case PTake
  with data_okD(3) [OF d i] obtain q ts where "traces (procs s ! i) = q # ts"
    by (auto simp: neq_Nil_conv)
  with PTake i show ?thesis using step.proc_take by blast
next
  case (PLockRequests op a cnt)
  with i show ?thesis using step.proc_lock_requests by blast
next
  case (PPull op a cnt)
  obtain p where "pull_request (procs s ! i) = Inr p"
    using pull_request_correct [OF data_okD(1) [OF d i]] by blast
  with PPull i show ?thesis using step.proc_pull by blast
next
  case (PAccess op a cnt)
  obtain cline is_new p where "access op a cnt (procs s ! i) = Inr (cline, is_new, p)"
    using access_correct [OF data_okD(1) [OF d i]] by blast
  with PAccess i show ?thesis using step.proc_access by blast
next
  case (PLockBus op cline is_new)
  with i show ?thesis using step.proc_lock_bus by blast
next
  case (PPush op cline is_new)
  with data_okD [OF d i] obtain b where "Bus_push cline (tid (procs s ! i)) op is_new (the_bus s) = Inr b"
    using Bus_push_correct [OF i] by fastforce
  with PPush i show ?thesis using step.proc_push by blast
next
  case PUnlockTrace
  with i show ?thesis using step.proc_unlock by blast
qed

lemma in_pull_steps: "data_ok s \<Longrightarrow> in_pull (ppc s i) \<Longrightarrow> \<exists>s'. step s s'"
  using proc_progress [of s i]
  by (cases "i < length (procs s)"; cases "ppc s i") (auto simp: data_ok_def)

lemma in_push_steps: "data_ok s \<Longrightarrow> in_push (ppc s i) \<Longrightarrow> \<exists>s'. step s s'"
  using proc_progress [of s i]
  by (cases "i < length (procs s)"; cases "ppc s i") (auto simp: data_ok_def)

lemma delivers_steps: "delivers (bpc s) i \<Longrightarrow> \<exists>s'. step s s'"
  using step.bus_deliver by (cases "bpc s") auto

lemma main_in_steps: "main_in (mpc s) i \<Longrightarrow> \<exists>s'. step s s'"
proof (cases "(mpc s, i)" rule: main_in.cases)
  case (1 i' t ms j)
  then show ?thesis using step.main_add [of s i' t ms] by auto
qed auto

text \<open>Whoever holds a request lock can move, so nobody waits for one in vain.\<close>

lemma request_lock_steps:
  assumes "locks_ok s" and "data_ok s" and "request_lock s i \<noteq> None"
  shows "\<exists>s'. step s s'"
proof -
  have "locks_at s i" using assms(1) by (simp add: locks_ok_def)
  then have "in_pull (ppc s i) \<or> delivers (bpc s) i"
    using assms(3) by (auto simp: locks_at_def)
  then show ?thesis using in_pull_steps [OF assms(2)] delivers_steps by blast
qed

lemma bus_progress:
  assumes "locks_ok s" and d: "data_ok s"
  shows "(bpc s = BTest \<and> bus_requests (the_bus s) = []) \<or> (bpc s = BLock \<and> bus_lock s \<noteq> None) \<or>
    (\<exists>s'. step s s')"
proof (cases "bpc s")
  case BTest
  then show ?thesis using step.bus_test by blast
next
  case BLock
  then show ?thesis using step.bus_acquire by blast
next
  case BTake
  with d obtain r rs where "bus_requests (the_bus s) = r # rs"
    by (auto simp: data_ok_def neq_Nil_conv)
  with BTake show ?thesis using step.bus_take by blast
next
  case (BSend r i)
  with d have "i \<le> length (procs s)" by (simp add: data_ok_def)
  with BSend show ?thesis
    using step.bus_skip step.bus_lock_requests step.bus_done request_lock_steps [OF assms]
    by (metis le_neq_implies_less)
next
  case (BDeliver r i)
  then show ?thesis using step.bus_deliver by blast
qed

lemma bus_lock_steps:
  assumes "locks_ok s" and "data_ok s" and "bus_lock s \<noteq> None"
  shows "\<exists>s'. step s s'"
proof (cases "the (bus_lock s)")
  case TMain
  with assms show ?thesis by (auto simp: locks_ok_def)
next
  case TBus
  with assms have "holds_bus (bpc s)" by (auto simp: locks_ok_def)
  then show ?thesis using bus_progress [OF assms(1,2)] by auto
next
  case (TProc i)
  have "locks_at s i" using assms(1) by (simp add: locks_ok_def)
  with TProc assms have "in_push (ppc s i)" by (auto simp: locks_at_def)
  then show ?thesis by (rule in_push_steps [OF assms(2)])
qed

lemma trace_lock_steps:
  assumes "locks_ok s" and d: "data_ok s" and "trace_lock s i \<noteq> None"
  shows "\<exists>s'. step s s'"
proof -
  have "locks_at s i" using assms(1) by (simp add: locks_ok_def)
  with assms(3) consider "main_in (mpc s) i" | "holds_trace (ppc s i)"
    by (auto simp: locks_at_def)
  then show ?thesis
  proof cases
    case 1
    then show ?thesis by (rule main_in_steps)
  next
    case 2
    with d have "i < length (procs s)" by (intro not_le_imp_less notI) (auto simp: data_ok_def)
    with 2 proc_progress [OF d this] request_lock_steps [OF assms(1,2)] bus_lock_steps [OF assms(1,2)]
    show ?thesis by auto
  qed
qed

lemma not_stuck:
  assumes l: "locks_ok s" and d: "data_ok s" and "\<not> quiescent s"
  shows "\<exists>s'. step s s'"
proof (rule ccontr)
  assume none: "\<nexists>s'. step s s'"
  have free: "trace_lock s i = None" "request_lock s i = None" "bus_lock s = None" for i
    using none trace_lock_steps [OF l d] request_lock_steps [OF l d] bus_lock_steps [OF l d] by blast+
  have "ppc s i = PTest \<and> traces (procs s ! i) = []" if "i < length (procs s)" for i
    using proc_progress [OF d that] none free(1,2) [of i] free(3) by auto
  moreover have "bpc s = BTest \<and> bus_requests (the_bus s) = []"
    using bus_progress [OF l d] none free(3) by auto
  moreover have "mpc s = MLock []"
  proof (cases "mpc s")
    case (MLock ms)
    then show ?thesis using step.main_lock [of s "fst (hd ms)" "snd (hd ms)" "tl ms"] none free(1)
      by (cases ms) auto
  next
    case (MAdd ms)
    with d obtain i t ms' where "mpc s = MAdd ((i, t) # ms')"
      by (cases ms) (auto simp: data_ok_def)
    then show ?thesis using none step.main_add by blast
  qed
  ultimately show False using assms(3) by (simp add: quiescent_def)
qed


section \<open>Every run ends\<close>

text \<open>
  What is left to do, in steps: for each thread the way to the end of its loop body, for each
  queued trace or request one whole body. A request costs two steps per processor and the
  steps around them; a trace at most one request and nine steps of its processor.
\<close>

definition request_cost :: "nat \<Rightarrow> nat" where
  "request_cost n = 2 * n + 4"

definition trace_cost :: "nat \<Rightarrow> nat" where
  "trace_cost n = request_cost n + 9"

fun proc_left :: "nat \<Rightarrow> proc_pc \<Rightarrow> nat" where
  "proc_left n PTest = 3"
| "proc_left n PLockTrace = 2"
| "proc_left n PTake = 1"
| "proc_left n (PLockRequests op a cnt) = request_cost n + 9"
| "proc_left n (PPull op a cnt) = request_cost n + 8"
| "proc_left n (PAccess op a cnt) = request_cost n + 7"
| "proc_left n (PLockBus op cline is_new) = request_cost n + 6"
| "proc_left n (PPush op cline is_new) = request_cost n + 5"
| "proc_left n PUnlockTrace = 4"

fun bus_left :: "nat \<Rightarrow> bus_pc \<Rightarrow> nat" where
  "bus_left n BTest = 3"
| "bus_left n BLock = 2"
| "bus_left n BTake = 1"
| "bus_left n (BSend r i) = 2 * (n - i) + 4"
| "bus_left n (BDeliver r i) = 2 * (n - i) + 3"

fun main_left :: "nat \<Rightarrow> main_pc \<Rightarrow> nat" where
  "main_left n (MLock ms) = (trace_cost n + 2) * length ms"
| "main_left n (MAdd ms) = (trace_cost n + 2) * length ms - 1"

definition work_at :: "Sys \<Rightarrow> nat \<Rightarrow> nat" where
  "work_at s i = trace_cost (length (procs s)) * length (traces (procs s ! i)) +
     proc_left (length (procs s)) (ppc s i)"

definition work :: "Sys \<Rightarrow> nat" where
  "work s =
     (let n = length (procs s) in
      main_left n (mpc s) + (\<Sum>i < n. work_at s i) +
      request_cost n * length (bus_requests (the_bus s)) + bus_left n (bpc s))"

lemma sum_change_one:
  fixes f g :: "nat \<Rightarrow> nat"
  assumes "i < n" and "\<And>j. j < n \<Longrightarrow> j \<noteq> i \<Longrightarrow> g j = f j"
  shows "(\<Sum>j < n. g j) + f i = (\<Sum>j < n. f j) + g i"
proof -
  have "(\<Sum>j \<in> {..<n} - {i}. g j) = (\<Sum>j \<in> {..<n} - {i}. f j)"
    by (rule sum.cong) (simp_all add: assms(2))
  then show ?thesis
    using assms(1) sum.remove [of "{..<n}" i f] sum.remove [of "{..<n}" i g] by simp
qed

text \<open>A step of processor \<open>i\<close> that leaves the others alone and pushes \<open>k\<close> requests.\<close>

lemma work_proc:
  assumes "i < length (procs s)" and "procs s' = (procs s)[i := p]" and "ppc s' = (ppc s)(i := pc)"
    and "bpc s' = bpc s" "mpc s' = mpc s"
    and "length (bus_requests (the_bus s')) = length (bus_requests (the_bus s)) + k"
    and "trace_cost (length (procs s)) * length (traces p) + proc_left (length (procs s)) pc +
           request_cost (length (procs s)) * k < work_at s i"
  shows "work s' < work s"
proof -
  have at: "work_at s' i = trace_cost (length (procs s)) * length (traces p) + proc_left (length (procs s)) pc"
    using assms(1-3) by (simp add: work_at_def)
  have "(\<Sum>j < length (procs s). work_at s' j) + work_at s i =
      (\<Sum>j < length (procs s). work_at s j) + work_at s' i"
    using assms(1-3) by (intro sum_change_one) (simp_all add: work_at_def)
  then show ?thesis
    using assms(2,4-7) by (simp add: work_def Let_def at algebra_simps)
qed

lemma work_main_add:
  assumes "i < length (procs s)" and "mpc s = MAdd ((i, t) # ms)"
    and "procs s' = (procs s)[i := add_trace t (procs s ! i)]" and "ppc s' = ppc s"
    and "bpc s' = bpc s" "mpc s' = MLock ms" "bus_requests (the_bus s') = bus_requests (the_bus s)"
  shows "work s' < work s"
proof -
  have "(\<Sum>j < length (procs s). work_at s' j) + work_at s i =
      (\<Sum>j < length (procs s). work_at s j) + work_at s' i"
    using assms by (intro sum_change_one) (simp_all add: work_at_def)
  moreover have "work_at s' i = work_at s i + trace_cost (length (procs s))"
    using assms by (simp add: work_at_def add_trace_def)
  ultimately show ?thesis
    using assms(2-7) by (simp add: work_def Let_def)
qed

lemma work_at_same:
  "length (procs s') = length (procs s) \<Longrightarrow> traces (procs s' ! i) = traces (procs s ! i) \<Longrightarrow>
     ppc s' i = ppc s i \<Longrightarrow> work_at s' i = work_at s i"
  by (simp add: work_at_def)

lemma work_bus:
  assumes "length (procs s') = length (procs s)"
    and "\<And>i. i < length (procs s) \<Longrightarrow> traces (procs s' ! i) = traces (procs s ! i)"
    and "ppc s' = ppc s" "mpc s' = mpc s"
    and "request_cost (length (procs s)) * length (bus_requests (the_bus s')) + bus_left (length (procs s)) (bpc s') <
         request_cost (length (procs s)) * length (bus_requests (the_bus s)) + bus_left (length (procs s)) (bpc s)"
  shows "work s' < work s"
proof -
  have "(\<Sum>i < length (procs s). work_at s' i) = (\<Sum>i < length (procs s). work_at s i)"
    using assms(1-3) by (intro sum.cong work_at_same) simp_all
  with assms show ?thesis by (simp add: work_def Let_def)
qed

lemma pushed_requests_length: "length (pushed_requests cline i op) \<le> 1"
  by (auto simp: pushed_requests_def split: prod.splits bool.splits option.splits)

lemma step_work: "step s s' \<Longrightarrow> data_ok s \<Longrightarrow> work s' < work s"
proof (induction rule: step.induct)
  case (main_lock s i t ms)
  then show ?case by (simp add: work_def Let_def work_at_def)
next
  case (main_add s i t ms)
  then show ?case by - (rule work_main_add [of i s t ms], simp_all add: data_ok_def)
next
  case (proc_test i s)
  then show ?case by - (rule work_proc [of i s _ "procs s ! i" PLockTrace 0], simp_all add: work_at_def)
next
  case (proc_lock i s)
  then show ?case by - (rule work_proc [of i s _ "procs s ! i" PTake 0], simp_all add: work_at_def)
next
  case (proc_take i s q ts)
  then show ?case
    by - (rule work_proc [of i s _ "(procs s ! i)\<lparr>traces := ts\<rparr>" "handler q" 0],
        simp_all add: work_at_def handler_def trace_cost_def)
next
  case (proc_lock_requests i s op a cnt)
  then show ?case by - (rule work_proc [of i s _ "procs s ! i" "PPull op a cnt" 0], simp_all add: work_at_def)
next
  case (proc_pull i s op a cnt p)
  then have "traces p = traces (procs s ! i)"
    using pull_request_correct [OF data_okD(1)] by (fastforce simp: same_identity_def)
  with proc_pull show ?case
    by - (rule work_proc [of i s _ p "PAccess op a cnt" 0], simp_all add: work_at_def)
next
  case (proc_access i s op a cnt cline is_new p)
  then have "traces p = traces (procs s ! i)"
    using access_correct [OF data_okD(1), of s i op a cnt] by (fastforce simp: access_result_def same_identity_def)
  with proc_access show ?case
    by - (rule work_proc [of i s _ p "PLockBus op cline is_new" 0], simp_all add: work_at_def)
next
  case (proc_lock_bus i s op cline is_new)
  then show ?case
    by - (rule work_proc [of i s _ "procs s ! i" "PPush op cline is_new" 0], simp_all add: work_at_def)
next
  case (proc_push i s op cline is_new b)
  note d = data_okD [OF proc_push.prems proc_push.hyps(1)]
  from d proc_push.hyps obtain p' where
    b: "b = (the_bus s)\<lparr>processors := (procs s)[i := p'],
          bus_requests := bus_requests (the_bus s) @ pushed_requests cline i op\<rparr>"
    and p': "push_result cline i op is_new (the_bus s) p'"
    using Bus_push_correct [of i "the_bus s" op cline is_new] by auto
  have cost: "request_cost n * length (pushed_requests cline i op) < Suc (request_cost n)" for n
    using pushed_requests_length [of cline i op] by (simp add: less_Suc_eq_le)
  with b p' proc_push show ?case
    by - (rule work_proc [of i s _ p' PUnlockTrace "length (pushed_requests cline i op)"],
        simp_all add: cost work_at_def push_result_def same_identity_def Let_def)
next
  case (proc_unlock i s)
  then show ?case by - (rule work_proc [of i s _ "procs s ! i" PTest 0], simp_all add: work_at_def)
next
  case (bus_deliver s r i)
  then show ?case
    by - (rule work_bus, auto simp: deliver_nth data_ok_def)
next
  case (bus_take s r rs)
  then show ?case by - (rule work_bus, simp_all add: request_cost_def)
next
  case (bus_skip s r i)
  then show ?case by - (rule work_bus, simp_all)
qed (rule work_bus, simp_all add: data_ok_def)+


inductive steps :: "nat \<Rightarrow> Sys \<Rightarrow> Sys \<Rightarrow> bool" where
  none: "steps 0 s s"
| more: "step s s' \<Longrightarrow> steps k s' s'' \<Longrightarrow> steps (Suc k) s s''"

lemma steps_data_ok: "steps k s s' \<Longrightarrow> data_ok s \<Longrightarrow> data_ok s'"
  by (induction rule: steps.induct) (auto intro: data_ok_step)

lemma steps_locks_ok: "steps k s s' \<Longrightarrow> locks_ok s \<Longrightarrow> locks_ok s'"
  by (induction rule: steps.induct) (auto intro: locks_ok_step)

lemma steps_work: "steps k s s' \<Longrightarrow> data_ok s \<Longrightarrow> work s' + k \<le> work s"
proof (induction rule: steps.induct)
  case (more s s' k s'')
  then show ?case using step_work [of s s'] data_ok_step [of s s'] by simp
qed simp

lemma steps_reachable:
  "steps k s s' \<Longrightarrow> reachable nthreads NCachelines ms s \<Longrightarrow> reachable nthreads NCachelines ms s'"
  by (induction rule: steps.induct) (auto intro: reachable.next_step)

lemma run_steps: "run ts s = Some s' \<Longrightarrow> steps (length ts) s s'"
  by (induction ts arbitrary: s)
    (auto split: option.splits intro: steps.intros dest: thread_step_step)

text \<open>From any good state some continuation is quiescent.\<close>

lemma reaches_quiescence:
  "locks_ok s \<Longrightarrow> data_ok s \<Longrightarrow> \<exists>k s'. steps k s s' \<and> quiescent s'"
proof (induction "work s" arbitrary: s rule: less_induct)
  case less
  show ?case
  proof (cases "quiescent s")
    case False
    then obtain s1 where s1: "step s s1" using not_stuck [OF less.prems] by blast
    then obtain k s' where "steps k s1 s'" "quiescent s'"
      using less.hyps [OF step_work] less.prems locks_ok_step data_ok_step by blast
    with s1 show ?thesis using steps.more by blast
  qed (use steps.none in blast)
qed

lemma steps_along: "\<forall>k. step (f k) (f (Suc k)) \<Longrightarrow> steps k (f m) (f (m + k))"
proof (induction k arbitrary: m)
  case (Suc k)
  have "steps k (f (Suc m)) (f (m + Suc k))" using Suc.IH [OF Suc.prems, of "Suc m"] by simp
  with Suc.prems show ?case using steps.more by blast
qed (simp add: steps.none)

lemma no_infinite_run:
  assumes "data_ok s"
  shows "\<nexists>f. f 0 = s \<and> (\<forall>k. step (f k) (f (Suc k)))"
proof
  assume "\<exists>f. f 0 = s \<and> (\<forall>k. step (f k) (f (Suc k)))"
  then obtain f where f: "f 0 = s" "\<forall>k. step (f k) (f (Suc k))" by blast
  have "steps (Suc (work s)) s (f (Suc (work s)))" using steps_along [OF f(2), of _ 0] f(1) by simp
  from steps_work [OF this assms] show False by simp
qed

lemma quiescent_no_step: "quiescent s \<Longrightarrow> \<not> step s s'"
proof
  assume "quiescent s" and "step s s'"
  then show False
    by (cases rule: step.cases [OF \<open>step s s'\<close>]) (auto simp: quiescent_def)
qed

lemma work_initial:
  "work (initial b ms) = (trace_cost (length (processors b)) + 2) * length ms +
     (\<Sum>i < length (processors b). trace_cost (length (processors b)) * length (traces (processors b ! i)) + 3) + 3 +
     request_cost (length (processors b)) * length (bus_requests b)"
  by (simp add: work_def work_at_def initial_def Let_def)


section \<open>Properties\<close>

text \<open>
  C8. The mutexes do their work in every interleaving: at most one processor is in
  \<^verbatim>\<open>Bus::push\<close>, none is there while the bus delivers a request, the bus never appends to the
  queue a processor is draining, and \<^verbatim>\<open>main\<close> never appends to the traces of a processor that is
  handling one.
\<close>

theorem critical_sections_exclude:
  assumes "reachable nthreads NCachelines ms s"
  shows "\<not> (in_push (ppc s i) \<and> in_push (ppc s j) \<and> i \<noteq> j) \<and>
    \<not> (in_push (ppc s i) \<and> holds_bus (bpc s)) \<and>
    \<not> (in_pull (ppc s i) \<and> delivers (bpc s) i) \<and>
    \<not> (holds_trace (ppc s i) \<and> main_in (mpc s) i)"
proof -
  have "locks_at s i" "locks_at s j" "holds_bus (bpc s) \<longleftrightarrow> bus_lock s = Some TBus"
    using reachable_ok(1) [OF assms] by (simp_all add: locks_ok_def)
  then show ?thesis by (auto simp: locks_at_def)
qed

lemma in_push_run:
  "\<exists>s. run (replicate 4 TMain @ replicate 7 (TProc 0)) (initial demo_bus race_traces) = Some s \<and>
     in_push (ppc s 0)"
proof -
  have "case run (replicate 4 TMain @ replicate 7 (TProc 0)) (initial demo_bus race_traces) of
      None \<Rightarrow> False | Some s \<Rightarrow> in_push (ppc s 0)"
    by code_simp
  then show ?thesis by (auto split: option.splits)
qed

theorem critical_sections_exclude_witness:
  "\<exists>s. reachable 2 2 race_traces s \<and> in_push (ppc s 0) \<and> \<not> in_push (ppc s 1) \<and> \<not> holds_bus (bpc s)"
proof -
  obtain s where s: "reachable 2 2 race_traces s" "in_push (ppc s 0)"
    using in_push_run race_reachable by blast
  then show ?thesis using critical_sections_exclude [OF s(1), of 0 1] by auto
qed

text \<open>
  C9. Every reachable state is well typed: there are as many processors as threads, each with its
  number and a well-formed cache whose entry under any key carries the tag of the line the key lies in
  (the key itself need not be that tag: a write stores its line under the address it was given as well),
  every mutex is held by exactly the thread whose program counter is inside its critical section, and at each
  program point a thread has the values (a nonempty queue, a line with its tag) that the next step uses.
\<close>

theorem reachable_states_typed:
  assumes "reachable nthreads NCachelines ms s"
  shows "length (procs s) = nat (sint nthreads) \<and> locks_ok s \<and> bus_knows (bpc s) (the_bus s) \<and>
    (\<forall>i < length (procs s). proc_ok (procs s ! i) \<and> tid (procs s ! i) = i \<and> proc_knows (ppc s i) (procs s ! i))"
  using reachable_ok [OF assms] reachable_length [OF assms] by (simp add: data_ok_def)

theorem reachable_states_typed_witness:
  "\<exists>s. reachable 2 2 race_traces s \<and> in_push (ppc s 0) \<and> proc_knows (ppc s 0) (procs s ! 0)"
proof -
  obtain s where s: "reachable 2 2 race_traces s" "in_push (ppc s 0)"
    using in_push_run race_reachable by blast
  then show ?thesis using reachable_states_typed [OF s(1)] by auto
qed



text \<open>
  C4. There is no deadlock and no lost work: as long as something is left to do (a trace not
  handed out or not handled, a request not broadcast), some thread can move; and a state in
  which nothing is left cannot change any more.
\<close>

theorem moves_until_quiescent:
  assumes "reachable nthreads NCachelines ms s"
  shows "(\<exists>s'. step s s') \<longleftrightarrow> \<not> quiescent s"
  using not_stuck reachable_ok [OF assms] quiescent_no_step by blast

theorem moves_until_quiescent_witness:
  "\<exists>s. reachable 2 2 race_traces s \<and> in_push (ppc s 0) \<and> (\<exists>s'. step s s')"
proof -
  obtain s where s: "reachable 2 2 race_traces s" "in_push (ppc s 0)"
    using in_push_run race_reachable by blast
  moreover have "\<not> quiescent s"
    using s reachable_length [OF s(1)] by (auto simp: quiescent_def intro!: exI [of _ 0])
  ultimately show ?thesis using moves_until_quiescent [OF s(1)] by blast
qed

text \<open>
  C5. Every run is finite, however the threads interleave: with \<open>n\<close> processors and \<open>m\<close> traces
  it has at most \<open>(2 n + 15) m + 3 n + 3\<close> steps.
\<close>

theorem run_length_bounded:
  assumes "Bus_new nthreads NCachelines = Inr b" and "NCachelines \<noteq> 0"
    and "\<forall>(i, t) \<in> set ms. i < length (processors b)" and "steps k (initial b ms) s"
  shows "k \<le> (2 * nat (sint nthreads) + 15) * length ms + 3 * nat (sint nthreads) + 3"
proof -
  have "data_ok (initial b ms)" by (rule data_ok_initial) (use assms in auto)
  moreover have "length (processors b) = nat (sint nthreads)" "bus_requests b = []"
    using assms(1) by (auto simp: Bus_new_def split: if_splits)
  moreover have "traces (processors b ! i) = []" if "i < length (processors b)" for i
    using Bus_new_nth [OF assms(1) that] by (simp add: Processor_new_def)
  ultimately show ?thesis
    using steps_work [OF assms(4)] by (simp add: work_initial trace_cost_def request_cost_def algebra_simps)
qed

theorem run_length_bounded_witness: "\<exists>s. steps 47 (initial demo_bus demo_traces) s \<and> (47::nat) \<le> 66"
proof -
  obtain s where "run demo_schedule (initial demo_bus demo_traces) = Some s" using demo_end by blast
  then have "steps (length demo_schedule) (initial demo_bus demo_traces) s" by (rule run_steps)
  then have s: "steps 47 (initial demo_bus demo_traces) s" by (simp add: demo_schedule_def)
  have "\<forall>(i, t) \<in> set demo_traces. i < length (processors demo_bus)"
    by (simp add: demo_traces_def demo_bus_def)
  from run_length_bounded [OF demo_bus_new _ this s] s show ?thesis
    by (auto simp: demo_traces_def)
qed

text \<open>
  C6. From every reachable state a state in which all traces are handled and all requests
  broadcast can be reached, and no interleaving goes on for ever without reaching one.
\<close>

theorem always_finishes:
  assumes "reachable nthreads NCachelines ms s"
  shows "(\<exists>k s'. steps k s s' \<and> quiescent s') \<and> (\<nexists>f. f 0 = s \<and> (\<forall>k. step (f k) (f (Suc k))))"
  using reaches_quiescence no_infinite_run reachable_ok [OF assms] by blast

theorem always_finishes_witness:
  "reachable 2 2 race_traces (initial demo_bus race_traces) \<and>
   (\<exists>k s'. steps k (initial demo_bus race_traces) s' \<and> quiescent s')"
proof -
  have r: "reachable 2 2 race_traces (initial demo_bus race_traces)"
    by (rule race_reachable [of "[]"]) simp
  with always_finishes [OF r] show ?thesis by blast
qed

end
