(* ===== verification/Msi_Local.thy ===== *)
theory Msi_Local
  imports Liveness
begin

text \<open>
  Invariants of a single processor. An access is handled in two critical sections, so such
  an invariant comes in two parts: what holds of a processor between accesses, and what
  holds while it has changed its cache and not yet told the bus. The locale says what the
  three operations owe the invariant and gives that it holds in every reachable state; it
  is interpreted twice, on the counters of the cache and on runs that only read.
\<close>

section \<open>Lifting an invariant of a processor to the system\<close>

fun proc_inv :: "(Processor \<Rightarrow> bool) \<Rightarrow> (Cacheline \<Rightarrow> bool \<Rightarrow> Processor \<Rightarrow> bool) \<Rightarrow>
    (PrTsnType \<Rightarrow> bool) \<Rightarrow> proc_pc \<Rightarrow> Processor \<Rightarrow> bool" where
  "proc_inv betw mid good_op (PLockRequests op a cnt) p = (good_op op \<and> betw p)"
| "proc_inv betw mid good_op (PPull op a cnt) p = (good_op op \<and> betw p)"
| "proc_inv betw mid good_op (PAccess op a cnt) p = (good_op op \<and> betw p)"
| "proc_inv betw mid good_op (PLockBus op cline is_new) p = (good_op op \<and> mid cline is_new p)"
| "proc_inv betw mid good_op (PPush op cline is_new) p = (good_op op \<and> mid cline is_new p)"
| "proc_inv betw mid good_op _ p = betw p"

definition trace_good :: "(PrTsnType \<Rightarrow> bool) \<Rightarrow> Trace \<Rightarrow> bool" where
  "trace_good good_op q \<longleftrightarrow>
     (trace_type q = CHR ''R'' \<longrightarrow> good_op PrRd) \<and> (trace_type q = CHR ''W'' \<longrightarrow> good_op PrWr)"

fun bus_sends :: "bus_pc \<Rightarrow> BusTransaction list" where
  "bus_sends (BSend r i) = [r]"
| "bus_sends (BDeliver r i) = [r]"
| "bus_sends _ = []"

fun main_traces :: "main_pc \<Rightarrow> Trace list" where
  "main_traces (MLock ms) = map snd ms"
| "main_traces (MAdd ms) = map snd ms"

definition queues_good :: "(BusTransaction \<Rightarrow> bool) \<Rightarrow> (PrTsnType \<Rightarrow> bool) \<Rightarrow> Processor \<Rightarrow> bool" where
  "queues_good good_req good_op p \<longleftrightarrow>
     (\<forall>r \<in> set (requests p). good_req r) \<and> (\<forall>q \<in> set (traces p). trace_good good_op q)"

locale local_invariant =
  fixes betw :: "Processor \<Rightarrow> bool"
    and mid :: "Cacheline \<Rightarrow> bool \<Rightarrow> Processor \<Rightarrow> bool"
    and good_req :: "BusTransaction \<Rightarrow> bool"
    and good_op :: "PrTsnType \<Rightarrow> bool"
  assumes inv_frame: "betw p \<Longrightarrow> cache p' = cache p \<Longrightarrow> stat p' = stat p \<Longrightarrow> betw p'"
    and mid_frame: "mid cline is_new p \<Longrightarrow> cache p' = cache p \<Longrightarrow> stat p' = stat p \<Longrightarrow> mid cline is_new p'"
    and pull_inv: "proc_ok p \<Longrightarrow> betw p \<Longrightarrow> \<forall>r \<in> set (requests p). good_req r \<Longrightarrow>
          pull_request p = Inr p' \<Longrightarrow> betw p'"
    and access_inv: "proc_ok p \<Longrightarrow> betw p \<Longrightarrow> good_op op \<Longrightarrow>
          access op a cnt p = Inr (cline, is_new, p') \<Longrightarrow> mid cline is_new p'"
    and push_inv: "i < length (processors b) \<Longrightarrow> proc_ok (processors b ! i) \<Longrightarrow>
          mid cline is_new (processors b ! i) \<Longrightarrow> good_op op \<Longrightarrow>
          Bus_push cline i op is_new b = Inr b' \<Longrightarrow> betw (processors b' ! i)"
    and push_good: "mid cline is_new p \<Longrightarrow> good_op op \<Longrightarrow> r \<in> set (pushed_requests cline i op) \<Longrightarrow> good_req r"
begin

abbreviation (input) proc_good :: "proc_pc \<Rightarrow> Processor \<Rightarrow> bool" where
  "proc_good pc p \<equiv> proc_inv betw mid good_op pc p \<and> queues_good good_req good_op p"

abbreviation (input) sys_good :: "Sys \<Rightarrow> bool" where
  "sys_good s \<equiv>
     (\<forall>i < length (procs s). proc_good (ppc s i) (procs s ! i)) \<and>
     (\<forall>r \<in> set (bus_requests (the_bus s)) \<union> set (bus_sends (bpc s)). good_req r) \<and>
     (\<forall>q \<in> set (main_traces (mpc s)). trace_good good_op q)"

lemma proc_inv_frame:
  "proc_inv betw mid good_op pc p \<Longrightarrow> cache p' = cache p \<Longrightarrow> stat p' = stat p \<Longrightarrow>
     proc_inv betw mid good_op pc p'"
  using inv_frame mid_frame by (cases pc) auto

lemma handler_good: "trace_good good_op q \<Longrightarrow> betw p \<Longrightarrow> proc_inv betw mid good_op (handler q) p"
  by (auto simp: handler_def trace_good_def)

text \<open>A step of one processor that leaves the bus's queue and the others alone.\<close>

lemma sys_good_proc:
  assumes "sys_good s" and "i < length (procs s)" and "proc_good pc p"
    and "procs s' = (procs s)[i := p]" "ppc s' = (ppc s)(i := pc)" "bpc s' = bpc s" "mpc s' = mpc s"
    and "\<forall>r \<in> set (bus_requests (the_bus s')). r \<in> set (bus_requests (the_bus s)) \<or> good_req r"
  shows "sys_good s'"
  using assms by (auto simp: nth_list_update)

lemma step_good: "step s s' \<Longrightarrow> data_ok s \<Longrightarrow> sys_good s \<Longrightarrow> sys_good s'"
proof (induction rule: step.induct)
  case (main_lock s i t ms)
  then show ?case by simp
next
  case (main_add s i t ms)
  let ?p = "procs s ! i"
  have i: "i < length (procs s)" using main_add by (simp add: data_ok_def)
  then have "proc_good (ppc s i) ?p" "trace_good good_op t" using main_add by auto
  then have "proc_good (ppc s i) (add_trace t ?p)"
    using proc_inv_frame [of "ppc s i" ?p "add_trace t ?p"] by (auto simp: add_trace_def queues_good_def)
  with main_add i show ?case by (auto simp: nth_list_update)
next
  case (proc_test i s)
  then show ?case by - (rule sys_good_proc [of s i PLockTrace "procs s ! i"], auto)
next
  case (proc_lock i s)
  then show ?case by - (rule sys_good_proc [of s i PTake "procs s ! i"], auto)
next
  case (proc_take i s q ts)
  let ?p = "(procs s ! i)\<lparr>traces := ts\<rparr>"
  have "betw (procs s ! i)" "queues_good good_req good_op (procs s ! i)"
    using proc_take by auto
  then have "betw ?p" "trace_good good_op q" "queues_good good_req good_op ?p"
    using inv_frame [of "procs s ! i" ?p] proc_take.hyps by (auto simp: queues_good_def)
  with proc_take show ?case
    by - (rule sys_good_proc [of s i "handler q" ?p], auto simp: handler_good)
next
  case (proc_lock_requests i s op a cnt)
  then show ?case by - (rule sys_good_proc [of s i "PPull op a cnt" "procs s ! i"], auto)
next
  case (proc_pull i s op a cnt p)
  have q: "good_op op" "betw (procs s ! i)" "queues_good good_req good_op (procs s ! i)"
    using proc_pull by auto
  have "same_identity (procs s ! i) p" "requests p = []"
    using pull_request_correct [OF data_okD(1)] proc_pull by fastforce+
  then have "queues_good good_req good_op p" using q by (simp add: queues_good_def same_identity_def)
  moreover have "betw p"
    using pull_inv [OF data_okD(1) q(2) _ proc_pull.hyps(3)] proc_pull q by (simp add: queues_good_def)
  ultimately show ?case
    using proc_pull q by - (rule sys_good_proc [of s i "PAccess op a cnt" p], auto)
next
  case (proc_access i s op a cnt cline is_new p)
  have q: "good_op op" "betw (procs s ! i)" "queues_good good_req good_op (procs s ! i)"
    using proc_access by auto
  have "access_result a cnt (procs s ! i) cline is_new p"
    using access_correct [OF data_okD(1), of s i op a cnt] proc_access by auto
  then have "queues_good good_req good_op p"
    using q by (simp add: queues_good_def access_result_def same_identity_def)
  moreover have "mid cline is_new p"
    using access_inv [OF data_okD(1) q(2,1) proc_access.hyps(3)] proc_access by simp
  ultimately show ?case
    using proc_access q by - (rule sys_good_proc [of s i "PLockBus op cline is_new" p], auto)
next
  case (proc_lock_bus i s op cline is_new)
  then show ?case by - (rule sys_good_proc [of s i "PPush op cline is_new" "procs s ! i"], auto)
next
  case (proc_push i s op cline is_new b)
  note d = data_okD [OF proc_push.prems(1) proc_push.hyps(1)]
  have q: "good_op op" "mid cline is_new (procs s ! i)" "queues_good good_req good_op (procs s ! i)"
    using proc_push by auto
  from d proc_push.hyps obtain p where
    b: "b = (the_bus s)\<lparr>processors := (procs s)[i := p],
          bus_requests := bus_requests (the_bus s) @ pushed_requests cline i op\<rparr>"
    and p: "push_result cline i op is_new (the_bus s) p"
    using Bus_push_correct [of i "the_bus s" op cline is_new] by auto
  have "betw p"
    using push_inv [OF proc_push.hyps(1) d(1) q(2,1), of b] proc_push.hyps b d by simp
  moreover have "queues_good good_req good_op p"
    using p q by (simp add: push_result_def queues_good_def same_identity_def Let_def)
  ultimately show ?case
    using proc_push q b push_good [OF q(2,1)]
    by - (rule sys_good_proc [of s i PUnlockTrace p], auto)
next
  case (proc_unlock i s)
  then show ?case by - (rule sys_good_proc [of s i PTest "procs s ! i"], auto)
next
  case (bus_deliver s r i)
  have "proc_good (ppc s j) (processors (deliver r i (the_bus s)) ! j)" if "j < length (procs s)" for j
    using bus_deliver that proc_inv_frame [of "ppc s j" "procs s ! j"]
    by (auto simp: deliver_nth queues_good_def)
  with bus_deliver show ?case by simp
qed auto

lemma reachable_good:
  assumes "reachable nthreads NCachelines ms s"
    and "\<And>i. betw (Processor_new NCachelines i)"
    and "\<forall>(i, t) \<in> set ms. trace_good good_op t"
  shows "sys_good s"
  using assms(1)
proof (induction rule: reachable.induct)
  case (start b)
  have "proc_good PTest (processors b ! i)" if "i < length (processors b)" for i
    unfolding Bus_new_nth [OF start(1) that] using assms(2)
    by (simp add: queues_good_def Processor_new_def)
  moreover have "bus_requests b = []"
    using start(1) by (auto simp: Bus_new_def split: if_splits)
  ultimately show ?case using assms(3) by (auto simp: initial_def)
next
  case (next_step s s')
  then show ?case using step_good reachable_ok(2) by blast
qed

lemma between_accesses:
  assumes "reachable nthreads NCachelines ms s"
    and "\<And>i. betw (Processor_new NCachelines i)" and "\<forall>(i, t) \<in> set ms. trace_good good_op t"
    and "i < length (procs s)" and "ppc s i = PTest"
  shows "betw (procs s ! i)"
  using reachable_good [OF assms(1-3)] assms(4,5) by fastforce

end

section \<open>The counters of the caches\<close>

text \<open>What \<^verbatim>\<open>put\<close> and \<^verbatim>\<open>get\<close> keep of the cache, the three operations of a processor keep too.\<close>

definition counters_ok :: "int32 \<Rightarrow> Processor \<Rightarrow> bool" where
  "counters_ok n p \<longleftrightarrow> within_cap (cache p) \<and> cap (cache p) = n \<and> cold_counted (cache p)"

lemma counters_put:
  "counters_ok n p \<Longrightarrow> put k v (cache p) = Inr c \<Longrightarrow> counters_ok n (p\<lparr>cache := c\<rparr>)"
  using put_within_cap put_cap put_cold_counted within_cap_usable by (fastforce simp: counters_ok_def)

lemma counters_get:
  "counters_ok n p \<Longrightarrow> cache_get k create (cache p) = Inr (x, c) \<Longrightarrow> counters_ok n (p\<lparr>cache := c\<rparr>)"
  using get_within_cap get_cap get_cold_counted within_cap_usable by (fastforce simp: counters_ok_def)

lemma counters_cong: "cache p' = cache p \<Longrightarrow> counters_ok n p' = counters_ok n p"
  by (simp add: counters_ok_def)

lemma pull_one_counters:
  assumes "counters_ok n p" and "pull_one r p = Inr p'"
  shows "counters_ok n p'"
proof -
  obtain cline c1 where g: "cache_get (bts_tag r) False (cache p) = Inr (cline, c1)"
    using assms(2) by (auto simp: pull_one_def fault_simps)
  let ?p1 = "p\<lparr>cache := c1\<rparr>"
  have p1: "counters_ok n ?p1" by (rule counters_get [OF assms(1) g])
  show ?thesis
  proof (cases "cline_tag cline = nullptr")
    case True
    with assms(2) g p1 show ?thesis by (simp add: pull_one_def)
  next
    case False
    obtain st f where sn: "snoop (cline_state cline) (bts_tsn r) = (st, f)" by fastforce
    have "counters_ok n (if f then flush ?p1 else ?p1)"
      using p1 counters_cong [of "flush ?p1" ?p1] by simp
    with assms(2) g False sn show ?thesis
      by (auto simp: pull_one_def fault_simps Let_def intro: counters_put)
  qed
qed

lemma pull_loop_counters: "counters_ok n p \<Longrightarrow> pull_loop rs p = Inr p' \<Longrightarrow> counters_ok n p'"
proof (induction rs arbitrary: p)
  case (Cons r rs)
  then obtain p1 where p1: "pull_one r (p\<lparr>requests := rs\<rparr>) = Inr p1" "pull_loop rs p1 = Inr p'"
    by (auto simp: fault_simps)
  have "counters_ok n (p\<lparr>requests := rs\<rparr>)" using Cons.prems(1) by (simp add: counters_ok_def)
  then show ?case using Cons.IH [OF pull_one_counters [OF _ p1(1)] p1(2)] by blast
qed simp

lemma access_counters:
  assumes "counters_ok n p" and "access op a cnt p = Inr (cline, is_new, p')"
  shows "counters_ok n p'"
proof -
  obtain x c1 y c2 where g: "cache_get (convert a) False (cache p) = Inr (x, c1)"
    "cache_get (convert a) True c1 = Inr (y, c2)"
    using assms(2) by (cases "op = PrWr") (auto simp: access_def read_access_def write_access_def Let_def fault_simps)
  have "counters_ok n (p\<lparr>cache := c1\<rparr>)" by (rule counters_get [OF assms(1) g(1)])
  then have c2: "counters_ok n (p\<lparr>cache := c2\<rparr>)" using counters_get [of _ "p\<lparr>cache := c1\<rparr>"] g(2) by simp
  show ?thesis
    using assms(2) g c2 counters_put [OF c2]
    by (cases "op = PrWr") (auto simp: access_def read_access_def write_access_def Let_def fault_simps)
qed

lemma Bus_push_put:
  assumes "i < length (processors b)" and "Bus_push cline i op is_new b = Inr b'"
  obtains v p c where "p = (if cline_state cline = I \<and> \<not> is_new then count_coherence_miss (processors b ! i) else processors b ! i)"
    and "cache p = cache (processors b ! i)"
    and "put (cline_tag cline) v (cache p) = Inr c" "processors b' ! i = p\<lparr>cache := c\<rparr>"
proof -
  let ?p = "if cline_state cline = I \<and> \<not> is_new then count_coherence_miss (processors b ! i) else processors b ! i"
  obtain v c where "put (cline_tag cline) v (cache ?p) = Inr c" "processors b' ! i = ?p\<lparr>cache := c\<rparr>"
    using assms
    by (simp add: Bus_push_def fault_simps Let_def split: prod.splits option.splits if_splits) auto
  then show ?thesis by (intro that [of ?p]) (simp_all add: count_coherence_miss_def)
qed

lemma push_counters:
  assumes "i < length (processors b)" and "counters_ok n (processors b ! i)"
    and "Bus_push cline i op is_new b = Inr b'"
  shows "counters_ok n (processors b' ! i)"
proof -
  obtain v p c where "cache p = cache (processors b ! i)" "put (cline_tag cline) v (cache p) = Inr c"
    "processors b' ! i = p\<lparr>cache := c\<rparr>"
    using Bus_push_put [OF assms(1,3)] by metis
  then show ?thesis using counters_put [of n p] assms(2) counters_cong [of p "processors b ! i" n] by simp
qed

interpretation counters: local_invariant "counters_ok n" "\<lambda>_ _. counters_ok n" "\<lambda>_. True" "\<lambda>_. True" for n
proof unfold_locales
  fix p p' assume "counters_ok n p" "pull_request p = Inr p'"
  then show "counters_ok n p'" unfolding pull_request_def by (rule pull_loop_counters)
next
  fix p op a cnt cline is_new p' assume "counters_ok n p" "access op a cnt p = Inr (cline, is_new, p')"
  then show "counters_ok n p'" by (rule access_counters)
next
  fix i b cline is_new op b'
  assume "i < length (processors b)" "counters_ok n (processors b ! i)" "Bus_push cline i op is_new b = Inr b'"
  then show "counters_ok n (processors b' ! i)" by (rule push_counters)
qed (simp_all add: counters_ok_def)

lemma counters_new: "0 < sint NCachelines \<Longrightarrow> counters_ok NCachelines (Processor_new NCachelines i)"
  by (simp add: counters_ok_def within_cap_def cold_counted_def Processor_new_def)
    (simp add: resize_def LRUCache_default_def contents_def lru_ok_def)

section \<open>Runs that only read\<close>

definition zero_stat :: "Processor \<Rightarrow> bool" where
  "zero_stat p \<longleftrightarrow> coherence_misses (stat p) = 0 \<and> flushes (stat p) = 0"

definition all_shared :: "line_cache \<Rightarrow> bool" where
  "all_shared c \<longleftrightarrow> (\<forall>k v. lookup c k = Some v \<longrightarrow> cline_state v = S)"

definition quiet :: "Processor \<Rightarrow> bool" where
  "quiet p \<longleftrightarrow> zero_stat p \<and> all_shared (cache p)"

definition quiet_but :: "Cacheline \<Rightarrow> bool \<Rightarrow> Processor \<Rightarrow> bool" where
  "quiet_but cline is_new p \<longleftrightarrow>
     zero_stat p \<and> usable_cache (cache p) \<and>
     (\<forall>k v. k \<noteq> cline_tag cline \<longrightarrow> lookup (cache p) k = Some v \<longrightarrow> cline_state v = S) \<and>
     (cline_state cline = S \<or> cline_state cline = I \<and> is_new)"

lemma pull_one_quiet:
  assumes "proc_ok p" and "quiet p" and "bts_tsn r = BusRd" and "pull_one r p = Inr p'"
  shows "quiet p'"
proof -
  have ok: "usable_cache (cache p)" using assms(1) by (simp add: proc_ok_def)
  let ?l = "case_option Cacheline_default id (lookup (cache p) (bts_tag r))"
  obtain c1 where c1: "cache_get (bts_tag r) False (cache p) = Inr (?l, c1)"
    "usable_cache c1" "lookup c1 = lookup (cache p)"
    using lru.fetch_False_total [OF ok] by blast
  have sh: "all_shared c1" using assms(2) c1(3) by (simp add: quiet_def all_shared_def)
  show ?thesis
  proof (cases "lookup (cache p) (bts_tag r)")
    case None
    with assms(2,4) c1 sh show ?thesis
      by (auto simp: pull_one_def Cacheline_default_def quiet_def zero_stat_def)
  next
    case (Some v)
    then have v: "cline_state v = S" using assms(2) by (simp add: quiet_def all_shared_def)
    have "all_shared c" if "put (bts_tag r) (v\<lparr>cline_state := S\<rparr>) c1 = Inr c" for c
      using lru.store_seen [OF c1(2) that] sh unfolding all_shared_def by fastforce
    with assms(2-4) c1 sh v Some show ?thesis
      by (auto simp: pull_one_def quiet_def zero_stat_def fault_simps Let_def split: if_splits)
  qed
qed

lemma pull_loop_quiet:
  "proc_ok p \<Longrightarrow> quiet p \<Longrightarrow> \<forall>r \<in> set rs. bts_tsn r = BusRd \<Longrightarrow> pull_loop rs p = Inr p' \<Longrightarrow> quiet p'"
proof (induction rs arbitrary: p)
  case (Cons r rs)
  let ?p = "p\<lparr>requests := rs\<rparr>"
  obtain p1 where p1: "pull_one r ?p = Inr p1" "pull_loop rs p1 = Inr p'"
    using Cons.prems by (auto simp: fault_simps)
  have ok: "proc_ok ?p" "quiet ?p" using Cons.prems by (simp_all add: quiet_def zero_stat_def)
  have "proc_ok p1" using pull_one_correct [OF ok(1), of r] p1(1) by auto
  moreover have "quiet p1" using pull_one_quiet [OF ok _ p1(1)] Cons.prems by simp
  ultimately show ?case using Cons.IH p1(2) Cons.prems by simp
qed simp

lemma read_quiet:
  assumes "proc_ok p" and "quiet p" and "read_access a cnt p = Inr (cline, is_new, p')"
  shows "quiet_but cline is_new p'"
proof -
  have ok: "usable_cache (cache p)" using assms(1) by (simp add: proc_ok_def)
  let ?t = "convert a"
  obtain c1 where c1: "cache_get ?t False (cache p) = Inr (case_option Cacheline_default id (lookup (cache p) ?t), c1)"
    "usable_cache c1" "lookup c1 = lookup (cache p)"
    using lru.fetch_False_total [OF ok] by blast
  obtain c2 where c2: "cache_get ?t True c1 = Inr (case_option (Cacheline_of ?t) id (lookup (cache p) ?t), c2)"
    "usable_cache c2" "\<forall>k'. k' \<noteq> ?t \<longrightarrow> lookup c2 k' = lookup (cache p) k' \<or> lookup c2 k' = None"
    using lru.fetch_True_total [OF c1(2), of Cacheline_of Cacheline_default ?t] unfolding c1(3) by blast
  have tag: "cline_tag v = ?t" if "lookup (cache p) ?t = Some v" for v
    using assms(1) that by (simp add: proc_ok_def tags_ok_def)
  have "cline_state v = S" if "k \<noteq> ?t" "lookup c2 k = Some v" for k v
    using c2(3) that assms(2) by (auto simp: quiet_def all_shared_def)
  moreover have "cline_tag cline = ?t"
    using assms(3) c1 c2 tag
    by (auto simp: read_access_def Let_def Cacheline_of_def split: option.splits)
  moreover have "cline_state cline = S \<or> cline_state cline = I \<and> is_new"
    using assms(2,3) c1 c2
    by (auto simp: read_access_def Let_def Cacheline_of_def Cacheline_default_def quiet_def all_shared_def
        split: option.splits)
  ultimately show ?thesis
    using assms(2,3) c1 c2 by (auto simp: quiet_but_def read_access_def Let_def quiet_def zero_stat_def)
qed

lemma push_quiet:
  assumes "i < length (processors b)" and "quiet_but cline is_new (processors b ! i)"
    and "Bus_push cline i PrRd is_new b = Inr b'"
  shows "quiet (processors b' ! i)"
proof -
  let ?p = "processors b ! i" and ?l = "cline\<lparr>cline_state := S\<rparr>"
  have q: "zero_stat ?p" "usable_cache (cache ?p)" "cline_state cline = S \<or> cline_state cline = I \<and> is_new"
    "\<forall>k v. k \<noteq> cline_tag cline \<longrightarrow> lookup (cache ?p) k = Some v \<longrightarrow> cline_state v = S"
    using assms(2) unfolding quiet_but_def by blast+
  have "all_shared c" if "put (cline_tag cline) ?l (cache ?p) = Inr c" for c
    using lru.store_seen [OF q(2) that] q(4) unfolding all_shared_def by fastforce
  then show ?thesis
    using assms(1,3) q(1,3) by (auto simp: Bus_push_def fault_simps Let_def quiet_def zero_stat_def)
qed

interpretation reads: local_invariant quiet quiet_but "\<lambda>r. bts_tsn r = BusRd" "\<lambda>op. op = PrRd"
proof unfold_locales
  fix p p' assume "proc_ok p" "quiet p" "\<forall>r \<in> set (requests p). bts_tsn r = BusRd" "pull_request p = Inr p'"
  then show "quiet p'" unfolding pull_request_def by (rule pull_loop_quiet)
next
  fix p op a cnt cline is_new p'
  assume "proc_ok p" "quiet p" "op = PrRd" "access op a cnt p = Inr (cline, is_new, p')"
  then show "quiet_but cline is_new p'" using read_quiet by (simp add: access_def)
next
  fix i b cline is_new op b'
  assume "i < length (processors b)" "quiet_but cline is_new (processors b ! i)" "op = PrRd"
    "Bus_push cline i op is_new b = Inr b'"
  then show "quiet (processors b' ! i)" using push_quiet by simp
next
  fix cline is_new p op r i
  assume "quiet_but cline is_new p" "op = PrRd" "r \<in> set (pushed_requests cline i op)"
  then show "bts_tsn r = BusRd" by (auto simp: quiet_but_def pushed_requests_def request_of_def)
qed (auto simp: quiet_def quiet_but_def zero_stat_def)

lemma quiet_new: "quiet (Processor_new n i)"
  by (simp add: quiet_def zero_stat_def all_shared_def Processor_new_def MetaStat_default_def)

section \<open>Properties\<close>

text \<open>
  C15. If \<^verbatim>\<open>NCachelines\<close> is positive, then in every reachable state in which a processor is between two
  accesses its cache holds at most \<^verbatim>\<open>NCachelines\<close> entries and its counter of cold misses is the number
  of entries held: it stops at \<^verbatim>\<open>NCachelines\<close>, however many different lines the traces touch.
\<close>

theorem cold_misses_count_lines:
  assumes "reachable nthreads NCachelines ms s" and "0 < sint NCachelines"
    and "i < length (procs s)" and "ppc s i = PTest"
  shows "cold_misses (cache (procs s ! i)) = of_nat (length (contents (cache (procs s ! i)))) \<and>
    int (length (contents (cache (procs s ! i)))) \<le> sint NCachelines"
proof -
  have "\<forall>(i, t) \<in> set ms. trace_good (\<lambda>_. True) t" by (auto simp: trace_good_def)
  from counters.between_accesses [OF assms(1) counters_new [OF assms(2)] this assms(3,4)]
  have "within_cap (cache (procs s ! i))" "cap (cache (procs s ! i)) = NCachelines"
    "cold_counted (cache (procs s ! i))" by (simp_all add: counters_ok_def)
  then show ?thesis by (simp add: cold_counted_def within_cap_def)
qed

lemma demo_end_idle:
  "\<exists>s. reachable 2 2 demo_traces s \<and> length (procs s) = 2 \<and> ppc s 1 = PTest"
proof -
  obtain s where "run demo_schedule (initial demo_bus demo_traces) = Some s" "length (procs s) = 2" "quiescent s"
    using demo_end by blast
  moreover from this have "reachable 2 2 demo_traces s"
    by - (rule demo_reachable, simp_all add: demo_traces_def)
  ultimately show ?thesis by (auto simp: quiescent_def)
qed

theorem cold_misses_count_lines_witness:
  "\<exists>s. reachable 2 2 demo_traces s \<and>
     cold_misses (cache (procs s ! 1)) = of_nat (length (contents (cache (procs s ! 1)))) \<and>
     length (contents (cache (procs s ! 1))) \<le> 2"
proof -
  obtain s where s: "reachable 2 2 demo_traces s" "length (procs s) = 2" "ppc s 1 = PTest"
    using demo_end_idle by blast
  then show ?thesis using cold_misses_count_lines [OF s(1), of 1] by auto
qed

lemma reads_only_quiet:
  assumes "reachable nthreads NCachelines ms s" and "\<forall>(i, t) \<in> set ms. trace_type t \<noteq> CHR ''W''"
    and "i < length (procs s)" and "ppc s i = PTest"
  shows "quiet (procs s ! i)"
proof -
  have "\<forall>(i, t) \<in> set ms. trace_good (\<lambda>op. op = PrRd) t" using assms(2) by (auto simp: trace_good_def)
  from reads.between_accesses [OF assms(1) quiet_new this assms(3,4)] show ?thesis .
qed

text \<open>
  If no trace is a write, then whatever the interleaving no processor that is between two
  accesses has counted a coherence miss or a flush, and no line of its cache is modified.
\<close>

theorem reads_only_no_coherence_misses:
  assumes "reachable nthreads NCachelines ms s" and "\<forall>(i, t) \<in> set ms. trace_type t \<noteq> CHR ''W''"
    and "i < length (procs s)" and "ppc s i = PTest"
  shows "coherence_misses (stat (procs s ! i)) = 0 \<and> flushes (stat (procs s ! i)) = 0 \<and>
    (\<forall>X. line_state (cache (procs s ! i)) X \<noteq> M)"
  using reads_only_quiet [OF assms]
  by (auto simp: quiet_def zero_stat_def all_shared_def line_state_def split: option.splits)

definition reader_traces :: "(nat \<times> Trace) list" where
  "reader_traces = [(0, access_trace 64 CHR ''R'' 1), (1, access_trace 64 CHR ''R'' 2)]"

theorem reads_only_no_coherence_misses_witness:
  "\<exists>s. reachable 2 2 reader_traces s \<and> quiescent s \<and> flushes (stat (procs s ! 1)) = 0"
proof -
  have ini: "reachable 2 2 reader_traces (initial demo_bus reader_traces)"
    by (rule demo_reachable [of _ "[]"]) (simp_all add: reader_traces_def)
  then obtain k s where "steps k (initial demo_bus reader_traces) s" and q: "quiescent s"
    using reaches_quiescence reachable_ok by blast
  then have r: "reachable 2 2 reader_traces s" using steps_reachable ini by blast
  then have "1 < length (procs s)" using reachable_length by fastforce
  then show ?thesis
    using reads_only_no_coherence_misses [OF r, of 1] r q by (auto simp: reader_traces_def access_trace_def quiescent_def)
qed

section \<open>One operation at a time\<close>

lemma Bus_process_prefix:
  "k \<le> length (processors b) \<Longrightarrow> fold (deliver r) [0..<k] b =
     b\<lparr>processors := map (\<lambda>j. if j < k \<and> j \<noteq> bts_tid r
         then (processors b ! j)\<lparr>requests := requests (processors b ! j) @ [r]\<rparr>
         else processors b ! j) [0..<length (processors b)]\<rparr>"
proof (induction k)
  case 0
  have "map ((!) (processors b)) [0..<length (processors b)] = processors b" by (rule map_nth)
  then show ?case by simp
next
  case (Suc k)
  let ?f = "\<lambda>k j. if j < k \<and> j \<noteq> bts_tid r
      then (processors b ! j)\<lparr>requests := requests (processors b ! j) @ [r]\<rparr> else processors b ! j"
  let ?b = "b\<lparr>processors := map (?f k) [0..<length (processors b)]\<rparr>"
  have "processors (deliver r k ?b) = map (?f (Suc k)) [0..<length (processors b)]"
    using Suc.prems by (intro nth_equalityI) (auto simp: deliver_nth less_Suc_eq)
  then have "deliver r k ?b = b\<lparr>processors := map (?f (Suc k)) [0..<length (processors b)]\<rparr>"
    by (simp add: deliver_def split: if_splits)
  with Suc show ?case by simp
qed

text \<open>
  \<^verbatim>\<open>Bus::process\<close> appends the request to the queue of every processor except the one that
  issued it, exactly once, and changes nothing else.
\<close>

theorem Bus_process_broadcasts:
  "Bus_process r b = b\<lparr>processors := map (\<lambda>j.
     if j \<noteq> bts_tid r then (processors b ! j)\<lparr>requests := requests (processors b ! j) @ [r]\<rparr>
     else processors b ! j) [0..<length (processors b)]\<rparr>"
  unfolding Bus_process_def using Bus_process_prefix [of "length (processors b)" b r]
  by (auto intro!: map_cong arg_cong [where f = "\<lambda>ps. b\<lparr>processors := ps\<rparr>"])

text \<open>
  \<^verbatim>\<open>pull_request\<close> never faults on a well-formed processor, empties its queue, and leaves every
  line the protocol looks after in the state that the queued requests give it one after
  the other.
\<close>

theorem pull_request_applies_all:
  assumes "proc_ok p"
  shows "\<exists>p'. pull_request p = Inr p' \<and> proc_ok p' \<and> requests p' = [] \<and> tid p' = tid p \<and>
    traces p' = traces p \<and> visible (cache p') = fold observe_line (requests p) (visible (cache p))"
  using pull_request_correct [OF assms] by (auto simp: same_identity_def)

theorem pull_request_applies_all_witness:
  "\<exists>p'. pull_request ((Processor_new 2 0)\<lparr>requests :=
      [\<lparr>bts_tag = 64, bts_tid = 1, bts_cnt = Some 1, bts_tsn = BusRdX\<rparr>]\<rparr>) = Inr p' \<and> requests p' = []"
  using pull_request_applies_all [of "(Processor_new 2 0)\<lparr>requests :=
      [\<lparr>bts_tag = 64, bts_tid = 1, bts_cnt = Some 1, bts_tsn = BusRdX\<rparr>]\<rparr>"] proc_ok_new [of 2 0]
  by auto

lemma put_absent:
  assumes "map_of (hash_map c) k = None" and "\<not> full c"
  shows "put k v c = Inr (c\<lparr>cold_misses := cold_misses c + 1, lru_list := (fresh c, k, v) # lru_list c,
     fresh := Suc (fresh c), hash_map := AList.update k (Node (fresh c)) (hash_map c)\<rparr>)"
  using assms by (simp add: put_def push_front_def list_begin_def)

text \<open>
  C21. A write to an address that is not the first of its line stores the line a second time,
  under the address itself: in an empty cache with room for two lines a single write
  counts two cold misses, and the copy under the address stays in the invalid state.
\<close>

theorem unaligned_write_stores_twice:
  assumes "\<not> aligned a" and "2 \<le> sint NCachelines"
  shows "\<exists>cline p'. write_access a cnt (Processor_new NCachelines i) = Inr (cline, True, p') \<and>
    cold_misses (cache p') = 2 \<and> contents (cache p') = [(a, cline), (convert a, Cacheline_of (convert a))] \<and>
    cline_tag cline = convert a \<and> cline_state cline = I"
proof -
  have ne: "a \<noteq> convert a" using assms(1) aligned_iff by metis
  let ?c = "cache (Processor_new NCachelines i)"
  have nf: "\<not> full ?c" "\<not> full (?c\<lparr>cold_misses := x, lru_list := l, fresh := n, hash_map := [h]\<rparr>)" for x l n h
  proof -
    have "sint (scast NCachelines :: 64 word) = sint NCachelines" by simp
    then have "(scast NCachelines :: 64 word) \<noteq> 0" "(scast NCachelines :: 64 word) \<noteq> 1"
      using assms(2) by force+
    then show "\<not> full ?c" "\<not> full (?c\<lparr>cold_misses := x, lru_list := l, fresh := n, hash_map := [h]\<rparr>)"
      by (auto simp: full_def Processor_new_def resize_def LRUCache_default_def)
  qed
  let ?l = "Cacheline_of (convert a)"
  let ?c1 = "?c\<lparr>cold_misses := 1, lru_list := [(0, convert a, ?l)], fresh := 1, hash_map := [(convert a, Node 0)]\<rparr>"
  have put1: "put (convert a) ?l ?c = Inr ?c1"
    using nf(1) by (subst put_absent) (simp_all add: Processor_new_def resize_def LRUCache_default_def)
  have "put a v ?c1 = Inr (?c1\<lparr>cold_misses := 2, lru_list := [(1, a, v), (0, convert a, ?l)], fresh := 2,
      hash_map := [(convert a, Node 0), (a, Node 1)]\<rparr>)" for v
    using nf(2) ne by (subst put_absent) simp_all
  then show ?thesis
    using put1
    by (simp add: write_access_def Let_def get_def Processor_new_def resize_def LRUCache_default_def
        Cacheline_of_def Cacheline_default_def contents_def)
qed

theorem unaligned_write_stores_twice_witness:
  "\<exists>cline p'. write_access 100 7 (Processor_new 30 0) = Inr (cline, True, p') \<and>
     cold_misses (cache p') = 2 \<and> map fst (contents (cache p')) = [100, 64]"
proof -
  have "convert 100 = 64" by code_simp
  moreover from this have "\<not> aligned 100" unfolding aligned_iff by simp
  ultimately show ?thesis using unaligned_write_stores_twice [of 100 30 7 0] by fastforce
qed

end
