(* ===== verification/Msi_Access.thy ===== *)
theory Msi_Access
  imports Msi_Local
begin

text \<open>
  What one access does, from the drain of the queue of requests to the push on the bus, stated by
  the protocol and not by the transition functions of the code: the state every line of the cache is
  left in, the request that goes to the bus, and the counters.
\<close>

section \<open>Snooping the queued requests\<close>

text \<open>
  The state a list of snooped requests leaves a line in, by the protocol and not by the order of the
  requests: invalid if one of them wants to write, otherwise shared if it was modified and one of
  them reads.
\<close>

definition snooped :: "BusTransaction list \<Rightarrow> addr \<Rightarrow> State \<Rightarrow> State" where
  "snooped rs X st =
     (if \<exists>r \<in> set rs. bts_tag r = X \<and> bts_tsn r = BusRdX then I
      else if st = M \<and> (\<exists>r \<in> set rs. bts_tag r = X) then S else st)"

definition snooped_entry :: "BusTransaction list \<Rightarrow> addr \<Rightarrow> Cacheline \<Rightarrow> Cacheline" where
  "snooped_entry rs X v =
     (if cline_tag v = nullptr then v else v\<lparr>cline_state := snooped rs X (cline_state v)\<rparr>)"

definition wanted :: "BusTransaction list \<Rightarrow> line_cache \<Rightarrow> addr set" where
  "wanted rs c = {X \<in> bts_tag ` set rs. \<exists>v. lookup c X = Some v \<and> cline_state v = M \<and> cline_tag v \<noteq> nullptr}"

lemma snoop_cases: "fst (snoop st t) = (if t = BusRdX then I else if st = M then S else st)"
  "snd (snoop st t) \<longleftrightarrow> st = M"
  by (cases "(st, t)" rule: snoop.cases; cases t; simp)+

lemma snooped_Nil [simp]: "snooped [] X st = st" "snooped_entry [] X v = v" "wanted [] c = {}"
  by (simp_all add: snooped_def snooped_entry_def wanted_def)

lemma snooped_Cons:
  "snooped (r # rs) X st = snooped rs X (if bts_tag r = X then fst (snoop st (bts_tsn r)) else st)"
proof (cases "bts_tag r = X")
  case True
  then show ?thesis by (cases "bts_tsn r"; cases st) (simp_all add: snooped_def)
qed (auto simp: snooped_def)

lemma snooped_entry_Cons:
  "snooped_entry (r # rs) X v = snooped_entry rs X (snooped_entry [r] X v)"
  by (simp add: snooped_entry_def snooped_Cons)

lemma snooped_entry_M:
  "cline_state (snooped_entry rs X v) = M \<longleftrightarrow>
     cline_state v = M \<and> (cline_tag v = nullptr \<or> X \<notin> bts_tag ` set rs)"
  by (auto simp: snooped_entry_def snooped_def)

text \<open>Draining the queue: what becomes of every entry, and how often a line is flushed.\<close>

lemma pull_one_exact:
  assumes "usable_cache (cache p)" and "pull_one r p = Inr p'"
  shows "usable_cache (cache p') \<and>
    lookup (cache p') = (\<lambda>X. map_option (snooped_entry [r] X) (lookup (cache p) X)) \<and>
    stat p' = (stat p)\<lparr>flushes := flushes (stat p) + of_nat (card (wanted [r] (cache p)))\<rparr>"
proof (cases "lookup (cache p) (bts_tag r)")
  case None
  then have "wanted [r] (cache p) = {}" by (auto simp: wanted_def)
  moreover have "map_option (snooped_entry [r] X) (lookup (cache p) X) = lookup (cache p) X" for X
    using None by (cases "X = bts_tag r"; cases "lookup (cache p) X") (auto simp: snooped_entry_def snooped_def)
  ultimately show ?thesis
    using None assms by (auto simp: pull_one_def lru.fetch_absent Cacheline_default_def)
next
  case (Some v)
  let ?X = "bts_tag r" and ?c = "cache p"
  obtain c1 where c1: "cache_get ?X False ?c = Inr (v, c1)" "usable_cache c1" "lookup c1 = lookup ?c"
    using lru.fetch_hit [OF assms(1) Some] by blast
  have same: "map_option (snooped_entry [r] Y) (lookup ?c Y) = lookup ?c Y" if "Y \<noteq> ?X" for Y
    using that by (cases "lookup ?c Y") (auto simp: snooped_entry_def snooped_def)
  show ?thesis
  proof (cases "cline_tag v = nullptr")
    case True
    then have "wanted [r] ?c = {}" using Some by (auto simp: wanted_def)
    moreover have "map_option (snooped_entry [r] Y) (lookup ?c Y) = lookup ?c Y" for Y
      using same [of Y] Some True by (cases "Y = ?X") (auto simp: snooped_entry_def)
    moreover have "p' = p\<lparr>cache := c1\<rparr>" using True c1 assms by (simp add: pull_one_def)
    ultimately show ?thesis using c1 by simp
  next
    case False
    let ?v = "v\<lparr>cline_state := fst (snoop (cline_state v) (bts_tsn r))\<rparr>"
    obtain c2 where c2: "put ?X ?v c1 = Inr c2" "usable_cache c2"
      using lru.store_total [OF c1(2)] by blast
    have l2: "lookup c2 = (lookup ?c)(?X \<mapsto> ?v)"
      using lru.store_known [OF c1(2) _ c2(1)] c1(3) Some by simp
    have "snooped_entry [r] ?X v = ?v"
      using False by (simp add: snooped_entry_def snooped_Cons)
    then have "lookup c2 Y = map_option (snooped_entry [r] Y) (lookup ?c Y)" for Y
      using same [of Y] Some l2 by (cases "Y = ?X") auto
    moreover have "wanted [r] ?c = (if cline_state v = M then {?X} else {})"
      using Some False by (auto simp: wanted_def)
    moreover have "p' = (if snd (snoop (cline_state v) (bts_tsn r)) then flush (p\<lparr>cache := c1\<rparr>) else p\<lparr>cache := c1\<rparr>)\<lparr>cache := c2\<rparr>"
      using assms(2) False c1(1) c2(1) by (simp add: pull_one_def Let_def split_beta split: if_splits)
    ultimately show ?thesis
      using c2(2) by (auto simp: flush_def snoop_cases fun_eq_iff)
  qed
qed

lemma wanted_Cons:
  assumes "lookup c' = (\<lambda>X. map_option (snooped_entry [r] X) (lookup c X))"
  shows "card (wanted (r # rs) c) = card (wanted [r] c) + card (wanted rs c')"
proof -
  have "wanted (r # rs) c = wanted [r] c \<union> wanted rs c'" "wanted [r] c \<inter> wanted rs c' = {}"
    using assms by (auto simp: wanted_def snooped_entry_M) (auto simp: snooped_entry_def split: if_splits)
  moreover have "finite (wanted rs c)" for rs c by (simp add: wanted_def)
  ultimately show ?thesis by (simp add: card_Un_disjoint)
qed

lemma pull_loop_exact:
  "usable_cache (cache p) \<Longrightarrow> pull_loop rs p = Inr p' \<Longrightarrow>
     lookup (cache p') = (\<lambda>X. map_option (snooped_entry rs X) (lookup (cache p) X)) \<and>
     stat p' = (stat p)\<lparr>flushes := flushes (stat p) + of_nat (card (wanted rs (cache p)))\<rparr>"
proof (induction rs arbitrary: p)
  case Nil
  then show ?case by (simp add: option.map_ident)
next
  case (Cons r rs)
  obtain p1 where p1: "pull_one r (p\<lparr>requests := rs\<rparr>) = Inr p1" "pull_loop rs p1 = Inr p'"
    using Cons.prems(2) by (auto simp: fault_simps)
  have e: "usable_cache (cache p1)"
    "lookup (cache p1) = (\<lambda>X. map_option (snooped_entry [r] X) (lookup (cache p) X))"
    "stat p1 = (stat p)\<lparr>flushes := flushes (stat p) + of_nat (card (wanted [r] (cache p)))\<rparr>"
    using pull_one_exact [OF _ p1(1)] Cons.prems(1) by simp_all
  show ?case
    using Cons.IH [OF e(1) p1(2)] e wanted_Cons [OF e(2), of rs]
    by (simp add: fun_eq_iff option.map_comp comp_def snooped_entry_Cons [of r rs])
qed

section \<open>Pushing a line\<close>

text \<open>
  What the protocol asks of a push of a line for a read or a write, without the transition
  function of the code.
\<close>

definition owner_state :: "PrTsnType \<Rightarrow> State \<Rightarrow> State" where
  "owner_state op st = (if op = PrWr \<or> st = M then M else S)"

definition owner_request :: "PrTsnType \<Rightarrow> State \<Rightarrow> addr \<Rightarrow> nat \<Rightarrow> int32 option \<Rightarrow> BusTransaction list" where
  "owner_request op st X i cnt =
     (if st = M \<or> st = S \<and> op = PrRd then []
      else [\<lparr>bts_tag = X, bts_tid = i, bts_cnt = cnt, bts_tsn = (if op = PrWr then BusRdX else BusRd)\<rparr>])"

lemma push_transition_owner:
  assumes "op \<noteq> Flush"
  shows "fst (push_transition (cline_state cline) op) = owner_state op (cline_state cline)"
    and "pushed_requests cline i op = owner_request op (cline_state cline) (cline_tag cline) i (cline_cnt cline)"
  using assms by (cases "(cline_state cline, op)" rule: push_transition.cases;
      simp add: owner_state_def owner_request_def pushed_requests_def request_of_def)+

lemma Bus_push_owner:
  assumes i: "i < length (processors b)" and ok: "proc_ok (processors b ! i)"
    and op: "op \<noteq> Flush" and tag: "aligned (cline_tag cline)"
  obtains p' where "Bus_push cline i op is_new b =
      Inr (b\<lparr>processors := (processors b)[i := p'], bus_requests := bus_requests b @
        owner_request op (cline_state cline) (cline_tag cline) i (cline_cnt cline)\<rparr>)"
    and "proc_ok p'" "same_identity (processors b ! i) p'" "requests p' = requests (processors b ! i)"
    and "stat p' = (stat (processors b ! i))\<lparr>coherence_misses := coherence_misses (stat (processors b ! i)) +
        (if cline_state cline = I \<and> \<not> is_new then 1 else 0)\<rparr>"
    and "lookup (cache p') (cline_tag cline) =
        Some (cline\<lparr>cline_state := owner_state op (cline_state cline)\<rparr>)"
    and "\<And>X. X \<noteq> cline_tag cline \<Longrightarrow>
        lookup (cache p') X = lookup (cache (processors b ! i)) X \<or> lookup (cache p') X = None"
proof -
  let ?p = "processors b ! i"
  obtain p' where p': "Bus_push cline i op is_new b = Inr (b\<lparr>processors := (processors b)[i := p'],
       bus_requests := bus_requests b @ pushed_requests cline i op\<rparr>)" "push_result cline i op is_new b p'"
    using Bus_push_correct [OF assms] by blast
  have u: "usable_cache (cache ?p)" using ok by (simp add: proc_ok_def)
  obtain v where "put (cline_tag cline) v (cache ?p) = Inr (cache p')"
    using Bus_push_put [OF i p'(1)] i by fastforce
  from lru.store_other [OF u this] p' show ?thesis
    by (intro that [of p']) (simp_all add: push_transition_owner [OF op] push_result_def count_coherence_miss_def Let_def)
qed

section \<open>Properties\<close>

text \<open>
  C19. What a push of a well-formed processor does, for a read or a write and a line with an
  aligned tag: the line is stored modified if the operation is a write or the line was modified, and
  shared otherwise; a modified line, and a shared one that is read, sends no request, any other line
  sends exactly one, for exclusive ownership if the operation is a write and to read if not, with the line's
  tag and count and the number of the processor; a coherence miss is counted exactly for a line that was known and invalid;
  every other entry of the cache stays or is evicted, and nothing else of the bus changes.
\<close>

theorem Bus_push_follows_protocol:
  assumes "i < length (processors b)" and "proc_ok (processors b ! i)"
    and "op \<noteq> Flush" and "aligned (cline_tag cline)"
  shows "\<exists>p'. Bus_push cline i op is_new b =
      Inr (b\<lparr>processors := (processors b)[i := p'],
        bus_requests := bus_requests b @
          (if cline_state cline = M \<or> cline_state cline = S \<and> op = PrRd then []
           else [\<lparr>bts_tag = cline_tag cline, bts_tid = i, bts_cnt = cline_cnt cline,
                  bts_tsn = (if op = PrWr then BusRdX else BusRd)\<rparr>])\<rparr>) \<and>
    tid p' = tid (processors b ! i) \<and> traces p' = traces (processors b ! i) \<and>
    requests p' = requests (processors b ! i) \<and>
    stat p' = (stat (processors b ! i))\<lparr>coherence_misses := coherence_misses (stat (processors b ! i)) +
      (if cline_state cline = I \<and> \<not> is_new then 1 else 0)\<rparr> \<and>
    lookup (cache p') (cline_tag cline) =
      Some (cline\<lparr>cline_state := if op = PrWr \<or> cline_state cline = M then M else S\<rparr>) \<and>
    (\<forall>X. X \<noteq> cline_tag cline \<longrightarrow>
       lookup (cache p') X = lookup (cache (processors b ! i)) X \<or> lookup (cache p') X = None)"
  by (rule Bus_push_owner [OF assms, of is_new])
    (unfold owner_request_def owner_state_def same_identity_def, blast)

theorem Bus_push_follows_protocol_witness:
  "\<exists>b'. Bus_push (Cacheline_of 64) 0 PrWr False demo_bus = Inr b' \<and>
     coherence_misses (stat (processors b' ! 0)) = 1 \<and>
     bus_requests b' = [\<lparr>bts_tag = 64, bts_tid = 0, bts_cnt = None, bts_tsn = BusRdX\<rparr>]"
proof -
  have "proc_ok (processors demo_bus ! 0)" by (simp add: demo_bus_def proc_ok_new)
  from Bus_push_follows_protocol [of 0 demo_bus PrWr "Cacheline_of 64" False, OF _ this]
  show ?thesis using aligned_64
    by (auto simp: demo_bus_def Cacheline_of_def Processor_new_def MetaStat_default_def)
qed

lemma pull_request_drains:
  assumes "proc_ok p"
  shows "\<exists>p'. pull_request p = Inr p' \<and> proc_ok p' \<and> requests p' = [] \<and> same_identity p p' \<and>
    (\<forall>X. lookup (cache p') X = map_option (snooped_entry (requests p) X) (lookup (cache p) X)) \<and>
    stat p' = (stat p)\<lparr>flushes := flushes (stat p) + of_nat (card (wanted (requests p) (cache p)))\<rparr>"
proof -
  obtain p' where p': "pull_request p = Inr p'" "proc_ok p'" "same_identity p p'" "requests p' = []"
    using pull_request_correct [OF assms] by blast
  with pull_loop_exact [of p "requests p" p'] assms show ?thesis
    by (simp add: pull_request_def proc_ok_def)
qed

text \<open>
  Draining the queue of a processor with a well-formed cache: every entry stays, in the state the protocol
  gives it, invalid if one of the queued requests for it wants to write, otherwise shared if it was
  modified and one of them reads, otherwise as it was; and one flush is counted for every modified line
  that the queue asks for, however often it does. Entries with a null tag are skipped.
\<close>

theorem pull_request_exact:
  assumes "proc_ok p"
  shows "\<exists>p'. pull_request p = Inr p' \<and> requests p' = [] \<and> tid p' = tid p \<and> traces p' = traces p \<and>
    (\<forall>X. lookup (cache p') X = map_option (snooped_entry (requests p) X) (lookup (cache p) X)) \<and>
    stat p' = (stat p)\<lparr>flushes := flushes (stat p) + of_nat (card (wanted (requests p) (cache p)))\<rparr>"
  using pull_request_drains [OF assms] unfolding same_identity_def by metis

theorem pull_request_exact_witness:
  "\<exists>p p'. pull_request p = Inr p' \<and> requests p \<noteq> [] \<and> requests p' = [] \<and> flushes (stat p') = 1"
proof -
  let ?r = "\<lparr>bts_tag = 64, bts_tid = 1, bts_cnt = Some 1, bts_tsn = BusRd\<rparr>" and ?q = "Processor_new 2 0"
  let ?v = "(Cacheline_of 64)\<lparr>cline_state := M\<rparr>"
  have q: "usable_cache (cache ?q)" "tags_ok (cache ?q)" using proc_ok_new [of 2 0] by (simp_all add: proc_ok_def)
  obtain c where c: "put 64 ?v (cache ?q) = Inr c" "usable_cache c" using lru.store_total [OF q(1)] by blast
  have t: "convert 64 = 64" using aligned_64 unfolding aligned_iff .
  have "tags_ok c" by (rule put_tags_ok [OF q c(1)]) (simp add: t Cacheline_of_def)
  moreover have l: "lookup c 64 = Some ?v" by (rule lru.store_same [OF q(1) c(1)])
  ultimately have "proc_ok (?q\<lparr>cache := c, requests := [?r]\<rparr>)" using c(2) by (simp add: proc_ok_def)
  moreover have "wanted [?r] c = {64}" using l by (auto simp: wanted_def Cacheline_of_def)
  ultimately obtain p' where "pull_request (?q\<lparr>cache := c, requests := [?r]\<rparr>) = Inr p'" "requests p' = []"
    "flushes (stat p') = 1"
    using pull_request_exact [of "?q\<lparr>cache := c, requests := [?r]\<rparr>"]
    by (auto simp: Processor_new_def MetaStat_default_def)
  then show ?thesis by (intro exI [of _ "?q\<lparr>cache := c, requests := [?r]\<rparr>"] exI [of _ p']) simp
qed

lemma line_state_drained:
  assumes "proc_ok p" and "aligned Y" "Y \<noteq> nullptr"
    and "lookup c Y = map_option (snooped_entry rs Y) (lookup (cache p) Y)"
  shows "line_state c Y = snooped rs Y (line_state (cache p) Y)"
proof (cases "lookup (cache p) Y")
  case None
  with assms(4) show ?thesis by (simp add: line_state_def snooped_def)
next
  case (Some v)
  with assms(1-3) have "cline_tag v \<noteq> nullptr" by (auto simp: proc_ok_def tags_ok_def aligned_iff)
  with Some assms(4) show ?thesis by (simp add: line_state_def snooped_entry_def)
qed

lemma access_handler:
  assumes "i < length (processors b)" and "op \<noteq> Flush"
    and "pull_request (processors b ! i) = Inr p1" and "access op a cnt p1 = Inr (cline, is_new, p2)"
  shows "(if op = PrWr then Processor_write a cnt i b else Processor_read a cnt i b) =
    Bus_push cline (tid p2) op is_new (b\<lparr>processors := (processors b)[i := p2]\<rparr>)"
  using assms
  by (cases op) (simp_all add: Processor_write_def Processor_read_def access_and_push_def on_processor_def access_def)

text \<open>
  C20. What one access does from the drain of the queue to the push on the bus, for a processor with
  its own number and a well-formed cache and an address outside the line of the null pointer: the line of the address ends
  modified after a write or if it was modified once the queued requests were answered, and shared otherwise;
  unless it was modified then, or shared and only read, exactly one request for it goes to the bus, for exclusive
  ownership if it is written; a coherence miss is counted exactly when the line was held and was invalid by then, and
  one flush for every modified entry that the queued requests asked for; the queue is left empty;
  no other line of the cache gains a state it does not have after the queued requests; the other
  processors are left alone.
\<close>

theorem access_follows_protocol:
  assumes i: "i < length (processors b)" and ok: "proc_ok (processors b ! i)" "tid (processors b ! i) = i"
    and op: "op \<noteq> Flush" and X: "convert a \<noteq> nullptr"
  shows "let p = processors b ! i; old = snooped (requests p) (convert a) (line_state (cache p) (convert a)) in
    \<exists>p'. (if op = PrWr then Processor_write a cnt i b else Processor_read a cnt i b) =
      Inr (b\<lparr>processors := (processors b)[i := p'],
        bus_requests := bus_requests b @
          (if old = M \<or> old = S \<and> op = PrRd then []
           else [\<lparr>bts_tag = convert a, bts_tid = i, bts_cnt = Some cnt,
                  bts_tsn = (if op = PrWr then BusRdX else BusRd)\<rparr>])\<rparr>) \<and>
    requests p' = [] \<and> tid p' = i \<and> traces p' = traces p \<and>
    stat p' = (stat p)\<lparr>flushes := flushes (stat p) + of_nat (card (wanted (requests p) (cache p))),
      coherence_misses := coherence_misses (stat p) +
        (if lookup (cache p) (convert a) \<noteq> None \<and> old = I then 1 else 0)\<rparr> \<and>
    line_state (cache p') (convert a) = (if op = PrWr \<or> old = M then M else S) \<and>
    (\<forall>Y. Y \<noteq> convert a \<longrightarrow> aligned Y \<longrightarrow> Y \<noteq> nullptr \<longrightarrow>
       line_state (cache p') Y \<in> {snooped (requests p) Y (line_state (cache p) Y), I})"
proof -
  let ?p = "processors b ! i" and ?X = "convert a"
  let ?old = "\<lambda>Y. snooped (requests ?p) Y (line_state (cache ?p) Y)"
  obtain p1 where p1: "pull_request ?p = Inr p1" "proc_ok p1" "requests p1 = []" "same_identity ?p p1"
    "\<And>Y. lookup (cache p1) Y = map_option (snooped_entry (requests ?p) Y) (lookup (cache ?p) Y)"
    "stat p1 = (stat ?p)\<lparr>flushes := flushes (stat ?p) + of_nat (card (wanted (requests ?p) (cache ?p)))\<rparr>"
    using pull_request_drains [OF ok(1)] by blast
  have drained: "line_state (cache p1) Y = ?old Y" if "aligned Y" "Y \<noteq> nullptr" for Y
    using line_state_drained [OF ok(1) that p1(5)] .
  obtain cline is_new p2 where acc: "access op a cnt p1 = Inr (cline, is_new, p2)"
    and res: "access_result a cnt p1 cline is_new p2"
    using access_correct [OF p1(2)] by blast
  let ?b = "b\<lparr>processors := (processors b)[i := p2]\<rparr>"
  have c: "proc_ok p2" "aligned (cline_tag cline)" "cline_tag cline = ?X" "cline_cnt cline = Some cnt"
    "cline_state cline = ?old ?X" "stat p2 = stat p1" "requests p2 = []" "same_identity ?p p2"
    "is_new \<longleftrightarrow> lookup (cache ?p) ?X = None"
    using res p1 X drained [of ?X] by (auto simp: access_result_def same_identity_def)
  obtain p' where p': "Bus_push cline i op is_new ?b =
      Inr (?b\<lparr>processors := (processors ?b)[i := p'], bus_requests := bus_requests ?b @
        owner_request op (cline_state cline) (cline_tag cline) i (cline_cnt cline)\<rparr>)"
    "same_identity p2 p'" "requests p' = requests p2"
    "stat p' = (stat p2)\<lparr>coherence_misses := coherence_misses (stat p2) +
        (if cline_state cline = I \<and> \<not> is_new then 1 else 0)\<rparr>"
    "lookup (cache p') (cline_tag cline) = Some (cline\<lparr>cline_state := owner_state op (cline_state cline)\<rparr>)"
    "\<And>Y. Y \<noteq> cline_tag cline \<Longrightarrow> lookup (cache p') Y = lookup (cache p2) Y \<or> lookup (cache p') Y = None"
    using Bus_push_owner [of i ?b op cline is_new] i c(1,2) op by auto
  have run: "(if op = PrWr then Processor_write a cnt i b else Processor_read a cnt i b) =
      Inr (b\<lparr>processors := (processors b)[i := p'], bus_requests := bus_requests b @
        owner_request op (?old ?X) ?X i (Some cnt)\<rparr>)"
    using access_handler [OF i op p1(1) acc] p'(1) c ok(2) by (simp add: same_identity_def)
  have other: "line_state (cache p') Y \<in> {?old Y, I}" if Y: "Y \<noteq> ?X" "aligned Y" "Y \<noteq> nullptr" for Y
  proof -
    have "line_state (cache p2) Y \<in> {line_state (cache p1) Y, I}"
      using res Y by (auto simp: access_result_def same_or_invalid_def visible_def)
    then show ?thesis using p'(6) [of Y] Y c(3) drained [OF Y(2,3)] by (auto simp: line_state_def)
  qed
  show ?thesis
    unfolding Let_def run
    using p'(2-5) c p1 ok(2) other
    by (intro exI [of _ p'])
      (auto simp: owner_request_def owner_state_def same_identity_def line_state_def)
qed

theorem access_follows_protocol_witness:
  "\<exists>b'. Processor_write 100 7 0 demo_bus = Inr b' \<and> line_state (cache (processors b' ! 0)) 64 = M \<and>
     bus_requests b' = [\<lparr>bts_tag = 64, bts_tid = 0, bts_cnt = Some 7, bts_tsn = BusRdX\<rparr>]"
proof -
  have "convert 100 = 64" by code_simp
  moreover have "proc_ok (processors demo_bus ! 0)" "tid (processors demo_bus ! 0) = 0" "0 < length (processors demo_bus)"
    by (simp_all add: demo_bus_def proc_ok_new) (simp add: Processor_new_def)
  moreover have "requests (processors demo_bus ! 0) = []" "lookup (cache (processors demo_bus ! 0)) 64 = None"
    "bus_requests demo_bus = []"
    by (simp_all add: demo_bus_def Processor_new_def)
  ultimately show ?thesis
    using access_follows_protocol [of 0 demo_bus PrWr 100 7]
    by (auto simp: Let_def line_state_def)
qed

end
