(* ===== verification/Stl_Base.thy ===== *)
theory Stl_Base
  imports "HOL-Library.Multiset" Prelude
begin

text \<open>
  The elementary algorithms of the C++ library that ships with the Pin kit
  (\<^verbatim>\<open>stl/_algobase.h\<close> and \<^verbatim>\<open>stl/_algobase.c\<close>). An iterator is a position; an algorithm that only
  reads gets the function that dereferences positions, so that two ranges may lie in
  different containers and a reverse iterator is another such function; an algorithm that
  writes gets the memory as a list of cells and returns it. A loop over the range
  \<open>[first, fin)\<close> (the code says \<^verbatim>\<open>last\<close>) is a fold over its positions, a loop that may stop early a recursion on the
  distance to the end; on a valid range \<open>first \<le> fin\<close>, the only ones the library defines,
  the test \<open>first < fin\<close> is the code's \<^verbatim>\<open>first != last\<close>. Overloads with \<^verbatim>\<open><\<close> or \<^verbatim>\<open>==\<close> in place of a
  function argument are instances of the general version. Names of the namespace \<^verbatim>\<open>std\<close> start
  with \<open>std_\<close>, internal ones with \<open>priv_\<close>.
\<close>

section \<open>Scanning for a position\<close>

function seek :: "(nat \<Rightarrow> bool) \<Rightarrow> nat \<Rightarrow> nat \<Rightarrow> nat" where
  "seek P first fin = (if first < fin \<and> \<not> P first then seek P (Suc first) fin else first)"
  by pat_completeness auto
termination
  by (relation "measure (\<lambda>(P, first, fin). fin - first)") auto

declare seek.simps [simp del]

lemma seek_spec:
  assumes "f \<le> l"
  shows "f \<le> seek P f l" "seek P f l \<le> l" "\<And>j. f \<le> j \<Longrightarrow> j < seek P f l \<Longrightarrow> \<not> P j"
    "seek P f l < l \<Longrightarrow> P (seek P f l)"
proof -
  have "f \<le> seek P f l \<and> seek P f l \<le> l \<and> (\<forall>j. f \<le> j \<longrightarrow> j < seek P f l \<longrightarrow> \<not> P j) \<and>
      (seek P f l < l \<longrightarrow> P (seek P f l))"
    using assms
  proof (induction P f l rule: seek.induct)
    case (1 P f l)
    show ?case
    proof (cases "f < l \<and> \<not> P f")
      case True
      with 1 have IH: "Suc f \<le> seek P (Suc f) l" "seek P (Suc f) l \<le> l"
        "\<forall>j. Suc f \<le> j \<longrightarrow> j < seek P (Suc f) l \<longrightarrow> \<not> P j" "seek P (Suc f) l < l \<longrightarrow> P (seek P (Suc f) l)"
        by auto
      have eq: "seek P f l = seek P (Suc f) l" using True by (subst seek.simps) simp
      have "\<not> P j" if "f \<le> j" "j < seek P (Suc f) l" for j
        using IH(3) True that by (metis Suc_leI le_neq_implies_less)
      with IH eq show ?thesis by simp
    next
      case False
      then have "seek P f l = f" by (subst seek.simps) auto
      with False 1(2) show ?thesis by auto
    qed
  qed
  then show "f \<le> seek P f l" "seek P f l \<le> l" "\<And>j. f \<le> j \<Longrightarrow> j < seek P f l \<Longrightarrow> \<not> P j"
    "seek P f l < l \<Longrightarrow> P (seek P f l)"
    by blast+
qed

text \<open>The first position with a property, or the end: what \<open>seek\<close> returns is determined by that.\<close>

definition first_pos :: "(nat \<Rightarrow> bool) \<Rightarrow> nat \<Rightarrow> nat \<Rightarrow> nat \<Rightarrow> bool" where
  "first_pos P f l r \<longleftrightarrow> f \<le> r \<and> r \<le> l \<and> (\<forall>j. f \<le> j \<longrightarrow> j < r \<longrightarrow> \<not> P j) \<and> (r < l \<longrightarrow> P r)"

lemma first_pos_seek: "f \<le> l \<Longrightarrow> first_pos P f l (seek P f l)"
  using seek_spec [where P = P] by (auto simp: first_pos_def)

lemma first_pos_unique: "first_pos P f l r \<Longrightarrow> first_pos P f l r' \<Longrightarrow> r = r'"
  unfolding first_pos_def by (metis le_neq_implies_less nat_neq_iff order_le_less_trans)

lemma seek_unique: "f \<le> l \<Longrightarrow> first_pos P f l r \<Longrightarrow> seek P f l = r"
  using first_pos_unique first_pos_seek by blast

section \<open>\<^verbatim>\<open>swap\<close>, \<^verbatim>\<open>min\<close>, \<^verbatim>\<open>max\<close>\<close>

definition std_swap :: "'a \<Rightarrow> 'a \<Rightarrow> 'a \<times> 'a" where
  "std_swap a b = (let tmp = a; a' = b; b' = tmp in (a', b'))"

definition iter_swap :: "nat \<Rightarrow> nat \<Rightarrow> 'a list \<Rightarrow> 'a list" where
  "iter_swap i j mem = (let (a, b) = std_swap (mem ! i) (mem ! j) in mem[i := a, j := b])"

definition iter_swap_aux_aux :: "nat \<Rightarrow> nat \<Rightarrow> 'a list \<Rightarrow> 'a list" where
  "iter_swap_aux_aux i j mem = (let tmp = mem ! i; mem1 = mem[i := mem ! j] in mem1[j := tmp])"

definition std_min :: "('a \<Rightarrow> 'a \<Rightarrow> bool) \<Rightarrow> 'a \<Rightarrow> 'a \<Rightarrow> 'a" where
  "std_min lt a b = (if lt b a then b else a)"

definition std_max :: "('a \<Rightarrow> 'a \<Rightarrow> bool) \<Rightarrow> 'a \<Rightarrow> 'a \<Rightarrow> 'a" where
  "std_max lt a b = (if lt a b then b else a)"

section \<open>\<^verbatim>\<open>copy\<close> and \<^verbatim>\<open>fill\<close>\<close>

definition copy_input :: "nat \<Rightarrow> nat \<Rightarrow> nat \<Rightarrow> 'a list \<Rightarrow> nat \<times> 'a list" where
  "copy_input first fin result mem =
     fold (\<lambda>i (r, m). (Suc r, m[r := m ! i])) [first..<fin] (result, mem)"

fun copy_random :: "nat \<Rightarrow> nat \<Rightarrow> nat \<Rightarrow> 'a list \<Rightarrow> nat \<times> 'a list" where
  "copy_random 0 first result mem = (result, mem)"
| "copy_random (Suc n) first result mem = copy_random n (Suc first) (Suc result) (mem[result := mem ! first])"

text \<open>\<^verbatim>\<open>memmove\<close>: as if the cells were copied to another place first.\<close>

definition memmove :: "nat \<Rightarrow> nat \<Rightarrow> nat \<Rightarrow> 'a list \<Rightarrow> 'a list" where
  "memmove result first n mem =
     take result mem @ take n (drop first mem) @ drop (result + n) mem"

definition copy_trivial :: "nat \<Rightarrow> nat \<Rightarrow> nat \<Rightarrow> 'a list \<Rightarrow> nat \<times> 'a list" where
  "copy_trivial first fin result mem =
     (let n = fin - first in if n \<noteq> 0 then (result + n, memmove result first n mem) else (result, mem))"

datatype copy_kind = ByInput | ByRandom | ByMemmove

definition std_copy :: "copy_kind \<Rightarrow> nat \<Rightarrow> nat \<Rightarrow> nat \<Rightarrow> 'a list \<Rightarrow> nat \<times> 'a list" where
  "std_copy kind first fin result mem =
     (case kind of
        ByInput \<Rightarrow> copy_input first fin result mem
      | ByRandom \<Rightarrow> copy_random (fin - first) first result mem
      | ByMemmove \<Rightarrow> copy_trivial first fin result mem)"

definition copy_backward_bidi :: "nat \<Rightarrow> nat \<Rightarrow> nat \<Rightarrow> 'a list \<Rightarrow> nat \<times> 'a list" where
  "copy_backward_bidi first fin result mem =
     fold (\<lambda>i (r, m). (r - 1, m[r - 1 := m ! i])) (rev [first..<fin]) (result, mem)"

fun copy_backward_random :: "nat \<Rightarrow> nat \<Rightarrow> nat \<Rightarrow> 'a list \<Rightarrow> nat \<times> 'a list" where
  "copy_backward_random 0 fin result mem = (result, mem)"
| "copy_backward_random (Suc n) fin result mem =
     copy_backward_random n (fin - 1) (result - 1) (mem[result - 1 := mem ! (fin - 1)])"

definition copy_trivial_backward :: "nat \<Rightarrow> nat \<Rightarrow> nat \<Rightarrow> 'a list \<Rightarrow> nat \<times> 'a list" where
  "copy_trivial_backward first fin result mem =
     (let num = fin - first in if num > 0 then (result - num, memmove (result - num) first num mem) else (result, mem))"

definition std_copy_backward :: "copy_kind \<Rightarrow> nat \<Rightarrow> nat \<Rightarrow> nat \<Rightarrow> 'a list \<Rightarrow> nat \<times> 'a list" where
  "std_copy_backward kind first fin result mem =
     (case kind of
        ByInput \<Rightarrow> copy_backward_bidi first fin result mem
      | ByRandom \<Rightarrow> copy_backward_random (fin - first) fin result mem
      | ByMemmove \<Rightarrow> copy_trivial_backward first fin result mem)"

fun copy_n_input :: "nat \<Rightarrow> nat \<Rightarrow> nat \<Rightarrow> 'a list \<Rightarrow> (nat \<times> nat) \<times> 'a list" where
  "copy_n_input first 0 result mem = ((first, result), mem)"
| "copy_n_input first (Suc cnt) result mem =
     copy_n_input (Suc first) cnt (Suc result) (mem[result := mem ! first])"

definition copy_n_random :: "copy_kind \<Rightarrow> nat \<Rightarrow> nat \<Rightarrow> nat \<Rightarrow> 'a list \<Rightarrow> (nat \<times> nat) \<times> 'a list" where
  "copy_n_random kind first cnt result mem =
     (let fin = first + cnt; (r, m) = std_copy kind first fin result mem in ((fin, r), m))"

definition fill_fwd :: "nat \<Rightarrow> nat \<Rightarrow> 'a \<Rightarrow> 'a list \<Rightarrow> 'a list" where
  "fill_fwd first fin val mem = fold (\<lambda>i m. m[i := val]) [first..<fin] mem"

fun fill_random :: "nat \<Rightarrow> nat \<Rightarrow> 'a \<Rightarrow> 'a list \<Rightarrow> 'a list" where
  "fill_random 0 first val mem = mem"
| "fill_random (Suc n) first val mem = fill_random n (Suc first) val (mem[first := val])"

definition memset :: "nat \<Rightarrow> 'a \<Rightarrow> nat \<Rightarrow> 'a list \<Rightarrow> 'a list" where
  "memset first val n mem = take first mem @ replicate n val @ drop (first + n) mem"

definition fill_bytes :: "nat \<Rightarrow> nat \<Rightarrow> 'a \<Rightarrow> 'a list \<Rightarrow> 'a list" where
  "fill_bytes first fin val mem = (let tmp = val in memset first tmp (fin - first) mem)"

fun priv_fill_n :: "nat \<Rightarrow> nat \<Rightarrow> 'a \<Rightarrow> 'a list \<Rightarrow> nat \<times> 'a list" where
  "priv_fill_n first 0 val mem = (first, mem)"
| "priv_fill_n first (Suc n) val mem = priv_fill_n (Suc first) n val (mem[first := val])"

definition fill_n :: "nat \<Rightarrow> nat \<Rightarrow> 'a \<Rightarrow> 'a list \<Rightarrow> 'a list" where
  "fill_n first n val mem = snd (priv_fill_n first n val mem)"

definition std_replace :: "nat \<Rightarrow> nat \<Rightarrow> 'a \<Rightarrow> 'a \<Rightarrow> 'a list \<Rightarrow> 'a list" where
  "std_replace first fin old_value new_value mem =
     fold (\<lambda>i m. if m ! i = old_value then m[i := new_value] else m) [first..<fin] mem"

section \<open>Comparing ranges\<close>

definition std_mismatch :: "('a \<Rightarrow> 'b \<Rightarrow> bool) \<Rightarrow> (nat \<Rightarrow> 'a) \<Rightarrow> nat \<Rightarrow> nat \<Rightarrow> (nat \<Rightarrow> 'b) \<Rightarrow> nat \<Rightarrow> nat \<times> nat" where
  "std_mismatch pred at1 first1 last1 at2 first2 =
     (let i = seek (\<lambda>i. \<not> pred (at1 i) (at2 (first2 + (i - first1)))) first1 last1
      in (i, first2 + (i - first1)))"

definition std_equal :: "('a \<Rightarrow> 'b \<Rightarrow> bool) \<Rightarrow> (nat \<Rightarrow> 'a) \<Rightarrow> nat \<Rightarrow> nat \<Rightarrow> (nat \<Rightarrow> 'b) \<Rightarrow> nat \<Rightarrow> bool" where
  "std_equal pred at1 first1 last1 at2 first2 \<longleftrightarrow>
     \<not> seek (\<lambda>i. \<not> pred (at1 i) (at2 (first2 + (i - first1)))) first1 last1 < last1"

function lexicographical_compare ::
  "('a \<Rightarrow> 'a \<Rightarrow> bool) \<Rightarrow> (nat \<Rightarrow> 'a) \<Rightarrow> nat \<Rightarrow> nat \<Rightarrow> (nat \<Rightarrow> 'a) \<Rightarrow> nat \<Rightarrow> nat \<Rightarrow> bool" where
  "lexicographical_compare lt at1 first1 last1 at2 first2 last2 =
     (if first1 < last1 \<and> first2 < last2 then
        if lt (at1 first1) (at2 first2) then True
        else if lt (at2 first2) (at1 first1) then False
        else lexicographical_compare lt at1 (Suc first1) last1 at2 (Suc first2) last2
      else first1 = last1 \<and> first2 \<noteq> last2)"
  by pat_completeness auto
termination
  by (relation "measure (\<lambda>(lt, at1, first1, last1, at2, first2, last2). last1 - first1)") auto

declare lexicographical_compare.simps [simp del]

function lexicographical_compare_3way ::
  "('a \<Rightarrow> 'a \<Rightarrow> bool) \<Rightarrow> (nat \<Rightarrow> 'a) \<Rightarrow> nat \<Rightarrow> nat \<Rightarrow> (nat \<Rightarrow> 'a) \<Rightarrow> nat \<Rightarrow> nat \<Rightarrow> int" where
  "lexicographical_compare_3way lt at1 first1 last1 at2 first2 last2 =
     (if first1 < last1 \<and> first2 < last2 then
        if lt (at1 first1) (at2 first2) then - 1
        else if lt (at2 first2) (at1 first1) then 1
        else lexicographical_compare_3way lt at1 (Suc first1) last1 at2 (Suc first2) last2
      else if first2 = last2 then (if first1 = last1 then 0 else 1)
      else - 1)"
  by pat_completeness auto
termination
  by (relation "measure (\<lambda>(lt, at1, first1, last1, at2, first2, last2). last1 - first1)") auto

declare lexicographical_compare_3way.simps [simp del]

text \<open>\<^verbatim>\<open>memcmp\<close> on bytes: the sign of the first difference.\<close>

fun memcmp :: "8 word list \<Rightarrow> 8 word list \<Rightarrow> nat \<Rightarrow> int" where
  "memcmp (a # as) (b # bs) (Suc n) = (if a = b then memcmp as bs n else if a < b then - 1 else 1)"
| "memcmp _ _ _ = 0"

definition lexicographical_compare_bytes :: "8 word list \<Rightarrow> 8 word list \<Rightarrow> bool" where
  "lexicographical_compare_bytes s1 s2 =
     (let len1 = length s1; len2 = length s2; result = memcmp s1 s2 (std_min (<) len1 len2)
      in if result \<noteq> 0 then result < 0 else len1 < len2)"

definition lexicographical_compare_3way_bytes :: "8 word list \<Rightarrow> 8 word list \<Rightarrow> int" where
  "lexicographical_compare_3way_bytes s1 s2 =
     (let len1 = length s1; len2 = length s2; result = memcmp s1 s2 (std_min (<) len1 len2)
      in if result \<noteq> 0 then result else if len1 = len2 then 0 else if len1 < len2 then - 1 else 1)"

section \<open>Counting and finding\<close>

definition std_count :: "(nat \<Rightarrow> 'a) \<Rightarrow> nat \<Rightarrow> nat \<Rightarrow> 'a \<Rightarrow> nat" where
  "std_count at first fin val = fold (\<lambda>i n. if at i = val then n + 1 else n) [first..<fin] 0"

text \<open>
  The loop of \<^verbatim>\<open>find\<close> for random access iterators, unrolled four times, and the switch for the
  rest: \<open>Some\<close> is a return from inside the loop.
\<close>

fun find_rounds :: "(nat \<Rightarrow> bool) \<Rightarrow> nat \<Rightarrow> nat \<Rightarrow> nat option \<times> nat" where
  "find_rounds P 0 first = (None, first)"
| "find_rounds P (Suc trip_count) first =
     (if P first then (Some first, first)
      else if P (first + 1) then (Some (first + 1), first)
      else if P (first + 2) then (Some (first + 2), first)
      else if P (first + 3) then (Some (first + 3), first)
      else find_rounds P trip_count (first + 4))"

definition find_rest :: "(nat \<Rightarrow> bool) \<Rightarrow> nat \<Rightarrow> nat \<Rightarrow> nat" where
  "find_rest P first fin =
     (let case1 = (\<lambda>f. if P f then f else fin);
          case2 = (\<lambda>f. if P f then f else case1 (f + 1));
          case3 = (\<lambda>f. if P f then f else case2 (f + 1))
      in if fin - first = 3 then case3 first
         else if fin - first = 2 then case2 first
         else if fin - first = 1 then case1 first
         else fin)"

definition find_if_random :: "(nat \<Rightarrow> bool) \<Rightarrow> nat \<Rightarrow> nat \<Rightarrow> nat" where
  "find_if_random P first fin =
     (case find_rounds P (drop_bit 2 (fin - first)) first of
        (Some r, _) \<Rightarrow> r
      | (None, f) \<Rightarrow> find_rest P f fin)"

definition find_random :: "(nat \<Rightarrow> 'a) \<Rightarrow> nat \<Rightarrow> nat \<Rightarrow> 'a \<Rightarrow> nat" where
  "find_random at first fin val = find_if_random (\<lambda>i. at i = val) first fin"

text \<open>\<^verbatim>\<open>find\<close> on char pointers, with \<^verbatim>\<open>memchr\<close>.\<close>

definition memchr :: "(nat \<Rightarrow> 'a) \<Rightarrow> nat \<Rightarrow> 'a \<Rightarrow> nat \<Rightarrow> nat option" where
  "memchr at first val n =
     (let r = seek (\<lambda>i. at i = val) first (first + n) in if r < first + n then Some r else None)"

definition find_char :: "(nat \<Rightarrow> char) \<Rightarrow> nat \<Rightarrow> nat \<Rightarrow> char \<Rightarrow> nat" where
  "find_char at first fin val =
     (case memchr at first val (fin - first) of Some r \<Rightarrow> r | None \<Rightarrow> fin)"

datatype category = Forward | RandomAccess

definition std_find_if :: "category \<Rightarrow> (nat \<Rightarrow> 'a) \<Rightarrow> nat \<Rightarrow> nat \<Rightarrow> ('a \<Rightarrow> bool) \<Rightarrow> nat" where
  "std_find_if c at first fin pred =
     (case c of Forward \<Rightarrow> seek (\<lambda>i. pred (at i)) first fin
              | RandomAccess \<Rightarrow> find_if_random (\<lambda>i. pred (at i)) first fin)"

definition std_find :: "category \<Rightarrow> (nat \<Rightarrow> 'a) \<Rightarrow> nat \<Rightarrow> nat \<Rightarrow> 'a \<Rightarrow> nat" where
  "std_find c at first fin val =
     (case c of Forward \<Rightarrow> seek (\<lambda>i. at i = val) first fin
              | RandomAccess \<Rightarrow> find_random at first fin val)"

section \<open>\<^verbatim>\<open>search\<close> and \<^verbatim>\<open>find_end\<close>\<close>

datatype match_end = Matched | OutOfText | Mismatch

function search_match :: "('a \<Rightarrow> 'b \<Rightarrow> bool) \<Rightarrow> (nat \<Rightarrow> 'a) \<Rightarrow> nat \<Rightarrow> nat \<Rightarrow> (nat \<Rightarrow> 'b) \<Rightarrow> nat \<Rightarrow> nat \<Rightarrow> match_end" where
  "search_match pred at1 current last1 at2 p last2 =
     (if pred (at1 current) (at2 p) then
        if \<not> Suc p < last2 then Matched
        else if \<not> Suc current < last1 then OutOfText
        else search_match pred at1 (Suc current) last1 at2 (Suc p) last2
      else Mismatch)"
  by pat_completeness auto
termination
  by (relation "measure (\<lambda>(pred, at1, current, last1, at2, p, last2). last2 - p)") auto

declare search_match.simps [simp del]

function search_loop :: "('a \<Rightarrow> 'b \<Rightarrow> bool) \<Rightarrow> (nat \<Rightarrow> 'a) \<Rightarrow> nat \<Rightarrow> nat \<Rightarrow> (nat \<Rightarrow> 'b) \<Rightarrow> nat \<Rightarrow> nat \<Rightarrow> nat" where
  "search_loop pred at1 first1 last1 at2 first2 last2 =
     (let start = seek (\<lambda>i. pred (at1 i) (at2 first2)) first1 last1 in
      if \<not> start < last1 then last1
      else if \<not> Suc start < last1 then last1
      else case search_match pred at1 (Suc start) last1 at2 (Suc first2) last2 of
             Matched \<Rightarrow> start
           | OutOfText \<Rightarrow> last1
           | Mismatch \<Rightarrow> search_loop pred at1 (Suc start) last1 at2 first2 last2)"
  by pat_completeness auto
termination
proof (relation "measure (\<lambda>(pred, at1, first1, last1, at2, first2, last2). last1 - first1)")
  fix pred :: "'a \<Rightarrow> 'b \<Rightarrow> bool" and at1 first1 last1 and at2 :: "nat \<Rightarrow> 'b" and first2 last2 x
  assume x: "x = seek (\<lambda>i. pred (at1 i) (at2 first2)) first1 last1" and "\<not> \<not> x < last1"
  then have "first1 \<le> x"
    by (metis seek.simps seek_spec(1) less_imp_le_nat order_refl)
  with \<open>\<not> \<not> x < last1\<close>
  show "((pred, at1, Suc x, last1, at2, first2, last2), pred, at1, first1, last1, at2, first2, last2)
      \<in> measure (\<lambda>(pred, at1, first1, last1, at2, first2, last2). last1 - first1)"
    by simp
qed simp

declare search_loop.simps [simp del]

definition std_search :: "('a \<Rightarrow> 'b \<Rightarrow> bool) \<Rightarrow> (nat \<Rightarrow> 'a) \<Rightarrow> nat \<Rightarrow> nat \<Rightarrow> (nat \<Rightarrow> 'b) \<Rightarrow> nat \<Rightarrow> nat \<Rightarrow> nat" where
  "std_search pred at1 first1 last1 at2 first2 last2 =
     (if first1 = last1 \<or> first2 = last2 then first1
      else if Suc first2 = last2 then seek (\<lambda>i. pred (at1 i) (at2 first2)) first1 last1
      else search_loop pred at1 first1 last1 at2 first2 last2)"

text \<open>
  \<^verbatim>\<open>find_end\<close>: the last match. For forward iterators it repeats \<^verbatim>\<open>search\<close> until that fails; for
  bidirectional ones it searches the reversed ranges once.
\<close>

function find_end_loop :: "('a \<Rightarrow> 'b \<Rightarrow> bool) \<Rightarrow> (nat \<Rightarrow> 'a) \<Rightarrow> nat \<Rightarrow> nat \<Rightarrow> (nat \<Rightarrow> 'b) \<Rightarrow> nat \<Rightarrow> nat \<Rightarrow> nat \<Rightarrow> nat" where
  "find_end_loop pred at1 first1 last1 at2 first2 last2 result =
     (let new_result = std_search pred at1 first1 last1 at2 first2 last2 in
      if \<not> (first1 \<le> new_result \<and> new_result < last1) then result
      else find_end_loop pred at1 (Suc new_result) last1 at2 first2 last2 new_result)"
  by pat_completeness auto
termination
  by (relation "measure (\<lambda>(pred, at1, first1, last1, at2, first2, last2, result). last1 - first1)") auto

declare find_end_loop.simps [simp del]

definition find_end_forward :: "('a \<Rightarrow> 'b \<Rightarrow> bool) \<Rightarrow> (nat \<Rightarrow> 'a) \<Rightarrow> nat \<Rightarrow> nat \<Rightarrow> (nat \<Rightarrow> 'b) \<Rightarrow> nat \<Rightarrow> nat \<Rightarrow> nat" where
  "find_end_forward pred at1 first1 last1 at2 first2 last2 =
     (if first2 = last2 then last1
      else find_end_loop pred at1 first1 last1 at2 first2 last2 last1)"

text \<open>A reverse iterator over \<open>[first, fin)\<close>: its position \<open>k\<close> is the cell \<open>fin - 1 - k\<close>.\<close>

definition reversed :: "nat \<Rightarrow> (nat \<Rightarrow> 'a) \<Rightarrow> nat \<Rightarrow> 'a" where
  "reversed fin at k = at (fin - 1 - k)"

definition find_end_bidi :: "('a \<Rightarrow> 'b \<Rightarrow> bool) \<Rightarrow> (nat \<Rightarrow> 'a) \<Rightarrow> nat \<Rightarrow> nat \<Rightarrow> (nat \<Rightarrow> 'b) \<Rightarrow> nat \<Rightarrow> nat \<Rightarrow> nat" where
  "find_end_bidi pred at1 first1 last1 at2 first2 last2 =
     (let rlast1 = last1 - first1; rlast2 = last2 - first2;
          rresult = std_search pred (reversed last1 at1) 0 rlast1 (reversed last2 at2) 0 rlast2
      in if rresult = rlast1 then last1
         else let result = last1 - rresult in result - (last2 - first2))"

datatype end_category = ForwardOnly | Bidirectional

definition std_find_end :: "end_category \<Rightarrow> ('a \<Rightarrow> 'b \<Rightarrow> bool) \<Rightarrow> (nat \<Rightarrow> 'a) \<Rightarrow> nat \<Rightarrow> nat \<Rightarrow> (nat \<Rightarrow> 'b) \<Rightarrow> nat \<Rightarrow> nat \<Rightarrow> nat" where
  "std_find_end c pred at1 first1 last1 at2 first2 last2 =
     (case c of
        ForwardOnly \<Rightarrow> find_end_forward pred at1 first1 last1 at2 first2 last2
      | Bidirectional \<Rightarrow> find_end_bidi pred at1 first1 last1 at2 first2 last2)"

section \<open>\<^verbatim>\<open>find_first_of\<close>\<close>

definition find_first_of_general :: "('a \<Rightarrow> 'b \<Rightarrow> bool) \<Rightarrow> (nat \<Rightarrow> 'a) \<Rightarrow> nat \<Rightarrow> nat \<Rightarrow> (nat \<Rightarrow> 'b) \<Rightarrow> nat \<Rightarrow> nat \<Rightarrow> nat" where
  "find_first_of_general lt at1 first1 last1 at2 first2 last2 =
     seek (\<lambda>i. seek (\<lambda>j. lt (at1 i) (at2 j)) first2 last2 < last2) first1 last1"

text \<open>On bytes: a table of 256 bits, built from the second range, looked up for the first.\<close>

definition set_hint :: "8 word \<Rightarrow> 8 word list \<Rightarrow> 8 word list" where
  "set_hint tmp hints =
     (let k = unat tmp div 8 in hints[k := or (hints ! k) (push_bit (unat tmp mod 8) 1)])"

definition get_hint :: "8 word \<Rightarrow> 8 word list \<Rightarrow> bool" where
  "get_hint tmp hints \<longleftrightarrow> and (hints ! (unat tmp div 8)) (push_bit (unat tmp mod 8) 1) \<noteq> 0"

definition find_first_of_bytes :: "(nat \<Rightarrow> 8 word) \<Rightarrow> nat \<Rightarrow> nat \<Rightarrow> (nat \<Rightarrow> 8 word) \<Rightarrow> nat \<Rightarrow> nat \<Rightarrow> nat" where
  "find_first_of_bytes at1 first1 last1 at2 first2 last2 =
     (let hints = fold (\<lambda>j. set_hint (at2 j)) [first2..<last2] (replicate 32 0)
      in seek (\<lambda>i. get_hint (at1 i) hints) first1 last1)"

section \<open>\<^verbatim>\<open>lower_bound\<close>\<close>

function lower_bound_loop :: "('a \<Rightarrow> 'b \<Rightarrow> bool) \<Rightarrow> (nat \<Rightarrow> 'a) \<Rightarrow> nat \<Rightarrow> nat \<Rightarrow> 'b \<Rightarrow> nat" where
  "lower_bound_loop comp1 at first len val =
     (if 0 < len then
        let half = drop_bit 1 len; middle = first + half in
        if comp1 (at middle) val then lower_bound_loop comp1 at (Suc middle) (len - half - 1) val
        else lower_bound_loop comp1 at first half val
      else first)"
  by pat_completeness auto
termination
  by (relation "measure (\<lambda>(comp1, at, first, len, val). len)") (auto simp: drop_bit_eq_div)

declare lower_bound_loop.simps [simp del]

definition std_lower_bound :: "('a \<Rightarrow> 'b \<Rightarrow> bool) \<Rightarrow> (nat \<Rightarrow> 'a) \<Rightarrow> nat \<Rightarrow> nat \<Rightarrow> 'b \<Rightarrow> nat" where
  "std_lower_bound lt at first fin val = lower_bound_loop lt at first (fin - first) val"

section \<open>The variants of \<^verbatim>\<open>copy\<close> agree\<close>

lemma memmove_length: "result + n \<le> length mem \<Longrightarrow> first + n \<le> length mem \<Longrightarrow> length (memmove result first n mem) = length mem"
  by (simp add: memmove_def)

lemma memmove_nth:
  assumes "result + n \<le> length mem" and "first + n \<le> length mem" and "i < length mem"
  shows "memmove result first n mem ! i = (if result \<le> i \<and> i < result + n then mem ! (first + (i - result)) else mem ! i)"
proof -
  have "length (take n (drop first mem)) = n" "length (take result mem) = result" using assms by simp_all
  then show ?thesis
    using assms by (simp add: memmove_def nth_append del: length_take) (auto simp: add.commute not_less)
qed

definition no_clobber :: "nat \<Rightarrow> nat \<Rightarrow> nat \<Rightarrow> bool" where
  "no_clobber first fin result \<longleftrightarrow> result \<le> first \<or> fin \<le> result"

lemma copy_random_length [simp]: "length (snd (copy_random n first result mem)) = length mem"
  by (induction n first result mem rule: copy_random.induct) simp_all

lemma copy_random_fst: "fst (copy_random n first result mem) = result + n"
  by (induction n first result mem rule: copy_random.induct) simp_all

lemma copy_random_nth:
  assumes "first + n \<le> length mem" "result + n \<le> length mem" "no_clobber first (first + n) result" "i < length mem"
  shows "snd (copy_random n first result mem) ! i =
     (if result \<le> i \<and> i < result + n then mem ! (first + (i - result)) else mem ! i)"
  using assms
proof (induction n first result mem rule: copy_random.induct)
  case (2 n first result mem)
  then have "snd (copy_random n (Suc first) (Suc result) (mem[result := mem ! first])) ! i =
      (if Suc result \<le> i \<and> i < Suc result + n then mem[result := mem ! first] ! (Suc first + (i - Suc result))
       else mem[result := mem ! first] ! i)"
    by (auto simp: no_clobber_def)
  moreover have "Suc first + (i - Suc result) \<noteq> result" if "Suc result \<le> i" "i < Suc result + n"
    using 2(4) that by (auto simp: no_clobber_def)
  ultimately show ?case using 2 by (auto simp: nth_list_update Suc_diff_Suc le_less_Suc_eq)
qed auto

lemma copy_random_memmove:
  assumes "first + n \<le> length mem" "result + n \<le> length mem" "no_clobber first (first + n) result"
  shows "copy_random n first result mem = (result + n, memmove result first n mem)"
  using assms copy_random_fst [of n first result mem] copy_random_nth memmove_nth memmove_length
  by (intro prod_eqI nth_equalityI) (auto simp: memmove_length memmove_nth copy_random_nth)

lemma copy_input_random: "copy_input first (first + n) result mem = copy_random n first result mem"
  unfolding copy_input_def
proof (induction n arbitrary: first result mem)
  case (Suc n)
  have "[first..<first + Suc n] = first # [Suc first..<Suc first + n]" by (simp add: upt_rec)
  with Suc [of "Suc first" "Suc result" "mem[result := mem ! first]"] show ?case by simp
qed simp

lemma copy_backward_random_length [simp]: "length (snd (copy_backward_random n fin result mem)) = length mem"
  by (induction n fin result mem rule: copy_backward_random.induct) simp_all

lemma copy_backward_random_fst: "fst (copy_backward_random n fin result mem) = result - n"
  by (induction n fin result mem rule: copy_backward_random.induct) simp_all

lemma copy_backward_random_nth:
  assumes "n \<le> fin" "fin \<le> length mem" "n \<le> result" "result \<le> length mem" "fin \<le> result \<or> result \<le> fin - n" "i < length mem"
  shows "snd (copy_backward_random n fin result mem) ! i =
     (if result - n \<le> i \<and> i < result then mem ! (fin - (result - i)) else mem ! i)"
  using assms
proof (induction n fin result mem rule: copy_backward_random.induct)
  case (2 n fin result mem)
  let ?m = "mem[result - 1 := mem ! (fin - 1)]"
  have IH: "snd (copy_backward_random n (fin - 1) (result - 1) ?m) ! i =
      (if result - 1 - n \<le> i \<and> i < result - 1 then ?m ! (fin - 1 - (result - 1 - i)) else ?m ! i)"
    by (rule 2(1)) (use 2(2-) in auto)
  have eq: "result - Suc n = result - 1 - n" by simp
  show ?case
  proof (cases "i < result - 1")
    case True
    have "fin - 1 - (result - 1 - i) \<noteq> result - 1" if "result - 1 - n \<le> i"
      using 2(2-) True that by auto
    moreover have "fin - (result - i) = fin - 1 - (result - 1 - i)" using True by simp
    moreover have "i < result" using True by simp
    ultimately show ?thesis using True IH unfolding eq copy_backward_random.simps(2) by auto
  next
    case False
    show ?thesis
    proof (cases "i = result - 1")
      case True
      moreover have "result - (result - 1) = 1" using 2(4) by simp
      moreover have "result - 1 - n \<le> result - 1" "result - 1 < result" using 2(4) by simp_all
      ultimately show ?thesis using False IH 2(7) unfolding eq copy_backward_random.simps(2) by auto
    next
      case ne: False
      then have "\<not> i < result" using False by simp
      then show ?thesis using False ne IH unfolding eq copy_backward_random.simps(2) by auto
    qed
  qed
qed auto

lemma copy_backward_random_memmove:
  assumes "n \<le> fin" "fin \<le> length mem" "n \<le> result" "result \<le> length mem" "fin \<le> result \<or> result \<le> fin - n"
  shows "copy_backward_random n fin result mem = (result - n, memmove (result - n) (fin - n) n mem)"
proof -
  have "snd (copy_backward_random n fin result mem) = memmove (result - n) (fin - n) n mem"
  proof (rule nth_equalityI)
    show "length (snd (copy_backward_random n fin result mem)) = length (memmove (result - n) (fin - n) n mem)"
      using assms by (simp add: memmove_length)
    fix i assume "i < length (snd (copy_backward_random n fin result mem))"
    then have i: "i < length mem" by simp
    have eq: "fin - (result - i) = fin - n + (i - (result - n))" if "result - n \<le> i" "i < result"
      using assms that by simp
    have "snd (copy_backward_random n fin result mem) ! i =
        (if result - n \<le> i \<and> i < result then mem ! (fin - (result - i)) else mem ! i)"
      using assms i by (intro copy_backward_random_nth)
    also have "\<dots> = (if result - n \<le> i \<and> i < result - n + n then mem ! (fin - n + (i - (result - n))) else mem ! i)"
      using eq assms(3) by (intro if_cong) auto
    also have "\<dots> = memmove (result - n) (fin - n) n mem ! i"
      using assms i by (subst memmove_nth) simp_all
    finally show "snd (copy_backward_random n fin result mem) ! i = memmove (result - n) (fin - n) n mem ! i" .
  qed
  then show ?thesis by (metis copy_backward_random_fst prod.collapse)
qed

lemma copy_backward_bidi_random:
  "copy_backward_bidi first (first + n) result mem = copy_backward_random n (first + n) result mem"
  unfolding copy_backward_bidi_def
  by (induction n arbitrary: result mem) simp_all

text \<open>
  What all variants of \<^verbatim>\<open>copy\<close> do when the result does not start inside the range: move the cells.
\<close>

lemma std_copy_memmove:
  assumes "first \<le> fin" "fin \<le> length mem" "result + (fin - first) \<le> length mem" "no_clobber first fin result"
  shows "std_copy kind first fin result mem = (result + (fin - first), memmove result first (fin - first) mem)"
proof -
  have r: "copy_random (fin - first) first result mem = (result + (fin - first), memmove result first (fin - first) mem)"
    using assms by (intro copy_random_memmove) simp_all
  have "memmove result first 0 mem = mem" by (simp add: memmove_def)
  then show ?thesis
    using r copy_input_random [of first "fin - first" result mem] assms(1)
    by (cases kind; cases "first = fin") (simp_all add: std_copy_def copy_trivial_def Let_def)
qed

lemma std_copy_backward_memmove:
  assumes "first \<le> fin" "fin \<le> length mem" "fin - first \<le> result" "result \<le> length mem" "fin \<le> result \<or> result \<le> first"
  shows "std_copy_backward kind first fin result mem =
    (result - (fin - first), memmove (result - (fin - first)) first (fin - first) mem)"
proof -
  have r: "copy_backward_random (fin - first) fin result mem =
      (result - (fin - first), memmove (result - (fin - first)) (fin - (fin - first)) (fin - first) mem)"
    using assms by (intro copy_backward_random_memmove) auto
  have "memmove result first 0 mem = mem" by (simp add: memmove_def)
  with r show ?thesis
    using copy_backward_bidi_random [of first "fin - first" result mem] assms(1)
    by (cases kind; cases "first = fin") (simp_all add: std_copy_backward_def copy_trivial_backward_def Let_def)
qed

section \<open>Finding\<close>

lemma seek_stop: "\<not> (f < l \<and> \<not> P f) \<Longrightarrow> seek P f l = f"
  by (subst seek.simps) auto

lemma seek_go: "f < l \<Longrightarrow> \<not> P f \<Longrightarrow> seek P f l = seek P (Suc f) l"
  by (subst seek.simps) simp

lemma find_rest_seek:
  assumes "f \<le> l" and "l - f < 4"
  shows "find_rest P f l = seek P f l"
proof -
  consider "l = f" | "l = Suc f" | "l = Suc (Suc f)" | "l = Suc (Suc (Suc f))" using assms by linarith
  then show ?thesis
    by cases (simp_all add: find_rest_def Let_def seek_stop seek_go)
qed

lemma find_rounds_seek:
  "f + 4 * n \<le> l \<Longrightarrow> (case find_rounds P n f of
     (Some r, _) \<Rightarrow> seek P f l = r
   | (None, f') \<Rightarrow> f' = f + 4 * n \<and> seek P f l = seek P f' l)"
proof (induction P n f rule: find_rounds.induct)
  case (2 P n f)
  have "seek P f l = seek P (f + 4) l" if "\<not> P f" "\<not> P (f + 1)" "\<not> P (f + 2)" "\<not> P (f + 3)"
    using that 2(2) by (simp add: seek_go eval_nat_numeral)
  moreover have "seek P f l = f" if "P f" using that by (simp add: seek_stop)
  moreover have "seek P f l = f + 1" if "\<not> P f" "P (f + 1)"
    using that 2(2) by (simp add: seek_go seek_stop)
  moreover have "seek P f l = f + 2" if "\<not> P f" "\<not> P (f + 1)" "P (f + 2)"
    using that 2(2) by (simp add: seek_go seek_stop)
  moreover have "seek P f l = f + 3" if "\<not> P f" "\<not> P (f + 1)" "\<not> P (f + 2)" "P (f + 3)"
    using that 2(2) by (simp add: seek_go seek_stop numeral_3_eq_3)
  ultimately show ?case
    using 2 by (auto split: option.splits prod.splits)
qed simp

lemma find_if_random_seek:
  assumes "f \<le> l"
  shows "find_if_random P f l = seek P f l"
proof -
  let ?n = "drop_bit 2 (l - f)"
  have n: "?n = (l - f) div 4" by (simp add: drop_bit_eq_div)
  then have "f + 4 * ?n \<le> l" "l - (f + 4 * ?n) < 4" using assms by linarith+
  then show ?thesis
    using find_rounds_seek [of f ?n l P] find_rest_seek [of "f + 4 * ?n" l P]
    by (auto simp: find_if_random_def split: option.splits prod.splits)
qed

end
