(* ===== verification/Stl_Search.thy ===== *)
theory Stl_Search
  imports Stl_Base
begin

text \<open>
  The algorithms that look for something in a range: \<^verbatim>\<open>search\<close>, \<^verbatim>\<open>find_end\<close>, \<^verbatim>\<open>find_first_of\<close>,
  \<^verbatim>\<open>adjacent_find\<close>, \<^verbatim>\<open>search_n\<close>, the binary searches, \<^verbatim>\<open>min_element\<close>, \<^verbatim>\<open>max_element\<close>, \<^verbatim>\<open>is_sorted\<close> and
  \<^verbatim>\<open>includes\<close> (\<^verbatim>\<open>stl/_algobase.c\<close>, \<^verbatim>\<open>stl/_algo.h\<close>, \<^verbatim>\<open>stl/_algo.c\<close>), and what they find.
\<close>

section \<open>Occurrences of a pattern\<close>

definition matches :: "('a \<Rightarrow> 'b \<Rightarrow> bool) \<Rightarrow> (nat \<Rightarrow> 'a) \<Rightarrow> nat \<Rightarrow> (nat \<Rightarrow> 'b) \<Rightarrow> nat \<Rightarrow> nat \<Rightarrow> bool" where
  "matches pred at1 i at2 p n \<longleftrightarrow> (\<forall>k < n. pred (at1 (i + k)) (at2 (p + k)))"

definition occurs :: "('a \<Rightarrow> 'b \<Rightarrow> bool) \<Rightarrow> (nat \<Rightarrow> 'a) \<Rightarrow> nat \<Rightarrow> (nat \<Rightarrow> 'b) \<Rightarrow> nat \<Rightarrow> nat \<Rightarrow> nat \<Rightarrow> bool" where
  "occurs pred at1 last1 at2 first2 last2 i \<longleftrightarrow>
     i + (last2 - first2) \<le> last1 \<and> matches pred at1 i at2 first2 (last2 - first2)"

lemma matches_Suc: "matches pred at1 i at2 p (Suc n) \<longleftrightarrow> pred (at1 i) (at2 p) \<and> matches pred at1 (Suc i) at2 (Suc p) n"
  unfolding matches_def by (simp add: All_less_Suc2)

lemma search_match_cases:
  assumes "c < l1" and "p < l2"
  shows "case search_match pred at1 c l1 at2 p l2 of
      Matched \<Rightarrow> c + (l2 - p) \<le> l1 \<and> matches pred at1 c at2 p (l2 - p)
    | OutOfText \<Rightarrow> l1 < c + (l2 - p)
    | Mismatch \<Rightarrow> \<not> matches pred at1 c at2 p (l2 - p)"
  using assms
proof (induction pred at1 c l1 at2 p l2 rule: search_match.induct)
  case (1 pred at1 c l1 at2 p l2)
  have n: "l2 - p = Suc (l2 - Suc p)" using 1(3) by simp
  show ?case
  proof (cases "pred (at1 c) (at2 p) \<and> Suc p < l2 \<and> Suc c < l1")
    case True
    then show ?thesis
      using 1(1) n by (subst search_match.simps) (auto simp: matches_Suc split: match_end.splits)
  next
    case False
    then show ?thesis
      using 1(2,3) n by (subst search_match.simps) (auto simp: matches_Suc, auto simp: matches_def)
  qed
qed

lemma first_pos_extend:
  assumes "first_pos P g l r" and "f \<le> g" and "\<And>j. f \<le> j \<Longrightarrow> j < g \<Longrightarrow> \<not> P j"
  shows "first_pos P f l r"
  unfolding first_pos_def
proof (intro conjI allI impI)
  fix j assume "f \<le> j" "j < r"
  then show "\<not> P j" using assms by (cases "j < g") (auto simp: first_pos_def)
qed (use assms in \<open>auto simp: first_pos_def\<close>)

lemma search_loop_first:
  assumes "f1 \<le> l1" and "Suc f2 < l2"
  shows "first_pos (occurs pred at1 l1 at2 f2 l2) f1 l1 (search_loop pred at1 f1 l1 at2 f2 l2)"
  using assms
proof (induction pred at1 f1 l1 at2 f2 l2 rule: search_loop.induct)
  case (1 pred at1 f1 l1 at2 f2 l2)
  let ?P = "\<lambda>i. pred (at1 i) (at2 f2)" and ?O = "occurs pred at1 l1 at2 f2 l2"
  let ?s = "seek ?P f1 l1"
  have n: "l2 - f2 = Suc (l2 - Suc f2)" using 1(3) by simp
  have s: "f1 \<le> ?s" "?s \<le> l1" using seek_spec(1,2) [OF 1(2)] by auto
  have O_P: "?P i" if "?O i" for i using that n by (auto simp: occurs_def matches_Suc)
  have before: "\<not> ?O j" if "f1 \<le> j" "j < ?s" for j
    using seek_spec(3) [OF 1(2) that] O_P by blast
  have none: "first_pos ?O f1 l1 l1" if "\<And>j. ?s \<le> j \<Longrightarrow> \<not> ?O j"
    unfolding first_pos_def
  proof (intro conjI allI impI)
    fix j assume "f1 \<le> j" "j < l1"
    then show "\<not> ?O j" using before that by (cases "j < ?s") auto
  qed (use 1(2) in auto)
  show ?case
  proof (cases "Suc ?s < l1")
    case False
    have "\<not> ?O j" if "?s \<le> j" for j
      using False that n 1(3) by (auto simp: occurs_def)
    with False none show ?thesis by (subst search_loop.simps) (auto simp: Let_def)
  next
    case True
    note m = search_match_cases [OF True 1(3), of pred at1 at2]
    have Ps: "?P ?s" using seek_spec(4) [OF 1(2), of ?P] True by simp
    show ?thesis
    proof (cases "search_match pred at1 (Suc ?s) l1 at2 (Suc f2) l2")
      case Matched
      with m Ps n have "?O ?s" by (auto simp: occurs_def matches_Suc)
      with before s True Matched show ?thesis
        by (subst search_loop.simps) (auto simp: Let_def first_pos_def)
    next
      case OutOfText
      with m have "\<not> ?O j" if "?s \<le> j" for j using that n by (auto simp: occurs_def)
      with OutOfText True none show ?thesis by (subst search_loop.simps) (auto simp: Let_def)
    next
      case Mismatch
      with m n have "\<not> ?O ?s" by (auto simp: occurs_def matches_Suc)
      with before have "\<not> ?O j" if "f1 \<le> j" "j < Suc ?s" for j using that by (metis less_antisym)
      moreover have "first_pos ?O (Suc ?s) l1 (search_loop pred at1 (Suc ?s) l1 at2 f2 l2)"
        using 1(1) [OF refl] True Mismatch 1(3) by simp
      ultimately have "first_pos ?O f1 l1 (search_loop pred at1 (Suc ?s) l1 at2 f2 l2)"
        using s by - (rule first_pos_extend [of _ "Suc ?s"], auto)
      with Mismatch True show ?thesis by (subst search_loop.simps) (auto simp: Let_def)
    qed
  qed
qed

lemma std_search_first:
  assumes "f1 \<le> l1" and "f2 < l2"
  shows "first_pos (occurs pred at1 l1 at2 f2 l2) f1 l1 (std_search pred at1 f1 l1 at2 f2 l2)"
proof -
  let ?O = "occurs pred at1 l1 at2 f2 l2"
  consider "f1 = l1" | "f1 < l1" "Suc f2 = l2" | "f1 < l1" "Suc f2 < l2" using assms by linarith
  then show ?thesis
  proof cases
    case 1
    then show ?thesis by (simp add: std_search_def first_pos_def)
  next
    case 2
    have "first_pos ?O f1 l1 (seek (\<lambda>i. pred (at1 i) (at2 f2)) f1 l1)"
      using first_pos_seek [OF assms(1), of "\<lambda>i. pred (at1 i) (at2 f2)"] 2(2)
      by (auto simp: first_pos_def occurs_def matches_def)
    with 2 show ?thesis by (simp add: std_search_def)
  next
    case 3
    then show ?thesis using search_loop_first [OF assms(1) 3(2)] by (simp add: std_search_def)
  qed
qed

section \<open>\<^verbatim>\<open>find_end\<close>\<close>

text \<open>The last position with a property, or the end.\<close>

definition last_pos :: "(nat \<Rightarrow> bool) \<Rightarrow> nat \<Rightarrow> nat \<Rightarrow> nat \<Rightarrow> bool" where
  "last_pos P f l r \<longleftrightarrow>
     (f \<le> r \<and> r < l \<and> P r \<and> (\<forall>j. r < j \<longrightarrow> j < l \<longrightarrow> \<not> P j)) \<or> (r = l \<and> (\<forall>j. f \<le> j \<longrightarrow> j < l \<longrightarrow> \<not> P j))"

lemma last_pos_unique: "last_pos P f l r \<Longrightarrow> last_pos P f l r' \<Longrightarrow> r = r'"
  unfolding last_pos_def by (metis nat_neq_iff)

lemma find_end_loop_last:
  assumes "f \<le> f1" and "f1 \<le> l1" and "f2 < l2"
    and "\<not> (\<exists>j. f \<le> j \<and> j < f1 \<and> occurs pred at1 l1 at2 f2 l2 j) \<and> result = l1 \<or>
      f \<le> result \<and> result < f1 \<and> occurs pred at1 l1 at2 f2 l2 result \<and>
      (\<forall>j. result < j \<longrightarrow> j < f1 \<longrightarrow> \<not> occurs pred at1 l1 at2 f2 l2 j)"
  shows "last_pos (occurs pred at1 l1 at2 f2 l2) f l1 (find_end_loop pred at1 f1 l1 at2 f2 l2 result)"
  using assms
proof (induction pred at1 f1 l1 at2 f2 l2 result rule: find_end_loop.induct)
  case (1 pred at1 f1 l1 at2 f2 l2 result)
  let ?O = "occurs pred at1 l1 at2 f2 l2" and ?r = "std_search pred at1 f1 l1 at2 f2 l2"
  have fp: "first_pos ?O f1 l1 ?r" by (rule std_search_first [OF 1(3,4)])
  show ?case
  proof (cases "f1 \<le> ?r \<and> ?r < l1")
    case True
    with fp have O: "?O ?r" "\<forall>j. f1 \<le> j \<longrightarrow> j < ?r \<longrightarrow> \<not> ?O j" by (auto simp: first_pos_def)
    have "last_pos ?O f l1 (find_end_loop pred at1 (Suc ?r) l1 at2 f2 l2 ?r)"
      using True O 1(2,4) by (intro 1(1) [OF refl]) auto
    with True show ?thesis by (subst find_end_loop.simps) (simp add: Let_def)
  next
    case False
    with fp have "?r = l1" by (auto simp: first_pos_def)
    with fp have "\<forall>j. f1 \<le> j \<longrightarrow> j < l1 \<longrightarrow> \<not> ?O j" by (auto simp: first_pos_def)
    moreover have "find_end_loop pred at1 f1 l1 at2 f2 l2 result = result"
      using False by (subst find_end_loop.simps) (simp add: Let_def)
    ultimately show ?thesis using 1(3,5) unfolding last_pos_def by (metis leI order.strict_trans2)
  qed
qed

lemma find_end_forward_last:
  assumes "f1 \<le> l1" and "f2 < l2"
  shows "last_pos (occurs pred at1 l1 at2 f2 l2) f1 l1 (find_end_forward pred at1 f1 l1 at2 f2 l2)"
  using assms find_end_loop_last [of f1 f1 l1 f2 l2 pred at1 at2 l1] by (simp add: find_end_forward_def)

lemma occurs_reversed:
  assumes "f1 \<le> i" and "i + (l2 - f2) \<le> l1" and "f2 < l2"
  shows "occurs pred (reversed l1 at1) (l1 - f1) (reversed l2 at2) 0 (l2 - f2) (l1 - (l2 - f2) - i) \<longleftrightarrow>
    occurs pred at1 l1 at2 f2 l2 i"
proof -
  let ?n = "l2 - f2"
  have idx: "l1 - 1 - (l1 - ?n - i + k) = i + (?n - 1 - k)" "l2 - 1 - k = f2 + (?n - 1 - k)" if "k < ?n" for k
    using assms that by auto
  have "(\<forall>k < ?n. pred (at1 (l1 - 1 - (l1 - ?n - i + k))) (at2 (l2 - 1 - k))) \<longleftrightarrow>
      (\<forall>k < ?n. pred (at1 (i + (?n - 1 - k))) (at2 (f2 + (?n - 1 - k))))"
    using idx by metis
  also have "\<dots> \<longleftrightarrow> (\<forall>k < ?n. pred (at1 (i + k)) (at2 (f2 + k)))"
  proof (intro iffI allI impI)
    fix k assume a: "\<forall>k < ?n. pred (at1 (i + (?n - 1 - k))) (at2 (f2 + (?n - 1 - k)))" and "k < ?n"
    then have "?n - 1 - k < ?n" "?n - 1 - (?n - 1 - k) = k" by auto
    with a show "pred (at1 (i + k)) (at2 (f2 + k))" by metis
  next
    fix k assume "\<forall>k < ?n. pred (at1 (i + k)) (at2 (f2 + k))" and "k < ?n"
    then show "pred (at1 (i + (?n - 1 - k))) (at2 (f2 + (?n - 1 - k)))"
      using assms(3) by (elim allE [of _ "?n - 1 - k"]) simp
  qed
  finally show ?thesis
    using assms by (auto simp: occurs_def matches_def reversed_def)
qed

lemma later_is_closer: "i < j \<Longrightarrow> j + n \<le> l \<Longrightarrow> l - n - j < l - n - (i :: nat)"
  by arith

lemma find_end_bidi_last:
  assumes "f1 \<le> l1" and "f2 < l2"
  shows "last_pos (occurs pred at1 l1 at2 f2 l2) f1 l1 (find_end_bidi pred at1 f1 l1 at2 f2 l2)"
proof -
  let ?n = "l2 - f2" and ?O = "occurs pred at1 l1 at2 f2 l2"
  let ?R = "occurs pred (reversed l1 at1) (l1 - f1) (reversed l2 at2) 0 (l2 - f2)"
  let ?r = "std_search pred (reversed l1 at1) 0 (l1 - f1) (reversed l2 at2) 0 ?n"
  have fp: "first_pos ?R 0 (l1 - f1) ?r"
    using std_search_first [of 0 "l1 - f1" 0 ?n pred "reversed l1 at1" "reversed l2 at2"] assms by simp
  have O_R: "?R (l1 - ?n - j)" "l1 - ?n - j < l1 - f1" if "?O j" "f1 \<le> j" for j
    using that assms occurs_reversed [of f1 j l2 f2 l1 pred at1 at2] by (auto simp: occurs_def)
  show ?thesis
  proof (cases "?r = l1 - f1")
    case True
    with fp have "\<not> ?O j" if "f1 \<le> j" for j using O_R [OF _ that] by (auto simp: first_pos_def)
    with True show ?thesis by (simp add: find_end_bidi_def last_pos_def)
  next
    case False
    with fp have r: "?r < l1 - f1" "?R ?r" "\<forall>j < ?r. \<not> ?R j" by (auto simp: first_pos_def)
    let ?i = "l1 - ?r - ?n"
    have le: "?r + ?n \<le> l1 - f1" using r(2) by (simp add: occurs_def)
    have i: "f1 \<le> ?i" "?i + ?n \<le> l1" "l1 - ?n - ?i = ?r" using le assms by auto
    then have "?O ?i" using occurs_reversed [OF i(1,2) assms(2), of pred at1 at2] r(2) by simp
    moreover have "\<not> ?O j" if "?i < j" for j
    proof
      assume O: "?O j"
      then have "j + ?n \<le> l1" by (simp add: occurs_def)
      then have "l1 - ?n - j < l1 - ?n - ?i"
        by (rule later_is_closer [OF that])
      then have "l1 - ?n - j < ?r" unfolding i(3) .
      moreover have "f1 \<le> j" using i(1) that by (rule less_imp_le [OF le_less_trans])
      ultimately show False using O_R(1) [OF O] r(3) by blast
    qed
    moreover have "?i < l1" using le assms by linarith
    ultimately have "last_pos ?O f1 l1 ?i" using i(1) by (simp add: last_pos_def)
    with False show ?thesis by (simp add: find_end_bidi_def Let_def)
  qed
qed

section \<open>\<^verbatim>\<open>find_first_of\<close> with a table of bits\<close>

lemma byte_index: "(unat (a :: 8 word) div 8 = unat b div 8 \<and> unat a mod 8 = unat b mod 8) \<longleftrightarrow> a = b"
  by (metis div_mult_mod_eq word_unat_eq_iff)

lemma unat_byte_div: "unat (a :: 8 word) div 8 < 32"
  using unsigned_less [of a] by (simp add: div_less_iff_less_mult)

lemma get_set_hint:
  assumes "length hints = 32"
  shows "get_hint a (set_hint b hints) \<longleftrightarrow> a = b \<or> get_hint a hints"
proof -
  have "unat b mod 8 < 8" by simp
  then show ?thesis
    using assms unat_byte_div [of a] unat_byte_div [of b] byte_index [of a b]
    by (cases "unat a div 8 = unat b div 8")
      (auto simp: get_hint_def set_hint_def Let_def and_exp_eq_0_iff_not_bit bit_or_iff bit_exp_iff)
qed

lemma get_hint_fold:
  "length hints = 32 \<Longrightarrow> get_hint a (fold (\<lambda>j. set_hint (at2 j)) js hints) \<longleftrightarrow> (\<exists>j \<in> set js. a = at2 j) \<or> get_hint a hints"
proof (induction js arbitrary: hints)
  case (Cons j js)
  have "length (set_hint (at2 j) hints) = 32" using Cons.prems by (simp add: set_hint_def Let_def)
  with Cons show ?case by (auto simp: get_set_hint)
qed simp

lemma get_hint_empty: "\<not> get_hint a (replicate 32 0)"
  using unat_byte_div [of a] by (simp add: get_hint_def)

lemma seek_cong: "(\<And>i. f \<le> i \<Longrightarrow> i < l \<Longrightarrow> P i = Q i) \<Longrightarrow> seek P f l = seek Q f l"
proof (induction P f l rule: seek.induct)
  case (1 P f l)
  then show ?case by (subst (1 2) seek.simps) auto
qed

lemma seek_found: "f \<le> l \<Longrightarrow> seek P f l < l \<longleftrightarrow> (\<exists>i. f \<le> i \<and> i < l \<and> P i)"
  using seek_spec [of f l, where P = P] by (metis le_neq_implies_less linorder_not_less)

lemma find_first_of_bytes_general:
  assumes "first2 \<le> last2"
  shows "find_first_of_bytes at1 first1 last1 at2 first2 last2 =
    find_first_of_general (=) at1 first1 last1 at2 first2 last2"
  unfolding find_first_of_bytes_def find_first_of_general_def Let_def
  using seek_found [OF assms]
  by (intro seek_cong) (auto simp: get_hint_fold get_hint_empty)

section \<open>Orders\<close>

text \<open>What the library asks of a comparison function.\<close>

locale strict_weak_order =
  fixes lt :: "'a \<Rightarrow> 'a \<Rightarrow> bool"
  assumes asym: "lt a b \<Longrightarrow> \<not> lt b a"
    and neg_trans: "\<not> lt a b \<Longrightarrow> \<not> lt b c \<Longrightarrow> \<not> lt a c"
begin

lemma irrefl: "\<not> lt a a"
  using asym by blast

lemma trans: "lt a b \<Longrightarrow> lt b c \<Longrightarrow> lt a c"
  using asym neg_trans by blast

lemma lt_le_trans: "lt a b \<Longrightarrow> \<not> lt c b \<Longrightarrow> lt a c"
  using neg_trans by blast

lemma le_lt_trans: "\<not> lt b a \<Longrightarrow> lt b c \<Longrightarrow> lt a c"
  using neg_trans by blast

end

interpretation less_order: strict_weak_order "(<) :: 'a :: linorder \<Rightarrow> 'a \<Rightarrow> bool"
  by unfold_locales auto

definition ordered :: "('a \<Rightarrow> 'a \<Rightarrow> bool) \<Rightarrow> (nat \<Rightarrow> 'a) \<Rightarrow> nat \<Rightarrow> nat \<Rightarrow> bool" where
  "ordered lt at f l \<longleftrightarrow> (\<forall>i j. f \<le> i \<longrightarrow> i < j \<longrightarrow> j < l \<longrightarrow> \<not> lt (at j) (at i))"

section \<open>Binary search\<close>

function upper_bound_loop :: "('b \<Rightarrow> 'a \<Rightarrow> bool) \<Rightarrow> (nat \<Rightarrow> 'a) \<Rightarrow> nat \<Rightarrow> nat \<Rightarrow> 'b \<Rightarrow> nat" where
  "upper_bound_loop comp2 at first len val =
     (if 0 < len then
        let half = drop_bit 1 len; middle = first + half in
        if comp2 val (at middle) then upper_bound_loop comp2 at first half val
        else upper_bound_loop comp2 at (Suc middle) (len - half - 1) val
      else first)"
  by pat_completeness auto
termination
  by (relation "measure (\<lambda>(comp2, at, first, len, val). len)") (auto simp: drop_bit_eq_div)

declare upper_bound_loop.simps [simp del]

definition std_upper_bound :: "('b \<Rightarrow> 'a \<Rightarrow> bool) \<Rightarrow> (nat \<Rightarrow> 'a) \<Rightarrow> nat \<Rightarrow> nat \<Rightarrow> 'b \<Rightarrow> nat" where
  "std_upper_bound lt at first fin val = upper_bound_loop lt at first (fin - first) val"

function equal_range_loop :: "('a \<Rightarrow> 'b \<Rightarrow> bool) \<Rightarrow> ('b \<Rightarrow> 'a \<Rightarrow> bool) \<Rightarrow> (nat \<Rightarrow> 'a) \<Rightarrow> nat \<Rightarrow> nat \<Rightarrow> 'b \<Rightarrow> nat \<times> nat" where
  "equal_range_loop comp1 comp2 at first len val =
     (if 0 < len then
        let half = drop_bit 1 len; middle = first + half in
        if comp1 (at middle) val then equal_range_loop comp1 comp2 at (Suc middle) (len - half - 1) val
        else if comp2 val (at middle) then equal_range_loop comp1 comp2 at first half val
        else let left = std_lower_bound comp1 at first middle val in
             if comp1 (at left) val then (left, left)
             else (left, std_upper_bound comp2 at (Suc middle) (first + len) val)
      else (first, first))"
  by pat_completeness auto
termination
  by (relation "measure (\<lambda>(comp1, comp2, at, first, len, val). len)") (auto simp: drop_bit_eq_div)

declare equal_range_loop.simps [simp del]

definition std_equal_range :: "('a \<Rightarrow> 'a \<Rightarrow> bool) \<Rightarrow> (nat \<Rightarrow> 'a) \<Rightarrow> nat \<Rightarrow> nat \<Rightarrow> 'a \<Rightarrow> nat \<times> nat" where
  "std_equal_range lt at first fin val = equal_range_loop lt lt at first (fin - first) val"

definition std_binary_search :: "('a \<Rightarrow> 'a \<Rightarrow> bool) \<Rightarrow> (nat \<Rightarrow> 'a) \<Rightarrow> nat \<Rightarrow> nat \<Rightarrow> 'a \<Rightarrow> bool" where
  "std_binary_search lt at first fin val =
     (let i = std_lower_bound lt at first fin val in i \<noteq> fin \<and> \<not> lt val (at i))"

text \<open>A loop that halves finds the boundary of any property that holds from some position on.\<close>

definition upward :: "(nat \<Rightarrow> bool) \<Rightarrow> nat \<Rightarrow> nat \<Rightarrow> bool" where
  "upward P f l \<longleftrightarrow> (\<forall>i j. f \<le> i \<longrightarrow> i \<le> j \<longrightarrow> j < l \<longrightarrow> P i \<longrightarrow> P j)"

lemma first_pos_upward_left:
  assumes "upward P f l" "f \<le> m" "m < l" "P m" "first_pos P f m r"
  shows "first_pos P f l r"
proof -
  have r: "f \<le> r" "r \<le> m" "\<forall>j. f \<le> j \<longrightarrow> j < r \<longrightarrow> \<not> P j" "r < m \<longrightarrow> P r"
    using assms(5) by (simp_all add: first_pos_def)
  moreover have "P r" using r(2,4) assms(4) by (cases "r = m") simp_all
  ultimately show ?thesis using assms(3) by (simp add: first_pos_def)
qed

lemma upward_sub: "upward P f l \<Longrightarrow> f \<le> f' \<Longrightarrow> l' \<le> l \<Longrightarrow> upward P f' l'"
  unfolding upward_def by (meson order_less_le_trans order_trans)

lemma first_pos_upward_right:
  assumes "upward P f l" "f \<le> m" "m < l" "\<not> P m" "first_pos P (Suc m) l r"
  shows "first_pos P f l r"
proof (rule first_pos_extend [OF assms(5)])
  fix j assume "f \<le> j" "j < Suc m"
  then have "j \<le> m" by simp
  with assms(1,3,4) \<open>f \<le> j\<close> show "\<not> P j" unfolding upward_def by blast
qed (use assms(2) in simp)

lemma lower_bound_loop_first:
  "upward (\<lambda>i. \<not> lt (at i) val) f (f + len) \<Longrightarrow>
     first_pos (\<lambda>i. \<not> lt (at i) val) f (f + len) (lower_bound_loop lt at f len val)"
proof (induction lt at f len val rule: lower_bound_loop.induct)
  case (1 lt at f len val)
  let ?P = "\<lambda>i. \<not> lt (at i) val" and ?h = "drop_bit 1 len"
  show ?case
  proof (cases "0 < len")
    case True
    then have h: "?h < len" "Suc (f + ?h) + (len - ?h - 1) = f + len" by (auto simp: drop_bit_eq_div)
    show ?thesis
    proof (cases "lt (at (f + ?h)) val")
      case lt: True
      have "first_pos ?P (Suc (f + ?h)) (f + len) (lower_bound_loop lt at (Suc (f + ?h)) (len - ?h - 1) val)"
        using 1(1) [OF True refl refl lt] upward_sub [OF 1(3)] unfolding h(2) by simp
      then have "first_pos ?P f (f + len) (lower_bound_loop lt at (Suc (f + ?h)) (len - ?h - 1) val)"
        using h lt by (intro first_pos_upward_right [OF 1(3), of "f + ?h"]) simp_all
      with True lt show ?thesis by (subst lower_bound_loop.simps) (simp add: Let_def)
    next
      case ge: False
      have "first_pos ?P f (f + ?h) (lower_bound_loop lt at f ?h val)"
        using 1(2) [OF True refl refl ge] upward_sub [OF 1(3)] h by simp
      then have "first_pos ?P f (f + len) (lower_bound_loop lt at f ?h val)"
        using h ge by (intro first_pos_upward_left [OF 1(3), of "f + ?h"]) simp_all
      with True ge show ?thesis by (subst lower_bound_loop.simps) (simp add: Let_def)
    qed
  qed (subst lower_bound_loop.simps, simp add: first_pos_def)
qed

lemma upper_bound_loop_first:
  "upward (\<lambda>i. lt val (at i)) f (f + len) \<Longrightarrow>
     first_pos (\<lambda>i. lt val (at i)) f (f + len) (upper_bound_loop lt at f len val)"
proof (induction lt at f len val rule: upper_bound_loop.induct)
  case (1 lt at f len val)
  let ?P = "\<lambda>i. lt val (at i)" and ?h = "drop_bit 1 len"
  show ?case
  proof (cases "0 < len")
    case True
    then have h: "?h < len" "Suc (f + ?h) + (len - ?h - 1) = f + len" by (auto simp: drop_bit_eq_div)
    show ?thesis
    proof (cases "lt val (at (f + ?h))")
      case lt: True
      have "first_pos ?P f (f + ?h) (upper_bound_loop lt at f ?h val)"
        using 1(1) [OF True refl refl lt] upward_sub [OF 1(3)] h by simp
      then have "first_pos ?P f (f + len) (upper_bound_loop lt at f ?h val)"
        using h lt by (intro first_pos_upward_left [OF 1(3), of "f + ?h"]) simp_all
      with True lt show ?thesis by (subst upper_bound_loop.simps) (simp add: Let_def)
    next
      case ge: False
      have "first_pos ?P (Suc (f + ?h)) (f + len) (upper_bound_loop lt at (Suc (f + ?h)) (len - ?h - 1) val)"
        using 1(2) [OF True refl refl ge] upward_sub [OF 1(3)] unfolding h(2) by simp
      then have "first_pos ?P f (f + len) (upper_bound_loop lt at (Suc (f + ?h)) (len - ?h - 1) val)"
        using h ge by (intro first_pos_upward_right [OF 1(3), of "f + ?h"]) simp_all
      with True ge show ?thesis by (subst upper_bound_loop.simps) (simp add: Let_def)
    qed
  qed (subst upper_bound_loop.simps, simp add: first_pos_def)
qed

context strict_weak_order
begin

lemma ordered_upward:
  assumes "ordered lt at f l"
  shows "upward (\<lambda>i. \<not> lt (at i) v) f l" "upward (\<lambda>i. lt v (at i)) f l"
  using assms le_lt_trans lt_le_trans unfolding ordered_def upward_def by (metis le_neq_implies_less)+

lemma lower_bound_first:
  assumes "ordered lt at f l" and "f \<le> l"
  shows "first_pos (\<lambda>i. \<not> lt (at i) v) f l (std_lower_bound lt at f l v)"
  using lower_bound_loop_first [of lt at v f "l - f"] ordered_upward(1) [OF assms(1)] assms(2)
  by (simp add: std_lower_bound_def)

lemma upper_bound_first:
  assumes "ordered lt at f l" and "f \<le> l"
  shows "first_pos (\<lambda>i. lt v (at i)) f l (std_upper_bound lt at f l v)"
  using upper_bound_loop_first [of lt v at f "l - f"] ordered_upward(2) [OF assms(1)] assms(2)
  by (simp add: std_upper_bound_def)

lemma equal_range_loop_first:
  "ordered lt at f (f + len) \<Longrightarrow>
     first_pos (\<lambda>i. \<not> lt (at i) v) f (f + len) (fst (equal_range_loop lt lt at f len v)) \<and>
     first_pos (\<lambda>i. lt v (at i)) f (f + len) (snd (equal_range_loop lt lt at f len v))"
proof (induction len arbitrary: f rule: less_induct)
  case (less len)
  let ?L = "\<lambda>i. \<not> lt (at i) v" and ?U = "\<lambda>i. lt v (at i)" and ?h = "drop_bit 1 len"
  note up = ordered_upward [OF less.prems, of v]
  show ?case
  proof (cases "0 < len")
    case True
    then have h: "?h < len" "len - ?h - 1 < len" "Suc (f + ?h) + (len - ?h - 1) = f + len"
      by (auto simp: drop_bit_eq_div)
    have right: "ordered lt at (Suc (f + ?h)) (f + len)" and left: "ordered lt at f (f + ?h)"
      using less.prems h by (auto simp: ordered_def)
    consider "lt (at (f + ?h)) v" | "lt v (at (f + ?h))" | "\<not> lt (at (f + ?h)) v" "\<not> lt v (at (f + ?h))"
      by blast
    then show ?thesis
    proof cases
      case 1
      then have "\<not> lt v (at (f + ?h))" using asym by blast
      with 1 less.IH [OF h(2), of "Suc (f + ?h)"] right h True show ?thesis
        by (subst (1 2) equal_range_loop.simps)
          (auto simp: Let_def intro: first_pos_upward_right [OF up(1), of "f + ?h"] first_pos_upward_right [OF up(2), of "f + ?h"])
    next
      case 2
      then have "\<not> lt (at (f + ?h)) v" using asym by blast
      with 2 less.IH [OF h(1), of f] left h True show ?thesis
        by (subst (1 2) equal_range_loop.simps)
          (auto simp: Let_def intro: first_pos_upward_left [OF up(1), of "f + ?h"] first_pos_upward_left [OF up(2), of "f + ?h"])
    next
      case 3
      let ?l = "std_lower_bound lt at f (f + ?h) v"
      have l: "first_pos ?L f (f + ?h) ?l" using lower_bound_first [OF left] by simp
      then have "?L ?l" using 3(1) by (auto simp: first_pos_def)
      moreover have "first_pos ?L f (f + len) ?l"
        using l 3 h by (intro first_pos_upward_left [OF up(1), of "f + ?h"]) simp_all
      moreover have "first_pos ?U (Suc (f + ?h)) (f + len) (std_upper_bound lt at (Suc (f + ?h)) (f + len) v)"
        using upper_bound_first [OF right] h by simp
      then have "first_pos ?U f (f + len) (std_upper_bound lt at (Suc (f + ?h)) (f + len) v)"
        using 3 h by (intro first_pos_upward_right [OF up(2), of "f + ?h"]) simp_all
      ultimately show ?thesis
        using 3 True by (subst (1 2) equal_range_loop.simps) (simp add: Let_def)
    qed
  qed (subst (1 2) equal_range_loop.simps, simp add: first_pos_def)
qed

lemma equal_range_bounds:
  assumes "ordered lt at f l" and "f \<le> l"
  shows "std_equal_range lt at f l v = (std_lower_bound lt at f l v, std_upper_bound lt at f l v)"
  using equal_range_loop_first [of at f "l - f" v] lower_bound_first [OF assms, of v]
    upper_bound_first [OF assms, of v] assms first_pos_unique
  by (intro prod_eqI) (auto simp: std_equal_range_def)

lemma binary_search_found:
  assumes "ordered lt at f l" and "f \<le> l"
  shows "std_binary_search lt at f l v \<longleftrightarrow> (\<exists>i. f \<le> i \<and> i < l \<and> \<not> lt (at i) v \<and> \<not> lt v (at i))"
proof -
  let ?r = "std_lower_bound lt at f l v"
  have r: "f \<le> ?r" "?r \<le> l" "\<And>j. f \<le> j \<Longrightarrow> j < ?r \<Longrightarrow> lt (at j) v" "?r < l \<Longrightarrow> \<not> lt (at ?r) v"
    using lower_bound_first [OF assms, of v] by (auto simp: first_pos_def)
  have "\<not> lt v (at ?r)" "?r \<noteq> l" if "f \<le> i" "i < l" "\<not> lt (at i) v" "\<not> lt v (at i)" for i
  proof -
    have "?r \<le> i" using r(3) that by (meson not_le)
    then show "?r \<noteq> l" using that by simp
    show "\<not> lt v (at ?r)"
      using assms(1) r(1) \<open>?r \<le> i\<close> that neg_trans unfolding ordered_def by (metis le_neq_implies_less)
  qed
  then show ?thesis
    using r by (auto simp: std_binary_search_def Let_def)
qed

lemma equal_range_class:
  assumes "ordered lt at f l" and "f \<le> l" and "f \<le> i" and "i < l"
  shows "fst (std_equal_range lt at f l v) \<le> i \<and> i < snd (std_equal_range lt at f l v) \<longleftrightarrow>
    \<not> lt (at i) v \<and> \<not> lt v (at i)"
proof -
  have up: "upward (\<lambda>i. \<not> lt (at i) v) f l" "upward (\<lambda>i. lt v (at i)) f l"
    using ordered_upward [OF assms(1)] by auto
  have "\<not> lt (at i) v \<longleftrightarrow> std_lower_bound lt at f l v \<le> i"
    using lower_bound_first [OF assms(1,2), of v] up(1) assms(3,4) unfolding first_pos_def upward_def
    by (metis (no_types, lifting) le_neq_implies_less not_le order_le_less_trans)
  moreover have "lt v (at i) \<longleftrightarrow> std_upper_bound lt at f l v \<le> i"
    using upper_bound_first [OF assms(1,2), of v] up(2) assms(3,4) unfolding first_pos_def upward_def
    by (metis (no_types, lifting) le_neq_implies_less not_le order_le_less_trans)
  ultimately show ?thesis by (auto simp: equal_range_bounds [OF assms(1,2)])
qed

end

section \<open>Smaller ones\<close>

definition std_for_each :: "('a \<Rightarrow> 's \<Rightarrow> 's) \<Rightarrow> (nat \<Rightarrow> 'a) \<Rightarrow> nat \<Rightarrow> nat \<Rightarrow> 's \<Rightarrow> 's" where
  "std_for_each f at first fin st = fold (\<lambda>i. f (at i)) [first..<fin] st"

definition std_count_if :: "('a \<Rightarrow> bool) \<Rightarrow> (nat \<Rightarrow> 'a) \<Rightarrow> nat \<Rightarrow> nat \<Rightarrow> nat" where
  "std_count_if pred at first fin = fold (\<lambda>i n. if pred (at i) then n + 1 else n) [first..<fin] 0"

definition std_adjacent_find :: "('a \<Rightarrow> 'a \<Rightarrow> bool) \<Rightarrow> (nat \<Rightarrow> 'a) \<Rightarrow> nat \<Rightarrow> nat \<Rightarrow> nat" where
  "std_adjacent_find pred at first fin =
     (if first = fin then fin
      else let next = seek (\<lambda>next. pred (at (next - 1)) (at next)) (Suc first) fin
           in if next < fin then next - 1 else fin)"

function search_n_run :: "(nat \<Rightarrow> bool) \<Rightarrow> nat \<Rightarrow> nat \<Rightarrow> nat \<Rightarrow> nat \<times> nat" where
  "search_n_run P i n fin = (if i < fin \<and> n \<noteq> 0 \<and> P i then search_n_run P (Suc i) (n - 1) fin else (i, n))"
  by pat_completeness auto
termination
  by (relation "measure (\<lambda>(P, i, n, fin). n)") auto

declare search_n_run.simps [simp del]

function search_n_loop :: "(nat \<Rightarrow> bool) \<Rightarrow> nat \<Rightarrow> nat \<Rightarrow> nat \<Rightarrow> nat" where
  "search_n_loop P first fin cnt =
     (if first < fin then
        let (i, n) = search_n_run P (Suc first) (cnt - 1) fin in
        if n = 0 then first
        else if first < i \<and> i < fin then search_n_loop P (seek P (Suc i) fin) fin cnt
        else fin
      else fin)"
  by pat_completeness auto
termination
proof (relation "measure (\<lambda>(P, first, fin, cnt). fin - first)")
  fix P first fin cnt x y i n
  assume "first < fin" "first < y \<and> y < (fin :: nat)"
  then have "first < seek P (Suc y) fin" using seek_spec(1) [of "Suc y" fin P] by simp
  with \<open>first < fin\<close> show "((P, seek P (Suc y) fin, fin, cnt), P, first, fin, cnt) \<in> measure (\<lambda>(P, first, fin, cnt). fin - first)"
    by simp
qed simp

declare search_n_loop.simps [simp del]

definition search_n_forward :: "(nat \<Rightarrow> bool) \<Rightarrow> nat \<Rightarrow> nat \<Rightarrow> nat \<Rightarrow> nat" where
  "search_n_forward P first fin cnt = search_n_loop P (seek P first fin) fin cnt"

definition std_max_element :: "('a \<Rightarrow> 'a \<Rightarrow> bool) \<Rightarrow> (nat \<Rightarrow> 'a) \<Rightarrow> nat \<Rightarrow> nat \<Rightarrow> nat" where
  "std_max_element lt at first fin =
     (if first = fin then first
      else fold (\<lambda>i result. if lt (at result) (at i) then i else result) [Suc first..<fin] first)"

definition std_min_element :: "('a \<Rightarrow> 'a \<Rightarrow> bool) \<Rightarrow> (nat \<Rightarrow> 'a) \<Rightarrow> nat \<Rightarrow> nat \<Rightarrow> nat" where
  "std_min_element lt at first fin =
     (if first = fin then first
      else fold (\<lambda>i result. if lt (at i) (at result) then i else result) [Suc first..<fin] first)"

definition std_is_sorted :: "('a \<Rightarrow> 'a \<Rightarrow> bool) \<Rightarrow> (nat \<Rightarrow> 'a) \<Rightarrow> nat \<Rightarrow> nat \<Rightarrow> bool" where
  "std_is_sorted lt at first fin =
     (if first = fin then True
      else \<not> seek (\<lambda>next. lt (at next) (at (next - 1))) (Suc first) fin < fin)"

lemma adjacent_find_first:
  assumes "first < fin"
  shows "first_pos (\<lambda>i. Suc i < fin \<and> pred (at i) (at (Suc i))) first fin (std_adjacent_find pred at first fin)"
proof -
  let ?r = "seek (\<lambda>next. pred (at (next - 1)) (at next)) (Suc first) fin"
  have r: "Suc first \<le> ?r" "?r \<le> fin" "\<And>j. Suc first \<le> j \<Longrightarrow> j < ?r \<Longrightarrow> \<not> pred (at (j - 1)) (at j)"
    "?r < fin \<Longrightarrow> pred (at (?r - 1)) (at ?r)"
    using seek_spec [where f = "Suc first" and l = fin and P = "\<lambda>next. pred (at (next - 1)) (at next)"] assms by auto
  have none: "\<not> pred (at j) (at (Suc j))" if "first \<le> j" "Suc j < ?r" for j using r(3) [of "Suc j"] that by simp
  show ?thesis
  proof (cases "?r < fin")
    case True
    then have "pred (at (?r - 1)) (at (Suc (?r - 1)))" using r(1,4) by simp
    then show ?thesis using True assms r(1) none by (auto simp: std_adjacent_find_def first_pos_def Let_def)
  next
    case False
    then have "?r = fin" using r(2) by simp
    then show ?thesis using False assms none by (auto simp: std_adjacent_find_def first_pos_def Let_def)
  qed
qed

context strict_weak_order
begin

text \<open>The first of the greatest elements, and the first of the least ones.\<close>

lemma max_element_first:
  assumes "first < fin"
  shows "first \<le> std_max_element lt at first fin \<and> std_max_element lt at first fin < fin \<and>
    (\<forall>i. first \<le> i \<longrightarrow> i < fin \<longrightarrow> \<not> lt (at (std_max_element lt at first fin)) (at i)) \<and>
    (\<forall>i. first \<le> i \<longrightarrow> i < std_max_element lt at first fin \<longrightarrow> lt (at i) (at (std_max_element lt at first fin)))"
proof -
  let ?m = "\<lambda>l. fold (\<lambda>i result. if lt (at result) (at i) then i else result) [Suc first..<l] first"
  have "first \<le> ?m fin \<and> ?m fin < fin \<and> (\<forall>i. first \<le> i \<longrightarrow> i < fin \<longrightarrow> \<not> lt (at (?m fin)) (at i)) \<and>
      (\<forall>i. first \<le> i \<longrightarrow> i < ?m fin \<longrightarrow> lt (at i) (at (?m fin)))"
    using Suc_leI [OF assms]
  proof (induction fin rule: dec_induct)
    case base
    then show ?case by (simp add: irrefl le_less_Suc_eq)
  next
    case (step n)
    let ?r = "?m n"
    have m: "?m (Suc n) = (if lt (at ?r) (at n) then n else ?r)" using step.hyps by simp
    from step.IH have IH: "first \<le> ?r" "?r < n" "\<And>i. first \<le> i \<Longrightarrow> i < n \<Longrightarrow> \<not> lt (at ?r) (at i)"
      "\<And>i. first \<le> i \<Longrightarrow> i < ?r \<Longrightarrow> lt (at i) (at ?r)" by blast+
    show ?case
    proof (cases "lt (at ?r) (at n)")
      case True
      have less: "lt (at i) (at n)" if "first \<le> i" "i < n" for i using le_lt_trans [OF IH(3) [OF that] True] .
      then have "\<not> lt (at n) (at i)" if "first \<le> i" "i < Suc n" for i
        using that asym irrefl by (cases "i = n") auto
      then show ?thesis using m True less IH(1,2) by simp
    next
      case False
      then have "\<not> lt (at ?r) (at i)" if "first \<le> i" "i < Suc n" for i using IH(3) that by (cases "i = n") auto
      then show ?thesis using m False IH by simp
    qed
  qed
  then show ?thesis using assms by (simp add: std_max_element_def)
qed

lemma is_sorted_ordered:
  assumes "first \<le> fin"
  shows "std_is_sorted lt at first fin \<longleftrightarrow> ordered lt at first fin"
proof
  assume sorted: "std_is_sorted lt at first fin"
  have step: "\<not> lt (at (Suc i)) (at i)" if "first \<le> i" "Suc i < fin" for i
  proof
    assume "lt (at (Suc i)) (at i)"
    then have "seek (\<lambda>next. lt (at next) (at (next - 1))) (Suc first) fin < fin"
      using that by (subst seek_found) (auto intro!: exI [of _ "Suc i"])
    then show False using sorted that by (auto simp: std_is_sorted_def)
  qed
  have "\<not> lt (at j) (at i)" if "first \<le> i" "i < j" "j < fin" for i j
    using Suc_leI [OF that(2)] that(3)
  proof (induction j rule: dec_induct)
    case base
    then show ?case using step that(1) by simp
  next
    case (step n)
    then show ?case using neg_trans [of "at (Suc n)" "at n" "at i"] \<open>\<And>i. _ \<Longrightarrow> _ \<Longrightarrow> \<not> lt (at (Suc i)) (at i)\<close> that(1) by simp
  qed
  then show "ordered lt at first fin" by (auto simp: ordered_def)
next
  assume ord: "ordered lt at first fin"
  show "std_is_sorted lt at first fin"
  proof (cases "first = fin")
    case False
    then have "\<not> (\<exists>i. Suc first \<le> i \<and> i < fin \<and> lt (at i) (at (i - 1)))"
      using ord by (auto simp: ordered_def)
    then show ?thesis using False assms by (subst std_is_sorted_def) (simp add: seek_found)
  qed (simp add: std_is_sorted_def)
qed

end

lemma min_is_max: "std_min_element lt at first fin = std_max_element (\<lambda>a b. lt b a) at first fin"
  by (simp add: std_min_element_def std_max_element_def)

section \<open>What is found\<close>

text \<open>
  \<^verbatim>\<open>find_end\<close>, whether it repeats \<^verbatim>\<open>search\<close> (forward iterators) or searches both ranges backwards
  (bidirectional ones), returns the start of the last occurrence of the pattern in the text, or the end of the text when there is none.
\<close>

theorem find_end_last_occurrence:
  assumes "first1 \<le> last1" "first2 < last2"
  shows "last_pos (occurs pred at1 last1 at2 first2 last2) first1 last1
    (std_find_end c pred at1 first1 last1 at2 first2 last2)"
  using find_end_forward_last [OF assms] find_end_bidi_last [OF assms] by (cases c) (simp_all add: std_find_end_def)

theorem find_end_last_occurrence_witness:
  "last_pos (occurs (=) ((!) ''abcabd'') 6 ((!) ''ab'') 0 2) 0 6
    (std_find_end Bidirectional (=) ((!) ''abcabd'') 0 6 ((!) ''ab'') 0 2)"
  by (rule find_end_last_occurrence) simp_all

text \<open>
  \<^verbatim>\<open>find_first_of\<close> on bytes, which builds a table of 256 bits from the second range, returns what
  the general version returns, which compares every element of the first range with all of the second.
\<close>

theorem find_first_of_table:
  assumes "first2 \<le> last2"
  shows "find_first_of_bytes at1 first1 last1 at2 first2 last2 =
    find_first_of_general (=) at1 first1 last1 at2 first2 last2"
  using assms by (rule find_first_of_bytes_general)

theorem find_first_of_table_witness:
  "find_first_of_bytes ((!) [7, 200, 3]) 0 3 ((!) [3, 200]) 0 2 = find_first_of_general (=) ((!) [7, 200, 3 :: 8 word]) 0 3 ((!) [3, 200 :: 8 word]) 0 2"
  by (rule find_first_of_table) simp

text \<open>
  On a range sorted by a strict weak order, \<^verbatim>\<open>equal_range\<close> returns exactly the positions of the
  elements equivalent to the value, and \<^verbatim>\<open>binary_search\<close> says whether there is one.
\<close>

theorem equal_range_equivalents:
  assumes "strict_weak_order lt" "ordered lt at first fin" "first \<le> fin"
  shows "(\<forall>i. first \<le> i \<and> i < fin \<longrightarrow>
        (fst (std_equal_range lt at first fin v) \<le> i \<and> i < snd (std_equal_range lt at first fin v) \<longleftrightarrow>
         \<not> lt (at i) v \<and> \<not> lt v (at i))) \<and>
    (std_binary_search lt at first fin v \<longleftrightarrow> (\<exists>i. first \<le> i \<and> i < fin \<and> \<not> lt (at i) v \<and> \<not> lt v (at i)))"
  using strict_weak_order.equal_range_class [OF assms] strict_weak_order.binary_search_found [OF assms] by blast

theorem equal_range_equivalents_witness:
  "std_binary_search (<) ((!) [1, 3, 3, 8 :: nat]) 0 4 3"
proof -
  have "ordered (<) ((!) [1, 3, 3, 8 :: nat]) 0 4"
    unfolding ordered_def by (auto simp: numeral_eq_Suc nth_Cons split: nat.splits)
  from equal_range_equivalents [OF less_order.strict_weak_order_axioms this, of 3] show ?thesis
    by (auto intro!: exI [of _ 1])
qed

end
