(* ===== verification/Stl_Sequence.thy ===== *)
theory Stl_Sequence
  imports Stl_Search
begin

text \<open>
  Algorithms of \<^verbatim>\<open>stl/_algo.h\<close> and \<^verbatim>\<open>stl/_algo.c\<close> that rewrite a range: transforming, replacing,
  generating, removing, dropping repetitions, reversing, rotating. They work on one memory, so
  that source and target may overlap; the theorems say for which overlaps the result is that
  of the list function: \<open>map\<close>, \<open>filter\<close>, \<open>remdups_adj\<close>, \<open>rev\<close>, the exchange of two adjacent blocks.
\<close>

section \<open>Ranges of a memory\<close>

definition segment :: "'a list \<Rightarrow> nat \<Rightarrow> nat \<Rightarrow> 'a list" where
  "segment mem f l = take (l - f) (drop f mem)"

lemma segment_length [simp]: "l \<le> length mem \<Longrightarrow> length (segment mem f l) = l - f"
  by (simp add: segment_def)

lemma segment_empty [simp]: "l \<le> f \<Longrightarrow> segment mem f l = []"
  by (simp add: segment_def)

lemma segment_snoc: "f \<le> l \<Longrightarrow> l < length mem \<Longrightarrow> segment mem f (Suc l) = segment mem f l @ [mem ! l]"
  by (simp add: segment_def Suc_diff_le take_Suc_conv_app_nth)

lemma segment_Cons: "f < l \<Longrightarrow> f < length mem \<Longrightarrow> segment mem f l = mem ! f # segment mem (Suc f) l"
  by (simp add: segment_def Cons_nth_drop_Suc [symmetric] Suc_diff_Suc [symmetric])

lemma segment_nth [simp]: "i < l - f \<Longrightarrow> l \<le> length mem \<Longrightarrow> segment mem f l ! i = mem ! (f + i)"
  by (simp add: segment_def)

lemma segment_append: "f \<le> m \<Longrightarrow> m \<le> l \<Longrightarrow> segment mem f l = segment mem f m @ segment mem m l"
  using take_add [of "m - f" "l - m" "drop f mem"] by (simp add: segment_def)

lemma segment_middle [simp]: "segment (pre @ xs @ post) (length pre) (length pre + length xs) = xs"
  by (simp add: segment_def)

lemma segment_split:
  assumes "f \<le> l" and "l \<le> length mem"
  shows "mem = take f mem @ segment mem f l @ drop l mem"
proof -
  have "drop f mem = segment mem f l @ drop l mem"
    using assms by (metis append_take_drop_id drop_drop le_add_diff_inverse2 segment_def)
  then show ?thesis by (metis append_take_drop_id)
qed

text \<open>What an algorithm that permutes a range does to the memory.\<close>

definition shuffled :: "nat \<Rightarrow> nat \<Rightarrow> 'a list \<Rightarrow> 'a list \<Rightarrow> bool" where
  "shuffled f l m m' \<longleftrightarrow> length m' = length m \<and> mset m' = mset m \<and> (\<forall>q. q < f \<or> l \<le> q \<longrightarrow> m' ! q = m ! q)"

lemma shuffled_refl [simp]: "shuffled f l m m"
  by (simp add: shuffled_def)

lemma shuffled_trans: "shuffled f l m m' \<Longrightarrow> shuffled f l m' m'' \<Longrightarrow> shuffled f l m m''"
  by (simp add: shuffled_def)

lemma shuffled_widen: "shuffled f l m m' \<Longrightarrow> f' \<le> f \<Longrightarrow> l \<le> l' \<Longrightarrow> shuffled f' l' m m'"
  by (simp add: shuffled_def)

lemma shuffled_length: "shuffled f l m m' \<Longrightarrow> length m' = length m"
  by (simp add: shuffled_def)

lemma shuffled_outside: "shuffled f l m m' \<Longrightarrow> q < f \<or> l \<le> q \<Longrightarrow> m' ! q = m ! q"
  by (auto simp: shuffled_def)

lemma shuffled_parts:
  assumes "shuffled f l m m'"
  shows "take f m' = take f m" "drop l m' = drop l m"
  using assms by (auto simp: shuffled_def intro!: nth_equalityI)

lemma shuffled_segment:
  assumes "shuffled f l m m'" "f \<le> l" "l \<le> length m"
  shows "mset (segment m' f l) = mset (segment m f l)"
proof -
  have "mset (take f m) + (mset (segment m' f l) + mset (drop l m)) = mset (take f m) + (mset (segment m f l) + mset (drop l m))"
    using assms segment_split [of f l m] segment_split [of f l m'] shuffled_parts [OF assms(1)]
    by (metis mset_append shuffled_def)
  then show ?thesis by simp
qed

lemma shuffled_cell:
  assumes "shuffled f l m m'" "f \<le> i" "i < l" "l \<le> length m"
  shows "\<exists>j. f \<le> j \<and> j < l \<and> m' ! i = m ! j"
proof -
  have "m' ! i \<in> set (segment m' f l)"
    using assms by (auto simp: in_set_conv_nth shuffled_def intro!: exI [of _ "i - f"])
  then have "m' ! i \<in> set (segment m f l)"
    using mset_eq_setD [OF shuffled_segment [OF assms(1)]] assms by simp
  then show ?thesis
    using assms by (auto simp: in_set_conv_nth) (metis le_add1 less_diff_conv add.commute)
qed

section \<open>The loops\<close>

definition swap_ranges :: "nat \<Rightarrow> nat \<Rightarrow> nat \<Rightarrow> 'a list \<Rightarrow> nat \<times> 'a list" where
  "swap_ranges first1 last1 first2 mem =
     fold (\<lambda>i (j, m). (Suc j, iter_swap i j m)) [first1..<last1] (first2, mem)"

definition std_transform :: "('a \<Rightarrow> 'a) \<Rightarrow> nat \<Rightarrow> nat \<Rightarrow> nat \<Rightarrow> 'a list \<Rightarrow> nat \<times> 'a list" where
  "std_transform opr first fin result mem =
     fold (\<lambda>i (r, m). (Suc r, m[r := opr (m ! i)])) [first..<fin] (result, mem)"

definition std_transform2 :: "('a \<Rightarrow> 'a \<Rightarrow> 'a) \<Rightarrow> nat \<Rightarrow> nat \<Rightarrow> nat \<Rightarrow> nat \<Rightarrow> 'a list \<Rightarrow> nat \<times> 'a list" where
  "std_transform2 binary_op first1 last1 first2 result mem =
     (let (_, r, m) = fold (\<lambda>i (j, r, m). (Suc j, Suc r, m[r := binary_op (m ! i) (m ! j)])) [first1..<last1] (first2, result, mem)
      in (r, m))"

definition replace_if :: "('a \<Rightarrow> bool) \<Rightarrow> 'a \<Rightarrow> nat \<Rightarrow> nat \<Rightarrow> 'a list \<Rightarrow> 'a list" where
  "replace_if pred new_value first fin mem =
     fold (\<lambda>i m. if pred (m ! i) then m[i := new_value] else m) [first..<fin] mem"

definition replace_copy :: "'a \<Rightarrow> 'a \<Rightarrow> nat \<Rightarrow> nat \<Rightarrow> nat \<Rightarrow> 'a list \<Rightarrow> nat \<times> 'a list" where
  "replace_copy old_value new_value first fin result mem =
     fold (\<lambda>i (r, m). (Suc r, m[r := (if m ! i = old_value then new_value else m ! i)])) [first..<fin] (result, mem)"

definition replace_copy_if :: "('a \<Rightarrow> bool) \<Rightarrow> 'a \<Rightarrow> nat \<Rightarrow> nat \<Rightarrow> nat \<Rightarrow> 'a list \<Rightarrow> nat \<times> 'a list" where
  "replace_copy_if pred new_value first fin result mem =
     fold (\<lambda>i (r, m). (Suc r, m[r := (if pred (m ! i) then new_value else m ! i)])) [first..<fin] (result, mem)"

text \<open>A generator is a function on its own state.\<close>

definition generate :: "('g \<Rightarrow> 'a \<times> 'g) \<Rightarrow> nat \<Rightarrow> nat \<Rightarrow> 'a list \<Rightarrow> 'g \<Rightarrow> 'a list \<times> 'g" where
  "generate gen first fin mem g =
     fold (\<lambda>i (m, g). let (v, g') = gen g in (m[i := v], g')) [first..<fin] (mem, g)"

fun generate_n :: "('g \<Rightarrow> 'a \<times> 'g) \<Rightarrow> nat \<Rightarrow> nat \<Rightarrow> 'a list \<Rightarrow> 'g \<Rightarrow> 'a list \<times> 'g" where
  "generate_n gen first 0 mem g = (mem, g)"
| "generate_n gen first (Suc n) mem g = (let (v, g') = gen g in generate_n gen (Suc first) n (mem[first := v]) g')"

definition remove_copy :: "'a \<Rightarrow> nat \<Rightarrow> nat \<Rightarrow> nat \<Rightarrow> 'a list \<Rightarrow> nat \<times> 'a list" where
  "remove_copy val first fin result mem =
     fold (\<lambda>i (r, m). if \<not> m ! i = val then (Suc r, m[r := m ! i]) else (r, m)) [first..<fin] (result, mem)"

definition remove_copy_if :: "('a \<Rightarrow> bool) \<Rightarrow> nat \<Rightarrow> nat \<Rightarrow> nat \<Rightarrow> 'a list \<Rightarrow> nat \<times> 'a list" where
  "remove_copy_if pred first fin result mem =
     fold (\<lambda>i (r, m). if \<not> pred (m ! i) then (Suc r, m[r := m ! i]) else (r, m)) [first..<fin] (result, mem)"

definition std_remove :: "category \<Rightarrow> 'a \<Rightarrow> nat \<Rightarrow> nat \<Rightarrow> 'a list \<Rightarrow> nat \<times> 'a list" where
  "std_remove c val first fin mem =
     (let first = std_find c ((!) mem) first fin val in
      if first = fin then (first, mem) else remove_copy val (Suc first) fin first mem)"

definition remove_if :: "category \<Rightarrow> ('a \<Rightarrow> bool) \<Rightarrow> nat \<Rightarrow> nat \<Rightarrow> 'a list \<Rightarrow> nat \<times> 'a list" where
  "remove_if c pred first fin mem =
     (let first = std_find_if c ((!) mem) first fin pred in
      if first = fin then (first, mem) else remove_copy_if pred (Suc first) fin first mem)"

text \<open>The output iterator of \<^verbatim>\<open>unique_copy\<close> may be write-only: then the last value is kept in a local.\<close>

datatype result_category = WriteOnly | Readable

definition unique_copy_output :: "('a \<Rightarrow> 'a \<Rightarrow> bool) \<Rightarrow> nat \<Rightarrow> nat \<Rightarrow> nat \<Rightarrow> 'a list \<Rightarrow> nat \<times> 'a list" where
  "unique_copy_output binary_pred first fin result mem =
     (let val = mem ! first;
          (r, m, _) = fold (\<lambda>i (r, m, val). if \<not> binary_pred val (m ! i) then (Suc r, m[Suc r := m ! i], m ! i) else (r, m, val))
                        [Suc first..<fin] (result, mem[result := val], val)
      in (Suc r, m))"

definition unique_copy_forward :: "('a \<Rightarrow> 'a \<Rightarrow> bool) \<Rightarrow> nat \<Rightarrow> nat \<Rightarrow> nat \<Rightarrow> 'a list \<Rightarrow> nat \<times> 'a list" where
  "unique_copy_forward binary_pred first fin result mem =
     (let (r, m) = fold (\<lambda>i (r, m). if \<not> binary_pred (m ! r) (m ! i) then (Suc r, m[Suc r := m ! i]) else (r, m))
                     [Suc first..<fin] (result, mem[result := mem ! first])
      in (Suc r, m))"

definition unique_copy :: "result_category \<Rightarrow> ('a \<Rightarrow> 'a \<Rightarrow> bool) \<Rightarrow> nat \<Rightarrow> nat \<Rightarrow> nat \<Rightarrow> 'a list \<Rightarrow> nat \<times> 'a list" where
  "unique_copy c binary_pred first fin result mem =
     (if first = fin then (result, mem)
      else case c of WriteOnly \<Rightarrow> unique_copy_output binary_pred first fin result mem
                   | Readable \<Rightarrow> unique_copy_forward binary_pred first fin result mem)"

definition std_unique :: "('a \<Rightarrow> 'a \<Rightarrow> bool) \<Rightarrow> nat \<Rightarrow> nat \<Rightarrow> 'a list \<Rightarrow> nat \<times> 'a list" where
  "std_unique binary_pred first fin mem =
     (let first = std_adjacent_find binary_pred ((!) mem) first fin in
      unique_copy Readable binary_pred first fin first mem)"

function reverse_bidi :: "nat \<Rightarrow> nat \<Rightarrow> 'a list \<Rightarrow> 'a list" where
  "reverse_bidi first fin mem =
     (if first < fin \<and> first < fin - 1 then reverse_bidi (Suc first) (fin - 1) (iter_swap first (fin - 1) mem) else mem)"
  by pat_completeness auto
termination
  by (relation "measure (\<lambda>(first, fin, mem). fin - first)") auto

function reverse_random :: "nat \<Rightarrow> nat \<Rightarrow> 'a list \<Rightarrow> 'a list" where
  "reverse_random first fin mem =
     (if first < fin then reverse_random (Suc first) (fin - 1) (iter_swap first (fin - 1) mem) else mem)"
  by pat_completeness auto
termination
  by (relation "measure (\<lambda>(first, fin, mem). fin - first)") auto

declare reverse_bidi.simps [simp del] reverse_random.simps [simp del]

definition std_reverse :: "category \<Rightarrow> nat \<Rightarrow> nat \<Rightarrow> 'a list \<Rightarrow> 'a list" where
  "std_reverse c first fin mem =
     (case c of Forward \<Rightarrow> reverse_bidi first fin mem | RandomAccess \<Rightarrow> reverse_random first fin mem)"

definition reverse_copy :: "nat \<Rightarrow> nat \<Rightarrow> nat \<Rightarrow> 'a list \<Rightarrow> nat \<times> 'a list" where
  "reverse_copy first fin result mem =
     fold (\<lambda>i (r, m). (Suc r, m[r := m ! i])) (rev [first..<fin]) (result, mem)"

definition rotate_copy :: "copy_kind \<Rightarrow> nat \<Rightarrow> nat \<Rightarrow> nat \<Rightarrow> nat \<Rightarrow> 'a list \<Rightarrow> nat \<times> 'a list" where
  "rotate_copy kind first middle fin result mem =
     (let (r, m) = std_copy kind middle fin result mem in std_copy kind first middle r m)"

section \<open>What is emitted one cell at a time\<close>

text \<open>
  A loop that reads cell after cell and writes, for each, at most one cell of the target: as
  long as the target starts at or before the source, no cell is overwritten before it is read.
\<close>

lemma emit_step:
  assumes "r + length ys \<le> i" "i < length mem"
  shows "(take r mem @ ys @ drop (r + length ys) mem) ! i = mem ! i"
    and "(take r mem @ ys @ drop (r + length ys) mem)[r + length ys := y] =
         take r mem @ (ys @ [y]) @ drop (r + length (ys @ [y])) mem"
proof -
  have "\<not> i - r < length ys" "i - r - length ys = i - (r + length ys)" using assms by simp_all
  with assms show "(take r mem @ ys @ drop (r + length ys) mem) ! i = mem ! i"
    by (simp add: nth_append)
  show "(take r mem @ ys @ drop (r + length ys) mem)[r + length ys := y] =
      take r mem @ (ys @ [y]) @ drop (r + length (ys @ [y])) mem"
    using assms by (simp add: list_update_append Cons_nth_drop_Suc [symmetric])
qed

lemma fold_emit:
  assumes "r \<le> f" "f \<le> l" "l \<le> length mem"
  shows "fold (\<lambda>i (r, m). case h (m ! i) of None \<Rightarrow> (r, m) | Some y \<Rightarrow> (Suc r, m[r := y])) [f..<l] (r, mem) =
     (let ys = List.map_filter h (segment mem f l) in (r + length ys, take r mem @ ys @ drop (r + length ys) mem))"
  using assms(2,3)
proof (induction l rule: dec_induct)
  case base
  then show ?case by (simp add: List.map_filter_def)
next
  case (step l)
  let ?ys = "List.map_filter h (segment mem f l)"
  have "length ?ys \<le> l - f"
    unfolding List.map_filter_def using step(4) length_filter_le [of "\<lambda>x. h x \<noteq> None" "segment mem f l"] by simp
  then have le: "r + length ?ys \<le> l" using assms(1) step(1) by simp
  have seg: "List.map_filter h (segment mem f (Suc l)) = ?ys @ (case h (mem ! l) of None \<Rightarrow> [] | Some y \<Rightarrow> [y])"
    using step by (simp add: segment_snoc List.map_filter_def split: option.split)
  show ?case
    using step emit_step [OF le, of mem] by (simp add: seg Let_def split: option.split)
qed

lemma fold_emit_map:
  assumes "r \<le> f" "f \<le> l" "l \<le> length mem"
  shows "fold (\<lambda>i (r, m). (Suc r, m[r := g (m ! i)])) [f..<l] (r, mem) =
     (r + (l - f), take r mem @ map g (segment mem f l) @ drop (r + (l - f)) mem)"
  using fold_emit [OF assms, of "\<lambda>x. Some (g x)"] assms
  by (simp add: List.map_filter_def Let_def comp_def)

lemma fold_emit_filter:
  assumes "r \<le> f" "f \<le> l" "l \<le> length mem"
  shows "fold (\<lambda>i (r, m). if \<not> P (m ! i) then (Suc r, m[r := m ! i]) else (r, m)) [f..<l] (r, mem) =
     (let ys = filter (\<lambda>x. \<not> P x) (segment mem f l) in (r + length ys, take r mem @ ys @ drop (r + length ys) mem))"
proof -
  have "(\<lambda>i (r, m). if \<not> P (m ! i) then (Suc r, m[r := m ! i]) else (r, m)) =
      (\<lambda>i (r, m). case if P (m ! i) then None else Some (m ! i) of None \<Rightarrow> (r, m) | Some y \<Rightarrow> (Suc r, m[r := y]))"
    by (auto simp: fun_eq_iff)
  moreover have "List.map_filter (\<lambda>x. if P x then None else Some x) xs = filter (\<lambda>x. \<not> P x) xs" for xs
    by (induction xs) (auto simp: List.map_filter_def)
  ultimately show ?thesis
    using fold_emit [OF assms, of "\<lambda>x. if P x then None else Some x"] by simp
qed

lemma transform_map:
  assumes "result \<le> first" "first \<le> fin" "fin \<le> length mem"
  shows "std_transform opr first fin result mem =
     (result + (fin - first), take result mem @ map opr (segment mem first fin) @ drop (result + (fin - first)) mem)"
  unfolding std_transform_def by (rule fold_emit_map [OF assms])

lemma replace_copy_map:
  assumes "result \<le> first" "first \<le> fin" "fin \<le> length mem"
  shows "replace_copy_if pred v first fin result mem =
     (result + (fin - first),
      take result mem @ map (\<lambda>x. if pred x then v else x) (segment mem first fin) @ drop (result + (fin - first)) mem)"
    and "replace_copy u v first fin result mem = replace_copy_if (\<lambda>x. x = u) v first fin result mem"
  unfolding replace_copy_if_def replace_copy_def by (rule fold_emit_map [OF assms]) simp

lemma remove_if_filter:
  assumes "first \<le> fin" "fin \<le> length mem"
  shows "remove_if c pred first fin mem =
     (let ys = filter (\<lambda>x. \<not> pred x) (segment mem first fin)
      in (first + length ys, take first mem @ ys @ drop (first + length ys) mem))"
proof -
  let ?P = "\<lambda>i. pred (mem ! i)"
  define i where "i = seek ?P first fin"
  have find: "std_find_if c ((!) mem) first fin pred = i"
    using assms find_if_random_seek by (cases c) (simp_all add: std_find_if_def i_def)
  have i: "first \<le> i" "i \<le> fin" "\<And>j. first \<le> j \<Longrightarrow> j < i \<Longrightarrow> \<not> pred (mem ! j)" "i < fin \<Longrightarrow> pred (mem ! i)"
    unfolding i_def using seek_spec [where f = first and l = fin and P = ?P] assms by auto
  have kept: "filter (\<lambda>x. \<not> pred x) (segment mem first i) = segment mem first i"
    using i assms by (auto simp: filter_id_conv in_set_conv_nth)
  show ?thesis
  proof (cases "i = fin")
    case True
    then show ?thesis
      using find kept assms segment_split [OF assms] by (simp add: remove_if_def Let_def)
  next
    case False
    then have lt: "i < fin" using i(2) by simp
    have "segment mem first fin = segment mem first i @ mem ! i # segment mem (Suc i) fin"
      using lt i assms segment_append [of first i fin mem] segment_Cons [of i fin mem] by simp
    then have fil: "filter (\<lambda>x. \<not> pred x) (segment mem first fin) =
        segment mem first i @ filter (\<lambda>x. \<not> pred x) (segment mem (Suc i) fin)"
      using kept i(4) lt by simp
    have "take i mem = take first mem @ segment mem first i"
      using i(1) by (metis le_add_diff_inverse segment_def take_add)
    then show ?thesis
      using find False lt i assms
      by (simp add: remove_if_def remove_copy_if_def Let_def fold_emit_filter fil add.assoc [symmetric])
  qed
qed

lemma remove_is_remove_if: "first \<le> fin \<Longrightarrow> std_remove c val first fin mem = remove_if c (\<lambda>x. x = val) first fin mem"
  by (cases c) (simp_all add: std_remove_def remove_if_def remove_copy_def remove_copy_if_def
      std_find_def std_find_if_def find_random_def Let_def)


section \<open>Dropping repetitions\<close>

fun uniq_after :: "('a \<Rightarrow> 'a \<Rightarrow> bool) \<Rightarrow> 'a \<Rightarrow> 'a list \<Rightarrow> 'a list" where
  "uniq_after p v [] = []"
| "uniq_after p v (x # xs) = (if p v x then uniq_after p v xs else x # uniq_after p x xs)"

fun uniq :: "('a \<Rightarrow> 'a \<Rightarrow> bool) \<Rightarrow> 'a list \<Rightarrow> 'a list" where
  "uniq p [] = []"
| "uniq p (x # xs) = x # uniq_after p x xs"

lemma uniq_after_snoc:
  "uniq_after p v (xs @ [x]) =
     uniq_after p v xs @ (if p (List.last (v # uniq_after p v xs)) x then [] else [x])"
  by (induction xs arbitrary: v) auto

lemma uniq_snoc:
  "xs \<noteq> [] \<Longrightarrow> uniq p (xs @ [x]) = uniq p xs @ (if p (List.last (uniq p xs)) x then [] else [x])"
  by (cases xs) (auto simp: uniq_after_snoc)

lemma uniq_after_length: "length (uniq_after p v xs) \<le> length xs"
  by (induction xs arbitrary: v) (auto intro: le_SucI)

lemma uniq_length: "length (uniq p xs) \<le> length xs"
  by (cases xs) (auto simp: uniq_after_length)

lemma uniq_not_empty [simp]: "uniq p xs = [] \<longleftrightarrow> xs = []"
  by (cases xs) auto

lemma uniq_remdups_adj: "uniq (=) xs = remdups_adj xs"
proof -
  have "v # uniq_after (=) v ys = remdups_adj (v # ys)" for v :: 'a and ys
    by (induction ys arbitrary: v) auto
  then show ?thesis by (cases xs) auto
qed

lemma unique_copy_forward_uniq:
  assumes "result \<le> first" "first < fin" "fin \<le> length mem"
  shows "unique_copy_forward p first fin result mem =
     (let ys = uniq p (segment mem first fin)
      in (result + length ys, take result mem @ ys @ drop (result + length ys) mem))"
proof -
  let ?st = "\<lambda>ys. (result + length ys - 1, take result mem @ ys @ drop (result + length ys) mem)"
  let ?body = "\<lambda>i (r, m). if \<not> p (m ! r) (m ! i) then (Suc r, m[Suc r := m ! i]) else (r, m)"
  have "Suc first \<le> fin" using assms(2) by simp
  then have "fold ?body [Suc first..<fin] (result, mem[result := mem ! first]) = ?st (uniq p (segment mem first fin))"
    using assms(3)
  proof (induction fin rule: dec_induct)
    case base
    then show ?case
      using assms emit_step(2) [of result "[]" first mem "mem ! first"] by (simp add: segment_Cons)
  next
    case (step l)
    let ?ys = "uniq p (segment mem first l)"
    have ne: "segment mem first l \<noteq> []" using step by (auto simp: segment_Cons)
    have "length ?ys \<le> l - first" using uniq_length [of p "segment mem first l"] step by simp
    then have le: "result + length ?ys \<le> l" using assms(1) step(1) by simp
    have pos: "length ?ys > 0" using ne by simp
    have top: "(take result mem @ ?ys @ drop (result + length ?ys) mem) ! (result + length ?ys - 1) = List.last ?ys"
    proof -
      have "\<not> result + length ?ys - 1 < result" "result + length ?ys - 1 - result = length ?ys - 1" "result \<le> length mem"
        using pos assms by linarith+
      then show ?thesis using pos ne by (simp add: nth_append last_conv_nth)
    qed
    show ?case
      using step uniq_snoc [OF ne, of p "mem ! l"] emit_step [OF le, of mem] top pos
      by (simp add: segment_snoc del: uniq_not_empty)
  qed
  then show ?thesis
    using assms by (simp add: unique_copy_forward_def Let_def segment_Cons)
qed

lemma unique_copy_output_forward:
  assumes "result \<le> first" "first < fin" "fin \<le> length mem"
  shows "unique_copy_output p first fin result mem = unique_copy_forward p first fin result mem"
proof -
  let ?f = "\<lambda>i (r, m). if \<not> p (m ! r) (m ! i) then (Suc r, m[Suc r := m ! i]) else (r, m)"
  let ?o = "\<lambda>i (r, m, val). if \<not> p val (m ! i) then (Suc r, m[Suc r := m ! i], m ! i) else (r, m, val)"
  have "Suc first \<le> fin" using assms(2) by simp
  then have "fold ?o [Suc first..<fin] (result, mem[result := mem ! first], mem ! first) =
      (let (r, m) = fold ?f [Suc first..<fin] (result, mem[result := mem ! first]) in (r, m, m ! r)) \<and>
      fst (fold ?f [Suc first..<fin] (result, mem[result := mem ! first])) < fin \<and>
      length (snd (fold ?f [Suc first..<fin] (result, mem[result := mem ! first]))) = length mem"
    using assms(3)
    by (induction fin rule: dec_induct) (use assms in \<open>auto simp: case_prod_beta Let_def\<close>)
  then show ?thesis by (simp add: unique_copy_output_def unique_copy_forward_def Let_def case_prod_beta)
qed

lemma uniq_after_keeps:
  assumes "\<And>j. Suc j < length (v # xs) \<Longrightarrow> \<not> p ((v # xs) ! j) ((v # xs) ! Suc j)"
  shows "uniq_after p v (xs @ ys) = xs @ uniq_after p (List.last (v # xs)) ys"
  using assms
proof (induction xs arbitrary: v)
  case (Cons x xs)
  have "\<not> p v x" using Cons.prems [of 0] by simp
  moreover have "uniq_after p x (xs @ ys) = xs @ uniq_after p (List.last (x # xs)) ys"
    using Cons.prems by (intro Cons.IH) force
  ultimately show ?case by simp
qed simp

lemma uniq_keeps:
  assumes "\<And>j. Suc j \<le> length xs \<Longrightarrow> \<not> p ((xs @ [y]) ! j) ((xs @ [y]) ! Suc j)"
  shows "uniq p (xs @ y # ys) = xs @ uniq p (y # ys)"
proof (cases xs)
  case (Cons x zs)
  then show ?thesis
    using uniq_after_keeps [of x "zs @ [y]" p ys] assms by (force simp: nth_append)
qed simp

lemma unique_uniq:
  assumes "first \<le> fin" "fin \<le> length mem"
  shows "std_unique p first fin mem =
     (let ys = uniq p (segment mem first fin)
      in (first + length ys, take first mem @ ys @ drop (first + length ys) mem))"
proof (cases "first = fin")
  case True
  then show ?thesis by (simp add: std_unique_def std_adjacent_find_def unique_copy_def)
next
  case False
  let ?P = "\<lambda>i. p (mem ! (i - Suc 0)) (mem ! i)"
  define k where "k = seek ?P (Suc first) fin"
  have k: "Suc first \<le> k" "k \<le> fin" "\<And>j. Suc first \<le> j \<Longrightarrow> j < k \<Longrightarrow> \<not> ?P j"
    unfolding k_def using seek_spec [where f = "Suc first" and l = fin and P = ?P] assms False by auto
  have split: "take i mem = take first mem @ segment mem first i" if "first \<le> i" for i
    using that by (metis le_add_diff_inverse segment_def take_add)
  have apart: "\<not> p (segment mem first k ! j) (segment mem first k ! Suc j)" if "Suc j < k - first" for j
    using k(3) [of "Suc (first + j)"] that k(2) assms by simp
  have seg: "segment mem first k = segment mem first (k - Suc 0) @ [mem ! (k - Suc 0)]"
    using segment_snoc [of first "k - Suc 0" mem] k assms by simp
  have keeps: "uniq p (segment mem first (k - Suc 0) @ mem ! (k - Suc 0) # ys) = segment mem first (k - Suc 0) @ uniq p (mem ! (k - Suc 0) # ys)" for ys
    by (rule uniq_keeps, unfold seg [symmetric], rule apart) (use k assms in auto)
  show ?thesis
  proof (cases "k < fin")
    case True
    have "segment mem (k - Suc 0) fin = mem ! (k - Suc 0) # segment mem k fin"
      using segment_Cons [of "k - Suc 0" fin mem] True k assms by simp
    moreover from this have "segment mem first fin = segment mem first (k - Suc 0) @ mem ! (k - Suc 0) # segment mem k fin"
      using segment_append [of first "k - Suc 0" fin mem] True k by simp
    moreover have "std_adjacent_find p ((!) mem) first fin = k - Suc 0"
      using True False by (simp add: std_adjacent_find_def k_def Let_def)
    then have "std_unique p first fin mem = unique_copy_forward p (k - Suc 0) fin (k - Suc 0) mem"
      using True k by (auto simp: std_unique_def unique_copy_def Let_def)
    moreover have "k - Suc 0 = first + length (segment mem first (k - Suc 0))" using k assms by simp
    then have "k - Suc 0 + n = first + (length (segment mem first (k - Suc 0)) + n)" for n by simp
    ultimately show ?thesis
      using keeps split [of "k - Suc 0"] unique_copy_forward_uniq [of "k - Suc 0" "k - Suc 0" fin mem p] True k assms
      by (simp add: Let_def del: uniq.simps)
  next
    case over: False
    then have "uniq p (segment mem first fin) = segment mem first fin"
      using keeps [of "[]"] seg k by simp
    then show ?thesis
      using over False k assms segment_split [OF assms]
      by (simp add: std_unique_def std_adjacent_find_def unique_copy_def k_def [symmetric] Let_def)
  qed
qed

section \<open>Reversing\<close>

lemma iter_swap_ends:
  "iter_swap (length pre) (length pre + Suc (length mid)) (pre @ a # mid @ b # post) = pre @ b # mid @ a # post"
  by (simp add: iter_swap_def std_swap_def Let_def nth_append list_update_append)

lemma iter_swap_self [simp]: "iter_swap i i mem = mem"
  by (simp add: iter_swap_def std_swap_def Let_def)

lemma two_ends_cases:
  obtains "xs = []" | a where "xs = [a]" | a ys b where "xs = a # ys @ [b]"
  by (metis neq_Nil_conv rev_exhaust)

lemma reverse_bidi_rev:
  "reverse_bidi (length pre) (length pre + length xs) (pre @ xs @ post) = pre @ rev xs @ post"
proof (induction "length xs" arbitrary: pre xs post rule: less_induct)
  case less
  show ?case
  proof (cases xs rule: two_ends_cases)
    case (3 a ys b)
    then show ?thesis
      using less [of ys "pre @ [b]" "a # post"] iter_swap_ends [of pre ys a b post]
      by (subst reverse_bidi.simps) simp
  qed (subst reverse_bidi.simps, simp)+
qed

lemma reverse_random_rev:
  "reverse_random (length pre) (length pre + length xs) (pre @ xs @ post) = pre @ rev xs @ post"
proof (induction "length xs" arbitrary: pre xs post rule: less_induct)
  case less
  show ?case
  proof (cases xs rule: two_ends_cases)
    case 1
    then show ?thesis by (subst reverse_random.simps) simp
  next
    case (2 a)
    then show ?thesis by (subst reverse_random.simps, subst reverse_random.simps) simp
  next
    case (3 a ys b)
    then show ?thesis
      using less [of ys "pre @ [b]" "a # post"] iter_swap_ends [of pre ys a b post]
      by (subst reverse_random.simps) simp
  qed
qed

lemma reverse_rev: "std_reverse c (length pre) (length pre + length xs) (pre @ xs @ post) = pre @ rev xs @ post"
  by (cases c) (simp_all add: std_reverse_def reverse_bidi_rev reverse_random_rev)

lemma swap_ranges_blocks:
  assumes "length xs = length ys"
  shows "swap_ranges (length pre) (length pre + length xs) (length pre + length xs + length mid) (pre @ xs @ mid @ ys @ post) =
     (length pre + length xs + length mid + length ys, pre @ ys @ mid @ xs @ post)"
  using assms unfolding swap_ranges_def
proof (induction xs ys arbitrary: pre mid rule: list_induct2)
  case (Cons x xs y ys)
  have "[length pre..<length pre + length (x # xs)] = length pre # [Suc (length pre)..<Suc (length pre) + length xs]"
    by (subst upt_conv_Cons) simp_all
  with Cons.IH [of "pre @ [y]" "mid @ [x]"] iter_swap_ends [of pre "xs @ mid" x y "ys @ post"] Cons.hyps
  show ?case by (simp add: ac_simps)
qed simp

section \<open>Rotating\<close>

text \<open>
  The exchange of two adjacent blocks, three times. For forward iterators cells are swapped
  one after the other while the boundary \<^verbatim>\<open>middle\<close> moves up. The second loop may, as written, run
  forever on nonsense positions: \<open>None\<close> would be a loop that does not end.
\<close>

function rotate_forward_pass :: "nat \<Rightarrow> nat \<Rightarrow> nat \<Rightarrow> nat \<Rightarrow> 'a list \<Rightarrow> nat \<times> nat \<times> 'a list" where
  "rotate_forward_pass first middle first2 fin mem =
     (let m = iter_swap first first2 mem; first = Suc first; first2 = Suc first2;
          middle = (if first = middle then first2 else middle)
      in if first2 < fin then rotate_forward_pass first middle first2 fin m else (first, middle, m))"
  by pat_completeness auto
termination
  by (relation "measure (\<lambda>(first, middle, first2, fin, mem). fin - first2)") auto

declare rotate_forward_pass.simps [simp del]

partial_function (option) rotate_forward_loop :: "nat \<Rightarrow> nat \<Rightarrow> nat \<Rightarrow> nat \<Rightarrow> 'a list \<Rightarrow> 'a list option" where
  "rotate_forward_loop first middle first2 fin mem =
     (if first2 = fin then Some mem
      else let m = iter_swap first first2 mem; first = Suc first; first2 = Suc first2
           in if first = middle then rotate_forward_loop first first2 first2 fin m
              else if first2 = fin then rotate_forward_loop first middle middle fin m
              else rotate_forward_loop first middle first2 fin m)"

definition rotate_forward :: "nat \<Rightarrow> nat \<Rightarrow> nat \<Rightarrow> 'a list \<Rightarrow> (nat \<times> 'a list) option" where
  "rotate_forward first middle fin mem =
     (if first = middle then Some (fin, mem)
      else if fin = middle then Some (first, mem)
      else let (new_middle, middle, m) = rotate_forward_pass first middle middle fin mem
           in map_option (Pair new_middle) (rotate_forward_loop new_middle middle middle fin m))"

function rotate_bidi_loop :: "nat \<Rightarrow> nat \<Rightarrow> nat \<Rightarrow> 'a list \<Rightarrow> nat \<times> nat \<times> 'a list" where
  "rotate_bidi_loop first middle fin mem =
     (if first < middle \<and> middle < fin then rotate_bidi_loop (Suc first) middle (fin - 1) (iter_swap first (fin - 1) mem)
      else (first, fin, mem))"
  by pat_completeness auto
termination
  by (relation "measure (\<lambda>(first, middle, fin, mem). middle - first)") auto

declare rotate_bidi_loop.simps [simp del]

definition rotate_bidi :: "nat \<Rightarrow> nat \<Rightarrow> nat \<Rightarrow> 'a list \<Rightarrow> nat \<times> 'a list" where
  "rotate_bidi first middle fin mem =
     (if first = middle then (fin, mem)
      else if fin = middle then (first, mem)
      else let m1 = reverse_bidi first middle mem; m2 = reverse_bidi middle fin m1;
               (first, fin, m3) = rotate_bidi_loop first middle fin m2
           in if first = middle then (fin, reverse_bidi middle fin m3)
              else (first, reverse_bidi first middle m3))"

lemma rotate_forward_pass_blocks:
  assumes "u \<noteq> []" "w \<noteq> []"
  shows "\<exists>pre' u' v'. rotate_forward_pass (length pre) (length pre + length u) (length pre + length u + length v)
      (length pre + length u + length v + length w) (pre @ u @ v @ w @ post) =
      (length pre', length pre' + length u', pre' @ u' @ v' @ post) \<and>
      length pre' = length pre + length w \<and> u' \<noteq> [] \<and> pre' @ v' @ u' = pre @ w @ v @ u"
  using assms
proof (induction w arbitrary: pre u v)
  case (Cons b w)
  then obtain a u1 where u: "u = a # u1" by (cases u) auto
  have swap: "iter_swap (length pre) (length pre + length u + length v) (pre @ u @ v @ (b # w) @ post) =
      (pre @ [b]) @ u1 @ (v @ [a]) @ w @ post"
    using iter_swap_ends [of pre "u1 @ v" a b "w @ post"] by (simp add: u add.assoc)
  show ?case
  proof (cases w)
    case Nil
    then have "rotate_forward_pass (length pre) (length pre + length u) (length pre + length u + length v)
        (length pre + length u + length v + length (b # w)) (pre @ u @ v @ (b # w) @ post) =
        (let u' = if u1 = [] then v @ [a] else u1; v' = if u1 = [] then [] else v @ [a]
         in (length (pre @ [b]), length (pre @ [b]) + length u', (pre @ [b]) @ u' @ v' @ post))"
      using swap by (subst rotate_forward_pass.simps) (auto simp: u Let_def)
    then show ?thesis
      using Nil by (intro exI [of _ "pre @ [b]"] exI [of _ "if u1 = [] then v @ [a] else u1"]
        exI [of _ "if u1 = [] then [] else v @ [a]"]) (auto simp: u Let_def)
  next
    case (Cons c ws)
    show ?thesis
    proof (cases "u1 = []")
      case True
      have "rotate_forward_pass (length pre) (length pre + length u) (length pre + length u + length v)
          (length pre + length u + length v + length (b # w)) (pre @ u @ v @ (b # w) @ post) =
          rotate_forward_pass (length (pre @ [b])) (length (pre @ [b]) + length (v @ [a])) (length (pre @ [b]) + length (v @ [a]) + length [])
          (length (pre @ [b]) + length (v @ [a]) + length [] + length w) ((pre @ [b]) @ (v @ [a]) @ [] @ w @ post)"
        using swap True Cons by (subst rotate_forward_pass.simps) (simp add: u Let_def)
      then show ?thesis
        using Cons.IH [of "v @ [a]" "pre @ [b]" "[]"] Cons True by (simp add: u)
    next
      case False
      have "rotate_forward_pass (length pre) (length pre + length u) (length pre + length u + length v)
          (length pre + length u + length v + length (b # w)) (pre @ u @ v @ (b # w) @ post) =
          rotate_forward_pass (length (pre @ [b])) (length (pre @ [b]) + length u1) (length (pre @ [b]) + length u1 + length (v @ [a]))
          (length (pre @ [b]) + length u1 + length (v @ [a]) + length w) ((pre @ [b]) @ u1 @ (v @ [a]) @ w @ post)"
        using swap False Cons by (subst rotate_forward_pass.simps) (simp add: u Let_def)
      then show ?thesis
        using Cons.IH [of u1 "pre @ [b]" "v @ [a]"] Cons False by (simp add: u)
    qed
  qed
qed simp

lemma rotate_forward_loop_blocks:
  assumes "u \<noteq> []" "w = [] \<longrightarrow> v = []"
  shows "rotate_forward_loop (length pre) (length pre + length u) (length pre + length u + length v)
      (length pre + length u + length v + length w) (pre @ u @ v @ w @ post) = Some (pre @ w @ v @ u @ post)"
  using assms
proof (induction "length u + length v + length w" arbitrary: pre u v w rule: less_induct)
  case less
  show ?case
  proof (cases w)
    case Nil
    with less.prems show ?thesis by (subst rotate_forward_loop.simps) simp
  next
    case (Cons b w')
    from less.prems obtain a u1 where u: "u = a # u1" by (cases u) auto
    have swap: "iter_swap (length pre) (length pre + length u + length v) (pre @ u @ v @ w @ post) =
        (pre @ [b]) @ u1 @ (v @ [a]) @ w' @ post"
      using iter_swap_ends [of pre "u1 @ v" a b "w' @ post"] by (simp add: u Cons add.assoc)
    consider "u1 = []" | "u1 \<noteq> []" "w' = []" | "u1 \<noteq> []" "w' \<noteq> []" by blast
    then show ?thesis
    proof cases
      case 1
      then show ?thesis
        using less.hyps [of "v @ [a]" "[]" w' "pre @ [b]"] swap
        by (subst rotate_forward_loop.simps) (simp add: u Cons Let_def)
    next
      case 2
      then show ?thesis
        using less.hyps [of u1 "[]" "v @ [a]" "pre @ [b]"] swap
        by (subst rotate_forward_loop.simps) (simp add: u Cons Let_def)
    next
      case 3
      then show ?thesis
        using less.hyps [of u1 "v @ [a]" w' "pre @ [b]"] swap
        by (subst rotate_forward_loop.simps) (simp add: u Cons Let_def)
    qed
  qed
qed

lemma rotate_forward_blocks:
  "rotate_forward (length pre) (length pre + length xs) (length pre + length xs + length ys) (pre @ xs @ ys @ post) =
     Some (length pre + length ys, pre @ ys @ xs @ post)"
proof (cases "xs = [] \<or> ys = []")
  case True
  then show ?thesis by (auto simp: rotate_forward_def)
next
  case False
  obtain pre' u v where p: "rotate_forward_pass (length pre) (length pre + length xs) (length pre + length xs)
      (length pre + length xs + length ys) (pre @ xs @ ys @ post) = (length pre', length pre' + length u, pre' @ u @ v @ post)"
    and "length pre' = length pre + length ys" "u \<noteq> []" and eq: "pre' @ v @ u = pre @ ys @ xs"
    using rotate_forward_pass_blocks [of xs ys pre "[]" post] False by auto
  have len: "length pre + length xs + length ys = length pre' + length u + length v"
    using arg_cong [OF eq, of length] by simp
  have "pre' @ v @ u @ post = pre @ ys @ xs @ post" using eq by (metis append.assoc)
  then have "rotate_forward_loop (length pre') (length pre' + length u) (length pre' + length u)
      (length pre + length xs + length ys) (pre' @ u @ v @ post) = Some (pre @ ys @ xs @ post)"
    using rotate_forward_loop_blocks [of u v "[]" pre' post] \<open>u \<noteq> []\<close> by (simp add: len)
  then show ?thesis
    using False \<open>length pre' = _\<close> by (simp add: rotate_forward_def p)
qed

lemma rotate_bidi_loop_blocks:
  "\<exists>pre' u' v' post'. rotate_bidi_loop (length pre) (length pre + length u) (length pre + length u + length v) (pre @ u @ v @ post) =
      (length pre', length pre' + length u' + length v', pre' @ u' @ v' @ post') \<and>
      length pre' + length u' = length pre + length u \<and> (u' = [] \<or> v' = []) \<and>
      pre' @ rev v' @ rev u' @ post' = pre @ rev v @ rev u @ post \<and> length pre' + length v' = length pre + length v"
proof (induction "length u" arbitrary: pre u v post)
  case 0
  then show ?case
    by (subst rotate_bidi_loop.simps, intro exI [of _ pre] exI [of _ "[]"] exI [of _ v] exI [of _ post]) simp
next
  case (Suc n)
  from Suc(2) obtain a u1 where u: "u = a # u1" by (cases u) auto
  show ?case
  proof (cases v rule: rev_cases)
    case Nil
    then show ?thesis
      by (subst rotate_bidi_loop.simps, intro exI [of _ pre] exI [of _ u] exI [of _ "[]"] exI [of _ post]) simp
  next
    case (snoc v1 b)
    have "rotate_bidi_loop (length pre) (length pre + length u) (length pre + length u + length v) (pre @ u @ v @ post) =
        rotate_bidi_loop (length (pre @ [b])) (length (pre @ [b]) + length u1) (length (pre @ [b]) + length u1 + length v1)
          ((pre @ [b]) @ u1 @ v1 @ a # post)"
      using iter_swap_ends [of pre "u1 @ v1" a b post]
      by (subst rotate_bidi_loop.simps) (simp add: u snoc add.assoc)
    then show ?thesis
      using Suc(1) [of u1 "pre @ [b]" v1 "a # post"] Suc(2) by (simp add: u snoc)
  qed
qed

lemma rotate_bidi_blocks:
  "rotate_bidi (length pre) (length pre + length xs) (length pre + length xs + length ys) (pre @ xs @ ys @ post) =
     (length pre + length ys, pre @ ys @ xs @ post)"
proof (cases "xs = [] \<or> ys = []")
  case True
  then show ?thesis by (auto simp: rotate_bidi_def)
next
  case False
  have r2: "reverse_bidi (length pre + length xs) (length pre + length xs + length ys) (pre @ rev xs @ ys @ post) = pre @ rev xs @ rev ys @ post"
    using reverse_bidi_rev [of "pre @ rev xs" ys post] by simp
  obtain pre' u v post' where l: "rotate_bidi_loop (length pre) (length pre + length xs) (length pre + length xs + length ys) (pre @ rev xs @ rev ys @ post) =
      (length pre', length pre' + length u + length v, pre' @ u @ v @ post')"
    and len: "length pre' + length u = length pre + length xs" "length pre' + length v = length pre + length ys"
    and stop: "u = [] \<or> v = []" and eq: "pre' @ rev v @ rev u @ post' = pre @ ys @ xs @ post"
    using rotate_bidi_loop_blocks [of pre "rev xs" "rev ys" post] unfolding length_rev rev_rev_ident by blast
  have ends: "reverse_bidi (length pre') (length pre' + length v) (pre' @ v @ post') = pre' @ rev v @ post'"
    "reverse_bidi (length pre') (length pre + length xs) (pre' @ u @ post') = pre' @ rev u @ post'"
    using reverse_bidi_rev [of pre' v post'] reverse_bidi_rev [of pre' u post'] len by simp_all
  show ?thesis
    using False stop len eq ends reverse_bidi_rev [of pre xs "ys @ post"]
    by (cases "u = []") (auto simp: rotate_bidi_def r2 l Let_def)
qed

end
