(* ===== verification/Stl_Heap.thy ===== *)
theory Stl_Heap
  imports Stl_Sequence
begin

text \<open>
  Binary heaps (\<^verbatim>\<open>stl/_heap.h\<close>, \<^verbatim>\<open>stl/_heap.c\<close>, \<^verbatim>\<open>is_heap\<close> of \<^verbatim>\<open>stl/_algo.c\<close>): pushing, popping, building, sorting.
  A loop keeps a hole: a cell whose content is stale because its value is still on the way.
  Index \<open>i\<close> of a heap at \<open>first\<close> is the cell \<open>first + i\<close>; the parent of \<open>i\<close> is \<open>(i - 1) div 2\<close>.
\<close>

section \<open>The code\<close>

function push_hole :: "('a \<Rightarrow> 'a \<Rightarrow> bool) \<Rightarrow> nat \<Rightarrow> nat \<Rightarrow> nat \<Rightarrow> 'a \<Rightarrow> 'a list \<Rightarrow> 'a list" where
  "push_hole lt first holeIndex topIndex val mem =
     (let parent = (holeIndex - 1) div 2 in
      if holeIndex > topIndex \<and> lt (mem ! (first + parent)) val
      then push_hole lt first parent topIndex val (mem[first + holeIndex := mem ! (first + parent)])
      else mem[first + holeIndex := val])"
  by pat_completeness auto
termination
  by (relation "measure (\<lambda>(lt, first, holeIndex, topIndex, val, mem). holeIndex)") auto

declare push_hole.simps [simp del]

definition std_push_heap :: "('a \<Rightarrow> 'a \<Rightarrow> bool) \<Rightarrow> nat \<Rightarrow> nat \<Rightarrow> 'a list \<Rightarrow> 'a list" where
  "std_push_heap lt first fin mem = push_hole lt first (fin - first - 1) 0 (mem ! (fin - 1)) mem"

function adjust_loop :: "('a \<Rightarrow> 'a \<Rightarrow> bool) \<Rightarrow> nat \<Rightarrow> nat \<Rightarrow> nat \<Rightarrow> nat \<Rightarrow> 'a list \<Rightarrow> nat \<times> nat \<times> 'a list" where
  "adjust_loop lt first holeIndex secondChild len mem =
     (if secondChild < len then
        let child = (if lt (mem ! (first + secondChild)) (mem ! (first + (secondChild - 1))) then secondChild - 1 else secondChild)
        in adjust_loop lt first child (2 * (child + 1)) len (mem[first + holeIndex := mem ! (first + child)])
      else (holeIndex, secondChild, mem))"
  by pat_completeness auto
termination
  by (relation "measure (\<lambda>(lt, first, holeIndex, secondChild, len, mem). len - secondChild)") (auto simp: Let_def split: if_splits)

declare adjust_loop.simps [simp del]

definition adjust_heap :: "('a \<Rightarrow> 'a \<Rightarrow> bool) \<Rightarrow> nat \<Rightarrow> nat \<Rightarrow> nat \<Rightarrow> 'a \<Rightarrow> 'a list \<Rightarrow> 'a list" where
  "adjust_heap lt first holeIndex len val mem =
     (let topIndex = holeIndex;
          (holeIndex, secondChild, m) = adjust_loop lt first holeIndex (2 * holeIndex + 2) len mem;
          (holeIndex, m) = (if secondChild = len then (secondChild - 1, m[first + holeIndex := m ! (first + (secondChild - 1))])
                            else (holeIndex, m))
      in push_hole lt first holeIndex topIndex val m)"

definition pop_heap_to :: "('a \<Rightarrow> 'a \<Rightarrow> bool) \<Rightarrow> nat \<Rightarrow> nat \<Rightarrow> nat \<Rightarrow> 'a \<Rightarrow> 'a list \<Rightarrow> 'a list" where
  "pop_heap_to lt first fin result val mem = adjust_heap lt first 0 (fin - first) val (mem[result := mem ! first])"

definition std_pop_heap :: "('a \<Rightarrow> 'a \<Rightarrow> bool) \<Rightarrow> nat \<Rightarrow> nat \<Rightarrow> 'a list \<Rightarrow> 'a list" where
  "std_pop_heap lt first fin mem = pop_heap_to lt first (fin - 1) (fin - 1) (mem ! (fin - 1)) mem"

fun make_heap_loop :: "('a \<Rightarrow> 'a \<Rightarrow> bool) \<Rightarrow> nat \<Rightarrow> nat \<Rightarrow> nat \<Rightarrow> 'a list \<Rightarrow> 'a list" where
  "make_heap_loop lt first len parent mem =
     (let m = adjust_heap lt first parent len (mem ! (first + parent)) mem in
      case parent of 0 \<Rightarrow> m | Suc p \<Rightarrow> make_heap_loop lt first len p m)"

declare make_heap_loop.simps [simp del]

definition std_make_heap :: "('a \<Rightarrow> 'a \<Rightarrow> bool) \<Rightarrow> nat \<Rightarrow> nat \<Rightarrow> 'a list \<Rightarrow> 'a list" where
  "std_make_heap lt first fin mem =
     (if fin - first < 2 then mem
      else let len = fin - first in make_heap_loop lt first len ((len - 2) div 2) mem)"

function sort_heap :: "('a \<Rightarrow> 'a \<Rightarrow> bool) \<Rightarrow> nat \<Rightarrow> nat \<Rightarrow> 'a list \<Rightarrow> 'a list" where
  "sort_heap lt first fin mem = (if fin - first > 1 then sort_heap lt first (fin - 1) (std_pop_heap lt first fin mem) else mem)"
  by pat_completeness auto
termination
  by (relation "measure (\<lambda>(lt, first, fin, mem). fin - first)") auto

declare sort_heap.simps [simp del]

function is_heap_loop :: "('a \<Rightarrow> 'a \<Rightarrow> bool) \<Rightarrow> (nat \<Rightarrow> 'a) \<Rightarrow> nat \<Rightarrow> nat \<Rightarrow> nat \<Rightarrow> nat \<Rightarrow> bool" where
  "is_heap_loop lt at first parent child n =
     (if child < n then
        if lt (at (first + parent)) (at (first + child)) then False
        else is_heap_loop lt at first (if child mod 2 = 0 then Suc parent else parent) (Suc child) n
      else True)"
  by pat_completeness auto
termination
  by (relation "measure (\<lambda>(lt, at, first, parent, child, n). n - child)") auto

declare is_heap_loop.simps [simp del]

definition std_is_heap :: "('a \<Rightarrow> 'a \<Rightarrow> bool) \<Rightarrow> (nat \<Rightarrow> 'a) \<Rightarrow> nat \<Rightarrow> nat \<Rightarrow> bool" where
  "std_is_heap lt at first fin = is_heap_loop lt at first 0 1 (fin - first)"

section \<open>What the loops leave alone\<close>

lemma push_hole_length [simp]: "length (push_hole lt f h t v m) = length m"
  by (induction lt f h t v m rule: push_hole.induct) (subst push_hole.simps, simp add: Let_def)

lemma adjust_loop_length [simp]: "length (snd (snd (adjust_loop lt f h s n m))) = length m"
  by (induction lt f h s n m rule: adjust_loop.induct) (subst adjust_loop.simps, simp add: Let_def)

lemma adjust_heap_length [simp]: "length (adjust_heap lt f h n v m) = length m"
  using adjust_loop_length [of lt f h "2 * h + 2" n m]
  by (auto simp: adjust_heap_def Let_def case_prod_beta simp del: adjust_loop_length)

lemma mset_pass_on:
  assumes "h \<noteq> c" "h < length m" "c < length m"
  shows "mset ((m[h := m ! c])[c := v]) = mset (m[h := v])"
  using assms by (simp add: mset_update nth_list_update)

lemma push_hole_frame:
  assumes "f + h < length m"
  shows "mset (push_hole lt f h t v m) = mset (m[f + h := v])"
    and "\<And>q. q < f \<or> f + h < q \<Longrightarrow> push_hole lt f h t v m ! q = m ! q"
proof -
  have "mset (push_hole lt f h t v m) = mset (m[f + h := v]) \<and> (\<forall>q. q < f \<or> f + h < q \<longrightarrow> push_hole lt f h t v m ! q = m ! q)"
    using assms
  proof (induction lt f h t v m rule: push_hole.induct)
    case (1 lt f h t v m)
    let ?p = "(h - 1) div 2"
    show ?case
    proof (cases "h > t \<and> lt (m ! (f + ?p)) v")
      case True
      then have p: "?p < h" by auto
      have "push_hole lt f h t v m = push_hole lt f ?p t v (m[f + h := m ! (f + ?p)])"
        using True by (subst push_hole.simps) (simp add: Let_def)
      moreover have "mset (m[f + h := m ! (f + ?p), f + ?p := v]) = mset (m[f + h := v])"
        using mset_pass_on [of "f + h" "f + ?p" m v] p 1(2) by simp
      ultimately show ?thesis using 1(1) [OF refl True] p 1(2) by simp
    next
      case False
      then show ?thesis by (subst push_hole.simps, subst (2) push_hole.simps) (auto simp: Let_def)
    qed
  qed
  then show "mset (push_hole lt f h t v m) = mset (m[f + h := v])"
    and "\<And>q. q < f \<or> f + h < q \<Longrightarrow> push_hole lt f h t v m ! q = m ! q" by auto
qed

lemma adjust_loop_frame:
  assumes "h < n" "s = 2 * h + 2" "f + n \<le> length m" "adjust_loop lt f h s n m = (h', s', m')"
  shows "h' < n" "s' = 2 * h' + 2" "n \<le> s'" "mset (m'[f + h' := v]) = mset (m[f + h := v])"
    "\<And>q. q < f \<or> f + n \<le> q \<Longrightarrow> m' ! q = m ! q" "length m' = length m"
proof -
  have "h' < n \<and> s' = 2 * h' + 2 \<and> n \<le> s' \<and> mset (m'[f + h' := v]) = mset (m[f + h := v]) \<and>
      (\<forall>q. q < f \<or> f + n \<le> q \<longrightarrow> m' ! q = m ! q) \<and> length m' = length m"
    using assms
  proof (induction lt f h s n m rule: adjust_loop.induct)
    case (1 lt f h s n m)
    show ?case
    proof (cases "s < n")
      case True
      define c where "c = (if lt (m ! (f + s)) (m ! (f + (s - 1))) then s - 1 else s)"
      have c: "h < c" "c < n" using True 1(3) by (auto simp: c_def)
      have eq: "adjust_loop lt f h s n m = adjust_loop lt f c (2 * (c + 1)) n (m[f + h := m ! (f + c)])"
        using True by (subst adjust_loop.simps) (simp add: Let_def c_def)
      have "mset (m[f + h := m ! (f + c), f + c := v]) = mset (m[f + h := v])"
        using mset_pass_on [of "f + h" "f + c" m v] c 1(4) by simp
      then show ?thesis
        using 1(1) [OF True, unfolded c_def [symmetric], OF refl c(2)] c 1(2-) eq by simp
    next
      case False
      then have "h' = h \<and> s' = s \<and> m' = m" using 1(5) by (simp add: adjust_loop.simps [of lt f h s])
      with False 1(2-) show ?thesis by simp
    qed
  qed
  then show "h' < n" "s' = 2 * h' + 2" "n \<le> s'" "mset (m'[f + h' := v]) = mset (m[f + h := v])"
    "\<And>q. q < f \<or> f + n \<le> q \<Longrightarrow> m' ! q = m ! q" "length m' = length m" by auto
qed

lemma adjust_heap_frame:
  assumes "h < n" "f + n \<le> length m"
  shows "mset (adjust_heap lt f h n v m) = mset (m[f + h := v])"
    and "\<And>q. q < f \<or> f + n \<le> q \<Longrightarrow> adjust_heap lt f h n v m ! q = m ! q"
proof -
  obtain h' s m' where l: "adjust_loop lt f h (2 * h + 2) n m = (h', s, m')" by (metis prod_cases3)
  note fr = adjust_loop_frame [OF assms(1) refl assms(2) l]
  define g where "g = (if s = n then (s - 1, m'[f + h' := m' ! (f + (s - 1))]) else (h', m'))"
  have eq: "adjust_heap lt f h n v m = push_hole lt f (fst g) h v (snd g)"
    unfolding adjust_heap_def l g_def by (simp add: Let_def)
  have g: "fst g < n" "length (snd g) = length m" "mset ((snd g)[f + fst g := v]) = mset (m'[f + h' := v])"
    "\<And>q. q < f \<or> f + n \<le> q \<Longrightarrow> snd g ! q = m' ! q"
    using fr(1,2,6) assms mset_pass_on [of "f + h'" "f + (s - 1)" m' v] by (auto simp: g_def)
  show "mset (adjust_heap lt f h n v m) = mset (m[f + h := v])"
    using push_hole_frame(1) [of f "fst g" "snd g" lt h v] g fr(4) assms by (simp add: eq)
  fix q assume q: "q < f \<or> f + n \<le> q"
  then have "q < f \<or> f + fst g < q" using g(1) by auto
  then show "adjust_heap lt f h n v m ! q = m ! q"
    using push_hole_frame(2) [of f "fst g" "snd g" q lt h v] g q fr(5) assms by (simp add: eq)
qed

section \<open>The heap order\<close>

text \<open>Edges of the tree below index \<open>t\<close>, in the first \<open>n\<close> cells at \<open>f\<close>.\<close>

definition heap_from :: "('a \<Rightarrow> 'a \<Rightarrow> bool) \<Rightarrow> nat \<Rightarrow> nat \<Rightarrow> nat \<Rightarrow> 'a list \<Rightarrow> bool" where
  "heap_from lt f t n m \<longleftrightarrow> (\<forall>i. 0 < i \<longrightarrow> i < n \<longrightarrow> t \<le> (i - 1) div 2 \<longrightarrow> \<not> lt (m ! (f + (i - 1) div 2)) (m ! (f + i)))"

inductive below :: "nat \<Rightarrow> nat \<Rightarrow> bool" where
  below_self: "below t t"
| below_child: "below t ((h - 1) div 2) \<Longrightarrow> 0 < h \<Longrightarrow> below t h"

inductive_cases below_cases: "below t h"

lemma below_le: "below t h \<Longrightarrow> t \<le> h"
  by (induction rule: below.induct) auto

lemma below_parent: "below t h \<Longrightarrow> t < h \<Longrightarrow> below t ((h - 1) div 2)"
  by (auto elim: below_cases)

lemma below_0: "below 0 h"
proof (induction h rule: less_induct)
  case (less h)
  show ?case
  proof (cases h)
    case (Suc k)
    have "(h - 1) div 2 < h" using Suc by simp
    with less Suc show ?thesis by (auto intro: below_child)
  qed (simp add: below_self)
qed

lemma child_of: "(i - 1) div 2 = h \<Longrightarrow> 0 < i \<Longrightarrow> i = 2 * h + 1 \<or> i = 2 * h + (2 :: nat)"
  by presburger

text \<open>The order with a hole: edges at the hole are replaced by those across it.\<close>

definition holed :: "('a \<Rightarrow> 'a \<Rightarrow> bool) \<Rightarrow> nat \<Rightarrow> nat \<Rightarrow> nat \<Rightarrow> nat \<Rightarrow> 'a list \<Rightarrow> bool" where
  "holed lt f t n h m \<longleftrightarrow>
     (\<forall>i. 0 < i \<longrightarrow> i < n \<longrightarrow> t \<le> (i - 1) div 2 \<longrightarrow> i \<noteq> h \<longrightarrow> (i - 1) div 2 \<noteq> h \<longrightarrow>
        \<not> lt (m ! (f + (i - 1) div 2)) (m ! (f + i))) \<and>
     (t < h \<longrightarrow> (\<forall>c. 0 < c \<longrightarrow> c < n \<longrightarrow> (c - 1) div 2 = h \<longrightarrow> \<not> lt (m ! (f + (h - 1) div 2)) (m ! (f + c))))"

lemma holedD:
  "holed lt f t n h m \<Longrightarrow> 0 < i \<Longrightarrow> i < n \<Longrightarrow> t \<le> (i - 1) div 2 \<Longrightarrow> i \<noteq> h \<Longrightarrow> (i - 1) div 2 \<noteq> h \<Longrightarrow>
     \<not> lt (m ! (f + (i - 1) div 2)) (m ! (f + i))"
  "holed lt f t n h m \<Longrightarrow> t < h \<Longrightarrow> 0 < c \<Longrightarrow> c < n \<Longrightarrow> (c - 1) div 2 = h \<Longrightarrow> \<not> lt (m ! (f + (h - 1) div 2)) (m ! (f + c))"
  by (auto simp: holed_def)

context strict_weak_order begin

lemma push_hole_heap:
  assumes "holed lt f t n h m" "\<And>c. 0 < c \<Longrightarrow> c < n \<Longrightarrow> (c - 1) div 2 = h \<Longrightarrow> \<not> lt v (m ! (f + c))"
    "below t h" "h < n" "f + n \<le> length m"
  shows "heap_from lt f t n (push_hole lt f h t v m)"
  using assms
proof (induction h arbitrary: m rule: less_induct)
  case (less h)
  let ?p = "(h - 1) div 2"
  note len = less.prems(5)
  show ?case
  proof (cases "h > t \<and> lt (m ! (f + ?p)) v")
    case True
    then have p: "?p < h" "below t ?p" "t \<le> ?p" using below_parent [OF less.prems(3)] below_le by auto
    let ?m = "m[f + h := m ! (f + ?p)]"
    have old: "?m ! (f + i) = m ! (f + i)" if "i \<noteq> h" for i using that by simp
    have new: "?m ! (f + h) = m ! (f + ?p)" using less.prems(4) len by simp
    have up: "\<not> lt (m ! (f + (?p - 1) div 2)) (m ! (f + ?p))" if "t < ?p"
    proof -
      have "(?p - 1) div 2 \<noteq> h" using p(1) by linarith
      then show ?thesis
        using holedD(1) [OF less.prems(1), of ?p] that p below_le [OF below_parent [OF p(2) that]] less.prems(4) by auto
    qed
    have "holed lt f t n ?p ?m"
      unfolding holed_def
    proof (intro conjI allI impI)
      fix i assume i: "0 < i" "i < n" "t \<le> (i - 1) div 2" "i \<noteq> ?p" "(i - 1) div 2 \<noteq> ?p"
      then have "i \<noteq> h" by auto
      with i holedD(1) [OF less.prems(1), of i] holedD(2) [OF less.prems(1), of i] True old new
      show "\<not> lt (?m ! (f + (i - 1) div 2)) (?m ! (f + i))" by (cases "(i - 1) div 2 = h") auto
    next
      fix c assume c: "t < ?p" "0 < c" "c < n" "(c - 1) div 2 = ?p"
      have "\<not> lt (m ! (f + ?p)) (m ! (f + c))" if "c \<noteq> h"
        using holedD(1) [OF less.prems(1), of c] c that p by auto
      then have "\<not> lt (m ! (f + (?p - 1) div 2)) (m ! (f + c))" if "c \<noteq> h"
        using neg_trans [OF up [OF c(1)]] that by blast
      moreover have "(?p - 1) div 2 \<noteq> h" using p(1) by linarith
      ultimately show "\<not> lt (?m ! (f + (?p - 1) div 2)) (?m ! (f + c))"
        using up [OF c(1)] old new by (cases "c = h") simp_all
    qed
    moreover have "\<not> lt v (?m ! (f + c))" if c: "0 < c" "c < n" "(c - 1) div 2 = ?p" for c
    proof (cases "c = h")
      case False
      then have "\<not> lt (m ! (f + ?p)) (m ! (f + c))"
        using holedD(1) [OF less.prems(1), of c] c p by auto
      with True False old show ?thesis using trans by metis
    qed (use True new asym in auto)
    moreover have "push_hole lt f h t v m = push_hole lt f ?p t v ?m"
      using True by (subst push_hole.simps) (simp add: Let_def)
    ultimately show ?thesis
      using less.IH [OF p(1), of ?m] p less.prems(4) len by simp
  next
    case False
    let ?m = "m[f + h := v]"
    have old: "?m ! (f + i) = m ! (f + i)" if "i \<noteq> h" for i using that by simp
    have new: "?m ! (f + h) = v" using less.prems(4) len by simp
    have "push_hole lt f h t v m = ?m" using False by (subst push_hole.simps) (auto simp: Let_def)
    moreover have "\<not> lt (?m ! (f + (i - 1) div 2)) (?m ! (f + i))" if i: "0 < i" "i < n" "t \<le> (i - 1) div 2" for i
    proof -
      consider "i = h" | "(i - 1) div 2 = h" "i \<noteq> h" | "i \<noteq> h" "(i - 1) div 2 \<noteq> h" by blast
      then show ?thesis
      proof cases
        case 1
        then have "t < h" "?p \<noteq> h" using i by auto
        with 1 False old [of ?p] new show ?thesis by simp
      next
        case 2
        with less.prems(2) [OF i(1,2) 2(1)] old new show ?thesis by simp
      next
        case 3
        with holedD(1) [OF less.prems(1) i] old show ?thesis by simp
      qed
    qed
    ultimately show ?thesis by (simp add: heap_from_def)
  qed
qed

lemma adjust_loop_holed:
  assumes "holed lt f t n h m" "below t h" "h < n" "s = 2 * h + 2" "f + n \<le> length m" "adjust_loop lt f h s n m = (h', s', m')"
  shows "holed lt f t n h' m' \<and> below t h'"
  using assms
proof (induction "n - h" arbitrary: h s m rule: less_induct)
  case less
  show ?case
  proof (cases "s < n")
    case True
    define c where "c = (if lt (m ! (f + s)) (m ! (f + (s - 1))) then s - 1 else s)"
    let ?m = "m[f + h := m ! (f + c)]"
    have c: "h < c" "c < n" "(c - 1) div 2 = h" "0 < c" using True less.prems(4) by (auto simp: c_def)
    have best: "\<not> lt (m ! (f + c)) (m ! (f + i))" if "(i - 1) div 2 = h" "0 < i" for i
      using child_of [OF that] less.prems(4) asym irrefl by (auto simp: c_def)
    have old: "?m ! (f + i) = m ! (f + i)" if "i \<noteq> h" for i using that by simp
    have new: "?m ! (f + h) = m ! (f + c)" using less.prems(3,5) by simp
    have "t \<le> h" using below_le [OF less.prems(2)] .
    have "holed lt f t n c ?m"
      unfolding holed_def
    proof (intro conjI allI impI)
      fix i assume i: "0 < i" "i < n" "t \<le> (i - 1) div 2" "i \<noteq> c" "(i - 1) div 2 \<noteq> c"
      consider "i = h" | "(i - 1) div 2 = h" | "i \<noteq> h" "(i - 1) div 2 \<noteq> h" by blast
      then show "\<not> lt (?m ! (f + (i - 1) div 2)) (?m ! (f + i))"
      proof cases
        case 1
        then have "t < h" "(h - 1) div 2 \<noteq> h" using i by auto
        with 1 holedD(2) [OF less.prems(1) _ c(4,2,3)] old new show ?thesis by simp
      next
        case 2
        then have "i \<noteq> h" using i(1) by auto
        with 2 best [OF 2 i(1)] old new show ?thesis by simp
      next
        case 3
        with holedD(1) [OF less.prems(1) i(1-3)] old show ?thesis by simp
      qed
    next
      fix c' assume c': "t < c" "0 < c'" "c' < n" "(c' - 1) div 2 = c"
      then have "c' \<noteq> h" using c by auto
      with c c' \<open>t \<le> h\<close> holedD(1) [OF less.prems(1), of c'] old new
      show "\<not> lt (?m ! (f + (c - 1) div 2)) (?m ! (f + c'))" by auto
    qed
    moreover have "below t c" using below_child [of t c] less.prems(2) c by simp
    moreover have "adjust_loop lt f h s n m = adjust_loop lt f c (2 * c + 2) n ?m"
      using True by (subst adjust_loop.simps) (simp add: Let_def c_def)
    moreover have "n - c < n - h" using c less.prems(3) by linarith
    ultimately show ?thesis using less.hyps [of c ?m "2 * c + 2"] c less.prems(5,6) by simp
  next
    case False
    then have "h' = h \<and> m' = m" using less.prems(6) by (simp add: adjust_loop.simps [of lt f h s])
    with less.prems show ?thesis by simp
  qed
qed

lemma adjust_heap_heap:
  assumes "heap_from lt f (Suc t) n m" "t < n" "f + n \<le> length m"
  shows "heap_from lt f t n (adjust_heap lt f t n v m)"
proof -
  obtain h s m' where l: "adjust_loop lt f t (2 * t + 2) n m = (h, s, m')" by (metis prod_cases3)
  note fr = adjust_loop_frame [OF assms(2) refl assms(3) l]
  have "holed lt f t n t m"
    using assms(1) by (auto simp: heap_from_def holed_def)
  then have ho: "holed lt f t n h m'" "below t h"
    using adjust_loop_holed [OF _ below_self assms(2) refl assms(3) l] by auto
  show ?thesis
  proof (cases "s = n")
    case True
    let ?m = "m'[f + h := m' ! (f + (s - 1))]"
    have c: "s - 1 < n" "0 < s - 1" "(s - 1 - 1) div 2 = h" "s - 1 = 2 * h + 1" using fr(2) True by auto
    have only: "i = s - 1" if "(i - 1) div 2 = h" "0 < i" "i < n" for i
      using child_of [OF that(1,2)] that(3) True fr(2) by auto
    have none: "(i - 1) div 2 \<noteq> s - 1" if "i < n" for i using that True c(4) by linarith
    have old: "?m ! (f + i) = m' ! (f + i)" if "i \<noteq> h" for i using that by simp
    have new: "?m ! (f + h) = m' ! (f + (s - 1))" using fr(1,6) assms(3) by simp
    have ho': "holed lt f t n (s - 1) ?m"
      unfolding holed_def
    proof (intro conjI allI impI)
      fix i assume i: "0 < i" "i < n" "t \<le> (i - 1) div 2" "i \<noteq> s - 1"
      then have "(i - 1) div 2 \<noteq> h" using only by blast
      moreover have "(i - 1) div 2 \<noteq> i" using i by auto
      moreover have "t < h" if "i = h" using i that by auto
      ultimately show "\<not> lt (?m ! (f + (i - 1) div 2)) (?m ! (f + i))"
        using holedD(1) [OF ho(1) i(1-3)] holedD(2) [OF ho(1) _ c(2,1,3)] old new by (cases "i = h") auto
    qed (use none in blast)
    have be: "below t (s - 1)" using below_child [of t "s - 1"] ho(2) c by simp
    have "heap_from lt f t n (push_hole lt f (s - 1) t v ?m)"
      by (rule push_hole_heap [OF ho' _ be c(1)]) (use none fr(6) assms(3) in auto)
    then show ?thesis using True unfolding adjust_heap_def l by (simp add: Let_def)
  next
    case False
    have "(c - 1) div 2 \<noteq> h" if "0 < c" "c < n" for c using that fr(2,3) False by linarith
    then have "heap_from lt f t n (push_hole lt f h t v m')"
      using ho fr(1,6) assms(3) by (intro push_hole_heap) auto
    then show ?thesis using False unfolding adjust_heap_def l by (simp add: Let_def)
  qed
qed

lemma heap_top:
  assumes "heap_from lt f 0 n m" "i < n"
  shows "\<not> lt (m ! f) (m ! (f + i))"
  using assms(2)
proof (induction i rule: less_induct)
  case (less i)
  show ?case
  proof (cases "i = 0")
    case False
    then have "\<not> lt (m ! f) (m ! (f + (i - 1) div 2))" using less by simp
    moreover have "\<not> lt (m ! (f + (i - 1) div 2)) (m ! (f + i))"
      using assms(1) less.prems False by (simp add: heap_from_def)
    ultimately show ?thesis using neg_trans by blast
  qed (simp add: irrefl)
qed

text \<open>A sorted range, cell by cell.\<close>

lemma push_heap_heap:
  assumes "heap_from lt f 0 n m" "f + Suc n \<le> length m"
  shows "heap_from lt f 0 (Suc n) (std_push_heap lt f (f + Suc n) m)"
proof -
  have "holed lt f 0 (Suc n) n m"
    using assms(1) by (auto simp: holed_def heap_from_def less_Suc_eq)
  moreover have "(c - 1) div 2 \<noteq> n" if "0 < c" "c < Suc n" for c using that by linarith
  ultimately have "heap_from lt f 0 (Suc n) (push_hole lt f n 0 (m ! (f + n)) m)"
    using assms(2) below_0 by (intro push_hole_heap) auto
  then show ?thesis by (simp add: std_push_heap_def)
qed

lemma make_heap_loop_heap:
  assumes "heap_from lt f (Suc p) n m" "p < n" "f + n \<le> length m"
  shows "heap_from lt f 0 n (make_heap_loop lt f n p m)"
  using assms
proof (induction p arbitrary: m)
  case 0
  then show ?case using adjust_heap_heap by (subst make_heap_loop.simps) simp
next
  case (Suc p)
  have "heap_from lt f (Suc p) n (adjust_heap lt f (Suc p) n (m ! (f + Suc p)) m)"
    using adjust_heap_heap Suc.prems by simp
  then show ?case using Suc by (subst make_heap_loop.simps) simp
qed

lemma make_heap_heap:
  assumes "f \<le> l" "l \<le> length m"
  shows "heap_from lt f 0 (l - f) (std_make_heap lt f l m)"
proof (cases "l - f < 2")
  case True
  then show ?thesis by (auto simp: heap_from_def std_make_heap_def)
next
  case False
  have "\<not> Suc ((l - f - 2) div 2) \<le> (i - 1) div 2" if "0 < i" "i < l - f" for i
    using that False by linarith
  then have "heap_from lt f (Suc ((l - f - 2) div 2)) (l - f) m" by (simp add: heap_from_def)
  moreover have "(l - f - 2) div 2 < l - f" using False by linarith
  ultimately show ?thesis
    using make_heap_loop_heap assms False by (simp add: std_make_heap_def Let_def)
qed

end

lemma adjust_heap_shuffled:
  "h < n \<Longrightarrow> f + n \<le> length m \<Longrightarrow> shuffled f (f + n) m (adjust_heap lt f h n (m ! (f + h)) m)"
  using adjust_heap_frame [where h = h and n = n and f = f and m = m and lt = lt and v = "m ! (f + h)"] by (simp add: shuffled_def)

lemma make_heap_loop_shuffled:
  assumes "p < n" "f + n \<le> length m"
  shows "shuffled f (f + n) m (make_heap_loop lt f n p m)"
  using assms
proof (induction p arbitrary: m)
  case 0
  then show ?case
    using adjust_heap_shuffled [of 0 n f m lt] by (subst make_heap_loop.simps) simp
next
  case (Suc p)
  let ?m = "adjust_heap lt f (Suc p) n (m ! (f + Suc p)) m"
  have "shuffled f (f + n) m ?m" using adjust_heap_shuffled [of "Suc p" n f m lt] Suc.prems by simp
  moreover have "make_heap_loop lt f n (Suc p) m = make_heap_loop lt f n p ?m" by (subst make_heap_loop.simps) simp
  ultimately show ?case using Suc.IH [of ?m] Suc.prems by (auto intro: shuffled_trans)
qed

lemma make_heap_shuffled:
  assumes "f \<le> l" "l \<le> length m"
  shows "shuffled f l m (std_make_heap lt f l m)"
proof -
  have "(l - f - 2) div 2 < l - f \<or> l - f < 2" by linarith
  then show ?thesis
    using make_heap_loop_shuffled [of "(l - f - 2) div 2" "l - f" f m lt] assms
    by (auto simp: std_make_heap_def Let_def)
qed

lemma pop_heap_to_shuffled:
  assumes "f < l" "l \<le> r" "r < length m"
  shows "shuffled f (Suc r) m (pop_heap_to lt f l r (m ! r) m)"
    and "\<And>q. q < f \<or> l \<le> q \<Longrightarrow> q \<noteq> r \<Longrightarrow> pop_heap_to lt f l r (m ! r) m ! q = m ! q"
    and "pop_heap_to lt f l r (m ! r) m ! r = m ! f"
proof -
  note fr = adjust_heap_frame [where h = 0 and n = "l - f" and f = f and m = "m[r := m ! f]" and lt = lt and v = "m ! r"]
  have "mset (m[r := m ! f, f := m ! r]) = mset m" using mset_pass_on [of r f m "m ! r"] assms by simp
  then show "shuffled f (Suc r) m (pop_heap_to lt f l r (m ! r) m)"
    using fr assms by (simp add: pop_heap_to_def shuffled_def)
  show "pop_heap_to lt f l r (m ! r) m ! q = m ! q" if "q < f \<or> l \<le> q" "q \<noteq> r" for q
    using fr(2) [of q] assms that by (simp add: pop_heap_to_def)
  show "pop_heap_to lt f l r (m ! r) m ! r = m ! f"
    using fr(2) [of r] assms by (simp add: pop_heap_to_def)
qed

lemma pop_heap_to_inner:
  assumes "f < l" "l \<le> r" "r < length m"
  shows "shuffled f l (m[r := m ! f, f := m ! r]) (pop_heap_to lt f l r (m ! r) m)"
  using adjust_heap_frame [where h = 0 and n = "l - f" and f = f and m = "m[r := m ! f]" and lt = lt and v = "m ! r"] assms
  by (simp add: pop_heap_to_def shuffled_def)

lemma pop_heap_shuffled:
  assumes "Suc f < l" "l \<le> length m"
  shows "shuffled f l m (std_pop_heap lt f l m)" "std_pop_heap lt f l m ! (l - 1) = m ! f"
  using pop_heap_to_shuffled [where f = f and l = "l - 1" and r = "l - 1" and m = m and lt = lt] assms by (simp_all add: std_pop_heap_def)

lemma sort_heap_shuffled:
  "l \<le> length m \<Longrightarrow> shuffled f l m (sort_heap lt f l m)"
proof (induction lt f l m rule: sort_heap.induct)
  case (1 lt f l m)
  show ?case
  proof (cases "l - f > 1")
    case True
    then have "shuffled f l m (std_pop_heap lt f l m)" using pop_heap_shuffled [where f = f and l = l and m = m and lt = lt] 1(2) by simp
    moreover from this have "shuffled f (l - 1) (std_pop_heap lt f l m) (sort_heap lt f (l - 1) (std_pop_heap lt f l m))"
      using 1 True by (simp add: shuffled_length)
    then have "shuffled f l (std_pop_heap lt f l m) (sort_heap lt f (l - 1) (std_pop_heap lt f l m))"
      by (rule shuffled_widen) simp_all
    moreover have "sort_heap lt f l m = sort_heap lt f (l - 1) (std_pop_heap lt f l m)"
      using True by (subst sort_heap.simps) simp
    ultimately show ?thesis by (auto intro: shuffled_trans)
  next
    case False
    then show ?thesis by (subst sort_heap.simps) simp
  qed
qed

lemma push_heap_shuffled:
  assumes "f < l" "l \<le> length m"
  shows "shuffled f l m (std_push_heap lt f l m)"
proof -
  have "f + (l - f - 1) = l - 1" using assms by simp
  then show ?thesis
    using push_hole_frame [where f = f and h = "l - f - 1" and m = m and lt = lt and t = 0 and v = "m ! (l - 1)"] assms by (auto simp: std_push_heap_def shuffled_def)
qed

context strict_weak_order begin

lemma pop_heap_to_heap:
  assumes "f < l" "l \<le> r" "r < length m" "heap_from lt f 0 (l - f) m"
  shows "heap_from lt f 0 (l - f) (pop_heap_to lt f l r v m)"
  unfolding pop_heap_to_def
proof (rule adjust_heap_heap)
  show "heap_from lt f (Suc 0) (l - f) (m[r := m ! f])"
    using assms by (auto simp: heap_from_def)
qed (use assms in auto)

lemma heap_prefix: "heap_from lt f t n m \<Longrightarrow> n' \<le> n \<Longrightarrow> heap_from lt f t n' m"
  by (simp add: heap_from_def)

text \<open>Sorting: the heap shrinks from the right, what is behind it is sorted and not below it.\<close>

lemma sort_heap_ordered:
  assumes "heap_from lt f 0 (l - f) m" "f \<le> l" "l \<le> e" "e \<le> length m" "ordered lt ((!) m) l e"
    "\<And>i j. f \<le> i \<Longrightarrow> i < l \<Longrightarrow> l \<le> j \<Longrightarrow> j < e \<Longrightarrow> \<not> lt (m ! j) (m ! i)"
  shows "ordered lt ((!) (sort_heap lt f l m)) f e"
  using assms
proof (induction "l - f" arbitrary: l m rule: less_induct)
  case less
  show ?case
  proof (cases "l - f > 1")
    case True
    let ?m = "std_pop_heap lt f l m"
    have sh: "shuffled f l m ?m" and top: "?m ! (l - 1) = m ! f"
      using pop_heap_shuffled [where f = f and l = l and m = m and lt = lt] True less.prems by simp_all
    have heap: "heap_from lt f 0 (l - 1 - f) ?m"
      unfolding std_pop_heap_def
      using True less.prems heap_prefix [OF less.prems(1), of "l - 1 - f"] by (intro pop_heap_to_heap) simp_all
    have cell: "\<exists>j. f \<le> j \<and> j < l \<and> ?m ! i = m ! j" if "f \<le> i" "i < l" for i
      using shuffled_cell [OF sh that] less.prems by simp
    have max: "\<not> lt (m ! f) (?m ! i)" if "f \<le> i" "i < l" for i
      using cell [OF that] heap_top [OF less.prems(1)] by (metis diff_less_mono le_add_diff_inverse)
    have out: "?m ! j = m ! j" if "l \<le> j" for j using shuffled_outside [OF sh] that by simp
    have "ordered lt ((!) ?m) (l - 1) e"
      unfolding ordered_def
    proof (intro allI impI)
      fix i j assume ij: "l - 1 \<le> i" "i < j" "j < e"
      show "\<not> lt (?m ! j) (?m ! i)"
      proof (cases "i = l - 1")
        case True
        with ij out [of j] top less.prems(6) [of f j] \<open>l - f > 1\<close> show ?thesis by simp
      next
        case False
        with ij out [of j] out [of i] less.prems(5) show ?thesis by (simp add: ordered_def)
      qed
    qed
    moreover have "\<not> lt (?m ! j) (?m ! i)" if "f \<le> i" "i < l - 1" "l - 1 \<le> j" "j < e" for i j
    proof (cases "j = l - 1")
      case True
      with max [of i] top that show ?thesis by simp
    next
      case False
      then have "l \<le> j" using that by simp
      with cell [of i] less.prems(6) out [of j] that show ?thesis by (metis diff_le_self order_less_le_trans)
    qed
    moreover have "sort_heap lt f l m = sort_heap lt f (l - 1) ?m" using True by (subst sort_heap.simps) simp
    ultimately show ?thesis
      using less.hyps [of "l - 1" ?m] heap True less.prems sh by (simp add: shuffled_length)
  next
    case False
    then have "i = f \<or> l \<le> i" if "f \<le> i" for i using that by linarith
    then have "ordered lt ((!) m) f e"
      using less.prems(5,6) False unfolding ordered_def
      by (metis le_neq_implies_less less_imp_le_nat not_le order_less_le_trans)
    then show ?thesis using False by (subst sort_heap.simps) simp
  qed
qed

lemma heap_sort_ordered:
  assumes "f \<le> l" "l \<le> length m"
  shows "ordered lt ((!) (sort_heap lt f l (std_make_heap lt f l m))) f l"
  using assms make_heap_heap [OF assms] shuffled_length [OF make_heap_shuffled [OF assms]]
  by (intro sort_heap_ordered) (auto simp: ordered_def)

end

lemma is_heap_loop_heap:
  assumes "parent = (child - 1) div 2" "0 < child" "\<forall>i. 0 < i \<longrightarrow> i < child \<longrightarrow> \<not> lt (m ! (f + (i - 1) div 2)) (m ! (f + i))"
  shows "is_heap_loop lt ((!) m) f parent child n \<longleftrightarrow> heap_from lt f 0 (max child n) m"
  using assms
proof (induction "n - child" arbitrary: parent child)
  case 0
  then show ?case by (subst is_heap_loop.simps) (simp add: heap_from_def)
next
  case (Suc k)
  have nxt: "(if child mod 2 = 0 then Suc parent else parent) = (Suc child - 1) div 2"
    using Suc.prems(1,2) by presburger
  show ?case
  proof (cases "lt (m ! (f + parent)) (m ! (f + child))")
    case True
    have "\<not> heap_from lt f 0 (max child n) m"
      unfolding heap_from_def using True Suc by (auto intro!: exI [of _ child])
    then show ?thesis using True Suc(2) by (subst is_heap_loop.simps) simp
  next
    case False
    then have "is_heap_loop lt ((!) m) f ((Suc child - 1) div 2) (Suc child) n \<longleftrightarrow> heap_from lt f 0 (max (Suc child) n) m"
      using Suc.prems Suc(2) by (intro Suc.hyps(1)) (auto simp: less_Suc_eq)
    moreover have "max (Suc child) n = max child n" using Suc(2) by simp
    moreover have "is_heap_loop lt ((!) m) f parent child n =
        is_heap_loop lt ((!) m) f (if child mod 2 = 0 then Suc parent else parent) (Suc child) n"
    proof -
      have "child < n" using Suc(2) by simp
      with False show ?thesis by (subst is_heap_loop.simps) (simp only: if_True if_False simp_thms)
    qed
    ultimately show ?thesis by (simp only: nxt)
  qed
qed

text \<open>\<^verbatim>\<open>is_heap\<close> decides the heap order.\<close>

lemma is_heap_iff: "std_is_heap lt ((!) m) f l \<longleftrightarrow> heap_from lt f 0 (l - f) m"
proof -
  have "heap_from lt f 0 (max 1 (l - f)) m \<longleftrightarrow> heap_from lt f 0 (l - f) m"
    by (cases "l - f") (auto simp: heap_from_def)
  then show ?thesis
    using is_heap_loop_heap [of 0 1 lt m f "l - f"] by (simp add: std_is_heap_def)
qed

end
