(* ===== verification/Stl_Sort.thy ===== *)
theory Stl_Sort
  imports Stl_Heap
begin

text \<open>
  \<^verbatim>\<open>sort\<close>, \<^verbatim>\<open>partial_sort\<close> and \<^verbatim>\<open>nth_element\<close> (\<^verbatim>\<open>stl/_algo.c\<close>): introsort is quicksort with the median of three
  as pivot, heap sort when the recursion gets too deep, and one insertion sort at the end. The
  inner loops have no test for the end of the range: a position before the first or behind the
  last cell of the memory is a fault, and that none occurs is part of what is shown. Since the memory may be just the
  range, the scans do not leave the range either.
\<close>

section \<open>The code\<close>

definition median :: "('a \<Rightarrow> 'a \<Rightarrow> bool) \<Rightarrow> 'a \<Rightarrow> 'a \<Rightarrow> 'a \<Rightarrow> 'a" where
  "median lt a b c =
     (if lt a b then (if lt b c then b else if lt a c then c else a)
      else if lt a c then a else if lt b c then c else b)"

function scan_up :: "('a \<Rightarrow> 'a \<Rightarrow> bool) \<Rightarrow> 'a \<Rightarrow> 'a list \<Rightarrow> nat \<Rightarrow> nat result" where
  "scan_up lt pivot mem first =
     (if first < length mem
      then if lt (mem ! first) pivot then scan_up lt pivot mem (Suc first) else Inr first
      else Inl IndexOutOfRange)"
  by pat_completeness auto
termination
  by (relation "measure (\<lambda>(lt, pivot, mem, first). length mem - first)") auto

declare scan_up.simps [simp del]

fun scan_down :: "('a \<Rightarrow> 'a \<Rightarrow> bool) \<Rightarrow> 'a \<Rightarrow> 'a list \<Rightarrow> nat \<Rightarrow> nat result" where
  "scan_down lt pivot mem fin =
     (if fin < length mem
      then if lt pivot (mem ! fin) then (case fin of 0 \<Rightarrow> Inl IndexOutOfRange | Suc before \<Rightarrow> scan_down lt pivot mem before)
           else Inr fin
      else Inl IndexOutOfRange)"

declare scan_down.simps [simp del]

lemma scan_down_le: "scan_down lt p m l = Inr r \<Longrightarrow> r \<le> l"
  by (induction l) (subst (asm) scan_down.simps, force split: if_splits)+

function unguarded_partition :: "('a \<Rightarrow> 'a \<Rightarrow> bool) \<Rightarrow> 'a \<Rightarrow> nat \<Rightarrow> nat \<Rightarrow> 'a list \<Rightarrow> (nat \<times> 'a list) result" where
  "unguarded_partition lt pivot first fin mem =
     andThen (scan_up lt pivot mem first) (\<lambda>f.
       case fin of
         0 \<Rightarrow> Inl IndexOutOfRange
       | Suc before \<Rightarrow>
           andThen (scan_down lt pivot mem before) (\<lambda>l.
             if \<not> f < l then Inr (f, mem)
             else unguarded_partition lt pivot (Suc f) l (iter_swap f l mem)))"
  by pat_completeness auto
termination
  by (relation "measure (\<lambda>(lt, pivot, first, fin, mem). fin)") (auto dest: scan_down_le)

declare unguarded_partition.simps [simp del]

fun unguarded_linear_insert :: "('a \<Rightarrow> 'a \<Rightarrow> bool) \<Rightarrow> nat \<Rightarrow> 'a \<Rightarrow> 'a list \<Rightarrow> 'a list result" where
  "unguarded_linear_insert lt 0 val mem = Inl IndexOutOfRange"
| "unguarded_linear_insert lt (Suc next) val mem =
     (if lt val (mem ! next) then unguarded_linear_insert lt next val (mem[Suc next := mem ! next])
      else Inr (mem[Suc next := val]))"

text \<open>Elements with a trivial assignment are moved with \<^verbatim>\<open>memmove\<close> instead, with the same effect (\<open>std_copy_backward_memmove\<close>).\<close>

definition linear_insert :: "('a \<Rightarrow> 'a \<Rightarrow> bool) \<Rightarrow> nat \<Rightarrow> nat \<Rightarrow> 'a \<Rightarrow> 'a list \<Rightarrow> 'a list result" where
  "linear_insert lt first fin val mem =
     (if lt val (mem ! first)
      then Inr ((snd (std_copy_backward ByRandom first fin (Suc fin) mem))[first := val])
      else unguarded_linear_insert lt fin val mem)"

definition insertion_sort :: "('a \<Rightarrow> 'a \<Rightarrow> bool) \<Rightarrow> nat \<Rightarrow> nat \<Rightarrow> 'a list \<Rightarrow> 'a list result" where
  "insertion_sort lt first fin mem =
     (if first = fin then Inr mem
      else foldE (\<lambda>i m. linear_insert lt first i (m ! i) m) [Suc first..<fin] mem)"

definition unguarded_insertion_sort :: "('a \<Rightarrow> 'a \<Rightarrow> bool) \<Rightarrow> nat \<Rightarrow> nat \<Rightarrow> 'a list \<Rightarrow> 'a list result" where
  "unguarded_insertion_sort lt first fin mem =
     foldE (\<lambda>i m. unguarded_linear_insert lt i (m ! i) m) [first..<fin] mem"

definition stl_threshold :: nat where
  "stl_threshold = 16"

definition final_insertion_sort :: "('a \<Rightarrow> 'a \<Rightarrow> bool) \<Rightarrow> nat \<Rightarrow> nat \<Rightarrow> 'a list \<Rightarrow> 'a list result" where
  "final_insertion_sort lt first fin mem =
     (if fin - first > stl_threshold then
        andThen (insertion_sort lt first (first + stl_threshold) mem)
          (unguarded_insertion_sort lt (first + stl_threshold) fin)
      else insertion_sort lt first fin mem)"

definition partial_sort :: "('a \<Rightarrow> 'a \<Rightarrow> bool) \<Rightarrow> nat \<Rightarrow> nat \<Rightarrow> nat \<Rightarrow> 'a list \<Rightarrow> 'a list" where
  "partial_sort lt first middle fin mem =
     sort_heap lt first middle
       (fold (\<lambda>i m. if lt (m ! i) (m ! first) then pop_heap_to lt first middle i (m ! i) m else m)
          [middle..<fin] (std_make_heap lt first middle mem))"

text \<open>The two ranges of \<^verbatim>\<open>partial_sort_copy\<close>: the source is read only.\<close>

definition partial_sort_copy :: "('a \<Rightarrow> 'a \<Rightarrow> bool) \<Rightarrow> 'a list \<Rightarrow> nat \<Rightarrow> nat \<Rightarrow> 'a list \<Rightarrow> nat \<times> 'a list" where
  "partial_sort_copy lt source result_first result_last mem =
     (if result_first = result_last then (result_last, mem)
      else let n = std_min (<) (length source) (result_last - result_first);
               result_real_last = result_first + n;
               m1 = fold (\<lambda>j m. m[result_first + j := source ! j]) [0..<n] mem;
               m2 = std_make_heap lt result_first result_real_last m1;
               m3 = fold (\<lambda>x m. if lt x (m ! result_first)
                                then adjust_heap lt result_first 0 (result_real_last - result_first) x m else m)
                      (drop n source) m2
           in (result_real_last, sort_heap lt result_first result_real_last m3))"

definition median_of_range :: "('a \<Rightarrow> 'a \<Rightarrow> bool) \<Rightarrow> nat \<Rightarrow> nat \<Rightarrow> 'a list \<Rightarrow> 'a" where
  "median_of_range lt first fin mem = median lt (mem ! first) (mem ! (first + (fin - first) div 2)) (mem ! (fin - 1))"

fun introsort_loop :: "('a \<Rightarrow> 'a \<Rightarrow> bool) \<Rightarrow> nat \<Rightarrow> nat \<Rightarrow> nat \<Rightarrow> 'a list \<Rightarrow> 'a list result" where
  "introsort_loop lt first fin depth_limit mem =
     (if fin - first > stl_threshold then
        case depth_limit of
          0 \<Rightarrow> Inr (partial_sort lt first fin fin mem)
        | Suc depth \<Rightarrow>
            andThen (unguarded_partition lt (median_of_range lt first fin mem) first fin mem) (\<lambda>(cut, m1).
            andThen (introsort_loop lt cut fin depth m1) (\<lambda>m2.
              introsort_loop lt first cut depth m2))
      else Inr mem)"

declare introsort_loop.simps [simp del]

text \<open>\<^verbatim>\<open>__lg\<close> is called on nonempty ranges only; of 0 it would not return.\<close>

function priv_lg :: "nat \<Rightarrow> nat" where
  "priv_lg n = (if n > 1 then Suc (priv_lg (drop_bit 1 n)) else 0)"
  by pat_completeness auto
termination
  by (relation "measure id") (auto simp: drop_bit_eq_div)

declare priv_lg.simps [simp del]

definition std_sort :: "('a \<Rightarrow> 'a \<Rightarrow> bool) \<Rightarrow> nat \<Rightarrow> nat \<Rightarrow> 'a list \<Rightarrow> 'a list result" where
  "std_sort lt first fin mem =
     (if first \<noteq> fin then
        andThen (introsort_loop lt first fin (priv_lg (fin - first) * 2) mem) (final_insertion_sort lt first fin)
      else Inr mem)"

partial_function (option) nth_element_loop ::
    "('a \<Rightarrow> 'a \<Rightarrow> bool) \<Rightarrow> nat \<Rightarrow> nat \<Rightarrow> nat \<Rightarrow> 'a list \<Rightarrow> ((nat \<times> nat \<times> 'a list) result) option" where
  "nth_element_loop lt first pos fin mem =
     (if fin - first > 3 then
        case unguarded_partition lt (median_of_range lt first fin mem) first fin mem of
          Inl e \<Rightarrow> Some (Inl e)
        | Inr r \<Rightarrow> if fst r \<le> pos then nth_element_loop lt (fst r) pos fin (snd r)
                   else nth_element_loop lt first pos (fst r) (snd r)
      else Some (Inr (first, fin, mem)))"

definition nth_element :: "('a \<Rightarrow> 'a \<Rightarrow> bool) \<Rightarrow> nat \<Rightarrow> nat \<Rightarrow> nat \<Rightarrow> 'a list \<Rightarrow> ('a list result) option" where
  "nth_element lt first pos fin mem =
     map_option (\<lambda>r. andThen r (\<lambda>(first, fin, m). insertion_sort lt first fin m)) (nth_element_loop lt first pos fin mem)"

section \<open>Insertion\<close>

text \<open>The list function: a value moves left past everything it is below.\<close>

definition ins :: "('a \<Rightarrow> 'a \<Rightarrow> bool) \<Rightarrow> 'a \<Rightarrow> 'a list \<Rightarrow> 'a list" where
  "ins lt v xs = rev (dropWhile (lt v) (rev xs)) @ v # rev (takeWhile (lt v) (rev xs))"

lemma ins_snoc_stop: "\<not> lt v x \<Longrightarrow> ins lt v (xs @ [x]) = xs @ [x, v]"
  by (simp add: ins_def)

lemma ins_snoc_go: "lt v x \<Longrightarrow> ins lt v (xs @ [x]) = ins lt v xs @ [x]"
  by (simp add: ins_def)

lemma ins_all: "\<forall>x \<in> set xs. lt v x \<Longrightarrow> ins lt v xs = v # xs"
  by (simp add: ins_def takeWhile_eq_all_conv [THEN iffD2] dropWhile_eq_Nil_conv [THEN iffD2])

lemma ins_length [simp]: "length (ins lt v xs) = Suc (length xs)"
proof -
  have "length (takeWhile (lt v) (rev xs)) + length (dropWhile (lt v) (rev xs)) = length (rev xs)"
    by (metis length_append takeWhile_dropWhile_id)
  then show ?thesis by (simp add: ins_def)
qed

lemma unguarded_linear_insert_ins:
  assumes "\<exists>x \<in> set xs. \<not> lt v x"
  shows "unguarded_linear_insert lt (length pre + length xs) v (pre @ xs @ u # post) = Inr (pre @ ins lt v xs @ post)"
  using assms
proof (induction xs arbitrary: u post rule: rev_induct)
  case (snoc x xs)
  have at: "(pre @ (xs @ [x]) @ u # post) ! (length pre + length xs) = x"
    using nth_append_length [of "pre @ xs" x "u # post"] by simp
  have upd: "(pre @ (xs @ [x]) @ u # post)[Suc (length pre + length xs) := y] = pre @ xs @ x # y # post" for y
    using list_update_length [of "pre @ xs @ [x]" u post y] by simp
  show ?case
  proof (cases "lt v x")
    case True
    then have "\<exists>x \<in> set xs. \<not> lt v x" using snoc.prems by auto
    from snoc.IH [OF this, of x "x # post"] True at upd show ?thesis by (simp add: ins_snoc_go)
  next
    case False
    then show ?thesis using at upd by (simp add: ins_snoc_stop)
  qed
qed simp

definition ascending :: "('a \<Rightarrow> 'a \<Rightarrow> bool) \<Rightarrow> 'a list \<Rightarrow> bool" where
  "ascending lt = sorted_wrt (\<lambda>a b. \<not> lt b a)"

text \<open>The equivalent elements of one list in the order of the other; in particular a permutation.\<close>

definition stable :: "('a \<Rightarrow> 'a \<Rightarrow> bool) \<Rightarrow> 'a list \<Rightarrow> 'a list \<Rightarrow> bool" where
  "stable lt xs ys \<longleftrightarrow> (\<forall>v. filter (\<lambda>x. \<not> lt x v \<and> \<not> lt v x) ys = filter (\<lambda>x. \<not> lt x v \<and> \<not> lt v x) xs)"

lemma stable_refl [simp]: "stable lt xs xs"
  by (simp add: stable_def)

lemma stable_trans: "stable lt xs ys \<Longrightarrow> stable lt ys zs \<Longrightarrow> stable lt xs zs"
  by (simp add: stable_def)

lemma stable_append: "stable lt xs ys \<Longrightarrow> stable lt xs' ys' \<Longrightarrow> stable lt (xs @ xs') (ys @ ys')"
  by (simp add: stable_def)

lemma ascending_simps [simp]:
  "ascending lt []" "ascending lt (x # xs) \<longleftrightarrow> (\<forall>y \<in> set xs. \<not> lt y x) \<and> ascending lt xs"
  "ascending lt (xs @ ys) \<longleftrightarrow> ascending lt xs \<and> ascending lt ys \<and> (\<forall>x \<in> set xs. \<forall>y \<in> set ys. \<not> lt y x)"
  by (auto simp: ascending_def sorted_wrt_append)

lemma ordered_segment:
  assumes "f \<le> l" "l \<le> length m"
  shows "ordered lt ((!) m) f l \<longleftrightarrow> ascending lt (segment m f l)"
proof
  assume "ordered lt ((!) m) f l"
  then show "ascending lt (segment m f l)"
    using assms by (auto simp: ascending_def sorted_wrt_iff_nth_less ordered_def)
next
  assume a: "ascending lt (segment m f l)"
  show "ordered lt ((!) m) f l" unfolding ordered_def
  proof (intro allI impI)
    fix i j assume ij: "f \<le> i" "i < j" "j < l"
    have "\<not> lt (segment m f l ! (j - f)) (segment m f l ! (i - f))"
      using sorted_wrt_nth_less [OF a [unfolded ascending_def], of "i - f" "j - f"] ij assms by simp
    then show "\<not> lt (m ! j) (m ! i)" using ij assms by simp
  qed
qed

context strict_weak_order begin

lemma stable_mset: "stable lt xs ys \<Longrightarrow> mset ys = mset xs"
proof (rule multiset_eqI)
  fix v assume "stable lt xs ys"
  then have "count (mset (filter (\<lambda>x. \<not> lt x v \<and> \<not> lt v x) ys)) v = count (mset (filter (\<lambda>x. \<not> lt x v \<and> \<not> lt v x) xs)) v"
    by (simp add: stable_def)
  then show "count (mset ys) v = count (mset xs) v"
    by (simp add: irrefl)
qed

lemma ascending_hd: "ascending lt (x # xs) \<Longrightarrow> lt v x \<Longrightarrow> y \<in> set xs \<Longrightarrow> lt v y"
  using lt_le_trans [of v x y] by auto

lemma ins_split:
  obtains as bs where "xs = as @ bs" "ins lt v xs = as @ v # bs" "\<forall>b \<in> set bs. lt v b" "as = [] \<or> \<not> lt v (List.last as)"
proof
  show "xs = rev (dropWhile (lt v) (rev xs)) @ rev (takeWhile (lt v) (rev xs))"
    by (metis rev_append rev_rev_ident takeWhile_dropWhile_id)
  show "ins lt v xs = rev (dropWhile (lt v) (rev xs)) @ v # rev (takeWhile (lt v) (rev xs))"
    by (rule ins_def)
  show "\<forall>b \<in> set (rev (takeWhile (lt v) (rev xs))). lt v b" by (auto dest: set_takeWhileD)
  show "rev (dropWhile (lt v) (rev xs)) = [] \<or> \<not> lt v (List.last (rev (dropWhile (lt v) (rev xs))))"
    using hd_dropWhile [of "lt v" "rev xs"] by (auto simp: last_rev)
qed

lemma ins_ascending:
  assumes "ascending lt xs"
  shows "ascending lt (ins lt v xs)"
proof -
  obtain as bs where xs: "xs = as @ bs" "ins lt v xs = as @ v # bs" "\<forall>b \<in> set bs. lt v b" "as = [] \<or> \<not> lt v (List.last as)"
    by (rule ins_split)
  have "\<not> lt v a" if "a \<in> set as" for a
  proof -
    have "as = butlast as @ [List.last as]" using that by (cases as) auto
    then have "a = List.last as \<or> a \<in> set (butlast as)" using that by (metis Un_iff set_append set_ConsD empty_iff list.set(1))
    moreover have "\<not> lt (List.last as) a" if "a \<in> set (butlast as)"
      using assms that \<open>as = butlast as @ _\<close> unfolding xs(1) by (metis ascending_simps(3) list.set_intros(1))
    ultimately show ?thesis using xs(4) that neg_trans by (metis empty_iff list.set(1))
  qed
  then show ?thesis using assms xs asym by auto
qed

lemma ins_stable: "stable lt (xs @ [v]) (ins lt v xs)"
proof -
  obtain as bs where xs: "xs = as @ bs" "ins lt v xs = as @ v # bs" "\<forall>b \<in> set bs. lt v b" by (rule ins_split)
  have "filter (\<lambda>x. \<not> lt x u \<and> \<not> lt u x) bs = []" if "\<not> lt v u \<and> \<not> lt u v" for u
    using that xs(3) le_lt_trans by (auto simp: filter_empty_conv)
  then show ?thesis unfolding stable_def xs(2) by (auto simp: xs(1))
qed

lemma linear_insert_ins:
  assumes "ascending lt xs" "xs \<noteq> []"
  shows "linear_insert lt (length pre) (length pre + length xs) v (pre @ xs @ v # post) = Inr (pre @ ins lt v xs @ post)"
proof -
  obtain x xs1 where xs: "xs = x # xs1" using assms(2) by (cases xs) auto
  have at: "(pre @ xs @ v # post) ! length pre = x" by (simp add: xs)
  show ?thesis
  proof (cases "lt v x")
    case True
    then have "\<forall>y \<in> set xs. lt v y" using ascending_hd [OF assms(1) [unfolded xs] True] by (simp add: xs)
    then have "ins lt v xs = v # xs" by (rule ins_all)
    moreover have "snd (std_copy_backward ByRandom (length pre) (length pre + length xs) (Suc (length pre + length xs)) (pre @ xs @ v # post)) =
        memmove (Suc (length pre)) (length pre) (length xs) (pre @ xs @ v # post)"
      using std_copy_backward_memmove [of "length pre" "length pre + length xs" "pre @ xs @ v # post" "Suc (length pre + length xs)" ByRandom]
      by (simp add: Suc_diff_le)
    moreover have "(memmove (Suc (length pre)) (length pre) (length xs) (pre @ xs @ v # post))[length pre := v] = pre @ v # xs @ post"
      by (simp add: memmove_def xs list_update_append)
    ultimately show ?thesis using True at by (simp add: linear_insert_def)
  next
    case False
    then show ?thesis
      using unguarded_linear_insert_ins [of xs lt v pre v post] at by (simp add: linear_insert_def xs)
  qed
qed

lemma insertion_sort_sorts:
  "\<exists>ys. insertion_sort lt (length pre) (length pre + length xs) (pre @ xs @ post) = Inr (pre @ ys @ post) \<and>
     ascending lt ys \<and> stable lt xs ys"
proof (cases "xs = []")
  case True
  then show ?thesis by (auto simp: insertion_sort_def)
next
  case False
  have "\<exists>ys. foldE (\<lambda>i m. linear_insert lt (length pre) i (m ! i) m) [Suc (length pre)..<length pre + length xs] (pre @ xs @ post) = Inr (pre @ ys @ post) \<and>
      ascending lt ys \<and> stable lt xs ys"
    using False
  proof (induction xs arbitrary: post rule: rev_nonempty_induct)
    case (single x)
    then show ?case by (intro exI [of _ "[x]"]) simp
  next
    case (snoc x xs)
    from snoc.IH [of "x # post"] obtain ys where
      ys: "foldE (\<lambda>i m. linear_insert lt (length pre) i (m ! i) m) [Suc (length pre)..<length pre + length xs] (pre @ xs @ x # post) = Inr (pre @ ys @ x # post)"
        "ascending lt ys" "stable lt xs ys" by auto
    have len: "length ys = length xs" using stable_mset [OF ys(3)] by (metis size_mset)
    have ne: "ys \<noteq> []" using len snoc.hyps by auto
    have at: "(pre @ ys @ x # post) ! (length pre + length xs) = x"
      using nth_append_length [of "pre @ ys" x post] by (simp add: len)
    have upt: "[Suc (length pre)..<length pre + length (xs @ [x])] = [Suc (length pre)..<length pre + length xs] @ [length pre + length xs]"
      using snoc.hyps by (cases xs) auto
    have "stable lt (xs @ [x]) (ins lt x ys)"
      using stable_trans [OF stable_append [OF ys(3) stable_refl] ins_stable] .
    then show ?case
      unfolding upt using ys linear_insert_ins [OF ys(2) ne, of pre x post] ins_ascending [OF ys(2)] at
      by (simp add: foldE_append len)
  qed
  then show ?thesis using False by (simp add: insertion_sort_def)
qed

end

section \<open>Partitioning around a pivot\<close>

lemma iter_swap_shuffled:
  "i < length m \<Longrightarrow> j < length m \<Longrightarrow> f \<le> i \<Longrightarrow> i < l \<Longrightarrow> f \<le> j \<Longrightarrow> j < l \<Longrightarrow> shuffled f l m (iter_swap i j m)"
  by (auto simp: shuffled_def iter_swap_def std_swap_def Let_def mset_swap)

lemma iter_swap_nth:
  "i < length m \<Longrightarrow> j < length m \<Longrightarrow> iter_swap i j m ! k = (if k = j then m ! i else if k = i then m ! j else m ! k)"
  by (auto simp: iter_swap_def std_swap_def Let_def nth_list_update)

lemma scan_up_stops:
  assumes "f \<le> i" "i < length m" "\<not> lt (m ! i) p"
  shows "\<exists>r. scan_up lt p m f = Inr r \<and> f \<le> r \<and> r \<le> i \<and> \<not> lt (m ! r) p \<and> (\<forall>k. f \<le> k \<longrightarrow> k < r \<longrightarrow> lt (m ! k) p)"
  using assms
proof (induction "i - f" arbitrary: f)
  case 0
  then show ?case by (subst scan_up.simps) auto
next
  case (Suc n)
  show ?case
  proof (cases "lt (m ! f) p")
    case True
    have "n = i - Suc f" "Suc f \<le> i" using Suc(2) by simp_all
    with Suc(1) [of "Suc f"] Suc(4,5) obtain r where "scan_up lt p m (Suc f) = Inr r" "Suc f \<le> r" "r \<le> i" "\<not> lt (m ! r) p"
      "\<forall>k. Suc f \<le> k \<longrightarrow> k < r \<longrightarrow> lt (m ! k) p" by auto
    with True Suc(2-) show ?thesis by (subst scan_up.simps) (auto simp: Suc_le_eq intro: le_neq_implies_less)
  next
    case False
    with Suc(2-) show ?thesis by (subst scan_up.simps) auto
  qed
qed

lemma scan_down_stops:
  assumes "j \<le> l" "l < length m" "\<not> lt p (m ! j)"
  shows "\<exists>r. scan_down lt p m l = Inr r \<and> j \<le> r \<and> r \<le> l \<and> \<not> lt p (m ! r) \<and> (\<forall>k. r < k \<longrightarrow> k \<le> l \<longrightarrow> lt p (m ! k))"
  using assms
proof (induction l)
  case 0
  then show ?case by (subst scan_down.simps) auto
next
  case (Suc l)
  show ?case
  proof (cases "lt p (m ! Suc l)")
    case True
    with Suc.prems have "j \<le> l" by (metis le_SucE)
    with Suc True obtain r where "scan_down lt p m l = Inr r" "j \<le> r" "r \<le> l" "\<not> lt p (m ! r)" "\<forall>k. r < k \<longrightarrow> k \<le> l \<longrightarrow> lt p (m ! k)"
      by auto
    with True Suc.prems show ?thesis by (subst scan_down.simps) (auto simp: le_Suc_eq)
  next
    case False
    with Suc.prems show ?thesis by (subst scan_down.simps) auto
  qed
qed

context strict_weak_order begin

lemma unguarded_partition_splits:
  assumes "f0 \<le> f" "f \<le> fin" "fin \<le> l0" "l0 \<le> length m"
    and low: "\<And>i. f0 \<le> i \<Longrightarrow> i < f \<Longrightarrow> \<not> lt p (m ! i)" and high: "\<And>i. fin \<le> i \<Longrightarrow> i < l0 \<Longrightarrow> \<not> lt (m ! i) p"
    and U: "\<exists>i. f \<le> i \<and> i < l0 \<and> \<not> lt (m ! i) p" and D: "\<exists>j. f0 \<le> j \<and> j < fin \<and> \<not> lt p (m ! j)"
  shows "\<exists>c m'. unguarded_partition lt p f fin m = Inr (c, m') \<and> shuffled f0 l0 m m' \<and> f \<le> c \<and> c < l0 \<and>
     (\<forall>i. f0 \<le> i \<longrightarrow> i < c \<longrightarrow> \<not> lt p (m' ! i)) \<and> (\<forall>i. c \<le> i \<longrightarrow> i < l0 \<longrightarrow> \<not> lt (m' ! i) p) \<and>
     (f0 < f \<or> (\<exists>j. f0 < j \<and> j < fin \<and> \<not> lt p (m ! j)) \<longrightarrow> f0 < c)"
  using assms
proof (induction fin arbitrary: f m rule: less_induct)
  case (less fin)
  note low = less.prems(5) and high = less.prems(6)
  from less.prems(7) obtain i where i: "f \<le> i" "i < l0" "\<not> lt (m ! i) p" by blast
  then obtain f1 where f1: "scan_up lt p m f = Inr f1" "f \<le> f1" "f1 \<le> i" "\<not> lt (m ! f1) p" "\<And>k. f \<le> k \<Longrightarrow> k < f1 \<Longrightarrow> lt (m ! k) p"
    using scan_up_stops [of f i m lt p] less.prems(4) by auto
  from less.prems(8) obtain j where j: "f0 \<le> j" "j < fin" "\<not> lt p (m ! j)" by blast
  then obtain before where b: "fin = Suc before" by (cases fin) auto
  obtain l1 where l1: "scan_down lt p m before = Inr l1" "j \<le> l1" "l1 \<le> before" "\<not> lt p (m ! l1)"
    and gt: "\<And>k. l1 < k \<Longrightarrow> k \<le> before \<Longrightarrow> lt p (m ! k)"
    using scan_down_stops [of j before m lt p] j b less.prems(3,4) by auto
  have l1_max: "k \<le> l1" if "k < fin" "\<not> lt p (m ! k)" for k
    using gt [of k] that b by (metis less_Suc_eq_le not_le)
  have le: "\<not> lt p (m ! k)" if "f0 \<le> k" "k < f1" for k
    using low [of k] f1(5) [of k] that asym by (metis not_le)
  have ge: "\<not> lt (m ! k) p" if "l1 < k" "k < l0" for k
    using high [of k] gt [of k] that b asym by (metis less_Suc_eq_le not_le)
  show ?case
  proof (cases "f1 < l1")
    case False
    have "\<not> lt (m ! k) p" if "f1 \<le> k" "k < l0" for k
      using ge [of k] that f1(4) False by (metis le_neq_implies_less not_le order_le_less_trans)
    moreover have "unguarded_partition lt p f fin m = Inr (f1, m)"
      using False f1(1) l1(1) by (subst unguarded_partition.simps) (simp add: b)
    moreover have "f0 < f1" if "f0 < f \<or> (\<exists>j. f0 < j \<and> j < fin \<and> \<not> lt p (m ! j))"
      using that f1(2) False l1_max by (metis le_less_trans less_le_trans not_le)
    ultimately show ?thesis using le f1(2,3) i(2) by auto
  next
    case True
    let ?m = "iter_swap f1 l1 m"
    have in_range: "f1 < length m" "l1 < length m" using True l1(3) b less.prems(3,4) by simp_all
    have at: "?m ! k = (if k = l1 then m ! f1 else if k = f1 then m ! l1 else m ! k)" for k
      using iter_swap_nth [OF in_range] .
    have eq: "unguarded_partition lt p f fin m = unguarded_partition lt p (Suc f1) l1 ?m"
      using True f1(1) l1(1) by (subst unguarded_partition.simps) (simp add: b)
    have sh: "shuffled f0 l0 m ?m"
      using in_range True l1(3) b less.prems(1-3) f1(2) by (intro iter_swap_shuffled) simp_all
    have "\<exists>c m'. unguarded_partition lt p (Suc f1) l1 ?m = Inr (c, m') \<and> shuffled f0 l0 ?m m' \<and> Suc f1 \<le> c \<and> c < l0 \<and>
       (\<forall>i. f0 \<le> i \<longrightarrow> i < c \<longrightarrow> \<not> lt p (m' ! i)) \<and> (\<forall>i. c \<le> i \<longrightarrow> i < l0 \<longrightarrow> \<not> lt (m' ! i) p) \<and>
       (f0 < Suc f1 \<or> (\<exists>j. f0 < j \<and> j < l1 \<and> \<not> lt p (?m ! j)) \<longrightarrow> f0 < c)"
    proof (rule less.IH)
      show "l1 < fin" "f0 \<le> Suc f1" "Suc f1 \<le> l1" "l1 \<le> l0" "l0 \<le> length ?m"
        using True l1(3) b less.prems(1-4) f1(2) sh by (simp_all add: shuffled_length)
      show "\<not> lt p (?m ! k)" if "f0 \<le> k" "k < Suc f1" for k
        using le [of k] that True l1(4) by (auto simp: at less_Suc_eq)
      show "\<not> lt (?m ! k) p" if "l1 \<le> k" "k < l0" for k
        using ge [of k] that True f1(4) by (auto simp: at)
      show "\<exists>i. Suc f1 \<le> i \<and> i < l0 \<and> \<not> lt (?m ! i) p"
        using True f1(4) l1(3) b less.prems(3) by (intro exI [of _ l1]) (simp add: at)
      show "\<exists>j. f0 \<le> j \<and> j < l1 \<and> \<not> lt p (?m ! j)"
        using True l1(4) f1(2) less.prems(1) by (intro exI [of _ f1]) (simp add: at)
    qed
    then obtain c m' where c: "unguarded_partition lt p (Suc f1) l1 ?m = Inr (c, m')" "shuffled f0 l0 ?m m'" "Suc f1 \<le> c" "c < l0"
      "\<forall>i. f0 \<le> i \<longrightarrow> i < c \<longrightarrow> \<not> lt p (m' ! i)" "\<forall>i. c \<le> i \<longrightarrow> i < l0 \<longrightarrow> \<not> lt (m' ! i) p" by blast
    show ?thesis
      unfolding eq using c shuffled_trans [OF sh c(2)] less.prems(1) f1(2)
      by (intro exI [of _ c] exI [of _ m']) simp
  qed
qed

lemma median_sides:
  "(\<not> lt a (median lt a b c) \<and> (\<not> lt b (median lt a b c) \<or> \<not> lt c (median lt a b c)) \<or>
    \<not> lt b (median lt a b c) \<and> \<not> lt c (median lt a b c)) \<and>
   (\<not> lt (median lt a b c) a \<and> (\<not> lt (median lt a b c) b \<or> \<not> lt (median lt a b c) c) \<or>
    \<not> lt (median lt a b c) b \<and> \<not> lt (median lt a b c) c)"
proof -
  have n: "lt x z \<longrightarrow> lt x y \<or> lt y z" for x y z using neg_trans by blast
  have s: "lt x y \<longrightarrow> \<not> lt y x" for x y using asym by blast
  show ?thesis
    using irrefl [of a] irrefl [of b] irrefl [of c] s [of a b] s [of b c] s [of a c] n [of a b c]
      n [of c b a] n [of b a c] n [of c a b] n [of a c b] n [of b c a]
    unfolding median_def by (cases "lt a b"; cases "lt b c"; cases "lt a c") auto
qed

lemma partition_range:
  assumes "f + 3 \<le> l" "l \<le> length m"
  shows "\<exists>c m'. unguarded_partition lt (median_of_range lt f l m) f l m = Inr (c, m') \<and> shuffled f l m m' \<and> f < c \<and> c < l \<and>
     (\<forall>i j. f \<le> i \<longrightarrow> i < c \<longrightarrow> c \<le> j \<longrightarrow> j < l \<longrightarrow> \<not> lt (m' ! j) (m' ! i))"
proof -
  let ?p = "median_of_range lt f l m" and ?h = "f + (l - f) div 2"
  have pos: "f < ?h" "?h < l - 1" "l - 1 < l" using assms(1) by linarith+
  have U: "\<exists>i. f \<le> i \<and> i < l \<and> \<not> lt (m ! i) ?p" and D: "\<exists>j. f < j \<and> j < l \<and> \<not> lt ?p (m ! j)"
    using median_sides [of "m ! f" "m ! ?h" "m ! (l - 1)"] pos unfolding median_of_range_def
    by (meson less_imp_le_nat less_trans order_refl)+
  then have "\<exists>j. f \<le> j \<and> j < l \<and> \<not> lt ?p (m ! j)" by (meson less_imp_le_nat)
  then obtain c m' where c: "unguarded_partition lt ?p f l m = Inr (c, m')" "shuffled f l m m'" "c < l"
    and lo: "\<forall>i. f \<le> i \<longrightarrow> i < c \<longrightarrow> \<not> lt ?p (m' ! i)" and hi: "\<forall>i. c \<le> i \<longrightarrow> i < l \<longrightarrow> \<not> lt (m' ! i) ?p" and "f < c"
    using unguarded_partition_splits [of f f l l m ?p] U D assms by auto
  have "\<not> lt (m' ! j) (m' ! i)" if "f \<le> i" "i < c" "c \<le> j" "j < l" for i j
    using lo hi that neg_trans by blast
  then show ?thesis using c \<open>f < c\<close> by blast
qed

section \<open>\<^verbatim>\<open>partial_sort\<close>\<close>

lemma partial_sort_loop:
  assumes "f < mid" "mid \<le> l" "l \<le> length m" "heap_from lt f 0 (mid - f) m"
  defines "r \<equiv> fold (\<lambda>i m. if lt (m ! i) (m ! f) then pop_heap_to lt f mid i (m ! i) m else m) [mid..<l] m"
  shows "heap_from lt f 0 (mid - f) r \<and> shuffled f l m r \<and> (\<forall>j. mid \<le> j \<longrightarrow> j < l \<longrightarrow> \<not> lt (r ! j) (r ! f))"
  using assms(2,3) unfolding r_def
proof (induction l rule: dec_induct)
  case base
  then show ?case using assms(4) by simp
next
  case (step l)
  let ?m = "fold (\<lambda>i m. if lt (m ! i) (m ! f) then pop_heap_to lt f mid i (m ! i) m else m) [mid..<l] m"
  have IH: "heap_from lt f 0 (mid - f) ?m" "shuffled f l m ?m" "\<And>j. mid \<le> j \<Longrightarrow> j < l \<Longrightarrow> \<not> lt (?m ! j) (?m ! f)"
    using step by auto
  have len: "length ?m = length m" using IH(2) by (rule shuffled_length)
  show ?case
  proof (cases "lt (?m ! l) (?m ! f)")
    case True
    let ?n = "pop_heap_to lt f mid l (?m ! l) ?m"
    have fr: "shuffled f (Suc l) ?m ?n" "\<And>q. q < f \<or> mid \<le> q \<Longrightarrow> q \<noteq> l \<Longrightarrow> ?n ! q = ?m ! q" "?n ! l = ?m ! f"
      using pop_heap_to_shuffled [where f = f and l = mid and r = l and m = ?m and lt = lt] assms(1) step len by auto
    have heap: "heap_from lt f 0 (mid - f) ?n"
      using pop_heap_to_heap [of f mid l ?m] assms(1) step len IH(1) by simp
    have inner: "shuffled f mid (?m[l := ?m ! f, f := ?m ! l]) ?n"
      using pop_heap_to_inner [of f mid l ?m lt] assms(1) step len by simp
    obtain j where j: "f \<le> j" "j < mid" "?n ! f = ?m[l := ?m ! f, f := ?m ! l] ! j"
      using shuffled_cell [OF inner, of f] assms(1) step len by auto
    then have new: "?n ! f = ?m ! l \<or> ?n ! f = ?m ! j"
      using step len assms(1) by (auto simp: nth_list_update)
    have "\<not> lt (?m ! f) (?m ! j)" using heap_top [OF IH(1), of "j - f"] j by simp
    then have top: "\<not> lt (?m ! f) (?n ! f)"
      using new by (elim disjE) (erule ssubst, (rule asym [OF True] | assumption))+
    have "\<not> lt (?n ! q) (?n ! f)" if "mid \<le> q" "q < Suc l" for q
    proof (cases "q = l")
      case False
      with that have "q < l" by simp
      with IH(3) [of q] that have "\<not> lt (?m ! q) (?m ! f)" by blast
      from neg_trans [OF this top] show ?thesis using fr(2) [of q] False that by simp
    qed (use top fr(3) in simp)
    moreover have "shuffled f (Suc l) m ?m" using IH(2) by (rule shuffled_widen) simp_all
    from shuffled_trans [OF this fr(1)] have "shuffled f (Suc l) m ?n" .
    moreover have eq: "fold (\<lambda>i m. if lt (m ! i) (m ! f) then pop_heap_to lt f mid i (m ! i) m else m) [mid..<Suc l] m = ?n"
      using True step(1) by simp
    ultimately show ?thesis unfolding eq using heap by blast
  next
    case False
    have "shuffled f (Suc l) m ?m" using IH(2) by (rule shuffled_widen) simp_all
    then show ?thesis using False IH step by (auto simp: less_Suc_eq)
  qed
qed

lemma partial_sort_sorts:
  assumes "f < mid" "mid \<le> l" "l \<le> length m"
  shows "shuffled f l m (partial_sort lt f mid l m)" "ordered lt ((!) (partial_sort lt f mid l m)) f mid"
    "\<And>i j. f \<le> i \<Longrightarrow> i < mid \<Longrightarrow> mid \<le> j \<Longrightarrow> j < l \<Longrightarrow> \<not> lt (partial_sort lt f mid l m ! j) (partial_sort lt f mid l m ! i)"
proof -
  let ?h = "std_make_heap lt f mid m"
  define r where "r = fold (\<lambda>i m. if lt (m ! i) (m ! f) then pop_heap_to lt f mid i (m ! i) m else m) [mid..<l] ?h"
  have sh: "shuffled f mid m ?h" using make_heap_shuffled [of f mid m lt] assms by simp
  then have sh': "shuffled f l m ?h" by (rule shuffled_widen) (use assms in simp_all)
  have "heap_from lt f 0 (mid - f) ?h" using make_heap_heap [of f mid m] assms by simp
  then have r: "heap_from lt f 0 (mid - f) r" "shuffled f l ?h r" "\<forall>j. mid \<le> j \<longrightarrow> j < l \<longrightarrow> \<not> lt (r ! j) (r ! f)"
    using partial_sort_loop [of f mid l ?h] assms shuffled_length [OF sh] unfolding r_def by auto
  have len: "length r = length m" using shuffled_length [OF r(2)] shuffled_length [OF sh] by simp
  have eq: "partial_sort lt f mid l m = sort_heap lt f mid r" by (simp add: partial_sort_def r_def)
  have srt: "shuffled f mid r (sort_heap lt f mid r)" using sort_heap_shuffled [of mid r f lt] assms len by simp
  then have "shuffled f l r (sort_heap lt f mid r)" by (rule shuffled_widen) (use assms in simp_all)
  then show "shuffled f l m (partial_sort lt f mid l m)"
    unfolding eq using sh' r(2) shuffled_trans by blast
  show "ordered lt ((!) (partial_sort lt f mid l m)) f mid"
    unfolding eq using sort_heap_ordered [of f mid r mid] r(1) assms len by (simp add: ordered_def)
  fix i j assume ij: "f \<le> i" "i < mid" "mid \<le> j" "j < l"
  obtain k where k: "f \<le> k" "k < mid" "sort_heap lt f mid r ! i = r ! k"
    using shuffled_cell [OF srt ij(1,2)] assms len by auto
  have "\<not> lt (r ! f) (r ! k)" using heap_top [OF r(1), of "k - f"] k by simp
  moreover have "\<not> lt (r ! j) (r ! f)" using r(3) ij by blast
  ultimately have "\<not> lt (r ! j) (r ! k)" using neg_trans by blast
  then show "\<not> lt (partial_sort lt f mid l m ! j) (partial_sort lt f mid l m ! i)"
    unfolding eq using shuffled_outside [OF srt, of j] ij k by simp
qed

end

section \<open>\<^verbatim>\<open>sort\<close>\<close>

text \<open>What introsort leaves: pieces of at most 16 cells in the right order, or sorted pieces.\<close>

inductive roughly :: "('a \<Rightarrow> 'a \<Rightarrow> bool) \<Rightarrow> nat \<Rightarrow> nat \<Rightarrow> 'a list \<Rightarrow> bool" where
  short: "l - f \<le> stl_threshold \<Longrightarrow> roughly lt f l m"
| all_done: "ordered lt ((!) m) f l \<Longrightarrow> roughly lt f l m"
| cut: "f < c \<Longrightarrow> c < l \<Longrightarrow> roughly lt f c m \<Longrightarrow> roughly lt c l m \<Longrightarrow>
    (\<And>i j. f \<le> i \<Longrightarrow> i < c \<Longrightarrow> c \<le> j \<Longrightarrow> j < l \<Longrightarrow> \<not> lt (m ! j) (m ! i)) \<Longrightarrow> roughly lt f l m"

lemma roughly_cong: "roughly lt f l m \<Longrightarrow> (\<And>i. f \<le> i \<Longrightarrow> i < l \<Longrightarrow> m' ! i = m ! i) \<Longrightarrow> roughly lt f l m'"
proof (induction rule: roughly.induct)
  case (all_done lt m f l)
  then show ?case by (intro roughly.all_done) (auto simp: ordered_def)
next
  case (cut f c l lt m)
  show ?case
    by (rule roughly.cut [OF cut(1,2)]) (use cut in \<open>auto intro: cut.IH\<close>)
qed (auto intro: roughly.short)

context strict_weak_order begin

lemma list_least: "xs \<noteq> [] \<Longrightarrow> \<exists>x \<in> set xs. \<forall>y \<in> set xs. \<not> lt y x"
proof (induction xs rule: list_nonempty_induct)
  case (cons a xs)
  then obtain x where x: "x \<in> set xs" "\<forall>y \<in> set xs. \<not> lt y x" by blast
  show ?case
  proof (cases "lt a x")
    case True
    have "\<not> lt y a" if "y \<in> set xs" for y using x(2) that True trans by blast
    then show ?thesis using irrefl by (intro bexI [of _ a]) auto
  qed (use x in auto)
qed (simp add: irrefl)

lemma roughly_least:
  assumes "roughly lt f l m" "f < l"
  shows "\<exists>i. f \<le> i \<and> i < l \<and> i < f + stl_threshold \<and> (\<forall>j. f \<le> j \<longrightarrow> j < l \<longrightarrow> \<not> lt (m ! j) (m ! i))"
  using assms
proof (induction lt\<equiv>lt f l m rule: roughly.induct)
  case (short l f m)
  have "map ((!) m) [f..<l] \<noteq> []" using short(2) by simp
  from list_least [OF this] obtain i where "i \<in> {f..<l}" "\<forall>j \<in> {f..<l}. \<not> lt (m ! j) (m ! i)" by auto
  with short(1) show ?case by (intro exI [of _ i]) auto
next
  case (all_done m f l)
  then show ?case
    by (intro exI [of _ f]) (auto simp: ordered_def stl_threshold_def irrefl le_neq_implies_less dest: le_neq_implies_less)
next
  case (cut f c l m)
  then obtain i where i: "f \<le> i" "i < c" "i < f + stl_threshold" "\<forall>j. f \<le> j \<longrightarrow> j < c \<longrightarrow> \<not> lt (m ! j) (m ! i)" by auto
  have "\<not> lt (m ! j) (m ! i)" if "f \<le> j" "j < l" for j
    using i(4) cut(7) [OF i(1,2)] that by (metis not_le)
  with i cut(2) show ?case by (intro exI [of _ i]) auto
qed

lemma introsort_loop_roughly:
  assumes "f \<le> l" "l \<le> length m"
  shows "\<exists>m'. introsort_loop lt f l d m = Inr m' \<and> shuffled f l m m' \<and> roughly lt f l m'"
  using assms
proof (induction d arbitrary: f l m)
  case 0
  show ?case
  proof (cases "l - f > stl_threshold")
    case True
    then have "f < l" by simp
    then show ?thesis
      using True partial_sort_sorts [of f l l m] 0 by (subst introsort_loop.simps) (auto intro: roughly.all_done)
  next
    case False
    then show ?thesis by (subst introsort_loop.simps) (auto intro: roughly.short)
  qed
next
  case (Suc d)
  show ?case
  proof (cases "l - f > stl_threshold")
    case True
    then have "f + 3 \<le> l" by (simp add: stl_threshold_def)
    then obtain c m1 where c: "unguarded_partition lt (median_of_range lt f l m) f l m = Inr (c, m1)" "shuffled f l m m1" "f < c" "c < l"
      and m1: "\<And>i j. f \<le> i \<Longrightarrow> i < c \<Longrightarrow> c \<le> j \<Longrightarrow> j < l \<Longrightarrow> \<not> lt (m1 ! j) (m1 ! i)"
      using partition_range [of f l m] Suc.prems(2) by auto
    have len1: "length m1 = length m" using c(2) by (rule shuffled_length)
    obtain m2 where m2: "introsort_loop lt c l d m1 = Inr m2" "shuffled c l m1 m2" "roughly lt c l m2"
      using Suc.IH [of c l m1] c(4) Suc.prems(2) len1 by auto
    have len2: "length m2 = length m" using shuffled_length [OF m2(2)] len1 by simp
    obtain m3 where m3: "introsort_loop lt f c d m2 = Inr m3" "shuffled f c m2 m3" "roughly lt f c m3"
      using Suc.IH [of f c m2] c(3,4) Suc.prems(2) len2 by auto
    have across: "\<not> lt (m3 ! j) (m3 ! i)" if ij: "f \<le> i" "i < c" "c \<le> j" "j < l" for i j
    proof -
      obtain i' where i': "f \<le> i'" "i' < c" "m3 ! i = m2 ! i'"
        using shuffled_cell [OF m3(2) ij(1,2)] c(4) Suc.prems(2) len2 by auto
      obtain j' where j': "c \<le> j'" "j' < l" "m2 ! j = m1 ! j'"
        using shuffled_cell [OF m2(2) ij(3,4)] Suc.prems(2) len1 by auto
      show ?thesis
        using m1 [OF i'(1,2) j'(1,2)] i' j' shuffled_outside [OF m3(2), of j] shuffled_outside [OF m2(2), of i'] ij by simp
    qed
    have right: "roughly lt c l m3"
      using m2(3) by (rule roughly_cong) (use shuffled_outside [OF m3(2)] in simp)
    have "roughly lt f l m3" by (rule roughly.cut [OF c(3,4) m3(3) right across])
    moreover have "shuffled f l m1 m2" "shuffled f l m2 m3"
      using shuffled_widen [OF m2(2), of f l] shuffled_widen [OF m3(2), of f l] c(3,4) by simp_all
    then have "shuffled f l m m3" using shuffled_trans [OF shuffled_trans [OF c(2)]] by blast
    moreover have "introsort_loop lt f l (Suc d) m = Inr m3"
      using True c(1) m2(1) m3(1) by (subst introsort_loop.simps) simp
    ultimately show ?thesis by blast
  next
    case False
    then show ?thesis by (subst introsort_loop.simps) (auto intro: roughly.short)
  qed
qed

lemma ins_hd: "xs \<noteq> [] \<Longrightarrow> \<not> lt v (hd xs) \<Longrightarrow> hd (ins lt v xs) = hd xs"
proof -
  assume xs: "xs \<noteq> []" "\<not> lt v (hd xs)"
  obtain as bs where s: "xs = as @ bs" "ins lt v xs = as @ v # bs" "\<forall>b \<in> set bs. lt v b" by (rule ins_split)
  then have "as \<noteq> []" using xs by (metis append_Nil hd_in_set)
  then show ?thesis using s by simp
qed

lemma unguarded_insertion_sort_sorts:
  assumes "ascending lt xs" "xs \<noteq> []" "\<forall>y \<in> set rest. \<not> lt y (hd xs)"
  shows "\<exists>ys. unguarded_insertion_sort lt (length pre + length xs) (length pre + length xs + length rest) (pre @ xs @ rest @ post) =
      Inr (pre @ ys @ post) \<and> ascending lt ys \<and> stable lt (xs @ rest) ys"
  using assms unfolding unguarded_insertion_sort_def
proof (induction rest arbitrary: xs)
  case (Cons v rest)
  have upt: "[length pre + length xs..<length pre + length xs + length (v # rest)] =
      (length pre + length xs) # [length pre + length (ins lt v xs)..<length pre + length (ins lt v xs) + length rest]"
    by (subst upt_conv_Cons) simp_all
  have at: "(pre @ xs @ (v # rest) @ post) ! (length pre + length xs) = v"
    using nth_append_length [of "pre @ xs" v "rest @ post"] by simp
  have ins: "unguarded_linear_insert lt (length pre + length xs) v (pre @ xs @ (v # rest) @ post) = Inr (pre @ ins lt v xs @ rest @ post)"
    using unguarded_linear_insert_ins [OF bexI [of _ "hd xs"], of lt v xs pre v "rest @ post"] Cons.prems(2,3) by simp
  have "ins lt v xs \<noteq> []" using ins_length [of lt v xs] by (metis length_0_conv nat.distinct(1))
  moreover have "hd (ins lt v xs) = hd xs" using ins_hd Cons.prems by simp
  ultimately obtain ys where ys: "foldE (\<lambda>i m. unguarded_linear_insert lt i (m ! i) m)
      [length pre + length (ins lt v xs)..<length pre + length (ins lt v xs) + length rest] (pre @ ins lt v xs @ rest @ post) = Inr (pre @ ys @ post)"
    "ascending lt ys" "stable lt (ins lt v xs @ rest) ys"
    using Cons.IH [of "ins lt v xs"] ins_ascending Cons.prems by auto
  have "stable lt (xs @ v # rest) (ins lt v xs @ rest)"
    using stable_append [OF ins_stable stable_refl] by simp
  then have "stable lt (xs @ v # rest) ys" using ys(3) stable_trans by blast
  then show ?case unfolding upt foldE.simps at ins using ys by auto
qed auto

lemma final_insertion_sort_sorts:
  assumes "roughly lt f l m" "f < l" "l \<le> length m"
  shows "\<exists>m'. final_insertion_sort lt f l m = Inr m' \<and> shuffled f l m m' \<and> ordered lt ((!) m') f l"
proof -
  let ?pre = "take f m" and ?post = "drop l m"
  have result: "shuffled f l m (?pre @ ys @ ?post) \<and> ordered lt ((!) (?pre @ ys @ ?post)) f l"
    if ys: "ascending lt ys" "mset ys = mset (segment m f l)" for ys
  proof -
    have len: "length ys = l - f" using arg_cong [OF ys(2), of size] assms by simp
    then have "segment (?pre @ ys @ ?post) f l = ys" using segment_middle [of ?pre ys ?post] assms by simp
    then have "ordered lt ((!) (?pre @ ys @ ?post)) f l" using ys(1) len assms by (simp add: ordered_segment)
    moreover have "mset (?pre @ ys @ ?post) = mset m"
      using ys(2) segment_split [of f l m] assms by (metis less_imp_le_nat mset_append)
    ultimately show ?thesis using len assms by (auto simp: shuffled_def nth_append)
  qed
  show ?thesis
  proof (cases "l - f > stl_threshold")
    case True
    define e where "e = f + stl_threshold"
    have e: "f < e" "e < l" using True by (simp_all add: e_def stl_threshold_def)
    define xs ys where "xs = segment m f e" and "ys = segment m e l"
    have m: "m = ?pre @ xs @ ys @ ?post" and lens: "length ?pre = f" "length xs = e - f" "length ys = l - e"
      using segment_split [of f l m] segment_append [of f e l m] e assms by (simp_all add: xs_def ys_def)
    obtain zs where zs: "insertion_sort lt f e m = Inr (?pre @ zs @ ys @ ?post)" "ascending lt zs" "stable lt xs zs"
      using insertion_sort_sorts [of ?pre xs "ys @ ?post"] m lens e by auto
    have zlen: "length zs = e - f" using arg_cong [OF stable_mset [OF zs(3)], of size] lens by simp
    then have "zs \<noteq> []" using e by auto
    obtain i where i: "f \<le> i" "i < e" "\<forall>j. f \<le> j \<longrightarrow> j < l \<longrightarrow> \<not> lt (m ! j) (m ! i)"
      using roughly_least [OF assms(1,2)] by (auto simp: e_def)
    have "m ! i \<in> set xs" unfolding xs_def using i e assms by (auto simp: in_set_conv_nth intro!: exI [of _ "i - f"])
    then have "m ! i \<in> set zs" using mset_eq_setD [OF stable_mset [OF zs(3)]] by simp
    then have hd: "\<not> lt (m ! i) (hd zs)" using zs(2) \<open>zs \<noteq> []\<close> irrefl by (cases zs) auto
    have "\<not> lt y (hd zs)" if y: "y \<in> set ys" for y
    proof -
      obtain k where "k < l - e" "y = m ! (e + k)"
        using y assms(3) unfolding ys_def in_set_conv_nth by auto
      then have "\<not> lt y (m ! i)" using i(3) e(1) by simp
      then show ?thesis using hd neg_trans by blast
    qed
    then obtain ws where ws: "unguarded_insertion_sort lt e l (?pre @ zs @ ys @ ?post) = Inr (?pre @ ws @ ?post)" "ascending lt ws" "stable lt (zs @ ys) ws"
      using unguarded_insertion_sort_sorts [OF zs(2) \<open>zs \<noteq> []\<close>, of ys ?pre ?post] zlen lens e by auto
    have "mset ws = mset (segment m f l)"
      using stable_mset [OF ws(3)] stable_mset [OF zs(3)] segment_append [of f e l m] e by (simp add: xs_def ys_def)
    then show ?thesis
      using True zs(1) ws result by (auto simp: final_insertion_sort_def e_def)
  next
    case False
    obtain ws where "insertion_sort lt f l m = Inr (?pre @ ws @ ?post)" "ascending lt ws" "stable lt (segment m f l) ws"
      using insertion_sort_sorts [of ?pre "segment m f l" ?post] segment_split [of f l m] assms by auto
    then show ?thesis
      using False result stable_mset by (auto simp: final_insertion_sort_def)
  qed
qed

lemma sort_sorts:
  assumes "f \<le> l" "l \<le> length m"
  shows "\<exists>m'. std_sort lt f l m = Inr m' \<and> shuffled f l m m' \<and> ordered lt ((!) m') f l"
proof (cases "f = l")
  case True
  then show ?thesis by (simp add: std_sort_def ordered_def)
next
  case False
  obtain m1 where m1: "introsort_loop lt f l (priv_lg (l - f) * 2) m = Inr m1" "shuffled f l m m1" "roughly lt f l m1"
    using introsort_loop_roughly [OF assms] by blast
  obtain m2 where "final_insertion_sort lt f l m1 = Inr m2" "shuffled f l m1 m2" "ordered lt ((!) m2) f l"
    using final_insertion_sort_sorts [OF m1(3)] shuffled_length [OF m1(2)] assms False by auto
  then show ?thesis using m1 False shuffled_trans by (auto simp: std_sort_def)
qed

lemma nth_element_loop_places:
  assumes "f0 \<le> f" "f \<le> pos" "pos < l" "l \<le> l0" "l0 \<le> length m"
    and "\<And>i j. f0 \<le> i \<Longrightarrow> i < f \<Longrightarrow> f \<le> j \<Longrightarrow> j < l0 \<Longrightarrow> \<not> lt (m ! j) (m ! i)"
    and "\<And>i j. f0 \<le> i \<Longrightarrow> i < l \<Longrightarrow> l \<le> j \<Longrightarrow> j < l0 \<Longrightarrow> \<not> lt (m ! j) (m ! i)"
  shows "\<exists>f' l' m'. nth_element_loop lt f pos l m = Some (Inr (f', l', m')) \<and> shuffled f0 l0 m m' \<and>
     f0 \<le> f' \<and> f' \<le> pos \<and> pos < l' \<and> l' \<le> l0 \<and>
     (\<forall>i j. f0 \<le> i \<longrightarrow> i < f' \<longrightarrow> f' \<le> j \<longrightarrow> j < l0 \<longrightarrow> \<not> lt (m' ! j) (m' ! i)) \<and>
     (\<forall>i j. f0 \<le> i \<longrightarrow> i < l' \<longrightarrow> l' \<le> j \<longrightarrow> j < l0 \<longrightarrow> \<not> lt (m' ! j) (m' ! i))"
  using assms
proof (induction "l - f" arbitrary: f l m rule: less_induct)
  case less
  note left = less.prems(6) and right = less.prems(7)
  show ?case
  proof (cases "l - f > 3")
    case True
    then have "f + 3 \<le> l" by simp
    then obtain c m1 where c: "unguarded_partition lt (median_of_range lt f l m) f l m = Inr (c, m1)" "shuffled f l m m1" "f < c" "c < l"
      and m1: "\<And>i j. f \<le> i \<Longrightarrow> i < c \<Longrightarrow> c \<le> j \<Longrightarrow> j < l \<Longrightarrow> \<not> lt (m1 ! j) (m1 ! i)"
      using partition_range [of f l m] less.prems(4,5) by auto
    have sh: "shuffled f0 l0 m m1" using c(2) by (rule shuffled_widen) (use less.prems in simp_all)
    have len: "length m1 = length m" using c(2) by (rule shuffled_length)
    have keep: "m1 ! k = m ! k" if "k < f \<or> l \<le> k" for k using shuffled_outside [OF c(2)] that by blast
    have from_range: "\<exists>j. f \<le> j \<and> j < l \<and> m1 ! i = m ! j" if "f \<le> i" "i < l" for i
      using shuffled_cell [OF c(2) that] less.prems(4,5) by auto
    have L: "\<not> lt (m1 ! j) (m1 ! i)" if "f0 \<le> i" "i < f" "f \<le> j" "j < l0" for i j
    proof (cases "j < l")
      case True
      then obtain j' where "f \<le> j'" "j' < l" "m1 ! j = m ! j'" using from_range [of j] \<open>f \<le> j\<close> by blast
      with left [of i j'] keep [of i] \<open>f0 \<le> i\<close> \<open>i < f\<close> less.prems(4) show ?thesis by simp
    next
      case False
      with left [of i j] keep [of i] keep [of j] that show ?thesis by simp
    qed
    have R: "\<not> lt (m1 ! j) (m1 ! i)" if "f0 \<le> i" "i < l" "l \<le> j" "j < l0" for i j
    proof (cases "f \<le> i")
      case True
      then obtain i' where "f \<le> i'" "i' < l" "m1 ! i = m ! i'" using from_range [of i] \<open>i < l\<close> by blast
      with right [of i' j] keep [of j] \<open>l \<le> j\<close> \<open>j < l0\<close> less.prems(1) show ?thesis by simp
    next
      case False
      with right [of i j] keep [of i] keep [of j] that show ?thesis by simp
    qed
    have M: "\<not> lt (m1 ! j) (m1 ! i)" if "f0 \<le> i" "i < c" "c \<le> j" "j < l0" for i j
    proof -
      consider "i < f" | "f \<le> i" "j < l" | "f \<le> i" "l \<le> j" by linarith
      then show ?thesis using L [of i j] m1 [of i j] R [of i j] that c(3,4) by cases auto
    qed
    show ?thesis
    proof (cases "c \<le> pos")
      case True
      have "nth_element_loop lt f pos l m = nth_element_loop lt c pos l m1"
        using \<open>l - f > 3\<close> c(1) True by (subst nth_element_loop.simps) simp
      moreover have "l - c < l - f" using c(3,4) by linarith
      ultimately show ?thesis
        using less.hyps [of l c m1] True less.prems(1-5) len M R c(3) shuffled_trans [OF sh] by fastforce
    next
      case False
      have "nth_element_loop lt f pos l m = nth_element_loop lt f pos c m1"
        using \<open>l - f > 3\<close> c(1) False by (subst nth_element_loop.simps) simp
      moreover have "c - f < l - f" using c(3,4) by linarith
      ultimately show ?thesis
        using less.hyps [of c f m1] False less.prems(1-5) len L M c(4) shuffled_trans [OF sh] by fastforce
    qed
  next
    case False
    have "nth_element_loop lt f pos l m = Some (Inr (f, l, m))"
      using False by (subst nth_element_loop.simps) simp
    then show ?thesis using less.prems by auto
  qed
qed

lemma insertion_sort_range:
  assumes "f \<le> l" "l \<le> length m"
  shows "\<exists>m'. insertion_sort lt f l m = Inr m' \<and> shuffled f l m m' \<and> ordered lt ((!) m') f l"
proof -
  let ?xs = "segment m f l"
  obtain ys where ys: "insertion_sort lt f l m = Inr (take f m @ ys @ drop l m)" "ascending lt ys" "stable lt ?xs ys"
    using insertion_sort_sorts [of "take f m" ?xs "drop l m"] segment_split [OF assms] assms by auto
  have perm: "mset ys = mset ?xs" using stable_mset [OF ys(3)] .
  have len: "length ys = l - f" using arg_cong [OF perm, of size] assms by simp
  have "segment (take f m @ ys @ drop l m) f l = ys" using segment_middle [of "take f m" ys "drop l m"] len assms by simp
  then have "ordered lt ((!) (take f m @ ys @ drop l m)) f l" using ys(2) len assms by (simp add: ordered_segment)
  moreover have "mset (take f m @ ys @ drop l m) = mset m"
    using perm segment_split [OF assms] by (metis mset_append)
  ultimately show ?thesis using ys(1) len assms by (auto simp: shuffled_def nth_append)
qed

lemma nth_element_places:
  assumes "f \<le> pos" "pos < l" "l \<le> length m"
  shows "\<exists>m'. nth_element lt f pos l m = Some (Inr m') \<and> shuffled f l m m' \<and>
     (\<forall>i. f \<le> i \<longrightarrow> i < pos \<longrightarrow> \<not> lt (m' ! pos) (m' ! i)) \<and> (\<forall>j. pos \<le> j \<longrightarrow> j < l \<longrightarrow> \<not> lt (m' ! j) (m' ! pos))"
proof -
  obtain a b m1 where m1: "nth_element_loop lt f pos l m = Some (Inr (a, b, m1))" "shuffled f l m m1" "f \<le> a" "a \<le> pos" "pos < b" "b \<le> l"
    and left: "\<And>i j. f \<le> i \<Longrightarrow> i < a \<Longrightarrow> a \<le> j \<Longrightarrow> j < l \<Longrightarrow> \<not> lt (m1 ! j) (m1 ! i)"
    and right: "\<And>i j. f \<le> i \<Longrightarrow> i < b \<Longrightarrow> b \<le> j \<Longrightarrow> j < l \<Longrightarrow> \<not> lt (m1 ! j) (m1 ! i)"
    using nth_element_loop_places [of f f pos l l m] assms by auto
  have len: "length m1 = length m" using m1(2) by (rule shuffled_length)
  obtain m2 where m2: "insertion_sort lt a b m1 = Inr m2" "shuffled a b m1 m2" "ordered lt ((!) m2) a b"
    using insertion_sort_range [of a b m1] m1 len assms by auto
  obtain q where q: "a \<le> q" "q < b" "m2 ! pos = m1 ! q"
    using shuffled_cell [OF m2(2) m1(4,5)] m1(6) len assms(3) by auto
  have keep: "m2 ! k = m1 ! k" if "k < a \<or> b \<le> k" for k using shuffled_outside [OF m2(2) that] .
  have "\<not> lt (m2 ! pos) (m2 ! i)" if "f \<le> i" "i < pos" for i
  proof (cases "i < a")
    case True
    then show ?thesis using left [of i q] q keep [of i] that m1(6) by simp
  next
    case False
    then show ?thesis using m2(3) that m1(5) by (simp add: ordered_def)
  qed
  moreover have "\<not> lt (m2 ! j) (m2 ! pos)" if "pos \<le> j" "j < l" for j
  proof (cases "b \<le> j")
    case True
    then show ?thesis using right [of q j] q keep [of j] that m1(3) by simp
  next
    case False
    then show ?thesis using m2(3) that m1(4) irrefl by (cases "j = pos") (auto simp: ordered_def)
  qed
  moreover have "shuffled f l m m2"
    using shuffled_trans [OF m1(2) shuffled_widen [OF m2(2) m1(3,6)]] .
  ultimately show ?thesis using m1(1) m2(1) by (auto simp: nth_element_def)
qed

end

text \<open>
  C34. \<^verbatim>\<open>sort\<close> of the library, on any range and for any strict weak order: its unguarded scans and
  insertions stay inside the memory, it ends, and it leaves a sorted permutation of the range and the rest of the memory as it was.
\<close>

theorem sort_correct:
  assumes "strict_weak_order lt" "first \<le> fin" "fin \<le> length mem"
  shows "\<exists>m. std_sort lt first fin mem = Inr m \<and> shuffled first fin mem m \<and> ordered lt ((!) m) first fin"
  using strict_weak_order.sort_sorts [OF assms] .

theorem sort_correct_witness:
  "\<exists>m. std_sort (<) 1 4 [9, 3, 2, 1 :: nat] = Inr m \<and> shuffled 1 4 [9, 3, 2, 1] m \<and> ordered (<) ((!) m) 1 4"
  by (rule sort_correct [OF less_order.strict_weak_order_axioms]) simp_all

text \<open>
  \<^verbatim>\<open>partial_sort\<close> leaves, in sorted order, the smallest elements of the range in front: the heap it
  keeps while it reads the rest always holds the smallest elements seen so far.
\<close>

theorem partial_sort_correct:
  assumes "strict_weak_order lt" "first < middle" "middle \<le> fin" "fin \<le> length mem"
  shows "shuffled first fin mem (partial_sort lt first middle fin mem) \<and>
    ordered lt ((!) (partial_sort lt first middle fin mem)) first middle \<and>
    (\<forall>i j. first \<le> i \<and> i < middle \<and> middle \<le> j \<and> j < fin \<longrightarrow>
       \<not> lt (partial_sort lt first middle fin mem ! j) (partial_sort lt first middle fin mem ! i))"
  using strict_weak_order.partial_sort_sorts [OF assms] by blast

theorem partial_sort_correct_witness:
  "shuffled 0 4 [9, 3, 2, 1 :: nat] (partial_sort (<) 0 2 4 [9, 3, 2, 1]) \<and>
    ordered (<) ((!) (partial_sort (<) 0 2 4 [9, 3, 2, 1 :: nat])) 0 2"
  using partial_sort_correct [OF less_order.strict_weak_order_axioms, of 0 2 4 "[9, 3, 2, 1 :: nat]"] by simp

text \<open>
  C35. \<^verbatim>\<open>nth_element\<close> ends, permutes the range, and puts at the given position, one inside the range, an element that no element
  before it exceeds and that exceeds none behind it.
\<close>

theorem nth_element_correct:
  assumes "strict_weak_order lt" "first \<le> pos" "pos < fin" "fin \<le> length mem"
  shows "\<exists>m. nth_element lt first pos fin mem = Some (Inr m) \<and> shuffled first fin mem m \<and>
     (\<forall>i. first \<le> i \<longrightarrow> i < pos \<longrightarrow> \<not> lt (m ! pos) (m ! i)) \<and> (\<forall>j. pos \<le> j \<longrightarrow> j < fin \<longrightarrow> \<not> lt (m ! j) (m ! pos))"
  using strict_weak_order.nth_element_places [OF assms] .

theorem nth_element_correct_witness:
  "\<exists>m. nth_element (<) 0 2 5 [9, 3, 2, 1, 5 :: nat] = Some (Inr m) \<and> shuffled 0 5 [9, 3, 2, 1, 5] m \<and>
     (\<forall>i. 0 \<le> i \<longrightarrow> i < 2 \<longrightarrow> \<not> m ! 2 < m ! i) \<and> (\<forall>j. 2 \<le> j \<longrightarrow> j < 5 \<longrightarrow> \<not> m ! j < m ! 2)"
  by (rule nth_element_correct [OF less_order.strict_weak_order_axioms]) simp_all

end
