(* ===== verification/Stl_Rotate.thy ===== *)
theory Stl_Rotate
  imports Stl_Sequence
begin

text \<open>
  \<^verbatim>\<open>rotate\<close> for random access iterators (\<^verbatim>\<open>stl/_algo.c\<close>): the permutation that moves every cell
  \<open>k\<close> places down, cyclically, is carried out cycle by cycle, as many cycles as the greatest
  common divisor of \<open>n\<close> and \<open>k\<close>, each with one temporary. The three versions of \<^verbatim>\<open>rotate\<close> are then
  shown to be one function.
\<close>

section \<open>The code\<close>

function priv_gcd :: "nat \<Rightarrow> nat \<Rightarrow> nat" where
  "priv_gcd m n = (if n \<noteq> 0 then priv_gcd n (m mod n) else m)"
  by pat_completeness auto
termination
  by (relation "measure snd") auto

declare priv_gcd.simps [simp del]

definition rotate_up :: "nat \<Rightarrow> nat \<Rightarrow> nat \<Rightarrow> nat \<times> 'a list \<Rightarrow> nat \<times> 'a list" where
  "rotate_up first k l st =
     (let (p, m) = st;
          (p, m) = (if p > first + l then (p - l, m[p := m ! (p - l)]) else (p, m))
      in (p + k, m[p := m ! (p + k)]))"

definition rotate_down :: "nat \<Rightarrow> nat \<Rightarrow> nat \<Rightarrow> nat \<times> 'a list \<Rightarrow> nat \<times> 'a list" where
  "rotate_down fin k l st =
     (let (p, m) = st;
          (p, m) = (if p < fin - k then (p + k, m[p := m ! (p + k)]) else (p, m))
      in (p - l, m[p := m ! (p - l)]))"

definition rotate_cycle :: "nat \<Rightarrow> nat \<Rightarrow> nat \<Rightarrow> nat \<Rightarrow> nat \<times> 'a list \<Rightarrow> nat \<times> 'a list" where
  "rotate_cycle fin k l d st =
     (let (first, mem) = st; tmp = mem ! first;
          (p, m) = (if k < l then fold (\<lambda>j. rotate_up first k l) [0..<l div d] (first, mem)
                    else fold (\<lambda>j. rotate_down fin k l) [0..<k div d - 1] (first, mem))
      in (Suc first, m[p := tmp]))"

definition rotate_random :: "nat \<Rightarrow> nat \<Rightarrow> nat \<Rightarrow> 'a list \<Rightarrow> nat \<times> 'a list" where
  "rotate_random first middle fin mem =
     (let n = fin - first; k = middle - first; l = n - k; result = first + (fin - middle) in
      if k = 0 then (fin, mem)
      else if k = l then (result, snd (swap_ranges first middle middle mem))
      else let d = priv_gcd n k in
           (result, snd (fold (\<lambda>i. rotate_cycle fin k l d) [0..<d] (first, mem))))"

datatype rotate_category = RotForward | RotBidi | RotRandom

definition priv_rotate :: "rotate_category \<Rightarrow> nat \<Rightarrow> nat \<Rightarrow> nat \<Rightarrow> 'a list \<Rightarrow> (nat \<times> 'a list) option" where
  "priv_rotate c first middle fin mem =
     (case c of RotForward \<Rightarrow> rotate_forward first middle fin mem
              | RotBidi \<Rightarrow> Some (rotate_bidi first middle fin mem)
              | RotRandom \<Rightarrow> Some (rotate_random first middle fin mem))"

definition std_rotate :: "rotate_category \<Rightarrow> nat \<Rightarrow> nat \<Rightarrow> nat \<Rightarrow> 'a list \<Rightarrow> 'a list option" where
  "std_rotate c first middle fin mem = map_option snd (priv_rotate c first middle fin mem)"

lemma priv_gcd_gcd: "priv_gcd m n = gcd m n"
  by (induction m n rule: priv_gcd.induct) (subst priv_gcd.simps, auto simp: gcd_red_nat [symmetric] gcd.commute)

section \<open>One cycle\<close>

text \<open>
  Positions are counted from the start of the range, which has \<open>n = (k' + l') * d\<close> cells and is
  rotated by \<open>k' * d\<close>. The cycle through \<open>i < d\<close> visits \<open>(i + t * k) mod n\<close>.
\<close>

definition visited :: "nat \<Rightarrow> nat \<Rightarrow> nat \<Rightarrow> nat \<Rightarrow> nat \<Rightarrow> bool" where
  "visited n k i t x \<longleftrightarrow> (\<exists>s < t. x = (i + s * k) mod n)"

definition moved :: "nat \<Rightarrow> nat \<Rightarrow> nat \<Rightarrow> 'a list \<Rightarrow> (nat \<Rightarrow> bool) \<Rightarrow> 'a list" where
  "moved base n k orig V =
     map (\<lambda>q. if base \<le> q \<and> q < base + n \<and> V (q - base) then orig ! (base + (q - base + k) mod n) else orig ! q) [0..<length orig]"

lemma moved_length [simp]: "length (moved base n k orig V) = length orig"
  by (simp add: moved_def)

lemma moved_nth [simp]:
  "q < length orig \<Longrightarrow> moved base n k orig V ! q =
     (if base \<le> q \<and> q < base + n \<and> V (q - base) then orig ! (base + (q - base + k) mod n) else orig ! q)"
  by (simp add: moved_def)

lemma moved_cong: "(\<And>x. x < n \<Longrightarrow> V x = W x) \<Longrightarrow> moved base n k orig V = moved base n k orig W"
  unfolding moved_def by (intro map_cong) auto

lemma moved_update:
  assumes "x < n" "base + n \<le> length orig" "y = (x + k) mod n"
  shows "(moved base n k orig V)[base + x := orig ! (base + y)] = moved base n k orig (\<lambda>z. V z \<or> z = x)"
  using assms by (intro nth_equalityI) (auto simp: nth_list_update)

lemma visited_Suc: "visited n k i (Suc t) x \<longleftrightarrow> visited n k i t x \<or> x = (i + t * k) mod n"
  by (auto simp: visited_def less_Suc_eq)

lemma revisit_late:
  fixes d k' l' :: nat
  assumes "0 < d" "coprime k' l'" "s < t" "(i + s * (k' * d)) mod ((k' + l') * d) = (i + t * (k' * d)) mod ((k' + l') * d)"
  shows "k' + l' \<le> t - s"
proof -
  have "(k' + l') * d dvd (t - s) * k' * d"
    using assms(3,4) mod_eq_dvd_iff_nat [of "i + s * (k' * d)" "i + t * (k' * d)" "(k' + l') * d"]
    by (simp add: algebra_simps diff_mult_distrib)
  then have "k' + l' dvd (t - s) * k'" using assms(1) by simp
  moreover have "coprime (k' + l') k'" using assms(2) by (simp add: coprime_commute coprime_iff_gcd_eq_1)
  ultimately have "k' + l' dvd t - s" by (simp add: coprime_dvd_mult_left_iff)
  then show ?thesis using assms(3) by (simp add: dvd_imp_le)
qed

text \<open>The state inside the cycle through \<open>i\<close> after \<open>F\<close> moves from \<open>k\<close> above and \<open>B\<close> moves from \<open>l\<close> below.\<close>

definition in_cycle :: "nat \<Rightarrow> nat \<Rightarrow> nat \<Rightarrow> nat \<Rightarrow> 'a list \<Rightarrow> nat \<Rightarrow> nat \<Rightarrow> nat \<Rightarrow> nat \<Rightarrow> 'a list \<Rightarrow> bool" where
  "in_cycle base d k' l' orig i F B x m \<longleftrightarrow>
     x < (k' + l') * d \<and> x + B * (l' * d) = i + F * (k' * d) \<and>
     m = moved base ((k' + l') * d) (k' * d) orig (\<lambda>z. z mod d < i \<or> visited ((k' + l') * d) (k' * d) i (F + B) z)"

lemma in_cycle_pos:
  assumes "in_cycle base d k' l' orig i F B x m" "i < d"
  shows "x = (i + (F + B) * (k' * d)) mod ((k' + l') * d)" "x mod d = i" "i \<le> x"
proof -
  have "x + B * ((k' + l') * d) = i + (F + B) * (k' * d)"
    using assms(1) by (simp add: in_cycle_def algebra_simps)
  then show "x = (i + (F + B) * (k' * d)) mod ((k' + l') * d)"
    using assms(1) by (metis in_cycle_def mod_less mod_mult_self1)
  have "(x + B * l' * d) mod d = (i + F * k' * d) mod d"
    using assms(1) by (simp add: in_cycle_def mult.assoc)
  then show "x mod d = i" using assms(2) by simp
  then show "i \<le> x" by (metis mod_less_eq_dividend)
qed

lemma cycle_move:
  assumes c: "in_cycle base d k' l' orig i F B x m" and i: "i < d" and "coprime k' l'"
    and le: "base + (k' + l') * d \<le> length orig" and few: "F + B + 1 < k' + l'"
    and y: "y = (x + k' * d) mod ((k' + l') * d)" and nxt: "y + B' * (l' * d) = i + F' * (k' * d)" "F' + B' = F + B + 1"
  shows "in_cycle base d k' l' orig i F' B' y (m[base + x := m ! (base + y)])"
proof -
  let ?n = "(k' + l') * d"
  have x: "x = (i + (F + B) * (k' * d)) mod ?n" "x < ?n" "x mod d = i"
    using in_cycle_pos [OF c i] c by (auto simp: in_cycle_def)
  have y': "y = (i + (F + B + 1) * (k' * d)) mod ?n"
    unfolding y x(1) mod_add_left_eq by (simp add: add.assoc add.commute add.left_commute)
  have "y mod d = (x + k' * d) mod d" unfolding y by (rule mod_mod_cancel) simp
  then have "y mod d = i" using x(3) by simp
  moreover have "\<not> visited ?n (k' * d) i (F + B) y"
  proof
    assume "visited ?n (k' * d) i (F + B) y"
    then obtain s where s: "s < F + B" "y = (i + s * (k' * d)) mod ?n" by (auto simp: visited_def)
    then have "k' + l' \<le> F + B + 1 - s"
      using i y' assms(3) by (intro revisit_late [of d k' l' s "F + B + 1" i]) simp_all
    then show False using few by simp
  qed
  moreover have "y < ?n" unfolding y using x(2) by (intro mod_less_divisor) linarith
  ultimately have "m ! (base + y) = orig ! (base + y)"
    using c le by (simp add: in_cycle_def)
  then have "m[base + x := m ! (base + y)] =
      moved base ?n (k' * d) orig (\<lambda>z. (z mod d < i \<or> visited ?n (k' * d) i (F + B) z) \<or> z = x)"
    using moved_update [OF x(2) le y] c by (simp add: in_cycle_def)
  also have "\<dots> = moved base ?n (k' * d) orig (\<lambda>z. z mod d < i \<or> visited ?n (k' * d) i (F' + B') z)"
  proof (rule moved_cong)
    fix z
    have "visited ?n (k' * d) i (F' + B') z \<longleftrightarrow> visited ?n (k' * d) i (F + B) z \<or> z = x"
      unfolding nxt(2) using visited_Suc [of ?n "k' * d" i "F + B" z] x(1) by simp
    then show "((z mod d < i \<or> visited ?n (k' * d) i (F + B) z) \<or> z = x) = (z mod d < i \<or> visited ?n (k' * d) i (F' + B') z)"
      by blast
  qed
  finally show ?thesis using \<open>y < ?n\<close> nxt by (simp add: in_cycle_def)
qed

lemma mult_cancel_d: "0 < (d :: nat) \<Longrightarrow> a * (b * d) \<le> c * (e * d) \<longleftrightarrow> a * b \<le> c * e"
  by (metis mult.assoc mult_le_cancel2 not_less_zero gr_zeroI)

lemma cycle_moves_below:
  assumes c: "in_cycle base d k' l' orig i F B x m" and i: "i < d" and "F < l'" "0 < k'"
  shows "B < k'"
proof -
  have "B * (l' * d) \<le> F * (k' * d)"
    using in_cycle_pos(3) [OF c i] c unfolding in_cycle_def by linarith
  then have "B * l' \<le> F * k'" using i mult_cancel_d [of d B l' F k'] by simp
  also have "\<dots> < l' * k'" using assms(3,4) by simp
  finally show ?thesis by (metis mult.commute mult_less_cancel2)
qed

lemma rotate_up_step:
  assumes c: "in_cycle base d k' l' orig i F B x m" and i: "i < d" and copr: "coprime k' l'" and "0 < k'" "k' < l'" "F < l'"
    and le: "base + (k' + l') * d \<le> length orig"
  shows "\<exists>B' x' m'. rotate_up (base + i) (k' * d) (l' * d) (base + x, m) = (base + x', m') \<and>
      in_cycle base d k' l' orig i (Suc F) B' x' m' \<and> B' < k'"
proof -
  let ?n = "(k' + l') * d"
  have "\<exists>B1 x1 m1. (if base + x > base + i + l' * d then (base + x - l' * d, m[base + x := m ! (base + x - l' * d)]) else (base + x, m)) =
      (base + x1, m1) \<and> in_cycle base d k' l' orig i F B1 x1 m1 \<and> x1 < l' * d"
  proof (cases "x > i + l' * d")
    case True
    have B: "B < k'" using cycle_moves_below [OF c i] assms by simp
    have xn: "x < ?n" using c by (simp add: in_cycle_def)
    have "x - l' * d = (x + k' * d) mod ?n"
    proof -
      have "x + k' * d = (x - l' * d) + ?n" using True by (simp add: algebra_simps)
      then show ?thesis using xn by (metis diff_le_self le_less_trans mod_add_self2 mod_less)
    qed
    moreover have "x - l' * d + Suc B * (l' * d) = i + F * (k' * d)"
      using c True by (simp add: in_cycle_def)
    ultimately have "in_cycle base d k' l' orig i F (Suc B) (x - l' * d) (m[base + x := m ! (base + (x - l' * d))])"
      using B assms by (intro cycle_move [OF c i copr le]) simp_all
    moreover have "x - l' * d < l' * d"
    proof -
      have "k' * d < l' * d" "?n = k' * d + l' * d" using assms(5) i by (simp_all add: add_mult_distrib)
      then show ?thesis using xn True by linarith
    qed
    ultimately show ?thesis
      using True by (intro exI [of _ "Suc B"] exI [of _ "x - l' * d"]) auto
  next
    case False
    have "x \<noteq> i + l' * d"
    proof
      assume "x = i + l' * d"
      then have "Suc B * (l' * d) = F * (k' * d)" using c by (simp add: in_cycle_def)
      then have eq: "Suc B * l' = F * k'"
        using i by (metis gr_implies_not0 mult.assoc mult_right_cancel)
      then have "l' dvd F * k'" by (metis dvd_triv_right)
      then have "l' dvd F" using copr by (simp add: coprime_commute coprime_dvd_mult_left_iff)
      then have "F = 0" using assms(6) by (metis dvd_imp_le gr_zeroI not_le)
      then show False using eq assms by simp
    qed
    moreover have "x = i + x div d * d"
      using in_cycle_pos(2) [OF c i] by (metis mod_div_mult_eq)
    ultimately have "x div d * d < l' * d" using False by linarith
    then have "x div d < l'" by (metis mult_less_cancel2)
    then have "Suc (x div d) * d \<le> l' * d" by (intro mult_le_mono1) simp
    then have "x < l' * d" using \<open>x = i + x div d * d\<close> i by simp
    then show ?thesis using c False by auto
  qed
  then obtain B1 x1 m1 where first: "(if base + x > base + i + l' * d then (base + x - l' * d, m[base + x := m ! (base + x - l' * d)]) else (base + x, m)) =
      (base + x1, m1)" and c1: "in_cycle base d k' l' orig i F B1 x1 m1" and x1: "x1 < l' * d"
    by blast
  have B1: "B1 < k'" using cycle_moves_below [OF c1 i] assms by simp
  have "in_cycle base d k' l' orig i (Suc F) B1 (x1 + k' * d) (m1[base + x1 := m1 ! (base + (x1 + k' * d))])"
    using B1 x1 assms c1
    by (intro cycle_move [OF c1 i copr le]) (simp_all add: in_cycle_def algebra_simps)
  then show ?thesis
    using first B1 by (intro exI [of _ B1] exI [of _ "x1 + k' * d"]) (auto simp: rotate_up_def Let_def add.assoc)
qed

lemma rotate_down_step:
  assumes c: "in_cycle base d k' l' orig i F B x m" and i: "i < d" and copr: "coprime k' l'" and "l' < k'" "Suc B < k'"
    and le: "base + (k' + l') * d \<le> length orig"
  shows "\<exists>F' x' m'. rotate_down (base + (k' + l') * d) (k' * d) (l' * d) (base + x, m) = (base + x', m') \<and>
      in_cycle base d k' l' orig i F' (Suc B) x' m'"
proof -
  let ?n = "(k' + l') * d"
  have few: "F1 \<le> l'" if "in_cycle base d k' l' orig i F1 B x1 m1" for F1 x1 and m1 :: "'a list"
  proof (rule ccontr)
    assume "\<not> F1 \<le> l'"
    then have "Suc l' * (k' * d) \<le> F1 * (k' * d)" by (intro mult_le_mono1) simp
    also have "F1 * (k' * d) \<le> x1 + B * (l' * d)" using that by (simp add: in_cycle_def)
    also have "\<dots> < ?n + B * (l' * d)" using that by (simp add: in_cycle_def)
    also have "\<dots> = k' * d + Suc B * (l' * d)" by (simp add: algebra_simps)
    also have "\<dots> \<le> k' * d + k' * (l' * d)" using assms(5) by (intro add_left_mono mult_le_mono1) simp
    finally show False by (simp add: algebra_simps)
  qed
  have "\<exists>F1 x1 m1. (if base + x < base + ?n - k' * d then (base + x + k' * d, m[base + x := m ! (base + x + k' * d)]) else (base + x, m)) =
      (base + x1, m1) \<and> in_cycle base d k' l' orig i F1 B x1 m1 \<and> l' * d \<le> x1"
  proof (cases "x < l' * d")
    case True
    have "in_cycle base d k' l' orig i (Suc F) B (x + k' * d) (m[base + x := m ! (base + (x + k' * d))])"
      using few [OF c] True assms c
      by (intro cycle_move [OF c i copr le]) (simp_all add: in_cycle_def algebra_simps)
    moreover have "l' * d \<le> x + k' * d" using assms(4) by (simp add: trans_le_add2)
    moreover have "base + x < base + ?n - k' * d" using True by (simp add: algebra_simps)
    ultimately show ?thesis by (intro exI [of _ "Suc F"] exI [of _ "x + k' * d"]) (auto simp: add.assoc)
  next
    case False
    then have "\<not> base + x < base + ?n - k' * d" by (simp add: algebra_simps)
    then show ?thesis using c False by auto
  qed
  then obtain F1 x1 m1 where first: "(if base + x < base + ?n - k' * d then (base + x + k' * d, m[base + x := m ! (base + x + k' * d)]) else (base + x, m)) =
      (base + x1, m1)" and c1: "in_cycle base d k' l' orig i F1 B x1 m1" and x1: "l' * d \<le> x1"
    by blast
  have xn: "x1 < ?n" using c1 by (simp add: in_cycle_def)
  have y: "x1 - l' * d = (x1 + k' * d) mod ?n"
  proof -
    have "x1 + k' * d = (x1 - l' * d) + ?n" using x1 by (simp add: algebra_simps)
    then show ?thesis using xn by (metis diff_le_self le_less_trans mod_add_self2 mod_less)
  qed
  have "in_cycle base d k' l' orig i F1 (Suc B) (x1 - l' * d) (m1[base + x1 := m1 ! (base + (x1 - l' * d))])"
    using few [OF c1] x1 assms c1 by (intro cycle_move [OF c1 i copr le _ y]) (simp_all add: in_cycle_def)
  then show ?thesis
    using first x1 by (intro exI [of _ F1] exI [of _ "x1 - l' * d"]) (auto simp: rotate_down_def Let_def)
qed

section \<open>All cycles\<close>

lemma cycle_end:
  assumes c: "in_cycle base d k' l' orig i l' (k' - 1) (i + l' * d) m" and i: "i < d" and copr: "coprime k' l'" and "0 < k'"
    and le: "base + (k' + l') * d \<le> length orig"
  shows "m[base + (i + l' * d) := orig ! (base + i)] = moved base ((k' + l') * d) (k' * d) orig (\<lambda>z. z mod d < Suc i)"
proof -
  let ?n = "(k' + l') * d" let ?c = "\<lambda>s. (i + s * (k' * d)) mod ?n"
  have x: "i + l' * d < ?n" "i + l' * d = ?c (l' + (k' - 1))"
    using c in_cycle_pos(1) [OF c i] by (auto simp: in_cycle_def)
  have "(i + l' * d + k' * d) mod ?n = i"
  proof -
    have "i + l' * d + k' * d = i + ?n" by (simp add: algebra_simps)
    moreover have "i < ?n" using x(1) by linarith
    ultimately show ?thesis by (simp only: mod_add_self2 mod_less)
  qed
  then have upd: "m[base + (i + l' * d) := orig ! (base + i)] =
      moved base ?n (k' * d) orig (\<lambda>z. (z mod d < i \<or> visited ?n (k' * d) i (l' + (k' - 1)) z) \<or> z = i + l' * d)"
    using moved_update [OF x(1) le, of i "k' * d"] c by (simp add: in_cycle_def)
  have inj: "inj_on ?c {..<k' + l'}"
  proof (rule inj_onI)
    fix s t assume st: "s \<in> {..<k' + l'}" "t \<in> {..<k' + l'}" "?c s = ?c t"
    have "\<not> s < t" using revisit_late [of d k' l' s t i] i copr st by fastforce
    moreover have "\<not> t < s" using revisit_late [of d k' l' t s i] i copr st by fastforce
    ultimately show "s = t" by simp
  qed
  have "?c ` {..<k' + l'} = (\<lambda>e. i + e * d) ` {..<k' + l'}"
  proof (rule card_subset_eq)
    show "?c ` {..<k' + l'} \<subseteq> (\<lambda>e. i + e * d) ` {..<k' + l'}"
    proof
      fix z assume "z \<in> ?c ` {..<k' + l'}"
      then obtain s where z: "z = ?c s" by blast
      have "z < ?n" unfolding z using i assms(4) by (intro mod_less_divisor) simp
      have "z mod d = (i + s * (k' * d)) mod d" unfolding z by (rule mod_mod_cancel) simp
      then have "z mod d = i" using i by (simp add: mult.assoc [symmetric])
      then have "z = i + z div d * d" by (metis mod_div_mult_eq)
      moreover have "z div d < k' + l'" using \<open>z < ?n\<close> by (simp add: less_mult_imp_div_less)
      ultimately show "z \<in> (\<lambda>e. i + e * d) ` {..<k' + l'}" by blast
    qed
    show "card (?c ` {..<k' + l'}) = card ((\<lambda>e. i + e * d) ` {..<k' + l'})"
    proof -
      have "card (?c ` {..<k' + l'}) = k' + l'" using card_image [OF inj] by simp
      moreover have "card ((\<lambda>e. i + e * d) ` {..<k' + l'}) = k' + l'" using i by (simp add: card_image inj_on_def)
      ultimately show ?thesis by simp
    qed
  qed simp
  then have all: "visited ?n (k' * d) i (k' + l') z \<longleftrightarrow> z mod d = i" if "z < ?n" for z
  proof -
    have "visited ?n (k' * d) i (k' + l') z \<longleftrightarrow> z \<in> (\<lambda>e. i + e * d) ` {..<k' + l'}"
      unfolding visited_def \<open>?c ` {..<k' + l'} = _\<close> [symmetric] by blast
    moreover have "z = i + z div d * d" "z div d < k' + l'" if "z mod d = i"
      using that \<open>z < ?n\<close> by (metis mod_div_mult_eq, simp add: less_mult_imp_div_less)
    ultimately show ?thesis using i by auto
  qed
  have "l' + (k' - 1) + 1 = k' + l'" using assms(4) by simp
  show ?thesis unfolding upd
  proof (rule moved_cong)
    fix z assume z: "z < ?n"
    have "visited ?n (k' * d) i (k' + l') z \<longleftrightarrow> visited ?n (k' * d) i (l' + (k' - 1)) z \<or> z = i + l' * d"
      using visited_Suc [of ?n "k' * d" i "l' + (k' - 1)" z] x(2) \<open>l' + (k' - 1) + 1 = _\<close> by (simp add: add.commute [of k' l'])
    then show "((z mod d < i \<or> visited ?n (k' * d) i (l' + (k' - 1)) z) \<or> z = i + l' * d) = (z mod d < Suc i)"
      using all [OF z] by auto
  qed
qed

lemma in_cycle_start:
  assumes "i < d" "0 < k'" "base + (k' + l') * d \<le> length orig"
  shows "in_cycle base d k' l' orig i 0 0 i (moved base ((k' + l') * d) (k' * d) orig (\<lambda>z. z mod d < i))"
proof -
  have "d \<le> (k' + l') * d" using assms(2) by simp
  with assms(1) have "i < (k' + l') * d" by (rule less_le_trans)
  then show ?thesis by (simp add: in_cycle_def visited_def)
qed

lemma up_end:
  assumes c: "in_cycle base d k' l' orig i l' B x m" and i: "i < d" and "k' < l'" "B < k'"
  shows "B = k' - 1 \<and> x = i + l' * d"
proof -
  have "x + B * (l' * d) = i + k' * (l' * d)" "x < (k' + l') * d" using c by (simp_all add: in_cycle_def algebra_simps)
  moreover have "k' * (l' * d) = B * (l' * d) + (k' - B) * (l' * d)"
    using assms(4) by (simp add: diff_mult_distrib)
  ultimately have x: "x = i + (k' - B) * (l' * d)" by linarith
  have "k' - B < 2"
  proof (rule ccontr)
    assume "\<not> k' - B < 2"
    then have "2 * (l' * d) \<le> (k' - B) * (l' * d)" by (intro mult_le_mono1) simp
    moreover have "(k' + l') * d \<le> 2 * (l' * d)" using assms(3) by (simp add: algebra_simps)
    ultimately show False using x \<open>x < _\<close> by linarith
  qed
  then show ?thesis using x assms(4) by (cases "k' - B = 1") auto
qed

lemma down_end:
  assumes c: "in_cycle base d k' l' orig i F (k' - 1) x m" and i: "i < d" and "l' < k'"
  shows "F = l' \<and> x = i + l' * d"
proof -
  have "k' * (l' * d) = (k' - 1) * (l' * d) + l' * d" using assms(3) by (cases k') auto
  moreover have "x + (k' - 1) * (l' * d) = i + F * (k' * d)" using c unfolding in_cycle_def by blast
  ultimately have "x + k' * (l' * d) = i + F * (k' * d) + l' * d" by linarith
  then have eq: "x + l' * (k' * d) = i + F * (k' * d) + l' * d" by (simp add: algebra_simps)
  have xn: "x < k' * d + l' * d" using c by (simp add: in_cycle_def add_mult_distrib)
  have "\<not> F > l'"
  proof
    assume "F > l'"
    then have "Suc l' * (k' * d) \<le> F * (k' * d)" by (intro mult_le_mono1) simp
    then show False using eq xn by simp
  qed
  moreover have "\<not> F < l'"
  proof
    assume "F < l'"
    then have "Suc F * (k' * d) \<le> l' * (k' * d)" by (intro mult_le_mono1) simp
    moreover have "l' * d < k' * d" using assms(3) i by simp
    ultimately show False using eq in_cycle_pos(3) [OF c i] by simp
  qed
  ultimately have "F = l'" by simp
  then show ?thesis using eq by simp
qed

lemma rotate_cycle_moves:
  assumes i: "i < d" and copr: "coprime k' l'" and k: "0 < k'" "k' \<noteq> l'" and le: "base + (k' + l') * d \<le> length orig"
  shows "rotate_cycle (base + (k' + l') * d) (k' * d) (l' * d) d
      (base + i, moved base ((k' + l') * d) (k' * d) orig (\<lambda>z. z mod d < i)) =
      (base + Suc i, moved base ((k' + l') * d) (k' * d) orig (\<lambda>z. z mod d < Suc i))"
proof -
  let ?n = "(k' + l') * d" let ?m = "moved base ?n (k' * d) orig (\<lambda>z. z mod d < i)"
  have "d \<le> ?n" using k by simp
  with i have "i < ?n" by (rule less_le_trans)
  then have tmp: "?m ! (base + i) = orig ! (base + i)" using i le by simp
  have start: "in_cycle base d k' l' orig i 0 0 i ?m" using in_cycle_start [OF i k(1) le] .
  have "\<exists>m. (if k' * d < l' * d then fold (\<lambda>j. rotate_up (base + i) (k' * d) (l' * d)) [0..<l' * d div d] (base + i, ?m)
      else fold (\<lambda>j. rotate_down (base + ?n) (k' * d) (l' * d)) [0..<k' * d div d - 1] (base + i, ?m)) = (base + (i + l' * d), m) \<and>
      in_cycle base d k' l' orig i l' (k' - 1) (i + l' * d) m"
  proof (cases "k' < l'")
    case True
    have "\<exists>B x m. fold (\<lambda>j. rotate_up (base + i) (k' * d) (l' * d)) [0..<t] (base + i, ?m) = (base + x, m) \<and>
        in_cycle base d k' l' orig i t B x m \<and> B < k'" if "t \<le> l'" for t
      using that
    proof (induction t)
      case 0
      then show ?case using start k by auto
    next
      case (Suc t)
      then obtain B x m where "fold (\<lambda>j. rotate_up (base + i) (k' * d) (l' * d)) [0..<t] (base + i, ?m) = (base + x, m)"
        "in_cycle base d k' l' orig i t B x m" by auto
      with rotate_up_step [OF this(2) i copr k(1) True _ le] Suc.prems show ?case by auto
    qed
    from this [of l'] obtain B x m where f: "fold (\<lambda>j. rotate_up (base + i) (k' * d) (l' * d)) [0..<l'] (base + i, ?m) = (base + x, m)"
      and c: "in_cycle base d k' l' orig i l' B x m" "B < k'" by auto
    with up_end [OF c(1) i True c(2)] True i show ?thesis by auto
  next
    case False
    then have gt: "l' < k'" using k by simp
    have "\<exists>F x m. fold (\<lambda>j. rotate_down (base + ?n) (k' * d) (l' * d)) [0..<t] (base + i, ?m) = (base + x, m) \<and>
        in_cycle base d k' l' orig i F t x m" if "t < k'" for t
      using that
    proof (induction t)
      case 0
      then show ?case using start by auto
    next
      case (Suc t)
      then obtain F x m where "fold (\<lambda>j. rotate_down (base + ?n) (k' * d) (l' * d)) [0..<t] (base + i, ?m) = (base + x, m)"
        "in_cycle base d k' l' orig i F t x m" by auto
      with rotate_down_step [OF this(2) i copr gt _ le] Suc.prems show ?case by auto
    qed
    from this [of "k' - 1"] obtain F x m where f: "fold (\<lambda>j. rotate_down (base + ?n) (k' * d) (l' * d)) [0..<k' - 1] (base + i, ?m) = (base + x, m)"
      and c: "in_cycle base d k' l' orig i F (k' - 1) x m" using k by auto
    with down_end [OF c i gt] gt i show ?thesis by auto
  qed
  then show ?thesis
    using cycle_end [OF _ i copr k(1) le] tmp by (auto simp: rotate_cycle_def Let_def)
qed

lemma moved_all_blocks:
  assumes "0 < length xs"
  shows "moved (length pre) (length xs + length ys) (length xs) (pre @ xs @ ys @ post) (\<lambda>z. True) = pre @ ys @ xs @ post"
proof (rule nth_equalityI)
  fix q assume "q < length (moved (length pre) (length xs + length ys) (length xs) (pre @ xs @ ys @ post) (\<lambda>z. True))"
  then have q: "q < length pre + (length xs + (length ys + length post))" by simp
  let ?n = "length xs + length ys"
  show "moved (length pre) ?n (length xs) (pre @ xs @ ys @ post) (\<lambda>z. True) ! q = (pre @ ys @ xs @ post) ! q"
  proof (cases "q < length pre")
    case True
    then show ?thesis by (simp add: nth_append)
  next
    case False
    then obtain x where x: "q = length pre + x" by (metis le_Suc_ex not_less)
    consider "x < length ys" | "length ys \<le> x" "x < ?n" | "?n \<le> x" by linarith
    then show ?thesis
    proof cases
      case 1
      then show ?thesis using q by (simp add: x nth_append)
    next
      case 2
      have "(x + length xs) mod ?n = x - length ys" using 2 by (simp add: mod_if)
      then show ?thesis using 2 q by (auto simp: x nth_append)
    next
      case 3
      moreover have "x - length xs - length ys = x - length ys - length xs" by simp
      ultimately show ?thesis using q by (auto simp: x nth_append)
    qed
  qed
qed simp

lemma rotate_random_blocks:
  "rotate_random (length pre) (length pre + length xs) (length pre + length xs + length ys) (pre @ xs @ ys @ post) =
     (length pre + length ys, pre @ ys @ xs @ post)"
proof -
  let ?mem = "pre @ xs @ ys @ post" let ?n = "length xs + length ys"
  consider "xs = []" | "xs \<noteq> []" "length xs = length ys" | "xs \<noteq> []" "length xs \<noteq> length ys" by blast
  then show ?thesis
  proof cases
    case 2
    then show ?thesis
      using swap_ranges_blocks [of xs ys pre "[]" post] by (simp add: rotate_random_def Let_def)
  next
    case 3
    define d where "d = gcd ?n (length xs)"
    have d: "0 < d" using 3 by (simp add: d_def)
    then obtain N k' where N: "?n = N * d" "length xs = k' * d" "coprime N k'"
      using gcd_coprime_exists [of ?n "length xs"] unfolding d_def by blast
    define l' where "l' = N - k'"
    have "k' \<le> N" using N(1,2) d by (metis le_add1 mult_le_cancel2)
    then have l': "N = k' + l'" "length ys = l' * d" using N(1,2) by (simp_all add: l'_def diff_mult_distrib)
    have copr: "coprime k' l'" using N(3) by (simp add: l' coprime_commute coprime_iff_gcd_eq_1)
    have "0 < length xs" using 3 by simp
    then have k: "0 < k'" "k' \<noteq> l'" using 3 N(2) l'(2) by (auto intro: gr_zeroI)
    have n: "(k' + l') * d = ?n" using N(1) l' by simp
    have le: "length pre + (k' + l') * d \<le> length ?mem" unfolding n by simp
    have "fold (\<lambda>i. rotate_cycle (length pre + ?n) (length xs) (length ys) d) [0..<t] (length pre, ?mem) =
        (length pre + t, moved (length pre) ?n (length xs) ?mem (\<lambda>z. z mod d < t))" if "t \<le> d" for t
      using that
    proof (induction t)
      case 0
      have "moved (length pre) ?n (length xs) ?mem (\<lambda>z. z mod d < 0) = ?mem" by (rule nth_equalityI) simp_all
      then show ?case by simp
    next
      case (Suc t)
      then show ?case
        using rotate_cycle_moves [OF _ copr k le, of t] unfolding n N(2) [symmetric] l'(2) [symmetric] by simp
    qed
    from this [of d] have "fold (\<lambda>i. rotate_cycle (length pre + ?n) (length xs) (length ys) d) [0..<d] (length pre, ?mem) =
        (length pre + d, moved (length pre) ?n (length xs) ?mem (\<lambda>z. True))"
      using d by simp
    then show ?thesis
      using 3 moved_all_blocks [of xs pre ys post]
      by (simp add: rotate_random_def Let_def priv_gcd_gcd d_def [symmetric] add.assoc)
  qed (simp add: rotate_random_def)
qed

lemma priv_rotate_blocks:
  "priv_rotate c (length pre) (length pre + length xs) (length pre + length xs + length ys) (pre @ xs @ ys @ post) =
     Some (length pre + length ys, pre @ ys @ xs @ post)"
  by (cases c) (simp_all add: priv_rotate_def rotate_forward_blocks rotate_bidi_blocks rotate_random_blocks)

text \<open>
  C31. The three versions of \<^verbatim>\<open>rotate\<close> in the library, by swaps (forward iterators, a loop that is shown to
  end), by reversals (bidirectional) and by the cycles of the permutation (random access), all
  exchange two adjacent blocks of a range, for blocks of any length, leave the cells outside the range alone, and return the new boundary.
\<close>

theorem rotate_exchanges_blocks:
  assumes "first \<le> middle" "middle \<le> fin" "fin \<le> length mem"
  shows "priv_rotate c first middle fin mem =
     Some (first + (fin - middle), take first mem @ segment mem middle fin @ segment mem first middle @ drop fin mem)"
proof -
  let ?pre = "take first mem" and ?xs = "segment mem first middle" and ?ys = "segment mem middle fin" and ?post = "drop fin mem"
  have "mem = ?pre @ ?xs @ ?ys @ ?post"
    using segment_split [of first fin mem] segment_append [of first middle fin mem] assms by simp
  moreover have "length ?pre = first" "length ?xs = middle - first" "length ?ys = fin - middle" using assms by simp_all
  ultimately show ?thesis using priv_rotate_blocks [of c ?pre ?xs ?ys ?post] assms by simp
qed

theorem rotate_exchanges_blocks_witness:
  "priv_rotate RotRandom 1 5 7 [0, 1, 2, 3, 4, 5, 6, 7 :: nat] = Some (3, [0, 5, 6, 1, 2, 3, 4, 7])"
  using rotate_exchanges_blocks [of 1 5 7 "[0, 1, 2, 3, 4, 5, 6, 7 :: nat]" RotRandom]
  by (simp add: segment_def)

end
