(* ===== verification/Stl_Merge.thy ===== *)
theory Stl_Merge
  imports Stl_Sort Stl_Rotate
begin

text \<open>
  Merging (\<^verbatim>\<open>stl/_algo.c\<close>, \<^verbatim>\<open>stl/_tempbuf.h\<close>): two sorted runs into a third place, forwards or backwards over one of
  the runs, and in place, with or without a temporary buffer. A temporary buffer is a part of
  the same memory, given by its position; that a merge may write over one of its sources
  is so a matter of positions.
\<close>

section \<open>The code\<close>

function merge_loop :: "('a \<Rightarrow> 'a \<Rightarrow> bool) \<Rightarrow> nat \<Rightarrow> nat \<Rightarrow> nat \<Rightarrow> nat \<Rightarrow> nat \<Rightarrow> 'a list \<Rightarrow> nat \<times> nat \<times> nat \<times> 'a list" where
  "merge_loop lt first1 last1 first2 last2 result mem =
     (if first1 < last1 \<and> first2 < last2 then
        if lt (mem ! first2) (mem ! first1)
        then merge_loop lt first1 last1 (Suc first2) last2 (Suc result) (mem[result := mem ! first2])
        else merge_loop lt (Suc first1) last1 first2 last2 (Suc result) (mem[result := mem ! first1])
      else (first1, first2, result, mem))"
  by pat_completeness auto
termination
  by (relation "measure (\<lambda>(lt, first1, last1, first2, last2, result, mem). (last1 - first1) + (last2 - first2))") auto

declare merge_loop.simps [simp del]

definition std_merge :: "copy_kind \<Rightarrow> ('a \<Rightarrow> 'a \<Rightarrow> bool) \<Rightarrow> nat \<Rightarrow> nat \<Rightarrow> nat \<Rightarrow> nat \<Rightarrow> nat \<Rightarrow> 'a list \<Rightarrow> nat \<times> 'a list" where
  "std_merge kind lt first1 last1 first2 last2 result mem =
     (let (first1, first2, result, mem) = merge_loop lt first1 last1 first2 last2 result mem;
          (result, mem) = std_copy kind first1 last1 result mem
      in std_copy kind first2 last2 result mem)"

text \<open>The loop of \<^verbatim>\<open>__merge_backward\<close>: both runs are not empty, \<open>last1\<close> and \<open>last2\<close> are at their last elements.\<close>

function merge_backward_loop ::
    "copy_kind \<Rightarrow> ('a \<Rightarrow> 'a \<Rightarrow> bool) \<Rightarrow> nat \<Rightarrow> nat \<Rightarrow> nat \<Rightarrow> nat \<Rightarrow> nat \<Rightarrow> 'a list \<Rightarrow> nat \<times> 'a list" where
  "merge_backward_loop kind lt first1 last1 first2 last2 result mem =
     (if lt (mem ! last2) (mem ! last1) then
        let result = result - 1; mem = mem[result := mem ! last1] in
        if first1 < last1 then merge_backward_loop kind lt first1 (last1 - 1) first2 last2 result mem
        else std_copy_backward kind first2 (Suc last2) result mem
      else
        let result = result - 1; mem = mem[result := mem ! last2] in
        if first2 < last2 then merge_backward_loop kind lt first1 last1 first2 (last2 - 1) result mem
        else std_copy_backward kind first1 (Suc last1) result mem)"
  by pat_completeness auto
termination
  by (relation "measure (\<lambda>(kind, lt, first1, last1, first2, last2, result, mem). (last1 - first1) + (last2 - first2))") auto

declare merge_backward_loop.simps [simp del]

definition merge_backward ::
    "copy_kind \<Rightarrow> ('a \<Rightarrow> 'a \<Rightarrow> bool) \<Rightarrow> nat \<Rightarrow> nat \<Rightarrow> nat \<Rightarrow> nat \<Rightarrow> nat \<Rightarrow> 'a list \<Rightarrow> nat \<times> 'a list" where
  "merge_backward kind lt first1 last1 first2 last2 result mem =
     (if first1 = last1 then std_copy_backward kind first2 last2 result mem
      else if first2 = last2 then std_copy_backward kind first1 last1 result mem
      else merge_backward_loop kind lt first1 (last1 - 1) first2 (last2 - 1) result mem)"

text \<open>Where the two merges in place cut the runs: the longer one in the middle, the other one to fit.\<close>

definition merge_cuts :: "('a \<Rightarrow> 'a \<Rightarrow> bool) \<Rightarrow> nat \<Rightarrow> nat \<Rightarrow> nat \<Rightarrow> nat \<Rightarrow> nat \<Rightarrow> 'a list \<Rightarrow> nat \<times> nat" where
  "merge_cuts lt first middle fin len1 len2 mem =
     (if len1 > len2 then
        let first_cut = first + len1 div 2
        in (first_cut, std_lower_bound lt ((!) mem) middle fin (mem ! first_cut))
      else
        let second_cut = middle + len2 div 2
        in (std_upper_bound lt ((!) mem) first middle (mem ! second_cut), second_cut))"

partial_function (option) merge_without_buffer ::
    "rotate_category \<Rightarrow> ('a \<Rightarrow> 'a \<Rightarrow> bool) \<Rightarrow> nat \<Rightarrow> nat \<Rightarrow> nat \<Rightarrow> nat \<Rightarrow> nat \<Rightarrow> 'a list \<Rightarrow> 'a list option" where
  "merge_without_buffer c lt first middle fin len1 len2 mem =
     (if len1 = 0 \<or> len2 = 0 then Some mem
      else if len1 + len2 = 2 then
        Some (if lt (mem ! middle) (mem ! first) then iter_swap first middle mem else mem)
      else
        let cuts = merge_cuts lt first middle fin len1 len2 mem;
            first_cut = fst cuts; second_cut = snd cuts;
            len11 = first_cut - first; len22 = second_cut - middle
        in Option.bind (priv_rotate c first_cut middle second_cut mem) (\<lambda>r.
           Option.bind (merge_without_buffer c lt first first_cut (fst r) len11 len22 (snd r)) (\<lambda>mem.
           merge_without_buffer c lt (fst r) second_cut fin (len1 - len11) (len2 - len22) mem)))"

definition rotate_adaptive ::
    "rotate_category \<Rightarrow> copy_kind \<Rightarrow> nat \<Rightarrow> nat \<Rightarrow> nat \<Rightarrow> nat \<Rightarrow> nat \<Rightarrow> nat \<Rightarrow> nat \<Rightarrow> 'a list \<Rightarrow> (nat \<times> 'a list) option" where
  "rotate_adaptive c kind first middle fin len1 len2 buffer buffer_size mem =
     (if len1 > len2 \<and> len2 \<le> buffer_size then
        let (buffer_end, mem) = std_copy kind middle fin buffer mem;
            (_, mem) = std_copy_backward kind first middle fin mem
        in Some (std_copy kind buffer buffer_end first mem)
      else if len1 \<le> buffer_size then
        let (buffer_end, mem) = std_copy kind first middle buffer mem;
            (_, mem) = std_copy kind middle fin first mem
        in Some (std_copy_backward kind buffer buffer_end fin mem)
      else priv_rotate c first middle fin mem)"

partial_function (option) merge_adaptive ::
    "rotate_category \<Rightarrow> copy_kind \<Rightarrow> ('a \<Rightarrow> 'a \<Rightarrow> bool) \<Rightarrow> nat \<Rightarrow> nat \<Rightarrow> nat \<Rightarrow> nat \<Rightarrow> nat \<Rightarrow> nat \<Rightarrow> nat \<Rightarrow> 'a list \<Rightarrow> 'a list option" where
  "merge_adaptive c kind lt first middle fin len1 len2 buffer buffer_size mem =
     (if len1 \<le> len2 \<and> len1 \<le> buffer_size then
        let r = std_copy kind first middle buffer mem
        in Some (snd (std_merge kind lt buffer (fst r) middle fin first (snd r)))
      else if len2 \<le> buffer_size then
        let r = std_copy kind middle fin buffer mem
        in Some (snd (merge_backward kind lt first middle buffer (fst r) fin (snd r)))
      else
        let cuts = merge_cuts lt first middle fin len1 len2 mem;
            first_cut = fst cuts; second_cut = snd cuts;
            len11 = first_cut - first; len22 = second_cut - middle
        in Option.bind (rotate_adaptive c kind first_cut middle second_cut (len1 - len11) len22 buffer buffer_size mem) (\<lambda>r.
           Option.bind (merge_adaptive c kind lt first first_cut (fst r) len11 len22 buffer buffer_size (snd r)) (\<lambda>mem.
           merge_adaptive c kind lt (fst r) second_cut fin (len1 - len11) (len2 - len22) buffer buffer_size mem)))"

text \<open>
  The temporary buffer: half as much is asked for until \<^verbatim>\<open>malloc\<close> gives it. Whether it does is a
  parameter, as is what the new cells hold; the buffer lies behind the memory of the caller, and is gone in the end.
\<close>

function allocate_loop :: "(nat \<Rightarrow> bool) \<Rightarrow> nat \<Rightarrow> nat" where
  "allocate_loop malloc len = (if len > 0 \<and> \<not> malloc len then allocate_loop malloc (len div 2) else len)"
  by pat_completeness auto
termination
  by (relation "measure snd") auto

declare allocate_loop.simps [simp del]

definition allocate_buffer :: "nat \<Rightarrow> (nat \<Rightarrow> bool) \<Rightarrow> nat \<Rightarrow> nat" where
  "allocate_buffer most malloc len = allocate_loop malloc (if len > most then most else len)"

record 'a heap_env =
  most :: nat
  malloc :: "nat \<Rightarrow> bool"
  fresh :: "nat \<Rightarrow> 'a"

definition with_buffer :: "'a heap_env \<Rightarrow> nat \<Rightarrow> (nat \<Rightarrow> nat \<Rightarrow> 'a list \<Rightarrow> 'a list option) \<Rightarrow> 'a list \<Rightarrow> 'a list option" where
  "with_buffer env len body mem =
     map_option (take (length mem)) (body (length mem) len (mem @ map (fresh env) [0..<len]))"

definition inplace_merge_aux :: "rotate_category \<Rightarrow> copy_kind \<Rightarrow> 'a heap_env \<Rightarrow> ('a \<Rightarrow> 'a \<Rightarrow> bool) \<Rightarrow> nat \<Rightarrow> nat \<Rightarrow> nat \<Rightarrow> 'a list \<Rightarrow> 'a list option" where
  "inplace_merge_aux c kind env lt first middle fin mem =
     (let len1 = middle - first; len2 = fin - middle;
          len = allocate_buffer (most env) (malloc env) (fin - first)
      in if len = 0 then merge_without_buffer c lt first middle fin len1 len2 mem
         else with_buffer env len (merge_adaptive c kind lt first middle fin len1 len2) mem)"

definition inplace_merge :: "rotate_category \<Rightarrow> copy_kind \<Rightarrow> 'a heap_env \<Rightarrow> ('a \<Rightarrow> 'a \<Rightarrow> bool) \<Rightarrow> nat \<Rightarrow> nat \<Rightarrow> nat \<Rightarrow> 'a list \<Rightarrow> 'a list option" where
  "inplace_merge c kind env lt first middle fin mem =
     (if first = middle \<or> middle = fin then Some mem
      else inplace_merge_aux c kind env lt first middle fin mem)"

section \<open>Writing a list into the memory\<close>

definition store :: "nat \<Rightarrow> 'a list \<Rightarrow> 'a list \<Rightarrow> 'a list" where
  "store r zs mem = take r mem @ zs @ drop (r + length zs) mem"

lemma store_length [simp]: "r + length zs \<le> length mem \<Longrightarrow> length (store r zs mem) = length mem"
  by (simp add: store_def)

lemma store_nth:
  "r + length zs \<le> length mem \<Longrightarrow> store r zs mem ! i = (if r \<le> i \<and> i < r + length zs then zs ! (i - r) else mem ! i)"
  by (auto simp: store_def nth_append)

lemma store_Nil [simp]: "store r [] mem = mem"
  by (simp add: store_def)

lemma store_update:
  "r < length mem \<Longrightarrow> store (Suc r) zs (mem[r := z]) = store r (z # zs) mem"
  "r + length zs < length mem \<Longrightarrow> store r zs (mem[r + length zs := z]) = store r (zs @ [z]) mem"
   by (auto simp: store_def take_Suc_conv_app_nth drop_update_cancel take_update_cancel nth_append
       drop_update_swap Cons_nth_drop_Suc [symmetric])

lemma store_before:
  assumes "length zs < r" "r \<le> length mem"
  shows "store (r - 1 - length zs) zs (mem[r - Suc 0 := z]) = store (r - Suc (length zs)) (zs @ [z]) mem"
  using store_update(2) [of "r - 1 - length zs" zs mem z] assms by simp

lemma store_append: "r + length xs + length ys \<le> length mem \<Longrightarrow> store (r + length xs) ys (store r xs mem) = store r (xs @ ys) mem"
  by (simp add: store_def ac_simps)

lemma store_again: "r + length xs \<le> length mem \<Longrightarrow> length ys = length xs \<Longrightarrow> store r ys (store r xs mem) = store r ys mem"
  by (simp add: store_def)

lemma store_segment: "f \<le> l \<Longrightarrow> l \<le> length mem \<Longrightarrow> store f (segment mem f l) mem = mem"
  using segment_split [of f l mem] by (simp add: store_def)

lemma segment_store: "r + length zs \<le> length mem \<Longrightarrow> segment (store r zs mem) r (r + length zs) = zs"
  by (simp add: store_def segment_def)

lemma in_segment:
  assumes "l \<le> length mem"
  shows "x \<in> set (segment mem f l) \<longleftrightarrow> (\<exists>i. f \<le> i \<and> i < l \<and> x = mem ! i)"
proof
  assume "x \<in> set (segment mem f l)"
  then obtain k where "k < l - f" "x = mem ! (f + k)" using assms by (auto simp: in_set_conv_nth)
  then show "\<exists>i. f \<le> i \<and> i < l \<and> x = mem ! i" by (intro exI [of _ "f + k"]) simp
next
  assume "\<exists>i. f \<le> i \<and> i < l \<and> x = mem ! i"
  then obtain i where "f \<le> i" "i < l" "x = mem ! i" by blast
  then show "x \<in> set (segment mem f l)" using assms by (auto simp: in_set_conv_nth intro!: exI [of _ "i - f"])
qed

lemma store_cover:
  "f \<le> r \<Longrightarrow> r + length xs \<le> f + length zs \<Longrightarrow> f + length zs \<le> length mem \<Longrightarrow> store f zs (store r xs mem) = store f zs mem"
  by (rule nth_equalityI) (auto simp: store_nth)

lemma segment_cong:
  "length m' = length m \<Longrightarrow> (\<And>q. f \<le> q \<Longrightarrow> q < l \<Longrightarrow> m' ! q = m ! q) \<Longrightarrow> segment m' f l = segment m f l"
  by (auto simp: segment_def intro!: nth_equalityI)

lemma segment_store_apart:
  "r + length zs \<le> length mem \<Longrightarrow> l \<le> r \<or> r + length zs \<le> f \<Longrightarrow> segment (store r zs mem) f l = segment mem f l"
  by (intro segment_cong) (auto simp: store_nth)

lemma segment_halves:
  assumes "segment m f l = xs @ ys" "f \<le> l" "l \<le> length m"
  shows "segment m f (f + length xs) = xs" "segment m (f + length xs) l = ys"
proof -
  have "length xs + length ys = l - f" using assms segment_length [of l m f] by (metis length_append)
  then have "segment m f l = segment m f (f + length xs) @ segment m (f + length xs) l" "length (segment m f (f + length xs)) = length xs"
    using assms segment_append [of f "f + length xs" l m] by simp_all
  then show "segment m f (f + length xs) = xs" "segment m (f + length xs) l = ys" using assms(1) by simp_all
qed

lemma rotated_segments:
  assumes "m1 = store c1 (segment mem m c2 @ segment mem c1 m) mem" "c1 \<le> m" "m \<le> c2" "c2 \<le> length mem"
  shows "segment m1 f c1 = segment mem f c1" "segment m1 c1 (c1 + (c2 - m)) = segment mem m c2"
    "segment m1 (c1 + (c2 - m)) c2 = segment mem c1 m" "segment m1 c2 l = segment mem c2 l"
proof -
  have "segment m1 c1 c2 = segment mem m c2 @ segment mem c1 m"
    using segment_store [of c1 "segment mem m c2 @ segment mem c1 m" mem] assms by simp
  from segment_halves [OF this] assms show "segment m1 c1 (c1 + (c2 - m)) = segment mem m c2"
    "segment m1 (c1 + (c2 - m)) c2 = segment mem c1 m" by simp_all
  show "segment m1 f c1 = segment mem f c1" "segment m1 c2 l = segment mem c2 l"
    using assms by (auto intro!: segment_store_apart)
qed

lemma segment_update_apart: "q < f \<or> l \<le> q \<Longrightarrow> segment (mem[q := v]) f l = segment mem f l"
  by (intro segment_cong) auto

lemma memmove_store:
  "first + n \<le> length mem \<Longrightarrow> memmove result first n mem = store result (segment mem first (first + n)) mem"
  by (simp add: memmove_def store_def segment_def)

lemma copy_store:
  assumes "first \<le> fin" "fin \<le> length mem" "result + (fin - first) \<le> length mem" "no_clobber first fin result"
  shows "std_copy kind first fin result mem = (result + (fin - first), store result (segment mem first fin) mem)"
  using std_copy_memmove [OF assms] memmove_store [of first "fin - first" mem result] assms by simp

lemma copy_empty [simp]: "std_copy kind f f r mem = (r, mem)" "std_copy_backward kind f f r mem = (r, mem)"
  by (cases kind; simp add: std_copy_def copy_input_def copy_trivial_def
      std_copy_backward_def copy_backward_bidi_def copy_trivial_backward_def)+

lemma copy_backward_store:
  assumes "first \<le> fin" "fin \<le> length mem" "fin - first \<le> result" "result \<le> length mem" "fin \<le> result \<or> result \<le> first"
  shows "std_copy_backward kind first fin result mem =
    (result - (fin - first), store (result - (fin - first)) (segment mem first fin) mem)"
  using std_copy_backward_memmove [OF assms] memmove_store [of first "fin - first" mem] assms by simp


lemma priv_rotate_store:
  assumes "first \<le> middle" "middle \<le> fin" "fin \<le> length mem"
  shows "priv_rotate c first middle fin mem =
    Some (first + (fin - middle), store first (segment mem middle fin @ segment mem first middle) mem)"
proof -
  let ?pre = "take first mem" and ?xs = "segment mem first middle" and ?ys = "segment mem middle fin" and ?post = "drop fin mem"
  have "mem = ?pre @ ?xs @ ?ys @ ?post"
    using segment_split [of first fin mem] segment_append [of first middle fin mem] assms by simp
  moreover have "length ?pre = first" "length ?xs = middle - first" "length ?ys = fin - middle" using assms by simp_all
  ultimately show ?thesis using priv_rotate_blocks [of c ?pre ?xs ?ys ?post] assms by (simp add: store_def)
qed

section \<open>Stable sorting, on lists\<close>

text \<open>One list is the other one, sorted, with equivalent elements in their order: there is only one such list.\<close>

definition sorted_of :: "('a \<Rightarrow> 'a \<Rightarrow> bool) \<Rightarrow> 'a list \<Rightarrow> 'a list \<Rightarrow> bool" where
  "sorted_of lt xs zs \<longleftrightarrow> ascending lt zs \<and> stable lt xs zs"

lemma stable_apart:
  assumes "\<And>v. filter (\<lambda>x. \<not> lt x v \<and> \<not> lt v x) xs = [] \<or> filter (\<lambda>x. \<not> lt x v \<and> \<not> lt v x) ys = []"
  shows "stable lt (xs @ ys) (ys @ xs)"
  unfolding stable_def
proof
  fix v
  show "filter (\<lambda>x. \<not> lt x v \<and> \<not> lt v x) (ys @ xs) = filter (\<lambda>x. \<not> lt x v \<and> \<not> lt v x) (xs @ ys)"
    using assms [of v] by auto
qed

text \<open>Everything up to the cuts is, up to ties, below a value, and what follows the cuts above it; between the cuts ties go to one side.\<close>

definition parted_by :: "('a \<Rightarrow> 'a \<Rightarrow> bool) \<Rightarrow> 'a list \<Rightarrow> nat \<Rightarrow> nat \<Rightarrow> nat \<Rightarrow> nat \<Rightarrow> nat \<Rightarrow> 'a \<Rightarrow> bool" where
  "parted_by lt mem f c1 m c2 l v \<longleftrightarrow>
     (\<forall>i. f \<le> i \<longrightarrow> i < c1 \<longrightarrow> \<not> lt v (mem ! i)) \<and> (\<forall>j. c2 \<le> j \<longrightarrow> j < l \<longrightarrow> \<not> lt (mem ! j) v) \<and>
     ((\<forall>j. m \<le> j \<longrightarrow> j < c2 \<longrightarrow> lt (mem ! j) v) \<and> (\<forall>i. c1 \<le> i \<longrightarrow> i < m \<longrightarrow> \<not> lt (mem ! i) v) \<or>
      (\<forall>j. m \<le> j \<longrightarrow> j < c2 \<longrightarrow> \<not> lt v (mem ! j)) \<and> (\<forall>i. c1 \<le> i \<longrightarrow> i < m \<longrightarrow> lt v (mem ! i)))"

context strict_weak_order begin

lemma stable_set: "stable lt xs zs \<Longrightarrow> set zs = set xs"
  using stable_mset mset_eq_setD by blast

lemma stable_length: "stable lt xs zs \<Longrightarrow> length zs = length xs"
  using stable_mset mset_eq_length by blast

lemma sorted_of_set: "sorted_of lt xs zs \<Longrightarrow> set zs = set xs"
  by (simp add: sorted_of_def stable_set)

lemma sorted_of_length: "sorted_of lt xs zs \<Longrightarrow> length zs = length xs"
  by (simp add: sorted_of_def stable_length)

lemma below_stable:
  assumes "\<forall>y \<in> set ys. \<forall>x \<in> set xs. lt y x"
  shows "stable lt (xs @ ys) (ys @ xs)"
proof (rule stable_apart)
  fix v
  show "filter (\<lambda>x. \<not> lt x v \<and> \<not> lt v x) xs = [] \<or> filter (\<lambda>x. \<not> lt x v \<and> \<not> lt v x) ys = []"
  proof (rule ccontr)
    assume "\<not> ?thesis"
    then obtain x y where "x \<in> set xs" "y \<in> set ys" and eqv: "\<not> lt x v" "\<not> lt v x" "\<not> lt y v" "\<not> lt v y"
      by (auto simp: filter_empty_conv)
    moreover from this have "lt y x" using assms by blast
    ultimately show False using neg_trans [of x v y] neg_trans [of y v x] by blast
  qed
qed

lemma sorted_of_append:
  assumes "sorted_of lt (xs1 @ ys1) zs1" "sorted_of lt (xs2 @ ys2) zs2"
    and "ascending lt (xs1 @ xs2)" "ascending lt (ys1 @ ys2)"
    and "\<forall>y \<in> set ys1. \<forall>x \<in> set xs2. lt y x" "\<forall>x \<in> set xs1. \<forall>y \<in> set ys2. \<not> lt y x"
  shows "sorted_of lt ((xs1 @ xs2) @ (ys1 @ ys2)) (zs1 @ zs2)"
proof -
  have "stable lt (xs1 @ (xs2 @ ys1) @ ys2) (xs1 @ (ys1 @ xs2) @ ys2)"
    by (intro stable_append stable_refl below_stable assms(5))
  then have "stable lt (xs1 @ (xs2 @ ys1) @ ys2) (zs1 @ zs2)"
    using stable_trans [OF _ stable_append [of lt "xs1 @ ys1" zs1 "xs2 @ ys2" zs2]] assms(1,2) by (simp add: sorted_of_def)
  moreover have "\<not> lt y x" if "x \<in> set ys1" "y \<in> set xs2" for x y
    using assms(5) that asym by blast
  then have "\<not> lt b a" if "a \<in> set zs1" "b \<in> set zs2" for a b
    using that assms(3,4,6) sorted_of_set [OF assms(1)] sorted_of_set [OF assms(2)] by auto
  ultimately show ?thesis using assms(1,2) by (auto simp: sorted_of_def)
qed

lemma sorted_of_Cons2:
  assumes "ascending lt (x # xs)" "ascending lt (y # ys)" "lt y x" "sorted_of lt ((x # xs) @ ys) zs"
  shows "sorted_of lt ((x # xs) @ (y # ys)) (y # zs)"
proof -
  have "\<forall>a \<in> set (x # xs). lt y a" using assms(3) ascending_hd [OF assms(1,3)] by simp
  then show ?thesis
    using sorted_of_append [of "[]" "[y]" "[y]" "x # xs" ys zs] assms by (simp add: sorted_of_def)
qed

lemma sorted_of_Cons1:
  assumes "ascending lt (x # xs)" "ascending lt (y # ys)" "\<not> lt y x" "sorted_of lt (xs @ (y # ys)) zs"
  shows "sorted_of lt ((x # xs) @ (y # ys)) (x # zs)"
proof -
  have "\<not> lt b x" if "b \<in> set ys" for b using neg_trans [of b y x] assms(2,3) that by auto
  then show ?thesis
    using sorted_of_append [of "[x]" "[]" "[x]" xs "y # ys" zs] assms by (auto simp: sorted_of_def)
qed

lemma sorted_of_snoc1:
  assumes "ascending lt (xs @ [x])" "ascending lt (ys @ [y])" "lt y x" "sorted_of lt (xs @ (ys @ [y])) zs"
  shows "sorted_of lt ((xs @ [x]) @ (ys @ [y])) (zs @ [x])"
proof -
  have "lt b x" if "b \<in> set ys" for b using le_lt_trans [of y b x] assms(2,3) that by auto
  then show ?thesis
    using sorted_of_append [of xs "ys @ [y]" zs "[x]" "[]" "[x]"] assms by (auto simp: sorted_of_def)
qed

lemma sorted_of_snoc2:
  assumes "ascending lt (xs @ [x])" "ascending lt (ys @ [y])" "\<not> lt y x" "sorted_of lt ((xs @ [x]) @ ys) zs"
  shows "sorted_of lt ((xs @ [x]) @ (ys @ [y])) (zs @ [y])"
proof -
  have "\<not> lt y b" if "b \<in> set xs" for b using neg_trans [of y x b] assms(1,3) that by auto
  then show ?thesis
    using sorted_of_append [of "xs @ [x]" ys zs "[]" "[y]" "[y]"] assms by (auto simp: sorted_of_def)
qed

lemma sorted_of_unique:
  assumes "sorted_of lt xs zs" "sorted_of lt xs zs'"
  shows "zs = zs'"
proof -
  have "zs = zs'" if "ascending lt zs" "ascending lt zs'" "stable lt zs zs'" for zs zs'
    using that
  proof (induction zs arbitrary: zs')
    case Nil
    then show ?case using stable_length by fastforce
  next
    case (Cons a as)
    then obtain b bs where zs': "zs' = b # bs" using stable_length by (cases zs') fastforce+
    have "b \<in> set (a # as)" "a \<in> set (b # bs)" using stable_set [OF Cons.prems(3)] by (auto simp: zs')
    then have "\<not> lt b a" "\<not> lt a b" using Cons.prems(1,2) irrefl [of a] by (auto simp: zs')
    moreover have flt: "filter (\<lambda>x. \<not> lt x v \<and> \<not> lt v x) (b # bs) = filter (\<lambda>x. \<not> lt x v \<and> \<not> lt v x) (a # as)" for v
      using Cons.prems(3) by (simp add: stable_def zs')
    ultimately have "a = b" using flt [of a] by (simp add: irrefl)
    then have "stable lt as bs"
      unfolding stable_def by (intro allI) (use flt in \<open>metis (no_types, lifting) filter.simps(2) list.inject\<close>)
    then show ?case using Cons.IH [of bs] Cons.prems \<open>a = b\<close> by (simp add: zs')
  qed
  then show ?thesis using assms by (simp add: sorted_of_def stable_def)
qed


section \<open>Merging into another place\<close>

lemma std_merge_step:
  assumes "first1 < last1" "first2 < last2"
  shows "std_merge kind lt first1 last1 first2 last2 result mem =
    (if lt (mem ! first2) (mem ! first1)
     then std_merge kind lt first1 last1 (Suc first2) last2 (Suc result) (mem[result := mem ! first2])
     else std_merge kind lt (Suc first1) last1 first2 last2 (Suc result) (mem[result := mem ! first1]))"
  using assms unfolding std_merge_def by (subst merge_loop.simps) simp

lemma merge_sorts:
  assumes "ascending lt (segment mem f1 l1)" "ascending lt (segment mem f2 l2)"
    and "f1 \<le> l1" "l1 \<le> length mem" "f2 \<le> l2" "l2 \<le> length mem" "r + (l1 - f1) + (l2 - f2) \<le> length mem"
    and "l1 \<le> r \<or> r + (l1 - f1) + (l2 - f2) \<le> f1" "l2 \<le> r \<or> r + (l1 - f1) \<le> f2"
  shows "\<exists>zs. std_merge kind lt f1 l1 f2 l2 r mem = (r + (l1 - f1) + (l2 - f2), store r zs mem) \<and>
    sorted_of lt (segment mem f1 l1 @ segment mem f2 l2) zs"
  using assms
proof (induction "(l1 - f1) + (l2 - f2)" arbitrary: f1 f2 r mem rule: less_induct)
  case less
  note pos = less.prems(3-9)
  consider "f1 = l1" | "f2 = l2" | "f1 < l1" "f2 < l2" using pos by linarith
  then show ?case
  proof cases
    case 1
    then have "std_merge kind lt f1 l1 f2 l2 r mem = (r + (l2 - f2), store r (segment mem f2 l2) mem)"
      using pos copy_store [of f2 l2 mem r kind] unfolding std_merge_def by (subst merge_loop.simps) (auto simp: no_clobber_def)
    then show ?thesis using 1 less.prems(2) by (auto simp: sorted_of_def)
  next
    case 2
    have "r \<le> f1 \<or> l1 \<le> r" using 2 pos by linarith
    with 2 have "std_merge kind lt f1 l1 f2 l2 r mem = (r + (l1 - f1), store r (segment mem f1 l1) mem)"
      using pos copy_store [of f1 l1 mem r kind] unfolding std_merge_def by (subst merge_loop.simps) (auto simp: no_clobber_def)
    then show ?thesis using 2 less.prems(1) by (auto simp: sorted_of_def)
  next
    case 3
    then have seg: "segment mem f1 l1 = mem ! f1 # segment mem (Suc f1) l1" "segment mem f2 l2 = mem ! f2 # segment mem (Suc f2) l2"
      using pos by (simp_all add: segment_Cons)
    have r: "r < length mem" using 3 pos by linarith
    note asc = less.prems(1,2) [unfolded seg]
    show ?thesis
    proof (cases "lt (mem ! f2) (mem ! f1)")
      case True
      let ?m = "mem[r := mem ! f2]"
      have same: "segment ?m f1 l1 = segment mem f1 l1" "segment ?m (Suc f2) l2 = segment mem (Suc f2) l2"
        using 3 pos by (auto intro!: segment_update_apart)
      have "\<exists>zs. std_merge kind lt f1 l1 (Suc f2) l2 (Suc r) ?m = (Suc r + (l1 - f1) + (l2 - Suc f2), store (Suc r) zs ?m) \<and>
          sorted_of lt (segment ?m f1 l1 @ segment ?m (Suc f2) l2) zs"
        using 3 pos less.prems(1) asc(2) by (intro less.hyps) (auto simp: same)
      then obtain zs where zs: "std_merge kind lt f1 l1 (Suc f2) l2 (Suc r) ?m = (Suc r + (l1 - f1) + (l2 - Suc f2), store (Suc r) zs ?m)"
          "sorted_of lt (segment mem f1 l1 @ segment mem (Suc f2) l2) zs" unfolding same by blast
      have "sorted_of lt (segment mem f1 l1 @ segment mem f2 l2) (mem ! f2 # zs)"
        using sorted_of_Cons2 [OF asc True] zs(2) unfolding seg by simp
      moreover have "std_merge kind lt f1 l1 f2 l2 r mem = (r + (l1 - f1) + (l2 - f2), store r (mem ! f2 # zs) mem)"
        using 3 True zs(1) r by (simp add: std_merge_step store_update)
      ultimately show ?thesis by blast
    next
      case False
      let ?m = "mem[r := mem ! f1]"
      have same: "segment ?m (Suc f1) l1 = segment mem (Suc f1) l1" "segment ?m f2 l2 = segment mem f2 l2"
        using 3 pos by (auto intro!: segment_update_apart)
      have "\<exists>zs. std_merge kind lt (Suc f1) l1 f2 l2 (Suc r) ?m = (Suc r + (l1 - Suc f1) + (l2 - f2), store (Suc r) zs ?m) \<and>
          sorted_of lt (segment ?m (Suc f1) l1 @ segment ?m f2 l2) zs"
        using 3 pos less.prems(2) asc(1) by (intro less.hyps) (auto simp: same)
      then obtain zs where zs: "std_merge kind lt (Suc f1) l1 f2 l2 (Suc r) ?m = (Suc r + (l1 - Suc f1) + (l2 - f2), store (Suc r) zs ?m)"
          "sorted_of lt (segment mem (Suc f1) l1 @ segment mem f2 l2) zs" unfolding same by blast
      have "sorted_of lt (segment mem f1 l1 @ segment mem f2 l2) (mem ! f1 # zs)"
        using sorted_of_Cons1 [OF asc False] zs(2) unfolding seg by simp
      moreover have "std_merge kind lt f1 l1 f2 l2 r mem = (r + (l1 - f1) + (l2 - f2), store r (mem ! f1 # zs) mem)"
        using 3 False zs(1) r by (simp add: std_merge_step store_update)
      ultimately show ?thesis by blast
    qed
  qed
qed

lemma merge_backward_loop_sorts:
  assumes "ascending lt (segment mem f1 (Suc l1))" "ascending lt (segment mem f2 (Suc l2))"
    and "f1 \<le> l1" "l1 < length mem" "f2 \<le> l2" "l2 < length mem"
    and "(Suc l1 - f1) + (Suc l2 - f2) \<le> r" "r \<le> length mem"
    and "r \<le> f1 \<or> Suc l1 + (Suc l2 - f2) \<le> r" "r \<le> f2 \<or> Suc l2 + ((Suc l1 - f1) + (Suc l2 - f2)) \<le> r"
  shows "\<exists>zs. snd (merge_backward_loop kind lt f1 l1 f2 l2 r mem) = store (r - ((Suc l1 - f1) + (Suc l2 - f2))) zs mem \<and>
    sorted_of lt (segment mem f1 (Suc l1) @ segment mem f2 (Suc l2)) zs"
  using assms
proof (induction "(l1 - f1) + (l2 - f2)" arbitrary: l1 l2 r mem rule: less_induct)
  case less
  note pos = less.prems(3-10)
  have seg: "segment mem f1 (Suc l1) = segment mem f1 l1 @ [mem ! l1]" "segment mem f2 (Suc l2) = segment mem f2 l2 @ [mem ! l2]"
    using pos by (simp_all add: segment_snoc)
  note asc = less.prems(1,2) [unfolded seg]
  show ?case
  proof (cases "lt (mem ! l2) (mem ! l1)")
    case True
    let ?m = "mem[r - Suc 0 := mem ! l1]"
    have same: "segment ?m f1 l1 = segment mem f1 l1" "segment ?m f2 (Suc l2) = segment mem f2 (Suc l2)"
      using pos by (auto intro!: segment_update_apart)
    have "\<exists>zs. snd (merge_backward_loop kind lt f1 l1 f2 l2 r mem) = store (r - 1 - ((l1 - f1) + (Suc l2 - f2))) zs ?m \<and>
        sorted_of lt (segment mem f1 l1 @ segment mem f2 (Suc l2)) zs"
    proof (cases "f1 < l1")
      case lt: True
      then have "\<exists>zs. snd (merge_backward_loop kind lt f1 (l1 - 1) f2 l2 (r - 1) ?m) = store (r - 1 - ((Suc (l1 - 1) - f1) + (Suc l2 - f2))) zs ?m \<and>
          sorted_of lt (segment ?m f1 (Suc (l1 - 1)) @ segment ?m f2 (Suc l2)) zs"
        using pos less.prems(2) asc(1) by (intro less.hyps) (auto simp: same)
      then show ?thesis using lt True by (subst merge_backward_loop.simps) (simp add: Let_def same)
    next
      case False
      have "Suc l2 \<le> r - Suc 0 \<or> r - Suc 0 \<le> f2" using pos by linarith
      with False have "snd (merge_backward_loop kind lt f1 l1 f2 l2 r mem) = store (r - 1 - ((l1 - f1) + (Suc l2 - f2))) (segment mem f2 (Suc l2)) ?m"
        using pos True copy_backward_store [of f2 "Suc l2" ?m "r - Suc 0" kind]
        by (subst merge_backward_loop.simps) (simp add: Let_def same)
      then show ?thesis using False pos less.prems(2) by (auto simp: sorted_of_def)
    qed
    then obtain zs where zs: "snd (merge_backward_loop kind lt f1 l1 f2 l2 r mem) = store (r - 1 - ((l1 - f1) + (Suc l2 - f2))) zs ?m"
      "sorted_of lt (segment mem f1 l1 @ segment mem f2 (Suc l2)) zs" by blast
    have "length zs = (l1 - f1) + (Suc l2 - f2)" using sorted_of_length [OF zs(2)] pos by simp
    then have "store (r - 1 - ((l1 - f1) + (Suc l2 - f2))) zs ?m = store (r - ((Suc l1 - f1) + (Suc l2 - f2))) (zs @ [mem ! l1]) mem"
      using store_before [of zs r mem "mem ! l1"] pos by (simp add: Suc_diff_le)
    moreover have "sorted_of lt (segment mem f1 (Suc l1) @ segment mem f2 (Suc l2)) (zs @ [mem ! l1])"
      using sorted_of_snoc1 [OF asc True] zs(2) unfolding seg by simp
    ultimately show ?thesis using zs(1) by auto
  next
    case False
    let ?m = "mem[r - Suc 0 := mem ! l2]"
    have same: "segment ?m f1 (Suc l1) = segment mem f1 (Suc l1)" "segment ?m f2 l2 = segment mem f2 l2"
      using pos by (auto intro!: segment_update_apart)
    have "\<exists>zs. snd (merge_backward_loop kind lt f1 l1 f2 l2 r mem) = store (r - 1 - ((Suc l1 - f1) + (l2 - f2))) zs ?m \<and>
        sorted_of lt (segment mem f1 (Suc l1) @ segment mem f2 l2) zs"
    proof (cases "f2 < l2")
      case lt: True
      then have "\<exists>zs. snd (merge_backward_loop kind lt f1 l1 f2 (l2 - 1) (r - 1) ?m) = store (r - 1 - ((Suc l1 - f1) + (Suc (l2 - 1) - f2))) zs ?m \<and>
          sorted_of lt (segment ?m f1 (Suc l1) @ segment ?m f2 (Suc (l2 - 1))) zs"
        using pos less.prems(1) asc(2) by (intro less.hyps) (auto simp: same)
      then show ?thesis using lt False by (subst merge_backward_loop.simps) (simp add: Let_def same)
    next
      case ge: False
      have "Suc l1 \<le> r - Suc 0 \<or> r - Suc 0 \<le> f1" using pos by linarith
      with ge have "snd (merge_backward_loop kind lt f1 l1 f2 l2 r mem) = store (r - 1 - ((Suc l1 - f1) + (l2 - f2))) (segment mem f1 (Suc l1)) ?m"
        using pos False copy_backward_store [of f1 "Suc l1" ?m "r - Suc 0" kind]
        by (subst merge_backward_loop.simps) (simp add: Let_def same)
      then show ?thesis using ge pos less.prems(1) by (auto simp: sorted_of_def)
    qed
    then obtain zs where zs: "snd (merge_backward_loop kind lt f1 l1 f2 l2 r mem) = store (r - 1 - ((Suc l1 - f1) + (l2 - f2))) zs ?m"
      "sorted_of lt (segment mem f1 (Suc l1) @ segment mem f2 l2) zs" by blast
    have "length zs = (Suc l1 - f1) + (l2 - f2)" using sorted_of_length [OF zs(2)] pos by simp
    then have "store (r - 1 - ((Suc l1 - f1) + (l2 - f2))) zs ?m = store (r - ((Suc l1 - f1) + (Suc l2 - f2))) (zs @ [mem ! l2]) mem"
      using store_before [of zs r mem "mem ! l2"] pos by (simp add: Suc_diff_le)
    moreover have "sorted_of lt (segment mem f1 (Suc l1) @ segment mem f2 (Suc l2)) (zs @ [mem ! l2])"
      using sorted_of_snoc2 [OF asc False] zs(2) unfolding seg by simp
    ultimately show ?thesis using zs(1) by auto
  qed
qed

lemma merge_backward_sorts:
  assumes "ascending lt (segment mem f1 l1)" "ascending lt (segment mem f2 l2)"
    and "f1 \<le> l1" "l1 \<le> length mem" "f2 \<le> l2" "l2 \<le> length mem" "(l1 - f1) + (l2 - f2) \<le> r" "r \<le> length mem"
    and "r \<le> f1 \<or> l1 + (l2 - f2) \<le> r" "r \<le> f2 \<or> l2 + ((l1 - f1) + (l2 - f2)) \<le> r"
  shows "\<exists>zs. snd (merge_backward kind lt f1 l1 f2 l2 r mem) = store (r - ((l1 - f1) + (l2 - f2))) zs mem \<and>
    sorted_of lt (segment mem f1 l1 @ segment mem f2 l2) zs"
proof -
  consider "f1 = l1" | "f1 < l1" "f2 = l2" | "f1 < l1" "f2 < l2" using assms by linarith
  then show ?thesis
  proof cases
    case 3
    then have "\<exists>zs. snd (merge_backward_loop kind lt f1 (l1 - 1) f2 (l2 - 1) r mem) = store (r - ((Suc (l1 - 1) - f1) + (Suc (l2 - 1) - f2))) zs mem \<and>
        sorted_of lt (segment mem f1 (Suc (l1 - 1)) @ segment mem f2 (Suc (l2 - 1))) zs"
      using assms by (intro merge_backward_loop_sorts) auto
    then show ?thesis using 3 by (simp add: merge_backward_def)
  next
    case 1
    have "l2 \<le> r \<or> r \<le> f2" using assms by linarith
    with 1 show ?thesis using assms copy_backward_store [of f2 l2 mem r kind] by (auto simp: merge_backward_def sorted_of_def)
  next
    case 2
    have "l1 \<le> r \<or> r \<le> f1" using assms by linarith
    with 2 show ?thesis using assms copy_backward_store [of f1 l1 mem r kind] by (auto simp: merge_backward_def sorted_of_def)
  qed
qed


section \<open>Merging in place\<close>

lemma merge_cuts_parted:
  assumes "ordered lt ((!) mem) f m" "ordered lt ((!) mem) m l" "f < m" "m < l" "2 < l - f"
    and "merge_cuts lt f m l (m - f) (l - m) mem = (c1, c2)"
  shows "(f \<le> c1 \<and> c1 \<le> m \<and> m \<le> c2 \<and> c2 \<le> l \<and> (c1 - f) + (c2 - m) < l - f \<and> (f < c1 \<or> m < c2)) \<and>
    (\<exists>v. parted_by lt mem f c1 m c2 l v)"
proof -
  note ord = assms(1,2)
  have le: "\<not> lt (mem ! j) (mem ! i)" if "f \<le> i \<and> j < m \<or> m \<le> i \<and> j < l" "i \<le> j" for i j
    using that ord irrefl [of "mem ! i"] by (cases "i = j") (auto simp: ordered_def)
  consider (lower) "l - m < m - f" "c1 = f + (m - f) div 2" "c2 = std_lower_bound lt ((!) mem) m l (mem ! c1)"
    | (upper) "m - f \<le> l - m" "c2 = m + (l - m) div 2" "c1 = std_upper_bound lt ((!) mem) f m (mem ! c2)"
    using assms(6) by (auto simp: merge_cuts_def Let_def split: if_splits)
  then show ?thesis
  proof cases
    case lower
    have fp: "first_pos (\<lambda>i. \<not> lt (mem ! i) (mem ! c1)) m l c2"
      using lower_bound_first [OF ord(2)] lower(3) assms(4) by simp
    have "2 \<le> m - f" using lower(1) assms(4) by simp
    then have "c1 < m" "f < c1" using lower(2) assms(3) by linarith+
    moreover have "\<not> lt (mem ! j) (mem ! c1)" if "c2 \<le> j" "j < l" for j
      using ordered_upward(1) [OF ord(2), of "mem ! c1"] fp that unfolding upward_def first_pos_def
      by (metis order_le_less_trans)
    ultimately show ?thesis
      using fp le [of _ c1] le [of c1] unfolding parted_by_def
      by (intro conjI exI [of _ "mem ! c1"] disjI1) (auto simp: first_pos_def)
  next
    case upper
    have fp: "first_pos (\<lambda>i. lt (mem ! c2) (mem ! i)) f m c1"
      using upper_bound_first [OF ord(1)] upper(3) assms(3) by simp
    have "2 \<le> l - m" using upper(1) assms(5) by linarith
    then have "c2 < l" "m < c2" using upper(2) assms(4) by linarith+
    moreover have "lt (mem ! c2) (mem ! i)" if "c1 \<le> i" "i < m" for i
      using ordered_upward(2) [OF ord(1), of "mem ! c2"] fp that unfolding upward_def first_pos_def
      by (metis order_le_less_trans)
    ultimately show ?thesis
      using fp le [of _ c2] le [of c2] unfolding parted_by_def
      by (intro conjI exI [of _ "mem ! c2"] disjI2) (auto simp: first_pos_def)
  qed
qed

lemma parted_by_sides:
  assumes "parted_by lt mem f c1 m c2 l v" "c1 \<le> m" "m \<le> c2" "c2 \<le> l" "l \<le> length mem"
  shows "\<forall>y \<in> set (segment mem m c2). \<forall>x \<in> set (segment mem c1 m). lt y x"
    and "\<forall>x \<in> set (segment mem f c1). \<forall>y \<in> set (segment mem c2 l). \<not> lt y x"
proof -
  have "lt (mem ! j) (mem ! i)" if "m \<le> j" "j < c2" "c1 \<le> i" "i < m" for i j
    using assms(1) that lt_le_trans [of "mem ! j" v "mem ! i"] le_lt_trans [of v "mem ! j" "mem ! i"]
    unfolding parted_by_def by blast
  then show "\<forall>y \<in> set (segment mem m c2). \<forall>x \<in> set (segment mem c1 m). lt y x"
    using assms by (auto simp: in_segment)
  have "\<not> lt (mem ! j) (mem ! i)" if "f \<le> i" "i < c1" "c2 \<le> j" "j < l" for i j
    using assms(1) that neg_trans [of "mem ! j" v "mem ! i"] unfolding parted_by_def by blast
  then show "\<forall>x \<in> set (segment mem f c1). \<forall>y \<in> set (segment mem c2 l). \<not> lt y x"
    using assms by (auto simp: in_segment)
qed

text \<open>
  The step both merges in place share: when the two blocks between the cuts have been exchanged, merging the
  two halves by themselves merges the whole.
\<close>

lemma merge_cuts_merge:
  assumes "ascending lt (segment mem f m)" "ascending lt (segment mem m l)" "l \<le> length mem" "f < m" "m < l" "2 < l - f"
    and "merge_cuts lt f m l (m - f) (l - m) mem = (c1, c2)"
  shows "f \<le> c1" "c1 \<le> m" "m \<le> c2" "c2 \<le> l" "(c1 - f) + (c2 - m) < l - f" "f < c1 \<or> m < c2"
    and "ascending lt (segment mem f c1)" "ascending lt (segment mem m c2)" "ascending lt (segment mem c1 m)" "ascending lt (segment mem c2 l)"
    and "\<And>zs1 zs2. sorted_of lt (segment mem f c1 @ segment mem m c2) zs1 \<Longrightarrow> sorted_of lt (segment mem c1 m @ segment mem c2 l) zs2 \<Longrightarrow>
      sorted_of lt (segment mem f m @ segment mem m l) (zs1 @ zs2)"
proof -
  have ord: "ordered lt ((!) mem) f m" "ordered lt ((!) mem) m l"
    using assms(1-5) by (simp_all add: ordered_segment)
  from merge_cuts_parted [OF ord assms(4-7)]
  obtain v where pos: "f \<le> c1" "c1 \<le> m" "m \<le> c2" "c2 \<le> l" "(c1 - f) + (c2 - m) < l - f" "f < c1 \<or> m < c2"
    and v: "parted_by lt mem f c1 m c2 l v" by blast
  show "f \<le> c1" "c1 \<le> m" "m \<le> c2" "c2 \<le> l" "(c1 - f) + (c2 - m) < l - f" "f < c1 \<or> m < c2" by fact+
  have seg: "segment mem f m = segment mem f c1 @ segment mem c1 m" "segment mem m l = segment mem m c2 @ segment mem c2 l"
    using pos by (auto intro: segment_append)
  show "ascending lt (segment mem f c1)" "ascending lt (segment mem m c2)" "ascending lt (segment mem c1 m)" "ascending lt (segment mem c2 l)"
    using assms(1,2) unfolding seg by auto
  show "sorted_of lt (segment mem f m @ segment mem m l) (zs1 @ zs2)"
    if "sorted_of lt (segment mem f c1 @ segment mem m c2) zs1" "sorted_of lt (segment mem c1 m @ segment mem c2 l) zs2" for zs1 zs2
    unfolding seg using sorted_of_append [OF that] assms(1,2) parted_by_sides [OF v pos(2-4) assms(3)] unfolding seg by blast
qed

lemma merge_without_buffer_sorts:
  assumes "ascending lt (segment mem f m)" "ascending lt (segment mem m l)" "f \<le> m" "m \<le> l" "l \<le> length mem"
  shows "\<exists>zs. merge_without_buffer c lt f m l (m - f) (l - m) mem = Some (store f zs mem) \<and>
    sorted_of lt (segment mem f m @ segment mem m l) zs"
  using assms
proof (induction "l - f" arbitrary: f m l mem rule: less_induct)
  case less
  note asc = less.prems(1,2) and pos = less.prems(3-5)
  consider "f = m \<or> m = l" | "m = Suc f" "l = Suc m" | "f < m" "m < l" "2 < l - f" using pos by linarith
  then show ?case
  proof cases
    case 1
    then have none: "m - f = 0 \<or> l - m = 0" by auto
    have "merge_without_buffer c lt f m l (m - f) (l - m) mem = Some (store f (segment mem f l) mem)"
      using store_segment [of f l mem] pos by (subst merge_without_buffer.simps) (simp only: none if_True)
    moreover have "segment mem f m @ segment mem m l = segment mem f l" using 1 by auto
    ultimately show ?thesis using 1 asc by (auto simp: sorted_of_def)
  next
    case 2
    then have seg: "segment mem f m = [mem ! f]" "segment mem m l = [mem ! m]" "segment mem f l = [mem ! f, mem ! m]"
      using pos by (simp_all add: segment_Cons)
    have "mem[f := mem ! Suc f, Suc f := mem ! f] = store f [mem ! Suc f, mem ! f] mem"
      using 2 pos by (intro nth_equalityI) (auto simp: store_nth nth_list_update nth_Cons')
    then have "merge_without_buffer c lt f m l (m - f) (l - m) mem =
        Some (store f (if lt (mem ! m) (mem ! f) then [mem ! m, mem ! f] else [mem ! f, mem ! m]) mem)"
      using 2 pos store_segment [of f l mem] seg(3)
      by (subst merge_without_buffer.simps) (simp add: iter_swap_def std_swap_def Let_def)
    moreover have "sorted_of lt ([mem ! f] @ [mem ! m]) (if lt (mem ! m) (mem ! f) then [mem ! m, mem ! f] else [mem ! f, mem ! m])"
      using sorted_of_Cons2 [of "mem ! f" "[]" "mem ! m" "[]" "[mem ! f]"] by (simp add: sorted_of_def)
    ultimately show ?thesis unfolding seg by blast
  next
    case 3
    obtain c1 c2 where cuts: "merge_cuts lt f m l (m - f) (l - m) mem = (c1, c2)" by fastforce
    note cut = merge_cuts_merge [OF asc pos(3) 3 cuts]
    define n where "n = c1 + (c2 - m)"
    have n: "c1 \<le> n" "n \<le> c2" "n - c1 = c2 - m" "c2 - n = m - c1" "n - f < l - f" "l - n < l - f" "f \<le> n" "n \<le> l"
      using cut(1-6) by (auto simp: n_def)
    define m1 where "m1 = store c1 (segment mem m c2 @ segment mem c1 m) mem"
    have rot: "priv_rotate c c1 m c2 mem = Some (n, m1)"
      using priv_rotate_store [of c1 m c2 mem c] cut pos by (simp add: m1_def n_def)
    have len1: "length m1 = length mem" using cut pos by (simp add: m1_def)
    have s1: "segment m1 f c1 = segment mem f c1" "segment m1 c1 n = segment mem m c2"
      "segment m1 n c2 = segment mem c1 m" "segment m1 c2 l = segment mem c2 l"
      using rotated_segments [OF m1_def] cut pos unfolding n_def by simp_all
    obtain zs1 where zs1: "merge_without_buffer c lt f c1 n (c1 - f) (n - c1) m1 = Some (store f zs1 m1)"
      "sorted_of lt (segment mem f c1 @ segment mem m c2) zs1"
      using less.hyps [OF n(5), of m1 c1] n(1,8) cut(1,7,8) pos(3) len1 s1(1,2) by auto
    have lz1: "length zs1 = n - f" using sorted_of_length [OF zs1(2)] cut(1-5) pos by (simp add: n_def)
    have s2: "segment (store f zs1 m1) n c2 = segment mem c1 m" "segment (store f zs1 m1) c2 l = segment mem c2 l"
      using segment_store_apart [of f zs1 m1 c2 n] segment_store_apart [of f zs1 m1 l c2] s1(3,4) lz1 n(2,7,8) pos(3) len1 by simp_all
    obtain zs2 where zs2: "merge_without_buffer c lt n c2 l (c2 - n) (l - c2) (store f zs1 m1) = Some (store n zs2 (store f zs1 m1))"
      "sorted_of lt (segment mem c1 m @ segment mem c2 l) zs2"
      using less.hyps [OF n(6), of "store f zs1 m1" c2] n(2,7,8) cut(4,9,10) pos(3) len1 lz1 s2 by auto
    have lz2: "length zs2 = l - n" using sorted_of_length [OF zs2(2)] cut(1-5) pos by (simp add: n_def)
    have "store n zs2 (store f zs1 m1) = store f (zs1 @ zs2) m1"
      using store_append [of f zs1 zs2 m1] lz1 lz2 cut(1-5) n pos len1 by simp
    also have "\<dots> = store f (zs1 @ zs2) mem"
      unfolding m1_def using lz1 lz2 cut(1-5) n pos by (intro store_cover) simp_all
    finally have "merge_without_buffer c lt f m l (m - f) (l - m) mem = Some (store f (zs1 @ zs2) mem)"
      using zs1(1) zs2(1) 3 cut(1-4) n by (subst merge_without_buffer.simps) (simp add: cuts rot Let_def)
    then show ?thesis using cut(11) [OF zs1(2) zs2(2)] by blast
  qed
qed

end

section \<open>Merging with a buffer\<close>

text \<open>Only the cells of the range and of the buffer change.\<close>

definition touched :: "nat \<Rightarrow> nat \<Rightarrow> nat \<Rightarrow> nat \<Rightarrow> 'a list \<Rightarrow> 'a list \<Rightarrow> bool" where
  "touched f l b e m m' \<longleftrightarrow> length m' = length m \<and> (\<forall>q. \<not> (f \<le> q \<and> q < l) \<longrightarrow> \<not> (b \<le> q \<and> q < e) \<longrightarrow> m' ! q = m ! q)"

lemma touched_length: "touched f l b e m m' \<Longrightarrow> length m' = length m"
  by (simp add: touched_def)

lemma touched_trans: "touched f l b e m m' \<Longrightarrow> touched f l b e m' m'' \<Longrightarrow> touched f l b e m m''"
  by (simp add: touched_def)

lemma touched_widen: "touched f l b e m m' \<Longrightarrow> f' \<le> f \<Longrightarrow> l \<le> l' \<Longrightarrow> touched f' l' b e m m'"
  by (auto simp: touched_def)

lemma touched_store:
  "r + length zs \<le> length m \<Longrightarrow> f \<le> r \<and> r + length zs \<le> l \<or> b \<le> r \<and> r + length zs \<le> e \<Longrightarrow> touched f l b e m (store r zs m)"
  by (auto simp: touched_def store_nth)

lemma touched_segment:
  "touched f l b e m m' \<Longrightarrow> y \<le> f \<or> l \<le> x \<Longrightarrow> y \<le> b \<or> e \<le> x \<Longrightarrow> segment m' x y = segment m x y"
  by (intro segment_cong) (auto simp: touched_def)

lemma rotate_adaptive_blocks:
  assumes "f + p + q \<le> length mem" "b + n \<le> length mem" "b + n \<le> f \<or> f + p + q \<le> b"
    and "xs = segment mem f (f + p)" "ys = segment mem (f + p) (f + p + q)"
  shows "\<exists>mem'. rotate_adaptive c kind f (f + p) (f + p + q) p q b n mem = Some (f + q, mem') \<and>
    segment mem' f (f + q) = ys \<and> segment mem' (f + q) (f + p + q) = xs \<and> touched f (f + p + q) b (b + n) mem mem'"
proof -
  have len [simp]: "length xs = p" "length ys = q" using assms by simp_all
  consider (right) "q < p" "q \<le> n" | (left) "\<not> (q < p \<and> q \<le> n)" "p \<le> n" | (swap) "\<not> (q < p \<and> q \<le> n)" "n < p" by linarith
  then show ?thesis
  proof cases
    case right
    define m1 where "m1 = store b ys mem"
    define m2 where "m2 = store (f + q) xs m1"
    define m3 where "m3 = store f ys m2"
    have lens: "length m1 = length mem" "length m2 = length mem" "length m3 = length mem"
      using assms(1-3) right by (simp_all add: m1_def m2_def m3_def)
    have s: "segment m1 f (f + p) = xs" "segment m2 b (b + q) = ys"
      using assms right lens segment_store [of b ys mem] segment_store_apart [of b ys mem "f + p" f]
        segment_store_apart [of "f + q" xs m1 "b + q" b] by (auto simp: m1_def m2_def)
    have "std_copy kind (f + p) (f + p + q) b mem = (b + q, m1)"
      using assms right copy_store [of "f + p" "f + p + q" mem b kind] by (auto simp: m1_def no_clobber_def)
    moreover have "snd (std_copy_backward kind f (f + p) (f + p + q) m1) = m2"
      using assms(1-3) s(1) lens copy_backward_store [of f "f + p" m1 "f + p + q" kind] by (simp add: m2_def)
    moreover have "std_copy kind b (b + q) f m2 = (f + q, m3)"
      using assms(1-3) right s(2) lens copy_store [of b "b + q" m2 f kind] by (auto simp: m3_def no_clobber_def)
    ultimately have "rotate_adaptive c kind f (f + p) (f + p + q) p q b n mem = Some (f + q, m3)"
      using right by (simp add: rotate_adaptive_def Let_def split_beta)
    moreover have "segment m3 f (f + q) = ys" "segment m3 (f + q) (f + p + q) = xs"
      using assms(1-3) lens segment_store [of f ys m2] segment_store [of "f + q" xs m1]
        segment_store_apart [of f ys m2 "f + p + q" "f + q"] by (auto simp: m3_def m2_def ac_simps)
    moreover have "touched f (f + p + q) b (b + n) mem m1" "touched f (f + p + q) b (b + n) m1 m2" "touched f (f + p + q) b (b + n) m2 m3"
      using assms(1-3) lens right unfolding m3_def by (auto simp: m1_def m2_def intro!: touched_store)
    then have "touched f (f + p + q) b (b + n) mem m3" by (blast intro: touched_trans)
    ultimately show ?thesis by blast
  next
    case left
    define m1 where "m1 = store b xs mem"
    define m2 where "m2 = store f ys m1"
    define m3 where "m3 = store (f + q) xs m2"
    have lens: "length m1 = length mem" "length m2 = length mem" "length m3 = length mem"
      using assms(1-3) left by (simp_all add: m1_def m2_def m3_def)
    have s: "segment m1 (f + p) (f + p + q) = ys" "segment m2 b (b + p) = xs"
      using assms left lens segment_store [of b xs mem] segment_store_apart [of b xs mem "f + p + q" "f + p"]
        segment_store_apart [of f ys m1 "b + p" b] by (auto simp: m1_def m2_def)
    have "std_copy kind f (f + p) b mem = (b + p, m1)"
      using assms left copy_store [of f "f + p" mem b kind] by (auto simp: m1_def no_clobber_def)
    moreover have "snd (std_copy kind (f + p) (f + p + q) f m1) = m2"
      using assms(1-3) s(1) lens copy_store [of "f + p" "f + p + q" m1 f kind] by (simp add: m2_def no_clobber_def)
    moreover have "std_copy_backward kind b (b + p) (f + p + q) m2 = (f + q, m3)"
      using assms(1-3) left s(2) lens copy_backward_store [of b "b + p" m2 "f + p + q" kind] by (auto simp: m3_def)
    ultimately have "rotate_adaptive c kind f (f + p) (f + p + q) p q b n mem = Some (f + q, m3)"
      using left by (simp add: rotate_adaptive_def Let_def split_beta)
    moreover have "segment m3 f (f + q) = ys" "segment m3 (f + q) (f + p + q) = xs"
      using assms(1-3) lens segment_store [of f ys m1] segment_store [of "f + q" xs m2]
        segment_store_apart [of "f + q" xs m2 "f + q" f] by (auto simp: m3_def m2_def ac_simps)
    moreover have "touched f (f + p + q) b (b + n) mem m1" "touched f (f + p + q) b (b + n) m1 m2" "touched f (f + p + q) b (b + n) m2 m3"
      using assms(1-3) lens left unfolding m3_def by (auto simp: m1_def m2_def intro!: touched_store)
    then have "touched f (f + p + q) b (b + n) mem m3" by (blast intro: touched_trans)
    ultimately show ?thesis by blast
  next
    case swap
    have "segment (store f (ys @ xs) mem) f (f + p + q) = ys @ xs"
      using segment_store [of f "ys @ xs" mem] assms(1-3) by (simp add: ac_simps)
    from segment_halves [OF this] have "segment (store f (ys @ xs) mem) f (f + q) = ys" "segment (store f (ys @ xs) mem) (f + q) (f + p + q) = xs"
      using assms(1) by simp_all
    moreover have "touched f (f + p + q) b (b + n) mem (store f (ys @ xs) mem)"
      using assms(1) by (intro touched_store) simp_all
    moreover have "rotate_adaptive c kind f (f + p) (f + p + q) p q b n mem = Some (f + q, store f (ys @ xs) mem)"
      using swap assms(1) priv_rotate_store [of f "f + p" "f + p + q" mem c, folded assms(4,5)] by (auto simp: rotate_adaptive_def)
    ultimately show ?thesis by blast
  qed
qed

context strict_weak_order begin

lemma merge_adaptive_halves:
  assumes "\<not> (len1 \<le> len2 \<and> len1 \<le> n)" "\<not> len2 \<le> n" "merge_cuts lt f m l len1 len2 mem = (c1, c2)"
  shows "merge_adaptive c kind lt f m l len1 len2 b n mem =
    Option.bind (rotate_adaptive c kind c1 m c2 (len1 - (c1 - f)) (c2 - m) b n mem) (\<lambda>r.
    Option.bind (merge_adaptive c kind lt f c1 (fst r) (c1 - f) (c2 - m) b n (snd r)) (\<lambda>mem.
    merge_adaptive c kind lt (fst r) c2 l (len1 - (c1 - f)) (len2 - (c2 - m)) b n mem))"
  by (subst merge_adaptive.simps) (simp only: assms if_False Let_def fst_conv snd_conv)

lemma merge_adaptive_sorts:
  assumes "ascending lt (segment mem f m)" "ascending lt (segment mem m l)" "f \<le> m" "m \<le> l" "l \<le> length mem"
    and "0 < n" "b + n \<le> length mem" "b + n \<le> f \<or> l \<le> b"
  shows "\<exists>mem'. merge_adaptive c kind lt f m l (m - f) (l - m) b n mem = Some mem' \<and>
    sorted_of lt (segment mem f m @ segment mem m l) (segment mem' f l) \<and> touched f l b (b + n) mem mem'"
  using assms
proof (induction "l - f" arbitrary: f m l mem rule: less_induct)
  case less
  note asc = less.prems(1,2) and pos = less.prems(3-8)
  have len: "length (segment mem f m) = m - f" "length (segment mem m l) = l - m" using pos by simp_all
  consider (forwards) "m - f \<le> l - m" "m - f \<le> n" | (backwards) "\<not> (m - f \<le> l - m \<and> m - f \<le> n)" "l - m \<le> n"
    | (halves) "\<not> (m - f \<le> l - m \<and> m - f \<le> n)" "n < l - m" by linarith
  then show ?case
  proof cases
    case forwards
    define m1 where "m1 = store b (segment mem f m) mem"
    have lens: "length m1 = length mem" using forwards pos len by (simp add: m1_def)
    define e where "e = b + (m - f)"
    have e: "b \<le> e" "e - b = m - f" "e \<le> b + n" "e \<le> length m1" "e \<le> f \<or> f + (e - b) + (l - m) \<le> b"
      using forwards pos lens by (auto simp: e_def)
    have cp: "std_copy kind f m b mem = (e, m1)"
      using forwards pos copy_store [of f m mem b kind] by (auto simp: m1_def e_def no_clobber_def)
    have s: "segment m1 b e = segment mem f m" "segment m1 m l = segment mem m l"
      using segment_store [of b "segment mem f m" mem] segment_store_apart [of b "segment mem f m" mem l m] forwards pos len
      by (auto simp: m1_def e_def)
    obtain zs where zs: "std_merge kind lt b e m l f m1 = (f + (e - b) + (l - m), store f zs m1)"
      "sorted_of lt (segment mem f m @ segment mem m l) zs"
      using merge_sorts [of m1 b e m l f kind] asc s forwards pos lens e by auto
    have lz: "f + length zs = l" using sorted_of_length [OF zs(2)] len pos by simp
    have "segment (store f zs m1) f l = zs" using segment_store [of f zs m1] lz lens pos by simp
    moreover have "touched f l b (b + n) mem m1" "touched f l b (b + n) m1 (store f zs m1)"
      using forwards pos len lz lens by (auto simp: m1_def intro!: touched_store)
    then have "touched f l b (b + n) mem (store f zs m1)" by (rule touched_trans)
    ultimately show ?thesis
      using forwards cp zs by (subst merge_adaptive.simps) simp
  next
    case backwards
    define m1 where "m1 = store b (segment mem m l) mem"
    have lens: "length m1 = length mem" using backwards pos len by (simp add: m1_def)
    define e where "e = b + (l - m)"
    have e: "b \<le> e" "e - b = l - m" "e \<le> b + n" "e \<le> length m1" "l \<le> b \<or> e + ((m - f) + (e - b)) \<le> l" "(m - f) + (e - b) = l - f"
      using backwards pos lens by (auto simp: e_def)
    have cp: "std_copy kind m l b mem = (e, m1)"
      using backwards pos copy_store [of m l mem b kind] by (auto simp: m1_def e_def no_clobber_def)
    have s: "segment m1 b e = segment mem m l" "segment m1 f m = segment mem f m"
      using segment_store [of b "segment mem m l" mem] segment_store_apart [of b "segment mem m l" mem m f] backwards pos len
      by (auto simp: m1_def e_def)
    obtain zs where zs: "snd (merge_backward kind lt f m b e l m1) = store f zs m1"
      "sorted_of lt (segment mem f m @ segment mem m l) zs"
      using merge_backward_sorts [of m1 f m b e l kind] asc s backwards pos lens e by auto
    have lz: "f + length zs = l" using sorted_of_length [OF zs(2)] len pos by simp
    have "segment (store f zs m1) f l = zs" using segment_store [of f zs m1] lz lens pos by simp
    moreover have "touched f l b (b + n) mem m1" "touched f l b (b + n) m1 (store f zs m1)"
      using backwards pos len lz lens by (auto simp: m1_def intro!: touched_store)
    then have "touched f l b (b + n) mem (store f zs m1)" by (rule touched_trans)
    ultimately show ?thesis
      using backwards cp zs by (subst merge_adaptive.simps) simp
  next
    case halves
    then have big: "f < m" "m < l" "2 < l - f" using pos by auto
    obtain c1 c2 where cuts: "merge_cuts lt f m l (m - f) (l - m) mem = (c1, c2)" by fastforce
    note cut = merge_cuts_merge [OF asc pos(3) big cuts]
    define k where "k = c1 + (c2 - m)"
    have k: "c1 \<le> k" "k \<le> c2" "k - c1 = c2 - m" "c2 - k = m - c1" "k - f < l - f" "l - k < l - f" "f \<le> k" "k \<le> l"
      using cut(1-6) by (auto simp: k_def)
    have lens: "m - f - (c1 - f) = m - c1" "l - m - (c2 - m) = l - c2" using cut(1-4) by simp_all
    have mid: "c1 + (m - c1) = m" "c1 + (m - c1) + (c2 - m) = c2" using cut(2,3) by simp_all
    have "b + n \<le> c1 \<or> c2 \<le> b" using pos(6) cut(1-4) by linarith
    then obtain m1 where rot: "rotate_adaptive c kind c1 m c2 (m - c1) (c2 - m) b n mem = Some (k, m1)"
      and r: "segment m1 c1 k = segment mem m c2" "segment m1 k c2 = segment mem c1 m" and t1: "touched c1 c2 b (b + n) mem m1"
      using rotate_adaptive_blocks [of c1 "m - c1" "c2 - m" mem b n "segment mem c1 m" "segment mem m c2" c kind, unfolded mid, folded k_def]
        cut(1-4) pos by auto
    have len1: "length m1 = length mem" using t1 by (rule touched_length)
    have o1: "segment m1 f c1 = segment mem f c1" "segment m1 c2 l = segment mem c2 l"
      using touched_segment [OF t1] cut(1-4) pos by (metis order_trans order_refl)+
    have ub: "b + n \<le> f \<or> k \<le> b" "b + n \<le> k \<or> l \<le> b" using pos(6) k by linarith+
    obtain m2 where m2: "merge_adaptive c kind lt f c1 k (c1 - f) (k - c1) b n m1 = Some m2"
      and z1: "sorted_of lt (segment mem f c1 @ segment mem m c2) (segment m2 f k)" and t2: "touched f k b (b + n) m1 m2"
      using less.hyps [OF k(5), of m1 c1] k(1,8) cut(1,7,8) o1(1) r(1) len1 pos(3-5) ub(1) by auto
    have len2: "length m2 = length mem" using touched_length [OF t2] len1 by simp
    have o2: "segment m2 k c2 = segment mem c1 m" "segment m2 c2 l = segment mem c2 l"
      using touched_segment [OF t2] k cut(1-4) pos(6) r(2) o1(2) by (metis order_trans order_refl)+
    obtain m3 where m3: "merge_adaptive c kind lt k c2 l (c2 - k) (l - c2) b n m2 = Some m3"
      and z2: "sorted_of lt (segment mem c1 m @ segment mem c2 l) (segment m3 k l)" and t3: "touched k l b (b + n) m2 m3"
      using less.hyps [OF k(6), of m2 c2] k(2) cut(4,9,10) o2 len2 pos(3-5) ub(2) by auto
    have "segment m3 f k = segment m2 f k" using touched_segment [OF t3, of k f] ub(1) pos(6) k by auto
    then have "segment m3 f l = segment m2 f k @ segment m3 k l" using segment_append [of f k l m3] k by simp
    then have "sorted_of lt (segment mem f m @ segment mem m l) (segment m3 f l)" using cut(11) [OF z1 z2] by simp
    moreover have "touched f l b (b + n) mem m3"
      using touched_trans [OF touched_widen [OF t1 cut(1,4)] touched_trans [OF touched_widen [OF t2 order_refl k(8)] touched_widen [OF t3 k(7) order_refl]]] .
    moreover have "merge_adaptive c kind lt f m l (m - f) (l - m) b n mem = Some m3"
      using m2 m3 rot unfolding k(3,4) merge_adaptive_halves [OF halves(1) halves(2) [unfolded not_le [symmetric]] cuts]
      using lens by simp
    ultimately show ?thesis by blast
  qed
qed

lemma with_buffer_store:
  assumes "body (length mem) len (mem @ map (fresh env) [0..<len]) = Some mem'"
    and "touched f l (length mem) (length mem + len) (mem @ map (fresh env) [0..<len]) mem'" "f \<le> l" "l \<le> length mem"
  shows "with_buffer env len body mem = Some (store f (segment mem' f l) mem)"
proof -
  have len: "length mem' = length mem + len" using touched_length [OF assms(2)] by simp
  have "take (length mem) mem' = store f (segment mem' f l) mem"
  proof (rule nth_equalityI)
    fix i assume "i < length (take (length mem) mem')"
    then have "i < length mem" using len by simp
    then show "take (length mem) mem' ! i = store f (segment mem' f l) mem ! i"
      using assms(2-4) len by (cases "f \<le> i \<and> i < l") (auto simp: store_nth touched_def nth_append)
  qed (use assms len in simp)
  then show ?thesis using assms(1) by (simp add: with_buffer_def)
qed

lemma segment_prefix: "l \<le> length mem \<Longrightarrow> segment (mem @ ws) f l = segment mem f l"
  by (simp add: segment_def)

lemma inplace_merge_sorts:
  assumes "ascending lt (segment mem f m)" "ascending lt (segment mem m l)" "f \<le> m" "m \<le> l" "l \<le> length mem"
  shows "\<exists>zs. inplace_merge c kind env lt f m l mem = Some (store f zs mem) \<and>
    sorted_of lt (segment mem f m @ segment mem m l) zs"
proof -
  define len where "len = allocate_buffer (most env) (malloc env) (l - f)"
  let ?mem = "mem @ map (fresh env) [0..<len]"
  consider (empty) "f = m \<or> m = l" | (none) "f \<noteq> m" "m \<noteq> l" "len = 0" | (some) "f \<noteq> m" "m \<noteq> l" "0 < len" by blast
  then show ?thesis
  proof cases
    case empty
    then show ?thesis
      using assms by (intro exI [of _ "segment mem f l"]) (auto simp: inplace_merge_def sorted_of_def store_segment)
  next
    case none
    then show ?thesis
      using merge_without_buffer_sorts [OF assms, of c] by (simp add: inplace_merge_def inplace_merge_aux_def len_def Let_def)
  next
    case some
    obtain mem' where mem': "merge_adaptive c kind lt f m l (m - f) (l - m) (length mem) len ?mem = Some mem'"
      "sorted_of lt (segment mem f m @ segment mem m l) (segment mem' f l)" "touched f l (length mem) (length mem + len) ?mem mem'"
      using merge_adaptive_sorts [of ?mem f m l len "length mem" c kind] assms some(3) by (auto simp: segment_prefix)
    have "with_buffer env len (merge_adaptive c kind lt f m l (m - f) (l - m)) mem = Some (store f (segment mem' f l) mem)"
      using assms mem'(1) by (intro with_buffer_store [OF _ mem'(3)]) simp_all
    then show ?thesis
      using some mem'(2) by (auto simp: inplace_merge_def inplace_merge_aux_def len_def [symmetric] Let_def)
  qed
qed

end

text \<open>The buffer is at most as long as the range, and empty only when nothing could be had.\<close>

lemma allocate_buffer_given:
  "allocate_buffer k given len \<le> len \<and> (allocate_buffer k given len = 0 \<or> given (allocate_buffer k given len))"
proof -
  have "allocate_loop given n \<le> n \<and> (allocate_loop given n = 0 \<or> given (allocate_loop given n))" for n
  proof (induction given n rule: allocate_loop.induct)
    case (1 given n)
    show ?case
    proof (cases "n > 0 \<and> \<not> given n")
      case True
      then have "allocate_loop given n = allocate_loop given (n div 2)" by (subst allocate_loop.simps) simp
      then show ?thesis using 1 [OF True] div_le_dividend [of n 2] by (auto intro: order_trans)
    qed (subst (1 2 3) allocate_loop.simps, auto)
  qed
  then show ?thesis by (auto simp: allocate_buffer_def intro: order_trans less_imp_le)
qed

end
