(* ===== verification/Stl_Stable.thy ===== *)
theory Stl_Stable
  imports Stl_Merge
begin

text \<open>
  \<^verbatim>\<open>stable_sort\<close> (\<^verbatim>\<open>stl/_algo.c\<close>): a merge sort that starts from sorted chunks of seven elements and merges
  them to and fro between the range and a temporary buffer; when the buffer is too small the
  range is divided first, and without a buffer everything happens in place. A call that may
  fault and may not end gives a fault or a memory, or nothing.
\<close>

section \<open>The code\<close>

definition bindR :: "('a result) option \<Rightarrow> ('a \<Rightarrow> ('b result) option) \<Rightarrow> ('b result) option" where
  "bindR r f = Option.bind r (\<lambda>x. case x of Inl e \<Rightarrow> Some (Inl e) | Inr a \<Rightarrow> f a)"

lemma bindR_simps [simp]: "bindR (Some (Inr a)) f = f a" "bindR (Some (Inl e)) f = Some (Inl e)" "bindR None f = None"
  by (simp_all add: bindR_def)

lemma bindR_mono [partial_function_mono]:
  assumes "monotone (fun_ord option_ord) option_ord B" "\<And>y. monotone (fun_ord option_ord) option_ord (\<lambda>f. C y f)"
  shows "monotone (fun_ord option_ord) option_ord (\<lambda>f. bindR (B f) (\<lambda>y. C y f))"
  unfolding bindR_def
proof (rule bind_mono [OF assms(1)])
  fix y
  show "monotone (fun_ord option_ord) option_ord (\<lambda>f. case y of Inl e \<Rightarrow> Some (Inl e) | Inr a \<Rightarrow> C a f)"
    using assms(2) by (cases y) (simp_all add: monotone_def option.leq_refl)
qed

partial_function (option) inplace_stable_sort ::
    "rotate_category \<Rightarrow> ('a \<Rightarrow> 'a \<Rightarrow> bool) \<Rightarrow> nat \<Rightarrow> nat \<Rightarrow> 'a list \<Rightarrow> ('a list result) option" where
  "inplace_stable_sort c lt first fin mem =
     (if fin - first < 15 then Some (insertion_sort lt first fin mem)
      else let middle = first + (fin - first) div 2 in
        bindR (inplace_stable_sort c lt first middle mem) (\<lambda>mem.
        bindR (inplace_stable_sort c lt middle fin mem) (\<lambda>mem.
        map_option Inr (merge_without_buffer c lt first middle fin (middle - first) (fin - middle) mem))))"

partial_function (option) merge_sort_loop ::
    "copy_kind \<Rightarrow> ('a \<Rightarrow> 'a \<Rightarrow> bool) \<Rightarrow> nat \<Rightarrow> nat \<Rightarrow> nat \<Rightarrow> nat \<Rightarrow> 'a list \<Rightarrow> 'a list option" where
  "merge_sort_loop kind lt first fin result step_size mem =
     (let two_step = 2 * step_size in
      if fin - first \<ge> two_step then
        let r = std_merge kind lt first (first + step_size) (first + step_size) (first + two_step) result mem
        in merge_sort_loop kind lt (first + two_step) fin (fst r) step_size (snd r)
      else
        let step_size = std_min (<) (fin - first) step_size
        in Some (snd (std_merge kind lt first (first + step_size) (first + step_size) fin result mem)))"

definition stl_chunk_size :: nat where
  "stl_chunk_size = 7"

partial_function (option) chunk_insertion_sort ::
    "('a \<Rightarrow> 'a \<Rightarrow> bool) \<Rightarrow> nat \<Rightarrow> nat \<Rightarrow> nat \<Rightarrow> 'a list \<Rightarrow> ('a list result) option" where
  "chunk_insertion_sort lt first fin chunk_size mem =
     (if fin - first \<ge> chunk_size then
        bindR (Some (insertion_sort lt first (first + chunk_size) mem)) (\<lambda>mem.
        chunk_insertion_sort lt (first + chunk_size) fin chunk_size mem)
      else Some (insertion_sort lt first fin mem))"

partial_function (option) merge_sort_rounds ::
    "copy_kind \<Rightarrow> ('a \<Rightarrow> 'a \<Rightarrow> bool) \<Rightarrow> nat \<Rightarrow> nat \<Rightarrow> nat \<Rightarrow> nat \<Rightarrow> 'a list \<Rightarrow> 'a list option" where
  "merge_sort_rounds kind lt first fin buffer step_size mem =
     (let len = fin - first; buffer_last = buffer + len in
      if step_size < len then
        Option.bind (merge_sort_loop kind lt first fin buffer step_size mem) (\<lambda>mem.
        Option.bind (merge_sort_loop kind lt buffer buffer_last first (step_size * 2) mem) (\<lambda>mem.
        merge_sort_rounds kind lt first fin buffer (step_size * 2 * 2) mem))
      else Some mem)"

definition merge_sort_with_buffer ::
    "copy_kind \<Rightarrow> ('a \<Rightarrow> 'a \<Rightarrow> bool) \<Rightarrow> nat \<Rightarrow> nat \<Rightarrow> nat \<Rightarrow> 'a list \<Rightarrow> ('a list result) option" where
  "merge_sort_with_buffer kind lt first fin buffer mem =
     bindR (chunk_insertion_sort lt first fin stl_chunk_size mem) (\<lambda>mem.
     map_option Inr (merge_sort_rounds kind lt first fin buffer stl_chunk_size mem))"

partial_function (option) stable_sort_adaptive ::
    "rotate_category \<Rightarrow> copy_kind \<Rightarrow> ('a \<Rightarrow> 'a \<Rightarrow> bool) \<Rightarrow> nat \<Rightarrow> nat \<Rightarrow> nat \<Rightarrow> nat \<Rightarrow> 'a list \<Rightarrow> ('a list result) option" where
  "stable_sort_adaptive c kind lt first fin buffer buffer_size mem =
     (let len = (fin - first + 1) div 2; middle = first + len in
      bindR
        (if len > buffer_size then
           bindR (stable_sort_adaptive c kind lt first middle buffer buffer_size mem) (\<lambda>mem.
           stable_sort_adaptive c kind lt middle fin buffer buffer_size mem)
         else
           bindR (merge_sort_with_buffer kind lt first middle buffer mem) (\<lambda>mem.
           merge_sort_with_buffer kind lt middle fin buffer mem))
        (\<lambda>mem. map_option Inr (merge_adaptive c kind lt first middle fin (middle - first) (fin - middle) buffer buffer_size mem)))"

definition stable_sort :: "rotate_category \<Rightarrow> copy_kind \<Rightarrow> 'a heap_env \<Rightarrow> ('a \<Rightarrow> 'a \<Rightarrow> bool) \<Rightarrow> nat \<Rightarrow> nat \<Rightarrow> 'a list \<Rightarrow> ('a list result) option" where
  "stable_sort c kind env lt first fin mem =
     (let len = allocate_buffer (most env) (malloc env) (fin - first) in
      if len = 0 then inplace_stable_sort c lt first fin mem
      else map_option (\<lambda>r. andThen r (\<lambda>m. Inr (take (length mem) m)))
             (stable_sort_adaptive c kind lt first fin (length mem) len (mem @ map (fresh env) [0..<len])))"

section \<open>Sorted runs\<close>

text \<open>A list that consists of sorted pieces of the given length (the last one may be shorter).\<close>

definition runs :: "('a \<Rightarrow> 'a \<Rightarrow> bool) \<Rightarrow> nat \<Rightarrow> 'a list \<Rightarrow> bool" where
  "runs lt s xs \<longleftrightarrow> (\<forall>k. ascending lt (take s (drop (k * s) xs)))"

lemma runs_append:
  assumes "length xs = s"
  shows "runs lt s (xs @ ys) \<longleftrightarrow> ascending lt xs \<and> runs lt s ys"
proof
  assume runs: "runs lt s (xs @ ys)"
  have "ascending lt (take s (drop (k * s) ys))" for k
    using runs [unfolded runs_def, THEN spec, of "Suc k"] assms by simp
  moreover have "ascending lt xs" using runs [unfolded runs_def, THEN spec, of 0] assms by simp
  ultimately show "ascending lt xs \<and> runs lt s ys" by (simp add: runs_def)
next
  assume r: "ascending lt xs \<and> runs lt s ys"
  show "runs lt s (xs @ ys)" unfolding runs_def
  proof
    fix k show "ascending lt (take s (drop (k * s) (xs @ ys)))"
      using r assms by (cases k) (simp_all add: runs_def)
  qed
qed

lemma runs_short:
  assumes "length xs \<le> s"
  shows "runs lt s xs \<longleftrightarrow> ascending lt xs"
proof
  assume "runs lt s xs"
  then show "ascending lt xs" using assms unfolding runs_def by (metis drop_0 mult_0 take_all)
next
  assume asc: "ascending lt xs"
  show "runs lt s xs" unfolding runs_def
  proof
    fix k show "ascending lt (take s (drop (k * s) xs))"
      using asc assms by (cases k) simp_all
  qed
qed

lemma runs_tail:
  assumes "runs lt s xs" "length xs \<le> 2 * s"
  shows "ascending lt (take s xs)" "ascending lt (drop s xs)"
proof -
  show "ascending lt (take s xs)" using assms(1) [unfolded runs_def, THEN spec, of 0] by simp
  show "ascending lt (drop s xs)" using assms(1) [unfolded runs_def, THEN spec, of 1] assms(2) by simp
qed

lemma touched_room: "touched f l b e m m' \<Longrightarrow> e \<le> e' \<Longrightarrow> touched f l b e' m m'"
  by (auto simp: touched_def)

context strict_weak_order begin

lemma insertion_sort_store:
  assumes "f \<le> l" "l \<le> length mem"
  shows "\<exists>ys. insertion_sort lt f l mem = Inr (store f ys mem) \<and> sorted_of lt (segment mem f l) ys"
proof -
  obtain ys where ys: "insertion_sort lt f l mem = Inr (take f mem @ ys @ drop l mem)" "ascending lt ys" "stable lt (segment mem f l) ys"
    using insertion_sort_sorts [of "take f mem" "segment mem f l" "drop l mem"] segment_split [OF assms] assms by auto
  have "length ys = l - f" using stable_length [OF ys(3)] assms by simp
  then have "store f ys mem = take f mem @ ys @ drop l mem" using assms by (simp add: store_def)
  then show ?thesis using ys unfolding sorted_of_def by metis
qed

lemma chunk_insertion_sort_runs:
  assumes "0 < s" "f \<le> l" "l \<le> length mem"
  shows "\<exists>zs. chunk_insertion_sort lt f l s mem = Some (Inr (store f zs mem)) \<and> stable lt (segment mem f l) zs \<and> runs lt s zs"
  using assms(2,3)
proof (induction "l - f" arbitrary: f mem rule: less_induct)
  case less
  show ?case
  proof (cases "s \<le> l - f")
    case True
    have fs: "f + s \<le> l" "f + s \<le> length mem" "l - (f + s) < l - f" using True less.prems assms(1) by linarith+
    obtain ys where ys: "insertion_sort lt f (f + s) mem = Inr (store f ys mem)" "sorted_of lt (segment mem f (f + s)) ys"
      using insertion_sort_store [of f "f + s" mem] fs by auto
    have ly: "length ys = s" using sorted_of_length [OF ys(2)] fs by simp
    have rest: "segment (store f ys mem) (f + s) l = segment mem (f + s) l"
      using fs ly by (intro segment_store_apart) auto
    obtain zs where zs: "chunk_insertion_sort lt (f + s) l s (store f ys mem) = Some (Inr (store (f + s) zs (store f ys mem)))"
      "stable lt (segment mem (f + s) l) zs" "runs lt s zs"
      using less.hyps [of "f + s" "store f ys mem"] fs less.prems assms(1) ly rest by auto
    have "length zs = l - (f + s)" using stable_length [OF zs(2)] less.prems by simp
    then have "store (f + s) zs (store f ys mem) = store f (ys @ zs) mem"
      using store_append [of f ys zs mem] ly fs less.prems by simp
    moreover have "stable lt (segment mem f l) (ys @ zs)"
      using stable_append [of lt "segment mem f (f + s)" ys "segment mem (f + s) l" zs] ys(2) zs(2) fs
        segment_append [of f "f + s" l mem] by (simp add: sorted_of_def)
    moreover have "chunk_insertion_sort lt f l s mem = chunk_insertion_sort lt (f + s) l s (store f ys mem)"
      using True ys(1) by (subst chunk_insertion_sort.simps) simp
    ultimately show ?thesis using zs(1,3) ys(2) ly by (auto simp: runs_append sorted_of_def)
  next
    case False
    then obtain ys where ys: "insertion_sort lt f l mem = Inr (store f ys mem)" "sorted_of lt (segment mem f l) ys"
      using insertion_sort_store [of f l mem] less.prems by auto
    then show ?thesis
      using False sorted_of_length [OF ys(2)] less.prems
      by (subst chunk_insertion_sort.simps) (auto simp: sorted_of_def runs_short)
  qed
qed

lemma merge_sort_loop_runs:
  assumes "0 < s" "f \<le> l" "l \<le> length mem" "r + (l - f) \<le> length mem" "r + (l - f) \<le> f \<or> l \<le> r" "runs lt s (segment mem f l)"
  shows "\<exists>zs. merge_sort_loop kind lt f l r s mem = Some (store r zs mem) \<and> stable lt (segment mem f l) zs \<and> runs lt (2 * s) zs"
  using assms(2-)
proof (induction "l - f" arbitrary: f r mem rule: less_induct)
  case less
  note pos = less.prems(1-4)
  show ?case
  proof (cases "2 * s \<le> l - f")
    case True
    have fs: "f + 2 * s \<le> l" "f + 2 * s \<le> length mem" "r + s + s \<le> length mem" "l - (f + 2 * s) < l - f"
      "r + 2 * s + (l - (f + 2 * s)) \<le> length mem" "r + 2 * s + (l - (f + 2 * s)) \<le> f + 2 * s \<or> l \<le> r + 2 * s"
      using True pos assms(1) by linarith+
    let ?A = "segment mem f (f + s)" and ?B = "segment mem (f + s) (f + 2 * s)" and ?C = "segment mem (f + 2 * s) l"
    have seg: "segment mem f l = ?A @ ?B @ ?C"
      using fs segment_append [of f "f + s" l mem] segment_append [of "f + s" "f + 2 * s" l mem] by simp
    have r: "ascending lt ?A" "ascending lt ?B" "runs lt s ?C"
      using less.prems(5) fs unfolding seg by (simp_all add: runs_append)
    have "f + s \<le> r \<or> r + s + s \<le> f" "f + 2 * s \<le> r \<or> r + s \<le> f + s" using True pos by linarith+
    then obtain zs where zs: "std_merge kind lt f (f + s) (f + s) (f + 2 * s) r mem = (r + 2 * s, store r zs mem)" "sorted_of lt (?A @ ?B) zs"
      using merge_sorts [of mem f "f + s" "f + s" "f + 2 * s" r kind] r(1,2) fs by (auto simp: mult_2 add.assoc)
    have lz: "length zs = 2 * s" using sorted_of_length [OF zs(2)] fs by simp
    have rest: "segment (store r zs mem) (f + 2 * s) l = ?C"
      using fs pos lz by (intro segment_store_apart) auto
    obtain ws where ws: "merge_sort_loop kind lt (f + 2 * s) l (r + 2 * s) s (store r zs mem) = Some (store (r + 2 * s) ws (store r zs mem))"
      "stable lt ?C ws" "runs lt (2 * s) ws"
      using less.hyps [of "f + 2 * s" "store r zs mem" "r + 2 * s"] fs pos assms(1) lz rest r(3) by auto
    have lw: "length ws = l - (f + 2 * s)" using stable_length [OF ws(2)] pos by simp
    have "store (r + 2 * s) ws (store r zs mem) = store r (zs @ ws) mem"
      using store_append [of r zs ws mem] lz lw True pos by simp
    moreover have "stable lt (segment mem f l) (zs @ ws)"
      using stable_append [of lt "?A @ ?B" zs ?C ws] zs(2) ws(2) unfolding seg by (simp add: sorted_of_def)
    moreover have "runs lt (2 * s) (zs @ ws)" using lz ws(3) zs(2) by (simp add: runs_append sorted_of_def)
    ultimately show ?thesis
      using True zs(1) ws(1) by (subst merge_sort_loop.simps) (auto simp: Let_def)
  next
    case False
    define t where "t = min (l - f) s"
    have t: "f + t \<le> l" "std_min (<) (l - f) s = t" using pos by (auto simp: t_def std_min_def)
    let ?A = "segment mem f (f + t)" and ?B = "segment mem (f + t) l"
    have seg: "segment mem f l = ?A @ ?B" using t segment_append [of f "f + t" l mem] by simp
    have lens: "length ?A = t" "length ?B = l - (f + t)" "length (segment mem f l) = l - f" using t(1) pos by simp_all
    have "ascending lt (take s (?A @ ?B))" "ascending lt (drop s (?A @ ?B))"
      using runs_tail [OF less.prems(5)] lens(3) False unfolding seg by simp_all
    then have "ascending lt ?A" "ascending lt ?B"
      using lens(1,2) pos by (cases "s \<le> l - f"; simp add: t_def)+
    moreover have "f + t \<le> r \<or> r + t + (l - (f + t)) \<le> f" "l \<le> r \<or> r + t \<le> f + t" using t(1) pos by linarith+
    ultimately obtain zs where zs: "std_merge kind lt f (f + t) (f + t) l r mem = (r + t + (l - (f + t)), store r zs mem)" "sorted_of lt (?A @ ?B) zs"
      using merge_sorts [of mem f "f + t" "f + t" l r kind] t(1) pos by auto
    have "length zs \<le> 2 * s" using sorted_of_length [OF zs(2)] lens(3) False unfolding seg by simp
    then show ?thesis
      using zs False t(2) by (subst merge_sort_loop.simps) (auto simp: Let_def seg sorted_of_def runs_short)
  qed
qed

section \<open>The sorts\<close>

lemma merge_sort_rounds_sorts:
  assumes "0 < s" "f \<le> l" "l \<le> length mem" "b + (l - f) \<le> length mem" "b + (l - f) \<le> f \<or> l \<le> b" "runs lt s (segment mem f l)"
  shows "\<exists>mem'. merge_sort_rounds kind lt f l b s mem = Some mem' \<and>
    sorted_of lt (segment mem f l) (segment mem' f l) \<and> touched f l b (b + (l - f)) mem mem'"
  using assms(1,3-6)
proof (induction "l - f - s" arbitrary: s mem rule: less_induct)
  case less
  note pos = less.prems(1-4) and fl = assms(2)
  show ?case
  proof (cases "s < l - f")
    case True
    obtain zs where zs: "merge_sort_loop kind lt f l b s mem = Some (store b zs mem)" "stable lt (segment mem f l) zs" "runs lt (2 * s) zs"
      using merge_sort_loop_runs [of s f l mem b kind] less.prems fl by auto
    define m1 where "m1 = store b zs mem"
    have lz: "b + length zs = b + (l - f)" using stable_length [OF zs(2)] pos by simp
    have len1: "length m1 = length mem" using lz pos by (simp add: m1_def)
    have s1: "segment m1 b (b + (l - f)) = zs" using segment_store [of b zs mem] lz pos by (simp add: m1_def)
    obtain ws where ws: "merge_sort_loop kind lt b (b + (l - f)) f (2 * s) m1 = Some (store f ws m1)" "stable lt zs ws" "runs lt (2 * (2 * s)) ws"
      using merge_sort_loop_runs [of "2 * s" b "b + (l - f)" m1 f kind, OF _ le_add1] zs(3) s1 pos fl len1 by auto
    define m2 where "m2 = store f ws m1"
    have lw: "f + length ws = l" using stable_length [OF ws(2)] lz fl by simp
    have len2: "length m2 = length mem" using lw pos len1 by (simp add: m2_def)
    have s2: "segment m2 f l = ws" using segment_store [of f ws m1] lw pos len1 by (simp add: m2_def)
    have dec: "l - f - 2 * (2 * s) < l - f - s" using True pos(1) by linarith
    obtain mem' where mem': "merge_sort_rounds kind lt f l b (2 * (2 * s)) m2 = Some mem'" "sorted_of lt ws (segment mem' f l)"
      "touched f l b (b + (l - f)) m2 mem'"
      using less.hyps [OF dec, of m2] True pos ws(3) s2 len2 by auto
    have "sorted_of lt (segment mem f l) (segment mem' f l)"
      using mem'(2) stable_trans [OF zs(2) stable_trans [OF ws(2)]] by (simp add: sorted_of_def)
    moreover have "touched f l b (b + (l - f)) mem m1" "touched f l b (b + (l - f)) m1 m2"
      using lz lw pos len1 unfolding m2_def by (auto simp: m1_def intro!: touched_store)
    then have "touched f l b (b + (l - f)) mem mem'" using mem'(3) by (blast intro: touched_trans)
    moreover have "merge_sort_rounds kind lt f l b s mem = Some mem'"
      using True zs(1) ws(1) mem'(1) by (subst merge_sort_rounds.simps) (simp add: Let_def m1_def m2_def mult.commute)
    ultimately show ?thesis by blast
  next
    case False
    then have "ascending lt (segment mem f l)" using less.prems(5) pos by (simp add: runs_short)
    then show ?thesis using False by (subst merge_sort_rounds.simps) (simp add: sorted_of_def touched_def)
  qed
qed

lemma merge_sort_with_buffer_sorts:
  assumes "f \<le> l" "l \<le> length mem" "b + (l - f) \<le> length mem" "b + (l - f) \<le> f \<or> l \<le> b"
  shows "\<exists>mem'. merge_sort_with_buffer kind lt f l b mem = Some (Inr mem') \<and>
    sorted_of lt (segment mem f l) (segment mem' f l) \<and> touched f l b (b + (l - f)) mem mem'"
proof -
  obtain zs where zs: "chunk_insertion_sort lt f l stl_chunk_size mem = Some (Inr (store f zs mem))"
      "stable lt (segment mem f l) zs" "runs lt stl_chunk_size zs"
    using chunk_insertion_sort_runs [of stl_chunk_size f l mem] assms by (auto simp: stl_chunk_size_def)
  have lz: "f + length zs = l" using stable_length [OF zs(2)] assms by simp
  have s: "segment (store f zs mem) f l = zs" using segment_store [of f zs mem] lz assms by simp
  obtain mem' where "merge_sort_rounds kind lt f l b stl_chunk_size (store f zs mem) = Some mem'"
      "sorted_of lt zs (segment mem' f l)" "touched f l b (b + (l - f)) (store f zs mem) mem'"
    using merge_sort_rounds_sorts [of stl_chunk_size f l "store f zs mem" b kind] zs(3) s lz assms by (auto simp: stl_chunk_size_def)
  moreover have "touched f l b (b + (l - f)) mem (store f zs mem)" using lz assms by (auto intro!: touched_store)
  ultimately show ?thesis
    using zs(1) stable_trans [OF zs(2)] touched_trans by (fastforce simp: merge_sort_with_buffer_def sorted_of_def)
qed

lemma sorted_of_halves:
  assumes "sorted_of lt xs xs'" "sorted_of lt ys ys'" "sorted_of lt (xs' @ ys') zs"
  shows "sorted_of lt (xs @ ys) zs"
  using assms stable_trans [OF stable_append [of lt xs xs' ys ys']] by (simp add: sorted_of_def)

lemma sort_halves:
  assumes "f \<le> m" "m \<le> l" "l \<le> length mem" "0 < n" "b + n \<le> length mem" "b + n \<le> f \<or> l \<le> b"
    and "sorted_of lt (segment mem f m) (segment m1 f m)" "touched f m b (b + n) mem m1"
    and "sorted_of lt (segment m1 m l) (segment m2 m l)" "touched m l b (b + n) m1 m2"
  shows "\<exists>mem'. merge_adaptive c kind lt f m l (m - f) (l - m) b n m2 = Some mem' \<and>
    sorted_of lt (segment mem f l) (segment mem' f l) \<and> touched f l b (b + n) mem mem'"
proof -
  have len: "length m2 = length mem" using touched_length [OF assms(8)] touched_length [OF assms(10)] by simp
  have s1: "segment m1 m l = segment mem m l" using touched_segment [OF assms(8), of l m] assms(1-6) by auto
  have s2: "segment m2 f m = segment m1 f m" using touched_segment [OF assms(10), of m f] assms(1-6) by auto
  obtain mem' where mem': "merge_adaptive c kind lt f m l (m - f) (l - m) b n m2 = Some mem'"
      "sorted_of lt (segment m1 f m @ segment m2 m l) (segment mem' f l)" "touched f l b (b + n) m2 mem'"
    using merge_adaptive_sorts [of m2 f m l n b c kind] assms(1-7,9) s2 len by (auto simp: sorted_of_def)
  have "sorted_of lt (segment mem f l) (segment mem' f l)"
    using sorted_of_halves [OF assms(7,9) mem'(2)] segment_append [of f m l mem] assms(1,2) s1 by simp
  moreover have "touched f l b (b + n) mem mem'"
    using touched_trans [OF touched_widen [OF assms(8)] touched_trans [OF touched_widen [OF assms(10)] mem'(3)]] assms(1,2) by simp
  ultimately show ?thesis using mem'(1) by blast
qed

lemma stable_sort_adaptive_sorts:
  assumes "f \<le> l" "l \<le> length mem" "0 < n" "b + n \<le> length mem" "b + n \<le> f \<or> l \<le> b"
  shows "\<exists>mem'. stable_sort_adaptive c kind lt f l b n mem = Some (Inr mem') \<and>
    sorted_of lt (segment mem f l) (segment mem' f l) \<and> touched f l b (b + n) mem mem'"
  using assms
proof (induction "l - f" arbitrary: f l mem rule: less_induct)
  case less
  note pos = less.prems
  define m where "m = f + (l - f + 1) div 2"
  have m: "f \<le> m" "m \<le> l" "m - f = (l - f + 1) div 2" "l - m \<le> m - f" using pos(1) by (auto simp: m_def)
  have b: "b + n \<le> f \<or> m \<le> b" "b + n \<le> m \<or> l \<le> b" using pos(5) m by linarith+
  have "\<exists>m1 m2. stable_sort_adaptive c kind lt f l b n mem =
        map_option Inr (merge_adaptive c kind lt f m l (m - f) (l - m) b n m2) \<and>
      sorted_of lt (segment mem f m) (segment m1 f m) \<and> touched f m b (b + n) mem m1 \<and>
      sorted_of lt (segment m1 m l) (segment m2 m l) \<and> touched m l b (b + n) m1 m2"
  proof (cases "n < m - f")
    case True
    then have dec: "m - f < l - f" "l - m < l - f" using pos(3) m by linarith+
    obtain m1 where m1: "stable_sort_adaptive c kind lt f m b n mem = Some (Inr m1)"
        "sorted_of lt (segment mem f m) (segment m1 f m)" "touched f m b (b + n) mem m1"
      using less.hyps [OF dec(1), of mem] m pos b by auto
    obtain m2 where m2: "stable_sort_adaptive c kind lt m l b n m1 = Some (Inr m2)"
        "sorted_of lt (segment m1 m l) (segment m2 m l)" "touched m l b (b + n) m1 m2"
      using less.hyps [OF dec(2), of m1] m pos b touched_length [OF m1(3)] by auto
    have "stable_sort_adaptive c kind lt f l b n mem = map_option Inr (merge_adaptive c kind lt f m l (m - f) (l - m) b n m2)"
      using True m1(1) m2(1) by (subst stable_sort_adaptive.simps) (simp add: Let_def m_def)
    then show ?thesis using m1 m2 by blast
  next
    case False
    have room: "b + (m - f) \<le> b + n" "b + (l - m) \<le> b + n" using False m(4) by linarith+
    obtain m1 where m1: "merge_sort_with_buffer kind lt f m b mem = Some (Inr m1)"
        "sorted_of lt (segment mem f m) (segment m1 f m)" "touched f m b (b + (m - f)) mem m1"
      using merge_sort_with_buffer_sorts [of f m mem b kind] m(1,2) pos b room by auto
    obtain m2 where m2: "merge_sort_with_buffer kind lt m l b m1 = Some (Inr m2)"
        "sorted_of lt (segment m1 m l) (segment m2 m l)" "touched m l b (b + (l - m)) m1 m2"
      using merge_sort_with_buffer_sorts [of m l m1 b kind] m(1,2) pos b room touched_length [OF m1(3)] by auto
    have "stable_sort_adaptive c kind lt f l b n mem = map_option Inr (merge_adaptive c kind lt f m l (m - f) (l - m) b n m2)"
      using False m1(1) m2(1) by (subst stable_sort_adaptive.simps) (simp add: Let_def m_def)
    then show ?thesis using m1(2) m2(2) touched_room [OF m1(3) room(1)] touched_room [OF m2(3) room(2)] by blast
  qed
  then obtain m1 m2 where mm: "stable_sort_adaptive c kind lt f l b n mem =
        map_option Inr (merge_adaptive c kind lt f m l (m - f) (l - m) b n m2)"
      "sorted_of lt (segment mem f m) (segment m1 f m)" "touched f m b (b + n) mem m1"
      "sorted_of lt (segment m1 m l) (segment m2 m l)" "touched m l b (b + n) m1 m2" by blast
  then show ?case using sort_halves [OF m(1,2) pos(2-5) mm(2-5), of c kind] by auto
qed

lemma inplace_stable_sort_sorts:
  assumes "f \<le> l" "l \<le> length mem"
  shows "\<exists>zs. inplace_stable_sort c lt f l mem = Some (Inr (store f zs mem)) \<and> sorted_of lt (segment mem f l) zs"
  using assms
proof (induction "l - f" arbitrary: f l mem rule: less_induct)
  case less
  note pos = less.prems
  show ?case
  proof (cases "l - f < 15")
    case True
    then show ?thesis using insertion_sort_store [OF pos] by (subst inplace_stable_sort.simps) auto
  next
    case False
    define m where "m = f + (l - f) div 2"
    have m: "f \<le> m" "m \<le> l" "m - f < l - f" "l - m < l - f" using False by (auto simp: m_def)
    obtain xs where xs: "inplace_stable_sort c lt f m mem = Some (Inr (store f xs mem))" "sorted_of lt (segment mem f m) xs"
      using less.hyps [OF m(3), of mem] m pos by auto
    define m1 where "m1 = store f xs mem"
    have lx: "f + length xs = m" using sorted_of_length [OF xs(2)] m pos by simp
    have len1: "length m1 = length mem" using lx m pos by (simp add: m1_def)
    have s1: "segment m1 m l = segment mem m l" "segment m1 f m = xs"
      using segment_store_apart [of f xs mem l m] segment_store [of f xs mem] lx m pos by (simp_all add: m1_def)
    obtain ys where ys: "inplace_stable_sort c lt m l m1 = Some (Inr (store m ys m1))" "sorted_of lt (segment mem m l) ys"
      using less.hyps [OF m(4), of m1] m pos len1 s1 by auto
    define m2 where "m2 = store m ys m1"
    have ly: "m + length ys = l" using sorted_of_length [OF ys(2)] m pos by simp
    have s2: "segment m2 f m = xs" "segment m2 m l = ys"
      using segment_store_apart [of m ys m1 m f] segment_store [of m ys m1] s1 ly m pos len1 by (simp_all add: m2_def)
    have "m2 = store f (xs @ ys) mem" using store_append [of f xs ys mem] lx ly pos by (simp add: m2_def m1_def)
    moreover obtain zs where zs: "merge_without_buffer c lt f m l (m - f) (l - m) m2 = Some (store f zs m2)" "sorted_of lt (xs @ ys) zs"
      using merge_without_buffer_sorts [of m2 f m l c] s2 xs(2) ys(2) m pos lx ly len1 by (auto simp: sorted_of_def m2_def)
    ultimately have "store f zs m2 = store f zs mem"
      using sorted_of_length [OF zs(2)] lx ly pos store_again [of f "xs @ ys" mem zs] by simp
    moreover have "inplace_stable_sort c lt f l mem = Some (Inr (store f zs m2))"
      using False xs(1) ys(1) zs(1) by (subst inplace_stable_sort.simps) (simp add: Let_def m_def m1_def m2_def)
    moreover have "sorted_of lt (segment mem f l) zs"
      using sorted_of_halves [OF xs(2) ys(2) zs(2)] segment_append [of f m l mem] m by simp
    ultimately show ?thesis by auto
  qed
qed

lemma stable_sort_sorts:
  assumes "f \<le> l" "l \<le> length mem"
  shows "\<exists>zs. stable_sort c kind env lt f l mem = Some (Inr (store f zs mem)) \<and> sorted_of lt (segment mem f l) zs"
proof -
  define len where "len = allocate_buffer (most env) (malloc env) (l - f)"
  show ?thesis
  proof (cases "len = 0")
    case True
    then show ?thesis using inplace_stable_sort_sorts [OF assms, of c] by (simp add: stable_sort_def len_def Let_def)
  next
    case False
    let ?mem = "mem @ map (fresh env) [0..<len]"
    obtain mem' where mem': "stable_sort_adaptive c kind lt f l (length mem) len ?mem = Some (Inr mem')"
        "sorted_of lt (segment mem f l) (segment mem' f l)" "touched f l (length mem) (length mem + len) ?mem mem'"
      using stable_sort_adaptive_sorts [of f l ?mem len "length mem" c kind] assms False by (auto simp: segment_prefix)
    have "with_buffer env len (\<lambda>_ _ _. Some mem') mem = Some (store f (segment mem' f l) mem)"
      by (rule with_buffer_store [OF _ mem'(3) assms]) simp
    then have "take (length mem) mem' = store f (segment mem' f l) mem" by (simp add: with_buffer_def)
    then show ?thesis using False mem'(1,2) by (auto simp: stable_sort_def len_def [symmetric] Let_def)
  qed
qed

end

text \<open>
  C36. \<^verbatim>\<open>stable_sort\<close> ends without leaving its range, and there is one list, the elements of the range in
  ascending order with equivalent ones in their original order, that it leaves there
  whatever temporary buffer it gets (a full one, a smaller one, none), whatever that
  holds, and for every kind of iterator: the merge sort to and fro, the merges with a small buffer and those in place agree.
\<close>

theorem stable_sort_correct:
  assumes "strict_weak_order lt" "first \<le> fin" "fin \<le> length mem"
  shows "\<exists>zs. ascending lt zs \<and> stable lt (segment mem first fin) zs \<and>
    (\<forall>c kind env. stable_sort c kind env lt first fin mem = Some (Inr (store first zs mem)))"
proof -
  obtain zs where zs: "sorted_of lt (segment mem first fin) zs"
    using strict_weak_order.stable_sort_sorts [OF assms] by blast
  have "stable_sort c kind env lt first fin mem = Some (Inr (store first zs mem))" for c kind env
    using strict_weak_order.stable_sort_sorts [OF assms, of c kind env] strict_weak_order.sorted_of_unique [OF assms(1) zs] by auto
  then show ?thesis using zs by (auto simp: sorted_of_def)
qed

theorem stable_sort_correct_witness:
  "\<exists>zs. ascending (\<lambda>a b. fst a < fst b) zs \<and>
    stable (\<lambda>a b. fst a < fst b) (segment [(2, 1), (1, 2), (2, 3), (1, 4 :: nat)] 0 4) zs \<and>
    (\<forall>c kind env. stable_sort c kind env (\<lambda>a b. fst a < (fst b :: nat)) 0 4 [(2, 1), (1, 2), (2, 3), (1, 4)] =
       Some (Inr (store 0 zs [(2, 1), (1, 2), (2, 3), (1, 4)])))"
  by (rule stable_sort_correct) (unfold_locales, auto)

end
