(* ===== verification/Stl_List.thy ===== *)
theory Stl_List
  imports Stl_Stable
begin

text \<open>
  The doubly linked list of the library (\<^verbatim>\<open>stl/_list.h\<close>, \<^verbatim>\<open>stl/_list.c\<close>), on a store of nodes: every
  node has an address, a next and a previous pointer and, unless it is the header of a list
  object, an element. A list object is the address of its header; the count \<^verbatim>\<open>_M_size\<close> this
  version of the library adds is kept with it. Following a pointer of a node that has been
  given back to the allocator is a fault. Whether two list_objects have equal allocators is a parameter.
\<close>

section \<open>Nodes\<close>

type_synonym loc = nat

record 'a list_heap =
  M_next :: "loc \<Rightarrow> loc option"
  M_prev :: "loc \<Rightarrow> loc option"
  M_data :: "loc \<Rightarrow> 'a option"
  M_size :: "loc \<Rightarrow> 64 word option"
  unused :: loc

definition next_of :: "loc \<Rightarrow> 'a list_heap \<Rightarrow> loc result" where
  "next_of p h = (case M_next h p of None \<Rightarrow> Inl InvalidIterator | Some q \<Rightarrow> Inr q)"

definition prev_of :: "loc \<Rightarrow> 'a list_heap \<Rightarrow> loc result" where
  "prev_of p h = (case M_prev h p of None \<Rightarrow> Inl InvalidIterator | Some q \<Rightarrow> Inr q)"

definition set_next :: "loc \<Rightarrow> loc \<Rightarrow> 'a list_heap \<Rightarrow> 'a list_heap result" where
  "set_next p q h =
     (if M_next h p = None then Inl InvalidIterator else Inr (h\<lparr>M_next := (M_next h)(p \<mapsto> q)\<rparr>))"

definition set_prev :: "loc \<Rightarrow> loc \<Rightarrow> 'a list_heap \<Rightarrow> 'a list_heap result" where
  "set_prev p q h =
     (if M_prev h p = None then Inl InvalidIterator else Inr (h\<lparr>M_prev := (M_prev h)(p \<mapsto> q)\<rparr>))"

definition data_of :: "loc \<Rightarrow> 'a list_heap \<Rightarrow> 'a result" where
  "data_of p h = (case M_data h p of None \<Rightarrow> Inl InvalidIterator | Some x \<Rightarrow> Inr x)"

definition set_data :: "loc \<Rightarrow> 'a \<Rightarrow> 'a list_heap \<Rightarrow> 'a list_heap result" where
  "set_data p x h =
     (if M_data h p = None then Inl InvalidIterator else Inr (h\<lparr>M_data := (M_data h)(p \<mapsto> x)\<rparr>))"

definition size_of :: "loc \<Rightarrow> 'a list_heap \<Rightarrow> 64 word result" where
  "size_of l h = (case M_size h l of None \<Rightarrow> Inl IndeterminateValue | Some n \<Rightarrow> Inr n)"

definition set_size :: "loc \<Rightarrow> 64 word \<Rightarrow> 'a list_heap \<Rightarrow> 'a list_heap" where
  "set_size l n h = h\<lparr>M_size := (M_size h)(l \<mapsto> n)\<rparr>"

text \<open>\<^verbatim>\<open>_M_create_node\<close>: the pointers of a new node are written before they are read; here they point to it.\<close>

definition create_node :: "'a \<Rightarrow> 'a list_heap \<Rightarrow> loc \<times> 'a list_heap" where
  "create_node x h =
     (let p = unused h in
      (p, h\<lparr>M_next := (M_next h)(p \<mapsto> p), M_prev := (M_prev h)(p \<mapsto> p), M_data := (M_data h)(p \<mapsto> x),
            unused := Suc p\<rparr>))"

definition destroy_node :: "loc \<Rightarrow> 'a list_heap \<Rightarrow> 'a list_heap" where
  "destroy_node p h =
     h\<lparr>M_next := (M_next h)(p := None), M_prev := (M_prev h)(p := None), M_data := (M_data h)(p := None)\<rparr>"

definition List_transfer :: "loc \<Rightarrow> loc \<Rightarrow> loc \<Rightarrow> 'a list_heap \<Rightarrow> 'a list_heap result" where
  "List_transfer position first fin h =
     (if position = fin then Inr h else
      andThen (prev_of fin h) (\<lambda>lp.
      andThen (set_next lp position h) (\<lambda>h.
      andThen (prev_of first h) (\<lambda>fp.
      andThen (set_next fp fin h) (\<lambda>h.
      andThen (prev_of position h) (\<lambda>pp.
      andThen (set_next pp first h) (\<lambda>h.
      andThen (prev_of position h) (\<lambda>tmp.
      andThen (prev_of fin h) (\<lambda>lp.
      andThen (set_prev position lp h) (\<lambda>h.
      andThen (prev_of first h) (\<lambda>fp.
      andThen (set_prev fin fp h) (\<lambda>h.
      set_prev first tmp h))))))))))))"

section \<open>List objects\<close>

definition ls_begin :: "loc \<Rightarrow> 'a list_heap \<Rightarrow> loc result" where
  "ls_begin l h = next_of l h"

definition ls_end :: "loc \<Rightarrow> loc" where
  [simp]: "ls_end l = l"

definition ls_empty :: "loc \<Rightarrow> 'a list_heap \<Rightarrow> bool result" where
  "ls_empty l h = andThen (next_of l h) (\<lambda>q. Inr (q = l))"

definition empty_initialize :: "loc \<Rightarrow> 'a list_heap \<Rightarrow> 'a list_heap result" where
  "empty_initialize l h =
     andThen (set_next l l h) (\<lambda>h.
     andThen (next_of l h) (\<lambda>q.
     andThen (set_prev l q h) (\<lambda>h.
     Inr (set_size l 0 h))))"

text \<open>A list object comes into being: its header gets an address and \<^verbatim>\<open>_M_size\<close> is not set yet.\<close>

definition new_header :: "'a list_heap \<Rightarrow> loc \<times> 'a list_heap" where
  "new_header h =
     (let l = unused h in
      (l, h\<lparr>M_next := (M_next h)(l \<mapsto> l), M_prev := (M_prev h)(l \<mapsto> l), M_size := (M_size h)(l := None), unused := Suc l\<rparr>))"

definition List_base :: "'a list_heap \<Rightarrow> (loc \<times> 'a list_heap) result" where
  "List_base h = (let (l, h) = new_header h in andThen (empty_initialize l h) (\<lambda>h. Inr (l, h)))"

definition ls_insert :: "loc \<Rightarrow> loc \<Rightarrow> 'a \<Rightarrow> 'a list_heap \<Rightarrow> (loc \<times> 'a list_heap) result" where
  "ls_insert l pos x h =
     (let (tmp, h) = create_node x h; n = pos in
      andThen (prev_of n h) (\<lambda>p.
      andThen (set_next tmp n h) (\<lambda>h.
      andThen (set_prev tmp p h) (\<lambda>h.
      andThen (set_next p tmp h) (\<lambda>h.
      andThen (set_prev n tmp h) (\<lambda>h.
      andThen (size_of l h) (\<lambda>s.
      Inr (tmp, set_size l (s + 1) h))))))))"

definition ls_erase :: "loc \<Rightarrow> loc \<Rightarrow> 'a list_heap \<Rightarrow> (loc \<times> 'a list_heap) result" where
  "ls_erase l pos h =
     andThen (next_of pos h) (\<lambda>next_node.
     andThen (prev_of pos h) (\<lambda>prev_node.
     andThen (set_next prev_node next_node h) (\<lambda>h.
     andThen (set_prev next_node prev_node h) (\<lambda>h.
       let h = destroy_node pos h in
       andThen (size_of l h) (\<lambda>s.
       Inr (next_node, if s > 0 then set_size l (s - 1) h else h))))))"

definition ls_front :: "loc \<Rightarrow> 'a list_heap \<Rightarrow> 'a result" where
  "ls_front l h = andThen (ls_begin l h) (\<lambda>p. data_of p h)"

definition ls_back :: "loc \<Rightarrow> 'a list_heap \<Rightarrow> 'a result" where
  "ls_back l h = andThen (prev_of (ls_end l) h) (\<lambda>p. data_of p h)"

definition ls_push_front :: "loc \<Rightarrow> 'a \<Rightarrow> 'a list_heap \<Rightarrow> 'a list_heap result" where
  "ls_push_front l x h = andThen (ls_begin l h) (\<lambda>p. andThen (ls_insert l p x h) (\<lambda>(_, h). Inr h))"

definition ls_push_back :: "loc \<Rightarrow> 'a \<Rightarrow> 'a list_heap \<Rightarrow> 'a list_heap result" where
  "ls_push_back l x h = andThen (ls_insert l (ls_end l) x h) (\<lambda>(_, h). Inr h)"

definition ls_pop_front :: "loc \<Rightarrow> 'a list_heap \<Rightarrow> 'a list_heap result" where
  "ls_pop_front l h =
     andThen (size_of l h) (\<lambda>s.
       if s = 0 then Inr h
       else andThen (ls_begin l h) (\<lambda>p. andThen (ls_erase l p h) (\<lambda>(_, h). Inr h)))"

definition ls_pop_back :: "loc \<Rightarrow> 'a list_heap \<Rightarrow> 'a list_heap result" where
  "ls_pop_back l h =
     andThen (size_of l h) (\<lambda>s.
       if s = 0 then Inr h
       else andThen (prev_of (ls_end l) h) (\<lambda>p. andThen (ls_erase l p h) (\<lambda>(_, h). Inr h)))"

text \<open>\<^verbatim>\<open>_M_swap_aux\<close>: the list \<open>x\<close>, which is empty, takes the nodes of \<open>this\<close>.\<close>

definition swap_aux :: "loc \<Rightarrow> loc \<Rightarrow> 'a list_heap \<Rightarrow> 'a list_heap result" where
  "swap_aux this x h =
     andThen (next_of this h) (\<lambda>q.
     andThen (set_next x q h) (\<lambda>h.
     andThen (next_of x h) (\<lambda>q.
     andThen (set_prev q x h) (\<lambda>h.
     andThen (prev_of this h) (\<lambda>q.
     andThen (set_prev x q h) (\<lambda>h.
     andThen (prev_of x h) (\<lambda>q.
     andThen (set_next q x h) (\<lambda>h.
     empty_initialize this h))))))))"

definition swap_sizes :: "loc \<Rightarrow> loc \<Rightarrow> 'a list_heap \<Rightarrow> 'a list_heap result" where
  "swap_sizes this x h =
     andThen (size_of this h) (\<lambda>s. andThen (size_of x h) (\<lambda>t. Inr (set_size x s (set_size this t h))))"

text \<open>The headers are exchanged, then the pointers that lead back to them.\<close>

definition swap_nodes :: "loc \<Rightarrow> loc \<Rightarrow> 'a list_heap \<Rightarrow> 'a list_heap result" where
  "swap_nodes this x h =
     andThen (next_of this h) (\<lambda>tn. andThen (prev_of this h) (\<lambda>tp.
     andThen (next_of x h) (\<lambda>xn. andThen (prev_of x h) (\<lambda>xp.
     andThen (set_next this xn h) (\<lambda>h. andThen (set_prev this xp h) (\<lambda>h.
     andThen (set_next x tn h) (\<lambda>h. andThen (set_prev x tp h) (\<lambda>h.
     andThen (prev_of this h) (\<lambda>a. andThen (prev_of x h) (\<lambda>b.
     andThen (next_of a h) (\<lambda>v. andThen (next_of b h) (\<lambda>w.
     andThen (set_next a w h) (\<lambda>h. andThen (set_next b v h) (\<lambda>h.
     andThen (next_of this h) (\<lambda>a. andThen (next_of x h) (\<lambda>b.
     andThen (prev_of a h) (\<lambda>v. andThen (prev_of b h) (\<lambda>w.
     andThen (set_prev a w h) (\<lambda>h. set_prev b v h)))))))))))))))))))"

definition ls_swap :: "loc \<Rightarrow> loc \<Rightarrow> 'a list_heap \<Rightarrow> 'a list_heap result" where
  "ls_swap this x h =
     andThen (ls_empty x h) (\<lambda>x_empty.
     andThen (ls_empty this h) (\<lambda>this_empty.
       if x_empty \<and> this_empty then Inr h
       else andThen
         (if x_empty then swap_aux this x h
          else if this_empty then swap_aux x this h
          else swap_nodes this x h)
         (swap_sizes this x)))"


section \<open>Chains of nodes\<close>

text \<open>Each node points to the next one, which points back.\<close>

primrec links :: "(loc \<Rightarrow> loc option) \<Rightarrow> (loc \<Rightarrow> loc option) \<Rightarrow> loc list \<Rightarrow> bool" where
  "links f g [] = True"
| "links f g (a # ps) = (links f g ps \<and> (ps \<noteq> [] \<longrightarrow> f a = Some (hd ps) \<and> g (hd ps) = Some a))"

lemma links_append:
  "xs \<noteq> [] \<Longrightarrow> ys \<noteq> [] \<Longrightarrow>
    links f g (xs @ ys) \<longleftrightarrow> links f g xs \<and> links f g ys \<and> f (last xs) = Some (hd ys) \<and> g (hd ys) = Some (last xs)"
  by (induction xs) (auto simp: hd_append)

lemma links_rev: "links f g xs \<longleftrightarrow> links g f (rev xs)"
proof (induction xs)
  case (Cons a xs)
  then show ?case
    using links_append [of "rev xs" "[a]" g f] by (cases "xs = []") (auto simp: last_rev)
qed simp

lemma links_upd_next: "p \<notin> set (butlast xs) \<Longrightarrow> links (f(p := v)) g xs \<longleftrightarrow> links f g xs"
proof (induction xs)
  case (Cons a xs)
  then show ?case by (cases xs) auto
qed simp

lemma links_upd_prev: "p \<notin> set (tl xs) \<Longrightarrow> links f (g(p := v)) xs \<longleftrightarrow> links f g xs"
proof (induction xs)
  case (Cons a xs)
  then show ?case by (cases xs) auto
qed simp

lemma links_cong:
  "(\<And>p. p \<in> set xs \<Longrightarrow> f p = f' p) \<Longrightarrow> (\<And>p. p \<in> set xs \<Longrightarrow> g p = g' p) \<Longrightarrow> links f g xs \<longleftrightarrow> links f' g' xs"
  by (induction xs) auto

lemma last_not_butlast: "distinct xs \<Longrightarrow> xs \<noteq> [] \<Longrightarrow> last xs \<notin> set (butlast xs)"
  by (metis append_butlast_last_id distinct_append not_distinct_conv_prefix)

lemma hd_not_tl: "distinct xs \<Longrightarrow> xs \<noteq> [] \<Longrightarrow> hd xs \<notin> set (tl xs)"
  by (cases xs) auto

text \<open>An address outside a segment, or at the end its pointer leaves, can be written to.\<close>

lemma outside_butlast: "p \<notin> set xs \<Longrightarrow> p \<notin> set (butlast xs)"
  by (auto dest: in_set_butlastD)

lemma outside_tl: "p \<notin> set xs \<Longrightarrow> p \<notin> set (tl xs)"
  by (cases xs) auto

lemma links_upd3:
  assumes "links f g xs" and "a \<notin> set (butlast xs)" "b \<notin> set (butlast xs)" "c \<notin> set (butlast xs)"
    and "d \<notin> set (tl xs)" "e \<notin> set (tl xs)" "k \<notin> set (tl xs)"
  shows "links (f(a := u, b := v, c := w)) (g(d := x, e := y, k := z)) xs"
  using assms by (simp add: links_upd_next links_upd_prev)

section \<open>Lists as they are in the store\<close>

definition holds :: "'a list_heap \<Rightarrow> loc \<Rightarrow> loc list \<Rightarrow> bool" where
  "holds h l ns \<longleftrightarrow>
     distinct (l # ns) \<and> links (M_next h) (M_prev h) (l # ns @ [l]) \<and>
     (\<forall>p \<in> set ns. M_data h p \<noteq> None) \<and> (\<forall>p \<in> set (l # ns). p < unused h)"

lemma holds_node:
  assumes "holds h l (A @ p # B)"
  shows "M_next h p = Some (hd (B @ [l]))" "M_prev h p = Some (last (l # A))" "\<exists>x. M_data h p = Some x"
proof -
  have "links (M_next h) (M_prev h) ((l # A) @ (p # B @ [l]))" using assms by (simp add: holds_def)
  then have "links (M_next h) (M_prev h) (p # B @ [l])" "M_prev h p = Some (last (l # A))"
    using links_append [of "l # A" "p # B @ [l]"] by auto
  then show "M_next h p = Some (hd (B @ [l]))" "M_prev h p = Some (last (l # A))"
    by (cases B; simp)+
  show "\<exists>x. M_data h p = Some x" using assms by (auto simp: holds_def)
qed

lemma holds_header:
  assumes "holds h l ns"
  shows "M_next h l = Some (hd (ns @ [l]))" "M_prev h l = Some (last (l # ns))"
proof -
  have c: "links (M_next h) (M_prev h) (l # ns @ [l])" using assms by (simp add: holds_def)
  then show "M_next h l = Some (hd (ns @ [l]))" by (cases ns) auto
  show "M_prev h l = Some (last (l # ns))" using c links_append [of "l # ns" "[l]"] by auto
qed

lemma holds_position:
  assumes "holds h l (A @ B)"
  shows "M_prev h (hd (B @ [l])) = Some (last (l # A))" "M_next h (last (l # A)) = Some (hd (B @ [l]))"
proof -
  have "links (M_next h) (M_prev h) ((l # A) @ (B @ [l]))" using assms by (simp add: holds_def)
  then show "M_prev h (hd (B @ [l])) = Some (last (l # A))" "M_next h (last (l # A)) = Some (hd (B @ [l]))"
    using links_append [of "l # A" "B @ [l]"] by auto
qed

text \<open>A list is the same in a store that agrees on its nodes.\<close>

lemma holds_frame:
  assumes "holds h l ns" and "\<And>p. p \<in> set (l # ns) \<Longrightarrow> M_next h' p = M_next h p \<and> M_prev h' p = M_prev h p"
    and "\<And>p. p \<in> set ns \<Longrightarrow> M_data h' p = M_data h p" and "unused h \<le> unused h'"
  shows "holds h' l ns"
proof -
  have "links (M_next h') (M_prev h') (l # ns @ [l]) \<longleftrightarrow> links (M_next h) (M_prev h) (l # ns @ [l])"
    by (rule links_cong) (use assms(2) in auto)
  with assms show ?thesis by (auto simp: holds_def intro: less_le_trans)
qed

definition apart :: "loc \<Rightarrow> loc list \<Rightarrow> loc \<Rightarrow> loc list \<Rightarrow> bool" where
  "apart l ns m ms \<longleftrightarrow> set (l # ns) \<inter> set (m # ms) = {}"

section \<open>Transfer of nodes\<close>

text \<open>What \<^verbatim>\<open>_Transfer\<close> does when all the nodes it touches exist.\<close>

lemma List_transfer_eval:
  assumes "position \<noteq> fin" "position \<noteq> first" "first \<noteq> fin"
    and "M_prev h fin = Some lp" "M_prev h first = Some fp" "M_prev h position = Some pp"
    and "M_next h lp \<noteq> None" "M_next h fp \<noteq> None" "M_next h pp \<noteq> None"
  shows "List_transfer position first fin h =
    Inr (h\<lparr>M_next := (M_next h)(lp \<mapsto> position, fp \<mapsto> fin, pp \<mapsto> first),
           M_prev := (M_prev h)(position \<mapsto> lp, fin \<mapsto> fp, first \<mapsto> pp)\<rparr>)"
  using assms by (auto simp: List_transfer_def prev_of_def next_of_def set_next_def set_prev_def)

text \<open>The nodes \<open>F\<close> go from one list to a place of another.\<close>

lemma List_transfer_between:
  assumes L: "holds h l (A @ B)" and M: "holds h m (C @ F @ D)" and F: "F \<noteq> []"
    and ap: "apart l (A @ B) m (C @ F @ D)"
  obtains h' where "List_transfer (hd (B @ [l])) (hd F) (hd (D @ [m])) h = Inr h'"
    "holds h' l (A @ F @ B)" "holds h' m (C @ D)"
    "M_data h' = M_data h" "M_size h' = M_size h" "unused h' = unused h"
    "\<And>p. p \<notin> set (l # A @ B) \<Longrightarrow> p \<notin> set (m # C @ F @ D) \<Longrightarrow> M_next h' p = M_next h p \<and> M_prev h' p = M_prev h p"
proof -
  define pos fin ff where "pos = hd (B @ [l])" and "fin = hd (D @ [m])" and "ff = hd F"
  define lp fp pp where "lp = last F" and "fp = last (m # C)" and "pp = last (l # A)"
  note ends = pos_def fin_def ff_def lp_def fp_def pp_def
  have dist: "distinct (l # A)" "distinct F" "distinct (B @ [l])" "distinct (m # C)" "distinct (D @ [m])"
    using L M by (auto simp: holds_def)
  have disj: "set (l # A @ B) \<inter> set (m # C @ F @ D) = {}" using ap by (simp add: apart_def)
  have dm: "set F \<inter> set (m # C @ D) = {}" "set (m # C) \<inter> set D = {}" "set (l # A) \<inter> set B = {}"
    using L M by (auto simp: holds_def)
  have mem: "pos \<in> set (B @ [l])" "fin \<in> set (D @ [m])" "ff \<in> set F" "lp \<in> set F" "fp \<in> set (m # C)" "pp \<in> set (l # A)"
    unfolding ends using F by (simp_all only: hd_in_set last_in_set list.distinct append_is_Nil_conv not_False_eq_True simp_thms)
  have prevs: "M_prev h fin = Some lp" "M_prev h ff = Some fp" "M_prev h pos = Some pp"
    unfolding ends using holds_position [OF L] holds_position [of h m "C @ F" D] holds_position [of h m C "F @ D"] M F by auto
  have nexts: "M_next h lp \<noteq> None" "M_next h fp \<noteq> None" "M_next h pp \<noteq> None"
    unfolding ends using holds_position [OF L] holds_position [of h m "C @ F" D] holds_position [of h m C "F @ D"] M F by auto
  have sets: "set (B @ [l]) \<subseteq> set (l # A @ B)" "set (l # A) \<subseteq> set (l # A @ B)" "set F \<subseteq> set (m # C @ F @ D)"
    "set (m # C) \<subseteq> set (m # C @ F @ D)" "set (D @ [m]) \<subseteq> set (m # C @ F @ D)" "set (D @ [m]) \<subseteq> set (m # C @ D)"
    "set (m # C) \<subseteq> set (m # C @ D)" "set D \<subseteq> set (m # C @ D)" by auto
  have ne: "pos \<noteq> fin" "pos \<noteq> ff" "ff \<noteq> fin" using mem(1-3) disj dm(1) sets by blast+
  let ?h = "h\<lparr>M_next := (M_next h)(lp \<mapsto> pos, fp \<mapsto> fin, pp \<mapsto> ff), M_prev := (M_prev h)(pos \<mapsto> lp, fin \<mapsto> fp, ff \<mapsto> pp)\<rparr>"
  have ev: "List_transfer pos ff fin h = Inr ?h"
    using ne prevs nexts by (rule List_transfer_eval)
  have out: "lp \<notin> set (l # A @ B)" "fp \<notin> set (l # A @ B)" "pp \<notin> set (m # C @ F @ D)" "fin \<notin> set (l # A @ B)"
    "pos \<notin> set (m # C @ F @ D)" "lp \<notin> set (m # C @ D)" "ff \<notin> set (m # C @ D)" "fp \<notin> set F" "fin \<notin> set F" "ff \<notin> set (l # A @ B)"
    using mem disj dm(1) sets by blast+
  have lt: "lp \<notin> set (butlast F)" "fp \<notin> set (butlast (m # C))" "pp \<notin> set (butlast (l # A))"
    unfolding ends using last_not_butlast dist F by blast+
  have ht: "pos \<notin> set (tl (B @ [l]))" "fin \<notin> set (tl (D @ [m]))" "ff \<notin> set (tl F)"
    unfolding ends using hd_not_tl dist F by blast+
  have inner: "pos \<notin> set A" "fin \<notin> set C" "pp \<notin> set B" "fp \<notin> set D"
    using mem(1,2,5,6) L M by (auto simp: holds_def)
  have cL: "links (M_next h) (M_prev h) ((l # A) @ (B @ [l]))" and cM: "links (M_next h) (M_prev h) ((m # C) @ F @ (D @ [m]))"
    using L M by (simp_all add: holds_def)
  have seg: "links (M_next h) (M_prev h) (l # A)" "links (M_next h) (M_prev h) (B @ [l])"
    "links (M_next h) (M_prev h) (m # C)" "links (M_next h) (M_prev h) F" "links (M_next h) (M_prev h) (D @ [m])"
    using cL cM F by (simp_all only: links_append append_is_Nil_conv list.distinct not_False_eq_True simp_thms)
  define N P where "N = (M_next h)(lp \<mapsto> pos, fp \<mapsto> fin, pp \<mapsto> ff)" and "P = (M_prev h)(pos \<mapsto> lp, fin \<mapsto> fp, ff \<mapsto> pp)"
  have n1: "links N P (l # A)" unfolding N_def P_def
    by (rule links_upd3 [OF seg(1)])
      (use out lt inner in \<open>simp_all del: butlast.simps add: outside_butlast outside_tl\<close>)
  have n2: "links N P (B @ [l])" unfolding N_def P_def
    by (rule links_upd3 [OF seg(2)])
      (use out ht inner in \<open>simp_all del: butlast.simps add: outside_butlast outside_tl\<close>)
  have n3: "links N P (m # C)" unfolding N_def P_def
    by (rule links_upd3 [OF seg(3)])
      (use out lt inner in \<open>simp_all del: butlast.simps add: outside_butlast outside_tl\<close>)
  have n4: "links N P F" unfolding N_def P_def
    by (rule links_upd3 [OF seg(4)])
      (use out lt ht in \<open>simp_all del: butlast.simps add: outside_butlast outside_tl\<close>)
  have n5: "links N P (D @ [m])" unfolding N_def P_def
    by (rule links_upd3 [OF seg(5)])
      (use out ht inner in \<open>simp_all del: butlast.simps add: outside_butlast outside_tl\<close>)
  have ne2: "lp \<noteq> fp" "lp \<noteq> pp" "fp \<noteq> pp" "pos \<noteq> ff" "pos \<noteq> fin" "ff \<noteq> fin"
    using ne out mem by auto
  then have j: "N lp = Some pos" "N fp = Some fin" "N pp = Some ff" "P pos = Some lp" "P fin = Some fp" "P ff = Some pp"
    by (simp_all add: N_def P_def)
  have nF: "links N P (F @ (B @ [l]))"
    using links_append [OF F, of "B @ [l]" N P] n4 n2 j(1,4) by (simp add: pos_def lp_def)
  have "links N P ((l # A) @ (F @ (B @ [l])))"
    using links_append [of "l # A" "F @ (B @ [l])" N P] n1 nF j(3,6) F by (simp add: ff_def pp_def del: links.simps)
  moreover have "links N P ((m # C) @ (D @ [m]))"
    using links_append [of "m # C" "D @ [m]" N P] n3 n5 j(2,5) by (simp add: fin_def fp_def del: links.simps)
  moreover have "distinct (l # A @ F @ B)" "distinct (m # C @ D)" using L M disj by (auto simp: holds_def)
  ultimately have "holds ?h l (A @ F @ B)" "holds ?h m (C @ D)"
    using L M by (auto simp: holds_def N_def P_def)
  moreover have "M_next ?h p = M_next h p \<and> M_prev ?h p = M_prev h p"
    if p: "p \<notin> set (l # A @ B)" "p \<notin> set (m # C @ F @ D)" for p
  proof -
    have "p \<notin> {lp, fp, pp, pos, fin, ff}" using p mem sets by blast
    then show ?thesis by simp
  qed
  ultimately show ?thesis
    using that [of ?h] ev by (simp add: pos_def ff_def fin_def)
qed


section \<open>All the lists of a store\<close>

text \<open>\<open>\<sigma>\<close> gives for every list object its nodes in order; different lists share none.\<close>

definition list_objects :: "'a list_heap \<Rightarrow> (loc \<Rightarrow> loc list option) \<Rightarrow> bool" where
  "list_objects h \<sigma> \<longleftrightarrow>
     (\<forall>l ns. \<sigma> l = Some ns \<longrightarrow> holds h l ns) \<and>
     (\<forall>l ns m ms. \<sigma> l = Some ns \<longrightarrow> \<sigma> m = Some ms \<longrightarrow> l \<noteq> m \<longrightarrow> apart l ns m ms)"

lemma listsD: "list_objects h \<sigma> \<Longrightarrow> \<sigma> l = Some ns \<Longrightarrow> holds h l ns"
  by (simp add: list_objects_def)

lemma listsD2: "list_objects h \<sigma> \<Longrightarrow> \<sigma> l = Some ns \<Longrightarrow> \<sigma> m = Some ms \<Longrightarrow> l \<noteq> m \<Longrightarrow> apart l ns m ms"
  by (simp add: list_objects_def)

lemma apart_sym: "apart l ns m ms \<longleftrightarrow> apart m ms l ns"
  by (auto simp: apart_def)

text \<open>It is enough to look at two different lists in one order.\<close>

lemma listsI:
  assumes "\<And>l ns. \<sigma> l = Some ns \<Longrightarrow> holds h l ns"
    and "\<And>l ns m ms. \<sigma> l = Some ns \<Longrightarrow> \<sigma> m = Some ms \<Longrightarrow> l \<noteq> m \<Longrightarrow> apart l ns m ms \<or> apart m ms l ns"
  shows "list_objects h \<sigma>"
  using assms apart_sym unfolding list_objects_def by blast

text \<open>
  An operation on one list: it still is well formed, has only its old nodes or new ones, and
  the nodes of other lists are as they were.
\<close>

lemma lists_change:
  assumes ls: "list_objects h \<sigma>" and l: "\<sigma> l = Some ns" and "holds h' l ns'"
    and sub: "set ns' \<subseteq> set ns \<union> {p. unused h \<le> p}" and u: "unused h \<le> unused h'"
    and fr: "\<And>p. p \<notin> set (l # ns) \<Longrightarrow> p < unused h \<Longrightarrow>
      M_next h' p = M_next h p \<and> M_prev h' p = M_prev h p \<and> M_data h' p = M_data h p"
  shows "list_objects h' (\<sigma>(l \<mapsto> ns'))"
proof -
  have other: "holds h' m ms \<and> apart l ns' m ms" if m: "\<sigma> m = Some ms" "m \<noteq> l" for m ms
  proof -
    have ap: "apart l ns m ms" using listsD2 [OF ls l m(1)] m(2) by simp
    have hm: "holds h m ms" using listsD [OF ls m(1)] .
    have *: "p \<notin> set (l # ns) \<and> p < unused h" if "p \<in> set (m # ms)" for p
      using that ap hm by (auto simp: apart_def holds_def)
    then have "holds h' m ms" using fr u by (intro holds_frame [OF hm]) auto
    moreover have "apart l ns' m ms" using ap sub * by (fastforce simp: apart_def)
    ultimately show ?thesis ..
  qed
  show ?thesis
    by (rule listsI) (use assms(3) other ls in \<open>auto simp: listsD2 dest: listsD listsD2 split: if_splits\<close>)
qed

text \<open>An operation that moves nodes between two lists.\<close>

lemma lists_change2:
  assumes ls: "list_objects h \<sigma>" and l: "\<sigma> l = Some ns" and m: "\<sigma> m = Some ms" and "l \<noteq> m"
    and h': "holds h' l ns'" "holds h' m ms'" and ap: "apart l ns' m ms'" and sub: "set ns' \<union> set ms' \<subseteq> set ns \<union> set ms"
    and same: "M_data h' = M_data h" "unused h' = unused h"
    and fr: "\<And>p. p \<notin> set (l # ns) \<Longrightarrow> p \<notin> set (m # ms) \<Longrightarrow> M_next h' p = M_next h p \<and> M_prev h' p = M_prev h p"
  shows "list_objects h' (\<sigma>(l \<mapsto> ns', m \<mapsto> ms'))"
proof -
  have other: "holds h' k ks \<and> apart l ns' k ks \<and> apart m ms' k ks"
    if k: "\<sigma> k = Some ks" "k \<noteq> l" "k \<noteq> m" for k ks
  proof -
    have ak: "apart l ns k ks" "apart m ms k ks"
      using listsD2 [OF ls l k(1)] listsD2 [OF ls m k(1)] k by auto
    have "p \<notin> set (l # ns) \<and> p \<notin> set (m # ms)" if "p \<in> set (k # ks)" for p
      using that ak unfolding apart_def by blast
    then have "holds h' k ks" using fr same
      by (intro holds_frame [OF listsD [OF ls k(1)]]) simp_all
    with ak sub show ?thesis by (auto simp: apart_def)
  qed
  then show ?thesis
    using h' ap assms(4) ls by (intro listsI) (auto dest: listsD listsD2 split: if_splits)
qed

lemma lists_transfer:
  assumes ls: "list_objects h \<sigma>" and l: "\<sigma> l = Some (A @ B)" and m: "\<sigma> m = Some (C @ F @ D)" and "l \<noteq> m" "F \<noteq> []"
  obtains h' where "List_transfer (hd (B @ [l])) (hd F) (hd (D @ [m])) h = Inr h'"
    "list_objects h' (\<sigma>(l \<mapsto> A @ F @ B, m \<mapsto> C @ D))" "M_data h' = M_data h" "M_size h' = M_size h" "unused h' = unused h"
proof -
  note hl = listsD [OF ls l] and hm = listsD [OF ls m]
  have ap: "apart l (A @ B) m (C @ F @ D)" using listsD2 [OF ls l m assms(4)] .
  from List_transfer_between [OF hl hm assms(5) ap] obtain h' where
    h': "List_transfer (hd (B @ [l])) (hd F) (hd (D @ [m])) h = Inr h'" "holds h' l (A @ F @ B)" "holds h' m (C @ D)"
    "M_data h' = M_data h" "M_size h' = M_size h" "unused h' = unused h"
    "\<And>p. p \<notin> set (l # A @ B) \<Longrightarrow> p \<notin> set (m # C @ F @ D) \<Longrightarrow> M_next h' p = M_next h p \<and> M_prev h' p = M_prev h p"
    by metis
  have "apart l (A @ F @ B) m (C @ D)"
    using ap hm by (auto simp: apart_def holds_def)
  then have "list_objects h' (\<sigma>(l \<mapsto> A @ F @ B, m \<mapsto> C @ D))"
    by (intro lists_change2 [OF ls l m assms(4) h'(2,3) _ _ h'(4,6,7)]) auto
  with that h' show ?thesis by blast
qed

lemma holds_insert:
  assumes h: "holds h l (A @ B)" and s: "M_size h l = Some s"
  obtains h' where "ls_insert l (hd (B @ [l])) x h = Inr (unused h, h')" "holds h' l (A @ unused h # B)"
    "M_data h' = (M_data h)(unused h \<mapsto> x)" "M_size h' = (M_size h)(l \<mapsto> s + 1)" "unused h' = Suc (unused h)"
    "\<And>p. p \<notin> set (l # A @ B) \<Longrightarrow> p < unused h \<Longrightarrow> M_next h' p = M_next h p \<and> M_prev h' p = M_prev h p"
proof -
  define pos pp u where "pos = hd (B @ [l])" and "pp = last (l # A)" and "u = unused h"
  have mem: "pos \<in> set (B @ [l])" "pp \<in> set (l # A)"
    unfolding pos_def pp_def by (simp_all only: hd_in_set last_in_set list.distinct append_is_Nil_conv not_False_eq_True simp_thms)
  have pn: "M_prev h pos = Some pp" "M_next h pp = Some pos"
    using holds_position [OF h] by (simp_all add: pos_def pp_def)
  have u: "u \<notin> set (l # A @ B)" "u \<notin> set (l # A)" "u \<notin> set (B @ [l])" using h by (auto simp: holds_def u_def)
  then have ne: "pos \<noteq> u" "pp \<noteq> u" using mem by (auto simp del: last.simps)
  define N P where "N = (M_next h)(u \<mapsto> pos, pp \<mapsto> u)" and "P = (M_prev h)(u \<mapsto> pp, pos \<mapsto> u)"
  let ?h = "h\<lparr>M_next := N, M_prev := P, M_data := (M_data h)(u \<mapsto> x), M_size := (M_size h)(l \<mapsto> s + 1), unused := Suc u\<rparr>"
  have ev: "ls_insert l pos x h = Inr (u, ?h)"
    using pn ne s
    by (simp add: ls_insert_def create_node_def prev_of_def set_next_def set_prev_def size_of_def set_size_def N_def P_def u_def Let_def fun_upd_twist)
  have dist: "distinct (l # A)" "distinct (B @ [l])" "pos \<notin> set A" "pp \<notin> set B"
    using h mem by (auto simp: holds_def)
  have ends: "pp \<notin> set (butlast (l # A))" "pos \<notin> set (tl (B @ [l]))"
    unfolding pp_def pos_def using last_not_butlast [OF dist(1)] hd_not_tl [OF dist(2)] by blast+
  have c: "links (M_next h) (M_prev h) ((l # A) @ (B @ [l]))" using h by (simp add: holds_def)
  have seg: "links (M_next h) (M_prev h) (l # A)" "links (M_next h) (M_prev h) (B @ [l])"
    using c links_append [of "l # A" "B @ [l]"] by auto
  have n1: "links N P (l # A)" unfolding N_def P_def
    using seg(1) ends dist u by (simp del: butlast.simps links.simps add: links_upd_next links_upd_prev outside_butlast outside_tl)
  have n2: "links N P (B @ [l])" unfolding N_def P_def
    using seg(2) ends dist u by (simp del: links.simps add: links_upd_next links_upd_prev outside_butlast outside_tl)
  have "links N P ([u] @ (B @ [l]))"
    using n2 ne by (simp add: N_def P_def pos_def)
  then have "links N P ((l # A) @ ([u] @ (B @ [l])))"
    using links_append [of "l # A" "[u] @ (B @ [l])" N P] n1 ne by (simp add: N_def P_def pp_def del: links.simps)
  then have "holds ?h l (A @ u # B)"
    using h u by (auto simp: holds_def u_def intro: less_SucI)
  moreover have "M_next ?h p = M_next h p \<and> M_prev ?h p = M_prev h p" if "p \<notin> set (l # A @ B)" "p < unused h" for p
  proof -
    have "p \<noteq> u" "p \<noteq> pp" "p \<noteq> pos" using that mem by (auto simp: u_def)
    then show ?thesis by (simp add: N_def P_def)
  qed
  ultimately show ?thesis using that [of ?h] ev by (simp add: pos_def u_def)
qed


lemma holds_erase:
  assumes h: "holds h l (A @ p # B)" and s: "M_size h l = Some s"
  obtains h' where "ls_erase l p h = Inr (hd (B @ [l]), h')" "holds h' l (A @ B)"
    "M_data h' = (M_data h)(p := None)" "M_size h' = (M_size h)(l \<mapsto> (if s > 0 then s - 1 else s))" "unused h' = unused h"
    "\<And>q. q \<notin> set (l # A @ p # B) \<Longrightarrow> M_next h' q = M_next h q \<and> M_prev h' q = M_prev h q"
proof -
  define nx pp where "nx = hd (B @ [l])" and "pp = last (l # A)"
  have mem: "nx \<in> set (B @ [l])" "pp \<in> set (l # A)"
    unfolding nx_def pp_def by (simp_all only: hd_in_set last_in_set list.distinct append_is_Nil_conv not_False_eq_True simp_thms)
  have pn: "M_next h p = Some nx" "M_prev h p = Some pp" "M_next h pp = Some p" "M_prev h nx = Some p"
    using holds_node [OF h] holds_position [OF h] holds_position [of h l "A @ [p]" B] h by (simp_all add: nx_def pp_def)
  have p: "p \<notin> set (l # A)" "p \<notin> set (B @ [l])" using h by (auto simp: holds_def)
  then have ne: "nx \<noteq> p" "pp \<noteq> p" using mem by (auto simp del: last.simps)
  define N P where "N = (M_next h)(pp \<mapsto> nx, p := None)" and "P = (M_prev h)(nx \<mapsto> pp, p := None)"
  let ?h = "h\<lparr>M_next := N, M_prev := P, M_data := (M_data h)(p := None), M_size := (M_size h)(l \<mapsto> (if s > 0 then s - 1 else s))\<rparr>"
  have "(M_size h)(l \<mapsto> s) = M_size h" using s by (simp add: fun_upd_idem)
  then have ev: "ls_erase l p h = Inr (nx, ?h)"
    using pn ne s
    by (auto simp: ls_erase_def destroy_node_def next_of_def prev_of_def set_next_def set_prev_def size_of_def set_size_def N_def P_def Let_def)
  have dist: "distinct (l # A)" "distinct (B @ [l])" "nx \<notin> set A" "pp \<notin> set B"
    using h mem by (auto simp: holds_def)
  have ends: "pp \<notin> set (butlast (l # A))" "nx \<notin> set (tl (B @ [l]))"
    unfolding pp_def nx_def using last_not_butlast [OF dist(1)] hd_not_tl [OF dist(2)] by blast+
  have c: "links (M_next h) (M_prev h) ((l # A) @ [p] @ (B @ [l]))" using h by (simp add: holds_def)
  have seg: "links (M_next h) (M_prev h) (l # A)" "links (M_next h) (M_prev h) (B @ [l])"
    using c links_append [of "l # A" "[p] @ (B @ [l])"] links_append [of "[p]" "B @ [l]"] by auto
  have n1: "links N P (l # A)" unfolding N_def P_def
    using seg(1) ends dist p by (simp del: butlast.simps links.simps add: links_upd_next links_upd_prev outside_butlast outside_tl)
  have n2: "links N P (B @ [l])" unfolding N_def P_def
    using seg(2) ends dist p by (simp del: links.simps add: links_upd_next links_upd_prev outside_butlast outside_tl)
  have "links N P ((l # A) @ (B @ [l]))"
    using links_append [of "l # A" "B @ [l]" N P] n1 n2 ne by (simp add: N_def P_def pp_def nx_def del: links.simps)
  then have "holds ?h l (A @ B)" using h by (auto simp: holds_def)
  moreover have "M_next ?h q = M_next h q \<and> M_prev ?h q = M_prev h q" if "q \<notin> set (l # A @ p # B)" for q
  proof -
    have "q \<noteq> p" "q \<noteq> pp" "q \<noteq> nx" using that mem by auto
    then show ?thesis by (simp add: N_def P_def)
  qed
  ultimately show ?thesis using that [of ?h] ev by (simp add: nx_def)
qed

lemma lists_insert:
  assumes ls: "list_objects h \<sigma>" and l: "\<sigma> l = Some (A @ B)" and s: "M_size h l = Some s"
  obtains h' where "ls_insert l (hd (B @ [l])) x h = Inr (unused h, h')" "list_objects h' (\<sigma>(l \<mapsto> A @ unused h # B))"
    "M_data h' = (M_data h)(unused h \<mapsto> x)" "M_size h' = (M_size h)(l \<mapsto> s + 1)" "unused h' = Suc (unused h)"
proof -
  from holds_insert [OF listsD [OF ls l] s, of x] obtain h' where
    h': "ls_insert l (hd (B @ [l])) x h = Inr (unused h, h')" "holds h' l (A @ unused h # B)"
    "M_data h' = (M_data h)(unused h \<mapsto> x)" "M_size h' = (M_size h)(l \<mapsto> s + 1)" "unused h' = Suc (unused h)"
    "\<And>p. p \<notin> set (l # A @ B) \<Longrightarrow> p < unused h \<Longrightarrow> M_next h' p = M_next h p \<and> M_prev h' p = M_prev h p"
    by metis
  have "list_objects h' (\<sigma>(l \<mapsto> A @ unused h # B))"
    by (rule lists_change [OF ls l h'(2)]) (use h' in auto)
  with that h' show ?thesis by blast
qed

lemma lists_erase:
  assumes ls: "list_objects h \<sigma>" and l: "\<sigma> l = Some (A @ p # B)" and s: "M_size h l = Some s"
  obtains h' where "ls_erase l p h = Inr (hd (B @ [l]), h')" "list_objects h' (\<sigma>(l \<mapsto> A @ B))"
    "M_data h' = (M_data h)(p := None)" "M_size h' = (M_size h)(l \<mapsto> (if s > 0 then s - 1 else s))" "unused h' = unused h"
proof -
  from holds_erase [OF listsD [OF ls l] s] obtain h' where
    h': "ls_erase l p h = Inr (hd (B @ [l]), h')" "holds h' l (A @ B)"
    "M_data h' = (M_data h)(p := None)" "M_size h' = (M_size h)(l \<mapsto> (if s > 0 then s - 1 else s))" "unused h' = unused h"
    "\<And>q. q \<notin> set (l # A @ p # B) \<Longrightarrow> M_next h' q = M_next h q \<and> M_prev h' q = M_prev h q"
    by metis
  have "list_objects h' (\<sigma>(l \<mapsto> A @ B))"
    by (rule lists_change [OF ls l h'(2)]) (use h' in auto)
  with that h' show ?thesis by blast
qed

section \<open>Exchanging two lists\<close>

text \<open>Whether the nodes of a list are \<open>ns\<close> when its header is at \<open>l\<close>: only the ends know of it.\<close>

lemma links_header:
  assumes "ns \<noteq> []"
  shows "links f g (l # ns @ [l]) \<longleftrightarrow>
    links f g ns \<and> f l = Some (hd ns) \<and> g (hd ns) = Some l \<and> f (last ns) = Some l \<and> g l = Some (last ns)"
  using assms links_append [of "[l]" "ns @ [l]" f g] links_append [of ns "[l]" f g] by auto

lemma swap_aux_moves:
  assumes l: "holds h l ns" and m: "holds h m []" and ne: "ns \<noteq> []" and ap: "apart l ns m []"
  obtains h' where "swap_aux l m h = Inr h'" "holds h' m ns" "holds h' l []"
    "M_data h' = M_data h" "M_size h' = (M_size h)(l \<mapsto> 0)" "unused h' = unused h"
    "\<And>q. q \<notin> set (l # m # ns) \<Longrightarrow> M_next h' q = M_next h q \<and> M_prev h' q = M_prev h q"
proof -
  define a z where "a = hd ns" and "z = last ns"
  have az: "a \<in> set ns" "z \<in> set ns" using ne by (simp_all add: a_def z_def)
  have d: "distinct (l # ns)" "m \<notin> set ns" "l \<noteq> m" using l ap by (auto simp: holds_def apart_def)
  have c: "links (M_next h) (M_prev h) ns" "M_next h l = Some a" "M_prev h a = Some l" "M_next h z = Some l" "M_prev h l = Some z"
    using l links_header [OF ne] unfolding holds_def a_def z_def by blast+
  have cm: "M_next h m = Some m" "M_prev h m = Some m" using m by (simp_all add: holds_def)
  define N P where "N = (M_next h)(m \<mapsto> a, z \<mapsto> m, l \<mapsto> l)" and "P = (M_prev h)(a \<mapsto> m, m \<mapsto> z, l \<mapsto> l)"
  let ?h = "h\<lparr>M_next := N, M_prev := P, M_size := (M_size h)(l \<mapsto> 0)\<rparr>"
  have ne2: "a \<noteq> l" "z \<noteq> l" "a \<noteq> m" "z \<noteq> m" using az d by auto
  have "swap_aux l m h = Inr ?h"
    using c cm ne2 d(3)
    by (simp add: swap_aux_def empty_initialize_def next_of_def prev_of_def set_next_def set_prev_def set_size_def N_def P_def)
  moreover have "links N P ns"
    unfolding N_def P_def
    using c(1) d last_not_butlast [of ns] hd_not_tl [of ns] ne
    by (simp add: links_upd_next links_upd_prev outside_butlast outside_tl a_def z_def)
  then have "links N P (m # ns @ [m])"
    unfolding links_header [OF ne] a_def [symmetric] z_def [symmetric] using ne2 d(3) by (simp add: N_def P_def)
  then have "holds ?h m ns" using l m d by (auto simp: holds_def)
  moreover have "holds ?h l []" using l by (simp add: holds_def N_def P_def)
  moreover have "M_next ?h q = M_next h q \<and> M_prev ?h q = M_prev h q" if "q \<notin> set (l # m # ns)" for q
    using that az by (auto simp: N_def P_def)
  ultimately show ?thesis using that [of ?h] by simp
qed

lemma swap_nodes_moves:
  assumes l: "holds h l ns" and m: "holds h m ms" and ne: "ns \<noteq> []" "ms \<noteq> []" and ap: "apart l ns m ms"
  obtains h' where "swap_nodes l m h = Inr h'" "holds h' l ms" "holds h' m ns"
    "M_data h' = M_data h" "M_size h' = M_size h" "unused h' = unused h"
    "\<And>q. q \<notin> set (l # ns) \<Longrightarrow> q \<notin> set (m # ms) \<Longrightarrow> M_next h' q = M_next h q \<and> M_prev h' q = M_prev h q"
proof -
  define a z b y where "a = hd ns" and "z = last ns" and "b = hd ms" and "y = last ms"
  have az: "a \<in> set ns" "z \<in> set ns" "b \<in> set ms" "y \<in> set ms" using ne by (simp_all add: a_def z_def b_def y_def)
  have d: "distinct (l # ns)" "distinct (m # ms)" "set (l # ns) \<inter> set (m # ms) = {}"
    using l m ap by (auto simp: holds_def apart_def)
  have c: "links (M_next h) (M_prev h) ns" "M_next h l = Some a" "M_prev h a = Some l" "M_next h z = Some l" "M_prev h l = Some z"
    using l links_header [OF ne(1)] unfolding holds_def a_def z_def by blast+
  have cm: "links (M_next h) (M_prev h) ms" "M_next h m = Some b" "M_prev h b = Some m" "M_next h y = Some m" "M_prev h m = Some y"
    using m links_header [OF ne(2)] unfolding holds_def b_def y_def by blast+
  define N P where "N = (M_next h)(l \<mapsto> b, m \<mapsto> a, y \<mapsto> l, z \<mapsto> m)" and "P = (M_prev h)(l \<mapsto> y, m \<mapsto> z, b \<mapsto> l, a \<mapsto> m)"
  let ?h = "h\<lparr>M_next := N, M_prev := P\<rparr>"
  have dd: "a \<noteq> l" "z \<noteq> l" "b \<noteq> l" "y \<noteq> l" "a \<noteq> m" "z \<noteq> m" "b \<noteq> m" "y \<noteq> m" "l \<noteq> m"
    "a \<noteq> b" "z \<noteq> y" "a \<notin> set ms" "z \<notin> set ms" "b \<notin> set ns" "y \<notin> set ns" "l \<notin> set ns" "l \<notin> set ms" "m \<notin> set ns" "m \<notin> set ms"
    using az d by auto
  have "swap_nodes l m h = Inr ?h"
    using c(2-) cm(2-) dd
    by (simp add: swap_nodes_def next_of_def prev_of_def set_next_def set_prev_def N_def P_def fun_upd_twist)
  moreover have "links N P ns" "links N P ms"
    unfolding N_def P_def
    using c(1) cm(1) d dd last_not_butlast [of ns] hd_not_tl [of ns] last_not_butlast [of ms] hd_not_tl [of ms] ne
    by (simp_all add: links_upd_next links_upd_prev outside_butlast outside_tl a_def z_def b_def y_def)
  then have "links N P (m # ns @ [m])" "links N P (l # ms @ [l])"
    unfolding links_header [OF ne(1)] links_header [OF ne(2)]
      a_def [symmetric] z_def [symmetric] b_def [symmetric] y_def [symmetric]
    using dd by (simp_all add: N_def P_def)
  then have "holds ?h m ns" "holds ?h l ms" using l m dd by (auto simp: holds_def)
  moreover have "M_next ?h q = M_next h q \<and> M_prev ?h q = M_prev h q" if "q \<notin> set (l # ns)" "q \<notin> set (m # ms)" for q
    using that az by (auto simp: N_def P_def)
  ultimately show ?thesis using that [of ?h] by simp
qed


text \<open>
  What \<^verbatim>\<open>swap\<close> does to the counts: they are exchanged, but \<^verbatim>\<open>_M_swap_aux\<close> has set the one of the
  list that gave its nodes away to 0 before.
\<close>

definition swapped_sizes :: "loc list \<Rightarrow> 64 word \<Rightarrow> loc list \<Rightarrow> 64 word \<Rightarrow> 64 word \<times> 64 word" where
  "swapped_sizes ns s ms t =
     (if ns = [] \<and> ms = [] then (s, t) else if ms = [] then (t, 0) else if ns = [] then (0, s) else (t, s))"

lemma lists_swap:
  assumes ls: "list_objects h \<sigma>" and l: "\<sigma> l = Some ns" "M_size h l = Some s" and m: "\<sigma> m = Some ms" "M_size h m = Some t"
    and "l \<noteq> m"
  obtains h' where "ls_swap l m h = Inr h'" "list_objects h' (\<sigma>(l \<mapsto> ms, m \<mapsto> ns))"
    "M_data h' = M_data h" "unused h' = unused h"
    "M_size h' = (M_size h)(l \<mapsto> fst (swapped_sizes ns s ms t), m \<mapsto> snd (swapped_sizes ns s ms t))"
proof -
  note result = that
  note hl = listsD [OF ls l(1)] and hm = listsD [OF ls m(1)]
  have ap: "apart l ns m ms" "apart m ms l ns" using listsD2 [OF ls l(1) m(1) assms(6)] by (simp_all add: apart_sym)
  have ap2: "apart l ms m ns" using ap hl hm by (auto simp: apart_def holds_def)
  have emp: "ls_empty l h = Inr (ns = [])" "ls_empty m h = Inr (ms = [])"
    using holds_header [OF hl] holds_header [OF hm] hl hm
    by (cases ns; cases ms; auto simp: ls_empty_def next_of_def holds_def)+
  show ?thesis
  proof (cases "ns = [] \<and> ms = []")
    case True
    then have "ls_swap l m h = Inr h" using emp by (simp add: ls_swap_def)
    moreover have "\<sigma>(l \<mapsto> ms, m \<mapsto> ns) = \<sigma>" using True l m by (simp add: fun_upd_idem)
    ultimately show ?thesis
      using that [of h] ls l m assms(6) True by (simp add: swapped_sizes_def fun_upd_idem)
  next
    case False
    let ?moved = "if ms = [] then swap_aux l m h else if ns = [] then swap_aux m l h else swap_nodes l m h"
    have finish: thesis
      if h1: "?moved = Inr h1" "holds h1 l ms" "holds h1 m ns" "M_data h1 = M_data h" "unused h1 = unused h"
        and sz: "M_size h1 = (M_size h)(l := (if ms = [] then Some 0 else Some s), m := (if ms \<noteq> [] \<and> ns = [] then Some 0 else Some t))"
        and fr: "\<And>q. q \<notin> set (l # ns) \<Longrightarrow> q \<notin> set (m # ms) \<Longrightarrow> M_next h1 q = M_next h q \<and> M_prev h1 q = M_prev h q"
      for h1
    proof -
      have "list_objects h1 (\<sigma>(l \<mapsto> ms, m \<mapsto> ns))"
        by (rule lists_change2 [OF ls l(1) m(1) assms(6) h1(2,3) ap2 _ h1(4,5) fr]) auto
      moreover define h2 where "h2 = set_size m (if ms = [] then 0 else s) (set_size l (if ms \<noteq> [] \<and> ns = [] then 0 else t) h1)"
      ultimately have "list_objects h2 (\<sigma>(l \<mapsto> ms, m \<mapsto> ns))"
        by (simp add: list_objects_def holds_def set_size_def)
      moreover have "ls_swap l m h = Inr h2"
        using h1(1) False emp sz assms(6) by (auto simp: ls_swap_def swap_sizes_def size_of_def h2_def)
      moreover have "M_size h2 = (M_size h)(l \<mapsto> fst (swapped_sizes ns s ms t), m \<mapsto> snd (swapped_sizes ns s ms t))"
        using False sz assms(6) by (auto simp: h2_def set_size_def swapped_sizes_def fun_upd_twist)
      ultimately show thesis using result [of h2] h1 by (simp add: h2_def set_size_def)
    qed
    have idem: "(M_size h)(l \<mapsto> s) = M_size h" "(M_size h)(m \<mapsto> t) = M_size h" using l m by (simp_all add: fun_upd_idem)
    consider "ms = []" "ns \<noteq> []" | "ns = []" "ms \<noteq> []" | "ns \<noteq> []" "ms \<noteq> []" using False by blast
    then show ?thesis
    proof cases
      case 1
      have em: "holds h m []" "apart l ns m []" using hm ap 1 by simp_all
      show ?thesis
      proof (rule swap_aux_moves [OF hl em(1) 1(2) em(2)])
        fix h1
        assume "swap_aux l m h = Inr h1" "holds h1 m ns" "holds h1 l []"
          "M_data h1 = M_data h" "M_size h1 = (M_size h)(l \<mapsto> 0)" "unused h1 = unused h"
          "\<And>q. q \<notin> set (l # m # ns) \<Longrightarrow> M_next h1 q = M_next h q \<and> M_prev h1 q = M_prev h q"
        then show ?thesis using 1 m idem assms(6) by (intro finish [of h1]) (auto simp: fun_upd_twist fun_upd_idem)
      qed
    next
      case 2
      have em: "holds h l []" "apart m ms l []" using hl ap 2 by simp_all
      show ?thesis
      proof (rule swap_aux_moves [OF hm em(1) 2(2) em(2)])
        fix h1
        assume "swap_aux m l h = Inr h1" "holds h1 l ms" "holds h1 m []"
          "M_data h1 = M_data h" "M_size h1 = (M_size h)(m \<mapsto> 0)" "unused h1 = unused h"
          "\<And>q. q \<notin> set (m # l # ms) \<Longrightarrow> M_next h1 q = M_next h q \<and> M_prev h1 q = M_prev h q"
        then show ?thesis using 2 l idem assms(6) by (intro finish [of h1]) (auto simp: fun_upd_twist fun_upd_idem)
      qed
    next
      case 3
      show ?thesis
      proof (rule swap_nodes_moves [OF hl hm 3 ap(1)])
        fix h1
        assume "swap_nodes l m h = Inr h1" "holds h1 l ms" "holds h1 m ns" "M_data h1 = M_data h" "M_size h1 = M_size h"
          "unused h1 = unused h"
          "\<And>q. q \<notin> set (l # ns) \<Longrightarrow> q \<notin> set (m # ms) \<Longrightarrow> M_next h1 q = M_next h q \<and> M_prev h1 q = M_prev h q"
        then show ?thesis using 3 idem by (intro finish [of h1]) simp_all
      qed
    qed
  qed
qed

end
