(* ===== verification/Stl_List_Ops.thy ===== *)
theory Stl_List_Ops
  imports Stl_List
begin

text \<open>
  The operations of the library's list that run along it (\<^verbatim>\<open>stl/_list.h\<close>, \<^verbatim>\<open>stl/_list.c\<close>): erasing, inserting and
  assigning ranges, splicing, removing, merging, reversing and sorting. Loops that follow
  pointers may fault and need not end. A reference parameter is a value, or the element of
  a node.
\<close>

section \<open>Whole lists and ranges\<close>

text \<open>A step that may fault, in a loop that may not end.\<close>

definition bindS :: "'a result \<Rightarrow> ('a \<Rightarrow> ('b result) option) \<Rightarrow> ('b result) option" where
  "bindS r f = bindR (Some r) f"

lemma bindS_simps [simp]: "bindS (Inr a) f = f a" "bindS (Inl e) f = Some (Inl e)"
  by (simp_all add: bindS_def)

lemma bindS_mono [partial_function_mono]:
  assumes "\<And>y. monotone (fun_ord option_ord) option_ord (\<lambda>f. C y f)"
  shows "monotone (fun_ord option_ord) option_ord (\<lambda>f. bindS r (\<lambda>y. C y f))"
  using assms by (cases r) (simp_all add: monotone_def option.leq_refl)

partial_function (option) clear_loop :: "loc \<Rightarrow> loc \<Rightarrow> 'a list_heap \<Rightarrow> ('a list_heap result) option" where
  "clear_loop l cur h =
     (if cur = l then Some (Inr h)
      else bindS (next_of cur h) (\<lambda>nx. clear_loop l nx (destroy_node cur h)))"

definition ls_clear :: "loc \<Rightarrow> 'a list_heap \<Rightarrow> ('a list_heap result) option" where
  "ls_clear l h =
     bindS (next_of l h) (\<lambda>cur.
     bindR (clear_loop l cur h) (\<lambda>h.
     Some (andThen (set_next l l h) (\<lambda>h. andThen (set_prev l l h) (\<lambda>h. Inr (set_size l 0 h))))))"

text \<open>The destructor: the list is cleared, and its header is gone.\<close>

definition ls_destroy :: "loc \<Rightarrow> 'a list_heap \<Rightarrow> ('a list_heap result) option" where
  "ls_destroy l h =
     bindR (ls_clear l h) (\<lambda>h.
     Some (Inr ((destroy_node l h)\<lparr>M_size := (M_size h)(l := None)\<rparr>)))"

partial_function (option) erase_range :: "loc \<Rightarrow> loc \<Rightarrow> loc \<Rightarrow> 'a list_heap \<Rightarrow> ('a list_heap result) option" where
  "erase_range l first fin h =
     (if first = fin then Some (Inr h)
      else bindS (next_of first h) (\<lambda>nx. bindS (ls_erase l first h) (\<lambda>r. erase_range l nx fin (snd r))))"

primrec fill_insert :: "loc \<Rightarrow> loc \<Rightarrow> nat \<Rightarrow> 'a \<Rightarrow> 'a list_heap \<Rightarrow> 'a list_heap result" where
  "fill_insert l pos 0 x h = Inr h"
| "fill_insert l pos (Suc n) x h = andThen (ls_insert l pos x h) (\<lambda>r. fill_insert l pos n x (snd r))"

partial_function (option) insert_dispatch :: "loc \<Rightarrow> loc \<Rightarrow> loc \<Rightarrow> loc \<Rightarrow> 'a list_heap \<Rightarrow> ('a list_heap result) option" where
  "insert_dispatch l pos first fin h =
     (if first = fin then Some (Inr h)
      else bindS (data_of first h) (\<lambda>x.
           bindS (ls_insert l pos x h) (\<lambda>r.
           bindS (next_of first (snd r)) (\<lambda>nx. insert_dispatch l pos nx fin (snd r)))))"

text \<open>The constructors from a range, from a count, as a copy and by moving.\<close>

definition ls_of_range :: "loc \<Rightarrow> loc \<Rightarrow> 'a list_heap \<Rightarrow> ((loc \<times> 'a list_heap) result) option" where
  "ls_of_range first fin h =
     bindS (List_base h) (\<lambda>(l, h).
     bindS (ls_begin l h) (\<lambda>pos.
     bindR (insert_dispatch l pos first fin h) (\<lambda>h. Some (Inr (l, h)))))"

definition ls_of_count :: "nat \<Rightarrow> 'a \<Rightarrow> 'a list_heap \<Rightarrow> (loc \<times> 'a list_heap) result" where
  "ls_of_count n x h =
     andThen (List_base h) (\<lambda>(l, h).
     andThen (ls_begin l h) (\<lambda>pos.
     andThen (fill_insert l pos n x h) (\<lambda>h. Inr (l, h))))"

definition ls_of_list :: "loc \<Rightarrow> 'a list_heap \<Rightarrow> ((loc \<times> 'a list_heap) result) option" where
  "ls_of_list x h = bindS (ls_begin x h) (\<lambda>first. ls_of_range first (ls_end x) h)"

text \<open>The header of the new list is a copy of the one moved from; \<^verbatim>\<open>_M_size\<close> is not copied.\<close>

definition ls_of_moved :: "loc \<Rightarrow> 'a list_heap \<Rightarrow> (loc \<times> 'a list_heap) result" where
  "ls_of_moved src h =
     (let (l, h) = new_header h in
      andThen (next_of src h) (\<lambda>nx. andThen (prev_of src h) (\<lambda>pv.
      andThen (set_next l nx h) (\<lambda>h. andThen (set_prev l pv h) (\<lambda>h.
      andThen (ls_empty src h) (\<lambda>e.
      andThen
        (if e then empty_initialize l h
         else andThen (empty_initialize src h) (\<lambda>h.
           andThen (next_of l h) (\<lambda>nx. andThen (set_prev nx l h) (\<lambda>h.
           andThen (prev_of l h) (\<lambda>pv. set_next pv l h)))))
        (\<lambda>h. Inr (l, h))))))))"

section \<open>Splicing\<close>

text \<open>All nodes of \<open>x\<close>, when it is not empty and the allocators are equal.\<close>

definition splice_nodes :: "loc \<Rightarrow> loc \<Rightarrow> loc \<Rightarrow> 'a list_heap \<Rightarrow> 'a list_heap result" where
  "splice_nodes l pos x h =
     andThen (ls_begin x h) (\<lambda>first.
     andThen (List_transfer pos first (ls_end x) h) (\<lambda>h.
     andThen (size_of l h) (\<lambda>s. andThen (size_of x h) (\<lambda>t.
     Inr (set_size x 0 (set_size l (s + t) h))))))"

text \<open>\<^verbatim>\<open>insert\<close> of a range: a temporary list with the allocator of this one, which is spliced in.\<close>

definition insert_range :: "loc \<Rightarrow> loc \<Rightarrow> loc \<Rightarrow> loc \<Rightarrow> 'a list_heap \<Rightarrow> ('a list_heap result) option" where
  "insert_range l pos first fin h =
     bindR (ls_of_range first fin h) (\<lambda>(tmp, h).
     bindS (ls_empty tmp h) (\<lambda>e.
     bindS (if e then Inr h else splice_nodes l pos tmp h) (\<lambda>h.
     ls_destroy tmp h)))"

definition splice_all :: "bool \<Rightarrow> loc \<Rightarrow> loc \<Rightarrow> loc \<Rightarrow> 'a list_heap \<Rightarrow> ('a list_heap result) option" where
  "splice_all same_alloc l pos x h =
     bindS (ls_empty x h) (\<lambda>e.
       if e then Some (Inr h)
       else if same_alloc then Some (splice_nodes l pos x h)
       else bindS (ls_begin x h) (\<lambda>first.
         bindR (insert_range l pos first (ls_end x) h) (\<lambda>h. ls_clear x h)))"

definition splice_one :: "bool \<Rightarrow> loc \<Rightarrow> loc \<Rightarrow> loc \<Rightarrow> loc \<Rightarrow> 'a list_heap \<Rightarrow> 'a list_heap result" where
  "splice_one same_alloc l pos x i h =
     andThen (next_of i h) (\<lambda>j.
       if pos = i \<or> pos = j then Inr h
       else if same_alloc then
         andThen (List_transfer pos i j h) (\<lambda>h.
         andThen (size_of l h) (\<lambda>s.
         let h = set_size l (s + 1) h in
         andThen (size_of x h) (\<lambda>t. Inr (set_size x (t - 1) h))))
       else
         andThen (data_of i h) (\<lambda>v.
         andThen (ls_insert l pos v h) (\<lambda>r.
         andThen (ls_erase x i (snd r)) (\<lambda>r. Inr (snd r)))))"

text \<open>\<^verbatim>\<open>advance\<close> on a list's iterator; a negative distance goes back.\<close>

primrec list_forward :: "nat \<Rightarrow> loc \<Rightarrow> 'a list_heap \<Rightarrow> loc result" where
  "list_forward 0 i h = Inr i"
| "list_forward (Suc n) i h = andThen (next_of i h) (\<lambda>i. list_forward n i h)"

primrec list_backward :: "nat \<Rightarrow> loc \<Rightarrow> 'a list_heap \<Rightarrow> loc result" where
  "list_backward 0 i h = Inr i"
| "list_backward (Suc n) i h = andThen (prev_of i h) (\<lambda>i. list_backward n i h)"

definition list_advance :: "loc \<Rightarrow> 64 word \<Rightarrow> 'a list_heap \<Rightarrow> loc result" where
  "list_advance i n h =
     (if sint n > 0 then list_forward (nat (sint n)) i h else list_backward (nat (- sint n)) i h)"

partial_function (option) list_distance :: "loc \<Rightarrow> loc \<Rightarrow> 'a list_heap \<Rightarrow> (int32 result) option" where
  "list_distance first fin h =
     (if first = fin then Some (Inr 0)
      else bindS (next_of first h) (\<lambda>nx. bindR (list_distance nx fin h) (\<lambda>n. Some (Inr (n + 1)))))"

definition splice_range :: "bool \<Rightarrow> loc \<Rightarrow> loc \<Rightarrow> loc \<Rightarrow> loc \<Rightarrow> loc \<Rightarrow> 'a list_heap \<Rightarrow> ('a list_heap result) option" where
  "splice_range same_alloc l pos x first fin h =
     bindR (list_distance first fin h) (\<lambda>len.
       if first = fin then Some (Inr h)
       else if same_alloc then
         bindS (List_transfer pos first fin h) (\<lambda>h.
         bindS (size_of l h) (\<lambda>s.
         let h = set_size l (s + scast len) h in
         bindS (size_of x h) (\<lambda>t. Some (Inr (set_size x (t - scast len) h)))))
       else
         bindR (insert_range l pos first fin h) (\<lambda>h. erase_range x first fin h))"


section \<open>Assigning\<close>

partial_function (option) resize_scan :: "loc \<Rightarrow> loc \<Rightarrow> nat \<Rightarrow> nat \<Rightarrow> 'a list_heap \<Rightarrow> ((loc \<times> nat) result) option" where
  "resize_scan l i len new_size h =
     (if i \<noteq> ls_end l \<and> len < new_size
      then bindS (next_of i h) (\<lambda>nx. resize_scan l nx (Suc len) new_size h)
      else Some (Inr (i, len)))"

definition ls_resize :: "loc \<Rightarrow> nat \<Rightarrow> 'a \<Rightarrow> 'a list_heap \<Rightarrow> ('a list_heap result) option" where
  "ls_resize l new_size x h =
     bindS (ls_begin l h) (\<lambda>i.
     bindR (resize_scan l i 0 new_size h) (\<lambda>(i, len).
       if len = new_size then erase_range l i (ls_end l) h
       else Some (fill_insert l (ls_end l) (new_size - len) x h)))"

partial_function (option) copy_scan ::
    "loc \<Rightarrow> loc \<Rightarrow> loc \<Rightarrow> loc \<Rightarrow> 'a list_heap \<Rightarrow> ((loc \<times> loc \<times> 'a list_heap) result) option" where
  "copy_scan first1 last1 first2 last2 h =
     (if first1 \<noteq> last1 \<and> first2 \<noteq> last2
      then bindS (data_of first2 h) (\<lambda>x.
           bindS (set_data first1 x h) (\<lambda>h.
           bindS (next_of first1 h) (\<lambda>n1. bindS (next_of first2 h) (\<lambda>n2. copy_scan n1 last1 n2 last2 h))))
      else Some (Inr (first1, first2, h)))"

definition assign_range :: "loc \<Rightarrow> loc \<Rightarrow> loc \<Rightarrow> 'a list_heap \<Rightarrow> ('a list_heap result) option" where
  "assign_range l first2 last2 h =
     bindS (ls_begin l h) (\<lambda>first1.
     bindR (copy_scan first1 (ls_end l) first2 last2 h) (\<lambda>(first1, first2, h).
       if first2 = last2 then erase_range l first1 (ls_end l) h
       else insert_range l (ls_end l) first2 last2 h))"

definition ls_assign :: "loc \<Rightarrow> loc \<Rightarrow> 'a list_heap \<Rightarrow> ('a list_heap result) option" where
  "ls_assign this x h =
     (if this = x then Some (Inr h)
      else bindS (ls_begin x h) (\<lambda>first2.
           bindR (assign_range this first2 (ls_end x) h) (\<lambda>h.
           bindS (size_of x h) (\<lambda>s. Some (Inr (set_size this s h))))))"

partial_function (option) fill_scan ::
    "loc \<Rightarrow> loc \<Rightarrow> nat \<Rightarrow> 'a \<Rightarrow> 'a list_heap \<Rightarrow> ((loc \<times> nat \<times> 'a list_heap) result) option" where
  "fill_scan l i n x h =
     (if i \<noteq> ls_end l \<and> n > 0
      then bindS (set_data i x h) (\<lambda>h. bindS (next_of i h) (\<lambda>nx. fill_scan l nx (n - 1) x h))
      else Some (Inr (i, n, h)))"

definition fill_assign :: "loc \<Rightarrow> nat \<Rightarrow> 'a \<Rightarrow> 'a list_heap \<Rightarrow> ('a list_heap result) option" where
  "fill_assign l n x h =
     bindS (ls_begin l h) (\<lambda>i.
     bindR (fill_scan l i n x h) (\<lambda>(i, n, h).
       if n > 0 then Some (fill_insert l (ls_end l) n x h)
       else erase_range l i (ls_end l) h))"

section \<open>Removing\<close>

partial_function (option) remove_if_loop :: "('a \<Rightarrow> bool) \<Rightarrow> loc \<Rightarrow> loc \<Rightarrow> 'a list_heap \<Rightarrow> ('a list_heap result) option" where
  "remove_if_loop pred l first h =
     (if first \<noteq> ls_end l
      then bindS (next_of first h) (\<lambda>nx.
           bindS (data_of first h) (\<lambda>x.
           bindS (if pred x then andThen (ls_erase l first h) (\<lambda>r. Inr (snd r)) else Inr h) (\<lambda>h.
           remove_if_loop pred l nx h)))
      else Some (Inr h))"

definition ls_remove_if :: "('a \<Rightarrow> bool) \<Rightarrow> loc \<Rightarrow> 'a list_heap \<Rightarrow> ('a list_heap result) option" where
  "ls_remove_if pred l h = bindS (ls_begin l h) (\<lambda>first. remove_if_loop pred l first h)"

text \<open>A reference to an element: a value that is nowhere in a list, or the element of a node.\<close>

datatype 'a reference = Val 'a | Elem loc

fun value_at :: "'a reference \<Rightarrow> 'a list_heap \<Rightarrow> 'a result" where
  "value_at (Val x) h = Inr x"
| "value_at (Elem p) h = data_of p h"

partial_function (option) remove_loop :: "'a reference \<Rightarrow> loc \<Rightarrow> loc \<Rightarrow> 'a list_heap \<Rightarrow> ('a list_heap result) option" where
  "remove_loop val l first h =
     (if first \<noteq> ls_end l
      then bindS (next_of first h) (\<lambda>nx.
           bindS (value_at val h) (\<lambda>v. bindS (data_of first h) (\<lambda>x.
           bindS (if v = x then andThen (ls_erase l first h) (\<lambda>r. Inr (snd r)) else Inr h) (\<lambda>h.
           remove_loop val l nx h))))
      else Some (Inr h))"

definition ls_remove :: "'a reference \<Rightarrow> loc \<Rightarrow> 'a list_heap \<Rightarrow> ('a list_heap result) option" where
  "ls_remove val l h = bindS (ls_begin l h) (\<lambda>first. remove_loop val l first h)"

partial_function (option) unique_loop ::
    "('a \<Rightarrow> 'a \<Rightarrow> bool) \<Rightarrow> loc \<Rightarrow> loc \<Rightarrow> 'a list_heap \<Rightarrow> ('a list_heap result) option" where
  "unique_loop eq l first h =
     bindS (next_of first h) (\<lambda>nx.
       if nx \<noteq> ls_end l then
         bindS (data_of first h) (\<lambda>x. bindS (data_of nx h) (\<lambda>y.
           if eq x y then bindS (ls_erase l nx h) (\<lambda>r. unique_loop eq l first (snd r))
           else unique_loop eq l nx h))
       else Some (Inr h))"

definition S_unique :: "('a \<Rightarrow> 'a \<Rightarrow> bool) \<Rightarrow> loc \<Rightarrow> 'a list_heap \<Rightarrow> ('a list_heap result) option" where
  "S_unique eq l h =
     bindS (ls_begin l h) (\<lambda>first. if first = ls_end l then Some (Inr h) else unique_loop eq l first h)"

section \<open>Merging, reversing, sorting\<close>

partial_function (option) S_merge_loop ::
    "('a \<Rightarrow> 'a \<Rightarrow> bool) \<Rightarrow> loc \<Rightarrow> loc \<Rightarrow> loc \<Rightarrow> loc \<Rightarrow> 'a list_heap \<Rightarrow> ((loc \<times> loc \<times> 'a list_heap) result) option" where
  "S_merge_loop lt first1 last1 first2 last2 h =
     (if first1 \<noteq> last1 \<and> first2 \<noteq> last2
      then bindS (data_of first2 h) (\<lambda>y. bindS (data_of first1 h) (\<lambda>x.
        if lt y x then
          bindS (next_of first2 h) (\<lambda>nx.
          bindS (List_transfer first1 first2 nx h) (\<lambda>h. S_merge_loop lt first1 last1 nx last2 h))
        else bindS (next_of first1 h) (\<lambda>nx. S_merge_loop lt nx last1 first2 last2 h)))
      else Some (Inr (first1, first2, h)))"

text \<open>With different allocators elements are copied; \<^verbatim>\<open>__first2\<close> stays where it is.\<close>

partial_function (option) S_merge_copy_loop ::
    "('a \<Rightarrow> 'a \<Rightarrow> bool) \<Rightarrow> loc \<Rightarrow> loc \<Rightarrow> loc \<Rightarrow> loc \<Rightarrow> 'a list_heap \<Rightarrow> ((loc \<times> loc \<times> 'a list_heap) result) option" where
  "S_merge_copy_loop lt first1 l first2 last2 h =
     (if first1 \<noteq> ls_end l \<and> first2 \<noteq> last2
      then bindS (data_of first2 h) (\<lambda>y. bindS (data_of first1 h) (\<lambda>x.
        if lt y x then bindS (ls_insert l first1 y h) (\<lambda>r. S_merge_copy_loop lt (fst r) l first2 last2 (snd r))
        else bindS (next_of first1 h) (\<lambda>nx. S_merge_copy_loop lt nx l first2 last2 h)))
      else Some (Inr (first1, first2, h)))"

definition S_merge :: "bool \<Rightarrow> ('a \<Rightarrow> 'a \<Rightarrow> bool) \<Rightarrow> loc \<Rightarrow> loc \<Rightarrow> 'a list_heap \<Rightarrow> ('a list_heap result) option" where
  "S_merge same_alloc lt that x h =
     bindS (ls_begin that h) (\<lambda>first1. bindS (ls_begin x h) (\<lambda>first2.
       if same_alloc then
         bindR (S_merge_loop lt first1 (ls_end that) first2 (ls_end x) h) (\<lambda>(first1, first2, h).
         Some (if first2 \<noteq> ls_end x then List_transfer (ls_end that) first2 (ls_end x) h else Inr h))
       else
         bindR (S_merge_copy_loop lt first1 that first2 (ls_end x) h) (\<lambda>(first1, first2, h).
         bindR (if first2 \<noteq> ls_end x then insert_range that first1 first2 (ls_end x) h else Some (Inr h)) (\<lambda>h.
         ls_clear x h))))"

definition ls_merge :: "bool \<Rightarrow> ('a \<Rightarrow> 'a \<Rightarrow> bool) \<Rightarrow> loc \<Rightarrow> loc \<Rightarrow> 'a list_heap \<Rightarrow> ('a list_heap result) option" where
  "ls_merge same_alloc lt this x h =
     bindR (S_merge same_alloc lt this x h) (\<lambda>h.
     bindS (size_of this h) (\<lambda>s. bindS (size_of x h) (\<lambda>t.
     Some (Inr (set_size x 0 (set_size this (s + t) h))))))"

partial_function (option) reverse_loop :: "loc \<Rightarrow> loc \<Rightarrow> 'a list_heap \<Rightarrow> ('a list_heap result) option" where
  "reverse_loop p tmp h =
     bindS (next_of tmp h) (\<lambda>nx. bindS (prev_of tmp h) (\<lambda>pv.
     bindS (set_next tmp pv h) (\<lambda>h. bindS (set_prev tmp nx h) (\<lambda>h.
     bindS (prev_of tmp h) (\<lambda>tmp. if tmp \<noteq> p then reverse_loop p tmp h else Some (Inr h))))))"

definition ls_reverse :: "loc \<Rightarrow> 'a list_heap \<Rightarrow> ('a list_heap result) option" where
  "ls_reverse l h = reverse_loop l l h"

definition NB :: nat where
  "NB = 64"

text \<open>The lists of \<^verbatim>\<open>__counter\<close>, as copies of the empty \<^verbatim>\<open>__carry\<close>.\<close>

primrec new_counters :: "loc \<Rightarrow> nat \<Rightarrow> 'a list_heap \<Rightarrow> ((loc list \<times> 'a list_heap) result) option" where
  "new_counters carry 0 h = Some (Inr ([], h))"
| "new_counters carry (Suc n) h =
     bindR (ls_of_list carry h) (\<lambda>(l, h). bindR (new_counters carry n h) (\<lambda>(ls, h). Some (Inr (l # ls, h))))"

primrec destroy_all :: "loc list \<Rightarrow> 'a list_heap \<Rightarrow> ('a list_heap result) option" where
  "destroy_all [] h = Some (Inr h)"
| "destroy_all (l # ls) h = bindR (ls_destroy l h) (destroy_all ls)"

partial_function (option) carry_loop ::
    "('a \<Rightarrow> 'a \<Rightarrow> bool) \<Rightarrow> loc \<Rightarrow> loc list \<Rightarrow> nat \<Rightarrow> nat \<Rightarrow> 'a list_heap \<Rightarrow> ((nat \<times> 'a list_heap) result) option" where
  "carry_loop lt carry counter fill i h =
     (if i < fill then
        bindS (ls_empty (counter ! i) h) (\<lambda>e.
          if e then Some (Inr (i, h))
          else bindR (S_merge True lt (counter ! i) carry h) (\<lambda>h.
               bindS (ls_swap carry (counter ! i) h) (\<lambda>h.
               carry_loop lt carry counter fill (Suc i) h)))
      else Some (Inr (i, h)))"

partial_function (option) sort_loop ::
    "('a \<Rightarrow> 'a \<Rightarrow> bool) \<Rightarrow> loc \<Rightarrow> loc \<Rightarrow> loc list \<Rightarrow> nat \<Rightarrow> 'a list_heap \<Rightarrow> ((nat \<times> 'a list_heap) result) option" where
  "sort_loop lt that carry counter fill h =
     bindS (ls_empty that h) (\<lambda>e.
       if e then Some (Inr (fill, h))
       else
         bindS (ls_begin carry h) (\<lambda>pos. bindS (ls_begin that h) (\<lambda>first.
         bindS (splice_one True carry pos that first h) (\<lambda>h.
         bindR (carry_loop lt carry counter fill 0 h) (\<lambda>(i, h).
         bindS (ls_swap carry (counter ! i) h) (\<lambda>h.
         let fill' = (if i = fill then Suc fill else fill) in
         if i = fill \<and> fill' \<ge> NB then Some (Inl OverflowError)
         else sort_loop lt that carry counter fill' h))))))"

primrec merge_counters :: "('a \<Rightarrow> 'a \<Rightarrow> bool) \<Rightarrow> loc list \<Rightarrow> nat \<Rightarrow> nat \<Rightarrow> 'a list_heap \<Rightarrow> ('a list_heap result) option" where
  "merge_counters lt counter i 0 h = Some (Inr h)"
| "merge_counters lt counter i (Suc n) h =
     bindR (S_merge True lt (counter ! i) (counter ! (i - 1)) h) (merge_counters lt counter (Suc i) n)"

definition S_sort :: "('a \<Rightarrow> 'a \<Rightarrow> bool) \<Rightarrow> loc \<Rightarrow> 'a list_heap \<Rightarrow> ('a list_heap result) option" where
  "S_sort lt that h =
     bindS (next_of that h) (\<lambda>first. bindS (next_of first h) (\<lambda>second.
       if first = that \<or> second = that then Some (Inr h)
       else
         bindS (List_base h) (\<lambda>(carry, h).
         bindR (new_counters carry NB h) (\<lambda>(counter, h).
         bindR (sort_loop lt that carry counter 0 h) (\<lambda>(fill, h).
         bindR (merge_counters lt counter 1 (fill - 1) h) (\<lambda>h.
         bindS (ls_swap that (counter ! (fill - 1)) h) (\<lambda>h.
         bindR (destroy_all counter h) (\<lambda>h.
         ls_destroy carry h))))))))"

definition ls_sort :: "('a \<Rightarrow> 'a \<Rightarrow> bool) \<Rightarrow> loc \<Rightarrow> 'a list_heap \<Rightarrow> ('a list_heap result) option" where
  "ls_sort lt this h =
     bindS (size_of this h) (\<lambda>size.
     bindR (S_sort lt this h) (\<lambda>h. Some (Inr (set_size this size h))))"

partial_function (option) ls_equal_loop ::
    "loc \<Rightarrow> loc \<Rightarrow> loc \<Rightarrow> loc \<Rightarrow> 'a list_heap \<Rightarrow> (bool result) option" where
  "ls_equal_loop i1 end1 i2 end2 h =
     (if i1 \<noteq> end1 \<and> i2 \<noteq> end2 then
        bindS (data_of i1 h) (\<lambda>x. bindS (data_of i2 h) (\<lambda>y.
          if x = y then bindS (next_of i1 h) (\<lambda>n1. bindS (next_of i2 h) (\<lambda>n2. ls_equal_loop n1 end1 n2 end2 h))
          else Some (Inr (i1 = end1 \<and> i2 = end2))))
      else Some (Inr (i1 = end1 \<and> i2 = end2)))"

definition ls_equal :: "loc \<Rightarrow> loc \<Rightarrow> 'a list_heap \<Rightarrow> (bool result) option" where
  "ls_equal x y h =
     bindS (ls_begin x h) (\<lambda>i1. bindS (ls_begin y h) (\<lambda>i2. ls_equal_loop i1 (ls_end x) i2 (ls_end y) h))"

end
