(* ===== verification/Stl_List_Sort.thy ===== *)
theory Stl_List_Sort
  imports Stl_List_Ops
begin

text \<open>
  Merging and sorting of the library's list: nodes are moved, never copied. \<open>S_merge\<close> takes the
  nodes of the second list into the first one, and \<open>S_sort\<close> is a merge sort that keeps runs of
  1, 2, 4, \<dots> nodes in 64 lists of its own. The result is the stable sorting of the nodes by their elements.
\<close>

section \<open>Orders on nodes\<close>

text \<open>Nodes are compared by their elements, which stay as they are.\<close>

definition elem_of :: "'a list_heap \<Rightarrow> loc \<Rightarrow> 'a" where
  "elem_of h p = the (M_data h p)"

definition by_elem :: "('a \<Rightarrow> 'a \<Rightarrow> bool) \<Rightarrow> (loc \<Rightarrow> 'a) \<Rightarrow> loc \<Rightarrow> loc \<Rightarrow> bool" where
  "by_elem lt d p q = lt (d p) (d q)"

lemma by_elem_order: "strict_weak_order lt \<Longrightarrow> strict_weak_order (by_elem lt d)"
  unfolding strict_weak_order_def by_elem_def by blast

fun lmerge :: "('b \<Rightarrow> 'b \<Rightarrow> bool) \<Rightarrow> 'b list \<Rightarrow> 'b list \<Rightarrow> 'b list" where
  "lmerge r [] ys = ys"
| "lmerge r (x # xs) [] = x # xs"
| "lmerge r (x # xs) (y # ys) = (if r y x then y # lmerge r (x # xs) ys else x # lmerge r xs (y # ys))"

lemma lmerge_Nil2 [simp]: "lmerge r xs [] = xs"
  by (cases xs) simp_all

lemma set_lmerge: "set (lmerge r xs ys) = set xs \<union> set ys"
  by (induction r xs ys rule: lmerge.induct) auto

lemma length_lmerge: "length (lmerge r xs ys) = length xs + length ys"
  by (induction r xs ys rule: lmerge.induct) auto

lemma lmerge_sorts:
  assumes "strict_weak_order r" and "ascending r xs" "ascending r ys"
  shows "sorted_of r (xs @ ys) (lmerge r xs ys)"
  using assms
proof (induction r xs ys rule: lmerge.induct)
  case (3 r x xs y ys)
  then show ?case
    using strict_weak_order.sorted_of_Cons1 [OF 3(3-5)] strict_weak_order.sorted_of_Cons2 [OF 3(3-5)] by simp
qed (simp_all add: sorted_of_def)

section \<open>Merging\<close>

lemma data_of_held: "list_objects h \<sigma> \<Longrightarrow> \<sigma> l = Some (A @ p # B) \<Longrightarrow> data_of p h = Inr (elem_of h p)"
  using listsD holds_node(3) by (fastforce simp: data_of_def elem_of_def)

lemma next_of_held: "list_objects h \<sigma> \<Longrightarrow> \<sigma> l = Some (A @ p # B) \<Longrightarrow> next_of p h = Inr (hd (B @ [l]))"
  using listsD holds_node(1) by (fastforce simp: next_of_def)

lemma ls_begin_held: "list_objects h \<sigma> \<Longrightarrow> \<sigma> l = Some ns \<Longrightarrow> ls_begin l h = Inr (hd (ns @ [l]))"
  using listsD holds_header(1) by (fastforce simp: ls_begin_def next_of_def)

lemma header_fresh: "list_objects h \<sigma> \<Longrightarrow> \<sigma> l = Some ns \<Longrightarrow> l \<notin> set ns"
  using listsD by (fastforce simp: holds_def)

lemma hd_is_header: "list_objects h \<sigma> \<Longrightarrow> \<sigma> l = Some (A @ B) \<Longrightarrow> hd (B @ [l]) = l \<longleftrightarrow> B = []"
  using header_fresh [of h \<sigma> l "A @ B"] by (cases B) auto

lemma ls_empty_held: "list_objects h \<sigma> \<Longrightarrow> \<sigma> l = Some ns \<Longrightarrow> ls_empty l h = Inr (ns = [])"
  using ls_begin_held [of h \<sigma> l ns] hd_is_header [of h \<sigma> l "[]" ns] by (auto simp: ls_empty_def ls_begin_def)

text \<open>The loop of \<open>S_merge\<close> with the transfer that follows it, from any point of the first list.\<close>

lemma S_merge_run:
  assumes "list_objects h \<sigma>" "\<sigma> l = Some (A @ B)" "\<sigma> m = Some D" "l \<noteq> m" "elem_of h = d"
  shows "\<exists>h'. bindR (S_merge_loop lt (hd (B @ [l])) l (hd (D @ [m])) m h)
      (\<lambda>(first1, first2, h). Some (if first2 \<noteq> m then List_transfer l first2 m h else Inr h)) = Some (Inr h') \<and>
    list_objects h' (\<sigma>(l \<mapsto> A @ lmerge (by_elem lt d) B D, m \<mapsto> [])) \<and>
    M_data h' = M_data h \<and> M_size h' = M_size h \<and> unused h' = unused h"
  using assms
proof (induction "by_elem lt d" B D arbitrary: A h \<sigma> rule: lmerge.induct)
  case (1 ys)
  note ls = 1
  show ?case
  proof (cases "ys = []")
    case True
    with 1 have "\<sigma>(l \<mapsto> A @ [], m \<mapsto> []) = \<sigma>" by (auto simp: fun_upd_idem)
    with True 1 show ?thesis by (simp add: S_merge_loop.simps)
  next
    case False
    with 1 have "\<sigma> m = Some ([] @ ys @ [])" "\<sigma> l = Some (A @ [])" by simp_all
    from lists_transfer [OF 1(1) this(2,1) 1(4) False] obtain h' where
      "List_transfer l (hd ys) m h = Inr h'" "list_objects h' (\<sigma>(l \<mapsto> A @ ys, m \<mapsto> []))"
      "M_data h' = M_data h" "M_size h' = M_size h" "unused h' = unused h" by auto
    moreover have "hd ys \<noteq> m" using hd_is_header [OF 1(1), of m "[]" ys] 1(3) False by auto
    ultimately show ?thesis using False by (simp add: S_merge_loop.simps)
  qed
next
  case (2 x xs)
  then have "\<sigma>(l \<mapsto> A @ x # xs, m \<mapsto> []) = \<sigma>" by (auto simp: fun_upd_idem)
  with 2 show ?case by (simp add: S_merge_loop.simps)
next
  case (3 x xs y ys)
  have m: "\<sigma> m = Some ([] @ [y] @ ys)" using "3.prems"(3) by simp
  have ne: "hd ((x # xs) @ [l]) \<noteq> l" "hd ((y # ys) @ [m]) \<noteq> m"
    using header_fresh [OF "3.prems"(1,2)] header_fresh [OF "3.prems"(1,3)] by auto
  have dy: "data_of y h = Inr (d y)" using data_of_held [OF "3.prems"(1), of m "[]" y ys] "3.prems"(3,5) by simp
  have dx: "data_of x h = Inr (d x)" using data_of_held [OF "3.prems"(1,2)] "3.prems"(5) by simp
  show ?case
  proof (cases "lt (d y) (d x)")
    case True
    have nx: "next_of y h = Inr (hd (ys @ [m]))" using next_of_held [OF "3.prems"(1), of m "[]" y ys] "3.prems"(3) by simp
    from lists_transfer [OF "3.prems"(1,2) m "3.prems"(4)] obtain h1 where
      h1: "List_transfer x y (hd (ys @ [m])) h = Inr h1" "list_objects h1 (\<sigma>(l \<mapsto> A @ [y] @ x # xs, m \<mapsto> ys))"
      "M_data h1 = M_data h" "M_size h1 = M_size h" "unused h1 = unused h" by auto
    let ?\<sigma> = "\<sigma>(l \<mapsto> A @ [y] @ x # xs, m \<mapsto> ys)"
    have "elem_of h1 = d" using h1(3) "3.prems"(5) by (simp add: elem_of_def fun_eq_iff)
    with "3.hyps"(1) [of h1 ?\<sigma> "A @ [y]"] True h1(2) "3.prems"(4) obtain h' where
      h': "bindR (S_merge_loop lt x l (hd (ys @ [m])) m h1)
        (\<lambda>(first1, first2, h). Some (if first2 \<noteq> m then List_transfer l first2 m h else Inr h)) = Some (Inr h')"
      "list_objects h' (?\<sigma>(l \<mapsto> (A @ [y]) @ lmerge (by_elem lt d) (x # xs) ys, m \<mapsto> []))"
      "M_data h' = M_data h1" "M_size h' = M_size h1" "unused h' = unused h1"
      by (auto simp: by_elem_def)
    have "S_merge_loop lt x l y m h = S_merge_loop lt x l (hd (ys @ [m])) m h1"
      using ne True dx dy nx h1(1) by (subst S_merge_loop.simps) simp
    moreover have "?\<sigma>(l \<mapsto> (A @ [y]) @ lmerge (by_elem lt d) (x # xs) ys, m \<mapsto> []) =
        \<sigma>(l \<mapsto> A @ lmerge (by_elem lt d) (x # xs) (y # ys), m \<mapsto> [])"
      using True "3.prems"(4) by (auto simp: by_elem_def fun_upd_twist)
    ultimately show ?thesis using h' h1 by (intro exI [of _ h']) simp
  next
    case False
    have nx: "next_of x h = Inr (hd (xs @ [l]))" using next_of_held [OF "3.prems"(1,2)] .
    have "\<sigma> l = Some ((A @ [x]) @ xs)" using "3.prems"(2) by simp
    from "3.hyps"(2) [OF _ "3.prems"(1) this "3.prems"(3-5)] False obtain h' where
      h': "bindR (S_merge_loop lt (hd (xs @ [l])) l y m h)
        (\<lambda>(first1, first2, h). Some (if first2 \<noteq> m then List_transfer l first2 m h else Inr h)) = Some (Inr h')"
      "list_objects h' (\<sigma>(l \<mapsto> (A @ [x]) @ lmerge (by_elem lt d) xs (y # ys), m \<mapsto> []))"
      "M_data h' = M_data h" "M_size h' = M_size h" "unused h' = unused h"
      by (auto simp: by_elem_def)
    have "S_merge_loop lt x l y m h = S_merge_loop lt (hd (xs @ [l])) l y m h"
      using ne False dx dy nx by (subst S_merge_loop.simps) simp
    with h' False show ?thesis by (intro exI [of _ h']) (simp add: by_elem_def)
  qed
qed

lemma S_merge_held:
  assumes "list_objects h \<sigma>" "\<sigma> l = Some xs" "\<sigma> m = Some ys" "l \<noteq> m"
  obtains h' where "S_merge True lt l m h = Some (Inr h')"
    "list_objects h' (\<sigma>(l \<mapsto> lmerge (by_elem lt (elem_of h)) xs ys, m \<mapsto> []))"
    "M_data h' = M_data h" "M_size h' = M_size h" "unused h' = unused h"
proof -
  have "\<sigma> l = Some ([] @ xs)" using assms(2) by simp
  from S_merge_run [OF assms(1) this assms(3,4) refl, of lt] that show ?thesis
    using ls_begin_held [OF assms(1,2)] ls_begin_held [OF assms(1,3)] by (auto simp: S_merge_def ls_end_def [abs_def] cong: if_cong)
qed


section \<open>The lists of \<open>S_sort\<close>\<close>

text \<open>The nodes in each of the counters.\<close>

definition counters :: "(loc \<Rightarrow> loc list option) \<Rightarrow> loc list \<Rightarrow> loc list list \<Rightarrow> bool" where
  "counters \<sigma> counter cs \<longleftrightarrow>
     length cs = length counter \<and> distinct counter \<and> (\<forall>k<length counter. \<sigma> (counter ! k) = Some (cs ! k))"

lemma counters_upd:
  "counters \<sigma> counter cs \<Longrightarrow> i < length counter \<Longrightarrow> counters (\<sigma>(counter ! i \<mapsto> xs)) counter (cs[i := xs])"
  unfolding counters_def using nth_eq_iff_index_eq [of counter] by fastforce

lemma counters_other [simp]: "p \<notin> set counter \<Longrightarrow> counters (\<sigma>(p := v)) counter cs \<longleftrightarrow> counters \<sigma> counter cs"
proof -
  assume "p \<notin> set counter"
  then have "\<forall>k<length counter. counter ! k \<noteq> p" by (metis nth_mem)
  then show ?thesis by (simp add: counters_def)
qed

lemma counters_nth: "counters \<sigma> counter cs \<Longrightarrow> i < length counter \<Longrightarrow> \<sigma> (counter ! i) = Some (cs ! i)"
  by (simp add: counters_def)

definition counted :: "'a list_heap \<Rightarrow> loc set \<Rightarrow> bool" where
  "counted h ls \<longleftrightarrow> (\<forall>l \<in> ls. M_size h l \<noteq> None)"

text \<open>A new run of nodes is merged into one counter after the other, until there is an empty one.\<close>

function push_run :: "('b \<Rightarrow> 'b \<Rightarrow> bool) \<Rightarrow> nat \<Rightarrow> 'b list \<Rightarrow> 'b list list \<Rightarrow> nat \<Rightarrow> nat \<times> 'b list \<times> 'b list list" where
  "push_run r fill c cs i =
     (if i < fill \<and> cs ! i \<noteq> [] then push_run r fill (lmerge r (cs ! i) c) (cs[i := []]) (Suc i) else (i, c, cs))"
  by pat_completeness auto
termination
  by (relation "measure (\<lambda>(r, fill, c, cs, i). fill - i)") auto

declare push_run.simps [simp del]

lemma push_run_length: "push_run r fill c cs i = (i', c', cs') \<Longrightarrow> length cs' = length cs"
proof (induction r fill c cs i rule: push_run.induct)
  case (1 r fill c cs i)
  then show ?case by (cases "i < fill \<and> cs ! i \<noteq> []") (auto simp: push_run.simps [of r fill c cs i])
qed

lemma carry_loop_held:
  assumes "list_objects h \<sigma>" "counters \<sigma> counter cs" "\<sigma> carry = Some c" "carry \<notin> set counter" "fill \<le> length counter"
    and "counted h (insert carry (set counter))" "r = by_elem lt (elem_of h)"
    and "push_run r fill c cs i = (i', c', cs')"
  shows "\<exists>h' \<sigma>'. carry_loop lt carry counter fill i h = Some (Inr (i', h')) \<and>
    list_objects h' \<sigma>' \<and> counters \<sigma>' counter cs' \<and> \<sigma>' carry = Some c' \<and>
    (\<forall>p. p \<noteq> carry \<longrightarrow> p \<notin> set counter \<longrightarrow> \<sigma>' p = \<sigma> p \<and> M_size h' p = M_size h p) \<and>
    M_data h' = M_data h \<and> unused h' = unused h \<and> counted h' (insert carry (set counter))"
  using assms
proof (induction r fill c cs i arbitrary: h \<sigma> rule: push_run.induct)
  case (1 r fill c cs i)
  show ?case
  proof (cases "i < fill \<and> cs ! i \<noteq> []")
    case False
    then have "carry_loop lt carry counter fill i h = Some (Inr (i, h))"
      using ls_empty_held [OF "1.prems"(1) counters_nth [OF "1.prems"(2)], of i] "1.prems"(5)
      by (subst carry_loop.simps) auto
    moreover have "i' = i \<and> c' = c \<and> cs' = cs"
      using False "1.prems"(8) by (subst (asm) push_run.simps) (simp split: if_splits)
    ultimately show ?thesis using "1.prems" by blast
  next
    case True
    let ?l = "counter ! i"
    have i: "i < length counter" using True "1.prems"(5) by simp
    have l: "\<sigma> ?l = Some (cs ! i)" "?l \<in> set counter" "?l \<noteq> carry"
      using counters_nth [OF "1.prems"(2) i] i "1.prems"(4) by auto
    obtain h1 where h1: "S_merge True lt ?l carry h = Some (Inr h1)"
      "list_objects h1 (\<sigma>(?l \<mapsto> lmerge r (cs ! i) c, carry \<mapsto> []))"
      "M_data h1 = M_data h" "M_size h1 = M_size h" "unused h1 = unused h"
      using S_merge_held [OF "1.prems"(1) l(1) "1.prems"(3) l(3), of lt] "1.prems"(7) by metis
    let ?\<sigma> = "\<sigma>(?l \<mapsto> lmerge r (cs ! i) c, carry \<mapsto> [])"
    obtain s t where st: "M_size h1 carry = Some s" "M_size h1 ?l = Some t"
      using "1.prems"(6) h1(4) l(2) by (fastforce simp: counted_def)
    have c1: "?\<sigma> carry = Some []" "?\<sigma> ?l = Some (lmerge r (cs ! i) c)" using l(3) by simp_all
    obtain h2 where h2: "ls_swap carry ?l h1 = Inr h2"
      "list_objects h2 (?\<sigma>(carry \<mapsto> lmerge r (cs ! i) c, ?l \<mapsto> []))"
      "M_data h2 = M_data h1" "unused h2 = unused h1"
      "M_size h2 = (M_size h1)(carry \<mapsto> fst (swapped_sizes [] s (lmerge r (cs ! i) c) t),
         ?l \<mapsto> snd (swapped_sizes [] s (lmerge r (cs ! i) c) t))"
      using lists_swap [OF h1(2) c1(1) st(1) c1(2) st(2)] l(3) by metis
    let ?\<sigma>2 = "?\<sigma>(carry \<mapsto> lmerge r (cs ! i) c, ?l \<mapsto> [])"
    have 2: "counters ?\<sigma>2 counter (cs[i := []])"
    proof -
      have "counters (\<sigma>(?l \<mapsto> lmerge r (cs ! i) c)) counter (cs[i := lmerge r (cs ! i) c])"
        by (rule counters_upd [OF "1.prems"(2) i])
      then have "counters (\<sigma>(?l \<mapsto> lmerge r (cs ! i) c, carry \<mapsto> [], carry \<mapsto> lmerge r (cs ! i) c)) counter
          (cs[i := lmerge r (cs ! i) c])"
        using "1.prems"(4) by simp
      from counters_upd [OF this i, of "[]"] show ?thesis by simp
    qed
    have 3: "?\<sigma>2 carry = Some (lmerge r (cs ! i) c)" using l(3) by simp
    have 6: "counted h2 (insert carry (set counter))"
      using "1.prems"(6) h1(4) h2(5) by (auto simp: counted_def)
    have 7: "r = by_elem lt (elem_of h2)"
      using "1.prems"(7) h1(3) h2(3) by (simp add: elem_of_def fun_eq_iff by_elem_def)
    have 8: "push_run r fill (lmerge r (cs ! i) c) (cs[i := []]) (Suc i) = (i', c', cs')"
      using True "1.prems"(8) by (simp add: push_run.simps [of r fill c cs i])
    from "1.IH" [OF True h2(2) 2 3 "1.prems"(4,5) 6 7 8] obtain h' \<sigma>' where
      h': "carry_loop lt carry counter fill (Suc i) h2 = Some (Inr (i', h'))"
      "list_objects h' \<sigma>' \<and> counters \<sigma>' counter cs' \<and> \<sigma>' carry = Some c'"
      "\<forall>p. p \<noteq> carry \<longrightarrow> p \<notin> set counter \<longrightarrow> \<sigma>' p = ?\<sigma>2 p \<and> M_size h' p = M_size h2 p"
      "M_data h' = M_data h2" "unused h' = unused h2" "counted h' (insert carry (set counter))"
      by blast
    have "carry_loop lt carry counter fill i h = Some (Inr (i', h'))"
      using True ls_empty_held [OF "1.prems"(1) l(1)] h1(1) h2(1) h'(1) by (subst carry_loop.simps) simp
    moreover have "\<forall>p. p \<noteq> carry \<longrightarrow> p \<notin> set counter \<longrightarrow> \<sigma>' p = \<sigma> p \<and> M_size h' p = M_size h p"
      using h'(3) l(2) h1(4) h2(5) by auto
    ultimately show ?thesis
      using h'(2,4-6) h1(3,5) h2(3,4) by (intro exI [of _ h'] exI [of _ \<sigma>']) simp
  qed
qed


lemma push_run_stops:
  assumes "push_run r fill c cs i = (i', c', cs')" and "i \<le> fill"
  shows "i \<le> i' \<and> i' \<le> fill \<and> (i' < fill \<longrightarrow> cs' ! i' = []) \<and> (\<forall>k\<ge>i'. cs' ! k = cs ! k) \<and>
    (\<forall>k. i \<le> k \<longrightarrow> k < i' \<longrightarrow> k < length cs \<longrightarrow> cs' ! k = []) \<and> (\<forall>k<i. cs' ! k = cs ! k)"
  using assms
proof (induction r fill c cs i rule: push_run.induct)
  case (1 r fill c cs i)
  show ?case
  proof (cases "i < fill \<and> cs ! i \<noteq> []")
    case True
    then have "push_run r fill (lmerge r (cs ! i) c) (cs[i := []]) (Suc i) = (i', c', cs')"
      using "1.prems"(1) by (simp add: push_run.simps [of r fill c cs i])
    from "1.IH" [OF True this] True have IH: "Suc i \<le> i'" "i' \<le> fill" "i' < fill \<longrightarrow> cs' ! i' = []"
      "\<forall>k\<ge>i'. cs' ! k = cs[i := []] ! k" "\<forall>k. Suc i \<le> k \<longrightarrow> k < i' \<longrightarrow> k < length cs \<longrightarrow> cs' ! k = []"
      "\<forall>k<Suc i. cs' ! k = cs[i := []] ! k" by auto
    have "cs' ! k = []" if "i \<le> k" "k < i'" "k < length cs" for k
    proof (cases "k = i")
      case True
      then show ?thesis using IH(6) that by simp
    qed (use IH(5) that in auto)
    with IH show ?thesis by auto
  next
    case False
    then have "i' = i \<and> c' = c \<and> cs' = cs"
      using "1.prems"(1) by (subst (asm) push_run.simps) (simp split: if_splits)
    with False "1.prems"(2) show ?thesis by auto
  qed
qed

text \<open>What the main loop does to the counters; \<open>None\<close> when they do not suffice.\<close>

fun sort_runs :: "('b \<Rightarrow> 'b \<Rightarrow> bool) \<Rightarrow> 'b list \<Rightarrow> 'b list list \<Rightarrow> nat \<Rightarrow> (nat \<times> 'b list list) option" where
  "sort_runs r [] cs fill = Some (fill, cs)"
| "sort_runs r (x # xs) cs fill =
     (let (i, c, cs) = push_run r fill [x] cs 0; fill' = (if i = fill then Suc fill else fill) in
      if i = fill \<and> fill' \<ge> NB then None else sort_runs r xs (cs[i := c]) fill')"

text \<open>One node goes from a list to an empty one.\<close>

lemma splice_one_held:
  assumes "list_objects h \<sigma>" "\<sigma> carry = Some []" "\<sigma> that = Some (x # xs)" "carry \<noteq> that" "counted h {carry, that}"
  obtains h' where "splice_one True carry carry that x h = Inr h'" "list_objects h' (\<sigma>(carry \<mapsto> [x], that \<mapsto> xs))"
    "M_data h' = M_data h" "unused h' = unused h"
    "\<And>l. M_size h' l \<noteq> None \<longleftrightarrow> M_size h l \<noteq> None" "\<And>l. l \<noteq> carry \<Longrightarrow> l \<noteq> that \<Longrightarrow> M_size h' l = M_size h l"
proof -
  have c: "\<sigma> carry = Some ([] @ [])" and t: "\<sigma> that = Some ([] @ [x] @ xs)" using assms(2,3) by simp_all
  have ap: "apart carry [] that (x # xs)" using listsD2 [OF assms(1-3,4)] .
  have nx: "next_of x h = Inr (hd (xs @ [that]))" using next_of_held [OF assms(1), of that "[]" x xs] t by simp
  have "hd (xs @ [that]) \<in> set (x # xs) \<union> {that}" by (cases xs) auto
  then have ne: "carry \<noteq> x" "carry \<noteq> hd (xs @ [that])" using ap by (auto simp: apart_def)
  from lists_transfer [OF assms(1) c t assms(4)] obtain h1 where
    h1: "List_transfer carry x (hd (xs @ [that])) h = Inr h1" "list_objects h1 (\<sigma>(carry \<mapsto> [x], that \<mapsto> xs))"
    "M_data h1 = M_data h" "M_size h1 = M_size h" "unused h1 = unused h" by auto
  obtain s u where s: "M_size h1 carry = Some s" "M_size h1 that = Some u"
    using assms(5) h1(4) by (auto simp: counted_def)
  let ?h = "set_size that (u - 1) (set_size carry (s + 1) h1)"
  have "splice_one True carry carry that x h = Inr ?h"
    using nx ne h1(1) s assms(4) by (simp add: splice_one_def size_of_def set_size_def Let_def)
  moreover have "list_objects ?h (\<sigma>(carry \<mapsto> [x], that \<mapsto> xs))"
    using h1(2) by (simp add: list_objects_def holds_def set_size_def)
  ultimately show ?thesis
    using that [of ?h] h1 s assms(4) by (auto simp: set_size_def)
qed

lemma sort_loop_held:
  assumes "list_objects h \<sigma>" "counters \<sigma> counter cs" "\<sigma> carry = Some []" "\<sigma> that = Some xs"
    and "carry \<notin> set counter" "that \<notin> set counter" "carry \<noteq> that" "length counter = NB"
    and "fill < NB" "\<forall>k. fill \<le> k \<longrightarrow> k < NB \<longrightarrow> cs ! k = []"
    and "counted h ({carry, that} \<union> set counter)" "r = by_elem lt (elem_of h)"
    and "sort_runs r xs cs fill = Some (fill', cs')"
  shows "\<exists>h' \<sigma>'. sort_loop lt that carry counter fill h = Some (Inr (fill', h')) \<and>
    list_objects h' \<sigma>' \<and> counters \<sigma>' counter cs' \<and> \<sigma>' carry = Some [] \<and> \<sigma>' that = Some [] \<and>
    (\<forall>p. p \<noteq> carry \<longrightarrow> p \<noteq> that \<longrightarrow> p \<notin> set counter \<longrightarrow> \<sigma>' p = \<sigma> p \<and> M_size h' p = M_size h p) \<and>
    M_data h' = M_data h \<and> unused h' = unused h \<and> counted h' ({carry, that} \<union> set counter) \<and> fill' < NB"
  using assms
proof (induction r xs cs fill arbitrary: h \<sigma> rule: sort_runs.induct)
  case (1 r cs fill)
  then show ?case
    using ls_empty_held [OF "1.prems"(1,4)] by (subst sort_loop.simps) auto
next
  case (2 r x xs cs fill)
  obtain i c cs1 where pr: "push_run r fill [x] cs 0 = (i, c, cs1)" by (metis prod_cases3)
  define fill1 where "fill1 = (if i = fill then Suc fill else fill)"
  have small: "\<not> (i = fill \<and> NB \<le> fill1)" and rest: "sort_runs r xs (cs1[i := c]) fill1 = Some (fill', cs')"
    using "2.prems"(13) pr by (auto simp: fill1_def Let_def split: if_splits)
  have st: "i \<le> fill" "i < fill \<longrightarrow> cs1 ! i = []" "\<forall>k\<ge>i. cs1 ! k = cs ! k"
    using push_run_stops [OF pr] by auto
  have ci: "cs1 ! i = []" using st "2.prems"(9,10) by (cases "i = fill") auto
  have lc: "length cs1 = NB" using push_run_length [OF pr] "2.prems"(2,8) by (simp add: counters_def)
  have i: "i < length counter" using st(1) "2.prems"(8,9) by simp
  have cc: "counted h {carry, that}" using "2.prems"(11) by (auto simp: counted_def)
  obtain h1 where h1: "splice_one True carry carry that x h = Inr h1" "list_objects h1 (\<sigma>(carry \<mapsto> [x], that \<mapsto> xs))"
    "M_data h1 = M_data h" "unused h1 = unused h" "\<And>l. M_size h1 l \<noteq> None \<longleftrightarrow> M_size h l \<noteq> None"
    "\<And>l. l \<noteq> carry \<Longrightarrow> l \<noteq> that \<Longrightarrow> M_size h1 l = M_size h l"
    by (rule splice_one_held [OF "2.prems"(1,3,4,7) cc]) (rule that)
  let ?\<sigma> = "\<sigma>(carry \<mapsto> [x], that \<mapsto> xs)"
  have "counters ?\<sigma> counter cs" "?\<sigma> carry = Some [x]" "fill \<le> length counter" "counted h1 (insert carry (set counter))"
    "r = by_elem lt (elem_of h1)"
    using "2.prems" h1(3,5) by (auto simp: counted_def elem_of_def fun_eq_iff by_elem_def)
  from carry_loop_held [OF h1(2) this(1,2) "2.prems"(5) this(3-5) pr] obtain h2 \<sigma>2 where
    h2: "carry_loop lt carry counter fill 0 h1 = Some (Inr (i, h2))" "list_objects h2 \<sigma>2" "counters \<sigma>2 counter cs1"
    "\<sigma>2 carry = Some c" "\<And>p. p \<noteq> carry \<Longrightarrow> p \<notin> set counter \<Longrightarrow> \<sigma>2 p = ?\<sigma> p \<and> M_size h2 p = M_size h1 p"
    "M_data h2 = M_data h1" "unused h2 = unused h1" "counted h2 (insert carry (set counter))"
    by blast
  let ?l = "counter ! i"
  have l: "\<sigma>2 ?l = Some []" "?l \<in> set counter" "carry \<noteq> ?l" "that \<noteq> ?l"
    using counters_nth [OF h2(3) i] ci i "2.prems"(5,6) by auto
  obtain s u where su: "M_size h2 carry = Some s" "M_size h2 ?l = Some u"
    using h2(8) l(2) by (fastforce simp: counted_def)
  obtain h3 where h3: "ls_swap carry ?l h2 = Inr h3" "list_objects h3 (\<sigma>2(carry \<mapsto> [], ?l \<mapsto> c))"
    "M_data h3 = M_data h2" "unused h3 = unused h2"
    "M_size h3 = (M_size h2)(carry \<mapsto> fst (swapped_sizes c s [] u), ?l \<mapsto> snd (swapped_sizes c s [] u))"
    using lists_swap [OF h2(2,4) su(1) l(1) su(2) l(3)] by metis
  let ?\<sigma>3 = "\<sigma>2(carry \<mapsto> [], ?l \<mapsto> c)"
  have p2: "counters ?\<sigma>3 counter (cs1[i := c])"
    using counters_upd [OF _ i, of "\<sigma>2(carry \<mapsto> [])" cs1 c] h2(3) "2.prems"(5) by simp
  have p3: "?\<sigma>3 carry = Some []" "?\<sigma>3 that = Some xs" using l h2(5) [of that] "2.prems"(6,7) by auto
  have p9: "fill1 < NB" using small "2.prems"(9) by (auto simp: fill1_def)
  have p10: "\<forall>k. fill1 \<le> k \<longrightarrow> k < NB \<longrightarrow> cs1[i := c] ! k = []"
    using st "2.prems"(10) by (auto simp: fill1_def nth_list_update lc)
  have p11: "counted h3 ({carry, that} \<union> set counter)"
    using h2(5) [of that] h2(8) h3(5) h1(5) "2.prems"(6,7,11) l(2) by (auto simp: counted_def)
  have p12: "r = by_elem lt (elem_of h3)"
    using "2.prems"(12) h1(3) h2(6) h3(3) by (auto simp: elem_of_def fun_eq_iff by_elem_def)
  have IH: "\<exists>h' \<sigma>'. sort_loop lt that carry counter fill1 h3 = Some (Inr (fill', h')) \<and>
    list_objects h' \<sigma>' \<and> counters \<sigma>' counter cs' \<and> \<sigma>' carry = Some [] \<and> \<sigma>' that = Some [] \<and>
    (\<forall>p. p \<noteq> carry \<longrightarrow> p \<noteq> that \<longrightarrow> p \<notin> set counter \<longrightarrow> \<sigma>' p = ?\<sigma>3 p \<and> M_size h' p = M_size h3 p) \<and>
    M_data h' = M_data h3 \<and> unused h' = unused h3 \<and> counted h' ({carry, that} \<union> set counter) \<and> fill' < NB"
    by (rule "2.IH" [OF pr [symmetric] refl refl fill1_def small h3(2) p2 p3 "2.prems"(5-8) p9 p10 p11 p12 rest])
  then obtain h' \<sigma>' where h': "sort_loop lt that carry counter fill1 h3 = Some (Inr (fill', h'))"
    "list_objects h' \<sigma>' \<and> counters \<sigma>' counter cs' \<and> \<sigma>' carry = Some [] \<and> \<sigma>' that = Some []"
    "\<forall>p. p \<noteq> carry \<longrightarrow> p \<noteq> that \<longrightarrow> p \<notin> set counter \<longrightarrow> \<sigma>' p = ?\<sigma>3 p \<and> M_size h' p = M_size h3 p"
    "M_data h' = M_data h3" "unused h' = unused h3" "counted h' ({carry, that} \<union> set counter)" "fill' < NB"
    by blast
  have "sort_loop lt that carry counter fill h = Some (Inr (fill', h'))"
    using ls_empty_held [OF "2.prems"(1,4)] ls_begin_held [OF "2.prems"(1,3)] ls_begin_held [OF "2.prems"(1,4)]
      h1(1) h2(1) h3(1) h'(1) small
    by (subst sort_loop.simps) (auto simp: Let_def fill1_def split: if_splits)
  moreover have "\<sigma>' p = \<sigma> p \<and> M_size h' p = M_size h p" if "p \<noteq> carry" "p \<noteq> that" "p \<notin> set counter" for p
    using that h'(3) h2(5) [of p] h1(6) [of p] h3(5) l(2) by auto
  ultimately show ?case
    using h'(2,4-7) h1(3,4) h2(6,7) h3(3,4) by (intro exI [of _ h'] exI [of _ \<sigma>']) simp
qed


section \<open>The runs in the counters are a sorting in progress\<close>

text \<open>The runs, the oldest ones first.\<close>

definition pile :: "nat \<Rightarrow> 'b list list \<Rightarrow> 'b list" where
  "pile fill cs = concat (rev (take fill cs))"

lemma pile_split:
  assumes "i < fill" "fill \<le> length cs"
  shows "pile fill cs = concat (rev (drop (Suc i) (take fill cs))) @ cs ! i @ concat (rev (take i cs))"
proof -
  have "take fill cs = take i (take fill cs) @ take fill cs ! i # drop (Suc i) (take fill cs)"
    using assms by (intro id_take_nth_drop) simp
  then have "take fill cs = take i cs @ cs ! i # drop (Suc i) (take fill cs)"
    using assms by (simp add: min_def)
  then show ?thesis unfolding pile_def by (metis (no_types, lifting) append.assoc append_Nil2 concat.simps(1,2) concat_append rev.simps(2) rev_append)
qed

lemma concat_empty: "(\<And>j. j < n \<Longrightarrow> cs ! j = []) \<Longrightarrow> n \<le> length cs \<Longrightarrow> concat (rev (take n cs)) = []"
  by (auto simp: concat_eq_Nil_conv in_set_conv_nth)

text \<open>With the counters up to \<open>i\<close> empty: what is above, then the run in question.\<close>

lemma pile_at:
  assumes "i < fill" "fill \<le> length cs" "\<And>j. j < i \<Longrightarrow> cs ! j = []"
  shows "pile fill (cs[i := x]) = concat (rev (drop (Suc i) (take fill cs))) @ x"
proof -
  have "concat (rev (take i (cs[i := x]))) = []" using assms by (intro concat_empty) auto
  with pile_split [of i fill "cs[i := x]"] assms(1,2) show ?thesis
    by (simp add: take_update_swap drop_update_cancel)
qed

text \<open>
  Nodes \<open>P\<close> have been taken so far: counter \<open>k\<close> is empty or holds an ascending run of \<open>2 ^ k\<close>, the last
  one in use is not empty, and together they are \<open>P\<close> with equivalent nodes in order.
\<close>

definition runs_ok :: "('b \<Rightarrow> 'b \<Rightarrow> bool) \<Rightarrow> nat \<Rightarrow> 'b list list \<Rightarrow> bool" where
  "runs_ok r fill cs \<longleftrightarrow>
     length cs = NB \<and> fill < NB \<and> (\<forall>k<NB. ascending r (cs ! k)) \<and> (\<forall>k<NB. fill \<le> k \<longrightarrow> cs ! k = []) \<and>
     (\<forall>k<fill. cs ! k = [] \<or> length (cs ! k) = 2 ^ k)"

lemma runs_ok_put:
  assumes "runs_ok r fill cs" and "ascending r c" "c = [] \<or> length c = 2 ^ i"
    and "i < fill \<and> fill' = fill \<or> i = fill \<and> fill' = Suc fill \<and> fill' < NB"
  shows "runs_ok r fill' (cs[i := c])"
proof -
  have i: "i < length cs" using assms by (auto simp: runs_ok_def)
  have "cs[i := c] ! k = (if k = i then c else cs ! k)" for k using i by simp
  with assms show ?thesis by (auto simp: runs_ok_def less_Suc_eq)
qed

lemma push_run_sorts:
  assumes "strict_weak_order r" and "push_run r fill c cs i = (i', c', cs')" and "i \<le> fill" and "runs_ok r fill cs"
    and "ascending r c" "length c = 2 ^ i" "\<And>j. j < i \<Longrightarrow> cs ! j = []" and "stable r P (pile fill cs @ c)"
  shows "runs_ok r fill cs' \<and> ascending r c' \<and> length c' = 2 ^ i' \<and> stable r P (pile fill cs' @ c') \<and>
    (\<forall>j<i'. cs' ! j = [])"
  using assms
proof (induction r fill c cs i rule: push_run.induct)
  case (1 r fill c cs i)
  have len: "length cs = NB" "fill < NB" using "1.prems"(4) by (simp_all add: runs_ok_def)
  show ?case
  proof (cases "i < fill \<and> cs ! i \<noteq> []")
    case True
    let ?c = "lmerge r (cs ! i) c" and ?cs = "cs[i := []]"
    have i: "i < NB" "fill \<le> length cs" using True len by simp_all
    have asc: "ascending r (cs ! i)" using "1.prems"(4) i(1) by (simp add: runs_ok_def)
    have m: "sorted_of r (cs ! i @ c) ?c"
      by (rule lmerge_sorts [OF "1.prems"(1) asc "1.prems"(5)])
    have run: "push_run r fill ?c ?cs (Suc i) = (i', c', cs')"
      using True "1.prems"(2) by (simp add: push_run.simps [of r fill c cs i])
    have "runs_ok r fill ?cs" using True by (intro runs_ok_put [OF "1.prems"(4)]) simp_all
    moreover have "length (cs ! i) = 2 ^ i" using "1.prems"(4) True by (auto simp: runs_ok_def)
    then have "length ?c = 2 ^ Suc i" using "1.prems"(6) by (simp add: length_lmerge)
    moreover have "?cs ! j = []" if "j < Suc i" for j
      using that "1.prems"(7) i len by (cases "j = i") auto
    moreover have "stable r P (pile fill ?cs @ ?c)"
    proof -
      let ?u = "concat (rev (drop (Suc i) (take fill cs)))"
      have "pile fill cs = ?u @ cs ! i" "pile fill ?cs = ?u"
        using pile_at [of i fill cs "cs ! i"] pile_at [of i fill cs "[]"] True i(2) "1.prems"(7) by auto
      moreover have "stable r (?u @ cs ! i @ c) (?u @ ?c)"
        using m by (intro stable_append) (simp_all add: sorted_of_def)
      ultimately show ?thesis using stable_trans [of r P] "1.prems"(8) by auto
    qed
    ultimately show ?thesis
      using "1.IH" [OF True "1.prems"(1) run] True m by (simp add: sorted_of_def)
  next
    case False
    then have "i' = i \<and> c' = c \<and> cs' = cs"
      using "1.prems"(2) by (subst (asm) push_run.simps) (simp split: if_splits)
    with "1.prems" show ?thesis by simp
  qed
qed


text \<open>64 counters are enough: when the last one is reached \<open>2 ^ 63\<close> nodes have been taken.\<close>

lemma sort_runs_sorts:
  assumes "strict_weak_order r" and "runs_ok r fill cs" "stable r P (pile fill cs)" "length P + length xs < 2 ^ 63"
    and "fill > 0 \<or> P = []" "P = [] \<longrightarrow> fill = 0"
  shows "\<exists>fill' cs'. sort_runs r xs cs fill = Some (fill', cs') \<and> runs_ok r fill' cs' \<and> stable r (P @ xs) (pile fill' cs') \<and>
    (fill' > 0 \<or> P @ xs = [])"
  using assms
proof (induction r xs cs fill arbitrary: P rule: sort_runs.induct)
  case (2 r x xs cs fill)
  obtain i c cs1 where pr: "push_run r fill [x] cs 0 = (i, c, cs1)" by (metis prod_cases3)
  have "stable r (P @ [x]) (pile fill cs @ [x])" using "2.prems"(3) by (intro stable_append) simp_all
  with push_run_sorts [OF "2.prems"(1) pr _ "2.prems"(2)] have
    ok: "runs_ok r fill cs1" "ascending r c" "length c = 2 ^ i" "stable r (P @ [x]) (pile fill cs1 @ c)" "\<forall>j<i. cs1 ! j = []"
    by auto
  have st: "i \<le> fill" "i < fill \<longrightarrow> cs1 ! i = []" using push_run_stops [OF pr] by auto
  have len: "length cs1 = NB" "fill < NB" using ok(1) by (simp_all add: runs_ok_def)
  define fill1 where "fill1 = (if i = fill then Suc fill else fill)"
  have "length c \<le> length (P @ [x])"
    using strict_weak_order.stable_length [OF "2.prems"(1) ok(4)] by simp
  then have "(2 :: nat) ^ i < 2 ^ 63" using ok(3) "2.prems"(4) by simp
  then have "i < 63" by (rule power_less_imp_less_exp [rotated]) simp
  then have small: "\<not> (i = fill \<and> NB \<le> fill1)" by (simp add: fill1_def NB_def)
  have 1: "runs_ok r fill1 (cs1[i := c])"
    using small st(1) ok len by (intro runs_ok_put [OF ok(1)]) (auto simp: fill1_def)
  have 2: "stable r (P @ [x]) (pile fill1 (cs1[i := c]))"
  proof -
    have "pile fill1 (cs1[i := c]) = concat (rev (drop (Suc i) (take fill1 cs1))) @ c"
      using st(1) len small ok(5) by (intro pile_at) (auto simp: fill1_def NB_def split: if_splits)
    also have "\<dots> = pile fill cs1 @ c"
    proof (cases "i = fill")
      case True
      then have "pile fill cs1 = []" using concat_empty [of fill cs1] ok(5) len by (simp add: pile_def)
      then show ?thesis using True by (simp add: fill1_def)
    next
      case False
      then have "pile fill (cs1[i := []]) = concat (rev (drop (Suc i) (take fill cs1)))"
        using pile_at [of i fill cs1 "[]"] st(1) len ok(5) by simp
      moreover have "cs1[i := []] = cs1" using False st by (metis list_update_id order_le_neq_trans)
      ultimately show ?thesis using False by (simp add: fill1_def)
    qed
    finally show ?thesis using ok(4) by simp
  qed
  have "fill1 > 0" using st(1) by (auto simp: fill1_def)
  with "2.IH" [OF pr [symmetric] refl refl fill1_def small "2.prems"(1) 1 2] "2.prems"(4)
  have "\<exists>fill' cs'. sort_runs r xs (cs1[i := c]) fill1 = Some (fill', cs') \<and> runs_ok r fill' cs' \<and>
      stable r ((P @ [x]) @ xs) (pile fill' cs') \<and> (fill' > 0 \<or> (P @ [x]) @ xs = [])" by auto
  then show ?case using pr small by (simp add: fill1_def Let_def)
qed auto

text \<open>In the end the counters are merged into the last one.\<close>

primrec merge_down :: "('b \<Rightarrow> 'b \<Rightarrow> bool) \<Rightarrow> 'b list list \<Rightarrow> nat \<Rightarrow> nat \<Rightarrow> 'b list list" where
  "merge_down r cs i 0 = cs"
| "merge_down r cs i (Suc n) =
     merge_down r (cs[i := lmerge r (cs ! i) (cs ! (i - 1)), i - 1 := []]) (Suc i) n"

lemma merge_down_sorts:
  assumes "strict_weak_order r" and "length cs = NB" "fill = i + n" "fill < NB" "0 < i"
    and "\<forall>k<NB. ascending r (cs ! k)" "\<forall>k<NB. fill \<le> k \<longrightarrow> cs ! k = []" "\<forall>j. Suc j < i \<longrightarrow> cs ! j = []"
    and "stable r P (pile fill cs)"
  shows "sorted_of r P (merge_down r cs i n ! (fill - 1)) \<and> length (merge_down r cs i n) = NB \<and>
    (\<forall>k<NB. k \<noteq> fill - 1 \<longrightarrow> merge_down r cs i n ! k = [])"
  using assms(2-)
proof (induction n arbitrary: cs i)
  case 0
  have "pile fill cs = cs ! (fill - 1)"
    using pile_at [of "fill - 1" fill cs "cs ! (fill - 1)"] 0 by simp
  with 0 show ?case by (auto simp: sorted_of_def)
next
  case (Suc n)
  let ?m = "lmerge r (cs ! i) (cs ! (i - 1))" and ?cs = "cs[i := lmerge r (cs ! i) (cs ! (i - 1)), i - 1 := []]"
  have i: "i < fill" "i < NB" "i - 1 < NB" "i - 1 \<noteq> i" using Suc.prems by auto
  have m: "sorted_of r (cs ! i @ cs ! (i - 1)) ?m"
    using Suc.prems(5) i by (intro lmerge_sorts [OF assms(1)]) auto
  have nth: "?cs ! k = (if k = i - 1 then [] else if k = i then ?m else cs ! k)" for k
    using i Suc.prems(1) by (simp add: nth_list_update)
  let ?u = "concat (rev (drop (Suc i) (take fill cs)))"
  have "pile fill cs = ?u @ cs ! i @ cs ! (i - 1)"
  proof -
    have "take i cs = take (i - 1) cs @ [cs ! (i - 1)]"
      using i Suc.prems(1,4) take_Suc_conv_app_nth [of "i - 1" cs] by simp
    moreover have "concat (rev (take (i - 1) cs)) = []"
      using Suc.prems(1,4,7) i by (intro concat_empty) auto
    ultimately have "concat (rev (take i cs)) = cs ! (i - 1)" by simp
    with pile_split [of i fill cs] i Suc.prems show ?thesis by simp
  qed
  moreover have "pile fill ?cs = ?u @ ?m"
  proof -
    have "?cs ! j = []" if "j < i" for j
      using nth [of j] that Suc.prems(7) by (cases "j = i - 1") auto
    then have "concat (rev (take i ?cs)) = []"
      using Suc.prems(1) i by (intro concat_empty) auto
    moreover have "drop (Suc i) (take fill ?cs) = drop (Suc i) (take fill cs)"
      by (simp add: take_update_swap drop_update_cancel)
    ultimately show ?thesis using pile_split [of i fill ?cs] i Suc.prems nth by simp
  qed
  moreover have "stable r (?u @ cs ! i @ cs ! (i - 1)) (?u @ ?m)"
    using m by (intro stable_append) (simp_all add: sorted_of_def)
  ultimately have "stable r P (pile fill ?cs)" using Suc.prems(8) stable_trans by metis
  moreover have "ascending r ?m" using m by (simp add: sorted_of_def)
  then have "\<forall>k<NB. ascending r (?cs ! k)" using nth Suc.prems(5) by (metis ascending_simps(1))
  moreover have "?cs ! j = []" if "Suc j < Suc i" for j
    using nth [of j] that Suc.prems(7) by (cases "j = i - 1") auto
  moreover have "?cs ! k = []" if "k < NB" "fill \<le> k" for k
    using nth [of k] that Suc.prems(6) i by auto
  ultimately have "sorted_of r P (merge_down r ?cs (Suc i) n ! (fill - 1)) \<and> length (merge_down r ?cs (Suc i) n) = NB \<and>
    (\<forall>k<NB. k \<noteq> fill - 1 \<longrightarrow> merge_down r ?cs (Suc i) n ! k = [])"
    using Suc.prems(1-4) by (intro Suc.IH) auto
  then show ?case by simp
qed


section \<open>Lists that come and go\<close>

lemma unused_fresh:
  assumes "list_objects h \<sigma>"
  shows "\<sigma> (unused h) = None" "\<sigma> l = Some ns \<Longrightarrow> l < unused h" "\<sigma> l = Some ns \<Longrightarrow> p \<in> set ns \<Longrightarrow> p < unused h"
proof -
  show 1: "l < unused h" if "\<sigma> l = Some ns" for l ns using listsD [OF assms that] by (simp add: holds_def)
  show "\<sigma> (unused h) = None" using 1 by (cases "\<sigma> (unused h)") auto
  show "p < unused h" if "\<sigma> l = Some ns" "p \<in> set ns" using listsD [OF assms that(1)] that(2) by (simp add: holds_def)
qed

lemma List_base_held:
  assumes "list_objects h \<sigma>"
  obtains h' where "List_base h = Inr (unused h, h')" "list_objects h' (\<sigma>(unused h \<mapsto> []))"
    "M_data h' = M_data h" "M_size h' = (M_size h)(unused h \<mapsto> 0)" "unused h' = Suc (unused h)"
proof -
  let ?u = "unused h"
  let ?h = "h\<lparr>M_next := (M_next h)(?u \<mapsto> ?u), M_prev := (M_prev h)(?u \<mapsto> ?u), M_size := (M_size h)(?u \<mapsto> 0), unused := Suc ?u\<rparr>"
  have "List_base h = Inr (?u, ?h)"
    by (simp add: List_base_def new_header_def empty_initialize_def set_next_def set_prev_def next_of_def set_size_def Let_def)
  moreover have old: "holds ?h l ns \<and> apart ?u [] l ns" if "\<sigma> l = Some ns" for l ns
  proof
    have p: "p < ?u" if "p \<in> set (l # ns)" for p using unused_fresh(2,3) [OF assms \<open>\<sigma> l = Some ns\<close>] that by auto
    show "holds ?h l ns" by (rule holds_frame [OF listsD [OF assms \<open>\<sigma> l = Some ns\<close>]]) (use p in auto)
    show "apart ?u [] l ns" using p by (auto simp: apart_def)
  qed
  have "holds ?h ?u []" by (simp add: holds_def)
  then have "list_objects ?h (\<sigma>(?u \<mapsto> []))"
    using old listsD2 [OF assms] by (intro listsI) (auto split: if_splits)
  ultimately show ?thesis using that [of ?h] by simp
qed

lemma new_counters_held:
  assumes "list_objects h \<sigma>" "\<sigma> carry = Some []"
  shows "\<exists>h'. new_counters carry n h = Some (Inr ([unused h..<unused h + n], h')) \<and>
    list_objects h' (\<lambda>p. if unused h \<le> p \<and> p < unused h + n then Some [] else \<sigma> p) \<and> M_data h' = M_data h \<and>
    M_size h' = (\<lambda>p. if unused h \<le> p \<and> p < unused h + n then Some 0 else M_size h p) \<and> unused h' = unused h + n"
  using assms
proof (induction n arbitrary: h \<sigma>)
  case 0
  have "(\<lambda>p. if unused h \<le> p \<and> p < unused h then Some [] else \<sigma> p) = \<sigma>"
    "(\<lambda>p. if unused h \<le> p \<and> p < unused h then Some 0 else M_size h p) = M_size h" by (auto simp: fun_eq_iff)
  with 0 show ?case by simp
next
  case (Suc n)
  obtain h1 where h1: "List_base h = Inr (unused h, h1)" "list_objects h1 (\<sigma>(unused h \<mapsto> []))"
    "M_data h1 = M_data h" "M_size h1 = (M_size h)(unused h \<mapsto> 0)" "unused h1 = Suc (unused h)"
    by (rule List_base_held [OF Suc.prems(1)]) (rule that)
  have b: "ls_begin carry h = Inr carry" using ls_begin_held [OF Suc.prems] by simp
  have "ls_begin (unused h) h1 = Inr (unused h)" using ls_begin_held [OF h1(2), of "unused h" "[]"] by simp
  then have copy: "ls_of_list carry h = Some (Inr (unused h, h1))"
    using b h1(1) by (simp add: ls_of_list_def ls_of_range_def insert_dispatch.simps)
  have "(\<sigma>(unused h \<mapsto> [])) carry = Some []" using Suc.prems(2) by simp
  from Suc.IH [OF h1(2) this] obtain h' where
    h': "new_counters carry n h1 = Some (Inr ([unused h1..<unused h1 + n], h'))"
    "list_objects h' (\<lambda>p. if unused h1 \<le> p \<and> p < unused h1 + n then Some [] else (\<sigma>(unused h \<mapsto> [])) p)" "M_data h' = M_data h1"
    "M_size h' = (\<lambda>p. if unused h1 \<le> p \<and> p < unused h1 + n then Some 0 else M_size h1 p)" "unused h' = unused h1 + n" by blast
  have "(\<lambda>p. if unused h1 \<le> p \<and> p < unused h1 + n then Some [] else (\<sigma>(unused h \<mapsto> [])) p) =
      (\<lambda>p. if unused h \<le> p \<and> p < unused h + Suc n then Some [] else \<sigma> p)"
    "(\<lambda>p. if unused h1 \<le> p \<and> p < unused h1 + n then Some 0 else M_size h1 p) =
      (\<lambda>p. if unused h \<le> p \<and> p < unused h + Suc n then Some 0 else M_size h p)"
    using h1(4,5) by (auto simp: fun_eq_iff)
  moreover have "[unused h..<unused h + Suc n] = unused h # [unused h1..<unused h1 + n]"
    using h1(5) by (simp add: upt_rec)
  ultimately show ?case using copy h' h1(3,5) by (intro exI [of _ h']) simp
qed

lemma destroy_held:
  assumes "list_objects h \<sigma>" "\<sigma> l = Some []"
  obtains h' where "ls_destroy l h = Some (Inr h')" "list_objects h' (\<sigma>(l := None))" "M_data h' = (M_data h)(l := None)"
    "M_size h' = (M_size h)(l := None)" "unused h' = unused h"
proof -
  have hl: "M_next h l = Some l" "M_prev h l = Some l" using listsD [OF assms] by (simp_all add: holds_def)
  let ?h = "h\<lparr>M_next := (M_next h)(l := None), M_prev := (M_prev h)(l := None), M_data := (M_data h)(l := None), M_size := (M_size h)(l := None)\<rparr>"
  have "ls_destroy l h = Some (Inr ?h)"
    using hl by (simp add: ls_destroy_def ls_clear_def next_of_def clear_loop.simps set_next_def set_prev_def set_size_def destroy_node_def)
  moreover have "holds ?h m ms" if m: "\<sigma> m = Some ms" "m \<noteq> l" for m ms
  proof -
    have "l \<notin> set (m # ms)" using listsD2 [OF assms m(1)] m(2) by (auto simp: apart_def)
    then show ?thesis by (intro holds_frame [OF listsD [OF assms(1) m(1)]]) auto
  qed
  then have "list_objects ?h (\<sigma>(l := None))"
    using listsD2 [OF assms(1)] by (intro listsI) (auto split: if_splits)
  ultimately show ?thesis using that [of ?h] by simp
qed

lemma destroy_all_held:
  assumes "list_objects h \<sigma>" "\<forall>l \<in> set ls. \<sigma> l = Some []" "distinct ls"
  shows "\<exists>h'. destroy_all ls h = Some (Inr h') \<and> list_objects h' (\<lambda>p. if p \<in> set ls then None else \<sigma> p) \<and>
    (\<forall>p. p \<notin> set ls \<longrightarrow> M_data h' p = M_data h p \<and> M_size h' p = M_size h p) \<and> unused h' = unused h"
  using assms
proof (induction ls arbitrary: h \<sigma>)
  case (Cons l ls)
  obtain h1 where h1: "ls_destroy l h = Some (Inr h1)" "list_objects h1 (\<sigma>(l := None))" "M_data h1 = (M_data h)(l := None)"
    "M_size h1 = (M_size h)(l := None)" "unused h1 = unused h"
    by (rule destroy_held [OF Cons.prems(1), of l]) (use Cons.prems(2) in simp, rule that)
  have "\<forall>k \<in> set ls. (\<sigma>(l := None)) k = Some []" "distinct ls" using Cons.prems by auto
  from Cons.IH [OF h1(2) this] obtain h' where
    h': "destroy_all ls h1 = Some (Inr h')" "list_objects h' (\<lambda>p. if p \<in> set ls then None else (\<sigma>(l := None)) p)"
    "\<forall>p. p \<notin> set ls \<longrightarrow> M_data h' p = M_data h1 p \<and> M_size h' p = M_size h1 p" "unused h' = unused h1" by blast
  have "(\<lambda>p. if p \<in> set ls then None else (\<sigma>(l := None)) p) = (\<lambda>p. if p \<in> set (l # ls) then None else \<sigma> p)" by auto
  with h1 h' show ?case by (intro exI [of _ h']) simp
qed simp

lemma merge_counters_held:
  assumes "list_objects h \<sigma>" "counters \<sigma> counter cs" "0 < i" "i + n \<le> length counter" "r = by_elem lt (elem_of h)"
  shows "\<exists>h' \<sigma>'. merge_counters lt counter i n h = Some (Inr h') \<and> list_objects h' \<sigma>' \<and>
    counters \<sigma>' counter (merge_down r cs i n) \<and> (\<forall>p. p \<notin> set counter \<longrightarrow> \<sigma>' p = \<sigma> p) \<and>
    M_data h' = M_data h \<and> M_size h' = M_size h \<and> unused h' = unused h"
  using assms
proof (induction n arbitrary: h \<sigma> cs i)
  case (Suc n)
  let ?a = "counter ! i" and ?b = "counter ! (i - 1)" and ?m = "lmerge r (cs ! i) (cs ! (i - 1))"
  have i: "i < length counter" "i - 1 < length counter" "i \<noteq> i - 1" using Suc.prems by auto
  have "?a \<noteq> ?b" using i Suc.prems(2) by (simp add: counters_def nth_eq_iff_index_eq)
  then obtain h1 where h1: "S_merge True lt ?a ?b h = Some (Inr h1)" "list_objects h1 (\<sigma>(?a \<mapsto> ?m, ?b \<mapsto> []))"
    "M_data h1 = M_data h" "M_size h1 = M_size h" "unused h1 = unused h"
    using S_merge_held [OF Suc.prems(1) counters_nth [OF Suc.prems(2) i(1)] counters_nth [OF Suc.prems(2) i(2)], of lt]
      Suc.prems(5) by metis
  have c: "counters (\<sigma>(?a \<mapsto> ?m, ?b \<mapsto> [])) counter (cs[i := ?m, i - 1 := []])"
    by (intro counters_upd Suc.prems(2) i)
  have "r = by_elem lt (elem_of h1)" using Suc.prems(5) h1(3) by (simp add: elem_of_def fun_eq_iff by_elem_def)
  with Suc.IH [OF h1(2) c, of "Suc i"] Suc.prems(4) obtain h' \<sigma>' where
    h': "merge_counters lt counter (Suc i) n h1 = Some (Inr h')" "list_objects h' \<sigma>'"
    "counters \<sigma>' counter (merge_down r (cs[i := ?m, i - 1 := []]) (Suc i) n)"
    "\<forall>p. p \<notin> set counter \<longrightarrow> \<sigma>' p = (\<sigma>(?a \<mapsto> ?m, ?b \<mapsto> [])) p"
    "M_data h' = M_data h1" "M_size h' = M_size h1" "unused h' = unused h1" by auto
  have "\<sigma>' p = \<sigma> p" if "p \<notin> set counter" for p
    using that h'(4) i by (metis fun_upd_other nth_mem)
  with h1 h' show ?case by (intro exI [of _ h'] exI [of _ \<sigma>']) simp
qed auto


section \<open>Sorting\<close>

lemma S_sort_short:
  assumes "list_objects h \<sigma>" "\<sigma> that = Some xs" "length xs < 2"
  shows "S_sort lt that h = Some (Inr h)"
proof -
  have f: "next_of that h = Inr (hd (xs @ [that]))" using ls_begin_held [OF assms(1,2)] by (simp add: ls_begin_def)
  consider "xs = []" | x where "xs = [x]" using assms(3) by (cases xs; cases "tl xs") auto
  then show ?thesis
  proof cases
    case 2
    then have "next_of x h = Inr that" using next_of_held [OF assms(1), of that "[]" x "[]"] assms(2) by simp
    with f 2 show ?thesis by (simp add: S_sort_def)
  qed (use f in \<open>simp add: S_sort_def\<close>)
qed

lemma S_sort_sorts:
  assumes sw: "strict_weak_order lt" and ls: "list_objects h \<sigma>" and that: "\<sigma> that = Some xs" "M_size h that \<noteq> None"
    and len: "length xs < 2 ^ 63"
  shows "\<exists>h' zs. S_sort lt that h = Some (Inr h') \<and> list_objects h' (\<sigma>(that \<mapsto> zs)) \<and>
    sorted_of (by_elem lt (elem_of h)) xs zs \<and> unused h \<le> unused h' \<and>
    (\<forall>p<unused h. M_data h' p = M_data h p \<and> (p \<noteq> that \<longrightarrow> M_size h' p = M_size h p))"
proof (cases "length xs < 2")
  case True
  have "sorted_of (by_elem lt (elem_of h)) xs xs"
    using True by (cases xs; cases "tl xs") (auto simp: sorted_of_def)
  moreover have "\<sigma>(that \<mapsto> xs) = \<sigma>" using that(1) by (simp add: fun_upd_idem)
  ultimately show ?thesis using S_sort_short [OF ls that(1) True] ls by (intro exI [of _ h] exI [of _ xs]) simp
next
  case False
  define r where "r = by_elem lt (elem_of h)"
  have sr: "strict_weak_order r" unfolding r_def by (rule by_elem_order [OF sw])
  obtain x y ys where xs: "xs = x # y # ys" using False by (cases xs; cases "tl xs") auto
  let ?u = "unused h"
  have tu: "that < ?u" using unused_fresh(2) [OF ls that(1)] .
  have hold: "that \<notin> set xs" using header_fresh [OF ls that(1)] .
  have f: "next_of that h = Inr x" "next_of x h = Inr y"
    using ls_begin_held [OF ls that(1)] next_of_held [OF ls, of that "[]" x "y # ys"] that(1) by (simp_all add: ls_begin_def xs)
  obtain h1 where h1: "List_base h = Inr (?u, h1)" "list_objects h1 (\<sigma>(?u \<mapsto> []))"
    "M_data h1 = M_data h" "M_size h1 = (M_size h)(?u \<mapsto> 0)" "unused h1 = Suc ?u"
    by (rule List_base_held [OF ls]) (rule that)
  define counter where "counter = [Suc ?u..<Suc ?u + NB]"
  have c: "length counter = NB" "distinct counter" "set counter = {Suc ?u..<Suc ?u + NB}" "?u \<notin> set counter" "that \<notin> set counter"
    using tu by (auto simp: counter_def)
  define \<sigma>2 where "\<sigma>2 = (\<lambda>p. if Suc ?u \<le> p \<and> p < Suc ?u + NB then Some [] else (\<sigma>(?u \<mapsto> [])) p)"
  have "(\<sigma>(?u \<mapsto> [])) ?u = Some []" by simp
  from new_counters_held [OF h1(2) this, of NB] obtain h2 where
    h2: "new_counters ?u NB h1 = Some (Inr (counter, h2))" "list_objects h2 \<sigma>2" "M_data h2 = M_data h1"
    "M_size h2 = (\<lambda>p. if Suc ?u \<le> p \<and> p < Suc ?u + NB then Some 0 else M_size h1 p)" "unused h2 = Suc ?u + NB"
    using h1(5) by (auto simp: \<sigma>2_def counter_def)
  have nth: "counter ! k = Suc ?u + k" if "k < NB" for k
    using that nth_upt [of "Suc ?u" k "Suc ?u + NB"] by (simp add: counter_def del: upt_Suc)
  have s2: "\<sigma>2 ?u = Some []" "\<sigma>2 that = Some xs" using tu that(1) by (auto simp: \<sigma>2_def)
  have s3: "counters \<sigma>2 counter (replicate NB [])"
    using c(1,2) nth by (auto simp: counters_def \<sigma>2_def)
  have r2: "r = by_elem lt (elem_of h2)"
    using h1(3) h2(3) by (simp add: r_def elem_of_def fun_eq_iff by_elem_def)
  have cnt: "counted h2 ({?u, that} \<union> set counter)"
    using h1(4) h2(4) tu that(2) c(3) by (auto simp: counted_def)
  have "runs_ok r 0 (replicate NB ([] :: loc list))" by (simp add: runs_ok_def NB_def)
  from sort_runs_sorts [OF sr this, of "[]" xs] len obtain fill cs where
    sr2: "sort_runs r xs (replicate NB []) 0 = Some (fill, cs)" "runs_ok r fill cs" "stable r xs (pile fill cs)" "fill > 0"
    by (auto simp: pile_def xs)
  have "?u \<noteq> that" "0 < NB" "\<forall>k. 0 \<le> k \<longrightarrow> k < NB \<longrightarrow> replicate NB ([] :: loc list) ! k = []"
    using tu by (auto simp: NB_def)
  from sort_loop_held [OF h2(2) s3 s2 c(4,5) this(1) c(1) this(2,3) cnt r2 sr2(1)] obtain h3 \<sigma>3 where
    h3: "sort_loop lt that ?u counter 0 h2 = Some (Inr (fill, h3))" "list_objects h3 \<sigma>3" "counters \<sigma>3 counter cs"
    "\<sigma>3 ?u = Some []" "\<sigma>3 that = Some []"
    "\<And>p. p \<noteq> ?u \<Longrightarrow> p \<noteq> that \<Longrightarrow> p \<notin> set counter \<Longrightarrow> \<sigma>3 p = \<sigma>2 p \<and> M_size h3 p = M_size h2 p"
    "M_data h3 = M_data h2" "unused h3 = unused h2" "counted h3 ({?u, that} \<union> set counter)" "fill < NB"
    by blast
  have r3: "r = by_elem lt (elem_of h3)" using r2 h3(7) by (simp add: elem_of_def fun_eq_iff by_elem_def)
  define cs4 where "cs4 = merge_down r cs 1 (fill - 1)"
  have le: "1 + (fill - 1) \<le> length counter" using h3(10) c(1) sr2(4) by simp
  from merge_counters_held [OF h3(2,3) zero_less_one le r3] obtain h4 \<sigma>4 where
    h4: "merge_counters lt counter 1 (fill - 1) h3 = Some (Inr h4)" "list_objects h4 \<sigma>4" "counters \<sigma>4 counter cs4"
    "\<And>p. p \<notin> set counter \<Longrightarrow> \<sigma>4 p = \<sigma>3 p" "M_data h4 = M_data h3" "M_size h4 = M_size h3" "unused h4 = unused h3"
    by (auto simp: cs4_def)
  have md: "sorted_of r xs (cs4 ! (fill - 1))" "\<forall>k<NB. k \<noteq> fill - 1 \<longrightarrow> cs4 ! k = []"
    using merge_down_sorts [OF sr, of cs fill 1 "fill - 1" xs] sr2 by (auto simp: runs_ok_def cs4_def)
  let ?l = "counter ! (fill - 1)" and ?zs = "cs4 ! (fill - 1)"
  have i: "fill - 1 < length counter" using h3(10) c(1) by simp
  then have l: "?l \<in> set counter" "\<sigma>4 ?l = Some ?zs" "that \<noteq> ?l" "\<sigma>4 that = Some []"
    using counters_nth [OF h4(3)] c(5) h4(4) h3(5) by auto
  obtain s t where st: "M_size h4 that = Some s" "M_size h4 ?l = Some t"
    using h3(9) h4(6) l(1) by (fastforce simp: counted_def)
  obtain h5 where h5: "ls_swap that ?l h4 = Inr h5" "list_objects h5 (\<sigma>4(that \<mapsto> ?zs, ?l \<mapsto> []))"
    "M_data h5 = M_data h4" "unused h5 = unused h4"
    "M_size h5 = (M_size h4)(that \<mapsto> fst (swapped_sizes [] s ?zs t), ?l \<mapsto> snd (swapped_sizes [] s ?zs t))"
    by (rule lists_swap [OF h4(2) l(4) st(1) l(2) st(2) l(3)]) (rule that)
  let ?\<sigma>5 = "\<sigma>4(that \<mapsto> ?zs, ?l \<mapsto> [])"
  have e5: "\<forall>k \<in> set counter. ?\<sigma>5 k = Some []"
  proof
    fix k assume "k \<in> set counter"
    then obtain j where "j < NB" "k = counter ! j" using c(1) by (auto simp: in_set_conv_nth)
    then show "?\<sigma>5 k = Some []"
      using counters_nth [OF h4(3), of j] md(2) c(1,5) \<open>k \<in> set counter\<close> by (cases "j = fill - 1") auto
  qed
  from destroy_all_held [OF h5(2) e5 c(2)] obtain h6 where
    h6: "destroy_all counter h5 = Some (Inr h6)" "list_objects h6 (\<lambda>p. if p \<in> set counter then None else ?\<sigma>5 p)"
    "\<And>p. p \<notin> set counter \<Longrightarrow> M_data h6 p = M_data h5 p \<and> M_size h6 p = M_size h5 p" "unused h6 = unused h5"
    by blast
  let ?\<sigma>6 = "\<lambda>p. if p \<in> set counter then None else ?\<sigma>5 p"
  have "?\<sigma>6 ?u = Some []" using c(4) l(1) h4(4) h3(4) tu by auto
  then obtain h7 where h7: "ls_destroy ?u h6 = Some (Inr h7)" "list_objects h7 (?\<sigma>6(?u := None))"
    "M_data h7 = (M_data h6)(?u := None)" "M_size h7 = (M_size h6)(?u := None)" "unused h7 = unused h6"
    by (rule destroy_held [OF h6(2)]) (rule that)
  have "S_sort lt that h = Some (Inr h7)"
    using f hold h1(1) h2(1) h3(1) h4(1) h5(1) h6(1) h7(1) by (simp add: S_sort_def xs)
  moreover have "?\<sigma>6(?u := None) = \<sigma>(that \<mapsto> ?zs)"
  proof
    fix p
    have none: "\<sigma> p = None" if "?u \<le> p" using unused_fresh(2) [OF ls, of p] that by (cases "\<sigma> p") auto
    show "(?\<sigma>6(?u := None)) p = (\<sigma>(that \<mapsto> ?zs)) p"
      using none h4(4) [of p] h3(6) [of p] l(1) c(3) tu by (auto simp: \<sigma>2_def)
  qed
  moreover have "M_data h7 p = M_data h p \<and> (p \<noteq> that \<longrightarrow> M_size h7 p = M_size h p)" if p: "p < ?u" for p
  proof -
    have fresh: "p \<notin> set counter" "p \<noteq> ?u" "p \<noteq> ?l" "\<not> Suc ?u \<le> p" using p c(3) l(1) by auto
    have "M_data h7 p = M_data h p" using fresh h1(3) h2(3) h3(7) h4(5) h5(3) h6(3) h7(3) by simp
    moreover have "M_size h7 p = M_size h p" if "p \<noteq> that"
      using that fresh h1(4) h2(4) h3(6) [of p] h4(6) h5(5) h6(3) h7(4) by simp
    ultimately show ?thesis by simp
  qed
  ultimately show ?thesis
    using h7(2,5) h6(4) h5(4) h4(7) h3(8) h2(5) md(1) by (intro exI [of _ h7] exI [of _ ?zs]) (simp add: r_def)
qed

end
