(* ===== verification/Stl_List_Facts.thy ===== *)
theory Stl_List_Facts
  imports Stl_List_Sort Stl_Sequence
begin

text \<open>
  What the operations of the library's list do to the elements: each of them, on well-formed lists
  whose counts are right, ends without a fault and does what its name says of the list of the
  elements. The theory closes with the refinement for sequences of operations.
\<close>

section \<open>Lists whose counts are right\<close>

text \<open>No address space holds \<open>2\<^sup>6\<^sup>3\<close> nodes.\<close>

definition counts_ok :: "'a list_heap \<Rightarrow> (loc \<Rightarrow> loc list option) \<Rightarrow> bool" where
  "counts_ok h \<sigma> \<longleftrightarrow> (\<forall>l ns. \<sigma> l = Some ns \<longrightarrow> length ns < 2 ^ 63 \<and> M_size h l = Some (of_nat (length ns)))"

text \<open>The lists of elements a store holds.\<close>

definition represents :: "'a list_heap \<Rightarrow> (loc \<Rightarrow> 'a list option) \<Rightarrow> bool" where
  "represents h \<tau> \<longleftrightarrow>
     (\<exists>\<sigma>. list_objects h \<sigma> \<and> counts_ok h \<sigma> \<and> \<tau> = (\<lambda>l. map_option (map (elem_of h)) (\<sigma> l)))"

lemma counts_okD:
  assumes "counts_ok h \<sigma>" "\<sigma> l = Some ns"
  shows "length ns < 2 ^ 63" "M_size h l = Some (of_nat (length ns))"
  using assms by (simp_all add: counts_ok_def)

lemma count_positive: "0 < n \<Longrightarrow> n < 2 ^ 63 \<Longrightarrow> (of_nat n :: 64 word) > 0"
  by (simp add: word_gt_0 word_of_nat_eq_0_iff) (use nat_dvd_not_less [of n "2 ^ 64"] in simp)

lemma count_dec:
  assumes "0 < n" "n < 2 ^ 63"
  shows "(if (of_nat n :: 64 word) > 0 then of_nat n - 1 else of_nat n) = (of_nat (n - 1) :: 64 word)"
  using count_positive [OF assms] assms(1) by (simp add: of_nat_diff)

lemma representsE:
  assumes "represents h \<tau>" "\<tau> l = Some xs"
  obtains \<sigma> ns where "list_objects h \<sigma>" "counts_ok h \<sigma>" "\<tau> = (\<lambda>l. map_option (map (elem_of h)) (\<sigma> l))"
    "\<sigma> l = Some ns" "xs = map (elem_of h) ns"
  using assms by (auto simp: represents_def)

text \<open>An operation that only changes one list.\<close>

lemma represents_other:
  assumes "list_objects h \<sigma>" "counts_ok h \<sigma>" "\<tau> = (\<lambda>l. map_option (map (elem_of h)) (\<sigma> l))" "\<sigma> l = Some ns"
    and "list_objects h' (\<sigma>(l \<mapsto> ns'))" "length ns' < 2 ^ 63" "M_size h' l = Some (of_nat (length ns'))"
    and "\<And>p. p \<noteq> l \<Longrightarrow> p < unused h \<Longrightarrow> M_size h' p = M_size h p"
    and "\<And>p. p \<notin> set ns \<Longrightarrow> p < unused h \<Longrightarrow> M_data h' p = M_data h p" "map (elem_of h') ns' = zs"
  shows "represents h' (\<tau>(l \<mapsto> zs))"
proof -
  have "map (elem_of h') ms = map (elem_of h) ms" if m: "\<sigma> m = Some ms" "m \<noteq> l" for m ms
  proof (rule map_cong [OF refl])
    fix p assume "p \<in> set ms"
    then have "p \<notin> set ns" "p < unused h"
      using listsD2 [OF assms(1,4) m(1)] m unused_fresh(3) [OF assms(1) m(1)] by (auto simp: apart_def)
    then show "elem_of h' p = elem_of h p" by (simp add: elem_of_def assms(9))
  qed
  then have "\<tau>(l \<mapsto> zs) = (\<lambda>k. map_option (map (elem_of h')) ((\<sigma>(l \<mapsto> ns')) k))"
    using assms(3,10) by (auto simp: fun_eq_iff split: option.splits intro!: map_option_cong)
  moreover have "counts_ok h' (\<sigma>(l \<mapsto> ns'))"
    using assms(2,6-8) unused_fresh(2) [OF assms(1)] by (auto simp: counts_ok_def)
  ultimately show ?thesis using assms(5) by (auto simp: represents_def)
qed

lemma represents_result:
  assumes "list_objects h \<sigma>" "counts_ok h \<sigma>" "\<tau> = (\<lambda>l. map_option (map (elem_of h)) (\<sigma> l))" "\<sigma> l = Some ns"
    and "list_objects h' (\<sigma>(l \<mapsto> ns'))" "length ns' < 2 ^ 63" "M_size h' = (M_size h)(l \<mapsto> of_nat (length ns'))"
    and "\<And>p. p \<notin> set ns \<Longrightarrow> p < unused h \<Longrightarrow> M_data h' p = M_data h p" "map (elem_of h') ns' = zs"
  shows "represents h' (\<tau>(l \<mapsto> zs))"
  by (rule represents_other [OF assms(1-6)]) (use assms(7-9) in auto)

lemma elems_upd_other: "p \<notin> set ns \<Longrightarrow> M_data h' = (M_data h)(p := v) \<Longrightarrow> map (elem_of h') ns = map (elem_of h) ns"
  by (auto simp: elem_of_def)

section \<open>One element\<close>

lemma list_forward_held:
  assumes "list_objects h \<sigma>" "\<sigma> l = Some (A @ B)" "k \<le> length B"
  shows "list_forward k (hd (B @ [l])) h = Inr (hd (drop k B @ [l]))"
  using assms(2,3)
proof (induction k arbitrary: A B)
  case (Suc k)
  then obtain x xs where B: "B = x # xs" by (cases B) auto
  have "\<sigma> l = Some ((A @ [x]) @ xs)" using Suc.prems(1) B by simp
  from Suc.IH [OF this] Suc.prems(2) next_of_held [OF assms(1), of l A x xs] Suc.prems(1) show ?case by (simp add: B)
qed simp

lemma insert_represents:
  assumes r: "represents h \<tau>" "\<tau> l = Some (as @ bs)" and len: "Suc (length (as @ bs)) < 2 ^ 63"
  obtains pos h' where "andThen (ls_begin l h) (\<lambda>i. list_forward (length as) i h) = Inr pos"
    "ls_insert l pos x h = Inr (unused h, h')" "represents h' (\<tau>(l \<mapsto> as @ x # bs))"
proof -
  note result = that
  obtain \<sigma> ns where s: "list_objects h \<sigma>" "counts_ok h \<sigma>" "\<tau> = (\<lambda>l. map_option (map (elem_of h)) (\<sigma> l))"
    "\<sigma> l = Some ns" "as @ bs = map (elem_of h) ns" by (rule representsE [OF r]) (rule that)
  then obtain A B where ns: "ns = A @ B" and els: "as = map (elem_of h) A" "bs = map (elem_of h) B"
    by (auto simp: append_eq_map_conv)
  have l: "\<sigma> l = Some (A @ B)" using s(4) ns by simp
  have sz: "M_size h l = Some (of_nat (length ns))" using counts_okD(2) [OF s(2,4)] .
  obtain h' where h': "ls_insert l (hd (B @ [l])) x h = Inr (unused h, h')" "list_objects h' (\<sigma>(l \<mapsto> A @ unused h # B))"
    "M_data h' = (M_data h)(unused h \<mapsto> x)" "M_size h' = (M_size h)(l \<mapsto> of_nat (length ns) + 1)" "unused h' = Suc (unused h)"
    by (rule lists_insert [OF s(1) l sz, of x]) (rule that)
  have "andThen (ls_begin l h) (\<lambda>i. list_forward (length as) i h) = Inr (hd (B @ [l]))"
    using ls_begin_held [OF s(1,4)] list_forward_held [OF s(1), of l "[]" ns "length A"] s(4) els(1) by (simp add: ns)
  moreover have "represents h' (\<tau>(l \<mapsto> as @ x # bs))"
  proof (rule represents_result [OF s(1-4) h'(2)])
    have "unused h \<notin> set (A @ B)" using unused_fresh(3) [OF s(1) l] by blast
    then have "map (elem_of h') A = as" "map (elem_of h') B = bs"
      using elems_upd_other [OF _ h'(3)] els by auto
    then show "map (elem_of h') (A @ unused h # B) = as @ x # bs" using h'(3) by (simp add: elem_of_def)
    show "length (A @ unused h # B) < 2 ^ 63" using len els by simp
    show "M_size h' = (M_size h)(l \<mapsto> of_nat (length (A @ unused h # B)))" using h'(4) ns by (simp add: algebra_simps)
  qed (use h'(3) in auto)
  ultimately show ?thesis using result h'(1) by blast
qed

lemma erase_represents:
  assumes r: "represents h \<tau>" "\<tau> l = Some (as @ x # bs)"
  obtains pos nx h' where "andThen (ls_begin l h) (\<lambda>i. list_forward (length as) i h) = Inr pos"
    "bs = [] \<longrightarrow> prev_of l h = Inr pos" "data_of pos h = Inr x"
    "ls_erase l pos h = Inr (nx, h')" "represents h' (\<tau>(l \<mapsto> as @ bs))"
proof -
  note result = that
  obtain \<sigma> ns where s: "list_objects h \<sigma>" "counts_ok h \<sigma>" "\<tau> = (\<lambda>l. map_option (map (elem_of h)) (\<sigma> l))"
    "\<sigma> l = Some ns" "as @ x # bs = map (elem_of h) ns" by (rule representsE [OF r]) (rule that)
  then obtain A p B where ns: "ns = A @ p # B" and els: "as = map (elem_of h) A" "x = elem_of h p" "bs = map (elem_of h) B"
    by (auto simp: append_eq_map_conv Cons_eq_map_conv)
  have l: "\<sigma> l = Some (A @ p # B)" using s(4) ns by simp
  have sz: "M_size h l = Some (of_nat (length ns))" "length ns < 2 ^ 63" using counts_okD [OF s(2,4)] by simp_all
  obtain h' where h': "ls_erase l p h = Inr (hd (B @ [l]), h')" "list_objects h' (\<sigma>(l \<mapsto> A @ B))"
    "M_data h' = (M_data h)(p := None)"
    "M_size h' = (M_size h)(l \<mapsto> (if (of_nat (length ns) :: 64 word) > 0 then of_nat (length ns) - 1 else of_nat (length ns)))"
    "unused h' = unused h"
    by (rule lists_erase [OF s(1) l sz(1)]) (rule that)
  have "andThen (ls_begin l h) (\<lambda>i. list_forward (length as) i h) = Inr p"
    using ls_begin_held [OF s(1,4)] list_forward_held [OF s(1), of l "[]" ns "length A"] s(4) els(1) by (simp add: ns)
  moreover have "bs = [] \<longrightarrow> prev_of l h = Inr p"
    using holds_header(2) [OF listsD [OF s(1) l]] els(3) by (simp add: prev_of_def)
  moreover have "data_of p h = Inr x" using data_of_held [OF s(1) l] els(2) by simp
  moreover have "represents h' (\<tau>(l \<mapsto> as @ bs))"
  proof (rule represents_result [OF s(1-4) h'(2)])
    have "p \<notin> set (A @ B)" using listsD [OF s(1) l] by (auto simp: holds_def)
    then show "map (elem_of h') (A @ B) = as @ bs" using elems_upd_other [OF _ h'(3)] els by auto
    show "length (A @ B) < 2 ^ 63" using sz(2) by (simp add: ns)
    show "M_size h' = (M_size h)(l \<mapsto> of_nat (length (A @ B)))" using h'(4) count_dec [of "length ns"] sz(2) by (simp add: ns)
  qed (use h'(3) ns in auto)
  ultimately show ?thesis using result h'(1) by blast
qed

section \<open>Loops along a list\<close>

lemma gone_Cons: "(if p \<in> B then None else if p = b then None else v) = (if p = b \<or> p \<in> B then None else v)"
  by simp

lemma clear_loop_run:
  assumes "links (M_next h) (M_prev h) (B @ [l])" "distinct B" "l \<notin> set B"
  shows "clear_loop l (hd (B @ [l])) h = Some (Inr (h\<lparr>M_next := (\<lambda>p. if p \<in> set B then None else M_next h p),
    M_prev := (\<lambda>p. if p \<in> set B then None else M_prev h p), M_data := (\<lambda>p. if p \<in> set B then None else M_data h p)\<rparr>))"
  using assms
proof (induction B arbitrary: h)
  case Nil
  then show ?case by (simp add: clear_loop.simps)
next
  case (Cons b B)
  let ?h = "destroy_node b h"
  have "links (M_next ?h) (M_prev ?h) (B @ [l]) \<longleftrightarrow> links (M_next h) (M_prev h) (B @ [l])"
    using Cons.prems(2,3) by (intro links_cong) (auto simp: destroy_node_def)
  then have l: "links (M_next ?h) (M_prev ?h) (B @ [l])" using Cons.prems(1) by simp
  have "next_of b h = Inr (hd (B @ [l]))" using Cons.prems(1) by (cases B) (auto simp: next_of_def)
  then have "clear_loop l b h = clear_loop l (hd (B @ [l])) ?h"
    using Cons.prems(3) by (subst clear_loop.simps) simp
  then show ?case using Cons.IH [OF l] Cons.prems by (simp add: destroy_node_def gone_Cons cong: if_cong)
qed

lemma clear_represents:
  assumes r: "represents h \<tau>" "\<tau> l = Some xs"
  obtains h' where "ls_clear l h = Some (Inr h')" "represents h' (\<tau>(l \<mapsto> []))"
proof -
  note result = that
  obtain \<sigma> ns where s: "list_objects h \<sigma>" "counts_ok h \<sigma>" "\<tau> = (\<lambda>l. map_option (map (elem_of h)) (\<sigma> l))"
    "\<sigma> l = Some ns" "xs = map (elem_of h) ns" by (rule representsE [OF r]) (rule that)
  have hl: "links (M_next h) (M_prev h) (l # ns @ [l])" "distinct (l # ns)" "l < unused h"
    using listsD [OF s(1,4)] by (simp_all add: holds_def)
  then have c: "links (M_next h) (M_prev h) (ns @ [l])" "distinct ns" "l \<notin> set ns" by simp_all
  let ?h = "h\<lparr>M_next := (\<lambda>p. if p \<in> set ns then None else M_next h p)(l \<mapsto> l),
    M_prev := (\<lambda>p. if p \<in> set ns then None else M_prev h p)(l \<mapsto> l),
    M_data := (\<lambda>p. if p \<in> set ns then None else M_data h p), M_size := (M_size h)(l \<mapsto> 0)\<rparr>"
  have "next_of l h = Inr (hd (ns @ [l]))" using ls_begin_held [OF s(1,4)] by (simp add: ls_begin_def)
  moreover have "M_next h l \<noteq> None" "M_prev h l \<noteq> None" using holds_header [OF listsD [OF s(1,4)]] by simp_all
  ultimately have "ls_clear l h = Some (Inr ?h)"
    using clear_loop_run [OF c] c(3) by (simp add: ls_clear_def set_next_def set_prev_def set_size_def)
  moreover have "list_objects ?h (\<sigma>(l \<mapsto> []))"
    by (rule lists_change [OF s(1,4)]) (use hl(3) in \<open>auto simp: holds_def\<close>)
  then have "represents ?h (\<tau>(l \<mapsto> []))"
    by (rule represents_result [OF s(1-4)]) auto
  ultimately show ?thesis using result by blast
qed

lemma remove_if_run:
  assumes "list_objects h \<sigma>" "counts_ok h \<sigma>" "\<sigma> l = Some (A @ B)" "\<forall>p \<in> set B. M_data h p = Some (d p)"
  shows "\<exists>h'. remove_if_loop pred l (hd (B @ [l])) h = Some (Inr h') \<and>
    list_objects h' (\<sigma>(l \<mapsto> A @ filter (\<lambda>p. \<not> pred (d p)) B)) \<and>
    M_size h' = (M_size h)(l \<mapsto> of_nat (length (A @ filter (\<lambda>p. \<not> pred (d p)) B))) \<and>
    (\<forall>p. p \<in> set B \<longrightarrow> \<not> pred (d p) \<longrightarrow> M_data h' p = M_data h p) \<and> (\<forall>p. p \<notin> set B \<longrightarrow> M_data h' p = M_data h p)"
  using assms
proof (induction B arbitrary: A h \<sigma>)
  case Nil
  then have "\<sigma>(l \<mapsto> A) = \<sigma>" "M_size h l = Some (of_nat (length A))" using counts_okD(2) [OF Nil.prems(2,3)] by (auto simp: fun_upd_idem)
  with Nil show ?case by (simp add: remove_if_loop.simps fun_upd_idem)
next
  case (Cons b B)
  have b: "b \<noteq> l" "b \<notin> set B" "b \<notin> set A" using listsD [OF Cons.prems(1,3)] by (auto simp: holds_def)
  have nx: "next_of b h = Inr (hd (B @ [l]))" by (rule next_of_held [OF Cons.prems(1,3)])
  have db: "data_of b h = Inr (d b)" using Cons.prems(4) by (simp add: data_of_def)
  have sz: "length (A @ b # B) < 2 ^ 63" "M_size h l = Some (of_nat (length (A @ b # B)))"
    using counts_okD [OF Cons.prems(2,3)] by simp_all
  show ?case
  proof (cases "pred (d b)")
    case True
    obtain h1 where h1: "ls_erase l b h = Inr (hd (B @ [l]), h1)" "list_objects h1 (\<sigma>(l \<mapsto> A @ B))"
      "M_data h1 = (M_data h)(b := None)"
      "M_size h1 = (M_size h)(l \<mapsto> (if (of_nat (length (A @ b # B)) :: 64 word) > 0
         then of_nat (length (A @ b # B)) - 1 else of_nat (length (A @ b # B))))" "unused h1 = unused h"
      by (rule lists_erase [OF Cons.prems(1,3) sz(2)]) (rule that)
    have m1: "M_size h1 = (M_size h)(l \<mapsto> of_nat (length (A @ B)))" using h1(4) count_dec [of "length (A @ b # B)"] sz(1) by simp
    have *: "counts_ok h1 (\<sigma>(l \<mapsto> A @ B))" "(\<sigma>(l \<mapsto> A @ B)) l = Some (A @ B)" "\<forall>p \<in> set B. M_data h1 p = Some (d p)"
      using Cons.prems(2,4) m1 sz(1) h1(3) b(2) by (auto simp: counts_ok_def)
    from Cons.IH [OF h1(2) *] obtain h' where h': "remove_if_loop pred l (hd (B @ [l])) h1 = Some (Inr h')"
      "list_objects h' (\<sigma>(l \<mapsto> A @ B, l \<mapsto> A @ filter (\<lambda>p. \<not> pred (d p)) B))"
      "M_size h' = (M_size h1)(l \<mapsto> of_nat (length (A @ filter (\<lambda>p. \<not> pred (d p)) B)))"
      "\<forall>p. p \<in> set B \<longrightarrow> \<not> pred (d p) \<longrightarrow> M_data h' p = M_data h1 p" "\<forall>p. p \<notin> set B \<longrightarrow> M_data h' p = M_data h1 p" by blast
    have f: "filter (\<lambda>p. \<not> pred (d p)) (b # B) = filter (\<lambda>p. \<not> pred (d p)) B" using True by simp
    have "remove_if_loop pred l b h = remove_if_loop pred l (hd (B @ [l])) h1"
      using b(1) nx db True h1(1) by (subst remove_if_loop.simps) simp
    then have "remove_if_loop pred l (hd ((b # B) @ [l])) h = Some (Inr h')" using h'(1) by simp
    moreover have "list_objects h' (\<sigma>(l \<mapsto> A @ filter (\<lambda>p. \<not> pred (d p)) B))" using h'(2) by simp
    moreover have "M_size h' = (M_size h)(l \<mapsto> of_nat (length (A @ filter (\<lambda>p. \<not> pred (d p)) B)))" using h'(3) m1 by simp
    moreover have "\<forall>p. p \<in> set (b # B) \<longrightarrow> \<not> pred (d p) \<longrightarrow> M_data h' p = M_data h p"
      "\<forall>p. p \<notin> set (b # B) \<longrightarrow> M_data h' p = M_data h p" using h'(4,5) h1(3) True by auto
    ultimately show ?thesis unfolding f by blast
  next
    case False
    have "\<sigma> l = Some ((A @ [b]) @ B)" "\<forall>p \<in> set B. M_data h p = Some (d p)" using Cons.prems(3,4) by simp_all
    from Cons.IH [OF Cons.prems(1,2) this] obtain h' where h': "remove_if_loop pred l (hd (B @ [l])) h = Some (Inr h')"
      "list_objects h' (\<sigma>(l \<mapsto> (A @ [b]) @ filter (\<lambda>p. \<not> pred (d p)) B))"
      "M_size h' = (M_size h)(l \<mapsto> of_nat (length ((A @ [b]) @ filter (\<lambda>p. \<not> pred (d p)) B)))"
      "\<forall>p. p \<in> set B \<longrightarrow> \<not> pred (d p) \<longrightarrow> M_data h' p = M_data h p" "\<forall>p. p \<notin> set B \<longrightarrow> M_data h' p = M_data h p" by blast
    have f: "filter (\<lambda>p. \<not> pred (d p)) (b # B) = b # filter (\<lambda>p. \<not> pred (d p)) B" using False by simp
    have "remove_if_loop pred l b h = remove_if_loop pred l (hd (B @ [l])) h"
      using b(1) nx db False by (subst remove_if_loop.simps) simp
    then have "remove_if_loop pred l (hd ((b # B) @ [l])) h = Some (Inr h')" using h'(1) by simp
    moreover have "list_objects h' (\<sigma>(l \<mapsto> A @ b # filter (\<lambda>p. \<not> pred (d p)) B))"
      "M_size h' = (M_size h)(l \<mapsto> of_nat (length (A @ b # filter (\<lambda>p. \<not> pred (d p)) B)))" using h'(2,3) by simp_all
    moreover have "\<forall>p. p \<in> set (b # B) \<longrightarrow> \<not> pred (d p) \<longrightarrow> M_data h' p = M_data h p"
      "\<forall>p. p \<notin> set (b # B) \<longrightarrow> M_data h' p = M_data h p" using h'(4,5) b by auto
    ultimately show ?thesis unfolding f by blast
  qed
qed

lemma remove_if_represents:
  assumes r: "represents h \<tau>" "\<tau> l = Some xs"
  obtains h' where "ls_remove_if pred l h = Some (Inr h')" "represents h' (\<tau>(l \<mapsto> filter (\<lambda>x. \<not> pred x) xs))"
proof -
  note result = that
  obtain \<sigma> ns where s: "list_objects h \<sigma>" "counts_ok h \<sigma>" "\<tau> = (\<lambda>l. map_option (map (elem_of h)) (\<sigma> l))"
    "\<sigma> l = Some ns" "xs = map (elem_of h) ns" by (rule representsE [OF r]) (rule that)
  have d: "\<forall>p \<in> set ns. M_data h p = Some (elem_of h p)" using listsD [OF s(1,4)] by (auto simp: holds_def elem_of_def)
  let ?ns = "filter (\<lambda>p. \<not> pred (elem_of h p)) ns"
  have "\<sigma> l = Some ([] @ ns)" using s(4) by simp
  from remove_if_run [OF s(1,2) this d, of pred] obtain h' where h': "remove_if_loop pred l (hd (ns @ [l])) h = Some (Inr h')"
    "list_objects h' (\<sigma>(l \<mapsto> ?ns))" "M_size h' = (M_size h)(l \<mapsto> of_nat (length ?ns))"
    "\<And>p. p \<in> set ?ns \<Longrightarrow> M_data h' p = M_data h p" "\<And>p. p \<notin> set ns \<Longrightarrow> M_data h' p = M_data h p" by auto
  have "ls_remove_if pred l h = Some (Inr h')" using h'(1) ls_begin_held [OF s(1,4)] by (simp add: ls_remove_if_def)
  moreover have "represents h' (\<tau>(l \<mapsto> filter (\<lambda>x. \<not> pred x) xs))"
  proof (rule represents_result [OF s(1-4) h'(2)])
    show "length ?ns < 2 ^ 63" using counts_okD(1) [OF s(2,4)] le_less_trans [OF length_filter_le] by blast
    have "map (elem_of h') ?ns = map (elem_of h) ?ns" using h'(4) by (auto simp: elem_of_def)
    then show "map (elem_of h') ?ns = filter (\<lambda>x. \<not> pred x) xs" by (simp add: s(5) filter_map comp_def)
  qed (use h' in auto)
  ultimately show ?thesis using result by blast
qed

lemma set_uniq_after: "set (uniq_after p v xs) \<subseteq> set xs"
  by (induction p v xs rule: uniq_after.induct) auto

lemma length_uniq_after: "length (uniq_after p v xs) \<le> length xs"
  by (induction p v xs rule: uniq_after.induct) (auto intro: le_SucI)

lemma map_uniq_after: "map d (uniq_after (by_elem eq d) p ns) = uniq_after eq (d p) (map d ns)"
  by (induction "by_elem eq d" p ns rule: uniq_after.induct) (simp_all add: by_elem_def)

lemma unique_run:
  assumes "list_objects h \<sigma>" "counts_ok h \<sigma>" "\<sigma> l = Some (A @ p # B)" "\<forall>q \<in> set (p # B). M_data h q = Some (d q)"
  shows "\<exists>h'. unique_loop eq l p h = Some (Inr h') \<and>
    list_objects h' (\<sigma>(l \<mapsto> A @ p # uniq_after (by_elem eq d) p B)) \<and>
    M_size h' = (M_size h)(l \<mapsto> of_nat (length (A @ p # uniq_after (by_elem eq d) p B))) \<and>
    (\<forall>q. q \<notin> set B - set (uniq_after (by_elem eq d) p B) \<longrightarrow> M_data h' q = M_data h q)"
  using assms
proof (induction B arbitrary: A p h \<sigma>)
  case Nil
  then have "\<sigma>(l \<mapsto> A @ [p]) = \<sigma>" "M_size h l = Some (of_nat (length (A @ [p])))"
    using counts_okD(2) [OF Nil.prems(2,3)] by (auto simp: fun_upd_idem)
  with Nil next_of_held [OF Nil.prems(1,3)] show ?case
    by (intro exI [of _ h]) (simp add: unique_loop.simps fun_upd_idem)
next
  case (Cons b B)
  have b: "b \<noteq> l" "b \<notin> set B" "p \<notin> set (b # B)" using listsD [OF Cons.prems(1,3)] by (auto simp: holds_def)
  have nx: "next_of p h = Inr b" using next_of_held [OF Cons.prems(1,3)] by simp
  have db: "data_of p h = Inr (d p)" "data_of b h = Inr (d b)" using Cons.prems(4) by (simp_all add: data_of_def)
  have sz: "length (A @ p # b # B) < 2 ^ 63" "M_size h l = Some (of_nat (length (A @ p # b # B)))"
    using counts_okD [OF Cons.prems(2,3)] by simp_all
  show ?case
  proof (cases "eq (d p) (d b)")
    case True
    have l: "\<sigma> l = Some ((A @ [p]) @ b # B)" using Cons.prems(3) by simp
    obtain h1 where h1: "ls_erase l b h = Inr (hd (B @ [l]), h1)" "list_objects h1 (\<sigma>(l \<mapsto> (A @ [p]) @ B))"
      "M_data h1 = (M_data h)(b := None)"
      "M_size h1 = (M_size h)(l \<mapsto> (if (of_nat (length (A @ p # b # B)) :: 64 word) > 0
         then of_nat (length (A @ p # b # B)) - 1 else of_nat (length (A @ p # b # B))))" "unused h1 = unused h"
      by (rule lists_erase [OF Cons.prems(1) l sz(2)]) (rule that)
    have m1: "M_size h1 = (M_size h)(l \<mapsto> of_nat (length (A @ p # B)))" using h1(4) count_dec [of "length (A @ p # b # B)"] sz(1) by simp
    have *: "list_objects h1 (\<sigma>(l \<mapsto> A @ p # B))" "counts_ok h1 (\<sigma>(l \<mapsto> A @ p # B))" "(\<sigma>(l \<mapsto> A @ p # B)) l = Some (A @ p # B)"
      "\<forall>q \<in> set (p # B). M_data h1 q = Some (d q)"
      using h1(2,3) Cons.prems(2,4) m1 sz(1) b(2,3) by (auto simp: counts_ok_def)
    from Cons.IH [OF *] obtain h' where h': "unique_loop eq l p h1 = Some (Inr h')"
      "list_objects h' (\<sigma>(l \<mapsto> A @ p # B, l \<mapsto> A @ p # uniq_after (by_elem eq d) p B))"
      "M_size h' = (M_size h1)(l \<mapsto> of_nat (length (A @ p # uniq_after (by_elem eq d) p B)))"
      "\<forall>q. q \<notin> set B - set (uniq_after (by_elem eq d) p B) \<longrightarrow> M_data h' q = M_data h1 q" by blast
    have f: "uniq_after (by_elem eq d) p (b # B) = uniq_after (by_elem eq d) p B" using True by (simp add: by_elem_def)
    have "unique_loop eq l p h = Some (Inr h')"
      using b(1) nx db True h1(1) h'(1) by (subst unique_loop.simps) simp
    moreover have "b \<notin> set (uniq_after (by_elem eq d) p B)" using b(2) set_uniq_after [of "by_elem eq d" p B] by blast
    then have "\<forall>q. q \<notin> set (b # B) - set (uniq_after (by_elem eq d) p B) \<longrightarrow> M_data h' q = M_data h q"
      using h'(4) h1(3) by auto
    moreover have "list_objects h' (\<sigma>(l \<mapsto> A @ p # uniq_after (by_elem eq d) p B))"
      "M_size h' = (M_size h)(l \<mapsto> of_nat (length (A @ p # uniq_after (by_elem eq d) p B)))"
      using h'(2,3) m1 by simp_all
    ultimately show ?thesis unfolding f by blast
  next
    case False
    have l: "\<sigma> l = Some ((A @ [p]) @ b # B)" "\<forall>q \<in> set (b # B). M_data h q = Some (d q)" using Cons.prems(3,4) by simp_all
    from Cons.IH [OF Cons.prems(1,2) this] obtain h' where h': "unique_loop eq l b h = Some (Inr h')"
      "list_objects h' (\<sigma>(l \<mapsto> (A @ [p]) @ b # uniq_after (by_elem eq d) b B))"
      "M_size h' = (M_size h)(l \<mapsto> of_nat (length ((A @ [p]) @ b # uniq_after (by_elem eq d) b B)))"
      "\<forall>q. q \<notin> set B - set (uniq_after (by_elem eq d) b B) \<longrightarrow> M_data h' q = M_data h q" by blast
    have f: "uniq_after (by_elem eq d) p (b # B) = b # uniq_after (by_elem eq d) b B" using False by (simp add: by_elem_def)
    have "unique_loop eq l p h = Some (Inr h')"
      using b(1) nx db False h'(1) by (subst unique_loop.simps) simp
    moreover have "\<forall>q. q \<notin> set (b # B) - set (b # uniq_after (by_elem eq d) b B) \<longrightarrow> M_data h' q = M_data h q"
      using h'(4) b(2) by auto
    moreover have "list_objects h' (\<sigma>(l \<mapsto> A @ p # b # uniq_after (by_elem eq d) b B))"
      "M_size h' = (M_size h)(l \<mapsto> of_nat (length (A @ p # b # uniq_after (by_elem eq d) b B)))"
      using h'(2,3) by simp_all
    ultimately show ?thesis unfolding f by blast
  qed
qed

lemma unique_represents:
  assumes r: "represents h \<tau>" "\<tau> l = Some xs"
  obtains h' where "S_unique eq l h = Some (Inr h')" "represents h' (\<tau>(l \<mapsto> uniq eq xs))"
proof -
  note result = that
  obtain \<sigma> ns where s: "list_objects h \<sigma>" "counts_ok h \<sigma>" "\<tau> = (\<lambda>l. map_option (map (elem_of h)) (\<sigma> l))"
    "\<sigma> l = Some ns" "xs = map (elem_of h) ns" by (rule representsE [OF r]) (rule that)
  show ?thesis
  proof (cases ns)
    case Nil
    then have "S_unique eq l h = Some (Inr h)" "\<tau>(l \<mapsto> uniq eq xs) = \<tau>"
      using ls_begin_held [OF s(1,4)] s(3-5) by (auto simp: S_unique_def fun_upd_idem)
    with r result show ?thesis by simp
  next
    case (Cons p B)
    let ?u = "uniq_after (by_elem eq (elem_of h)) p B"
    have d: "\<forall>q \<in> set (p # B). M_data h q = Some (elem_of h q)" "p \<noteq> l" "p \<notin> set B" "distinct B"
      using listsD [OF s(1,4)] Cons by (auto simp: holds_def elem_of_def)
    have "\<sigma> l = Some ([] @ p # B)" using s(4) Cons by simp
    from unique_run [OF s(1,2) this d(1), of eq] obtain h' where h': "unique_loop eq l p h = Some (Inr h')"
      "list_objects h' (\<sigma>(l \<mapsto> p # ?u))" "M_size h' = (M_size h)(l \<mapsto> of_nat (length (p # ?u)))"
      "\<And>q. q \<notin> set B - set ?u \<Longrightarrow> M_data h' q = M_data h q" by auto
    have "S_unique eq l h = Some (Inr h')" using h'(1) ls_begin_held [OF s(1,4)] Cons d(2) by (simp add: S_unique_def)
    moreover have "represents h' (\<tau>(l \<mapsto> uniq eq xs))"
    proof (rule represents_result [OF s(1-4) h'(2)])
      show "length (p # ?u) < 2 ^ 63"
        using counts_okD(1) [OF s(2,4)] Cons length_uniq_after [of "by_elem eq (elem_of h)" p B] by simp
      have "map (elem_of h') (p # ?u) = map (elem_of h) (p # ?u)" using h'(4) d(3) by (auto simp: elem_of_def)
      then show "map (elem_of h') (p # ?u) = uniq eq xs" using Cons by (simp add: s(5) map_uniq_after)
    qed (use h' Cons in auto)
    ultimately show ?thesis using result by blast
  qed
qed

lemma swapped_Cons: "(if p \<in> B then v else if p = b then v else w) = (if p = b \<or> p \<in> B then v else w)"
  by simp

lemma reverse_loop_run:
  assumes "links (M_next h) g (B @ [l])" "B \<noteq> []" "distinct B" "l \<notin> set B" "\<forall>b \<in> set B. M_prev h b \<noteq> None"
  shows "reverse_loop l (hd B) h = Some (Inr (h\<lparr>M_next := (\<lambda>p. if p \<in> set B then M_prev h p else M_next h p),
    M_prev := (\<lambda>p. if p \<in> set B then M_next h p else M_prev h p)\<rparr>))"
  using assms
proof (induction B arbitrary: h)
  case (Cons b B)
  obtain pv where pv: "M_prev h b = Some pv" using Cons.prems(5) by auto
  have nx: "M_next h b = Some (hd (B @ [l]))" using Cons.prems(1) by (cases B) auto
  let ?h = "h\<lparr>M_next := (M_next h)(b \<mapsto> pv), M_prev := (M_prev h)(b \<mapsto> hd (B @ [l]))\<rparr>"
  have step: "reverse_loop l b h = (if hd (B @ [l]) \<noteq> l then reverse_loop l (hd (B @ [l])) ?h else Some (Inr ?h))"
    using pv nx by (subst reverse_loop.simps) (simp add: next_of_def prev_of_def set_next_def set_prev_def)
  show ?case
  proof (cases "B = []")
    case True
    have "(M_next h)(b \<mapsto> pv) = (\<lambda>p. if p = b then M_prev h p else M_next h p)"
      "(M_prev h)(b \<mapsto> l) = (\<lambda>p. if p = b then M_next h p else M_prev h p)" using pv nx True by auto
    with step True show ?thesis by simp
  next
    case False
    have "links (M_next ?h) g (B @ [l]) \<longleftrightarrow> links (M_next h) g (B @ [l])"
      using Cons.prems(3,4) by (intro links_cong) auto
    then have l: "links (M_next ?h) g (B @ [l])" using Cons.prems(1) by simp
    have p: "\<forall>b \<in> set B. M_prev ?h b \<noteq> None" "distinct B" "l \<notin> set B" using Cons.prems(3-5) by auto
    have "hd B \<noteq> l" using p(3) False by (cases B) auto
    moreover have "(\<lambda>p. if p \<in> set B then M_prev ?h p else M_next ?h p) = (\<lambda>p. if p \<in> set (b # B) then M_prev h p else M_next h p)"
      "(\<lambda>p. if p \<in> set B then M_next ?h p else M_prev ?h p) = (\<lambda>p. if p \<in> set (b # B) then M_next h p else M_prev h p)"
      using pv nx Cons.prems(3) by auto
    ultimately show ?thesis using Cons.IH [OF l False p(2,3,1)] step False by simp
  qed
qed simp

lemma reverse_represents:
  assumes r: "represents h \<tau>" "\<tau> l = Some xs"
  obtains h' where "ls_reverse l h = Some (Inr h')" "represents h' (\<tau>(l \<mapsto> rev xs))"
proof -
  note result = that
  obtain \<sigma> ns where s: "list_objects h \<sigma>" "counts_ok h \<sigma>" "\<tau> = (\<lambda>l. map_option (map (elem_of h)) (\<sigma> l))"
    "\<sigma> l = Some ns" "xs = map (elem_of h) ns" by (rule representsE [OF r]) (rule that)
  note hl = listsD [OF s(1,4)]
  have c: "links (M_next h) (M_prev h) (l # ns @ [l])" "distinct (l # ns)" using hl by (simp_all add: holds_def)
  note ends = holds_header [OF hl]
  let ?N = "\<lambda>p. if p \<in> set (l # ns) then M_prev h p else M_next h p"
  let ?P = "\<lambda>p. if p \<in> set (l # ns) then M_next h p else M_prev h p"
  let ?h = "h\<lparr>M_next := ?N, M_prev := ?P\<rparr>"
  let ?h1 = "h\<lparr>M_next := (M_next h)(l \<mapsto> last (l # ns)), M_prev := (M_prev h)(l \<mapsto> hd (ns @ [l]))\<rparr>"
  have step: "ls_reverse l h = (if hd (ns @ [l]) \<noteq> l then reverse_loop l (hd (ns @ [l])) ?h1 else Some (Inr ?h1))"
    using ends unfolding ls_reverse_def
    by (subst reverse_loop.simps) (simp add: next_of_def prev_of_def set_next_def set_prev_def del: last.simps)
  have ev: "ls_reverse l h = Some (Inr ?h)"
  proof (cases "ns = []")
    case True
    then have "(M_next h)(l \<mapsto> last (l # ns)) = ?N" "(M_prev h)(l \<mapsto> hd (ns @ [l])) = ?P" using ends by auto
    with step True show ?thesis by simp
  next
    case False
    have "links (M_next ?h1) (M_prev h) (ns @ [l]) \<longleftrightarrow> links (M_next h) (M_prev h) (ns @ [l])"
      using links_upd_next [of l "ns @ [l]"] c(2) by simp
    then have l: "links (M_next ?h1) (M_prev h) (ns @ [l])" using c(1) False by simp
    have "\<forall>p \<in> set ns. M_prev h p \<noteq> None"
    proof
      fix p assume "p \<in> set ns"
      then obtain A B where "ns = A @ p # B" by (auto simp: in_set_conv_decomp)
      then show "M_prev h p \<noteq> None" using holds_node(2) [of h l A p B] hl by simp
    qed
    then have p: "\<forall>p \<in> set ns. M_prev ?h1 p \<noteq> None" by simp
    have d: "distinct ns" "l \<notin> set ns" "hd ns \<noteq> l" using c(2) False by (auto dest: hd_in_set)
    moreover have "(\<lambda>p. if p \<in> set ns then M_prev ?h1 p else M_next ?h1 p) = ?N"
      "(\<lambda>p. if p \<in> set ns then M_next ?h1 p else M_prev ?h1 p) = ?P"
      using ends d(2) by auto
    ultimately show ?thesis using reverse_loop_run [OF l False d(1,2) p] step False by simp
  qed
  have "links ?N ?P (l # rev ns @ [l]) \<longleftrightarrow> links (M_prev h) (M_next h) (l # rev ns @ [l])"
    by (rule links_cong) auto
  also have "\<dots> \<longleftrightarrow> links (M_next h) (M_prev h) (l # ns @ [l])"
    using links_rev [of "M_next h" "M_prev h" "l # ns @ [l]"] by simp
  finally have "holds ?h l (rev ns)" using hl c(1) by (auto simp: holds_def)
  then have "list_objects ?h (\<sigma>(l \<mapsto> rev ns))" by (rule lists_change [OF s(1,4)]) auto
  then have "represents ?h (\<tau>(l \<mapsto> rev xs))"
    by (rule represents_result [OF s(1-4)])
      (use counts_okD [OF s(2,4)] s(5) in \<open>auto simp: elem_of_def rev_map fun_upd_idem\<close>)
  with ev result show ?thesis by blast
qed

section \<open>Two lists\<close>

lemma represents_result2:
  assumes "list_objects h \<sigma>" "counts_ok h \<sigma>" "\<tau> = (\<lambda>l. map_option (map (elem_of h)) (\<sigma> l))"
    and "list_objects h' (\<sigma>(l \<mapsto> ns, m \<mapsto> ms))" "length ns < 2 ^ 63" "length ms < 2 ^ 63"
    and "M_size h' = (M_size h)(l \<mapsto> of_nat (length ns), m \<mapsto> of_nat (length ms))" "M_data h' = M_data h" "l \<noteq> m"
  shows "represents h' (\<tau>(l \<mapsto> map (elem_of h) ns, m \<mapsto> map (elem_of h) ms))"
proof -
  have "elem_of h' = elem_of h" using assms(8) by (simp add: elem_of_def fun_eq_iff)
  then have "\<tau>(l \<mapsto> map (elem_of h) ns, m \<mapsto> map (elem_of h) ms) =
      (\<lambda>k. map_option (map (elem_of h')) ((\<sigma>(l \<mapsto> ns, m \<mapsto> ms)) k))"
    using assms(3) by auto
  moreover have "counts_ok h' (\<sigma>(l \<mapsto> ns, m \<mapsto> ms))"
    using assms(2,5-7) by (auto simp: counts_ok_def)
  ultimately show ?thesis using assms(4) by (auto simp: represents_def)
qed

lemma list_objects_size [simp]: "list_objects (h\<lparr>M_size := f\<rparr>) \<sigma> \<longleftrightarrow> list_objects h \<sigma>"
  by (simp add: list_objects_def holds_def)

lemma map_lmerge: "map d (lmerge (by_elem lt d) xs ys) = lmerge lt (map d xs) (map d ys)"
  by (induction "by_elem lt d" xs ys rule: lmerge.induct) (simp_all add: by_elem_def)

lemma merge_represents:
  assumes r: "represents h \<tau>" "\<tau> l = Some xs" "\<tau> m = Some ys" "l \<noteq> m" and len: "length xs + length ys < 2 ^ 63"
  obtains h' where "ls_merge True lt l m h = Some (Inr h')" "represents h' (\<tau>(l \<mapsto> lmerge lt xs ys, m \<mapsto> []))"
proof -
  note result = that
  obtain \<sigma> ns where s: "list_objects h \<sigma>" "counts_ok h \<sigma>" "\<tau> = (\<lambda>l. map_option (map (elem_of h)) (\<sigma> l))"
    "\<sigma> l = Some ns" "xs = map (elem_of h) ns" by (rule representsE [OF r(1,2)]) (rule that)
  obtain ms where m: "\<sigma> m = Some ms" "ys = map (elem_of h) ms" using r(3) s(3) by auto
  let ?z = "lmerge (by_elem lt (elem_of h)) ns ms"
  obtain h1 where h1: "S_merge True lt l m h = Some (Inr h1)" "list_objects h1 (\<sigma>(l \<mapsto> ?z, m \<mapsto> []))"
    "M_data h1 = M_data h" "M_size h1 = M_size h" "unused h1 = unused h"
    by (rule S_merge_held [OF s(1,4) m(1) r(4)]) (rule that)
  let ?h = "h1\<lparr>M_size := (M_size h)(l \<mapsto> of_nat (length ?z), m \<mapsto> of_nat (length ([] :: loc list)))\<rparr>"
  have "ls_merge True lt l m h = Some (Inr ?h)"
    using h1(1,4) counts_okD(2) [OF s(2,4)] counts_okD(2) [OF s(2) m(1)]
    by (simp add: ls_merge_def size_of_def set_size_def length_lmerge)
  moreover have "represents ?h (\<tau>(l \<mapsto> map (elem_of h) ?z, m \<mapsto> map (elem_of h) []))"
    by (rule represents_result2 [OF s(1-3)]) (use h1 len s(5) m(2) r(4) in \<open>simp_all add: length_lmerge\<close>)
  ultimately show ?thesis using result by (simp add: map_lmerge s(5) m(2))
qed

lemma splice_represents:
  assumes r: "represents h \<tau>" "\<tau> l = Some (as @ bs)" "\<tau> m = Some ys" "l \<noteq> m" and len: "length (as @ bs) + length ys < 2 ^ 63"
  obtains pos h' where "andThen (ls_begin l h) (\<lambda>i. list_forward (length as) i h) = Inr pos"
    "splice_all True l pos m h = Some (Inr h')" "represents h' (\<tau>(l \<mapsto> as @ ys @ bs, m \<mapsto> []))"
proof -
  note result = that
  obtain \<sigma> ns where s: "list_objects h \<sigma>" "counts_ok h \<sigma>" "\<tau> = (\<lambda>l. map_option (map (elem_of h)) (\<sigma> l))"
    "\<sigma> l = Some ns" "as @ bs = map (elem_of h) ns" by (rule representsE [OF r(1,2)]) (rule that)
  then obtain A B where ns: "ns = A @ B" and els: "as = map (elem_of h) A" "bs = map (elem_of h) B"
    by (auto simp: append_eq_map_conv)
  obtain ms where m: "\<sigma> m = Some ms" "ys = map (elem_of h) ms" using r(3) s(3) by auto
  have pos: "andThen (ls_begin l h) (\<lambda>i. list_forward (length as) i h) = Inr (hd (B @ [l]))"
    using ls_begin_held [OF s(1,4)] list_forward_held [OF s(1), of l "[]" ns "length A"] s(4) els(1) by (simp add: ns)
  show ?thesis
  proof (cases "ms = []")
    case True
    then have "\<tau>(l \<mapsto> as @ ys @ bs, m \<mapsto> []) = \<tau>" using r(2,3) m(2) by (auto simp: fun_eq_iff)
    moreover have "splice_all True l (hd (B @ [l])) m h = Some (Inr h)"
      using ls_empty_held [OF s(1) m(1)] True by (simp add: splice_all_def)
    ultimately show ?thesis using result [OF pos] r(1) by simp
  next
    case False
    have lm: "\<sigma> l = Some (A @ B)" "\<sigma> m = Some ([] @ ms @ [])" using s(4) ns m(1) by simp_all
    obtain h1 where h1: "List_transfer (hd (B @ [l])) (hd ms) (hd ([] @ [m])) h = Inr h1"
      "list_objects h1 (\<sigma>(l \<mapsto> A @ ms @ B, m \<mapsto> [] @ []))" "M_data h1 = M_data h" "M_size h1 = M_size h" "unused h1 = unused h"
      by (rule lists_transfer [OF s(1) lm r(4) False]) (rule that)
    let ?h = "h1\<lparr>M_size := (M_size h)(l \<mapsto> of_nat (length (A @ ms @ B)), m \<mapsto> of_nat (length ([] :: loc list)))\<rparr>"
    have "splice_all True l (hd (B @ [l])) m h = Some (Inr ?h)"
      using ls_empty_held [OF s(1) m(1)] ls_begin_held [OF s(1) m(1)] False h1(1,4)
        counts_okD(2) [OF s(2,4)] counts_okD(2) [OF s(2) m(1)]
      by (simp add: splice_all_def splice_nodes_def size_of_def set_size_def ns algebra_simps)
    moreover have "represents ?h (\<tau>(l \<mapsto> map (elem_of h) (A @ ms @ B), m \<mapsto> map (elem_of h) []))"
      by (rule represents_result2 [OF s(1-3)]) (use h1 len els m(2) r(4) in \<open>simp_all\<close>)
    ultimately show ?thesis using result [OF pos] els m(2) by simp
  qed
qed

section \<open>Sorting\<close>

text \<open>Sorting by insertion, which keeps equivalent elements in their order.\<close>

definition sort_by :: "('a \<Rightarrow> 'a \<Rightarrow> bool) \<Rightarrow> 'a list \<Rightarrow> 'a list" where
  "sort_by lt xs = foldr (\<lambda>x. lmerge lt [x]) xs []"

lemma sort_by_sorts:
  assumes "strict_weak_order lt"
  shows "sorted_of lt xs (sort_by lt xs)"
proof (induction xs)
  case (Cons x xs)
  have "sorted_of lt ([x] @ sort_by lt xs) (lmerge lt [x] (sort_by lt xs))"
    using lmerge_sorts [OF assms, of "[x]" "sort_by lt xs"] Cons by (simp add: sorted_of_def)
  moreover have "stable lt (x # xs) (x # sort_by lt xs)" using Cons by (auto simp: sorted_of_def stable_def)
  ultimately show ?case by (auto simp: sorted_of_def sort_by_def intro: stable_trans)
qed (simp add: sort_by_def sorted_of_def)

lemma sorted_of_map:
  assumes sw: "strict_weak_order lt" and so: "sorted_of (by_elem lt d) ns ms"
  shows "sorted_of lt (map d ns) (map d ms)"
proof -
  have ms: "set ms = set ns" by (rule strict_weak_order.sorted_of_set [OF by_elem_order [OF sw] so])
  have "filter (\<lambda>x. \<not> lt x v \<and> \<not> lt v x) (map d ms) = filter (\<lambda>x. \<not> lt x v \<and> \<not> lt v x) (map d ns)" for v
  proof (cases "\<exists>p \<in> set ns. \<not> lt (d p) v \<and> \<not> lt v (d p)")
    case True
    then obtain p where "\<not> lt (d p) v" "\<not> lt v (d p)" by blast
    then have "(\<not> lt x v \<and> \<not> lt v x) \<longleftrightarrow> (\<not> lt x (d p) \<and> \<not> lt (d p) x)" for x
      using strict_weak_order.neg_trans [OF sw] by blast
    then show ?thesis
      using so by (simp add: sorted_of_def stable_def by_elem_def filter_map comp_def)
  next
    case False
    then have "filter (\<lambda>x. \<not> lt x v \<and> \<not> lt v x) (map d ms) = []" "filter (\<lambda>x. \<not> lt x v \<and> \<not> lt v x) (map d ns) = []"
      unfolding filter_empty_conv using ms by auto
    then show ?thesis by simp
  qed
  moreover have "ascending lt (map d ms)"
    using so by (simp add: sorted_of_def ascending_def sorted_wrt_map by_elem_def)
  ultimately show ?thesis by (simp add: sorted_of_def stable_def)
qed

lemma sort_represents:
  assumes sw: "strict_weak_order lt" and r: "represents h \<tau>" "\<tau> l = Some xs"
  obtains h' where "ls_sort lt l h = Some (Inr h')" "represents h' (\<tau>(l \<mapsto> sort_by lt xs))"
proof -
  note result = that
  obtain \<sigma> ns where s: "list_objects h \<sigma>" "counts_ok h \<sigma>" "\<tau> = (\<lambda>l. map_option (map (elem_of h)) (\<sigma> l))"
    "\<sigma> l = Some ns" "xs = map (elem_of h) ns" by (rule representsE [OF r]) (rule that)
  have sz: "M_size h l = Some (of_nat (length ns))" "length ns < 2 ^ 63" using counts_okD [OF s(2,4)] by simp_all
  from S_sort_sorts [OF sw s(1,4) _ sz(2)] sz(1) obtain h1 ms where
    h1: "S_sort lt l h = Some (Inr h1)" "list_objects h1 (\<sigma>(l \<mapsto> ms))" "sorted_of (by_elem lt (elem_of h)) ns ms"
    "\<forall>p<unused h. M_data h1 p = M_data h p \<and> (p \<noteq> l \<longrightarrow> M_size h1 p = M_size h p)" by auto
  let ?h = "set_size l (of_nat (length ns)) h1"
  have ms: "set ms = set ns" "length ms = length ns"
    using strict_weak_order.sorted_of_set [OF by_elem_order [OF sw] h1(3)]
      strict_weak_order.sorted_of_length [OF by_elem_order [OF sw] h1(3)] by simp_all
  have "map (elem_of ?h) ms = map (elem_of h) ms"
    using h1(4) ms(1) unused_fresh(3) [OF s(1,4)] by (auto simp: elem_of_def set_size_def)
  also have "\<dots> = sort_by lt xs"
    using strict_weak_order.sorted_of_unique [OF sw sorted_of_map [OF sw h1(3)]] sort_by_sorts [OF sw] s(5) by blast
  finally have el: "map (elem_of ?h) ms = sort_by lt xs" .
  have "ls_sort lt l h = Some (Inr ?h)" using h1(1) sz(1) by (simp add: ls_sort_def size_of_def)
  moreover have "represents ?h (\<tau>(l \<mapsto> sort_by lt xs))"
    by (rule represents_other [OF s(1-4) _ _ _ _ _ el]) (use h1 ms sz in \<open>auto simp: set_size_def\<close>)
  ultimately show ?thesis using result by blast
qed

end
