(* ===== verification/Lru_List.thy ===== *)
theory Lru_List
  imports Lru_Cache Stl_List_Facts
begin

text \<open>
  The cache of \<^verbatim>\<open>src/src/cache.h\<close> composed with the list of the C++ library the repository brings: the same
  member functions, with \<^verbatim>\<open>std::list\<close> as linked nodes and iterators as their addresses. \<open>Lru_Cache\<close> describes the
  list by the nodes it has; here every use the cache makes of it is shown to be what \<open>Lru_Cache\<close> takes it for.
\<close>

section \<open>The class on linked nodes\<close>

record ('k, 'v) LRUStore =
  l_nodes :: "('k \<times> 'v) list_heap"
  l_list :: loc
  l_map :: "('k \<times> loc) list"
  l_cap :: int32
  l_cold :: int32
  l_capacity :: int32

definition st_new :: "int32 \<Rightarrow> ('k \<times> 'v) list_heap \<Rightarrow> ('k, 'v) LRUStore result" where
  "st_new capacity h =
     andThen (List_base h) (\<lambda>(l, h).
       Inr \<lparr>l_nodes = h, l_list = l, l_map = [], l_cap = capacity, l_cold = 0, l_capacity = 0\<rparr>)"

definition st_push_front :: "'k \<times> 'v \<Rightarrow> ('k, 'v) LRUStore \<Rightarrow> ('k, 'v) LRUStore result" where
  "st_push_front kv s =
     andThen (ls_push_front (l_list s) kv (l_nodes s)) (\<lambda>h.
     andThen (ls_begin (l_list s) h) (\<lambda>b.
       Inr (s\<lparr>l_nodes := h, l_map := AList.update (fst kv) b (l_map s)\<rparr>)))"

definition st_promote :: "loc \<Rightarrow> ('k, 'v) LRUStore \<Rightarrow> ('k, 'v) LRUStore result" where
  "st_promote it s =
     andThen (data_of it (l_nodes s)) (\<lambda>pa.
     andThen (ls_erase (l_list s) it (l_nodes s)) (\<lambda>(_, h).
       st_push_front pa (s\<lparr>l_nodes := h\<rparr>)))"

definition st_full :: "('k, 'v) LRUStore \<Rightarrow> bool" where
  "st_full s \<longleftrightarrow> (of_nat (length (l_map s)) :: 64 word) = scast (l_cap s)"

definition st_evict :: "('k, 'v) LRUStore \<Rightarrow> ('k, 'v) LRUStore result" where
  "st_evict s =
     andThen (ls_back (l_list s) (l_nodes s)) (\<lambda>p.
     andThen (ls_pop_back (l_list s) (l_nodes s)) (\<lambda>h.
       Inr (s\<lparr>l_nodes := h, l_map := AList.delete (fst p) (l_map s), l_capacity := l_capacity s + 1\<rparr>)))"

definition st_put :: "'k \<Rightarrow> 'v \<Rightarrow> ('k, 'v) LRUStore \<Rightarrow> ('k, 'v) LRUStore result" where
  "st_put key value s =
     (case map_of (l_map s) key of
        None \<Rightarrow>
          andThen (if st_full s then st_evict s else Inr (s\<lparr>l_cold := l_cold s + 1\<rparr>)) (st_push_front (key, value))
      | Some it \<Rightarrow>
          andThen (data_of it (l_nodes s)) (\<lambda>p.
          andThen (set_data it (fst p, value) (l_nodes s)) (\<lambda>h. st_promote it (s\<lparr>l_nodes := h\<rparr>))))"

definition st_get :: "('k \<Rightarrow> 'v) \<Rightarrow> 'v \<Rightarrow> 'k \<Rightarrow> bool \<Rightarrow> ('k, 'v) LRUStore \<Rightarrow> ('v \<times> ('k, 'v) LRUStore) result" where
  "st_get mk dflt key create_new s =
     (case map_of (l_map s) key of
        None \<Rightarrow>
          (if create_new then andThen (st_put key (mk key) s) (\<lambda>s'. Inr (mk key, s')) else Inr (dflt, s))
      | Some it \<Rightarrow>
          andThen (data_of it (l_nodes s)) (\<lambda>pair.
            if it \<noteq> ls_end (l_list s) then andThen (st_promote it s) (\<lambda>s'. Inr (snd pair, s'))
            else Inr (dflt, s)))"

section \<open>The simulation\<close>

fun address :: "loc \<Rightarrow> iterator \<Rightarrow> loc" where
  "address l (Node n) = n"
| "address l End = l"

definition nodes_rel :: "('k, 'v) nodes \<Rightarrow> loc \<Rightarrow> ('k \<times> 'v) list_heap \<Rightarrow> bool" where
  "nodes_rel ls l h \<longleftrightarrow>
     holds h l (map fst ls) \<and> (\<forall>p \<in> set ls. M_data h (fst p) = Some (snd p)) \<and>
     M_size h l = Some (of_nat (length ls)) \<and> length ls < 2 ^ 63"

definition lru_rel :: "('k, 'v) LRUCache \<Rightarrow> ('k, 'v) LRUStore \<Rightarrow> bool" where
  "lru_rel c s \<longleftrightarrow>
     nodes_rel (lru_list c) (l_list s) (l_nodes s) \<and> LRUCache.fresh c = unused (l_nodes s) \<and>
     l_map s = map (map_prod id (address (l_list s))) (hash_map c) \<and>
     l_cap s = cap c \<and> l_cold s = cold_misses c \<and> l_capacity s = capacity_misses c"

lemma one_list: "list_objects h [l \<mapsto> ns] \<longleftrightarrow> holds h l ns"
  by (auto simp: list_objects_def)

lemma map_update: "map (map_prod id f) (AList.update k v t) = AList.update k (f v) (map (map_prod id f) t)"
  by (induction t) auto

lemma map_delete: "map (map_prod id f) (AList.delete k t) = AList.delete k (map (map_prod id f) t)"
  by (induction t) auto

lemma map_of_map_prod: "map_of (map (map_prod id f) t) k = map_option f (map_of t k)"
  by (induction t) auto

lemma deref_rel:
  assumes "nodes_rel ls l h" and "deref it ls = Inr kv"
  obtains A B n where "it = Node n" "ls = A @ (n, kv) # B" "data_of n h = Inr kv" "n \<noteq> l"
    "n \<notin> fst ` set A" "n \<notin> fst ` set B"
proof -
  obtain n where n: "it = Node n" using assms(2) by (cases it) auto
  then have "map_of ls n = Some kv" using assms(2) by (auto split: option.splits)
  then have mem: "(n, kv) \<in> set ls" by (rule map_of_SomeD)
  then obtain A B where ls: "ls = A @ (n, kv) # B" by (auto simp: in_set_conv_decomp)
  have "distinct (l # map fst ls)" using assms(1) by (simp add: nodes_rel_def holds_def)
  moreover have "data_of n h = Inr kv" using assms(1) mem by (fastforce simp: nodes_rel_def data_of_def)
  ultimately show ?thesis using that [OF n ls] by (auto simp: ls)
qed

lemma begin_rel: "nodes_rel ls l h \<Longrightarrow> ls_begin l h = Inr (address l (list_begin ls))"
  using ls_begin_held [of h "[l \<mapsto> map fst ls]" l "map fst ls"]
  by (cases ls) (simp_all add: nodes_rel_def one_list list_begin_def)

lemma erase_rel:
  assumes "nodes_rel ls l h" and "list_erase it ls = Inr ls'"
  obtains q h' where "ls_erase l (address l it) h = Inr (q, h')" "nodes_rel ls' l h'" "unused h' = unused h"
proof -
  obtain kv where "deref it ls = Inr kv" using assms(2) by (cases "deref it ls") (auto simp: list_erase_def)
  then obtain A B n where n: "it = Node n" "ls = A @ (n, kv) # B" "n \<notin> fst ` set A" "n \<notin> fst ` set B"
    by (rule deref_rel [OF assms(1)]) (rule that)
  have "filter (\<lambda>p. fst p \<noteq> n) A = A" "filter (\<lambda>p. fst p \<noteq> n) B = B" using n(3,4) by (force simp: filter_id_conv)+
  then have ls': "ls' = A @ B" using assms(2) n(1,2) \<open>deref it ls = Inr kv\<close> by (simp add: list_erase_def del: deref.simps)
  have h: "list_objects h [l \<mapsto> map fst ls]" "[l \<mapsto> map fst ls] l = Some (map fst A @ n # map fst B)"
    using assms(1) n by (simp_all add: nodes_rel_def one_list)
  have sz: "M_size h l = Some (of_nat (length ls))" "length ls < 2 ^ 63" "0 < length ls" using assms(1) n by (simp_all add: nodes_rel_def)
  obtain h' where h': "ls_erase l n h = Inr (hd (map fst B @ [l]), h')" "list_objects h' ([l \<mapsto> map fst ls](l \<mapsto> map fst A @ map fst B))"
    "M_data h' = (M_data h)(n := None)"
    "M_size h' = (M_size h)(l \<mapsto> (if (of_nat (length ls) :: 64 word) > 0 then of_nat (length ls) - 1 else of_nat (length ls)))" "unused h' = unused h"
    by (rule lists_erase [OF h sz(1)]) (rule that)
  have "holds h' l (map fst ls')" using h'(2) ls' by (simp add: one_list)
  moreover have "\<forall>p \<in> set ls'. M_data h' (fst p) = Some (snd p)"
    using assms(1) n ls' h'(3) by (auto simp: nodes_rel_def image_iff)
  moreover have "M_size h' l = Some (of_nat (length ls'))"
    using h'(4) count_dec [OF sz(3,2)] ls' n by simp
  ultimately have "nodes_rel ls' l h'" using sz(2) ls' n by (simp add: nodes_rel_def)
  with h'(1,5) n that show ?thesis by simp
qed

lemma push_front_rel:
  assumes "nodes_rel ls l h" and "Suc (length ls) < 2 ^ 63"
  obtains h' where "ls_push_front l kv h = Inr h'" "nodes_rel ((unused h, kv) # ls) l h'" "unused h' = Suc (unused h)"
    "ls_begin l h' = Inr (unused h)"
proof -
  have h: "list_objects h [l \<mapsto> map fst ls]" "[l \<mapsto> map fst ls] l = Some ([] @ map fst ls)" "M_size h l = Some (of_nat (length ls))"
    using assms(1) by (simp_all add: nodes_rel_def one_list)
  obtain h' where h': "ls_insert l (hd (map fst ls @ [l])) kv h = Inr (unused h, h')" "list_objects h' ([l \<mapsto> map fst ls](l \<mapsto> [] @ unused h # map fst ls))"
    "M_data h' = (M_data h)(unused h \<mapsto> kv)" "M_size h' = (M_size h)(l \<mapsto> of_nat (length ls) + 1)" "unused h' = Suc (unused h)"
    by (rule lists_insert [OF h, of kv]) (rule that)
  have "unused h \<notin> fst ` set ls" using unused_fresh(3) [OF h(1), of l "map fst ls" "unused h"] by auto
  then have "\<forall>p \<in> set ls. M_data h' (fst p) = Some (snd p)"
    using assms(1) h'(3) by (auto simp: nodes_rel_def image_iff)
  then have r: "nodes_rel ((unused h, kv) # ls) l h'"
    using h'(2-4) assms(2) by (simp add: nodes_rel_def one_list algebra_simps)
  have "ls_begin l h = Inr (hd (map fst ls @ [l]))" using ls_begin_held [OF h(1), of l "map fst ls"] by simp
  then have "ls_push_front l kv h = Inr h'" using h'(1) by (simp add: ls_push_front_def)
  with that r h'(5) begin_rel [OF r] show ?thesis by (simp add: list_begin_def)
qed

lemma back_rel:
  assumes "nodes_rel ls l h" and "ls \<noteq> []"
  obtains h' where "ls_back l h = list_back ls" "ls_pop_back l h = Inr h'" "nodes_rel (butlast ls) l h'" "unused h' = unused h"
proof -
  obtain A n kv where ls: "ls = A @ [(n, kv)]" using assms(2) by (metis append_butlast_last_id surj_pair)
  have h: "holds h l (map fst A @ [n])" and sz: "size_of l h = Inr (of_nat (length ls))" "length ls < 2 ^ 63"
    using assms(1) by (simp_all add: nodes_rel_def ls size_of_def)
  have p: "prev_of l h = Inr n" using holds_header(2) [OF h] by (simp add: prev_of_def)
  have d: "data_of n h = Inr kv" using assms(1) by (auto simp: nodes_rel_def ls data_of_def)
  have "distinct (map fst ls)" using assms(1) by (simp add: nodes_rel_def holds_def)
  then have "filter (\<lambda>p. fst p \<noteq> n) A = A" "map_of A n = None" by (force simp: filter_id_conv ls map_of_eq_None_iff)+
  then have "list_erase (Node n) ls = Inr A" by (simp add: list_erase_def ls map_add_def)
  then obtain q h' where h': "ls_erase l (address l (Node n)) h = Inr (q, h')" "nodes_rel A l h'" "unused h' = unused h"
    by (rule erase_rel [OF assms(1)]) (rule that)
  have "(of_nat (length ls) :: 64 word) \<noteq> 0" using count_positive [of "length ls"] sz(2) by (simp add: ls)
  then have "ls_pop_back l h = Inr h'" using h'(1) sz(1) p by (simp add: ls_pop_back_def)
  moreover have "ls_back l h = list_back ls" using p d by (simp add: ls_back_def list_back_def ls)
  ultimately show ?thesis using that h' by (simp add: ls)
qed

text \<open>What every member function does on the nodes, when \<open>Lru_Cache\<close> gives its result.\<close>

lemma lru_relD:
  assumes "lru_rel c s"
  shows "nodes_rel (lru_list c) (l_list s) (l_nodes s)" "LRUCache.fresh c = unused (l_nodes s)"
    "l_map s = map (map_prod id (address (l_list s))) (hash_map c)" "l_cap s = cap c" "l_cold s = cold_misses c" "l_capacity s = capacity_misses c"
  using assms by (simp_all add: lru_rel_def)

lemma st_push_front_rel:
  assumes "lru_rel c s" "Suc (length (lru_list c)) < 2 ^ 63"
  shows "\<exists>s'. st_push_front kv s = Inr s' \<and> lru_rel (link (fst kv) (snd kv) c) s'"
proof -
  note r = lru_relD [OF assms(1)]
  obtain h' where h': "ls_push_front (l_list s) kv (l_nodes s) = Inr h'"
    "nodes_rel ((unused (l_nodes s), kv) # lru_list c) (l_list s) h'" "unused h' = Suc (unused (l_nodes s))"
    "ls_begin (l_list s) h' = Inr (unused (l_nodes s))"
    by (rule push_front_rel [OF r(1) assms(2), of kv]) (rule that)
  then show ?thesis
    using r by (simp add: st_push_front_def lru_rel_def link_def map_update)
qed

lemma st_new_rel:
  "\<exists>s. st_new capacity h = Inr s \<and> lru_rel (LRUCache_of_capacity capacity\<lparr>LRUCache.fresh := Suc (unused h)\<rparr>) s"
proof -
  have "list_objects h Map.empty" by (simp add: list_objects_def)
  then obtain h' where h': "List_base h = Inr (unused h, h')" "list_objects h' (Map.empty(unused h \<mapsto> []))"
    "M_size h' = (M_size h)(unused h \<mapsto> 0)" "unused h' = Suc (unused h)" by (rule List_base_held) (rule that)
  then show ?thesis
    by (simp add: st_new_def lru_rel_def nodes_rel_def one_list LRUCache_of_capacity_def)
qed

lemma st_promote_rel:
  assumes "lru_rel c s" "deref (Node n) (lru_list c) = Inr (k, v)"
  shows "\<exists>s'. st_promote n s = Inr s' \<and> lru_rel (link k v (unlink n c)) s'"
proof -
  note r = lru_relD [OF assms(1)]
  have d: "data_of n (l_nodes s) = Inr (k, v)" by (rule deref_rel [OF r(1) assms(2)]) auto
  have "list_erase (Node n) (lru_list c) = Inr (lru_list (unlink n c))"
    using assms(2) by (simp add: list_erase_def del: deref.simps)
  then obtain q h' where h': "ls_erase (l_list s) (address (l_list s) (Node n)) (l_nodes s) = Inr (q, h')"
    "nodes_rel (lru_list (unlink n c)) (l_list s) h'" "unused h' = unused (l_nodes s)"
    by (rule erase_rel [OF r(1)]) (rule that)
  have rel: "lru_rel (unlink n c) (s\<lparr>l_nodes := h'\<rparr>)" using h'(2,3) r by (simp add: lru_rel_def)
  have "n \<in> fst ` set (lru_list c)" using deref_rel [OF r(1) assms(2)] by (metis fst_conv image_eqI in_set_conv_decomp iterator.inject)
  then have "length (lru_list (unlink n c)) < length (lru_list c)" by (auto intro: length_filter_less)
  then have "Suc (length (lru_list (unlink n c))) < 2 ^ 63" using r(1) by (simp add: nodes_rel_def)
  from st_push_front_rel [OF rel this, of "(k, v)"] d h'(1) show ?thesis by (simp add: st_promote_def)
qed

lemma st_put_hit:
  assumes rel: "lru_rel c s" and ok: "lru_ok c" and n: "(n, k, w) \<in> set (lru_list c)"
  shows "\<exists>s'. st_put k v s = Inr s' \<and> lru_rel (link k v (unlink n c)) s'"
proof -
  note r = lru_relD [OF rel]
  define ls where "ls = map (\<lambda>(m, j, u). if m = n then (m, j, v) else (m, j, u)) (lru_list c)"
  let ?c = "c\<lparr>lru_list := ls\<rparr>" and ?h = "l_nodes s\<lparr>M_data := (M_data (l_nodes s))(n \<mapsto> (k, v))\<rparr>"
  have "map_of (hash_map c) k = Some (Node n)" using ok n by (auto simp: hash_map_Some)
  then have found: "map_of (l_map s) k = Some n" by (simp add: r(3) map_of_map_prod)
  have ids: "map fst ls = map fst (lru_list c)" by (auto simp: ls_def)
  have old: "M_data (l_nodes s) m = Some (j, u)" if "(m, j, u) \<in> set (lru_list c)" for m j u
    using r(1) that by (fastforce simp: nodes_rel_def)
  have "M_data ?h (fst p) = Some (snd p)" if "p \<in> set ls" for p
  proof -
    have "p \<in> (\<lambda>(m, j, u). if m = n then (m, j, v) else (m, j, u)) ` set (lru_list c)" using that by (simp add: ls_def)
    then obtain q where q: "p = (\<lambda>(m, j, u). if m = n then (m, j, v) else (m, j, u)) q" "q \<in> set (lru_list c)" by (rule imageE)
    obtain m j u where "q = (m, j, u)" by (cases q)
    with q have m: "(m, j, u) \<in> set (lru_list c)" "p = (if m = n then (m, j, v) else (m, j, u))" by simp_all
    then show ?thesis using old [OF m(1)] old [OF n] by (cases "m = n") auto
  qed
  moreover have "holds ?h (l_list s) (map fst ls)"
    unfolding ids using r(1) by (auto simp: nodes_rel_def holds_def)
  ultimately have "nodes_rel ls (l_list s) ?h" using r(1) by (simp add: nodes_rel_def ls_def)
  then have rel': "lru_rel ?c (s\<lparr>l_nodes := ?h\<rparr>)" using r by (simp add: lru_rel_def)
  have "(n, k, v) \<in> set ls" using n by (force simp: ls_def)
  then have "deref (Node n) (lru_list ?c) = Inr (k, v)" using ok ids by (simp add: lru_ok_def)
  from st_promote_rel [OF rel' this] obtain s' where s': "st_promote n (s\<lparr>l_nodes := ?h\<rparr>) = Inr s'" "lru_rel (link k v (unlink n ?c)) s'"
    by blast
  have "unlink n ?c = unlink n c" by (simp add: ls_def filter_stored)
  with s' found old [OF n] show ?thesis by (simp add: st_put_def data_of_def set_data_def)
qed

lemma st_make_room:
  assumes rel: "lru_rel c s" and ok: "lru_ok c" "cap c \<noteq> 0"
  shows "\<exists>s'. (if st_full s then st_evict s else Inr (s\<lparr>l_cold := l_cold s + 1\<rparr>)) = Inr s' \<and> lru_rel (make_room c) s'"
proof -
  note r = lru_relD [OF rel]
  have full: "st_full s \<longleftrightarrow> full c" by (simp add: st_full_def full_def r(3,4))
  show ?thesis
  proof (cases "full c")
    case True
    then have ne: "lru_list c \<noteq> []" using full_empty ok by blast
    obtain h' where h': "ls_back (l_list s) (l_nodes s) = list_back (lru_list c)" "ls_pop_back (l_list s) (l_nodes s) = Inr h'"
      "nodes_rel (butlast (lru_list c)) (l_list s) h'" "unused h' = unused (l_nodes s)"
      by (rule back_rel [OF r(1) ne]) (rule that)
    then show ?thesis
      using True ne r by (simp add: full st_evict_def list_back_def lru_rel_def make_room_def map_delete)
  next
    case False
    with r show ?thesis by (simp add: full lru_rel_def make_room_def)
  qed
qed

lemma st_put_miss:
  assumes rel: "lru_rel c s" and ok: "lru_ok c" "cap c \<noteq> 0" and k: "k \<notin> fst ` set (contents c)" and len: "Suc (length (lru_list c)) < 2 ^ 63"
  shows "\<exists>s'. st_put k v s = Inr s' \<and> lru_rel (link k v (make_room c)) s'"
proof -
  have "map_of (hash_map c) k = None" using ok(1) k by (simp add: hash_map_None)
  then have "map_of (l_map s) k = None" by (simp add: lru_relD(3) [OF rel] map_of_map_prod)
  moreover obtain s1 where "(if st_full s then st_evict s else Inr (s\<lparr>l_cold := l_cold s + 1\<rparr>)) = Inr s1" "lru_rel (make_room c) s1"
    using st_make_room [OF rel ok] by blast
  moreover have "Suc (length (lru_list (make_room c))) < 2 ^ 63" using len by (auto simp: make_room_def)
  ultimately show ?thesis using st_push_front_rel [of "make_room c" s1 "(k, v)"] by (auto simp: st_put_def)
qed

lemma st_put_correct:
  assumes rel: "lru_rel c s" and ok: "lru_ok c" "cap c \<noteq> 0" and len: "Suc (length (lru_list c)) < 2 ^ 63"
  obtains s' c' where "st_put k v s = Inr s'" "put k v c = Inr c'" "lru_rel c' s'"
  using ok(1)
proof (cases rule: key_cases [where k = k])
  case (hit n w)
  from st_put_hit [OF rel ok(1) hit(1)] put_hit [OF ok(1) hit(1)] show ?thesis by (metis that)
next
  case miss
  from st_put_miss [OF rel ok miss(1) len] put_miss [OF ok miss(1)] show ?thesis by (metis that)
qed

lemma st_get_correct:
  assumes rel: "lru_rel c s" and ok: "lru_ok c" "cap c \<noteq> 0" and len: "Suc (length (lru_list c)) < 2 ^ 63"
  obtains x s' c' where "st_get mk d k create s = Inr (x, s')" "get mk d k create c = Inr (x, c')" "lru_rel c' s'"
  using ok(1)
proof (cases rule: key_cases [where k = k])
  case (hit n v)
  have n: "deref (Node n) (lru_list c) = Inr (k, v)" by (rule deref_node [OF ok(1) hit(1)])
  have m: "map_of (hash_map c) k = Some (Node n)" using ok(1) hit(1) by (auto simp: hash_map_Some)
  then have m': "map_of (l_map s) k = Some n" by (simp add: lru_relD(3) [OF rel] map_of_map_prod)
  have d: "data_of n (l_nodes s) = Inr (k, v)" "n \<noteq> l_list s" by (rule deref_rel [OF lru_relD(1) [OF rel] n]; auto)+
  obtain s' where "st_promote n s = Inr s'" "lru_rel (link k v (unlink n c)) s'" using st_promote_rel [OF rel n] by blast
  with that [of v s' "link k v (unlink n c)"] show ?thesis
    using n m m' d promote_node [OF ok(1) hit(1)] by (simp add: get_def st_get_def del: deref.simps)
next
  case miss
  have m: "map_of (hash_map c) k = None" using ok(1) miss(1) by (simp add: hash_map_None)
  then have m': "map_of (l_map s) k = None" by (simp add: lru_relD(3) [OF rel] map_of_map_prod)
  show ?thesis
  proof (cases create)
    case True
    obtain s' c' where "st_put k (mk k) s = Inr s'" "put k (mk k) c = Inr c'" "lru_rel c' s'"
      by (rule st_put_correct [OF rel ok len, of k "mk k"]) (rule that)
    with True m m' that show ?thesis by (simp add: get_def st_get_def)
  next
    case False
    with rel m m' that show ?thesis by (simp add: get_def st_get_def)
  qed
qed

section \<open>The cache as a list in recency order\<close>

datatype ('k, 'v) access = Put 'k 'v | Get 'k bool

fun st_access :: "('k \<Rightarrow> 'v) \<Rightarrow> 'v \<Rightarrow> ('k, 'v) access \<Rightarrow> ('k, 'v) LRUStore \<Rightarrow> ('v option \<times> ('k, 'v) LRUStore) result" where
  "st_access mk dflt (Put k v) s = andThen (st_put k v s) (\<lambda>s. Inr (None, s))"
| "st_access mk dflt (Get k create) s = andThen (st_get mk dflt k create s) (\<lambda>(x, s). Inr (Some x, s))"

fun st_accesses :: "('k \<Rightarrow> 'v) \<Rightarrow> 'v \<Rightarrow> ('k, 'v) access list \<Rightarrow> ('k, 'v) LRUStore \<Rightarrow> ('v option list \<times> ('k, 'v) LRUStore) result" where
  "st_accesses mk dflt [] s = Inr ([], s)"
| "st_accesses mk dflt (a # as) s =
     andThen (st_access mk dflt a s) (\<lambda>(x, s). andThen (st_accesses mk dflt as s) (\<lambda>(xs, s). Inr (x # xs, s)))"

fun spec_access :: "('k \<Rightarrow> 'v) \<Rightarrow> 'v \<Rightarrow> nat \<Rightarrow> ('k, 'v) access \<Rightarrow> ('k \<times> 'v) list \<Rightarrow> 'v option \<times> ('k \<times> 'v) list" where
  "spec_access mk dflt n (Put k v) xs = (None, spec_put (length xs = n) k v xs)"
| "spec_access mk dflt n (Get k create) xs =
     (let (x, ys) = spec_get (length xs = n) mk dflt k create xs in (Some x, ys))"

fun spec_accesses :: "('k \<Rightarrow> 'v) \<Rightarrow> 'v \<Rightarrow> nat \<Rightarrow> ('k, 'v) access list \<Rightarrow> ('k \<times> 'v) list \<Rightarrow> 'v option list \<times> ('k \<times> 'v) list" where
  "spec_accesses mk dflt n [] xs = ([], xs)"
| "spec_accesses mk dflt n (a # as) xs =
     (let (x, ys) = spec_access mk dflt n a xs; (us, zs) = spec_accesses mk dflt n as ys in (x # us, zs))"

lemma st_access_correct:
  assumes rel: "lru_rel c s" and w: "within_cap c" and n: "nat (sint (cap c)) = n"
  shows "\<exists>x s' c'. st_access mk dflt a s = Inr (x, s') \<and> lru_rel c' s' \<and> within_cap c' \<and> cap c' = cap c \<and>
    (x, contents c') = spec_access mk dflt n a (contents c)"
proof -
  have ok: "lru_ok c" "cap c \<noteq> 0" using w by (auto simp: within_cap_def)
  have "sint (cap c) < 2 ^ 31" using sint_less [of "cap c"] by simp
  then have len: "Suc (length (lru_list c)) < 2 ^ 63" using w by (simp add: within_cap_def contents_def)
  have full: "full c \<longleftrightarrow> length (contents c) = n" using full_iff [OF w] w n by (auto simp: within_cap_def)
  show ?thesis
  proof (cases a)
    case (Put k v)
    obtain s' c' where "st_put k v s = Inr s'" "put k v c = Inr c'" "lru_rel c' s'"
      by (rule st_put_correct [OF rel ok len, of k v]) (rule that)
    with put_correct [OF ok, of k v] put_within_cap [OF w, of k v c'] full Put show ?thesis by auto
  next
    case (Get k create)
    obtain x s' c' where "st_get mk dflt k create s = Inr (x, s')" "get mk dflt k create c = Inr (x, c')" "lru_rel c' s'"
      by (rule st_get_correct [OF rel ok len, of mk dflt k create]) (rule that)
    with get_correct [OF ok, of mk dflt k create] get_within_cap [OF w, of mk dflt k create x c'] full Get show ?thesis
      by (auto split: prod.splits)
  qed
qed

lemma st_accesses_correct:
  assumes "lru_rel c s" "within_cap c" "nat (sint (cap c)) = n"
  shows "\<exists>us s' c'. st_accesses mk dflt as s = Inr (us, s') \<and> lru_rel c' s' \<and> (us, contents c') = spec_accesses mk dflt n as (contents c)"
  using assms
proof (induction as arbitrary: c s)
  case (Cons a as)
  from st_access_correct [OF Cons.prems, of mk dflt a] obtain x s1 c1 where
    1: "st_access mk dflt a s = Inr (x, s1)" "lru_rel c1 s1" "within_cap c1" "cap c1 = cap c"
    "(x, contents c1) = spec_access mk dflt n a (contents c)" by blast
  have "nat (sint (cap c1)) = n" using Cons.prems(3) 1(4) by simp
  from Cons.IH [OF 1(2,3) this] obtain us s' c' where
    2: "st_accesses mk dflt as s1 = Inr (us, s')" "lru_rel c' s'" "(us, contents c') = spec_accesses mk dflt n as (contents c1)" by blast
  have "spec_accesses mk dflt n (a # as) (contents c) = (x # us, contents c')"
    using 1(5) [symmetric] 2(3) [symmetric] by simp
  with 1(1) 2(1,2) show ?case by (intro exI [of _ "x # us"] exI [of _ s'] exI [of _ c']) simp
qed auto

text \<open>The elements of the linked list of a cache, from its first node on.\<close>

definition st_contents :: "('k, 'v) LRUStore \<Rightarrow> ('k \<times> 'v) list \<Rightarrow> bool" where
  "st_contents s xs \<longleftrightarrow> (\<exists>ns. holds (l_nodes s) (l_list s) ns \<and> map (elem_of (l_nodes s)) ns = xs)"

lemma lru_rel_contents: "lru_rel c s \<Longrightarrow> st_contents s (contents c)"
  unfolding st_contents_def
  by (rule exI [of _ "map fst (lru_list c)"]) (auto simp: lru_rel_def nodes_rel_def contents_def elem_of_def)

text \<open>
  C23. The cache on the linked list of the library: from an empty cache of a positive capacity, any sequence of \<^verbatim>\<open>put\<close>s
  and \<^verbatim>\<open>get\<close>s runs without touching a freed node, returns what a list in recency order returns that drops its last pair when
  it is full, and leaves exactly that list in the linked nodes.
\<close>

theorem lru_cache_on_linked_list:
  assumes "0 < sint capacity"
  shows "\<exists>us s xs. andThen (st_new capacity h) (st_accesses mk dflt as) = Inr (us, s) \<and>
    spec_accesses mk dflt (nat (sint capacity)) as [] = (us, xs) \<and> st_contents s xs"
proof -
  obtain s where s: "st_new capacity h = Inr s" "lru_rel (LRUCache_of_capacity capacity\<lparr>LRUCache.fresh := Suc (unused h)\<rparr>) s"
    using st_new_rel by blast
  let ?c = "LRUCache_of_capacity capacity\<lparr>LRUCache.fresh := Suc (unused h)\<rparr>"
  have c: "within_cap ?c" "cap ?c = capacity" "contents ?c = []"
    using assms by (simp_all add: within_cap_def lru_ok_def LRUCache_of_capacity_def contents_def)
  have "nat (sint (cap ?c)) = nat (sint capacity)" by (simp add: c(2))
  from st_accesses_correct [OF s(2) c(1) this, of mk dflt as] obtain us s' c' where
    "st_accesses mk dflt as s = Inr (us, s')" "lru_rel c' s'" "(us, contents c') = spec_accesses mk dflt (nat (sint capacity)) as []"
    by (auto simp: c(3))
  note r = this
  show ?thesis
    using s(1) r(1) r(3) [symmetric] lru_rel_contents [OF r(2)]
    by (intro exI [of _ us] exI [of _ s'] exI [of _ "contents c'"]) simp
qed

theorem lru_cache_on_linked_list_witness:
  "\<exists>us s. andThen (st_new 2 \<lparr>M_next = Map.empty, M_prev = Map.empty, M_data = Map.empty, M_size = Map.empty, unused = 0\<rparr>)
       (st_accesses (\<lambda>k. k) 0 [Put (1 :: nat) 10, Put 2 20, Get 1 False, Put 3 30, Get 2 False]) = Inr (us, s) \<and>
     us = [None, None, Some 10, None, Some (0 :: nat)] \<and> st_contents s [(3, 30), (1, 10)]"
proof -
  have "0 < sint (2 :: int32)" by simp
  from lru_cache_on_linked_list [OF this, of "\<lparr>M_next = Map.empty, M_prev = Map.empty, M_data = Map.empty, M_size = Map.empty, unused = 0\<rparr>"
      "\<lambda>k. k" 0 "[Put (1 :: nat) 10, Put 2 20, Get 1 False, Put 3 30, Get 2 False]"]
  show ?thesis by (auto simp: spec_put_def spec_get_def touch_def)
qed

end
