(* ===== verification/Stl_Partition.thy ===== *)
theory Stl_Partition
  imports Stl_Rotate
begin

text \<open>
  \<^verbatim>\<open>partition\<close> and \<^verbatim>\<open>stable_partition\<close> (\<^verbatim>\<open>stl/_algo.c\<close>), for every iterator category. The stable one
  works in place or with a temporary buffer, as big as the allocator can give: its size is an
  argument here. With a buffer for the whole range or none at all the result is the elements
  with the property followed by those without, each in their order; with a smaller buffer the
  code goes wrong. The recursive functions have no bound of their own; \<open>None\<close> would be a run that does not end.
\<close>

section \<open>The code\<close>

function seek_back :: "(nat \<Rightarrow> bool) \<Rightarrow> nat \<Rightarrow> nat \<Rightarrow> nat" where
  "seek_back P first fin = (if first < fin \<and> \<not> P fin then seek_back P first (fin - 1) else fin)"
  by pat_completeness auto
termination
  by (relation "measure (\<lambda>(P, first, fin). fin)") auto

declare seek_back.simps [simp del]

definition partition_forward :: "('a \<Rightarrow> bool) \<Rightarrow> nat \<Rightarrow> nat \<Rightarrow> 'a list \<Rightarrow> nat \<times> 'a list" where
  "partition_forward pred first fin mem =
     (let first = seek (\<lambda>i. \<not> pred (mem ! i)) first fin in
      if first = fin then (first, mem)
      else fold (\<lambda>next (first, m). if pred (m ! next) then (Suc first, iter_swap first next m) else (first, m))
             [Suc first..<fin] (first, mem))"

lemma seek_lower: "f \<le> seek P f l"
  by (metis nat_le_linear order_refl seek.simps seek_spec(1) not_le)

lemma seek_back_upper: "seek_back P f l \<le> l"
  by (induction P f l rule: seek_back.induct) (subst seek_back.simps, auto)

function partition_bidi :: "('a \<Rightarrow> bool) \<Rightarrow> nat \<Rightarrow> nat \<Rightarrow> 'a list \<Rightarrow> nat \<times> 'a list" where
  "partition_bidi pred first fin mem =
     (let up = seek (\<lambda>i. \<not> pred (mem ! i)) first fin in
      if \<not> up < fin then (up, mem)
      else let down = seek_back (\<lambda>i. pred (mem ! i)) up (fin - 1) in
           if \<not> up < down then (up, mem)
           else partition_bidi pred (Suc up) down (iter_swap up down mem))"
  by pat_completeness auto
termination
proof (relation "measure (\<lambda>(pred, first, fin, mem). fin - first)")
  fix pred :: "'a \<Rightarrow> bool" and first fin mem x xa
  assume "x = seek (\<lambda>i. \<not> pred (mem ! i)) first fin" "\<not> \<not> x < fin"
    "xa = seek_back (\<lambda>i. pred (mem ! i)) x (fin - 1)" "\<not> \<not> x < xa"
  then show "((pred, Suc x, xa, iter_swap x xa mem), pred, first, fin, mem) \<in> measure (\<lambda>(pred, first, fin, mem). fin - first)"
    using seek_lower [of first "\<lambda>i. \<not> pred (mem ! i)" fin] seek_back_upper [of "\<lambda>i. pred (mem ! i)" x "fin - 1"] by simp
qed simp

declare partition_bidi.simps [simp del]

definition std_partition :: "rotate_category \<Rightarrow> ('a \<Rightarrow> bool) \<Rightarrow> nat \<Rightarrow> nat \<Rightarrow> 'a list \<Rightarrow> nat \<times> 'a list" where
  "std_partition c pred first fin mem =
     (case c of RotForward \<Rightarrow> partition_forward pred first fin mem | _ \<Rightarrow> partition_bidi pred first fin mem)"

partial_function (option) inplace_stable_partition ::
    "rotate_category \<Rightarrow> ('a \<Rightarrow> bool) \<Rightarrow> nat \<Rightarrow> nat \<Rightarrow> nat \<Rightarrow> bool \<Rightarrow> bool \<Rightarrow> 'a list \<Rightarrow> (nat \<times> 'a list) option" where
  "inplace_stable_partition c pred first fin len pred_of_first pred_of_before_last mem =
     (if len = 1 then
        Some (if pred_of_first \<and> (pred_of_before_last \<or> pred (mem ! first)) then fin else first, mem)
      else let half_len = len div 2; middle = first + half_len in
        Option.bind (inplace_stable_partition c pred first middle half_len pred_of_first False mem) (\<lambda>r1.
        Option.bind (inplace_stable_partition c pred middle fin (len - half_len) True pred_of_before_last (snd r1)) (\<lambda>r2.
        priv_rotate c (fst r1) middle (fst r2) (snd r2))))"

definition stable_partition_pass :: "('a \<Rightarrow> bool) \<Rightarrow> nat \<Rightarrow> nat \<Rightarrow> nat \<Rightarrow> bool \<Rightarrow> bool \<Rightarrow> 'a list \<Rightarrow> nat \<times> 'a list" where
  "stable_partition_pass pred first fin len pred_of_first pred_of_before_last mem =
     (let (start, buffer, len) =
            (if first \<noteq> fin \<and> (\<not> pred_of_first \<or> pred (mem ! first)) then (Suc first, [mem ! first], len - 1) else (first, [], len));
          (result1, buffer, len, m) =
            fold (\<lambda>i (result1, buffer, len, m).
                if len = 1 \<and> (pred_of_before_last \<or> pred (m ! i)) \<or> len \<noteq> 1 \<and> pred (m ! i)
                then (Suc result1, buffer, len - 1, m[result1 := m ! i])
                else (result1, buffer @ [m ! i], len - 1, m))
              [start..<fin] (first, buffer, len, mem)
      in (result1, snd (fold (\<lambda>v (r, m). (Suc r, m[r := v])) buffer (result1, m))))"

partial_function (option) stable_partition_adaptive ::
    "rotate_category \<Rightarrow> ('a \<Rightarrow> bool) \<Rightarrow> nat \<Rightarrow> nat \<Rightarrow> nat \<Rightarrow> nat \<Rightarrow> bool \<Rightarrow> bool \<Rightarrow> 'a list \<Rightarrow> (nat \<times> 'a list) option" where
  "stable_partition_adaptive c pred first fin len buffer_size pred_of_first pred_of_before_last mem =
     (if len \<le> buffer_size then
        Some (stable_partition_pass pred first fin len pred_of_first pred_of_before_last mem)
      else let half_len = len div 2; middle = first + half_len in
        Option.bind (stable_partition_adaptive c pred first middle half_len buffer_size pred_of_first False mem) (\<lambda>r1.
        Option.bind (stable_partition_adaptive c pred middle fin (len - half_len) buffer_size True pred_of_before_last (snd r1)) (\<lambda>r2.
        priv_rotate c (fst r1) middle (fst r2) (snd r2))))"

definition stable_partition_aux_aux ::
    "rotate_category \<Rightarrow> ('a \<Rightarrow> bool) \<Rightarrow> nat \<Rightarrow> nat \<Rightarrow> nat \<Rightarrow> bool \<Rightarrow> 'a list \<Rightarrow> (nat \<times> 'a list) option" where
  "stable_partition_aux_aux c pred first fin buf_size pred_of_before_last mem =
     (if buf_size > 0
      then stable_partition_adaptive c pred first fin (fin - first) buf_size False pred_of_before_last mem
      else inplace_stable_partition c pred first fin (fin - first) False pred_of_before_last mem)"

definition stable_partition_aux ::
    "rotate_category \<Rightarrow> ('a \<Rightarrow> bool) \<Rightarrow> nat \<Rightarrow> nat \<Rightarrow> nat \<Rightarrow> 'a list \<Rightarrow> (nat \<times> 'a list) option" where
  "stable_partition_aux c pred first fin buf_size mem =
     (if c = RotForward then stable_partition_aux_aux c pred first fin buf_size False mem
      else let fin = seek_back (\<lambda>i. pred (mem ! i)) first (fin - 1) in
           if first = fin then Some (first, mem)
           else stable_partition_aux_aux c pred first (Suc fin) buf_size True mem)"

definition stable_partition ::
    "rotate_category \<Rightarrow> ('a \<Rightarrow> bool) \<Rightarrow> nat \<Rightarrow> nat \<Rightarrow> nat \<Rightarrow> 'a list \<Rightarrow> (nat \<times> 'a list) option" where
  "stable_partition c pred first fin buf_size mem =
     (let first = seek (\<lambda>i. \<not> pred (mem ! i)) first fin in
      if first = fin then Some (first, mem)
      else stable_partition_aux c pred first fin buf_size mem)"

section \<open>Scanning lists\<close>

lemma seek_prefix:
  assumes "\<forall>x \<in> set as. \<not> Q x"
  shows "seek (\<lambda>i. Q ((pre @ as @ rest) ! i)) (length pre) (length pre + length as + n) =
     seek (\<lambda>i. Q ((pre @ as @ rest) ! i)) (length pre + length as) (length pre + length as + n)"
  using assms
proof (induction as arbitrary: pre)
  case (Cons a as)
  then show ?case using Cons.IH [of "pre @ [a]"] by (subst seek_go) (simp_all add: nth_append)
qed simp

lemma seek_hit:
  assumes "\<forall>x \<in> set as. \<not> Q x" "Q b"
  shows "seek (\<lambda>i. Q ((pre @ as @ b # rest) ! i)) (length pre) (length pre + length as + n) = length pre + length as"
  using seek_prefix [OF assms(1), of pre "b # rest" n] assms(2) seek_stop [of "length pre + length as"] by (simp add: nth_append)

lemma seek_none:
  assumes "\<forall>x \<in> set as. \<not> Q x"
  shows "seek (\<lambda>i. Q ((pre @ as @ rest) ! i)) (length pre) (length pre + length as) = length pre + length as"
  using seek_prefix [OF assms(1), of pre rest 0] seek_stop by simp

lemma seek_back_suffix:
  assumes "\<forall>x \<in> set es. \<not> Q x" "first \<le> length pre"
  shows "seek_back (\<lambda>i. Q ((pre @ c # es @ rest) ! i)) first (length pre + length es) =
     seek_back (\<lambda>i. Q ((pre @ c # es @ rest) ! i)) first (length pre)"
  using assms
proof (induction es arbitrary: rest rule: rev_induct)
  case (snoc e es)
  have "seek_back (\<lambda>i. Q ((pre @ c # (es @ [e]) @ rest) ! i)) first (length pre + length (es @ [e])) =
      seek_back (\<lambda>i. Q ((pre @ c # es @ e # rest) ! i)) first (length pre + length es)"
    using snoc.prems by (subst seek_back.simps) (simp add: nth_append)
  then show ?case using snoc by simp
qed simp

lemma seek_back_hit:
  assumes "\<forall>x \<in> set es. \<not> Q x" "first \<le> length pre" "first = length pre \<or> Q c"
  shows "seek_back (\<lambda>i. Q ((pre @ c # es @ rest) ! i)) first (length pre + length es) = length pre"
  using seek_back_suffix [OF assms(1,2), of c rest] assms(2,3)
  by (subst (asm) (2) seek_back.simps) (auto simp: nth_append)

lemma list_first_cases:
  obtains "\<forall>x \<in> set xs. \<not> Q x" | as b cs where "xs = as @ b # cs" "\<forall>x \<in> set as. \<not> Q x" "Q b"
  by (metis split_list_first_prop)

lemma list_last_cases:
  obtains "\<forall>x \<in> set xs. \<not> Q x" | as b cs where "xs = as @ b # cs" "\<forall>x \<in> set cs. \<not> Q x" "Q b"
  by (metis split_list_last_prop)

section \<open>\<^verbatim>\<open>partition\<close>\<close>

definition split_by :: "('a \<Rightarrow> bool) \<Rightarrow> 'a list \<Rightarrow> 'a list \<Rightarrow> 'a list \<Rightarrow> bool" where
  "split_by P xs ys zs \<longleftrightarrow> (\<forall>y \<in> set ys. P y) \<and> (\<forall>z \<in> set zs. \<not> P z) \<and> mset ys + mset zs = mset xs"

lemma split_by_mset: "mset xs = mset xs' \<Longrightarrow> split_by P xs = split_by P xs'"
  by (simp add: split_by_def fun_eq_iff)

lemma partition_pass:
  assumes "zs \<noteq> []" "\<forall>y \<in> set ys. P y" "\<forall>z \<in> set zs. \<not> P z"
  shows "\<exists>ys' zs'. fold (\<lambda>next (first, m). if P (m ! next) then (Suc first, iter_swap first next m) else (first, m))
        [length (pre @ ys @ zs)..<length (pre @ ys @ zs) + length xs] (length (pre @ ys), pre @ ys @ zs @ xs @ post) =
      (length (pre @ ys'), pre @ ys' @ zs' @ post) \<and> split_by P (ys @ zs @ xs) ys' zs'"
  using assms
proof (induction xs arbitrary: ys zs)
  case Nil
  then show ?case by (auto simp: split_by_def)
next
  case (Cons x xs)
  have upt: "[length (pre @ ys @ zs)..<length (pre @ ys @ zs) + length (x # xs)] =
      length (pre @ ys @ zs) # [Suc (length (pre @ ys @ zs))..<Suc (length (pre @ ys @ zs)) + length xs]"
    by (subst upt_conv_Cons) simp_all
  from Cons.prems obtain z zs1 where zs: "zs = z # zs1" by (cases zs) auto
  have swap: "iter_swap (length (pre @ ys)) (length (pre @ ys @ zs)) (pre @ ys @ zs @ (x # xs) @ post) =
      pre @ (ys @ [x]) @ (zs1 @ [z]) @ xs @ post"
    using iter_swap_ends [of "pre @ ys" zs1 z x "xs @ post"] by (simp add: zs add.assoc)
  have at: "(pre @ ys @ zs @ (x # xs) @ post) ! length (pre @ ys @ zs) = x"
    using nth_append_length [of "pre @ ys @ zs" x "xs @ post"] by simp
  let ?loop = "fold (\<lambda>next (first, m). if P (m ! next) then (Suc first, iter_swap first next m) else (first, m))"
  show ?case
  proof (cases "P x")
    case True
    have "?loop [length (pre @ ys @ zs)..<length (pre @ ys @ zs) + length (x # xs)] (length (pre @ ys), pre @ ys @ zs @ (x # xs) @ post) =
        ?loop [length (pre @ (ys @ [x]) @ zs1 @ [z])..<length (pre @ (ys @ [x]) @ zs1 @ [z]) + length xs]
          (length (pre @ ys @ [x]), pre @ (ys @ [x]) @ (zs1 @ [z]) @ xs @ post)"
      unfolding upt fold_simps prod.case at swap using True by (simp add: zs)
    moreover have "split_by P ((ys @ [x]) @ (zs1 @ [z]) @ xs) = split_by P (ys @ zs @ x # xs)"
      by (rule split_by_mset) (simp add: zs)
    ultimately show ?thesis using Cons.IH [of "zs1 @ [z]" "ys @ [x]"] Cons.prems True by (simp add: zs)
  next
    case False
    have "?loop [length (pre @ ys @ zs)..<length (pre @ ys @ zs) + length (x # xs)] (length (pre @ ys), pre @ ys @ zs @ (x # xs) @ post) =
        ?loop [length (pre @ ys @ zs @ [x])..<length (pre @ ys @ zs @ [x]) + length xs]
          (length (pre @ ys), pre @ ys @ (zs @ [x]) @ xs @ post)"
      unfolding upt fold_simps prod.case at using False by simp
    then show ?thesis using Cons.IH [of "zs @ [x]" ys] Cons.prems False by simp
  qed
qed

lemma partition_forward_splits:
  "\<exists>ys zs. partition_forward P (length pre) (length pre + length xs) (pre @ xs @ post) =
      (length pre + length ys, pre @ ys @ zs @ post) \<and> split_by P xs ys zs"
proof (cases xs rule: list_first_cases [where Q = "\<lambda>x. \<not> P x"])
  case 1
  then show ?thesis
    using seek_none [OF 1, of pre post]
    by (intro exI [of _ xs] exI [of _ "[]"]) (simp add: partition_forward_def split_by_def)
next
  case (2 as b cs)
  have "seek (\<lambda>i. \<not> P ((pre @ xs @ post) ! i)) (length pre) (length pre + length xs) = length (pre @ as)"
    using seek_hit [OF 2(2,3), of pre "cs @ post" "Suc (length cs)"] 2(1) by (simp add: add.assoc)
  then show ?thesis
    using partition_pass [of "[b]" as P pre cs post] 2
    by (simp add: partition_forward_def Let_def add.assoc del: upt_Suc)
qed

lemma partition_bidi_splits:
  "\<exists>ys zs. partition_bidi P (length pre) (length pre + length xs) (pre @ xs @ post) =
      (length pre + length ys, pre @ ys @ zs @ post) \<and> split_by P xs ys zs"
proof (induction "length xs" arbitrary: pre xs post rule: less_induct)
  case less
  show ?case
  proof (cases xs rule: list_first_cases [where Q = "\<lambda>x. \<not> P x"])
    case 1
    then show ?thesis
      using seek_none [OF 1, of pre post]
      by (subst partition_bidi.simps, intro exI [of _ xs] exI [of _ "[]"]) (simp add: split_by_def)
  next
    case (2 as b cs)
    have up: "seek (\<lambda>i. \<not> P ((pre @ xs @ post) ! i)) (length pre) (length pre + length xs) = length (pre @ as)"
      using seek_hit [OF 2(2,3), of pre "cs @ post" "Suc (length cs)"] 2(1) by (simp add: add.assoc)
    show ?thesis
    proof (cases cs rule: list_last_cases [where Q = P])
      case 1
      have "seek_back (\<lambda>i. P ((pre @ xs @ post) ! i)) (length (pre @ as)) (length pre + length xs - 1) = length (pre @ as)"
        using seek_back_hit [OF 1, of "length (pre @ as)" "pre @ as" b post] 2(1) by (simp add: add.assoc)
      then have "partition_bidi P (length pre) (length pre + length xs) (pre @ xs @ post) = (length (pre @ as), pre @ xs @ post)"
        using up by (subst partition_bidi.simps) (simp add: Let_def)
      then show ?thesis
        using 1 2 by (intro exI [of _ as] exI [of _ "b # cs"]) (auto simp: split_by_def)
    next
      case inner: (2 ds c es)
      have "seek_back (\<lambda>i. P ((pre @ xs @ post) ! i)) (length (pre @ as)) (length pre + length xs - 1) = length (pre @ as @ b # ds)"
        using seek_back_hit [OF inner(2), of "length (pre @ as)" "pre @ as @ b # ds" c post] 2(1) inner
        by (simp add: add.assoc)
      moreover have "iter_swap (length (pre @ as)) (length (pre @ as @ b # ds)) (pre @ xs @ post) =
          (pre @ as @ [c]) @ ds @ (b # es @ post)"
        using iter_swap_ends [of "pre @ as" ds b c "es @ post"] 2(1) inner(1) by (simp add: add.assoc)
      ultimately have "partition_bidi P (length pre) (length pre + length xs) (pre @ xs @ post) =
          partition_bidi P (length (pre @ as @ [c])) (length (pre @ as @ [c]) + length ds) ((pre @ as @ [c]) @ ds @ (b # es @ post))"
        using up 2(1) inner(1) by (subst partition_bidi.simps) (simp add: Let_def add.assoc)
      moreover obtain ys zs where "partition_bidi P (length (pre @ as @ [c])) (length (pre @ as @ [c]) + length ds) ((pre @ as @ [c]) @ ds @ (b # es @ post)) =
          (length (pre @ as @ [c]) + length ys, (pre @ as @ [c]) @ ys @ zs @ (b # es @ post))" "split_by P ds ys zs"
        using less [of ds "pre @ as @ [c]" "b # es @ post"] 2(1) inner(1) by auto
      ultimately show ?thesis
        using 2 inner by (intro exI [of _ "as @ c # ys"] exI [of _ "zs @ b # es"]) (auto simp: split_by_def)
    qed
  qed
qed

lemma partition_splits:
  "\<exists>ys zs. std_partition c P (length pre) (length pre + length xs) (pre @ xs @ post) =
      (length pre + length ys, pre @ ys @ zs @ post) \<and> split_by P xs ys zs"
  using partition_forward_splits partition_bidi_splits by (cases c) (simp_all add: std_partition_def)

section \<open>\<^verbatim>\<open>stable_partition\<close>\<close>

lemma inplace_stable_partition_filter:
  assumes "xs \<noteq> []" "pof \<or> \<not> P (hd xs)" "\<not> pobl \<or> P (List.last xs)"
  shows "inplace_stable_partition c P (length pre) (length pre + length xs) (length xs) pof pobl (pre @ xs @ post) =
     Some (length pre + length (filter P xs), pre @ filter P xs @ filter (\<lambda>x. \<not> P x) xs @ post)"
  using assms
proof (induction "length xs" arbitrary: pre xs post pof pobl rule: less_induct)
  case less
  show ?case
  proof (cases "length xs = 1")
    case True
    then obtain x where "xs = [x]" by (auto simp: length_Suc_conv)
    then show ?thesis using less.prems by (subst inplace_stable_partition.simps) auto
  next
    case False
    define as bs where "as = take (length xs div 2) xs" and "bs = drop (length xs div 2) xs"
    have len: "2 \<le> length xs" using False less.prems by (cases xs) (auto simp: Suc_le_eq)
    then have xs: "xs = as @ bs" "length as = length xs div 2" "length bs = length xs - length xs div 2" "as \<noteq> []" "bs \<noteq> []"
      by (auto simp: as_def bs_def)
    have small: "length as < length xs" "length bs < length xs" using xs(2,3) len by linarith+
    have hds: "hd xs = hd as" "List.last xs = List.last bs" using xs(4,5) by (simp_all add: xs(1))
    let ?N = "\<lambda>x. \<not> P x"
    have r1: "inplace_stable_partition c P (length pre) (length pre + length as) (length as) pof False (pre @ as @ bs @ post) =
        Some (length pre + length (filter P as), pre @ filter P as @ filter ?N as @ bs @ post)"
      using less.hyps [of as pof False pre "bs @ post"] xs(4) less.prems small(1) hds(1) by simp
    have la: "length (filter P as) + length (filter ?N as) = length as" by (rule sum_length_filter_compl)
    have r2: "inplace_stable_partition c P (length pre + length as) (length pre + length as + length bs) (length bs) True pobl
        (pre @ filter P as @ filter ?N as @ bs @ post) =
        Some (length pre + length as + length (filter P bs), pre @ filter P as @ filter ?N as @ filter P bs @ filter ?N bs @ post)"
      using less.hyps [of bs True pobl "pre @ filter P as @ filter ?N as" post] xs(5) less.prems small(2) hds(2) la by (simp add: add.assoc)
    have r3: "priv_rotate c (length pre + length (filter P as)) (length pre + length as) (length pre + length as + length (filter P bs))
        (pre @ filter P as @ filter ?N as @ filter P bs @ filter ?N bs @ post) =
        Some (length pre + length (filter P as) + length (filter P bs), pre @ filter P as @ filter P bs @ filter ?N as @ filter ?N bs @ post)"
      using priv_rotate_blocks [of c "pre @ filter P as" "filter ?N as" "filter P bs" "filter ?N bs @ post"]
      by (simp add: la [symmetric] add.assoc)
    show ?thesis
      using False r1 r2 r3 unfolding xs(2,3)
      by (subst inplace_stable_partition.simps) (simp add: Let_def xs(1) add.assoc)
  qed
qed

lemma write_back:
  "r + length buf \<le> length m \<Longrightarrow> snd (fold (\<lambda>v (r, m). (Suc r, m[r := v])) buf (r, m)) = take r m @ buf @ drop (r + length buf) m"
proof (induction buf arbitrary: r m)
  case (Cons v buf)
  then have "take (Suc r) (m[r := v]) = take r m @ [v]"
    by (simp add: take_Suc_conv_app_nth)
  with Cons show ?case by simp
qed simp

lemma stable_partition_loop:
  assumes "f < fin" "fin \<le> length mem" "pobl \<longrightarrow> P (mem ! (fin - 1))" "Suc f \<le> l" "l \<le> fin"
  shows "fold (\<lambda>i (result1, buffer, len, m).
        if len = 1 \<and> (pobl \<or> P (m ! i)) \<or> len \<noteq> 1 \<and> P (m ! i)
        then (Suc result1, buffer, len - 1, m[result1 := m ! i])
        else (result1, buffer @ [m ! i], len - 1, m)) [Suc f..<l] (f, [mem ! f], fin - Suc f, mem) =
     (let ys = filter P (segment mem (Suc f) l)
      in (f + length ys, mem ! f # filter (\<lambda>x. \<not> P x) (segment mem (Suc f) l), fin - l, take f mem @ ys @ drop (f + length ys) mem))"
  using assms(4,5)
proof (induction l rule: dec_induct)
  case (step l)
  let ?ys = "filter P (segment mem (Suc f) l)"
  have "length ?ys \<le> l - Suc f"
    using length_filter_le [of P "segment mem (Suc f) l"] step assms by simp
  then have le: "f + length ?ys \<le> l" using step(1) by simp
  have l: "l < length mem" using step assms by simp
  have "fin - l = 1 \<Longrightarrow> l = fin - 1" by simp
  then have guard: "(fin - l = 1 \<and> (pobl \<or> P (mem ! l)) \<or> fin - l \<noteq> 1 \<and> P (mem ! l)) \<longleftrightarrow> P (mem ! l)"
    using assms(3) by auto
  show ?case
    using step l emit_step [OF le l] guard by (simp add: segment_snoc Let_def Suc_diff_le)
qed (use assms in simp)

lemma stable_partition_pass_filter:
  assumes "\<not> P (hd xs)" "xs \<noteq> []" "\<not> pobl \<or> P (List.last xs)"
  shows "stable_partition_pass P (length pre) (length pre + length xs) (length xs) False pobl (pre @ xs @ post) =
     (length pre + length (filter P xs), pre @ filter P xs @ filter (\<lambda>x. \<not> P x) xs @ post)"
proof -
  let ?mem = "pre @ xs @ post" and ?f = "length pre" and ?fin = "length pre + length xs" and ?N = "\<lambda>x. \<not> P x"
  obtain x rest where xs: "xs = x # rest" using assms(2) by (cases xs) auto
  have "?mem ! (?fin - 1) = List.last xs"
    using assms(2) by (simp add: nth_append last_conv_nth xs)
  moreover have seg: "segment ?mem (Suc ?f) ?fin = rest"
    using segment_middle [of "pre @ [x]" rest post] by (simp add: xs)
  moreover have at: "?mem ! ?f = x" by (simp add: xs nth_append)
  moreover have "drop (length (filter P rest)) (x # rest @ post) = drop (length (filter P rest)) (x # rest) @ post"
    using drop_append [of "length (filter P rest)" "x # rest" post] length_filter_le [of P rest] by simp
  ultimately have loop: "fold (\<lambda>i (result1, buffer, len, m).
        if len = 1 \<and> (pobl \<or> P (m ! i)) \<or> len \<noteq> 1 \<and> P (m ! i)
        then (Suc result1, buffer, len - 1, m[result1 := m ! i])
        else (result1, buffer @ [m ! i], len - 1, m)) [Suc ?f..<?fin] (?f, [x], length xs - 1, ?mem) =
     (?f + length (filter P xs), filter ?N xs, 0, pre @ filter P xs @ drop (length (filter P xs)) xs @ post)"
    using stable_partition_loop [of ?f ?fin ?mem pobl P ?fin] assms
    by (simp add: xs Let_def)
  have len: "length (filter P xs) + length (filter ?N xs) = length xs" by (rule sum_length_filter_compl)
  have "snd (fold (\<lambda>v (r, m). (Suc r, m[r := v])) (filter ?N xs)
      (?f + length (filter P xs), pre @ filter P xs @ drop (length (filter P xs)) xs @ post)) = pre @ filter P xs @ filter ?N xs @ post"
    using len by (subst write_back) (simp_all add: add.assoc)
  then show ?thesis
    using loop at by (simp add: stable_partition_pass_def xs Let_def)
qed

text \<open>The whole of it, for a buffer that holds the range, or none.\<close>

lemma stable_partition_aux_aux_filter:
  assumes "xs \<noteq> []" "\<not> P (hd xs)" "\<not> pobl \<or> P (List.last xs)" "buf_size = 0 \<or> length xs \<le> buf_size"
  shows "stable_partition_aux_aux c P (length pre) (length pre + length xs) buf_size pobl (pre @ xs @ post) =
     Some (length pre + length (filter P xs), pre @ filter P xs @ filter (\<lambda>x. \<not> P x) xs @ post)"
proof (cases "buf_size = 0")
  case True
  then show ?thesis
    using inplace_stable_partition_filter [of xs False P pobl c pre post] assms by (simp add: stable_partition_aux_aux_def)
next
  case False
  then show ?thesis
    using assms stable_partition_pass_filter [of P xs pobl pre post]
    by (simp add: stable_partition_aux_aux_def stable_partition_adaptive.simps)
qed

lemma stable_partition_filter:
  assumes "buf_size = 0 \<or> length xs \<le> buf_size"
  shows "stable_partition c P (length pre) (length pre + length xs) buf_size (pre @ xs @ post) =
     Some (length pre + length (filter P xs), pre @ filter P xs @ filter (\<lambda>x. \<not> P x) xs @ post)"
proof (cases xs rule: list_first_cases [where Q = "\<lambda>x. \<not> P x"])
  case 1
  then have "filter P xs = xs" "filter (\<lambda>x. \<not> P x) xs = []" by (auto simp: filter_id_conv filter_empty_conv)
  then show ?thesis
    using seek_none [OF 1, of pre post] by (simp add: stable_partition_def)
next
  case (2 as b cs)
  then have fil: "filter P xs = as @ filter P cs" "filter (\<lambda>x. \<not> P x) xs = b # filter (\<lambda>x. \<not> P x) cs"
    by (auto simp: filter_id_conv filter_empty_conv)
  have first: "seek (\<lambda>i. \<not> P ((pre @ xs @ post) ! i)) (length pre) (length pre + length xs) = length (pre @ as)"
    using seek_hit [OF 2(2,3), of pre "cs @ post" "Suc (length cs)"] 2(1) by (simp add: add.assoc)
  have fwd: "stable_partition_aux_aux c P (length (pre @ as)) (length pre + length xs) buf_size False (pre @ xs @ post) =
      Some (length pre + length (filter P xs), pre @ filter P xs @ filter (\<lambda>x. \<not> P x) xs @ post)"
    using stable_partition_aux_aux_filter [of "b # cs" P False buf_size c "pre @ as" post] 2 assms fil
    by (auto simp: add.assoc)
  have "stable_partition_aux c P (length (pre @ as)) (length pre + length xs) buf_size (pre @ xs @ post) =
      Some (length pre + length (filter P xs), pre @ filter P xs @ filter (\<lambda>x. \<not> P x) xs @ post)"
  proof (cases cs rule: list_last_cases [where Q = P])
    case 1
    have "seek_back (\<lambda>i. P ((pre @ xs @ post) ! i)) (length (pre @ as)) (length pre + length xs - 1) = length (pre @ as)"
      using seek_back_hit [OF 1, of "length (pre @ as)" "pre @ as" b post] 2(1) by (simp add: add.assoc)
    moreover have "filter P cs = []" "filter (\<lambda>x. \<not> P x) cs = cs" using 1 by (auto simp: filter_id_conv filter_empty_conv)
    ultimately show ?thesis using fwd fil 2 by (auto simp: stable_partition_aux_def Let_def)
  next
    case inner: (2 ds c' es)
    have "seek_back (\<lambda>i. P ((pre @ xs @ post) ! i)) (length (pre @ as)) (length pre + length xs - 1) = length (pre @ as @ b # ds)"
      using seek_back_hit [OF inner(2), of "length (pre @ as)" "pre @ as @ b # ds" c' post] 2(1) inner by (simp add: add.assoc)
    moreover have "filter P es = []" "filter (\<lambda>x. \<not> P x) es = es" using inner by (auto simp: filter_id_conv filter_empty_conv)
    ultimately show ?thesis
      using fwd fil 2 inner assms stable_partition_aux_aux_filter [of "b # ds @ [c']" P True buf_size c "pre @ as" "es @ post"]
      by (auto simp: stable_partition_aux_def Let_def add.assoc)
  qed
  then show ?thesis using first 2(1) by (simp add: stable_partition_def Let_def)
qed

text \<open>
  C32. \<^verbatim>\<open>stable_partition\<close> of the library, for each iterator category: when the temporary buffer has room for the
  whole range given (the code asks for one as long as what is left of it without the elements it skips at the ends), or none could be allocated, it ends with the elements that have the property followed by those that do not,
  both in their original order, leaves the cells outside the range alone, and returns the boundary.
\<close>

theorem stable_partition_is_filter:
  assumes "first \<le> fin" "fin \<le> length mem" "buf_size = 0 \<or> fin - first \<le> buf_size"
  shows "stable_partition c pred first fin buf_size mem =
     Some (first + length (filter pred (segment mem first fin)),
       take first mem @ filter pred (segment mem first fin) @ filter (\<lambda>x. \<not> pred x) (segment mem first fin) @ drop fin mem)"
  using stable_partition_filter [of buf_size "segment mem first fin" c pred "take first mem" "drop fin mem"]
    segment_split [of first fin mem] assms by simp

theorem stable_partition_is_filter_witness:
  "stable_partition RotBidi even 1 6 5 [9, 1, 2, 3, 4, 6, 7 :: nat] = Some (4, [9, 2, 4, 6, 1, 3, 7])"
  using stable_partition_is_filter [of 1 6 "[9, 1, 2, 3, 4, 6, 7 :: nat]" 5 RotBidi even]
  by (simp add: segment_def)

lemma stable_partition_adaptive_one:
  assumes "first < length mem" "prev \<longrightarrow> pred (mem ! first)"
  shows "stable_partition_adaptive c pred first (Suc first) 1 1 prev before mem = Some (first, mem)"
  using assms by (subst stable_partition_adaptive.simps) (simp add: stable_partition_pass_def)

text \<open>
  C33. When the allocator gives a buffer for one element only, \<^verbatim>\<open>stable_partition\<close> returns a wrong result
  for every range of two elements of which the first does not have the property and the second does, whatever the
  property and the iterator category: it leaves the range as it was and returns its beginning, as if no element had the property (the
  test of the first element in \<^verbatim>\<open>__stable_partition_adaptive\<close> has the wrong sign).
\<close>

theorem stable_partition_small_buffer_wrong:
  assumes "\<not> pred x" "pred y"
  shows "stable_partition c pred (length pre) (length pre + 2) 1 (pre @ x # y # post) =
    Some (length pre, pre @ x # y # post)"
proof -
  let ?n = "length pre" and ?m = "pre @ x # y # post"
  have "stable_partition_adaptive c pred ?n (Suc ?n) 1 1 False False ?m = Some (?n, ?m)"
    by (rule stable_partition_adaptive_one) simp_all
  moreover have "stable_partition_adaptive c pred (Suc ?n) (Suc (Suc ?n)) 1 1 True before ?m = Some (Suc ?n, ?m)" for before
    by (rule stable_partition_adaptive_one) (simp_all add: nth_append assms(2))
  moreover have "priv_rotate c ?n (Suc ?n) (Suc ?n) ?m = Some (?n, ?m)"
    using priv_rotate_blocks [of c pre "[x]" "[]" "y # post"] by simp
  ultimately have adaptive: "stable_partition_adaptive c pred ?n (Suc (Suc ?n)) 2 1 False before ?m = Some (?n, ?m)" for before
    by (subst stable_partition_adaptive.simps) simp
  moreover have "seek (\<lambda>i. \<not> pred (?m ! i)) ?n (Suc (Suc ?n)) = ?n"
    by (rule seek_stop) (simp add: nth_append assms(1))
  moreover have "seek_back (\<lambda>i. pred (?m ! i)) ?n (Suc ?n) = Suc ?n"
    by (subst seek_back.simps) (simp add: nth_append assms(2))
  ultimately show ?thesis
    by (cases c) (simp_all add: stable_partition_def stable_partition_aux_def stable_partition_aux_aux_def Let_def)
qed

theorem stable_partition_small_buffer_wrong_witness:
  "stable_partition RotForward even 1 3 1 [9, 1, 2, 6 :: nat] = Some (1, [9, 1, 2, 6])"
  using stable_partition_small_buffer_wrong [of even 1 2 RotForward "[9]" "[6 :: nat]"] by (simp add: eval_nat_numeral)

end
