(* ===== verification/Stl_Sets.thy ===== *)
theory Stl_Sets
  imports Stl_Sort
begin

text \<open>
  Set operations on sorted ranges (\<^verbatim>\<open>stl/_algo.c\<close>). The ranges are read through input iterators, once and from the
  left, so they are lists that are consumed; what is written through the output iterator is the
  list of the values written. On sorted ranges the operations are those of multisets.
\<close>

fun std_includes :: "('a \<Rightarrow> 'a \<Rightarrow> bool) \<Rightarrow> 'a list \<Rightarrow> 'a list \<Rightarrow> bool" where
  "std_includes lt (x # xs) (y # ys) =
     (if lt y x then False
      else if lt x y then std_includes lt xs (y # ys)
      else std_includes lt xs ys)"
| "std_includes lt [] ys = (ys = [])"
| "std_includes lt (x # xs) [] = True"

fun set_union :: "('a \<Rightarrow> 'a \<Rightarrow> bool) \<Rightarrow> 'a list \<Rightarrow> 'a list \<Rightarrow> 'a list" where
  "set_union lt (x # xs) (y # ys) =
     (if lt x y then x # set_union lt xs (y # ys)
      else if lt y x then y # set_union lt (x # xs) ys
      else x # set_union lt xs ys)"
| "set_union lt [] ys = ys"
| "set_union lt (x # xs) [] = x # xs"

fun set_intersection :: "('a \<Rightarrow> 'a \<Rightarrow> bool) \<Rightarrow> 'a list \<Rightarrow> 'a list \<Rightarrow> 'a list" where
  "set_intersection lt (x # xs) (y # ys) =
     (if lt x y then set_intersection lt xs (y # ys)
      else if lt y x then set_intersection lt (x # xs) ys
      else x # set_intersection lt xs ys)"
| "set_intersection lt [] ys = []"
| "set_intersection lt (x # xs) [] = []"

fun set_difference :: "('a \<Rightarrow> 'a \<Rightarrow> bool) \<Rightarrow> 'a list \<Rightarrow> 'a list \<Rightarrow> 'a list" where
  "set_difference lt (x # xs) (y # ys) =
     (if lt x y then x # set_difference lt xs (y # ys)
      else if lt y x then set_difference lt (x # xs) ys
      else set_difference lt xs ys)"
| "set_difference lt [] ys = []"
| "set_difference lt (x # xs) [] = x # xs"

fun set_symmetric_difference :: "('a \<Rightarrow> 'a \<Rightarrow> bool) \<Rightarrow> 'a list \<Rightarrow> 'a list \<Rightarrow> 'a list" where
  "set_symmetric_difference lt (x # xs) (y # ys) =
     (if lt x y then x # set_symmetric_difference lt xs (y # ys)
      else if lt y x then y # set_symmetric_difference lt (x # xs) ys
      else set_symmetric_difference lt xs ys)"
| "set_symmetric_difference lt [] ys = ys"
| "set_symmetric_difference lt (x # xs) [] = x # xs"

lemma ascending_sorted: "ascending ((<) :: 'a :: linorder \<Rightarrow> _) xs \<longleftrightarrow> sorted xs"
  by (simp add: ascending_def sorted_wrt_iff_nth_less sorted_iff_nth_mono_less not_less)

lemma below_sorted_notin: "sorted (y # ys) \<Longrightarrow> (x :: 'a :: linorder) < y \<Longrightarrow> x \<notin> set (y # ys)"
  by auto

lemma count_sorted_zero:
  "sorted (y # ys) \<Longrightarrow> (x :: 'a :: linorder) < y \<Longrightarrow> x \<noteq> y \<and> count (mset ys) x = 0"
  using below_sorted_notin [of y ys x] by (simp add: count_mset_0_iff)

lemma set_operations_count:
  fixes xs ys :: "'a :: linorder list"
  assumes "sorted xs" "sorted ys"
  shows "count (mset (set_union (<) xs ys)) v = max (count (mset xs) v) (count (mset ys) v)"
    and "count (mset (set_intersection (<) xs ys)) v = min (count (mset xs) v) (count (mset ys) v)"
    and "count (mset (set_difference (<) xs ys)) v = count (mset xs) v - count (mset ys) v"
    and "count (mset (set_symmetric_difference (<) xs ys)) v =
      (count (mset xs) v - count (mset ys) v) + (count (mset ys) v - count (mset xs) v)"
proof -
  show "count (mset (set_union (<) xs ys)) v = max (count (mset xs) v) (count (mset ys) v)"
    using assms
  proof (induction "(<) :: 'a \<Rightarrow> 'a \<Rightarrow> bool" xs ys rule: set_union.induct)
    case (1 x xs y ys)
    then show ?case
      using count_sorted_zero [of y ys x] count_sorted_zero [of x xs y] by (cases x y rule: linorder_cases) (auto simp del: count_mset_0_iff)
  qed simp_all
  show "count (mset (set_intersection (<) xs ys)) v = min (count (mset xs) v) (count (mset ys) v)"
    using assms
  proof (induction "(<) :: 'a \<Rightarrow> 'a \<Rightarrow> bool" xs ys rule: set_intersection.induct)
    case (1 x xs y ys)
    then show ?case
      using count_sorted_zero [of y ys x] count_sorted_zero [of x xs y] by (cases x y rule: linorder_cases) (auto simp del: count_mset_0_iff)
  qed simp_all
  show "count (mset (set_difference (<) xs ys)) v = count (mset xs) v - count (mset ys) v"
    using assms
  proof (induction "(<) :: 'a \<Rightarrow> 'a \<Rightarrow> bool" xs ys rule: set_difference.induct)
    case (1 x xs y ys)
    then show ?case
      using count_sorted_zero [of y ys x] count_sorted_zero [of x xs y] by (cases x y rule: linorder_cases) (auto simp del: count_mset_0_iff)
  qed simp_all
  show "count (mset (set_symmetric_difference (<) xs ys)) v =
      (count (mset xs) v - count (mset ys) v) + (count (mset ys) v - count (mset xs) v)"
    using assms
  proof (induction "(<) :: 'a \<Rightarrow> 'a \<Rightarrow> bool" xs ys rule: set_symmetric_difference.induct)
    case (1 x xs y ys)
    then show ?case
      using count_sorted_zero [of y ys x] count_sorted_zero [of x xs y] by (cases x y rule: linorder_cases) (auto simp del: count_mset_0_iff)
  qed simp_all
qed

lemma set_operations_sorted:
  fixes xs ys :: "'a :: linorder list"
  assumes "sorted xs" "sorted ys"
  shows "sorted (set_union (<) xs ys) \<and> sorted (set_intersection (<) xs ys) \<and>
    sorted (set_difference (<) xs ys) \<and> sorted (set_symmetric_difference (<) xs ys)"
proof -
  have sets: "set (set_union (<) as bs) \<subseteq> set as \<union> set bs" "set (set_intersection (<) as bs) \<subseteq> set as"
    "set (set_difference (<) as bs) \<subseteq> set as" "set (set_symmetric_difference (<) as bs) \<subseteq> set as \<union> set bs" for as bs :: "'a list"
  proof -
    show "set (set_union (<) as bs) \<subseteq> set as \<union> set bs"
      by (induction "(<) :: 'a \<Rightarrow> 'a \<Rightarrow> bool" as bs rule: set_union.induct) auto
    show "set (set_intersection (<) as bs) \<subseteq> set as"
      by (induction "(<) :: 'a \<Rightarrow> 'a \<Rightarrow> bool" as bs rule: set_intersection.induct) auto
    show "set (set_difference (<) as bs) \<subseteq> set as"
      by (induction "(<) :: 'a \<Rightarrow> 'a \<Rightarrow> bool" as bs rule: set_difference.induct) auto
    show "set (set_symmetric_difference (<) as bs) \<subseteq> set as \<union> set bs"
      by (induction "(<) :: 'a \<Rightarrow> 'a \<Rightarrow> bool" as bs rule: set_symmetric_difference.induct) auto
  qed
  have "sorted (set_union (<) xs ys)"
    using assms
    by (induction "(<) :: 'a \<Rightarrow> 'a \<Rightarrow> bool" xs ys rule: set_union.induct) (auto 0 4 dest!: subsetD [OF sets(1)])
  moreover have "sorted (set_intersection (<) xs ys)"
    using assms
    by (induction "(<) :: 'a \<Rightarrow> 'a \<Rightarrow> bool" xs ys rule: set_intersection.induct) (auto dest!: subsetD [OF sets(2)])
  moreover have "sorted (set_difference (<) xs ys)"
    using assms
    by (induction "(<) :: 'a \<Rightarrow> 'a \<Rightarrow> bool" xs ys rule: set_difference.induct) (auto dest!: subsetD [OF sets(3)])
  moreover have "sorted (set_symmetric_difference (<) xs ys)"
    using assms
    by (induction "(<) :: 'a \<Rightarrow> 'a \<Rightarrow> bool" xs ys rule: set_symmetric_difference.induct) (auto 0 4 dest!: subsetD [OF sets(4)])
  ultimately show ?thesis by blast
qed

lemma includes_subset:
  fixes xs ys :: "'a :: linorder list"
  assumes "sorted xs" "sorted ys"
  shows "std_includes (<) xs ys \<longleftrightarrow> mset ys \<subseteq># mset xs"
  using assms
proof (induction "(<) :: 'a \<Rightarrow> 'a \<Rightarrow> bool" xs ys rule: std_includes.induct)
  case (1 x xs y ys)
  show ?case
  proof (cases x y rule: linorder_cases)
    case less
    have "mset (y # ys) \<subseteq># mset xs \<longleftrightarrow> mset (y # ys) \<subseteq># mset (x # xs)"
    proof
      assume "mset (y # ys) \<subseteq># mset (x # xs)"
      then show "mset (y # ys) \<subseteq># mset xs"
        using below_sorted_notin [OF 1(4) less]
        by (simp add: subset_eq_diff_conv [of _ "{#x#}", symmetric, simplified] flip: set_mset_mset)
    qed (simp add: subset_mset.order_trans)
    then show ?thesis using 1 less by auto
  next
    case equal
    then show ?thesis using 1 by simp
  next
    case greater
    have "y \<notin># mset (x # xs)" using below_sorted_notin [OF 1(3) greater] by simp
    then have "\<not> mset (y # ys) \<subseteq># mset (x # xs)" by (metis list.set_intros(1) mset_subset_eqD set_mset_mset)
    then show ?thesis using greater by simp
  qed
qed auto

text \<open>
  C40. On sorted ranges the set algorithms of the library are the operations on multisets (an
  element that occurs several times counts as often): \<^verbatim>\<open>set_union\<close> takes the maximum of the multiplicities,
  \<^verbatim>\<open>set_intersection\<close> the minimum, \<^verbatim>\<open>set_difference\<close> the difference, \<^verbatim>\<open>set_symmetric_difference\<close> both
  differences, \<^verbatim>\<open>includes\<close> decides the inclusion; and what they write is sorted again.
\<close>

theorem set_operations_multisets:
  fixes xs ys :: "'a :: linorder list"
  assumes "sorted xs" "sorted ys"
  shows "mset (set_union (<) xs ys) = mset xs \<union># mset ys \<and>
    mset (set_intersection (<) xs ys) = mset xs \<inter># mset ys \<and>
    mset (set_difference (<) xs ys) = mset xs - mset ys \<and>
    mset (set_symmetric_difference (<) xs ys) = (mset xs - mset ys) + (mset ys - mset xs) \<and>
    (std_includes (<) xs ys \<longleftrightarrow> mset ys \<subseteq># mset xs) \<and>
    sorted (set_union (<) xs ys) \<and> sorted (set_intersection (<) xs ys) \<and>
    sorted (set_difference (<) xs ys) \<and> sorted (set_symmetric_difference (<) xs ys)"
  using set_operations_count [OF assms] set_operations_sorted [OF assms] includes_subset [OF assms]
  by (simp add: multiset_eq_iff)

theorem set_operations_multisets_witness:
  "mset (set_union (<) [1, 1, 3] [1, 2 :: nat]) = mset [1, 1, 3] \<union># mset [1, 2]"
  using set_operations_multisets [of "[1, 1, 3]" "[1, 2 :: nat]"] by simp

end
