(* ===== verification/Stl_List_Assign.thy ===== *)
theory Stl_List_Assign
  imports Stl_List_Facts
begin

text \<open>
  Operations of the library's list that take or give ranges of elements: erasing and inserting ranges,
  assigning and resizing. New nodes are copies; nodes that are kept are written to in place.
\<close>

section \<open>Steps of the loops\<close>

lemma counts_ok_upd:
  assumes "counts_ok h \<sigma>" "length ns < 2 ^ 63" "M_size h' = (M_size h)(l \<mapsto> of_nat (length ns))"
  shows "counts_ok h' (\<sigma>(l \<mapsto> ns))"
  using assms by (auto simp: counts_ok_def)

lemma insert_step:
  assumes "list_objects h \<sigma>" "counts_ok h \<sigma>" "\<sigma> l = Some (A @ B)" "Suc (length (A @ B)) < 2 ^ 63"
  obtains h' where "ls_insert l (hd (B @ [l])) x h = Inr (unused h, h')" "list_objects h' (\<sigma>(l \<mapsto> A @ unused h # B))"
    "counts_ok h' (\<sigma>(l \<mapsto> A @ unused h # B))" "M_data h' = (M_data h)(unused h \<mapsto> x)" "unused h' = Suc (unused h)"
proof -
  obtain h' where h': "ls_insert l (hd (B @ [l])) x h = Inr (unused h, h')" "list_objects h' (\<sigma>(l \<mapsto> A @ unused h # B))"
    "M_data h' = (M_data h)(unused h \<mapsto> x)" "M_size h' = (M_size h)(l \<mapsto> of_nat (length (A @ B)) + 1)" "unused h' = Suc (unused h)"
    by (rule lists_insert [OF assms(1,3) counts_okD(2) [OF assms(2,3)], of x]) (rule that)
  have "counts_ok h' (\<sigma>(l \<mapsto> A @ unused h # B))"
    by (rule counts_ok_upd [OF assms(2)]) (use assms(4) h'(4) in \<open>simp_all add: algebra_simps\<close>)
  with that h' show ?thesis by blast
qed

lemma erase_step:
  assumes "list_objects h \<sigma>" "counts_ok h \<sigma>" "\<sigma> l = Some (A @ p # B)"
  obtains h' where "ls_erase l p h = Inr (hd (B @ [l]), h')" "list_objects h' (\<sigma>(l \<mapsto> A @ B))"
    "counts_ok h' (\<sigma>(l \<mapsto> A @ B))" "M_data h' = (M_data h)(p := None)" "unused h' = unused h"
proof -
  have len: "length (A @ p # B) < 2 ^ 63" by (rule counts_okD(1) [OF assms(2,3)])
  obtain h' where h': "ls_erase l p h = Inr (hd (B @ [l]), h')" "list_objects h' (\<sigma>(l \<mapsto> A @ B))" "M_data h' = (M_data h)(p := None)"
    "M_size h' = (M_size h)(l \<mapsto> (if (of_nat (length (A @ p # B)) :: 64 word) > 0
       then of_nat (length (A @ p # B)) - 1 else of_nat (length (A @ p # B))))" "unused h' = unused h"
    by (rule lists_erase [OF assms(1,3) counts_okD(2) [OF assms(2,3)]]) (rule that)
  have "counts_ok h' (\<sigma>(l \<mapsto> A @ B))"
    by (rule counts_ok_upd [OF assms(2)]) (use len h'(4) count_dec [of "length (A @ p # B)"] in simp_all)
  with that h' show ?thesis by blast
qed

lemma held_distinct: "list_objects h \<sigma> \<Longrightarrow> \<sigma> l = Some ns \<Longrightarrow> distinct (l # ns)"
  using listsD by (fastforce simp: holds_def)

lemma hd_differs:
  assumes "distinct (l # A @ b # B @ C)"
  shows "b \<noteq> hd (C @ [l])"
  using assms by (cases C) auto

lemma represents_here:
  assumes "list_objects h \<sigma>" "\<tau> = (\<lambda>l. map_option (map (elem_of h)) (\<sigma> l))" "\<sigma> l = Some ns"
    and "list_objects h' (\<sigma>(l \<mapsto> ns'))" "counts_ok h' (\<sigma>(l \<mapsto> ns'))"
    and "\<And>p. p \<notin> set ns \<Longrightarrow> p < unused h \<Longrightarrow> M_data h' p = M_data h p" "map (elem_of h') ns' = zs"
  shows "represents h' (\<tau>(l \<mapsto> zs))"
proof -
  have "map (elem_of h') ms = map (elem_of h) ms" if m: "\<sigma> m = Some ms" "m \<noteq> l" for m ms
  proof (rule map_cong [OF refl])
    fix p assume "p \<in> set ms"
    then have "p \<notin> set ns" "p < unused h"
      using listsD2 [OF assms(1,3) m(1)] m unused_fresh(3) [OF assms(1) m(1)] by (auto simp: apart_def)
    then show "elem_of h' p = elem_of h p" by (simp add: elem_of_def assms(6))
  qed
  then have "\<tau>(l \<mapsto> zs) = (\<lambda>k. map_option (map (elem_of h')) ((\<sigma>(l \<mapsto> ns')) k))"
    using assms(2,7) by (auto simp: fun_eq_iff split: option.splits intro!: map_option_cong)
  then show ?thesis using assms(4,5) by (auto simp: represents_def)
qed

section \<open>Erasing and filling\<close>

lemma erase_range_run:
  assumes "list_objects h \<sigma>" "counts_ok h \<sigma>" "\<sigma> l = Some (A @ B @ C)"
  shows "\<exists>h'. erase_range l (hd (B @ C @ [l])) (hd (C @ [l])) h = Some (Inr h') \<and>
    list_objects h' (\<sigma>(l \<mapsto> A @ C)) \<and> counts_ok h' (\<sigma>(l \<mapsto> A @ C)) \<and>
    (\<forall>p. p \<notin> set B \<longrightarrow> M_data h' p = M_data h p) \<and> unused h' = unused h"
  using assms
proof (induction B arbitrary: h \<sigma>)
  case Nil
  then have "\<sigma>(l \<mapsto> A @ C) = \<sigma>" by (simp add: fun_upd_idem)
  with Nil show ?case by (simp add: erase_range.simps)
next
  case (Cons b B)
  have l: "\<sigma> l = Some (A @ b # B @ C)" using Cons.prems(3) by simp
  have d: "b \<noteq> hd (C @ [l])" by (rule hd_differs [of l A b B C]) (use held_distinct [OF Cons.prems(1) l] in simp)
  have nx: "next_of b h = Inr (hd (B @ C @ [l]))" using next_of_held [OF Cons.prems(1) l] by simp
  obtain h1 where h1: "ls_erase l b h = Inr (hd ((B @ C) @ [l]), h1)" "list_objects h1 (\<sigma>(l \<mapsto> A @ B @ C))"
    "counts_ok h1 (\<sigma>(l \<mapsto> A @ B @ C))" "M_data h1 = (M_data h)(b := None)" "unused h1 = unused h"
    by (rule erase_step [OF Cons.prems(1,2) l]) (rule that)
  have "(\<sigma>(l \<mapsto> A @ B @ C)) l = Some (A @ B @ C)" by simp
  from Cons.IH [OF h1(2,3) this] obtain h' where
    h': "erase_range l (hd (B @ C @ [l])) (hd (C @ [l])) h1 = Some (Inr h')"
    "list_objects h' (\<sigma>(l \<mapsto> A @ B @ C, l \<mapsto> A @ C))" "counts_ok h' (\<sigma>(l \<mapsto> A @ B @ C, l \<mapsto> A @ C))"
    "\<forall>p. p \<notin> set B \<longrightarrow> M_data h' p = M_data h1 p" "unused h' = unused h1" by blast
  have "erase_range l b (hd (C @ [l])) h = Some (Inr h')"
    using d nx h1(1) h'(1) by (subst erase_range.simps) simp
  then have "erase_range l (hd ((b # B) @ C @ [l])) (hd (C @ [l])) h = Some (Inr h')" by simp
  moreover have "list_objects h' (\<sigma>(l \<mapsto> A @ C))" "counts_ok h' (\<sigma>(l \<mapsto> A @ C))" using h'(2,3) by simp_all
  moreover have "\<forall>p. p \<notin> set (b # B) \<longrightarrow> M_data h' p = M_data h p" "unused h' = unused h" using h'(4,5) h1(4,5) by simp_all
  ultimately show ?case by blast
qed

lemma fill_run:
  assumes "list_objects h \<sigma>" "counts_ok h \<sigma>" "\<sigma> l = Some (A @ B)" "length (A @ B) + n < 2 ^ 63"
  shows "\<exists>h' ns. fill_insert l (hd (B @ [l])) n x h = Inr h' \<and>
    list_objects h' (\<sigma>(l \<mapsto> A @ ns @ B)) \<and> counts_ok h' (\<sigma>(l \<mapsto> A @ ns @ B)) \<and> map (elem_of h') ns = replicate n x \<and>
    (\<forall>p<unused h. M_data h' p = M_data h p) \<and> unused h \<le> unused h'"
  using assms
proof (induction n arbitrary: A h \<sigma>)
  case 0
  then have "\<sigma>(l \<mapsto> A @ [] @ B) = \<sigma>" by (simp add: fun_upd_idem)
  with 0 show ?case by (intro exI [of _ h] exI [of _ "[]"]) simp
next
  case (Suc n)
  let ?u = "unused h"
  have "Suc (length (A @ B)) < 2 ^ 63" using Suc.prems(4) by simp
  then obtain h1 where h1: "ls_insert l (hd (B @ [l])) x h = Inr (?u, h1)" "list_objects h1 (\<sigma>(l \<mapsto> A @ ?u # B))"
    "counts_ok h1 (\<sigma>(l \<mapsto> A @ ?u # B))" "M_data h1 = (M_data h)(?u \<mapsto> x)" "unused h1 = Suc ?u"
    by (rule insert_step [OF Suc.prems(1-3)]) (rule that)
  have "(\<sigma>(l \<mapsto> A @ ?u # B)) l = Some ((A @ [?u]) @ B)" "length ((A @ [?u]) @ B) + n < 2 ^ 63" using Suc.prems(4) by simp_all
  from Suc.IH [OF h1(2,3) this] obtain h' ns where
    h': "fill_insert l (hd (B @ [l])) n x h1 = Inr h'" "list_objects h' (\<sigma>(l \<mapsto> A @ ?u # B, l \<mapsto> (A @ [?u]) @ ns @ B))"
    "counts_ok h' (\<sigma>(l \<mapsto> A @ ?u # B, l \<mapsto> (A @ [?u]) @ ns @ B))" "map (elem_of h') ns = replicate n x"
    "\<forall>p<unused h1. M_data h' p = M_data h1 p" "unused h1 \<le> unused h'" by blast
  have "elem_of h' ?u = x" using h'(5) h1(4,5) by (simp add: elem_of_def)
  then have "map (elem_of h') (?u # ns) = replicate (Suc n) x" using h'(4) by simp
  moreover have "fill_insert l (hd (B @ [l])) (Suc n) x h = Inr h'" using h1(1) h'(1) by simp
  moreover have "list_objects h' (\<sigma>(l \<mapsto> A @ (?u # ns) @ B))" "counts_ok h' (\<sigma>(l \<mapsto> A @ (?u # ns) @ B))" using h'(2,3) by simp_all
  moreover have "\<forall>p<unused h. M_data h' p = M_data h p" "unused h \<le> unused h'" using h'(5,6) h1(4,5) by simp_all
  ultimately show ?case by blast
qed

section \<open>Inserting copies\<close>

lemma dispatch_run:
  assumes "list_objects h \<sigma>" "counts_ok h \<sigma>" "\<sigma> t = Some A" "\<sigma> m = Some (P @ S @ R)" "t \<noteq> m" "length A + length S < 2 ^ 63"
  shows "\<exists>h' ns. insert_dispatch t t (hd (S @ R @ [m])) (hd (R @ [m])) h = Some (Inr h') \<and>
    list_objects h' (\<sigma>(t \<mapsto> A @ ns)) \<and> counts_ok h' (\<sigma>(t \<mapsto> A @ ns)) \<and> map (elem_of h') ns = map (elem_of h) S \<and>
    (\<forall>p<unused h. M_data h' p = M_data h p) \<and> unused h \<le> unused h'"
  using assms
proof (induction S arbitrary: A P h \<sigma>)
  case Nil
  then have "\<sigma>(t \<mapsto> A @ []) = \<sigma>" by (simp add: fun_upd_idem)
  with Nil show ?case by (intro exI [of _ h] exI [of _ "[]"]) (simp add: insert_dispatch.simps)
next
  case (Cons s S)
  let ?u = "unused h"
  have m: "\<sigma> m = Some (P @ s # S @ R)" using Cons.prems(4) by simp
  have d: "s \<noteq> hd (R @ [m])" by (rule hd_differs [of m P s S R]) (use held_distinct [OF Cons.prems(1) m] in simp)
  have t: "\<sigma> t = Some (A @ [])" "Suc (length (A @ [])) < 2 ^ 63" using Cons.prems(3,6) by simp_all
  obtain h1 where h1: "ls_insert t (hd ([] @ [t])) (elem_of h s) h = Inr (?u, h1)" "list_objects h1 (\<sigma>(t \<mapsto> A @ [?u]))"
    "counts_ok h1 (\<sigma>(t \<mapsto> A @ [?u]))" "M_data h1 = (M_data h)(?u \<mapsto> elem_of h s)" "unused h1 = Suc ?u"
    by (rule insert_step [OF Cons.prems(1,2) t]) (rule that)
  have t1: "(\<sigma>(t \<mapsto> A @ [?u])) t = Some (A @ [?u])" "(\<sigma>(t \<mapsto> A @ [?u])) m = Some ((P @ [s]) @ S @ R)"
    "length (A @ [?u]) + length S < 2 ^ 63" using m Cons.prems(5,6) by simp_all
  from Cons.IH [OF h1(2,3) t1(1,2) Cons.prems(5) t1(3)] obtain h' ns where
    h': "insert_dispatch t t (hd (S @ R @ [m])) (hd (R @ [m])) h1 = Some (Inr h')"
    "list_objects h' (\<sigma>(t \<mapsto> A @ [?u], t \<mapsto> (A @ [?u]) @ ns))" "counts_ok h' (\<sigma>(t \<mapsto> A @ [?u], t \<mapsto> (A @ [?u]) @ ns))"
    "map (elem_of h') ns = map (elem_of h1) S" "\<forall>p<unused h1. M_data h' p = M_data h1 p" "unused h1 \<le> unused h'" by blast
  have "next_of s h1 = Inr (hd (S @ R @ [m]))" using next_of_held [OF h1(2), of m P s "S @ R"] m Cons.prems(5) by simp
  then have "insert_dispatch t t (hd ((s # S) @ R @ [m])) (hd (R @ [m])) h = Some (Inr h')"
    using d data_of_held [OF Cons.prems(1) m] h1(1) h'(1) by (subst insert_dispatch.simps) simp
  moreover have "map (elem_of h') (?u # ns) = map (elem_of h) (s # S)"
    using unused_fresh(3) [OF Cons.prems(1) m] h'(4,5) h1(4,5) by (auto simp: elem_of_def)
  moreover have "list_objects h' (\<sigma>(t \<mapsto> A @ ?u # ns))" "counts_ok h' (\<sigma>(t \<mapsto> A @ ?u # ns))" using h'(2,3) by simp_all
  moreover have "\<forall>p<unused h. M_data h' p = M_data h p" "unused h \<le> unused h'" using h'(5,6) h1(4,5) by simp_all
  ultimately show ?case by blast
qed

text \<open>The range may be part of the same list: it is copied before anything is inserted.\<close>

lemma insert_range_run:
  assumes "list_objects h \<sigma>" "counts_ok h \<sigma>" "\<sigma> l = Some (A @ B)" "\<sigma> m = Some (P @ S @ R)" "length (A @ B) + length S < 2 ^ 63"
  shows "\<exists>h' ns. insert_range l (hd (B @ [l])) (hd (S @ R @ [m])) (hd (R @ [m])) h = Some (Inr h') \<and>
    list_objects h' (\<sigma>(l \<mapsto> A @ ns @ B)) \<and> counts_ok h' (\<sigma>(l \<mapsto> A @ ns @ B)) \<and> map (elem_of h') ns = map (elem_of h) S \<and>
    (\<forall>p<unused h. M_data h' p = M_data h p)"
proof -
  let ?t = "unused h"
  have t: "\<sigma> ?t = None" "?t \<noteq> l" "?t \<noteq> m" using unused_fresh(1,2) [OF assms(1)] assms(3,4) by auto
  obtain h1 where h1: "List_base h = Inr (?t, h1)" "list_objects h1 (\<sigma>(?t \<mapsto> []))" "M_data h1 = M_data h"
    "M_size h1 = (M_size h)(?t \<mapsto> 0)" "unused h1 = Suc ?t" by (rule List_base_held [OF assms(1)]) (rule that)
  let ?\<sigma> = "\<sigma>(?t \<mapsto> [])"
  have c1: "counts_ok h1 ?\<sigma>" by (rule counts_ok_upd [OF assms(2)]) (simp_all add: h1(4))
  have "?\<sigma> ?t = Some []" "?\<sigma> m = Some (P @ S @ R)" "length ([] :: loc list) + length S < 2 ^ 63" using assms(4,5) t by simp_all
  from dispatch_run [OF h1(2) c1 this(1,2) t(3) this(3)] obtain h2 ns where
    h2: "insert_dispatch ?t ?t (hd (S @ R @ [m])) (hd (R @ [m])) h1 = Some (Inr h2)"
    "list_objects h2 (?\<sigma>(?t \<mapsto> [] @ ns))" "counts_ok h2 (?\<sigma>(?t \<mapsto> [] @ ns))" "map (elem_of h2) ns = map (elem_of h1) S"
    "\<forall>p<unused h1. M_data h2 p = M_data h1 p" "unused h1 \<le> unused h2" by blast
  have s2: "list_objects h2 (\<sigma>(?t \<mapsto> ns))" "counts_ok h2 (\<sigma>(?t \<mapsto> ns))" "(\<sigma>(?t \<mapsto> ns)) ?t = Some ns"
    "(\<sigma>(?t \<mapsto> ns)) l = Some (A @ B)" using h2(2,3) assms(3) t by simp_all
  have copy: "ls_of_range (hd (S @ R @ [m])) (hd (R @ [m])) h = Some (Inr (?t, h2))"
    using h1(1) h2(1) ls_begin_held [OF h1(2), of ?t "[]"] by (simp add: ls_of_range_def)
  have els: "map (elem_of h2) ns = map (elem_of h) S" using h2(4) h1(3) by (simp add: elem_of_def)
  have "\<exists>h3. (if ns = [] then Inr h2 else splice_nodes l (hd (B @ [l])) ?t h2) = Inr h3 \<and>
      list_objects h3 (\<sigma>(l \<mapsto> A @ ns @ B, ?t \<mapsto> [])) \<and> counts_ok h3 (\<sigma>(l \<mapsto> A @ ns @ B, ?t \<mapsto> [])) \<and> M_data h3 = M_data h2"
  proof (cases "ns = []")
    case True
    then have "\<sigma>(?t \<mapsto> ns) = \<sigma>(l \<mapsto> A @ ns @ B, ?t \<mapsto> [])" using assms(3) by (auto simp: fun_eq_iff)
    with True s2 show ?thesis by simp
  next
    case False
    have tn: "(\<sigma>(?t \<mapsto> ns)) ?t = Some ([] @ ns @ [])" by simp
    obtain h3 where h3: "List_transfer (hd (B @ [l])) (hd ns) (hd ([] @ [?t])) h2 = Inr h3"
      "list_objects h3 ((\<sigma>(?t \<mapsto> ns))(l \<mapsto> A @ ns @ B, ?t \<mapsto> [] @ []))" "M_data h3 = M_data h2" "M_size h3 = M_size h2" "unused h3 = unused h2"
      by (rule lists_transfer [OF s2(1,4) tn t(2) [symmetric] False]) (rule that)
    let ?h = "h3\<lparr>M_size := (M_size h2)(l \<mapsto> of_nat (length (A @ ns @ B)), ?t \<mapsto> of_nat (length ([] :: loc list)))\<rparr>"
    have len: "length (A @ ns @ B) < 2 ^ 63" using assms(5) arg_cong [OF els, of length] by simp
    have "splice_nodes l (hd (B @ [l])) ?t h2 = Inr ?h"
      using h3(1,4) False ls_begin_held [OF s2(1,3)] counts_okD(2) [OF s2(2,3)] counts_okD(2) [OF s2(2,4)] t(2)
      by (simp add: splice_nodes_def size_of_def set_size_def algebra_simps)
    moreover have e: "(\<sigma>(?t \<mapsto> ns))(l \<mapsto> A @ ns @ B, ?t \<mapsto> [] @ []) = \<sigma>(l \<mapsto> A @ ns @ B, ?t \<mapsto> [])" using t(2) by (auto simp: fun_eq_iff)
    then have "list_objects ?h (\<sigma>(l \<mapsto> A @ ns @ B, ?t \<mapsto> []))" using h3(2) by simp
    moreover have "length ks < 2 ^ 63 \<and> M_size h2 k = Some (of_nat (length ks))" if "\<sigma> k = Some ks" "k \<noteq> ?t" for k ks
      using counts_okD [OF s2(2), of k ks] that by simp
    then have "counts_ok ?h (\<sigma>(l \<mapsto> A @ ns @ B, ?t \<mapsto> []))"
      using len unfolding counts_ok_def by (auto split: if_splits)
    ultimately show ?thesis using False h3(3) by auto
  qed
  then obtain h3 where h3: "(if ns = [] then Inr h2 else splice_nodes l (hd (B @ [l])) ?t h2) = Inr h3"
    "list_objects h3 (\<sigma>(l \<mapsto> A @ ns @ B, ?t \<mapsto> []))" "counts_ok h3 (\<sigma>(l \<mapsto> A @ ns @ B, ?t \<mapsto> []))" "M_data h3 = M_data h2" by blast
  have "(\<sigma>(l \<mapsto> A @ ns @ B, ?t \<mapsto> [])) ?t = Some []" by simp
  then obtain h4 where h4: "ls_destroy ?t h3 = Some (Inr h4)" "list_objects h4 ((\<sigma>(l \<mapsto> A @ ns @ B, ?t \<mapsto> []))(?t := None))"
    "M_data h4 = (M_data h3)(?t := None)" "M_size h4 = (M_size h3)(?t := None)" "unused h4 = unused h3"
    by (rule destroy_held [OF h3(2)]) (rule that)
  have home: "(\<sigma>(l \<mapsto> A @ ns @ B, ?t \<mapsto> []))(?t := None) = \<sigma>(l \<mapsto> A @ ns @ B)" using t(1,2) by (auto simp: fun_eq_iff)
  have "insert_range l (hd (B @ [l])) (hd (S @ R @ [m])) (hd (R @ [m])) h = Some (Inr h4)"
    using copy h3(1) h4(1) ls_empty_held [OF s2(1,3)] by (simp add: insert_range_def)
  moreover have "list_objects h4 (\<sigma>(l \<mapsto> A @ ns @ B))" using h4(2) home by simp
  moreover have "counts_ok h4 (\<sigma>(l \<mapsto> A @ ns @ B))"
    using h3(3) h4(4) t(1,2) unfolding counts_ok_def by (auto split: if_splits)
  moreover have "?t \<notin> set ns" using header_fresh [OF s2(1,3)] .
  then have "map (elem_of h4) ns = map (elem_of h) S" unfolding els [symmetric]
    using h4(3) h3(4) by (auto simp: elem_of_def)
  moreover have "\<forall>p<?t. M_data h4 p = M_data h p" using h4(3) h3(4) h2(5) h1(3,5) by auto
  ultimately show ?thesis by blast
qed

section \<open>Assigning\<close>

lemma list_objects_set_data:
  assumes "list_objects h \<sigma>" "M_data h p \<noteq> None"
  shows "list_objects (h\<lparr>M_data := (M_data h)(p \<mapsto> x)\<rparr>) \<sigma>"
  using assms by (auto simp: list_objects_def holds_def)

lemma node_data: "list_objects h \<sigma> \<Longrightarrow> \<sigma> l = Some (A @ p # B) \<Longrightarrow> M_data h p \<noteq> None"
  using listsD by (fastforce simp: holds_def)

lemma position_end: "list_objects h \<sigma> \<Longrightarrow> \<sigma> l = Some (A @ b # B) \<Longrightarrow> b \<noteq> l"
  using header_fresh by fastforce

lemma copy_scan_run:
  assumes "list_objects h \<sigma>" "\<sigma> l = Some (A @ B)" "\<sigma> m = Some (C @ D)" "l \<noteq> m"
  shows "\<exists>f. copy_scan (hd (B @ [l])) l (hd (D @ [m])) m h =
      Some (Inr (hd (drop (length D) B @ [l]), hd (drop (length B) D @ [m]), h\<lparr>M_data := f\<rparr>)) \<and>
    list_objects (h\<lparr>M_data := f\<rparr>) \<sigma> \<and> (\<forall>p. p \<notin> set B \<longrightarrow> f p = M_data h p) \<and>
    map (\<lambda>p. the (f p)) (take (length D) B) = map (elem_of h) (take (length B) D)"
  using assms
proof (induction B arbitrary: A C D h)
  case Nil
  then show ?case by (intro exI [of _ "M_data h"]) (simp add: copy_scan.simps)
next
  case (Cons b B)
  note ne = position_end [OF Cons.prems(1,2)]
  show ?case
  proof (cases D)
    case Nil
    with Cons.prems ne show ?thesis by (intro exI [of _ "M_data h"]) (simp add: copy_scan.simps)
  next
    case D: (Cons d D')
    let ?h = "h\<lparr>M_data := (M_data h)(b \<mapsto> elem_of h d)\<rparr>"
    have m: "\<sigma> m = Some (C @ d # D')" using Cons.prems(3) D by simp
    note nd = position_end [OF Cons.prems(1) m]
    have ls: "list_objects ?h \<sigma>" by (rule list_objects_set_data [OF Cons.prems(1) node_data [OF Cons.prems(1,2)]])
    have "\<sigma> l = Some ((A @ [b]) @ B)" "\<sigma> m = Some ((C @ [d]) @ D')" using Cons.prems(2) m by simp_all
    from Cons.IH [OF ls this Cons.prems(4)] obtain f where
      f: "copy_scan (hd (B @ [l])) l (hd (D' @ [m])) m ?h = Some (Inr (hd (drop (length D') B @ [l]), hd (drop (length B) D' @ [m]), ?h\<lparr>M_data := f\<rparr>))"
      "list_objects (?h\<lparr>M_data := f\<rparr>) \<sigma>" "\<forall>p. p \<notin> set B \<longrightarrow> f p = M_data ?h p"
      "map (\<lambda>p. the (f p)) (take (length D') B) = map (elem_of ?h) (take (length B) D')" by blast
    have "copy_scan b l d m h = copy_scan (hd (B @ [l])) l (hd (D' @ [m])) m ?h"
      using ne nd data_of_held [OF Cons.prems(1) m] node_data [OF Cons.prems(1,2)] next_of_held [OF ls Cons.prems(2)] next_of_held [OF ls m]
      by (subst copy_scan.simps) (auto simp: set_data_def)
    then have "copy_scan (hd ((b # B) @ [l])) l (hd (D @ [m])) m h =
        Some (Inr (hd (drop (length D) (b # B) @ [l]), hd (drop (length (b # B)) D @ [m]), h\<lparr>M_data := f\<rparr>))"
      using f(1) D by simp
    moreover have "list_objects (h\<lparr>M_data := f\<rparr>) \<sigma>" using f(2) by simp
    moreover have "\<forall>p. p \<notin> set (b # B) \<longrightarrow> f p = M_data h p" using f(3) by simp
    moreover have "b \<notin> set B" "b \<notin> set D'"
      using held_distinct [OF Cons.prems(1,2)] listsD2 [OF Cons.prems(1,2) m Cons.prems(4)] by (auto simp: apart_def)
    then have "map (\<lambda>p. the (f p)) (take (length D) (b # B)) = map (elem_of h) (take (length (b # B)) D)"
      using f(3,4) D by (auto simp: elem_of_def dest!: in_set_takeD)
    ultimately show ?thesis by blast
  qed
qed

lemma assign_represents:
  assumes r: "represents h \<tau>" "\<tau> l = Some xs" "\<tau> m = Some ys" "l \<noteq> m"
  obtains h' where "ls_assign l m h = Some (Inr h')" "represents h' (\<tau>(l \<mapsto> ys))"
proof -
  note result = that
  obtain \<sigma> B where s: "list_objects h \<sigma>" "counts_ok h \<sigma>" "\<tau> = (\<lambda>l. map_option (map (elem_of h)) (\<sigma> l))"
    "\<sigma> l = Some B" "xs = map (elem_of h) B" by (rule representsE [OF r(1,2)]) (rule that)
  obtain D where m: "\<sigma> m = Some D" "ys = map (elem_of h) D" using r(3) s(3) by auto
  have dis: "set B \<inter> set D = {}" using listsD2 [OF s(1,4) m(1) r(4)] by (auto simp: apart_def)
  have "\<sigma> l = Some ([] @ B)" "\<sigma> m = Some ([] @ D)" using s(4) m(1) by simp_all
  from copy_scan_run [OF s(1) this r(4)] obtain f where
    f: "copy_scan (hd (B @ [l])) l (hd (D @ [m])) m h =
      Some (Inr (hd (drop (length D) B @ [l]), hd (drop (length B) D @ [m]), h\<lparr>M_data := f\<rparr>))"
    "list_objects (h\<lparr>M_data := f\<rparr>) \<sigma>" "\<forall>p. p \<notin> set B \<longrightarrow> f p = M_data h p"
    "map (\<lambda>p. the (f p)) (take (length D) B) = map (elem_of h) (take (length B) D)" by blast
  let ?h = "h\<lparr>M_data := f\<rparr>"
  have c: "counts_ok ?h \<sigma>" using s(2) by (simp add: counts_ok_def)
  have dm: "drop (length B) D = [] \<longleftrightarrow> hd (drop (length B) D @ [m]) = m"
    using hd_is_header [OF s(1), of m "take (length B) D" "drop (length B) D"] m(1) by simp
  let ?r = "if hd (drop (length B) D @ [m]) = m then erase_range l (hd (drop (length D) B @ [l])) l ?h
    else insert_range l l (hd (drop (length B) D @ [m])) m ?h"
  have "\<exists>h1 ns. ?r = Some (Inr h1) \<and> list_objects h1 (\<sigma>(l \<mapsto> ns)) \<and> counts_ok h1 (\<sigma>(l \<mapsto> ns)) \<and> map (elem_of h1) ns = ys \<and>
      (\<forall>p. p \<notin> set B \<longrightarrow> p < unused h \<longrightarrow> M_data h1 p = f p)"
  proof (cases "length D \<le> length B")
    case True
    have "\<sigma> l = Some (take (length D) B @ drop (length D) B @ [])" using s(4) by simp
    from erase_range_run [OF f(2) c this] obtain h1 where
      h1: "erase_range l (hd (drop (length D) B @ [] @ [l])) (hd ([] @ [l])) ?h = Some (Inr h1)"
      "list_objects h1 (\<sigma>(l \<mapsto> take (length D) B @ []))" "counts_ok h1 (\<sigma>(l \<mapsto> take (length D) B @ []))"
      "\<forall>p. p \<notin> set (drop (length D) B) \<longrightarrow> M_data h1 p = M_data ?h p" by blast
    have "set (take (length D) B) \<inter> set (drop (length D) B) = {}"
      using held_distinct [OF s(1,4)] by (simp add: set_take_disj_set_drop_if_distinct)
    then have "map (elem_of h1) (take (length D) B) = map (\<lambda>p. the (f p)) (take (length D) B)"
      using h1(4) by (auto simp: elem_of_def)
    then have "map (elem_of h1) (take (length D) B) = ys" using f(4) m(2) True by simp
    moreover have "\<forall>p. p \<notin> set B \<longrightarrow> p < unused h \<longrightarrow> M_data h1 p = f p" using h1(4) by (auto dest: in_set_dropD)
    moreover have "?r = Some (Inr h1)" using h1(1) True dm by simp
    ultimately show ?thesis using h1(2,3) by auto
  next
    case False
    have lm: "\<sigma> l = Some (B @ [])" "\<sigma> m = Some (take (length B) D @ drop (length B) D @ [])" using s(4) m(1) by simp_all
    have len: "length (B @ []) + length (drop (length B) D) < 2 ^ 63" using counts_okD(1) [OF s(2) m(1)] False by simp
    from insert_range_run [OF f(2) c lm len] obtain h1 ns where
      h1: "insert_range l (hd ([] @ [l])) (hd (drop (length B) D @ [] @ [m])) (hd ([] @ [m])) ?h = Some (Inr h1)"
      "list_objects h1 (\<sigma>(l \<mapsto> B @ ns @ []))" "counts_ok h1 (\<sigma>(l \<mapsto> B @ ns @ []))"
      "map (elem_of h1) ns = map (elem_of ?h) (drop (length B) D)" "\<forall>p<unused ?h. M_data h1 p = M_data ?h p" by blast
    have "map (elem_of h1) B = map (\<lambda>p. the (f p)) B" using h1(5) unused_fresh(3) [OF s(1,4)] by (auto simp: elem_of_def)
    also have "\<dots> = map (elem_of h) (take (length B) D)" using f(4) False by simp
    finally have "map (elem_of h1) B = map (elem_of h) (take (length B) D)" .
    moreover have "map (elem_of h1) ns = map (elem_of h) (drop (length B) D)"
    proof -
      have "p \<notin> set B" if "p \<in> set (drop (length B) D)" for p using dis that in_set_dropD [of p] by fast
      then show ?thesis unfolding h1(4) using f(3) by (auto simp: elem_of_def)
    qed
    ultimately have "map (elem_of h1) (B @ ns) = map (elem_of h) (take (length B) D @ drop (length B) D)" by (simp only: map_append)
    then have "map (elem_of h1) (B @ ns) = ys" by (simp add: m(2))
    moreover have "\<forall>p. p \<notin> set B \<longrightarrow> p < unused h \<longrightarrow> M_data h1 p = f p" using h1(5) by simp
    moreover have "?r = Some (Inr h1)" using h1(1) False dm by simp
    ultimately show ?thesis using h1(2,3) by auto
  qed
  then obtain h1 ns where h1: "?r = Some (Inr h1)" "list_objects h1 (\<sigma>(l \<mapsto> ns))" "counts_ok h1 (\<sigma>(l \<mapsto> ns))" "map (elem_of h1) ns = ys"
    "\<forall>p. p \<notin> set B \<longrightarrow> p < unused h \<longrightarrow> M_data h1 p = f p" by blast
  have rep: "represents h1 (\<tau>(l \<mapsto> ys))"
    by (rule represents_here [OF s(1,3,4) h1(2,3) _ h1(4)]) (use h1(5) f(3) in simp)
  have len: "length ns = length D" using arg_cong [OF h1(4), of length] m(2) by simp
  have "(\<sigma>(l \<mapsto> ns)) m = Some D" using m(1) r(4) by simp
  note szm = counts_okD(2) [OF h1(3) this]
  have szl: "M_size h1 l = Some (of_nat (length D))" using counts_okD(2) [OF h1(3), of l ns] len by simp
  then have "set_size l (of_nat (length D)) h1 = h1" by (simp add: set_size_def fun_upd_idem)
  then have "ls_assign l m h = Some (Inr h1)"
    using r(4) f(1) h1(1) szm ls_begin_held [OF s(1,4)] ls_begin_held [OF s(1) m(1)]
    by (simp add: ls_assign_def assign_range_def size_of_def cong: if_cong)
  with rep result show ?thesis by blast
qed

section \<open>Resizing and filling\<close>

lemma resize_scan_run:
  assumes "list_objects h \<sigma>" "\<sigma> l = Some (A @ B)" "len \<le> n"
  shows "resize_scan l (hd (B @ [l])) len n h = Some (Inr (hd (drop (n - len) B @ [l]), min n (len + length B)))"
  using assms(2,3)
proof (induction B arbitrary: A len)
  case Nil
  then show ?case by (subst resize_scan.simps) simp
next
  case (Cons b B)
  have l: "\<sigma> l = Some ((A @ [b]) @ B)" using Cons.prems(1) by simp
  show ?case
  proof (cases "len < n")
    case True
    then have "resize_scan l (hd ((b # B) @ [l])) len n h = resize_scan l (hd (B @ [l])) (Suc len) n h"
      using position_end [OF assms(1) Cons.prems(1)] next_of_held [OF assms(1) Cons.prems(1)]
      by (subst resize_scan.simps) simp
    also have "\<dots> = Some (Inr (hd (drop (n - Suc len) B @ [l]), min n (Suc len + length B)))"
      using Cons.IH [OF l] True by simp
    finally show ?thesis using True by (simp add: Suc_diff_Suc [symmetric])
  next
    case False
    then show ?thesis using Cons.prems(2) by (subst resize_scan.simps) simp
  qed
qed

lemma resize_represents:
  assumes r: "represents h \<tau>" "\<tau> l = Some xs" and n: "n < 2 ^ 63"
  obtains h' where "ls_resize l n x h = Some (Inr h')" "represents h' (\<tau>(l \<mapsto> take n xs @ replicate (n - length xs) x))"
proof -
  note result = that
  obtain \<sigma> B where s: "list_objects h \<sigma>" "counts_ok h \<sigma>" "\<tau> = (\<lambda>l. map_option (map (elem_of h)) (\<sigma> l))"
    "\<sigma> l = Some B" "xs = map (elem_of h) B" by (rule representsE [OF r]) (rule that)
  have "\<sigma> l = Some ([] @ B)" using s(4) by simp
  from resize_scan_run [OF s(1) this, of 0 n]
  have sc: "resize_scan l (hd (B @ [l])) 0 n h = Some (Inr (hd (drop n B @ [l]), min n (length B)))" by simp
  show ?thesis
  proof (cases "n \<le> length B")
    case True
    have "\<sigma> l = Some (take n B @ drop n B @ [])" using s(4) by simp
    from erase_range_run [OF s(1,2) this] obtain h1 where
      h1: "erase_range l (hd (drop n B @ [] @ [l])) (hd ([] @ [l])) h = Some (Inr h1)"
      "list_objects h1 (\<sigma>(l \<mapsto> take n B @ []))" "counts_ok h1 (\<sigma>(l \<mapsto> take n B @ []))"
      "\<forall>p. p \<notin> set (drop n B) \<longrightarrow> M_data h1 p = M_data h p" by blast
    have "set (take n B) \<inter> set (drop n B) = {}"
      using held_distinct [OF s(1,4)] by (simp add: set_take_disj_set_drop_if_distinct)
    then have "map (elem_of h1) (take n B) = map (elem_of h) (take n B)" using h1(4) by (auto simp: elem_of_def)
    then have els: "map (elem_of h1) (take n B @ []) = take n xs @ replicate (n - length xs) x" using True s(5) by (simp add: take_map)
    have "represents h1 (\<tau>(l \<mapsto> take n xs @ replicate (n - length xs) x))"
      by (rule represents_here [OF s(1,3,4) h1(2,3) _ els]) (use h1(4) in \<open>auto dest: in_set_dropD\<close>)
    moreover have "ls_resize l n x h = Some (Inr h1)"
      using h1(1) sc True ls_begin_held [OF s(1,4)] by (simp add: ls_resize_def)
    ultimately show ?thesis using result by blast
  next
    case False
    have "\<sigma> l = Some (B @ [])" "length (B @ []) + (n - length B) < 2 ^ 63" using s(4) False n by simp_all
    from fill_run [OF s(1,2) this, of x] obtain h1 ns where
      h1: "fill_insert l (hd ([] @ [l])) (n - length B) x h = Inr h1" "list_objects h1 (\<sigma>(l \<mapsto> B @ ns @ []))"
      "counts_ok h1 (\<sigma>(l \<mapsto> B @ ns @ []))" "map (elem_of h1) ns = replicate (n - length B) x" "\<forall>p<unused h. M_data h1 p = M_data h p" by blast
    have "map (elem_of h1) B = xs" unfolding s(5) using h1(5) unused_fresh(3) [OF s(1,4)] by (auto simp: elem_of_def)
    then have els: "map (elem_of h1) (B @ ns @ []) = take n xs @ replicate (n - length xs) x" using False h1(4) s(5) by simp
    have "represents h1 (\<tau>(l \<mapsto> take n xs @ replicate (n - length xs) x))"
      by (rule represents_here [OF s(1,3,4) h1(2,3) _ els]) (use h1(5) in simp)
    moreover have "ls_resize l n x h = Some (Inr h1)"
      using h1(1) sc False ls_begin_held [OF s(1,4)] by (simp add: ls_resize_def)
    ultimately show ?thesis using result by blast
  qed
qed

lemma fill_scan_run:
  assumes "list_objects h \<sigma>" "\<sigma> l = Some (A @ B)"
  shows "\<exists>f. fill_scan l (hd (B @ [l])) n x h = Some (Inr (hd (drop n B @ [l]), n - length B, h\<lparr>M_data := f\<rparr>)) \<and>
    list_objects (h\<lparr>M_data := f\<rparr>) \<sigma> \<and> (\<forall>p. p \<notin> set B \<longrightarrow> f p = M_data h p) \<and> (\<forall>p \<in> set (take n B). f p = Some x)"
  using assms
proof (induction B arbitrary: A n h)
  case Nil
  then show ?case by (intro exI [of _ "M_data h"]) (simp add: fill_scan.simps)
next
  case (Cons b B)
  note ne = position_end [OF Cons.prems]
  show ?case
  proof (cases n)
    case 0
    with Cons.prems show ?thesis by (intro exI [of _ "M_data h"]) (simp add: fill_scan.simps)
  next
    case (Suc k)
    let ?h = "h\<lparr>M_data := (M_data h)(b \<mapsto> x)\<rparr>"
    have ls: "list_objects ?h \<sigma>" by (rule list_objects_set_data [OF Cons.prems(1) node_data [OF Cons.prems]])
    have "\<sigma> l = Some ((A @ [b]) @ B)" using Cons.prems(2) by simp
    from Cons.IH [OF ls this, of k] obtain f where
      f: "fill_scan l (hd (B @ [l])) k x ?h = Some (Inr (hd (drop k B @ [l]), k - length B, ?h\<lparr>M_data := f\<rparr>))"
      "list_objects (?h\<lparr>M_data := f\<rparr>) \<sigma>" "\<forall>p. p \<notin> set B \<longrightarrow> f p = M_data ?h p" "\<forall>p \<in> set (take k B). f p = Some x" by blast
    have "fill_scan l b n x h = fill_scan l (hd (B @ [l])) k x ?h"
      using ne node_data [OF Cons.prems] next_of_held [OF ls Cons.prems(2)] Suc
      by (subst fill_scan.simps) (auto simp: set_data_def)
    then have "fill_scan l (hd ((b # B) @ [l])) n x h = Some (Inr (hd (drop n (b # B) @ [l]), n - length (b # B), h\<lparr>M_data := f\<rparr>))"
      using f(1) Suc by simp
    moreover have "list_objects (h\<lparr>M_data := f\<rparr>) \<sigma>" using f(2) by simp
    moreover have "\<forall>p. p \<notin> set (b # B) \<longrightarrow> f p = M_data h p" using f(3) by simp
    moreover have "b \<notin> set B" using held_distinct [OF Cons.prems] by simp
    then have "\<forall>p \<in> set (take n (b # B)). f p = Some x" using f(3,4) Suc by simp
    ultimately show ?thesis by blast
  qed
qed

lemma fill_assign_represents:
  assumes r: "represents h \<tau>" "\<tau> l = Some xs" and n: "n < 2 ^ 63"
  obtains h' where "fill_assign l n x h = Some (Inr h')" "represents h' (\<tau>(l \<mapsto> replicate n x))"
proof -
  note result = that
  obtain \<sigma> B where s: "list_objects h \<sigma>" "counts_ok h \<sigma>" "\<tau> = (\<lambda>l. map_option (map (elem_of h)) (\<sigma> l))"
    "\<sigma> l = Some B" "xs = map (elem_of h) B" by (rule representsE [OF r]) (rule that)
  have "\<sigma> l = Some ([] @ B)" using s(4) by simp
  from fill_scan_run [OF s(1) this, of n x] obtain f where
    f: "fill_scan l (hd (B @ [l])) n x h = Some (Inr (hd (drop n B @ [l]), n - length B, h\<lparr>M_data := f\<rparr>))"
    "list_objects (h\<lparr>M_data := f\<rparr>) \<sigma>" "\<forall>p. p \<notin> set B \<longrightarrow> f p = M_data h p" "\<forall>p \<in> set (take n B). f p = Some x" by blast
  let ?h = "h\<lparr>M_data := f\<rparr>"
  have c: "counts_ok ?h \<sigma>" using s(2) by (simp add: counts_ok_def)
  show ?thesis
  proof (cases "n \<le> length B")
    case True
    have "\<sigma> l = Some (take n B @ drop n B @ [])" using s(4) by simp
    from erase_range_run [OF f(2) c this] obtain h1 where
      h1: "erase_range l (hd (drop n B @ [] @ [l])) (hd ([] @ [l])) ?h = Some (Inr h1)"
      "list_objects h1 (\<sigma>(l \<mapsto> take n B @ []))" "counts_ok h1 (\<sigma>(l \<mapsto> take n B @ []))"
      "\<forall>p. p \<notin> set (drop n B) \<longrightarrow> M_data h1 p = M_data ?h p" by blast
    have "set (take n B) \<inter> set (drop n B) = {}"
      using held_distinct [OF s(1,4)] by (simp add: set_take_disj_set_drop_if_distinct)
    then have "map (elem_of h1) (take n B) = map (\<lambda>_. x) (take n B)" using h1(4) f(4) by (auto simp: elem_of_def)
    then have els: "map (elem_of h1) (take n B @ []) = replicate n x" using True by (simp add: map_replicate_const)
    have "represents h1 (\<tau>(l \<mapsto> replicate n x))"
      by (rule represents_here [OF s(1,3,4) h1(2,3) _ els]) (use h1(4) f(3) in \<open>auto dest: in_set_dropD\<close>)
    moreover have "fill_assign l n x h = Some (Inr h1)"
      using h1(1) f(1) True ls_begin_held [OF s(1,4)] by (simp add: fill_assign_def)
    ultimately show ?thesis using result by blast
  next
    case False
    have "\<sigma> l = Some (B @ [])" "length (B @ []) + (n - length B) < 2 ^ 63" using s(4) False n by simp_all
    from fill_run [OF f(2) c this, of x] obtain h1 ns where
      h1: "fill_insert l (hd ([] @ [l])) (n - length B) x ?h = Inr h1" "list_objects h1 (\<sigma>(l \<mapsto> B @ ns @ []))"
      "counts_ok h1 (\<sigma>(l \<mapsto> B @ ns @ []))" "map (elem_of h1) ns = replicate (n - length B) x"
      "\<forall>p<unused ?h. M_data h1 p = M_data ?h p" by blast
    have "map (elem_of h1) B = map (\<lambda>_. x) B"
      using h1(5) f(4) False unused_fresh(3) [OF s(1,4)] by (auto simp: elem_of_def)
    then have els: "map (elem_of h1) (B @ ns @ []) = replicate n x"
      using False h1(4) by (simp add: map_replicate_const replicate_add [symmetric])
    have "represents h1 (\<tau>(l \<mapsto> replicate n x))"
      by (rule represents_here [OF s(1,3,4) h1(2,3) _ els]) (use h1(5) f(3) in auto)
    moreover have "fill_assign l n x h = Some (Inr h1)"
      using h1(1) f(1) False ls_begin_held [OF s(1,4)] by (simp add: fill_assign_def)
    ultimately show ?thesis using result by blast
  qed
qed

section \<open>Ranges of lists as elements\<close>

lemma insert_range_represents:
  assumes r: "represents h \<tau>" "\<tau> l = Some (as @ bs)" "\<tau> m = Some ys" and len: "length (as @ bs) + length ys < 2 ^ 63"
  obtains pos first h' where "andThen (ls_begin l h) (\<lambda>i. list_forward (length as) i h) = Inr pos" "ls_begin m h = Inr first"
    "insert_range l pos first m h = Some (Inr h')" "represents h' (\<tau>(l \<mapsto> as @ ys @ bs))"
proof -
  note result = that
  obtain \<sigma> ns where s: "list_objects h \<sigma>" "counts_ok h \<sigma>" "\<tau> = (\<lambda>l. map_option (map (elem_of h)) (\<sigma> l))"
    "\<sigma> l = Some ns" "as @ bs = map (elem_of h) ns" by (rule representsE [OF r(1,2)]) (rule that)
  then obtain A B where ns: "ns = A @ B" and els: "as = map (elem_of h) A" "bs = map (elem_of h) B"
    by (auto simp: append_eq_map_conv)
  obtain D where m: "\<sigma> m = Some D" "ys = map (elem_of h) D" using r(3) s(3) by auto
  have pos: "andThen (ls_begin l h) (\<lambda>i. list_forward (length as) i h) = Inr (hd (B @ [l]))"
    using ls_begin_held [OF s(1,4)] list_forward_held [OF s(1), of l "[]" ns "length A"] s(4) els(1) by (simp add: ns)
  have lm: "\<sigma> l = Some (A @ B)" "\<sigma> m = Some ([] @ D @ [])" "length (A @ B) + length D < 2 ^ 63" using s(4) ns m len els by simp_all
  from insert_range_run [OF s(1,2) lm] obtain h' cs where
    h': "insert_range l (hd (B @ [l])) (hd (D @ [] @ [m])) (hd ([] @ [m])) h = Some (Inr h')" "list_objects h' (\<sigma>(l \<mapsto> A @ cs @ B))"
    "counts_ok h' (\<sigma>(l \<mapsto> A @ cs @ B))" "map (elem_of h') cs = map (elem_of h) D" "\<forall>p<unused h. M_data h' p = M_data h p" by blast
  have "map (elem_of h') A = as" "map (elem_of h') B = bs"
    using els h'(5) unused_fresh(3) [OF s(1) lm(1)] by (auto simp: elem_of_def)
  then have e: "map (elem_of h') (A @ cs @ B) = as @ ys @ bs" using h'(4) m(2) by simp
  have "represents h' (\<tau>(l \<mapsto> as @ ys @ bs))"
    by (rule represents_here [OF s(1,3,4) h'(2,3) _ e]) (use h'(5) in simp)
  with result [OF pos ls_begin_held [OF s(1) m(1)]] h'(1) show ?thesis by simp
qed

end
