(* ===== verification/Stl_List_Spec.thy ===== *)
theory Stl_List_Spec
  imports Stl_List_Assign
begin

text \<open>
  The contract of the library's list: operations on the pointer structure against the same
  operations on lists of elements, for any sequence of them, and the operations that do not
  keep it: exchanging with an empty list, merging with another allocator, removing a value
  that is an element of the list.
\<close>

section \<open>Operations\<close>

text \<open>Positions are reached from the beginning with \<^verbatim>\<open>advance\<close>.\<close>

definition position :: "loc \<Rightarrow> nat \<Rightarrow> 'a list_heap \<Rightarrow> loc result" where
  "position l k h = andThen (ls_begin l h) (\<lambda>i. list_advance i (of_nat k) h)"

datatype 'a list_op =
    PushFront loc 'a
  | PushBack loc 'a
  | PopFront loc
  | PopBack loc
  | InsertAt loc nat 'a
  | EraseAt loc nat
  | Clear loc
  | Reverse loc
  | RemoveIf loc "'a \<Rightarrow> bool"
  | Unique loc "'a \<Rightarrow> 'a \<Rightarrow> bool"
  | Sort loc "'a \<Rightarrow> 'a \<Rightarrow> bool"
  | Merge loc loc "'a \<Rightarrow> 'a \<Rightarrow> bool"
  | Splice bool loc nat loc
  | Swap loc loc
  | Remove loc 'a
  | Assign loc loc
  | AssignFill loc nat 'a
  | Resize loc nat 'a
  | InsertRange loc nat loc
  | EraseRange loc nat nat

fun run_op :: "'a list_op \<Rightarrow> 'a list_heap \<Rightarrow> ('a list_heap result) option" where
  "run_op (PushFront l x) h = Some (ls_push_front l x h)"
| "run_op (PushBack l x) h = Some (ls_push_back l x h)"
| "run_op (PopFront l) h = Some (ls_pop_front l h)"
| "run_op (PopBack l) h = Some (ls_pop_back l h)"
| "run_op (InsertAt l k x) h =
     Some (andThen (position l k h) (\<lambda>pos. andThen (ls_insert l pos x h) (\<lambda>r. Inr (snd r))))"
| "run_op (EraseAt l k) h =
     Some (andThen (position l k h) (\<lambda>pos. andThen (ls_erase l pos h) (\<lambda>r. Inr (snd r))))"
| "run_op (Clear l) h = ls_clear l h"
| "run_op (Reverse l) h = ls_reverse l h"
| "run_op (RemoveIf l pred) h = ls_remove_if pred l h"
| "run_op (Unique l eq) h = S_unique eq l h"
| "run_op (Sort l lt) h = ls_sort lt l h"
| "run_op (Merge l m lt) h = ls_merge True lt l m h"
| "run_op (Splice same_alloc l k m) h = bindS (position l k h) (\<lambda>pos. splice_all same_alloc l pos m h)"
| "run_op (Swap l m) h = Some (ls_swap l m h)"
| "run_op (Remove l v) h = ls_remove (Val v) l h"
| "run_op (Assign l m) h = ls_assign l m h"
| "run_op (AssignFill l n x) h = fill_assign l n x h"
| "run_op (Resize l n x) h = ls_resize l n x h"
| "run_op (InsertRange l k m) h =
     bindS (position l k h) (\<lambda>pos. bindS (ls_begin m h) (\<lambda>first. insert_range l pos first (ls_end m) h))"
| "run_op (EraseRange l j k) h =
     bindS (position l j h) (\<lambda>first. bindS (position l k h) (\<lambda>fin. erase_range l first fin h))"

fun run_ops :: "'a list_op list \<Rightarrow> 'a list_heap \<Rightarrow> ('a list_heap result) option" where
  "run_ops [] h = Some (Inr h)"
| "run_ops (op # ops) h = bindR (run_op op h) (run_ops ops)"

text \<open>What they mean for the lists of elements.\<close>

type_synonym 'a lists = "loc \<Rightarrow> 'a list option"

definition elems :: "'a lists \<Rightarrow> loc \<Rightarrow> 'a list" where
  "elems \<tau> l = the (\<tau> l)"

fun spec_op :: "'a list_op \<Rightarrow> 'a lists \<Rightarrow> 'a lists" where
  "spec_op (PushFront l x) \<tau> = \<tau>(l \<mapsto> x # elems \<tau> l)"
| "spec_op (PushBack l x) \<tau> = \<tau>(l \<mapsto> elems \<tau> l @ [x])"
| "spec_op (PopFront l) \<tau> = \<tau>(l \<mapsto> tl (elems \<tau> l))"
| "spec_op (PopBack l) \<tau> = \<tau>(l \<mapsto> butlast (elems \<tau> l))"
| "spec_op (InsertAt l k x) \<tau> = \<tau>(l \<mapsto> take k (elems \<tau> l) @ x # drop k (elems \<tau> l))"
| "spec_op (EraseAt l k) \<tau> = \<tau>(l \<mapsto> take k (elems \<tau> l) @ drop (Suc k) (elems \<tau> l))"
| "spec_op (Clear l) \<tau> = \<tau>(l \<mapsto> [])"
| "spec_op (Reverse l) \<tau> = \<tau>(l \<mapsto> rev (elems \<tau> l))"
| "spec_op (RemoveIf l pred) \<tau> = \<tau>(l \<mapsto> filter (\<lambda>x. \<not> pred x) (elems \<tau> l))"
| "spec_op (Unique l eq) \<tau> = \<tau>(l \<mapsto> uniq eq (elems \<tau> l))"
| "spec_op (Sort l lt) \<tau> = \<tau>(l \<mapsto> sort_by lt (elems \<tau> l))"
| "spec_op (Merge l m lt) \<tau> = \<tau>(l \<mapsto> lmerge lt (elems \<tau> l) (elems \<tau> m), m \<mapsto> [])"
| "spec_op (Splice same_alloc l k m) \<tau> = \<tau>(l \<mapsto> take k (elems \<tau> l) @ elems \<tau> m @ drop k (elems \<tau> l), m \<mapsto> [])"
| "spec_op (Swap l m) \<tau> = \<tau>(l \<mapsto> elems \<tau> m, m \<mapsto> elems \<tau> l)"
| "spec_op (Remove l v) \<tau> = \<tau>(l \<mapsto> filter (\<lambda>x. v \<noteq> x) (elems \<tau> l))"
| "spec_op (Assign l m) \<tau> = \<tau>(l \<mapsto> elems \<tau> m)"
| "spec_op (AssignFill l n x) \<tau> = \<tau>(l \<mapsto> replicate n x)"
| "spec_op (Resize l n x) \<tau> = \<tau>(l \<mapsto> take n (elems \<tau> l) @ replicate (n - length (elems \<tau> l)) x)"
| "spec_op (InsertRange l k m) \<tau> = \<tau>(l \<mapsto> take k (elems \<tau> l) @ elems \<tau> m @ drop k (elems \<tau> l))"
| "spec_op (EraseRange l j k) \<tau> = \<tau>(l \<mapsto> take j (elems \<tau> l) @ drop k (elems \<tau> l))"

text \<open>
  What is asked of the operations: existing lists, positions inside them, lists that do not outgrow the signed
  64-bit distances, and an order to sort by. Two of the conditions are not rules of the library but leave out what
  it gets wrong: lists that are exchanged must both or neither be empty (with exactly one empty list the count is lost), and lists that are merged
  have equal allocators (with different ones the loop need not end).
\<close>

definition listed :: "loc \<Rightarrow> 'a lists \<Rightarrow> bool" where
  "listed l \<tau> \<longleftrightarrow> \<tau> l \<noteq> None"

fun op_ok :: "'a list_op \<Rightarrow> 'a lists \<Rightarrow> bool" where
  "op_ok (PushFront l x) \<tau> = (listed l \<tau> \<and> Suc (length (elems \<tau> l)) < 2 ^ 63)"
| "op_ok (PushBack l x) \<tau> = (listed l \<tau> \<and> Suc (length (elems \<tau> l)) < 2 ^ 63)"
| "op_ok (PopFront l) \<tau> = listed l \<tau>"
| "op_ok (PopBack l) \<tau> = listed l \<tau>"
| "op_ok (InsertAt l k x) \<tau> = (listed l \<tau> \<and> k \<le> length (elems \<tau> l) \<and> Suc (length (elems \<tau> l)) < 2 ^ 63)"
| "op_ok (EraseAt l k) \<tau> = (listed l \<tau> \<and> k < length (elems \<tau> l))"
| "op_ok (Clear l) \<tau> = listed l \<tau>"
| "op_ok (Reverse l) \<tau> = listed l \<tau>"
| "op_ok (RemoveIf l pred) \<tau> = listed l \<tau>"
| "op_ok (Unique l eq) \<tau> = listed l \<tau>"
| "op_ok (Sort l lt) \<tau> = (listed l \<tau> \<and> strict_weak_order lt)"
| "op_ok (Merge l m lt) \<tau> = (listed l \<tau> \<and> listed m \<tau> \<and> l \<noteq> m \<and> length (elems \<tau> l) + length (elems \<tau> m) < 2 ^ 63)"
| "op_ok (Splice same_alloc l k m) \<tau> =
     (listed l \<tau> \<and> listed m \<tau> \<and> l \<noteq> m \<and> k \<le> length (elems \<tau> l) \<and> length (elems \<tau> l) + length (elems \<tau> m) < 2 ^ 63)"
| "op_ok (Swap l m) \<tau> = (listed l \<tau> \<and> listed m \<tau> \<and> l \<noteq> m \<and> (elems \<tau> l = [] \<longleftrightarrow> elems \<tau> m = []))"
| "op_ok (Remove l v) \<tau> = listed l \<tau>"
| "op_ok (Assign l m) \<tau> = (listed l \<tau> \<and> listed m \<tau>)"
| "op_ok (AssignFill l n x) \<tau> = (listed l \<tau> \<and> n < 2 ^ 63)"
| "op_ok (Resize l n x) \<tau> = (listed l \<tau> \<and> n < 2 ^ 63)"
| "op_ok (InsertRange l k m) \<tau> =
     (listed l \<tau> \<and> listed m \<tau> \<and> k \<le> length (elems \<tau> l) \<and> length (elems \<tau> l) + length (elems \<tau> m) < 2 ^ 63)"
| "op_ok (EraseRange l j k) \<tau> = (listed l \<tau> \<and> j \<le> k \<and> k \<le> length (elems \<tau> l))"

fun ops_ok :: "'a list_op list \<Rightarrow> 'a lists \<Rightarrow> bool" where
  "ops_ok [] \<tau> = True"
| "ops_ok (op # ops) \<tau> = (op_ok op \<tau> \<and> ops_ok ops (spec_op op \<tau>))"

section \<open>The operations implement their meaning\<close>

lemma represents_lists: "represents h \<tau> \<Longrightarrow> \<tau> l = Some xs \<Longrightarrow> length xs < 2 ^ 63"
  by (auto simp: represents_def counts_ok_def)

lemma position_forward:
  assumes "k < 2 ^ 63"
  shows "position l k h = andThen (ls_begin l h) (\<lambda>i. list_forward k i h)"
proof -
  have "sint (of_nat k :: 64 word) = int k" using assms by (simp add: signed_of_nat signed_take_bit_int_eq_self)
  then have "list_advance i (of_nat k) h = list_forward k i h" for i
    by (cases "k = 0") (simp_all add: list_advance_def)
  then show ?thesis by (simp add: position_def)
qed

lemma insert_op:
  assumes r: "represents h \<tau>" "\<tau> l = Some xs" and k: "k \<le> length xs" "Suc (length xs) < 2 ^ 63"
  obtains pos h' where "position l k h = Inr pos" "ls_insert l pos x h = Inr (unused h, h')"
    "represents h' (\<tau>(l \<mapsto> take k xs @ x # drop k xs))"
proof -
  have xs: "\<tau> l = Some (take k xs @ drop k xs)" "length (take k xs) = k" "Suc (length (take k xs @ drop k xs)) < 2 ^ 63"
    using r(2) k by simp_all
  show ?thesis
    by (rule insert_represents [OF r(1) xs(1,3), of x]) (use that position_forward [of k l h] k xs(2) in auto)
qed

lemma erase_op:
  assumes r: "represents h \<tau>" "\<tau> l = Some xs" and k: "k < length xs"
  obtains pos nx h' where "position l k h = Inr pos" "Suc k = length xs \<longrightarrow> prev_of l h = Inr pos" "data_of pos h = Inr (xs ! k)"
    "ls_erase l pos h = Inr (nx, h')" "represents h' (\<tau>(l \<mapsto> take k xs @ drop (Suc k) xs))"
proof -
  have xs: "\<tau> l = Some (take k xs @ xs ! k # drop (Suc k) xs)" "length (take k xs) = k"
    using r(2) k by (simp_all add: Cons_nth_drop_Suc)
  have "k < 2 ^ 63" using represents_lists [OF r] k by simp
  then have pos: "position l k h = andThen (ls_begin l h) (\<lambda>i. list_forward k i h)" by (rule position_forward)
  show ?thesis
    by (rule erase_represents [OF r(1) xs(1)]) (use that pos k xs(2) in auto)
qed

lemma size_represented: "represents h \<tau> \<Longrightarrow> \<tau> l = Some xs \<Longrightarrow> size_of l h = Inr (of_nat (length xs))"
  by (auto simp: represents_def size_of_def counts_ok_def)

lemma size_zero:
  assumes "represents h \<tau>" "\<tau> l = Some xs"
  shows "(of_nat (length xs) :: 64 word) = 0 \<longleftrightarrow> xs = []"
  using count_positive [of "length xs"] represents_lists [OF assms] by (cases xs) (auto simp del: of_nat_Suc)

lemma pop_op:
  assumes r: "represents h \<tau>" "\<tau> l = Some xs"
  shows "\<exists>h'. ls_pop_front l h = Inr h' \<and> represents h' (\<tau>(l \<mapsto> tl xs))"
    and "\<exists>h'. ls_pop_back l h = Inr h' \<and> represents h' (\<tau>(l \<mapsto> butlast xs))"
proof -
  note size = size_represented [OF r] size_zero [OF r]
  have none: "\<tau>(l \<mapsto> xs) = \<tau>" using r(2) by (simp add: fun_upd_idem)
  show "\<exists>h'. ls_pop_front l h = Inr h' \<and> represents h' (\<tau>(l \<mapsto> tl xs))"
  proof (cases xs)
    case Nil
    then show ?thesis using size none r by (simp add: ls_pop_front_def)
  next
    case (Cons x ys)
    then have "0 < length xs" by simp
    then obtain pos nx h' where e: "position l 0 h = Inr pos" "ls_erase l pos h = Inr (nx, h')"
      "represents h' (\<tau>(l \<mapsto> take 0 xs @ drop (Suc 0) xs))" by (rule erase_op [OF r]) (rule that)
    then have "ls_begin l h = Inr pos" using position_forward [of 0 l h] by (cases "ls_begin l h") simp_all
    then have "ls_pop_front l h = Inr h'" using size e(2) Cons by (simp add: ls_pop_front_def del: of_nat_Suc)
    with e(3) Cons show ?thesis by auto
  qed
  show "\<exists>h'. ls_pop_back l h = Inr h' \<and> represents h' (\<tau>(l \<mapsto> butlast xs))"
  proof (cases "xs = []")
    case True
    then show ?thesis using size none r by (simp add: ls_pop_back_def)
  next
    case False
    then have "length xs - 1 < length xs" by simp
    then obtain pos nx h' where e: "Suc (length xs - 1) = length xs \<longrightarrow> prev_of l h = Inr pos" "ls_erase l pos h = Inr (nx, h')"
      "represents h' (\<tau>(l \<mapsto> take (length xs - 1) xs @ drop (Suc (length xs - 1)) xs))" by (rule erase_op [OF r]) (rule that)
    then have "ls_pop_back l h = Inr h'" using size False by (simp add: ls_pop_back_def)
    with e(3) False show ?thesis by (auto simp: butlast_conv_take)
  qed
qed

lemma push_op:
  assumes r: "represents h \<tau>" "\<tau> l = Some xs" and len: "Suc (length xs) < 2 ^ 63"
  shows "\<exists>h'. ls_push_front l x h = Inr h' \<and> represents h' (\<tau>(l \<mapsto> x # xs))"
    and "\<exists>h'. ls_push_back l x h = Inr h' \<and> represents h' (\<tau>(l \<mapsto> xs @ [x]))"
proof -
  obtain pos h' where e: "position l 0 h = Inr pos" "ls_insert l pos x h = Inr (unused h, h')"
    "represents h' (\<tau>(l \<mapsto> take 0 xs @ x # drop 0 xs))" by (rule insert_op [OF r le0 len]) (rule that)
  then have "ls_begin l h = Inr pos" using position_forward [of 0 l h] by (cases "ls_begin l h") simp_all
  with e show "\<exists>h'. ls_push_front l x h = Inr h' \<and> represents h' (\<tau>(l \<mapsto> x # xs))" by (simp add: ls_push_front_def)
  obtain \<sigma> ns where s: "list_objects h \<sigma>" "counts_ok h \<sigma>" "\<tau> = (\<lambda>l. map_option (map (elem_of h)) (\<sigma> l))"
    "\<sigma> l = Some ns" "xs = map (elem_of h) ns" by (rule representsE [OF r]) (rule that)
  have "position l (length xs) h = Inr l"
    using position_forward [of "length xs" l h] len ls_begin_held [OF s(1,4)]
      list_forward_held [OF s(1), of l "[]" ns "length ns"] s(4,5) by simp
  moreover obtain pos h' where e: "position l (length xs) h = Inr pos" "ls_insert l pos x h = Inr (unused h, h')"
    "represents h' (\<tau>(l \<mapsto> take (length xs) xs @ x # drop (length xs) xs))" by (rule insert_op [OF r le_refl len]) (rule that)
  ultimately show "\<exists>h'. ls_push_back l x h = Inr h' \<and> represents h' (\<tau>(l \<mapsto> xs @ [x]))" by (simp add: ls_push_back_def)
qed

text \<open>Splicing from a list with another allocator copies the elements and clears the list.\<close>

lemma splice_copy_represents:
  assumes r: "represents h \<tau>" "\<tau> l = Some (as @ bs)" "\<tau> m = Some ys" "l \<noteq> m" and len: "length (as @ bs) + length ys < 2 ^ 63"
  obtains pos h' where "andThen (ls_begin l h) (\<lambda>i. list_forward (length as) i h) = Inr pos"
    "splice_all False l pos m h = Some (Inr h')" "represents h' (\<tau>(l \<mapsto> as @ ys @ bs, m \<mapsto> []))"
proof -
  note result = that
  obtain pos first h1 where h1: "andThen (ls_begin l h) (\<lambda>i. list_forward (length as) i h) = Inr pos" "ls_begin m h = Inr first"
    "insert_range l pos first m h = Some (Inr h1)" "represents h1 (\<tau>(l \<mapsto> as @ ys @ bs))"
    by (rule insert_range_represents [OF r(1-3) len]) (rule that)
  have empty: "ls_empty m h = Inr (ys = [])"
  proof -
    obtain \<sigma> ms where "list_objects h \<sigma>" "\<sigma> m = Some ms" "ys = map (elem_of h) ms"
      by (rule representsE [OF r(1,3)]) (rule that)
    then show ?thesis using ls_empty_held by auto
  qed
  show ?thesis
  proof (cases "ys = []")
    case True
    then have "\<tau>(l \<mapsto> as @ ys @ bs, m \<mapsto> []) = \<tau>" using r(2,3) by (auto simp: fun_eq_iff)
    then show ?thesis using result [OF h1(1), of h] r(1) empty True by (simp add: splice_all_def)
  next
    case False
    have "(\<tau>(l \<mapsto> as @ ys @ bs)) m = Some ys" using r(3,4) by simp
    from clear_represents [OF h1(4) this] obtain h' where
      h': "ls_clear m h1 = Some (Inr h')" "represents h' (\<tau>(l \<mapsto> as @ ys @ bs, m \<mapsto> []))" by blast
    then show ?thesis using result [OF h1(1), of h'] h1(2,3) empty False by (simp add: splice_all_def)
  qed
qed

lemma erase_range_op:
  assumes r: "represents h \<tau>" "\<tau> l = Some xs" and k: "j \<le> k" "k \<le> length xs"
  obtains first fin h' where "position l j h = Inr first" "position l k h = Inr fin"
    "erase_range l first fin h = Some (Inr h')" "represents h' (\<tau>(l \<mapsto> take j xs @ drop k xs))"
proof -
  note result = that
  obtain \<sigma> ns where s: "list_objects h \<sigma>" "counts_ok h \<sigma>" "\<tau> = (\<lambda>l. map_option (map (elem_of h)) (\<sigma> l))"
    "\<sigma> l = Some ns" "xs = map (elem_of h) ns" by (rule representsE [OF r]) (rule that)
  let ?A = "take j ns" and ?B = "drop j (take k ns)" and ?C = "drop k ns"
  have ns: "ns = ?A @ ?B @ ?C"
    using k(1) by (metis append.assoc append_take_drop_id min_absorb1 take_take)
  have at: "position l i h = Inr (hd (drop i ns @ [l]))" if "i \<le> length ns" for i
  proof -
    have "i < 2 ^ 63" using that represents_lists [OF r] s(5) by simp
    then show ?thesis
      using position_forward [of i l h] ls_begin_held [OF s(1,4)] list_forward_held [OF s(1), of l "[]" ns i] s(4) that by simp
  qed
  have jk: "j \<le> length ns" "k \<le> length ns" using k s(5) by simp_all
  have l: "\<sigma> l = Some (?A @ ?B @ ?C)" using s(4) ns by simp
  from erase_range_run [OF s(1,2) l] obtain h' where
    h': "erase_range l (hd (?B @ ?C @ [l])) (hd (?C @ [l])) h = Some (Inr h')"
    "list_objects h' (\<sigma>(l \<mapsto> ?A @ ?C))" "counts_ok h' (\<sigma>(l \<mapsto> ?A @ ?C))"
    "\<forall>p. p \<notin> set ?B \<longrightarrow> M_data h' p = M_data h p" by blast
  have "drop j ns = ?B @ ?C" using ns jk by (metis append_eq_conv_conj length_take min_absorb2)
  then have run: "erase_range l (hd (drop j ns @ [l])) (hd (drop k ns @ [l])) h = Some (Inr h')" using h'(1) by simp
  have "distinct (?A @ ?B @ ?C)" using held_distinct [OF s(1,4)] ns by simp
  then have "map (elem_of h') (?A @ ?C) = map (elem_of h) (?A @ ?C)" using h'(4) by (auto simp: elem_of_def)
  then have els: "map (elem_of h') (?A @ ?C) = take j xs @ drop k xs" by (simp add: s(5) take_map drop_map)
  have "represents h' (\<tau>(l \<mapsto> take j xs @ drop k xs))"
    by (rule represents_here [OF s(1,3,4) h'(2,3) _ els]) (use h'(4) ns in \<open>metis Un_iff set_append\<close>)
  with result [OF at [OF jk(1)] at [OF jk(2)] run] show ?thesis by blast
qed

lemma swap_op:
  assumes r: "represents h \<tau>" "\<tau> l = Some xs" "\<tau> m = Some ys" "l \<noteq> m" and e: "xs = [] \<longleftrightarrow> ys = []"
  shows "\<exists>h'. ls_swap l m h = Inr h' \<and> represents h' (\<tau>(l \<mapsto> ys, m \<mapsto> xs))"
proof -
  obtain \<sigma> ns where s: "list_objects h \<sigma>" "counts_ok h \<sigma>" "\<tau> = (\<lambda>l. map_option (map (elem_of h)) (\<sigma> l))"
    "\<sigma> l = Some ns" "xs = map (elem_of h) ns" by (rule representsE [OF r(1,2)]) (rule that)
  obtain ms where m: "\<sigma> m = Some ms" "ys = map (elem_of h) ms" using r(3) s(3) by auto
  obtain h' where h': "ls_swap l m h = Inr h'" "list_objects h' (\<sigma>(l \<mapsto> ms, m \<mapsto> ns))" "M_data h' = M_data h" "unused h' = unused h"
    "M_size h' = (M_size h)(l \<mapsto> fst (swapped_sizes ns (of_nat (length ns)) ms (of_nat (length ms))),
       m \<mapsto> snd (swapped_sizes ns (of_nat (length ns)) ms (of_nat (length ms))))"
    by (rule lists_swap [OF s(1) s(4) counts_okD(2) [OF s(2,4)] m(1) counts_okD(2) [OF s(2) m(1)] r(4)]) (rule that)
  have "represents h' (\<tau>(l \<mapsto> map (elem_of h) ms, m \<mapsto> map (elem_of h) ns))"
    by (rule represents_result2 [OF s(1-3) h'(2)])
      (use h'(3,5) counts_okD(1) [OF s(2,4)] counts_okD(1) [OF s(2) m(1)] e r(4) s(5) m(2) in \<open>auto simp: swapped_sizes_def\<close>)
  with h'(1) show ?thesis by (simp add: s(5) m(2))
qed

section \<open>Removing values\<close>

lemma remove_value:
  assumes "remove_if_loop pred l first h = Some r"
  shows "pred = (\<lambda>x. v = x) \<longrightarrow> remove_loop (Val v) l first h = Some r"
proof (rule remove_if_loop.raw_induct [OF _ assms, of "\<lambda>pred l first h r. pred = (\<lambda>x. v = x) \<longrightarrow> remove_loop (Val v) l first h = Some r"])
  fix f :: "('a \<Rightarrow> bool) \<Rightarrow> loc \<Rightarrow> loc \<Rightarrow> 'a list_heap \<Rightarrow> ('a list_heap result) option"
    and pred :: "'a \<Rightarrow> bool" and l first :: loc and h :: "'a list_heap" and r
  assume IH: "\<And>pred l first h r. f pred l first h = Some r \<Longrightarrow> pred = (\<lambda>x. v = x) \<longrightarrow> remove_loop (Val v) l first h = Some r"
    and body: "(if first \<noteq> ls_end l
      then bindS (next_of first h) (\<lambda>nx.
           bindS (data_of first h) (\<lambda>x.
           bindS (if pred x then andThen (ls_erase l first h) (\<lambda>r. Inr (snd r)) else Inr h) (\<lambda>h. f pred l nx h)))
      else Some (Inr h)) = Some r"
  show "pred = (\<lambda>x. v = x) \<longrightarrow> remove_loop (Val v) l first h = Some r"
  proof
    assume p: "pred = (\<lambda>x. v = x)"
    show "remove_loop (Val v) l first h = Some r"
    proof (cases "first = l \<or> next_of first h \<in> range Inl \<or> data_of first h \<in> range Inl")
      case True
      then show ?thesis using body by (subst remove_loop.simps) (auto split: if_splits)
    next
      case False
      then obtain nx x where nx: "next_of first h = Inr nx" "data_of first h = Inr x" "first \<noteq> l"
        by (cases "next_of first h"; cases "data_of first h") auto
      show ?thesis
      proof (cases "if v = x then andThen (ls_erase l first h) (\<lambda>r. Inr (snd r)) else Inr h")
        case (Inl e)
        then have r: "r = Inl e" using body nx by (simp add: p)
        show ?thesis unfolding r using nx Inl by (subst remove_loop.simps) simp
      next
        case (Inr h1)
        then have "f pred l nx h1 = Some r" using body nx by (simp add: p)
        from IH [OF this] p show ?thesis using nx Inr by (subst remove_loop.simps) simp
      qed
    qed
  qed
qed

lemma remove_represents:
  assumes r: "represents h \<tau>" "\<tau> l = Some xs"
  obtains h' where "ls_remove (Val v) l h = Some (Inr h')" "represents h' (\<tau>(l \<mapsto> filter (\<lambda>x. v \<noteq> x) xs))"
proof -
  obtain h' where h': "ls_remove_if (\<lambda>x. v = x) l h = Some (Inr h')" "represents h' (\<tau>(l \<mapsto> filter (\<lambda>x. v \<noteq> x) xs))"
    by (rule remove_if_represents [OF r, of "\<lambda>x. v = x"]) (rule that)
  obtain first where f: "ls_begin l h = Inr first" using h'(1) by (cases "ls_begin l h") (auto simp: ls_remove_if_def)
  with h' remove_value [of "\<lambda>x. v = x" l first h "Inr h'" v] have "ls_remove (Val v) l h = Some (Inr h')"
    by (simp add: ls_remove_if_def ls_remove_def)
  with h'(2) that show ?thesis by blast
qed

section \<open>Sequences of operations\<close>

text \<open>Three lists of numbers, the last one empty.\<close>

definition sample_store :: "nat list_heap" where
  "sample_store =
     \<lparr>M_next = [0 \<mapsto> 1, 1 \<mapsto> 2, 2 \<mapsto> 3, 3 \<mapsto> 0, 4 \<mapsto> 5, 5 \<mapsto> 6, 6 \<mapsto> 4, 7 \<mapsto> 7],
      M_prev = [0 \<mapsto> 3, 1 \<mapsto> 0, 2 \<mapsto> 1, 3 \<mapsto> 2, 4 \<mapsto> 6, 5 \<mapsto> 4, 6 \<mapsto> 5, 7 \<mapsto> 7],
      M_data = [1 \<mapsto> 3, 2 \<mapsto> 1, 3 \<mapsto> 2, 5 \<mapsto> 5, 6 \<mapsto> 1],
      M_size = [0 \<mapsto> 3, 4 \<mapsto> 2, 7 \<mapsto> 0], unused = 8\<rparr>"

lemma sample_lists: "list_objects sample_store [0 \<mapsto> [1, 2, 3], 4 \<mapsto> [5, 6], 7 \<mapsto> []]"
proof (rule listsI)
  have "holds sample_store 0 [1, 2, 3]" "holds sample_store 4 [5, 6]" "holds sample_store 7 []"
    by (simp_all add: holds_def sample_store_def)
  then show "holds sample_store l ns" if "[0 \<mapsto> [1, 2, 3], 4 \<mapsto> [5, 6], 7 \<mapsto> []] l = Some ns" for l ns
    using that by (simp split: if_split_asm)
  have "apart 0 [1, 2, 3] 4 [5, 6]" "apart 0 [1, 2, 3] 7 []" "apart 4 [5, 6] 7 []" by (simp_all add: apart_def)
  then show "apart l ns m ms \<or> apart m ms l ns"
    if "[0 \<mapsto> [1, 2, 3], 4 \<mapsto> [5, 6], 7 \<mapsto> []] l = Some ns" "[0 \<mapsto> [1, 2, 3], 4 \<mapsto> [5, 6], 7 \<mapsto> []] m = Some ms" "l \<noteq> m"
    for l ns m ms
    using that by (simp split: if_split_asm)
qed

lemma sample_represents: "represents sample_store [0 \<mapsto> [3, 1, 2], 4 \<mapsto> [5, 1], 7 \<mapsto> []]"
  unfolding represents_def
  by (intro exI [of _ "[0 \<mapsto> [1, 2, 3], 4 \<mapsto> [5, 6], 7 \<mapsto> []]"])
    (use sample_lists in \<open>auto simp: counts_ok_def sample_store_def elem_of_def fun_eq_iff\<close>)

lemma run_op_represents:
  assumes r: "represents h \<tau>" and ok: "op_ok op \<tau>"
  shows "\<exists>h'. run_op op h = Some (Inr h') \<and> represents h' (spec_op op \<tau>)"
proof -
  have lst: "\<tau> l = Some (elems \<tau> l)" if "listed l \<tau>" for l using that by (auto simp: listed_def elems_def)
  note r1 = r lst
  show ?thesis
  proof (cases op)
    case (PushFront l x)
    then show ?thesis using push_op(1) [OF r lst, of l x] ok by auto
  next
    case (PushBack l x)
    then show ?thesis using push_op(2) [OF r lst, of l x] ok by auto
  next
    case (PopFront l)
    then show ?thesis using pop_op(1) [OF r lst, of l] ok by auto
  next
    case (PopBack l)
    then show ?thesis using pop_op(2) [OF r lst, of l] ok by auto
  next
    case (InsertAt l k x)
    then have o: "listed l \<tau>" "k \<le> length (elems \<tau> l)" "Suc (length (elems \<tau> l)) < 2 ^ 63" using ok by simp_all
    show ?thesis by (rule insert_op [OF r lst [OF o(1)] o(2,3), of x]) (simp add: InsertAt)
  next
    case (EraseAt l k)
    then have o: "listed l \<tau>" "k < length (elems \<tau> l)" using ok by simp_all
    show ?thesis by (rule erase_op [OF r lst [OF o(1)] o(2)]) (simp add: EraseAt)
  next
    case (Clear l)
    then have o: "listed l \<tau>" using ok by simp
    show ?thesis by (rule clear_represents [OF r lst [OF o]]) (simp add: Clear)
  next
    case (Reverse l)
    then have o: "listed l \<tau>" using ok by simp
    show ?thesis by (rule reverse_represents [OF r lst [OF o]]) (simp add: Reverse)
  next
    case (RemoveIf l pred)
    then have o: "listed l \<tau>" using ok by simp
    show ?thesis by (rule remove_if_represents [OF r lst [OF o], of pred]) (simp add: RemoveIf)
  next
    case (Unique l eq)
    then have o: "listed l \<tau>" using ok by simp
    show ?thesis by (rule unique_represents [OF r lst [OF o], of eq]) (simp add: Unique)
  next
    case (Sort l lt)
    then have o: "listed l \<tau>" "strict_weak_order lt" using ok by simp_all
    show ?thesis by (rule sort_represents [OF o(2) r lst [OF o(1)]]) (simp add: Sort)
  next
    case (Merge l m lt)
    then have o: "listed l \<tau>" "listed m \<tau>" "l \<noteq> m" "length (elems \<tau> l) + length (elems \<tau> m) < 2 ^ 63" using ok by simp_all
    show ?thesis by (rule merge_represents [OF r lst [OF o(1)] lst [OF o(2)] o(3,4), of lt]) (simp add: Merge)
  next
    case (Splice same_alloc l k m)
    then have o: "listed l \<tau>" "listed m \<tau>" "l \<noteq> m" "k \<le> length (elems \<tau> l)" "length (elems \<tau> l) + length (elems \<tau> m) < 2 ^ 63"
      using ok by simp_all
    let ?as = "take k (elems \<tau> l)" and ?bs = "drop k (elems \<tau> l)"
    have a: "\<tau> l = Some (?as @ ?bs)" "length (?as @ ?bs) + length (elems \<tau> m) < 2 ^ 63" "length ?as = k" "k < 2 ^ 63"
      using lst [OF o(1)] o(4,5) by simp_all
    show ?thesis
    proof (cases same_alloc)
      case True
      show ?thesis
        by (rule splice_represents [OF r a(1) lst [OF o(2)] o(3) a(2)])
          (simp add: Splice True min_absorb2 [OF o(4)] position_forward [OF a(4)])
    next
      case False
      show ?thesis
        by (rule splice_copy_represents [OF r a(1) lst [OF o(2)] o(3) a(2)])
          (simp add: Splice False min_absorb2 [OF o(4)] position_forward [OF a(4)])
    qed
  next
    case (Swap l m)
    then show ?thesis using swap_op [OF r lst lst, of l m] ok by auto
  next
    case (Remove l v)
    then have o: "listed l \<tau>" using ok by simp
    show ?thesis by (rule remove_represents [OF r lst [OF o], of v]) (simp add: Remove)
  next
    case (Assign l m)
    then have o: "listed l \<tau>" "listed m \<tau>" using ok by simp_all
    show ?thesis
    proof (cases "l = m")
      case True
      then have "\<tau>(l \<mapsto> elems \<tau> m) = \<tau>" using lst [OF o(1)] by (simp add: fun_upd_idem)
      then show ?thesis using r True by (simp add: Assign ls_assign_def)
    next
      case False
      show ?thesis by (rule assign_represents [OF r lst [OF o(1)] lst [OF o(2)] False]) (simp add: Assign)
    qed
  next
    case (AssignFill l n x)
    then have o: "listed l \<tau>" "n < 2 ^ 63" using ok by simp_all
    show ?thesis by (rule fill_assign_represents [OF r lst [OF o(1)] o(2), of x]) (simp add: AssignFill)
  next
    case (Resize l n x)
    then have o: "listed l \<tau>" "n < 2 ^ 63" using ok by simp_all
    show ?thesis by (rule resize_represents [OF r lst [OF o(1)] o(2), of x]) (simp add: Resize)
  next
    case (InsertRange l k m)
    then have o: "listed l \<tau>" "listed m \<tau>" "k \<le> length (elems \<tau> l)" "length (elems \<tau> l) + length (elems \<tau> m) < 2 ^ 63"
      using ok by simp_all
    let ?as = "take k (elems \<tau> l)" and ?bs = "drop k (elems \<tau> l)"
    have a: "\<tau> l = Some (?as @ ?bs)" "length (?as @ ?bs) + length (elems \<tau> m) < 2 ^ 63" "k < 2 ^ 63"
      using lst [OF o(1)] o(3,4) by simp_all
    show ?thesis
      by (rule insert_range_represents [OF r a(1) lst [OF o(2)] a(2)])
        (simp add: InsertRange min_absorb2 [OF o(3)] position_forward [OF a(3)])
  next
    case (EraseRange l j k)
    then have o: "listed l \<tau>" "j \<le> k" "k \<le> length (elems \<tau> l)" using ok by simp_all
    show ?thesis by (rule erase_range_op [OF r lst [OF o(1)] o(2,3)]) (simp add: EraseRange)
  qed
qed

lemma run_ops_represents:
  "represents h \<tau> \<Longrightarrow> ops_ok ops \<tau> \<Longrightarrow> \<exists>h'. run_ops ops h = Some (Inr h') \<and> represents h' (fold spec_op ops \<tau>)"
proof (induction ops arbitrary: h \<tau>)
  case (Cons op ops)
  then obtain h1 where h1: "run_op op h = Some (Inr h1)" "represents h1 (spec_op op \<tau>)"
    using run_op_represents by fastforce
  with Cons show ?case by simp
qed simp

section \<open>Removing an element of the list\<close>

text \<open>A reference to an element of the list is still read after the element has been erased.\<close>

lemma remove_reads_freed:
  assumes "M_data h p = None" "next_of q h = Inr nx" "q \<noteq> l"
  shows "remove_loop (Elem p) l q h = Some (Inl InvalidIterator)"
  using assms by (subst remove_loop.simps) (simp add: data_of_def)

lemma remove_own_run:
  assumes "list_objects h \<sigma>" "\<sigma> l = Some (C @ A @ p # b # B)" "M_size h l \<noteq> None"
  shows "remove_loop (Elem p) l (hd (A @ p # b # B @ [l])) h = Some (Inl InvalidIterator)"
  using assms
proof (induction A arbitrary: C h \<sigma>)
  case Nil
  have l: "\<sigma> l = Some (C @ p # b # B)" using Nil.prems(2) by simp
  have n: "p \<noteq> l" "b \<noteq> l" "p \<noteq> b" using listsD [OF Nil.prems(1) l] by (auto simp: holds_def)
  obtain s where s: "M_size h l = Some s" using Nil.prems(3) by blast
  obtain h1 where h1: "ls_erase l p h = Inr (hd ((b # B) @ [l]), h1)" "list_objects h1 (\<sigma>(l \<mapsto> C @ b # B))" "M_data h1 = (M_data h)(p := None)"
    by (rule lists_erase [OF Nil.prems(1) l s]) (rule that)
  have "next_of b h1 = Inr (hd (B @ [l]))" using next_of_held [OF h1(2), of l C b B] by simp
  then have "remove_loop (Elem p) l b h1 = Some (Inl InvalidIterator)"
    using h1(3) n(2) by (intro remove_reads_freed) simp_all
  then show ?case
    using n(1) next_of_held [OF Nil.prems(1) l] data_of_held [OF Nil.prems(1) l] h1(1)
    by (subst remove_loop.simps) simp
next
  case (Cons a A)
  have l: "\<sigma> l = Some (C @ a # (A @ p # b # B))" "\<sigma> l = Some ((C @ a # A) @ p # b # B)" using Cons.prems(2) by simp_all
  have n: "a \<noteq> l" using listsD [OF Cons.prems(1) l(1)] by (auto simp: holds_def)
  have d: "data_of a h = Inr (elem_of h a)" "data_of p h = Inr (elem_of h p)"
    "next_of a h = Inr (hd (A @ p # b # B @ [l]))"
    using data_of_held [OF Cons.prems(1) l(1)] data_of_held [OF Cons.prems(1) l(2)] next_of_held [OF Cons.prems(1) l(1)] by simp_all
  show ?case
  proof (cases "elem_of h p = elem_of h a")
    case True
    obtain s where s: "M_size h l = Some s" using Cons.prems(3) by blast
    obtain h1 where h1: "ls_erase l a h = Inr (hd ((A @ p # b # B) @ [l]), h1)" "list_objects h1 (\<sigma>(l \<mapsto> C @ A @ p # b # B))"
      "M_size h1 = (M_size h)(l \<mapsto> (if s > 0 then s - 1 else s))"
      by (rule lists_erase [OF Cons.prems(1) l(1) s]) (rule that)
    have "remove_loop (Elem p) l (hd (A @ p # b # B @ [l])) h1 = Some (Inl InvalidIterator)"
      by (rule Cons.IH [OF h1(2)]) (simp_all add: h1(3))
    then show ?thesis using n d True h1(1) by (subst remove_loop.simps) simp
  next
    case False
    have "remove_loop (Elem p) l (hd (A @ p # b # B @ [l])) h = Some (Inl InvalidIterator)"
      by (rule Cons.IH [OF Cons.prems(1), of "C @ [a]"]) (use Cons.prems in simp_all)
    then show ?thesis using n d False by (subst remove_loop.simps) simp
  qed
qed

section \<open>Merging with another allocator\<close>

text \<open>The copying loop of \<open>S_merge\<close> has an element in front of it that is above \<open>q\<close>'s: it inserts \<open>q\<close>'s over and over.\<close>

definition stuck :: "('a \<Rightarrow> 'a \<Rightarrow> bool) \<Rightarrow> loc \<Rightarrow> loc \<Rightarrow> loc \<Rightarrow> loc \<Rightarrow> 'a list_heap \<Rightarrow> bool" where
  "stuck lt first1 l q m h \<longleftrightarrow>
     (\<exists>\<sigma> A B ys x. list_objects h \<sigma> \<and> \<sigma> l = Some (A @ B) \<and> \<sigma> m = Some (q # ys) \<and> l \<noteq> m \<and> M_size h l \<noteq> None \<and>
       first1 = hd (B @ [l]) \<and> x \<in> set B \<and> lt (elem_of h q) (elem_of h x) \<and> \<not> lt (elem_of h q) (elem_of h q))"

lemma merge_copy_stuck:
  assumes "S_merge_copy_loop lt first1 l q m h = Some r"
  shows "\<not> stuck lt first1 l q m h"
proof (rule S_merge_copy_loop.raw_induct [OF _ assms, of "\<lambda>lt first1 l q m h r. \<not> stuck lt first1 l q m h"])
  fix f :: "('a \<Rightarrow> 'a \<Rightarrow> bool) \<Rightarrow> loc \<Rightarrow> loc \<Rightarrow> loc \<Rightarrow> loc \<Rightarrow> 'a list_heap \<Rightarrow> ((loc \<times> loc \<times> 'a list_heap) result) option"
    and lt :: "'a \<Rightarrow> 'a \<Rightarrow> bool" and first1 l q m :: loc and h :: "'a list_heap" and r
  assume IH: "\<And>lt first1 l q m h r. f lt first1 l q m h = Some r \<Longrightarrow> \<not> stuck lt first1 l q m h"
    and body: "(if first1 \<noteq> ls_end l \<and> q \<noteq> m
      then bindS (data_of q h) (\<lambda>y. bindS (data_of first1 h) (\<lambda>x.
        if lt y x then bindS (ls_insert l first1 y h) (\<lambda>r. f lt (fst r) l q m (snd r))
        else bindS (next_of first1 h) (\<lambda>nx. f lt nx l q m h)))
      else Some (Inr (first1, q, h))) = Some r"
  show "\<not> stuck lt first1 l q m h"
  proof
    assume "stuck lt first1 l q m h"
    then obtain \<sigma> A B ys x where ls: "list_objects h \<sigma>" and l: "\<sigma> l = Some (A @ B)" and m: "\<sigma> m = Some (q # ys)" and lm: "l \<noteq> m"
      and sz: "M_size h l \<noteq> None" and first: "first1 = hd (B @ [l])" and x: "x \<in> set B"
      and lt: "lt (elem_of h q) (elem_of h x)" and irr: "\<not> lt (elem_of h q) (elem_of h q)"
      unfolding stuck_def by blast
    obtain b B' where B: "B = b # B'" using x by (cases B) auto
    have m': "\<sigma> m = Some ([] @ q # ys)" and l': "\<sigma> l = Some (A @ b # B')" using m l B by simp_all
    have ne: "b \<noteq> l" "q \<noteq> m" using listsD [OF ls l'] listsD [OF ls m] by (auto simp: holds_def)
    note d = data_of_held [OF ls m'] data_of_held [OF ls l'] next_of_held [OF ls l']
    show False
    proof (cases "lt (elem_of h q) (elem_of h b)")
      case True
      obtain s where s: "M_size h l = Some s" using sz by blast
      obtain h1 where h1: "ls_insert l (hd (B @ [l])) (elem_of h q) h = Inr (unused h, h1)"
        "list_objects h1 (\<sigma>(l \<mapsto> A @ unused h # B))"
        "M_data h1 = (M_data h)(unused h \<mapsto> elem_of h q)" "M_size h1 = (M_size h)(l \<mapsto> s + 1)"
        by (rule lists_insert [OF ls l s]) (rule that)
      have old: "q \<noteq> unused h" "x \<noteq> unused h" using unused_fresh(3) [OF ls m, of q] unused_fresh(3) [OF ls l, of x] x by auto
      have "f lt (unused h) l q m h1 = Some r"
        using body first d ne True h1(1) B by simp
      moreover have "stuck lt (unused h) l q m h1" unfolding stuck_def
        by (rule exI [of _ "\<sigma>(l \<mapsto> A @ unused h # B)"], rule exI [of _ A], rule exI [of _ "unused h # B"], rule exI [of _ ys], rule exI [of _ x])
          (use h1 m lm x lt irr old in \<open>simp add: elem_of_def\<close>)
      ultimately show False using IH by blast
    next
      case False
      then have x': "x \<in> set B'" using x lt B by auto
      have "f lt (hd (B' @ [l])) l q m h = Some r"
        using body first d ne False B by simp
      moreover have "stuck lt (hd (B' @ [l])) l q m h" unfolding stuck_def
        by (rule exI [of _ \<sigma>], rule exI [of _ "A @ [b]"], rule exI [of _ B'], rule exI [of _ ys], rule exI [of _ x])
          (use ls l' m lm sz x' lt irr in simp)
      ultimately show False using IH by blast
    qed
  qed
qed

section \<open>The contract, and where it ends\<close>

text \<open>
  C27. Refinement of lists of elements: whatever sequence of operations is run on the linked lists of a store, it ends,
  no freed node is touched, and the store then holds, in well-formed lists with the right counts, what the same operations on plain
  lists give. The operations are insertion and removal at either end, at a position, of a range, by a test and by value, insertion of a copy
  of a list (also of the list itself), assignment, \<^verbatim>\<open>resize\<close>, \<^verbatim>\<open>clear\<close>, \<^verbatim>\<open>reverse\<close>, \<^verbatim>\<open>unique\<close>, \<^verbatim>\<open>sort\<close>, \<^verbatim>\<open>splice\<close> of a list
  with an equal or another allocator, \<^verbatim>\<open>merge\<close> and \<^verbatim>\<open>swap\<close>. Positions are inside the list, lists stay below 2 ^ 63 elements, the order
  sorted by is a strict weak one; \<^verbatim>\<open>merge\<close> is covered for lists with equal allocators only, and \<^verbatim>\<open>swap\<close> for two lists that are
  both empty or both not, since the library does not keep the contract in the other cases, as is shown below.
\<close>

theorem list_operations_refine:
  assumes "represents h \<tau>" and "ops_ok ops \<tau>"
  shows "\<exists>h'. run_ops ops h = Some (Inr h') \<and> represents h' (fold spec_op ops \<tau>)"
  by (rule run_ops_represents [OF assms])

theorem list_operations_refine_witness:
  "\<exists>h'. run_ops [Sort 0 (<), PushFront 4 0, Sort 4 (<), Merge 0 4 (<), Unique 0 (=), PopBack 0, Splice False 7 0 0, Assign 4 7, EraseRange 4 1 3, Resize 4 2 9] sample_store = Some (Inr h') \<and>
     represents h' [0 \<mapsto> [], 4 \<mapsto> [0, 3], 7 \<mapsto> [0, 1, 2, 3]]"
proof -
  let ?ops = "[Sort 0 (<), PushFront 4 0, Sort 4 (<), Merge 0 4 (<), Unique 0 (=), PopBack 0, Splice False 7 0 0, Assign 4 7, EraseRange 4 1 3, Resize 4 2 9] :: nat list_op list"
  let ?\<tau> = "[0 \<mapsto> [3, 1, 2], 4 \<mapsto> [5, 1], 7 \<mapsto> []] :: nat lists"
  have sw: "strict_weak_order ((<) :: nat \<Rightarrow> nat \<Rightarrow> bool)" by unfold_locales auto
  have ok: "ops_ok ?ops ?\<tau>" using sw by (simp add: elems_def listed_def sort_by_def)
  have "fold spec_op ?ops ?\<tau> = [0 \<mapsto> [], 4 \<mapsto> [0, 3], 7 \<mapsto> [0, 1, 2, 3]]"
    by (simp add: elems_def sort_by_def fun_upd_twist)
  with list_operations_refine [OF sample_represents ok] show ?thesis by simp
qed

text \<open>
  C28. \<^verbatim>\<open>sort\<close> of a list, with fewer than 2 ^ 63 nodes, ends without running out of its 64 counters,
  leaves every element in the node it was in (references to elements stay valid), and relinks the nodes
  so that their elements are in order and equivalent elements keep their order; other lists and the count stay as they are.
\<close>

theorem list_sort_moves_nodes:
  assumes "strict_weak_order lt" and "list_objects h \<sigma>" and "\<sigma> l = Some ns" and "size_of l h = Inr n" and "length ns < 2 ^ 63"
  shows "\<exists>h' ms. ls_sort lt l h = Some (Inr h') \<and> list_objects h' (\<sigma>(l \<mapsto> ms)) \<and>
    sorted_of (by_elem lt (elem_of h)) ns ms \<and> size_of l h' = Inr n \<and> (\<forall>p<unused h. M_data h' p = M_data h p)"
proof -
  have n: "M_size h l = Some n" using assms(4) by (simp add: size_of_def split: option.splits)
  from S_sort_sorts [OF assms(1-3) _ assms(5)] n obtain h1 ms where
    h1: "S_sort lt l h = Some (Inr h1)" "list_objects h1 (\<sigma>(l \<mapsto> ms))" "sorted_of (by_elem lt (elem_of h)) ns ms"
    "\<forall>p<unused h. M_data h1 p = M_data h p" by auto
  then show ?thesis
    using assms(4) by (intro exI [of _ "set_size l n h1"] exI [of _ ms]) (simp add: ls_sort_def set_size_def size_of_def)
qed

theorem list_sort_moves_nodes_witness:
  "\<exists>h' ms. ls_sort (<) 0 sample_store = Some (Inr h') \<and>
     list_objects h' ([0 \<mapsto> [1, 2, 3], 4 \<mapsto> [5, 6], 7 \<mapsto> []](0 \<mapsto> ms)) \<and>
     sorted_of (by_elem (<) (elem_of sample_store)) [1, 2, 3] ms \<and> size_of 0 h' = Inr 3 \<and>
     (\<forall>p<unused sample_store. M_data h' p = M_data sample_store p)"
proof (rule list_sort_moves_nodes [OF _ sample_lists])
  show "strict_weak_order ((<) :: nat \<Rightarrow> nat \<Rightarrow> bool)" by unfold_locales auto
qed (simp_all add: size_of_def sample_store_def)

text \<open>
  C29. \<^verbatim>\<open>swap\<close> with an empty list: the nodes change hands, but both counts become 0 (\<^verbatim>\<open>_M_swap_aux\<close> resets the count
  before the counts are exchanged). The list that has the nodes then reports no elements, and
  \<^verbatim>\<open>pop_front\<close> and \<^verbatim>\<open>pop_back\<close>, which look at the count, do nothing.
\<close>

theorem swap_with_empty_loses_count:
  assumes "represents h \<tau>" and "\<tau> l = Some xs" and "\<tau> m = Some []" and "l \<noteq> m" and "xs \<noteq> []"
  shows "\<exists>h'. ls_swap l m h = Inr h' \<and> ls_empty m h' = Inr False \<and> ls_front m h' = Inr (hd xs) \<and>
    size_of l h' = Inr 0 \<and> size_of m h' = Inr 0 \<and> ls_pop_front m h' = Inr h' \<and> ls_pop_back m h' = Inr h'"
proof -
  obtain \<sigma> ns where s: "list_objects h \<sigma>" "counts_ok h \<sigma>" "\<tau> = (\<lambda>l. map_option (map (elem_of h)) (\<sigma> l))"
    "\<sigma> l = Some ns" "xs = map (elem_of h) ns" by (rule representsE [OF assms(1,2)]) (rule that)
  have m: "\<sigma> m = Some []" using assms(3) s(3) by auto
  obtain h' where h': "ls_swap l m h = Inr h'" "list_objects h' (\<sigma>(l \<mapsto> [], m \<mapsto> ns))" "M_data h' = M_data h" "unused h' = unused h"
    "M_size h' = (M_size h)(l \<mapsto> fst (swapped_sizes ns (of_nat (length ns)) [] (of_nat (length ([] :: loc list)))),
       m \<mapsto> snd (swapped_sizes ns (of_nat (length ns)) [] (of_nat (length ([] :: loc list)))))"
    by (rule lists_swap [OF s(1,4) counts_okD(2) [OF s(2,4)] m counts_okD(2) [OF s(2) m] assms(4)]) (rule that)
  obtain p ps where ns: "ns = p # ps" using assms(5) s(5) by (cases ns) auto
  have lm: "(\<sigma>(l \<mapsto> [], m \<mapsto> ns)) m = Some ([] @ p # ps)" using ns by simp
  have "size_of l h' = Inr 0" "size_of m h' = Inr 0"
    using h'(5) ns assms(4) by (simp_all add: size_of_def swapped_sizes_def)
  moreover have "ls_empty m h' = Inr False" using ls_empty_held [OF h'(2) lm] by simp
  moreover have "ls_front m h' = Inr (hd xs)"
    using ls_begin_held [OF h'(2) lm] data_of_held [OF h'(2) lm] h'(3) s(5) ns by (simp add: ls_front_def elem_of_def)
  ultimately show ?thesis using h'(1) by (intro exI [of _ h']) (simp add: ls_pop_front_def ls_pop_back_def)
qed

theorem swap_with_empty_loses_count_witness:
  "\<exists>h'. ls_swap 0 7 sample_store = Inr h' \<and> ls_empty 7 h' = Inr False \<and> ls_front 7 h' = Inr (hd [3, 1, 2]) \<and>
     size_of 0 h' = Inr 0 \<and> size_of 7 h' = Inr 0 \<and> ls_pop_front 7 h' = Inr h' \<and> ls_pop_back 7 h' = Inr h'"
  by (rule swap_with_empty_loses_count [OF sample_represents]) simp_all

text \<open>
  C30. \<^verbatim>\<open>merge\<close> of two lists whose allocators differ never returns when the first element of the
  argument goes before some element of the list: the loop inserts a copy of it again and again, since it
  does not go on to the next element of the argument (until, outside the model, memory is exhausted).
\<close>

theorem merge_other_allocator_never_returns:
  assumes "represents h \<tau>" and "\<tau> l = Some xs" and "\<tau> m = Some (y # ys)" and "l \<noteq> m"
    and "x \<in> set xs" and "lt y x" and "\<not> lt y y"
  shows "ls_merge False lt l m h = None"
proof -
  obtain \<sigma> ns where s: "list_objects h \<sigma>" "counts_ok h \<sigma>" "\<tau> = (\<lambda>l. map_option (map (elem_of h)) (\<sigma> l))"
    "\<sigma> l = Some ns" "xs = map (elem_of h) ns" by (rule representsE [OF assms(1,2)]) (rule that)
  obtain q ms where m: "\<sigma> m = Some (q # ms)" "y = elem_of h q" using assms(3) s(3) by (auto simp: Cons_eq_map_conv)
  obtain p where p: "p \<in> set ns" "x = elem_of h p" using assms(5) s(5) by auto
  have "stuck lt (hd (ns @ [l])) l q m h" unfolding stuck_def
    by (rule exI [of _ \<sigma>], rule exI [of _ "[]"], rule exI [of _ ns], rule exI [of _ ms], rule exI [of _ p])
      (use s m p assms(4,6,7) counts_okD(2) [OF s(2,4)] in simp)
  then have "S_merge_copy_loop lt (hd (ns @ [l])) l q m h = None" using merge_copy_stuck by (metis not_Some_eq)
  then show ?thesis using ls_begin_held [OF s(1,4)] ls_begin_held [OF s(1) m(1)] by (simp add: ls_merge_def S_merge_def)
qed

theorem merge_other_allocator_never_returns_witness: "ls_merge False (<) 4 0 sample_store = None"
  by (rule merge_other_allocator_never_returns [OF sample_represents, of 4 "[5, 1]" 0 3 "[1, 2]" 5]) simp_all

text \<open>
  \<^verbatim>\<open>remove\<close> called with a reference to an element of the list itself (other than the last one) reads the element
  after its node has been given back to the allocator.
\<close>

theorem remove_own_element_faults:
  assumes "list_objects h \<sigma>" and "\<sigma> l = Some (A @ p # B)" and "B \<noteq> []" and "size_of l h = Inr n"
  shows "ls_remove (Elem p) l h = Some (Inl InvalidIterator)"
proof -
  obtain b B' where B: "B = b # B'" using assms(3) by (cases B) auto
  have "\<sigma> l = Some ([] @ A @ p # b # B')" "M_size h l \<noteq> None"
    using assms(2,4) by (auto simp: B size_of_def split: option.splits)
  from remove_own_run [OF assms(1) this] ls_begin_held [OF assms(1,2)] show ?thesis by (simp add: ls_remove_def B)
qed

theorem remove_own_element_faults_witness: "ls_remove (Elem 2) 0 sample_store = Some (Inl InvalidIterator)"
  by (rule remove_own_element_faults [OF sample_lists, of 0 "[1]" 2 "[3]" 3]) (simp_all add: size_of_def sample_store_def)

end
