(* ===== verification/Stl_Deque.thy ===== *)
theory Stl_Deque
  imports Stl_Stable
begin

text \<open>
  The double-ended queue of the library (\<^verbatim>\<open>stl/_deque.h\<close>, \<^verbatim>\<open>stl/_deque.c\<close>): buffers of \<open>B\<close> cells each,
  and a map, an array of pointers to buffers that is moved or grown when a side runs out of entries. An
  iterator points into the map, to a buffer and to a cell of it; \<^verbatim>\<open>_M_last\<close> is always \<^verbatim>\<open>_M_first\<close> plus the
  size of a buffer and is not kept apart, and \<^verbatim>\<open>_M_cur\<close> is an offset from \<^verbatim>\<open>_M_first\<close>. A cell is
  \<open>None\<close> until an element is constructed in it, and again when it has been destroyed. Using a buffer
  that was given back, or a cell or an entry of the map that does not exist, is a fault.
  The types of the elements are those without the library's own move support (\<^verbatim>\<open>__move_traits\<close>).
\<close>

section \<open>State\<close>

type_synonym block = nat

record diter =
  M_cur :: nat
  M_first :: block
  M_node :: nat

record 'a deque_state =
  M_start :: diter
  M_finish :: diter
  M_map :: "block option list"
  buffers :: "block \<Rightarrow> 'a option list option"
  fresh :: block

definition MAX_BYTES :: nat where
  "MAX_BYTES = 32 * 8"

definition S_buffer_size :: "nat \<Rightarrow> nat" where
  "S_buffer_size sizeof_Tp = (if sizeof_Tp < MAX_BYTES then MAX_BYTES div sizeof_Tp else 1)"

definition allocate :: "nat \<Rightarrow> 'a deque_state \<Rightarrow> block \<times> 'a deque_state" where
  "allocate B d =
     (fresh d, d\<lparr>buffers := (buffers d)(fresh d \<mapsto> replicate B None), fresh := Suc (fresh d)\<rparr>)"

definition deallocate :: "block \<Rightarrow> 'a deque_state \<Rightarrow> 'a deque_state result" where
  "deallocate b d =
     (if buffers d b = None then Inl InvalidIterator else Inr (d\<lparr>buffers := (buffers d)(b := None)\<rparr>))"

definition map_read :: "int \<Rightarrow> 'a deque_state \<Rightarrow> block result" where
  "map_read n d =
     (if 0 \<le> n \<and> n < int (length (M_map d))
      then (case M_map d ! nat n of None \<Rightarrow> Inl IndeterminateValue | Some b \<Rightarrow> Inr b)
      else Inl InvalidIterator)"

definition map_write :: "int \<Rightarrow> block \<Rightarrow> 'a deque_state \<Rightarrow> 'a deque_state result" where
  "map_write n b d =
     (if 0 \<le> n \<and> n < int (length (M_map d)) then Inr (d\<lparr>M_map := (M_map d)[nat n := Some b]\<rparr>)
      else Inl InvalidIterator)"

definition cell_read :: "block \<Rightarrow> nat \<Rightarrow> 'a deque_state \<Rightarrow> 'a result" where
  "cell_read b i d =
     (case buffers d b of None \<Rightarrow> Inl InvalidIterator
      | Some buf \<Rightarrow>
          if i < length buf then (case buf ! i of None \<Rightarrow> Inl IndeterminateValue | Some x \<Rightarrow> Inr x)
          else Inl InvalidIterator)"

definition cell_write :: "block \<Rightarrow> nat \<Rightarrow> 'a option \<Rightarrow> 'a deque_state \<Rightarrow> 'a deque_state result" where
  "cell_write b i v d =
     (case buffers d b of None \<Rightarrow> Inl InvalidIterator
      | Some buf \<Rightarrow>
          if i < length buf then Inr (d\<lparr>buffers := (buffers d)(b \<mapsto> buf[i := v])\<rparr>)
          else Inl InvalidIterator)"

definition construct_at :: "block \<Rightarrow> nat \<Rightarrow> 'a \<Rightarrow> 'a deque_state \<Rightarrow> 'a deque_state result" where
  "construct_at b i x d = cell_write b i (Some x) d"

definition assign_at :: "block \<Rightarrow> nat \<Rightarrow> 'a \<Rightarrow> 'a deque_state \<Rightarrow> 'a deque_state result" where
  "assign_at b i x d = andThen (cell_read b i d) (\<lambda>_. cell_write b i (Some x) d)"

definition destroy_at :: "block \<Rightarrow> nat \<Rightarrow> 'a deque_state \<Rightarrow> 'a deque_state result" where
  "destroy_at b i d = andThen (cell_read b i d) (\<lambda>_. cell_write b i None d)"

text \<open>\<^verbatim>\<open>_Destroy_Range\<close> on the cells of one buffer.\<close>

function destroy_cells :: "block \<Rightarrow> nat \<Rightarrow> nat \<Rightarrow> 'a deque_state \<Rightarrow> 'a deque_state result" where
  "destroy_cells b i n d =
     (if i < n then andThen (destroy_at b i d) (destroy_cells b (Suc i) n) else Inr d)"
  by pat_completeness auto
termination by (relation "measure (\<lambda>(b, i, n, d). n - i)") auto

declare destroy_cells.simps [simp del]

section \<open>Iterators\<close>

definition set_node :: "int \<Rightarrow> diter \<Rightarrow> 'a deque_state \<Rightarrow> diter result" where
  "set_node n i d = andThen (map_read n d) (\<lambda>b. Inr (i\<lparr>M_node := nat n, M_first := b\<rparr>))"

definition increment :: "nat \<Rightarrow> diter \<Rightarrow> 'a deque_state \<Rightarrow> diter result" where
  "increment B i d =
     (let i = i\<lparr>M_cur := Suc (M_cur i)\<rparr> in
      if M_cur i = B
      then andThen (set_node (int (M_node i) + 1) i d) (\<lambda>i. Inr (i\<lparr>M_cur := 0\<rparr>))
      else Inr i)"

definition decrement :: "nat \<Rightarrow> diter \<Rightarrow> 'a deque_state \<Rightarrow> diter result" where
  "decrement B i d =
     andThen (if M_cur i = 0
              then andThen (set_node (int (M_node i) - 1) i d) (\<lambda>i. Inr (i\<lparr>M_cur := B\<rparr>))
              else Inr i)
       (\<lambda>i. Inr (i\<lparr>M_cur := M_cur i - 1\<rparr>))"

definition advance_by :: "nat \<Rightarrow> int \<Rightarrow> diter \<Rightarrow> 'a deque_state \<Rightarrow> diter result" where
  "advance_by B n i d =
     (let offset = n + int (M_cur i) in
      if offset \<ge> 0 \<and> offset < int B then Inr (i\<lparr>M_cur := nat (int (M_cur i) + n)\<rparr>)
      else
        let node_offset =
          (if offset > 0 then offset div int B else - ((- offset - 1) div int B) - 1) in
        andThen (set_node (int (M_node i) + node_offset) i d) (\<lambda>i.
        Inr (i\<lparr>M_cur := nat (offset - node_offset * int B)\<rparr>)))"

definition subtract :: "nat \<Rightarrow> diter \<Rightarrow> diter \<Rightarrow> int" where
  "subtract B i x =
     int B * (int (M_node i) - int (M_node x) - 1) + int (M_cur i) + (int B - int (M_cur x))"

text \<open>Two pointers \<^verbatim>\<open>_M_cur\<close> are equal when they point to the same cell of the same buffer.\<close>

definition same_cur :: "diter \<Rightarrow> diter \<Rightarrow> bool" where
  "same_cur i x \<longleftrightarrow> M_first i = M_first x \<and> M_cur i = M_cur x"

definition iter_less :: "diter \<Rightarrow> diter \<Rightarrow> bool" where
  "iter_less i x \<longleftrightarrow> (if M_node i = M_node x then M_cur i < M_cur x else M_node i < M_node x)"

definition deref_iter :: "diter \<Rightarrow> 'a deque_state \<Rightarrow> 'a result" where
  "deref_iter i d = cell_read (M_first i) (M_cur i) d"

text \<open>
  \<^verbatim>\<open>copy\<close>, \<^verbatim>\<open>copy_backward\<close>, \<^verbatim>\<open>fill\<close> and their forms for cells without elements count the cells of the range
  first. \<open>put\<close> is the assignment of an element, or its construction.
\<close>

primrec copy_with ::
  "(block \<Rightarrow> nat \<Rightarrow> 'a \<Rightarrow> 'a deque_state \<Rightarrow> 'a deque_state result) \<Rightarrow> nat \<Rightarrow>
   nat \<Rightarrow> diter \<Rightarrow> diter \<Rightarrow> 'a deque_state \<Rightarrow> (diter \<times> 'a deque_state) result" where
  "copy_with put B 0 first result d = Inr (result, d)"
| "copy_with put B (Suc n) first result d =
     andThen (deref_iter first d) (\<lambda>x.
     andThen (put (M_first result) (M_cur result) x d) (\<lambda>d.
     andThen (increment B first d) (\<lambda>first.
     andThen (increment B result d) (\<lambda>result.
     copy_with put B n first result d))))"

definition copy_iters :: "nat \<Rightarrow> diter \<Rightarrow> diter \<Rightarrow> diter \<Rightarrow> 'a deque_state \<Rightarrow> (diter \<times> 'a deque_state) result" where
  "copy_iters B first fin result d = copy_with assign_at B (nat (subtract B fin first)) first result d"

definition ucopy_iters :: "nat \<Rightarrow> diter \<Rightarrow> diter \<Rightarrow> diter \<Rightarrow> 'a deque_state \<Rightarrow> (diter \<times> 'a deque_state) result" where
  "ucopy_iters B first fin result d = copy_with construct_at B (nat (subtract B fin first)) first result d"

primrec copy_backward_loop ::
  "nat \<Rightarrow> nat \<Rightarrow> diter \<Rightarrow> diter \<Rightarrow> 'a deque_state \<Rightarrow> (diter \<times> 'a deque_state) result" where
  "copy_backward_loop B 0 fin result d = Inr (result, d)"
| "copy_backward_loop B (Suc n) fin result d =
     andThen (decrement B fin d) (\<lambda>fin.
     andThen (deref_iter fin d) (\<lambda>x.
     andThen (decrement B result d) (\<lambda>result.
     andThen (assign_at (M_first result) (M_cur result) x d) (\<lambda>d.
     copy_backward_loop B n fin result d))))"

definition copy_backward_iters ::
  "nat \<Rightarrow> diter \<Rightarrow> diter \<Rightarrow> diter \<Rightarrow> 'a deque_state \<Rightarrow> (diter \<times> 'a deque_state) result" where
  "copy_backward_iters B first fin result d =
     copy_backward_loop B (nat (subtract B fin first)) fin result d"

primrec fill_with ::
  "(block \<Rightarrow> nat \<Rightarrow> 'a \<Rightarrow> 'a deque_state \<Rightarrow> 'a deque_state result) \<Rightarrow> nat \<Rightarrow>
   nat \<Rightarrow> diter \<Rightarrow> 'a \<Rightarrow> 'a deque_state \<Rightarrow> 'a deque_state result" where
  "fill_with put B 0 first x d = Inr d"
| "fill_with put B (Suc n) first x d =
     andThen (put (M_first first) (M_cur first) x d) (\<lambda>d.
     andThen (increment B first d) (\<lambda>first. fill_with put B n first x d))"

definition fill_iters :: "nat \<Rightarrow> diter \<Rightarrow> diter \<Rightarrow> 'a \<Rightarrow> 'a deque_state \<Rightarrow> 'a deque_state result" where
  "fill_iters B first fin x d = fill_with assign_at B (nat (subtract B fin first)) first x d"

definition ufill_iters :: "nat \<Rightarrow> diter \<Rightarrow> diter \<Rightarrow> 'a \<Rightarrow> 'a deque_state \<Rightarrow> 'a deque_state result" where
  "ufill_iters B first fin x d = fill_with construct_at B (nat (subtract B fin first)) first x d"

section \<open>Nodes of the map\<close>

function create_nodes :: "nat \<Rightarrow> nat \<Rightarrow> nat \<Rightarrow> 'a deque_state \<Rightarrow> 'a deque_state result" where
  "create_nodes B cur nfinish d =
     (if cur < nfinish then
        let (b, d) = allocate B d in
        andThen (map_write (int cur) b d) (create_nodes B (Suc cur) nfinish)
      else Inr d)"
  by pat_completeness auto
termination by (relation "measure (\<lambda>(B, cur, nfinish, d). nfinish - cur)") auto

function destroy_nodes :: "nat \<Rightarrow> nat \<Rightarrow> 'a deque_state \<Rightarrow> 'a deque_state result" where
  "destroy_nodes n nfinish d =
     (if n < nfinish then
        andThen (map_read (int n) d) (\<lambda>b.
        andThen (deallocate b d) (destroy_nodes (Suc n) nfinish))
      else Inr d)"
  by pat_completeness auto
termination by (relation "measure (\<lambda>(n, nfinish, d). nfinish - n)") auto

declare create_nodes.simps [simp del] destroy_nodes.simps [simp del]

text \<open>The iterators of a deque whose map is not initialized are null; here they stand for nothing.\<close>

definition no_deque :: "'a deque_state" where
  "no_deque =
     \<lparr>M_start = \<lparr>M_cur = 0, M_first = 0, M_node = 0\<rparr>, M_finish = \<lparr>M_cur = 0, M_first = 0, M_node = 0\<rparr>,
      M_map = [], buffers = (\<lambda>_. None), fresh = 0\<rparr>"

definition initial_map_size :: nat where
  "initial_map_size = 8"

definition initialize_map :: "nat \<Rightarrow> nat \<Rightarrow> 'a deque_state \<Rightarrow> 'a deque_state result" where
  "initialize_map B num_elements d =
     (let num_nodes = num_elements div B + 1;
          map_size = max initial_map_size (num_nodes + 2);
          d = d\<lparr>M_map := replicate map_size None\<rparr>;
          nstart = (map_size - num_nodes) div 2;
          nfinish = nstart + num_nodes in
      andThen (create_nodes B nstart nfinish d) (\<lambda>d.
      andThen (set_node (int nstart) (M_start d) d) (\<lambda>s.
      andThen (set_node (int nfinish - 1) (M_finish d) d) (\<lambda>f.
      Inr (d\<lparr>M_start := s\<lparr>M_cur := 0\<rparr>, M_finish := f\<lparr>M_cur := num_elements mod B\<rparr>\<rparr>)))))"

definition new_deque :: "nat \<Rightarrow> 'a deque_state result" where
  "new_deque B = initialize_map B 0 no_deque"

definition reallocate_map :: "nat \<Rightarrow> bool \<Rightarrow> 'a deque_state \<Rightarrow> 'a deque_state result" where
  "reallocate_map nodes_to_add add_at_front d =
     (let start = M_node (M_start d); finish = M_node (M_finish d); map_size = length (M_map d);
          old_num_nodes = finish - start + 1;
          new_num_nodes = old_num_nodes + nodes_to_add;
          (new_nstart, new_map) =
            (if map_size > 2 * new_num_nodes then
               let new_nstart = (map_size - new_num_nodes) div 2 + (if add_at_front then nodes_to_add else 0) in
               (new_nstart,
                if new_nstart < start
                then snd (std_copy ByMemmove start (finish + 1) new_nstart (M_map d))
                else snd (std_copy_backward ByMemmove start (finish + 1) (new_nstart + old_num_nodes) (M_map d)))
             else
               let new_map_size = map_size + max map_size nodes_to_add + 2;
                   new_nstart = (new_map_size - new_num_nodes) div 2 + (if add_at_front then nodes_to_add else 0) in
               (new_nstart,
                drop map_size (snd (std_copy ByMemmove start (finish + 1) (map_size + new_nstart)
                  (M_map d @ replicate new_map_size None)))));
          d = d\<lparr>M_map := new_map\<rparr> in
      andThen (set_node (int new_nstart) (M_start d) d) (\<lambda>s.
      andThen (set_node (int new_nstart + int old_num_nodes - 1) (M_finish d) d) (\<lambda>f.
      Inr (d\<lparr>M_start := s, M_finish := f\<rparr>))))"

definition reserve_map_at_back :: "nat \<Rightarrow> 'a deque_state \<Rightarrow> 'a deque_state result" where
  "reserve_map_at_back nodes_to_add d =
     (if nodes_to_add + 1 > length (M_map d) - M_node (M_finish d)
      then reallocate_map nodes_to_add False d else Inr d)"

definition reserve_map_at_front :: "nat \<Rightarrow> 'a deque_state \<Rightarrow> 'a deque_state result" where
  "reserve_map_at_front nodes_to_add d =
     (if nodes_to_add > M_node (M_start d) then reallocate_map nodes_to_add True d else Inr d)"

section \<open>Both ends\<close>

definition push_back_aux_v :: "nat \<Rightarrow> 'a \<Rightarrow> 'a deque_state \<Rightarrow> 'a deque_state result" where
  "push_back_aux_v B t d =
     andThen (reserve_map_at_back 1 d) (\<lambda>d.
       let (b, d) = allocate B d in
       andThen (map_write (int (M_node (M_finish d)) + 1) b d) (\<lambda>d.
       andThen (construct_at (M_first (M_finish d)) (M_cur (M_finish d)) t d) (\<lambda>d.
       andThen (set_node (int (M_node (M_finish d)) + 1) (M_finish d) d) (\<lambda>f.
       Inr (d\<lparr>M_finish := f\<lparr>M_cur := 0\<rparr>\<rparr>)))))"

definition push_front_aux_v :: "nat \<Rightarrow> 'a \<Rightarrow> 'a deque_state \<Rightarrow> 'a deque_state result" where
  "push_front_aux_v B t d =
     andThen (reserve_map_at_front 1 d) (\<lambda>d.
       let (b, d) = allocate B d in
       andThen (map_write (int (M_node (M_start d)) - 1) b d) (\<lambda>d.
       andThen (set_node (int (M_node (M_start d)) - 1) (M_start d) d) (\<lambda>s.
       let d = d\<lparr>M_start := s\<lparr>M_cur := B - 1\<rparr>\<rparr> in
       construct_at (M_first (M_start d)) (M_cur (M_start d)) t d)))"

definition dq_push_back :: "nat \<Rightarrow> 'a \<Rightarrow> 'a deque_state \<Rightarrow> 'a deque_state result" where
  "dq_push_back B t d =
     (let f = M_finish d in
      if M_cur f \<noteq> B - 1
      then andThen (construct_at (M_first f) (M_cur f) t d) (\<lambda>d.
           Inr (d\<lparr>M_finish := f\<lparr>M_cur := M_cur f + 1\<rparr>\<rparr>))
      else push_back_aux_v B t d)"

definition dq_push_front :: "nat \<Rightarrow> 'a \<Rightarrow> 'a deque_state \<Rightarrow> 'a deque_state result" where
  "dq_push_front B t d =
     (let s = M_start d in
      if M_cur s \<noteq> 0
      then andThen (construct_at (M_first s) (M_cur s - 1) t d) (\<lambda>d.
           Inr (d\<lparr>M_start := s\<lparr>M_cur := M_cur s - 1\<rparr>\<rparr>))
      else push_front_aux_v B t d)"

definition pop_back_aux :: "nat \<Rightarrow> 'a deque_state \<Rightarrow> 'a deque_state result" where
  "pop_back_aux B d =
     andThen (deallocate (M_first (M_finish d)) d) (\<lambda>d.
     andThen (set_node (int (M_node (M_finish d)) - 1) (M_finish d) d) (\<lambda>f.
     Inr (d\<lparr>M_finish := f\<lparr>M_cur := B - 1\<rparr>\<rparr>)))"

definition pop_front_aux :: "nat \<Rightarrow> 'a deque_state \<Rightarrow> 'a deque_state result" where
  "pop_front_aux B d =
     (let s = M_start d in
      if M_cur s \<noteq> B - 1 then Inr (d\<lparr>M_start := s\<lparr>M_cur := M_cur s + 1\<rparr>\<rparr>)
      else
        andThen (deallocate (M_first s) d) (\<lambda>d.
        andThen (set_node (int (M_node s) + 1) s d) (\<lambda>s.
        Inr (d\<lparr>M_start := s\<lparr>M_cur := 0\<rparr>\<rparr>))))"

definition dq_pop_back :: "nat \<Rightarrow> 'a deque_state \<Rightarrow> 'a deque_state result" where
  "dq_pop_back B d =
     andThen (if M_cur (M_finish d) \<noteq> 0
              then Inr (d\<lparr>M_finish := (M_finish d)\<lparr>M_cur := M_cur (M_finish d) - 1\<rparr>\<rparr>)
              else pop_back_aux B d)
       (\<lambda>d. destroy_at (M_first (M_finish d)) (M_cur (M_finish d)) d)"

definition dq_pop_front :: "nat \<Rightarrow> 'a deque_state \<Rightarrow> 'a deque_state result" where
  "dq_pop_front B d =
     andThen (destroy_at (M_first (M_start d)) (M_cur (M_start d)) d) (pop_front_aux B)"

definition dq_front :: "'a deque_state \<Rightarrow> 'a result" where
  "dq_front d = deref_iter (M_start d) d"

definition dq_back :: "nat \<Rightarrow> 'a deque_state \<Rightarrow> 'a result" where
  "dq_back B d = andThen (decrement B (M_finish d) d) (\<lambda>tmp. deref_iter tmp d)"

definition dq_size :: "nat \<Rightarrow> 'a deque_state \<Rightarrow> nat" where
  "dq_size B d = nat (subtract B (M_finish d) (M_start d))"

definition dq_empty :: "'a deque_state \<Rightarrow> bool" where
  "dq_empty d = same_cur (M_finish d) (M_start d)"

definition dq_nth :: "nat \<Rightarrow> nat \<Rightarrow> 'a deque_state \<Rightarrow> 'a result" where
  "dq_nth B n d = andThen (advance_by B (int n) (M_start d) d) (\<lambda>i. deref_iter i d)"

definition dq_at :: "nat \<Rightarrow> nat \<Rightarrow> 'a deque_state \<Rightarrow> 'a result" where
  "dq_at B n d = (if n \<ge> dq_size B d then Inl IndexOutOfRange else dq_nth B n d)"

section \<open>Removing elements\<close>

text \<open>\<^verbatim>\<open>clear\<close>: the buffers between the first and the last go, then the last if it is not the first.\<close>

function clear_nodes :: "nat \<Rightarrow> nat \<Rightarrow> nat \<Rightarrow> 'a deque_state \<Rightarrow> 'a deque_state result" where
  "clear_nodes B n fin d =
     (if n < fin then
        andThen (map_read (int n) d) (\<lambda>b.
        andThen (destroy_cells b 0 B d) (\<lambda>d.
        andThen (deallocate b d) (clear_nodes B (Suc n) fin)))
      else Inr d)"
  by pat_completeness auto
termination by (relation "measure (\<lambda>(B, n, fin, d). fin - n)") auto

declare clear_nodes.simps [simp del]

definition dq_clear :: "nat \<Rightarrow> 'a deque_state \<Rightarrow> 'a deque_state result" where
  "dq_clear B d =
     (let s = M_start d; f = M_finish d in
      andThen (clear_nodes B (M_node s + 1) (M_node f) d) (\<lambda>d.
      andThen (if M_node s \<noteq> M_node f then
                 andThen (destroy_cells (M_first s) (M_cur s) B d) (\<lambda>d.
                 andThen (destroy_cells (M_first f) 0 (M_cur f) d) (\<lambda>d.
                 deallocate (M_first f) d))
               else destroy_cells (M_first s) (M_cur s) (M_cur f) d) (\<lambda>d.
      Inr (d\<lparr>M_finish := s\<rparr>))))"

definition dq_erase :: "nat \<Rightarrow> diter \<Rightarrow> 'a deque_state \<Rightarrow> (diter \<times> 'a deque_state) result" where
  "dq_erase B pos d =
     andThen (increment B pos d) (\<lambda>nx.
       let index = subtract B pos (M_start d) in
       andThen (if nat index < dq_size B d div 2 then
                  andThen (copy_backward_iters B (M_start d) pos nx d) (\<lambda>(_, d). dq_pop_front B d)
                else
                  andThen (copy_iters B nx (M_finish d) pos d) (\<lambda>(_, d). dq_pop_back B d)) (\<lambda>d.
       andThen (advance_by B index (M_start d) d) (\<lambda>i. Inr (i, d))))"

text \<open>The destructor: the elements are destroyed, then the buffers and the map are given back.\<close>

partial_function (option) destroy_range :: "nat \<Rightarrow> diter \<Rightarrow> diter \<Rightarrow> 'a deque_state \<Rightarrow> ('a deque_state result) option" where
  "destroy_range B first fin d =
     (if same_cur first fin then Some (Inr d)
      else bindR (Some (destroy_at (M_first first) (M_cur first) d)) (\<lambda>d.
           bindR (Some (increment B first d)) (\<lambda>first. destroy_range B first fin d)))"

definition destroy_base :: "'a deque_state \<Rightarrow> 'a deque_state result" where
  "destroy_base d =
     (if M_map d \<noteq> [] then
        andThen (destroy_nodes (M_node (M_start d)) (M_node (M_finish d) + 1) d) (\<lambda>d. Inr (d\<lparr>M_map := []\<rparr>))
      else Inr d)"

definition destroy_deque :: "nat \<Rightarrow> 'a deque_state \<Rightarrow> ('a deque_state result) option" where
  "destroy_deque B d =
     bindR (destroy_range B (M_start d) (M_finish d) d) (\<lambda>d. Some (destroy_base d))"

end
