(* ===== verification/Stl_Deque_Facts.thy ===== *)
theory Stl_Deque_Facts
  imports Stl_Deque
begin

text \<open>
  What the operations of the deque do. \<open>nodes_ok\<close>: the map holds the buffers of the deque from some entry
  on, and their cells one after another are one list; \<open>it_at\<close> is the iterator to a cell of that list.
  \<open>deque_ok\<close>: the cells between start and finish hold the elements, and every buffer that is
  allocated belongs to the deque, the first and the last of them to its two iterators.
\<close>

section \<open>Cells of buffers that follow each other\<close>

definition chunk :: "nat \<Rightarrow> 'a list \<Rightarrow> nat \<Rightarrow> 'a list" where
  "chunk B xs i = take B (drop (i * B) xs)"

lemma length_chunk: "Suc i * B \<le> length xs \<Longrightarrow> length (chunk B xs i) = B"
  by (simp add: chunk_def)

lemma chunk_nth:
  assumes "p < length xs" "0 < B"
  shows "chunk B xs (p div B) ! (p mod B) = xs ! p"
proof -
  have "p div B * B + p mod B = p" by simp
  moreover have "p div B * B \<le> length xs" using assms by (meson div_times_less_eq_dividend le_trans less_imp_le)
  ultimately show ?thesis using assms by (simp add: chunk_def)
qed

lemma chunk_update:
  assumes "p < length xs" "0 < B"
  shows "chunk B (xs[p := v]) i = (if i = p div B then (chunk B xs i)[p mod B := v] else chunk B xs i)"
proof (cases "i * B \<le> p")
  case True
  then have le: "i \<le> p div B" using assms(2) by (simp add: less_eq_div_iff_mult_less_eq)
  have e: "drop (i * B) (xs[p := v]) = (drop (i * B) xs)[p - i * B := v]" using True by (simp add: drop_update_swap)
  show ?thesis
  proof (cases "i = p div B")
    case True
    then have "p - i * B = p mod B" by (simp add: modulo_nat_def)
    with True e show ?thesis by (simp add: chunk_def take_update_swap)
  next
    case False
    then have "Suc i \<le> p div B" using le by simp
    then have "Suc i * B \<le> p" using assms(2) by (metis less_eq_div_iff_mult_less_eq)
    then have "B \<le> p - i * B" using True by simp
    with False e show ?thesis by (simp add: chunk_def take_update_cancel)
  qed
next
  case False
  then have "i \<noteq> p div B" by (metis div_times_less_eq_dividend)
  with False show ?thesis by (simp add: chunk_def drop_update_cancel)
qed

lemma chunk_append1: "Suc i * B \<le> length xs \<Longrightarrow> chunk B (xs @ ys) i = chunk B xs i"
  by (simp add: chunk_def)

lemma chunk_append2: "length xs = B * n \<Longrightarrow> length ys = B \<Longrightarrow> chunk B (xs @ ys) n = ys"
  by (simp add: chunk_def mult.commute)

lemma chunk_prepend0: "length ys = B \<Longrightarrow> chunk B (ys @ xs) 0 = ys"
  by (simp add: chunk_def)

lemma chunk_prepend: "length ys = B \<Longrightarrow> chunk B (ys @ xs) (Suc i) = chunk B xs i"
  by (simp add: chunk_def)

lemma chunk_butlast: "Suc i * B \<le> n \<Longrightarrow> chunk B (take n xs) i = chunk B xs i"
  by (simp add: chunk_def take_drop min_def)

lemma chunk_tl: "chunk B (drop B xs) i = chunk B xs (Suc i)"
  by (simp add: chunk_def add.commute)

lemma div_less_blocks: "p < B * n \<Longrightarrow> 0 < B \<Longrightarrow> p div B < n" for p B n :: nat
  by (simp add: less_mult_imp_div_less mult.commute)

section \<open>The map and its buffers\<close>

definition it_at :: "nat \<Rightarrow> nat \<Rightarrow> block list \<Rightarrow> nat \<Rightarrow> diter" where
  "it_at B base bs p = \<lparr>M_cur = p mod B, M_first = bs ! (p div B), M_node = base + p div B\<rparr>"

lemma it_at_simps [simp]:
  "M_cur (it_at B base bs p) = p mod B" "M_first (it_at B base bs p) = bs ! (p div B)"
  "M_node (it_at B base bs p) = base + p div B"
  by (simp_all add: it_at_def)

definition map_ok :: "'a deque_state \<Rightarrow> nat \<Rightarrow> block list \<Rightarrow> bool" where
  "map_ok d base bs \<longleftrightarrow>
     base + length bs \<le> length (M_map d) \<and> (\<forall>i<length bs. M_map d ! (base + i) = Some (bs ! i))"

definition buffers_ok :: "nat \<Rightarrow> 'a deque_state \<Rightarrow> block list \<Rightarrow> 'a option list \<Rightarrow> bool" where
  "buffers_ok B d bs flat \<longleftrightarrow>
     0 < B \<and> distinct bs \<and> length flat = B * length bs \<and> dom (buffers d) = set bs \<and>
     (\<forall>b\<in>set bs. b < fresh d) \<and> (\<forall>i<length bs. buffers d (bs ! i) = Some (chunk B flat i))"

definition nodes_ok :: "nat \<Rightarrow> 'a deque_state \<Rightarrow> nat \<Rightarrow> block list \<Rightarrow> 'a option list \<Rightarrow> bool" where
  "nodes_ok B d base bs flat \<longleftrightarrow> map_ok d base bs \<and> buffers_ok B d bs flat"

lemma nodes_ok_fields [simp]:
  "nodes_ok B (d\<lparr>M_start := s\<rparr>) = nodes_ok B d" "nodes_ok B (d\<lparr>M_finish := s\<rparr>) = nodes_ok B d"
  by (simp_all add: nodes_ok_def map_ok_def buffers_ok_def fun_eq_iff)

lemma buffers_ok_map [simp]: "buffers_ok B (d\<lparr>M_map := m\<rparr>) = buffers_ok B d"
  by (simp add: buffers_ok_def fun_eq_iff)

lemma map_ok_fields [simp]:
  "map_ok (d\<lparr>buffers := m\<rparr>) = map_ok d" "map_ok (d\<lparr>fresh := n\<rparr>) = map_ok d"
  "map_ok (d\<lparr>M_start := s\<rparr>) = map_ok d" "map_ok (d\<lparr>M_finish := s\<rparr>) = map_ok d"
  by (simp_all add: map_ok_def fun_eq_iff)

lemma nodes_ok_B: "nodes_ok B d base bs flat \<Longrightarrow> 0 < B"
  by (simp add: nodes_ok_def buffers_ok_def)

lemma nodes_ok_length: "nodes_ok B d base bs flat \<Longrightarrow> length flat = B * length bs"
  by (simp add: nodes_ok_def buffers_ok_def)

lemma map_read_ok: "map_ok d base bs \<Longrightarrow> i < length bs \<Longrightarrow> map_read (int base + int i) d = Inr (bs ! i)"
  by (simp add: map_ok_def map_read_def nat_add_distrib)

lemma set_node_ok:
  "map_ok d base bs \<Longrightarrow> i < length bs \<Longrightarrow> n = int base + int i \<Longrightarrow>
    set_node n it d = Inr (it\<lparr>M_node := base + i, M_first := bs ! i\<rparr>)"
  by (simp add: set_node_def map_read_ok nat_add_distrib)

lemma cell_buffer:
  assumes "nodes_ok B d base bs flat" "p < length flat"
  shows "buffers d (bs ! (p div B)) = Some (chunk B flat (p div B))" "length (chunk B flat (p div B)) = B"
    "p div B < length bs" "p mod B < B" "chunk B flat (p div B) ! (p mod B) = flat ! p"
proof -
  have B: "0 < B" and len: "length flat = B * length bs" using assms nodes_ok_B nodes_ok_length by blast+
  then show lt: "p div B < length bs" using assms(2) by (simp add: div_less_blocks)
  then show "buffers d (bs ! (p div B)) = Some (chunk B flat (p div B))"
    using assms(1) by (simp add: nodes_ok_def buffers_ok_def)
  have "Suc (p div B) * B \<le> length flat" unfolding len using lt by (metis Suc_leI mult.commute mult_le_mono1)
  then show "length (chunk B flat (p div B)) = B" by (rule length_chunk)
  show "p mod B < B" using B by simp
  show "chunk B flat (p div B) ! (p mod B) = flat ! p" using assms(2) B by (rule chunk_nth)
qed

lemma cell_read_at:
  assumes "nodes_ok B d base bs flat" "p < length flat"
  shows "cell_read (bs ! (p div B)) (p mod B) d = (case flat ! p of None \<Rightarrow> Inl IndeterminateValue | Some x \<Rightarrow> Inr x)"
  using cell_buffer [OF assms] by (simp add: cell_read_def)

lemma cell_write_at:
  assumes "nodes_ok B d base bs flat" "p < length flat"
  obtains m where "cell_write (bs ! (p div B)) (p mod B) v d = Inr (d\<lparr>buffers := m\<rparr>)"
    "nodes_ok B (d\<lparr>buffers := m\<rparr>) base bs (flat[p := v])"
proof -
  let ?b = "bs ! (p div B)" and ?m = "(buffers d)(bs ! (p div B) \<mapsto> (chunk B flat (p div B))[p mod B := v])"
  note c = cell_buffer [OF assms]
  have B: "0 < B" using assms(1) by (rule nodes_ok_B)
  have w: "cell_write ?b (p mod B) v d = Inr (d\<lparr>buffers := ?m\<rparr>)"
    using c by (simp add: cell_write_def)
  have d: "distinct bs" using assms(1) by (simp add: nodes_ok_def buffers_ok_def)
  have "?m (bs ! i) = Some (chunk B (flat[p := v]) i)" if "i < length bs" for i
  proof -
    have "buffers d (bs ! i) = Some (chunk B flat i)" using assms(1) that by (simp add: nodes_ok_def buffers_ok_def)
    then show ?thesis
      using d that c(3) chunk_update [OF assms(2) B, of v i] by (auto simp: nth_eq_iff_index_eq)
  qed
  moreover have "dom ?m = set bs" using assms(1) c(3) by (auto simp: nodes_ok_def buffers_ok_def)
  ultimately have "nodes_ok B (d\<lparr>buffers := ?m\<rparr>) base bs (flat[p := v])"
    using assms(1) unfolding nodes_ok_def buffers_ok_def by simp
  then show ?thesis using that [OF w] by blast
qed

section \<open>Iterators\<close>

lemma int_pos: "int p = int B * int (p div B) + int (p mod B)"
  by (metis mult_div_mod_eq of_nat_add of_nat_mult)

lemma subtract_it [simp]: "subtract B (it_at B base bs q) (it_at B base bs p) = int q - int p"
proof -
  have "subtract B (it_at B base bs q) (it_at B base bs p) =
      (int B * int (q div B) + int (q mod B)) - (int B * int (p div B) + int (p mod B))"
    by (simp add: subtract_def algebra_simps)
  then show ?thesis by (simp flip: int_pos)
qed

lemma increment_it:
  assumes "nodes_ok B d base bs flat" "Suc p < length flat"
  shows "increment B (it_at B base bs p) d = Inr (it_at B base bs (Suc p))"
proof (cases "Suc (p mod B) = B")
  case True
  then have e: "Suc p div B = Suc (p div B)" "Suc p mod B = 0" by (simp_all add: div_Suc mod_Suc)
  have "Suc p div B < length bs" using cell_buffer(3) [OF assms] .
  then have "set_node (int (base + p div B) + 1) it d = Inr (it\<lparr>M_node := base + Suc p div B, M_first := bs ! (Suc p div B)\<rparr>)" for it
    using assms(1) e(1) by (intro set_node_ok) (auto simp: nodes_ok_def)
  with True e show ?thesis by (simp add: increment_def it_at_def)
next
  case False
  then have "Suc p div B = p div B" "Suc p mod B = Suc (p mod B)" by (simp_all add: div_Suc mod_Suc)
  with False show ?thesis by (simp add: increment_def it_at_def)
qed

lemma decrement_it:
  assumes "nodes_ok B d base bs flat" "Suc p < length flat"
  shows "decrement B (it_at B base bs (Suc p)) d = Inr (it_at B base bs p)"
proof (cases "Suc (p mod B) = B")
  case True
  then have e: "Suc p div B = Suc (p div B)" "Suc p mod B = 0" "p mod B = B - 1" by (simp_all add: div_Suc mod_Suc)
  have "p div B < length bs" using cell_buffer(3) [OF assms(1)] assms(2) by simp
  then have "set_node (int (base + Suc p div B) - 1) it d = Inr (it\<lparr>M_node := base + p div B, M_first := bs ! (p div B)\<rparr>)" for it
    using assms(1) e(1) by (intro set_node_ok) (auto simp: nodes_ok_def)
  with e show ?thesis by (simp add: decrement_def it_at_def)
next
  case False
  then have "Suc p div B = p div B" "Suc p mod B = Suc (p mod B)" by (simp_all add: div_Suc mod_Suc)
  then show ?thesis by (simp add: decrement_def it_at_def)
qed

lemma same_cur_it:
  assumes "nodes_ok B d base bs flat" "p < length flat" "q < length flat"
  shows "same_cur (it_at B base bs p) (it_at B base bs q) \<longleftrightarrow> p = q"
proof -
  have "distinct bs" using assms(1) by (simp add: nodes_ok_def buffers_ok_def)
  then have "same_cur (it_at B base bs p) (it_at B base bs q) \<longleftrightarrow> p div B = q div B \<and> p mod B = q mod B"
    using cell_buffer(3) [OF assms(1,2)] cell_buffer(3) [OF assms(1,3)]
    by (simp add: same_cur_def nth_eq_iff_index_eq)
  then show ?thesis by (metis div_mod_decomp)
qed

lemma iter_less_it: "0 < B \<Longrightarrow> iter_less (it_at B base bs p) (it_at B base bs q) \<longleftrightarrow> p < q"
proof -
  assume B: "0 < B"
  consider "p div B < q div B" | "p div B = q div B" | "q div B < p div B" by linarith
  then show ?thesis
  proof cases
    case 1
    then have "p < q" by (meson div_le_mono linorder_not_less)
    with 1 show ?thesis by (simp add: iter_less_def)
  next
    case 2
    then have "p < q \<longleftrightarrow> p mod B < q mod B"
      by (metis add_less_cancel_left mult_div_mod_eq)
    with 2 show ?thesis by (simp add: iter_less_def)
  next
    case 3
    then have "\<not> p < q" by (meson div_le_mono less_imp_le linorder_not_less)
    with 3 show ?thesis by (simp add: iter_less_def)
  qed
qed

lemma div_negative_offset:
  fixes x b :: int
  assumes "x < 0" "0 < b"
  shows "- ((- x - 1) div b) - 1 = x div b"
proof -
  let ?m = "- x - 1"
  have "?m = b * (?m div b) + ?m mod b" by simp
  then have "x = b * (- (?m div b) - 1) + (b - 1 - ?m mod b)" by (simp add: algebra_simps)
  moreover have "0 \<le> b - 1 - ?m mod b" "b - 1 - ?m mod b < b"
    using assms(2) pos_mod_bound [of b ?m] pos_mod_sign [of b ?m] by linarith+
  ultimately show ?thesis by (rule int_div_pos_eq [symmetric])
qed

lemma advance_it:
  assumes "nodes_ok B d base bs flat" "int p + n = int q" "q < length flat"
  shows "advance_by B n (it_at B base bs p) d = Inr (it_at B base bs q)"
proof -
  have B: "0 < B" using assms(1) by (rule nodes_ok_B)
  let ?off = "n + int (p mod B)"
  have q: "int q = int B * int (p div B) + ?off" using assms(2) int_pos [of p B] by simp
  show ?thesis
  proof (cases "?off \<ge> 0 \<and> ?off < int B")
    case True
    then obtain r where r: "?off = int r" "r < B" by (metis nonneg_int_cases of_nat_less_iff)
    then have "q = B * (p div B) + r" using q by (metis of_nat_add of_nat_eq_iff of_nat_mult)
    then have "q div B = p div B" "q mod B = r" using r(2) by simp_all
    with True r show ?thesis by (simp add: advance_by_def it_at_def add.commute)
  next
    case False
    then have nz: "?off \<noteq> 0" using B by linarith
    define k where "k = ?off div int B"
    have nodes: "(if ?off > 0 then ?off div int B else - ((- ?off - 1) div int B) - 1) = k"
      using nz B div_negative_offset [of ?off "int B"] unfolding k_def by (cases "?off > 0") simp_all
    have "int q = int B * (int (p div B) + k) + ?off mod int B"
      using q mult_div_mod_eq [of "int B" ?off] by (simp add: k_def algebra_simps)
    then have div: "int q div int B = int (p div B) + k" and m: "int q mod int B = ?off mod int B"
      using B by simp_all
    have offset: "nat (?off - k * int B) = q mod B"
      using m by (simp add: k_def minus_div_mult_eq_mod flip: zmod_int)
    have node: "int (base + p div B) + k = int base + int (q div B)" using div by (simp add: zdiv_int)
    have "q div B < length bs" using cell_buffer(3) [OF assms(1,3)] .
    then have "set_node (int (base + p div B) + k) it d = Inr (it\<lparr>M_node := base + q div B, M_first := bs ! (q div B)\<rparr>)" for it
      using assms(1) node by (intro set_node_ok) (auto simp: nodes_ok_def)
    then show ?thesis using False unfolding advance_by_def it_at_simps Let_def nodes
      by (simp only: if_False andThen_Inr offset) (simp add: it_at_def)
  qed
qed

section \<open>Moving and growing the map\<close>

definition ends_ok :: "nat \<Rightarrow> 'a deque_state \<Rightarrow> nat \<Rightarrow> block list \<Rightarrow> nat \<Rightarrow> nat \<Rightarrow> bool" where
  "ends_ok B d base bs p q \<longleftrightarrow>
     p < B \<and> length bs = q div B + 1 \<and> M_start d = it_at B base bs p \<and> M_finish d = it_at B base bs q"

definition map_room :: "bool \<Rightarrow> nat \<Rightarrow> nat \<Rightarrow> nat \<Rightarrow> nat \<Rightarrow> bool" where
  "map_room front k base n len \<longleftrightarrow> (if front then k \<le> base else base + n + k \<le> len)"

lemma moved_entries:
  assumes "map_ok d base bs" "nstart + length bs \<le> length m"
    "\<And>i. i < length bs \<Longrightarrow> m ! (nstart + i) = M_map d ! (base + i)"
  shows "map_ok (d\<lparr>M_map := m\<rparr>) nstart bs"
  using assms by (simp add: map_ok_def)

lemma copied_entries:
  assumes "map_ok d base bs" "bs \<noteq> []" "nstart + length bs \<le> length (M_map d)"
    and m: "m = (if nstart < base then snd (std_copy ByMemmove base (base + length bs) nstart (M_map d))
                 else snd (std_copy_backward ByMemmove base (base + length bs) (nstart + length bs) (M_map d)))"
  shows "map_ok (d\<lparr>M_map := m\<rparr>) nstart bs" "length m = length (M_map d)"
proof -
  have le: "base + length bs \<le> length (M_map d)" using assms(1) by (simp add: map_ok_def)
  have "m = memmove nstart base (length bs) (M_map d)"
  proof (cases "nstart < base")
    case True
    then have "no_clobber base (base + length bs) nstart" by (simp add: no_clobber_def)
    with True le assms(3) show ?thesis unfolding m by (subst std_copy_memmove) simp_all
  next
    case False
    with le assms(3) show ?thesis unfolding m by (subst std_copy_backward_memmove) simp_all
  qed
  with le assms(3) show "length m = length (M_map d)" "map_ok (d\<lparr>M_map := m\<rparr>) nstart bs"
    by (auto intro!: moved_entries [OF assms(1)] simp: memmove_length memmove_nth)
qed

lemma grown_entries:
  assumes "map_ok d base bs" "nstart + length bs \<le> n"
    and m: "m = drop (length (M_map d)) (snd (std_copy ByMemmove base (base + length bs) (length (M_map d) + nstart)
              (M_map d @ replicate n None)))"
  shows "map_ok (d\<lparr>M_map := m\<rparr>) nstart bs" "length m = n"
proof -
  let ?old = "M_map d" and ?mem = "M_map d @ replicate n None"
  have le: "base + length bs \<le> length ?old" using assms(1) by (simp add: map_ok_def)
  then have "no_clobber base (base + length bs) (length ?old + nstart)" by (simp add: no_clobber_def)
  then have m': "m = drop (length ?old) (memmove (length ?old + nstart) base (length bs) ?mem)"
    unfolding m using le assms(2) by (subst std_copy_memmove) simp_all
  have len: "length (memmove (length ?old + nstart) base (length bs) ?mem) = length ?old + n"
    using le assms(2) by (subst memmove_length) simp_all
  then show "length m = n" by (simp add: m')
  show "map_ok (d\<lparr>M_map := m\<rparr>) nstart bs"
  proof (rule moved_entries [OF assms(1)])
    show "nstart + length bs \<le> length m" using len assms(2) by (simp add: m')
    fix i assume "i < length bs"
    then have "m ! (nstart + i) = memmove (length ?old + nstart) base (length bs) ?mem ! (length ?old + nstart + i)"
      using len assms(2) by (simp add: m' add.assoc)
    also have "\<dots> = ?old ! (base + i)"
      using \<open>i < length bs\<close> le assms(2) by (subst memmove_nth) (simp_all add: nth_append)
    finally show "m ! (nstart + i) = ?old ! (base + i)" .
  qed
qed

text \<open>The size of the map changes only when the buffers take at least half of it.\<close>

definition map_growth :: "nat \<Rightarrow> nat \<Rightarrow> nat \<Rightarrow> nat \<Rightarrow> bool" where
  "map_growth old n k new \<longleftrightarrow> new = old \<or> (old \<le> 2 * (n + k) \<and> new = old + max old k + 2)"

lemma middle_room:
  fixes len n k :: nat
  assumes "n + k \<le> len"
  shows "(len - (n + k)) div 2 + (if front then k else 0) + n \<le> len"
    "map_room front k ((len - (n + k)) div 2 + (if front then k else 0)) n len"
  using assms by (auto simp: map_room_def)

lemma reallocate_map_ok:
  assumes "map_ok d base bs" "ends_ok B d base bs p q"
  obtains base' m where
    "reallocate_map k front d =
       Inr (d\<lparr>M_map := m, M_start := it_at B base' bs p, M_finish := it_at B base' bs q\<rparr>)"
    "map_ok (d\<lparr>M_map := m\<rparr>) base' bs" "map_room front k base' (length bs) (length m)"
    "map_growth (length (M_map d)) (length bs) k (length m)"
proof -
  let ?n = "length bs" and ?size = "length (M_map d)" and ?front = "if front then k else (0 :: nat)"
  have ends: "M_node (M_start d) = base" "M_node (M_finish d) = base + q div B" "?n = q div B + 1" "p div B = 0"
    using assms(2) by (simp_all add: ends_ok_def)
  have le: "base + ?n \<le> ?size" using assms(1) by (simp add: map_ok_def)
  have fin: "base + q div B + 1 = base + ?n" "base + q div B - base + 1 = ?n" using ends by simp_all
  define grown where "grown = (if ?size > 2 * (?n + k) then ?size else ?size + max ?size k + 2)"
  define nstart where "nstart = (grown - (?n + k)) div 2 + (if front then k else 0)"
  define m where "m = (if ?size > 2 * (?n + k) then
      (if nstart < base then snd (std_copy ByMemmove base (base + ?n) nstart (M_map d))
       else snd (std_copy_backward ByMemmove base (base + ?n) (nstart + ?n) (M_map d)))
    else drop ?size (snd (std_copy ByMemmove base (base + ?n) (?size + nstart) (M_map d @ replicate grown None))))"
  have "?n + k \<le> grown" using le by (auto simp: grown_def)
  then have room: "nstart + ?n \<le> grown" "map_room front k nstart ?n grown"
    using middle_room [of ?n k grown front] by (simp_all add: nstart_def)
  have mapm: "map_ok (d\<lparr>M_map := m\<rparr>) nstart bs" and lenm: "length m = grown"
  proof -
    have bs: "bs \<noteq> []" using ends(3) by auto
    have "map_ok (d\<lparr>M_map := m\<rparr>) nstart bs \<and> length m = grown"
    proof (cases "?size > 2 * (?n + k)")
      case True
      then have "grown = ?size" by (simp add: grown_def)
      with True room copied_entries [OF assms(1) bs, of nstart m] show ?thesis by (simp add: m_def)
    next
      case False
      with room grown_entries [OF assms(1), of nstart grown m] show ?thesis by (simp add: m_def)
    qed
    then show "map_ok (d\<lparr>M_map := m\<rparr>) nstart bs" "length m = grown" by simp_all
  qed
  have sets: "set_node (int nstart) (M_start d) (d\<lparr>M_map := m\<rparr>) = Inr (it_at B nstart bs p)"
    "set_node (int nstart + int ?n - 1) (M_finish d) (d\<lparr>M_map := m\<rparr>) = Inr (it_at B nstart bs q)"
    using assms(2) ends set_node_ok [OF mapm, of 0] set_node_ok [OF mapm, of "q div B"]
    by (simp_all add: ends_ok_def it_at_def)
  have pair: "(if 2 * (?n + k) < ?size then
       ((?size - (?n + k)) div 2 + ?front,
        if (?size - (?n + k)) div 2 + ?front < base
        then snd (std_copy ByMemmove base (base + ?n) ((?size - (?n + k)) div 2 + ?front) (M_map d))
        else snd (std_copy_backward ByMemmove base (base + ?n) ((?size - (?n + k)) div 2 + ?front + ?n) (M_map d)))
     else
       ((?size + max ?size k + 2 - (?n + k)) div 2 + ?front,
        drop ?size (snd (std_copy ByMemmove base (base + ?n)
          (?size + ((?size + max ?size k + 2 - (?n + k)) div 2 + ?front))
          (M_map d @ replicate (?size + max ?size k + 2) None))))) = (nstart, m)"
    by (cases "2 * (?n + k) < ?size") (simp_all only: m_def nstart_def grown_def if_True if_False)
  have "reallocate_map k front d =
      Inr (d\<lparr>M_map := m, M_start := it_at B nstart bs p, M_finish := it_at B nstart bs q\<rparr>)"
    unfolding reallocate_map_def ends(1,2) fin Let_def pair prod.case
    using sets by simp
  moreover have "map_growth ?size ?n k (length m)" by (auto simp: lenm grown_def map_growth_def)
  ultimately show ?thesis using that mapm room(2) lenm by simp
qed

lemma reserve_ok:
  assumes "nodes_ok B d base bs flat" "ends_ok B d base bs p q"
  obtains d' base' where
    "(if front then reserve_map_at_front k d else reserve_map_at_back k d) = Inr d'"
    "nodes_ok B d' base' bs flat" "ends_ok B d' base' bs p q"
    "map_room front k base' (length bs) (length (M_map d'))"
    "map_growth (length (M_map d)) (length bs) k (length (M_map d'))"
proof -
  have m: "map_ok d base bs" using assms(1) by (simp add: nodes_ok_def)
  have e: "M_node (M_start d) = base" "M_node (M_finish d) + 1 = base + length bs"
    using assms(2) by (simp_all add: ends_ok_def)
  show ?thesis
  proof (cases "if front then k > base else k + 1 > length (M_map d) - M_node (M_finish d)")
    case True
    obtain base' mp where r: "reallocate_map k front d =
        Inr (d\<lparr>M_map := mp, M_start := it_at B base' bs p, M_finish := it_at B base' bs q\<rparr>)"
      and ok: "map_ok (d\<lparr>M_map := mp\<rparr>) base' bs" "map_room front k base' (length bs) (length mp)"
        "map_growth (length (M_map d)) (length bs) k (length mp)"
      using reallocate_map_ok [OF m assms(2), of k front] by blast
    let ?d = "d\<lparr>M_map := mp, M_start := it_at B base' bs p, M_finish := it_at B base' bs q\<rparr>"
    have "nodes_ok B (d\<lparr>M_map := mp\<rparr>) base' bs flat"
      using ok(1) assms(1) by (simp add: nodes_ok_def)
    then have "nodes_ok B ?d base' bs flat" by simp
    moreover have "ends_ok B ?d base' bs p q" using assms(2) by (simp add: ends_ok_def)
    moreover have "(if front then reserve_map_at_front k d else reserve_map_at_back k d) = Inr ?d"
      using True r e(1) by (auto simp: reserve_map_at_front_def reserve_map_at_back_def split: if_splits)
    ultimately show ?thesis using that ok(2,3) by simp
  next
    case False
    then have "(if front then reserve_map_at_front k d else reserve_map_at_back k d) = Inr d"
      using e(1) by (auto simp: reserve_map_at_front_def reserve_map_at_back_def split: if_splits)
    moreover have "map_room front k base (length bs) (length (M_map d))"
      using False e(2) m by (auto simp: map_room_def map_ok_def split: if_splits)
    ultimately show ?thesis using that assms by (simp add: map_growth_def)
  qed
qed

lemma reserve_back_ok:
  assumes "nodes_ok B d base bs flat" "ends_ok B d base bs p q"
  obtains d' base' where "reserve_map_at_back k d = Inr d'"
    "nodes_ok B d' base' bs flat" "ends_ok B d' base' bs p q" "base' + length bs + k \<le> length (M_map d')"
    "map_growth (length (M_map d)) (length bs) k (length (M_map d'))"
  using reserve_ok [OF assms, of False k] by (simp add: map_room_def) blast

lemma reserve_front_ok:
  assumes "nodes_ok B d base bs flat" "ends_ok B d base bs p q"
  obtains d' base' where "reserve_map_at_front k d = Inr d'"
    "nodes_ok B d' base' bs flat" "ends_ok B d' base' bs p q" "k \<le> base'"
    "map_growth (length (M_map d)) (length bs) k (length (M_map d'))"
  using reserve_ok [OF assms, of True k] by (simp add: map_room_def) blast

section \<open>Buffers come and go\<close>

lemma new_buffer_back:
  assumes "nodes_ok B d base bs flat" "base + length bs < length (M_map d)" "allocate B d = (b, d')"
  obtains m where "map_write (int (base + length bs)) b d' = Inr (d'\<lparr>M_map := m\<rparr>)" "length m = length (M_map d)"
    "nodes_ok B (d'\<lparr>M_map := m\<rparr>) base (bs @ [b]) (flat @ replicate B None)"
    "M_start d' = M_start d" "M_finish d' = M_finish d"
proof -
  have d': "b = fresh d" "d' = d\<lparr>buffers := (buffers d)(b \<mapsto> replicate B None), fresh := Suc b\<rparr>"
    using assms(3) by (auto simp: allocate_def)
  let ?m = "(M_map d)[base + length bs := Some b]"
  have B: "0 < B" and len: "length flat = B * length bs" and d: "distinct bs" "dom (buffers d) = set bs"
    and fr: "\<forall>b\<in>set bs. b < fresh d" and bf: "\<forall>i<length bs. buffers d (bs ! i) = Some (chunk B flat i)"
    and mp: "\<forall>i<length bs. M_map d ! (base + i) = Some (bs ! i)"
    using assms(1) by (simp_all add: nodes_ok_def buffers_ok_def map_ok_def)
  have new: "b \<notin> set bs" using fr d'(1) by blast
  have ch: "chunk B (flat @ replicate B None) i = chunk B flat i" if "i < length bs" for i
    using that unfolding len by (intro chunk_append1) (metis Suc_leI len mult.commute mult_le_mono1)
  have "buffers d' ((bs @ [b]) ! i) = Some (chunk B (flat @ replicate B None) i)" if "i < length (bs @ [b])" for i
    using that bf new ch [of i] len by (auto simp: d'(2) nth_append less_Suc_eq chunk_append2)
  moreover have "dom (buffers d') = set (bs @ [b])" using d by (simp add: d'(2))
  moreover have "\<forall>c\<in>set (bs @ [b]). c < fresh d'" using fr d'(1) by (auto simp: d'(2) less_Suc_eq)
  ultimately have "buffers_ok B d' (bs @ [b]) (flat @ replicate B None)"
    using B d new len unfolding buffers_ok_def by (simp add: algebra_simps)
  moreover have "map_ok (d'\<lparr>M_map := ?m\<rparr>) base (bs @ [b])"
    using mp assms(2) by (auto simp: map_ok_def nth_append less_Suc_eq d'(2))
  ultimately have "nodes_ok B (d'\<lparr>M_map := ?m\<rparr>) base (bs @ [b]) (flat @ replicate B None)"
    by (simp add: nodes_ok_def)
  moreover have "map_write (int (base + length bs)) b d' = Inr (d'\<lparr>M_map := ?m\<rparr>)"
    using assms(2) by (simp add: map_write_def d'(2) nat_add_distrib)
  ultimately show ?thesis using that [of ?m] by (simp add: d'(2))
qed

lemma new_buffer_front:
  assumes "nodes_ok B d (Suc base) bs flat" "allocate B d = (b, d')"
  obtains m where "map_write (int base) b d' = Inr (d'\<lparr>M_map := m\<rparr>)" "length m = length (M_map d)"
    "nodes_ok B (d'\<lparr>M_map := m\<rparr>) base (b # bs) (replicate B None @ flat)"
    "M_start d' = M_start d" "M_finish d' = M_finish d"
proof -
  have d': "b = fresh d" "d' = d\<lparr>buffers := (buffers d)(b \<mapsto> replicate B None), fresh := Suc b\<rparr>"
    using assms(2) by (auto simp: allocate_def)
  let ?m = "(M_map d)[base := Some b]"
  have B: "0 < B" and len: "length flat = B * length bs" and d: "distinct bs" "dom (buffers d) = set bs"
    and fr: "\<forall>b\<in>set bs. b < fresh d" and bf: "\<forall>i<length bs. buffers d (bs ! i) = Some (chunk B flat i)"
    and mp: "\<forall>i<length bs. M_map d ! (Suc base + i) = Some (bs ! i)"
    and le: "Suc base + length bs \<le> length (M_map d)"
    using assms(1) by (simp_all add: nodes_ok_def buffers_ok_def map_ok_def)
  have new: "b \<notin> set bs" using fr d'(1) by blast
  have "buffers d' ((b # bs) ! i) = Some (chunk B (replicate B None @ flat) i)" if "i < length (b # bs)" for i
    using that bf new by (cases i) (auto simp: d'(2) chunk_prepend0 chunk_prepend)
  moreover have "dom (buffers d') = set (b # bs)" using d by (simp add: d'(2))
  moreover have "\<forall>c\<in>set (b # bs). c < fresh d'" using fr d'(1) by (auto simp: d'(2) less_Suc_eq)
  ultimately have "buffers_ok B d' (b # bs) (replicate B None @ flat)"
    using B d new len unfolding buffers_ok_def by (simp add: algebra_simps)
  moreover have "map_ok (d'\<lparr>M_map := ?m\<rparr>) base (b # bs)"
    using mp le by (auto simp: map_ok_def nth_Cons' d'(2) gr0_conv_Suc)
  ultimately have "nodes_ok B (d'\<lparr>M_map := ?m\<rparr>) base (b # bs) (replicate B None @ flat)"
    by (simp add: nodes_ok_def)
  moreover have "map_write (int base) b d' = Inr (d'\<lparr>M_map := ?m\<rparr>)"
    using le by (simp add: map_write_def d'(2))
  ultimately show ?thesis using that [of ?m] by (simp add: d'(2))
qed

lemma free_buffer_back:
  assumes "nodes_ok B d base (bs @ [b]) flat"
  obtains m where "deallocate b d = Inr (d\<lparr>buffers := m\<rparr>)"
    "nodes_ok B (d\<lparr>buffers := m\<rparr>) base bs (take (B * length bs) flat)"
proof -
  let ?m = "(buffers d)(b := None)"
  have B: "0 < B" and len: "length flat = B * Suc (length bs)" and d: "distinct (bs @ [b])" "dom (buffers d) = set (bs @ [b])"
    and fr: "\<forall>b\<in>set (bs @ [b]). b < fresh d"
    and bf: "\<forall>i<Suc (length bs). buffers d ((bs @ [b]) ! i) = Some (chunk B flat i)"
    and mp: "\<forall>i<Suc (length bs). M_map d ! (base + i) = Some ((bs @ [b]) ! i)" "base + Suc (length bs) \<le> length (M_map d)"
    using assms by (simp_all add: nodes_ok_def buffers_ok_def map_ok_def)
  have "buffers d b \<noteq> None" using bf by (metis lessI nth_append_length option.distinct(1))
  moreover have "?m (bs ! i) = Some (chunk B (take (B * length bs) flat) i)" if "i < length bs" for i
  proof -
    have "bs ! i \<noteq> b" using d(1) that by auto
    moreover have "chunk B (take (B * length bs) flat) i = chunk B flat i"
      using that by (intro chunk_butlast) (metis Suc_leI mult.commute mult_le_mono1)
    moreover have "buffers d (bs ! i) = Some (chunk B flat i)" using bf that by (metis less_SucI nth_append)
    ultimately show ?thesis by simp
  qed
  moreover have "M_map d ! (base + i) = Some (bs ! i)" if "i < length bs" for i
    using mp(1) that by (metis less_SucI nth_append)
  moreover have "dom ?m = set bs" using d by auto
  ultimately show ?thesis
    using that [of ?m] B len d(1) fr mp(2) by (simp add: deallocate_def nodes_ok_def buffers_ok_def map_ok_def)
qed

lemma free_buffer_front:
  assumes "nodes_ok B d base (b # bs) flat"
  obtains m where "deallocate b d = Inr (d\<lparr>buffers := m\<rparr>)"
    "nodes_ok B (d\<lparr>buffers := m\<rparr>) (Suc base) bs (drop B flat)"
proof -
  let ?m = "(buffers d)(b := None)"
  have B: "0 < B" and len: "length flat = B * Suc (length bs)" and d: "distinct (b # bs)" "dom (buffers d) = set (b # bs)"
    and fr: "\<forall>b\<in>set (b # bs). b < fresh d"
    and bf: "\<And>i. i < Suc (length bs) \<Longrightarrow> buffers d ((b # bs) ! i) = Some (chunk B flat i)"
    and mp: "\<And>i. i < Suc (length bs) \<Longrightarrow> M_map d ! (base + i) = Some ((b # bs) ! i)" "base + Suc (length bs) \<le> length (M_map d)"
    using assms by (simp_all add: nodes_ok_def buffers_ok_def map_ok_def)
  have "buffers d b \<noteq> None" using bf [of 0] by simp
  moreover have "?m (bs ! i) = Some (chunk B (drop B flat) i)" if "i < length bs" for i
    using bf [of "Suc i"] that d(1) by (auto simp: chunk_tl)
  moreover have "M_map d ! (Suc base + i) = Some (bs ! i)" if "i < length bs" for i
    using mp(1) [of "Suc i"] that by simp
  moreover have "dom ?m = set bs" using d by auto
  ultimately show ?thesis
    using that [of ?m] B len d(1) fr mp(2) by (simp add: deallocate_def nodes_ok_def buffers_ok_def map_ok_def)
qed

section \<open>The deque and its elements\<close>

definition deque_at :: "nat \<Rightarrow> 'a deque_state \<Rightarrow> nat \<Rightarrow> block list \<Rightarrow> 'a option list \<Rightarrow> nat \<Rightarrow> 'a list \<Rightarrow> bool" where
  "deque_at B d base bs flat p xs \<longleftrightarrow>
     nodes_ok B d base bs flat \<and> ends_ok B d base bs p (p + length xs) \<and>
     (\<forall>i<length xs. flat ! (p + i) = Some (xs ! i))"

definition deque_ok :: "nat \<Rightarrow> 'a deque_state \<Rightarrow> 'a list \<Rightarrow> bool" where
  "deque_ok B d xs \<longleftrightarrow> (\<exists>base bs flat p. deque_at B d base bs flat p xs)"

lemma deque_atD:
  assumes "deque_at B d base bs flat p xs"
  shows "nodes_ok B d base bs flat" "ends_ok B d base bs p (p + length xs)" "0 < B" "p < B"
    "M_start d = it_at B base bs p" "M_finish d = it_at B base bs (p + length xs)"
    "length bs = (p + length xs) div B + 1" "length flat = B * length bs" "p + length xs < length flat"
    "\<And>i. i < length xs \<Longrightarrow> flat ! (p + i) = Some (xs ! i)"
proof -
  show n: "nodes_ok B d base bs flat" and e: "ends_ok B d base bs p (p + length xs)"
    and "\<And>i. i < length xs \<Longrightarrow> flat ! (p + i) = Some (xs ! i)"
    using assms by (simp_all add: deque_at_def)
  show B: "0 < B" "length flat = B * length bs" using n nodes_ok_B nodes_ok_length by blast+
  show "p < B" "M_start d = it_at B base bs p" "M_finish d = it_at B base bs (p + length xs)"
    and l: "length bs = (p + length xs) div B + 1"
    using e by (simp_all add: ends_ok_def)
  show "p + length xs < length flat"
    unfolding B(2) l using B(1) by (metis dividend_less_times_div mult.commute add.commute mult_Suc plus_1_eq_Suc)
qed

lemma deque_okI: "deque_at B d base bs flat p xs \<Longrightarrow> deque_ok B d xs"
  by (auto simp: deque_ok_def)

lemma deque_blocks:
  assumes "deque_at B d base bs flat p xs"
  shows "length bs \<le> length xs div B + 2"
proof -
  note D = deque_atD [OF assms]
  have "(p + length xs) div B \<le> (B + length xs) div B" using D(4) by (intro div_le_mono) simp
  with D(3,7) show ?thesis by (simp add: div_add_self1)
qed

lemma it_at_append: "p div B < length bs \<Longrightarrow> it_at B base (bs @ cs) p = it_at B base bs p"
  by (simp add: it_at_def nth_append)

lemma it_at_Cons: "0 < B \<Longrightarrow> it_at B base (b # bs) (B + p) = it_at B (Suc base) bs p"
  by (simp add: it_at_def div_add_self1)

lemma it_at_small: "p < B \<Longrightarrow> it_at B base bs p = \<lparr>M_cur = p, M_first = bs ! 0, M_node = base\<rparr>"
  by (simp add: it_at_def)

lemma cell_write_elem:
  assumes "nodes_ok B d base bs flat" "p < length flat" "it = it_at B base bs p"
  obtains m where "cell_write (M_first it) (M_cur it) v d = Inr (d\<lparr>buffers := m\<rparr>)"
    "nodes_ok B (d\<lparr>buffers := m\<rparr>) base bs (flat[p := v])"
  using cell_write_at [OF assms(1,2), of v] assms(3) by auto

lemma cell_read_elem:
  assumes "nodes_ok B d base bs flat" "p < length flat" "it = it_at B base bs p"
  shows "cell_read (M_first it) (M_cur it) d = (case flat ! p of None \<Rightarrow> Inl IndeterminateValue | Some x \<Rightarrow> Inr x)"
  using cell_read_at [OF assms(1,2)] assms(3) by simp

lemma deque_at_upd:
  assumes "deque_at B d base bs flat p xs" "nodes_ok B d' base bs flat'" "M_start d' = M_start d" "M_finish d' = M_finish d"
    "length ys = length xs" "\<And>i. i < length xs \<Longrightarrow> flat' ! (p + i) = Some (ys ! i)"
  shows "deque_at B d' base bs flat' p ys"
  using assms by (simp add: deque_at_def ends_ok_def)

lemma deref_ok:
  assumes "deque_at B d base bs flat p xs" "i < length xs"
  shows "deref_iter (it_at B base bs (p + i)) d = Inr (xs ! i)"
proof -
  note D = deque_atD [OF assms(1)]
  have "p + i < length flat" using D(9) assms(2) by simp
  then show ?thesis using cell_read_elem [OF D(1) _ refl, of "p + i"] D(10) [OF assms(2)]
    by (simp add: deref_iter_def)
qed

lemma assign_ok:
  assumes "deque_at B d base bs flat p xs" "i < length xs"
  obtains m where "assign_at (M_first (it_at B base bs (p + i))) (M_cur (it_at B base bs (p + i))) x d = Inr (d\<lparr>buffers := m\<rparr>)"
    "deque_at B (d\<lparr>buffers := m\<rparr>) base bs (flat[p + i := Some x]) p (xs[i := x])"
proof -
  note D = deque_atD [OF assms(1)]
  have lt: "p + i < length flat" using D(9) assms(2) by simp
  obtain m where w: "cell_write (M_first (it_at B base bs (p + i))) (M_cur (it_at B base bs (p + i))) (Some x) d = Inr (d\<lparr>buffers := m\<rparr>)"
    and n: "nodes_ok B (d\<lparr>buffers := m\<rparr>) base bs (flat[p + i := Some x])"
    using cell_write_elem [OF D(1) lt refl] by blast
  have "assign_at (M_first (it_at B base bs (p + i))) (M_cur (it_at B base bs (p + i))) x d = Inr (d\<lparr>buffers := m\<rparr>)"
    using w cell_read_elem [OF D(1) lt refl] D(10) [OF assms(2)] by (simp add: assign_at_def)
  moreover have "deque_at B (d\<lparr>buffers := m\<rparr>) base bs (flat[p + i := Some x]) p (xs[i := x])"
    using n D(10) lt assms(2) by (intro deque_at_upd [OF assms(1)]) (auto simp: nth_list_update)
  ultimately show ?thesis using that by blast
qed

lemma destroy_elem:
  assumes "nodes_ok B d base bs flat" "p < length flat" "it = it_at B base bs p" "flat ! p = Some x"
  obtains m where "destroy_at (M_first it) (M_cur it) d = Inr (d\<lparr>buffers := m\<rparr>)"
    "nodes_ok B (d\<lparr>buffers := m\<rparr>) base bs (flat[p := None])"
  using cell_write_elem [OF assms(1-3), of None] cell_read_elem [OF assms(1-3)] assms(4)
  by (auto simp: destroy_at_def)

section \<open>Adding at the ends\<close>

lemma push_back_ok:
  assumes "deque_at B d base bs flat p xs"
  obtains d' where "dq_push_back B x d = Inr d'" "deque_ok B d' (xs @ [x])"
    "map_growth (length (M_map d)) (length bs) 1 (length (M_map d'))"
proof -
  note D = deque_atD [OF assms]
  let ?q = "p + length xs"
  show ?thesis
  proof (cases "?q mod B = B - 1")
    case False
    then have e: "Suc ?q div B = ?q div B" "Suc ?q mod B = Suc (?q mod B)"
      using D(3) by (auto simp: div_Suc mod_Suc)
    obtain m where w: "cell_write (M_first (M_finish d)) (M_cur (M_finish d)) (Some x) d = Inr (d\<lparr>buffers := m\<rparr>)"
      and n: "nodes_ok B (d\<lparr>buffers := m\<rparr>) base bs (flat[?q := Some x])"
      using cell_write_elem [OF D(1,9,6)] by blast
    let ?d = "d\<lparr>buffers := m, M_finish := it_at B base bs (Suc ?q)\<rparr>"
    have "dq_push_back B x d = Inr ?d"
      using w False D(6) e by (simp add: dq_push_back_def construct_at_def it_at_def)
    moreover have "deque_at B ?d base bs (flat[?q := Some x]) p (xs @ [x])"
      using n D(2,10,9) e by (auto simp: deque_at_def ends_ok_def nth_append less_Suc_eq nth_list_update)
    ultimately show ?thesis using that by (simp add: deque_okI map_growth_def)
  next
    case True
    then have e: "Suc ?q div B = length bs" "Suc ?q mod B = 0"
      using D(3,7) by (simp_all add: div_Suc mod_Suc)
    obtain d1 base1 where r: "reserve_map_at_back 1 d = Inr d1" "nodes_ok B d1 base1 bs flat"
        "ends_ok B d1 base1 bs p ?q" "base1 + length bs + 1 \<le> length (M_map d1)"
        "map_growth (length (M_map d)) (length bs) 1 (length (M_map d1))"
      using reserve_back_ok [OF D(1,2)] by blast
    obtain b d2 where al: "allocate B d1 = (b, d2)" by (metis surj_pair)
    have room: "base1 + length bs < length (M_map d1)" using r(4) by simp
    obtain m where w: "map_write (int (base1 + length bs)) b d2 = Inr (d2\<lparr>M_map := m\<rparr>)" and lm: "length m = length (M_map d1)"
      and n: "nodes_ok B (d2\<lparr>M_map := m\<rparr>) base1 (bs @ [b]) (flat @ replicate B None)"
      and ends: "M_start d2 = M_start d1" "M_finish d2 = M_finish d1"
      using new_buffer_back [OF r(2) room al] by blast
    have qd: "?q div B < length bs" "p div B < length bs" using D(4,7) by simp_all
    have f: "M_finish d2 = it_at B base1 (bs @ [b]) ?q" "M_start d2 = it_at B base1 (bs @ [b]) p"
      using r(3) ends qd by (simp_all add: ends_ok_def it_at_append)
    have lt: "?q < length (flat @ replicate B None)" using D(9) by simp
    obtain m' where c: "cell_write (M_first (M_finish d2)) (M_cur (M_finish d2)) (Some x) (d2\<lparr>M_map := m\<rparr>) = Inr (d2\<lparr>M_map := m, buffers := m'\<rparr>)"
      and n': "nodes_ok B (d2\<lparr>M_map := m, buffers := m'\<rparr>) base1 (bs @ [b]) ((flat @ replicate B None)[?q := Some x])"
      using cell_write_elem [OF n lt f(1)] by blast
    let ?d = "d2\<lparr>M_map := m, buffers := m', M_finish := it_at B base1 (bs @ [b]) (Suc ?q)\<rparr>"
    have node: "int (M_node (M_finish d2)) + 1 = int (base1 + length bs)" using f(1) D(7) by simp
    have fin: "(M_finish d2)\<lparr>M_node := base1 + length bs, M_first := b, M_cur := 0\<rparr> = it_at B base1 (bs @ [b]) (Suc ?q)"
      using e by (simp add: it_at_def)
    have "set_node (int (base1 + length bs)) it (d2\<lparr>M_map := m, buffers := m'\<rparr>) =
        Inr (it\<lparr>M_node := base1 + length bs, M_first := b\<rparr>)" for it
      using set_node_ok [of "d2\<lparr>M_map := m, buffers := m'\<rparr>" base1 "bs @ [b]" "length bs" _ it] n'
      by (simp add: nodes_ok_def)
    then have "push_back_aux_v B x d = Inr ?d"
      using r(1) al w c fin by (simp add: push_back_aux_v_def construct_at_def node del: of_nat_add)
    then have "dq_push_back B x d = Inr ?d" using True D(6) by (simp add: dq_push_back_def)
    moreover have "deque_at B ?d base1 (bs @ [b]) ((flat @ replicate B None)[?q := Some x]) p (xs @ [x])"
      using n' D(4,9,10) e f(2)
      by (auto simp: deque_at_def ends_ok_def nth_append less_Suc_eq nth_list_update)
    ultimately show ?thesis using that r(5) lm by (simp add: deque_okI)
  qed
qed

lemma push_front_ok:
  assumes "deque_at B d base bs flat p xs"
  obtains d' where "dq_push_front B x d = Inr d'" "deque_ok B d' (x # xs)"
    "map_growth (length (M_map d)) (length bs) 1 (length (M_map d'))"
proof -
  note D = deque_atD [OF assms]
  let ?q = "p + length xs"
  show ?thesis
  proof (cases p)
    case (Suc p')
    have lt: "p' < length flat" "p' < B" using D(4,9) Suc by simp_all
    have s: "it_at B base bs p' = (M_start d)\<lparr>M_cur := p'\<rparr>"
      using D(4,5) lt Suc by (simp add: it_at_def)
    obtain m where w: "cell_write (M_first (it_at B base bs p')) (M_cur (it_at B base bs p')) (Some x) d = Inr (d\<lparr>buffers := m\<rparr>)"
      and n: "nodes_ok B (d\<lparr>buffers := m\<rparr>) base bs (flat[p' := Some x])"
      using cell_write_elem [OF D(1) lt(1) refl] by blast
    let ?d = "d\<lparr>buffers := m, M_start := it_at B base bs p'\<rparr>"
    have "dq_push_front B x d = Inr ?d"
      using w D(4,5) Suc lt unfolding s by (simp add: dq_push_front_def construct_at_def it_at_def)
    moreover have "deque_at B ?d base bs (flat[p' := Some x]) p' (x # xs)"
      using n D(2,9) lt D(10) by (auto simp: deque_at_def ends_ok_def Suc nth_Cons' nth_list_update gr0_conv_Suc)
    ultimately show ?thesis using that by (simp add: deque_okI map_growth_def)
  next
    case 0
    obtain d1 base1 where r: "reserve_map_at_front 1 d = Inr d1" "nodes_ok B d1 base1 bs flat"
        "ends_ok B d1 base1 bs p ?q" "1 \<le> base1"
        "map_growth (length (M_map d)) (length bs) 1 (length (M_map d1))"
      using reserve_front_ok [OF D(1,2)] by blast
    then obtain b0 where b0: "base1 = Suc b0" by (cases base1) simp_all
    obtain b d2 where al: "allocate B d1 = (b, d2)" by (metis surj_pair)
    obtain m where w: "map_write (int b0) b d2 = Inr (d2\<lparr>M_map := m\<rparr>)" and lm: "length m = length (M_map d1)"
      and n: "nodes_ok B (d2\<lparr>M_map := m\<rparr>) b0 (b # bs) (replicate B None @ flat)"
      and ends: "M_start d2 = M_start d1" "M_finish d2 = M_finish d1"
      using new_buffer_front [OF r(2) [unfolded b0] al] by blast
    let ?s = "it_at B b0 (b # bs) (B - 1)"
    have set: "set_node (int b0) it (d2\<lparr>M_map := m\<rparr>) = Inr (it\<lparr>M_node := b0, M_first := b\<rparr>)" for it
      using set_node_ok [of "d2\<lparr>M_map := m\<rparr>" b0 "b # bs" 0 _ it] n by (simp add: nodes_ok_def)
    let ?d = "d2\<lparr>M_map := m, M_start := ?s\<rparr>"
    have n1: "nodes_ok B ?d b0 (b # bs) (replicate B None @ flat)" using n by simp
    have lt: "B - 1 < length (replicate B None @ flat)" using D(3) by simp
    obtain m' where c: "cell_write (M_first ?s) (M_cur ?s) (Some x) ?d = Inr (?d\<lparr>buffers := m'\<rparr>)"
      and n': "nodes_ok B (?d\<lparr>buffers := m'\<rparr>) b0 (b # bs) ((replicate B None @ flat)[B - 1 := Some x])"
      using cell_write_elem [OF n1 lt refl] by blast
    have f: "M_finish d2 = it_at B b0 (b # bs) (B + ?q)" "M_node (M_start d2) = base1"
      using r(3) ends D(3,4) b0 by (simp_all add: ends_ok_def it_at_Cons)
    have "B - Suc 0 < B" using D(3) by simp
    have start: "(M_start d2)\<lparr>M_node := b0, M_first := b, M_cur := B - Suc 0\<rparr> =
        \<lparr>M_cur = B - Suc 0, M_first = b, M_node = b0\<rparr>" by simp
    from \<open>B - Suc 0 < B\<close> have "push_front_aux_v B x d = Inr (?d\<lparr>buffers := m'\<rparr>)"
      using r(1) al w c set b0 f(2) by (simp add: push_front_aux_v_def construct_at_def it_at_small start)
    then have "dq_push_front B x d = Inr (?d\<lparr>buffers := m'\<rparr>)" using 0 D(5) by (simp add: dq_push_front_def)
    moreover have "deque_at B (?d\<lparr>buffers := m'\<rparr>) b0 (b # bs) ((replicate B None @ flat)[B - 1 := Some x]) (B - 1) (x # xs)"
    proof -
      have q: "B - 1 + length (x # xs) = B + ?q" using D(3) 0 by simp
      have "((replicate B None @ flat)[B - 1 := Some x]) ! (B - 1 + i) = Some ((x # xs) ! i)" if "i < length (x # xs)" for i
        using that D(3,10) 0 by (cases i) (auto simp: nth_list_update nth_append)
      with n' f(1) D(3,7) show ?thesis unfolding deque_at_def q by (simp add: ends_ok_def div_add_self1)
    qed
    ultimately show ?thesis using that r(5) lm by (simp add: deque_okI)
  qed
qed

section \<open>Removing at the ends\<close>

lemma pop_back_ok:
  assumes "deque_at B d base bs flat p (xs @ [y])"
  obtains d' where "dq_pop_back B d = Inr d'" "deque_ok B d' xs" "length (M_map d') = length (M_map d)"
proof -
  note D = deque_atD [OF assms]
  let ?q = "p + length xs"
  have q: "p + length (xs @ [y]) = Suc ?q" by simp
  have lt: "?q < length flat" and y: "flat ! ?q = Some y" using D(9) D(10) [of "length xs"] by simp_all
  show ?thesis
  proof (cases "Suc ?q mod B = 0")
    case False
    then have e: "Suc ?q div B = ?q div B" "Suc ?q mod B = Suc (?q mod B)"
      by (auto simp: div_Suc mod_Suc)
    let ?d = "d\<lparr>M_finish := it_at B base bs ?q\<rparr>"
    have n: "nodes_ok B ?d base bs flat" using D(1) by simp
    obtain m where c: "destroy_at (M_first (it_at B base bs ?q)) (M_cur (it_at B base bs ?q)) ?d = Inr (?d\<lparr>buffers := m\<rparr>)"
      and n': "nodes_ok B (?d\<lparr>buffers := m\<rparr>) base bs (flat[?q := None])"
      using destroy_elem [OF n lt refl y] by blast
    have "dq_pop_back B d = Inr (?d\<lparr>buffers := m\<rparr>)"
      using c D(6) e unfolding q by (simp add: dq_pop_back_def it_at_def)
    moreover have "deque_at B (?d\<lparr>buffers := m\<rparr>) base bs (flat[?q := None]) p xs"
      using n' D(4,5,7) e D(10) unfolding q by (auto simp: deque_at_def ends_ok_def nth_append nth_list_update)
    ultimately show ?thesis using that by (simp add: deque_okI)
  next
    case True
    then have e: "Suc ?q div B = Suc (?q div B)" "?q mod B = B - 1" by (simp_all add: div_Suc mod_Suc split: if_splits)
    then have "length bs = Suc (?q div B + 1)" using D(7) unfolding q by simp
    then obtain cs b where bs: "bs = cs @ [b]" "length cs = ?q div B + 1"
      by (metis length_Suc_conv_rev)
    obtain m where f: "deallocate b d = Inr (d\<lparr>buffers := m\<rparr>)"
      and n: "nodes_ok B (d\<lparr>buffers := m\<rparr>) base cs (take (B * length cs) flat)"
      using free_buffer_back [OF D(1) [unfolded bs(1)]] by blast
    have fin: "M_finish d = it_at B base bs (Suc ?q)" "M_first (M_finish d) = b" "M_node (M_finish d) = base + ?q div B + 1"
      using D(6) bs e unfolding q by (simp_all add: it_at_def nth_append)
    have set: "set_node (int (M_node (M_finish d)) - 1) it (d\<lparr>buffers := m\<rparr>) =
        Inr (it\<lparr>M_node := base + ?q div B, M_first := cs ! (?q div B)\<rparr>)" for it
      using set_node_ok [of "d\<lparr>buffers := m\<rparr>" base cs "?q div B" _ it] n bs(2) fin(3) by (simp add: nodes_ok_def)
    have pos: "(M_finish d)\<lparr>M_node := base + ?q div B, M_first := cs ! (?q div B), M_cur := B - 1\<rparr> = it_at B base cs ?q"
      using e(2) by (simp add: it_at_def)
    let ?d = "d\<lparr>buffers := m, M_finish := it_at B base cs ?q\<rparr>"
    have n1: "nodes_ok B ?d base cs (take (B * length cs) flat)" using n by simp
    have lt': "?q < B * length cs" unfolding bs(2) using D(3)
      by (metis add.commute dividend_less_times_div mult_Suc_right plus_1_eq_Suc)
    then have lt2: "?q < length (take (B * length cs) flat)" and y2: "take (B * length cs) flat ! ?q = Some y"
      using lt y by simp_all
    obtain m' where c: "destroy_at (M_first (it_at B base cs ?q)) (M_cur (it_at B base cs ?q)) ?d = Inr (?d\<lparr>buffers := m'\<rparr>)"
      and n': "nodes_ok B (?d\<lparr>buffers := m'\<rparr>) base cs ((take (B * length cs) flat)[?q := None])"
      using destroy_elem [OF n1 lt2 refl y2] by blast
    have "pop_back_aux B d = Inr ?d"
      using f fin(2) set pos by (simp add: pop_back_aux_def del: it_at_simps)
    then have "dq_pop_back B d = Inr (?d\<lparr>buffers := m'\<rparr>)"
      using c True fin(1) by (simp add: dq_pop_back_def)
    moreover have "deque_at B (?d\<lparr>buffers := m'\<rparr>) base cs ((take (B * length cs) flat)[?q := None]) p xs"
      using n' D(4,5,10) lt' bs by (auto simp: deque_at_def ends_ok_def nth_append nth_list_update it_at_small)
    ultimately show ?thesis using that by (simp add: deque_okI)
  qed
qed

lemma pop_front_ok:
  assumes "deque_at B d base bs flat p (y # xs)"
  obtains d' where "dq_pop_front B d = Inr d'" "deque_ok B d' xs" "length (M_map d') = length (M_map d)"
proof -
  note D = deque_atD [OF assms]
  have q: "p + length (y # xs) = Suc p + length xs" by simp
  have lt: "p < length flat" and y: "flat ! p = Some y" using D(9) D(10) [of 0] by simp_all
  have xs: "flat ! (Suc p + i) = Some (xs ! i)" if "i < length xs" for i using D(10) [of "Suc i"] that by simp
  obtain m where c: "destroy_at (M_first (M_start d)) (M_cur (M_start d)) d = Inr (d\<lparr>buffers := m\<rparr>)"
    and n: "nodes_ok B (d\<lparr>buffers := m\<rparr>) base bs (flat[p := None])"
    using destroy_elem [OF D(1) lt D(5) y] by blast
  show ?thesis
  proof (cases "p = B - 1")
    case False
    then have p: "Suc p < B" using D(4) by simp
    let ?d = "d\<lparr>buffers := m, M_start := it_at B base bs (Suc p)\<rparr>"
    have "dq_pop_front B d = Inr ?d"
      using c False D(4,5) p by (simp add: dq_pop_front_def pop_front_aux_def it_at_small)
    moreover have "deque_at B ?d base bs (flat[p := None]) (Suc p) xs"
      using n D(6,7) xs p unfolding q by (auto simp: deque_at_def ends_ok_def nth_list_update)
    ultimately show ?thesis using that by (simp add: deque_okI)
  next
    case True
    then have p: "Suc p = B" using D(3) by simp
    then have e: "(Suc p + length xs) div B = Suc (length xs div B)" using D(3) by (simp add: div_add_self1)
    then obtain b cs where bs: "bs = b # cs" "length cs = length xs div B + 1"
      using D(7) unfolding q by (cases bs) simp_all
    obtain m' where f: "deallocate b (d\<lparr>buffers := m\<rparr>) = Inr (d\<lparr>buffers := m'\<rparr>)"
      and n': "nodes_ok B (d\<lparr>buffers := m'\<rparr>) (Suc base) cs (drop B (flat[p := None]))"
      using free_buffer_front [OF n [unfolded bs(1)]] by auto
    have s: "M_start d = \<lparr>M_cur = p, M_first = b, M_node = base\<rparr>"
      using D(4,5) bs(1) by (simp add: it_at_small)
    have set: "set_node (int base + 1) it (d\<lparr>buffers := m'\<rparr>) =
        Inr (it\<lparr>M_node := Suc base, M_first := cs ! 0\<rparr>)" for it
      using set_node_ok [of "d\<lparr>buffers := m'\<rparr>" "Suc base" cs 0 "int base + 1" it] n' bs(2) by (simp add: nodes_ok_def add.commute)
    let ?d = "d\<lparr>buffers := m', M_start := it_at B (Suc base) cs 0\<rparr>"
    have "dq_pop_front B d = Inr ?d"
      using c True f s set D(3) by (simp add: dq_pop_front_def pop_front_aux_def it_at_small)
    moreover have "M_finish d = it_at B (Suc base) cs (length xs)"
      using D(3,6) unfolding q p bs(1) by (simp add: it_at_Cons)
    moreover have "drop B (flat[p := None]) ! i = Some (xs ! i)" if "i < length xs" for i
      using xs [OF that] D(9) that p by (simp add: q)
    ultimately have r: "dq_pop_front B d = Inr ?d" "deque_at B ?d (Suc base) cs (drop B (flat[p := None])) 0 xs"
      using n' D(3) bs(2) by (simp_all add: deque_at_def ends_ok_def)
    show ?thesis using that [OF r(1) deque_okI [OF r(2)]] by simp
  qed
qed

section \<open>Reading\<close>

lemma dq_size_ok: "deque_ok B d xs \<Longrightarrow> dq_size B d = length xs"
  by (auto simp: deque_ok_def dq_size_def deque_atD)

lemma dq_empty_ok:
  assumes "deque_ok B d xs"
  shows "dq_empty d \<longleftrightarrow> xs = []"
proof -
  obtain base bs flat p where d: "deque_at B d base bs flat p xs" using assms by (auto simp: deque_ok_def)
  note D = deque_atD [OF d]
  have "p < length flat" using D(9) by simp
  then show ?thesis using same_cur_it [OF D(1) D(9)] D(5,6) by (simp add: dq_empty_def)
qed

lemma dq_front_ok: "deque_ok B d (x # xs) \<Longrightarrow> dq_front d = Inr x"
  using deref_ok [where i = 0 and xs = "x # xs"] by (fastforce simp: deque_ok_def dq_front_def deque_atD)

lemma dq_back_ok:
  assumes "deque_ok B d (xs @ [x])"
  shows "dq_back B d = Inr x"
proof -
  obtain base bs flat p where d: "deque_at B d base bs flat p (xs @ [x])" using assms by (auto simp: deque_ok_def)
  note D = deque_atD [OF d]
  have "decrement B (M_finish d) d = Inr (it_at B base bs (p + length xs))"
    using decrement_it [OF D(1), of "p + length xs"] D(6,9) by simp
  with deref_ok [OF d, of "length xs"] show ?thesis by (simp add: dq_back_def)
qed

lemma dq_nth_ok:
  assumes "deque_ok B d xs" "n < length xs"
  shows "dq_nth B n d = Inr (xs ! n)"
proof -
  obtain base bs flat p where d: "deque_at B d base bs flat p xs" using assms by (auto simp: deque_ok_def)
  note D = deque_atD [OF d]
  have "advance_by B (int n) (M_start d) d = Inr (it_at B base bs (p + n))"
    unfolding D(5) using D(9) assms(2) by (intro advance_it [OF D(1)]) simp_all
  with deref_ok [OF d assms(2)] show ?thesis by (simp add: dq_nth_def)
qed

lemma dq_at_ok: "deque_ok B d xs \<Longrightarrow> dq_at B n d = (if n < length xs then Inr (xs ! n) else Inl IndexOutOfRange)"
  by (simp add: dq_at_def dq_size_ok dq_nth_ok)

end
