(* ===== verification/Stl_Deque_Moves.thy ===== *)
theory Stl_Deque_Moves
  imports Stl_Deque_Facts
begin

text \<open>
  Operations of the deque that move elements or give up several buffers: erasing an element, clearing,
  construction and destruction. Copying between iterators is copying in the list of the elements.
\<close>

section \<open>Copying\<close>

lemma copy_loop_ok:
  assumes "deque_at B d base bs flat p xs" "i + n \<le> length xs" "j + n \<le> length xs"
  shows "\<exists>m flat'. copy_with assign_at B n (it_at B base bs (p + i)) (it_at B base bs (p + j)) d =
      Inr (it_at B base bs (p + j + n), d\<lparr>buffers := m\<rparr>) \<and>
    deque_at B (d\<lparr>buffers := m\<rparr>) base bs flat' p (snd (copy_random n i j xs))"
  using assms
proof (induction n arbitrary: i j d flat xs)
  case 0
  have "d = d\<lparr>buffers := buffers d\<rparr>" by simp
  with 0 show ?case by (metis add_0_right copy_random.simps(1) copy_with.simps(1) snd_conv)
next
  case (Suc n)
  note D = deque_atD [OF Suc.prems(1)]
  have i: "i < length xs" and j: "j < length xs" using Suc.prems by simp_all
  obtain m where a: "assign_at (M_first (it_at B base bs (p + j))) (M_cur (it_at B base bs (p + j))) (xs ! i) d = Inr (d\<lparr>buffers := m\<rparr>)"
    and d: "deque_at B (d\<lparr>buffers := m\<rparr>) base bs (flat[p + j := Some (xs ! i)]) p (xs[j := xs ! i])"
    using assign_ok [OF Suc.prems(1) j] by blast
  note n = deque_atD(1) [OF d]
  have inc: "increment B (it_at B base bs (p + k)) (d\<lparr>buffers := m\<rparr>) = Inr (it_at B base bs (p + Suc k))" if "k < length xs" for k
    using increment_it [OF n, of "p + k"] that D(9) by simp
  obtain m' flat' where "copy_with assign_at B n (it_at B base bs (p + Suc i)) (it_at B base bs (p + Suc j)) (d\<lparr>buffers := m\<rparr>) =
      Inr (it_at B base bs (p + Suc j + n), d\<lparr>buffers := m, buffers := m'\<rparr>)"
    "deque_at B (d\<lparr>buffers := m, buffers := m'\<rparr>) base bs flat' p (snd (copy_random n (Suc i) (Suc j) (xs[j := xs ! i])))"
    using Suc.IH [OF d, of "Suc i" "Suc j"] Suc.prems by auto
  then show ?case
    using a inc [OF i] inc [OF j] deref_ok [OF Suc.prems(1) i] by (auto simp del: it_at_simps)
qed

lemma copy_backward_loop_ok:
  assumes "deque_at B d base bs flat p xs" "n \<le> i" "i \<le> length xs" "n \<le> j" "j \<le> length xs"
  shows "\<exists>m flat'. copy_backward_loop B n (it_at B base bs (p + i)) (it_at B base bs (p + j)) d =
      Inr (it_at B base bs (p + j - n), d\<lparr>buffers := m\<rparr>) \<and>
    deque_at B (d\<lparr>buffers := m\<rparr>) base bs flat' p (snd (copy_backward_random n i j xs))"
  using assms
proof (induction n arbitrary: i j d flat xs)
  case 0
  have "d = d\<lparr>buffers := buffers d\<rparr>" by simp
  with 0 show ?case by (metis minus_nat.diff_0 copy_backward_random.simps(1) copy_backward_loop.simps(1) snd_conv)
next
  case (Suc n)
  note D = deque_atD [OF Suc.prems(1)]
  obtain i' j' where ij: "i = Suc i'" "j = Suc j'" using Suc.prems by (metis Suc_le_D)
  have i: "i' < length xs" and j: "j' < length xs" using Suc.prems ij by simp_all
  obtain m where a: "assign_at (M_first (it_at B base bs (p + j'))) (M_cur (it_at B base bs (p + j'))) (xs ! i') d = Inr (d\<lparr>buffers := m\<rparr>)"
    and d: "deque_at B (d\<lparr>buffers := m\<rparr>) base bs (flat[p + j' := Some (xs ! i')]) p (xs[j' := xs ! i'])"
    using assign_ok [OF Suc.prems(1) j] by blast
  have dec: "decrement B (it_at B base bs (p + Suc k)) d = Inr (it_at B base bs (p + k))" if "k < length xs" for k
    using decrement_it [OF D(1), of "p + k"] that D(9) by simp
  obtain m' flat' where "copy_backward_loop B n (it_at B base bs (p + i')) (it_at B base bs (p + j')) (d\<lparr>buffers := m\<rparr>) =
      Inr (it_at B base bs (p + j' - n), d\<lparr>buffers := m, buffers := m'\<rparr>)"
    "deque_at B (d\<lparr>buffers := m, buffers := m'\<rparr>) base bs flat' p (snd (copy_backward_random n i' j' (xs[j' := xs ! i'])))"
    using Suc.IH [OF d, of i' j'] Suc.prems ij by auto
  then show ?case
    using a dec [OF i] dec [OF j] deref_ok [OF Suc.prems(1) i] by (auto simp: ij simp del: it_at_simps add_Suc_right)
qed

lemma copy_iters_ok:
  assumes "deque_at B d base bs flat p xs" "i \<le> k" "k \<le> length xs" "j + (k - i) \<le> length xs" "no_clobber i k j"
  obtains m flat' where "copy_iters B (it_at B base bs (p + i)) (it_at B base bs (p + k)) (it_at B base bs (p + j)) d =
      Inr (it_at B base bs (p + j + (k - i)), d\<lparr>buffers := m\<rparr>)"
    "deque_at B (d\<lparr>buffers := m\<rparr>) base bs flat' p (memmove j i (k - i) xs)"
proof -
  have e: "copy_random (k - i) i j xs = (j + (k - i), memmove j i (k - i) xs)"
    using assms(2-) by (intro copy_random_memmove) simp_all
  show ?thesis
    using copy_loop_ok [OF assms(1), of i "k - i" j] assms(2-) that
    by (auto simp: copy_iters_def e nat_diff_distrib simp del: it_at_simps)
qed

lemma copy_backward_iters_ok:
  assumes "deque_at B d base bs flat p xs" "i \<le> k" "k \<le> j" "j \<le> length xs"
  obtains m flat' where "copy_backward_iters B (it_at B base bs (p + i)) (it_at B base bs (p + k)) (it_at B base bs (p + j)) d =
      Inr (it_at B base bs (p + j - (k - i)), d\<lparr>buffers := m\<rparr>)"
    "deque_at B (d\<lparr>buffers := m\<rparr>) base bs flat' p (memmove (j - (k - i)) i (k - i) xs)"
proof -
  have e: "copy_backward_random (k - i) k j xs = (j - (k - i), memmove (j - (k - i)) (k - (k - i)) (k - i) xs)"
    using assms(2-) by (intro copy_backward_random_memmove) simp_all
  have le: "k - i \<le> k" "k \<le> length xs" "k - i \<le> j" using assms(2-) by simp_all
  have n: "k - (k - i) = i" "nat (subtract B (it_at B base bs (p + k)) (it_at B base bs (p + i))) = k - i"
    using assms(2) by simp_all
  show ?thesis
    using copy_backward_loop_ok [OF assms(1) le assms(4)] that unfolding e n snd_conv copy_backward_iters_def by blast
qed

section \<open>Erasing an element\<close>

text \<open>\<open>it\<close> points to the element with number \<open>k\<close>, or past the last one.\<close>

definition deque_iter :: "nat \<Rightarrow> 'a deque_state \<Rightarrow> 'a list \<Rightarrow> nat \<Rightarrow> diter \<Rightarrow> bool" where
  "deque_iter B d xs k it \<longleftrightarrow>
     (\<exists>base bs flat p. deque_at B d base bs flat p xs \<and> k \<le> length xs \<and> it = it_at B base bs (p + k))"

lemma advance_start:
  assumes "deque_ok B d xs" "k \<le> length xs"
  obtains it where "advance_by B (int k) (M_start d) d = Inr it" "deque_iter B d xs k it"
proof -
  obtain base bs flat p where d: "deque_at B d base bs flat p xs" using assms by (auto simp: deque_ok_def)
  note D = deque_atD [OF d]
  have "advance_by B (int k) (M_start d) d = Inr (it_at B base bs (p + k))"
    unfolding D(5) using D(9) assms(2) by (intro advance_it [OF D(1)]) simp_all
  with d assms(2) that show ?thesis by (auto simp: deque_iter_def)
qed

lemma dq_erase_ok:
  assumes "deque_iter B d xs k pos" "k < length xs"
  obtains it d' where "dq_erase B pos d = Inr (it, d')" "deque_ok B d' (take k xs @ drop (Suc k) xs)"
    "deque_iter B d' (take k xs @ drop (Suc k) xs) k it" "length (M_map d') = length (M_map d)"
proof -
  let ?ys = "take k xs @ drop (Suc k) xs"
  obtain base bs flat p where d: "deque_at B d base bs flat p xs" and pos: "pos = it_at B base bs (p + k)"
    using assms(1) by (auto simp: deque_iter_def)
  note D = deque_atD [OF d]
  have nx: "increment B pos d = Inr (it_at B base bs (p + Suc k))"
    unfolding pos using increment_it [OF D(1), of "p + k"] D(9) assms(2) by simp
  have ix: "subtract B pos (M_start d) = int k" "dq_size B d = length xs"
    unfolding pos D(5) using d by (simp_all add: dq_size_ok deque_okI)
  define moved where "moved = (if k < length xs div 2
    then andThen (copy_backward_iters B (M_start d) pos (it_at B base bs (p + Suc k)) d) (\<lambda>(_, d). dq_pop_front B d)
    else andThen (copy_iters B (it_at B base bs (p + Suc k)) (M_finish d) pos d) (\<lambda>(_, d). dq_pop_back B d))"
  have "\<exists>d'. moved = Inr d' \<and> deque_ok B d' ?ys \<and> length (M_map d') = length (M_map d)"
  proof (cases "k < length xs div 2")
    case True
    obtain m flat' where c: "copy_backward_iters B (M_start d) pos (it_at B base bs (p + Suc k)) d =
        Inr (it_at B base bs (p + Suc k - k), d\<lparr>buffers := m\<rparr>)"
      and d': "deque_at B (d\<lparr>buffers := m\<rparr>) base bs flat' p (memmove 1 0 k xs)"
      using copy_backward_iters_ok [OF d, of 0 k "Suc k"] assms(2) D(5) pos by auto
    have "memmove 1 0 k xs = hd xs # ?ys"
      using assms(2) by (cases xs) (simp_all add: memmove_def)
    then obtain d'' where "dq_pop_front B (d\<lparr>buffers := m\<rparr>) = Inr d''" "deque_ok B d'' ?ys" "length (M_map d'') = length (M_map d)"
      using pop_front_ok [of B "d\<lparr>buffers := m\<rparr>" base bs flat' p "hd xs" ?ys] d' by auto
    with c True show ?thesis by (simp add: moved_def)
  next
    case False
    have e: "length xs - Suc k + k = length xs - 1" using assms(2) by simp
    have pr: "Suc k \<le> length xs" "length xs \<le> length xs" "k + (length xs - Suc k) \<le> length xs"
      "no_clobber (Suc k) (length xs) k"
      using assms(2) by (simp_all add: no_clobber_def)
    obtain m flat' it where c: "copy_iters B (it_at B base bs (p + Suc k)) (M_finish d) pos d = Inr (it, d\<lparr>buffers := m\<rparr>)"
      and d': "deque_at B (d\<lparr>buffers := m\<rparr>) base bs flat' p (memmove k (Suc k) (length xs - Suc k) xs)"
      using copy_iters_ok [OF d pr] unfolding D(6) pos by blast
    have "drop (length xs - 1) xs = [last xs]" using assms(2) by (cases xs rule: rev_cases) simp_all
    then have "memmove k (Suc k) (length xs - Suc k) xs = ?ys @ [last xs]"
      using assms(2) by (simp add: memmove_def)
    then obtain d'' where "dq_pop_back B (d\<lparr>buffers := m\<rparr>) = Inr d''" "deque_ok B d'' ?ys" "length (M_map d'') = length (M_map d)"
      using pop_back_ok [of B "d\<lparr>buffers := m\<rparr>" base bs flat' p ?ys "last xs"] d' by auto
    with c False show ?thesis by (simp add: moved_def)
  qed
  then obtain d' where m: "moved = Inr d'" and d': "deque_ok B d' ?ys" "length (M_map d') = length (M_map d)" by blast
  have "k \<le> length ?ys" using assms(2) by simp
  then obtain it where "advance_by B (int k) (M_start d') d' = Inr it" "deque_iter B d' ?ys k it"
    using advance_start [OF d'(1)] by blast
  moreover have "dq_erase B pos d = andThen moved (\<lambda>d. andThen (advance_by B (int k) (M_start d) d) (\<lambda>i. Inr (i, d)))"
    unfolding dq_erase_def nx andThen_Inr Let_def ix moved_def by simp
  ultimately show ?thesis using that [OF _ d'(1) _ d'(2)] m by simp
qed

section \<open>Clearing\<close>

lemma destroy_cells_ok:
  assumes "buffers d b = Some buf" "n \<le> length buf" "\<And>i. k \<le> i \<Longrightarrow> i < n \<Longrightarrow> buf ! i \<noteq> None"
  shows "\<exists>buf'. destroy_cells b k n d = Inr (d\<lparr>buffers := (buffers d)(b \<mapsto> buf')\<rparr>) \<and> length buf' = length buf"
  using assms
proof (induction "n - k" arbitrary: k d buf)
  case 0
  moreover have "d = d\<lparr>buffers := (buffers d)(b \<mapsto> buf)\<rparr>" using "0.prems"(1) by (simp add: fun_upd_idem)
  ultimately show ?case by (metis destroy_cells.simps diff_is_0_eq linorder_not_less)
next
  case (Suc j)
  then have k: "k < n" by simp
  then obtain x where x: "buf ! k = Some x" using Suc.prems(3) [of k] by auto
  let ?d = "d\<lparr>buffers := (buffers d)(b \<mapsto> buf[k := None])\<rparr>"
  have "destroy_at b k d = Inr ?d"
    using Suc.prems(1,2) k x by (simp add: destroy_at_def cell_read_def cell_write_def)
  moreover have "\<exists>buf'. destroy_cells b (Suc k) n ?d = Inr (?d\<lparr>buffers := (buffers ?d)(b \<mapsto> buf')\<rparr>) \<and> length buf' = length (buf[k := None])"
    using Suc.hyps(2) Suc.prems by (intro Suc.hyps(1)) auto
  ultimately show ?case using k by (subst destroy_cells.simps) auto
qed

text \<open>The entries of the map from \<open>k\<close> to \<open>n\<close> whose buffers have been given back.\<close>

definition without :: "block set \<Rightarrow> (block \<Rightarrow> 'a option list option) \<Rightarrow> block \<Rightarrow> 'a option list option" where
  "without A f = (\<lambda>c. if c \<in> A then None else f c)"

lemma clear_nodes_ok:
  assumes "map_ok d base bs" "distinct bs" "n \<le> length bs"
    "\<And>i. k \<le> i \<Longrightarrow> i < n \<Longrightarrow> \<exists>buf. buffers d (bs ! i) = Some buf \<and> length buf = B \<and> None \<notin> set buf"
  shows "clear_nodes B (base + k) (base + n) d = Inr (d\<lparr>buffers := without ((!) bs ` {k..<n}) (buffers d)\<rparr>)"
  using assms
proof (induction "n - k" arbitrary: k d)
  case 0
  then have "{k..<n} = {}" by simp
  then show ?case using "0.hyps" by (subst clear_nodes.simps) (simp add: without_def)
next
  case (Suc j)
  then have k: "k < n" "k < length bs" by simp_all
  obtain buf where buf: "buffers d (bs ! k) = Some buf" "length buf = B" "None \<notin> set buf"
    using Suc.prems(4) [of k] k by auto
  have full: "buf ! i \<noteq> None" if "i < B" for i using buf that by (metis nth_mem)
  obtain buf' where c: "destroy_cells (bs ! k) 0 B d = Inr (d\<lparr>buffers := (buffers d)(bs ! k \<mapsto> buf')\<rparr>)"
    using destroy_cells_ok [OF buf(1), of B 0] buf(2) full by auto
  let ?d = "d\<lparr>buffers := (buffers d)(bs ! k := None)\<rparr>"
  have f: "deallocate (bs ! k) (d\<lparr>buffers := (buffers d)(bs ! k \<mapsto> buf')\<rparr>) = Inr ?d"
    by (simp add: deallocate_def)
  have "clear_nodes B (base + Suc k) (base + n) ?d = Inr (?d\<lparr>buffers := without ((!) bs ` {Suc k..<n}) (buffers ?d)\<rparr>)"
  proof (rule Suc.hyps(1))
    fix i assume i: "Suc k \<le> i" "i < n"
    then have "bs ! i \<noteq> bs ! k" using Suc.prems(2,3) k by (simp add: nth_eq_iff_index_eq)
    then show "\<exists>buf. buffers ?d (bs ! i) = Some buf \<and> length buf = B \<and> None \<notin> set buf"
      using Suc.prems(4) [of i] i by simp
  qed (use Suc in simp_all)
  moreover have "without ((!) bs ` {Suc k..<n}) (buffers ?d) = without ((!) bs ` {k..<n}) (buffers d)"
  proof -
    have "{k..<n} = insert k {Suc k..<n}" using k by auto
    then show ?thesis by (auto simp: without_def)
  qed
  moreover have "map_read (int (base + k)) d = Inr (bs ! k)"
    using map_read_ok [OF Suc.prems(1) k(2)] by simp
  ultimately show ?case using c f k by (subst clear_nodes.simps) (simp del: of_nat_add)
qed

lemma chunk_cell:
  assumes "i * B + j < length xs" "j < B"
  shows "chunk B xs i ! j = xs ! (i * B + j)"
  using assms by (simp add: chunk_def)

lemma block_index: "i < n \<Longrightarrow> j < B \<Longrightarrow> i * B + j < B * n" for i j n B :: nat
proof -
  assume "i < n" "j < B"
  then have "i * B + j < Suc i * B" by simp
  also have "\<dots> \<le> n * B" using \<open>i < n\<close> by (intro mult_le_mono1) simp
  finally show ?thesis by (simp add: mult.commute)
qed

lemma dq_clear_ok:
  assumes "deque_ok B d xs"
  obtains d' where "dq_clear B d = Inr d'" "deque_ok B d' []" "length (M_map d') = length (M_map d)"
proof -
  obtain base bs flat p where d: "deque_at B d base bs flat p xs" using assms by (auto simp: deque_ok_def)
  note D = deque_atD [OF d]
  let ?q = "p + length xs" and ?n = "(p + length xs) div B"
  have mp: "map_ok d base bs" and bf: "buffers_ok B d bs flat" using D(1) by (simp_all add: nodes_ok_def)
  then have dist: "distinct bs" and dm: "dom (buffers d) = set bs" and fr: "\<forall>b\<in>set bs. b < fresh d"
    and ch: "\<And>i. i < length bs \<Longrightarrow> buffers d (bs ! i) = Some (chunk B flat i)"
    by (simp_all add: buffers_ok_def)
  have s: "M_start d = \<lparr>M_cur = p, M_first = bs ! 0, M_node = base\<rparr>" using D(4,5) by (simp add: it_at_small)
  have f: "M_finish d = \<lparr>M_cur = ?q mod B, M_first = bs ! ?n, M_node = base + ?n\<rparr>" using D(6) by (simp add: it_at_def)
  have lch: "length (chunk B flat i) = B" if "i < length bs" for i
    using that D(8) by (intro length_chunk) (metis Suc_leI mult.commute mult_le_mono1)
  have cell: "chunk B flat i ! j = Some (xs ! (i * B + j - p))" if "i < length bs" "j < B" "p \<le> i * B + j" "i * B + j < ?q" for i j
    using that D(10) [of "i * B + j - p"] D(8) block_index [of i "length bs" j B] by (simp add: chunk_cell)
  have first: "\<And>j. p \<le> j \<Longrightarrow> j < B \<Longrightarrow> j < ?q \<Longrightarrow> chunk B flat 0 ! j \<noteq> None" using cell [of 0] D(7) by simp
  have q: "?n * B + ?q mod B = ?q" by simp
  have "\<exists>buf d'. dq_clear B d = Inr d' \<and> length buf = B \<and> M_start d' = M_start d \<and> M_finish d' = M_start d \<and>
      M_map d' = M_map d \<and> fresh d' = fresh d \<and> buffers d' = [bs ! 0 \<mapsto> buf]"
  proof (cases "?n = 0")
    case True
    then have b: "bs = [bs ! 0]" "?q < B" using D(3,7) by (auto simp: length_Suc_conv div_eq_0_iff)
    obtain buf where c: "destroy_cells (bs ! 0) p ?q d = Inr (d\<lparr>buffers := (buffers d)(bs ! 0 \<mapsto> buf)\<rparr>)" "length buf = B"
      using destroy_cells_ok [OF ch [of 0], of ?q p] lch [of 0] first D(7) b(2) by auto
    have "\<And>c. c \<noteq> bs ! 0 \<Longrightarrow> buffers d c = None" using dm b(1) by (metis domIff empty_iff empty_set insert_iff list.simps(15))
    then have "(buffers d)(bs ! 0 \<mapsto> buf) = [bs ! 0 \<mapsto> buf]" by (auto simp: fun_eq_iff)
    moreover have "clear_nodes B (base + 1) base d = Inr d" by (subst clear_nodes.simps) simp
    ultimately show ?thesis using c True b(2) s f by (auto simp: dq_clear_def)
  next
    case False
    then have n: "0 < ?n" "?n < length bs" "bs ! 0 \<noteq> bs ! ?n" "0 < length bs" and pb: "B \<le> ?q"
      using D(7) dist by (simp_all add: nth_eq_iff_index_eq div_greater_zero_iff)
    have nB: "B \<le> i * B" if "1 \<le> i" for i using mult_le_mono1 [OF that, of B] by simp
    then have p_n: "p < ?n * B" using D(4) n(1) by (metis less_le_trans Suc_leI One_nat_def)
    let ?mid = "(!) bs ` {1..<?n}"
    have "\<exists>buf. buffers d (bs ! i) = Some buf \<and> length buf = B \<and> None \<notin> set buf" if "1 \<le> i" "i < ?n" for i
    proof -
      have "p \<le> i * B + j" for j using D(4) nB [OF that(1)] by linarith
      moreover have "i * B + j < ?q" if "j < B" for j
        using block_index [OF \<open>i < ?n\<close> that] q mult.commute [of B ?n] by linarith
      ultimately have "chunk B flat i ! j \<noteq> None" if "j < B" for j using cell [of i j] that \<open>i < ?n\<close> n(2) by simp
      then show ?thesis using ch [of i] lch [of i] that n(2) by (auto simp: in_set_conv_nth)
    qed
    then have cl: "clear_nodes B (base + 1) (base + ?n) d = Inr (d\<lparr>buffers := without ?mid (buffers d)\<rparr>)"
      using clear_nodes_ok [OF mp dist, of ?n 1 B] n(2) by simp
    let ?d = "d\<lparr>buffers := without ?mid (buffers d)\<rparr>"
    have in_mid: "bs ! 0 \<notin> ?mid" "bs ! ?n \<notin> ?mid"
      using dist n by (auto simp: nth_eq_iff_index_eq)
    have b0: "buffers ?d (bs ! 0) = Some (chunk B flat 0)" using in_mid ch n by (simp add: without_def)
    obtain buf where c1: "destroy_cells (bs ! 0) p B ?d = Inr (?d\<lparr>buffers := (buffers ?d)(bs ! 0 \<mapsto> buf)\<rparr>)" "length buf = B"
      using destroy_cells_ok [OF b0, of B p] lch [OF n(4)] first pb by auto
    let ?d1 = "?d\<lparr>buffers := (buffers ?d)(bs ! 0 \<mapsto> buf)\<rparr>"
    have bn: "buffers ?d1 (bs ! ?n) = Some (chunk B flat ?n)" using in_mid ch n by (simp add: without_def)
    have "chunk B flat ?n ! j \<noteq> None" if "j < ?q mod B" for j
    proof -
      have "j < B" "p \<le> ?n * B + j" "?n * B + j < ?q"
        using that p_n q mod_less_divisor [OF D(3), of ?q] by linarith+
      then show ?thesis using cell [OF n(2)] by simp
    qed
    then obtain buf2 where c2: "destroy_cells (bs ! ?n) 0 (?q mod B) ?d1 = Inr (?d1\<lparr>buffers := (buffers ?d1)(bs ! ?n \<mapsto> buf2)\<rparr>)"
      using destroy_cells_ok [OF bn, of "?q mod B" 0] lch [OF n(2)] D(3) by auto
    let ?bf = "((without ?mid (buffers d))(bs ! 0 \<mapsto> buf))(bs ! ?n := None)"
    have "?bf = [bs ! 0 \<mapsto> buf]"
    proof
      fix c
      have "c \<in> ?mid \<or> c = bs ! 0 \<or> c = bs ! ?n" if "c \<in> set bs"
      proof -
        obtain i where "i \<le> ?n" "c = bs ! i" using \<open>c \<in> set bs\<close> D(7) by (auto simp: in_set_conv_nth less_Suc_eq_le)
        then show ?thesis by (cases "i = 0"; cases "i = ?n") auto
      qed
      moreover have "buffers d c = None" if "c \<notin> set bs" using that dm by blast
      ultimately show "?bf c = [bs ! 0 \<mapsto> buf] c" using n(3) by (auto simp: without_def)
    qed
    then have "dq_clear B d = Inr (d\<lparr>buffers := [bs ! 0 \<mapsto> buf], M_finish := M_start d\<rparr>)"
      using cl c1 c2 n(1) s f by (simp add: dq_clear_def deallocate_def)
    then show ?thesis using c1(2) by auto
  qed
  then obtain buf d' where r: "dq_clear B d = Inr d'" "length buf = B" "M_start d' = M_start d" "M_finish d' = M_start d"
    "M_map d' = M_map d" "fresh d' = fresh d" "buffers d' = [bs ! 0 \<mapsto> buf]" by blast
  have bs: "0 < length bs" "bs ! 0 \<in> set bs" using D(7) by simp_all
  have "map_ok d' base [bs ! 0]" using mp bs(1) r(5) unfolding map_ok_def by (cases bs) auto
  moreover have "buffers_ok B d' [bs ! 0] buf"
    using r fr bs(2) D(3) by (simp add: buffers_ok_def chunk_def)
  ultimately have "deque_at B d' base [bs ! 0] buf p []"
    using r(3,4) D(4) s by (simp add: deque_at_def nodes_ok_def ends_ok_def it_at_small)
  then show ?thesis using that [OF r(1)] r(5) by (simp add: deque_okI)
qed

section \<open>Construction and destruction\<close>

lemma create_nodes_ok:
  assumes "nodes_ok B d base bs flat" "base + length bs + k \<le> length (M_map d)"
  shows "\<exists>d' cs. create_nodes B (base + length bs) (base + length bs + k) d = Inr d' \<and> length cs = k \<and>
    nodes_ok B d' base (bs @ cs) (flat @ replicate (B * k) None) \<and> length (M_map d') = length (M_map d) \<and>
    M_start d' = M_start d \<and> M_finish d' = M_finish d"
  using assms
proof (induction k arbitrary: d bs flat)
  case 0
  then show ?case by (subst create_nodes.simps) (auto intro!: exI [of _ "[]"])
next
  case (Suc k)
  obtain b d1 where al: "allocate B d = (b, d1)" by (metis surj_pair)
  have lt: "base + length bs < length (M_map d)" using Suc.prems(2) by simp
  obtain m where w: "map_write (int (base + length bs)) b d1 = Inr (d1\<lparr>M_map := m\<rparr>)" "length m = length (M_map d)"
    and n: "nodes_ok B (d1\<lparr>M_map := m\<rparr>) base (bs @ [b]) (flat @ replicate B None)"
    and e: "M_start d1 = M_start d" "M_finish d1 = M_finish d"
    using new_buffer_back [OF Suc.prems(1) lt al] by blast
  obtain d' cs where r: "create_nodes B (base + length (bs @ [b])) (base + length (bs @ [b]) + k) (d1\<lparr>M_map := m\<rparr>) = Inr d'" "length cs = k"
    "nodes_ok B d' base ((bs @ [b]) @ cs) ((flat @ replicate B None) @ replicate (B * k) None)" "length (M_map d') = length m"
    "M_start d' = M_start d" "M_finish d' = M_finish d"
    using Suc.IH [OF n] Suc.prems(2) w(2) e by auto
  have "create_nodes B (base + length bs) (base + length bs + Suc k) d = Inr d'"
    using al w(1) r(1) by (subst create_nodes.simps) (simp del: of_nat_add)
  moreover have "(flat @ replicate B None) @ replicate (B * k) None = flat @ replicate (B * Suc k) None"
    by (simp add: replicate_add)
  then have "nodes_ok B d' base (bs @ b # cs) (flat @ replicate (B * Suc k) None)" using r(3) by (simp only: append_assoc append.simps)
  ultimately show ?case using r w(2) by (intro exI [of _ d'] exI [of _ "b # cs"]) simp
qed

lemma initialize_map_ok:
  assumes "0 < B"
  obtains d :: "'a deque_state" and base bs where "initialize_map B n no_deque = Inr d" "nodes_ok B d base bs (replicate (B * length bs) None)"
    "ends_ok B d base bs 0 n" "length (M_map d) = max 8 (n div B + 3)"
proof -
  let ?k = "n div B + 1"
  define sz where "sz = max initial_map_size (?k + 2)"
  define base where "base = (sz - ?k) div 2"
  let ?d = "(no_deque :: 'a deque_state)\<lparr>M_map := replicate sz None\<rparr>"
  have "nodes_ok B ?d base [] []"
    using assms by (simp add: nodes_ok_def map_ok_def buffers_ok_def no_deque_def base_def sz_def)
  moreover have "base + length [] + ?k \<le> length (M_map ?d)" by (simp add: base_def sz_def)
  ultimately obtain d cs where r: "create_nodes B base (base + ?k) ?d = Inr d" "length cs = ?k"
    "nodes_ok B d base cs (replicate (B * ?k) None)" "length (M_map d) = sz"
    using create_nodes_ok [of B ?d base "[]" "[]" ?k] by auto
  have mp: "map_ok d base cs" using r(3) by (simp add: nodes_ok_def)
  have "set_node (int base) it d = Inr (it\<lparr>M_node := base, M_first := cs ! 0\<rparr>)"
    "set_node (int (base + ?k) - 1) it d = Inr (it\<lparr>M_node := base + n div B, M_first := cs ! (n div B)\<rparr>)" for it
    using set_node_ok [OF mp, of 0] set_node_ok [OF mp, of "n div B"] r(2) by simp_all
  then have "initialize_map B n no_deque =
      Inr (d\<lparr>M_start := (M_start d)\<lparr>M_node := base, M_first := cs ! 0, M_cur := 0\<rparr>,
             M_finish := (M_finish d)\<lparr>M_node := base + n div B, M_first := cs ! (n div B), M_cur := n mod B\<rparr>\<rparr>)"
    using r(1) unfolding initialize_map_def Let_def sz_def [symmetric] base_def [symmetric] by (simp del: of_nat_add)
  moreover have "(M_start d)\<lparr>M_node := base, M_first := cs ! 0, M_cur := 0\<rparr> = it_at B base cs 0"
    "(M_finish d)\<lparr>M_node := base + n div B, M_first := cs ! (n div B), M_cur := n mod B\<rparr> = it_at B base cs n"
    by (simp_all add: it_at_def)
  ultimately have i: "initialize_map B n no_deque = Inr (d\<lparr>M_start := it_at B base cs 0, M_finish := it_at B base cs n\<rparr>)"
    by simp
  show ?thesis
  proof (rule that [OF i])
    show "nodes_ok B (d\<lparr>M_start := it_at B base cs 0, M_finish := it_at B base cs n\<rparr>) base cs (replicate (B * length cs) None)"
      using r(2,3) by simp
    show "ends_ok B (d\<lparr>M_start := it_at B base cs 0, M_finish := it_at B base cs n\<rparr>) base cs 0 n"
      using assms r(2) by (simp add: ends_ok_def)
    show "length (M_map (d\<lparr>M_start := it_at B base cs 0, M_finish := it_at B base cs n\<rparr>)) = max 8 (n div B + 3)"
      using r(4) by (simp add: sz_def initial_map_size_def)
  qed
qed

lemma new_deque_ok:
  assumes "0 < B"
  obtains d :: "'a deque_state" where "new_deque B = Inr d" "deque_ok B d []" "length (M_map d) = 8"
proof -
  obtain d :: "'a deque_state" and base bs where r: "initialize_map B 0 no_deque = Inr d" "nodes_ok B d base bs (replicate (B * length bs) None)"
    "ends_ok B d base bs 0 0" "length (M_map d) = max 8 (0 div B + 3)"
    using initialize_map_ok [OF assms, of 0] by blast
  have "deque_at B d base bs (replicate (B * length bs) None) 0 []" using r(2,3) by (simp add: deque_at_def)
  then show ?thesis using that r(1,4) by (simp add: new_deque_def deque_okI)
qed

lemma destroy_range_ok:
  assumes "nodes_ok B d base bs flat" "p + n < length flat" "\<And>i. i < n \<Longrightarrow> flat ! (p + i) \<noteq> None"
  shows "\<exists>m flat'. destroy_range B (it_at B base bs p) (it_at B base bs (p + n)) d = Some (Inr (d\<lparr>buffers := m\<rparr>)) \<and>
    nodes_ok B (d\<lparr>buffers := m\<rparr>) base bs flat'"
  using assms
proof (induction n arbitrary: p d flat)
  case 0
  have "d = d\<lparr>buffers := buffers d\<rparr>" by simp
  moreover have "destroy_range B (it_at B base bs p) (it_at B base bs (p + 0)) d = Some (Inr d)"
    by (subst destroy_range.simps) (simp add: same_cur_def)
  ultimately show ?case using "0.prems"(1) by metis
next
  case (Suc n)
  obtain x where x: "flat ! p = Some x" using Suc.prems(3) [of 0] by auto
  have lt: "p < length flat" "p + Suc n < length flat" using Suc.prems(2) by simp_all
  obtain m where c: "destroy_at (M_first (it_at B base bs p)) (M_cur (it_at B base bs p)) d = Inr (d\<lparr>buffers := m\<rparr>)"
    and n: "nodes_ok B (d\<lparr>buffers := m\<rparr>) base bs (flat[p := None])"
    using destroy_elem [OF Suc.prems(1) lt(1) refl x] by blast
  have "\<exists>m' flat'. destroy_range B (it_at B base bs (Suc p)) (it_at B base bs (Suc p + n)) (d\<lparr>buffers := m\<rparr>) =
      Some (Inr (d\<lparr>buffers := m, buffers := m'\<rparr>)) \<and> nodes_ok B (d\<lparr>buffers := m, buffers := m'\<rparr>) base bs flat'"
  proof (rule Suc.IH [OF n])
    show "flat[p := None] ! (Suc p + i) \<noteq> None" if "i < n" for i
      using Suc.prems(3) [of "Suc i"] that by simp
  qed (use lt in simp)
  moreover have "increment B (it_at B base bs p) (d\<lparr>buffers := m\<rparr>) = Inr (it_at B base bs (Suc p))"
    using increment_it [OF n] lt by simp
  moreover have "\<not> same_cur (it_at B base bs p) (it_at B base bs (p + Suc n))"
    using same_cur_it [OF Suc.prems(1) lt] by simp
  ultimately show ?case using c by (subst destroy_range.simps) (auto simp del: it_at_simps)
qed

lemma destroy_nodes_ok:
  assumes "nodes_ok B d base bs flat"
  shows "destroy_nodes base (base + length bs) d = Inr (d\<lparr>buffers := Map.empty\<rparr>)"
  using assms
proof (induction bs arbitrary: base d flat)
  case Nil
  then have "buffers d = Map.empty" by (simp add: nodes_ok_def buffers_ok_def)
  then have "d = d\<lparr>buffers := Map.empty\<rparr>" by simp
  then show ?case by (subst destroy_nodes.simps) simp
next
  case (Cons b bs)
  obtain m where f: "deallocate b d = Inr (d\<lparr>buffers := m\<rparr>)"
    and n: "nodes_ok B (d\<lparr>buffers := m\<rparr>) (Suc base) bs (drop B flat)"
    using free_buffer_front [OF Cons.prems] by blast
  have "map_ok d base (b # bs)" using Cons.prems by (simp add: nodes_ok_def)
  then have "map_read (int base) d = Inr b" using map_read_ok [of d base "b # bs" 0] by simp
  moreover have "destroy_nodes (Suc base) (Suc base + length bs) (d\<lparr>buffers := m\<rparr>) = Inr (d\<lparr>buffers := m, buffers := Map.empty\<rparr>)"
    by (rule Cons.IH [OF n])
  ultimately show ?case using f by (subst destroy_nodes.simps) simp
qed

lemma destroy_deque_ok:
  assumes "deque_ok B d xs"
  shows "\<exists>d'. destroy_deque B d = Some (Inr d') \<and> buffers d' = Map.empty \<and> M_map d' = []"
proof -
  obtain base bs flat p where d: "deque_at B d base bs flat p xs" using assms by (auto simp: deque_ok_def)
  note D = deque_atD [OF d]
  have "flat ! (p + i) \<noteq> None" if "i < length xs" for i using D(10) [OF that] by simp
  then obtain m flat' where r: "destroy_range B (M_start d) (M_finish d) d = Some (Inr (d\<lparr>buffers := m\<rparr>))"
    "nodes_ok B (d\<lparr>buffers := m\<rparr>) base bs flat'"
    using destroy_range_ok [OF D(1,9)] D(5,6) by auto
  have e: "M_node (M_start d) = base" "M_node (M_finish d) + 1 = base + length bs" using D(4-7) by simp_all
  have "base + length bs \<le> length (M_map d)" "0 < length bs" using D(1,7) by (simp_all add: nodes_ok_def map_ok_def)
  then have "M_map d \<noteq> []" by auto
  then show ?thesis using r(1) destroy_nodes_ok [OF r(2)] e by (simp add: destroy_deque_def destroy_base_def)
qed

end
