(* ===== verification/Stl_Deque_Ops.thy ===== *)
theory Stl_Deque_Ops
  imports Stl_Deque Stl_List_Ops
begin

text \<open>
  Operations of the deque that insert into the middle, remove ranges, assign, resize and construct
  from a count, a range or another deque. A range that is read is that of another container and
  is given by its elements; a value that is inserted or assigned is not an element of the deque itself.
\<close>

section \<open>Room at the ends\<close>

function front_nodes :: "nat \<Rightarrow> nat \<Rightarrow> nat \<Rightarrow> 'a deque_state \<Rightarrow> 'a deque_state result" where
  "front_nodes B i new_nodes d =
     (if i \<le> new_nodes then
        let (b, d) = allocate B d in
        andThen (map_write (int (M_node (M_start d)) - int i) b d) (front_nodes B (Suc i) new_nodes)
      else Inr d)"
  by pat_completeness auto
termination by (relation "measure (\<lambda>(B, i, n, d). Suc n - i)") auto

function back_nodes :: "nat \<Rightarrow> nat \<Rightarrow> nat \<Rightarrow> 'a deque_state \<Rightarrow> 'a deque_state result" where
  "back_nodes B i new_nodes d =
     (if i \<le> new_nodes then
        let (b, d) = allocate B d in
        andThen (map_write (int (M_node (M_finish d)) + int i) b d) (back_nodes B (Suc i) new_nodes)
      else Inr d)"
  by pat_completeness auto
termination by (relation "measure (\<lambda>(B, i, n, d). Suc n - i)") auto

declare front_nodes.simps [simp del] back_nodes.simps [simp del]

definition new_elements_at_front :: "nat \<Rightarrow> nat \<Rightarrow> 'a deque_state \<Rightarrow> 'a deque_state result" where
  "new_elements_at_front B new_elems d =
     (let new_nodes = (new_elems + B - 1) div B in
      andThen (reserve_map_at_front new_nodes d) (front_nodes B 1 new_nodes))"

definition new_elements_at_back :: "nat \<Rightarrow> nat \<Rightarrow> 'a deque_state \<Rightarrow> 'a deque_state result" where
  "new_elements_at_back B new_elems d =
     (let new_nodes = (new_elems + B - 1) div B in
      andThen (reserve_map_at_back new_nodes d) (back_nodes B 1 new_nodes))"

definition reserve_elements_at_front :: "nat \<Rightarrow> nat \<Rightarrow> 'a deque_state \<Rightarrow> (diter \<times> 'a deque_state) result" where
  "reserve_elements_at_front B n d =
     (let vacancies = M_cur (M_start d) in
      andThen (if n > vacancies then new_elements_at_front B (n - vacancies) d else Inr d) (\<lambda>d.
      andThen (advance_by B (- int n) (M_start d) d) (\<lambda>i. Inr (i, d))))"

definition reserve_elements_at_back :: "nat \<Rightarrow> nat \<Rightarrow> 'a deque_state \<Rightarrow> (diter \<times> 'a deque_state) result" where
  "reserve_elements_at_back B n d =
     (let vacancies = (B - M_cur (M_finish d)) - 1 in
      andThen (if n > vacancies then new_elements_at_back B (n - vacancies) d else Inr d) (\<lambda>d.
      andThen (advance_by B (int n) (M_finish d) d) (\<lambda>i. Inr (i, d))))"

section \<open>Inserting\<close>

primrec copy_list ::
  "(block \<Rightarrow> nat \<Rightarrow> 'a \<Rightarrow> 'a deque_state \<Rightarrow> 'a deque_state result) \<Rightarrow> nat \<Rightarrow>
   'a list \<Rightarrow> diter \<Rightarrow> 'a deque_state \<Rightarrow> (diter \<times> 'a deque_state) result" where
  "copy_list put B [] result d = Inr (result, d)"
| "copy_list put B (x # xs) result d =
     andThen (put (M_first result) (M_cur result) x d) (\<lambda>d.
     andThen (increment B result d) (\<lambda>result. copy_list put B xs result d))"

definition ucopy_fill :: "nat \<Rightarrow> diter \<Rightarrow> diter \<Rightarrow> diter \<Rightarrow> diter \<Rightarrow> 'a \<Rightarrow> 'a deque_state \<Rightarrow> 'a deque_state result" where
  "ucopy_fill B first1 last1 first2 last2 x d =
     andThen (ucopy_iters B first1 last1 first2 d) (\<lambda>(mid2, d). ufill_iters B mid2 last2 x d)"

definition ufill_copy :: "nat \<Rightarrow> diter \<Rightarrow> diter \<Rightarrow> 'a \<Rightarrow> diter \<Rightarrow> diter \<Rightarrow> 'a deque_state \<Rightarrow> (diter \<times> 'a deque_state) result" where
  "ufill_copy B result mid x first fin d =
     andThen (ufill_iters B result mid x d) (\<lambda>d. ucopy_iters B first fin mid d)"

definition fill_insert_aux :: "nat \<Rightarrow> diter \<Rightarrow> nat \<Rightarrow> 'a \<Rightarrow> 'a deque_state \<Rightarrow> (diter \<times> 'a deque_state) result" where
  "fill_insert_aux B pos n x d =
     (let elems_before = subtract B pos (M_start d); len = dq_size B d in
      if elems_before \<le> int (len div 2) then
        andThen (reserve_elements_at_front B n d) (\<lambda>(new_start, d).
          let old_start = M_start d in
          andThen (advance_by B elems_before (M_start d) d) (\<lambda>pos.
          if elems_before \<ge> int n then
            andThen (advance_by B (int n) (M_start d) d) (\<lambda>start_n.
            andThen (ucopy_iters B (M_start d) start_n new_start d) (\<lambda>(_, d).
            let d = d\<lparr>M_start := new_start\<rparr> in
            andThen (copy_iters B start_n pos old_start d) (\<lambda>(_, d).
            andThen (advance_by B (- int n) pos d) (\<lambda>mid.
            andThen (fill_iters B mid pos x d) (\<lambda>d.
            andThen (advance_by B (- int n) pos d) (\<lambda>pos. Inr (pos, d)))))))
          else
            andThen (ucopy_fill B (M_start d) pos new_start (M_start d) x d) (\<lambda>d.
            let d = d\<lparr>M_start := new_start\<rparr> in
            andThen (fill_iters B old_start pos x d) (\<lambda>d. Inr (pos, d)))))
      else
        andThen (reserve_elements_at_back B n d) (\<lambda>(new_finish, d).
          let old_finish = M_finish d; elems_after = int len - elems_before in
          andThen (advance_by B (- elems_after) (M_finish d) d) (\<lambda>pos.
          if elems_after > int n then
            andThen (advance_by B (- int n) (M_finish d) d) (\<lambda>finish_n.
            andThen (ucopy_iters B finish_n (M_finish d) (M_finish d) d) (\<lambda>(_, d).
            let d = d\<lparr>M_finish := new_finish\<rparr> in
            andThen (copy_backward_iters B pos finish_n old_finish d) (\<lambda>(_, d).
            andThen (advance_by B (int n) pos d) (\<lambda>mid.
            andThen (fill_iters B pos mid x d) (\<lambda>d. Inr (pos, d))))))
          else
            andThen (advance_by B (int n) pos d) (\<lambda>mid.
            andThen (ufill_copy B (M_finish d) mid x pos (M_finish d) d) (\<lambda>(_, d).
            let d = d\<lparr>M_finish := new_finish\<rparr> in
            andThen (fill_iters B pos old_finish x d) (\<lambda>d. Inr (pos, d)))))))"

definition dq_fill_insert :: "nat \<Rightarrow> diter \<Rightarrow> nat \<Rightarrow> 'a \<Rightarrow> 'a deque_state \<Rightarrow> 'a deque_state result" where
  "dq_fill_insert B pos n x d =
     (if same_cur pos (M_start d) then
        andThen (reserve_elements_at_front B n d) (\<lambda>(new_start, d).
        andThen (ufill_iters B new_start (M_start d) x d) (\<lambda>d. Inr (d\<lparr>M_start := new_start\<rparr>)))
      else if same_cur pos (M_finish d) then
        andThen (reserve_elements_at_back B n d) (\<lambda>(new_finish, d).
        andThen (ufill_iters B (M_finish d) new_finish x d) (\<lambda>d. Inr (d\<lparr>M_finish := new_finish\<rparr>)))
      else andThen (fill_insert_aux B pos n x d) (\<lambda>(_, d). Inr d))"

definition dq_insert :: "nat \<Rightarrow> diter \<Rightarrow> 'a \<Rightarrow> 'a deque_state \<Rightarrow> (diter \<times> 'a deque_state) result" where
  "dq_insert B pos x d =
     (if same_cur pos (M_start d) then andThen (dq_push_front B x d) (\<lambda>d. Inr (M_start d, d))
      else if same_cur pos (M_finish d) then
        andThen (dq_push_back B x d) (\<lambda>d.
        andThen (decrement B (M_finish d) d) (\<lambda>tmp. Inr (tmp, d)))
      else fill_insert_aux B pos 1 x d)"

definition insert_range_aux :: "nat \<Rightarrow> diter \<Rightarrow> 'a list \<Rightarrow> 'a deque_state \<Rightarrow> 'a deque_state result" where
  "insert_range_aux B pos ys d =
     (let n = length ys; elemsbefore = subtract B pos (M_start d); len = dq_size B d in
      if elemsbefore \<le> int (len div 2) then
        andThen (reserve_elements_at_front B n d) (\<lambda>(new_start, d).
          let old_start = M_start d in
          andThen (advance_by B elemsbefore (M_start d) d) (\<lambda>pos.
          if elemsbefore \<ge> int n then
            andThen (advance_by B (int n) (M_start d) d) (\<lambda>start_n.
            andThen (ucopy_iters B (M_start d) start_n new_start d) (\<lambda>(_, d).
            let d = d\<lparr>M_start := new_start\<rparr> in
            andThen (copy_iters B start_n pos old_start d) (\<lambda>(_, d).
            andThen (advance_by B (- int n) pos d) (\<lambda>mid.
            andThen (copy_list assign_at B ys mid d) (\<lambda>(_, d). Inr d)))))
          else
            let mid = nat (int n - elemsbefore) in
            andThen (ucopy_iters B (M_start d) pos new_start d) (\<lambda>(new_result, d).
            andThen (copy_list construct_at B (take mid ys) new_result d) (\<lambda>(_, d).
            let d = d\<lparr>M_start := new_start\<rparr> in
            andThen (copy_list assign_at B (drop mid ys) old_start d) (\<lambda>(_, d). Inr d)))))
      else
        andThen (reserve_elements_at_back B n d) (\<lambda>(new_finish, d).
          let old_finish = M_finish d; elemsafter = int len - elemsbefore in
          andThen (advance_by B (- elemsafter) (M_finish d) d) (\<lambda>pos.
          if elemsafter > int n then
            andThen (advance_by B (- int n) (M_finish d) d) (\<lambda>finish_n.
            andThen (ucopy_iters B finish_n (M_finish d) (M_finish d) d) (\<lambda>(_, d).
            let d = d\<lparr>M_finish := new_finish\<rparr> in
            andThen (copy_backward_iters B pos finish_n old_finish d) (\<lambda>(_, d).
            andThen (copy_list assign_at B ys pos d) (\<lambda>(_, d). Inr d))))
          else
            let mid = nat elemsafter in
            andThen (copy_list construct_at B (drop mid ys) (M_finish d) d) (\<lambda>(new_result, d).
            andThen (ucopy_iters B pos (M_finish d) new_result d) (\<lambda>(_, d).
            let d = d\<lparr>M_finish := new_finish\<rparr> in
            andThen (copy_list assign_at B (take mid ys) pos d) (\<lambda>(_, d). Inr d))))))"

definition dq_insert_range :: "nat \<Rightarrow> diter \<Rightarrow> 'a list \<Rightarrow> 'a deque_state \<Rightarrow> 'a deque_state result" where
  "dq_insert_range B pos ys d =
     (let n = length ys in
      if same_cur pos (M_start d) then
        andThen (reserve_elements_at_front B n d) (\<lambda>(new_start, d).
        andThen (copy_list construct_at B ys new_start d) (\<lambda>(_, d). Inr (d\<lparr>M_start := new_start\<rparr>)))
      else if same_cur pos (M_finish d) then
        andThen (reserve_elements_at_back B n d) (\<lambda>(new_finish, d).
        andThen (copy_list construct_at B ys (M_finish d) d) (\<lambda>(_, d). Inr (d\<lparr>M_finish := new_finish\<rparr>)))
      else insert_range_aux B pos ys d)"

text \<open>A range that can be read only once goes in through an insert iterator, one element after the other.\<close>

primrec insert_input :: "nat \<Rightarrow> diter \<Rightarrow> 'a list \<Rightarrow> 'a deque_state \<Rightarrow> 'a deque_state result" where
  "insert_input B pos [] d = Inr d"
| "insert_input B pos (x # xs) d =
     andThen (dq_insert B pos x d) (\<lambda>(i, d).
     andThen (increment B i d) (\<lambda>i. insert_input B i xs d))"

section \<open>Erasing ranges\<close>

definition dq_erase_aux :: "nat \<Rightarrow> diter \<Rightarrow> diter \<Rightarrow> 'a deque_state \<Rightarrow> ((diter \<times> 'a deque_state) result) option" where
  "dq_erase_aux B first fin d =
     (let n = subtract B fin first; elems_before = subtract B first (M_start d) in
      bindR
        (if elems_before \<le> (int (dq_size B d) - n) div 2 then
           bindS (copy_backward_iters B (M_start d) first fin d) (\<lambda>(_, d).
           bindS (advance_by B n (M_start d) d) (\<lambda>new_start.
           bindR (destroy_range B (M_start d) new_start d) (\<lambda>d.
           bindS (destroy_nodes (M_node (M_start d)) (M_node new_start) d) (\<lambda>d.
           Some (Inr (d\<lparr>M_start := new_start\<rparr>))))))
         else
           bindS (copy_iters B fin (M_finish d) first d) (\<lambda>(_, d).
           bindS (advance_by B (- n) (M_finish d) d) (\<lambda>new_finish.
           bindR (destroy_range B new_finish (M_finish d) d) (\<lambda>d.
           bindS (destroy_nodes (M_node new_finish + 1) (M_node (M_finish d) + 1) d) (\<lambda>d.
           Some (Inr (d\<lparr>M_finish := new_finish\<rparr>)))))))
        (\<lambda>d. bindS (advance_by B elems_before (M_start d) d) (\<lambda>i. Some (Inr (i, d)))))"

definition dq_erase_range :: "nat \<Rightarrow> diter \<Rightarrow> diter \<Rightarrow> 'a deque_state \<Rightarrow> ((diter \<times> 'a deque_state) result) option" where
  "dq_erase_range B first fin d =
     (if same_cur first (M_start d) \<and> same_cur fin (M_finish d)
      then bindS (dq_clear B d) (\<lambda>d. Some (Inr (M_finish d, d)))
      else if same_cur first fin then Some (Inr (first, d))
      else dq_erase_aux B first fin d)"

section \<open>Resizing and assigning\<close>

definition dq_resize :: "nat \<Rightarrow> nat \<Rightarrow> 'a \<Rightarrow> 'a deque_state \<Rightarrow> ('a deque_state result) option" where
  "dq_resize B new_size x d =
     (let len = dq_size B d in
      if new_size < len then
        bindS (advance_by B (int new_size) (M_start d) d) (\<lambda>i.
        bindR (dq_erase_range B i (M_finish d) d) (\<lambda>(_, d). Some (Inr d)))
      else Some (dq_fill_insert B (M_finish d) (new_size - len) x d))"

definition dq_fill_assign :: "nat \<Rightarrow> nat \<Rightarrow> 'a \<Rightarrow> 'a deque_state \<Rightarrow> ('a deque_state result) option" where
  "dq_fill_assign B n val d =
     (if n > dq_size B d then
        bindS (fill_iters B (M_start d) (M_finish d) val d) (\<lambda>d.
        Some (dq_fill_insert B (M_finish d) (n - dq_size B d) val d))
      else
        bindS (advance_by B (int n) (M_start d) d) (\<lambda>i.
        bindR (dq_erase_range B i (M_finish d) d) (\<lambda>(_, d).
        Some (fill_iters B (M_start d) (M_finish d) val d))))"

definition dq_assign_range :: "nat \<Rightarrow> 'a list \<Rightarrow> 'a deque_state \<Rightarrow> ('a deque_state result) option" where
  "dq_assign_range B ys d =
     (let len = length ys; sz = dq_size B d in
      if len > sz then
        bindS (copy_list assign_at B (take sz ys) (M_start d) d) (\<lambda>(_, d).
        Some (dq_insert_range B (M_finish d) (drop sz ys) d))
      else
        bindS (copy_list assign_at B ys (M_start d) d) (\<lambda>(i, d).
        bindR (dq_erase_range B i (M_finish d) d) (\<lambda>(_, d). Some (Inr d))))"

primrec assign_input :: "nat \<Rightarrow> diter \<Rightarrow> 'a list \<Rightarrow> 'a deque_state \<Rightarrow> ('a list \<times> diter \<times> 'a deque_state) result" where
  "assign_input B cur [] d = Inr ([], cur, d)"
| "assign_input B cur (x # xs) d =
     (if same_cur cur (M_finish d) then Inr (x # xs, cur, d)
      else andThen (assign_at (M_first cur) (M_cur cur) x d) (\<lambda>d.
           andThen (increment B cur d) (\<lambda>cur. assign_input B cur xs d)))"

definition dq_assign_input :: "nat \<Rightarrow> 'a list \<Rightarrow> 'a deque_state \<Rightarrow> ('a deque_state result) option" where
  "dq_assign_input B ys d =
     bindS (assign_input B (M_start d) ys d) (\<lambda>(ys, cur, d).
       if ys = [] then bindR (dq_erase_range B cur (M_finish d) d) (\<lambda>(_, d). Some (Inr d))
       else Some (insert_input B (M_finish d) ys d))"

text \<open>The elements an iterator of another deque goes over.\<close>

primrec read_range :: "nat \<Rightarrow> nat \<Rightarrow> diter \<Rightarrow> 'a deque_state \<Rightarrow> ('a list) result" where
  "read_range B 0 i d = Inr []"
| "read_range B (Suc n) i d =
     andThen (deref_iter i d) (\<lambda>x.
     andThen (increment B i d) (\<lambda>i.
     andThen (read_range B n i d) (\<lambda>xs. Inr (x # xs))))"

text \<open>\<^verbatim>\<open>operator=\<close>: nothing happens when the other deque is this one, here \<open>None\<close>.\<close>

definition dq_assign :: "nat \<Rightarrow> 'a deque_state option \<Rightarrow> 'a deque_state \<Rightarrow> ('a deque_state result) option" where
  "dq_assign B other d =
     (case other of None \<Rightarrow> Some (Inr d)
      | Some x \<Rightarrow>
          let len = dq_size B d in
          bindS (read_range B (dq_size B x) (M_start x) x) (\<lambda>ys.
          if len \<ge> dq_size B x then
            bindS (copy_list assign_at B ys (M_start d) d) (\<lambda>(i, d).
            bindR (dq_erase_range B i (M_finish d) d) (\<lambda>(_, d). Some (Inr d)))
          else
            bindS (copy_list assign_at B (take len ys) (M_start d) d) (\<lambda>(_, d).
            Some (dq_insert_range B (M_finish d) (drop len ys) d))))"

text \<open>Buffers, map and iterators change hands.\<close>

definition dq_swap :: "'a deque_state \<Rightarrow> 'a deque_state \<Rightarrow> 'a deque_state \<times> 'a deque_state" where
  "dq_swap d x = (x, d)"

definition dq_move :: "'a deque_state \<Rightarrow> 'a deque_state \<times> 'a deque_state" where
  "dq_move src = (src, src\<lparr>M_map := [], buffers := Map.empty, M_finish := M_start src\<rparr>)"

section \<open>Constructors\<close>

primrec construct_cells :: "block \<Rightarrow> nat \<Rightarrow> 'a list \<Rightarrow> 'a deque_state \<Rightarrow> 'a deque_state result" where
  "construct_cells b i [] d = Inr d"
| "construct_cells b i (x # xs) d = andThen (construct_at b i x d) (construct_cells b (Suc i) xs)"

function fill_nodes :: "nat \<Rightarrow> nat \<Rightarrow> nat \<Rightarrow> 'a \<Rightarrow> 'a deque_state \<Rightarrow> 'a deque_state result" where
  "fill_nodes B cur fin val d =
     (if cur < fin then
        andThen (map_read (int cur) d) (\<lambda>b.
        andThen (construct_cells b 0 (replicate B val) d) (fill_nodes B (Suc cur) fin val))
      else Inr d)"
  by pat_completeness auto
termination by (relation "measure (\<lambda>(B, cur, fin, val, d). fin - cur)") auto

definition fill_initialize :: "nat \<Rightarrow> 'a \<Rightarrow> 'a deque_state \<Rightarrow> 'a deque_state result" where
  "fill_initialize B val d =
     andThen (fill_nodes B (M_node (M_start d)) (M_node (M_finish d)) val d) (\<lambda>d.
     construct_cells (M_first (M_finish d)) 0 (replicate (M_cur (M_finish d)) val) d)"

function range_nodes :: "nat \<Rightarrow> nat \<Rightarrow> nat \<Rightarrow> 'a list \<Rightarrow> 'a deque_state \<Rightarrow> ('a list \<times> 'a deque_state) result" where
  "range_nodes B cur fin ys d =
     (if cur < fin then
        andThen (map_read (int cur) d) (\<lambda>b.
        andThen (construct_cells b 0 (take B ys) d) (range_nodes B (Suc cur) fin (drop B ys)))
      else Inr (ys, d))"
  by pat_completeness auto
termination by (relation "measure (\<lambda>(B, cur, fin, ys, d). fin - cur)") auto

definition range_initialize :: "nat \<Rightarrow> 'a list \<Rightarrow> 'a deque_state result" where
  "range_initialize B ys =
     andThen (initialize_map B (length ys) no_deque) (\<lambda>d.
     andThen (range_nodes B (M_node (M_start d)) (M_node (M_finish d)) ys d) (\<lambda>(ys, d).
     construct_cells (M_first (M_finish d)) 0 ys d))"

definition range_initialize_input :: "nat \<Rightarrow> 'a list \<Rightarrow> 'a deque_state result" where
  "range_initialize_input B ys = andThen (initialize_map B 0 no_deque) (foldE (dq_push_back B) ys)"

declare fill_nodes.simps [simp del] range_nodes.simps [simp del]

definition deque_of_count :: "nat \<Rightarrow> nat \<Rightarrow> 'a \<Rightarrow> 'a deque_state result" where
  "deque_of_count B n val = andThen (initialize_map B n no_deque) (fill_initialize B val)"

definition deque_of_deque :: "nat \<Rightarrow> 'a deque_state \<Rightarrow> 'a deque_state result" where
  "deque_of_deque B x =
     andThen (initialize_map B (dq_size B x) no_deque) (\<lambda>d.
     andThen (read_range B (dq_size B x) (M_start x) x) (\<lambda>ys.
     andThen (copy_list construct_at B ys (M_start d) d) (\<lambda>(_, d). Inr d)))"

end
