(* ===== verification/Stl_Deque_Insert.thy ===== *)
theory Stl_Deque_Insert
  imports Stl_Deque_Moves Stl_Deque_Ops
begin

text \<open>
  Inserting into the middle of the deque: room is made at the nearer end, the elements on that
  side are moved there, the new elements take their place. \<open>holds_at\<close> says where in the cells of all
  buffers some elements are; each step of the code changes a range of these cells.
\<close>

section \<open>Elements in cells\<close>

definition holds_at :: "'a option list \<Rightarrow> nat \<Rightarrow> 'a list \<Rightarrow> bool" where
  "holds_at f s xs \<longleftrightarrow> s + length xs \<le> length f \<and> (\<forall>i<length xs. f ! (s + i) = Some (xs ! i))"

definition patched :: "nat \<Rightarrow> 'a list \<Rightarrow> 'a option list \<Rightarrow> 'a option list" where
  "patched t vs f = take t f @ map Some vs @ drop (t + length vs) f"

lemma length_patched: "t + length vs \<le> length f \<Longrightarrow> length (patched t vs f) = length f"
  by (simp add: patched_def)

lemma patched_nth:
  "t + length vs \<le> length f \<Longrightarrow> i < length f \<Longrightarrow>
    patched t vs f ! i = (if t \<le> i \<and> i < t + length vs then Some (vs ! (i - t)) else f ! i)"
  by (auto simp: patched_def nth_append)

lemma holds_at_append: "holds_at f s (xs @ ys) \<longleftrightarrow> holds_at f s xs \<and> holds_at f (s + length xs) ys"
proof
  assume l: "holds_at f s (xs @ ys)"
  then have "f ! (s + length xs + i) = Some (ys ! i)" if "i < length ys" for i
    using that by (auto simp: holds_at_def nth_append add.assoc dest!: spec [of _ "length xs + i"])
  moreover have "f ! (s + i) = Some (xs ! i)" if "i < length xs" for i
    using l that by (auto simp: holds_at_def nth_append dest!: spec [of _ i])
  ultimately show "holds_at f s xs \<and> holds_at f (s + length xs) ys" using l by (simp add: holds_at_def)
next
  assume r: "holds_at f s xs \<and> holds_at f (s + length xs) ys"
  have "f ! (s + i) = Some ((xs @ ys) ! i)" if "i < length (xs @ ys)" for i
  proof (cases "i < length xs")
    case False
    then have "i - length xs < length ys" "s + length xs + (i - length xs) = s + i" using that by simp_all
    then have "f ! (s + i) = Some (ys ! (i - length xs))" using r by (metis holds_at_def)
    with False show ?thesis by (simp add: nth_append)
  qed (use r in \<open>simp add: holds_at_def nth_append\<close>)
  with r show "holds_at f s (xs @ ys)" by (simp add: holds_at_def add.assoc)
qed

lemma holds_at_moved:
  "holds_at f s xs \<Longrightarrow> n = length xs \<Longrightarrow> t + n \<le> length f \<Longrightarrow> holds_at (memmove t s n f) t xs"
  by (auto simp: holds_at_def memmove_length memmove_nth)

lemma holds_at_beside_move:
  assumes "holds_at f s xs" "u + n \<le> length f" "t + n \<le> length f" "s + length xs \<le> t \<or> t + n \<le> s"
  shows "holds_at (memmove t u n f) s xs"
  using assms by (auto simp: holds_at_def memmove_length memmove_nth)

lemma holds_at_patched: "t + length vs \<le> length f \<Longrightarrow> holds_at (patched t vs f) t vs"
  by (simp add: holds_at_def length_patched patched_nth)

lemma holds_at_beside_patch:
  assumes "holds_at f s xs" "t + length vs \<le> length f" "s + length xs \<le> t \<or> t + length vs \<le> s"
  shows "holds_at (patched t vs f) s xs"
  using assms by (auto simp: holds_at_def length_patched patched_nth)

lemma holds_at_some: "holds_at f s xs \<Longrightarrow> i < length xs \<Longrightarrow> f ! (s + i) \<noteq> None"
  by (simp add: holds_at_def)

lemmas holds_at_simps = holds_at_append length_patched memmove_length

text \<open>The four ways in which the code rearranges the cells.\<close>

lemma front_many:
  assumes "holds_at f s (x1 @ x2 @ x3)" "length x1 = length ys" "length ys \<le> s"
  shows "holds_at (patched (s + length x2) ys (memmove s (s + length ys) (length x2) (memmove (s - length ys) s (length ys) f)))
    (s - length ys) (x1 @ x2 @ ys @ x3)"
proof -
  let ?n = "length ys" and ?m = "length x2"
  let ?f1 = "memmove (s - ?n) s ?n f"
  let ?f2 = "memmove s (s + ?n) ?m ?f1"
  have h: "holds_at f s x1" "holds_at f (s + ?n) x2" "holds_at f (s + ?n + ?m) x3"
    using assms(1,2) by (simp_all add: holds_at_append add.assoc)
  have len: "s + ?n + ?m \<le> length f" "length ?f1 = length f" "length ?f2 = length f"
    using h(3) assms(3) by (simp_all add: holds_at_def memmove_length)
  have 1: "holds_at ?f1 (s - ?n) x1" "holds_at ?f1 (s + ?n) x2" "holds_at ?f1 (s + ?n + ?m) x3"
    using h len assms(2,3) by (auto intro!: holds_at_moved holds_at_beside_move)
  have 2: "holds_at ?f2 (s - ?n) x1" "holds_at ?f2 s x2" "holds_at ?f2 (s + ?n + ?m) x3"
    using 1 len assms(2,3) by (auto intro!: holds_at_moved holds_at_beside_move)
  have "holds_at (patched (s + ?m) ys ?f2) (s - ?n) x1" "holds_at (patched (s + ?m) ys ?f2) s x2"
    "holds_at (patched (s + ?m) ys ?f2) (s + ?m) ys" "holds_at (patched (s + ?m) ys ?f2) (s + ?n + ?m) x3"
    using 2 len assms(2,3) by (auto intro!: holds_at_patched holds_at_beside_patch)
  then show ?thesis using assms(2,3) by (simp add: holds_at_append add.commute add.left_commute)
qed

lemma front_few:
  assumes "holds_at f s (x1 @ x2)" "length x1 + length y1 = n" "n \<le> s" "length y2 = length x1"
  shows "holds_at (patched s y2 (patched (s - n + length x1) y1 (memmove (s - n) s (length x1) f))) (s - n) (x1 @ y1 @ y2 @ x2)"
proof -
  let ?k = "length x1"
  let ?f1 = "memmove (s - n) s ?k f"
  let ?f2 = "patched (s - n + ?k) y1 ?f1"
  have h: "holds_at f s x1" "holds_at f (s + ?k) x2" using assms(1) by (simp_all add: holds_at_append)
  have "s + ?k + length x2 \<le> length f" using h(2) by (simp add: holds_at_def)
  then have len: "s + ?k \<le> length f" "length ?f1 = length f" "length ?f2 = length f" "s - n + ?k + length y1 = s"
    using assms(2,3) by (simp_all add: memmove_length length_patched)
  have 1: "holds_at ?f1 (s - n) x1" "holds_at ?f1 (s + ?k) x2"
    using h len assms(2,3) by (auto intro!: holds_at_moved holds_at_beside_move)
  have 2: "holds_at ?f2 (s - n) x1" "holds_at ?f2 (s - n + ?k) y1" "holds_at ?f2 (s + ?k) x2"
    using 1 len assms(2,3) by (auto intro!: holds_at_patched holds_at_beside_patch)
  have "holds_at (patched s y2 ?f2) (s - n) x1" "holds_at (patched s y2 ?f2) (s - n + ?k) y1"
    "holds_at (patched s y2 ?f2) s y2" "holds_at (patched s y2 ?f2) (s + ?k) x2"
    using 2 len assms by (auto intro!: holds_at_patched holds_at_beside_patch)
  then show ?thesis using len(4) assms(4) by (simp add: holds_at_append)
qed

lemma back_many:
  assumes "holds_at f s (x1 @ x2 @ x3)" "length x3 = length ys" "s + length (x1 @ x2 @ x3) + length ys \<le> length f"
    "q = s + length (x1 @ x2 @ x3)"
  shows "holds_at (patched (s + length x1) ys (memmove (q - length x2) (s + length x1) (length x2) (memmove q (q - length ys) (length ys) f)))
    s (x1 @ ys @ x2 @ x3)"
proof -
  define n m k where "n = length ys" and "m = length x2" and "k = s + length x1"
  define f1 where "f1 = memmove q (q - n) n f"
  define f2 where "f2 = memmove (q - m) k m f1"
  have q: "q - n = k + m" "q - m = k + n" "q = k + m + n" using assms(2,4) by (simp_all add: n_def m_def k_def)
  have h: "holds_at f s x1" "holds_at f k x2" "holds_at f (k + m) x3"
    using assms(1) by (simp_all add: holds_at_append add.assoc m_def k_def)
  have len: "q + n \<le> length f" "length f1 = length f" "length f2 = length f"
    using assms(3,4) q by (simp_all add: f1_def f2_def memmove_length n_def)
  have "holds_at f1 s x1" "holds_at f1 k x2"
    unfolding f1_def using h len q by (auto intro!: holds_at_beside_move simp: k_def m_def)
  moreover have "holds_at f1 q x3"
    unfolding f1_def q(1) using h(3) len(1) assms(2) by (intro holds_at_moved) (simp_all add: n_def)
  ultimately have "holds_at f2 s x1" "holds_at f2 q x3" "holds_at f2 (k + n) x2"
    unfolding f2_def q(2) using len q(3) by (auto intro!: holds_at_beside_move holds_at_moved simp: k_def m_def)
  then have "holds_at (patched k ys f2) s x1" "holds_at (patched k ys f2) k ys"
    "holds_at (patched k ys f2) (k + n) x2" "holds_at (patched k ys f2) q x3"
    using len q(3) by (auto intro!: holds_at_patched holds_at_beside_patch simp: k_def n_def)
  then have "holds_at (patched k ys f2) s (x1 @ ys @ x2 @ x3)"
    using q(3) by (simp add: holds_at_append k_def n_def m_def add.commute add.left_commute)
  then show ?thesis by (simp add: f1_def f2_def n_def m_def k_def)
qed

lemma back_few:
  assumes "holds_at f s (x1 @ x2)" "length y1 = length x2" "q = s + length (x1 @ x2)" "q + length (y1 @ y2) \<le> length f"
  shows "holds_at (patched (s + length x1) y1 (memmove (q + length y2) (s + length x1) (length x2) (patched q y2 f))) s (x1 @ y1 @ y2 @ x2)"
proof -
  let ?k = "s + length x1" and ?a = "length x2"
  let ?f1 = "patched q y2 f"
  let ?f2 = "memmove (q + length y2) ?k ?a ?f1"
  have h: "holds_at f s x1" "holds_at f ?k x2" using assms(1) by (simp_all add: holds_at_append)
  have len: "q = ?k + ?a" "q + length y2 + ?a \<le> length f" "length ?f1 = length f" "length ?f2 = length f"
    using assms(2-) by (simp_all add: memmove_length length_patched)
  have 1: "holds_at ?f1 s x1" "holds_at ?f1 ?k x2" "holds_at ?f1 q y2"
    using h len by (auto intro!: holds_at_patched holds_at_beside_patch)
  have 2: "holds_at ?f2 s x1" "holds_at ?f2 q y2" "holds_at ?f2 (q + length y2) x2"
    using 1 len by (auto intro!: holds_at_moved holds_at_beside_move)
  have "holds_at (patched ?k y1 ?f2) s x1" "holds_at (patched ?k y1 ?f2) ?k y1"
    "holds_at (patched ?k y1 ?f2) q y2" "holds_at (patched ?k y1 ?f2) (q + length y2) x2"
    using 2 len assms(2) by (auto intro!: holds_at_patched holds_at_beside_patch)
  then show ?thesis using len assms(2) by (simp add: holds_at_append add.assoc)
qed

section \<open>Loops over cells\<close>

lemma put_cell:
  assumes "nodes_ok B d base bs flat" "p < length flat"
    "put = construct_at \<or> put = assign_at \<and> flat ! p \<noteq> None"
  obtains m where "put (bs ! (p div B)) (p mod B) x d = Inr (d\<lparr>buffers := m\<rparr>)"
    "nodes_ok B (d\<lparr>buffers := m\<rparr>) base bs (flat[p := Some x])"
proof -
  obtain m where w: "cell_write (bs ! (p div B)) (p mod B) (Some x) d = Inr (d\<lparr>buffers := m\<rparr>)"
    and n: "nodes_ok B (d\<lparr>buffers := m\<rparr>) base bs (flat[p := Some x])"
    using cell_write_at [OF assms(1,2)] by blast
  have "put (bs ! (p div B)) (p mod B) x d = Inr (d\<lparr>buffers := m\<rparr>)"
    using assms(3) w cell_read_at [OF assms(1,2)] by (auto simp: construct_at_def assign_at_def)
  with n that show ?thesis by blast
qed

lemma copy_cells:
  assumes "nodes_ok B d base bs flat" "s + n < length flat" "t + n < length flat" "no_clobber s (s + n) t"
    "\<And>i. i < n \<Longrightarrow> flat ! (s + i) \<noteq> None"
    "put = construct_at \<or> put = assign_at \<and> (\<forall>i<n. flat ! (t + i) \<noteq> None)"
  obtains m where "copy_with put B n (it_at B base bs s) (it_at B base bs t) d = Inr (it_at B base bs (t + n), d\<lparr>buffers := m\<rparr>)"
    "nodes_ok B (d\<lparr>buffers := m\<rparr>) base bs (memmove t s n flat)"
proof -
  have e: "snd (copy_random n s t flat) = memmove t s n flat"
    using assms(2-4) by (subst copy_random_memmove) simp_all
  have "\<exists>m. copy_with put B n (it_at B base bs s) (it_at B base bs t) d = Inr (it_at B base bs (t + n), d\<lparr>buffers := m\<rparr>) \<and>
    nodes_ok B (d\<lparr>buffers := m\<rparr>) base bs (snd (copy_random n s t flat))"
    using assms(1-3,5,6)
  proof (induction n arbitrary: s t d flat)
    case 0
    have "d = d\<lparr>buffers := buffers d\<rparr>" by simp
    with 0 show ?case by (metis add_0_right copy_random.simps(1) copy_with.simps(1) snd_conv)
  next
    case (Suc n)
    obtain x where x: "flat ! s = Some x" using Suc.prems(4) [of 0] by auto
    have lt: "s < length flat" "t < length flat" using Suc.prems(2,3) by simp_all
    have "put = construct_at \<or> put = assign_at \<and> flat ! t \<noteq> None" using Suc.prems(5) by (metis add_0_right zero_less_Suc)
    then obtain m where a: "put (bs ! (t div B)) (t mod B) x d = Inr (d\<lparr>buffers := m\<rparr>)"
      and n: "nodes_ok B (d\<lparr>buffers := m\<rparr>) base bs (flat[t := Some x])"
      using put_cell [OF Suc.prems(1) lt(2)] by blast
    have "deref_iter (it_at B base bs s) d = Inr x"
      using cell_read_at [OF Suc.prems(1) lt(1)] x by (simp add: deref_iter_def)
    moreover have inc: "increment B (it_at B base bs s) (d\<lparr>buffers := m\<rparr>) = Inr (it_at B base bs (Suc s))"
      "increment B (it_at B base bs t) (d\<lparr>buffers := m\<rparr>) = Inr (it_at B base bs (Suc t))"
      using increment_it [OF n] Suc.prems(2,3) by simp_all
    moreover have "\<exists>m'. copy_with put B n (it_at B base bs (Suc s)) (it_at B base bs (Suc t)) (d\<lparr>buffers := m\<rparr>) =
        Inr (it_at B base bs (Suc t + n), d\<lparr>buffers := m, buffers := m'\<rparr>) \<and>
      nodes_ok B (d\<lparr>buffers := m, buffers := m'\<rparr>) base bs (snd (copy_random n (Suc s) (Suc t) (flat[t := Some x])))"
    proof (rule Suc.IH [OF n])
      show "flat[t := Some x] ! (Suc s + i) \<noteq> None" if "i < n" for i
        using Suc.prems(4) [of "Suc i"] that lt(2) by (simp add: nth_list_update)
      show "put = construct_at \<or> put = assign_at \<and> (\<forall>i<n. flat[t := Some x] ! (Suc t + i) \<noteq> None)"
        using Suc.prems(5) lt(2) by (auto simp: nth_list_update)
    qed (use Suc.prems(2,3) in simp_all)
    ultimately show ?case using a x by auto
  qed
  then show ?thesis using that unfolding e by blast
qed

lemma list_update_patched:
  assumes "t + length (x # xs) \<le> length flat"
  shows "patched (Suc t) xs (flat[t := Some x]) = patched t (x # xs) flat"
  using assms by (simp add: patched_def take_Suc_conv_app_nth drop_update_cancel)

lemma copy_list_cells:
  assumes "nodes_ok B d base bs flat" "t + length ys < length flat"
    "put = construct_at \<or> put = assign_at \<and> (\<forall>i<length ys. flat ! (t + i) \<noteq> None)"
  obtains m where "copy_list put B ys (it_at B base bs t) d = Inr (it_at B base bs (t + length ys), d\<lparr>buffers := m\<rparr>)"
    "nodes_ok B (d\<lparr>buffers := m\<rparr>) base bs (patched t ys flat)"
proof -
  have "\<exists>m. copy_list put B ys (it_at B base bs t) d = Inr (it_at B base bs (t + length ys), d\<lparr>buffers := m\<rparr>) \<and>
    nodes_ok B (d\<lparr>buffers := m\<rparr>) base bs (patched t ys flat)"
    using assms
  proof (induction ys arbitrary: t d flat)
    case Nil
    have "d = d\<lparr>buffers := buffers d\<rparr>" "patched t [] flat = flat" by (simp_all add: patched_def)
    with Nil show ?case by (metis add_0_right copy_list.simps(1) list.size(3))
  next
    case (Cons x ys)
    have lt: "t < length flat" using Cons.prems(2) by simp
    have "put = construct_at \<or> put = assign_at \<and> flat ! t \<noteq> None" using Cons.prems(3) by (metis add_0_right length_Cons zero_less_Suc)
    then obtain m where a: "put (bs ! (t div B)) (t mod B) x d = Inr (d\<lparr>buffers := m\<rparr>)"
      and n: "nodes_ok B (d\<lparr>buffers := m\<rparr>) base bs (flat[t := Some x])"
      using put_cell [OF Cons.prems(1) lt] by blast
    have "increment B (it_at B base bs t) (d\<lparr>buffers := m\<rparr>) = Inr (it_at B base bs (Suc t))"
      using increment_it [OF n] Cons.prems(2) by simp
    moreover have "\<exists>m'. copy_list put B ys (it_at B base bs (Suc t)) (d\<lparr>buffers := m\<rparr>) =
        Inr (it_at B base bs (Suc t + length ys), d\<lparr>buffers := m, buffers := m'\<rparr>) \<and>
      nodes_ok B (d\<lparr>buffers := m, buffers := m'\<rparr>) base bs (patched (Suc t) ys (flat[t := Some x]))"
    proof (rule Cons.IH [OF n])
      show "put = construct_at \<or> put = assign_at \<and> (\<forall>i<length ys. flat[t := Some x] ! (Suc t + i) \<noteq> None)"
        using Cons.prems(3) lt by (auto simp: nth_list_update)
    qed (use Cons.prems(2) in simp)
    moreover have "patched (Suc t) ys (flat[t := Some x]) = patched t (x # ys) flat"
      using Cons.prems(2) by (intro list_update_patched) simp
    ultimately show ?case using a by auto
  qed
  with that show ?thesis by blast
qed

text \<open>Filling is copying the same element.\<close>

lemma fill_with_copy_list:
  "fill_with put B n i x d = andThen (copy_list put B (replicate n x) i d) (\<lambda>(_, d). Inr d)"
proof (induction n arbitrary: i d)
  case (Suc n)
  show ?case
  proof (cases "put (M_first i) (M_cur i) x d")
    case (Inr d')
    then show ?thesis using Suc by (cases "increment B i d'") simp_all
  qed simp
qed simp

lemma fill_cells:
  assumes "nodes_ok B d base bs flat" "t + n < length flat"
    "put = construct_at \<or> put = assign_at \<and> (\<forall>i<n. flat ! (t + i) \<noteq> None)"
  obtains m where "fill_with put B n (it_at B base bs t) x d = Inr (d\<lparr>buffers := m\<rparr>)"
    "nodes_ok B (d\<lparr>buffers := m\<rparr>) base bs (patched t (replicate n x) flat)"
proof -
  have "t + length (replicate n x) < length flat"
    "put = construct_at \<or> put = assign_at \<and> (\<forall>i<length (replicate n x). flat ! (t + i) \<noteq> None)"
    using assms(2,3) by simp_all
  then obtain m where "copy_list put B (replicate n x) (it_at B base bs t) d = Inr (it_at B base bs (t + length (replicate n x)), d\<lparr>buffers := m\<rparr>)"
    "nodes_ok B (d\<lparr>buffers := m\<rparr>) base bs (patched t (replicate n x) flat)"
    using copy_list_cells [OF assms(1)] by blast
  then show ?thesis using that by (simp add: fill_with_copy_list)
qed

lemma copy_backward_cells:
  assumes "nodes_ok B d base bs flat" "n \<le> s" "s < length flat" "n \<le> t" "t < length flat" "s \<le> t"
    "\<And>i. i < n \<Longrightarrow> flat ! (s - n + i) \<noteq> None" "\<And>i. i < n \<Longrightarrow> flat ! (t - n + i) \<noteq> None"
  obtains m where "copy_backward_loop B n (it_at B base bs s) (it_at B base bs t) d = Inr (it_at B base bs (t - n), d\<lparr>buffers := m\<rparr>)"
    "nodes_ok B (d\<lparr>buffers := m\<rparr>) base bs (memmove (t - n) (s - n) n flat)"
proof -
  have e: "snd (copy_backward_random n s t flat) = memmove (t - n) (s - n) n flat"
    using assms(2-6) by (subst copy_backward_random_memmove) simp_all
  have "\<exists>m. copy_backward_loop B n (it_at B base bs s) (it_at B base bs t) d = Inr (it_at B base bs (t - n), d\<lparr>buffers := m\<rparr>) \<and>
    nodes_ok B (d\<lparr>buffers := m\<rparr>) base bs (snd (copy_backward_random n s t flat))"
    using assms(1-5,7,8)
  proof (induction n arbitrary: s t d flat)
    case 0
    have "d = d\<lparr>buffers := buffers d\<rparr>" by simp
    with 0 show ?case by (metis copy_backward_loop.simps(1) copy_backward_random.simps(1) minus_nat.diff_0 snd_conv)
  next
    case (Suc n)
    obtain s' t' where st: "s = Suc s'" "t = Suc t'" using Suc.prems(2,4) by (metis Suc_le_D)
    have lt: "s' < length flat" "t' < length flat" "n \<le> s'" "n \<le> t'" using Suc.prems st by simp_all
    have "flat ! s' \<noteq> None" "flat ! t' \<noteq> None"
      using Suc.prems(6) [of n] Suc.prems(7) [of n] lt st by simp_all
    then obtain x where x: "flat ! s' = Some x" "assign_at = assign_at \<and> flat ! t' \<noteq> None" by auto
    obtain m where a: "assign_at (bs ! (t' div B)) (t' mod B) x d = Inr (d\<lparr>buffers := m\<rparr>)"
      and n: "nodes_ok B (d\<lparr>buffers := m\<rparr>) base bs (flat[t' := Some x])"
      using put_cell [OF Suc.prems(1) lt(2), of assign_at] x(2) by blast
    have "deref_iter (it_at B base bs s') d = Inr x"
      using cell_read_at [OF Suc.prems(1) lt(1)] x by (simp add: deref_iter_def)
    moreover have "decrement B (it_at B base bs s) d = Inr (it_at B base bs s')" "decrement B (it_at B base bs t) d = Inr (it_at B base bs t')"
      using decrement_it [OF Suc.prems(1)] Suc.prems(3,5) by (simp_all add: st)
    moreover have "\<exists>m'. copy_backward_loop B n (it_at B base bs s') (it_at B base bs t') (d\<lparr>buffers := m\<rparr>) =
        Inr (it_at B base bs (t' - n), d\<lparr>buffers := m, buffers := m'\<rparr>) \<and>
      nodes_ok B (d\<lparr>buffers := m, buffers := m'\<rparr>) base bs (snd (copy_backward_random n s' t' (flat[t' := Some x])))"
    proof (rule Suc.IH [OF n])
      show "flat[t' := Some x] ! (s' - n + i) \<noteq> None" if "i < n" for i
        using Suc.prems(6) [of i] that lt by (simp add: nth_list_update st)
      show "flat[t' := Some x] ! (t' - n + i) \<noteq> None" if "i < n" for i
        using Suc.prems(7) [of i] that lt by (simp add: nth_list_update st)
    qed (use lt in simp_all)
    ultimately show ?case using a x st by auto
  qed
  then show ?thesis using that unfolding e by blast
qed

lemma iters_cells [simp]:
  "copy_iters B (it_at B base bs s) (it_at B base bs e) r d = copy_with assign_at B (e - s) (it_at B base bs s) r d"
  "ucopy_iters B (it_at B base bs s) (it_at B base bs e) r d = copy_with construct_at B (e - s) (it_at B base bs s) r d"
  "copy_backward_iters B (it_at B base bs s) (it_at B base bs e) r d = copy_backward_loop B (e - s) (it_at B base bs e) r d"
  "fill_iters B (it_at B base bs s) (it_at B base bs e) x d = fill_with assign_at B (e - s) (it_at B base bs s) x d"
  "ufill_iters B (it_at B base bs s) (it_at B base bs e) x d = fill_with construct_at B (e - s) (it_at B base bs s) x d"
  by (simp_all add: copy_iters_def ucopy_iters_def copy_backward_iters_def fill_iters_def ufill_iters_def nat_minus_as_int)

section \<open>Room at the ends\<close>

definition deque_room :: "nat \<Rightarrow> 'a deque_state \<Rightarrow> nat \<Rightarrow> block list \<Rightarrow> 'a option list \<Rightarrow> nat \<Rightarrow> 'a list \<Rightarrow> bool" where
  "deque_room B d base bs flat s xs \<longleftrightarrow>
     nodes_ok B d base bs flat \<and> M_start d = it_at B base bs s \<and> M_finish d = it_at B base bs (s + length xs) \<and>
     s + length xs < length flat \<and> holds_at flat s xs"

lemma deque_roomD:
  assumes "deque_room B d base bs flat s xs"
  shows "nodes_ok B d base bs flat" "M_start d = it_at B base bs s" "M_finish d = it_at B base bs (s + length xs)"
    "s + length xs < length flat" "holds_at flat s xs"
  using assms by (simp_all add: deque_room_def)

lemma deque_at_room:
  "deque_at B d base bs flat p xs \<Longrightarrow> deque_room B d base bs flat p xs"
  using deque_atD(1,5,6,9,10) [of B d base bs flat p xs] by (simp add: deque_room_def holds_at_def)

lemma deque_at_of_room:
  "deque_room B d base bs flat s xs \<Longrightarrow> s < B \<Longrightarrow> length bs = (s + length xs) div B + 1 \<Longrightarrow>
    deque_at B d base bs flat s xs"
  by (simp add: deque_room_def holds_at_def deque_at_def ends_ok_def)

lemma front_nodes_ok:
  assumes "nodes_ok B d (base + k) bs flat" "M_node (M_start d) = base + k + j"
  shows "\<exists>d' cs. front_nodes B (Suc j) (j + k) d = Inr d' \<and> length cs = k \<and>
    nodes_ok B d' base (cs @ bs) (replicate (B * k) None @ flat) \<and> M_start d' = M_start d \<and> M_finish d' = M_finish d"
  using assms
proof (induction k arbitrary: j d bs flat)
  case 0
  then show ?case by (subst front_nodes.simps) (auto intro!: exI [of _ "[]"])
next
  case (Suc k)
  obtain b d1 where al: "allocate B d = (b, d1)" by (metis surj_pair)
  have n0: "nodes_ok B d (Suc (base + k)) bs flat" using Suc.prems(1) by simp
  obtain m where w: "map_write (int (base + k)) b d1 = Inr (d1\<lparr>M_map := m\<rparr>)"
    and n: "nodes_ok B (d1\<lparr>M_map := m\<rparr>) (base + k) (b # bs) (replicate B None @ flat)"
    and e: "M_start d1 = M_start d" "M_finish d1 = M_finish d"
    using new_buffer_front [OF n0 al] by blast
  have node: "int (M_node (M_start d1)) - int (Suc j) = int (base + k)" using Suc.prems(2) e by simp
  obtain d' cs where r: "front_nodes B (Suc (Suc j)) (Suc j + k) (d1\<lparr>M_map := m\<rparr>) = Inr d'" "length cs = k"
    "nodes_ok B d' base (cs @ b # bs) (replicate (B * k) None @ replicate B None @ flat)"
    "M_start d' = M_start d" "M_finish d' = M_finish d"
    using Suc.IH [OF n, of "Suc j"] Suc.prems(2) e by auto
  have "front_nodes B (Suc j) (j + Suc k) d = Inr d'"
    using al w r(1) node by (subst front_nodes.simps) (simp del: of_nat_add of_nat_Suc)
  moreover have "replicate (B * k) None @ replicate B None @ flat = replicate (B * Suc k) None @ flat"
    using replicate_add [of "B * k" B "None :: 'a option"] by (simp add: add.commute)
  then have "nodes_ok B d' base (cs @ b # bs) (replicate (B * Suc k) None @ flat)" using r(3) by (simp only:)
  ultimately show ?case using r by (intro exI [of _ d'] exI [of _ "cs @ [b]"]) simp
qed

lemma back_nodes_ok:
  assumes "nodes_ok B d base bs flat" "M_node (M_finish d) + Suc j = base + length bs" "base + length bs + k \<le> length (M_map d)"
  shows "\<exists>d' cs. back_nodes B (Suc j) (j + k) d = Inr d' \<and> length cs = k \<and>
    nodes_ok B d' base (bs @ cs) (flat @ replicate (B * k) None) \<and> M_start d' = M_start d \<and> M_finish d' = M_finish d"
  using assms
proof (induction k arbitrary: j d bs flat)
  case 0
  then show ?case by (subst back_nodes.simps) (auto intro!: exI [of _ "[]"])
next
  case (Suc k)
  obtain b d1 where al: "allocate B d = (b, d1)" by (metis surj_pair)
  have lt: "base + length bs < length (M_map d)" using Suc.prems(3) by simp
  obtain m where w: "map_write (int (base + length bs)) b d1 = Inr (d1\<lparr>M_map := m\<rparr>)" "length m = length (M_map d)"
    and n: "nodes_ok B (d1\<lparr>M_map := m\<rparr>) base (bs @ [b]) (flat @ replicate B None)"
    and e: "M_start d1 = M_start d" "M_finish d1 = M_finish d"
    using new_buffer_back [OF Suc.prems(1) lt al] by blast
  have node: "int (M_node (M_finish d1)) + int (Suc j) = int (base + length bs)" using Suc.prems(2) e by simp
  obtain d' cs where r: "back_nodes B (Suc (Suc j)) (Suc j + k) (d1\<lparr>M_map := m\<rparr>) = Inr d'" "length cs = k"
    "nodes_ok B d' base ((bs @ [b]) @ cs) ((flat @ replicate B None) @ replicate (B * k) None)"
    "M_start d' = M_start d" "M_finish d' = M_finish d"
    using Suc.IH [OF n, of "Suc j"] Suc.prems(2,3) e w(2) by auto
  have "back_nodes B (Suc j) (j + Suc k) d = Inr d'"
    using al w(1) r(1) node by (subst back_nodes.simps) (simp del: of_nat_add of_nat_Suc)
  moreover have "(flat @ replicate B None) @ replicate (B * k) None = flat @ replicate (B * Suc k) None"
    by (simp add: replicate_add)
  ultimately show ?case using r by (intro exI [of _ d'] exI [of _ "b # cs"]) (simp only: append_assoc append.simps length_Cons simp_thms)
qed

lemma it_at_shift:
  "0 < B \<Longrightarrow> length cs = k \<Longrightarrow> it_at B (base + k) bs p = it_at B base (cs @ bs) (B * k + p)"
  by (simp add: it_at_def nth_append)

lemma round_up:
  fixes e B :: nat
  assumes "0 < B"
  shows "e \<le> B * ((e + B - 1) div B)" "B * ((e + B - 1) div B) < e + B"
proof -
  have "e + B - 1 = B * ((e + B - 1) div B) + (e + B - 1) mod B" by simp
  moreover have "(e + B - 1) mod B < B" using assms by simp
  ultimately show "e \<le> B * ((e + B - 1) div B)" "B * ((e + B - 1) div B) < e + B" using assms by linarith+
qed

lemma below_blocks: "0 < B \<Longrightarrow> x < B * (x div B + 1)" for x B :: nat
  using dividend_less_times_div [of B x] by simp

lemma reserve_front_room:
  assumes "deque_at B d base bs flat p xs"
  obtains d' base' bs' flat' s where "reserve_elements_at_front B n d = Inr (it_at B base' bs' (s - n), d')"
    "deque_room B d' base' bs' flat' s xs" "n \<le> s" "s - n < B" "length bs' = (s + length xs) div B + 1"
proof -
  note D = deque_atD [OF assms]
  note R = deque_roomD [OF deque_at_room [OF assms]]
  have vac: "M_cur (M_start d) = p" using D(4,5) by simp
  show ?thesis
  proof (cases "n \<le> p")
    case True
    have "advance_by B (- int n) (M_start d) d = Inr (it_at B base bs (p - n))"
      unfolding D(5) using True D(9) by (intro advance_it [OF D(1)]) simp_all
    then have "reserve_elements_at_front B n d = Inr (it_at B base bs (p - n), d)"
      using True vac by (simp add: reserve_elements_at_front_def)
    then show ?thesis using that [OF _ deque_at_room [OF assms]] True D(4,7) by simp
  next
    case False
    define k where "k = (n - p + B - 1) div B"
    have k: "n - p \<le> B * k" "B * k < n - p + B" using round_up [OF D(3), of "n - p"] by (simp_all add: k_def)
    obtain d1 base1 where r: "reserve_map_at_front k d = Inr d1" "nodes_ok B d1 base1 bs flat"
        "ends_ok B d1 base1 bs p (p + length xs)" "k \<le> base1"
      using reserve_front_ok [OF D(1,2)] by blast
    then obtain b0 where b0: "base1 = b0 + k" by (metis add.commute le_iff_add)
    have "M_node (M_start d1) = b0 + k + 0" using r(3) D(4) b0 by (simp add: ends_ok_def)
    then obtain d' cs where f: "front_nodes B 1 k d1 = Inr d'" "length cs = k"
      "nodes_ok B d' b0 (cs @ bs) (replicate (B * k) None @ flat)" "M_start d' = M_start d1" "M_finish d' = M_finish d1"
      using front_nodes_ok [of B d1 b0 k bs flat 0] r(2) b0 by auto
    let ?s = "B * k + p" and ?bs = "cs @ bs" and ?flat = "replicate (B * k) None @ flat"
    have ends: "M_start d' = it_at B b0 ?bs ?s" "M_finish d' = it_at B b0 ?bs (?s + length xs)"
      using r(3) f(4,5) it_at_shift [OF D(3) f(2)] b0 by (simp_all add: ends_ok_def add.assoc)
    have "holds_at ?flat ?s xs" using R(5) by (auto simp: holds_at_def nth_append)
    then have room: "deque_room B d' b0 ?bs ?flat ?s xs" using f(3) ends D(9) by (simp add: deque_room_def)
    have n: "n \<le> ?s" "?s - n < B" using k False by simp_all
    have "advance_by B (- int n) (M_start d') d' = Inr (it_at B b0 ?bs (?s - n))"
      unfolding ends(1) using n(1) deque_roomD(4) [OF room] by (intro advance_it [OF f(3)]) simp_all
    then have "reserve_elements_at_front B n d = Inr (it_at B b0 ?bs (?s - n), d')"
      using False vac r(1) f(1) by (simp add: reserve_elements_at_front_def new_elements_at_front_def k_def)
    moreover have "length ?bs = (?s + length xs) div B + 1" using f(2) D(3,7) by (simp add: add.assoc)
    ultimately show ?thesis using that room n by blast
  qed
qed

lemma reserve_back_room:
  assumes "deque_at B d base bs flat p xs"
  obtains d' base' bs' flat' where "reserve_elements_at_back B n d = Inr (it_at B base' bs' (p + length xs + n), d')"
    "deque_room B d' base' bs' flat' p xs" "p + length xs + n < length flat'" "length bs' = (p + length xs + n) div B + 1"
proof -
  note D = deque_atD [OF assms]
  note R = deque_roomD [OF deque_at_room [OF assms]]
  let ?q = "p + length xs"
  have vac: "M_cur (M_finish d) = ?q mod B" using D(6) by simp
  have qB: "?q mod B < B" "?q = B * (?q div B) + ?q mod B" using D(3) by simp_all
  show ?thesis
  proof (cases "n > (B - ?q mod B) - 1")
    case False
    then have "?q mod B + n < B" using qB(1) by linarith
    have e: "(?q + n) div B = ?q div B"
    proof (rule div_nat_eqI)
      show "B * (?q div B) \<le> ?q + n" using qB(2) by linarith
      show "?q + n < B * Suc (?q div B)" unfolding mult_Suc_right using qB(2) \<open>?q mod B + n < B\<close> by linarith
    qed
    have lt: "?q + n < length flat"
      using below_blocks [OF D(3), of "?q + n"] e D(7,8) by simp
    have "advance_by B (int n) (M_finish d) d = Inr (it_at B base bs (?q + n))"
      unfolding D(6) using lt by (intro advance_it [OF D(1)]) simp_all
    then have "reserve_elements_at_back B n d = Inr (it_at B base bs (?q + n), d)"
      using False vac by (simp add: reserve_elements_at_back_def)
    then show ?thesis using that [OF _ deque_at_room [OF assms] lt] e D(7) by simp
  next
    case True
    define e where "e = n - ((B - ?q mod B) - 1)"
    define k where "k = (e + B - 1) div B"
    have n: "?q + n = B * (?q div B) + (e + B - 1)" "0 < e" using True qB by (simp_all add: e_def)
    have len: "(?q + n) div B = ?q div B + k"
      unfolding n(1) k_def using D(3) by (intro div_mult_self4) simp
    obtain d1 base1 where r: "reserve_map_at_back k d = Inr d1" "nodes_ok B d1 base1 bs flat"
        "ends_ok B d1 base1 bs p ?q" "base1 + length bs + k \<le> length (M_map d1)"
      using reserve_back_ok [OF D(1,2)] by blast
    have "M_node (M_finish d1) + Suc 0 = base1 + length bs" using r(3) D(7) by (simp add: ends_ok_def)
    then obtain d' cs where f: "back_nodes B 1 k d1 = Inr d'" "length cs = k"
      "nodes_ok B d' base1 (bs @ cs) (flat @ replicate (B * k) None)" "M_start d' = M_start d1" "M_finish d' = M_finish d1"
      using back_nodes_ok [OF r(2) _ r(4), of 0] by auto
    let ?bs = "bs @ cs" and ?flat = "flat @ replicate (B * k) None"
    have qd: "?q div B < length bs" "p div B < length bs" using D(4,7) by simp_all
    have ends: "M_start d' = it_at B base1 ?bs p" "M_finish d' = it_at B base1 ?bs ?q"
      using r(3) f(4,5) qd by (simp_all add: ends_ok_def it_at_append)
    have "holds_at ?flat p xs" using R(5) D(9) by (auto simp: holds_at_def nth_append)
    then have room: "deque_room B d' base1 ?bs ?flat p xs" using f(3) ends D(9) by (simp add: deque_room_def)
    have bs: "length ?bs = (?q + n) div B + 1" using len f(2) D(7) by simp
    have lt: "?q + n < length ?flat"
      using below_blocks [OF D(3), of "?q + n"] nodes_ok_length [OF f(3)] unfolding bs by simp
    have "advance_by B (int n) (M_finish d') d' = Inr (it_at B base1 ?bs (?q + n))"
      unfolding ends(2) using lt by (intro advance_it [OF f(3)]) simp_all
    then have "reserve_elements_at_back B n d = Inr (it_at B base1 ?bs (?q + n), d')"
      using True vac r(1) f(1) by (simp add: reserve_elements_at_back_def new_elements_at_back_def k_def e_def)
    then show ?thesis using that room lt bs by blast
  qed
qed

end
