(* ===== verification/Stl_Deque_Middle.thy ===== *)
theory Stl_Deque_Middle
  imports Stl_Deque_Insert
begin

text \<open>
  The four cases of inserting into the middle of a deque: at the side that has fewer elements, and
  with more or fewer elements to move than to insert. Each case is a run of the loops of the
  code; inserting copies of one element and inserting a range are the same runs.
\<close>

section \<open>Runs\<close>

lemma holds_at_cell: "holds_at f s xs \<Longrightarrow> s \<le> j \<Longrightarrow> j < s + length xs \<Longrightarrow> f ! j \<noteq> None"
  by (metis holds_at_some le_add_diff_inverse nat_add_left_cancel_less)

lemma take_drop_take: "n \<le> k \<Longrightarrow> take k xs = take n xs @ drop n (take k xs)"
  by (metis append_take_drop_id min.absorb1 take_take)

lemma front_many_run:
  assumes room: "deque_room B d base bs flat s xs" and n: "length ys \<le> s" "length ys \<le> k" "k \<le> length xs"
  obtains d1 d2 d3 flat2 flat' where
    "copy_with construct_at B (length ys) (it_at B base bs s) (it_at B base bs (s - length ys)) d = Inr (it_at B base bs s, d1)"
    "copy_with assign_at B (k - length ys) (it_at B base bs (s + length ys)) (it_at B base bs s)
       (d1\<lparr>M_start := it_at B base bs (s - length ys)\<rparr>) = Inr (it_at B base bs (s + k - length ys), d2)"
    "copy_list assign_at B ys (it_at B base bs (s + k - length ys)) d2 = Inr (it_at B base bs (s + k), d3)"
    "nodes_ok B d2 base bs flat2" "deque_room B d3 base bs flat' (s - length ys) (take k xs @ ys @ drop k xs)"
proof -
  note R = deque_roomD [OF room]
  define n where "n = length ys"
  have nk: "n \<le> s" "n \<le> k" "k \<le> length xs" using assms(2-) by (simp_all add: n_def)
  define f1 where "f1 = memmove (s - n) s n flat"
  define f2 where "f2 = memmove s (s + n) (k - n) f1"
  have len: "length f1 = length flat" "length f2 = length flat"
    using R(4) nk by (simp_all add: f1_def f2_def memmove_length)
  have h1: "holds_at f1 s xs" unfolding f1_def using R(4) nk by (intro holds_at_beside_move [OF R(5)]) simp_all
  obtain m1 where r1: "copy_with construct_at B n (it_at B base bs s) (it_at B base bs (s - n)) d = Inr (it_at B base bs (s - n + n), d\<lparr>buffers := m1\<rparr>)"
    "nodes_ok B (d\<lparr>buffers := m1\<rparr>) base bs f1"
  proof (rule copy_cells [OF R(1), of s n "s - n" construct_at])
    show "no_clobber s (s + n) (s - n)" by (simp add: no_clobber_def)
    show "flat ! (s + i) \<noteq> None" if "i < n" for i using holds_at_some [OF R(5)] that nk by simp
  qed (use R(4) nk in \<open>simp_all add: f1_def\<close>)
  let ?d1 = "d\<lparr>buffers := m1, M_start := it_at B base bs (s - n)\<rparr>"
  have n1: "nodes_ok B ?d1 base bs f1" using r1(2) by simp
  obtain m2 where r2: "copy_with assign_at B (k - n) (it_at B base bs (s + n)) (it_at B base bs s) ?d1 = Inr (it_at B base bs (s + (k - n)), ?d1\<lparr>buffers := m2\<rparr>)"
    "nodes_ok B (?d1\<lparr>buffers := m2\<rparr>) base bs f2"
  proof (rule copy_cells [OF n1, of "s + n" "k - n" s assign_at])
    show "no_clobber (s + n) (s + n + (k - n)) s" by (simp add: no_clobber_def)
    show "f1 ! (s + n + i) \<noteq> None" if "i < k - n" for i using that nk by (intro holds_at_cell [OF h1]) simp_all
    show "assign_at = construct_at \<or> assign_at = assign_at \<and> (\<forall>i<k - n. f1 ! (s + i) \<noteq> None)"
      using nk by (auto intro!: holds_at_cell [OF h1, simplified])
  qed (use R(4) nk in \<open>simp_all add: f2_def len\<close>)
  let ?d2 = "?d1\<lparr>buffers := m2\<rparr>"
  have h2: "f2 ! j \<noteq> None" if "s + (k - n) \<le> j" "j < s + k" for j
    using that R(4) nk len holds_at_cell [OF h1, of j] by (simp add: f2_def memmove_nth)
  obtain m3 where r3: "copy_list assign_at B ys (it_at B base bs (s + (k - n))) ?d2 = Inr (it_at B base bs (s + (k - n) + length ys), ?d2\<lparr>buffers := m3\<rparr>)"
    "nodes_ok B (?d2\<lparr>buffers := m3\<rparr>) base bs (patched (s + (k - n)) ys f2)"
  proof (rule copy_list_cells [OF r2(2), of "s + (k - n)" ys assign_at])
    show "assign_at = construct_at \<or> assign_at = assign_at \<and> (\<forall>i<length ys. f2 ! (s + (k - n) + i) \<noteq> None)"
      using h2 nk by (auto simp: n_def)
  qed (use R(4) nk in \<open>simp_all add: len n_def\<close>)
  let ?d3 = "?d2\<lparr>buffers := m3\<rparr>"
  have xs: "take k xs = take n xs @ drop n (take k xs)" "length (drop n (take k xs)) = k - n" "length (take n xs) = length ys"
    using nk take_drop_take by (simp_all add: n_def)
  have "holds_at flat s (take n xs @ drop n (take k xs) @ drop k xs)"
    using R(5) xs(1) by (metis append.assoc append_take_drop_id)
  from front_many [OF this xs(3) n(1)]
  have "holds_at (patched (s + (k - n)) ys f2) (s - n) (take n xs @ drop n (take k xs) @ ys @ drop k xs)"
    by (simp only: xs(2) f1_def f2_def n_def [symmetric])
  then have h3: "holds_at (patched (s + (k - n)) ys f2) (s - n) (take k xs @ ys @ drop k xs)"
    by (metis append.assoc xs(1))
  have e: "s - n + length (take k xs @ ys @ drop k xs) = s + length xs" using nk by (simp add: n_def)
  have "deque_room B ?d3 base bs (patched (s + (k - n)) ys f2) (s - n) (take k xs @ ys @ drop k xs)"
    using r3(2) h3 R(3,4) nk len unfolding deque_room_def e by (simp add: length_patched n_def)
  note room = this
  have e: "s - n + n = s" "s + (k - n) = s + k - n" "s + k - n + length ys = s + k" using nk by (simp_all add: n_def)
  show ?thesis using that r1(1) r2 r3(1) room unfolding e unfolding n_def by blast
qed

lemma front_few_run:
  assumes room: "deque_room B d base bs flat s xs" and n: "n \<le> s" "k < n" "k \<le> length xs"
    and ys: "length y1 = n - k" "length y2 = k"
  obtains d1 d2 d3 flat' where
    "copy_with construct_at B k (it_at B base bs s) (it_at B base bs (s - n)) d = Inr (it_at B base bs (s + k - n), d1)"
    "copy_list construct_at B y1 (it_at B base bs (s + k - n)) d1 = Inr (it_at B base bs s, d2)" "M_start d2 = M_start d"
    "copy_list assign_at B y2 (it_at B base bs s) (d2\<lparr>M_start := it_at B base bs (s - n)\<rparr>) = Inr (it_at B base bs (s + k), d3)"
    "deque_room B d3 base bs flat' (s - n) (take k xs @ y1 @ y2 @ drop k xs)" "M_start d1 = M_start d"
proof -
  note R = deque_roomD [OF room]
  define f1 where "f1 = memmove (s - n) s k flat"
  define f2 where "f2 = patched (s - n + k) y1 f1"
  have len: "length f1 = length flat" "length f2 = length flat"
    using R(4) n ys by (simp_all add: f1_def f2_def memmove_length length_patched)
  have "s - n + k \<le> s" using n by simp
  then have h1: "holds_at f1 s xs" unfolding f1_def using R(4) n by (intro holds_at_beside_move [OF R(5)]) auto
  have h2: "holds_at f2 s xs" unfolding f2_def using R(4) n ys len by (intro holds_at_beside_patch [OF h1]) simp_all
  obtain m1 where r1: "copy_with construct_at B k (it_at B base bs s) (it_at B base bs (s - n)) d = Inr (it_at B base bs (s - n + k), d\<lparr>buffers := m1\<rparr>)"
    "nodes_ok B (d\<lparr>buffers := m1\<rparr>) base bs f1"
  proof (rule copy_cells [OF R(1), of s k "s - n" construct_at])
    show "no_clobber s (s + k) (s - n)" by (simp add: no_clobber_def)
    show "flat ! (s + i) \<noteq> None" if "i < k" for i using holds_at_some [OF R(5)] that n by simp
  qed (use R(4) n in \<open>simp_all add: f1_def\<close>)
  let ?d1 = "d\<lparr>buffers := m1\<rparr>"
  obtain m2 where r2: "copy_list construct_at B y1 (it_at B base bs (s - n + k)) ?d1 = Inr (it_at B base bs (s - n + k + length y1), ?d1\<lparr>buffers := m2\<rparr>)"
    "nodes_ok B (?d1\<lparr>buffers := m2\<rparr>) base bs f2"
    by (rule copy_list_cells [OF r1(2), of "s - n + k" y1 construct_at])
      (use R(4) n ys len in \<open>simp_all add: f2_def\<close>)
  let ?d2 = "?d1\<lparr>buffers := m2, M_start := it_at B base bs (s - n)\<rparr>"
  have n2: "nodes_ok B ?d2 base bs f2" using r2(2) by simp
  obtain m3 where r3: "copy_list assign_at B y2 (it_at B base bs s) ?d2 = Inr (it_at B base bs (s + length y2), ?d2\<lparr>buffers := m3\<rparr>)"
    "nodes_ok B (?d2\<lparr>buffers := m3\<rparr>) base bs (patched s y2 f2)"
  proof (rule copy_list_cells [OF n2, of s y2 assign_at])
    show "assign_at = construct_at \<or> assign_at = assign_at \<and> (\<forall>i<length y2. f2 ! (s + i) \<noteq> None)"
      using holds_at_some [OF h2] n ys by simp
  qed (use R(4) n ys len in simp_all)
  have lk: "length (take k xs) = k" "length y2 = length (take k xs)" "length (take k xs) + length y1 = n" using n ys by simp_all
  have "holds_at flat s (take k xs @ drop k xs)" using R(5) by simp
  from front_few [OF this lk(3) n(1) lk(2)]
  have "holds_at (patched s y2 f2) (s - n) (take k xs @ y1 @ y2 @ drop k xs)" by (simp only: lk(1) f1_def f2_def)
  moreover have e: "s - n + length (take k xs @ y1 @ y2 @ drop k xs) = s + length xs" using n ys by simp
  ultimately have "deque_room B (?d2\<lparr>buffers := m3\<rparr>) base bs (patched s y2 f2) (s - n) (take k xs @ y1 @ y2 @ drop k xs)"
    using r3(2) R(3,4) n ys len unfolding deque_room_def e by (simp add: length_patched)
  note room = this
  have e: "s + k - n + length y1 = s" "s - n + k = s + k - n" using n ys by simp_all
  have st: "M_start (?d1\<lparr>buffers := m2\<rparr>) = M_start d" "M_start ?d1 = M_start d" by simp_all
  show ?thesis using that r1(1) r2(1) st r3(1) room unfolding e ys(2) by blast
qed

lemma back_many_run:
  assumes room: "deque_room B d base bs flat s xs" and q: "q = s + length xs" "q + length ys < length flat"
    and n: "length ys < length xs - k" "k \<le> length xs"
  obtains d1 d2 d3 flat2 flat' where
    "copy_with construct_at B (length ys) (it_at B base bs (q - length ys)) (it_at B base bs q) d = Inr (it_at B base bs (q + length ys), d1)"
    "copy_backward_loop B (q - length ys - (s + k)) (it_at B base bs (q - length ys)) (it_at B base bs q)
       (d1\<lparr>M_finish := it_at B base bs (q + length ys)\<rparr>) = Inr (it_at B base bs (s + k + length ys), d2)"
    "copy_list assign_at B ys (it_at B base bs (s + k)) d2 = Inr (it_at B base bs (s + k + length ys), d3)"
    "nodes_ok B d2 base bs flat2" "deque_room B d3 base bs flat' s (take k xs @ ys @ drop k xs)"
proof -
  note R = deque_roomD [OF room]
  define n m where "n = length ys" and "m = length xs - k - n"
  have nm: "q = s + k + m + n" "n + m = length xs - k" "k + m + n = length xs" "q - n - (s + k) = m" "q - n = s + k + m" "q - m = s + k + n"
    using q n by (simp_all add: n_def m_def)
  define f1 where "f1 = memmove q (q - n) n flat"
  define f2 where "f2 = memmove (q - m) (s + k) m f1"
  have lt: "q + n < length flat" using q by (simp add: n_def)
  then have len: "length f1 = length flat" "length f2 = length flat"
    using nm by (simp_all add: f1_def f2_def memmove_length)
  have h1: "holds_at f1 s xs" unfolding f1_def using lt q nm by (intro holds_at_beside_move [OF R(5)]) simp_all
  have f1q: "f1 ! j \<noteq> None" if "s + k \<le> j" "j < q" for j using holds_at_cell [OF h1] that q by simp
  obtain m1 where r1: "copy_with construct_at B n (it_at B base bs (q - n)) (it_at B base bs q) d = Inr (it_at B base bs (q + n), d\<lparr>buffers := m1\<rparr>)"
    "nodes_ok B (d\<lparr>buffers := m1\<rparr>) base bs f1"
  proof (rule copy_cells [OF R(1), of "q - n" n q construct_at])
    show "no_clobber (q - n) (q - n + n) q" using nm(1) by (simp add: no_clobber_def)
    show "flat ! (q - n + i) \<noteq> None" if "i < n" for i using that nm q by (intro holds_at_cell [OF R(5)]) simp_all
  qed (use lt nm in \<open>simp_all add: f1_def\<close>)
  let ?d1 = "d\<lparr>buffers := m1, M_finish := it_at B base bs (q + n)\<rparr>"
  have n1: "nodes_ok B ?d1 base bs f1" using r1(2) by simp
  obtain m2 where r2: "copy_backward_loop B m (it_at B base bs (q - n)) (it_at B base bs q) ?d1 = Inr (it_at B base bs (q - m), ?d1\<lparr>buffers := m2\<rparr>)"
    "nodes_ok B (?d1\<lparr>buffers := m2\<rparr>) base bs f2"
  proof (rule copy_backward_cells [OF n1, of m "q - n" q])
    show "f1 ! (q - n - m + i) \<noteq> None" if "i < m" for i using that nm by (intro f1q) simp_all
    show "f1 ! (q - m + i) \<noteq> None" if "i < m" for i using that nm by (intro f1q) simp_all
  qed (use lt nm in \<open>simp_all add: f2_def len\<close>)
  let ?d2 = "?d1\<lparr>buffers := m2\<rparr>"
  have f2k: "f2 ! (s + k + i) \<noteq> None" if "i < n" for i
    using that f1q [of "s + k + i"] lt nm len(1) by (simp add: f2_def memmove_nth)
  obtain m3 where r3: "copy_list assign_at B ys (it_at B base bs (s + k)) ?d2 = Inr (it_at B base bs (s + k + length ys), ?d2\<lparr>buffers := m3\<rparr>)"
    "nodes_ok B (?d2\<lparr>buffers := m3\<rparr>) base bs (patched (s + k) ys f2)"
  proof (rule copy_list_cells [OF r2(2), of "s + k" ys assign_at])
    show "assign_at = construct_at \<or> assign_at = assign_at \<and> (\<forall>i<length ys. f2 ! (s + k + i) \<noteq> None)"
      using f2k by (simp add: n_def)
  qed (use lt nm len in \<open>simp_all add: n_def\<close>)
  have parts: "drop k xs = take m (drop k xs) @ drop (k + m) xs"
    by (metis add.commute append_take_drop_id drop_drop)
  have lens: "length (take m (drop k xs)) = m" "length (drop (k + m) xs) = length ys" "length (take k xs) = k"
    using nm by (simp_all add: n_def)
  have whole: "take k xs @ take m (drop k xs) @ drop (k + m) xs = xs" using parts by (metis append_take_drop_id)
  have "holds_at flat s (take k xs @ take m (drop k xs) @ drop (k + m) xs)" unfolding whole by (rule R(5))
  then have "holds_at (patched (s + length (take k xs)) ys (memmove (q - length (take m (drop k xs))) (s + length (take k xs)) (length (take m (drop k xs)))
      (memmove q (q - length ys) (length ys) flat))) s (take k xs @ ys @ take m (drop k xs) @ drop (k + m) xs)"
    by (rule back_many) (use lens(2) lt q(1) whole in \<open>simp_all add: n_def\<close>)
  then have "holds_at (patched (s + k) ys f2) s (take k xs @ ys @ take m (drop k xs) @ drop (k + m) xs)"
    by (simp only: lens(1,3) f1_def f2_def n_def)
  then have h3: "holds_at (patched (s + k) ys f2) s (take k xs @ ys @ drop k xs)" unfolding parts [symmetric] .
  have e: "s + length (take k xs @ ys @ drop k xs) = q + n" using nm n q(1) by (simp add: n_def)
  have room: "deque_room B (?d2\<lparr>buffers := m3\<rparr>) base bs (patched (s + k) ys f2) s (take k xs @ ys @ drop k xs)"
    using r3(2) h3 R(2) lt nm len unfolding deque_room_def e by (simp add: length_patched n_def)
  show ?thesis using that r1(1) r2 r3(1) room
    unfolding nm(6) unfolding nm(4) [symmetric] unfolding n_def by blast
qed

lemma back_few_run:
  assumes room: "deque_room B d base bs flat s xs" and q: "q = s + length xs" "q + length (y1 @ y2) < length flat"
    and n: "length y1 = length xs - k" "k \<le> length xs"
  obtains d1 d2 d3 flat' where
    "copy_list construct_at B y2 (it_at B base bs q) d = Inr (it_at B base bs (q + length y2), d1)" "M_finish d1 = M_finish d"
    "copy_with construct_at B (q - (s + k)) (it_at B base bs (s + k)) (it_at B base bs (q + length y2)) d1 =
       Inr (it_at B base bs (q + length (y1 @ y2)), d2)"
    "copy_list assign_at B y1 (it_at B base bs (s + k)) (d2\<lparr>M_finish := it_at B base bs (q + length (y1 @ y2))\<rparr>) =
       Inr (it_at B base bs q, d3)"
    "deque_room B d3 base bs flat' s (take k xs @ y1 @ y2 @ drop k xs)"
proof -
  note R = deque_roomD [OF room]
  define a where "a = length xs - k"
  have a: "q = s + k + a" "length y1 = a" "q - (s + k) = a" "length (drop k xs) = a" "length (take k xs) = k" using q n by (simp_all add: a_def)
  define f1 where "f1 = patched q y2 flat"
  define f2 where "f2 = memmove (q + length y2) (s + k) a f1"
  have lt: "q + a + length y2 < length flat" using q a(2) by simp
  then have len: "length f1 = length flat" "length f2 = length flat"
    using a by (simp_all add: f1_def f2_def memmove_length length_patched)
  have h1: "holds_at f1 s xs" unfolding f1_def using lt q by (intro holds_at_beside_patch [OF R(5)]) simp_all
  have h2: "holds_at f2 s xs" unfolding f2_def using lt q a(1) len by (intro holds_at_beside_move [OF h1]) simp_all
  obtain m1 where r1: "copy_list construct_at B y2 (it_at B base bs q) d = Inr (it_at B base bs (q + length y2), d\<lparr>buffers := m1\<rparr>)"
    "nodes_ok B (d\<lparr>buffers := m1\<rparr>) base bs f1"
    by (rule copy_list_cells [OF R(1), of q y2 construct_at]) (use lt in \<open>simp_all add: f1_def\<close>)
  let ?d1 = "d\<lparr>buffers := m1\<rparr>"
  obtain m2 where r2: "copy_with construct_at B a (it_at B base bs (s + k)) (it_at B base bs (q + length y2)) ?d1 =
      Inr (it_at B base bs (q + length y2 + a), ?d1\<lparr>buffers := m2\<rparr>)"
    "nodes_ok B (?d1\<lparr>buffers := m2\<rparr>) base bs f2"
  proof (rule copy_cells [OF r1(2), of "s + k" a "q + length y2" construct_at])
    show "no_clobber (s + k) (s + k + a) (q + length y2)" using a(1) by (simp add: no_clobber_def)
    show "f1 ! (s + k + i) \<noteq> None" if "i < a" for i using that q a(1) by (intro holds_at_cell [OF h1]) simp_all
  qed (use lt a(1) in \<open>simp_all add: f2_def len\<close>)
  let ?d2 = "?d1\<lparr>buffers := m2, M_finish := it_at B base bs (q + length (y1 @ y2))\<rparr>"
  have n2: "nodes_ok B ?d2 base bs f2" using r2(2) by simp
  obtain m3 where r3: "copy_list assign_at B y1 (it_at B base bs (s + k)) ?d2 = Inr (it_at B base bs (s + k + length y1), ?d2\<lparr>buffers := m3\<rparr>)"
    "nodes_ok B (?d2\<lparr>buffers := m3\<rparr>) base bs (patched (s + k) y1 f2)"
  proof (rule copy_list_cells [OF n2, of "s + k" y1 assign_at])
    have "f2 ! (s + k + i) \<noteq> None" if "i < length y1" for i using that q a(1,2) by (intro holds_at_cell [OF h2]) simp_all
    then show "assign_at = construct_at \<or> assign_at = assign_at \<and> (\<forall>i<length y1. f2 ! (s + k + i) \<noteq> None)" by blast
  qed (use lt a(1,2) len in simp_all)
  have h: "holds_at flat s (take k xs @ drop k xs)" using R(5) by simp
  have "holds_at (patched (s + length (take k xs)) y1 (memmove (q + length y2) (s + length (take k xs)) (length (drop k xs)) (patched q y2 flat)))
    s (take k xs @ y1 @ y2 @ drop k xs)"
    by (rule back_few [OF h]) (use a q lt in simp_all)
  then have h3: "holds_at (patched (s + k) y1 f2) s (take k xs @ y1 @ y2 @ drop k xs)" by (simp only: a(4,5) f1_def f2_def)
  have e: "s + length (take k xs @ y1 @ y2 @ drop k xs) = q + length (y1 @ y2)" using a by simp
  have room: "deque_room B (?d2\<lparr>buffers := m3\<rparr>) base bs (patched (s + k) y1 f2) s (take k xs @ y1 @ y2 @ drop k xs)"
  proof -
    have "M_start (?d2\<lparr>buffers := m3\<rparr>) = it_at B base bs s" "M_finish (?d2\<lparr>buffers := m3\<rparr>) = it_at B base bs (q + length (y1 @ y2))"
      "q + length (y1 @ y2) < length (patched (s + k) y1 f2)"
      using R(2) lt a(1,2) len by (simp_all add: length_patched)
    then show ?thesis using r3(2) h3 unfolding deque_room_def e by blast
  qed
  have e: "q + length y2 + a = q + length (y1 @ y2)" "s + k + length y1 = q" using a(1,2) by simp_all
  have st: "M_finish ?d1 = M_finish d" by simp
  show ?thesis using that r1(1) st r2(1) r3(1) room unfolding e a(3) by blast
qed

section \<open>Inserting\<close>

lemma room_front_ok:
  assumes "deque_room B d base bs flat (s - n) zs" "s - n < B" "length bs = (s + len) div B + 1" "s - n + length zs = s + len"
  shows "deque_at B d base bs flat (s - n) zs"
  using assms by (intro deque_at_of_room) simp_all

lemma advance_room:
  assumes "deque_room B d base bs flat s xs" "int a + n = int b" "b \<le> s + length xs" "nodes_ok B d' base bs flat'"
  shows "advance_by B n (it_at B base bs a) d' = Inr (it_at B base bs b)"
proof (rule advance_it [OF assms(4,2)])
  have "length flat' = length flat" using nodes_ok_length [OF assms(4)] nodes_ok_length [OF deque_roomD(1) [OF assms(1)]] by simp
  then show "b < length flat'" using deque_roomD(4) [OF assms(1)] assms(3) by simp
qed

lemma insert_aux_front:
  assumes d: "deque_at B d base0 bs0 flat0 p xs" and pos: "pos = it_at B base0 bs0 (p + k)" and k: "k \<le> length xs div 2"
  shows "\<exists>d'. insert_range_aux B pos ys d = Inr d' \<and> deque_ok B d' (take k xs @ ys @ drop k xs)"
    and "\<exists>it d'. fill_insert_aux B pos n x d = Inr (it, d') \<and> deque_ok B d' (take k xs @ replicate n x @ drop k xs) \<and>
      (n \<le> k \<longrightarrow> deque_iter B d' (take k xs @ replicate n x @ drop k xs) k it)"
proof -
  note D = deque_atD [OF d]
  have kl: "k \<le> length xs" using k by simp
  have before: "subtract B pos (M_start d) = int k" "dq_size B d = length xs"
    unfolding pos D(5) using d by (simp_all add: dq_size_ok deque_okI)
  have room: "\<exists>d0 base bs flat s. reserve_elements_at_front B n d = Inr (it_at B base bs (s - n), d0) \<and> deque_room B d0 base bs flat s xs \<and>
      n \<le> s \<and> s - n < B \<and> length bs = (s + length xs) div B + 1 \<and>
      advance_by B (int k) (it_at B base bs s) d0 = Inr (it_at B base bs (s + k))" for n
  proof -
    obtain d0 base bs flat s where r: "reserve_elements_at_front B n d = Inr (it_at B base bs (s - n), d0)"
      "deque_room B d0 base bs flat s xs" "n \<le> s" "s - n < B" "length bs = (s + length xs) div B + 1"
      by (rule reserve_front_room [OF d, of n]) (rule that)
    have "advance_by B (int k) (it_at B base bs s) d0 = Inr (it_at B base bs (s + k))"
      using kl by (intro advance_room [OF r(2) _ _ deque_roomD(1) [OF r(2)]]) simp_all
    with r show ?thesis by blast
  qed
  show "\<exists>d'. insert_range_aux B pos ys d = Inr d' \<and> deque_ok B d' (take k xs @ ys @ drop k xs)"
  proof -
    obtain d0 base bs flat s where r: "reserve_elements_at_front B (length ys) d = Inr (it_at B base bs (s - length ys), d0)"
      "deque_room B d0 base bs flat s xs" "length ys \<le> s" "s - length ys < B" "length bs = (s + length xs) div B + 1"
      and a: "advance_by B (int k) (it_at B base bs s) d0 = Inr (it_at B base bs (s + k))"
      using room by blast
    note R = deque_roomD [OF r(2)]
    have zs: "s - length ys + length (take k xs @ ys @ drop k xs) = s + length xs" using r(3) kl by simp
    show ?thesis
    proof (cases "length ys \<le> k")
      case True
      obtain d1 d2 d3 flat2 flat' where
        w: "copy_with construct_at B (length ys) (it_at B base bs s) (it_at B base bs (s - length ys)) d0 = Inr (it_at B base bs s, d1)"
        "copy_with assign_at B (k - length ys) (it_at B base bs (s + length ys)) (it_at B base bs s)
           (d1\<lparr>M_start := it_at B base bs (s - length ys)\<rparr>) = Inr (it_at B base bs (s + k - length ys), d2)"
        "copy_list assign_at B ys (it_at B base bs (s + k - length ys)) d2 = Inr (it_at B base bs (s + k), d3)"
        "nodes_ok B d2 base bs flat2" "deque_room B d3 base bs flat' (s - length ys) (take k xs @ ys @ drop k xs)"
        by (rule front_many_run [OF r(2,3) True kl]) (rule that)
      have a2: "advance_by B (int (length ys)) (it_at B base bs s) d0 = Inr (it_at B base bs (s + length ys))"
        using True kl by (intro advance_room [OF r(2) _ _ R(1)]) simp_all
      have a3: "advance_by B (- int (length ys)) (it_at B base bs (s + k)) d2 = Inr (it_at B base bs (s + k - length ys))"
        using True kl by (intro advance_room [OF r(2) _ _ w(4)]) simp_all
      have "insert_range_aux B pos ys d = Inr d3"
        using r(1) R(2) a a2 a3 w(1-3) k True before by (simp add: insert_range_aux_def del: it_at_simps)
      then show ?thesis using room_front_ok [OF w(5) r(4,5) zs] by (blast intro: deque_okI)
    next
      case False
      have ys: "length (take (length ys - k) ys) = length ys - k" "length (drop (length ys - k) ys) = k" "k < length ys" using False by simp_all
      obtain d1 d2 d3 flat' where
        w: "copy_with construct_at B k (it_at B base bs s) (it_at B base bs (s - length ys)) d0 = Inr (it_at B base bs (s + k - length ys), d1)"
        "copy_list construct_at B (take (length ys - k) ys) (it_at B base bs (s + k - length ys)) d1 = Inr (it_at B base bs s, d2)" "M_start d2 = M_start d0"
        "copy_list assign_at B (drop (length ys - k) ys) (it_at B base bs s) (d2\<lparr>M_start := it_at B base bs (s - length ys)\<rparr>) = Inr (it_at B base bs (s + k), d3)"
        "deque_room B d3 base bs flat' (s - length ys) (take k xs @ take (length ys - k) ys @ drop (length ys - k) ys @ drop k xs)"
        by (rule front_few_run [OF r(2,3) ys(3) kl ys(1,2)]) (rule that)
      have m: "nat (int (length ys) - int k) = length ys - k" by simp
      have "insert_range_aux B pos ys d = Inr d3"
        using r(1) R(2) a w(1-4) k False before by (simp add: insert_range_aux_def m del: it_at_simps)
      moreover have e: "take k xs @ take (length ys - k) ys @ drop (length ys - k) ys @ drop k xs = take k xs @ ys @ drop k xs"
        by (metis append.assoc append_take_drop_id)
      ultimately show ?thesis using room_front_ok [OF w(5) [unfolded e] r(4,5) zs] by (blast intro: deque_okI)
    qed
  qed
  show "\<exists>it d'. fill_insert_aux B pos n x d = Inr (it, d') \<and> deque_ok B d' (take k xs @ replicate n x @ drop k xs) \<and>
      (n \<le> k \<longrightarrow> deque_iter B d' (take k xs @ replicate n x @ drop k xs) k it)"
  proof -
    let ?ys = "replicate n x"
    obtain d0 base bs flat s where r: "reserve_elements_at_front B n d = Inr (it_at B base bs (s - n), d0)"
      "deque_room B d0 base bs flat s xs" "n \<le> s" "s - n < B" "length bs = (s + length xs) div B + 1"
      and a: "advance_by B (int k) (it_at B base bs s) d0 = Inr (it_at B base bs (s + k))"
      using room by blast
    note R = deque_roomD [OF r(2)]
    have zs: "s - n + length (take k xs @ ?ys @ drop k xs) = s + length xs" using r(3) kl by simp
    show ?thesis
    proof (cases "n \<le> k")
      case True
      have ns: "length ?ys \<le> s" "length ?ys \<le> k" using r(3) True by simp_all
      obtain d1 d2 d3 flat2 flat' where
        w: "copy_with construct_at B n (it_at B base bs s) (it_at B base bs (s - n)) d0 = Inr (it_at B base bs s, d1)"
        "copy_with assign_at B (k - n) (it_at B base bs (s + n)) (it_at B base bs s)
           (d1\<lparr>M_start := it_at B base bs (s - n)\<rparr>) = Inr (it_at B base bs (s + k - n), d2)"
        "copy_list assign_at B ?ys (it_at B base bs (s + k - n)) d2 = Inr (it_at B base bs (s + k), d3)"
        "nodes_ok B d2 base bs flat2" "deque_room B d3 base bs flat' (s - n) (take k xs @ ?ys @ drop k xs)"
        by (rule front_many_run [OF r(2) ns kl, unfolded length_replicate]) (rule that)
      have a2: "advance_by B (int n) (it_at B base bs s) d0 = Inr (it_at B base bs (s + n))"
        using True kl by (intro advance_room [OF r(2) _ _ R(1)]) simp_all
      have a3: "advance_by B (- int n) (it_at B base bs (s + k)) d' = Inr (it_at B base bs (s + k - n))" if "nodes_ok B d' base bs f" for d' f
        using True kl by (intro advance_room [OF r(2) _ _ that]) simp_all
      have "s + k - (s + k - n) = n" using True by simp
      then have "fill_insert_aux B pos n x d = Inr (it_at B base bs (s + k - n), d3)"
        using r(1) R(2) a a2 a3 [OF w(4)] a3 [OF deque_roomD(1) [OF w(5)]] w(1-3) k True before
        by (simp add: fill_insert_aux_def fill_with_copy_list del: it_at_simps)
      moreover have dq: "deque_at B d3 base bs flat' (s - n) (take k xs @ ?ys @ drop k xs)" by (rule room_front_ok [OF w(5) r(4,5) zs])
      moreover have "s + k - n = s - n + k" using r(3) by simp
      then have "deque_iter B d3 (take k xs @ ?ys @ drop k xs) k (it_at B base bs (s + k - n))"
        using dq kl unfolding deque_iter_def by force
      ultimately show ?thesis by (blast intro: deque_okI)
    next
      case False
      have ys: "length (replicate (n - k) x) = n - k" "length (replicate k x) = k" "k < n" using False by simp_all
      obtain d1 d2 d3 flat' where
        w: "copy_with construct_at B k (it_at B base bs s) (it_at B base bs (s - n)) d0 = Inr (it_at B base bs (s + k - n), d1)"
        "copy_list construct_at B (replicate (n - k) x) (it_at B base bs (s + k - n)) d1 = Inr (it_at B base bs s, d2)" "M_start d2 = M_start d0"
        "copy_list assign_at B (replicate k x) (it_at B base bs s) (d2\<lparr>M_start := it_at B base bs (s - n)\<rparr>) = Inr (it_at B base bs (s + k), d3)"
        "deque_room B d3 base bs flat' (s - n) (take k xs @ replicate (n - k) x @ replicate k x @ drop k xs)" "M_start d1 = M_start d0"
        by (rule front_few_run [OF r(2,3) ys(3) kl ys(1,2)]) (rule that)
      have e: "s - (s + k - n) = n - k" "s + k - s = k" using False r(3) by simp_all
      have st: "M_start d1 = M_start d0" using w(6) .
      have "fill_insert_aux B pos n x d = Inr (it_at B base bs (s + k), d3)"
        using r(1) R(2) a w(1-4) k False before e st
        by (simp add: fill_insert_aux_def ucopy_fill_def fill_with_copy_list del: it_at_simps)
      moreover have e: "replicate (n - k) x @ replicate k x @ drop k xs = ?ys @ drop k xs"
        unfolding append.assoc [symmetric] replicate_add [symmetric] using False by simp
      ultimately show ?thesis using room_front_ok [OF w(5) [unfolded e] r(4,5) zs] False by (blast intro: deque_okI)
    qed
  qed
qed

lemma insert_aux_back:
  assumes d: "deque_at B d base0 bs0 flat0 s xs" and pos: "pos = it_at B base0 bs0 (s + k)" and k: "\<not> k \<le> length xs div 2" "k \<le> length xs"
  shows "\<exists>d'. insert_range_aux B pos ys d = Inr d' \<and> deque_ok B d' (take k xs @ ys @ drop k xs)"
    and "\<exists>it d'. fill_insert_aux B pos n x d = Inr (it, d') \<and> deque_ok B d' (take k xs @ replicate n x @ drop k xs) \<and>
      deque_iter B d' (take k xs @ replicate n x @ drop k xs) k it"
proof -
  note D = deque_atD [OF d]
  define q where "q = s + length xs"
  have before: "subtract B pos (M_start d) = int k" "dq_size B d = length xs" "\<not> int k \<le> int (length xs div 2)"
    unfolding pos D(5) using d k(1) by (simp_all add: dq_size_ok deque_okI del: of_nat_div)
  have room: "\<exists>d0 base bs flat. reserve_elements_at_back B n d = Inr (it_at B base bs (q + n), d0) \<and> deque_room B d0 base bs flat s xs \<and>
      q + n < length flat \<and> length bs = (q + n) div B + 1 \<and>
      advance_by B (- (int (length xs) - int k)) (it_at B base bs q) d0 = Inr (it_at B base bs (s + k))" for n
  proof -
    obtain d0 base bs flat where r: "reserve_elements_at_back B n d = Inr (it_at B base bs (q + n), d0)"
      "deque_room B d0 base bs flat s xs" "q + n < length flat" "length bs = (q + n) div B + 1"
      by (rule reserve_back_room [OF d, of n, folded q_def]) (rule that)
    have "advance_by B (- (int (length xs) - int k)) (it_at B base bs q) d0 = Inr (it_at B base bs (s + k))"
      using k(2) by (intro advance_room [OF r(2) _ _ deque_roomD(1) [OF r(2)]]) (simp_all add: q_def)
    with r show ?thesis by blast
  qed
  have at: "deque_at B d3 base bs flat s (take k xs @ ys @ drop k xs)"
    if "deque_room B d3 base bs flat s (take k xs @ ys @ drop k xs)" "length bs = (q + length ys) div B + 1" for d3 base bs flat ys
    using that D(4) k(2) by (intro deque_at_of_room) (simp_all add: q_def add.commute add.left_commute)
  have e: "q - (s + k) = length xs - k" by (simp add: q_def)
  show "\<exists>d'. insert_range_aux B pos ys d = Inr d' \<and> deque_ok B d' (take k xs @ ys @ drop k xs)"
  proof -
    obtain d0 base bs flat where r: "reserve_elements_at_back B (length ys) d = Inr (it_at B base bs (q + length ys), d0)"
      "deque_room B d0 base bs flat s xs" "q + length ys < length flat" "length bs = (q + length ys) div B + 1"
      and a: "advance_by B (- (int (length xs) - int k)) (it_at B base bs q) d0 = Inr (it_at B base bs (s + k))"
      using room [of "length ys"] by (elim exE conjE) (rule that)
    note R = deque_roomD [OF r(2), folded q_def]
    show ?thesis
    proof (cases "length ys < length xs - k")
      case True
      obtain d1 d2 d3 flat2 flat' where
        w: "copy_with construct_at B (length ys) (it_at B base bs (q - length ys)) (it_at B base bs q) d0 = Inr (it_at B base bs (q + length ys), d1)"
        "copy_backward_loop B (q - length ys - (s + k)) (it_at B base bs (q - length ys)) (it_at B base bs q)
           (d1\<lparr>M_finish := it_at B base bs (q + length ys)\<rparr>) = Inr (it_at B base bs (s + k + length ys), d2)"
        "copy_list assign_at B ys (it_at B base bs (s + k)) d2 = Inr (it_at B base bs (s + k + length ys), d3)"
        "nodes_ok B d2 base bs flat2" "deque_room B d3 base bs flat' s (take k xs @ ys @ drop k xs)"
        by (rule back_many_run [OF r(2) q_def r(3) True k(2)]) (rule that)
      have a2: "advance_by B (- int (length ys)) (it_at B base bs q) d0 = Inr (it_at B base bs (q - length ys))"
        using True by (intro advance_room [OF r(2) _ _ R(1)]) (simp_all add: q_def)
      have c: "q - (q - length ys) = length ys" "int (length ys) < int (length xs) - int k" using True by (simp_all add: q_def)
      have "insert_range_aux B pos ys d = Inr d3"
        using r(1) R(3) a a2 w(1-3) c before by (simp add: insert_range_aux_def del: it_at_simps of_nat_div)
      then show ?thesis using at [OF w(5) r(4)] by (blast intro: deque_okI)
    next
      case False
      define a' where "a' = length xs - k"
      have ys: "length (take a' ys) = length xs - k" "ys = take a' ys @ drop a' ys" "length (take a' ys @ drop a' ys) = length ys"
        using False by (simp_all add: a'_def)
      have q2: "q + length (take a' ys @ drop a' ys) < length flat" using r(3) by simp
      obtain d1 d2 d3 flat' where
        w: "copy_list construct_at B (drop a' ys) (it_at B base bs q) d0 = Inr (it_at B base bs (q + length (drop a' ys)), d1)" "M_finish d1 = M_finish d0"
        "copy_with construct_at B (q - (s + k)) (it_at B base bs (s + k)) (it_at B base bs (q + length (drop a' ys))) d1 =
           Inr (it_at B base bs (q + length (take a' ys @ drop a' ys)), d2)"
        "copy_list assign_at B (take a' ys) (it_at B base bs (s + k)) (d2\<lparr>M_finish := it_at B base bs (q + length (take a' ys @ drop a' ys))\<rparr>) =
           Inr (it_at B base bs q, d3)"
        "deque_room B d3 base bs flat' s (take k xs @ take a' ys @ drop a' ys @ drop k xs)"
        by (rule back_few_run [OF r(2) q_def q2 ys(1) k(2)]) (rule that)
      have m: "nat (int (length xs) - int k) = a'" "\<not> int (length ys) < int (length xs) - int k" using False k(2) by (simp_all add: a'_def)
      have "insert_range_aux B pos ys d = Inr d3"
        using r(1) R(3) a w(1-4) before unfolding ys(3)
        by (simp add: insert_range_aux_def m del: it_at_simps of_nat_div)
      moreover have z: "take a' ys @ drop a' ys @ drop k xs = ys @ drop k xs" by (metis append.assoc append_take_drop_id)
      ultimately show ?thesis using at [OF w(5) [unfolded z] r(4)] by (blast intro: deque_okI)
    qed
  qed
  show "\<exists>it d'. fill_insert_aux B pos n x d = Inr (it, d') \<and> deque_ok B d' (take k xs @ replicate n x @ drop k xs) \<and>
      deque_iter B d' (take k xs @ replicate n x @ drop k xs) k it"
  proof -
    let ?ys = "replicate n x"
    have iter: "deque_iter B d3 (take k xs @ ?ys @ drop k xs) k (it_at B base bs (s + k))"
      if "deque_at B d3 base bs flat s (take k xs @ ?ys @ drop k xs)" for d3 base bs flat
      using that k(2) unfolding deque_iter_def by force
    obtain d0 base bs flat where r: "reserve_elements_at_back B n d = Inr (it_at B base bs (q + n), d0)"
      "deque_room B d0 base bs flat s xs" "q + n < length flat" "length bs = (q + n) div B + 1"
      and a: "advance_by B (- (int (length xs) - int k)) (it_at B base bs q) d0 = Inr (it_at B base bs (s + k))"
      using room [of n] by (elim exE conjE) (rule that)
    note R = deque_roomD [OF r(2), folded q_def]
    have r4: "length bs = (q + length ?ys) div B + 1" using r(4) by simp
    show ?thesis
    proof (cases "n < length xs - k")
      case True
      have ns: "q + length ?ys < length flat" "length ?ys < length xs - k" using r(3) True by simp_all
      obtain d1 d2 d3 flat2 flat' where
        w: "copy_with construct_at B n (it_at B base bs (q - n)) (it_at B base bs q) d0 = Inr (it_at B base bs (q + n), d1)"
        "copy_backward_loop B (q - n - (s + k)) (it_at B base bs (q - n)) (it_at B base bs q)
           (d1\<lparr>M_finish := it_at B base bs (q + n)\<rparr>) = Inr (it_at B base bs (s + k + n), d2)"
        "copy_list assign_at B ?ys (it_at B base bs (s + k)) d2 = Inr (it_at B base bs (s + k + n), d3)"
        "nodes_ok B d2 base bs flat2" "deque_room B d3 base bs flat' s (take k xs @ ?ys @ drop k xs)"
        by (rule back_many_run [OF r(2) q_def ns k(2), unfolded length_replicate]) (rule that)
      have a2: "advance_by B (- int n) (it_at B base bs q) d0 = Inr (it_at B base bs (q - n))"
        using True by (intro advance_room [OF r(2) _ _ R(1)]) (simp_all add: q_def)
      have a3: "advance_by B (int n) (it_at B base bs (s + k)) d2 = Inr (it_at B base bs (s + k + n))"
        using True by (intro advance_room [OF r(2) _ _ w(4)]) simp_all
      have c: "q - (q - n) = n" "int n < int (length xs) - int k" "s + k + n - (s + k) = n" using True by (simp_all add: q_def)
      have "fill_insert_aux B pos n x d = Inr (it_at B base bs (s + k), d3)"
        using r(1) R(3) a a2 a3 w(1-3) c before by (simp add: fill_insert_aux_def fill_with_copy_list del: it_at_simps of_nat_div)
      then show ?thesis using at [OF w(5) r4] iter by (blast intro: deque_okI)
    next
      case False
      define a' where "a' = length xs - k"
      have ys: "length (replicate a' x) = length xs - k" "length (replicate a' x @ replicate (n - a') x) = n" "length (replicate (n - a') x) = n - a'"
        using False by (simp_all add: a'_def)
      have q2: "q + length (replicate a' x @ replicate (n - a') x) < length flat" using r(3) ys(2) by simp
      obtain d1 d2 d3 flat' where
        w: "copy_list construct_at B (replicate (n - a') x) (it_at B base bs q) d0 = Inr (it_at B base bs (q + (n - a')), d1)" "M_finish d1 = M_finish d0"
        "copy_with construct_at B (q - (s + k)) (it_at B base bs (s + k)) (it_at B base bs (q + (n - a'))) d1 = Inr (it_at B base bs (q + n), d2)"
        "copy_list assign_at B (replicate a' x) (it_at B base bs (s + k)) (d2\<lparr>M_finish := it_at B base bs (q + n)\<rparr>) = Inr (it_at B base bs q, d3)"
        "deque_room B d3 base bs flat' s (take k xs @ replicate a' x @ replicate (n - a') x @ drop k xs)"
        by (rule back_few_run [OF r(2) q_def q2 ys(1) k(2), unfolded ys(2,3)]) (rule that)
      have e2: "s + k + n = q + (n - a')" using False k(2) by (simp add: a'_def q_def)
      have a3: "advance_by B (int n) (it_at B base bs (s + k)) d0 = Inr (it_at B base bs (q + (n - a')))"
      proof (rule advance_it [OF R(1)])
        show "int (s + k) + int n = int (q + (n - a'))" using e2 by simp
        show "q + (n - a') < length flat" using r(3) by simp
      qed
      have c: "q + (n - a') - q = n - a'" "q - (s + k) = a'" "\<not> int n < int (length xs) - int k" using False k(2) by (simp_all add: a'_def q_def)
      have "fill_insert_aux B pos n x d = Inr (it_at B base bs (s + k), d3)"
        using r(1) R(3) a a3 w(1-4) before c
        by (simp add: fill_insert_aux_def ufill_copy_def fill_with_copy_list del: it_at_simps of_nat_div)
      moreover have z: "replicate a' x @ replicate (n - a') x @ drop k xs = ?ys @ drop k xs"
        unfolding append.assoc [symmetric] replicate_add [symmetric] using False by (simp add: a'_def)
      ultimately show ?thesis using at [OF w(5) [unfolded z] r4] iter by (blast intro: deque_okI)
    qed
  qed
qed

end
