(* ===== verification/Stl_Deque_Assign.thy ===== *)
theory Stl_Deque_Assign
  imports Stl_Deque_Middle
begin

text \<open>
  Inserting anywhere in a deque, erasing ranges, resizing, assigning, and the constructors from a
  count, a range and another deque.
\<close>

section \<open>Inserting at the ends\<close>

lemma same_cur_ends:
  assumes "deque_at B d base bs flat p xs" "k \<le> length xs"
  shows "same_cur (it_at B base bs (p + k)) (M_start d) \<longleftrightarrow> k = 0"
    "same_cur (it_at B base bs (p + k)) (M_finish d) \<longleftrightarrow> k = length xs"
proof -
  note D = deque_atD [OF assms(1)]
  have "p + k < length flat" "p < length flat" using D(9) assms(2) by simp_all
  then show "same_cur (it_at B base bs (p + k)) (M_start d) \<longleftrightarrow> k = 0"
    "same_cur (it_at B base bs (p + k)) (M_finish d) \<longleftrightarrow> k = length xs"
    unfolding D(5,6) using same_cur_it [OF D(1)] D(9) by simp_all
qed

lemma front_end_run:
  assumes room: "deque_room B d base bs flat s xs" and "length ys \<le> s" "s - length ys < B" "length bs = (s + length xs) div B + 1"
  obtains m where "copy_list construct_at B ys (it_at B base bs (s - length ys)) d = Inr (it_at B base bs s, d\<lparr>buffers := m\<rparr>)"
    "deque_ok B (d\<lparr>buffers := m, M_start := it_at B base bs (s - length ys)\<rparr>) (ys @ xs)"
proof -
  note R = deque_roomD [OF room]
  have e: "s - length ys + length ys = s" using assms(2) by simp
  have lt: "s - length ys + length ys < length flat" using R(4) e by simp
  obtain m where r: "copy_list construct_at B ys (it_at B base bs (s - length ys)) d = Inr (it_at B base bs (s - length ys + length ys), d\<lparr>buffers := m\<rparr>)"
    "nodes_ok B (d\<lparr>buffers := m\<rparr>) base bs (patched (s - length ys) ys flat)"
    by (rule copy_list_cells [OF R(1) lt, of construct_at]) (blast, rule that)
  have "holds_at (patched (s - length ys) ys flat) (s - length ys) ys" using lt by (intro holds_at_patched) simp
  moreover have "holds_at (patched (s - length ys) ys flat) s xs" using lt e by (intro holds_at_beside_patch [OF R(5)]) simp_all
  ultimately have "holds_at (patched (s - length ys) ys flat) (s - length ys) (ys @ xs)" by (simp add: holds_at_append e)
  moreover have z: "s - length ys + length (ys @ xs) = s + length xs" using assms(2) by simp
  ultimately have "deque_room B (d\<lparr>buffers := m, M_start := it_at B base bs (s - length ys)\<rparr>) base bs (patched (s - length ys) ys flat) (s - length ys) (ys @ xs)"
    using r(2) R(3,4) lt unfolding deque_room_def z by (simp add: length_patched)
  from room_front_ok [OF this assms(3,4) z] that r(1) show ?thesis unfolding e by (blast intro: deque_okI)
qed

lemma back_end_run:
  assumes room: "deque_room B d base bs flat s xs" and "s < B" "s + length xs + length ys < length flat"
    "length bs = (s + length xs + length ys) div B + 1"
  obtains m where "copy_list construct_at B ys (it_at B base bs (s + length xs)) d = Inr (it_at B base bs (s + length xs + length ys), d\<lparr>buffers := m\<rparr>)"
    "deque_ok B (d\<lparr>buffers := m, M_finish := it_at B base bs (s + length xs + length ys)\<rparr>) (xs @ ys)"
proof -
  note R = deque_roomD [OF room]
  let ?q = "s + length xs"
  obtain m where r: "copy_list construct_at B ys (it_at B base bs ?q) d = Inr (it_at B base bs (?q + length ys), d\<lparr>buffers := m\<rparr>)"
    "nodes_ok B (d\<lparr>buffers := m\<rparr>) base bs (patched ?q ys flat)"
    by (rule copy_list_cells [OF R(1) assms(3), of construct_at]) (blast, rule that)
  have "holds_at (patched ?q ys flat) ?q ys" "holds_at (patched ?q ys flat) s xs"
    using assms(3) by (intro holds_at_patched holds_at_beside_patch [OF R(5)]; simp)+
  then have "holds_at (patched ?q ys flat) s (xs @ ys)" by (simp add: holds_at_append)
  moreover have z: "s + length (xs @ ys) = ?q + length ys" by simp
  ultimately have "deque_room B (d\<lparr>buffers := m, M_finish := it_at B base bs (?q + length ys)\<rparr>) base bs (patched ?q ys flat) s (xs @ ys)"
    using r(2) R(2) assms(3) unfolding deque_room_def z by (simp add: length_patched)
  from deque_at_of_room [OF this assms(2)] assms(4) that r(1) show ?thesis unfolding z by (blast intro: deque_okI)
qed

section \<open>Inserting anywhere\<close>

lemma dq_insert_range_ok:
  assumes "deque_iter B d xs k pos"
  shows "\<exists>d'. dq_insert_range B pos ys d = Inr d' \<and> deque_ok B d' (take k xs @ ys @ drop k xs)"
proof -
  obtain base0 bs0 flat0 p where d: "deque_at B d base0 bs0 flat0 p xs" and pos: "pos = it_at B base0 bs0 (p + k)" and k: "k \<le> length xs"
    using assms by (auto simp: deque_iter_def)
  note same = same_cur_ends [OF d k, folded pos]
  consider "k = 0" | "k \<noteq> 0" "k = length xs" | "k \<noteq> 0" "k \<noteq> length xs" by blast
  then show ?thesis
  proof cases
    case 1
    obtain d0 base bs flat s where r: "reserve_elements_at_front B (length ys) d = Inr (it_at B base bs (s - length ys), d0)"
      "deque_room B d0 base bs flat s xs" "length ys \<le> s" "s - length ys < B" "length bs = (s + length xs) div B + 1"
      by (rule reserve_front_room [OF d, of "length ys"]) (rule that)
    obtain m where "copy_list construct_at B ys (it_at B base bs (s - length ys)) d0 = Inr (it_at B base bs s, d0\<lparr>buffers := m\<rparr>)"
      "deque_ok B (d0\<lparr>buffers := m, M_start := it_at B base bs (s - length ys)\<rparr>) (ys @ xs)"
      by (rule front_end_run [OF r(2-5)]) (rule that)
    with r(1) same 1 show ?thesis by (simp add: dq_insert_range_def)
  next
    case 2
    obtain d0 base bs flat where r: "reserve_elements_at_back B (length ys) d = Inr (it_at B base bs (p + length xs + length ys), d0)"
      "deque_room B d0 base bs flat p xs" "p + length xs + length ys < length flat" "length bs = (p + length xs + length ys) div B + 1"
      by (rule reserve_back_room [OF d, of "length ys"]) (rule that)
    obtain m where "copy_list construct_at B ys (it_at B base bs (p + length xs)) d0 = Inr (it_at B base bs (p + length xs + length ys), d0\<lparr>buffers := m\<rparr>)"
      "deque_ok B (d0\<lparr>buffers := m, M_finish := it_at B base bs (p + length xs + length ys)\<rparr>) (xs @ ys)"
      by (rule back_end_run [OF r(2) deque_atD(4) [OF d] r(3,4)]) (rule that)
    with r(1) deque_roomD(3) [OF r(2)] same 2 show ?thesis by (simp add: dq_insert_range_def)
  next
    case 3
    then have "dq_insert_range B pos ys d = insert_range_aux B pos ys d" using same by (simp add: dq_insert_range_def)
    then show ?thesis using insert_aux_front(1) [OF d pos] insert_aux_back(1) [OF d pos _ k] by metis
  qed
qed

lemma dq_fill_insert_ok:
  assumes "deque_iter B d xs k pos"
  shows "\<exists>d'. dq_fill_insert B pos n x d = Inr d' \<and> deque_ok B d' (take k xs @ replicate n x @ drop k xs)"
proof -
  obtain base0 bs0 flat0 p where d: "deque_at B d base0 bs0 flat0 p xs" and pos: "pos = it_at B base0 bs0 (p + k)" and k: "k \<le> length xs"
    using assms by (auto simp: deque_iter_def)
  note same = same_cur_ends [OF d k, folded pos]
  let ?ys = "replicate n x"
  consider "k = 0" | "k \<noteq> 0" "k = length xs" | "k \<noteq> 0" "k \<noteq> length xs" by blast
  then show ?thesis
  proof cases
    case 1
    obtain d0 base bs flat s where r: "reserve_elements_at_front B n d = Inr (it_at B base bs (s - n), d0)"
      "deque_room B d0 base bs flat s xs" "n \<le> s" "s - n < B" "length bs = (s + length xs) div B + 1"
      by (rule reserve_front_room [OF d, of n]) (rule that)
    have n: "length ?ys \<le> s" "s - length ?ys < B" using r(3,4) by simp_all
    obtain m where "copy_list construct_at B ?ys (it_at B base bs (s - n)) d0 = Inr (it_at B base bs s, d0\<lparr>buffers := m\<rparr>)"
      "deque_ok B (d0\<lparr>buffers := m, M_start := it_at B base bs (s - n)\<rparr>) (?ys @ xs)"
      by (rule front_end_run [OF r(2) n r(5), unfolded length_replicate]) (rule that)
    moreover have "s - (s - n) = n" using r(3) by simp
    ultimately show ?thesis using r(1) deque_roomD(2) [OF r(2)] same 1
      by (simp add: dq_fill_insert_def fill_with_copy_list)
  next
    case 2
    obtain d0 base bs flat where r: "reserve_elements_at_back B n d = Inr (it_at B base bs (p + length xs + n), d0)"
      "deque_room B d0 base bs flat p xs" "p + length xs + n < length flat" "length bs = (p + length xs + n) div B + 1"
      by (rule reserve_back_room [OF d, of n]) (rule that)
    have n: "p + length xs + length ?ys < length flat" "length bs = (p + length xs + length ?ys) div B + 1" using r(3,4) by simp_all
    obtain m where "copy_list construct_at B ?ys (it_at B base bs (p + length xs)) d0 = Inr (it_at B base bs (p + length xs + n), d0\<lparr>buffers := m\<rparr>)"
      "deque_ok B (d0\<lparr>buffers := m, M_finish := it_at B base bs (p + length xs + n)\<rparr>) (xs @ ?ys)"
      by (rule back_end_run [OF r(2) deque_atD(4) [OF d] n, unfolded length_replicate]) (rule that)
    with r(1) deque_roomD(3) [OF r(2)] same 2 show ?thesis by (simp add: dq_fill_insert_def fill_with_copy_list)
  next
    case 3
    then have f: "dq_fill_insert B pos n x d = andThen (fill_insert_aux B pos n x d) (\<lambda>(_, d). Inr d)" using same by (simp add: dq_fill_insert_def)
    have "\<exists>it d'. fill_insert_aux B pos n x d = Inr (it, d') \<and> deque_ok B d' (take k xs @ ?ys @ drop k xs)"
      using insert_aux_front(2) [OF d pos, of n x] insert_aux_back(2) [OF d pos _ k, of n x] by blast
    then show ?thesis unfolding f by auto
  qed
qed

lemma dq_insert_ok:
  assumes "deque_iter B d xs k pos"
  shows "\<exists>it d'. dq_insert B pos x d = Inr (it, d') \<and> deque_ok B d' (take k xs @ x # drop k xs) \<and> deque_iter B d' (take k xs @ x # drop k xs) k it"
proof -
  obtain base0 bs0 flat0 p where d: "deque_at B d base0 bs0 flat0 p xs" and pos: "pos = it_at B base0 bs0 (p + k)" and k: "k \<le> length xs"
    using assms by (auto simp: deque_iter_def)
  note same = same_cur_ends [OF d k, folded pos]
  consider "k = 0" | "k \<noteq> 0" "k = length xs" | "k \<noteq> 0" "k \<noteq> length xs" by blast
  then show ?thesis
  proof cases
    case 1
    obtain d' where d': "dq_push_front B x d = Inr d'" "deque_ok B d' (x # xs)"
      by (rule push_front_ok [OF d, of x]) (rule that)
    then obtain base bs flat p where at: "deque_at B d' base bs flat p (x # xs)" by (auto simp: deque_ok_def)
    have "deque_iter B d' (x # xs) 0 (M_start d')"
      unfolding deque_iter_def using at deque_atD(5) [OF at] by (metis add_0_right le0)
    with d' same 1 show ?thesis by (simp add: dq_insert_def)
  next
    case 2
    obtain d' where d': "dq_push_back B x d = Inr d'" "deque_ok B d' (xs @ [x])"
      by (rule push_back_ok [OF d, of x]) (rule that)
    then obtain base bs flat p where at: "deque_at B d' base bs flat p (xs @ [x])" by (auto simp: deque_ok_def)
    have "decrement B (M_finish d') d' = Inr (it_at B base bs (p + length xs))"
      using decrement_it [OF deque_atD(1) [OF at], of "p + length xs"] deque_atD(6,9) [OF at] by simp
    moreover have "deque_iter B d' (xs @ [x]) (length xs) (it_at B base bs (p + length xs))"
      using at by (auto simp: deque_iter_def)
    ultimately show ?thesis using d' same 2 by (simp add: dq_insert_def)
  next
    case 3
    then have f: "dq_insert B pos x d = fill_insert_aux B pos 1 x d" using same by (simp add: dq_insert_def)
    have "1 \<le> k" using 3 by simp
    then have "\<exists>it d'. fill_insert_aux B pos 1 x d = Inr (it, d') \<and> deque_ok B d' (take k xs @ replicate 1 x @ drop k xs) \<and>
        deque_iter B d' (take k xs @ replicate 1 x @ drop k xs) k it"
      using insert_aux_front(2) [OF d pos, of 1 x] insert_aux_back(2) [OF d pos _ k, of 1 x] by blast
    then show ?thesis unfolding f by simp
  qed
qed

section \<open>Erasing ranges\<close>

lemma drop_buffers:
  assumes "map_ok d base bs" "distinct bs" "n \<le> length bs" "\<And>i. k \<le> i \<Longrightarrow> i < n \<Longrightarrow> buffers d (bs ! i) \<noteq> None"
  shows "destroy_nodes (base + k) (base + n) d = Inr (d\<lparr>buffers := without ((!) bs ` {k..<n}) (buffers d)\<rparr>)"
  using assms
proof (induction "n - k" arbitrary: k d)
  case 0
  then have "{k..<n} = {}" by simp
  then show ?case using "0.hyps" by (subst destroy_nodes.simps) (simp add: without_def)
next
  case (Suc j)
  then have k: "k < n" "k < length bs" by simp_all
  let ?d = "d\<lparr>buffers := (buffers d)(bs ! k := None)\<rparr>"
  have f: "deallocate (bs ! k) d = Inr ?d" using Suc.prems(4) [of k] k by (simp add: deallocate_def)
  have "destroy_nodes (base + Suc k) (base + n) ?d = Inr (?d\<lparr>buffers := without ((!) bs ` {Suc k..<n}) (buffers ?d)\<rparr>)"
  proof (rule Suc.hyps(1))
    fix i assume i: "Suc k \<le> i" "i < n"
    then have "bs ! i \<noteq> bs ! k" using Suc.prems(2,3) k by (simp add: nth_eq_iff_index_eq)
    then show "buffers ?d (bs ! i) \<noteq> None" using Suc.prems(4) [of i] i by simp
  qed (use Suc in simp_all)
  moreover have "without ((!) bs ` {Suc k..<n}) (buffers ?d) = without ((!) bs ` {k..<n}) (buffers d)"
  proof -
    have "{k..<n} = insert k {Suc k..<n}" using k by auto
    then show ?thesis by (auto simp: without_def)
  qed
  moreover have "map_read (int (base + k)) d = Inr (bs ! k)"
    using map_read_ok [OF Suc.prems(1) k(2)] by simp
  ultimately show ?case using f k by (subst destroy_nodes.simps) (simp del: of_nat_add)
qed

lemma nth_image_take: "j \<le> length bs \<Longrightarrow> (!) bs ` {0..<j} = set (take j bs)"
  by (simp add: nth_image)

lemma nth_image_drop: "(!) bs ` {j..<length bs} = set (drop j bs)"
proof -
  have "drop j bs = map ((!) bs) [j..<length bs]"
    by (rule nth_equalityI) simp_all
  then show ?thesis by simp
qed

lemma without_split:
  assumes "distinct bs" "dom m = set bs"
  shows "dom (without (set (take j bs)) m) = set (drop j bs)" "dom (without (set (drop j bs)) m) = set (take j bs)"
    "set (take j bs) \<inter> set (drop j bs) = {}"
proof -
  have "distinct (take j bs @ drop j bs)" using assms(1) by simp
  then show sep: "set (take j bs) \<inter> set (drop j bs) = {}" unfolding distinct_append by blast
  have un: "set (take j bs) \<union> set (drop j bs) = set bs" by (metis append_take_drop_id set_append)
  have d: "dom (without A m) = dom m - A" for A by (auto simp: without_def split: if_splits)
  show "dom (without (set (take j bs)) m) = set (drop j bs)" "dom (without (set (drop j bs)) m) = set (take j bs)"
    unfolding d assms(2) using sep un by blast+
qed

lemma chunk_drop: "chunk B (drop (B * j) xs) i = chunk B xs (j + i)"
  by (simp add: chunk_def algebra_simps)

lemma drop_front_buffers:
  assumes "nodes_ok B d base bs flat" "j \<le> length bs"
  obtains m where "destroy_nodes base (base + j) d = Inr (d\<lparr>buffers := m\<rparr>)"
    "nodes_ok B (d\<lparr>buffers := m\<rparr>) (base + j) (drop j bs) (drop (B * j) flat)"
proof -
  have mp: "map_ok d base bs" and B: "0 < B" and len: "length flat = B * length bs" and dist: "distinct bs" and dm: "dom (buffers d) = set bs"
    and fr: "\<forall>b\<in>set bs. b < fresh d" and bf: "\<forall>i<length bs. buffers d (bs ! i) = Some (chunk B flat i)"
    using assms(1) by (simp_all add: nodes_ok_def buffers_ok_def)
  let ?m = "without (set (take j bs)) (buffers d)"
  have r: "destroy_nodes base (base + j) d = Inr (d\<lparr>buffers := ?m\<rparr>)"
    using drop_buffers [OF mp dist assms(2), of 0] bf assms(2) by (simp add: nth_image_take)
  note sep = without_split [OF dist dm, of j]
  moreover have "?m (drop j bs ! i) = Some (chunk B (drop (B * j) flat) i)" if "i < length (drop j bs)" for i
  proof -
    have "drop j bs ! i \<in> set (drop j bs)" using that by (rule nth_mem)
    then have "drop j bs ! i \<notin> set (take j bs)" using sep by blast
    with that bf assms(2) show ?thesis by (simp add: without_def chunk_drop)
  qed
  moreover have "map_ok (d\<lparr>buffers := ?m\<rparr>) (base + j) (drop j bs)" using mp assms(2) by (simp add: map_ok_def add.assoc)
  moreover have "\<forall>b\<in>set (drop j bs). b < fresh d" using fr by (auto dest: in_set_dropD)
  ultimately have "nodes_ok B (d\<lparr>buffers := ?m\<rparr>) (base + j) (drop j bs) (drop (B * j) flat)"
    using B len dist unfolding nodes_ok_def buffers_ok_def by (simp add: diff_mult_distrib2)
  with r show ?thesis by (rule that)
qed

lemma drop_back_buffers:
  assumes "nodes_ok B d base bs flat" "j \<le> length bs"
  obtains m where "destroy_nodes (base + j) (base + length bs) d = Inr (d\<lparr>buffers := m\<rparr>)"
    "nodes_ok B (d\<lparr>buffers := m\<rparr>) base (take j bs) (take (B * j) flat)"
proof -
  have mp: "map_ok d base bs" and B: "0 < B" and len: "length flat = B * length bs" and dist: "distinct bs" and dm: "dom (buffers d) = set bs"
    and fr: "\<forall>b\<in>set bs. b < fresh d" and bf: "\<forall>i<length bs. buffers d (bs ! i) = Some (chunk B flat i)"
    using assms(1) by (simp_all add: nodes_ok_def buffers_ok_def)
  let ?m = "without (set (drop j bs)) (buffers d)"
  have r: "destroy_nodes (base + j) (base + length bs) d = Inr (d\<lparr>buffers := ?m\<rparr>)"
    using drop_buffers [OF mp dist order_refl, of j] bf by (simp add: nth_image_drop)
  note sep = without_split [OF dist dm, of j]
  moreover have "?m (take j bs ! i) = Some (chunk B (take (B * j) flat) i)" if "i < length (take j bs)" for i
  proof -
    have "take j bs ! i \<in> set (take j bs)" using that by (rule nth_mem)
    then have "take j bs ! i \<notin> set (drop j bs)" using sep by blast
    moreover have "Suc i * B \<le> B * j" using that mult_le_mono1 [of "Suc i" j B] by (simp add: mult.commute)
    ultimately show ?thesis using that bf by (simp add: without_def chunk_butlast)
  qed
  moreover have "map_ok (d\<lparr>buffers := ?m\<rparr>) base (take j bs)" using mp assms(2) by (simp add: map_ok_def)
  moreover have "\<forall>b\<in>set (take j bs). b < fresh d" using fr by (auto dest: in_set_takeD)
  ultimately have "nodes_ok B (d\<lparr>buffers := ?m\<rparr>) base (take j bs) (take (B * j) flat)"
    using B len dist assms(2) unfolding nodes_ok_def buffers_ok_def by (simp add: min_def)
  with r show ?thesis by (rule that)
qed

lemma destroy_range_cells:
  assumes "nodes_ok B d base bs flat" "p + n < length flat" "\<And>i. i < n \<Longrightarrow> flat ! (p + i) \<noteq> None"
  obtains m flat' where "destroy_range B (it_at B base bs p) (it_at B base bs (p + n)) d = Some (Inr (d\<lparr>buffers := m\<rparr>))"
    "nodes_ok B (d\<lparr>buffers := m\<rparr>) base bs flat'" "length flat' = length flat" "\<And>j. j < p \<or> p + n \<le> j \<Longrightarrow> flat' ! j = flat ! j"
proof -
  have "\<exists>m flat'. destroy_range B (it_at B base bs p) (it_at B base bs (p + n)) d = Some (Inr (d\<lparr>buffers := m\<rparr>)) \<and>
    nodes_ok B (d\<lparr>buffers := m\<rparr>) base bs flat' \<and> length flat' = length flat \<and> (\<forall>j. j < p \<or> p + n \<le> j \<longrightarrow> flat' ! j = flat ! j)"
    using assms
  proof (induction n arbitrary: p d flat)
    case 0
    have "d = d\<lparr>buffers := buffers d\<rparr>" by simp
    moreover have "destroy_range B (it_at B base bs p) (it_at B base bs (p + 0)) d = Some (Inr d)"
      by (subst destroy_range.simps) (simp add: same_cur_def)
    ultimately show ?case using "0.prems"(1) by metis
  next
    case (Suc n)
    obtain x where x: "flat ! p = Some x" using Suc.prems(3) [of 0] by auto
    have lt: "p < length flat" "p + Suc n < length flat" using Suc.prems(2) by simp_all
    obtain m where c: "destroy_at (M_first (it_at B base bs p)) (M_cur (it_at B base bs p)) d = Inr (d\<lparr>buffers := m\<rparr>)"
      and n: "nodes_ok B (d\<lparr>buffers := m\<rparr>) base bs (flat[p := None])"
      using destroy_elem [OF Suc.prems(1) lt(1) refl x] by blast
    have "\<exists>m' flat'. destroy_range B (it_at B base bs (Suc p)) (it_at B base bs (Suc p + n)) (d\<lparr>buffers := m\<rparr>) =
        Some (Inr (d\<lparr>buffers := m, buffers := m'\<rparr>)) \<and> nodes_ok B (d\<lparr>buffers := m, buffers := m'\<rparr>) base bs flat' \<and>
        length flat' = length (flat[p := None]) \<and> (\<forall>j. j < Suc p \<or> Suc p + n \<le> j \<longrightarrow> flat' ! j = flat[p := None] ! j)"
    proof (rule Suc.IH [OF n])
      show "flat[p := None] ! (Suc p + i) \<noteq> None" if "i < n" for i
        using Suc.prems(3) [of "Suc i"] that by simp
    qed (use lt in simp)
    then have "\<exists>m' flat'. destroy_range B (it_at B base bs (Suc p)) (it_at B base bs (Suc p + n)) (d\<lparr>buffers := m\<rparr>) =
        Some (Inr (d\<lparr>buffers := m'\<rparr>)) \<and> nodes_ok B (d\<lparr>buffers := m'\<rparr>) base bs flat' \<and>
        length flat' = length flat \<and> (\<forall>j. j < Suc p \<or> Suc p + n \<le> j \<longrightarrow> flat' ! j = flat[p := None] ! j)"
      unfolding length_list_update by simp
    then obtain m' flat' where r: "destroy_range B (it_at B base bs (Suc p)) (it_at B base bs (Suc p + n)) (d\<lparr>buffers := m\<rparr>) =
        Some (Inr (d\<lparr>buffers := m'\<rparr>))" "nodes_ok B (d\<lparr>buffers := m'\<rparr>) base bs flat'" "length flat' = length flat"
        "\<And>j. j < Suc p \<or> Suc p + n \<le> j \<Longrightarrow> flat' ! j = flat[p := None] ! j" by blast
    have "increment B (it_at B base bs p) (d\<lparr>buffers := m\<rparr>) = Inr (it_at B base bs (Suc p))"
      using increment_it [OF n] lt by simp
    moreover have "\<not> same_cur (it_at B base bs p) (it_at B base bs (p + Suc n))"
      using same_cur_it [OF Suc.prems(1) lt] by simp
    ultimately have "destroy_range B (it_at B base bs p) (it_at B base bs (p + Suc n)) d = Some (Inr (d\<lparr>buffers := m'\<rparr>))"
      using c r(1) by (subst destroy_range.simps) (simp del: it_at_simps)
    moreover have "flat' ! j = flat ! j" if "j < p \<or> p + Suc n \<le> j" for j using r(4) [of j] that by auto
    ultimately show ?case using r(2,3) by blast
  qed
  then show ?thesis using that by blast
qed

lemma it_at_drop: "0 < B \<Longrightarrow> j \<le> length bs \<Longrightarrow> it_at B base bs (B * j + r) = it_at B (base + j) (drop j bs) r"
  by (simp add: it_at_def)

lemma it_at_take: "q div B < j \<Longrightarrow> it_at B base (take j bs) q = it_at B base bs q"
  by (simp add: it_at_def)

lemma cut_front:
  assumes d: "deque_at B d base bs flat p xs" and n: "n \<le> length xs"
  obtains d1 d2 where "destroy_range B (M_start d) (it_at B base bs (p + n)) d = Some (Inr d1)" "M_start d1 = M_start d"
    "destroy_nodes base (base + (p + n) div B) d1 = Inr d2" "deque_ok B (d2\<lparr>M_start := it_at B base bs (p + n)\<rparr>) (drop n xs)"
proof -
  note D = deque_atD [OF d]
  let ?j = "(p + n) div B" and ?r = "(p + n) mod B"
  have lt: "p + n < length flat" using D(9) n by simp
  have full: "flat ! (p + i) \<noteq> None" if "i < n" for i using D(10) [of i] n that by simp
  obtain m flat1 where r1: "destroy_range B (it_at B base bs p) (it_at B base bs (p + n)) d = Some (Inr (d\<lparr>buffers := m\<rparr>))"
    "nodes_ok B (d\<lparr>buffers := m\<rparr>) base bs flat1" "length flat1 = length flat" "\<And>j. j < p \<or> p + n \<le> j \<Longrightarrow> flat1 ! j = flat ! j"
    by (rule destroy_range_cells [OF D(1) lt full]) (assumption, rule that)
  have jl: "?j < length bs" using cell_buffer(3) [OF D(1) lt] .
  then have j: "?j \<le> length bs" by simp
  obtain m2 where r2: "destroy_nodes base (base + ?j) (d\<lparr>buffers := m\<rparr>) = Inr (d\<lparr>buffers := m, buffers := m2\<rparr>)"
    "nodes_ok B (d\<lparr>buffers := m, buffers := m2\<rparr>) (base + ?j) (drop ?j bs) (drop (B * ?j) flat1)"
    by (rule drop_front_buffers [OF r1(2) j]) (rule that)
  let ?d = "d\<lparr>buffers := m2, M_start := it_at B base bs (p + n)\<rparr>" and ?q = "p + length xs"
  have e: "p + n = B * ?j + ?r" by simp
  have q: "?q = B * ?j + (?r + length (drop n xs))" using n e by simp
  have div: "?q div B = ?j + (?r + length (drop n xs)) div B" unfolding q using D(3) by (intro div_mult_self4) simp
  have "ends_ok B ?d (base + ?j) (drop ?j bs) ?r (?r + length (drop n xs))"
    using D(3,6,7) j div it_at_drop [OF D(3) j, of base ?r] it_at_drop [OF D(3) j, of base "?r + length (drop n xs)"]
    unfolding ends_ok_def by (simp add: q [symmetric] del: length_drop it_at_simps) (simp)
  moreover have "drop (B * ?j) flat1 ! (?r + i) = Some (drop n xs ! i)" if "i < length (drop n xs)" for i
  proof -
    have "B * ?j + (?r + i) = p + (n + i)" using e by simp
    moreover have "flat1 ! (p + (n + i)) = Some (xs ! (n + i))" using r1(4) [of "p + (n + i)"] D(10) [of "n + i"] that by simp
    moreover have "B * ?j \<le> length flat1" using lt r1(3) e by linarith
    ultimately show ?thesis using n by (simp add: add.assoc)
  qed
  ultimately have "deque_at B ?d (base + ?j) (drop ?j bs) (drop (B * ?j) flat1) ?r (drop n xs)"
    using r2(2) by (simp add: deque_at_def)
  with r1(1) r2(1) D(5) that [of "d\<lparr>buffers := m\<rparr>" "d\<lparr>buffers := m2\<rparr>"] show ?thesis by (auto dest: deque_okI)
qed

lemma cut_back:
  assumes d: "deque_at B d base bs flat p xs" and n: "n \<le> length xs"
  obtains d1 d2 where "destroy_range B (it_at B base bs (p + n)) (M_finish d) d = Some (Inr d1)" "M_finish d1 = M_finish d"
    "destroy_nodes (base + (p + n) div B + 1) (base + length bs) d1 = Inr d2"
    "deque_ok B (d2\<lparr>M_finish := it_at B base bs (p + n)\<rparr>) (take n xs)"
proof -
  note D = deque_atD [OF d]
  let ?j = "(p + n) div B + 1"
  have e: "p + n + (length xs - n) = p + length xs" using n by simp
  have lt: "p + n + (length xs - n) < length flat" using D(9) e by simp
  have full: "flat ! (p + n + i) \<noteq> None" if "i < length xs - n" for i using D(10) [of "n + i"] that by (simp add: add.assoc)
  obtain m flat1 where r1: "destroy_range B (it_at B base bs (p + n)) (it_at B base bs (p + n + (length xs - n))) d = Some (Inr (d\<lparr>buffers := m\<rparr>))"
    "nodes_ok B (d\<lparr>buffers := m\<rparr>) base bs flat1" "length flat1 = length flat"
    "\<And>j. j < p + n \<or> p + n + (length xs - n) \<le> j \<Longrightarrow> flat1 ! j = flat ! j"
    by (rule destroy_range_cells [OF D(1) lt full]) (assumption, rule that)
  have pn: "p + n < length flat" using D(9) n by simp
  have j: "?j \<le> length bs" using cell_buffer(3) [OF D(1) pn] by simp
  obtain m2 where r2: "destroy_nodes (base + ?j) (base + length bs) (d\<lparr>buffers := m\<rparr>) = Inr (d\<lparr>buffers := m, buffers := m2\<rparr>)"
    "nodes_ok B (d\<lparr>buffers := m, buffers := m2\<rparr>) base (take ?j bs) (take (B * ?j) flat1)"
    by (rule drop_back_buffers [OF r1(2) j]) (rule that)
  let ?d = "d\<lparr>buffers := m2, M_finish := it_at B base bs (p + n)\<rparr>"
  have ll: "length (take n xs) = n" using n by simp
  have "p div B \<le> (p + n) div B" by (rule div_le_mono) simp
  then have "ends_ok B ?d base (take ?j bs) p (p + length (take n xs))"
    using D(4,5) j unfolding ends_ok_def ll by (simp add: it_at_take)
  moreover have "take (B * ?j) flat1 ! (p + i) = Some (take n xs ! i)" if "i < length (take n xs)" for i
  proof -
    have i: "i < n" "i < length xs" using that by simp_all
    have "p + n < B * ?j" using below_blocks [OF D(3)] .
    then have "p + i < B * ?j" using i(1) by simp
    moreover have "flat1 ! (p + i) = Some (xs ! i)" using r1(4) [of "p + i"] D(10) [OF i(2)] i(1) by simp
    ultimately show ?thesis using i(1) by simp
  qed
  ultimately have "deque_at B ?d base (take ?j bs) (take (B * ?j) flat1) p (take n xs)"
    using r2(2) by (simp add: deque_at_def)
  with r1(1) r2(1) D(6) e that [of "d\<lparr>buffers := m\<rparr>" "d\<lparr>buffers := m2\<rparr>"] show ?thesis by (auto dest: deque_okI)
qed

lemma dq_erase_aux_ok:
  assumes d: "deque_at B d base bs flat p xs" and kl: "k \<le> l" "l \<le> length xs"
  shows "\<exists>it d'. dq_erase_aux B (it_at B base bs (p + k)) (it_at B base bs (p + l)) d = Some (Inr (it, d')) \<and>
    deque_ok B d' (take k xs @ drop l xs) \<and> deque_iter B d' (take k xs @ drop l xs) k it"
proof -
  note D = deque_atD [OF d]
  let ?f = "it_at B base bs (p + k)" and ?g = "it_at B base bs (p + l)" and ?ys = "take k xs @ drop l xs" and ?n = "l - k"
  have ix: "subtract B ?f (M_start d) = int k" "dq_size B d = length xs" "subtract B ?g ?f = int ?n"
    unfolding D(5) using d kl by (simp_all add: dq_size_ok deque_okI)
  let ?front = "bindS (copy_backward_iters B (M_start d) ?f ?g d) (\<lambda>(_, d).
      bindS (advance_by B (int ?n) (M_start d) d) (\<lambda>new_start.
      bindR (destroy_range B (M_start d) new_start d) (\<lambda>d.
      bindS (destroy_nodes (M_node (M_start d)) (M_node new_start) d) (\<lambda>d.
      Some (Inr (d\<lparr>M_start := new_start\<rparr>))))))"
  let ?rear = "bindS (copy_iters B ?g (M_finish d) ?f d) (\<lambda>(_, d).
      bindS (advance_by B (- int ?n) (M_finish d) d) (\<lambda>new_finish.
      bindR (destroy_range B new_finish (M_finish d) d) (\<lambda>d.
      bindS (destroy_nodes (M_node new_finish + 1) (M_node (M_finish d) + 1) d) (\<lambda>d.
      Some (Inr (d\<lparr>M_finish := new_finish\<rparr>))))))"
  have front: "\<exists>d'. ?front = Some (Inr d') \<and> deque_ok B d' ?ys"
  proof -
    let ?zs = "memmove (l - k) 0 k xs"
    obtain m flat1 it where c: "copy_backward_iters B (M_start d) ?f ?g d = Inr (it, d\<lparr>buffers := m\<rparr>)"
      and a: "deque_at B (d\<lparr>buffers := m\<rparr>) base bs flat1 p ?zs"
      using copy_backward_iters_ok [OF d le0 kl] unfolding D(5) minus_nat.diff_0 add_0_right by blast
    have z: "length ?zs = length xs" "drop ?n ?zs = ?ys" using kl by (simp_all add: memmove_def)
    have n: "?n \<le> length ?zs" using kl z(1) by simp
    note A = deque_atD [OF a]
    have adv: "advance_by B (int ?n) (M_start d) (d\<lparr>buffers := m\<rparr>) = Inr (it_at B base bs (p + ?n))"
      unfolding D(5) using A(9) n by (intro advance_it [OF A(1)]) simp_all
    obtain d1 d2 where cut: "destroy_range B (M_start (d\<lparr>buffers := m\<rparr>)) (it_at B base bs (p + ?n)) (d\<lparr>buffers := m\<rparr>) = Some (Inr d1)"
      "M_start d1 = M_start (d\<lparr>buffers := m\<rparr>)" "destroy_nodes base (base + (p + ?n) div B) d1 = Inr d2"
      "deque_ok B (d2\<lparr>M_start := it_at B base bs (p + ?n)\<rparr>) (drop ?n ?zs)"
      by (rule cut_front [OF a n]) (rule that)
    have s: "M_node (M_start d) = base" using D(4,5) by simp
    show ?thesis using c adv cut(1-3) cut(4) [unfolded z(2)] by (simp add: s)
  qed
  have rear: "\<exists>d'. ?rear = Some (Inr d') \<and> deque_ok B d' ?ys"
  proof -
    let ?zs = "memmove k l (length xs - l) xs" and ?m = "length xs - ?n"
    have pr: "l \<le> length xs" "length xs \<le> length xs" "k + (length xs - l) \<le> length xs" "no_clobber l (length xs) k"
      using kl by (simp_all add: no_clobber_def)
    obtain m flat1 it where c: "copy_iters B ?g (M_finish d) ?f d = Inr (it, d\<lparr>buffers := m\<rparr>)"
      and a: "deque_at B (d\<lparr>buffers := m\<rparr>) base bs flat1 p ?zs"
      using copy_iters_ok [OF d pr] unfolding D(6) by blast
    have z: "length ?zs = length xs" "take ?m ?zs = ?ys" using kl by (simp_all add: memmove_def)
    have n: "?m \<le> length ?zs" using z(1) by simp
    note A = deque_atD [OF a]
    have fin: "M_finish (d\<lparr>buffers := m\<rparr>) = it_at B base bs (p + length xs)" using D(6) by simp
    have adv: "advance_by B (- int ?n) (M_finish d) (d\<lparr>buffers := m\<rparr>) = Inr (it_at B base bs (p + ?m))"
      unfolding D(6) using A(9) kl z(1) by (intro advance_it [OF A(1)]) simp_all
    obtain d1 d2 where cut: "destroy_range B (it_at B base bs (p + ?m)) (M_finish (d\<lparr>buffers := m\<rparr>)) (d\<lparr>buffers := m\<rparr>) = Some (Inr d1)"
      "M_finish d1 = M_finish (d\<lparr>buffers := m\<rparr>)" "destroy_nodes (base + (p + ?m) div B + 1) (base + length bs) d1 = Inr d2"
      "deque_ok B (d2\<lparr>M_finish := it_at B base bs (p + ?m)\<rparr>) (take ?m ?zs)"
      by (rule cut_back [OF a n]) (rule that)
    have s: "M_node (M_finish d) + 1 = base + length bs" using D(6,7) by simp
    have s1: "M_node (M_finish d1) + 1 = base + length bs" using cut(2) s by simp
    show ?thesis using c adv cut(1-3) cut(4) [unfolded z(2)] s1 by simp
  qed
  define moved where "moved = (if int k \<le> (int (dq_size B d) - int ?n) div 2 then ?front else ?rear)"
  obtain d' where m: "moved = Some (Inr d')" and d': "deque_ok B d' ?ys"
    using front rear unfolding moved_def by (metis (no_types))
  have "k \<le> length ?ys" using kl by simp
  then obtain it where "advance_by B (int k) (M_start d') d' = Inr it" "deque_iter B d' ?ys k it"
    using advance_start [OF d'] by blast
  moreover have "dq_erase_aux B ?f ?g d = bindR moved (\<lambda>d. bindS (advance_by B (int k) (M_start d) d) (\<lambda>i. Some (Inr (i, d))))"
    unfolding dq_erase_aux_def Let_def ix moved_def ..
  ultimately show ?thesis using m d' by simp
qed

lemma dq_erase_range_ok:
  assumes d: "deque_at B d base bs flat p xs" and kl: "k \<le> l" "l \<le> length xs"
  shows "\<exists>it d'. dq_erase_range B (it_at B base bs (p + k)) (it_at B base bs (p + l)) d = Some (Inr (it, d')) \<and>
    deque_ok B d' (take k xs @ drop l xs) \<and> deque_iter B d' (take k xs @ drop l xs) k it"
proof -
  note D = deque_atD [OF d]
  have k: "k \<le> length xs" using kl by simp
  have pos: "p + k < length flat" "p + l < length flat" using D(9) kl by simp_all
  note same = same_cur_ends(1) [OF d k] same_cur_ends(2) [OF d kl(2)] same_cur_it [OF D(1) pos]
  consider "k = 0" "l = length xs" | "\<not> (k = 0 \<and> l = length xs)" "k = l" | "\<not> (k = 0 \<and> l = length xs)" "k \<noteq> l" by blast
  then show ?thesis
  proof cases
    case 1
    obtain d' where c: "dq_clear B d = Inr d'" "deque_ok B d' []"
      by (rule dq_clear_ok [OF deque_okI [OF d]]) (rule that)
    then obtain base bs flat p where at: "deque_at B d' base bs flat p []" by (auto simp: deque_ok_def)
    have "deque_iter B d' [] 0 (M_finish d')" using at deque_atD(6) [OF at] by (auto simp: deque_iter_def)
    with c 1 show ?thesis using same by (simp add: dq_erase_range_def)
  next
    case 2
    then have "deque_iter B d xs k (it_at B base bs (p + k))" using d k by (auto simp: deque_iter_def)
    with 2 deque_okI [OF d] same show ?thesis by (auto simp: dq_erase_range_def)
  next
    case 3
    then have "dq_erase_range B (it_at B base bs (p + k)) (it_at B base bs (p + l)) d = dq_erase_aux B (it_at B base bs (p + k)) (it_at B base bs (p + l)) d"
      using same by (auto simp: dq_erase_range_def)
    then show ?thesis using dq_erase_aux_ok [OF d kl] by simp
  qed
qed

lemma erase_tail:
  assumes "deque_at B d base bs flat p xs" "n \<le> length xs"
  shows "\<exists>it d'. dq_erase_range B (it_at B base bs (p + n)) (M_finish d) d = Some (Inr (it, d')) \<and> deque_ok B d' (take n xs)"
  using dq_erase_range_ok [OF assms order_refl] unfolding deque_atD(6) [OF assms(1)] by auto

lemma insert_tail:
  assumes "deque_ok B d xs"
  shows "\<exists>d'. dq_insert_range B (M_finish d) ys d = Inr d' \<and> deque_ok B d' (xs @ ys)"
    "\<exists>d'. dq_fill_insert B (M_finish d) n x d = Inr d' \<and> deque_ok B d' (xs @ replicate n x)"
proof -
  obtain base bs flat p where at: "deque_at B d base bs flat p xs" using assms by (auto simp: deque_ok_def)
  then have i: "deque_iter B d xs (length xs) (M_finish d)" using deque_atD(6) [OF at] by (auto simp: deque_iter_def)
  show "\<exists>d'. dq_insert_range B (M_finish d) ys d = Inr d' \<and> deque_ok B d' (xs @ ys)"
    using dq_insert_range_ok [OF i, of ys] by simp
  show "\<exists>d'. dq_fill_insert B (M_finish d) n x d = Inr d' \<and> deque_ok B d' (xs @ replicate n x)"
    using dq_fill_insert_ok [OF i, of n x] by simp
qed

section \<open>Resizing and assigning\<close>

lemma dq_resize_ok:
  assumes "deque_ok B d xs"
  shows "\<exists>d'. dq_resize B n x d = Some (Inr d') \<and> deque_ok B d' (take n xs @ replicate (n - length xs) x)"
proof -
  obtain base bs flat p where d: "deque_at B d base bs flat p xs" using assms by (auto simp: deque_ok_def)
  note D = deque_atD [OF d]
  show ?thesis
  proof (cases "n < length xs")
    case True
    then have n: "n \<le> length xs" by simp
    have "advance_by B (int n) (M_start d) d = Inr (it_at B base bs (p + n))"
      unfolding D(5) using D(9) n by (intro advance_it [OF D(1)]) simp_all
    with erase_tail [OF d n] True show ?thesis by (auto simp: dq_resize_def dq_size_ok [OF assms])
  next
    case False
    then show ?thesis using insert_tail(2) [OF assms, of "n - length xs" x]
      by (simp add: dq_resize_def dq_size_ok [OF assms])
  qed
qed

lemma overwrite_front:
  assumes d: "deque_at B d base bs flat p xs" and n: "length ys \<le> length xs"
  obtains d' flat' where "copy_list assign_at B ys (M_start d) d = Inr (it_at B base bs (p + length ys), d')"
    "deque_at B d' base bs flat' p (ys @ drop (length ys) xs)"
proof -
  note D = deque_atD [OF d]
  note R = deque_roomD [OF deque_at_room [OF d]]
  have lt: "p + length ys < length flat" using D(9) n by simp
  have full: "assign_at = construct_at \<or> assign_at = assign_at \<and> (\<forall>i<length ys. flat ! (p + i) \<noteq> None)"
    using D(10) n by simp
  obtain m where r: "copy_list assign_at B ys (it_at B base bs p) d = Inr (it_at B base bs (p + length ys), d\<lparr>buffers := m\<rparr>)"
    "nodes_ok B (d\<lparr>buffers := m\<rparr>) base bs (patched p ys flat)"
    by (rule copy_list_cells [OF D(1) lt full]) (rule that)
  have h: "holds_at flat p (take (length ys) xs @ drop (length ys) xs)" using R(5) by simp
  have "holds_at flat (p + length ys) (drop (length ys) xs)" using h n unfolding holds_at_append by simp
  then have "holds_at (patched p ys flat) (p + length ys) (drop (length ys) xs)"
    using lt by (intro holds_at_beside_patch) simp_all
  moreover have "holds_at (patched p ys flat) p ys" using lt by (intro holds_at_patched) simp
  ultimately have "holds_at (patched p ys flat) p (ys @ drop (length ys) xs)" by (simp add: holds_at_append)
  then have "deque_at B (d\<lparr>buffers := m\<rparr>) base bs (patched p ys flat) p (ys @ drop (length ys) xs)"
    using r(2) D(2) n by (simp add: deque_at_def holds_at_def ends_ok_def)
  with r(1) D(5) that show ?thesis by simp
qed

lemma dq_assign_range_ok:
  assumes "deque_ok B d xs"
  shows "\<exists>d'. dq_assign_range B ys d = Some (Inr d') \<and> deque_ok B d' ys"
proof -
  obtain base bs flat p where d: "deque_at B d base bs flat p xs" using assms by (auto simp: deque_ok_def)
  note sz = dq_size_ok [OF assms]
  show ?thesis
  proof (cases "length ys > length xs")
    case True
    then have l: "length (take (length xs) ys) \<le> length xs" "length (take (length xs) ys) = length xs" by simp_all
    obtain d1 flat1 where c: "copy_list assign_at B (take (length xs) ys) (M_start d) d = Inr (it_at B base bs (p + length (take (length xs) ys)), d1)"
      "deque_at B d1 base bs flat1 p (take (length xs) ys @ drop (length (take (length xs) ys)) xs)"
      by (rule overwrite_front [OF d l(1)]) (rule that)
    have "deque_ok B d1 (take (length xs) ys)" using c(2) l(2) by (auto intro: deque_okI)
    then show ?thesis using True c(1) insert_tail(1) [of B d1 "take (length xs) ys" "drop (length xs) ys"]
      by (simp add: dq_assign_range_def sz)
  next
    case False
    then have l: "length ys \<le> length xs" by simp
    obtain d1 flat1 where c: "copy_list assign_at B ys (M_start d) d = Inr (it_at B base bs (p + length ys), d1)"
      "deque_at B d1 base bs flat1 p (ys @ drop (length ys) xs)"
      by (rule overwrite_front [OF d l]) (rule that)
    have "length ys \<le> length (ys @ drop (length ys) xs)" by simp
    from erase_tail [OF c(2) this] False c(1) show ?thesis by (auto simp: dq_assign_range_def sz)
  qed
qed

lemma dq_fill_assign_ok:
  assumes "deque_ok B d xs"
  shows "\<exists>d'. dq_fill_assign B n x d = Some (Inr d') \<and> deque_ok B d' (replicate n x)"
proof -
  have fill: "\<exists>d'. fill_iters B (M_start d) (M_finish d) x d = Inr d' \<and> deque_ok B d' (replicate (length xs) x)"
    if ok: "deque_ok B d xs" for d :: "'a deque_state" and xs
  proof -
    obtain base bs flat p where d: "deque_at B d base bs flat p xs" using ok by (auto simp: deque_ok_def)
    note D = deque_atD [OF d]
    have l: "length (replicate (length xs) x) \<le> length xs" by simp
    obtain d1 flat1 where c: "copy_list assign_at B (replicate (length xs) x) (M_start d) d = Inr (it_at B base bs (p + length (replicate (length xs) x)), d1)"
      "deque_at B d1 base bs flat1 p (replicate (length xs) x @ drop (length (replicate (length xs) x)) xs)"
      by (rule overwrite_front [OF d l]) (rule that)
    then show ?thesis unfolding D(5,6) by (auto simp: fill_with_copy_list intro: deque_okI)
  qed
  obtain base bs flat p where d: "deque_at B d base bs flat p xs" using assms by (auto simp: deque_ok_def)
  note D = deque_atD [OF d]
  note sz = dq_size_ok [OF assms]
  show ?thesis
  proof (cases "n > length xs")
    case True
    obtain d1 where f: "fill_iters B (M_start d) (M_finish d) x d = Inr d1" "deque_ok B d1 (replicate (length xs) x)"
      using fill [OF assms] by blast
    obtain d2 where i: "dq_fill_insert B (M_finish d1) (n - length xs) x d1 = Inr d2"
      "deque_ok B d2 (replicate (length xs) x @ replicate (n - length xs) x)"
      using insert_tail(2) [OF f(2)] by blast
    have "replicate (length xs) x @ replicate (n - length xs) x = replicate n x" using True by (simp flip: replicate_add)
    then show ?thesis using True f i dq_size_ok [OF f(2)] by (simp add: dq_fill_assign_def sz)
  next
    case False
    then have n: "n \<le> length xs" by simp
    have "advance_by B (int n) (M_start d) d = Inr (it_at B base bs (p + n))"
      unfolding D(5) using D(9) n by (intro advance_it [OF D(1)]) simp_all
    moreover obtain it d1 where "dq_erase_range B (it_at B base bs (p + n)) (M_finish d) d = Some (Inr (it, d1))" "deque_ok B d1 (take n xs)"
      using erase_tail [OF d n] by blast
    ultimately show ?thesis using fill [of d1 "take n xs"] False n by (auto simp: dq_fill_assign_def sz min_def split: if_splits)
  qed
qed

section \<open>Ranges that are read once\<close>

lemma insert_input_ok:
  assumes "deque_iter B d xs k pos"
  shows "\<exists>d'. insert_input B pos ys d = Inr d' \<and> deque_ok B d' (take k xs @ ys @ drop k xs)"
  using assms
proof (induction ys arbitrary: d xs k pos)
  case Nil
  then show ?case by (auto simp: deque_iter_def intro: deque_okI)
next
  case (Cons y ys)
  let ?zs = "take k xs @ y # drop k xs"
  have k: "k \<le> length xs" using Cons.prems by (auto simp: deque_iter_def)
  obtain i d1 where i: "dq_insert B pos y d = Inr (i, d1)" "deque_iter B d1 ?zs k i"
    using dq_insert_ok [OF Cons.prems] by blast
  then obtain base bs flat p where at: "deque_at B d1 base bs flat p ?zs" and it: "i = it_at B base bs (p + k)"
    by (auto simp: deque_iter_def)
  have "increment B i d1 = Inr (it_at B base bs (p + Suc k))"
    unfolding it using increment_it [OF deque_atD(1) [OF at], of "p + k"] deque_atD(9) [OF at] k by simp
  moreover have "deque_iter B d1 ?zs (Suc k) (it_at B base bs (p + Suc k))" using at k by (auto simp: deque_iter_def)
  moreover have "take (Suc k) ?zs = take k xs @ [y]" "drop (Suc k) ?zs = drop k xs" using k by simp_all
  ultimately show ?case using Cons.IH [of d1 ?zs "Suc k" "it_at B base bs (p + Suc k)"] i(1) by simp
qed

lemma assign_input_ok:
  assumes "deque_at B d base bs flat p xs" "k \<le> length xs"
  shows "\<exists>d' flat'. assign_input B (it_at B base bs (p + k)) ys d =
      Inr (drop (length xs - k) ys, it_at B base bs (p + min (length xs) (k + length ys)), d') \<and>
    deque_at B d' base bs flat' p (take k xs @ take (length xs - k) ys @ drop (k + length ys) xs)"
  using assms
proof (induction ys arbitrary: d flat xs k)
  case Nil
  then show ?case by auto
next
  case (Cons y ys)
  note D = deque_atD [OF Cons.prems(1)]
  show ?case
  proof (cases "k = length xs")
    case True
    then show ?thesis using same_cur_ends(2) [OF Cons.prems] Cons.prems(1) by auto
  next
    case False
    then have k: "k < length xs" "p + k < length flat" using Cons.prems(2) D(9) by simp_all
    let ?xs = "xs[k := y]"
    obtain m where a: "assign_at (M_first (it_at B base bs (p + k))) (M_cur (it_at B base bs (p + k))) y d = Inr (d\<lparr>buffers := m\<rparr>)"
      and n: "nodes_ok B (d\<lparr>buffers := m\<rparr>) base bs (flat[p + k := Some y])"
      using put_cell [OF D(1) k(2), of assign_at y] D(10) [OF k(1)] by auto
    have d1: "deque_at B (d\<lparr>buffers := m\<rparr>) base bs (flat[p + k := Some y]) p ?xs"
      using n D(2) D(10) k by (auto simp: deque_at_def ends_ok_def nth_list_update)
    have inc: "increment B (it_at B base bs (p + k)) (d\<lparr>buffers := m\<rparr>) = Inr (it_at B base bs (p + Suc k))"
      using increment_it [OF n, of "p + k"] D(9) k by simp
    have neq: "\<not> same_cur (it_at B base bs (p + k)) (M_finish d)" using same_cur_ends(2) [OF Cons.prems] False by simp
    have "Suc k \<le> length ?xs" using k by simp
    from Cons.IH [OF d1 this] obtain d' flat' where r:
      "assign_input B (it_at B base bs (p + Suc k)) ys (d\<lparr>buffers := m\<rparr>) =
         Inr (drop (length xs - Suc k) ys, it_at B base bs (p + min (length xs) (Suc k + length ys)), d')"
      "deque_at B d' base bs flat' p (take (Suc k) ?xs @ take (length xs - Suc k) ys @ drop (Suc k + length ys) ?xs)"
      by auto
    have e: "take (Suc k) ?xs @ take (length xs - Suc k) ys @ drop (Suc k + length ys) ?xs =
        take k xs @ take (length xs - k) (y # ys) @ drop (k + length (y # ys)) xs"
      using k by (simp add: take_Suc_conv_app_nth drop_update_cancel take_Cons' Suc_diff_Suc [symmetric])
    have l: "drop (length xs - Suc k) ys = drop (length xs - k) (y # ys)" using k by (simp add: Suc_diff_Suc [symmetric])
    show ?thesis using a inc neq r(1) r(2) [unfolded e] l by (simp del: it_at_simps drop_Suc_Cons) (metis add_Suc_right)
  qed
qed

lemma dq_assign_input_ok:
  assumes "deque_ok B d xs"
  shows "\<exists>d'. dq_assign_input B ys d = Some (Inr d') \<and> deque_ok B d' ys"
proof -
  obtain base bs flat p where d: "deque_at B d base bs flat p xs" using assms by (auto simp: deque_ok_def)
  obtain d' flat' where r: "assign_input B (M_start d) ys d =
      Inr (drop (length xs) ys, it_at B base bs (p + min (length xs) (length ys)), d')"
    "deque_at B d' base bs flat' p (take (length xs) ys @ drop (length ys) xs)"
    using assign_input_ok [OF d le0, of ys] unfolding deque_atD(5) [OF d] by auto
  show ?thesis
  proof (cases "length ys \<le> length xs")
    case True
    then have t: "take (length xs) ys @ drop (length ys) xs = ys @ drop (length ys) xs" "min (length xs) (length ys) = length ys" by simp_all
    have l: "length ys \<le> length (ys @ drop (length ys) xs)" by simp
    show ?thesis using erase_tail [OF r(2) [unfolded t] l] r(1) [unfolded t] True by (auto simp: dq_assign_input_def)
  next
    case False
    then have ok: "deque_ok B d' (take (length xs) ys)" using deque_okI [OF r(2)] by simp
    have "deque_iter B d' (take (length xs) ys) (length (take (length xs) ys)) (M_finish d')"
    proof -
      obtain base bs flat p where at: "deque_at B d' base bs flat p (take (length xs) ys)" using ok by (auto simp: deque_ok_def)
      then show ?thesis using deque_atD(6) [OF at] by (auto simp: deque_iter_def)
    qed
    from insert_input_ok [OF this, of "drop (length xs) ys"] False r(1) show ?thesis by (auto simp: dq_assign_input_def)
  qed
qed

section \<open>Constructors\<close>

lemma patched_patched:
  "t + length a + length b \<le> length f \<Longrightarrow> u = t + length a \<Longrightarrow> patched u b (patched t a f) = patched t (a @ b) f"
  by (cases a) (auto simp: patched_def min_def ac_simps)

lemma construct_cells_ok:
  assumes "nodes_ok B d base bs flat" "i < length bs" "j + length xs \<le> B"
  shows "\<exists>m. construct_cells (bs ! i) j xs d = Inr (d\<lparr>buffers := m\<rparr>) \<and>
    nodes_ok B (d\<lparr>buffers := m\<rparr>) base bs (patched (i * B + j) xs flat)"
  using assms
proof (induction xs arbitrary: j d flat)
  case Nil
  have "d = d\<lparr>buffers := buffers d\<rparr>" "patched (i * B + j) [] flat = flat" by (simp_all add: patched_def)
  with Nil show ?case by (metis construct_cells.simps(1))
next
  case (Cons x xs)
  let ?p = "i * B + j"
  have j: "j < B" using Cons.prems(3) by simp
  then have pos: "?p div B = i" "?p mod B = j" by simp_all
  have len: "length flat = B * length bs" using Cons.prems(1) by (rule nodes_ok_length)
  have "Suc i * B \<le> B * length bs" using Cons.prems(2) by (metis Suc_leI mult.commute mult_le_mono1)
  then have fit: "?p + length (x # xs) \<le> length flat" unfolding len using Cons.prems(3) by simp
  then have lt: "?p < length flat" by simp
  obtain m where c: "construct_at (bs ! (?p div B)) (?p mod B) x d = Inr (d\<lparr>buffers := m\<rparr>)"
    and n: "nodes_ok B (d\<lparr>buffers := m\<rparr>) base bs (flat[?p := Some x])"
    using put_cell [OF Cons.prems(1) lt, of construct_at x] by blast
  obtain m' where r: "construct_cells (bs ! i) (Suc j) xs (d\<lparr>buffers := m\<rparr>) = Inr (d\<lparr>buffers := m, buffers := m'\<rparr>)"
    "nodes_ok B (d\<lparr>buffers := m, buffers := m'\<rparr>) base bs (patched (i * B + Suc j) xs (flat[?p := Some x]))"
    using Cons.IH [OF n Cons.prems(2), of "Suc j"] Cons.prems(3) unfolding length_Cons add_Suc_right add_Suc by blast
  have "patched (i * B + Suc j) xs (flat[?p := Some x]) = patched ?p (x # xs) flat"
    using list_update_patched [OF fit] by simp
  with c r show ?case unfolding pos by auto
qed

lemma range_nodes_ok:
  assumes "nodes_ok B d base bs flat" "i + n \<le> length bs" "B * n \<le> length ys"
  shows "\<exists>m. range_nodes B (base + i) (base + (i + n)) ys d = Inr (drop (B * n) ys, d\<lparr>buffers := m\<rparr>) \<and>
    nodes_ok B (d\<lparr>buffers := m\<rparr>) base bs (patched (i * B) (take (B * n) ys) flat)"
  using assms
proof (induction n arbitrary: i d flat ys)
  case 0
  have "d = d\<lparr>buffers := buffers d\<rparr>" "patched (i * B) [] flat = flat" by (simp_all add: patched_def)
  moreover have "range_nodes B (base + i) (base + (i + 0)) ys d = Inr (ys, d)" by (subst range_nodes.simps) simp
  ultimately show ?case using 0 by (metis mult_0_right take0 drop0)
next
  case (Suc n)
  have i: "i < length bs" "Suc i + n \<le> length bs" using Suc.prems(2) by simp_all
  have ys: "length (take B ys) = B" "B * n \<le> length (drop B ys)" using Suc.prems(3) by simp_all
  have mp: "map_ok d base bs" using Suc.prems(1) by (simp add: nodes_ok_def)
  obtain m where c: "construct_cells (bs ! i) 0 (take B ys) d = Inr (d\<lparr>buffers := m\<rparr>)"
    and nd: "nodes_ok B (d\<lparr>buffers := m\<rparr>) base bs (patched (i * B) (take B ys) flat)"
    using construct_cells_ok [OF Suc.prems(1) i(1), of 0 "take B ys"] ys(1) by auto
  obtain m' where r: "range_nodes B (base + Suc i) (base + (Suc i + n)) (drop B ys) (d\<lparr>buffers := m\<rparr>) =
      Inr (drop (B * n) (drop B ys), d\<lparr>buffers := m, buffers := m'\<rparr>)"
    "nodes_ok B (d\<lparr>buffers := m, buffers := m'\<rparr>) base bs (patched (Suc i * B) (take (B * n) (drop B ys)) (patched (i * B) (take B ys) flat))"
    using Suc.IH [OF nd i(2) ys(2)] by blast
  have len: "length flat = B * length bs" using Suc.prems(1) by (rule nodes_ok_length)
  have "B * (i + Suc n) \<le> length flat" unfolding len using Suc.prems(2) by (rule mult_le_mono2)
  then have fit: "i * B + length (take B ys) + length (take (B * n) (drop B ys)) \<le> length flat"
    using ys by (simp add: algebra_simps)
  have u: "Suc i * B = i * B + length (take B ys)" using ys(1) by simp
  have t: "take B ys @ take (B * n) (drop B ys) = take (B * Suc n) ys" by (simp add: take_add)
  have "patched (Suc i * B) (take (B * n) (drop B ys)) (patched (i * B) (take B ys) flat) = patched (i * B) (take (B * Suc n) ys) flat"
    unfolding patched_patched [OF fit u] t ..
  moreover have "map_read (int (base + i)) d = Inr (bs ! i)" using map_read_ok [OF mp i(1)] by simp
  ultimately show ?case using c r by (subst range_nodes.simps) (auto simp: add.commute simp del: of_nat_add)
qed

lemma fill_nodes_range:
  "B * (fin - cur) \<le> n \<Longrightarrow>
    andThen (range_nodes B cur fin (replicate n x) d) f =
    andThen (fill_nodes B cur fin x d) (\<lambda>d. f (replicate (n - B * (fin - cur)) x, d))"
proof (induction "fin - cur" arbitrary: cur n d)
  case 0
  then show ?case by (subst range_nodes.simps, subst fill_nodes.simps) simp
next
  case (Suc k)
  then have lt: "cur < fin" "fin - cur = Suc k" "fin - Suc cur = k" by simp_all
  then have n: "B * (fin - Suc cur) \<le> n - B" "B \<le> n" using Suc.prems by simp_all
  have IH: "andThen (range_nodes B (Suc cur) fin (replicate (n - B) x) d) f =
      andThen (fill_nodes B (Suc cur) fin x d) (\<lambda>d. f (replicate (n - B - B * (fin - Suc cur)) x, d))" for d
    using Suc.hyps(1) [of "Suc cur" "n - B" d] n(1) lt by simp
  have e: "n - B - B * (fin - Suc cur) = n - B * (fin - cur)" using lt by simp
  show ?case
  proof (cases "map_read (int cur) d")
    case (Inr b)
    then show ?thesis
      using lt(1) n(2) IH [unfolded e]
      by (subst range_nodes.simps, subst fill_nodes.simps) (cases "construct_cells b 0 (replicate B x) d"; simp add: min_def)
  qed (use lt in \<open>subst range_nodes.simps, subst fill_nodes.simps, simp\<close>)
qed

lemma construct_cells_finish: "construct_cells b j zs d = Inr d' \<Longrightarrow> M_finish d' = M_finish d"
proof (induction zs arbitrary: j d)
  case (Cons z zs)
  then show ?case by (cases "construct_at b j z d") (auto simp: construct_at_def cell_write_def split: option.splits if_splits)
qed simp

lemma fill_nodes_finish: "fill_nodes B c f x d = Inr d' \<Longrightarrow> M_finish d' = M_finish d"
proof (induction "f - c" arbitrary: c d)
  case 0
  then show ?case by (subst (asm) fill_nodes.simps) simp
next
  case (Suc k)
  then have "c < f" by simp
  then have "andThen (map_read (int c) d) (\<lambda>b. andThen (construct_cells b 0 (replicate B x) d) (fill_nodes B (Suc c) f x)) = Inr d'"
    using fill_nodes.simps [of B c f x d] Suc.prems by simp
  then obtain b e where "construct_cells b 0 (replicate B x) d = Inr e" "fill_nodes B (Suc c) f x e = Inr d'"
    by (auto simp: andThen_eq_Inr)
  then show ?case using construct_cells_finish Suc.hyps(1) [of "Suc c" e] Suc.hyps(2) by fastforce
qed

lemma constructed:
  assumes "nodes_ok B d base bs (replicate (B * length bs) None)" "ends_ok B d base bs 0 (length ys)"
    "nodes_ok B (d\<lparr>buffers := m\<rparr>) base bs (patched 0 ys (replicate (B * length bs) None))"
  shows "deque_ok B (d\<lparr>buffers := m\<rparr>) ys"
proof -
  have "0 < B" using assms(1) by (rule nodes_ok_B)
  then have "length ys < B * length bs" using below_blocks [of B "length ys"] assms(2) by (simp add: ends_ok_def)
  then have "holds_at (patched 0 ys (replicate (B * length bs) None)) 0 ys" by (intro holds_at_patched) simp
  then have "deque_at B (d\<lparr>buffers := m\<rparr>) base bs (patched 0 ys (replicate (B * length bs) None)) 0 ys"
    using assms(2,3) by (simp add: deque_at_def holds_at_def ends_ok_def)
  then show ?thesis by (rule deque_okI)
qed

lemma range_initialize_ok:
  assumes "0 < B"
  shows "\<exists>d. range_initialize B ys = Inr d \<and> deque_ok B d ys"
proof -
  obtain d :: "'a deque_state" and base bs where r: "initialize_map B (length ys) no_deque = Inr d"
    "nodes_ok B d base bs (replicate (B * length bs) None)" "ends_ok B d base bs 0 (length ys)"
    by (rule initialize_map_ok [OF assms, of "length ys"]) (rule that)
  let ?k = "length ys div B"
  have bs: "length bs = ?k + 1" "M_start d = it_at B base bs 0" "M_finish d = it_at B base bs (length ys)"
    using r(3) by (simp_all add: ends_ok_def)
  have kB: "B * ?k \<le> length ys" by simp
  obtain m where n: "range_nodes B (base + 0) (base + (0 + ?k)) ys d = Inr (drop (B * ?k) ys, d\<lparr>buffers := m\<rparr>)"
    "nodes_ok B (d\<lparr>buffers := m\<rparr>) base bs (patched (0 * B) (take (B * ?k) ys) (replicate (B * length bs) None))"
    using range_nodes_ok [OF r(2), of 0 ?k ys] bs(1) kB by auto
  have "length ys - B * ?k = length ys mod B" by (simp add: minus_mult_div_eq_mod)
  then have tl: "0 + length (drop (B * ?k) ys) \<le> B" using assms by (simp add: less_imp_le)
  have kl: "?k < length bs" using bs(1) by simp
  obtain m' where c: "construct_cells (bs ! ?k) 0 (drop (B * ?k) ys) (d\<lparr>buffers := m\<rparr>) = Inr (d\<lparr>buffers := m, buffers := m'\<rparr>)"
    "nodes_ok B (d\<lparr>buffers := m, buffers := m'\<rparr>) base bs (patched (?k * B + 0) (drop (B * ?k) ys)
       (patched (0 * B) (take (B * ?k) ys) (replicate (B * length bs) None)))"
    using construct_cells_ok [OF n(2) kl tl] by blast
  have "length ys < B * length bs" unfolding bs(1) by (rule below_blocks [OF assms])
  then have fit: "0 * B + length (take (B * ?k) ys) + length (drop (B * ?k) ys) \<le> length (replicate (B * length bs) (None :: 'a option))"
    by simp
  have u: "?k * B + 0 = 0 * B + length (take (B * ?k) ys)" using kB by (simp add: mult.commute)
  have "nodes_ok B (d\<lparr>buffers := m'\<rparr>) base bs (patched 0 ys (replicate (B * length bs) None))"
    using c(2) unfolding patched_patched [OF fit u] by simp
  from constructed [OF r(2,3) this] show ?thesis using r(1) n(1) c(1) bs by (simp add: range_initialize_def)
qed

lemma deque_of_count_ok:
  assumes "0 < B"
  shows "\<exists>d. deque_of_count B n x = Inr d \<and> deque_ok B d (replicate n x)"
proof -
  obtain d :: "'a deque_state" and base bs where r: "initialize_map B n no_deque = Inr d"
    "nodes_ok B d base bs (replicate (B * length bs) None)" "ends_ok B d base bs 0 n"
    by (rule initialize_map_ok [OF assms, of n]) (rule that)
  have bs: "M_start d = it_at B base bs 0" "M_finish d = it_at B base bs n" using r(3) by (simp_all add: ends_ok_def)
  have k: "M_node (M_finish d) - M_node (M_start d) = n div B" "M_cur (M_finish d) = n mod B" using bs by simp_all
  have kB: "B * (n div B) \<le> n" by simp
  have "deque_of_count B n x = range_initialize B (replicate n x)"
  proof -
    have "andThen (range_nodes B (M_node (M_start d)) (M_node (M_finish d)) (replicate n x) d) (\<lambda>(ys, d). construct_cells (M_first (M_finish d)) 0 ys d) =
        fill_initialize B x d"
      using fill_nodes_range [of B "M_node (M_finish d)" "M_node (M_start d)" n x d "\<lambda>(ys, d). construct_cells (M_first (M_finish d)) 0 ys d"] kB k fill_nodes_finish [of B "M_node (M_start d)" "M_node (M_finish d)" x d]
      unfolding fill_initialize_def
      by (cases "fill_nodes B (M_node (M_start d)) (M_node (M_finish d)) x d") (simp_all add: minus_mult_div_eq_mod)
    then show ?thesis using r(1) by (simp add: deque_of_count_def range_initialize_def)
  qed
  then show ?thesis using range_initialize_ok [OF assms, of "replicate n x"] by simp
qed

lemma range_initialize_input_ok:
  assumes "0 < B"
  shows "\<exists>d. range_initialize_input B ys = Inr d \<and> deque_ok B d ys"
proof -
  have push: "\<exists>d'. foldE (dq_push_back B) ys d = Inr d' \<and> deque_ok B d' (xs @ ys)" if "deque_ok B d xs" for d :: "'a deque_state" and xs ys
    using that
  proof (induction ys arbitrary: d xs)
    case (Cons y ys)
    then obtain base bs flat p where at: "deque_at B d base bs flat p xs" by (auto simp: deque_ok_def)
    obtain d1 where "dq_push_back B y d = Inr d1" "deque_ok B d1 (xs @ [y])"
      by (rule push_back_ok [OF at, of y]) (rule that)
    with Cons.IH [of d1 "xs @ [y]"] show ?case by simp
  qed simp
  obtain d :: "'a deque_state" where "new_deque B = Inr d" "deque_ok B d []" using new_deque_ok [OF assms] by blast
  with push [of d "[]" ys] show ?thesis by (simp add: range_initialize_input_def new_deque_def)
qed

lemma read_range_ok:
  assumes "deque_at B d base bs flat p xs" "k + n \<le> length xs"
  shows "read_range B n (it_at B base bs (p + k)) d = Inr (take n (drop k xs))"
  using assms(2)
proof (induction n arbitrary: k)
  case (Suc n)
  note D = deque_atD [OF assms(1)]
  have k: "k < length xs" "p + k < length flat" using Suc.prems D(9) by simp_all
  have "deref_iter (it_at B base bs (p + k)) d = Inr (xs ! k)"
    using cell_read_at [OF D(1) k(2)] D(10) [OF k(1)] by (simp add: deref_iter_def)
  moreover have "increment B (it_at B base bs (p + k)) d = Inr (it_at B base bs (p + Suc k))"
    using increment_it [OF D(1), of "p + k"] D(9) k by simp
  moreover have "take (Suc n) (drop k xs) = xs ! k # take n (drop (Suc k) xs)"
    using k(1) by (simp flip: Cons_nth_drop_Suc)
  ultimately show ?case using Suc.IH [of "Suc k"] Suc.prems by (simp del: it_at_simps)
qed simp

lemma read_deque:
  assumes "deque_ok B d xs"
  shows "read_range B (dq_size B d) (M_start d) d = Inr xs"
proof -
  obtain base bs flat p where at: "deque_at B d base bs flat p xs" using assms by (auto simp: deque_ok_def)
  show ?thesis using read_range_ok [OF at, of 0 "length xs"] deque_atD(5) [OF at] by (simp add: dq_size_ok [OF assms] del: it_at_simps)
qed

lemma dq_assign_ok:
  assumes "deque_ok B d xs" "deque_ok B x ys"
  shows "\<exists>d'. dq_assign B (Some x) d = Some (Inr d') \<and> deque_ok B d' ys"
proof -
  have "dq_assign B (Some x) d = dq_assign_range B ys d"
    using read_deque [OF assms(2)]
    by (simp add: dq_assign_def dq_assign_range_def Let_def not_less dq_size_ok [OF assms(1)] dq_size_ok [OF assms(2)])
  then show ?thesis using dq_assign_range_ok [OF assms(1), of ys] by simp
qed

lemma deque_of_deque_ok:
  assumes "deque_ok B x ys"
  shows "\<exists>d. deque_of_deque B x = Inr d \<and> deque_ok B d ys"
proof -
  have B: "0 < B" using assms by (auto simp: deque_ok_def dest: deque_atD(3))
  obtain d :: "'a deque_state" and base bs where r: "initialize_map B (length ys) no_deque = Inr d"
    "nodes_ok B d base bs (replicate (B * length bs) None)" "ends_ok B d base bs 0 (length ys)"
    by (rule initialize_map_ok [OF B, of "length ys"]) (rule that)
  have bs: "length bs = length ys div B + 1" "M_start d = it_at B base bs 0" using r(3) by (simp_all add: ends_ok_def)
  have "length ys < B * length bs" unfolding bs(1) by (rule below_blocks [OF B])
  then have lt: "0 + length ys < length (replicate (B * length bs) (None :: 'a option))" by simp
  obtain m where c: "copy_list construct_at B ys (it_at B base bs 0) d = Inr (it_at B base bs (0 + length ys), d\<lparr>buffers := m\<rparr>)"
    "nodes_ok B (d\<lparr>buffers := m\<rparr>) base bs (patched 0 ys (replicate (B * length bs) None))"
    by (rule copy_list_cells [OF r(2) lt, of construct_at]) (simp, rule that)
  from constructed [OF r(2,3) c(2)] show ?thesis
    using r(1) c(1) bs(2) by (simp add: deque_of_deque_def dq_size_ok [OF assms] read_deque [OF assms, unfolded dq_size_ok [OF assms]])
qed

text \<open>A deque that has been moved from holds nothing, and its destructor has nothing to give back.\<close>

lemma dq_move_ok:
  assumes "deque_ok B d xs"
  obtains src where "dq_move d = (d, src)" "destroy_deque B src = Some (Inr src)" "dq_empty src"
proof -
  let ?src = "d\<lparr>M_map := [], buffers := Map.empty, M_finish := M_start d\<rparr>"
  have "destroy_deque B ?src = Some (Inr ?src)"
    by (simp add: destroy_deque_def destroy_base_def) (subst destroy_range.simps, simp add: same_cur_def)
  moreover have "dq_empty ?src" by (simp add: dq_empty_def same_cur_def)
  ultimately show ?thesis using that by (simp add: dq_move_def)
qed

end
