(* ===== verification/Stl_Deque_Spec.thy ===== *)
theory Stl_Deque_Spec
  imports Stl_Deque_Assign
begin

text \<open>
  Sequences of operations of a deque: from its construction to its destruction they do to the elements
  what their names say, whatever the size of a buffer, and every buffer is given back at the end.
\<close>

section \<open>Operations\<close>

text \<open>The ways to construct a deque, and the list of its elements then.\<close>

datatype 'a deque_source =
    DNothing
  | DCount nat 'a
  | DRange "'a list"
  | DInput "'a list"
  | DCopy "'a list"

fun build_deque :: "nat \<Rightarrow> 'a deque_source \<Rightarrow> 'a deque_state result" where
  "build_deque B DNothing = new_deque B"
| "build_deque B (DCount n x) = deque_of_count B n x"
| "build_deque B (DRange ys) = range_initialize B ys"
| "build_deque B (DInput ys) = range_initialize_input B ys"
| "build_deque B (DCopy ys) = andThen (range_initialize B ys) (deque_of_deque B)"

fun source_elements :: "'a deque_source \<Rightarrow> 'a list" where
  "source_elements DNothing = []"
| "source_elements (DCount n x) = replicate n x"
| "source_elements (DRange ys) = ys"
| "source_elements (DInput ys) = ys"
| "source_elements (DCopy ys) = ys"

text \<open>Positions are counted from the first element; a deque that is assigned holds \<open>ys\<close>.\<close>

datatype 'a deque_op =
    DPushBack 'a
  | DPushFront 'a
  | DPopBack
  | DPopFront
  | DInsert nat 'a
  | DInsertFill nat nat 'a
  | DInsertRange nat "'a list"
  | DInsertInput nat "'a list"
  | DErase nat
  | DEraseRange nat nat
  | DClear
  | DResize nat 'a
  | DAssignFill nat 'a
  | DAssignRange "'a list"
  | DAssignInput "'a list"
  | DAssign "'a list"

definition at_pos :: "nat \<Rightarrow> nat \<Rightarrow> (diter \<Rightarrow> 'a deque_state \<Rightarrow> 'b result) \<Rightarrow> 'a deque_state \<Rightarrow> 'b result" where
  "at_pos B k f d = andThen (advance_by B (int k) (M_start d) d) (\<lambda>pos. f pos d)"

fun run_deque_op :: "nat \<Rightarrow> 'a deque_op \<Rightarrow> 'a deque_state \<Rightarrow> ('a deque_state result) option" where
  "run_deque_op B (DPushBack x) d = Some (dq_push_back B x d)"
| "run_deque_op B (DPushFront x) d = Some (dq_push_front B x d)"
| "run_deque_op B DPopBack d = Some (dq_pop_back B d)"
| "run_deque_op B DPopFront d = Some (dq_pop_front B d)"
| "run_deque_op B (DInsert k x) d = Some (andThen (at_pos B k (\<lambda>pos. dq_insert B pos x) d) (\<lambda>(_, d). Inr d))"
| "run_deque_op B (DInsertFill k n x) d = Some (at_pos B k (\<lambda>pos. dq_fill_insert B pos n x) d)"
| "run_deque_op B (DInsertRange k ys) d = Some (at_pos B k (\<lambda>pos. dq_insert_range B pos ys) d)"
| "run_deque_op B (DInsertInput k ys) d = Some (at_pos B k (\<lambda>pos. insert_input B pos ys) d)"
| "run_deque_op B (DErase k) d = Some (andThen (at_pos B k (dq_erase B) d) (\<lambda>(_, d). Inr d))"
| "run_deque_op B (DEraseRange k l) d =
     bindS (at_pos B k (\<lambda>pos d. Inr pos) d) (\<lambda>first.
     bindS (at_pos B l (\<lambda>pos d. Inr pos) d) (\<lambda>fin.
     bindR (dq_erase_range B first fin d) (\<lambda>(_, d). Some (Inr d))))"
| "run_deque_op B DClear d = Some (dq_clear B d)"
| "run_deque_op B (DResize n x) d = dq_resize B n x d"
| "run_deque_op B (DAssignFill n x) d = dq_fill_assign B n x d"
| "run_deque_op B (DAssignRange ys) d = dq_assign_range B ys d"
| "run_deque_op B (DAssignInput ys) d = dq_assign_input B ys d"
| "run_deque_op B (DAssign ys) d = bindS (range_initialize B ys) (\<lambda>x. dq_assign B (Some x) d)"

primrec run_deque_ops :: "nat \<Rightarrow> 'a deque_op list \<Rightarrow> 'a deque_state \<Rightarrow> ('a deque_state result) option" where
  "run_deque_ops B [] d = Some (Inr d)"
| "run_deque_ops B (op # ops) d = bindR (run_deque_op B op d) (run_deque_ops B ops)"

fun spec_deque_op :: "'a deque_op \<Rightarrow> 'a list \<Rightarrow> 'a list" where
  "spec_deque_op (DPushBack x) xs = xs @ [x]"
| "spec_deque_op (DPushFront x) xs = x # xs"
| "spec_deque_op DPopBack xs = butlast xs"
| "spec_deque_op DPopFront xs = tl xs"
| "spec_deque_op (DInsert k x) xs = take k xs @ x # drop k xs"
| "spec_deque_op (DInsertFill k n x) xs = take k xs @ replicate n x @ drop k xs"
| "spec_deque_op (DInsertRange k ys) xs = take k xs @ ys @ drop k xs"
| "spec_deque_op (DInsertInput k ys) xs = take k xs @ ys @ drop k xs"
| "spec_deque_op (DErase k) xs = take k xs @ drop (Suc k) xs"
| "spec_deque_op (DEraseRange k l) xs = take k xs @ drop l xs"
| "spec_deque_op DClear xs = []"
| "spec_deque_op (DResize n x) xs = take n xs @ replicate (n - length xs) x"
| "spec_deque_op (DAssignFill n x) xs = replicate n x"
| "spec_deque_op (DAssignRange ys) xs = ys"
| "spec_deque_op (DAssignInput ys) xs = ys"
| "spec_deque_op (DAssign ys) xs = ys"

fun deque_op_ok :: "'a deque_op \<Rightarrow> 'a list \<Rightarrow> bool" where
  "deque_op_ok DPopBack xs = (xs \<noteq> [])"
| "deque_op_ok DPopFront xs = (xs \<noteq> [])"
| "deque_op_ok (DInsert k x) xs = (k \<le> length xs)"
| "deque_op_ok (DInsertFill k n x) xs = (k \<le> length xs)"
| "deque_op_ok (DInsertRange k ys) xs = (k \<le> length xs)"
| "deque_op_ok (DInsertInput k ys) xs = (k \<le> length xs)"
| "deque_op_ok (DErase k) xs = (k < length xs)"
| "deque_op_ok (DEraseRange k l) xs = (k \<le> l \<and> l \<le> length xs)"
| "deque_op_ok op xs = True"

fun deque_ops_ok :: "'a deque_op list \<Rightarrow> 'a list \<Rightarrow> bool" where
  "deque_ops_ok [] xs = True"
| "deque_ops_ok (op # ops) xs = (deque_op_ok op xs \<and> deque_ops_ok ops (spec_deque_op op xs))"

text \<open>What can be seen of a deque, and what its destructor leaves.\<close>

definition deque_shows :: "nat \<Rightarrow> 'a deque_state \<Rightarrow> 'a list \<Rightarrow> bool" where
  "deque_shows B d xs \<longleftrightarrow>
     dq_size B d = length xs \<and> (dq_empty d \<longleftrightarrow> xs = []) \<and>
     (\<forall>n<length xs. dq_nth B n d = Inr (xs ! n)) \<and> (\<forall>n\<ge>length xs. dq_at B n d = Inl IndexOutOfRange) \<and>
     (xs \<noteq> [] \<longrightarrow> dq_front d = Inr (hd xs) \<and> dq_back B d = Inr (last xs)) \<and>
     (\<exists>d'. destroy_deque B d = Some (Inr d') \<and> buffers d' = Map.empty)"

lemma deque_ok_shows:
  assumes "deque_ok B d xs"
  shows "deque_shows B d xs"
proof -
  have "dq_front d = Inr (hd xs)" if "xs \<noteq> []"
    using that assms dq_front_ok [of B d "hd xs" "tl xs"] by simp
  moreover have "dq_back B d = Inr (last xs)" if "xs \<noteq> []"
    using that assms dq_back_ok [of B d "butlast xs" "last xs"] by simp
  ultimately show ?thesis
    using assms destroy_deque_ok [OF assms]
    by (auto simp: deque_shows_def dq_size_ok dq_empty_ok dq_nth_ok dq_at_ok)
qed

lemma build_deque_ok:
  assumes "0 < B"
  shows "\<exists>d. build_deque B src = Inr d \<and> deque_ok B d (source_elements src)"
proof (cases src)
  case DNothing
  then show ?thesis using new_deque_ok [OF assms, where ?'a = 'a] by auto
next
  case (DCopy ys)
  then show ?thesis using range_initialize_ok [OF assms, of ys] deque_of_deque_ok by fastforce
qed (simp_all add: deque_of_count_ok range_initialize_ok range_initialize_input_ok assms)

lemma run_deque_op_ok:
  assumes "deque_ok B d xs" "deque_op_ok op xs"
  shows "\<exists>d'. run_deque_op B op d = Some (Inr d') \<and> deque_ok B d' (spec_deque_op op xs)"
proof -
  obtain base bs flat p where d: "deque_at B d base bs flat p xs" using assms(1) by (auto simp: deque_ok_def)
  have B: "0 < B" using deque_atD(3) [OF d] .
  show ?thesis
  proof (cases op)
    case (DPushBack x)
    show ?thesis by (rule push_back_ok [OF d, of x]) (simp add: DPushBack)
  next
    case (DPushFront x)
    show ?thesis by (rule push_front_ok [OF d, of x]) (simp add: DPushFront)
  next
    case DPopBack
    then have "xs = butlast xs @ [last xs]" using assms(2) by simp
    with d show ?thesis using pop_back_ok [of B d base bs flat p "butlast xs" "last xs"] by (auto simp: DPopBack)
  next
    case DPopFront
    then have "xs = hd xs # tl xs" using assms(2) by simp
    with d show ?thesis using pop_front_ok [of B d base bs flat p "hd xs" "tl xs"] by (auto simp: DPopFront)
  next
    case (DInsert k x)
    then have "k \<le> length xs" using assms(2) by simp
    then obtain it where it: "advance_by B (int k) (M_start d) d = Inr it" "deque_iter B d xs k it"
      using advance_start [OF assms(1)] by blast
    show ?thesis using dq_insert_ok [OF it(2), of x] it(1) by (auto simp: DInsert at_pos_def)
  next
    case (DInsertFill k n x)
    then have "k \<le> length xs" using assms(2) by simp
    then obtain it where it: "advance_by B (int k) (M_start d) d = Inr it" "deque_iter B d xs k it"
      using advance_start [OF assms(1)] by blast
    show ?thesis using dq_fill_insert_ok [OF it(2), of n x] it(1) by (auto simp: DInsertFill at_pos_def)
  next
    case (DInsertRange k ys)
    then have "k \<le> length xs" using assms(2) by simp
    then obtain it where it: "advance_by B (int k) (M_start d) d = Inr it" "deque_iter B d xs k it"
      using advance_start [OF assms(1)] by blast
    show ?thesis using dq_insert_range_ok [OF it(2), of ys] it(1) by (auto simp: DInsertRange at_pos_def)
  next
    case (DInsertInput k ys)
    then have "k \<le> length xs" using assms(2) by simp
    then obtain it where it: "advance_by B (int k) (M_start d) d = Inr it" "deque_iter B d xs k it"
      using advance_start [OF assms(1)] by blast
    show ?thesis using insert_input_ok [OF it(2), of ys] it(1) by (auto simp: DInsertInput at_pos_def)
  next
    case (DErase k)
    then have k: "k < length xs" "k \<le> length xs" using assms(2) by simp_all
    obtain it where it: "advance_by B (int k) (M_start d) d = Inr it" "deque_iter B d xs k it"
      using advance_start [OF assms(1) k(2)] by blast
    show ?thesis by (rule dq_erase_ok [OF it(2) k(1)]) (simp add: DErase at_pos_def it(1))
  next
    case (DEraseRange k l)
    then have kl: "k \<le> l" "l \<le> length xs" using assms(2) by simp_all
    have pos: "at_pos B n (\<lambda>pos d. Inr pos) d = Inr (it_at B base bs (p + n))" if "n \<le> length xs" for n
      unfolding at_pos_def deque_atD(5) [OF d] using deque_atD(9) [OF d] that
      by (subst advance_it [OF deque_atD(1) [OF d]]) simp_all
    show ?thesis using dq_erase_range_ok [OF d kl] pos [of k] pos [of l] kl by (auto simp: DEraseRange)
  next
    case DClear
    show ?thesis by (rule dq_clear_ok [OF assms(1)]) (simp add: DClear)
  next
    case (DAssign ys)
    obtain x where "range_initialize B ys = Inr x" "deque_ok B x ys" using range_initialize_ok [OF B] by blast
    then show ?thesis using dq_assign_ok [OF assms(1)] by (auto simp: DAssign)
  qed (use assms(1) in \<open>simp_all add: dq_resize_ok dq_fill_assign_ok dq_assign_range_ok dq_assign_input_ok\<close>)
qed

lemma run_deque_ops_ok:
  "deque_ok B d xs \<Longrightarrow> deque_ops_ok ops xs \<Longrightarrow>
    \<exists>d'. run_deque_ops B ops d = Some (Inr d') \<and> deque_ok B d' (fold spec_deque_op ops xs)"
proof (induction ops arbitrary: d xs)
  case (Cons op ops)
  then obtain d1 where "run_deque_op B op d = Some (Inr d1)" "deque_ok B d1 (spec_deque_op op xs)"
    using run_deque_op_ok by fastforce
  with Cons show ?case by simp
qed simp

section \<open>The theorem\<close>

text \<open>
  C24. A deque refines a list. However it is constructed (empty, from a count, from a range that is
  read once or again, or as a copy), for any size of a buffer, every sequence of operations
  whose positions exist (and which pops only what is there) runs without a fault: pushing and popping at both
  ends, inserting, erasing, resizing, assigning. Then the size,
  every element by its index, both ends and the check of \<^verbatim>\<open>at\<close> are those of the list that results
  from the same operations; the destructor gives every buffer back, those of emptied sides included.
\<close>

theorem deque_operations_refine:
  assumes "0 < B" and "deque_ops_ok ops (source_elements src)"
  shows "\<exists>d. bindS (build_deque B src) (run_deque_ops B ops) = Some (Inr d) \<and>
    deque_shows B d (fold spec_deque_op ops (source_elements src))"
proof -
  obtain d0 where d0: "build_deque B src = Inr d0" "deque_ok B d0 (source_elements src)"
    using build_deque_ok [OF assms(1)] by blast
  then show ?thesis using run_deque_ops_ok [OF d0(2) assms(2)] deque_ok_shows by fastforce
qed

theorem deque_operations_refine_witness:
  "\<exists>d. bindS (build_deque 2 (DCount 3 (0 :: nat))) (run_deque_ops 2
      [DPushBack 3, DPushFront 1, DInsertRange 2 [4, 5, 6], DErase 1, DInsert 1 9, DEraseRange 3 5, DPopFront, DResize 6 8, DPopBack, DInsertFill 4 2 7]) =
      Some (Inr d) \<and> deque_shows 2 d [9, 4, 0, 0, 7, 7, 3]"
  using deque_operations_refine [of 2 "[DPushBack 3, DPushFront 1, DInsertRange 2 [4, 5, 6], DErase 1, DInsert 1 9, DEraseRange 3 5, DPopFront, DResize 6 8, DPopBack, DInsertFill 4 2 7]" "DCount 3 (0 :: nat)"]
  by (simp add: numeral_eq_Suc)

end
