(* ===== verification/Stl_Queue.thy ===== *)
theory Stl_Queue
  imports Stl_Deque_Spec Stl_List_Spec
begin

text \<open>
  The adaptors \<^verbatim>\<open>queue\<close> (\<^verbatim>\<open>stl/_queue.h\<close>) and \<^verbatim>\<open>stack\<close> (\<^verbatim>\<open>stl/_stack.h\<close>) over any sequence that keeps the
  contract of \<open>sequence_container\<close>, and that the deque, their default, and the list both keep it.
  What is proved once of the adaptors then holds of both. The theory closes with the space a queue takes.
\<close>

section \<open>The adaptors\<close>

record ('a, 's) sequence_ops =
  seq_push_back :: "'a \<Rightarrow> 's \<Rightarrow> 's result"
  seq_pop_front :: "'s \<Rightarrow> 's result"
  seq_pop_back :: "'s \<Rightarrow> 's result"
  seq_front :: "'s \<Rightarrow> 'a result"
  seq_back :: "'s \<Rightarrow> 'a result"
  seq_size :: "'s \<Rightarrow> nat result"
  seq_empty :: "'s \<Rightarrow> bool result"

definition queue_push :: "('a, 's) sequence_ops \<Rightarrow> 'a \<Rightarrow> 's \<Rightarrow> 's result" where
  "queue_push S x c = seq_push_back S x c"

definition queue_pop :: "('a, 's) sequence_ops \<Rightarrow> 's \<Rightarrow> 's result" where
  "queue_pop S c = seq_pop_front S c"

definition queue_front :: "('a, 's) sequence_ops \<Rightarrow> 's \<Rightarrow> 'a result" where
  "queue_front S c = seq_front S c"

definition queue_back :: "('a, 's) sequence_ops \<Rightarrow> 's \<Rightarrow> 'a result" where
  "queue_back S c = seq_back S c"

definition queue_size :: "('a, 's) sequence_ops \<Rightarrow> 's \<Rightarrow> nat result" where
  "queue_size S c = seq_size S c"

definition queue_empty :: "('a, 's) sequence_ops \<Rightarrow> 's \<Rightarrow> bool result" where
  "queue_empty S c = seq_empty S c"

definition stack_push :: "('a, 's) sequence_ops \<Rightarrow> 'a \<Rightarrow> 's \<Rightarrow> 's result" where
  "stack_push S x c = seq_push_back S x c"

definition stack_pop :: "('a, 's) sequence_ops \<Rightarrow> 's \<Rightarrow> 's result" where
  "stack_pop S c = seq_pop_back S c"

definition stack_top :: "('a, 's) sequence_ops \<Rightarrow> 's \<Rightarrow> 'a result" where
  "stack_top S c = seq_back S c"

text \<open>Calls of a client, one queue and one stack adaptor being used alike, and what they return.\<close>

datatype 'a call = Push 'a | Pop | Front | Back | Top | Size | Empty

datatype 'a answer = Done | Value 'a | Count nat | Flag bool

fun queue_call :: "('a, 's) sequence_ops \<Rightarrow> 'a call \<Rightarrow> 's \<Rightarrow> ('a answer \<times> 's) result" where
  "queue_call S (Push x) c = andThen (queue_push S x c) (\<lambda>c. Inr (Done, c))"
| "queue_call S Pop c = andThen (queue_pop S c) (\<lambda>c. Inr (Done, c))"
| "queue_call S Front c = andThen (queue_front S c) (\<lambda>x. Inr (Value x, c))"
| "queue_call S Size c = andThen (queue_size S c) (\<lambda>n. Inr (Count n, c))"
| "queue_call S Empty c = andThen (queue_empty S c) (\<lambda>b. Inr (Flag b, c))"
| "queue_call S call c = andThen (queue_back S c) (\<lambda>x. Inr (Value x, c))"

fun stack_call :: "('a, 's) sequence_ops \<Rightarrow> 'a call \<Rightarrow> 's \<Rightarrow> ('a answer \<times> 's) result" where
  "stack_call S (Push x) c = andThen (stack_push S x c) (\<lambda>c. Inr (Done, c))"
| "stack_call S Pop c = andThen (stack_pop S c) (\<lambda>c. Inr (Done, c))"
| "stack_call S Size c = andThen (seq_size S c) (\<lambda>n. Inr (Count n, c))"
| "stack_call S Empty c = andThen (seq_empty S c) (\<lambda>b. Inr (Flag b, c))"
| "stack_call S call c = andThen (stack_top S c) (\<lambda>x. Inr (Value x, c))"

fun run_calls :: "('a call \<Rightarrow> 's \<Rightarrow> ('a answer \<times> 's) result) \<Rightarrow> 'a call list \<Rightarrow> 's \<Rightarrow> ('a answer list \<times> 's) result" where
  "run_calls f [] c = Inr ([], c)"
| "run_calls f (call # calls) c =
     andThen (f call c) (\<lambda>(a, c). andThen (run_calls f calls c) (\<lambda>(as, c). Inr (a # as, c)))"

text \<open>First in, first out, and last in, first out.\<close>

fun fifo :: "'a call \<Rightarrow> 'a list \<Rightarrow> 'a answer \<times> 'a list" where
  "fifo (Push x) xs = (Done, xs @ [x])"
| "fifo Pop xs = (Done, tl xs)"
| "fifo Front xs = (Value (hd xs), xs)"
| "fifo Size xs = (Count (length xs), xs)"
| "fifo Empty xs = (Flag (xs = []), xs)"
| "fifo call xs = (Value (last xs), xs)"

fun lifo :: "'a call \<Rightarrow> 'a list \<Rightarrow> 'a answer \<times> 'a list" where
  "lifo (Push x) xs = (Done, x # xs)"
| "lifo Pop xs = (Done, tl xs)"
| "lifo Size xs = (Count (length xs), xs)"
| "lifo Empty xs = (Flag (xs = []), xs)"
| "lifo call xs = (Value (hd xs), xs)"

fun answers :: "('a call \<Rightarrow> 'a list \<Rightarrow> 'a answer \<times> 'a list) \<Rightarrow> 'a call list \<Rightarrow> 'a list \<Rightarrow> 'a answer list \<times> 'a list" where
  "answers f [] xs = ([], xs)"
| "answers f (call # calls) xs =
     (let (a, ys) = f call xs; (as, zs) = answers f calls ys in (a # as, zs))"

text \<open>Nothing is read or removed while there is nothing, and \<open>limit\<close> elements are never exceeded.\<close>

fun calls_ok :: "nat option \<Rightarrow> 'a call list \<Rightarrow> nat \<Rightarrow> bool" where
  "calls_ok limit [] n = True"
| "calls_ok limit (Push x # calls) n = ((\<forall>m\<in>set_option limit. n < m) \<and> calls_ok limit calls (Suc n))"
| "calls_ok limit (Pop # calls) n = (0 < n \<and> calls_ok limit calls (n - 1))"
| "calls_ok limit (Size # calls) n = calls_ok limit calls n"
| "calls_ok limit (Empty # calls) n = calls_ok limit calls n"
| "calls_ok limit (call # calls) n = (0 < n \<and> calls_ok limit calls n)"

section \<open>The contract of a sequence\<close>

locale sequence_container =
  fixes S :: "('a, 's) sequence_ops" and ok :: "'s \<Rightarrow> 'a list \<Rightarrow> bool" and limit :: "nat option"
  assumes push_back: "ok c xs \<Longrightarrow> \<forall>m\<in>set_option limit. length xs < m \<Longrightarrow> \<exists>c'. seq_push_back S x c = Inr c' \<and> ok c' (xs @ [x])"
    and pop_front: "ok c (x # xs) \<Longrightarrow> \<exists>c'. seq_pop_front S c = Inr c' \<and> ok c' xs"
    and pop_back: "ok c (xs @ [x]) \<Longrightarrow> \<exists>c'. seq_pop_back S c = Inr c' \<and> ok c' xs"
    and front: "ok c (x # xs) \<Longrightarrow> seq_front S c = Inr x"
    and back_law: "ok c (xs @ [x]) \<Longrightarrow> seq_back S c = Inr x"
    and size: "ok c xs \<Longrightarrow> seq_size S c = Inr (length xs)"
    and empty: "ok c xs \<Longrightarrow> seq_empty S c = Inr (xs = [])"
begin

lemma back_last: "ok c xs \<Longrightarrow> xs \<noteq> [] \<Longrightarrow> seq_back S c = Inr (last xs)"
  by (cases xs rule: rev_cases) (simp_all add: back_law)

lemma queue_step:
  assumes "ok c xs" "calls_ok limit (call # calls) (length xs)"
  shows "\<exists>c'. queue_call S call c = Inr (fst (fifo call xs), c') \<and> ok c' (snd (fifo call xs)) \<and>
    calls_ok limit calls (length (snd (fifo call xs)))"
proof (cases call)
  case (Push x)
  then show ?thesis using push_back [OF assms(1), of x] assms(2) by (auto simp: queue_push_def)
next
  case Pop
  then obtain y ys where "xs = y # ys" using assms(2) by (cases xs) simp_all
  then show ?thesis using pop_front [of c y ys] assms Pop by (auto simp: queue_pop_def)
next
  case Front
  then obtain y ys where "xs = y # ys" using assms(2) by (cases xs) simp_all
  then show ?thesis using front [of c y ys] assms Front by (auto simp: queue_front_def)
qed (use assms in \<open>auto simp: queue_back_def queue_size_def queue_empty_def back_last size empty\<close>)

lemma stack_step:
  assumes "ok c (rev xs)" "calls_ok limit (call # calls) (length xs)"
  shows "\<exists>c'. stack_call S call c = Inr (fst (lifo call xs), c') \<and> ok c' (rev (snd (lifo call xs))) \<and>
    calls_ok limit calls (length (snd (lifo call xs)))"
proof (cases call)
  case (Push x)
  then show ?thesis using push_back [OF assms(1), of x] assms(2) by (auto simp: stack_push_def)
next
  case Pop
  then obtain y ys where "xs = y # ys" using assms(2) by (cases xs) simp_all
  then show ?thesis using pop_back [of c "rev ys" y] assms Pop by (auto simp: stack_pop_def)
qed (use assms in \<open>auto simp: stack_top_def back_last size empty last_rev\<close>)

lemma queue_run:
  "ok c xs \<Longrightarrow> calls_ok limit calls (length xs) \<Longrightarrow>
    \<exists>c'. run_calls (queue_call S) calls c = Inr (fst (answers fifo calls xs), c') \<and> ok c' (snd (answers fifo calls xs))"
proof (induction calls arbitrary: c xs)
  case (Cons call calls)
  obtain c1 where c1: "queue_call S call c = Inr (fst (fifo call xs), c1)" "ok c1 (snd (fifo call xs))"
    "calls_ok limit calls (length (snd (fifo call xs)))"
    using queue_step [OF Cons.prems] by blast
  from Cons.IH [OF c1(2,3)] c1(1) show ?case by (auto simp: Let_def split: prod.splits)
qed simp

lemma stack_run:
  "ok c (rev xs) \<Longrightarrow> calls_ok limit calls (length xs) \<Longrightarrow>
    \<exists>c'. run_calls (stack_call S) calls c = Inr (fst (answers lifo calls xs), c') \<and> ok c' (rev (snd (answers lifo calls xs)))"
proof (induction calls arbitrary: c xs)
  case (Cons call calls)
  obtain c1 where c1: "stack_call S call c = Inr (fst (lifo call xs), c1)" "ok c1 (rev (snd (lifo call xs)))"
    "calls_ok limit calls (length (snd (lifo call xs)))"
    using stack_step [OF Cons.prems] by blast
  from Cons.IH [OF c1(2,3)] c1(1) show ?case by (auto simp: Let_def split: prod.splits)
qed simp

end

section \<open>The deque and the list keep the contract\<close>

definition deque_seq :: "nat \<Rightarrow> ('a, 'a deque_state) sequence_ops" where
  "deque_seq B =
     \<lparr>seq_push_back = dq_push_back B, seq_pop_front = dq_pop_front B, seq_pop_back = dq_pop_back B,
      seq_front = dq_front, seq_back = dq_back B, seq_size = (\<lambda>d. Inr (dq_size B d)),
      seq_empty = (\<lambda>d. Inr (dq_empty d))\<rparr>"

definition list_seq :: "loc \<Rightarrow> ('a, 'a list_heap) sequence_ops" where
  "list_seq l =
     \<lparr>seq_push_back = ls_push_back l, seq_pop_front = ls_pop_front l, seq_pop_back = ls_pop_back l,
      seq_front = ls_front l, seq_back = ls_back l, seq_size = (\<lambda>h. map_sum id unat (size_of l h)),
      seq_empty = ls_empty l\<rparr>"

definition list_holds :: "loc \<Rightarrow> 'a list_heap \<Rightarrow> 'a list \<Rightarrow> bool" where
  "list_holds l h xs \<longleftrightarrow> (\<exists>\<tau>. represents h \<tau> \<and> \<tau> l = Some xs)"

lemma deque_okE:
  assumes "deque_ok B d xs"
  obtains base bs flat p where "deque_at B d base bs flat p xs"
  using assms by (auto simp: deque_ok_def)

interpretation deque_sequence: sequence_container "deque_seq B" "deque_ok B" None
proof unfold_locales
  fix c :: "'a deque_state" and xs x
  assume "deque_ok B c xs"
  then show "\<exists>c'. seq_push_back (deque_seq B) x c = Inr c' \<and> deque_ok B c' (xs @ [x])"
    by (metis deque_okE push_back_ok deque_seq_def sequence_ops.select_convs(1))
next
  fix c :: "'a deque_state" and xs x
  assume "deque_ok B c (x # xs)"
  then show "\<exists>c'. seq_pop_front (deque_seq B) c = Inr c' \<and> deque_ok B c' xs"
    by (metis deque_okE pop_front_ok deque_seq_def sequence_ops.select_convs(2))
next
  fix c :: "'a deque_state" and xs x
  assume "deque_ok B c (xs @ [x])"
  then show "\<exists>c'. seq_pop_back (deque_seq B) c = Inr c' \<and> deque_ok B c' xs"
    by (metis deque_okE pop_back_ok deque_seq_def sequence_ops.select_convs(3))
qed (simp_all add: deque_seq_def dq_front_ok dq_back_ok dq_size_ok dq_empty_ok)

lemma list_holds_front: "list_holds l h (x # xs) \<Longrightarrow> ls_front l h = Inr x"
proof -
  assume "list_holds l h (x # xs)"
  then obtain \<tau> where r: "represents h \<tau>" "\<tau> l = Some (x # xs)" by (auto simp: list_holds_def)
  obtain pos nx h' where e: "position l 0 h = Inr pos" "data_of pos h = Inr ((x # xs) ! 0)"
    by (rule erase_op [OF r, of 0]) simp_all
  then have "ls_begin l h = Inr pos" using position_forward [of 0 l h] by (cases "ls_begin l h") simp_all
  with e(2) show ?thesis by (simp add: ls_front_def)
qed

lemma list_holds_back: "list_holds l h (xs @ [x]) \<Longrightarrow> ls_back l h = Inr x"
proof -
  assume "list_holds l h (xs @ [x])"
  then obtain \<tau> where r: "represents h \<tau>" "\<tau> l = Some (xs @ [x])" by (auto simp: list_holds_def)
  obtain pos nx h' where "Suc (length xs) = length (xs @ [x]) \<longrightarrow> prev_of l h = Inr pos" "data_of pos h = Inr ((xs @ [x]) ! length xs)"
    by (rule erase_op [OF r, of "length xs"]) simp_all
  then show ?thesis by (simp add: ls_back_def)
qed

lemma list_holds_size: "list_holds l h xs \<Longrightarrow> map_sum id unat (size_of l h) = Inr (length xs)"
  using represents_lists by (fastforce simp: list_holds_def size_represented unat_of_nat)

lemma list_holds_empty: "list_holds l h xs \<Longrightarrow> ls_empty l h = Inr (xs = [])"
proof -
  assume "list_holds l h xs"
  then obtain \<tau> where r: "represents h \<tau>" "\<tau> l = Some xs" by (auto simp: list_holds_def)
  obtain \<sigma> ns where s: "list_objects h \<sigma>" "\<sigma> l = Some ns" "xs = map (elem_of h) ns"
    by (rule representsE [OF r]) blast
  have "l \<notin> set ns" using listsD [OF s(1,2)] by (simp add: holds_def)
  with ls_begin_held [OF s(1,2)] s(3) show ?thesis by (cases ns) (auto simp: ls_empty_def ls_begin_def)
qed

interpretation list_sequence: sequence_container "list_seq l" "list_holds l" "Some (2 ^ 63 - 1)"
proof unfold_locales
  fix c :: "'a list_heap" and xs x
  assume "list_holds l c xs" "\<forall>m\<in>set_option (Some (2 ^ 63 - 1)). length xs < m"
  then show "\<exists>c'. seq_push_back (list_seq l) x c = Inr c' \<and> list_holds l c' (xs @ [x])"
    using push_op(2) [of c _ l xs x] by (fastforce simp: list_holds_def list_seq_def)
next
  fix c :: "'a list_heap" and xs x
  assume "list_holds l c (x # xs)"
  then show "\<exists>c'. seq_pop_front (list_seq l) c = Inr c' \<and> list_holds l c' xs"
    using pop_op(1) [of c _ l "x # xs"] by (fastforce simp: list_holds_def list_seq_def)
next
  fix c :: "'a list_heap" and xs x
  assume "list_holds l c (xs @ [x])"
  then show "\<exists>c'. seq_pop_back (list_seq l) c = Inr c' \<and> list_holds l c' xs"
    using pop_op(2) [of c _ l "xs @ [x]"] by (fastforce simp: list_holds_def list_seq_def)
qed (simp_all add: list_seq_def list_holds_front list_holds_back list_holds_size list_holds_empty)

section \<open>What clients of the adaptors get\<close>

lemma calls_ok_unlimited: "calls_ok limit calls n \<Longrightarrow> calls_ok None calls n"
  by (induction limit calls n rule: calls_ok.induct) simp_all

text \<open>
  C26. A \<^verbatim>\<open>queue\<close> answers first in, first out, and a \<^verbatim>\<open>stack\<close> last in, first out, and neither depends on
  the sequence below: over a deque with buffers of any size and over a list, from an empty
  one, the same calls (which read and remove only while there are elements, and keep below the 2 ^ 63 - 1
  elements a list can count) run without a fault and have the same answers, those of a plain list.
\<close>

theorem adaptors_over_deque_and_list:
  assumes "0 < B" and "represents h \<tau>" and "\<tau> l = Some ([] :: 'a list)" and "calls_ok (Some (2 ^ 63 - 1)) calls 0"
  shows "(\<exists>d. andThen (new_deque B) (run_calls (queue_call (deque_seq B)) calls) = Inr (fst (answers fifo calls []), d)) \<and>
    (\<exists>h'. run_calls (queue_call (list_seq l)) calls h = Inr (fst (answers fifo calls []), h')) \<and>
    (\<exists>d. andThen (new_deque B) (run_calls (stack_call (deque_seq B)) calls) = Inr (fst (answers lifo calls []), d)) \<and>
    (\<exists>h'. run_calls (stack_call (list_seq l)) calls h = Inr (fst (answers lifo calls []), h'))"
proof -
  obtain d0 :: "'a deque_state" where d0: "new_deque B = Inr d0" "deque_ok B d0 []"
    using new_deque_ok [OF assms(1)] by blast
  have h: "list_holds l h []" using assms(2,3) by (auto simp: list_holds_def)
  have c: "calls_ok None calls (length [])" "calls_ok (Some (2 ^ 63 - 1)) calls (length [])"
    using calls_ok_unlimited [OF assms(4)] assms(4) by simp_all
  show ?thesis
    using deque_sequence.queue_run [OF d0(2) c(1)] deque_sequence.stack_run [of B d0 "[]", OF _ c(1)]
      list_sequence.queue_run [OF h c(2)] list_sequence.stack_run [of l h "[]", OF _ c(2)] d0 h by auto
qed

theorem adaptors_over_deque_and_list_witness:
  "\<exists>d. andThen (new_deque 1) (run_calls (queue_call (deque_seq 1)) [Push 5, Push (6 :: nat), Front, Pop, Size, Back]) =
    Inr ([Done, Done, Value 5, Done, Count 1, Value 6], d)"
  using adaptors_over_deque_and_list [of 1 sample_store _ 7 "[Push 5, Push (6 :: nat), Front, Pop, Size, Back]", OF _ sample_represents]
  by simp

section \<open>The space a queue takes\<close>

definition small_deque :: "nat \<Rightarrow> nat \<Rightarrow> 'a deque_state \<Rightarrow> 'a list \<Rightarrow> bool" where
  "small_deque B n d xs \<longleftrightarrow> deque_ok B d xs \<and> length xs \<le> n \<and> length (M_map d) \<le> 4 * (n div B + 3) + 2"

lemma small_deque_grows:
  assumes "small_deque B n d xs" "deque_at B d base bs flat p xs" "map_growth (length (M_map d)) (length bs) 1 m"
  shows "m \<le> 4 * (n div B + 3) + 2"
proof -
  have le: "length xs \<le> n" "length (M_map d) \<le> 4 * (n div B + 3) + 2" using assms(1) by (simp_all add: small_deque_def)
  then have "length xs div B \<le> n div B" by (intro div_le_mono)
  then have bs: "length bs \<le> n div B + 2" using deque_blocks [OF assms(2)] by simp
  have "0 < length bs" "base + length bs \<le> length (M_map d)"
    using deque_atD(1,7) [OF assms(2)] by (simp_all add: nodes_ok_def map_ok_def)
  with assms(3) le bs show ?thesis by (auto simp: map_growth_def max_def split: if_splits)
qed

interpretation small_sequence: sequence_container "deque_seq B" "small_deque B n" "Some n"
proof unfold_locales
  fix c :: "'a deque_state" and xs x
  assume s: "small_deque B n c xs" and len: "\<forall>m\<in>set_option (Some n). length xs < m"
  then obtain base bs flat p where d: "deque_at B c base bs flat p xs" by (auto simp: small_deque_def deque_ok_def)
  obtain c' where c': "dq_push_back B x c = Inr c'" "deque_ok B c' (xs @ [x])"
    "map_growth (length (M_map c)) (length bs) 1 (length (M_map c'))"
    using push_back_ok [OF d] by blast
  then have "small_deque B n c' (xs @ [x])" using small_deque_grows [OF s d] len by (simp add: small_deque_def)
  with c'(1) show "\<exists>c'. seq_push_back (deque_seq B) x c = Inr c' \<and> small_deque B n c' (xs @ [x])" by (simp add: deque_seq_def)
next
  fix c :: "'a deque_state" and xs x
  assume s: "small_deque B n c (x # xs)"
  then obtain base bs flat p where d: "deque_at B c base bs flat p (x # xs)" by (auto simp: small_deque_def deque_ok_def)
  show "\<exists>c'. seq_pop_front (deque_seq B) c = Inr c' \<and> small_deque B n c' xs"
    by (rule pop_front_ok [OF d]) (use s in \<open>simp add: deque_seq_def small_deque_def\<close>)
next
  fix c :: "'a deque_state" and xs x
  assume s: "small_deque B n c (xs @ [x])"
  then obtain base bs flat p where d: "deque_at B c base bs flat p (xs @ [x])" by (auto simp: small_deque_def deque_ok_def)
  show "\<exists>c'. seq_pop_back (deque_seq B) c = Inr c' \<and> small_deque B n c' xs"
    by (rule pop_back_ok [OF d]) (use s in \<open>simp add: deque_seq_def small_deque_def\<close>)
qed (auto simp: small_deque_def deque_seq_def dq_front_ok dq_back_ok dq_size_ok dq_empty_ok)

lemma deque_buffers: "deque_ok B d xs \<Longrightarrow> card (dom (buffers d)) \<le> length xs div B + 2"
proof -
  assume "deque_ok B d xs"
  then obtain base bs flat p where d: "deque_at B d base bs flat p xs" by (auto simp: deque_ok_def)
  have "dom (buffers d) = set bs" "distinct bs"
    using deque_atD(1) [OF d] by (simp_all add: nodes_ok_def buffers_ok_def)
  with deque_blocks [OF d] show ?thesis by (simp add: distinct_card)
qed

text \<open>
  C25. A queue that never has more than \<open>n\<close> elements never takes more than \<open>n div B + 2\<close> buffers of
  \<open>B\<close> elements and a map of \<open>4 * (n div B + 3) + 2\<close> entries, however many elements go through
  it: the buffers in use wander to the end of the map and are moved back to its middle.
\<close>

theorem queue_space_bounded:
  assumes "0 < B" and "calls_ok (Some n) (calls :: 'a call list) 0"
  shows "\<exists>as d. andThen (new_deque B) (run_calls (queue_call (deque_seq B)) calls) = Inr (as, d) \<and>
    card (dom (buffers d)) \<le> n div B + 2 \<and> length (M_map d) \<le> 4 * (n div B + 3) + 2"
proof -
  obtain d0 :: "'a deque_state" where d0: "new_deque B = Inr d0" "deque_ok B d0 []" "length (M_map d0) = 8"
    using new_deque_ok [OF assms(1)] by blast
  have "small_deque B n d0 []" using d0(2,3) by (simp add: small_deque_def)
  then obtain d where d: "run_calls (queue_call (deque_seq B)) calls d0 = Inr (fst (answers fifo calls []), d)"
    "small_deque B n d (snd (answers fifo calls []))"
    using small_sequence.queue_run [of B n d0 "[]" calls] assms(2) by auto
  have "length (snd (answers fifo calls [])) div B \<le> n div B" using d(2) by (intro div_le_mono) (simp add: small_deque_def)
  with d deque_buffers d0(1) show ?thesis by (fastforce simp: small_deque_def)
qed

theorem queue_space_bounded_witness:
  "\<exists>as d. andThen (new_deque 1) (run_calls (queue_call (deque_seq 1)) (concat (replicate 20 [Push (0 :: nat), Pop]))) = Inr (as, d) \<and>
    card (dom (buffers d)) \<le> 3 \<and> length (M_map d) \<le> 18"
  using queue_space_bounded [of 1 1 "concat (replicate 20 [Push (0 :: nat), Pop])"]
  by (simp add: numeral_eq_Suc)

end
