(* ===== verification/Stl_Priority_Queue.thy ===== *)
theory Stl_Priority_Queue
  imports Stl_Heap
begin

text \<open>
  The adaptor \<^verbatim>\<open>priority_queue\<close> (\<^verbatim>\<open>stl/_queue.h\<close>): a heap in a sequence, which is given by its elements.
  Whatever is pushed and popped, the element on top is not below another, and popping removes
  exactly that one.
\<close>

section \<open>The adaptor\<close>

definition pq_of :: "('a \<Rightarrow> 'a \<Rightarrow> bool) \<Rightarrow> 'a list \<Rightarrow> 'a list" where
  "pq_of lt s = std_make_heap lt 0 (length s) s"

definition pq_of_range :: "('a \<Rightarrow> 'a \<Rightarrow> bool) \<Rightarrow> 'a list \<Rightarrow> 'a list \<Rightarrow> 'a list" where
  "pq_of_range lt xs s = (let c = s @ xs in std_make_heap lt 0 (length c) c)"

definition pq_empty :: "'a list \<Rightarrow> bool" where
  "pq_empty c \<longleftrightarrow> c = []"

definition pq_size :: "'a list \<Rightarrow> nat" where
  "pq_size c = length c"

definition pq_top :: "'a list \<Rightarrow> 'a result" where
  "pq_top c = (case c of [] \<Rightarrow> Inl EmptyContainer | x # _ \<Rightarrow> Inr x)"

definition pq_push :: "('a \<Rightarrow> 'a \<Rightarrow> bool) \<Rightarrow> 'a \<Rightarrow> 'a list \<Rightarrow> 'a list" where
  "pq_push lt x c = (let c = c @ [x] in std_push_heap lt 0 (length c) c)"

definition pq_pop :: "('a \<Rightarrow> 'a \<Rightarrow> bool) \<Rightarrow> 'a list \<Rightarrow> 'a list result" where
  "pq_pop lt c =
     (if c = [] then Inl EmptyContainer else Inr (butlast (std_pop_heap lt 0 (length c) c)))"

section \<open>Its contract\<close>

definition pq_ok :: "('a \<Rightarrow> 'a \<Rightarrow> bool) \<Rightarrow> 'a multiset \<Rightarrow> 'a list \<Rightarrow> bool" where
  "pq_ok lt M c \<longleftrightarrow> mset c = M \<and> heap_from lt 0 0 (length c) c"

context strict_weak_order begin

lemma pq_of_ok: "pq_ok lt (mset s) (pq_of lt s)" "pq_ok lt (mset s + mset xs) (pq_of_range lt xs s)"
proof -
  have made: "pq_ok lt (mset s) (std_make_heap lt 0 (length s) s)" for s
  proof -
    have "shuffled 0 (length s) s (std_make_heap lt 0 (length s) s)" by (rule make_heap_shuffled) simp_all
    then show ?thesis using make_heap_heap [of 0 "length s" s] by (simp add: pq_ok_def shuffled_def)
  qed
  show "pq_ok lt (mset s) (pq_of lt s)" using made by (simp add: pq_of_def)
  show "pq_ok lt (mset s + mset xs) (pq_of_range lt xs s)" using made [of "s @ xs"] by (simp add: pq_of_range_def Let_def)
qed

lemma pq_push_ok:
  assumes "pq_ok lt M c"
  shows "pq_ok lt (add_mset x M) (pq_push lt x c)"
proof -
  have "heap_from lt 0 0 (length c) (c @ [x])" using assms by (auto simp: pq_ok_def heap_from_def nth_append)
  then have "heap_from lt 0 0 (Suc (length c)) (pq_push lt x c)"
    using push_heap_heap [of 0 "length c" "c @ [x]"] by (simp add: pq_push_def)
  moreover have "shuffled 0 (Suc (length c)) (c @ [x]) (pq_push lt x c)"
    using push_heap_shuffled [of 0 "Suc (length c)" "c @ [x]" lt] by (simp add: pq_push_def)
  ultimately show ?thesis using assms by (simp add: pq_ok_def shuffled_def)
qed

lemma pq_top_ok:
  assumes "pq_ok lt M c" "M \<noteq> {#}"
  shows "\<exists>x. pq_top c = Inr x \<and> x \<in># M \<and> (\<forall>y\<in>#M. \<not> lt x y)"
proof -
  obtain x xs where c: "c = x # xs" using assms by (cases c) (auto simp: pq_ok_def)
  have "\<not> lt x y" if "y \<in># M" for y
  proof -
    have "y \<in> set c" using that assms(1) by (auto simp: pq_ok_def)
    then obtain i where "i < length c" "y = c ! i" by (auto simp: in_set_conv_nth)
    then show ?thesis using heap_top [of 0 "length c" c i] assms(1) c by (simp add: pq_ok_def)
  qed
  with c assms(1) show ?thesis by (auto simp: pq_top_def pq_ok_def)
qed

lemma pq_pop_ok:
  assumes "pq_ok lt M c" "pq_top c = Inr x"
  shows "\<exists>c'. pq_pop lt c = Inr c' \<and> pq_ok lt (M - {#x#}) c'"
proof -
  obtain xs where c: "c = x # xs" using assms(2) by (auto simp: pq_top_def split: list.splits)
  let ?p = "std_pop_heap lt 0 (length c) c" and ?n = "length xs"
  have pop: "pq_pop lt c = Inr (butlast ?p)" using c by (simp add: pq_pop_def)
  show ?thesis
  proof (cases "xs = []")
    case True
    then have "butlast ?p = []" using c by (simp add: std_pop_heap_def pop_heap_to_def butlast_conv_take)
    with True c assms(1) pop show ?thesis by (auto simp: pq_ok_def heap_from_def)
  next
    case False
    then have two: "Suc 0 < length c" using c by simp
    then have sh: "shuffled 0 (length c) c ?p" "?p ! (length c - 1) = c ! 0"
      using pop_heap_shuffled [of 0 "length c" c lt] by simp_all
    then have "length ?p = Suc ?n" "mset ?p = M" using c assms(1) by (simp_all add: shuffled_def pq_ok_def)
    moreover from this have "?p = butlast ?p @ [?p ! ?n]"
      by (metis append_butlast_last_id diff_Suc_1 last_conv_nth length_0_conv nat.distinct(1))
    ultimately have m: "mset (butlast ?p) = M - {#x#}" "length (butlast ?p) = ?n"
      using sh(2) c by (simp_all) (metis add_mset_remove_trivial mset.simps(1,2) mset_append union_mset_add_mset_right add.right_neutral)
    have "heap_from lt 0 0 ?n c" using assms(1) heap_prefix [of 0 0 "length c" c ?n] c by (simp add: pq_ok_def)
    then have "heap_from lt 0 0 ?n ?p"
      using pop_heap_to_heap [of 0 ?n ?n c "c ! ?n"] c False by (simp add: std_pop_heap_def)
    then have "heap_from lt 0 0 ?n (butlast ?p)"
      using m(2) by (auto simp: heap_from_def nth_butlast)
    with m pop show ?thesis by (simp add: pq_ok_def)
  qed
qed

end

section \<open>Calls\<close>

text \<open>A client that pops looks at the top first.\<close>

datatype 'a pq_call = PushItem 'a | TakeTop

fun run_pq :: "('a \<Rightarrow> 'a \<Rightarrow> bool) \<Rightarrow> 'a pq_call list \<Rightarrow> 'a list \<Rightarrow> ('a list \<times> 'a list) result" where
  "run_pq lt [] c = Inr ([], c)"
| "run_pq lt (PushItem x # calls) c = run_pq lt calls (pq_push lt x c)"
| "run_pq lt (TakeTop # calls) c =
     andThen (pq_top c) (\<lambda>x.
     andThen (pq_pop lt c) (\<lambda>c.
     andThen (run_pq lt calls c) (\<lambda>(taken, c). Inr (x # taken, c))))"

text \<open>What may be taken, one element after the other, from a multiset into which others are put.\<close>

fun may_take :: "('a \<Rightarrow> 'a \<Rightarrow> bool) \<Rightarrow> 'a multiset \<Rightarrow> 'a pq_call list \<Rightarrow> 'a list \<Rightarrow> bool" where
  "may_take lt M [] taken = (taken = [])"
| "may_take lt M (PushItem x # calls) taken = may_take lt (add_mset x M) calls taken"
| "may_take lt M (TakeTop # calls) [] = False"
| "may_take lt M (TakeTop # calls) (x # taken) =
     (x \<in># M \<and> (\<forall>y\<in>#M. \<not> lt x y) \<and> may_take lt (M - {#x#}) calls taken)"

fun pq_calls_ok :: "nat \<Rightarrow> 'a pq_call list \<Rightarrow> bool" where
  "pq_calls_ok n [] = True"
| "pq_calls_ok n (PushItem x # calls) = pq_calls_ok (Suc n) calls"
| "pq_calls_ok n (TakeTop # calls) = (0 < n \<and> pq_calls_ok (n - 1) calls)"

context strict_weak_order begin

lemma run_pq_ok:
  assumes "pq_ok lt M c" "pq_calls_ok (size M) calls"
  shows "\<exists>taken c'. run_pq lt calls c = Inr (taken, c') \<and> may_take lt M calls taken"
  using assms
proof (induction calls arbitrary: M c)
  case (Cons call calls)
  show ?case
  proof (cases call)
    case (PushItem x)
    then show ?thesis using Cons.IH [OF pq_push_ok [OF Cons.prems(1), of x]] Cons.prems(2) by simp
  next
    case TakeTop
    then have "M \<noteq> {#}" using Cons.prems(2) by auto
    then obtain x where x: "pq_top c = Inr x" "x \<in># M" "\<forall>y\<in>#M. \<not> lt x y"
      using pq_top_ok [OF Cons.prems(1)] by blast
    then obtain c' where c': "pq_pop lt c = Inr c'" "pq_ok lt (M - {#x#}) c'"
      using pq_pop_ok [OF Cons.prems(1)] by blast
    have "pq_calls_ok (size (M - {#x#})) calls" using Cons.prems(2) x(2) TakeTop by (simp add: size_Diff_singleton)
    then obtain taken c'' where "run_pq lt calls c' = Inr (taken, c'')" "may_take lt (M - {#x#}) calls taken"
      using Cons.IH [OF c'(2)] by blast
    with x c' TakeTop show ?thesis by (auto intro!: exI [of _ "x # taken"])
  qed
qed simp

end

text \<open>However a queue is filled, a client takes from it, each time, an element that is not below another one in it.\<close>

lemma priority_queue_takes_greatest:
  assumes "strict_weak_order lt" "pq_calls_ok (length (s @ xs)) calls"
  shows "\<exists>taken c. run_pq lt calls (pq_of_range lt xs s) = Inr (taken, c) \<and> may_take lt (mset (s @ xs)) calls taken"
  using strict_weak_order.run_pq_ok [OF assms(1) strict_weak_order.pq_of_ok(2) [OF assms(1)], of s xs calls] assms(2)
  by simp

end
