(* ===== verification/Stl_Permutation.thy ===== *)
theory Stl_Permutation
  imports Stl_Sort "HOL-Library.List_Lexorder"
begin

text \<open>
  \<^verbatim>\<open>next_permutation\<close> and \<^verbatim>\<open>prev_permutation\<close> (\<^verbatim>\<open>stl/_algo.c\<close>). Both walk back from the end of the range and
  have an inner scan without a test for the start of the range; leaving the memory is a fault.
\<close>

section \<open>The code\<close>

fun scan_back :: "(nat \<Rightarrow> bool) \<Rightarrow> nat \<Rightarrow> nat result" where
  "scan_back found 0 = Inl IndexOutOfRange"
| "scan_back found (Suc j) = (if \<not> found j then scan_back found j else Inr j)"

fun next_permutation_loop ::
    "category \<Rightarrow> ('a \<Rightarrow> 'a \<Rightarrow> bool) \<Rightarrow> nat \<Rightarrow> nat \<Rightarrow> nat \<Rightarrow> 'a list \<Rightarrow> (bool \<times> 'a list) result" where
  "next_permutation_loop c lt first fin 0 mem = Inl IndexOutOfRange"
| "next_permutation_loop c lt first fin (Suc i) mem =
     (if lt (mem ! i) (mem ! Suc i) then
        andThen (scan_back (\<lambda>j. lt (mem ! i) (mem ! j)) fin) (\<lambda>j.
          Inr (True, std_reverse c (Suc i) fin (iter_swap i j mem)))
      else if i = first then Inr (False, std_reverse c first fin mem)
      else next_permutation_loop c lt first fin i mem)"

definition next_permutation :: "category \<Rightarrow> ('a \<Rightarrow> 'a \<Rightarrow> bool) \<Rightarrow> nat \<Rightarrow> nat \<Rightarrow> 'a list \<Rightarrow> (bool \<times> 'a list) result" where
  "next_permutation c lt first fin mem =
     (if first = fin then Inr (False, mem)
      else if Suc first = fin then Inr (False, mem)
      else next_permutation_loop c lt first fin (fin - 1) mem)"

fun prev_permutation_loop ::
    "category \<Rightarrow> ('a \<Rightarrow> 'a \<Rightarrow> bool) \<Rightarrow> nat \<Rightarrow> nat \<Rightarrow> nat \<Rightarrow> 'a list \<Rightarrow> (bool \<times> 'a list) result" where
  "prev_permutation_loop c lt first fin 0 mem = Inl IndexOutOfRange"
| "prev_permutation_loop c lt first fin (Suc i) mem =
     (if lt (mem ! Suc i) (mem ! i) then
        andThen (scan_back (\<lambda>j. lt (mem ! j) (mem ! i)) fin) (\<lambda>j.
          Inr (True, std_reverse c (Suc i) fin (iter_swap i j mem)))
      else if i = first then Inr (False, std_reverse c first fin mem)
      else prev_permutation_loop c lt first fin i mem)"

definition prev_permutation :: "category \<Rightarrow> ('a \<Rightarrow> 'a \<Rightarrow> bool) \<Rightarrow> nat \<Rightarrow> nat \<Rightarrow> 'a list \<Rightarrow> (bool \<times> 'a list) result" where
  "prev_permutation c lt first fin mem =
     (if first = fin then Inr (False, mem)
      else if Suc first = fin then Inr (False, mem)
      else prev_permutation_loop c lt first fin (fin - 1) mem)"

lemma prev_is_next: "prev_permutation c lt = next_permutation c (\<lambda>a b. lt b a)"
proof -
  have "prev_permutation_loop c lt first fin i mem = next_permutation_loop c (\<lambda>a b. lt b a) first fin i mem" for first fin i and mem :: "'a list"
    by (induction i) simp_all
  then show ?thesis by (simp add: fun_eq_iff prev_permutation_def next_permutation_def)
qed

section \<open>What they do to a list\<close>

text \<open>A list that never rises is the last permutation; otherwise it splits at its last rise.\<close>

abbreviation falling :: "('a \<Rightarrow> 'a \<Rightarrow> bool) \<Rightarrow> 'a list \<Rightarrow> bool" where
  "falling lt \<equiv> successively (\<lambda>x y. \<not> lt x y)"

definition last_rise :: "('a \<Rightarrow> 'a \<Rightarrow> bool) \<Rightarrow> 'a list \<Rightarrow> 'a list \<Rightarrow> 'a \<Rightarrow> 'a list \<Rightarrow> 'a \<Rightarrow> 'a list \<Rightarrow> bool" where
  "last_rise lt xs p a s1 b s2 \<longleftrightarrow> xs = p @ a # s1 @ b # s2 \<and> falling lt (s1 @ b # s2) \<and>
     lt a (hd (s1 @ [b])) \<and> lt a b \<and> (\<forall>x \<in> set s2. \<not> lt a x)"

lemma last_rise_cases:
  obtains "falling lt xs" | p a s1 b s2 where "last_rise lt xs p a s1 b s2"
proof -
  have "falling lt xs \<or> (\<exists>p a s. xs = p @ a # s \<and> s \<noteq> [] \<and> falling lt s \<and> lt a (hd s))"
  proof (induction xs)
    case (Cons x xs)
    then show ?case
    proof
      assume "falling lt xs"
      then show ?thesis
        by (cases "xs = [] \<or> \<not> lt x (hd xs)") (force simp: successively_Cons)+
    next
      assume "\<exists>p a s. xs = p @ a # s \<and> s \<noteq> [] \<and> falling lt s \<and> lt a (hd s)"
      then show ?thesis by (metis append_Cons)
    qed
  qed simp
  moreover have "\<exists>s1 b s2. last_rise lt (p @ a # s) p a s1 b s2" if "s \<noteq> []" "falling lt s" "lt a (hd s)" for p a s
  proof -
    have "\<exists>x \<in> set s. lt a x" using that by (intro bexI [of _ "hd s"]) simp_all
    then obtain s1 b s2 where "s = s1 @ b # s2" "lt a b" "\<forall>x \<in> set s2. \<not> lt a x"
      using split_list_last_prop [of s "lt a"] by blast
    then have "last_rise lt (p @ a # s) p a s1 b s2" using that by (simp add: last_rise_def hd_append split: if_splits)
    then show ?thesis by blast
  qed
  ultimately show thesis using that by blast
qed

lemma nth_hd: "v \<noteq> [] \<Longrightarrow> (pre @ v @ post) ! length pre = hd v"
  by (cases v) simp_all

lemma next_loop_skip:
  assumes "falling lt (u @ v)" "v \<noteq> []" "first < length pre"
  shows "next_permutation_loop c lt first fin (length pre + length u) (pre @ u @ v @ post) =
    next_permutation_loop c lt first fin (length pre) (pre @ u @ v @ post)"
  using assms(1,2)
proof (induction u arbitrary: v rule: rev_induct)
  case (snoc x u)
  have at: "(pre @ (u @ [x]) @ v @ post) ! (length pre + length u) = x"
    using nth_append_length [of "pre @ u" x "v @ post"] by simp
  have at': "(pre @ (u @ [x]) @ v @ post) ! Suc (length pre + length u) = hd v"
    using nth_hd [of v "pre @ u @ [x]" post] snoc.prems(2) by simp
  have "\<not> lt x (hd v)" using snoc.prems by (simp add: successively_append_iff successively_Cons)
  then show ?case using snoc.IH [of "x # v"] snoc.prems assms(3) at at' by simp
qed simp

lemma scan_back_finds:
  "(\<And>j. n \<le> j \<Longrightarrow> j < n + k \<Longrightarrow> \<not> found (Suc j)) \<Longrightarrow> found n \<Longrightarrow> scan_back found (Suc (n + k)) = Inr n"
  by (induction k) simp_all

lemma next_permutation_rises:
  assumes "last_rise lt xs p a s1 b s2"
  shows "next_permutation c lt (length pre) (length pre + length xs) (pre @ xs @ post) =
    Inr (True, pre @ (p @ b # rev (s1 @ a # s2)) @ post)"
proof -
  note rise = assms [unfolded last_rise_def]
  let ?s = "s1 @ b # s2" and ?q = "pre @ p"
  let ?mem = "?q @ a # ?s @ post"
  have xs: "pre @ xs @ post = ?mem" "length pre + length xs = Suc (length ?q + length ?s)" using rise by simp_all
  have at: "?mem ! length ?q = a" "?mem ! Suc (length ?q) = hd (s1 @ [b])"
    using nth_append_length [of ?q a "?s @ post"] nth_append_length [of "?q @ [a]" "hd ?s" "tl ?s @ post"] by (cases s1; simp)+
  have s2: "?mem ! (Suc (length ?q + length s1) + Suc i) = s2 ! i" if "i < length s2" for i
    using nth_append_length_plus [of "?q @ a # s1 @ [b]" "s2 @ post" i] that by (simp add: nth_append)
  have below: "\<not> lt a (?mem ! Suc j)" if "Suc (length ?q + length s1) \<le> j" "j < Suc (length ?q + length s1) + length s2" for j
  proof -
    have "j - Suc (length ?q + length s1) < length s2" using that by linarith
    then show ?thesis using rise s2 [of "j - Suc (length ?q + length s1)"] that nth_mem by fastforce
  qed
  have "?mem ! Suc (length ?q + length s1) = b"
    using nth_append_length [of "?q @ a # s1" b "s2 @ post"] by (simp add: add.assoc)
  then have "lt a (?mem ! Suc (length ?q + length s1))" using rise by simp
  from scan_back_finds [of _ _ "\<lambda>j. lt a (?mem ! j)", OF below this]
  have scan: "scan_back (\<lambda>j. lt a (?mem ! j)) (Suc (length ?q + length ?s)) = Inr (length ?q + Suc (length s1))"
    by (simp add: add.assoc del: scan_back.simps)
  have swap: "iter_swap (length ?q) (length ?q + Suc (length s1)) ?mem = ?q @ b # s1 @ a # s2 @ post"
    using iter_swap_ends [of ?q s1 a b "s2 @ post"] by simp
  have rev: "std_reverse c (Suc (length ?q)) (Suc (length ?q + length ?s)) (?q @ b # s1 @ a # s2 @ post) =
      ?q @ b # rev (s1 @ a # s2) @ post"
    using reverse_rev [of c "?q @ [b]" "s1 @ a # s2" post] by simp
  obtain u v where uv: "?s = u @ [v]" by (metis append_is_Nil_conv list.discI rev_exhaust)
  have "next_permutation c lt (length pre) (length pre + length xs) (pre @ xs @ post) =
      next_permutation_loop c lt (length pre) (Suc (length ?q + length ?s)) (length ?q + length ?s) ?mem"
    unfolding xs by (simp add: next_permutation_def)
  also have "\<dots> = next_permutation_loop c lt (length pre) (Suc (length ?q + length ?s)) (Suc (length ?q)) ?mem"
    using next_loop_skip [of lt u "[v]" "length pre" "?q @ [a]" c "Suc (length ?q + length ?s)" post] rise uv by simp
  also have "\<dots> = Inr (True, ?q @ b # rev (s1 @ a # s2) @ post)"
    using rise by (simp only: next_permutation_loop.simps at if_True scan andThen_Inr swap rev)
  finally show ?thesis by simp
qed

lemma next_permutation_wraps:
  assumes "falling lt xs"
  shows "next_permutation c lt (length pre) (length pre + length xs) (pre @ xs @ post) = Inr (False, pre @ rev xs @ post)"
proof (cases xs)
  case (Cons x ys)
  show ?thesis
  proof (cases "ys = []")
    case False
    let ?l = "length pre + length xs"
    obtain u v where uv: "ys = u @ [v]" using False by (metis rev_exhaust)
    have at: "(pre @ xs @ post) ! length pre = x" "(pre @ xs @ post) ! Suc (length pre) = hd ys"
      using nth_hd [of ys "pre @ [x]" post] False by (simp_all add: Cons)
    have "next_permutation c lt (length pre) ?l (pre @ xs @ post) =
        next_permutation_loop c lt (length pre) ?l (Suc (length pre) + length u) (pre @ xs @ post)"
      using False by (simp add: next_permutation_def Cons uv)
    also have "\<dots> = next_permutation_loop c lt (length pre) ?l (Suc (length pre)) (pre @ xs @ post)"
      using next_loop_skip [of lt u "[v]" "length pre" "pre @ [x]" c ?l post] assms by (simp add: Cons uv successively_Cons)
    also have "\<dots> = Inr (False, std_reverse c (length pre) ?l (pre @ xs @ post))"
      using at assms False by (simp add: Cons successively_Cons)
    finally show ?thesis using reverse_rev [of c pre xs post] by simp
  qed (simp add: next_permutation_def Cons)
qed (simp add: next_permutation_def)

context strict_weak_order begin

lemma falling_sorted: "falling lt xs \<longleftrightarrow> sorted_wrt (\<lambda>x y. \<not> lt x y) xs"
  by (rule successively_iff_sorted_wrt_strong) (use neg_trans in blast)

text \<open>What \<^verbatim>\<open>next_permutation\<close> leaves has its last fall, seen from \<^verbatim>\<open>prev_permutation\<close>, at the same place.\<close>

lemma last_rise_back:
  assumes "last_rise lt xs p a s1 b s2"
  shows "last_rise (\<lambda>x y. lt y x) (p @ b # rev (s1 @ a # s2)) p b (rev s2) a (rev s1)"
proof -
  note rise = assms [unfolded last_rise_def]
  have fall: "falling lt s1" "falling lt s2" and "\<forall>x \<in> set s1. \<not> lt x b"
    using rise by (auto simp: successively_append_iff successively_Cons falling_sorted sorted_wrt_append)
  then have s1: "\<not> lt x b" "\<not> lt x a" if "x \<in> set s1" for x
    using that rise asym [of a b] neg_trans [of x b a] by blast+
  have "lt x b" if "x \<in> set s2" for x using rise that le_lt_trans [of a x b] by blast
  then have "lt (hd (rev s2 @ [a])) b" using rise by (cases s2 rule: rev_cases) auto
  moreover have "falling lt (s1 @ a # s2)"
    using fall s1(2) rise last_in_set [of s1] hd_in_set [of s2] unfolding successively_append_iff successively_Cons by auto
  then have "falling (\<lambda>x y. lt y x) (rev (s1 @ a # s2))" unfolding successively_rev .
  ultimately show ?thesis using rise s1 by (simp add: last_rise_def)
qed

lemma prev_undoes_next:
  "\<exists>r ys. next_permutation c lt (length pre) (length pre + length xs) (pre @ xs @ post) = Inr (r, pre @ ys @ post) \<and>
    length ys = length xs \<and> mset ys = mset xs \<and>
    prev_permutation c' lt (length pre) (length pre + length xs) (pre @ ys @ post) = Inr (r, pre @ xs @ post)"
proof (cases rule: last_rise_cases [of lt xs])
  case 1
  then have "falling (\<lambda>x y. lt y x) (rev xs)" by simp
  from next_permutation_wraps [OF this, of c' pre post] next_permutation_wraps [OF 1, of c pre post] show ?thesis
    by (intro exI [of _ False] exI [of _ "rev xs"]) (simp add: prev_is_next)
next
  case (2 p a s1 b s2)
  then have xs: "xs = p @ a # s1 @ b # s2" by (simp add: last_rise_def)
  show ?thesis
    using next_permutation_rises [OF 2, of c pre post] next_permutation_rises [OF last_rise_back [OF 2], of c' pre post]
    by (intro exI [of _ True] exI [of _ "p @ b # rev (s1 @ a # s2)"]) (simp add: prev_is_next xs ac_simps)
qed

end

section \<open>The lexicographic order\<close>

lemma sorted_least:
  fixes ws :: "'a :: linorder list"
  shows "sorted ws \<Longrightarrow> mset zs = mset ws \<Longrightarrow> ws \<le> zs"
proof (induction ws arbitrary: zs)
  case (Cons w ws)
  then obtain z zs' where zs: "zs = z # zs'" by (cases zs) auto
  have "z \<in> set (w # ws)" using mset_eq_setD [OF Cons.prems(2)] by (auto simp: zs)
  then have "w \<le> z" using Cons.prems(1) by auto
  then show ?case
    using Cons.IH [of zs'] Cons.prems by (cases "w = z") (auto simp: zs)
qed simp

lemma falling_greatest:
  fixes ws :: "'a :: linorder list"
  shows "sorted_wrt (\<ge>) ws \<Longrightarrow> mset zs = mset ws \<Longrightarrow> zs \<le> ws"
proof (induction ws arbitrary: zs)
  case (Cons w ws)
  then obtain z zs' where zs: "zs = z # zs'" by (cases zs) auto
  have "z \<in> set (w # ws)" using mset_eq_setD [OF Cons.prems(2)] by (auto simp: zs)
  then have "z \<le> w" using Cons.prems(1) by auto
  then show ?case
    using Cons.IH [of zs'] Cons.prems by (cases "w = z") (auto simp: zs)
qed simp

lemma falling_less: "falling ((<) :: 'a :: linorder \<Rightarrow> _) xs \<longleftrightarrow> sorted_wrt (\<ge>) xs"
  using less_order.falling_sorted [of xs] by (simp add: not_less)

lemma rise_increases:
  fixes xs :: "'a :: linorder list"
  assumes "last_rise (<) xs p a s1 b s2"
  shows "xs < p @ b # rev (s1 @ a # s2)"
proof -
  have "a < b" using assms by (simp add: last_rise_def)
  then have "p @ a # us < p @ b # vs" for us vs by (induction p) auto
  then show ?thesis using assms by (auto simp: last_rise_def)
qed

lemma rise_least:
  fixes xs :: "'a :: linorder list"
  assumes "last_rise (<) xs p a s1 b s2" "mset zs = mset xs" "xs < zs"
  shows "p @ b # rev (s1 @ a # s2) \<le> zs"
proof -
  let ?s = "s1 @ b # s2"
  have rise: "xs = p @ a # ?s" "a < b" "\<forall>x \<in> set s2. x \<le> a" and fall: "sorted_wrt (\<ge>) ?s"
    using assms(1) unfolding last_rise_def falling_less by auto
  have s1: "\<forall>x \<in> set s1. b \<le> x" using fall by (auto simp: sorted_wrt_append)
  have "sorted (rev (s1 @ a # s2))"
    using fall rise(2,3) s1 by (fastforce simp: sorted_wrt_rev sorted_wrt_append)
  then have least: "rev (s1 @ a # s2) \<le> zs" if "mset zs = mset (s1 @ a # s2)" for zs
    using sorted_least that by (metis mset_rev)
  show ?thesis
    using assms(2,3) unfolding rise(1)
  proof (induction p arbitrary: zs)
    case Nil
    then obtain c t where zs: "zs = c # t" by (cases zs) auto
    show ?case
    proof (cases "a = c")
      case True
      then have "mset t = mset ?s" "?s < t" using Nil by (auto simp: zs)
      then show ?thesis using falling_greatest [OF fall] by (metis leD)
    next
      case False
      then have "a < c" using Nil.prems(2) by (auto simp: zs)
      moreover have "c \<in> set (a # ?s)" using mset_eq_setD [OF Nil.prems(1)] by (auto simp: zs)
      ultimately have "b \<le> c" using s1 rise(3) by auto
      moreover have "rev (s1 @ a # s2) \<le> t" if "b = c" using Nil.prems(1) that by (intro least) (simp add: zs)
      ultimately show ?thesis by (cases "b = c") (auto simp: zs)
    qed
  next
    case (Cons x p)
    then obtain c t where zs: "zs = c # t" by (cases zs) auto
    show ?case using Cons.prems Cons.IH [of t] by (cases "x = c") (auto simp: zs)
  qed
qed

text \<open>
  C38. \<^verbatim>\<open>next_permutation\<close> and \<^verbatim>\<open>prev_permutation\<close> are inverse to each other, for every strict weak order, also when
  the one wraps around from the last to the first permutation; they permute the range and
  change nothing else, and their unguarded scans stay in it.
\<close>

theorem prev_permutation_undoes_next:
  assumes "strict_weak_order lt" "first \<le> fin" "fin \<le> length mem"
  shows "\<exists>r m. next_permutation c lt first fin mem = Inr (r, m) \<and> shuffled first fin mem m \<and>
    prev_permutation c' lt first fin m = Inr (r, mem)"
proof -
  let ?pre = "take first mem" and ?xs = "segment mem first fin" and ?post = "drop fin mem"
  obtain r ys where ys: "next_permutation c lt first fin mem = Inr (r, ?pre @ ys @ ?post)" "length ys = fin - first" "mset ys = mset ?xs"
      "prev_permutation c' lt first fin (?pre @ ys @ ?post) = Inr (r, mem)"
    using strict_weak_order.prev_undoes_next [OF assms(1), of c ?pre ?xs ?post c'] segment_split [OF assms(2,3)] assms by auto
  have "mset (?pre @ ys @ ?post) = mset (?pre @ ?xs @ ?post)" using ys(3) by simp
  then have "shuffled first fin mem (?pre @ ys @ ?post)"
    using ys(2) assms segment_split [OF assms(2,3)] by (auto simp: shuffled_def nth_append)
  then show ?thesis using ys(1,4) by blast
qed

theorem prev_permutation_undoes_next_witness:
  "\<exists>r m. next_permutation Forward (<) 1 4 [7, 1, 3, 2 :: nat] = Inr (r, m) \<and> shuffled 1 4 [7, 1, 3, 2] m \<and>
    prev_permutation RandomAccess (<) 1 4 m = Inr (r, [7, 1, 3, 2])"
  by (rule prev_permutation_undoes_next [OF less_order.strict_weak_order_axioms]) simp_all

text \<open>
  C37. On a totally ordered type \<^verbatim>\<open>next_permutation\<close> does not fault and leaves a permutation of the range, all
  else unchanged; it returns true exactly when a permutation of the range is greater than the range in the lexicographic
  order, and then leaves the least such; otherwise the range was the greatest permutation, and it leaves the sorted one.
\<close>

theorem next_permutation_successor:
  fixes mem :: "'a :: linorder list"
  assumes "first \<le> fin" "fin \<le> length mem"
  shows "\<exists>r m. next_permutation c (<) first fin mem = Inr (r, m) \<and> shuffled first fin mem m \<and>
    mset (segment m first fin) = mset (segment mem first fin) \<and>
    (r \<longleftrightarrow> (\<exists>zs. mset zs = mset (segment mem first fin) \<and> segment mem first fin < zs)) \<and>
    (if r then segment mem first fin < segment m first fin \<and>
        (\<forall>zs. mset zs = mset (segment mem first fin) \<longrightarrow> segment mem first fin < zs \<longrightarrow> segment m first fin \<le> zs)
      else sorted (segment m first fin) \<and> (\<forall>zs. mset zs = mset (segment mem first fin) \<longrightarrow> zs \<le> segment mem first fin))"
proof -
  let ?pre = "take first mem" and ?xs = "segment mem first fin" and ?post = "drop fin mem"
  have split: "mem = ?pre @ ?xs @ ?post" by (rule segment_split [OF assms(1,2)])
  have len: "length ?pre = first" "length ?pre + length ?xs = fin" "length ?xs = fin - first" using assms by simp_all
  have seg: "segment (?pre @ ys @ ?post) first fin = ys" "shuffled first fin mem (?pre @ ys @ ?post)"
    if "mset ys = mset ?xs" for ys
  proof -
    have l: "length ys = fin - first" using that len(3) mset_eq_length by metis
    then show "segment (?pre @ ys @ ?post) first fin = ys"
      using segment_middle [of ?pre ys ?post] assms by simp
    have "mset (?pre @ ys @ ?post) = mset (?pre @ ?xs @ ?post)" using that by simp
    then show "shuffled first fin mem (?pre @ ys @ ?post)"
      using l assms split by (auto simp: shuffled_def nth_append)
  qed
  show ?thesis
  proof (cases rule: last_rise_cases [of "(<)" ?xs])
    case 1
    then have "next_permutation c (<) first fin mem = Inr (False, ?pre @ rev ?xs @ ?post)"
      using next_permutation_wraps [of "(<)" ?xs c ?pre ?post] split len by simp
    moreover have down: "sorted_wrt (\<ge>) ?xs" using 1 by (simp only: falling_less)
    then have greatest: "\<forall>zs. mset zs = mset ?xs \<longrightarrow> zs \<le> ?xs" using falling_greatest by blast
    then have "\<nexists>zs. mset zs = mset ?xs \<and> ?xs < zs" using leD by blast
    moreover have "sorted (rev ?xs)" using down by (simp add: sorted_wrt_rev)
    ultimately show ?thesis
      using seg [of "rev ?xs"] greatest
      by (intro exI [of _ False] exI [of _ "?pre @ rev ?xs @ ?post"]) simp
  next
    case (2 p a s1 b s2)
    let ?ys = "p @ b # rev (s1 @ a # s2)"
    have "mset ?ys = mset ?xs" using 2 by (simp add: last_rise_def)
    moreover have "next_permutation c (<) first fin mem = Inr (True, ?pre @ ?ys @ ?post)"
      using next_permutation_rises [OF 2, of c ?pre ?post] split len by simp
    moreover have "?xs < ?ys" "\<forall>zs. mset zs = mset ?xs \<longrightarrow> ?xs < zs \<longrightarrow> ?ys \<le> zs"
      using rise_increases [OF 2] rise_least [OF 2] by blast+
    moreover from calculation have "\<exists>zs. mset zs = mset ?xs \<and> ?xs < zs" by blast
    ultimately show ?thesis
      using seg [of ?ys] by (intro exI [of _ True] exI [of _ "?pre @ ?ys @ ?post"]) auto
  qed
qed

theorem next_permutation_successor_witness:
  "next_permutation Forward (<) 1 4 [7, 1, 3, 2 :: nat] = Inr (True, [7, 2, 1, 3]) \<and>
    [1, 3, 2] < [2, 1, 3 :: nat] \<and> [2, 1, 3 :: nat] \<le> [2, 3, 1]"
proof -
  let ?mem = "[7, 1, 3, 2 :: nat]"
  have rise: "last_rise (<) [1, 3, 2 :: nat] [] 1 [3] 2 []"
    by (simp add: last_rise_def)
  have run: "next_permutation Forward (<) 1 4 [7, 1, 3, 2 :: nat] = Inr (True, [7, 2, 1, 3])"
    using next_permutation_rises [OF rise, of Forward "[7]" "[]"] by (simp add: eval_nat_numeral)
  have seg: "segment [7, 1, 3, 2 :: nat] 1 4 = [1, 3, 2]" "segment [7, 2, 1, 3 :: nat] 1 4 = [2, 1, 3]"
    by (simp_all add: segment_def)
  have "(1 :: nat) \<le> 4" "4 \<le> length [7, 1, 3, 2 :: nat]" by simp_all
  from next_permutation_successor [OF this, of Forward] obtain r m where
    rm: "(Inr (True, [7, 2, 1, 3]) :: (bool \<times> nat list) result) = Inr (r, m)"
    and succ: "if r then segment ?mem 1 4 < segment m 1 4 \<and> (\<forall>zs. mset zs = mset (segment ?mem 1 4) \<longrightarrow>
       segment ?mem 1 4 < zs \<longrightarrow> segment m 1 4 \<le> zs)
     else sorted (segment m 1 4) \<and> (\<forall>zs. mset zs = mset (segment ?mem 1 4) \<longrightarrow> zs \<le> segment ?mem 1 4)"
    unfolding run by (elim exE conjE) (rule that)
  from rm have rT: "r = True" and m: "m = [7, 2, 1, 3]" by simp_all
  from succ have "[1, 3, 2] < [2, 1, 3 :: nat]" "\<forall>zs. mset zs = mset [1, 3, 2] \<longrightarrow> [1, 3, 2] < zs \<longrightarrow> [2, 1, 3 :: nat] \<le> zs"
    unfolding m rT seg if_True by blast+
  from this(1) this(2) [rule_format, of "[2, 3, 1]"] run show ?thesis by simp
qed

end
