(* ===== verification/Stl_Search_N.thy ===== *)
theory Stl_Search_N
  imports Stl_Search
begin

text \<open>
  \<^verbatim>\<open>search_n\<close> (\<^verbatim>\<open>stl/_algo.c\<close>): the first place where a predicate holds of a given number of consecutive elements. The version
  for random access iterators looks at the end of the next possible match first and skips as
  far as it can; it finds what the plain version finds.
\<close>

section \<open>The code\<close>

text \<open>
  The two backward scans: \<open>None\<close> when they reach the start of the candidate (a match), else how many
  elements are still open at the mismatch.
\<close>

fun first_scan :: "(nat \<Rightarrow> bool) \<Rightarrow> nat \<Rightarrow> nat \<Rightarrow> nat option" where
  "first_scan P back 0 = Some 0"
| "first_scan P back (Suc remainder) =
     (if P (back - 1) then if remainder = 0 then None else first_scan P (back - 1) remainder
      else Some (Suc remainder))"

fun later_scan :: "(nat \<Rightarrow> bool) \<Rightarrow> nat \<Rightarrow> nat \<Rightarrow> nat option" where
  "later_scan P back 0 = Some 0"
| "later_scan P back (Suc remainder) =
     (if remainder = 0 then None
      else if P (back - 1) then later_scan P (back - 1) remainder
      else Some remainder)"

text \<open>Where the loops are: in the skip loop, or comparing a candidate of which \<open>remainder\<close> elements are open.\<close>

datatype search_mode = Skipping | Comparing nat

partial_function (option) search_n_scan :: "(nat \<Rightarrow> bool) \<Rightarrow> nat \<Rightarrow> nat \<Rightarrow> search_mode \<Rightarrow> nat \<Rightarrow> nat \<Rightarrow> nat option" where
  "search_n_scan P patt_size fin mode look_ahead tail_size =
     (case mode of
        Skipping \<Rightarrow>
          if \<not> P look_ahead then
            if tail_size < patt_size then Some fin
            else search_n_scan P patt_size fin Skipping (look_ahead + patt_size) (tail_size - patt_size)
          else if patt_size - 1 = 0 then Some (look_ahead - (patt_size - 1))
          else (case first_scan P look_ahead (patt_size - 1) of
              None \<Rightarrow> Some (look_ahead - (patt_size - 1))
            | Some remainder \<Rightarrow>
                if remainder > tail_size then Some fin
                else search_n_scan P patt_size fin (Comparing remainder) (look_ahead + remainder) (tail_size - remainder))
      | Comparing remainder \<Rightarrow>
          if P look_ahead then
            (case later_scan P look_ahead remainder of
               None \<Rightarrow> Some (look_ahead - (patt_size - 1))
             | Some open \<Rightarrow>
                 let remainder = open + (patt_size - remainder) in
                 if remainder > tail_size then Some fin
                 else search_n_scan P patt_size fin (Comparing remainder) (look_ahead + remainder) (tail_size - remainder))
          else if tail_size \<ge> patt_size then
            search_n_scan P patt_size fin Skipping (look_ahead + patt_size) (tail_size - patt_size)
          else Some fin)"

definition search_n_random :: "(nat \<Rightarrow> bool) \<Rightarrow> nat \<Rightarrow> nat \<Rightarrow> nat \<Rightarrow> nat option" where
  "search_n_random P first fin cnt =
     (if fin - first \<ge> cnt then search_n_scan P cnt fin Skipping (first + (cnt - 1)) (fin - first - cnt)
      else Some fin)"

text \<open>
  The overload for a value treats a count of one apart; the one with a predicate does not. Counts are ints:
  a negative one is no count.
\<close>

definition search_n_pred :: "category \<Rightarrow> ('a \<Rightarrow> bool) \<Rightarrow> (nat \<Rightarrow> 'a) \<Rightarrow> nat \<Rightarrow> nat \<Rightarrow> int \<Rightarrow> nat option" where
  "search_n_pred c pred at first fin cnt =
     (if cnt \<le> 0 then Some first
      else case c of
          Forward \<Rightarrow> Some (search_n_forward (\<lambda>i. pred (at i)) first fin (nat cnt))
        | RandomAccess \<Rightarrow> search_n_random (\<lambda>i. pred (at i)) first fin (nat cnt))"

definition std_search_n :: "category \<Rightarrow> (nat \<Rightarrow> 'a) \<Rightarrow> nat \<Rightarrow> nat \<Rightarrow> int \<Rightarrow> 'a \<Rightarrow> nat option" where
  "std_search_n c at first fin cnt val =
     (if cnt \<le> 0 then Some first
      else if cnt = 1 then Some (std_find c at first fin val)
      else search_n_pred c (\<lambda>x. x = val) at first fin cnt)"

section \<open>What is searched for\<close>

definition run_at :: "(nat \<Rightarrow> bool) \<Rightarrow> nat \<Rightarrow> nat \<Rightarrow> nat \<Rightarrow> bool" where
  "run_at P k l i \<longleftrightarrow> i + k \<le> l \<and> (\<forall>j. i \<le> j \<longrightarrow> j < i + k \<longrightarrow> P j)"

lemma run_at_blocked: "\<not> P q \<Longrightarrow> i \<le> q \<Longrightarrow> q < i + k \<Longrightarrow> \<not> run_at P k l i"
  by (auto simp: run_at_def)

lemma run_at_late: "l < i + k \<Longrightarrow> \<not> run_at P k l i"
  by (simp add: run_at_def)

lemma first_pos_run: "f \<le> i \<Longrightarrow> 0 < k \<Longrightarrow> run_at P k l i \<Longrightarrow> (\<And>j. f \<le> j \<Longrightarrow> j < i \<Longrightarrow> \<not> run_at P k l j) \<Longrightarrow> first_pos (run_at P k l) f l i"
  by (auto simp: first_pos_def run_at_def)

lemma first_pos_none: "f \<le> l \<Longrightarrow> (\<And>j. f \<le> j \<Longrightarrow> \<not> run_at P k l j) \<Longrightarrow> first_pos (run_at P k l) f l l"
  by (simp add: first_pos_def)

section \<open>The plain version\<close>

lemma search_n_run_end:
  "i \<le> l \<Longrightarrow> search_n_run P i n l = (i', n') \<Longrightarrow>
     i \<le> i' \<and> i' \<le> l \<and> i' - i + n' = n \<and> (\<forall>j. i \<le> j \<longrightarrow> j < i' \<longrightarrow> P j) \<and> (i' < l \<longrightarrow> n' \<noteq> 0 \<longrightarrow> \<not> P i')"
proof (induction P i n l rule: search_n_run.induct)
  case (1 P i n l)
  show ?case
  proof (cases "i < l \<and> n \<noteq> 0 \<and> P i")
    case True
    then have "search_n_run P (Suc i) (n - 1) l = (i', n')" using 1(3) by (subst (asm) search_n_run.simps) simp
    with 1(1) [OF True] True have IH: "Suc i \<le> i'" "i' \<le> l" "i' - Suc i + n' = n - 1" "\<And>j. Suc i \<le> j \<Longrightarrow> j < i' \<Longrightarrow> P j"
      "i' < l \<longrightarrow> n' \<noteq> 0 \<longrightarrow> \<not> P i'" by auto
    have "P j" if "i \<le> j" "j < i'" for j using IH(4) [of j] that True by (cases "j = i") auto
    then show ?thesis using IH True by auto
  next
    case False
    then have "i' = i" "n' = n" using 1(3) by (subst (asm) search_n_run.simps, auto)+
    then show ?thesis using False 1(2) by auto
  qed
qed

lemma search_n_loop_first:
  assumes "0 < k"
  shows "f \<le> a \<Longrightarrow> a \<le> l \<Longrightarrow> (a < l \<Longrightarrow> P a) \<Longrightarrow> (\<And>j. f \<le> j \<Longrightarrow> j < a \<Longrightarrow> \<not> run_at P k l j) \<Longrightarrow>
    first_pos (run_at P k l) f l (search_n_loop P a l k)"
proof (induction "l - a" arbitrary: a rule: less_induct)
  case less
  show ?case
  proof (cases "a < l")
    case True
    obtain i n where in': "search_n_run P (Suc a) (k - 1) l = (i, n)" by fastforce
    from search_n_run_end [OF _ in'] True
    have i: "Suc a \<le> i" "i \<le> l" "i - Suc a + n = k - 1" "\<And>j. Suc a \<le> j \<Longrightarrow> j < i \<Longrightarrow> P j" "i < l \<Longrightarrow> n \<noteq> 0 \<Longrightarrow> \<not> P i" by auto
    have run: "P j" if "a \<le> j" "j < i" for j using i(4) less.prems(3) True that by (cases "j = a") auto
    show ?thesis
    proof (cases "n = 0")
      case n: True
      then have "i = a + k" using i assms by simp
      then have "run_at P k l a" using run i(2) by (simp add: run_at_def)
      then have "first_pos (run_at P k l) f l a" using first_pos_run less.prems assms by blast
      then show ?thesis using True n in' by (subst search_n_loop.simps) simp
    next
      case n: False
      show ?thesis
      proof (cases "i < l")
        case il: True
        have "\<not> P i" using i(5) il n by simp
        let ?a = "seek P (Suc i) l"
        have a: "Suc i \<le> ?a" "?a \<le> l" "\<And>j. Suc i \<le> j \<Longrightarrow> j < ?a \<Longrightarrow> \<not> P j" "?a < l \<Longrightarrow> P ?a"
          using seek_spec [where f = "Suc i" and l = l and P = P] il by auto
        have none: "\<not> run_at P k l j" if "f \<le> j" "j < ?a" for j
        proof -
          consider "j < a" | "a \<le> j" "j \<le> i" | "i < j" by linarith
          then show ?thesis
          proof cases
            case 1
            then show ?thesis using less.prems(4) that by blast
          next
            case 2
            then show ?thesis using run_at_blocked [of P i j k l] \<open>\<not> P i\<close> i n assms by auto
          next
            case 3
            then show ?thesis using run_at_blocked [of P j j k l] a(3) [of j] that assms by auto
          qed
        qed
        have "first_pos (run_at P k l) f l (search_n_loop P ?a l k)"
          using a i(1) less.prems(1) True none by (intro less.hyps) auto
        then show ?thesis using True n in' il i(1) by (subst search_n_loop.simps) simp
      next
        case il: False
        then have "\<not> run_at P k l j" if "f \<le> j" for j
          using less.prems(4) [of j] that i n run_at_late [of l j k P] by (cases "j < a") auto
        then have "first_pos (run_at P k l) f l l" using first_pos_none less.prems(1,2) by (meson order_trans)
        then show ?thesis using True n in' il by (subst search_n_loop.simps) simp
      qed
    qed
  next
    case False
    then have "first_pos (run_at P k l) f l l"
      using less.prems assms run_at_late by (intro first_pos_none) (auto, metis add.commute leI less_add_same_cancel2 linorder_not_le order_le_less_trans)
    then show ?thesis using False less.prems(2) by (subst search_n_loop.simps) simp
  qed
qed

lemma search_n_forward_first:
  assumes "0 < k" "f \<le> l"
  shows "first_pos (run_at P k l) f l (search_n_forward P f l k)"
  unfolding search_n_forward_def
proof (rule search_n_loop_first [OF assms(1)])
  have s: "f \<le> seek P f l" "seek P f l \<le> l" "\<And>j. f \<le> j \<Longrightarrow> j < seek P f l \<Longrightarrow> \<not> P j" "seek P f l < l \<Longrightarrow> P (seek P f l)"
    using seek_spec [OF assms(2)] by auto
  then show "f \<le> seek P f l" "seek P f l \<le> l" "seek P f l < l \<Longrightarrow> P (seek P f l)" by auto
  show "\<not> run_at P k l j" if "f \<le> j" "j < seek P f l" for j
    using run_at_blocked [of P j j k l] s(3) [OF that] assms(1) by simp
qed

section \<open>The version that skips\<close>

lemma first_scan_end:
  assumes "0 < n" "n \<le> e"
  shows "case first_scan P e n of None \<Rightarrow> (\<forall>j. e - n \<le> j \<longrightarrow> j < e \<longrightarrow> P j)
    | Some r \<Rightarrow> 0 < r \<and> r \<le> n \<and> \<not> P (e + r - n - 1) \<and> (\<forall>j. e + r - n \<le> j \<longrightarrow> j < e \<longrightarrow> P j)"
  using assms
proof (induction n arbitrary: e)
  case (Suc n)
  show ?case
  proof (cases "P (e - 1)")
    case False
    then show ?thesis using Suc.prems by auto
  next
    case True
    have last: "P j" if "e - 1 \<le> j" "j < e" for j
    proof -
      have "j = e - 1" using that by linarith
      then show ?thesis using True by simp
    qed
    show ?thesis
    proof (cases "n = 0")
      case n: True
      then show ?thesis using True last by simp
    next
      case False
      have step: "first_scan P e (Suc n) = first_scan P (e - 1) n" using True False by simp
      from Suc.IH [of "e - 1"] False Suc.prems have IH: "case first_scan P (e - 1) n of None \<Rightarrow> (\<forall>j. e - 1 - n \<le> j \<longrightarrow> j < e - 1 \<longrightarrow> P j)
        | Some r \<Rightarrow> 0 < r \<and> r \<le> n \<and> \<not> P (e - 1 + r - n - 1) \<and> (\<forall>j. e - 1 + r - n \<le> j \<longrightarrow> j < e - 1 \<longrightarrow> P j)" by simp
      show ?thesis
      proof (cases "first_scan P (e - 1) n")
        case None
        have "P j" if "e - Suc n \<le> j" "j < e" for j using IH None that last [of j] by (cases "j < e - 1") auto
        then show ?thesis unfolding step None by simp
      next
        case (Some r)
        have "e - 1 + r - n = e + r - Suc n" using Suc.prems by simp
        then have IH': "0 < r" "r \<le> n" "\<not> P (e + r - Suc n - 1)" "\<And>j. e + r - Suc n \<le> j \<Longrightarrow> j < e - 1 \<Longrightarrow> P j"
          using IH Some by auto
        have "P j" if "e + r - Suc n \<le> j" "j < e" for j using IH'(4) [of j] that last [of j] by (cases "j < e - 1") auto
        then show ?thesis unfolding step Some using IH' by simp
      qed
    qed
  qed
qed simp

lemma later_scan_first: "0 < n \<Longrightarrow> later_scan P e n = (if n = 1 then None else first_scan P e (n - 1))"
proof (induction n arbitrary: e)
  case (Suc n)
  then show ?case by (cases n) auto
qed simp

text \<open>The candidate ends at \<open>e\<close>; no match starts before it, and its elements before the open ones fit.\<close>

definition candidate :: "(nat \<Rightarrow> bool) \<Rightarrow> nat \<Rightarrow> nat \<Rightarrow> nat \<Rightarrow> search_mode \<Rightarrow> nat \<Rightarrow> nat \<Rightarrow> bool" where
  "candidate P k f l mode e t \<longleftrightarrow> e < l \<and> f + k \<le> Suc e \<and> t = l - Suc e \<and>
     (\<forall>j. f \<le> j \<longrightarrow> j + k \<le> e \<longrightarrow> \<not> run_at P k l j) \<and>
     (case mode of Skipping \<Rightarrow> True
      | Comparing n \<Rightarrow> 0 < n \<and> n < k \<and> (\<forall>j. Suc e - k \<le> j \<longrightarrow> j \<le> e - n \<longrightarrow> P j))"

lemma candidate_match:
  assumes "candidate P k f l mode e t" "0 < k" "\<And>j. Suc e - k \<le> j \<Longrightarrow> j \<le> e \<Longrightarrow> P j"
  shows "first_pos (run_at P k l) f l (e - (k - 1))"
  using assms unfolding candidate_def by (intro first_pos_run) (auto simp: run_at_def)

lemma candidate_next:
  assumes "candidate P k f l mode e t" "\<not> P q" "Suc e - k \<le> q" "q \<le> e"
  shows "l \<le> q + k \<Longrightarrow> first_pos (run_at P k l) f l l"
    and "q + k < l \<Longrightarrow> candidate P k f l Skipping (q + k) (t - (q + k - e))"
    and "q + k < l \<Longrightarrow> q < e \<Longrightarrow> (\<And>j. q < j \<Longrightarrow> j \<le> e \<Longrightarrow> P j) \<Longrightarrow> candidate P k f l (Comparing (q + k - e)) (q + k) (t - (q + k - e))"
proof -
  have e: "e < l" "f + k \<le> Suc e" "t = l - Suc e" "\<And>j. f \<le> j \<Longrightarrow> j + k \<le> e \<Longrightarrow> \<not> run_at P k l j"
    using assms(1) by (auto simp: candidate_def)
  have none: "\<not> run_at P k l j" if "f \<le> j" "j \<le> q" for j
  proof (cases "j + k \<le> e")
    case False
    then show ?thesis using run_at_blocked [of P q j k l] assms(2) that assms(3,4) by linarith
  qed (use e(4) that in blast)
  show "first_pos (run_at P k l) f l l" if "l \<le> q + k"
  proof (rule first_pos_none)
    show "f \<le> l" using e by linarith
    show "\<not> run_at P k l j" if "f \<le> j" for j
      using none [OF that] run_at_late [of l j k P] \<open>l \<le> q + k\<close> by (cases "j \<le> q") auto
  qed
  show "candidate P k f l Skipping (q + k) (t - (q + k - e))" if "q + k < l"
    using that none e assms(3,4) by (auto simp: candidate_def)
  show "candidate P k f l (Comparing (q + k - e)) (q + k) (t - (q + k - e))"
    if "q + k < l" "q < e" "\<And>j. q < j \<Longrightarrow> j \<le> e \<Longrightarrow> P j"
    using that none e assms(3,4) by (auto simp: candidate_def)
qed

lemma search_n_scan_first:
  assumes "0 < k" "candidate P k f l mode e t"
  shows "\<exists>r. search_n_scan P k l mode e t = Some r \<and> first_pos (run_at P k l) f l r"
  using assms(2)
proof (induction t arbitrary: mode e rule: less_induct)
  case (less t)
  have e: "e < l" "f + k \<le> Suc e" "t = l - Suc e" using less.prems by (auto simp: candidate_def)
  note nxt = candidate_next [OF less.prems] and hit = candidate_match [OF less.prems assms(1)]
  have skip: "\<exists>r. (if t < k then Some l else search_n_scan P k l Skipping (e + k) (t - k)) = Some r \<and> first_pos (run_at P k l) f l r"
    if "\<not> P e"
  proof (cases "t < k")
    case True
    then have "l \<le> e + k" using e by linarith
    then show ?thesis using nxt(1) [OF that] True assms(1) e by simp
  next
    case False
    then have "e + k < l" using e assms(1) by linarith
    then have "candidate P k f l Skipping (e + k) (t - k)" using nxt(2) [OF that] assms(1) e by simp
    then show ?thesis using less.IH [of "t - k"] False assms(1) by simp
  qed
  have compare: "\<exists>r. (if n > t then Some l else search_n_scan P k l (Comparing n) (e + n) (t - n)) = Some r \<and> first_pos (run_at P k l) f l r"
    if "0 < n" "n < k" "\<not> P (e + n - k)" "\<And>j. e + n - k < j \<Longrightarrow> j \<le> e \<Longrightarrow> P j" for n
  proof -
    let ?q = "e + n - k"
    have q: "Suc e - k \<le> ?q" "?q < e" "?q + k = e + n" using that e by linarith+
    show ?thesis
    proof (cases "t < n")
      case True
      then have "l \<le> e + n" using e by linarith
      then show ?thesis using nxt(1) [OF that(3)] True q by simp
    next
      case False
      then have "e + n < l" using e that(1) by linarith
      then have "candidate P k f l (Comparing n) (e + n) (t - n)" using nxt(3) [OF that(3)] that(4) q by simp
      then show ?thesis using less.IH [of "t - n"] False that(1) by simp
    qed
  qed
  show ?case
  proof (cases mode)
    case Skipping
    consider "\<not> P e" | "P e" "k = 1" | "P e" "1 < k" using assms(1) by linarith
    then show ?thesis
    proof cases
      case 1
      then show ?thesis using skip [OF 1] Skipping by (subst search_n_scan.simps) simp
    next
      case 2
      then have "P j" if "Suc e - k \<le> j" "j \<le> e" for j using that by (cases "j = e") auto
      then show ?thesis using hit 2 Skipping by (subst search_n_scan.simps) simp
    next
      case 3
      have scan: "case first_scan P e (k - 1) of None \<Rightarrow> (\<forall>j. e - (k - 1) \<le> j \<longrightarrow> j < e \<longrightarrow> P j)
          | Some r \<Rightarrow> 0 < r \<and> r \<le> k - 1 \<and> \<not> P (e + r - (k - 1) - 1) \<and> (\<forall>j. e + r - (k - 1) \<le> j \<longrightarrow> j < e \<longrightarrow> P j)"
        using first_scan_end [of "k - 1" e P] 3 e by simp
      show ?thesis
      proof (cases "first_scan P e (k - 1)")
        case None
        then have "P j" if "Suc e - k \<le> j" "j \<le> e" for j using scan that 3 by (cases "j = e") auto
        then show ?thesis using hit 3 Skipping None by (subst search_n_scan.simps) simp
      next
        case (Some r)
        have r: "0 < r" "r < k" "\<not> P (e + r - k)" "\<And>j. e + r - k < j \<Longrightarrow> j < e \<Longrightarrow> P j" using scan Some 3 e by auto
        have "P j" if "e + r - k < j" "j \<le> e" for j using r(4) [OF that(1)] that 3(1) by (cases "j = e") auto
        from compare [OF r(1-3) this] show ?thesis using 3 Skipping Some by (subst search_n_scan.simps) simp
      qed
    qed
  next
    case (Comparing n)
    then have n: "0 < n" "n < k" and known: "\<And>j. Suc e - k \<le> j \<Longrightarrow> j \<le> e - n \<Longrightarrow> P j"
      using less.prems by (auto simp: candidate_def)
    show ?thesis
    proof (cases "P e")
      case False
      then show ?thesis using skip [OF False] Comparing by (subst search_n_scan.simps) (cases "t < k"; simp)
    next
      case True
      have scan: "case later_scan P e n of None \<Rightarrow> (\<forall>j. e - n < j \<longrightarrow> j < e \<longrightarrow> P j)
          | Some r \<Rightarrow> 0 < r \<and> r < n \<and> \<not> P (e + r - n) \<and> (\<forall>j. e + r - n < j \<longrightarrow> j < e \<longrightarrow> P j)"
      proof (cases "n = 1")
        case False
        then have le: "0 < n - 1" "n - 1 \<le> e" "n \<le> e" using n e by linarith+
        show ?thesis
          using later_scan_first [OF n(1), of P e] first_scan_end [OF le(1,2), of P] False le(3) n(1)
          by (auto split: option.splits)
      qed (use later_scan_first [OF n(1), of P e] in auto)
      show ?thesis
      proof (cases "later_scan P e n")
        case None
        have "P j" if jb: "Suc e - k \<le> j" "j \<le> e" for j
        proof -
          consider "j = e" | "j \<le> e - n" | "e - n < j" "j < e" using jb by (meson le_neq_implies_less not_le)
          then show ?thesis using True known [OF jb(1)] scan None by cases auto
        qed
        then show ?thesis using hit True Comparing None by (subst search_n_scan.simps) simp
      next
        case (Some r)
        define m where "m = r + (k - n)"
        have r: "0 < r" "r < n" "\<not> P (e + r - n)" "\<And>j. e + r - n < j \<Longrightarrow> j < e \<Longrightarrow> P j" using scan Some by auto
        have m: "0 < m" "m < k" "e + m - k = e + r - n" using r(1,2) n e unfolding m_def by linarith+
        have "P j" if "e + m - k < j" "j \<le> e" for j using r(4) [of j] that True unfolding m(3) by (cases "j = e") auto
        moreover have "\<not> P (e + m - k)" unfolding m(3) by (rule r(3))
        ultimately have "\<exists>r. (if m > t then Some l else search_n_scan P k l (Comparing m) (e + m) (t - m)) = Some r \<and> first_pos (run_at P k l) f l r"
          using compare [OF m(1,2)] by blast
        then show ?thesis
          using True Comparing Some by (subst search_n_scan.simps) (simp add: Let_def flip: m_def)
      qed
    qed
  qed
qed

lemma search_n_random_first:
  assumes "0 < k" "f \<le> l"
  shows "\<exists>r. search_n_random P f l k = Some r \<and> first_pos (run_at P k l) f l r"
proof (cases "k \<le> l - f")
  case True
  then have "candidate P k f l Skipping (f + (k - 1)) (l - f - k)" using assms by (auto simp: candidate_def)
  then show ?thesis using search_n_scan_first [OF assms(1)] True by (simp add: search_n_random_def)
next
  case False
  then have "\<not> run_at P k l j" if "f \<le> j" for j using run_at_late [of l j k P] that by linarith
  then show ?thesis using False first_pos_none [OF assms(2)] by (simp add: search_n_random_def)
qed

text \<open>
  C39. \<^verbatim>\<open>search_n\<close> ends and returns the first position where the predicate holds of the given positive number of
  consecutive elements, the end if there is none; the plain version and the one that skips,
  for random access iterators, return the same.
\<close>

theorem search_n_first_run:
  assumes "0 < cnt" "first \<le> fin"
  shows "\<exists>r. search_n_pred c pred at first fin cnt = Some r \<and> first_pos (run_at (\<lambda>i. pred (at i)) (nat cnt) fin) first fin r"
  using assms search_n_forward_first [of "nat cnt" first fin "\<lambda>i. pred (at i)"] search_n_random_first [of "nat cnt" first fin "\<lambda>i. pred (at i)"]
  by (cases c) (simp_all add: search_n_pred_def)

theorem search_n_first_run_witness:
  "\<exists>r. search_n_pred RandomAccess (\<lambda>x. x = 5) ((!) [5, 1, 5, 5, 5, 2 :: nat]) 0 6 2 = Some r \<and>
    first_pos (run_at (\<lambda>i. [5, 1, 5, 5, 5, 2 :: nat] ! i = 5) (nat 2) 6) 0 6 r"
  by (rule search_n_first_run) simp_all

end
