(* ===== verification/Stl_Numeric.thy ===== *)
theory Stl_Numeric
  imports Stl_Merge
begin

text \<open>
  The numeric algorithms (\<^verbatim>\<open>stl/_numeric.h\<close>, \<^verbatim>\<open>stl/_numeric.c\<close>): sums, products, prefix sums and differences, powers,
  counting up. Numbers are elements of the type the algorithm is used at; that an operation
  is associative, or has an inverse, is a hypothesis where it matters.
\<close>

section \<open>The code\<close>

definition std_accumulate :: "('s \<Rightarrow> 'a \<Rightarrow> 's) \<Rightarrow> (nat \<Rightarrow> 'a) \<Rightarrow> nat \<Rightarrow> nat \<Rightarrow> 's \<Rightarrow> 's" where
  "std_accumulate binary_op at first fin init = fold (\<lambda>i acc. binary_op acc (at i)) [first..<fin] init"

definition inner_product ::
    "('s \<Rightarrow> 'c \<Rightarrow> 's) \<Rightarrow> ('a \<Rightarrow> 'b \<Rightarrow> 'c) \<Rightarrow> (nat \<Rightarrow> 'a) \<Rightarrow> nat \<Rightarrow> nat \<Rightarrow> (nat \<Rightarrow> 'b) \<Rightarrow> nat \<Rightarrow> 's \<Rightarrow> 's" where
  "inner_product binary_op1 binary_op2 at1 first1 last1 at2 first2 init =
     snd (fold (\<lambda>i (j, acc). (Suc j, binary_op1 acc (binary_op2 (at1 i) (at2 j)))) [first1..<last1] (first2, init))"

definition partial_sum :: "('a \<Rightarrow> 'a \<Rightarrow> 'a) \<Rightarrow> nat \<Rightarrow> nat \<Rightarrow> nat \<Rightarrow> 'a list \<Rightarrow> nat \<times> 'a list" where
  "partial_sum binary_op first fin result mem =
     (if first = fin then (result, mem)
      else let (r, m, _) =
             fold (\<lambda>i (r, m, val). let val = binary_op val (m ! i) in (Suc r, m[Suc r := val], val))
               [Suc first..<fin] (result, mem[result := mem ! first], mem ! first)
           in (Suc r, m))"

definition adjacent_difference :: "('a \<Rightarrow> 'a \<Rightarrow> 'a) \<Rightarrow> nat \<Rightarrow> nat \<Rightarrow> nat \<Rightarrow> 'a list \<Rightarrow> nat \<times> 'a list" where
  "adjacent_difference binary_op first fin result mem =
     (if first = fin then (result, mem)
      else let (r, m, _) =
             fold (\<lambda>i (r, m, val). let tmp = m ! i in (Suc r, m[Suc r := binary_op tmp val], tmp))
               [Suc first..<fin] (result, mem[result := mem ! first], mem ! first)
           in (Suc r, m))"

function power_strip :: "('a \<Rightarrow> 'a \<Rightarrow> 'a) \<Rightarrow> 'a \<Rightarrow> nat \<Rightarrow> 'a \<times> nat" where
  "power_strip opr x n = (if n \<noteq> 0 \<and> even n then power_strip opr (opr x x) (drop_bit 1 n) else (x, n))"
  by pat_completeness auto
termination
  by (relation "measure (\<lambda>(opr, x, n). n)") (auto simp: drop_bit_eq_div)

function power_loop :: "('a \<Rightarrow> 'a \<Rightarrow> 'a) \<Rightarrow> 'a \<Rightarrow> nat \<Rightarrow> 'a \<Rightarrow> 'a" where
  "power_loop opr x n result =
     (if n \<noteq> 0 then
        let x = opr x x;
            result = (if odd n then opr result x else result)
        in power_loop opr x (drop_bit 1 n) result
      else result)"
  by pat_completeness auto
termination
  by (relation "measure (\<lambda>(opr, x, n, result). n)") (auto simp: drop_bit_eq_div)

declare power_strip.simps [simp del] power_loop.simps [simp del]

definition std_power :: "('a \<Rightarrow> 'a \<Rightarrow> 'a) \<Rightarrow> 'a \<Rightarrow> 'a \<Rightarrow> nat \<Rightarrow> 'a" where
  "std_power opr identity_element x n =
     (if n = 0 then identity_element
      else let (x, n) = power_strip opr x n in power_loop opr x (drop_bit 1 n) x)"

definition iota :: "('a \<Rightarrow> 'a) \<Rightarrow> nat \<Rightarrow> nat \<Rightarrow> 'a \<Rightarrow> 'a list \<Rightarrow> 'a list" where
  "iota increment first fin val mem =
     fst (fold (\<lambda>i (m, val). (m[i := val], increment val)) [first..<fin] (mem, val))"

section \<open>Loops that carry a value\<close>

fun mapstate :: "('s \<Rightarrow> 'a \<Rightarrow> 'b \<times> 's) \<Rightarrow> 's \<Rightarrow> 'a list \<Rightarrow> 'b list \<times> 's" where
  "mapstate h v [] = ([], v)"
| "mapstate h v (x # xs) = (let (y, v') = h v x; (ys, w) = mapstate h v' xs in (y # ys, w))"

lemma mapstate_length [simp]: "length (fst (mapstate h v xs)) = length xs"
  by (induction xs arbitrary: v) (auto simp: split_beta Let_def)

lemma fold_emit_state:
  assumes "r < k" "k \<le> l" "l \<le> length mem"
  shows "fold (\<lambda>i (r, m, v). (Suc r, m[Suc r := fst (h v (m ! i))], snd (h v (m ! i)))) [k..<l] (r, mem, v) =
    (let (ys, w) = mapstate h v (segment mem k l) in (r + (l - k), store (Suc r) ys mem, w))"
  using assms
proof (induction "l - k" arbitrary: r k mem v)
  case (Suc n)
  then have lt: "k < l" by simp
  let ?y = "fst (h v (mem ! k))"
  have seg: "segment mem k l = mem ! k # segment mem (Suc k) l" using lt Suc.prems by (simp add: segment_Cons)
  have same: "segment (mem[Suc r := ?y]) (Suc k) l = segment mem (Suc k) l"
    using Suc.prems by (intro segment_update_apart) simp
  have st: "store (Suc (Suc r)) ys (mem[Suc r := ?y]) = store (Suc r) (?y # ys) mem" for ys
    using Suc.prems lt by (intro store_update) simp
  show ?case
    using Suc.hyps(1) [of "Suc k" "Suc r" "mem[Suc r := ?y]" "snd (h v (mem ! k))"] Suc.hyps(2) Suc.prems lt
    by (simp add: upt_conv_Cons seg same st split_beta Let_def)
qed simp

definition prefix_sums :: "('a \<Rightarrow> 'a \<Rightarrow> 'a) \<Rightarrow> 'a list \<Rightarrow> 'a list" where
  "prefix_sums opr xs = (case xs of [] \<Rightarrow> [] | x # xs \<Rightarrow> x # fst (mapstate (\<lambda>v x. (opr v x, opr v x)) x xs))"

definition differences :: "('a \<Rightarrow> 'a \<Rightarrow> 'a) \<Rightarrow> 'a list \<Rightarrow> 'a list" where
  "differences opr xs = (case xs of [] \<Rightarrow> [] | x # xs \<Rightarrow> x # fst (mapstate (\<lambda>v x. (opr x v, x)) x xs))"

lemma sums_length [simp]: "length (prefix_sums opr xs) = length xs" "length (differences opr xs) = length xs"
  by (simp_all add: prefix_sums_def differences_def split: list.split)

lemma partial_sum_sums:
  assumes "result \<le> first" "first \<le> fin" "fin \<le> length mem"
  shows "partial_sum opr first fin result mem =
    (result + (fin - first), store result (prefix_sums opr (segment mem first fin)) mem)"
proof (cases "first = fin")
  case False
  let ?m = "mem[result := mem ! first]" and ?h = "\<lambda>v x. (opr v x, opr v x)"
  have seg: "segment mem first fin = mem ! first # segment mem (Suc first) fin" using False assms by (simp add: segment_Cons)
  have same: "segment ?m (Suc first) fin = segment mem (Suc first) fin" using assms by (intro segment_update_apart) simp
  have "(\<lambda>i (r, m, v). (Suc r, m[Suc r := fst (?h v (m ! i))], snd (?h v (m ! i)))) =
      (\<lambda>i (r, m, val). let val = opr val (m ! i) in (Suc r, m[Suc r := val], val))"
    by (auto simp: fun_eq_iff Let_def)
  then show ?thesis
    using fold_emit_state [of result "Suc first" fin ?m ?h "mem ! first"] False assms
    by (simp add: partial_sum_def prefix_sums_def seg same store_update split_beta Let_def Suc_diff_Suc)
qed (simp add: partial_sum_def prefix_sums_def)

lemma adjacent_difference_differences:
  assumes "result \<le> first" "first \<le> fin" "fin \<le> length mem"
  shows "adjacent_difference opr first fin result mem =
    (result + (fin - first), store result (differences opr (segment mem first fin)) mem)"
proof (cases "first = fin")
  case False
  let ?m = "mem[result := mem ! first]" and ?h = "\<lambda>v x. (opr x v, x)"
  have seg: "segment mem first fin = mem ! first # segment mem (Suc first) fin" using False assms by (simp add: segment_Cons)
  have same: "segment ?m (Suc first) fin = segment mem (Suc first) fin" using assms by (intro segment_update_apart) simp
  have "(\<lambda>i (r, m, v). (Suc r, m[Suc r := fst (?h v (m ! i))], snd (?h v (m ! i)))) =
      (\<lambda>i (r, m, val). let tmp = m ! i in (Suc r, m[Suc r := opr tmp val], tmp))"
    by (auto simp: fun_eq_iff Let_def)
  then show ?thesis
    using fold_emit_state [of result "Suc first" fin ?m ?h "mem ! first"] False assms
    by (simp add: adjacent_difference_def differences_def seg same store_update split_beta Let_def Suc_diff_Suc)
qed (simp add: adjacent_difference_def differences_def)

lemma differences_of_sums:
  fixes xs :: "'a :: ab_group_add list"
  shows "differences (-) (prefix_sums (+) xs) = xs" "prefix_sums (+) (differences (-) xs) = xs"
proof -
  have "fst (mapstate (\<lambda>v x. (x - v, x)) v (fst (mapstate (\<lambda>v x. (v + x, v + x)) v xs))) = xs" for v :: 'a and xs
    by (induction xs arbitrary: v) (simp_all add: split_beta Let_def)
  then show "differences (-) (prefix_sums (+) xs) = xs"
    by (simp add: differences_def prefix_sums_def split: list.split)
  have "fst (mapstate (\<lambda>v x. (v + x, v + x)) v (fst (mapstate (\<lambda>v x. (x - v, x)) v xs))) = xs" for v :: 'a and xs
    by (induction xs arbitrary: v) (simp_all add: split_beta Let_def)
  then show "prefix_sums (+) (differences (-) xs) = xs"
    by (simp add: differences_def prefix_sums_def split: list.split)
qed

text \<open>In place, the differences of the prefix sums are the original range.\<close>

theorem difference_undoes_sum:
  fixes mem :: "'a :: ab_group_add list"
  assumes "first \<le> fin" "fin \<le> length mem"
  shows "snd (adjacent_difference (-) first fin first (snd (partial_sum (+) first fin first mem))) = mem"
proof -
  let ?ys = "prefix_sums (+) (segment mem first fin)"
  have len: "first + length ?ys = fin" using assms by simp
  have "segment (store first ?ys mem) first fin = ?ys" using segment_store [of first ?ys mem] len assms by simp
  then have "snd (adjacent_difference (-) first fin first (store first ?ys mem)) =
      store first (segment mem first fin) (store first ?ys mem)"
    using assms len by (subst adjacent_difference_differences) (simp_all add: differences_of_sums)
  then show ?thesis
    using assms len store_segment [of first fin mem] by (subst partial_sum_sums) (simp_all add: store_again)
qed

lemma accumulate_foldl: "l \<le> length mem \<Longrightarrow> std_accumulate opr ((!) mem) f l v = foldl opr v (segment mem f l)"
proof -
  assume "l \<le> length mem"
  then have "segment mem f l = map ((!) mem) [f..<l]" by (intro nth_equalityI) simp_all
  then show ?thesis by (simp add: std_accumulate_def foldl_conv_fold fold_map comp_def)
qed

section \<open>Powers\<close>

text \<open>The \<open>n\<close>-fold product, for \<open>n > 0\<close>.\<close>

fun times :: "('a \<Rightarrow> 'a \<Rightarrow> 'a) \<Rightarrow> 'a \<Rightarrow> nat \<Rightarrow> 'a" where
  "times opr x 0 = x"
| "times opr x (Suc n) = opr (times opr x n) x"

lemma times_add:
  assumes "\<And>a b c. opr (opr a b) c = opr a (opr b c)"
  shows "opr (times opr x m) (times opr x n) = times opr x (Suc (m + n))"
  by (induction n) (simp_all add: assms [symmetric])

lemma times_double:
  assumes "\<And>a b c. opr (opr a b) c = opr a (opr b c)"
  shows "times opr (opr x x) n = times opr x (Suc (2 * n))"
  by (induction n) (simp_all add: assms)

lemma power_strip_times:
  assumes "\<And>a b c. opr (opr a b) c = opr a (opr b c)" "n \<noteq> 0"
  shows "case power_strip opr x n of (y, m) \<Rightarrow> odd m \<and> times opr y (m - 1) = times opr x (n - 1)"
  using assms(2)
proof (induction n arbitrary: x rule: less_induct)
  case (less n)
  show ?case
  proof (cases "even n")
    case True
    then obtain k where k: "n = 2 * k" "0 < k" using less.prems by (auto elim: evenE)
    then have "Suc (2 * (k - 1)) = n - 1" by simp
    then show ?thesis
      using less.IH [of k "opr x x"] k times_double [OF assms(1), of x "k - 1"]
      by (subst power_strip.simps) (auto simp: drop_bit_eq_div)
  next
    case False
    then show ?thesis by (subst power_strip.simps) simp
  qed
qed

lemma power_loop_times:
  assumes "\<And>a b c. opr (opr a b) c = opr a (opr b c)"
  shows "power_loop opr (times opr x p) n r = (if n = 0 then r else opr r (times opr x (2 * n * Suc p - 1)))"
proof (induction n arbitrary: p r rule: less_induct)
  case (less n)
  show ?case
  proof (cases "n = 0")
    case False
    define k where "k = n div 2"
    have k: "k < n" "drop_bit 1 n = k" using False by (simp_all add: k_def drop_bit_eq_div)
    have dbl: "opr (times opr x p) (times opr x p) = times opr x (Suc (p + p))" by (rule times_add [OF assms])
    let ?r = "if odd n then opr r (times opr x (Suc (p + p))) else r"
    have step: "power_loop opr (times opr x p) n r = power_loop opr (times opr x (Suc (p + p))) k ?r"
      using False k by (subst power_loop.simps) (simp add: dbl Let_def)
    have IH: "power_loop opr (times opr x (Suc (p + p))) k ?r =
        (if k = 0 then ?r else opr ?r (times opr x (2 * k * Suc (Suc (p + p)) - 1)))" by (rule less.IH [OF k(1)])
    show ?thesis
    proof (cases "even n")
      case True
      then have n: "n = 2 * k" "k \<noteq> 0" using False by (auto simp: k_def)
      then show ?thesis unfolding step IH by (simp add: algebra_simps)
    next
      case odd: False
      then have n: "n = Suc (2 * k)" by (auto simp: k_def)
      show ?thesis
      proof (cases "k = 0")
        case True
        then show ?thesis unfolding step IH using n odd by (simp add: mult_2)
      next
        case k0: False
        have "Suc (Suc (p + p) + (2 * k * Suc (Suc (p + p)) - 1)) = 2 * n * Suc p - 1"
          using k0 unfolding n by (cases k) (simp_all add: algebra_simps)
        then show ?thesis
          unfolding step IH using odd k0 False times_add [OF assms, of x "Suc (p + p)" "2 * k * Suc (Suc (p + p)) - 1"]
          by (simp add: assms)
      qed
    qed
  qed (subst power_loop.simps, simp)
qed

text \<open>The number of multiplications is that of the bits; the product is that of \<open>n\<close> factors, in any associative structure.\<close>

theorem power_times:
  assumes "\<And>a b c. opr (opr a b) c = opr a (opr b c)"
  shows "std_power opr e x 0 = e" "n \<noteq> 0 \<Longrightarrow> std_power opr e x n = times opr x (n - 1)"
proof -
  show "std_power opr e x 0 = e" by (simp add: std_power_def)
  assume "n \<noteq> 0"
  obtain y m where strip: "power_strip opr x n = (y, m)" by fastforce
  with power_strip_times [OF assms \<open>n \<noteq> 0\<close>, where x = x] have m: "odd m" "times opr y (m - 1) = times opr x (n - 1)" by auto
  obtain k where k: "m = Suc (2 * k)" using m(1) by (auto elim: oddE)
  have "power_loop opr y k y = times opr y (m - 1)"
    using power_loop_times [OF assms, of y 0 k y] times_add [OF assms, of y 0 "2 * k - 1"] k by (cases k) simp_all
  then show "std_power opr e x n = times opr x (n - 1)"
    using \<open>n \<noteq> 0\<close> strip m k by (simp add: std_power_def drop_bit_eq_div)
qed

lemma iota_counts:
  assumes "f \<le> l" "l \<le> length mem"
  shows "iota inc f l v mem = store f (map (\<lambda>k. (inc ^^ k) v) [0..<l - f]) mem"
proof -
  have "fold (\<lambda>i (m, val). (m[i := val], inc val)) [f..<l] (mem, v) =
      (store f (map (\<lambda>k. (inc ^^ k) v) [0..<l - f]) mem, (inc ^^ (l - f)) v)"
    using assms
  proof (induction l rule: dec_induct)
    case (step l)
    then have "Suc l - f = Suc (l - f)" by simp
    then show ?case
      using step store_update(2) [of f "map (\<lambda>k. (inc ^^ k) v) [0..<l - f]" mem "(inc ^^ (l - f)) v"]
      by (simp add: store_def list_update_append Cons_nth_drop_Suc [symmetric])
  qed simp
  then show ?thesis by (simp add: iota_def)
qed

end
