(* ===== verification/Stl_Random.thy ===== *)
theory Stl_Random
  imports Stl_Merge "HOL-Library.Sublist"
begin

text \<open>
  Random shuffling and sampling (\<^verbatim>\<open>stl/_algo.c\<close>). A generator is a function of a bound and its own
  state; \<^verbatim>\<open>lrand48\<close> is a parameter. The theorems hold for every generator that stays below its bound: they say
  what the algorithms do to the elements, not how likely the outcomes are.
\<close>

section \<open>The code\<close>

definition random_number :: "('g \<Rightarrow> nat \<times> 'g) \<Rightarrow> nat \<Rightarrow> 'g \<Rightarrow> nat \<times> 'g" where
  "random_number lrand48 n g = (let (r, g) = lrand48 g in (r mod n, g))"

definition random_shuffle :: "(nat \<Rightarrow> 'g \<Rightarrow> nat \<times> 'g) \<Rightarrow> nat \<Rightarrow> nat \<Rightarrow> 'a list \<Rightarrow> 'g \<Rightarrow> 'a list \<times> 'g" where
  "random_shuffle rand first fin mem g =
     (if first = fin then (mem, g)
      else fold (\<lambda>i (m, g). let (k, g) = rand (i - first + 1) g in (iter_swap i (first + k) m, g)) [Suc first..<fin] (mem, g))"

text \<open>\<^verbatim>\<open>random_sample_n\<close> reads the range once; what it writes through the output iterator is a list.\<close>

fun sample_n_loop :: "(nat \<Rightarrow> 'g \<Rightarrow> nat \<times> 'g) \<Rightarrow> 'a list \<Rightarrow> nat \<Rightarrow> nat \<Rightarrow> 'g \<Rightarrow> ('a list \<times> 'g) result" where
  "sample_n_loop rand xs remaining m g =
     (if m > 0 then
        let (k, g) = rand remaining g in
        case xs of
          [] \<Rightarrow> Inl IndexOutOfRange
        | x # xs \<Rightarrow>
            if k < m then andThen (sample_n_loop rand xs (remaining - 1) (m - 1) g) (\<lambda>(out, g). Inr (x # out, g))
            else sample_n_loop rand xs (remaining - 1) m g
      else Inr ([], g))"

declare sample_n_loop.simps [simp del]

definition random_sample_n :: "(nat \<Rightarrow> 'g \<Rightarrow> nat \<times> 'g) \<Rightarrow> 'a list \<Rightarrow> nat \<Rightarrow> 'g \<Rightarrow> ('a list \<times> 'g) result" where
  "random_sample_n rand xs n g =
     (let remaining = length xs; m = std_min (<) n remaining in sample_n_loop rand xs remaining m g)"

fun sample_fill :: "'a list \<Rightarrow> nat \<Rightarrow> nat \<Rightarrow> 'a list \<Rightarrow> 'a list \<times> nat \<times> 'a list" where
  "sample_fill [] n m out = ([], m, out)"
| "sample_fill (x # xs) n m out = (if m < n then sample_fill xs n (Suc m) (out[m := x]) else (x # xs, m, out))"

fun sample_rest :: "(nat \<Rightarrow> 'g \<Rightarrow> nat \<times> 'g) \<Rightarrow> 'a list \<Rightarrow> nat \<Rightarrow> nat \<Rightarrow> 'a list \<Rightarrow> 'g \<Rightarrow> 'a list \<times> 'g" where
  "sample_rest rand [] n t out g = (out, g)"
| "sample_rest rand (x # xs) n t out g =
     (let t = Suc t; (k, g) = rand t g; out = (if k < n then out[k := x] else out)
      in sample_rest rand xs n t out g)"

text \<open>The output range is \<open>out\<close>; the number of cells filled and the range are returned.\<close>

definition random_sample :: "(nat \<Rightarrow> 'g \<Rightarrow> nat \<times> 'g) \<Rightarrow> 'a list \<Rightarrow> 'a list \<Rightarrow> 'g \<Rightarrow> nat \<times> 'a list \<times> 'g" where
  "random_sample rand xs out g =
     (let n = length out; (rest, m, out) = sample_fill xs n 0 out; (out, g) = sample_rest rand rest n n out g
      in (m, out, g))"

section \<open>What they do to the elements\<close>

definition bounded :: "(nat \<Rightarrow> 'g \<Rightarrow> nat \<times> 'g) \<Rightarrow> bool" where
  "bounded rand \<longleftrightarrow> (\<forall>n g. 0 < n \<longrightarrow> fst (rand n g) < n)"

lemma random_number_bounded: "bounded (random_number lrand48)"
  by (simp add: bounded_def random_number_def split_beta Let_def)

lemma random_shuffle_shuffled:
  assumes "bounded rand" "f \<le> l" "l \<le> length mem"
  shows "shuffled f l mem (fst (random_shuffle rand f l mem g))"
proof -
  have "shuffled f l mem (fst (fold (\<lambda>i (m, g). let (k, g) = rand (i - f + 1) g in (iter_swap i (f + k) m, g)) is (mem, g)))"
    if "\<forall>i \<in> set is. f \<le> i \<and> i < l" for "is"
    using that
  proof (induction "is" rule: rev_induct)
    case (snoc i "is")
    obtain m1 g1 where r: "fold (\<lambda>i (m, g). let (k, g) = rand (i - f + 1) g in (iter_swap i (f + k) m, g)) is (mem, g) = (m1, g1)"
      by fastforce
    have IH: "shuffled f l mem m1" using snoc r by simp
    have "fst (rand (Suc (i - f)) g1) < Suc (i - f)" using assms(1) by (simp add: bounded_def)
    then have "shuffled f l m1 (iter_swap i (f + fst (rand (Suc (i - f)) g1)) m1)"
      using snoc.prems assms(3) shuffled_length [OF IH] by (intro iter_swap_shuffled) auto
    from shuffled_trans [OF IH this] show ?case
      by (cases "rand (Suc (i - f)) g1") (simp add: r [simplified])
  qed simp
  then show ?thesis by (simp add: random_shuffle_def)
qed

lemma sample_n_loop_subseq:
  assumes "bounded rand" "m \<le> length xs"
  shows "\<exists>out g'. sample_n_loop rand xs (length xs) m g = Inr (out, g') \<and> subseq out xs \<and> length out = m"
  using assms(2)
proof (induction xs arbitrary: m g)
  case Nil
  then show ?case by (subst sample_n_loop.simps) simp
next
  case (Cons x xs)
  obtain k g' where r: "rand (Suc (length xs)) g = (k, g')" by fastforce
  have k: "k < Suc (length xs)" using assms(1) r by (metis bounded_def fst_conv zero_less_Suc)
  show ?case
  proof (cases "k < m")
    case True
    have "m - 1 \<le> length xs" using Cons.prems by simp
    then obtain out g'' where "sample_n_loop rand xs (length xs) (m - 1) g' = Inr (out, g'')" "subseq out xs" "length out = m - 1"
      using Cons.IH [of "m - 1" g'] by auto
    then show ?thesis using True r by (subst sample_n_loop.simps) auto
  next
    case False
    then have "m \<le> length xs" using k by linarith
    from Cons.IH [OF this, of g'] show ?thesis
    proof (cases "m = 0")
      case True
      then show ?thesis by (subst sample_n_loop.simps) simp
    next
      case m: False
      from Cons.IH [OF \<open>m \<le> length xs\<close>, of g'] show ?thesis using False m r by (subst sample_n_loop.simps) auto
    qed
  qed
qed

text \<open>
  \<^verbatim>\<open>random_sample_n\<close> never runs past its range: it ends with exactly as many elements as asked for (or as there
  are), at different positions, in their order.
\<close>

theorem random_sample_n_subseq:
  assumes "bounded rand"
  shows "\<exists>out g'. random_sample_n rand xs n g = Inr (out, g') \<and> subseq out xs \<and> length out = min n (length xs)"
  using sample_n_loop_subseq [OF assms, of "min n (length xs)" xs g]
  by (auto simp: random_sample_n_def std_min_def min_def Let_def)

lemma sample_fill_fills:
  assumes "m \<le> n" "n = length out"
  shows "sample_fill xs n m out = (drop (n - m) xs, min n (m + length xs), store m (take (n - m) xs) out)"
  using assms
proof (induction xs arbitrary: m out)
  case (Cons x xs)
  show ?case
  proof (cases "m < n")
    case True
    then show ?thesis
      using Cons.IH [of "Suc m" "out[m := x]"] Cons.prems by (simp add: store_update take_Cons' drop_Cons')
  qed (use Cons.prems in simp)
qed (simp add: min_def)

lemma sample_rest_subset:
  assumes "mset out \<subseteq># M" "n = length out"
  shows "length (fst (sample_rest rand xs n t out g)) = n \<and> mset (fst (sample_rest rand xs n t out g)) \<subseteq># M + mset xs"
  using assms
proof (induction xs arbitrary: t out g M)
  case (Cons x xs)
  obtain k g' where r: "rand (Suc t) g = (k, g')" by fastforce
  let ?out = "if k < n then out[k := x] else out"
  have "mset (out[k := x]) \<subseteq># add_mset x M" if "k < length out"
    using that Cons.prems(1) by (simp add: mset_update subset_eq_diff_conv [of "mset out" "{#out ! k#}" M, simplified]
        subset_mset.order_trans [of _ M "add_mset (out ! k) M"])
  moreover have "mset out \<subseteq># add_mset x M" using Cons.prems(1) by (rule subset_mset.order_trans) simp
  ultimately have "mset ?out \<subseteq># add_mset x M" using Cons.prems(2) by simp
  from Cons.IH [OF this, of "Suc t" g'] show ?case using Cons.prems(2) by (simp add: r Let_def)
qed simp

theorem random_sample_subset:
  "case random_sample rand xs out g of (m, out', g') \<Rightarrow>
     m = min (length out) (length xs) \<and> length out' = length out \<and> mset (take m out') \<subseteq># mset xs"
proof -
  let ?n = "length out"
  have fill: "sample_fill xs ?n 0 out = (drop ?n xs, min ?n (length xs), store 0 (take ?n xs) out)"
    using sample_fill_fills [of 0 ?n out xs] by simp
  show ?thesis
  proof (cases "length xs \<le> ?n")
    case True
    then show ?thesis by (simp add: random_sample_def fill store_def min_def Let_def)
  next
    case False
    then have full: "store 0 (take ?n xs) out = take ?n xs" by (simp add: store_def)
    have "mset (take ?n xs) + mset (drop ?n xs) = mset xs" by (metis append_take_drop_id mset_append)
    then show ?thesis
      using sample_rest_subset [of "take ?n xs" "mset (take ?n xs)" ?n rand "drop ?n xs" ?n g] False
      by (auto simp: random_sample_def fill full split_beta Let_def)
  qed
qed

end
