(* ===== verification/Spec2Isabelle.thy ===== *)
theory Spec2Isabelle
  imports Pinatrace Samples Msi_Access Lru_List Stl_Partition Stl_Sets Stl_Stable Stl_List_Spec Stl_Queue Stl_Priority_Queue
    Stl_Permutation Stl_Search_N Stl_Numeric Stl_Random
begin

text \<open>
  A verification library for a simulator of the MSI snooping cache-coherence protocol. The program
  (\<^verbatim>\<open>src/src\<close>) reads a trace of memory accesses, hands each access to the thread that plays the
  processor it belongs to, and counts the misses of the simulated caches; the traces are made
  by a Pin tool (\<^verbatim>\<open>pinatrace.cpp\<close>).

  \<^bold>\<open>The parts of the program and their theories\<close>

  \<^item> \<open>Prelude\<close>: types, faults as values, sequencing of fallible operations, shared lemmas.
  \<^item> \<open>Lru_Cache\<close> models the class template \<^verbatim>\<open>LRUCache\<close> of \<^verbatim>\<open>cache.h\<close>. The record has the fields of
    the class and a supply of node identities, since the hash map holds iterators into the
    list and the code erases nodes: an iterator to an erased node is a fault. The operations
    \<open>put\<close>, \<open>get\<close>, \<open>promote\<close>, \<open>resize\<close>, \<open>checkin\<close>, \<open>checklast\<close> have the names of the member
    functions. \<open>lru_ok\<close> is the class invariant, \<open>contents\<close> the abstraction to a list in recency
    order; the lemmas show that the operations keep the one and refine the other, that no
    iterator is ever invalid, that the capacity bounds the size and that the policy is least
    recently used. The locale \<open>forgetful_store\<close> is the contract the protocol relies on.
  \<^item> \<open>Iostream\<close>: the formatted input and output the program uses of the C++ library.
  \<^item> \<open>Cacheline\<close> models \<^verbatim>\<open>consts.h\<close>, \<^verbatim>\<open>cacheline.h\<close> and the macro \<^verbatim>\<open>convert\<close> of \<^verbatim>\<open>msi.h\<close>.
  \<^item> \<open>Msi\<close> models the rest of \<^verbatim>\<open>msi.h\<close>: the records of \<^verbatim>\<open>Processor\<close> and \<^verbatim>\<open>Bus\<close> (without the
    mutexes, which are in \<open>Msi_System\<close>) and one definition per member function, with the
    switches of \<^verbatim>\<open>pull_request\<close> and \<^verbatim>\<open>Bus::push\<close> as \<open>snoop\<close> and \<open>push_transition\<close>.
  \<^item> \<open>Snooping\<close>: an abstract snooping protocol, and the locale of the laws its tables must obey
    for at most one writer to exist once all requests have been observed; interpreted on
    \<open>push_transition\<close> and \<open>snoop\<close>.
  \<^item> \<open>Msi_Lines\<close>: what each operation does to the states of the lines of one cache.
  \<^item> \<open>Msi_System\<close> models the running program: the two \<^verbatim>\<open>mainloop\<close>s and the main thread as program
    counters, the mutexes as owners, \<open>step\<close> as the interleaving, \<open>reachable\<close> as the states of
    \<^verbatim>\<open>execute\<close>. \<open>run\<close> executes a given schedule.
  \<^item> \<open>Coherence\<close>: every step is simulated by the abstract protocol, and the coherence theorems.
  \<^item> \<open>Liveness\<close>: mutual exclusion, absence of faults and deadlocks, and termination, with the
    measure \<open>work\<close>.
  \<^item> \<open>Msi_Local\<close>: invariants of a single processor in all interleavings (locale
    \<open>local_invariant\<close>), the counters, and what the bus broadcasts.
  \<^item> \<open>Msi_Access\<close>: what one access does from the drain of the queue to the push, stated by the protocol:
    \<open>snooped\<close> is the state a list of requests leaves a line in, \<open>wanted\<close> the modified lines it flushes.
  \<^item> \<open>Trace_Input\<close> models \<^verbatim>\<open>main.cpp\<close>: the two readers, the report, the command line.
  \<^item> \<open>Pinatrace\<close> models \<^verbatim>\<open>pinatrace.cpp\<close> and shows how its log is read back.
  \<^item> \<open>Samples\<close> models the traced programs of \<^verbatim>\<open>samples\<close>: threads that share an array, or the loop
    variable of \<^verbatim>\<open>main\<close>, as step relations over their loads, stores and output, with an invariant
    of all interleavings and a count of the moves a run has.
  \<^item> \<open>Lru_List\<close> composes \<^verbatim>\<open>cache.h\<close> with the linked list of the library: the member functions once more, with
    iterators as addresses of nodes, simulated by \<open>Lru_Cache\<close> and so by the list in recency order.
  \<^item> this theory: what spans tool, reader and simulation.

  The Pin kit in the repository brings its own C++ library, STLport, as source text; the
  algorithms of it (\<^verbatim>\<open>extras/stlport/include/stl\<close>) are a second group of theories, on positions
  and a memory of cells:

  \<^item> \<open>Stl_Base\<close> (\<^verbatim>\<open>_algobase.h\<close>, \<^verbatim>\<open>_algobase.c\<close>): swapping, copying, filling, comparing, finding. The
    variants the library chooses by iterator and element type agree.
  \<^item> \<open>Stl_Search\<close>: what \<^verbatim>\<open>search\<close>, \<^verbatim>\<open>find_end\<close>, \<^verbatim>\<open>find_first_of\<close> and the binary searches find. The locale
    \<open>strict_weak_order\<close> is what the library asks of a comparison; it is interpreted on \<^verbatim>\<open><\<close>.
    \<open>Stl_Search_N\<close>: \<^verbatim>\<open>search_n\<close>, with the version that skips.
  \<^item> \<open>Stl_Sequence\<close>: loops that rewrite a range, as functions on lists; \<open>Stl_Rotate\<close>: the cyclic
    permutation by cycles, and that the three versions of \<^verbatim>\<open>rotate\<close> are one function;
    \<open>Stl_Partition\<close>: \<^verbatim>\<open>partition\<close> and \<^verbatim>\<open>stable_partition\<close>.
  \<^item> \<open>Stl_Heap\<close>: heaps and heap sort; \<open>Stl_Sort\<close>: \<^verbatim>\<open>sort\<close>, \<^verbatim>\<open>partial_sort\<close>, \<^verbatim>\<open>nth_element\<close>, whose inner loops
    run without a test for the end of the range (that they stay inside is shown).
  \<^item> \<open>Stl_Merge\<close> (with the temporary buffer of \<^verbatim>\<open>_tempbuf.h\<close>) and \<open>Stl_Stable\<close>: merging, where the target may
    overlap a source, and \<^verbatim>\<open>stable_sort\<close>, which has one result whatever buffer it can get.
  \<^item> \<open>Stl_Sets\<close>: the set algorithms on sorted ranges as operations on multisets;
    \<open>Stl_Permutation\<close>: \<^verbatim>\<open>next_permutation\<close> and \<^verbatim>\<open>prev_permutation\<close> as inverse steps in the lexicographic order;
    \<open>Stl_Random\<close>: shuffling and sampling, for any generator that stays below its bound;
    \<open>Stl_Numeric\<close> (\<^verbatim>\<open>_numeric.h\<close>, \<^verbatim>\<open>_numeric.c\<close>): prefix sums and differences, powers by squaring.
  \<^item> \<open>Stl_List\<close> and \<open>Stl_List_Ops\<close> (\<^verbatim>\<open>_list.h\<close>, \<^verbatim>\<open>_list.c\<close>): the doubly linked list, on a store of nodes with
    next and previous pointers and the count this version of the library adds; a freed node is gone from
    the store, so following a dangling pointer is a fault. \<open>list_objects\<close> says which nodes the lists of a store
    have, in order, and that no two share one. \<open>Stl_List_Sort\<close>: merging and the merge sort on 64 lists of
    nodes. \<open>Stl_List_Facts\<close>: what each operation does to the elements.
    \<open>Stl_List_Assign\<close>: ranges, assignment and resizing. \<open>Stl_List_Spec\<close>: sequences of
    operations refine plain lists, and the cases in which the library does not keep this contract.
  \<^item> \<open>Stl_Deque\<close> (\<^verbatim>\<open>_deque.h\<close>, \<^verbatim>\<open>_deque.c\<close>), the container under the queues of the program: buffers, a map of
    pointers to them, and iterators into both. \<open>Stl_Deque_Facts\<close>: the cells of all buffers are one
    list, the ends of the deque are positions in it, and moving or growing the map keeps it;
    \<open>Stl_Deque_Moves\<close>: erasing, clearing, construction and destruction. \<open>Stl_Deque_Ops\<close>: the operations on
    ranges and in the middle, with \<open>Stl_Deque_Insert\<close> and \<open>Stl_Deque_Middle\<close> on the four ways in which inserting
    moves elements, towards the nearer end, into cells with and without elements, and \<open>Stl_Deque_Assign\<close> on
    what they do to the list. \<open>Stl_Deque_Spec\<close>: sequences of operations refine a list.
  \<^item> \<open>Stl_Queue\<close> (\<^verbatim>\<open>_queue.h\<close>, \<^verbatim>\<open>_stack.h\<close>): the adaptors over any sequence that
    keeps a contract, which the deque and the list do, and the space a queue takes;
    \<open>Stl_Priority_Queue\<close>: what a client takes from a \<^verbatim>\<open>priority_queue\<close>, a heap.

  \<^bold>\<open>How the code is rendered\<close>

  Ints are 32-bit words and pointers 64-bit words; counters wrap. Undefined behaviour (an
  invalid iterator, an element of an empty container, an index out of range, a variable never
  assigned, a null pointer in a string) is a value of type \<open>fault\<close>. Loops over queues are
  recursions on the queue; the reading loops terminate because a round that does not fault
  consumes input, which is proved. Loops of the library whose end depends on the data are
  partial functions: no result is the value \<open>None\<close>, and that there is a result is part of the
  theorems. No fuel is used anywhere. Comparisons of the library are arbitrary functions; where a
  result depends on it they are assumed to be strict weak orders. Checks that exist only in
  the debug mode of the library (\<^verbatim>\<open>_STLP_DEBUG_CHECK\<close>, \<^verbatim>\<open>_STLP_VERBOSE_ASSERT\<close>) are left out.

  \<^bold>\<open>What is not modelled\<close>

  The sleeps before the report (the report is a function of whatever state the processors have
  reached, and the theorems speak of the state in which nothing is left to do), the rates
  printed in double precision, output to the terminal in debug mode, and data races on the
  emptiness tests of the queues, which are taken to be atomic. The result of \<^verbatim>\<open>getopt\<close>, the
  contents of files, and what Pin reports of the traced program are parameters. Of the library the
  algorithms, the list, the deque (for element types without the library's own move support) and the
  adaptors are modelled, not the other containers, streams and locales, and exceptions thrown by
  element operations or by an allocator are not considered (whether two lists have equal allocators is a
  parameter); of the rest of the Pin kit nothing is modelled: it
  is binaries, headers of interfaces and example tools the program does not use.
\<close>

section \<open>From the traced program to the report\<close>

lemma MetaStat_plus_simps [simp]:
  "stat_cold_misses (MetaStat_plus a b) = stat_cold_misses a + stat_cold_misses b"
  "stat_capacity_misses (MetaStat_plus a b) = stat_capacity_misses a + stat_capacity_misses b"
  "coherence_misses (MetaStat_plus a b) = coherence_misses a + coherence_misses b"
  "flushes (MetaStat_plus a b) = flushes a + flushes b"
  by (simp_all add: MetaStat_plus_def)

lemma MetaStat_default_simps [simp]:
  "stat_cold_misses MetaStat_default = 0" "stat_capacity_misses MetaStat_default = 0"
  "coherence_misses MetaStat_default = 0" "flushes MetaStat_default = 0"
  by (simp_all add: MetaStat_default_def)

lemma push_stats_simps [simp]:
  "stat_cold_misses (stat (push_stats p)) = cold_misses (cache p)"
  "stat_capacity_misses (stat (push_stats p)) = capacity_misses (cache p)"
  "coherence_misses (stat (push_stats p)) = coherence_misses (stat p)"
  "flushes (stat (push_stats p)) = flushes (stat p)"
  by (simp_all add: push_stats_def)

text \<open>A counter that \<^verbatim>\<open>+\<close> adds is the sum of the counters of the processors.\<close>

lemma fold_counter:
  fixes f :: "MetaStat \<Rightarrow> int32"
  assumes "\<And>a b. f (MetaStat_plus a b) = f a + f b"
  shows "f (fold (\<lambda>p t. MetaStat_plus t (stat (push_stats p))) ps t) =
    f t + sum_list (map (\<lambda>p. f (stat (push_stats p))) ps)"
  by (induction ps arbitrary: t) (simp_all add: assms add.assoc)

text \<open>
  The totals of the report are the sums of the processors' counters (as 32-bit ints): the
  miss counters of the caches and the coherence misses and flushes of the processors.
\<close>

theorem total_stat_sums:
  "total_stat b =
     \<lparr>stat_cold_misses = sum_list (map (\<lambda>p. cold_misses (cache p)) (processors b)),
      stat_capacity_misses = sum_list (map (\<lambda>p. capacity_misses (cache p)) (processors b)),
      coherence_misses = sum_list (map (\<lambda>p. coherence_misses (stat p)) (processors b)),
      flushes = sum_list (map (\<lambda>p. flushes (stat p)) (processors b))\<rparr>"
  unfolding total_stat_def
  by (intro MetaStat.equality) (simp_all add: fold_counter)

lemma set_all_tids: "set (all_tids seen rs) = set seen \<union> set rs"
  by (induction rs arbitrary: seen) auto

lemma distinct_all_tids: "distinct seen \<Longrightarrow> distinct (all_tids seen rs)"
  by (induction rs arbitrary: seen) auto

lemma length_all_tids: "length (all_tids [] rs) = card (set rs)"
  using distinct_card [OF distinct_all_tids [of "[]" rs]] set_all_tids [of "[]" rs] by simp

text \<open>The text of a log without its last end of line, and how the reader gets on with it.\<close>

lemma tool_log_less_endl:
  assumes "log_text (run_tool null_text es \<lparr>log_text = [], isROI = roi\<rparr>) = cs @ endl"
  shows "logged roi es \<noteq> []" "cs = log_file null_text (logged roi es)"
proof -
  have c: "concat (map (\<lambda>e. log_line null_text e @ endl) (logged roi es)) = cs @ endl"
    using assms run_tool_log [of null_text es "\<lparr>log_text = [], isROI = roi\<rparr>"] by simp
  then show "logged roi es \<noteq> []" by (auto simp: endl_def)
  from c log_file_endl [OF this, of null_text] show "cs = log_file null_text (logged roi es)" by simp
qed

lemma skipws_log_file:
  assumes "\<forall>e \<in> set es. loggable e" and "es \<noteq> []"
  shows "skipws (log_file null_text es) = log_file null_text es"
proof -
  obtain e es' where es': "es = e # es'" using assms(2) by (cases es) auto
  have "\<exists>c ds. log_file null_text es = c # ds \<and> \<not> isspace c"
    using assms(1) unfolding es' by (cases es') (simp_all add: log_line_def printf_p_def loggable_def)
  then show ?thesis by auto
qed

lemma reads_report_nothing:
  assumes "reachable thread_count capacity ms s" and "quiescent s"
    and "\<forall>m \<in> set ms. trace_type (snd m) = CHR ''R''"
  shows "coherence_misses (total_stat (the_bus s)) = 0 \<and> flushes (total_stat (the_bus s)) = 0"
proof -
  have ms: "\<forall>(i, t) \<in> set ms. trace_type t \<noteq> CHR ''W''" using assms(3) by auto
  have "quiet p" if "p \<in> set (procs s)" for p
    using that reads_only_quiet [OF assms(1) ms] assms(2) by (auto simp: quiescent_def in_set_conv_nth)
  then have "\<forall>p \<in> set (procs s). coherence_misses (stat p) = 0 \<and> flushes (stat p) = 0"
    by (auto simp: quiet_def zero_stat_def)
  moreover have "sum_list (map f xs) = 0" if "\<forall>x \<in> set xs. f x = 0" for f :: "Processor \<Rightarrow> int32" and xs
    using that by (induction xs) auto
  ultimately show ?thesis by (simp add: total_stat_def fold_counter)
qed

text \<open>
  C14. From the traced program to the report. The tool runs over any sequence of reads and writes of a program under test, and
  what it has written is given to the simulator less its last end of line (with it the reader would go on to use
  variables it has not assigned). If no logged access has a null address or instruction pointer
  or a negative thread number, and the logged accesses come from no more threads than there are
  processors, then the reader returns one trace per logged access, without a fault; and however the simulator's threads interleave
  on these traces, when nothing is left to do the report shows no coherence miss and no flush, writes or not: \<^verbatim>\<open>RecordMemWrite\<close>
  prints the letter of a read.
\<close>

theorem traced_program_reports_no_coherence_misses:
  assumes "log_text (run_tool null_text es \<lparr>log_text = [], isROI = roi\<rparr>) = cs @ endl"
    and "\<forall>e \<in> set (logged roi es). loggable e" and "card (ev_tid ` set (logged roi es)) \<le> n"
  shows "\<exists>ms st. realloop n (stream cs) real_start = Inr (ms, st) \<and> length ms = length (logged roi es) \<and>
    (\<forall>thread_count capacity s. reachable thread_count capacity ms s \<longrightarrow> quiescent s \<longrightarrow>
       coherence_misses (total_stat (the_bus s)) = 0 \<and> flushes (total_stat (the_bus s)) = 0)"
proof -
  note cs = tool_log_less_endl [OF assms(1)]
  have "length (all_tids (anti_map real_start) (map ev_tid (logged roi es))) \<le> n"
    using assms(3) length_all_tids by (simp add: real_start_def)
  from realloop_logged [OF assms(2) cs(1) skipws_log_file [OF assms(2) cs(1)] tids_ok_start this]
  obtain ms st where ms: "realloop n (stream cs) real_start = Inr (ms, st)"
    "map (\<lambda>m. trace_tag (snd m)) ms = map ev_addr (logged roi es)"
    "\<forall>m \<in> set ms. trace_type (snd m) = CHR ''R''"
    unfolding cs(2) by blast
  moreover have "length ms = length (logged roi es)" using ms(2) map_eq_imp_length_eq by blast
  ultimately show ?thesis using reads_report_nothing [OF _ _ ms(3)] by blast
qed

text \<open>The log of one write by one thread.\<close>

lemma demo_log:
  "log_text (run_tool ''(nil)'' [(True, demo_event 64 14030)] \<lparr>log_text = [], isROI = True\<rparr>) =
     log_line ''(nil)'' (demo_event 64 14030) @ endl"
  "logged True [(True, demo_event 64 14030)] = [demo_event 64 14030]" "loggable (demo_event 64 14030)"
  by (simp_all add: RecordMemWrite_def mark_roi_def demo_event_def compstrstart_def compstrend_def loggable_def)

lemma demo_log_traces:
  "\<exists>ms st. realloop 1 (stream (log_line ''(nil)'' (demo_event 64 14030))) real_start = Inr (ms, st) \<and> map fst ms = [0]"
  using realloop_logged [of "[demo_event 64 14030]" "log_line ''(nil)'' (demo_event 64 14030)" "''(nil)''" real_start 1]
    skipws_log_file [of "[demo_event 64 14030]" "''(nil)''"] demo_log(3) tids_ok_start
  by (auto simp: real_start_def)

theorem traced_program_reports_no_coherence_misses_witness:
  "\<exists>ms st s. realloop 1 (stream (log_line ''(nil)'' (demo_event 64 14030))) real_start = Inr (ms, st) \<and>
     length ms = 1 \<and> reachable 1 2 ms s \<and> quiescent s \<and>
     coherence_misses (total_stat (the_bus s)) = 0 \<and> flushes (total_stat (the_bus s)) = 0"
proof -
  let ?b = "\<lparr>processors = [Processor_new 2 0], bus_requests = []\<rparr>"
  obtain ms st where ms: "realloop 1 (stream (log_line ''(nil)'' (demo_event 64 14030))) real_start = Inr (ms, st)"
      "map fst ms = [0]"
    using demo_log_traces by (elim exE conjE)
  have "i < 1" if "(i, t) \<in> set ms" for i t
    using that ms(2) by (auto simp: map_eq_Cons_conv)
  moreover have "Bus_new 1 2 = Inr ?b" by (simp add: Bus_new_def)
  ultimately have r0: "reachable 1 2 ms (initial ?b ms)" by (intro reachable.start) auto
  then obtain k s where "steps k (initial ?b ms) s" "quiescent s"
    using reaches_quiescence reachable_ok by blast
  with r0 have s: "reachable 1 2 ms s" "quiescent s" using steps_reachable by blast+
  have "length (logged True [(True, demo_event 64 14030)]) = 1" unfolding demo_log(2) by simp
  moreover have "\<forall>e \<in> set (logged True [(True, demo_event 64 14030)]). loggable e"
    "card (ev_tid ` set (logged True [(True, demo_event 64 14030)])) \<le> 1"
    unfolding demo_log(2) using demo_log(3) by simp_all
  ultimately show ?thesis
    using traced_program_reports_no_coherence_misses [OF demo_log(1), of 1] ms(1) s by fastforce
qed

end
